(* ===== verification/Ruby_Prelude.thy ===== *)
theory Ruby_Prelude
  imports Main "HOL-Library.Multiset" "HOL-Library.Monad_Syntax" "HOL-Library.Word"
    "HOL-Library.Product_Lexorder"
begin

text \<open>
  Shared material of the development: the type of computations that may abort, the
  named theorem collections, and the generic facts on lists, options and multisets that the
  component theories use.

  A C++ function of Ruby that contains \<^verbatim>\<open>assert\<close>, \<^verbatim>\<open>ASSERT\<close> or
  \<^verbatim>\<open>ERROR_MSG\<close> ends the simulator when the check fails.  Its model returns an
  \<open>option\<close>: \<open>None\<close> is the aborted run, \<open>Some\<close> carries the result and the new state.
  The option monad of \<^theory_text>\<open>HOL-Library.Monad_Syntax\<close> sequences such calls, so that an
  abort in any call aborts the caller.
\<close>

named_theorems abort_simps \<open>evaluation of sequences of checked calls\<close>
named_theorems state_simps \<open>fields that an operation leaves alone\<close>
named_theorems inv_intros \<open>preservation of component invariants\<close>

type_synonym Time = int
type_synonym Index = int
type_synonym NodeID = int

definition assert_that :: "bool \<Rightarrow> unit option" where
  "assert_that b = (if b then Some () else None)"

lemma assert_that_simps [simp, abort_simps]:
  "assert_that True = Some ()"
  "assert_that False = None"
  by (simp_all add: assert_that_def)

lemma assert_that_eq_Some [simp]: "assert_that b = Some u \<longleftrightarrow> b"
  by (simp add: assert_that_def)

lemma bind_assert_that [simp]: "Option.bind (assert_that b) f = (if b then f () else None)"
  by (simp add: assert_that_def)

lemma bind_eq_SomeE:
  assumes "Option.bind m f = Some y"
  obtains x where "m = Some x" "f x = Some y"
  using assms by (auto simp: bind_eq_Some_conv)

subsection \<open>Integer division of C\<close>

text \<open>Division of C and C++ integers truncates toward zero.\<close>

definition cdiv :: "int \<Rightarrow> int \<Rightarrow> int" where
  "cdiv a b = sgn a * sgn b * (\<bar>a\<bar> div \<bar>b\<bar>)"

lemma cdiv_nonneg [simp]: "\<lbrakk>0 \<le> a; 0 \<le> b\<rbrakk> \<Longrightarrow> cdiv a b = a div b"
  by (auto simp: cdiv_def sgn_if)

subsection \<open>Lists\<close>

definition swap_list :: "'a list \<Rightarrow> nat \<Rightarrow> nat \<Rightarrow> 'a list" where
  "swap_list xs i j = xs[i := xs ! j, j := xs ! i]"

lemma length_swap_list [simp]: "length (swap_list xs i j) = length xs"
  by (simp add: swap_list_def)

lemma nth_swap_list:
  "\<lbrakk>i < length xs; j < length xs; k < length xs\<rbrakk> \<Longrightarrow>
   swap_list xs i j ! k = (if k = i then xs ! j else if k = j then xs ! i else xs ! k)"
  by (auto simp: swap_list_def nth_list_update)

text \<open>Reading a \<^verbatim>\<open>std::vector\<close>; an index out of range, undefined in C++, is an abort.\<close>

definition vec_at :: "'a list \<Rightarrow> nat \<Rightarrow> 'a option" where
  "vec_at xs i = (if i < length xs then Some (xs ! i) else None)"

text \<open>Copying a prefix of one array over another, element by element.\<close>

fun copy_upto :: "nat \<Rightarrow> 'a list \<Rightarrow> 'a list \<Rightarrow> 'a list" where
  "copy_upto 0 src dst = dst"
| "copy_upto (Suc n) src dst = (copy_upto n src dst)[n := src ! n]"

lemma length_copy_upto [simp]: "length (copy_upto n src dst) = length dst"
  by (induction n) auto

lemma nth_copy_upto:
  "k < length dst \<Longrightarrow> copy_upto n src dst ! k = (if k < n then src ! k else dst ! k)"
  by (induction n) (auto simp: nth_list_update less_Suc_eq)

lemma take_copy_upto:
  "\<lbrakk>n \<le> length src; n \<le> length dst\<rbrakk> \<Longrightarrow> take n (copy_upto n src dst) = take n src"
  by (rule nth_equalityI) (auto simp: nth_copy_upto)

lemma mset_remove_nth:
  "i < length xs \<Longrightarrow> mset xs = add_mset (xs ! i) (mset (take i xs @ drop (Suc i) xs))"
  using id_take_nth_drop [of i xs] by (metis mset.simps(2) mset_append union_mset_add_mset_right)

lemma nth_range_in_mset:
  assumes "i < length xs" "j < length xs" "i \<noteq> j"
  shows "xs ! j \<in># mset xs - {#xs ! i#}"
proof -
  have "xs ! j \<in> set (take i xs @ drop (Suc i) xs)"
  proof (cases "j < i")
    case True
    with assms show ?thesis by (auto simp: in_set_conv_nth)
  next
    case False
    with assms have "drop (Suc i) xs ! (j - Suc i) = xs ! j" "j - Suc i < length (drop (Suc i) xs)"
      by auto
    then have "xs ! j \<in> set (drop (Suc i) xs)" by (metis nth_mem)
    then show ?thesis by simp
  qed
  then have "xs ! j \<in># mset (take i xs @ drop (Suc i) xs)" by simp
  then show ?thesis using mset_remove_nth [OF assms(1)] by simp
qed

end
