(* ===== verification/Vector_Model.thy ===== *)
theory Vector_Model
  imports Ruby_Prelude
begin

text \<open>
  The container \<^verbatim>\<open>Vector\<close> of \<^verbatim>\<open>common/Vector.h\<close>: a buffer of \<^verbatim>\<open>m_max_size\<close>
  elements of which the first \<^verbatim>\<open>m_size\<close> are in use.  \<^verbatim>\<open>new TYPE[n]\<close> fills the
  buffer with default-constructed elements, the parameter \<open>d\<close>.  Every access through
  \<^verbatim>\<open>ref\<close> is checked as in a build with bounds checks; an access out of range aborts.
  The abstraction \<open>vec_list\<close> is the list of elements in use, and every operation refines
  the list operation its comment in the header announces.
\<close>

record 'a vector =
  v_vec :: "'a list"
  v_size :: int
  v_max_size :: int

definition vec_new :: "'a vector" where
  "vec_new = \<lparr>v_vec = [], v_size = 0, v_max_size = 0\<rparr>"

definition vec_grow :: "'a \<Rightarrow> 'a vector \<Rightarrow> int \<Rightarrow> 'a vector" where
  "vec_grow d v new_max_size =
     v\<lparr>v_max_size := new_max_size,
       v_vec := copy_upto (nat (v_size v)) (v_vec v) (replicate (nat new_max_size) d)\<rparr>"

definition vec_with_capacity :: "'a \<Rightarrow> int \<Rightarrow> 'a vector" where
  "vec_with_capacity d initial_size =
     vec_grow d \<lparr>v_vec = [], v_size = 0, v_max_size = initial_size\<rparr> initial_size"

definition vec_ref :: "'a vector \<Rightarrow> int \<Rightarrow> 'a option" where
  "vec_ref v index = do {
     assert_that (v_size v \<noteq> 0);
     assert_that (index < v_size v);
     assert_that (index \<ge> 0);
     Some (v_vec v ! nat index)
   }"

definition vec_set :: "'a vector \<Rightarrow> int \<Rightarrow> 'a \<Rightarrow> 'a vector option" where
  "vec_set v index x = do {
     assert_that (v_size v \<noteq> 0);
     assert_that (index < v_size v);
     assert_that (index \<ge> 0);
     Some (v\<lparr>v_vec := (v_vec v)[nat index := x]\<rparr>)
   }"

definition vec_setSize :: "'a \<Rightarrow> 'a vector \<Rightarrow> int \<Rightarrow> 'a vector option" where
  "vec_setSize d v new_size = do {
     let v = (if new_size > v_max_size v
              then vec_grow d v (max ((v_max_size v + 1) * 2) new_size) else v);
     let v = v\<lparr>v_size := new_size\<rparr>;
     assert_that (v_size v \<le> v_max_size v);
     assert_that (v_size v \<ge> 0);
     Some v
   }"

definition vec_expand :: "'a \<Rightarrow> 'a vector \<Rightarrow> int \<Rightarrow> 'a vector option" where
  "vec_expand d v num = vec_setSize d v (v_size v + num)"

fun vec_fill :: "'a vector \<Rightarrow> nat \<Rightarrow> nat \<Rightarrow> 'a \<Rightarrow> 'a vector option" where
  "vec_fill v j 0 reset = Some v"
| "vec_fill v j (Suc n) reset = do { v \<leftarrow> vec_set v (int j) reset; vec_fill v (Suc j) n reset }"

definition vec_increaseSize :: "'a \<Rightarrow> 'a vector \<Rightarrow> int \<Rightarrow> 'a \<Rightarrow> 'a vector option" where
  "vec_increaseSize d v new_size reset = do {
     assert_that (new_size \<ge> v_size v);
     let old_size = v_size v;
     let v = (if new_size \<ge> v_max_size v
              then vec_grow d v (max ((v_max_size v + 1) * 2) new_size) else v);
     let v = v\<lparr>v_size := new_size\<rparr>;
     v \<leftarrow> vec_fill v (nat old_size) (nat (new_size - old_size)) reset;
     assert_that (v_size v \<le> v_max_size v);
     assert_that (v_size v \<ge> 0);
     Some v
   }"

definition vec_clear :: "'a vector \<Rightarrow> 'a vector" where
  "vec_clear v = v\<lparr>v_size := 0, v_max_size := 0, v_vec := []\<rparr>"

definition vec_sortVector :: "('a::linorder) vector \<Rightarrow> 'a vector" where
  "vec_sortVector v =
     v\<lparr>v_vec := sort (take (nat (v_size v)) (v_vec v)) @ drop (nat (v_size v)) (v_vec v)\<rparr>"

text \<open>The loop of \<^verbatim>\<open>insertAtTop\<close>, from \<open>i\<close> down to 1.\<close>

fun vec_shift_down :: "'a vector \<Rightarrow> nat \<Rightarrow> 'a vector option" where
  "vec_shift_down v 0 = Some v"
| "vec_shift_down v (Suc i) = do {
     x \<leftarrow> vec_ref v (int i);
     v \<leftarrow> vec_set v (int (Suc i)) x;
     vec_shift_down v i
   }"

definition vec_insertAtTop :: "'a \<Rightarrow> 'a vector \<Rightarrow> 'a \<Rightarrow> 'a vector option" where
  "vec_insertAtTop d v element = do {
     v \<leftarrow> vec_setSize d v (v_size v + 1);
     v \<leftarrow> vec_shift_down v (nat (v_size v - 1));
     vec_set v 0 element
   }"

definition vec_insertAtBottom :: "'a \<Rightarrow> 'a vector \<Rightarrow> 'a \<Rightarrow> 'a vector option" where
  "vec_insertAtBottom d v element = do {
     v \<leftarrow> vec_setSize d v (v_size v + 1);
     vec_set v (v_size v - 1) element
   }"

text \<open>The loop of \<^verbatim>\<open>removeFromTop\<close>: element \<open>i + num\<close> moves to position \<open>i\<close>.\<close>

fun shift_left :: "nat \<Rightarrow> nat \<Rightarrow> nat \<Rightarrow> 'a list \<Rightarrow> 'a list" where
  "shift_left i 0 num xs = xs"
| "shift_left i (Suc n) num xs = shift_left (Suc i) n num (xs[i := xs ! (i + num)])"

definition vec_removeFromTop :: "'a vector \<Rightarrow> int \<Rightarrow> 'a vector" where
  "vec_removeFromTop v num =
     (let num = (if num > v_size v then v_size v else num)
      in v\<lparr>v_vec := shift_left 0 (nat (v_size v - num)) (nat num) (v_vec v),
           v_size := v_size v - num\<rparr>)"

fun vec_sum_from :: "'a::plus vector \<Rightarrow> nat \<Rightarrow> nat \<Rightarrow> 'a \<Rightarrow> 'a option" where
  "vec_sum_from v i 0 s = Some s"
| "vec_sum_from v i (Suc n) s = do { x \<leftarrow> vec_ref v (int i); vec_sum_from v (Suc i) n (s + x) }"

definition vec_sum :: "'a::plus vector \<Rightarrow> 'a option" where
  "vec_sum v = do {
     assert_that (v_size v > 0);
     s \<leftarrow> vec_ref v 0;
     vec_sum_from v 1 (nat (v_size v - 1)) s
   }"

definition vec_copy :: "'a \<Rightarrow> 'a vector \<Rightarrow> 'a vector" where
  "vec_copy d v =
     \<lparr>v_vec = copy_upto (nat (v_size v)) (v_vec v) (replicate (nat (v_max_size v)) d),
      v_size = v_size v, v_max_size = v_max_size v\<rparr>"

subsection \<open>Invariant and abstraction\<close>

definition vec_inv :: "'a vector \<Rightarrow> bool" where
  "vec_inv v \<longleftrightarrow> length (v_vec v) = nat (v_max_size v) \<and> 0 \<le> v_size v \<and> v_size v \<le> v_max_size v"

definition vec_list :: "'a vector \<Rightarrow> 'a list" where
  "vec_list v = take (nat (v_size v)) (v_vec v)"

lemma vec_inv_new [simp, inv_intros]: "vec_inv vec_new"
  by (simp add: vec_inv_def vec_new_def)

lemma vec_list_new [simp]: "vec_list vec_new = []"
  by (simp add: vec_list_def vec_new_def)

lemma length_vec_list [simp]: "vec_inv v \<Longrightarrow> length (vec_list v) = nat (v_size v)"
  by (simp add: vec_inv_def vec_list_def nat_mono)

lemma vec_ref_eq:
  "vec_inv v \<Longrightarrow> vec_ref v i = (if 0 \<le> i \<and> i < v_size v then Some (vec_list v ! nat i) else None)"
  by (auto simp: vec_ref_def vec_list_def)

lemma vec_set_eq:
  "vec_set v i x = (if 0 \<le> i \<and> i < v_size v then Some (v\<lparr>v_vec := (v_vec v)[nat i := x]\<rparr>) else None)"
  by (auto simp: vec_set_def)

lemma vec_set_Some:
  assumes "vec_inv v" "0 \<le> i" "i < v_size v"
  obtains v' where "vec_set v i x = Some v'" "vec_inv v'" "vec_list v' = (vec_list v)[nat i := x]"
    "v_size v' = v_size v" "v_max_size v' = v_max_size v"
  using assms by (auto simp: vec_set_eq vec_inv_def vec_list_def take_update_swap)

lemma vec_grow_inv:
  assumes "vec_inv v" "v_size v \<le> n"
  shows "vec_inv (vec_grow d v n)" "vec_list (vec_grow d v n) = vec_list v"
    "v_size (vec_grow d v n) = v_size v" "v_max_size (vec_grow d v n) = n"
  using assms by (auto simp: vec_inv_def vec_list_def vec_grow_def take_copy_upto nat_mono)

lemma vec_inv_resize:
  "\<lbrakk>vec_inv v; 0 \<le> n; n \<le> v_max_size v\<rbrakk> \<Longrightarrow> vec_inv (v\<lparr>v_size := n\<rparr>)"
  by (simp add: vec_inv_def)

lemma vec_setSize_Some:
  assumes v: "vec_inv v" and n: "0 \<le> n"
  obtains v' where "vec_setSize d v n = Some v'" "vec_inv v'" "v_size v' = n"
    "\<And>i. \<lbrakk>i < nat (v_size v); i < nat n\<rbrakk> \<Longrightarrow> vec_list v' ! i = vec_list v ! i"
proof -
  let ?g = "if n > v_max_size v then vec_grow d v (max ((v_max_size v + 1) * 2) n) else v"
  have g: "vec_inv ?g" "v_size ?g = v_size v" "vec_list ?g = vec_list v" "n \<le> v_max_size ?g"
    using v vec_grow_inv [OF v, of "max ((v_max_size v + 1) * 2) n" d]
    by (auto simp: vec_inv_def)
  then have inv: "vec_inv (?g\<lparr>v_size := n\<rparr>)" using n by (intro vec_inv_resize)
  have same: "vec_list (?g\<lparr>v_size := n\<rparr>) ! i = vec_list v ! i"
    if "i < nat (v_size v)" "i < nat n" for i
  proof -
    have "vec_list (?g\<lparr>v_size := n\<rparr>) ! i = vec_list ?g ! i"
      using that g(2) by (simp add: vec_list_def)
    then show ?thesis by (simp only: g(3))
  qed
  have "vec_setSize d v n = Some (?g\<lparr>v_size := n\<rparr>)"
    using g(4) n by (simp add: vec_setSize_def Let_def)
  then show thesis by (rule that [OF _ inv _ same]) simp_all
qed

lemma vec_setSize_negative: "n < 0 \<Longrightarrow> vec_setSize d v n = None"
  by (simp add: vec_setSize_def Let_def)

lemma vec_insertAtBottom_Some:
  assumes v: "vec_inv v"
  obtains v' where "vec_insertAtBottom d v x = Some v'" "vec_inv v'" "vec_list v' = vec_list v @ [x]"
proof -
  have size: "0 \<le> v_size v" using v by (simp add: vec_inv_def)
  from vec_setSize_Some [OF v, of "v_size v + 1" d] size obtain w where
    w: "vec_setSize d v (v_size v + 1) = Some w" "vec_inv w" "v_size w = v_size v + 1"
    and same: "\<And>i. i < nat (v_size v) \<Longrightarrow> vec_list w ! i = vec_list v ! i"
    by (metis add_nonneg_nonneg zero_le_one zless_add1_eq nat_less_eq_zless linorder_not_le
        nat_0_le order_less_trans less_add_one nat_less_iff)
  from vec_set_Some [OF w(2), of "v_size w - 1" x] w(3) size obtain v' where
    v': "vec_set w (v_size w - 1) x = Some v'" "vec_inv v'"
    "vec_list v' = (vec_list w)[nat (v_size v) := x]"
    by (metis add_diff_cancel_right' less_add_one)
  have "length (vec_list w) = Suc (nat (v_size v))" using w size by simp
  moreover have "length (vec_list v) = nat (v_size v)" using v by simp
  ultimately have "vec_list v' = vec_list v @ [x]"
    unfolding v'(3) by (intro nth_equalityI) (auto simp: nth_append nth_list_update same less_Suc_eq)
  moreover have "vec_insertAtBottom d v x = Some v'"
    using w(1) v'(1) by (simp add: vec_insertAtBottom_def)
  ultimately show thesis using v'(2) that by blast
qed

lemma vec_shift_down_Some:
  "\<lbrakk>vec_inv v; int n < v_size v\<rbrakk> \<Longrightarrow>
   \<exists>v'. vec_shift_down v n = Some v' \<and> vec_inv v' \<and> v_size v' = v_size v \<and>
     (\<forall>i < nat (v_size v). vec_list v' ! i =
        (if 1 \<le> i \<and> i \<le> n then vec_list v ! (i - 1) else vec_list v ! i))"
proof (induction n arbitrary: v)
  case 0
  then show ?case by simp
next
  case (Suc n)
  from vec_set_Some [OF Suc.prems(1), of "int (Suc n)" "vec_list v ! n"] Suc.prems(2) obtain w where
    w: "vec_set v (int (Suc n)) (vec_list v ! n) = Some w" "vec_inv w" "v_size w = v_size v"
      "vec_list w = (vec_list v)[Suc n := vec_list v ! n]"
    by (metis nat_int of_nat_0_le_iff)
  have len: "length (vec_list v) = nat (v_size v)" using Suc.prems(1) by simp
  from Suc.IH [OF w(2)] Suc.prems(2) w(3) obtain v' where
    v': "vec_shift_down w n = Some v'" "vec_inv v'" "v_size v' = v_size v"
      "\<forall>i < nat (v_size v). vec_list v' ! i =
        (if 1 \<le> i \<and> i \<le> n then vec_list w ! (i - 1) else vec_list w ! i)"
    by auto
  have "vec_shift_down v (Suc n) = Some v'"
    using Suc.prems w(1) v'(1) by (simp add: vec_ref_eq)
  moreover have "\<forall>i < nat (v_size v). vec_list v' ! i =
        (if 1 \<le> i \<and> i \<le> Suc n then vec_list v ! (i - 1) else vec_list v ! i)"
    using v'(4) len by (auto simp: w(4) nth_list_update le_Suc_eq)
  ultimately show ?case using v'(2,3) by blast
qed

lemma vec_insertAtTop_Some:
  assumes v: "vec_inv v"
  obtains v' where "vec_insertAtTop d v x = Some v'" "vec_inv v'" "vec_list v' = x # vec_list v"
proof -
  have size: "0 \<le> v_size v" using v by (simp add: vec_inv_def)
  from vec_setSize_Some [OF v, of "v_size v + 1" d] size obtain w where
    w: "vec_setSize d v (v_size v + 1) = Some w" "vec_inv w" "v_size w = v_size v + 1"
    and same: "\<And>i. \<lbrakk>i < nat (v_size v); i < nat (v_size v + 1)\<rbrakk> \<Longrightarrow> vec_list w ! i = vec_list v ! i"
    by auto
  from vec_shift_down_Some [OF w(2), of "nat (v_size w - 1)"] w(3) size obtain u where
    u: "vec_shift_down w (nat (v_size w - 1)) = Some u" "vec_inv u" "v_size u = v_size v + 1"
    and sh: "\<forall>i < nat (v_size v + 1). vec_list u ! i =
        (if 1 \<le> i \<and> i \<le> nat (v_size v) then vec_list w ! (i - 1) else vec_list w ! i)"
    by auto
  from vec_set_Some [OF u(2), of 0 x] u(3) size obtain v' where
    v': "vec_set u 0 x = Some v'" "vec_inv v'" "vec_list v' = (vec_list u)[0 := x]"
    by auto
  have len: "length (vec_list v) = nat (v_size v)" "length (vec_list u) = nat (v_size v + 1)"
    using v u(2,3) by simp_all
  have "vec_list v' = x # vec_list v"
    unfolding v'(3) using len size sh same
    by (intro nth_equalityI) (auto simp: nth_list_update nth_Cons' nat_add_distrib)
  moreover have "vec_insertAtTop d v x = Some v'"
    using w(1) u(1) v'(1) by (simp add: vec_insertAtTop_def)
  ultimately show thesis using v'(2) that by blast
qed

lemma length_shift_left [simp]: "length (shift_left i n num xs) = length xs"
  by (induction n arbitrary: i xs) auto

lemma nth_shift_left:
  "\<lbrakk>i + n + num \<le> length xs; k < length xs\<rbrakk> \<Longrightarrow>
   shift_left i n num xs ! k = (if i \<le> k \<and> k < i + n then xs ! (k + num) else xs ! k)"
  by (induction n arbitrary: i xs) (auto simp: nth_list_update)

lemma vec_removeFromTop_refines:
  assumes v: "vec_inv v" and n: "0 \<le> n"
  shows "vec_inv (vec_removeFromTop v n)" "vec_list (vec_removeFromTop v n) = drop (nat n) (vec_list v)"
proof -
  let ?n = "if n > v_size v then v_size v else n"
  have len: "nat (v_size v) \<le> length (v_vec v)" "0 \<le> v_size v" "length (vec_list v) = nat (v_size v)"
    using v by (simp_all add: vec_inv_def nat_mono)
  show "vec_inv (vec_removeFromTop v n)"
    using v n by (auto simp: vec_inv_def vec_removeFromTop_def Let_def)
  have "vec_list (vec_removeFromTop v n) = drop (nat ?n) (vec_list v)"
    using len n by (intro nth_equalityI)
      (auto simp: vec_list_def vec_removeFromTop_def Let_def nth_shift_left nat_diff_distrib add.commute)
  then show "vec_list (vec_removeFromTop v n) = drop (nat n) (vec_list v)"
    using len by (auto split: if_splits)
qed

lemma vec_fill_Some:
  "\<lbrakk>vec_inv v; int (j + n) \<le> v_size v\<rbrakk> \<Longrightarrow>
   \<exists>v'. vec_fill v j n r = Some v' \<and> vec_inv v' \<and> v_size v' = v_size v \<and>
     vec_list v' = take j (vec_list v) @ replicate n r @ drop (j + n) (vec_list v)"
proof (induction n arbitrary: v j)
  case 0
  then show ?case by simp
next
  case (Suc n)
  from vec_set_Some [OF Suc.prems(1), of "int j" r] Suc.prems(2) obtain w where
    w: "vec_set v (int j) r = Some w" "vec_inv w" "v_size w = v_size v"
      "vec_list w = (vec_list v)[j := r]"
    by (metis nat_int of_nat_0_le_iff add_Suc_right lessI le_add1 order_le_less_trans
        order_less_le_trans of_nat_less_iff)
  from Suc.IH [OF w(2), of "Suc j"] Suc.prems(2) w(3) obtain v' where
    v': "vec_fill w (Suc j) n r = Some v'" "vec_inv v'" "v_size v' = v_size v"
      "vec_list v' = take (Suc j) (vec_list w) @ replicate n r @ drop (Suc j + n) (vec_list w)"
    by auto
  have "j < length (vec_list v)" using Suc.prems by simp
  then have "vec_list v' = take j (vec_list v) @ replicate (Suc n) r @ drop (j + Suc n) (vec_list v)"
    unfolding v'(4) w(4) by (simp add: take_Suc_conv_app_nth)
  then show ?case using w(1) v' by simp
qed

lemma vec_increaseSize_Some:
  assumes v: "vec_inv v" and n: "v_size v \<le> n"
  obtains v' where "vec_increaseSize d v n r = Some v'" "vec_inv v'"
    "vec_list v' = vec_list v @ replicate (nat (n - v_size v)) r"
proof -
  let ?g = "if n \<ge> v_max_size v then vec_grow d v (max ((v_max_size v + 1) * 2) n) else v"
  have size: "0 \<le> v_size v" using v by (simp add: vec_inv_def)
  have g: "vec_inv ?g" "v_size ?g = v_size v" "vec_list ?g = vec_list v" "n \<le> v_max_size ?g"
    using v n vec_grow_inv [OF v, of "max ((v_max_size v + 1) * 2) n" d]
    by (auto simp: vec_inv_def)
  let ?w = "?g\<lparr>v_size := n\<rparr>"
  have w: "vec_inv ?w" "v_size ?w = n" using g(1,4) n size by (simp_all add: vec_inv_resize)
  have pre: "take (nat (v_size v)) (vec_list ?w) = vec_list v"
  proof -
    have "take (nat (v_size v)) (vec_list ?w) = vec_list ?g"
      using n g(2) by (simp add: vec_list_def min_def nat_mono)
    then show ?thesis by (simp only: g(3))
  qed
  from vec_fill_Some [OF w(1), of "nat (v_size v)" "nat (n - v_size v)" r] n size w(2) obtain v' where
    v': "vec_fill ?w (nat (v_size v)) (nat (n - v_size v)) r = Some v'" "vec_inv v'" "v_size v' = n"
      "vec_list v' = vec_list v @ replicate (nat (n - v_size v)) r @
         drop (nat (v_size v) + nat (n - v_size v)) (vec_list ?w)"
    by (auto simp: pre)
  have "drop (nat (v_size v) + nat (n - v_size v)) (vec_list ?w) = []"
    using w n size by simp
  then have "vec_list v' = vec_list v @ replicate (nat (n - v_size v)) r" using v'(4) by simp
  moreover have "vec_increaseSize d v n r = Some v'"
    using n v' by (simp add: vec_increaseSize_def Let_def vec_inv_def)
  ultimately show thesis using v'(2) that by blast
qed

lemma vec_sum_from_Some:
  "\<lbrakk>vec_inv v; int (i + n) \<le> v_size v\<rbrakk> \<Longrightarrow>
   vec_sum_from v i n s = Some (foldl (+) s (take n (drop i (vec_list v))))"
proof (induction n arbitrary: i s)
  case 0
  then show ?case by simp
next
  case (Suc n)
  then have "i < length (vec_list v)" by simp
  then have "take (Suc n) (drop i (vec_list v)) = vec_list v ! i # take n (drop (Suc i) (vec_list v))"
    by (metis Cons_nth_drop_Suc take_Suc_Cons)
  then show ?case using Suc by (simp add: vec_ref_eq)
qed

lemma vec_sum_eq:
  assumes "vec_inv v" "vec_list v = x # xs"
  shows "vec_sum v = Some (foldl (+) x xs)"
proof -
  have "nat (v_size v) = Suc (length xs)" using assms length_vec_list [of v] by simp
  then have size: "v_size v = int (length xs) + 1" by simp
  then show ?thesis
    using assms vec_sum_from_Some [OF assms(1), of 1 "length xs" x]
    by (simp add: vec_sum_def vec_ref_eq)
qed

lemma vec_copy_eq: "vec_inv v \<Longrightarrow> vec_inv (vec_copy d v) \<and> vec_list (vec_copy d v) = vec_list v"
  by (auto simp: vec_copy_def vec_inv_def vec_list_def take_copy_upto nat_mono)

lemma vec_sortVector_eq:
  "vec_inv v \<Longrightarrow> vec_inv (vec_sortVector v) \<and> vec_list (vec_sortVector v) = sort (vec_list v)"
  by (auto simp: vec_sortVector_def vec_inv_def vec_list_def nat_mono)

subsection \<open>The interface of a growable array\<close>

text \<open>
  What the clients of \<^verbatim>\<open>Vector\<close> rely on: reads and writes in range succeed and agree with
  the list view, the insertions never abort and extend the list view at one end.
\<close>

locale flex_array =
  fixes inv :: "'v \<Rightarrow> bool"
    and alist :: "'v \<Rightarrow> 'a list"
    and empty :: "'v"
    and ref :: "'v \<Rightarrow> int \<Rightarrow> 'a option"
    and upd :: "'v \<Rightarrow> int \<Rightarrow> 'a \<Rightarrow> 'v option"
    and add_hi :: "'v \<Rightarrow> 'a \<Rightarrow> 'v option"
    and add_lo :: "'v \<Rightarrow> 'a \<Rightarrow> 'v option"
  assumes inv_empty: "inv empty"
    and alist_empty: "alist empty = []"
    and ref_law: "inv v \<Longrightarrow>
      ref v i = (if 0 \<le> i \<and> nat i < length (alist v) then Some (alist v ! nat i) else None)"
    and upd_in: "\<lbrakk>inv v; 0 \<le> i; nat i < length (alist v)\<rbrakk> \<Longrightarrow>
      \<exists>v'. upd v i x = Some v' \<and> inv v' \<and> alist v' = (alist v)[nat i := x]"
    and upd_out: "\<lbrakk>inv v; i < 0 \<or> length (alist v) \<le> nat i\<rbrakk> \<Longrightarrow> upd v i x = None"
    and add_hi_law: "inv v \<Longrightarrow> \<exists>v'. add_hi v x = Some v' \<and> inv v' \<and> alist v' = alist v @ [x]"
    and add_lo_law: "inv v \<Longrightarrow> \<exists>v'. add_lo v x = Some v' \<and> inv v' \<and> alist v' = x # alist v"
begin

fun add_all :: "'v \<Rightarrow> 'a list \<Rightarrow> 'v option" where
  "add_all v [] = Some v"
| "add_all v (x # xs) = Option.bind (add_hi v x) (\<lambda>v. add_all v xs)"

lemma add_all_appends: "inv v \<Longrightarrow> \<exists>v'. add_all v xs = Some v' \<and> inv v' \<and> alist v' = alist v @ xs"
proof (induction xs arbitrary: v)
  case Nil
  then show ?case by simp
next
  case (Cons x xs)
  from add_hi_law [OF Cons.prems, of x] obtain w where
    "add_hi v x = Some w" "inv w" "alist w = alist v @ [x]" by blast
  with Cons.IH [of w] show ?case by auto
qed

lemma read_after_write:
  assumes "inv v" "0 \<le> i" "nat i < length (alist v)"
  shows "\<exists>v'. upd v i x = Some v' \<and> inv v' \<and> ref v' j = (if j = i then Some x else ref v j)"
  using upd_in [OF assms, of x] assms by (auto simp: ref_law nth_list_update nat_eq_iff)

end

interpretation va: flex_array vec_inv vec_list vec_new vec_ref vec_set
  "vec_insertAtBottom d" "vec_insertAtTop d" for d
proof (unfold_locales, goal_cases)
  case (3 v i)
  then show ?case by (auto simp: vec_ref_eq nat_less_eq_zless vec_inv_def)
next
  case (4 v i x)
  then show ?case using vec_set_Some [of v i x] by (metis length_vec_list nat_less_eq_zless)
next
  case (5 v i x)
  then show ?case by (auto simp: vec_set_eq)
next
  case (6 v x)
  then show ?case using vec_insertAtBottom_Some [of v d x] by blast
next
  case (7 v x)
  then show ?case using vec_insertAtTop_Some [of v d x] by blast
qed simp_all

subsection \<open>Properties\<close>

text \<open>
  \<^verbatim>\<open>Vector\<close> implements lists: on a well-formed vector \<^verbatim>\<open>insertAtBottom\<close> and
  \<^verbatim>\<open>insertAtTop\<close> succeed, reallocating as needed, and append or prepend;
  \<^verbatim>\<open>removeFromTop\<close> drops from the front, \<^verbatim>\<open>increaseSize\<close> pads with the given value,
  \<^verbatim>\<open>sortVector\<close> sorts and the copy constructor copies.
\<close>
theorem vector_refines_list:
  assumes "vec_inv v" "0 \<le> n"
  shows "(\<exists>v'. vec_insertAtBottom d v x = Some v' \<and> vec_inv v' \<and> vec_list v' = vec_list v @ [x]) \<and>
    (\<exists>v'. vec_insertAtTop d v x = Some v' \<and> vec_inv v' \<and> vec_list v' = x # vec_list v) \<and>
    (vec_inv (vec_removeFromTop v n) \<and> vec_list (vec_removeFromTop v n) = drop (nat n) (vec_list v)) \<and>
    (\<exists>v'. vec_increaseSize d v (v_size v + n) x = Some v' \<and> vec_inv v' \<and>
       vec_list v' = vec_list v @ replicate (nat n) x) \<and>
    (vec_inv (vec_copy d v) \<and> vec_list (vec_copy d v) = vec_list v) \<and>
    vec_list (vec_sortVector v) = sort (vec_list v)"
proof (intro conjI)
  show "\<exists>v'. vec_insertAtBottom d v x = Some v' \<and> vec_inv v' \<and> vec_list v' = vec_list v @ [x]"
    by (rule vec_insertAtBottom_Some [OF assms(1), of d x]) blast
  show "\<exists>v'. vec_insertAtTop d v x = Some v' \<and> vec_inv v' \<and> vec_list v' = x # vec_list v"
    by (rule vec_insertAtTop_Some [OF assms(1), of d x]) blast
  show "\<exists>v'. vec_increaseSize d v (v_size v + n) x = Some v' \<and> vec_inv v' \<and>
       vec_list v' = vec_list v @ replicate (nat n) x"
    by (rule vec_increaseSize_Some [OF assms(1), of "v_size v + n" d x]) (use assms(2) in simp_all)
qed (use vec_removeFromTop_refines [OF assms] vec_copy_eq [OF assms(1), of d] vec_sortVector_eq [OF assms(1)] in simp_all)

theorem vector_refines_list_witness:
  "\<exists>v'. vec_insertAtTop 0 (vec_new :: int vector) 4 = Some v' \<and> vec_list v' = [4]"
  using vector_refines_list [of "vec_new :: int vector" 0 0 4] by auto

text \<open>
  Reads and writes through \<^verbatim>\<open>Vector::ref\<close> are checked: an index out of range aborts, an index
  in range reads what was last written there and a write changes no other element.
\<close>
theorem vector_ref_checked:
  assumes "vec_inv v"
  shows "if 0 \<le> i \<and> i < v_size v
    then \<exists>v'. vec_set v i x = Some v' \<and> vec_inv v' \<and> vec_ref v' j = (if j = i then Some x else vec_ref v j) \<and>
      (vec_ref v j \<noteq> None \<longleftrightarrow> 0 \<le> j \<and> j < v_size v)
    else vec_set v i x = None \<and> vec_ref v i = None"
proof (cases "0 \<le> i \<and> i < v_size v")
  case True
  then have "nat i < length (vec_list v)" using assms by (simp add: nat_less_eq_zless)
  then show ?thesis using va.read_after_write [OF assms, of i x j] vec_ref_eq [OF assms, of j] True by auto
next
  case False
  then show ?thesis using assms by (auto simp: vec_ref_eq vec_set_eq)
qed

theorem vector_ref_checked_witness:
  "vec_ref (vec_new :: int vector) 0 = None \<and> vec_set (vec_new :: int vector) 0 5 = None"
  using vector_ref_checked [OF vec_inv_new, of 0 "5 :: int" 0] by (simp add: vec_new_def)

end
