(* ===== verification/PrioHeap_Model.thy ===== *)
theory PrioHeap_Model
  imports Vector_Model
begin

text \<open>
  The array heap \<^verbatim>\<open>PrioHeap\<close> of \<^verbatim>\<open>common/PrioHeap.h\<close>, on which the event queue and
  the message buffers are built.  Elements live at indices 1 to \<^verbatim>\<open>m_current_size\<close> of a
  \<^verbatim>\<open>Vector\<close>.  The order is the overloaded function \<^verbatim>\<open>node_less_then_eq\<close>, here the
  parameter \<open>le\<close>; it may abort, because the overload for message nodes contains an assertion.
  \<^verbatim>\<open>HeapIndex\<close> is an unsigned machine integer: the theorem \<open>heap_index_words\<close> shows that on 32-bit
  words the index arithmetic does not wrap for heaps of fewer than \<open>2 ^ 31\<close> elements.

  The theory proves that the operations neither abort nor loop, keep the heap property, and
  implement a priority queue on multisets; the locale \<open>prio_queue\<close> is that contract.
\<close>

unbundle bit_operations_syntax

type_synonym 'a node_le = "'a \<Rightarrow> 'a \<Rightarrow> bool option"

record 'a prio_heap =
  h_vec :: "'a vector"
  h_size :: nat

definition ph_init :: "'a prio_heap" where
  "ph_init = \<lparr>h_vec = vec_new, h_size = 0\<rparr>"

definition get_parent :: "nat \<Rightarrow> nat" where
  "get_parent i = drop_bit 1 i"

definition get_right :: "nat \<Rightarrow> nat" where
  "get_right i = push_bit 1 i OR 1"

definition get_left :: "nat \<Rightarrow> nat" where
  "get_left i = push_bit 1 i"

lemma get_parent_eq: "get_parent i = i div 2"
  by (simp add: get_parent_def drop_bit_eq_div)

lemma get_left_eq: "get_left i = 2 * i"
  by (simp add: get_left_def push_bit_eq_mult)

lemma get_right_eq: "get_right i = 2 * i + 1"
  by (simp add: get_right_def push_bit_eq_mult or_Suc_0_eq)

lemmas heap_index_eqs = get_parent_eq get_left_eq get_right_eq

text \<open>The loop of \<^verbatim>\<open>insert\<close>: parents that are not smaller than the key move down.\<close>

function sift_up :: "'a node_le \<Rightarrow> 'a \<Rightarrow> 'a vector \<Rightarrow> nat \<Rightarrow> ('a vector \<times> nat) option" where
  "sift_up le key v i =
     (if i > 1 then do {
        p \<leftarrow> vec_ref v (int (get_parent i));
        b \<leftarrow> le key p;
        (if b then do {
           q \<leftarrow> vec_ref v (int (get_parent i));
           w \<leftarrow> vec_set v (int i) q;
           sift_up le key w (get_parent i)
         } else Some (v, i))
      } else Some (v, i))"
  by pat_completeness auto
termination
  by (relation "measure (\<lambda>(le, key, v, i). i)") (auto simp: get_parent_eq)

declare sift_up.simps [simp del]

definition ph_insert :: "'a node_le \<Rightarrow> 'a \<Rightarrow> 'a prio_heap \<Rightarrow> 'a \<Rightarrow> 'a prio_heap option" where
  "ph_insert le d h key = do {
     let n = h_size h + 1;
     v \<leftarrow> vec_setSize d (h_vec h) (int n + 1);
     v \<leftarrow> (if n = 1 then vec_set v 0 key else Some v);
     (v, i) \<leftarrow> sift_up le key v n;
     v \<leftarrow> vec_set v (int i) key;
     Some \<lparr>h_vec = v, h_size = n\<rparr>
   }"

definition ph_peekMin :: "'a prio_heap \<Rightarrow> 'a option" where
  "ph_peekMin h = do { assert_that (h_size h > 0); vec_ref (h_vec h) 1 }"

definition ph_peekElement :: "'a prio_heap \<Rightarrow> int \<Rightarrow> 'a option" where
  "ph_peekElement h index = do { assert_that (h_size h > 0); vec_ref (h_vec h) index }"

definition smallest_node :: "'a node_le \<Rightarrow> 'a vector \<Rightarrow> nat \<Rightarrow> nat \<Rightarrow> nat option" where
  "smallest_node le v n current_node = do {
     let left = get_left current_node;
     let right = get_right current_node;
     smallest \<leftarrow> (if left \<le> n then do {
                     a \<leftarrow> vec_ref v (int left);
                     b \<leftarrow> vec_ref v (int current_node);
                     t \<leftarrow> le a b;
                     Some (if t then left else current_node)
                   } else Some current_node);
     (if right \<le> n then do {
        a \<leftarrow> vec_ref v (int right);
        b \<leftarrow> vec_ref v (int smallest);
        t \<leftarrow> le a b;
        Some (if t then right else smallest)
      } else Some smallest)
   }"

lemma smallest_node_cases:
  assumes "smallest_node le v n c = Some s"
  shows "s = c \<or> s = 2 * c \<and> s \<le> n \<or> s = 2 * c + 1 \<and> s \<le> n"
  using assms
  by (auto simp: smallest_node_def Let_def heap_index_eqs bind_eq_Some_conv split: if_splits)

definition prio_heap_swap :: "'a vector \<Rightarrow> nat \<Rightarrow> nat \<Rightarrow> 'a vector option" where
  "prio_heap_swap v i j = do {
     temp \<leftarrow> vec_ref v (int i);
     x \<leftarrow> vec_ref v (int j);
     v \<leftarrow> vec_set v (int i) x;
     vec_set v (int j) temp
   }"

function heapify :: "'a node_le \<Rightarrow> 'a vector \<Rightarrow> nat \<Rightarrow> nat \<Rightarrow> 'a vector option" where
  "heapify le v n current_node = do {
     smallest \<leftarrow> smallest_node le v n current_node;
     (if smallest = current_node then Some v
      else do {
        v' \<leftarrow> prio_heap_swap v current_node smallest;
        heapify le v' n smallest
      })
   }"
  by pat_completeness auto
termination
  by (relation "measure (\<lambda>(le, v, n, c). n - c)") (auto dest!: smallest_node_cases)

declare heapify.simps [simp del]

definition ph_extractMin :: "'a node_le \<Rightarrow> 'a prio_heap \<Rightarrow> ('a \<times> 'a prio_heap) option" where
  "ph_extractMin le h = do {
     assert_that (h_size h > 0);
     temp \<leftarrow> vec_ref (h_vec h) 1;
     l \<leftarrow> vec_ref (h_vec h) (int (h_size h));
     v \<leftarrow> vec_set (h_vec h) 1 l;
     let n = h_size h - 1;
     v \<leftarrow> heapify le v n 1;
     Some (temp, \<lparr>h_vec = v, h_size = n\<rparr>)
   }"

text \<open>Emptying a heap by repeated \<^verbatim>\<open>extractMin\<close>, the loop of \<^verbatim>\<open>MessageBuffer::clear\<close>.\<close>

lemma ph_extractMin_size: "ph_extractMin le h = Some (x, h') \<Longrightarrow> h_size h' = h_size h - 1 \<and> 0 < h_size h"
  by (auto simp: ph_extractMin_def Let_def bind_eq_Some_conv split: if_splits)

function ph_drain :: "'a node_le \<Rightarrow> 'a prio_heap \<Rightarrow> ('a list \<times> 'a prio_heap) option" where
  "ph_drain le h =
     (if h_size h > 0 then do {
        (x, h') \<leftarrow> ph_extractMin le h;
        (xs, h'') \<leftarrow> ph_drain le h';
        Some (x # xs, h'')
      } else Some ([], h))"
  by pat_completeness auto
termination
  by (relation "measure (\<lambda>(le, h). h_size h)") (auto dest: ph_extractMin_size)

declare ph_drain.simps [simp del]

text \<open>The recursive check \<^verbatim>\<open>verifyHeap(index)\<close>; it does not return for index 0.\<close>

partial_function (option) verifyHeap :: "'a node_le \<Rightarrow> 'a prio_heap \<Rightarrow> nat \<Rightarrow> bool option" where
  "verifyHeap le h index =
     (if index > h_size h then Some True
      else if index = 1 then
        Option.bind (verifyHeap le h (get_right index))
          (\<lambda>r. if r then verifyHeap le h (get_left index) else Some False)
      else
        Option.bind (vec_ref (h_vec h) (int (get_parent index))) (\<lambda>p.
        Option.bind (vec_ref (h_vec h) (int index)) (\<lambda>x.
        Option.bind (le p x) (\<lambda>b.
          if b then
            Option.bind (verifyHeap le h (get_right index))
              (\<lambda>r. if r then verifyHeap le h (get_left index) else Some False)
          else Some False))))"

subsection \<open>Heaps as lists\<close>

definition edge_ok :: "('a \<Rightarrow> 'k::linorder) \<Rightarrow> 'a list \<Rightarrow> nat \<Rightarrow> bool" where
  "edge_ok k xs j \<longleftrightarrow> k (xs ! (j div 2)) \<le> k (xs ! j)"

definition is_heap :: "('a \<Rightarrow> 'k::linorder) \<Rightarrow> 'a list \<Rightarrow> nat \<Rightarrow> bool" where
  "is_heap k xs n \<longleftrightarrow> (\<forall>j. 2 \<le> j \<longrightarrow> j \<le> n \<longrightarrow> edge_ok k xs j)"

definition heap_elems :: "'a list \<Rightarrow> nat \<Rightarrow> 'a multiset" where
  "heap_elems xs n = mset (take n (tl xs))"

text \<open>Heaps with one damaged edge above \<open>i\<close>, and heaps with damaged edges below \<open>c\<close>.\<close>

definition up_inv :: "('a \<Rightarrow> 'k::linorder) \<Rightarrow> 'a list \<Rightarrow> nat \<Rightarrow> nat \<Rightarrow> bool" where
  "up_inv k xs n i \<longleftrightarrow>
     (\<forall>j. 2 \<le> j \<longrightarrow> j \<le> n \<longrightarrow> j \<noteq> i \<longrightarrow> edge_ok k xs j) \<and>
     (\<forall>j. 2 \<le> i \<longrightarrow> j \<le> n \<longrightarrow> j div 2 = i \<longrightarrow> k (xs ! (i div 2)) \<le> k (xs ! j))"

definition down_inv :: "('a \<Rightarrow> 'k::linorder) \<Rightarrow> 'a list \<Rightarrow> nat \<Rightarrow> nat \<Rightarrow> bool" where
  "down_inv k xs n c \<longleftrightarrow>
     (\<forall>j. 2 \<le> j \<longrightarrow> j \<le> n \<longrightarrow> j div 2 \<noteq> c \<longrightarrow> edge_ok k xs j) \<and>
     (\<forall>j. 2 \<le> c \<longrightarrow> j \<le> n \<longrightarrow> j div 2 = c \<longrightarrow> k (xs ! (c div 2)) \<le> k (xs ! j))"

lemma is_heap_root_le:
  assumes h: "is_heap k xs n"
  shows "1 \<le> i \<Longrightarrow> i \<le> n \<Longrightarrow> k (xs ! 1) \<le> k (xs ! i)"
proof (induction i rule: less_induct)
  case (less i)
  show ?case
  proof (cases "i = 1")
    case False
    with less.prems have "k (xs ! 1) \<le> k (xs ! (i div 2))" by (intro less.IH) auto
    also have "\<dots> \<le> k (xs ! i)" using h less.prems False by (simp add: is_heap_def edge_ok_def)
    finally show ?thesis .
  qed simp
qed

lemma up_inv_step:
  assumes u: "up_inv k xs n i" and i: "2 \<le> i" "i \<le> n" "n < length xs"
    and le: "k (xs ! i) \<le> k (xs ! (i div 2))"
  shows "up_inv k (swap_list xs i (i div 2)) n (i div 2)"
proof -
  have p: "i div 2 < length xs" "i div 2 \<noteq> i" "i div 2 \<le> n" using i by auto
  note nth = nth_swap_list [OF _ p(1), of i]
  have E: "k (xs ! (j div 2)) \<le> k (xs ! j)" if "2 \<le> j" "j \<le> n" "j \<noteq> i" for j
    using u that by (auto simp: up_inv_def edge_ok_def)
  have G: "k (xs ! (i div 2)) \<le> k (xs ! j)" if "j \<le> n" "j div 2 = i" for j
    using u that i by (auto simp: up_inv_def)
  have "edge_ok k (swap_list xs i (i div 2)) j" if "2 \<le> j" "j \<le> n" "j \<noteq> i div 2" for j
    using that i p le E [of j] G [of j] by (auto simp: edge_ok_def nth)
  moreover have "k (swap_list xs i (i div 2) ! (i div 2 div 2)) \<le> k (swap_list xs i (i div 2) ! j)"
    if "2 \<le> i div 2" "j \<le> n" "j div 2 = i div 2" for j
  proof -
    have "2 \<le> j" "j < length xs" "i div 2 div 2 < length xs" using that i by auto
    moreover have "k (xs ! (i div 2 div 2)) \<le> k (xs ! (i div 2))" using E [of "i div 2"] that p by auto
    ultimately show ?thesis
      using that i p E [of j] by (auto simp: nth intro: order_trans)
  qed
  ultimately show ?thesis by (simp add: up_inv_def)
qed

lemma down_inv_step:
  assumes d: "down_inv k xs n c" and c: "1 \<le> c" and n: "n < length xs"
    and s: "s div 2 = c" "s \<le> n" "2 \<le> s"
    and le: "k (xs ! s) \<le> k (xs ! c)"
    and least: "\<And>j. j \<le> n \<Longrightarrow> j div 2 = c \<Longrightarrow> k (xs ! s) \<le> k (xs ! j)"
  shows "down_inv k (swap_list xs c s) n s"
proof -
  have cs: "c < length xs" "s < length xs" "c \<noteq> s" "c < s" using c n s by auto
  note nth = nth_swap_list [OF cs(1,2)]
  have E: "k (xs ! (j div 2)) \<le> k (xs ! j)" if "2 \<le> j" "j \<le> n" "j div 2 \<noteq> c" for j
    using d that by (auto simp: down_inv_def edge_ok_def)
  have G: "k (xs ! (c div 2)) \<le> k (xs ! s)" if "2 \<le> c"
    using d that s by (auto simp: down_inv_def)
  have "edge_ok k (swap_list xs c s) j" if "2 \<le> j" "j \<le> n" "j div 2 \<noteq> s" for j
  proof -
    have "j div 2 < length xs" "j < length xs" "j div 2 \<noteq> j" using that n by auto
    then show ?thesis
      using that cs le least [of j] E [of j] G by (cases "j div 2 = c"; cases "j = c") (auto simp: edge_ok_def nth)
  qed
  moreover have "k (swap_list xs c s ! (s div 2)) \<le> k (swap_list xs c s ! j)"
    if "j \<le> n" "j div 2 = s" for j
    using that cs s n E [of j] by (auto simp: nth)
  ultimately show ?thesis by (simp add: down_inv_def)
qed

lemma heap_elems_swap:
  assumes "1 \<le> i" "i \<le> n" "1 \<le> j" "j \<le> n" "n < length xs"
  shows "heap_elems (swap_list xs i j) n = heap_elems xs n"
proof -
  obtain x ys where xs: "xs = x # ys" using assms by (cases xs) auto
  obtain i' j' where ij: "i = Suc i'" "j = Suc j'" using assms by (cases i; cases j) auto
  have "take n (tl (swap_list xs i j)) = (take n ys)[i' := take n ys ! j', j' := take n ys ! i']"
    using assms by (simp add: xs ij swap_list_def take_update_swap)
  moreover have "mset ((take n ys)[i' := take n ys ! j', j' := take n ys ! i']) = mset (take n ys)"
    using assms by (intro mset_swap) (auto simp: xs ij)
  ultimately show ?thesis by (simp add: heap_elems_def xs)
qed

subsection \<open>The loops\<close>

lemma vec_ref_nat: "\<lbrakk>vec_inv v; int i < v_size v\<rbrakk> \<Longrightarrow> vec_ref v (int i) = Some (vec_list v ! i)"
  by (simp add: vec_ref_eq)

lemma vec_set_nat:
  assumes "vec_inv v" "int i < v_size v"
  obtains w where "vec_set v (int i) x = Some w" "vec_inv w" "vec_list w = (vec_list v)[i := x]"
    "v_size w = v_size v"
  using vec_set_Some [of v "int i" x] assms by auto

lemma up_inv_done:
  "\<lbrakk>up_inv k xs n i; i \<le> 1 \<or> edge_ok k xs i\<rbrakk> \<Longrightarrow> is_heap k xs n"
  by (auto simp: up_inv_def is_heap_def)

lemma sift_up_correct:
  assumes "vec_inv v" "1 \<le> i" "i \<le> n" "int n < v_size v"
    and "up_inv k ((vec_list v)[i := key]) n i"
    and "\<And>j. \<lbrakk>1 \<le> j; j \<le> n; j \<noteq> i\<rbrakk> \<Longrightarrow> le key (vec_list v ! j) = Some (k key \<le> k (vec_list v ! j))"
  shows "\<exists>w i'. sift_up le key v i = Some (w, i') \<and> vec_inv w \<and> v_size w = v_size v \<and>
     1 \<le> i' \<and> i' \<le> n \<and> is_heap k ((vec_list w)[i' := key]) n \<and>
     heap_elems ((vec_list w)[i' := key]) n = heap_elems ((vec_list v)[i := key]) n"
  using assms
proof (induction i arbitrary: v rule: less_induct)
  case (less i)
  let ?L = "vec_list v"
  let ?p = "i div 2"
  have len: "n < length ?L" using less.prems by simp
  show ?case
  proof (cases "i > 1")
    case False
    then show ?thesis using less.prems up_inv_done [OF less.prems(5)] by (simp add: sift_up.simps)
  next
    case True
    then have p: "1 \<le> ?p" "?p < i" "?p \<le> n" "?p \<noteq> i" using less.prems by auto
    have rd: "vec_ref v (int (get_parent i)) = Some (?L ! ?p)"
      using less.prems p by (simp add: get_parent_eq vec_ref_nat)
    have cmp: "le key (?L ! ?p) = Some (k key \<le> k (?L ! ?p))" using less.prems(6) p by blast
    show ?thesis
    proof (cases "k key \<le> k (?L ! ?p)")
      case False
      then have "edge_ok k (?L[i := key]) i" using p len less.prems by (simp add: edge_ok_def)
      then show ?thesis
        using False True less.prems up_inv_done [OF less.prems(5)] rd cmp by (simp add: sift_up.simps)
    next
      case le: True
      from vec_set_nat [OF less.prems(1), of i "?L ! ?p"] less.prems(3,4) obtain w where
        w: "vec_set v (int i) (?L ! ?p) = Some w" "vec_inv w" "vec_list w = ?L[i := ?L ! ?p]"
          "v_size w = v_size v" by auto
      have sw: "(vec_list w)[?p := key] = swap_list (?L[i := key]) i ?p"
        using p len less.prems by (simp add: w(3) swap_list_def)
      have "up_inv k ((vec_list w)[?p := key]) n ?p"
        unfolding sw using True less.prems len le p by (intro up_inv_step) auto
      moreover have "le key (vec_list w ! j) = Some (k key \<le> k (vec_list w ! j))"
        if "1 \<le> j" "j \<le> n" "j \<noteq> ?p" for j
        using that cmp less.prems(6) [of j] len by (cases "j = i") (auto simp: w(3))
      ultimately obtain u i' where
        u: "sift_up le key w ?p = Some (u, i')" "vec_inv u" "v_size u = v_size w" "1 \<le> i'" "i' \<le> n"
          "is_heap k ((vec_list u)[i' := key]) n"
          "heap_elems ((vec_list u)[i' := key]) n = heap_elems ((vec_list w)[?p := key]) n"
        using less.IH [OF p(2) w(2) p(1) p(3)] less.prems(4) w(4) by metis
      have "heap_elems ((vec_list w)[?p := key]) n = heap_elems (?L[i := key]) n"
        unfolding sw using p len less.prems by (intro heap_elems_swap) auto
      then show ?thesis
        using u w(1,4) True rd cmp le by (auto simp: sift_up.simps [of le key v i] get_parent_eq)
    qed
  qed
qed

lemma smallest_node_correct:
  fixes k :: "'a \<Rightarrow> 'k::linorder"
  assumes "vec_inv v" "int n < v_size v" "1 \<le> c" "c \<le> n \<or> n = 0"
    and cmp: "\<And>i j. \<lbrakk>1 \<le> i; i \<le> n; 1 \<le> j; j \<le> n; i \<noteq> j\<rbrakk> \<Longrightarrow>
      le (vec_list v ! i) (vec_list v ! j) = Some (k (vec_list v ! i) \<le> k (vec_list v ! j))"
  obtains s where "smallest_node le v n c = Some s"
    "s = c \<or> s div 2 = c \<and> s \<le> n \<and> 2 \<le> s" "s = c \<or> k (vec_list v ! s) \<le> k (vec_list v ! c)"
    "\<forall>j. j \<le> n \<longrightarrow> j div 2 = c \<longrightarrow> k (vec_list v ! s) \<le> k (vec_list v ! j)"
proof -
  let ?L = "vec_list v"
  define s1 where "s1 = (if 2 * c \<le> n \<and> k (?L ! (2 * c)) \<le> k (?L ! c) then 2 * c else c)"
  define s where "s = (if 2 * c + 1 \<le> n \<and> k (?L ! (2 * c + 1)) \<le> k (?L ! s1) then 2 * c + 1 else s1)"
  have rd: "vec_ref v (int i) = Some (?L ! i)" if "i \<le> n" for i
    using assms that by (simp add: vec_ref_nat)
  have one: "(if 2 * c \<le> n then do {
                     a \<leftarrow> vec_ref v (int (2 * c));
                     b \<leftarrow> vec_ref v (int c);
                     t \<leftarrow> le a b;
                     Some (if t then 2 * c else c)
                   } else Some c) = Some s1"
    using assms(3) cmp [of "2 * c" c] rd [of "2 * c"] rd [of c] by (simp add: s1_def)
  have s1: "1 \<le> s1" "s1 < 2 * c + 1" "2 * c + 1 \<le> n \<Longrightarrow> s1 \<le> n" using assms(3) by (auto simp: s1_def)
  have two: "(if 2 * c + 1 \<le> n then do {
                     a \<leftarrow> vec_ref v (int (2 * c + 1));
                     b \<leftarrow> vec_ref v (int s1);
                     t \<leftarrow> le a b;
                     Some (if t then 2 * c + 1 else s1)
                   } else Some s1) = Some s"
    using s1 cmp [of "2 * c + 1" s1] rd [of "2 * c + 1"] rd [of s1] by (auto simp: s_def)
  have "smallest_node le v n c = Some s"
    unfolding smallest_node_def Let_def heap_index_eqs one by (simp only: Option.bind.bind_lunit two)
  moreover have "s = c \<or> s div 2 = c \<and> s \<le> n \<and> 2 \<le> s"
    using assms(3) by (auto simp: s_def s1_def)
  moreover have "s = c \<or> k (?L ! s) \<le> k (?L ! c)"
  proof -
    have "k (?L ! s1) \<le> k (?L ! c)" by (simp add: s1_def)
    moreover have "k (?L ! s) \<le> k (?L ! s1)" by (simp add: s_def)
    ultimately show ?thesis by (blast intro: order_trans)
  qed
  moreover have "k (?L ! s) \<le> k (?L ! j)" if "j \<le> n" "j div 2 = c" for j
  proof -
    have "j = 2 * c \<or> j = 2 * c + 1" using that(2) by auto
    then show ?thesis using that(1) by (auto simp: s_def s1_def)
  qed
  ultimately show thesis using that [of s] by blast
qed

lemma prio_heap_swap_correct:
  assumes v: "vec_inv v" and ij: "int i < v_size v" "int j < v_size v"
  obtains w where "prio_heap_swap v i j = Some w" "vec_inv w" "v_size w = v_size v"
    "vec_list w = swap_list (vec_list v) i j"
proof -
  from vec_set_nat [OF v ij(1), of "vec_list v ! j"] obtain u where
    u: "vec_set v (int i) (vec_list v ! j) = Some u" "vec_inv u"
      "vec_list u = (vec_list v)[i := vec_list v ! j]" "v_size u = v_size v" .
  have "int j < v_size u" using ij u by simp
  from vec_set_nat [OF u(2) this, of "vec_list v ! i"] obtain w where
    w: "vec_set u (int j) (vec_list v ! i) = Some w" "vec_inv w"
      "vec_list w = (vec_list u)[j := vec_list v ! i]" "v_size w = v_size u" .
  have "prio_heap_swap v i j = Some w"
    using v ij u(1) w(1) by (simp add: prio_heap_swap_def vec_ref_nat)
  then show thesis using u w by (intro that) (simp_all add: swap_list_def)
qed

lemma heapify_correct:
  assumes "vec_inv v" "int n < v_size v" "1 \<le> c" "c \<le> n \<or> n = 0"
    and "down_inv k (vec_list v) n c"
    and "\<And>i j. \<lbrakk>1 \<le> i; i \<le> n; 1 \<le> j; j \<le> n; i \<noteq> j\<rbrakk> \<Longrightarrow>
      le (vec_list v ! i) (vec_list v ! j) = Some (k (vec_list v ! i) \<le> k (vec_list v ! j))"
  shows "\<exists>w. heapify le v n c = Some w \<and> vec_inv w \<and> v_size w = v_size v \<and>
    is_heap k (vec_list w) n \<and> heap_elems (vec_list w) n = heap_elems (vec_list v) n"
  using assms
proof (induction le v n c rule: heapify.induct)
  case (1 le v n c)
  let ?L = "vec_list v"
  have len: "n < length ?L" using 1 by simp
  obtain s where
    s: "smallest_node le v n c = Some s" "s = c \<or> s div 2 = c \<and> s \<le> n \<and> 2 \<le> s"
      "s = c \<or> k (?L ! s) \<le> k (?L ! c)"
      "\<forall>j. j \<le> n \<longrightarrow> j div 2 = c \<longrightarrow> k (?L ! s) \<le> k (?L ! j)"
    by (rule smallest_node_correct [where le = le and k = k, OF "1.prems"(1-4,6)])
  show ?case
  proof (cases "s = c")
    case True
    then have "is_heap k ?L n"
      using "1.prems"(5) s(4) by (auto simp: down_inv_def is_heap_def edge_ok_def)
    then show ?thesis using True s(1) "1.prems" by (simp add: heapify.simps [of le v n c])
  next
    case False
    then have sn: "s div 2 = c" "s \<le> n" "2 \<le> s" "k (?L ! s) \<le> k (?L ! c)" using s by auto
    have cn: "c \<le> n" "c < length ?L" "s < length ?L" using sn len by auto
    from prio_heap_swap_correct [OF "1.prems"(1), of c s] cn sn "1.prems"(2) obtain w where
      w: "prio_heap_swap v c s = Some w" "vec_inv w" "v_size w = v_size v"
        "vec_list w = swap_list ?L c s" by auto
    have d: "down_inv k (vec_list w) n s"
      unfolding w(4) using "1.prems"(3,5) len sn s(4) by (intro down_inv_step) auto
    have cmp: "le (vec_list w ! i) (vec_list w ! j) = Some (k (vec_list w ! i) \<le> k (vec_list w ! j))"
      if ij: "1 \<le> i" "i \<le> n" "1 \<le> j" "j \<le> n" "i \<noteq> j" for i j
    proof -
      define f where "f x = (if x = c then s else if x = s then c else x)" for x
      have "vec_list w ! x = ?L ! f x" if "x \<le> n" for x
        using that len cn by (simp add: w(4) nth_swap_list f_def)
      moreover have "1 \<le> f i" "f i \<le> n" "1 \<le> f j" "f j \<le> n" "f i \<noteq> f j"
        using ij sn cn "1.prems"(3) by (auto simp: f_def)
      ultimately show ?thesis using ij "1.prems"(6) [of "f i" "f j"] by simp
    qed
    have "1 \<le> s" "int n < v_size w" using sn w(3) "1.prems"(2) by auto
    from "1.IH" [OF s(1) False w(1,2) this(2,1) _ d cmp] sn obtain u where
      u: "heapify le w n s = Some u" "vec_inv u" "v_size u = v_size w"
        "is_heap k (vec_list u) n" "heap_elems (vec_list u) n = heap_elems (vec_list w) n" by auto
    have "heap_elems (vec_list w) n = heap_elems ?L n"
      unfolding w(4) using "1.prems"(3) cn sn len by (intro heap_elems_swap) auto
    then show ?thesis using u w False s(1) by (simp add: heapify.simps [of le v n c])
  qed
qed

subsection \<open>The operations\<close>

definition heap_ok :: "('a \<Rightarrow> 'k::linorder) \<Rightarrow> 'a prio_heap \<Rightarrow> bool" where
  "heap_ok k h \<longleftrightarrow> vec_inv (h_vec h) \<and> (h_size h = 0 \<or> int (h_size h) < v_size (h_vec h)) \<and>
     is_heap k (vec_list (h_vec h)) (h_size h)"

definition ph_elems :: "'a prio_heap \<Rightarrow> 'a multiset" where
  "ph_elems h = heap_elems (vec_list (h_vec h)) (h_size h)"

lemma heap_ok_init [simp, inv_intros]: "heap_ok k ph_init"
  by (simp add: heap_ok_def ph_init_def is_heap_def)

lemma ph_elems_init [simp]: "ph_elems ph_init = {#}"
  by (simp add: ph_elems_def ph_init_def heap_elems_def)

lemma size_ph_elems: "heap_ok k h \<Longrightarrow> size (ph_elems h) = h_size h"
  by (auto simp: heap_ok_def ph_elems_def heap_elems_def)

lemma heap_elems_nth: "n < length xs \<Longrightarrow> heap_elems xs n = mset (map (nth xs) [1..<Suc n])"
proof -
  assume "n < length xs"
  then have "take n (tl xs) = map (nth xs) [1..<Suc n]"
    by (intro nth_equalityI) (auto simp: nth_tl simp del: upt_Suc)
  then show ?thesis by (simp add: heap_elems_def)
qed

lemma in_heap_elems_iff:
  "n < length xs \<Longrightarrow> x \<in># heap_elems xs n \<longleftrightarrow> (\<exists>i. 1 \<le> i \<and> i \<le> n \<and> x = xs ! i)"
  by (auto simp: heap_elems_nth simp del: upt_Suc)

lemma heap_elems_pair:
  assumes "n < length xs" "1 \<le> i" "i \<le> n" "1 \<le> j" "j \<le> n" "i \<noteq> j"
  shows "xs ! j \<in># heap_elems xs n - {#xs ! i#}"
proof -
  have t: "take n (tl xs) ! (m - 1) = xs ! m" "m - 1 < length (take n (tl xs))" if "1 \<le> m" "m \<le> n" for m
    using that assms(1) by (auto simp: nth_tl)
  show ?thesis
    using nth_range_in_mset [OF t(2) [OF assms(2,3)] t(2) [OF assms(4,5)]] assms
      t(1) [OF assms(2,3)] t(1) [OF assms(4,5)]
    by (simp add: heap_elems_def)
qed

theorem ph_insert_correct:
  assumes h: "heap_ok k h" and cmp: "\<forall>x \<in># ph_elems h. le key x = Some (k key \<le> k x)"
  shows "\<exists>h'. ph_insert le d h key = Some h' \<and> heap_ok k h' \<and>
    ph_elems h' = add_mset key (ph_elems h) \<and> h_size h' = h_size h + 1"
proof -
  define n where "n = h_size h + 1"
  let ?L = "vec_list (h_vec h)"
  have vi: "vec_inv (h_vec h)" using h by (simp add: heap_ok_def)
  then have "0 \<le> v_size (h_vec h)" by (simp add: vec_inv_def)
  have old: "n - 1 < length ?L \<or> n = 1" "is_heap k ?L (n - 1)"
    using h vi by (auto simp: heap_ok_def n_def)
  from vec_setSize_Some [OF vi, of "int n + 1" d] obtain v where
    v: "vec_setSize d (h_vec h) (int n + 1) = Some v" "vec_inv v" "v_size v = int n + 1"
    and same: "\<And>i. \<lbrakk>i < nat (v_size (h_vec h)); i < nat (int n + 1)\<rbrakk> \<Longrightarrow> vec_list v ! i = ?L ! i"
    by auto
  obtain u where u: "(if n = 1 then vec_set v 0 key else Some v) = Some u" "vec_inv u"
    "v_size u = int n + 1" "\<And>i. 1 \<le> i \<Longrightarrow> vec_list u ! i = vec_list v ! i"
  proof (cases "n = 1")
    case True
    from vec_set_nat [OF v(2), of 0 key] v(3) obtain u where
      "vec_set v 0 key = Some u" "vec_inv u" "vec_list u = (vec_list v)[0 := key]" "v_size u = v_size v"
      by auto
    then show ?thesis using True v(3) by (intro that [of u]) auto
  qed (use v that in auto)
  have Lu: "vec_list u ! i = ?L ! i" if "1 \<le> i" "i < n" for i
    using that u(4) [of i] same [of i] h by (auto simp: heap_ok_def n_def)
  have len: "length (vec_list u) = n + 1" using u(2,3) by (simp add: nat_add_distrib)
  have mem: "vec_list u ! j \<in># ph_elems h" if "1 \<le> j" "j < n" for j
    using that old(1) Lu in_heap_elems_iff [of "n - 1" ?L "?L ! j"]
    by (auto simp: ph_elems_def n_def)
  have up: "up_inv k ((vec_list u)[n := key]) n n"
    using old(2) Lu len unfolding up_inv_def is_heap_def edge_ok_def
    by (auto simp: nth_list_update)
  have "le key (vec_list u ! j) = Some (k key \<le> k (vec_list u ! j))" if "1 \<le> j" "j \<le> n" "j \<noteq> n" for j
    using cmp mem that by auto
  from sift_up_correct [where le = le and k = k and n = n and i = n, OF u(2) _ order_refl _ up this] u(3)
  obtain w i where
    w: "sift_up le key u n = Some (w, i)" "vec_inv w" "v_size w = v_size u" "1 \<le> i" "i \<le> n"
      "is_heap k ((vec_list w)[i := key]) n"
      "heap_elems ((vec_list w)[i := key]) n = heap_elems ((vec_list u)[n := key]) n"
    by (auto simp: n_def)
  from vec_set_nat [OF w(2), of i key] w(3,5) u(3) obtain x where
    x: "vec_set w (int i) key = Some x" "vec_inv x" "vec_list x = (vec_list w)[i := key]"
      "v_size x = v_size w" by auto
  have "heap_elems ((vec_list u)[n := key]) n = add_mset key (ph_elems h)"
  proof -
    have eq: "map ((!) ((vec_list u)[n := key])) [1..<n] = map ((!) ?L) [1..<n]"
      using len Lu by auto
    have "mset (map ((!) ?L) [1..<n]) = ph_elems h"
    proof (cases "n = 1")
      case True
      then show ?thesis by (simp add: ph_elems_def heap_elems_def n_def)
    next
      case False
      then show ?thesis
        using old(1) heap_elems_nth [of "n - 1" ?L] by (simp add: ph_elems_def n_def del: mset_map)
    qed
    moreover have "heap_elems ((vec_list u)[n := key]) n =
        add_mset key (mset (map ((!) ((vec_list u)[n := key])) [1..<n]))"
      using len heap_elems_nth [of n "(vec_list u)[n := key]"] by (simp add: n_def del: mset_map)
    ultimately show ?thesis by (simp only: eq)
  qed
  moreover have "ph_insert le d h key = Some \<lparr>h_vec = x, h_size = n\<rparr>"
    using v(1) u(1) w(1) x(1) by (simp add: ph_insert_def Let_def n_def)
  ultimately show ?thesis
    using x w u(3) by (auto simp: heap_ok_def ph_elems_def n_def)
qed

theorem ph_extractMin_correct:
  assumes h: "heap_ok k h" and pos: "h_size h > 0"
    and cmp: "\<forall>x \<in># ph_elems h. \<forall>y \<in># ph_elems h - {#x#}. le x y = Some (k x \<le> k y)"
  shows "\<exists>x h'. ph_extractMin le h = Some (x, h') \<and> ph_peekMin h = Some x \<and> heap_ok k h' \<and>
    ph_elems h = add_mset x (ph_elems h') \<and> (\<forall>y \<in># ph_elems h. k x \<le> k y) \<and>
    h_size h = h_size h' + 1"
proof -
  let ?L = "vec_list (h_vec h)"
  let ?m = "h_size h"
  define n where "n = ?m - 1"
  have m: "?m = Suc n" using pos by (simp add: n_def)
  have vi: "vec_inv (h_vec h)" and sz: "int ?m < v_size (h_vec h)" and hp: "is_heap k ?L ?m"
    using h pos by (auto simp: heap_ok_def)
  have len: "?m < length ?L" using vi sz by simp
  from vec_set_nat [OF vi, of 1 "?L ! ?m"] sz m obtain v where
    v: "vec_set (h_vec h) 1 (?L ! ?m) = Some v" "vec_inv v" "vec_list v = ?L[1 := ?L ! ?m]"
      "v_size v = v_size (h_vec h)" by auto
  have rd: "vec_ref (h_vec h) 1 = Some (?L ! 1)" "vec_ref (h_vec h) (int ?m) = Some (?L ! ?m)"
    using vec_ref_nat [OF vi, of 1] vec_ref_nat [OF vi, of ?m] sz m by auto
  have down: "down_inv k (vec_list v) n 1"
    using hp m len by (auto simp: down_inv_def is_heap_def edge_ok_def v(3) nth_list_update)
  have "le (vec_list v ! i) (vec_list v ! j) = Some (k (vec_list v ! i) \<le> k (vec_list v ! j))"
    if ij: "1 \<le> i" "i \<le> n" "1 \<le> j" "j \<le> n" "i \<noteq> j" for i j
  proof -
    define f where "f x = (if x = 1 then ?m else x)" for x
    have "vec_list v ! x = ?L ! f x" if "x \<le> n" for x
      using that len m by (simp add: v(3) f_def)
    moreover have "1 \<le> f i" "f i \<le> ?m" "1 \<le> f j" "f j \<le> ?m" "f i \<noteq> f j"
      using ij m by (auto simp: f_def)
    ultimately show ?thesis
      using ij cmp len heap_elems_pair [of ?m ?L "f i" "f j"] in_heap_elems_iff [of ?m ?L "?L ! f i"]
      by (auto simp: ph_elems_def)
  qed
  from heapify_correct [where le = le and k = k and n = n and c = 1, OF v(2) _ order_refl _ down this]
  obtain w where w: "heapify le v n 1 = Some w" "vec_inv w" "v_size w = v_size v"
    "is_heap k (vec_list w) n" "heap_elems (vec_list w) n = heap_elems (vec_list v) n"
    using sz v(4) m by (cases "n = 0") auto
  have "ph_elems h = add_mset (?L ! 1) (heap_elems (vec_list v) n)"
  proof -
    obtain a xs where xs: "?L = a # xs" using len by (cases ?L) auto
    have tk: "take ?m xs = take n xs @ [xs ! n]" using len xs m by (simp add: take_Suc_conv_app_nth)
    show ?thesis
    proof (cases n)
      case 0
      then show ?thesis using tk m by (simp add: ph_elems_def heap_elems_def xs)
    next
      case (Suc n')
      then obtain b ys where ys: "xs = b # ys" using len xs m by (cases xs) auto
      show ?thesis
        using tk Suc m by (simp add: ph_elems_def heap_elems_def xs ys v(3))
    qed
  qed
  moreover have "\<forall>y \<in># ph_elems h. k (?L ! 1) \<le> k y"
    using is_heap_root_le [OF hp] in_heap_elems_iff [OF len] by (auto simp: ph_elems_def)
  moreover have "ph_extractMin le h = Some (?L ! 1, \<lparr>h_vec = w, h_size = n\<rparr>)"
    using pos rd v(1) w(1) by (simp add: ph_extractMin_def Let_def n_def)
  moreover have "ph_peekMin h = Some (?L ! 1)" using pos rd by (simp add: ph_peekMin_def)
  ultimately show ?thesis
    using w v(4) sz m by (intro exI [of _ "?L ! 1"] exI [of _ "\<lparr>h_vec = w, h_size = n\<rparr>"])
      (auto simp: heap_ok_def ph_elems_def)
qed

lemma ph_extractMin_empty: "h_size h = 0 \<Longrightarrow> ph_extractMin le h = None"
  by (simp add: ph_extractMin_def)

lemma ph_peekMin_empty: "h_size h = 0 \<Longrightarrow> ph_peekMin h = None"
  by (simp add: ph_peekMin_def)

subsection \<open>The self-check\<close>

definition in_subtree :: "nat \<Rightarrow> nat \<Rightarrow> bool" where
  "in_subtree i j \<longleftrightarrow> (\<exists>e. j div 2 ^ e = i)"

lemma in_subtree_refl: "in_subtree i i"
  by (auto simp: in_subtree_def intro: exI [of _ 0])

lemma in_subtree_ge: "in_subtree i j \<Longrightarrow> i \<le> j"
  by (auto simp: in_subtree_def div_le_dividend)

lemma in_subtree_unfold:
  assumes "1 \<le> i"
  shows "in_subtree i j \<longleftrightarrow> j = i \<or> in_subtree (2 * i + 1) j \<or> in_subtree (2 * i) j"
proof
  assume "in_subtree i j"
  then obtain e where e: "j div 2 ^ e = i" by (auto simp: in_subtree_def)
  show "j = i \<or> in_subtree (2 * i + 1) j \<or> in_subtree (2 * i) j"
  proof (cases e)
    case (Suc e')
    then have "(j div 2 ^ e') div 2 = i" using e by (simp add: mult.commute flip: div_mult2_eq)
    then have "j div 2 ^ e' = 2 * i \<or> j div 2 ^ e' = 2 * i + 1" by auto
    then show ?thesis by (auto simp: in_subtree_def)
  qed (use e in simp)
next
  have up: "in_subtree i j" if "in_subtree m j" "m div 2 = i" for m
  proof -
    from that obtain e where "j div 2 ^ e = m" by (auto simp: in_subtree_def)
    then have "j div 2 ^ Suc e = i" using that(2) by (simp add: power_Suc2 div_mult2_eq del: power_Suc)
    then show ?thesis unfolding in_subtree_def by blast
  qed
  assume "j = i \<or> in_subtree (2 * i + 1) j \<or> in_subtree (2 * i) j"
  then show "in_subtree i j" using up [of "2 * i + 1"] up [of "2 * i"] in_subtree_refl by auto
qed

lemma in_subtree_root: "1 \<le> j \<Longrightarrow> in_subtree 1 j"
proof (induction j rule: less_induct)
  case (less j)
  show ?case
  proof (cases "j = 1")
    case False
    then have "in_subtree 1 (j div 2)" using less by auto
    then obtain e where "j div 2 div 2 ^ e = 1" by (auto simp: in_subtree_def)
    then have "j div 2 ^ Suc e = 1" by (simp add: div_mult2_eq)
    then show ?thesis unfolding in_subtree_def by blast
  qed (simp add: in_subtree_refl)
qed

definition subtree_ok :: "('a \<Rightarrow> 'k::linorder) \<Rightarrow> 'a prio_heap \<Rightarrow> nat \<Rightarrow> bool" where
  "subtree_ok k h i \<longleftrightarrow> (\<forall>j. in_subtree i j \<longrightarrow> 2 \<le> j \<longrightarrow> j \<le> h_size h \<longrightarrow>
     edge_ok k (vec_list (h_vec h)) j)"

lemma subtree_ok_unfold:
  assumes "1 \<le> i" "i \<le> h_size h"
  shows "subtree_ok k h i \<longleftrightarrow> (2 \<le> i \<longrightarrow> edge_ok k (vec_list (h_vec h)) i) \<and>
    subtree_ok k h (2 * i + 1) \<and> subtree_ok k h (2 * i)"
  unfolding subtree_ok_def in_subtree_unfold [OF assms(1)] using assms(2) by blast

lemma subtree_ok_beyond: "h_size h < i \<Longrightarrow> subtree_ok k h i"
  by (auto simp: subtree_ok_def dest: in_subtree_ge)

lemma subtree_ok_root: "subtree_ok k h 1 \<longleftrightarrow> is_heap k (vec_list (h_vec h)) (h_size h)"
  unfolding subtree_ok_def is_heap_def
  using in_subtree_root by (meson le_trans one_le_numeral)

lemma verifyHeap_subtree:
  assumes v: "vec_inv (h_vec h)" "int (h_size h) < v_size (h_vec h)"
    and cmp: "\<And>x y. le x y = Some (k x \<le> k y)"
  shows "1 \<le> i \<Longrightarrow> verifyHeap le h i = Some (subtree_ok k h i)"
proof (induction "Suc (h_size h) - i" arbitrary: i rule: less_induct)
  case less
  show ?case
  proof (cases "i > h_size h")
    case True
    then show ?thesis by (subst verifyHeap.simps) (simp add: subtree_ok_beyond)
  next
    case False
    then have "verifyHeap le h (get_right i) = Some (subtree_ok k h (2 * i + 1))"
      "verifyHeap le h (get_left i) = Some (subtree_ok k h (2 * i))"
      unfolding heap_index_eqs using less.prems by (intro less.hyps; linarith)+
    then have children: "Option.bind (verifyHeap le h (get_right i))
        (\<lambda>r. if r then verifyHeap le h (get_left i) else Some False) =
        Some (subtree_ok k h (2 * i + 1) \<and> subtree_ok k h (2 * i))"
      by simp
    note sub = subtree_ok_unfold [OF less.prems, of h k]
    show ?thesis
    proof (cases "i = 1")
      case True
      with False children sub show ?thesis by (subst verifyHeap.simps) simp
    next
      case i: False
      have rd: "vec_ref (h_vec h) (int m) = Some (vec_list (h_vec h) ! m)" if "m \<le> i" for m
        using that False v by (intro vec_ref_nat) auto
      have "vec_ref (h_vec h) (int (get_parent i)) = Some (vec_list (h_vec h) ! (i div 2))"
        using rd [of "i div 2"] by (simp add: get_parent_eq)
      then show ?thesis
        using False i less.prems children sub rd [of i]
        by (subst verifyHeap.simps) (simp add: cmp edge_ok_def)
    qed
  qed
qed

subsection \<open>The contract of a priority queue\<close>

definition pairwise_cmp :: "('a \<Rightarrow> 'a \<Rightarrow> bool) \<Rightarrow> 'a multiset \<Rightarrow> bool" where
  "pairwise_cmp c M \<longleftrightarrow> (\<forall>x \<in># M. \<forall>y \<in># M - {#x#}. c x y)"

lemma pairwise_cmp_True [simp]: "pairwise_cmp (\<lambda>_ _. True) M"
  by (simp add: pairwise_cmp_def)

lemma pairwise_cmp_remove:
  assumes "pairwise_cmp c (add_mset a M)"
  shows "pairwise_cmp c M"
proof -
  have "c x y" if "x \<in># M" "y \<in># M - {#x#}" for x y
  proof -
    have "M - {#x#} \<subseteq># add_mset a M - {#x#}" by (simp add: subseteq_mset_def)
    then have "y \<in># add_mset a M - {#x#}" using that(2) by (rule mset_subset_eqD)
    then show ?thesis using assms that(1) by (auto simp: pairwise_cmp_def)
  qed
  then show ?thesis by (simp add: pairwise_cmp_def)
qed

locale prio_queue =
  fixes inv :: "'q \<Rightarrow> bool"
    and elems :: "'q \<Rightarrow> 'a multiset"
    and key :: "'a \<Rightarrow> 'k::linorder"
    and comparable :: "'a \<Rightarrow> 'a \<Rightarrow> bool"
    and empty :: "'q"
    and ins :: "'q \<Rightarrow> 'a \<Rightarrow> 'q option"
    and ext :: "'q \<Rightarrow> ('a \<times> 'q) option"
    and peek :: "'q \<Rightarrow> 'a option"
    and sz :: "'q \<Rightarrow> nat"
  assumes inv_empty: "inv empty"
    and elems_empty: "elems empty = {#}"
    and sz_law: "inv q \<Longrightarrow> sz q = size (elems q)"
    and ins_law: "\<lbrakk>inv q; \<forall>y \<in># elems q. comparable x y\<rbrakk> \<Longrightarrow>
      \<exists>q'. ins q x = Some q' \<and> inv q' \<and> elems q' = add_mset x (elems q)"
    and ext_law: "\<lbrakk>inv q; elems q \<noteq> {#}; pairwise_cmp comparable (elems q)\<rbrakk> \<Longrightarrow>
      \<exists>x q'. ext q = Some (x, q') \<and> peek q = Some x \<and> inv q' \<and>
        elems q = add_mset x (elems q') \<and> (\<forall>y \<in># elems q. key x \<le> key y)"
    and ext_none: "\<lbrakk>inv q; elems q = {#}\<rbrakk> \<Longrightarrow> ext q = None \<and> peek q = None"
begin

lemma ins_cases:
  assumes "inv q" "\<forall>y \<in># elems q. comparable x y"
  obtains q' where "ins q x = Some q'" "inv q'" "elems q' = add_mset x (elems q)"
  using ins_law [OF assms] by blast

lemma ext_cases:
  assumes "inv q" "pairwise_cmp comparable (elems q)"
  obtains "elems q = {#}" "sz q = 0" "ext q = None" "peek q = None"
  | x q' where "elems q = add_mset x (elems q')" "0 < sz q" "ext q = Some (x, q')" "peek q = Some x"
      "inv q'" "pairwise_cmp comparable (elems q')" "\<forall>y \<in># elems q. key x \<le> key y"
proof (cases "elems q = {#}")
  case True
  then show thesis using that(1) assms(1) ext_none sz_law by simp
next
  case False
  then obtain x q' where "ext q = Some (x, q')" "peek q = Some x" "inv q'"
    "elems q = add_mset x (elems q')" "\<forall>y \<in># elems q. key x \<le> key y"
    using ext_law [OF assms(1) False assms(2)] by blast
  moreover from this have "pairwise_cmp comparable (elems q')"
    using assms(2) pairwise_cmp_remove by metis
  ultimately show thesis using that(2) assms(1) sz_law by simp
qed

text \<open>Minimum and comparability of what a successful extraction returns.\<close>

lemma ext_is_min:
  assumes "inv q" "pairwise_cmp comparable (elems q)" "ext q = Some (x, q')"
  shows "inv q' \<and> elems q = add_mset x (elems q') \<and> (\<forall>y \<in># elems q. key x \<le> key y) \<and> peek q = Some x"
  using assms by (cases rule: ext_cases [OF assms(1,2)]) auto

end

locale node_order =
  fixes le :: "'a node_le"
    and d :: 'a
    and key :: "'a \<Rightarrow> 'k::linorder"
    and comparable :: "'a \<Rightarrow> 'a \<Rightarrow> bool"
  assumes le_law: "comparable x y \<Longrightarrow> le x y = Some (key x \<le> key y)"

sublocale node_order \<subseteq> prio_queue "heap_ok key" ph_elems key comparable ph_init
  "ph_insert le d" "ph_extractMin le" ph_peekMin h_size
proof (unfold_locales, goal_cases)
  case (3 q)
  then show ?case by (simp add: size_ph_elems)
next
  case (4 q x)
  then show ?case using ph_insert_correct [of key q le x d] le_law by blast
next
  case (5 q)
  then have "h_size q > 0" using size_ph_elems [of key q] by (cases "h_size q") auto
  then show ?case using 5 ph_extractMin_correct [of key q le] le_law by (auto simp: pairwise_cmp_def)
next
  case (6 q)
  then show ?case using size_ph_elems [of key q] by (simp add: ph_extractMin_empty ph_peekMin_empty)
qed simp_all

context node_order
begin

lemma drain_sorts:
  "\<lbrakk>heap_ok key h; pairwise_cmp comparable (ph_elems h)\<rbrakk> \<Longrightarrow>
   \<exists>xs h'. ph_drain le h = Some (xs, h') \<and> heap_ok key h' \<and> h_size h' = 0 \<and>
     mset xs = ph_elems h \<and> sorted (map key xs)"
proof (induction "h_size h" arbitrary: h rule: less_induct)
  case less
  show ?case
  proof (cases rule: ext_cases [OF less.prems])
    case 1
    then show ?thesis using less.prems by (simp add: ph_drain.simps)
  next
    case (2 x h1)
    have "h_size h1 < h_size h" using 2 ph_extractMin_size [of le h] by force
    from less.hyps [OF this 2(5,6)] obtain xs h2 where
      ih: "ph_drain le h1 = Some (xs, h2)" "heap_ok key h2" "h_size h2 = 0" "mset xs = ph_elems h1"
        "sorted (map key xs)" by blast
    have "\<forall>y \<in> set xs. key x \<le> key y" using 2(1,7) ih(4) by (auto simp flip: set_mset_mset)
    then show ?thesis using 2 ih by (simp add: ph_drain.simps [of le h])
  qed
qed

end

subsection \<open>Filling a heap\<close>

fun ph_insert_all :: "'a node_le \<Rightarrow> 'a \<Rightarrow> 'a prio_heap \<Rightarrow> 'a list \<Rightarrow> 'a prio_heap option" where
  "ph_insert_all le d h [] = Some h"
| "ph_insert_all le d h (x # xs) = do { h \<leftarrow> ph_insert le d h x; ph_insert_all le d h xs }"

context node_order
begin

lemma insert_all_elems:
  assumes "heap_ok key h" "\<forall>x y. comparable x y"
  shows "\<exists>h'. ph_insert_all le d h xs = Some h' \<and> heap_ok key h' \<and> ph_elems h' = mset xs + ph_elems h"
  using assms
proof (induction xs arbitrary: h)
  case Nil
  then show ?case by simp
next
  case (Cons x xs)
  obtain h1 where "ph_insert le d h x = Some h1" "heap_ok key h1" "ph_elems h1 = add_mset x (ph_elems h)"
    using ins_law [of h x] Cons.prems by blast
  with Cons.IH [of h1] Cons.prems(2) show ?case by auto
qed

end

subsection \<open>Properties\<close>

text \<open>
  C37. \<^verbatim>\<open>PrioHeap\<close>: for a total order of the elements, inserting any sequence of keys into
  a fresh heap and extracting until it is empty never aborts, ends, and returns exactly
  the inserted keys, duplicates included, in the order of their keys.
\<close>
theorem prio_heap_sorts:
  assumes "\<forall>x y. le x y = Some (k x \<le> k y)"
  shows "\<exists>h xs h'. ph_insert_all le d ph_init ys = Some h \<and> ph_drain le h = Some (xs, h') \<and>
    mset xs = mset ys \<and> sorted (map k xs) \<and> h_size h = length ys \<and> h_size h' = 0"
proof -
  have o: "node_order le k (\<lambda>_ _. True)" using assms by unfold_locales blast
  obtain h where h: "ph_insert_all le d ph_init ys = Some h" "heap_ok k h" "ph_elems h = mset ys"
    using node_order.insert_all_elems [OF o, of ph_init d ys] by auto
  have "h_size h = length ys" using size_ph_elems [OF h(2)] h(3) by simp
  with h node_order.drain_sorts [OF o h(2)] show ?thesis by auto
qed

theorem prio_heap_sorts_witness:
  "\<exists>h xs h'. ph_insert_all (\<lambda>x y. Some (x \<le> y)) 0 ph_init [5, 3, 9, 3 :: int] = Some h \<and>
    ph_drain (\<lambda>x y. Some (x \<le> y)) h = Some (xs, h') \<and> mset xs = {#3, 3, 5, 9#} \<and> sorted xs"
  using prio_heap_sorts [of "\<lambda>x y. Some (x \<le> y)" "\<lambda>x. x" 0 "[5, 3, 9, 3 :: int]"]
  by (auto simp: add_mset_commute)

text \<open>
  \<^verbatim>\<open>PrioHeap::insert\<close>, \<^verbatim>\<open>peekMin\<close> and \<^verbatim>\<open>extractMin\<close> keep the heap property; when the
  comparisons they make are defined they do not abort.  \<^verbatim>\<open>insert\<close> adds its key and nothing
  else; on an empty heap \<^verbatim>\<open>peekMin\<close> and \<^verbatim>\<open>extractMin\<close> abort, otherwise both return one
  element of the least key and \<^verbatim>\<open>extractMin\<close> removes just that one.
\<close>
theorem prio_heap_contract:
  assumes "heap_ok k h" "\<forall>x y. c x y \<longrightarrow> le x y = Some (k x \<le> k y)"
    and "\<forall>y \<in># ph_elems h. c key y" "pairwise_cmp c (ph_elems h)"
  shows "(\<exists>h'. ph_insert le d h key = Some h' \<and> heap_ok k h' \<and> ph_elems h' = add_mset key (ph_elems h)) \<and>
    (if h_size h = 0 then ph_extractMin le h = None \<and> ph_peekMin h = None
     else \<exists>x h'. ph_extractMin le h = Some (x, h') \<and> ph_peekMin h = Some x \<and> heap_ok k h' \<and>
       ph_elems h = add_mset x (ph_elems h') \<and> (\<forall>y \<in># ph_elems h. k x \<le> k y))"
proof -
  have "\<exists>h'. ph_insert le d h key = Some h' \<and> heap_ok k h' \<and> ph_elems h' = add_mset key (ph_elems h)"
    using ph_insert_correct [of k h le key d] assms by blast
  moreover have "\<exists>x h'. ph_extractMin le h = Some (x, h') \<and> ph_peekMin h = Some x \<and> heap_ok k h' \<and>
       ph_elems h = add_mset x (ph_elems h') \<and> (\<forall>y \<in># ph_elems h. k x \<le> k y)" if "h_size h \<noteq> 0"
    using ph_extractMin_correct [of k h le] assms that by (auto simp: pairwise_cmp_def)
  ultimately show ?thesis by (simp add: ph_extractMin_empty ph_peekMin_empty)
qed

theorem prio_heap_contract_witness:
  "\<exists>h'. ph_insert (\<lambda>x y. Some (x \<le> y)) 0 ph_init (7 :: int) = Some h' \<and> ph_elems h' = {#7#}"
  using prio_heap_contract [of "\<lambda>x. x" ph_init "\<lambda>_ _. True" "\<lambda>x y. Some (x \<le> y)" "7 :: int" 0] by auto

text \<open>
  The self-check \<^verbatim>\<open>verifyHeap\<close> returns on every heap and answers exactly whether each
  element is not smaller than its parent.
\<close>
theorem verifyHeap_correct:
  assumes "vec_inv (h_vec h)" "int (h_size h) < v_size (h_vec h)"
    and "\<forall>x y. le x y = Some (k x \<le> k y)"
  shows "verifyHeap le h 1 = Some (is_heap k (vec_list (h_vec h)) (h_size h))"
  using verifyHeap_subtree [where k = k and le = le, OF assms(1,2) _, of 1] assms(3) subtree_ok_root [of k h] by simp

theorem verifyHeap_correct_witness:
  "verifyHeap (\<lambda>x y. Some (x \<le> y)) \<lparr>h_vec = \<lparr>v_vec = [0, 4, 3 :: int], v_size = 3, v_max_size = 3\<rparr>, h_size = 2\<rparr> 1
     = Some False"
  using verifyHeap_correct [of "\<lparr>h_vec = \<lparr>v_vec = [0, 4, 3 :: int], v_size = 3, v_max_size = 3\<rparr>, h_size = 2\<rparr>"
      "\<lambda>x y. Some (x \<le> y)" "\<lambda>x. x"]
  by (auto simp: vec_inv_def is_heap_def edge_ok_def vec_list_def intro!: exI [of _ 2])

text \<open>
  The index arithmetic of the heap is done on the unsigned machine type
  \<^verbatim>\<open>HeapIndex\<close>: below \<open>2 ^ 31\<close> the shifts and the bitwise or of \<^verbatim>\<open>get_left\<close>,
  \<^verbatim>\<open>get_right\<close> and \<^verbatim>\<open>get_parent\<close> do not wrap and compute \<open>2 i\<close>, \<open>2 i + 1\<close> and \<open>i div 2\<close>.
\<close>
theorem heap_index_words:
  fixes i :: "32 word"
  assumes "unat i < 2 ^ 31"
  shows "unat (push_bit 1 i) = get_left (unat i) \<and> unat (push_bit 1 i OR 1) = get_right (unat i) \<and>
    unat (drop_bit 1 i) = get_parent (unat i) \<and>
    get_left (unat i) = 2 * unat i \<and> get_right (unat i) = 2 * unat i + 1 \<and> get_parent (unat i) = unat i div 2"
proof -
  have l: "unat (push_bit 1 i) = 2 * unat i"
    using assms by (simp add: push_bit_eq_mult unat_word_ariths mult.commute)
  have "even (push_bit 1 i)" by (simp add: push_bit_eq_mult)
  then have "push_bit 1 i OR 1 = push_bit 1 i + 1" by (simp add: or_one_eq)
  then have "unat (push_bit 1 i OR 1) = get_right (unat i)"
    using l assms by (simp add: get_right_eq unat_word_ariths)
  moreover have "unat (drop_bit 1 i) = get_parent (unat i)"
    by (simp add: get_parent_eq drop_bit_eq_div unat_div)
  ultimately show ?thesis using l by (simp add: heap_index_eqs)
qed

theorem heap_index_words_witness:
  "unat (push_bit 1 (5 :: 32 word)) = get_left 5 \<and> unat (push_bit 1 (5 :: 32 word) OR 1) = get_right 5"
  using heap_index_words [of 5] by simp

end
