(* ===== verification/EventQueue_Model.thy ===== *)
theory EventQueue_Model
  imports PrioHeap_Model
begin

text \<open>
  The discrete-event kernel of Ruby: \<^verbatim>\<open>eventqueue/EventQueueNode.h\<close>,
  \<^verbatim>\<open>eventqueue/EventQueue.h\<close>, \<^verbatim>\<open>eventqueue/EventQueue.C\<close> and the base class
  \<^verbatim>\<open>common/Consumer.h\<close>.  A consumer is identified by a number, the null pointer is
  \<open>None\<close>; the two time stamps that the base class keeps for every consumer are part of the
  state, because the queue writes them.

  \<^verbatim>\<open>wakeup\<close> is a pure virtual method, the rest of the simulator: a parameter \<open>wk\<close> that maps
  the consumer, the current time and the state of the rest of the world to the new state of the
  world and the list of the \<^verbatim>\<open>scheduleEventAbsolute\<close> calls it makes, in order.

  Main results: the queue invariant (no scheduled wakeup is lost, nothing is scheduled in the
  past), termination of \<^verbatim>\<open>triggerEvents\<close>, and that it delivers exactly the due
  wakeups, in the order of time, each consumer at most once per time.
\<close>

type_synonym ConsumerPtr = "nat option"

record EventQueueNode =
  en_time :: Time
  en_consumer_ptr :: ConsumerPtr

definition EventQueueNode_default :: EventQueueNode where
  "EventQueueNode_default = \<lparr>en_time = 0, en_consumer_ptr = None\<rparr>"

definition event_node_le :: "EventQueueNode node_le" where
  "event_node_le n1 n2 = Some (en_time n1 \<le> en_time n2)"

record Consumer =
  m_last_scheduled_wakeup :: Time
  m_last_wakeup :: Time

definition Consumer_new :: Consumer where
  "Consumer_new = \<lparr>m_last_scheduled_wakeup = 0, m_last_wakeup = 0\<rparr>"

record EventQueue =
  eq_prio_heap :: "EventQueueNode prio_heap"
  m_globalTime :: Time
  m_timeOfLastRecovery :: Time
  eq_consumers :: "nat \<Rightarrow> Consumer"

type_synonym 'w wakeup = "nat \<Rightarrow> Time \<Rightarrow> 'w \<Rightarrow> 'w \<times> (nat \<times> Time) list"

definition EventQueue_new :: EventQueue where
  "EventQueue_new = \<lparr>eq_prio_heap = ph_init, m_globalTime = 1, m_timeOfLastRecovery = 1,
     eq_consumers = (\<lambda>_. Consumer_new)\<rparr>"

definition getTime :: "EventQueue \<Rightarrow> Time" where
  "getTime eq = m_globalTime eq"

definition eq_isEmpty :: "EventQueue \<Rightarrow> bool" where
  "eq_isEmpty eq \<longleftrightarrow> h_size (eq_prio_heap eq) = 0"

definition setLastScheduledWakeup :: "EventQueue \<Rightarrow> nat \<Rightarrow> Time \<Rightarrow> EventQueue" where
  "setLastScheduledWakeup eq c t = eq\<lparr>eq_consumers :=
     (eq_consumers eq)(c := (eq_consumers eq c)\<lparr>m_last_scheduled_wakeup := t\<rparr>)\<rparr>"

definition scheduleEventAbsolute :: "EventQueue \<Rightarrow> ConsumerPtr \<Rightarrow> Time \<Rightarrow> EventQueue option" where
  "scheduleEventAbsolute eq consumer timeAbs =
     (case consumer of None \<Rightarrow> None
      | Some c \<Rightarrow>
          if m_last_scheduled_wakeup (eq_consumers eq c) \<noteq> timeAbs then do {
            assert_that (timeAbs > m_globalTime eq);
            h \<leftarrow> ph_insert event_node_le EventQueueNode_default (eq_prio_heap eq)
                   \<lparr>en_time = timeAbs, en_consumer_ptr = consumer\<rparr>;
            Some (setLastScheduledWakeup (eq\<lparr>eq_prio_heap := h\<rparr>) c timeAbs)
          } else Some eq)"

definition scheduleEvent :: "EventQueue \<Rightarrow> ConsumerPtr \<Rightarrow> Time \<Rightarrow> EventQueue option" where
  "scheduleEvent eq consumer timeDelta = scheduleEventAbsolute eq consumer (timeDelta + m_globalTime eq)"

fun schedule_all :: "EventQueue \<Rightarrow> (nat \<times> Time) list \<Rightarrow> EventQueue option" where
  "schedule_all eq [] = Some eq"
| "schedule_all eq ((c, t) # rs) = do { eq \<leftarrow> scheduleEventAbsolute eq (Some c) t; schedule_all eq rs }"

definition triggerWakeup :: "'w wakeup \<Rightarrow> EventQueue \<Rightarrow> 'w \<Rightarrow> nat \<Rightarrow> (EventQueue \<times> 'w) option" where
  "triggerWakeup wk eq w c =
     (let time = getTime eq in
      if m_last_wakeup (eq_consumers eq c) \<noteq> time then do {
        let (w', requests) = wk c time w;
        eq \<leftarrow> schedule_all eq requests;
        Some (eq\<lparr>eq_consumers := (eq_consumers eq)(c := (eq_consumers eq c)\<lparr>m_last_wakeup := time\<rparr>)\<rparr>, w')
      } else Some (eq, w))"

text \<open>One turn of the loop of \<^verbatim>\<open>triggerEvents\<close> and \<^verbatim>\<open>triggerAllEvents\<close>.\<close>

definition trigger_next :: "'w wakeup \<Rightarrow> EventQueue \<Rightarrow> 'w \<Rightarrow> (EventQueue \<times> 'w) option" where
  "trigger_next wk eq w = do {
     m \<leftarrow> ph_peekMin (eq_prio_heap eq);
     let eq = eq\<lparr>m_globalTime := en_time m\<rparr>;
     (thisNode, h) \<leftarrow> ph_extractMin event_node_le (eq_prio_heap eq);
     let eq = eq\<lparr>eq_prio_heap := h\<rparr>;
     (case en_consumer_ptr thisNode of None \<Rightarrow> None | Some c \<Rightarrow> triggerWakeup wk eq w c)
   }"

definition due :: "EventQueue \<Rightarrow> Time \<Rightarrow> bool option" where
  "due eq t = (if h_size (eq_prio_heap eq) > 0
     then do { m \<leftarrow> ph_peekMin (eq_prio_heap eq); Some (en_time m \<le> t) } else Some False)"

partial_function (option) trigger_loop ::
  "'w wakeup \<Rightarrow> Time \<Rightarrow> EventQueue \<Rightarrow> 'w \<Rightarrow> (EventQueue \<times> 'w) option" where
  "trigger_loop wk t eq w =
     Option.bind (due eq t) (\<lambda>b.
       if b then Option.bind (trigger_next wk eq w) (\<lambda>(eq, w). trigger_loop wk t eq w)
       else Some (eq, w))"

definition triggerEvents :: "'w wakeup \<Rightarrow> Time \<Rightarrow> EventQueue \<Rightarrow> 'w \<Rightarrow> (EventQueue \<times> 'w) option" where
  "triggerEvents wk t eq w = do {
     (eq, w) \<leftarrow> trigger_loop wk t eq w;
     Some (eq\<lparr>m_globalTime := t\<rparr>, w)
   }"

partial_function (option) triggerAllEvents ::
  "'w wakeup \<Rightarrow> EventQueue \<Rightarrow> 'w \<Rightarrow> (EventQueue \<times> 'w) option" where
  "triggerAllEvents wk eq w =
     (if h_size (eq_prio_heap eq) > 0
      then Option.bind (trigger_next wk eq w) (\<lambda>(eq, w). triggerAllEvents wk eq w)
      else Some (eq, w))"

subsection \<open>The order of events and the queue contract\<close>

interpretation evq: node_order event_node_le EventQueueNode_default en_time "\<lambda>_ _. True"
  by unfold_locales (simp add: event_node_le_def)

abbreviation pending :: "EventQueue \<Rightarrow> EventQueueNode multiset" where
  "pending eq \<equiv> ph_elems (eq_prio_heap eq)"

abbreviation event :: "nat \<Rightarrow> Time \<Rightarrow> EventQueueNode" where
  "event c t \<equiv> \<lparr>en_time = t, en_consumer_ptr = Some c\<rparr>"

abbreviation last_scheduled :: "EventQueue \<Rightarrow> nat \<Rightarrow> Time" where
  "last_scheduled eq c \<equiv> m_last_scheduled_wakeup (eq_consumers eq c)"

abbreviation last_woken :: "EventQueue \<Rightarrow> nat \<Rightarrow> Time" where
  "last_woken eq c \<equiv> m_last_wakeup (eq_consumers eq c)"

text \<open>
  The invariant: the heap is a heap of events of real consumers, none before the current time;
  a consumer whose last scheduled wakeup lies in the future has that wakeup in the heap; no
  consumer was woken in the future.
\<close>

definition eq_inv :: "EventQueue \<Rightarrow> bool" where
  "eq_inv eq \<longleftrightarrow> heap_ok en_time (eq_prio_heap eq) \<and>
     (\<forall>n \<in># pending eq. en_consumer_ptr n \<noteq> None \<and> m_globalTime eq \<le> en_time n) \<and>
     (\<forall>c. m_globalTime eq < last_scheduled eq c \<longrightarrow> event c (last_scheduled eq c) \<in># pending eq) \<and>
     (\<forall>c. last_woken eq c \<le> m_globalTime eq)"

lemma eq_invD:
  assumes "eq_inv eq"
  shows "heap_ok en_time (eq_prio_heap eq)"
    and "n \<in># pending eq \<Longrightarrow> \<exists>c. n = event c (en_time n) \<and> m_globalTime eq \<le> en_time n"
    and "m_globalTime eq < last_scheduled eq c \<Longrightarrow> event c (last_scheduled eq c) \<in># pending eq"
    and "last_woken eq c \<le> m_globalTime eq"
  using assms by (cases n; auto simp: eq_inv_def)+

lemma eq_inv_new: "eq_inv EventQueue_new"
  by (simp add: eq_inv_def EventQueue_new_def Consumer_new_def)

lemma scheduleEventAbsolute_correct:
  assumes i: "eq_inv eq" and t: "m_globalTime eq < t"
  obtains eq' where "scheduleEventAbsolute eq (Some c) t = Some eq'" "eq_inv eq'"
    "m_globalTime eq' = m_globalTime eq" "event c t \<in># pending eq'"
    "pending eq' = pending eq \<or> pending eq' = add_mset (event c t) (pending eq)"
    "\<And>c'. last_woken eq' c' = last_woken eq c'" "last_scheduled eq' c = t"
proof (cases "last_scheduled eq c = t")
  case True
  then show thesis using that [of eq] i t by (auto simp: scheduleEventAbsolute_def dest: eq_invD(3))
next
  case False
  from evq.ins_cases [OF eq_invD(1) [OF i], of "event c t"] obtain h where
    h: "ph_insert event_node_le EventQueueNode_default (eq_prio_heap eq) (event c t) = Some h"
      "heap_ok en_time h" "ph_elems h = add_mset (event c t) (pending eq)" by auto
  let ?e = "setLastScheduledWakeup (eq\<lparr>eq_prio_heap := h\<rparr>) c t"
  have s: "scheduleEventAbsolute eq (Some c) t = Some ?e"
    using False t h(1) by (simp add: scheduleEventAbsolute_def)
  have "eq_inv ?e"
    using i t h by (auto simp: eq_inv_def setLastScheduledWakeup_def)
  then show thesis using that [OF s] h(3) by (simp add: setLastScheduledWakeup_def)
qed

lemma scheduleEventAbsolute_past:
  "\<lbrakk>t \<le> m_globalTime eq; last_scheduled eq c \<noteq> t\<rbrakk> \<Longrightarrow> scheduleEventAbsolute eq (Some c) t = None"
  by (simp add: scheduleEventAbsolute_def)

lemma schedule_all_correct:
  assumes "eq_inv eq" "\<forall>(c, t) \<in> set rs. m_globalTime eq < t"
  shows "\<exists>eq'. schedule_all eq rs = Some eq' \<and> eq_inv eq' \<and> m_globalTime eq' = m_globalTime eq \<and>
    (\<forall>c. last_woken eq' c = last_woken eq c) \<and> pending eq \<subseteq># pending eq' \<and>
    (\<forall>n \<in># pending eq'. n \<in># pending eq \<or> (\<exists>(c, t) \<in> set rs. n = event c t)) \<and>
    (\<forall>(c, t) \<in> set rs. event c t \<in># pending eq')"
  using assms
proof (induction rs arbitrary: eq)
  case Nil
  then show ?case by simp
next
  case (Cons r rs)
  obtain c t where r: "r = (c, t)" by (cases r)
  from Cons.prems r have "m_globalTime eq < t" by simp
  from scheduleEventAbsolute_correct [OF Cons.prems(1) this, of c] obtain e where
    e: "scheduleEventAbsolute eq (Some c) t = Some e" "eq_inv e" "m_globalTime e = m_globalTime eq"
      "event c t \<in># pending e" "pending e = pending eq \<or> pending e = add_mset (event c t) (pending eq)"
      "\<And>c'. last_woken e c' = last_woken eq c'" by metis
  from Cons.IH [OF e(2)] Cons.prems(2) e(3) obtain eq' where
    eq': "schedule_all e rs = Some eq'" "eq_inv eq'" "m_globalTime eq' = m_globalTime e"
      "\<forall>c. last_woken eq' c = last_woken e c" "pending e \<subseteq># pending eq'"
      "\<forall>n \<in># pending eq'. n \<in># pending e \<or> (\<exists>(c, t) \<in> set rs. n = event c t)"
      "\<forall>(c, t) \<in> set rs. event c t \<in># pending eq'" by auto
  have "pending eq \<subseteq># pending e" using e(5) by auto
  then have sub: "pending eq \<subseteq># pending eq'" using eq'(5) by (rule subset_mset.order_trans)
  have run: "schedule_all eq (r # rs) = Some eq'" using e(1) eq'(1) by (simp add: r)
  have new: "\<forall>n \<in># pending eq'. n \<in># pending eq \<or> (\<exists>(c, t) \<in> set (r # rs). n = event c t)"
    using eq'(6) e(5) by (auto simp: r)
  have "event c t \<in># pending eq'" using e(4) eq'(5) by (metis mset_subset_eqD)
  then have all: "\<forall>(c, t) \<in> set (r # rs). event c t \<in># pending eq'" using eq'(7) by (auto simp: r)
  show ?case using run new all sub eq'(2-4) e(3,6) by (intro exI [of _ eq'] conjI) simp_all
qed

subsection \<open>One turn of the loop\<close>

definition well_behaved :: "'w wakeup \<Rightarrow> nat set \<Rightarrow> bool" where
  "well_behaved wk C \<longleftrightarrow> (\<forall>c t w. \<forall>(c', t') \<in> set (snd (wk c t w)). t < t' \<and> c' \<in> C)"

definition eq_over :: "nat set \<Rightarrow> EventQueue \<Rightarrow> bool" where
  "eq_over C eq \<longleftrightarrow> (\<forall>n \<in># pending eq. \<forall>c. en_consumer_ptr n = Some c \<longrightarrow> c \<in> C)"

lemma triggerWakeup_correct:
  assumes i: "eq_inv eq" and wb: "well_behaved wk C" and C: "eq_over C eq"
  obtains eq' w' rs where "triggerWakeup wk eq w c = Some (eq', w')" "eq_inv eq'" "eq_over C eq'"
    "m_globalTime eq' = m_globalTime eq" "pending eq \<subseteq># pending eq'"
    "if last_woken eq c \<noteq> m_globalTime eq then wk c (m_globalTime eq) w = (w', rs)
     else w' = w \<and> rs = [] \<and> pending eq' = pending eq"
    "\<forall>c'. last_woken eq' c' = (if c' = c then m_globalTime eq else last_woken eq c')"
proof (cases "last_woken eq c = m_globalTime eq")
  case True
  then show thesis using that [of eq w "[]"] i C by (auto simp: triggerWakeup_def getTime_def)
next
  case False
  obtain w' rs where wk: "wk c (m_globalTime eq) w = (w', rs)" by (cases "wk c (m_globalTime eq) w")
  then have rs: "\<forall>(c', t) \<in> set rs. m_globalTime eq < t \<and> c' \<in> C"
    using wb unfolding well_behaved_def by (metis snd_conv)
  then have "\<forall>(c', t) \<in> set rs. m_globalTime eq < t" by auto
  from schedule_all_correct [OF i this] obtain e where
    e: "schedule_all eq rs = Some e" "eq_inv e" "m_globalTime e = m_globalTime eq"
      "\<forall>c. last_woken e c = last_woken eq c" "pending eq \<subseteq># pending e"
      "\<forall>n \<in># pending e. n \<in># pending eq \<or> (\<exists>(c, t) \<in> set rs. n = event c t)" by auto
  let ?e = "e\<lparr>eq_consumers := (eq_consumers e)(c := (eq_consumers e c)\<lparr>m_last_wakeup := m_globalTime eq\<rparr>)\<rparr>"
  have "triggerWakeup wk eq w c = Some (?e, w')"
    using False wk e(1) by (simp add: triggerWakeup_def getTime_def)
  moreover have "eq_inv ?e" using e(2,3) by (auto simp: eq_inv_def)
  moreover have "eq_over C ?e" using C e(6) rs unfolding eq_over_def by fastforce
  ultimately show thesis using that [of ?e w' rs] False wk e by auto
qed

lemma eq_inv_pop:
  assumes i: "eq_inv eq" and p: "pending eq = add_mset n (ph_elems h)" and h: "heap_ok en_time h"
    and least: "\<forall>m \<in># pending eq. en_time n \<le> en_time m"
  shows "eq_inv (eq\<lparr>m_globalTime := en_time n, eq_prio_heap := h\<rparr>)"
proof -
  have n: "m_globalTime eq \<le> en_time n" using i p by (auto simp: eq_inv_def)
  have "event c (last_scheduled eq c) \<in># ph_elems h" if "en_time n < last_scheduled eq c" for c
  proof -
    have "event c (last_scheduled eq c) \<in># pending eq" using eq_invD(3) [OF i, of c] n that by simp
    then show ?thesis using p that by auto
  qed
  moreover have "last_woken eq c \<le> en_time n" for c using eq_invD(4) [OF i, of c] n by simp
  ultimately show ?thesis using i p h least by (auto simp: eq_inv_def)
qed

text \<open>What a turn of the loop does when an event is due.\<close>

lemma trigger_next_correct:
  assumes i: "eq_inv eq" and wb: "well_behaved wk C" and C: "eq_over C eq" and b: "due eq t = Some True"
  obtains c s eq' w' rs where "trigger_next wk eq w = Some (eq', w')" "eq_inv eq'" "eq_over C eq'" "c \<in> C"
    "event c s \<in># pending eq" "m_globalTime eq \<le> s" "s \<le> t" "m_globalTime eq' = s"
    "pending eq - {#event c s#} \<subseteq># pending eq'"
    "if last_woken eq c \<noteq> s then wk c s w = (w', rs)
     else w' = w \<and> rs = [] \<and> pending eq' = pending eq - {#event c s#}"
    "\<forall>c'. last_woken eq' c' = (if c' = c then s else last_woken eq c')"
proof -
  have h: "heap_ok en_time (eq_prio_heap eq)" by (rule eq_invD(1) [OF i])
  show thesis
  proof (cases rule: evq.ext_cases [OF h pairwise_cmp_True])
    case 1
    then show thesis using b by (simp add: due_def)
  next
    case (2 n h')
    have "n \<in># pending eq" using 2(1) by simp
    with eq_invD(2) [OF i] obtain c where c: "n = event c (en_time n)" "m_globalTime eq \<le> en_time n"
      by blast
    have cC: "c \<in> C" using C \<open>n \<in># pending eq\<close> c(1) unfolding eq_over_def by (metis EventQueueNode.select_convs(2))
    have le: "en_time n \<le> t" using b 2 by (simp add: due_def)
    let ?e = "eq\<lparr>m_globalTime := en_time n, eq_prio_heap := h'\<rparr>"
    have ie: "eq_inv ?e" using eq_inv_pop [OF i 2(1,5,7)] .
    have oe: "eq_over C ?e" using C 2(1) by (auto simp: eq_over_def)
    obtain eq' w' rs where tw: "triggerWakeup wk ?e w c = Some (eq', w')" "eq_inv eq'" "eq_over C eq'"
      "m_globalTime eq' = m_globalTime ?e" "pending ?e \<subseteq># pending eq'"
      "if last_woken ?e c \<noteq> m_globalTime ?e then wk c (m_globalTime ?e) w = (w', rs)
       else w' = w \<and> rs = [] \<and> pending eq' = pending ?e"
      "\<forall>c'. last_woken eq' c' = (if c' = c then m_globalTime ?e else last_woken ?e c')"
      by (rule triggerWakeup_correct [OF ie wb oe])
    have pe: "pending ?e = pending eq - {#event c (en_time n)#}" using 2(1) c(1) by simp
    have "en_consumer_ptr n = Some c" using c(1) by (metis EventQueueNode.select_convs(2))
    then have "trigger_next wk eq w = Some (eq', w')"
      using 2(3,4) tw(1) by (simp add: trigger_next_def Let_def)
    moreover have "event c (en_time n) \<in># pending eq" using \<open>n \<in># pending eq\<close> c(1) by simp
    moreover have "if last_woken eq c \<noteq> en_time n then wk c (en_time n) w = (w', rs)
       else w' = w \<and> rs = [] \<and> pending eq' = pending eq - {#event c (en_time n)#}"
      using tw(6) unfolding pe by (simp split: if_splits)
    moreover have "\<forall>c'. last_woken eq' c' = (if c' = c then en_time n else last_woken eq c')"
      using tw(7) by simp
    moreover have "m_globalTime eq' = en_time n" using tw(4) by simp
    ultimately show thesis
      using that [of eq' w' c "en_time n" rs] tw(2,3,5) cC c(2) le unfolding pe by blast
  qed
qed

lemma due_cases:
  assumes "eq_inv eq"
  obtains "due eq t = Some True" "0 < h_size (eq_prio_heap eq)"
  | "due eq t = Some False" "\<forall>n \<in># pending eq. t < en_time n"
proof (cases rule: evq.ext_cases [OF eq_invD(1) [OF assms] pairwise_cmp_True])
  case 1
  then show thesis using that(2) by (simp add: due_def)
next
  case (2 n h')
  then show thesis using that by (cases "en_time n \<le> t") (force simp: due_def)+
qed

subsection \<open>Termination\<close>

text \<open>
  How many wakeups can still happen until time \<open>t\<close>: every consumer at most once per
  remaining time, and once at the current time unless it has been woken already.
\<close>

definition wakeups_left :: "nat set \<Rightarrow> Time \<Rightarrow> EventQueue \<Rightarrow> nat" where
  "wakeups_left C t eq =
     card C * nat (t - m_globalTime eq) + card {c \<in> C. last_woken eq c \<noteq> m_globalTime eq}"

lemma wakeups_left_decreases:
  assumes C: "finite C" "c \<in> C" and g: "m_globalTime eq \<le> s" "s \<le> t" "m_globalTime eq' = s"
    and lw: "\<forall>c'. last_woken eq' c' = (if c' = c then s else last_woken eq c')"
    and past: "\<And>c. last_woken eq c \<le> m_globalTime eq" and new: "last_woken eq c \<noteq> s"
  shows "wakeups_left C t eq' < wakeups_left C t eq"
proof -
  let ?N = "{c' \<in> C. last_woken eq' c' \<noteq> s}"
  have sub: "?N \<subseteq> C - {c}" using lw by auto
  then have "card ?N \<le> card (C - {c})" using C by (intro card_mono) auto
  then have less: "card ?N < card C" using C by (meson card_Diff1_less le_less_trans)
  show ?thesis
  proof (cases "s = m_globalTime eq")
    case True
    then have "?N \<subset> {c' \<in> C. last_woken eq c' \<noteq> s}" using lw C new by auto
    then have "card ?N < card {c' \<in> C. last_woken eq c' \<noteq> s}" using C by (intro psubset_card_mono) auto
    then show ?thesis using True g by (simp add: wakeups_left_def)
  next
    case False
    then have "nat (t - s) + 1 \<le> nat (t - m_globalTime eq)" using g by simp
    then have "card C * (nat (t - s) + 1) \<le> card C * nat (t - m_globalTime eq)" by (rule mult_le_mono2)
    then show ?thesis using less g by (simp add: wakeups_left_def)
  qed
qed

lemma trigger_next_measure:
  assumes i: "eq_inv eq" and C: "finite C" "c \<in> C"
    and g: "m_globalTime eq \<le> s" "s \<le> t" "m_globalTime eq' = s"
    and mem: "event c s \<in># pending eq"
    and keep: "last_woken eq c = s \<Longrightarrow> pending eq' = pending eq - {#event c s#}"
    and lw: "\<forall>c'. last_woken eq' c' = (if c' = c then s else last_woken eq c')"
  shows "(eq', eq) \<in> measures [wakeups_left C t, \<lambda>e. size (pending e)]"
proof (cases "last_woken eq c = s")
  case True
  then have "s = m_globalTime eq" using eq_invD(4) [OF i, of c] g(1) by simp
  then have "wakeups_left C t eq' = wakeups_left C t eq"
    using lw g(3) True by (simp add: wakeups_left_def) (metis (mono_tags))
  moreover have "size (pending eq') < size (pending eq)"
    unfolding keep [OF True] using mem by (rule size_Diff1_less)
  ultimately show ?thesis by simp
next
  case False
  then have "wakeups_left C t eq' < wakeups_left C t eq"
    using wakeups_left_decreases [OF C g lw eq_invD(4) [OF i]] by blast
  then show ?thesis by simp
qed

subsection \<open>Delivery\<close>

text \<open>A handler that also records who was woken when.\<close>

definition logged :: "'w wakeup \<Rightarrow> ((nat \<times> Time) list \<times> 'w) wakeup" where
  "logged wk c t = (\<lambda>(l, w). let (w', rs) = wk c t w in ((l @ [(c, t)], w'), rs))"

lemma well_behaved_logged: "well_behaved wk C \<Longrightarrow> well_behaved (logged wk) C"
  unfolding well_behaved_def logged_def by (auto split: prod.splits) (metis snd_conv case_prodD)+

lemma logged_eq: "logged wk c t (l, w) = ((l', w'), rs) \<Longrightarrow> l' = l @ [(c, t)]"
  by (auto simp: logged_def split: prod.splits)

definition log_inv :: "Time \<Rightarrow> (nat \<times> Time) set \<Rightarrow> EventQueue \<Rightarrow> (nat \<times> Time) list \<Rightarrow> bool" where
  "log_inv g K eq l \<longleftrightarrow> sorted (map snd l) \<and> distinct l \<and> g \<le> m_globalTime eq \<and>
     (\<forall>n \<in># pending eq. g < en_time n) \<and>
     (\<forall>(c, s) \<in> set l. g < s \<and> s \<le> last_woken eq c) \<and>
     (\<forall>c. g < last_woken eq c \<longrightarrow> (c, last_woken eq c) \<in> set l) \<and>
     (\<forall>(c, s) \<in> K. (c, s) \<in> set l \<or> event c s \<in># pending eq)"

lemma log_inv_step:
  assumes l: "log_inv g K eq l" and i: "eq_inv eq" and i': "eq_inv eq'"
    and m: "event c s \<in># pending eq" "m_globalTime eq \<le> s" "m_globalTime eq' = s"
    and sub: "pending eq - {#event c s#} \<subseteq># pending eq'"
    and lw: "\<forall>c'. last_woken eq' c' = (if c' = c then s else last_woken eq c')"
  shows "log_inv g K eq' (if last_woken eq c = s then l else l @ [(c, s)])"
proof -
  have gs: "g < s" using l m(1) by (auto simp: log_inv_def)
  have pend': "\<forall>n \<in># pending eq'. g < en_time n"
    using i' gs m(3) by (fastforce simp: eq_inv_def)
  have old: "\<And>c' s'. (c', s') \<in> set l \<Longrightarrow> g < s' \<and> s' \<le> last_woken eq c' \<and> s' \<le> s"
    using l m(2) eq_invD(4) [OF i] unfolding log_inv_def by (fastforce intro: order_trans)
  have rest: "(c', s') = (c, s) \<or> event c' s' \<in># pending eq'" if "event c' s' \<in># pending eq" for c' s'
  proof (cases "(c', s') = (c, s)")
    case False
    then have "event c' s' \<in># pending eq - {#event c s#}" using that by (auto simp: in_diff_count)
    then show ?thesis using sub by (metis mset_subset_eqD)
  qed simp
  have K: "\<forall>(c', s') \<in> K. (c', s') \<in> set l \<or> (c', s') = (c, s) \<or> event c' s' \<in># pending eq'"
    using l rest unfolding log_inv_def by fastforce
  have woken: "s \<le> last_woken eq c \<Longrightarrow> last_woken eq c = s"
    using eq_invD(4) [OF i, of c] m(2) by simp
  show ?thesis
  proof (cases "last_woken eq c = s")
    case True
    then have same: "\<And>c'. last_woken eq' c' = last_woken eq c'" using lw by simp
    have "(c, s) \<in> set l" using l gs True unfolding log_inv_def by blast
    then show ?thesis
      using True l K same pend' gs m(3) unfolding log_inv_def by auto
  next
    case False
    have "(c, s) \<notin> set l" using old [of c s] woken False by blast
    moreover have "sorted (map snd (l @ [(c, s)]))"
      using l old by (auto simp: log_inv_def sorted_append)
    moreover have "\<forall>(c', s') \<in> set (l @ [(c, s)]). g < s' \<and> s' \<le> last_woken eq' c'"
      using old gs lw by auto
    ultimately show ?thesis
      using False l K lw pend' gs m(3) unfolding log_inv_def by auto
  qed
qed

lemma trigger_loop_delivers:
  assumes C: "finite C" and wb: "well_behaved wk C"
  shows "\<lbrakk>eq_inv eq; eq_over C eq; log_inv g K eq l; m_globalTime eq \<le> t\<rbrakk> \<Longrightarrow>
    \<exists>eq' l' w'. trigger_loop (logged wk) t eq (l, w) = Some (eq', (l', w')) \<and> eq_inv eq' \<and>
      eq_over C eq' \<and> log_inv g K eq' l' \<and> m_globalTime eq' \<le> t \<and> (\<forall>n \<in># pending eq'. t < en_time n)"
proof (induction eq arbitrary: l w rule: wf_induct_rule [OF wf_measures [of "[wakeups_left C t, \<lambda>e. size (pending e)]"]])
  case (1 eq)
  show ?case
  proof (cases rule: due_cases [OF "1.prems"(1), of t])
    case 1
    obtain c s eq' x rs where n: "trigger_next (logged wk) eq (l, w) = Some (eq', x)" "eq_inv eq'"
      "eq_over C eq'" "c \<in> C" "event c s \<in># pending eq" "m_globalTime eq \<le> s" "s \<le> t"
      "m_globalTime eq' = s" "pending eq - {#event c s#} \<subseteq># pending eq'"
      "if last_woken eq c \<noteq> s then logged wk c s (l, w) = (x, rs)
       else x = (l, w) \<and> rs = [] \<and> pending eq' = pending eq - {#event c s#}"
      "\<forall>c'. last_woken eq' c' = (if c' = c then s else last_woken eq c')"
      by (rule trigger_next_correct [OF "1.prems"(1) well_behaved_logged [OF wb] "1.prems"(2) 1(1), where w = "(l, w)"])
    obtain l1 w1 where x: "x = (l1, w1)" by (cases x)
    have l1: "l1 = (if last_woken eq c = s then l else l @ [(c, s)])"
      using n(10) by (auto simp: x dest: logged_eq split: if_splits)
    have "log_inv g K eq' l1"
      unfolding l1 by (rule log_inv_step [OF "1.prems"(3,1) n(2,5,6,8,9,11)])
    moreover have "(eq', eq) \<in> measures [wakeups_left C t, \<lambda>e. size (pending e)]"
      using n(10) by (intro trigger_next_measure [OF "1.prems"(1) C n(4,6,7,8,5) _ n(11)]) simp
    ultimately obtain eq2 l2 w2 where
      r: "trigger_loop (logged wk) t eq' (l1, w1) = Some (eq2, (l2, w2))" "eq_inv eq2" "eq_over C eq2"
        "log_inv g K eq2 l2" "m_globalTime eq2 \<le> t" "\<forall>n \<in># pending eq2. t < en_time n"
      using "1.IH" n(2,3,7,8) by metis
    have "trigger_loop (logged wk) t eq (l, w) = Some (eq2, (l2, w2))"
      using 1(1) n(1) r(1) by (subst trigger_loop.simps) (simp add: x)
    then show ?thesis using r by blast
  next
    case 2
    then show ?thesis using "1.prems" by (subst trigger_loop.simps) auto
  qed
qed

lemma eq_inv_advance:
  assumes "eq_inv eq" "m_globalTime eq \<le> t" "\<forall>n \<in># pending eq. t < en_time n"
  shows "eq_inv (eq\<lparr>m_globalTime := t\<rparr>)"
  using assms unfolding eq_inv_def by (fastforce intro: order_trans)

lemma triggerEvents_logged:
  assumes C: "finite C" and wb: "well_behaved wk C" and i: "eq_inv eq" and o: "eq_over C eq"
    and later: "\<forall>n \<in># pending eq. m_globalTime eq < en_time n" and t: "m_globalTime eq \<le> t"
  shows "\<exists>eq' l w'. triggerEvents (logged wk) t eq ([], w) = Some (eq', (l, w')) \<and>
    eq_inv eq' \<and> eq_over C eq' \<and> m_globalTime eq' = t \<and> (\<forall>n \<in># pending eq'. t < en_time n) \<and>
    sorted (map snd l) \<and> distinct l \<and> (\<forall>(c, s) \<in> set l. m_globalTime eq < s \<and> s \<le> t) \<and>
    (\<forall>c s. event c s \<in># pending eq \<longrightarrow> s \<le> t \<longrightarrow> (c, s) \<in> set l)"
proof -
  let ?K = "{(c, s). event c s \<in># pending eq}"
  have "log_inv (m_globalTime eq) ?K eq []"
    using later eq_invD(4) [OF i] by (auto simp: log_inv_def not_less)
  from trigger_loop_delivers [OF C wb i o this t] obtain eq' l w' where
    r: "trigger_loop (logged wk) t eq ([], w) = Some (eq', (l, w'))" "eq_inv eq'" "eq_over C eq'"
      "log_inv (m_globalTime eq) ?K eq' l" "m_globalTime eq' \<le> t" "\<forall>n \<in># pending eq'. t < en_time n"
    by blast
  have run: "triggerEvents (logged wk) t eq ([], w) = Some (eq'\<lparr>m_globalTime := t\<rparr>, (l, w'))"
    using r(1) by (simp add: triggerEvents_def)
  have "s \<le> t" if "(c, s) \<in> set l" for c s
    using that r(4,5) eq_invD(4) [OF r(2), of c] unfolding log_inv_def by fastforce
  moreover have "(c, s) \<in> set l" if "event c s \<in># pending eq" "s \<le> t" for c s
    using that r(4,6) unfolding log_inv_def by fastforce
  ultimately show ?thesis
    using r run eq_inv_advance [OF r(2,5,6)]
    by (intro exI [of _ "eq'\<lparr>m_globalTime := t\<rparr>"] exI [of _ l] exI [of _ w'])
      (auto simp: eq_over_def log_inv_def)
qed


subsection \<open>Draining the queue\<close>

text \<open>
  \<^verbatim>\<open>triggerAllEvents\<close> has no time bound, so it ends only when the handlers stop asking for
  wakeups: here, when a rank of the world falls with every wakeup that asks for another one.
\<close>

definition quiescing :: "'w wakeup \<Rightarrow> ('w \<Rightarrow> nat) \<Rightarrow> bool" where
  "quiescing wk r \<longleftrightarrow> (\<forall>c t w. r (fst (wk c t w)) \<le> r w \<and>
     (snd (wk c t w) \<noteq> [] \<longrightarrow> r (fst (wk c t w)) < r w))"

lemma triggerWakeup_idle:
  assumes "wk c (m_globalTime eq) w = (w', [])"
  shows "\<exists>eq'. triggerWakeup wk eq w c = Some (eq', if last_woken eq c \<noteq> m_globalTime eq then w' else w) \<and>
    pending eq' = pending eq"
  using assms by (simp add: triggerWakeup_def getTime_def)

lemma triggerWakeup_world:
  "triggerWakeup wk eq w c = Some (eq', w') \<Longrightarrow>
   w' = (if last_woken eq c \<noteq> m_globalTime eq then fst (wk c (m_globalTime eq) w) else w)"
  by (auto simp: triggerWakeup_def getTime_def Let_def split: prod.splits if_splits elim!: bind_eq_SomeE)

lemma trigger_next_idle:
  assumes i: "eq_inv eq" and n: "trigger_next wk eq w = Some (eq', w')" and q: "quiescing wk r"
    and eqr: "r w' = r w"
  shows "size (pending eq') < size (pending eq)"
proof (cases rule: evq.ext_cases [OF eq_invD(1) [OF i] pairwise_cmp_True])
  case 1
  then show ?thesis using n by (simp add: trigger_next_def)
next
  case (2 m h)
  let ?e = "eq\<lparr>m_globalTime := en_time m, eq_prio_heap := h\<rparr>"
  obtain c where c: "en_consumer_ptr m = Some c"
    using n 2(3,4) by (auto simp: trigger_next_def Let_def split: option.splits)
  then have tw: "triggerWakeup wk ?e w c = Some (eq', w')"
    using n 2(3,4) by (simp add: trigger_next_def Let_def)
  have "pending eq' = pending ?e"
  proof (cases "last_woken ?e c = m_globalTime ?e")
    case True
    then show ?thesis using tw by (auto simp: triggerWakeup_def getTime_def)
  next
    case False
    then have "fst (wk c (m_globalTime ?e) w) = w'"
      using triggerWakeup_world [OF tw] by simp
    then have "wk c (m_globalTime ?e) w = (w', [])"
      using q eqr by (metis quiescing_def less_irrefl prod.collapse)
    with False tw show ?thesis using triggerWakeup_idle [of wk c ?e w w'] by auto
  qed
  then show ?thesis using 2(1) by simp
qed

lemma trigger_next_rank:
  assumes n: "trigger_next wk eq w = Some (eq', w')" and q: "quiescing wk r"
  shows "r w' \<le> r w"
proof -
  obtain e c where "triggerWakeup wk e w c = Some (eq', w')"
    using n by (auto simp: trigger_next_def Let_def split: option.splits elim!: bind_eq_SomeE)
  from triggerWakeup_world [OF this] show ?thesis using q by (simp add: quiescing_def)
qed

lemma triggerAllEvents_ends:
  assumes wb: "well_behaved wk UNIV" and q: "quiescing wk r"
  shows "eq_inv eq \<Longrightarrow> \<exists>eq' w'. triggerAllEvents wk eq w = Some (eq', w') \<and> eq_inv eq' \<and> pending eq' = {#} \<and>
    m_globalTime eq \<le> m_globalTime eq'"
proof (induction "(eq, w)" arbitrary: eq w
    rule: wf_induct_rule [OF wf_measures [of "[\<lambda>(e, w). r w, \<lambda>(e, w). size (pending e)]"]])
  case (1 eq w)
  show ?case
  proof (cases "h_size (eq_prio_heap eq) = 0")
    case True
    then show ?thesis using 1(2) eq_invD(1) [OF 1(2)]
      by (subst triggerAllEvents.simps) (simp add: size_ph_elems flip: size_eq_0_iff_empty)
  next
    case False
    obtain c s where cs: "event c s \<in># pending eq"
    proof -
      have "pending eq \<noteq> {#}" using False eq_invD(1) [OF 1(2)] size_ph_elems by fastforce
      then obtain n where "n \<in># pending eq" by blast
      with eq_invD(2) [OF 1(2) this] show thesis using that by metis
    qed
    have "due eq (Max (en_time ` set_mset (pending eq))) = Some True"
      using cs by (cases rule: due_cases [OF 1(2), of "Max (en_time ` set_mset (pending eq))"])
        (auto simp: leD [OF Max_ge])
    moreover have "eq_over UNIV eq" by (simp add: eq_over_def)
    ultimately obtain eq1 w1 where n: "trigger_next wk eq w = Some (eq1, w1)" "eq_inv eq1"
      "m_globalTime eq \<le> m_globalTime eq1"
      using trigger_next_correct [OF 1(2) wb] by metis
    have "((eq1, w1), (eq, w)) \<in> measures [\<lambda>(e, w). r w, \<lambda>(e, w). size (pending e)]"
      using trigger_next_rank [OF n(1) q] trigger_next_idle [OF 1(2) n(1) q] by auto
    from 1(1) [OF this n(2)] obtain eq2 w2 where
      "triggerAllEvents wk eq1 w1 = Some (eq2, w2)" "eq_inv eq2" "pending eq2 = {#}"
      "m_globalTime eq1 \<le> m_globalTime eq2" by blast
    then show ?thesis using n False by (subst triggerAllEvents.simps) auto
  qed
qed

subsection \<open>Properties\<close>

text \<open>
  C1. \<^verbatim>\<open>EventQueue::triggerEvents(t)\<close> returns for every handler that only schedules
  wakeups in the future, although handlers schedule new events while it runs.  It delivers
  every wakeup that was pending with a time up to \<open>t\<close>, in the order of time, wakes no consumer
  twice at one time, leaves only events after \<open>t\<close>, sets the clock to \<open>t\<close> and keeps the invariant.
\<close>
theorem triggerEvents_delivers:
  assumes "finite C" "well_behaved wk C" "eq_inv eq" "eq_over C eq"
    and "\<forall>n \<in># pending eq. m_globalTime eq < en_time n" "m_globalTime eq \<le> t"
  shows "\<exists>eq' l w'. triggerEvents (logged wk) t eq ([], w) = Some (eq', (l, w')) \<and>
    eq_inv eq' \<and> m_globalTime eq' = t \<and> (\<forall>n \<in># pending eq'. t < en_time n) \<and>
    sorted (map snd l) \<and> distinct l \<and> (\<forall>(c, s) \<in> set l. m_globalTime eq < s \<and> s \<le> t) \<and>
    (\<forall>c s. event c s \<in># pending eq \<longrightarrow> s \<le> t \<longrightarrow> (c, s) \<in> set l)"
  using triggerEvents_logged [OF assms, of w] by blast

theorem triggerEvents_delivers_witness:
  "\<exists>eq eq' l w'. scheduleEventAbsolute EventQueue_new (Some 0) 3 = Some eq \<and>
    triggerEvents (logged (\<lambda>c t (w :: unit). (w, [(0, t + 2)]))) 6 eq ([], ()) = Some (eq', (l, w')) \<and>
    (0, 3) \<in> set l \<and> sorted (map snd l) \<and> m_globalTime eq' = 6"
proof -
  let ?wk = "\<lambda>(c :: nat) (t :: int) (w :: unit). (w, [(0 :: nat, t + 2)])"
  have new: "pending EventQueue_new = {#}" "m_globalTime EventQueue_new = 1" by (simp_all add: EventQueue_new_def)
  obtain eq where eq: "scheduleEventAbsolute EventQueue_new (Some 0) 3 = Some eq" "eq_inv eq"
    "m_globalTime eq = m_globalTime EventQueue_new"
    "pending eq = pending EventQueue_new \<or> pending eq = add_mset (event 0 3) (pending EventQueue_new)"
    "event 0 3 \<in># pending eq"
    by (rule scheduleEventAbsolute_correct [OF eq_inv_new, of 3 0]) (simp_all add: new)
  then have p: "pending eq = {#event 0 3#}" by (auto simp: new)
  have "well_behaved ?wk {0}" by (simp add: well_behaved_def)
  moreover have "eq_over {0} eq" by (simp add: eq_over_def p)
  ultimately have "\<exists>eq' l w'. triggerEvents (logged ?wk) 6 eq ([], ()) = Some (eq', (l, w')) \<and>
    eq_inv eq' \<and> m_globalTime eq' = 6 \<and> (\<forall>n \<in># pending eq'. 6 < en_time n) \<and>
    sorted (map snd l) \<and> distinct l \<and> (\<forall>(c, s) \<in> set l. m_globalTime eq < s \<and> s \<le> 6) \<and>
    (\<forall>c s. event c s \<in># pending eq \<longrightarrow> s \<le> 6 \<longrightarrow> (c, s) \<in> set l)"
    using eq(2,3) by (intro triggerEvents_delivers [of "{0}"]) (simp_all add: p new)
  then show ?thesis using eq(1) p by fastforce
qed

text \<open>
  \<^verbatim>\<open>EventQueue::scheduleEventAbsolute\<close>: a null consumer aborts, a time that is not in the
  future aborts unless it repeats the last request of that consumer, and a future time always
  succeeds: the wakeup is pending afterwards, at most one event is added, the clock does not
  move and the invariant holds.
\<close>
theorem scheduleEventAbsolute_contract:
  assumes "eq_inv eq"
  shows "scheduleEventAbsolute eq None t = None \<and>
    (if m_globalTime eq < t then
       \<exists>eq'. scheduleEventAbsolute eq (Some c) t = Some eq' \<and> eq_inv eq' \<and> m_globalTime eq' = m_globalTime eq \<and>
         event c t \<in># pending eq' \<and> pending eq \<subseteq># pending eq' \<and> size (pending eq') \<le> size (pending eq) + 1
     else scheduleEventAbsolute eq (Some c) t = (if last_scheduled eq c = t then Some eq else None))"
proof (cases "m_globalTime eq < t")
  case True
  obtain eq' where "scheduleEventAbsolute eq (Some c) t = Some eq'" "eq_inv eq'"
    "m_globalTime eq' = m_globalTime eq" "event c t \<in># pending eq'"
    "pending eq' = pending eq \<or> pending eq' = add_mset (event c t) (pending eq)"
    using scheduleEventAbsolute_correct [OF assms True, of c] by metis
  then show ?thesis using True by (auto simp: scheduleEventAbsolute_def [of eq None])
next
  case False
  then show ?thesis by (simp add: scheduleEventAbsolute_def)
qed

theorem scheduleEventAbsolute_contract_witness:
  "\<exists>eq'. scheduleEventAbsolute EventQueue_new (Some 4) 7 = Some eq' \<and> event 4 7 \<in># pending eq'"
  using scheduleEventAbsolute_contract [OF eq_inv_new, of 7 4] by (auto simp: EventQueue_new_def)

text \<open>
  C33. \<^verbatim>\<open>EventQueue::triggerAllEvents\<close> ends with an empty queue and never sets the clock back,
  provided the consumers quiesce: a rank of the rest of the system falls whenever a wakeup
  schedules further wakeups.
\<close>
theorem triggerAllEvents_drains:
  assumes "well_behaved wk UNIV" "quiescing wk r" "eq_inv eq"
  shows "\<exists>eq' w'. triggerAllEvents wk eq w = Some (eq', w') \<and> eq_isEmpty eq' \<and> eq_inv eq' \<and>
    m_globalTime eq \<le> m_globalTime eq'"
proof -
  obtain eq' w' where r: "triggerAllEvents wk eq w = Some (eq', w')" "eq_inv eq'" "pending eq' = {#}"
    "m_globalTime eq \<le> m_globalTime eq'"
    using triggerAllEvents_ends [OF assms(1,2,3)] by blast
  then have "h_size (eq_prio_heap eq') = 0" using eq_invD(1) [OF r(2)] size_ph_elems by fastforce
  then show ?thesis using r by (simp add: eq_isEmpty_def)
qed

theorem triggerAllEvents_drains_witness:
  "\<exists>eq eq' w'. scheduleEventAbsolute EventQueue_new (Some 4) 7 = Some eq \<and>
    triggerAllEvents (\<lambda>c t (n :: nat). if n = 0 then (0, []) else (n - 1, [(c, t + 1)])) eq 3 = Some (eq', w') \<and>
    eq_isEmpty eq'"
proof -
  let ?wk = "\<lambda>c t (n :: nat). if n = 0 then (0, []) else (n - 1, [(c :: nat, t + 1 :: int)])"
  have "well_behaved ?wk UNIV" by (simp add: well_behaved_def)
  moreover have "quiescing ?wk id" by (auto simp: quiescing_def)
  moreover obtain eq where "scheduleEventAbsolute EventQueue_new (Some 4) 7 = Some eq" "eq_inv eq"
    using scheduleEventAbsolute_correct [OF eq_inv_new, of 7 4] by (force simp: EventQueue_new_def)
  ultimately show ?thesis using triggerAllEvents_drains [of ?wk id eq 3] by blast
qed

end
