(* ===== verification/Histogram_Model.thy ===== *)
theory Histogram_Model
  imports Vector_Model
begin

text \<open>
  The statistics counter \<^verbatim>\<open>common/Histogram.h\<close> and \<^verbatim>\<open>common/Histogram.C\<close>.  A histogram with bin size
  \<open>-1\<close> counts by powers of two; its bin is computed with the floating-point logarithm of the C
  library, the parameter \<open>flog\<close> (the value of \<^verbatim>\<open>int(log(double(value))/log(2.0))\<close>).  Every other
  histogram is linear and doubles its bin size until the largest sample fits.
  The theory shows when \<^verbatim>\<open>add\<close> returns and that no sample is lost while bins are merged.
\<close>

record Histogram =
  hi_data :: "int vector"
  hi_max :: int
  hi_count :: int
  hi_binsize :: int
  hi_bins :: int
  hi_largest_bin :: int
  hi_sumSamples :: int
  hi_sumSquaredSamples :: int

definition hist_clear_bins :: "Histogram \<Rightarrow> int \<Rightarrow> Histogram option" where
  "hist_clear_bins h bins = do {
     v \<leftarrow> vec_setSize 0 (hi_data h) bins;
     v \<leftarrow> vec_fill v 0 (nat bins) 0;
     Some (h\<lparr>hi_bins := bins, hi_largest_bin := 0, hi_max := 0, hi_data := v, hi_count := 0,
             hi_sumSamples := 0, hi_sumSquaredSamples := 0\<rparr>)
   }"

definition hist_clear :: "Histogram \<Rightarrow> Histogram option" where
  "hist_clear h = hist_clear_bins h (hi_bins h)"

definition hist_clear_binsize :: "Histogram \<Rightarrow> int \<Rightarrow> int \<Rightarrow> Histogram option" where
  "hist_clear_binsize h binsize bins = hist_clear_bins (h\<lparr>hi_binsize := binsize\<rparr>) bins"

definition hist_new :: "int \<Rightarrow> int \<Rightarrow> Histogram option" where
  "hist_new binsize bins = hist_clear
     \<lparr>hi_data = vec_new, hi_max = 0, hi_count = 0, hi_binsize = binsize, hi_bins = bins,
      hi_largest_bin = 0, hi_sumSamples = 0, hi_sumSquaredSamples = 0\<rparr>"

definition hist_size :: "Histogram \<Rightarrow> int" where
  "hist_size h = hi_count h"

definition hist_getData :: "Histogram \<Rightarrow> int \<Rightarrow> int option" where
  "hist_getData h index = vec_ref (hi_data h) index"

text \<open>The two inner loops of the rescaling: merge neighbours, then clear the upper half.\<close>

fun hist_merge :: "int vector \<Rightarrow> nat \<Rightarrow> nat \<Rightarrow> int vector option" where
  "hist_merge v i 0 = Some v"
| "hist_merge v i (Suc n) = do {
     a \<leftarrow> vec_ref v (int (i * 2));
     b \<leftarrow> vec_ref v (int (i * 2 + 1));
     v \<leftarrow> vec_set v (int i) (a + b);
     hist_merge v (Suc i) n
   }"

definition hist_rescale_step :: "Histogram \<Rightarrow> Histogram option" where
  "hist_rescale_step h = do {
     let half = nat (hi_bins h) div 2;
     v \<leftarrow> hist_merge (hi_data h) 0 half;
     v \<leftarrow> vec_fill v half (nat (hi_bins h) - half) 0;
     Some (h\<lparr>hi_data := v, hi_binsize := hi_binsize h * 2\<rparr>)
   }"

partial_function (option) hist_rescale :: "Histogram \<Rightarrow> Histogram option" where
  "hist_rescale h =
     (if hi_max h \<ge> hi_bins h * hi_binsize h
      then Option.bind (hist_rescale_step h) hist_rescale
      else Some h)"

declare hist_rescale.simps [code]

definition hist_log_index :: "(int \<Rightarrow> int) \<Rightarrow> Histogram \<Rightarrow> int \<Rightarrow> int" where
  "hist_log_index flog h value =
     (if value = 0 then 0
      else let index = flog value + 1
           in if index \<ge> v_size (hi_data h) then v_size (hi_data h) - 1 else index)"

definition hist_add :: "(int \<Rightarrow> int) \<Rightarrow> Histogram \<Rightarrow> int \<Rightarrow> Histogram option" where
  "hist_add flog h value = do {
     assert_that (value \<ge> 0);
     let h = h\<lparr>hi_max := max (hi_max h) value, hi_count := hi_count h + 1,
               hi_sumSamples := hi_sumSamples h + value,
               hi_sumSquaredSamples := hi_sumSquaredSamples h + value * value\<rparr>;
     (h, index) \<leftarrow> (if hi_binsize h = -1 then Some (h, hist_log_index flog h value)
                     else do { h \<leftarrow> hist_rescale h; Some (h, value div hi_binsize h) });
     assert_that (index \<ge> 0);
     x \<leftarrow> vec_ref (hi_data h) index;
     v \<leftarrow> vec_set (hi_data h) index (x + 1);
     Some (h\<lparr>hi_data := v, hi_largest_bin := max (hi_largest_bin h) index\<rparr>)
   }"

fun hist_add_times :: "(int \<Rightarrow> int) \<Rightarrow> Histogram \<Rightarrow> int \<Rightarrow> nat \<Rightarrow> Histogram option" where
  "hist_add_times flog h value 0 = Some h"
| "hist_add_times flog h value (Suc n) = do { h \<leftarrow> hist_add flog h value; hist_add_times flog h value n }"

fun hist_add_bins :: "(int \<Rightarrow> int) \<Rightarrow> Histogram \<Rightarrow> Histogram \<Rightarrow> nat \<Rightarrow> nat \<Rightarrow> Histogram option" where
  "hist_add_bins flog h hist i 0 = Some h"
| "hist_add_bins flog h hist i (Suc n) = do {
     c \<leftarrow> hist_getData hist (int i);
     h \<leftarrow> hist_add_times flog h (push_bit (i - 1) 1) (nat c);
     hist_add_bins flog h hist (Suc i) n
   }"

definition hist_add_hist :: "(int \<Rightarrow> int) \<Rightarrow> Histogram \<Rightarrow> Histogram \<Rightarrow> Histogram option" where
  "hist_add_hist flog h hist = do {
     assert_that (hi_bins hist = hi_bins h);
     assert_that (hi_binsize hist = -1);
     assert_that (hi_binsize h = -1);
     c \<leftarrow> hist_getData hist 0;
     h \<leftarrow> hist_add_times flog h 0 (nat c);
     hist_add_bins flog h hist 1 (nat (hi_bins h - 1))
   }"

definition hist_less_then_eq :: "Histogram \<Rightarrow> Histogram \<Rightarrow> bool" where
  "hist_less_then_eq n1 n2 \<longleftrightarrow> hist_size n1 > hist_size n2"

subsection \<open>The invariant\<close>

abbreviation bins_of :: "Histogram \<Rightarrow> int list" where
  "bins_of h \<equiv> vec_list (hi_data h)"

text \<open>One entry per bin, no negative entry, and \<open>c\<close> samples in the bins.\<close>

definition hist_holds :: "int \<Rightarrow> Histogram \<Rightarrow> bool" where
  "hist_holds c h \<longleftrightarrow> vec_inv (hi_data h) \<and> v_size (hi_data h) = hi_bins h \<and> 0 < hi_bins h \<and>
     sum_list (bins_of h) = c \<and> (\<forall>x \<in> set (bins_of h). 0 \<le> x)"

definition hist_ok :: "Histogram \<Rightarrow> bool" where
  "hist_ok h \<longleftrightarrow> hist_holds (hi_count h) h"

lemma hist_holdsD:
  assumes "hist_holds c h"
  shows "vec_inv (hi_data h)" "v_size (hi_data h) = hi_bins h" "0 < hi_bins h"
    "sum_list (bins_of h) = c" "length (bins_of h) = nat (hi_bins h)"
  using assms by (auto simp: hist_holds_def)

lemma hist_new_ok:
  assumes "0 < bins"
  shows "\<exists>h. hist_new binsize bins = Some h \<and> hist_ok h \<and> hi_binsize h = binsize \<and> hi_bins h = bins \<and>
    hi_count h = 0 \<and> hi_max h = 0 \<and> bins_of h = replicate (nat bins) 0"
proof -
  obtain v where v: "vec_setSize (0 :: int) vec_new bins = Some v" "vec_inv v" "v_size v = bins"
    by (rule vec_setSize_Some [OF vec_inv_new, of bins 0]) (use assms in auto)
  from vec_fill_Some [OF v(2), of 0 "nat bins" 0] v(3) assms obtain w where
    "vec_fill v 0 (nat bins) 0 = Some w" "vec_inv w" "v_size w = bins" "vec_list w = replicate (nat bins) 0"
    using v(2) by auto
  then show ?thesis using v assms
    by (simp add: hist_new_def hist_clear_def hist_clear_bins_def hist_ok_def hist_holds_def sum_list_replicate)
qed

subsection \<open>Merging bins\<close>

text \<open>What the merge loop computes: pairwise sums in the lower half, the rest unchanged.\<close>

lemma hist_merge_Some:
  "\<lbrakk>vec_inv v; int (2 * (i + n)) \<le> v_size v\<rbrakk> \<Longrightarrow>
   \<exists>w. hist_merge v i n = Some w \<and> vec_inv w \<and> v_size w = v_size v \<and>
     (\<forall>k < nat (v_size v). vec_list w ! k = (if i \<le> k \<and> k < i + n
        then vec_list v ! (2 * k) + vec_list v ! (2 * k + 1) else vec_list v ! k))"
proof (induction n arbitrary: v i)
  case 0
  then show ?case by simp
next
  case (Suc n)
  let ?L = "vec_list v"
  have len: "length ?L = nat (v_size v)" using Suc.prems by simp
  obtain u where u: "vec_set v (int i) (?L ! (2 * i) + ?L ! (2 * i + 1)) = Some u" "vec_inv u"
    "vec_list u = ?L[i := ?L ! (2 * i) + ?L ! (2 * i + 1)]" "v_size u = v_size v"
    by (rule vec_set_Some [OF Suc.prems(1), of "int i"]) (use Suc.prems(2) in auto)
  from Suc.IH [OF u(2), of "Suc i"] Suc.prems(2) u(4) obtain w where
    w: "hist_merge u (Suc i) n = Some w" "vec_inv w" "v_size w = v_size v"
      "\<forall>k < nat (v_size v). vec_list w ! k = (if Suc i \<le> k \<and> k < Suc i + n
        then vec_list u ! (2 * k) + vec_list u ! (2 * k + 1) else vec_list u ! k)" by auto
  have rd: "vec_ref v (int (i * 2)) = Some (?L ! (2 * i))" "vec_ref v (int (i * 2 + 1)) = Some (?L ! (2 * i + 1))"
    using Suc.prems by (simp_all add: vec_ref_eq nat_add_distrib nat_mult_distrib mult.commute)
  have "hist_merge v i (Suc n) = Some w" using rd u(1) w(1) by simp
  moreover have "vec_list w ! k = (if i \<le> k \<and> k < i + Suc n
      then ?L ! (2 * k) + ?L ! (2 * k + 1) else ?L ! k)" if "k < nat (v_size v)" for k
    using that w(4) u(3) len Suc.prems(2) by (auto simp: nth_list_update)
  ultimately show ?case using w(2,3) by blast
qed

lemma sum_list_pairs:
  "length xs = 2 * n \<Longrightarrow> sum_list (map (\<lambda>k. xs ! (2 * k) + xs ! (2 * k + 1)) [0..<n]) = sum_list (xs :: int list)"
proof (induction n arbitrary: xs)
  case 0
  then show ?case by simp
next
  case (Suc n)
  then obtain a b ys where xs: "xs = a # b # ys" and ys: "length ys = 2 * n"
    by (cases xs; cases "tl xs") auto
  have "map (\<lambda>k. xs ! (2 * k) + xs ! (2 * k + 1)) [0..<Suc n] =
    (a + b) # map (\<lambda>k. ys ! (2 * k) + ys ! (2 * k + 1)) [0..<n]"
    by (subst upt_conv_Cons) (auto simp: xs map_Suc_upt [symmetric] simp del: upt_Suc)
  then show ?case using Suc.IH [OF ys] by (simp add: xs)
qed

lemma hist_rescale_step_Some:
  assumes ok: "hist_holds c h" and even: "even (hi_bins h)"
  shows "\<exists>v. hist_rescale_step h = Some (h\<lparr>hi_data := v, hi_binsize := hi_binsize h * 2\<rparr>) \<and>
    hist_holds c (h\<lparr>hi_data := v, hi_binsize := hi_binsize h * 2\<rparr>)"
proof -
  define m where "m = nat (hi_bins h) div 2"
  let ?L = "bins_of h"
  have m: "nat (hi_bins h) = 2 * m" using even hist_holdsD(3) [OF ok] by (simp add: m_def even_nat_iff)
  have bins: "hi_bins h = int (2 * m)" using m hist_holdsD(3) [OF ok] by linarith
  note d = hist_holdsD [OF ok]
  have len: "length ?L = 2 * m" using d(5) m by simp
  from hist_merge_Some [OF d(1), of 0 m] obtain u where
    u: "hist_merge (hi_data h) 0 m = Some u" "vec_inv u" "v_size u = hi_bins h"
      "\<forall>k < 2 * m. vec_list u ! k = (if k < m then ?L ! (2 * k) + ?L ! (2 * k + 1) else ?L ! k)"
    using d(2) bins m by auto
  from vec_fill_Some [OF u(2), of m m 0] u(3) bins obtain w where
    w: "vec_fill u m m 0 = Some w" "vec_inv w" "v_size w = hi_bins h"
      "vec_list w = take m (vec_list u) @ replicate m 0 @ drop (m + m) (vec_list u)"
    by auto
  have lu: "length (vec_list u) = 2 * m" using u(2,3) m by simp
  have low: "take m (vec_list u) = map (\<lambda>k. ?L ! (2 * k) + ?L ! (2 * k + 1)) [0..<m]"
    using lu u(4) by (intro nth_equalityI) auto
  have W: "vec_list w = map (\<lambda>k. ?L ! (2 * k) + ?L ! (2 * k + 1)) [0..<m] @ replicate m 0"
    using w(4) lu low by simp
  have "hist_rescale_step h = Some (h\<lparr>hi_data := w, hi_binsize := hi_binsize h * 2\<rparr>)"
    using u(1) w(1) m by (simp add: hist_rescale_step_def Let_def m_def [symmetric])
  moreover have "sum_list (vec_list w) = c"
    unfolding W using sum_list_pairs [OF len] d(4) by (simp add: sum_list_replicate)
  moreover have "0 \<le> ?L ! j" if "j < 2 * m" for j
    using ok len that by (auto simp: hist_holds_def)
  then have "\<forall>x \<in> set (vec_list w). 0 \<le> x" unfolding W by auto
  ultimately show ?thesis using w ok by (auto simp: hist_holds_def)
qed

lemma hist_rescale_Some:
  assumes "hist_holds c h" "even (hi_bins h)" "0 < hi_binsize h"
  shows "\<exists>v j. hist_rescale h = Some (h\<lparr>hi_data := v, hi_binsize := hi_binsize h * 2 ^ j\<rparr>) \<and>
    hist_holds c (h\<lparr>hi_data := v, hi_binsize := hi_binsize h * 2 ^ j\<rparr>) \<and> hi_max h < hi_bins h * (hi_binsize h * 2 ^ j)"
  using assms
proof (induction "nat (hi_max h + 1 - hi_bins h * hi_binsize h)" arbitrary: h rule: less_induct)
  case less
  show ?case
  proof (cases "hi_max h \<ge> hi_bins h * hi_binsize h")
    case False
    then show ?thesis using less.prems by (subst hist_rescale.simps)
        (auto intro!: exI [of _ "hi_data h"] exI [of _ 0])
  next
    case True
    from hist_rescale_step_Some [OF less.prems(1,2)] obtain v where
      v: "hist_rescale_step h = Some (h\<lparr>hi_data := v, hi_binsize := hi_binsize h * 2\<rparr>)"
        "hist_holds c (h\<lparr>hi_data := v, hi_binsize := hi_binsize h * 2\<rparr>)" by blast
    let ?h = "h\<lparr>hi_data := v, hi_binsize := hi_binsize h * 2\<rparr>"
    have "0 < hi_bins h * hi_binsize h" using less.prems(3) hist_holdsD(3) [OF less.prems(1)] by simp
    then have "nat (hi_max ?h + 1 - hi_bins ?h * hi_binsize ?h) < nat (hi_max h + 1 - hi_bins h * hi_binsize h)"
      using True by simp
    from less.hyps [OF this v(2)] less.prems obtain w j where
      w: "hist_rescale ?h = Some (?h\<lparr>hi_data := w, hi_binsize := hi_binsize ?h * 2 ^ j\<rparr>)"
        "hist_holds c (?h\<lparr>hi_data := w, hi_binsize := hi_binsize ?h * 2 ^ j\<rparr>)"
        "hi_max ?h < hi_bins ?h * (hi_binsize ?h * 2 ^ j)" by auto
    have "hist_rescale h = hist_rescale ?h" using True v(1) by (subst hist_rescale.simps) simp
    then show ?thesis using w by (intro exI [of _ w] exI [of _ "Suc j"]) (simp add: mult.assoc)
  qed
qed

lemma sum_list_bump: "i < length xs \<Longrightarrow> sum_list (xs[i := xs ! i + 1]) = sum_list xs + (1 :: int)"
  by (induction xs arbitrary: i) (auto split: nat.splits)

lemma hist_bump_ok:
  fixes v :: "int vector"
  assumes v: "vec_inv v" "v_size v = n" and i: "0 \<le> i" "i < n" and nn: "\<forall>x \<in> set (vec_list v). 0 \<le> x"
  shows "\<exists>w. Option.bind (vec_ref v i) (\<lambda>x. vec_set v i (x + 1)) = Some w \<and> vec_inv w \<and> v_size w = n \<and>
    sum_list (vec_list w) = sum_list (vec_list v) + 1 \<and> (\<forall>x \<in> set (vec_list w). 0 \<le> x) \<and>
    vec_list w = (vec_list v)[nat i := vec_list v ! nat i + 1]"
proof -
  have l: "nat i < length (vec_list v)" using v i by simp
  obtain w where w: "vec_set v i (vec_list v ! nat i + 1) = Some w" "vec_inv w"
    "vec_list w = (vec_list v)[nat i := vec_list v ! nat i + 1]" "v_size w = v_size v"
    by (rule vec_set_Some [OF v(1) i(1)]) (use v(2) i(2) in auto)
  have "\<forall>x \<in> set (vec_list w). 0 \<le> x"
    unfolding w(3) using nn l by (auto dest!: subsetD [OF set_update_subset_insert] bspec [OF nn nth_mem])
  then show ?thesis using w v i l by (simp add: vec_ref_eq sum_list_bump)
qed

lemma hist_add_index:
  assumes ok: "hist_holds c h'" and i: "0 \<le> index" "index < hi_bins h'"
  shows "\<exists>v. Option.bind (vec_ref (hi_data h') index) (\<lambda>x. Option.bind (vec_set (hi_data h') index (x + 1))
      (\<lambda>v. Some (h'\<lparr>hi_data := v, hi_largest_bin := max (hi_largest_bin h') index\<rparr>))) =
      Some (h'\<lparr>hi_data := v, hi_largest_bin := max (hi_largest_bin h') index\<rparr>) \<and>
    vec_inv v \<and> v_size v = hi_bins h' \<and> sum_list (vec_list v) = c + 1 \<and>
    (\<forall>x \<in> set (vec_list v). 0 \<le> x) \<and> vec_list v = (bins_of h')[nat index := bins_of h' ! nat index + 1]"
proof -
  have "\<forall>x \<in> set (bins_of h'). 0 \<le> x" using ok by (simp add: hist_holds_def)
  from hist_bump_ok [OF hist_holdsD(1,2) [OF ok] i this] obtain w where
    "Option.bind (vec_ref (hi_data h') index) (\<lambda>x. vec_set (hi_data h') index (x + 1)) = Some w" "vec_inv w"
    "v_size w = hi_bins h'" "sum_list (vec_list w) = sum_list (bins_of h') + 1"
    "\<forall>x \<in> set (vec_list w). 0 \<le> x" "vec_list w = (bins_of h')[nat index := bins_of h' ! nat index + 1]" by blast
  then show ?thesis using hist_holdsD(4) [OF ok] by (auto simp: bind_eq_Some_conv)
qed

lemma div_less_bins:
  fixes v :: int
  assumes "0 < s" "v < b * s"
  shows "v div s < b"
proof (rule ccontr)
  assume "\<not> v div s < b"
  then have "b * s \<le> v div s * s" using assms(1) by (intro mult_right_mono) auto
  also have "\<dots> \<le> v" using assms(1) by (simp add: minus_mod_eq_div_mult [symmetric])
  finally show False using assms(2) by simp
qed

lemma hist_add_eq:
  assumes "0 \<le> value"
  shows "hist_add flog h value =
    (let h1 = h\<lparr>hi_max := max (hi_max h) value, hi_count := hi_count h + 1,
        hi_sumSamples := hi_sumSamples h + value,
        hi_sumSquaredSamples := hi_sumSquaredSamples h + value * value\<rparr>
     in Option.bind (if hi_binsize h = -1 then Some (h1, hist_log_index flog h1 value)
          else Option.bind (hist_rescale h1) (\<lambda>h2. Some (h2, value div hi_binsize h2)))
        (\<lambda>(h2, index). if 0 \<le> index
           then Option.bind (vec_ref (hi_data h2) index) (\<lambda>x. Option.bind (vec_set (hi_data h2) index (x + 1))
             (\<lambda>v. Some (h2\<lparr>hi_data := v, hi_largest_bin := max (hi_largest_bin h2) index\<rparr>)))
           else None))"
  using assms by (simp add: hist_add_def Let_def)

text \<open>The effect of \<^verbatim>\<open>add\<close> on a linear and on a logarithmic histogram.\<close>

lemma hist_add_linear:
  assumes ok: "hist_ok h" and even: "even (hi_bins h)" and pos: "0 < hi_binsize h" and nn: "0 \<le> value"
  shows "\<exists>h'. hist_add flog h value = Some h' \<and> hist_ok h' \<and> hi_count h' = hi_count h + 1 \<and>
    hi_max h' = max (hi_max h) value \<and> hi_sumSamples h' = hi_sumSamples h + value \<and>
    hi_bins h' = hi_bins h \<and> 0 < hi_binsize h' \<and> hi_max h' < hi_bins h' * hi_binsize h' \<and>
    0 < bins_of h' ! nat (value div hi_binsize h')"
proof -
  let ?h1 = "h\<lparr>hi_max := max (hi_max h) value, hi_count := hi_count h + 1,
     hi_sumSamples := hi_sumSamples h + value, hi_sumSquaredSamples := hi_sumSquaredSamples h + value * value\<rparr>"
  have "hist_holds (hi_count h) ?h1" using ok by (simp add: hist_ok_def hist_holds_def)
  from hist_rescale_Some [OF this] even pos obtain v j where
    r: "hist_rescale ?h1 = Some (?h1\<lparr>hi_data := v, hi_binsize := hi_binsize h * 2 ^ j\<rparr>)"
      "hist_holds (hi_count h) (?h1\<lparr>hi_data := v, hi_binsize := hi_binsize h * 2 ^ j\<rparr>)"
      "max (hi_max h) value < hi_bins h * (hi_binsize h * 2 ^ j)" by auto
  let ?h2 = "?h1\<lparr>hi_data := v, hi_binsize := hi_binsize h * 2 ^ j\<rparr>"
  let ?i = "value div hi_binsize ?h2"
  have p2: "0 < hi_binsize ?h2" using pos by simp
  have lt: "value < hi_bins ?h2 * hi_binsize ?h2" using r(3) by simp
  have i0: "0 \<le> ?i" using nn p2 by (simp add: pos_imp_zdiv_nonneg_iff)
  have i1: "?i < hi_bins ?h2" by (rule div_less_bins [OF p2 lt])
  from hist_add_index [OF r(2) i0 i1] obtain w where
    w: "Option.bind (vec_ref (hi_data ?h2) ?i) (\<lambda>x. Option.bind (vec_set (hi_data ?h2) ?i (x + 1))
      (\<lambda>v. Some (?h2\<lparr>hi_data := v, hi_largest_bin := max (hi_largest_bin ?h2) ?i\<rparr>))) =
      Some (?h2\<lparr>hi_data := w, hi_largest_bin := max (hi_largest_bin ?h2) ?i\<rparr>)"
    "vec_inv w" "v_size w = hi_bins ?h2" "sum_list (vec_list w) = hi_count h + 1"
    "\<forall>x \<in> set (vec_list w). 0 \<le> x" "vec_list w = (bins_of ?h2)[nat ?i := bins_of ?h2 ! nat ?i + 1]" by blast
  let ?h3 = "?h2\<lparr>hi_data := w, hi_largest_bin := max (hi_largest_bin ?h2) ?i\<rparr>"
  have "hi_binsize h \<noteq> -1" using pos by simp
  then have run: "hist_add flog h value = Some ?h3"
    using r(1) w(1) i0 nn by (simp add: hist_add_eq Let_def)
  have l: "nat ?i < length (bins_of ?h2)" using i0 i1 hist_holdsD(5) [OF r(2)] by simp
  then have "0 \<le> bins_of ?h2 ! nat ?i" using r(2) nth_mem unfolding hist_holds_def by blast
  then have "0 < vec_list w ! nat ?i" using w(6) l by simp
  moreover have "hist_ok ?h3" using w(2-5) ok by (simp add: hist_ok_def hist_holds_def)
  ultimately show ?thesis using run p2 r(3) by (intro exI [of _ ?h3]) simp
qed

lemma hist_add_log:
  assumes ok: "hist_ok h" and log: "hi_binsize h = -1" and nn: "0 \<le> value"
    and fl: "0 < value \<longrightarrow> 0 \<le> flog value"
  shows "\<exists>h'. hist_add flog h value = Some h' \<and> hist_ok h' \<and> hi_count h' = hi_count h + 1 \<and>
    hi_bins h' = hi_bins h \<and> hi_binsize h' = -1 \<and>
    bins_of h' = (let i = nat (min (if value = 0 then 0 else flog value + 1) (hi_bins h - 1))
                  in (bins_of h)[i := bins_of h ! i + 1])"
proof -
  let ?h1 = "h\<lparr>hi_max := max (hi_max h) value, hi_count := hi_count h + 1,
     hi_sumSamples := hi_sumSamples h + value, hi_sumSquaredSamples := hi_sumSquaredSamples h + value * value\<rparr>"
  let ?i = "hist_log_index flog ?h1 value"
  have h1: "hist_holds (hi_count h) ?h1" using ok by (simp add: hist_ok_def hist_holds_def)
  note d = hist_holdsD [OF h1]
  have idx: "?i = min (if value = 0 then 0 else flog value + 1) (hi_bins h - 1)"
    using d(2,3) by (auto simp: hist_log_index_def Let_def)
  then have i: "0 \<le> ?i" "?i < hi_bins ?h1" using d(3) nn fl by auto
  from hist_add_index [OF h1 i] obtain w where
    w: "Option.bind (vec_ref (hi_data ?h1) ?i) (\<lambda>x. Option.bind (vec_set (hi_data ?h1) ?i (x + 1))
      (\<lambda>v. Some (?h1\<lparr>hi_data := v, hi_largest_bin := max (hi_largest_bin ?h1) ?i\<rparr>))) =
      Some (?h1\<lparr>hi_data := w, hi_largest_bin := max (hi_largest_bin ?h1) ?i\<rparr>)"
    "vec_inv w" "v_size w = hi_bins ?h1" "sum_list (vec_list w) = hi_count h + 1"
    "\<forall>x \<in> set (vec_list w). 0 \<le> x" "vec_list w = (bins_of ?h1)[nat ?i := bins_of ?h1 ! nat ?i + 1]" by blast
  let ?h3 = "?h1\<lparr>hi_data := w, hi_largest_bin := max (hi_largest_bin ?h1) ?i\<rparr>"
  have "hist_add flog h value = Some ?h3" using w(1) i(1) nn log by (simp add: hist_add_eq Let_def)
  moreover have "hist_ok ?h3" using w(2-5) d(3) by (simp add: hist_ok_def hist_holds_def)
  ultimately show ?thesis using w(6) log idx by (intro exI [of _ ?h3]) (simp add: Let_def)
qed

text \<open>Adding one sample many times, and merging the bins of another logarithmic histogram.\<close>

lemma hist_add_times_log:
  assumes "hist_ok h" "hi_binsize h = -1" "0 \<le> value" "0 < value \<longrightarrow> 0 \<le> flog value"
    and i: "i = nat (min (if value = 0 then 0 else flog value + 1) (hi_bins h - 1))"
  shows "\<exists>h'. hist_add_times flog h value n = Some h' \<and> hist_ok h' \<and> hi_count h' = hi_count h + int n \<and>
    hi_bins h' = hi_bins h \<and> hi_binsize h' = -1 \<and> bins_of h' = (bins_of h)[i := bins_of h ! i + int n]"
  using assms
proof (induction n arbitrary: h)
  case 0
  then show ?case by simp
next
  case (Suc n)
  from hist_add_log [where flog = flog, OF Suc.prems(1-4)] obtain g where
    g: "hist_add flog h value = Some g" "hist_ok g" "hi_count g = hi_count h + 1" "hi_bins g = hi_bins h"
      "hi_binsize g = -1" "bins_of g = (bins_of h)[i := bins_of h ! i + 1]"
    using Suc.prems(5) by (auto simp: Let_def)
  have len: "length (bins_of h) = nat (hi_bins h)" "0 < hi_bins h"
    using Suc.prems(1) hist_holdsD by (auto simp: hist_ok_def)
  then have "i < length (bins_of h)" using Suc.prems(5) by simp
  with Suc.IH [OF g(2,5) Suc.prems(3,4)] g Suc.prems(5) show ?case by (auto simp: add.assoc)
qed

lemma hist_add_bins_log:
  assumes "hist_ok h" "hi_binsize h = -1" "hi_bins h = int (i + n)" "1 \<le> i"
    and hist: "hist_ok hist" "hi_bins hist = hi_bins h"
    and fl: "\<forall>k. int k < hi_bins h \<longrightarrow> flog (2 ^ k) = int k"
  shows "\<exists>h'. hist_add_bins flog h hist i n = Some h' \<and> hist_ok h' \<and> hi_bins h' = hi_bins h \<and> hi_binsize h' = -1 \<and>
    (\<forall>k < i + n. bins_of h' ! k = bins_of h ! k + (if i \<le> k then bins_of hist ! k else 0))"
  using assms
proof (induction n arbitrary: h i)
  case 0
  then show ?case by simp
next
  case (Suc n)
  have len: "length (bins_of h) = nat (hi_bins h)" "length (bins_of hist) = nat (hi_bins h)"
    using Suc.prems hist_holdsD(5) by (auto simp: hist_ok_def)
  have c: "hist_getData hist (int i) = Some (bins_of hist ! i)"
    using Suc.prems hist_holdsD(1,2) by (auto simp: hist_getData_def vec_ref_eq hist_ok_def)
  have "i < length (bins_of hist)" using len Suc.prems(3) by simp
  then have nn: "0 \<le> bins_of hist ! i" using Suc.prems(5) nth_mem unfolding hist_ok_def hist_holds_def by blast
  have "flog (2 ^ (i - 1)) = int (i - 1)" using Suc.prems(3,4,7) by auto
  then have "i = nat (min (if push_bit (i - 1) 1 = (0 :: int) then 0 else flog (push_bit (i - 1) 1) + 1) (hi_bins h - 1))"
    "0 \<le> flog (push_bit (i - 1) 1)" using Suc.prems(3,4) by (auto simp: push_bit_eq_mult)
  from hist_add_times_log [where flog = flog, OF Suc.prems(1,2) _ _ this(1), of "nat (bins_of hist ! i)"] this(2) obtain g where
    g: "hist_add_times flog h (push_bit (i - 1) 1) (nat (bins_of hist ! i)) = Some g" "hist_ok g"
      "hi_bins g = hi_bins h" "hi_binsize g = -1" "bins_of g = (bins_of h)[i := bins_of h ! i + bins_of hist ! i]"
    using nn by (auto simp: push_bit_eq_mult)
  have "hi_bins g = int (Suc i + n)" "1 \<le> Suc i" using Suc.prems(3) g(3) by auto
  from Suc.IH [OF g(2,4) this Suc.prems(5)] g(3) Suc.prems(6,7) obtain h' where
    h': "hist_add_bins flog g hist (Suc i) n = Some h'" "hist_ok h'" "hi_bins h' = hi_bins h" "hi_binsize h' = -1"
      "\<forall>k < Suc i + n. bins_of h' ! k = bins_of g ! k + (if Suc i \<le> k then bins_of hist ! k else 0)" by auto
  have "bins_of h' ! k = bins_of h ! k + (if i \<le> k then bins_of hist ! k else 0)" if "k < i + Suc n" for k
    using that h'(5) g(5) len Suc.prems(3) by (cases "k = i") (auto simp: nth_list_update)
  then show ?case using c g(1) h'(1-4) by auto
qed

subsection \<open>Properties\<close>

text \<open>
  \<^verbatim>\<open>Histogram::add\<close> on a linear histogram with an even number of bins returns for every
  sample that is not negative (the rescaling loop ends), counts the sample in the bin of its value, and
  keeps the histogram consistent: the bins add up to the number of samples and the largest
  sample lies below \<^verbatim>\<open>m_bins * m_binsize\<close>.  A negative sample aborts.
\<close>
theorem histogram_add_consistent:
  assumes "hist_ok h" "even (hi_bins h)" "0 < hi_binsize h"
  shows "if value < 0 then hist_add flog h value = None
    else \<exists>h'. hist_add flog h value = Some h' \<and> hist_ok h' \<and> hi_count h' = hi_count h + 1 \<and>
      hi_max h' = max (hi_max h) value \<and> hi_sumSamples h' = hi_sumSamples h + value \<and>
      hi_bins h' = hi_bins h \<and> 0 < hi_binsize h' \<and> hi_max h' < hi_bins h' * hi_binsize h' \<and>
      0 < bins_of h' ! nat (value div hi_binsize h')"
  using hist_add_linear [OF assms] by (auto simp: hist_add_def)

theorem histogram_add_consistent_witness:
  "\<exists>h h'. hist_new 1 50 = Some h \<and> hist_add (\<lambda>_. 0) h 777 = Some h' \<and> hi_count h' = 1 \<and> 777 < 50 * hi_binsize h'"
proof -
  obtain h where h: "hist_new 1 50 = Some h" "hist_ok h" "hi_binsize h = 1" "hi_bins h = 50" "hi_count h = 0"
    "hi_max h = 0" using hist_new_ok [of 50 1] by auto
  then show ?thesis using histogram_add_consistent [of h 777 "\<lambda>_. 0"] by auto
qed

text \<open>
  \<^verbatim>\<open>Histogram::add(const Histogram&)\<close> on logarithmic histograms of the same number of bins (at
  most 31, so that the shift fits an \<^verbatim>\<open>int\<close>) adds the bins pointwise, provided the floating-point
  logarithm is exact on powers of two; histograms that are not logarithmic, or differ in the number of bins, abort.
\<close>
theorem histogram_merge_pointwise:
  assumes "hist_ok h" "hist_ok hist" "hi_bins h \<le> 31"
    and fl: "\<forall>k. int k < hi_bins h \<longrightarrow> flog (2 ^ k) = int k"
  shows "if hi_bins hist = hi_bins h \<and> hi_binsize h = -1 \<and> hi_binsize hist = -1
    then \<exists>h'. hist_add_hist flog h hist = Some h' \<and> hist_ok h' \<and> bins_of h' = map2 (+) (bins_of h) (bins_of hist)
    else hist_add_hist flog h hist = None"
proof (cases "hi_bins hist = hi_bins h \<and> hi_binsize h = -1 \<and> hi_binsize hist = -1")
  case True
  note d = hist_holdsD [OF assms(2) [unfolded hist_ok_def]]
  have l: "length (bins_of h) = nat (hi_bins h)" using assms(1) hist_holdsD(5) by (auto simp: hist_ok_def)
  have c0: "hist_getData hist 0 = Some (bins_of hist ! 0)" using d by (simp add: hist_getData_def vec_ref_eq)
  have "0 < length (bins_of hist)" using d by simp
  then have nn: "0 \<le> bins_of hist ! 0" using assms(2) nth_mem unfolding hist_ok_def hist_holds_def by blast
  have "0 = nat (min (if 0 = (0 :: int) then 0 else flog 0 + 1) (hi_bins h - 1))" using d(3) True by simp
  from hist_add_times_log [where flog = flog, OF assms(1) _ _ _ this, of "nat (bins_of hist ! 0)"] True nn obtain g where
    g: "hist_add_times flog h 0 (nat (bins_of hist ! 0)) = Some g" "hist_ok g" "hi_bins g = hi_bins h"
      "hi_binsize g = -1" "bins_of g = (bins_of h)[0 := bins_of h ! 0 + bins_of hist ! 0]" by auto
  have "hi_bins g = int (1 + nat (hi_bins g - 1))" using d(3) True g(3) by simp
  from hist_add_bins_log [where flog = flog, OF g(2,4) this _ assms(2)] g(3) True fl obtain h' where
    h': "hist_add_bins flog g hist 1 (nat (hi_bins h - 1)) = Some h'" "hist_ok h'" "hi_bins h' = hi_bins h"
      "\<forall>k < 1 + nat (hi_bins h - 1). bins_of h' ! k = bins_of g ! k + (if 1 \<le> k then bins_of hist ! k else 0)" by auto
  have "length (bins_of h') = nat (hi_bins h)" using h'(2,3) hist_holdsD(5) by (auto simp: hist_ok_def)
  then have "bins_of h' = map2 (+) (bins_of h) (bins_of hist)"
    using l d(3,5) True h'(4) g(5) by (intro nth_equalityI) (auto simp: nth_list_update not_less_eq_eq)
  then show ?thesis using True c0 g(1,3) h' by (simp add: hist_add_hist_def)
next
  case False
  then show ?thesis by (auto simp: hist_add_hist_def)
qed

theorem histogram_merge_pointwise_witness:
  "\<exists>h h'. hist_new (-1) 3 = Some h \<and> hist_add_hist (\<lambda>v. if v = 4 then 2 else v - 1) h h = Some h' \<and> bins_of h' = [0, 0, 0]"
proof -
  obtain h where h: "hist_new (-1) 3 = Some h" "hist_ok h" "hi_binsize h = -1" "hi_bins h = 3"
    "bins_of h = replicate 3 0"
    using hist_new_ok [of 3 "-1"] by auto
  have "\<forall>k. int k < hi_bins h \<longrightarrow> (if 2 ^ k = (4 :: int) then 2 else 2 ^ k - 1) = int k"
    using h(4) by (auto simp: numeral_3_eq_3 less_Suc_eq)
  with histogram_merge_pointwise [OF h(2,2), of "\<lambda>v. if v = 4 then 2 else v - 1"] h(3,4) obtain h' where
    "hist_add_hist (\<lambda>v. if v = 4 then 2 else v - 1) h h = Some h'" "bins_of h' = map2 (+) (bins_of h) (bins_of h)" by auto
  then show ?thesis using h(1,5) by (simp add: numeral_3_eq_3)
qed

text \<open>
  With an odd number of bins the rescaling of \<^verbatim>\<open>Histogram::add\<close> loses samples: it merges
  \<^verbatim>\<open>m_bins/2\<close> pairs and clears the rest, the last bin included.  After the samples 2 and 3 in
  a histogram of three bins two samples are counted but only one is in a bin.
\<close>
theorem histogram_odd_bins_lose_sample:
  "(case Option.bind (hist_new 1 3) (\<lambda>h. Option.bind (hist_add (\<lambda>_. 0) h 2) (\<lambda>h. hist_add (\<lambda>_. 0) h 3)) of
      Some h \<Rightarrow> hi_count h = 2 \<and> sum_list (bins_of h) = 1 | None \<Rightarrow> False)"
  by code_simp

end
