(* ===== verification/MessageBuffer_Model.thy ===== *)
theory MessageBuffer_Model
  imports EventQueue_Model Histogram_Model
begin

text \<open>
  The message channel of Ruby: \<^verbatim>\<open>buffers/MessageBuffer.h\<close>, \<^verbatim>\<open>buffers/MessageBuffer.C\<close>,
  \<^verbatim>\<open>buffers/MessageBufferNode.h\<close> and the bookkeeping fields of \<^verbatim>\<open>slicc_interface/Message.h\<close>.
  Every controller and every network link talks through these buffers.

  A \<^verbatim>\<open>MsgPtr\<close> is a shared pointer, so messages live in a store \<open>w_msgs\<close> and a pointer is an
  address or \<open>None\<close>; \<^verbatim>\<open>enqueue\<close> and the dequeue functions write the shared message.  The
  global event queue is the other part of the world.  The results of the calls of the C
  library's \<^verbatim>\<open>random\<close> are the argument \<open>rnd\<close>; configuration constants are in \<open>mb_env\<close>.
\<close>

unbundle bit_operations_syntax

record mb_env =
  RANDOMIZATION :: bool
  RECYCLE_LATENCY :: int
  libm_log2 :: "int \<Rightarrow> int"

record Message =
  msg_time :: Time
  m_LastEnqueueTime :: Time
  m_DelayedCycles :: int

definition Message_new :: "EventQueue \<Rightarrow> Message" where
  "Message_new eq = \<lparr>msg_time = getTime eq, m_LastEnqueueTime = getTime eq, m_DelayedCycles = 0\<rparr>"

type_synonym MsgPtr = "nat option"

record world =
  w_eq :: EventQueue
  w_msgs :: "nat \<Rightarrow> Message option"

record MessageBufferNode =
  bn_time :: Time
  bn_msg_counter :: int
  bn_msgptr :: MsgPtr

definition MessageBufferNode_default :: MessageBufferNode where
  "MessageBufferNode_default = \<lparr>bn_time = 0, bn_msg_counter = 0, bn_msgptr = None\<rparr>"

definition message_node_le :: "MessageBufferNode node_le" where
  "message_node_le n1 n2 =
     (if bn_time n1 = bn_time n2 then do {
        assert_that (bn_msg_counter n1 \<noteq> bn_msg_counter n2);
        Some (bn_msg_counter n1 \<le> bn_msg_counter n2)
      } else Some (bn_time n1 \<le> bn_time n2))"

record MessageBuffer =
  mb_consumer_ptr :: ConsumerPtr
  mb_prio_heap :: "MessageBufferNode prio_heap"
  mb_name :: string
  mb_max_size :: int
  mb_size :: int
  mb_time_last_time_size_checked :: Time
  mb_size_last_time_size_checked :: int
  mb_time_last_time_enqueue :: Time
  mb_time_last_time_pop :: Time
  mb_size_at_cycle_start :: int
  mb_msgs_this_cycle :: int
  mb_not_avail_count :: int
  mb_msg_counter :: int
  mb_priority_rank :: int
  mb_strict_fifo :: bool
  mb_ordering_set :: bool
  mb_randomization :: bool
  mb_last_arrival_time :: Time
  mb_buffer_size :: Histogram

definition MessageBuffer_new :: "MessageBuffer option" where
  "MessageBuffer_new = do {
     h \<leftarrow> hist_new 1 50;
     Some \<lparr>mb_consumer_ptr = None, mb_prio_heap = ph_init, mb_name = [], mb_max_size = -1, mb_size = 0,
       mb_time_last_time_size_checked = 0, mb_size_last_time_size_checked = 0,
       mb_time_last_time_enqueue = 0, mb_time_last_time_pop = 0, mb_size_at_cycle_start = 0,
       mb_msgs_this_cycle = 0, mb_not_avail_count = 0, mb_msg_counter = 0, mb_priority_rank = 0,
       mb_strict_fifo = True, mb_ordering_set = False, mb_randomization = True,
       mb_last_arrival_time = 0, mb_buffer_size = h\<rparr>
   }"

definition mb_isReady :: "EventQueue \<Rightarrow> MessageBuffer \<Rightarrow> bool option" where
  "mb_isReady eq b =
     (if h_size (mb_prio_heap b) > 0
      then do { m \<leftarrow> ph_peekMin (mb_prio_heap b); Some (bn_time m \<le> getTime eq) }
      else Some False)"

definition mb_setConsumer :: "MessageBuffer \<Rightarrow> ConsumerPtr \<Rightarrow> MessageBuffer option" where
  "mb_setConsumer b consumer_ptr = do {
     assert_that (mb_consumer_ptr b = None);
     Some (b\<lparr>mb_consumer_ptr := consumer_ptr\<rparr>)
   }"

definition mb_setOrdering :: "MessageBuffer \<Rightarrow> bool \<Rightarrow> MessageBuffer" where
  "mb_setOrdering b order = b\<lparr>mb_strict_fifo := order, mb_ordering_set := True\<rparr>"

definition mb_setSize :: "MessageBuffer \<Rightarrow> int \<Rightarrow> MessageBuffer" where
  "mb_setSize b sz = b\<lparr>mb_max_size := sz\<rparr>"

definition mb_setPriority :: "MessageBuffer \<Rightarrow> int \<Rightarrow> MessageBuffer" where
  "mb_setPriority b rank = b\<lparr>mb_priority_rank := rank\<rparr>"

definition mb_setDescription :: "MessageBuffer \<Rightarrow> string \<Rightarrow> MessageBuffer" where
  "mb_setDescription b name = b\<lparr>mb_name := name\<rparr>"

definition mb_setRandomization :: "MessageBuffer \<Rightarrow> bool \<Rightarrow> MessageBuffer" where
  "mb_setRandomization b random_flag = b\<lparr>mb_randomization := random_flag\<rparr>"

definition mb_isEmpty :: "MessageBuffer \<Rightarrow> bool" where
  "mb_isEmpty b \<longleftrightarrow> h_size (mb_prio_heap b) = 0"

definition mb_getSize :: "EventQueue \<Rightarrow> MessageBuffer \<Rightarrow> int \<times> MessageBuffer" where
  "mb_getSize eq b =
     (if mb_time_last_time_size_checked b = getTime eq then (mb_size_last_time_size_checked b, b)
      else (mb_size b, b\<lparr>mb_time_last_time_size_checked := getTime eq,
                         mb_size_last_time_size_checked := mb_size b\<rparr>))"

definition mb_current_size :: "EventQueue \<Rightarrow> MessageBuffer \<Rightarrow> int" where
  "mb_current_size eq b =
     (if mb_time_last_time_pop b < getTime eq then mb_size b
      else if mb_time_last_time_enqueue b < getTime eq then mb_size_at_cycle_start b
      else mb_size_at_cycle_start b + mb_msgs_this_cycle b)"

definition mb_areNSlotsAvailable :: "EventQueue \<Rightarrow> MessageBuffer \<Rightarrow> int \<Rightarrow> bool \<times> MessageBuffer" where
  "mb_areNSlotsAvailable eq b n =
     (if mb_max_size b = -1 then (True, b)
      else if mb_current_size eq b + n \<le> mb_max_size b then (True, b)
      else (False, b\<lparr>mb_not_avail_count := mb_not_avail_count b + 1\<rparr>))"

definition mb_peekAtHeadOfQueue :: "world \<Rightarrow> MessageBuffer \<Rightarrow> nat option" where
  "mb_peekAtHeadOfQueue w b = do {
     r \<leftarrow> mb_isReady (w_eq w) b;
     assert_that r;
     m \<leftarrow> ph_peekMin (mb_prio_heap b);
     bn_msgptr m
   }"

definition mb_getMsgPtrCopy :: "world \<Rightarrow> MessageBuffer \<Rightarrow> Message option" where
  "mb_getMsgPtrCopy w b = do {
     r \<leftarrow> mb_isReady (w_eq w) b;
     assert_that r;
     m \<leftarrow> ph_peekMin (mb_prio_heap b);
     p \<leftarrow> bn_msgptr m;
     w_msgs w p
   }"

definition random_time :: "(nat \<Rightarrow> int) \<Rightarrow> int" where
  "random_time rnd = 1 + (rnd 0 AND 3) + (if rnd 1 AND 7 = 0 then 100 + rnd 2 mod 15 else 0)"

text \<open>The arrival time of \<^verbatim>\<open>enqueue\<close>; in a randomised FIFO it first moves the last arrival time up.\<close>

definition mb_arrival :: "mb_env \<Rightarrow> (nat \<Rightarrow> int) \<Rightarrow> Time \<Rightarrow> MessageBuffer \<Rightarrow> Time \<Rightarrow> MessageBuffer \<times> Time" where
  "mb_arrival env rnd current_time b delta =
     (if \<not> RANDOMIZATION env \<or> mb_randomization b = False then (b, current_time + delta)
      else if mb_strict_fifo b then
        let b = (if mb_last_arrival_time b < current_time then b\<lparr>mb_last_arrival_time := current_time\<rparr> else b)
        in (b, mb_last_arrival_time b + random_time rnd)
      else (b, current_time + random_time rnd))"

definition mb_count_enqueue :: "Time \<Rightarrow> MessageBuffer \<Rightarrow> MessageBuffer" where
  "mb_count_enqueue now b =
     (let b = (if mb_time_last_time_enqueue b < now
               then b\<lparr>mb_msgs_this_cycle := 0, mb_time_last_time_enqueue := now\<rparr> else b)
      in b\<lparr>mb_msgs_this_cycle := mb_msgs_this_cycle b + 1\<rparr>)"

definition mb_stamp_enqueue :: "Time \<Rightarrow> Time \<Rightarrow> Message \<Rightarrow> Message option" where
  "mb_stamp_enqueue now arrival_time m = do {
     assert_that (now \<ge> m_LastEnqueueTime m);
     let m = m\<lparr>m_DelayedCycles := (now - m_LastEnqueueTime m) + m_DelayedCycles m\<rparr>;
     Some (m\<lparr>m_LastEnqueueTime := arrival_time\<rparr>)
   }"

definition mb_enqueue ::
  "mb_env \<Rightarrow> (nat \<Rightarrow> int) \<Rightarrow> world \<Rightarrow> MessageBuffer \<Rightarrow> MsgPtr \<Rightarrow> Time \<Rightarrow> (world \<times> MessageBuffer) option" where
  "mb_enqueue env rnd w b message delta = do {
     let now = getTime (w_eq w);
     let b = b\<lparr>mb_msg_counter := mb_msg_counter b + 1, mb_size := mb_size b + 1\<rparr>;
     hist \<leftarrow> hist_add (libm_log2 env) (mb_buffer_size b) (mb_size b);
     let b = mb_count_enqueue now (b\<lparr>mb_buffer_size := hist\<rparr>);
     assert_that (mb_ordering_set b);
     assert_that (delta > 0);
     let (b, arrival_time) = mb_arrival env rnd now b delta;
     assert_that (arrival_time > now);
     assert_that (mb_strict_fifo b \<longrightarrow> arrival_time \<ge> mb_last_arrival_time b);
     let b = b\<lparr>mb_last_arrival_time := arrival_time\<rparr>;
     p \<leftarrow> message;
     m \<leftarrow> w_msgs w p;
     m \<leftarrow> mb_stamp_enqueue now arrival_time m;
     let w = w\<lparr>w_msgs := (w_msgs w)(p \<mapsto> m)\<rparr>;
     h \<leftarrow> ph_insert message_node_le MessageBufferNode_default (mb_prio_heap b)
            \<lparr>bn_time = arrival_time, bn_msg_counter = mb_msg_counter b, bn_msgptr = message\<rparr>;
     let b = b\<lparr>mb_prio_heap := h\<rparr>;
     (case mb_consumer_ptr b of None \<Rightarrow> None
      | Some c \<Rightarrow> do {
          eq \<leftarrow> scheduleEventAbsolute (w_eq w) (Some c) arrival_time;
          Some (w\<lparr>w_eq := eq\<rparr>, b)
        })
   }"

definition mb_pop :: "world \<Rightarrow> MessageBuffer \<Rightarrow> MessageBuffer option" where
  "mb_pop w b = do {
     r \<leftarrow> mb_isReady (w_eq w) b;
     assert_that r;
     (node, h) \<leftarrow> ph_extractMin message_node_le (mb_prio_heap b);
     let b = b\<lparr>mb_prio_heap := h\<rparr>;
     let now = getTime (w_eq w);
     let b = (if mb_time_last_time_pop b < now
              then b\<lparr>mb_size_at_cycle_start := mb_size b, mb_time_last_time_pop := now\<rparr> else b);
     Some (b\<lparr>mb_size := mb_size b - 1\<rparr>)
   }"

definition mb_dequeue :: "world \<Rightarrow> MessageBuffer \<Rightarrow> (MsgPtr \<times> MessageBuffer) option" where
  "mb_dequeue w b = do {
     m \<leftarrow> ph_peekMin (mb_prio_heap b);
     b \<leftarrow> mb_pop w b;
     Some (bn_msgptr m, b)
   }"

definition setAndReturnDelayCycles :: "world \<Rightarrow> MsgPtr \<Rightarrow> (int \<times> world) option" where
  "setAndReturnDelayCycles w message = do {
     p \<leftarrow> message;
     m \<leftarrow> w_msgs w p;
     let now = getTime (w_eq w);
     assert_that (m_LastEnqueueTime m \<le> now);
     let m = m\<lparr>m_DelayedCycles := (now - m_LastEnqueueTime m) + m_DelayedCycles m\<rparr>;
     let delay_cycles = m_DelayedCycles m;
     assert_that (delay_cycles \<ge> 0);
     Some (delay_cycles, w\<lparr>w_msgs := (w_msgs w)(p \<mapsto> m)\<rparr>)
   }"

definition mb_dequeue_getDelayCycles_msg ::
  "world \<Rightarrow> MessageBuffer \<Rightarrow> (int \<times> MsgPtr \<times> world \<times> MessageBuffer) option" where
  "mb_dequeue_getDelayCycles_msg w b = do {
     (message, b) \<leftarrow> mb_dequeue w b;
     (delay_cycles, w) \<leftarrow> setAndReturnDelayCycles w message;
     assert_that (delay_cycles \<ge> 0);
     Some (delay_cycles, message, w, b)
   }"

definition mb_dequeue_getDelayCycles ::
  "world \<Rightarrow> MessageBuffer \<Rightarrow> (int \<times> world \<times> MessageBuffer) option" where
  "mb_dequeue_getDelayCycles w b = do {
     m \<leftarrow> ph_peekMin (mb_prio_heap b);
     (delay_cycles, w) \<leftarrow> setAndReturnDelayCycles w (bn_msgptr m);
     b \<leftarrow> mb_pop w b;
     assert_that (delay_cycles \<ge> 0);
     Some (delay_cycles, w, b)
   }"

definition mb_clear :: "MessageBuffer \<Rightarrow> MessageBuffer option" where
  "mb_clear b = do {
     (discarded, h) \<leftarrow> ph_drain message_node_le (mb_prio_heap b);
     assert_that (h_size h = 0);
     Some (b\<lparr>mb_prio_heap := h, mb_msg_counter := 0, mb_size := 0, mb_time_last_time_enqueue := 0,
             mb_time_last_time_pop := 0, mb_size_at_cycle_start := 0, mb_msgs_this_cycle := 0\<rparr>)
   }"

definition mb_recycle :: "mb_env \<Rightarrow> world \<Rightarrow> MessageBuffer \<Rightarrow> (world \<times> MessageBuffer) option" where
  "mb_recycle env w b = do {
     r \<leftarrow> mb_isReady (w_eq w) b;
     assert_that r;
     (node, h) \<leftarrow> ph_extractMin message_node_le (mb_prio_heap b);
     let now = getTime (w_eq w);
     h \<leftarrow> ph_insert message_node_le MessageBufferNode_default h (node\<lparr>bn_time := now + RECYCLE_LATENCY env\<rparr>);
     eq \<leftarrow> scheduleEventAbsolute (w_eq w) (mb_consumer_ptr b) (now + RECYCLE_LATENCY env);
     Some (w\<lparr>w_eq := eq\<rparr>, b\<lparr>mb_prio_heap := h\<rparr>)
   }"

definition mb_clearStats :: "MessageBuffer \<Rightarrow> MessageBuffer option" where
  "mb_clearStats b = do {
     hist \<leftarrow> hist_clear (mb_buffer_size b);
     Some (b\<lparr>mb_not_avail_count := 0, mb_msg_counter := 0, mb_buffer_size := hist\<rparr>)
   }"

subsection \<open>The order of messages\<close>

definition node_key :: "MessageBufferNode \<Rightarrow> int \<times> int" where
  "node_key n = (bn_time n, bn_msg_counter n)"

definition counters_differ :: "MessageBufferNode \<Rightarrow> MessageBufferNode \<Rightarrow> bool" where
  "counters_differ m n \<longleftrightarrow> bn_msg_counter m \<noteq> bn_msg_counter n"

interpretation mbq: node_order message_node_le MessageBufferNode_default node_key counters_differ
  by unfold_locales (auto simp: message_node_le_def node_key_def counters_differ_def)

lemma random_time_range:
  assumes "\<forall>i. 0 \<le> rnd i"
  shows "1 \<le> random_time rnd" "random_time rnd \<le> 118"
    "random_time rnd \<le> 4 \<or> 101 \<le> random_time rnd"
proof -
  have a: "0 \<le> rnd 0 AND 3" using assms by simp
  have b: "rnd 0 AND 3 \<le> 3" by (rule AND_upper2) simp
  have c: "0 \<le> rnd 2 mod 15" "rnd 2 mod 15 \<le> 14" by simp_all
  show "1 \<le> random_time rnd" "random_time rnd \<le> 118"
    "random_time rnd \<le> 4 \<or> 101 \<le> random_time rnd"
    unfolding random_time_def using a b c by (simp_all only: split: if_split) linarith+
qed

subsection \<open>What enqueue does\<close>

abbreviation new_node :: "Time \<Rightarrow> MessageBuffer \<Rightarrow> nat \<Rightarrow> MessageBufferNode" where
  "new_node arrival b p \<equiv> \<lparr>bn_time = arrival, bn_msg_counter = mb_msg_counter b + 1, bn_msgptr = Some p\<rparr>"

definition arrival_time_of :: "mb_env \<Rightarrow> (nat \<Rightarrow> int) \<Rightarrow> Time \<Rightarrow> MessageBuffer \<Rightarrow> Time \<Rightarrow> Time" where
  "arrival_time_of env rnd now b delta = snd (mb_arrival env rnd now b delta)"

definition last_arrival_of :: "mb_env \<Rightarrow> Time \<Rightarrow> MessageBuffer \<Rightarrow> Time" where
  "last_arrival_of env now b =
     (if RANDOMIZATION env \<and> mb_randomization b \<and> mb_strict_fifo b
      then max (mb_last_arrival_time b) now else mb_last_arrival_time b)"

definition enqueued :: "Time \<Rightarrow> MessageBuffer \<Rightarrow> Histogram \<Rightarrow> Time \<Rightarrow> MessageBufferNode prio_heap \<Rightarrow> MessageBuffer" where
  "enqueued now b hist arrival h =
     b\<lparr>mb_msg_counter := mb_msg_counter b + 1, mb_size := mb_size b + 1, mb_buffer_size := hist,
       mb_msgs_this_cycle := (if mb_time_last_time_enqueue b < now then 1 else mb_msgs_this_cycle b + 1),
       mb_time_last_time_enqueue := max (mb_time_last_time_enqueue b) now,
       mb_last_arrival_time := arrival, mb_prio_heap := h\<rparr>"

lemma mb_arrival_eq:
  "mb_arrival env rnd now b delta =
     (b\<lparr>mb_last_arrival_time := last_arrival_of env now b\<rparr>, arrival_time_of env rnd now b delta)"
  by (simp add: mb_arrival_def arrival_time_of_def last_arrival_of_def Let_def)

lemma mb_count_enqueue_eq:
  "mb_count_enqueue now b =
     b\<lparr>mb_msgs_this_cycle := (if mb_time_last_time_enqueue b < now then 1 else mb_msgs_this_cycle b + 1),
       mb_time_last_time_enqueue := max (mb_time_last_time_enqueue b) now\<rparr>"
  by (simp add: mb_count_enqueue_def Let_def)

lemma arrival_cong [simp]:
  "arrival_time_of env rnd now
     (b\<lparr>mb_msg_counter := a1, mb_size := a2, mb_buffer_size := a3, mb_msgs_this_cycle := a4,
       mb_time_last_time_enqueue := a5\<rparr>) delta = arrival_time_of env rnd now b delta"
  "last_arrival_of env now
     (b\<lparr>mb_msg_counter := a1, mb_size := a2, mb_buffer_size := a3, mb_msgs_this_cycle := a4,
       mb_time_last_time_enqueue := a5\<rparr>) = last_arrival_of env now b"
  by (simp_all add: arrival_time_of_def mb_arrival_def last_arrival_of_def Let_def)

lemmas mb_enqueue_unfold = mb_enqueue_def mb_arrival_eq mb_count_enqueue_eq mb_stamp_enqueue_def Let_def

lemma if_if_eq_conj2: "(if a then if b then x else y else y) = (if a \<and> b then x else y)"
  by simp

lemma mb_enqueue_eq:
  "mb_enqueue env rnd w b message delta =
     (let now = getTime (w_eq w); arr = arrival_time_of env rnd now b delta in
      Option.bind (hist_add (libm_log2 env) (mb_buffer_size b) (mb_size b + 1)) (\<lambda>hist.
      if mb_ordering_set b \<and> 0 < delta \<and> now < arr \<and> (mb_strict_fifo b \<longrightarrow> last_arrival_of env now b \<le> arr)
      then Option.bind message (\<lambda>p. Option.bind (w_msgs w p) (\<lambda>m.
        if m_LastEnqueueTime m \<le> now then
          Option.bind (ph_insert message_node_le MessageBufferNode_default (mb_prio_heap b) (new_node arr b p)) (\<lambda>h.
          Option.bind (mb_consumer_ptr b) (\<lambda>c. Option.bind (scheduleEventAbsolute (w_eq w) (Some c) arr) (\<lambda>eq.
          Some (w\<lparr>w_msgs := (w_msgs w)(p \<mapsto> m\<lparr>m_DelayedCycles := now - m_LastEnqueueTime m + m_DelayedCycles m,
                  m_LastEnqueueTime := arr\<rparr>), w_eq := eq\<rparr>, enqueued now b hist arr h))))
        else None))
      else None))"
proof (cases message)
  case None
  then show ?thesis by (cases "hist_add (libm_log2 env) (mb_buffer_size b) (mb_size b + 1)")
      (simp_all add: mb_enqueue_unfold)
next
  case p: (Some p)
  show ?thesis
  proof (cases "w_msgs w p")
    case None
    with p show ?thesis by (cases "hist_add (libm_log2 env) (mb_buffer_size b) (mb_size b + 1)")
      (simp_all add: mb_enqueue_unfold)
  next
    case (Some m)
    with p show ?thesis
      by (cases "hist_add (libm_log2 env) (mb_buffer_size b) (mb_size b + 1)"; cases "mb_consumer_ptr b";
          cases "m_LastEnqueueTime m \<le> getTime (w_eq w)")
        (simp_all add: mb_enqueue_unfold enqueued_def if_if_eq_conj2 split del: if_split cong: if_cong)
  qed
qed

lemma mb_enqueue_SomeE:
  assumes "mb_enqueue env rnd w b message delta = Some (w', b')"
  obtains hist p m h c eq arr where "arr = arrival_time_of env rnd (getTime (w_eq w)) b delta"
    "hist_add (libm_log2 env) (mb_buffer_size b) (mb_size b + 1) = Some hist"
    "mb_ordering_set b" "0 < delta" "getTime (w_eq w) < arr"
    "mb_strict_fifo b \<longrightarrow> last_arrival_of env (getTime (w_eq w)) b \<le> arr"
    "message = Some p" "w_msgs w p = Some m" "m_LastEnqueueTime m \<le> getTime (w_eq w)"
    "ph_insert message_node_le MessageBufferNode_default (mb_prio_heap b) (new_node arr b p) = Some h"
    "mb_consumer_ptr b = Some c" "scheduleEventAbsolute (w_eq w) (Some c) arr = Some eq"
    "w_eq w' = eq" "b' = enqueued (getTime (w_eq w)) b hist arr h"
    "w_msgs w' = (w_msgs w)(p \<mapsto> m\<lparr>m_DelayedCycles := getTime (w_eq w) - m_LastEnqueueTime m + m_DelayedCycles m,
       m_LastEnqueueTime := arr\<rparr>)"
  using assms unfolding mb_enqueue_eq Let_def
  by (elim bind_eq_SomeE) (simp split: if_splits; elim bind_eq_SomeE; simp split: if_splits; elim bind_eq_SomeE; force)

subsection \<open>The invariant\<close>

abbreviation queued :: "MessageBuffer \<Rightarrow> MessageBufferNode multiset" where
  "queued b \<equiv> ph_elems (mb_prio_heap b)"

text \<open>
  A well-formed buffer: its heap is one, the counters of the queued messages are distinct and
  not above the buffer's counter, the recorded size is the number of queued messages, and the size
  histogram is a consistent linear one.
\<close>

definition mb_inv :: "MessageBuffer \<Rightarrow> bool" where
  "mb_inv b \<longleftrightarrow> heap_ok node_key (mb_prio_heap b) \<and> pairwise_cmp counters_differ (queued b) \<and>
     (\<forall>n \<in># queued b. bn_msg_counter n \<le> mb_msg_counter b \<and> bn_msgptr n \<noteq> None) \<and>
     mb_size b = int (size (queued b)) \<and> hist_ok (mb_buffer_size b) \<and>
     even (hi_bins (mb_buffer_size b)) \<and> 0 < hi_binsize (mb_buffer_size b)"

lemma mb_invD:
  assumes "mb_inv b"
  shows "heap_ok node_key (mb_prio_heap b)" "pairwise_cmp counters_differ (queued b)"
    "mb_size b = int (size (queued b))" "mb_size b = int (h_size (mb_prio_heap b))"
  using assms size_ph_elems [of node_key "mb_prio_heap b"] by (auto simp: mb_inv_def)

lemma MessageBuffer_new_inv:
  "\<exists>b. MessageBuffer_new = Some b \<and> mb_inv b \<and> queued b = {#} \<and> mb_strict_fifo b \<and>
     mb_consumer_ptr b = None \<and> mb_last_arrival_time b = 0 \<and> mb_max_size b = -1 \<and> mb_size b = 0 \<and>
     mb_time_last_time_pop b = 0 \<and> mb_time_last_time_enqueue b = 0 \<and> mb_msg_counter b = 0 \<and> \<not> mb_ordering_set b"
proof -
  obtain h where "hist_new 1 50 = Some h" "hist_ok h" "hi_binsize h = 1" "hi_bins h = 50"
    using hist_new_ok [of 50 1] by auto
  then show ?thesis by (simp add: MessageBuffer_new_def mb_inv_def pairwise_cmp_def)
qed

lemma pairwise_cmp_add:
  assumes "pairwise_cmp c M" "\<forall>y \<in># M. c x y \<and> c y x"
  shows "pairwise_cmp c (add_mset x M)"
  unfolding pairwise_cmp_def
proof (intro ballI)
  fix a b assume ab: "a \<in># add_mset x M" "b \<in># add_mset x M - {#a#}"
  show "c a b"
  proof (cases "a = x")
    case True
    then show ?thesis using ab(2) assms(2) by simp
  next
    case False
    then have "b \<in># add_mset x (M - {#a#})" using ab by (simp add: diff_add_mset_swap)
    then show ?thesis using False ab(1) assms by (auto simp: pairwise_cmp_def)
  qed
qed

lemma mb_insert_new:
  assumes i: "mb_inv b"
  obtains h where "ph_insert message_node_le MessageBufferNode_default (mb_prio_heap b) (new_node arr b p) = Some h"
    "heap_ok node_key h" "ph_elems h = add_mset (new_node arr b p) (queued b)"
proof (rule mbq.ins_cases [OF mb_invD(1) [OF i]])
  show "\<forall>y \<in># queued b. counters_differ (new_node arr b p) y"
    using i by (auto simp: mb_inv_def counters_differ_def)
qed (rule that)

lemma mb_inv_enqueued:
  assumes i: "mb_inv b" and h: "heap_ok node_key h" "ph_elems h = add_mset (new_node arr b p) (queued b)"
    and hist: "hist_add f (mb_buffer_size b) (mb_size b + 1) = Some hist"
  shows "mb_inv (enqueued now b hist arr h)"
proof -
  have "0 \<le> mb_size b" using mb_invD(3) [OF i] by simp
  then have "hist_ok hist" "even (hi_bins hist)" "0 < hi_binsize hist"
    using hist_add_linear [of "mb_buffer_size b" "mb_size b + 1" f] i hist by (auto simp: mb_inv_def)
  moreover have "pairwise_cmp counters_differ (ph_elems h)"
    unfolding h(2) using i by (intro pairwise_cmp_add) (auto simp: mb_inv_def counters_differ_def)
  ultimately show ?thesis using i h by (auto simp: mb_inv_def enqueued_def)
qed

lemma mb_hist_add:
  assumes "mb_inv b"
  obtains hist where "hist_add f (mb_buffer_size b) (mb_size b + 1) = Some hist"
proof -
  have "0 \<le> mb_size b" using mb_invD(3) [OF assms] by simp
  then show thesis
    using hist_add_linear [of "mb_buffer_size b" "mb_size b + 1" f] assms that by (auto simp: mb_inv_def)
qed

text \<open>Enqueue never fails on a configured buffer whose arrival times respect the order.\<close>

lemma mb_enqueue_succeeds:
  assumes i: "mb_inv b" and e: "eq_inv (w_eq w)"
    and cfg: "mb_ordering_set b" "mb_consumer_ptr b = Some c" "0 < delta"
    and msg: "w_msgs w p = Some m" "m_LastEnqueueTime m \<le> getTime (w_eq w)"
    and arr: "arr = arrival_time_of env rnd (getTime (w_eq w)) b delta" "getTime (w_eq w) < arr"
      "mb_strict_fifo b \<longrightarrow> last_arrival_of env (getTime (w_eq w)) b \<le> arr"
  obtains w' b' where "mb_enqueue env rnd w b (Some p) delta = Some (w', b')" "mb_inv b'" "eq_inv (w_eq w')"
    "queued b' = add_mset (new_node arr b p) (queued b)" "event c arr \<in># pending (w_eq w')"
    "pending (w_eq w) \<subseteq># pending (w_eq w')" "getTime (w_eq w') = getTime (w_eq w)"
    "mb_size b' = mb_size b + 1"
proof -
  obtain h where h: "ph_insert message_node_le MessageBufferNode_default (mb_prio_heap b) (new_node arr b p) = Some h"
    "heap_ok node_key h" "ph_elems h = add_mset (new_node arr b p) (queued b)"
    by (rule mb_insert_new [OF i])
  obtain hist where hist: "hist_add (libm_log2 env) (mb_buffer_size b) (mb_size b + 1) = Some hist"
    by (rule mb_hist_add [OF i])
  obtain eq where eq: "scheduleEventAbsolute (w_eq w) (Some c) arr = Some eq" "eq_inv eq"
    "m_globalTime eq = m_globalTime (w_eq w)" "event c arr \<in># pending eq"
    "pending eq = pending (w_eq w) \<or> pending eq = add_mset (event c arr) (pending (w_eq w))"
    by (rule scheduleEventAbsolute_correct [OF e]) (use arr(2) in \<open>simp_all add: getTime_def\<close>)
  have inv: "mb_inv (enqueued (getTime (w_eq w)) b hist arr h)"
    by (rule mb_inv_enqueued [OF i h(2,3) hist])
  have "mb_enqueue env rnd w b (Some p) delta =
    Some (w\<lparr>w_msgs := (w_msgs w)(p \<mapsto> m\<lparr>m_DelayedCycles := getTime (w_eq w) - m_LastEnqueueTime m + m_DelayedCycles m,
                  m_LastEnqueueTime := arr\<rparr>), w_eq := eq\<rparr>, enqueued (getTime (w_eq w)) b hist arr h)"
    using cfg msg arr h(1) hist eq(1) by (simp add: mb_enqueue_eq Let_def)
  then show thesis
    by (rule that) (use inv h eq in \<open>auto simp: enqueued_def getTime_def\<close>)
qed

text \<open>When the head may be taken, and what taking it does.\<close>

lemma mb_isReady_cases:
  assumes i: "mb_inv b"
  obtains "mb_isReady eq b = Some False" "\<forall>n \<in># queued b. getTime eq < bn_time n"
  | n h where "mb_isReady eq b = Some True" "ph_extractMin message_node_le (mb_prio_heap b) = Some (n, h)"
      "ph_peekMin (mb_prio_heap b) = Some n" "heap_ok node_key h" "queued b = add_mset n (ph_elems h)"
      "bn_time n \<le> getTime eq" "\<forall>m \<in># queued b. node_key n \<le> node_key m"
      "pairwise_cmp counters_differ (ph_elems h)" "bn_msgptr n \<noteq> None"
proof (cases rule: mbq.ext_cases [OF mb_invD(1,2) [OF i]])
  case 1
  then show thesis by (intro that(1)) (simp_all add: mb_isReady_def)
next
  case (2 n h)
  show thesis
  proof (cases "bn_time n \<le> getTime eq")
    case True
    have "bn_msgptr n \<noteq> None" using i 2(1) by (auto simp: mb_inv_def)
    then show thesis by (intro that(2) [of n h]) (use True 2 in \<open>simp_all add: mb_isReady_def\<close>)
  next
    case False
    have "getTime eq < bn_time m" if "m \<in># queued b" for m
    proof -
      have "node_key n \<le> node_key m" using 2(7) that by blast
      then show ?thesis using False by (auto simp: node_key_def)
    qed
    then show thesis by (intro that(1)) (use False 2 in \<open>simp_all add: mb_isReady_def\<close>)
  qed
qed

definition popped :: "Time \<Rightarrow> MessageBuffer \<Rightarrow> MessageBufferNode prio_heap \<Rightarrow> MessageBuffer" where
  "popped now b h =
     b\<lparr>mb_prio_heap := h, mb_size := mb_size b - 1,
       mb_size_at_cycle_start := (if mb_time_last_time_pop b < now then mb_size b else mb_size_at_cycle_start b),
       mb_time_last_time_pop := max (mb_time_last_time_pop b) now\<rparr>"

lemma mb_pop_eq:
  "mb_pop w b = Option.bind (mb_isReady (w_eq w) b) (\<lambda>r. if r then
     Option.bind (ph_extractMin message_node_le (mb_prio_heap b)) (\<lambda>(n, h). Some (popped (getTime (w_eq w)) b h))
     else None)"
  by (simp add: mb_pop_def popped_def Let_def split: bind_split prod.split)

lemma mb_inv_popped:
  assumes "mb_inv b" "heap_ok node_key h" "queued b = add_mset n (ph_elems h)"
  shows "mb_inv (popped now b h)"
  using assms pairwise_cmp_remove [of counters_differ n "ph_elems h"]
  by (auto simp: mb_inv_def popped_def)

subsection \<open>First in, first out\<close>

datatype ('a, 'd) chan_op = Enq 'a | Deq 'd

fun chan_run :: "('a \<Rightarrow> 's \<Rightarrow> 's option) \<Rightarrow> ('d \<Rightarrow> 's \<Rightarrow> ('m \<times> 's) option) \<Rightarrow> ('a, 'd) chan_op list \<Rightarrow> 's \<Rightarrow>
  ('m list \<times> 's) option" where
  "chan_run enq deq [] s = Some ([], s)"
| "chan_run enq deq (Enq a # ops) s = Option.bind (enq a s) (chan_run enq deq ops)"
| "chan_run enq deq (Deq d # ops) s = Option.bind (deq d s)
     (\<lambda>(m, s). map_option (\<lambda>(out, s). (m # out, s)) (chan_run enq deq ops s))"

fun enq_args :: "('a, 'd) chan_op list \<Rightarrow> 'a list" where
  "enq_args [] = []"
| "enq_args (Enq a # ops) = a # enq_args ops"
| "enq_args (Deq d # ops) = enq_args ops"

text \<open>The contract of an ordered channel, and what it means for any interleaving of calls.\<close>

locale fifo_channel =
  fixes holds :: "'s \<Rightarrow> 'm list \<Rightarrow> bool"
    and enq :: "'a \<Rightarrow> 's \<Rightarrow> 's option"
    and payload :: "'a \<Rightarrow> 'm"
    and deq :: "'d \<Rightarrow> 's \<Rightarrow> ('m \<times> 's) option"
  assumes enq_law: "\<lbrakk>holds s ms; enq a s = Some s'\<rbrakk> \<Longrightarrow> holds s' (ms @ [payload a])"
    and deq_law: "\<lbrakk>holds s ms; deq d s = Some (m, s')\<rbrakk> \<Longrightarrow> \<exists>ms'. ms = m # ms' \<and> holds s' ms'"
begin

lemma run_in_order:
  "\<lbrakk>holds s ms; chan_run enq deq ops s = Some (out, s')\<rbrakk> \<Longrightarrow>
   \<exists>rest. out @ rest = ms @ map payload (enq_args ops) \<and> holds s' rest"
proof (induction ops arbitrary: s ms out rule: enq_args.induct)
  case 1
  then show ?case by auto
next
  case (2 a ops)
  from "2.prems"(2) obtain s1 where s1: "enq a s = Some s1" "chan_run enq deq ops s1 = Some (out, s')"
    by (auto elim: bind_eq_SomeE)
  from "2.IH" [OF enq_law [OF "2.prems"(1) s1(1)] s1(2)] show ?case by simp
next
  case (3 d ops)
  from "3.prems"(2) obtain m s1 out' where s1: "deq d s = Some (m, s1)" "chan_run enq deq ops s1 = Some (out', s')"
    "out = m # out'" by (auto elim!: bind_eq_SomeE)
  from deq_law [OF "3.prems"(1) s1(1)] obtain ms' where "ms = m # ms'" "holds s1 ms'" by blast
  with "3.IH" [OF _ s1(2)] s1(3) show ?case by auto
qed

end

definition fifo_before :: "MessageBufferNode \<Rightarrow> MessageBufferNode \<Rightarrow> bool" where
  "fifo_before m n \<longleftrightarrow> bn_time m \<le> bn_time n \<and> bn_msg_counter m < bn_msg_counter n"

definition fifo_nodes :: "MessageBuffer \<Rightarrow> MessageBufferNode list \<Rightarrow> bool" where
  "fifo_nodes b l \<longleftrightarrow> mset l = queued b \<and> sorted_wrt fifo_before l \<and>
     (\<forall>n \<in> set l. bn_time n \<le> mb_last_arrival_time b)"

definition mb_holds :: "MessageBuffer \<Rightarrow> MsgPtr list \<Rightarrow> bool" where
  "mb_holds b ms \<longleftrightarrow> mb_inv b \<and> mb_strict_fifo b \<and> (\<exists>l. fifo_nodes b l \<and> map bn_msgptr l = ms)"

type_synonym enq_call = "mb_env \<times> (nat \<Rightarrow> int) \<times> world \<times> MsgPtr \<times> Time"

definition call_enqueue :: "enq_call \<Rightarrow> MessageBuffer \<Rightarrow> MessageBuffer option" where
  "call_enqueue = (\<lambda>(env, rnd, w, message, delta) b. map_option snd (mb_enqueue env rnd w b message delta))"

definition call_message :: "enq_call \<Rightarrow> MsgPtr" where
  "call_message = (\<lambda>(env, rnd, w, message, delta). message)"

lemma mb_holds_enqueue:
  assumes h: "mb_holds b ms" and e: "mb_enqueue env rnd w b message delta = Some (w', b')"
  shows "mb_holds b' (ms @ [message])"
proof -
  obtain l where l: "fifo_nodes b l" "map bn_msgptr l = ms" and i: "mb_inv b" "mb_strict_fifo b"
    using h by (auto simp: mb_holds_def)
  obtain hist p m h c eq arr where q: "arr = arrival_time_of env rnd (getTime (w_eq w)) b delta"
    "hist_add (libm_log2 env) (mb_buffer_size b) (mb_size b + 1) = Some hist"
    "mb_strict_fifo b \<longrightarrow> last_arrival_of env (getTime (w_eq w)) b \<le> arr" "message = Some p"
    "ph_insert message_node_le MessageBufferNode_default (mb_prio_heap b) (new_node arr b p) = Some h"
    "b' = enqueued (getTime (w_eq w)) b hist arr h"
    by (rule mb_enqueue_SomeE [OF e]) blast
  have hh: "heap_ok node_key h" "ph_elems h = add_mset (new_node arr b p) (queued b)"
    by (rule mb_insert_new [OF i(1), of arr p], use q(5) in simp)+
  have late: "mb_last_arrival_time b \<le> arr" using q(3) i(2) by (auto simp: last_arrival_of_def split: if_splits)
  have "set l = set_mset (queued b)" using l(1) by (metis fifo_nodes_def set_mset_mset)
  then have "\<forall>n \<in> set l. fifo_before n (new_node arr b p)"
    using l(1) i(1) late by (force simp: fifo_nodes_def fifo_before_def mb_inv_def)
  then have "fifo_nodes b' (l @ [new_node arr b p])"
    using l(1) hh(2) late by (auto simp: fifo_nodes_def q(6) enqueued_def sorted_wrt_append)
  moreover have "mb_inv b'" unfolding q(6) by (rule mb_inv_enqueued [OF i(1) hh q(2)])
  moreover have "mb_strict_fifo b'" using i(2) by (simp add: q(6) enqueued_def)
  ultimately show ?thesis using l(2) q(4) unfolding mb_holds_def
    by (intro conjI exI [of _ "l @ [new_node arr b p]"]) simp_all
qed

lemma fifo_head_least:
  assumes "sorted_wrt fifo_before l" "n \<in> set l" "\<forall>m \<in> set l. node_key n \<le> node_key m"
  shows "\<exists>l'. l = n # l'"
proof (cases l)
  case (Cons x l')
  have "n = x"
  proof (rule ccontr)
    assume "n \<noteq> x"
    then have "fifo_before x n" using assms(1,2) Cons by auto
    moreover have "node_key n \<le> node_key x" using assms(3) Cons by simp
    ultimately show False by (auto simp: fifo_before_def node_key_def)
  qed
  then show ?thesis using Cons by blast
qed (use assms(2) in simp)

lemma mb_holds_pop:
  assumes h: "mb_holds b ms" and p: "mb_pop w b = Some b'" and k: "ph_peekMin (mb_prio_heap b) = Some n"
  shows "\<exists>ms'. ms = bn_msgptr n # ms' \<and> mb_holds b' ms'"
proof -
  obtain l where l: "fifo_nodes b l" "map bn_msgptr l = ms" and i: "mb_inv b" "mb_strict_fifo b"
    using h by (auto simp: mb_holds_def)
  have sl: "set l = set_mset (queued b)" using l(1) by (metis fifo_nodes_def set_mset_mset)
  show ?thesis
  proof (cases rule: mb_isReady_cases [OF i(1), of "w_eq w"])
    case 1
    then show ?thesis using p by (simp add: mb_pop_eq)
  next
    case (2 m h)
    have b': "b' = popped (getTime (w_eq w)) b h" using p 2 by (simp add: mb_pop_eq)
    have m: "m = n" using 2(3) k by simp
    have "n \<in> set l" "\<forall>m \<in> set l. node_key n \<le> node_key m" using 2(5,7) sl m by auto
    then obtain l' where l': "l = n # l'" using fifo_head_least l(1) by (metis fifo_nodes_def)
    have "mset l' = ph_elems h" using l(1) 2(5) m l' by (simp add: fifo_nodes_def)
    then have "fifo_nodes b' l'" using l(1) l' by (auto simp: fifo_nodes_def b' popped_def)
    moreover have "mb_inv b'" unfolding b' by (rule mb_inv_popped [OF i(1) 2(4,5)])
    ultimately show ?thesis using i(2) l(2) l' by (auto simp: mb_holds_def b' popped_def)
  qed
qed

lemma mb_holds_dequeue:
  assumes h: "mb_holds b ms" and d: "mb_dequeue w b = Some (message, b')"
  shows "\<exists>ms'. ms = message # ms' \<and> mb_holds b' ms'"
proof -
  obtain n where "ph_peekMin (mb_prio_heap b) = Some n" "mb_pop w b = Some b'" "message = bn_msgptr n"
    using d by (auto simp: mb_dequeue_def elim!: bind_eq_SomeE)
  then show ?thesis using mb_holds_pop [OF h] by simp
qed

interpretation mbc: fifo_channel mb_holds call_enqueue call_message mb_dequeue
  by unfold_locales
    (auto simp: call_enqueue_def call_message_def dest: mb_holds_enqueue mb_holds_dequeue split: prod.splits)

lemma mb_holds_new:
  "\<exists>b. MessageBuffer_new = Some b \<and> mb_holds (mb_setOrdering b True) []"
proof -
  obtain b where "MessageBuffer_new = Some b" "mb_inv b" "queued b = {#}" using MessageBuffer_new_inv by blast
  then show ?thesis by (auto simp: mb_holds_def fifo_nodes_def mb_setOrdering_def mb_inv_def)
qed

subsection \<open>The advertised number of free slots\<close>

text \<open>The life of a buffer: every public operation, at non-decreasing times.\<close>

inductive mb_reach :: "Time \<Rightarrow> MessageBuffer \<Rightarrow> bool" where
  created: "\<lbrakk>MessageBuffer_new = Some b; 0 \<le> t\<rbrakk> \<Longrightarrow> mb_reach t b"
| time_passes: "\<lbrakk>mb_reach t b; t \<le> t'\<rbrakk> \<Longrightarrow> mb_reach t' b"
| resized: "mb_reach t b \<Longrightarrow> mb_reach t (mb_setSize b n)"
| ordered: "mb_reach t b \<Longrightarrow> mb_reach t (mb_setOrdering b order)"
| randomized: "mb_reach t b \<Longrightarrow> mb_reach t (mb_setRandomization b r)"
| ranked: "mb_reach t b \<Longrightarrow> mb_reach t (mb_setPriority b rank)"
| described: "mb_reach t b \<Longrightarrow> mb_reach t (mb_setDescription b name)"
| connected: "\<lbrakk>mb_reach t b; mb_setConsumer b c = Some b'\<rbrakk> \<Longrightarrow> mb_reach t b'"
| asked: "\<lbrakk>mb_reach t b; getTime eq = t\<rbrakk> \<Longrightarrow> mb_reach t (snd (mb_areNSlotsAvailable eq b n))"
| measured: "\<lbrakk>mb_reach t b; getTime eq = t\<rbrakk> \<Longrightarrow> mb_reach t (snd (mb_getSize eq b))"
| enqueued: "\<lbrakk>mb_reach t b; getTime (w_eq w) = t; mb_enqueue env rnd w b message delta = Some (w', b')\<rbrakk> \<Longrightarrow> mb_reach t b'"
| popped: "\<lbrakk>mb_reach t b; getTime (w_eq w) = t; mb_pop w b = Some b'\<rbrakk> \<Longrightarrow> mb_reach t b'"
| recycled: "\<lbrakk>mb_reach t b; getTime (w_eq w) = t; mb_recycle env w b = Some (w', b')\<rbrakk> \<Longrightarrow> mb_reach t b'"
| cleared: "\<lbrakk>mb_reach t b; mb_clear b = Some b'\<rbrakk> \<Longrightarrow> mb_reach t b'"
| stats_cleared: "\<lbrakk>mb_reach t b; mb_clearStats b = Some b'\<rbrakk> \<Longrightarrow> mb_reach t b'"

definition mb_slots :: "Time \<Rightarrow> MessageBuffer \<Rightarrow> bool" where
  "mb_slots t b \<longleftrightarrow> 0 \<le> t \<and> 0 \<le> mb_msgs_this_cycle b \<and> mb_time_last_time_pop b \<le> t \<and> mb_time_last_time_enqueue b \<le> t \<and>
     (mb_time_last_time_pop b = t \<longrightarrow> mb_size b \<le> mb_size_at_cycle_start b +
        (if mb_time_last_time_enqueue b = t then mb_msgs_this_cycle b else 0))"

lemma mb_slots_enqueue:
  assumes "mb_slots t b" "getTime (w_eq w) = t" "mb_enqueue env rnd w b message delta = Some (w', b')"
  shows "mb_slots t b'"
proof -
  obtain hist arr h where "b' = enqueued t b hist arr h"
    by (rule mb_enqueue_SomeE [OF assms(3)]) (use assms(2) in blast)
  then show ?thesis using assms(1) by (auto simp: mb_slots_def enqueued_def)
qed

lemma mb_slots_pop:
  assumes "mb_slots t b" "getTime (w_eq w) = t" "mb_pop w b = Some b'"
  shows "mb_slots t b'"
proof -
  obtain h where "b' = popped t b h"
    using assms(2,3) by (auto simp: mb_pop_eq split: if_splits prod.splits elim!: bind_eq_SomeE)
  then show ?thesis using assms(1) by (auto simp: mb_slots_def popped_def)
qed

lemma mb_reach_slots: "mb_reach t b \<Longrightarrow> mb_slots t b"
proof (induction rule: mb_reach.induct)
  case (created b t)
  then show ?case by (auto simp: MessageBuffer_new_def mb_slots_def elim!: bind_eq_SomeE)
next
  case (recycled t b w env w' b')
  then obtain h where "b' = b\<lparr>mb_prio_heap := h\<rparr>"
    by (auto simp: mb_recycle_def Let_def split: if_splits elim!: bind_eq_SomeE)
  then show ?case using recycled by (auto simp: mb_slots_def)
next
  case (cleared t b b')
  then show ?case by (auto simp: mb_clear_def mb_slots_def split: if_splits elim!: bind_eq_SomeE)
next
  case (stats_cleared t b b')
  then show ?case by (auto simp: mb_clearStats_def mb_slots_def elim!: bind_eq_SomeE)
next
  case (connected t b c b')
  then show ?case by (auto simp: mb_setConsumer_def mb_slots_def split: if_splits)
next
  case (enqueued t b w env rnd message delta w' b')
  show ?case by (rule mb_slots_enqueue [OF enqueued.IH enqueued.hyps(2,3)])
next
  case (popped t b w b')
  show ?case by (rule mb_slots_pop [OF popped.IH popped.hyps(2,3)])
next
  case (time_passes t b t')
  then show ?case by (auto simp: mb_slots_def)
qed (auto simp: mb_slots_def mb_setSize_def mb_setOrdering_def mb_setRandomization_def
       mb_setPriority_def mb_setDescription_def mb_areNSlotsAvailable_def mb_getSize_def)

lemma mb_slots_bound: "mb_slots (getTime eq) b \<Longrightarrow> mb_size b \<le> mb_current_size eq b"
  by (auto simp: mb_slots_def mb_current_size_def split: if_splits)

subsection \<open>Emptying and recycling\<close>

lemma mb_clear_empties:
  assumes i: "mb_inv b"
  shows "\<exists>b'. mb_clear b = Some b' \<and> mb_inv b' \<and> mb_isEmpty b' \<and> mb_size b' = 0 \<and> mb_msg_counter b' = 0"
proof -
  from mbq.drain_sorts [OF mb_invD(1,2) [OF i]] obtain xs h where
    h: "ph_drain message_node_le (mb_prio_heap b) = Some (xs, h)" "heap_ok node_key h" "h_size h = 0" by blast
  then have "ph_elems h = {#}" using size_ph_elems [OF h(2)] by simp
  then show ?thesis using h i by (auto simp: mb_clear_def mb_inv_def mb_isEmpty_def pairwise_cmp_def)
qed

lemma mb_recycle_correct:
  assumes i: "mb_inv b" and e: "eq_inv (w_eq w)" and c: "mb_consumer_ptr b = Some c" and lat: "0 < RECYCLE_LATENCY env"
  shows "if mb_isReady (w_eq w) b = Some True
    then \<exists>n M w' b'. mb_recycle env w b = Some (w', b') \<and> mb_inv b' \<and> eq_inv (w_eq w') \<and> queued b = add_mset n M \<and>
      queued b' = add_mset (n\<lparr>bn_time := getTime (w_eq w) + RECYCLE_LATENCY env\<rparr>) M \<and> mb_size b' = mb_size b \<and>
      event c (getTime (w_eq w) + RECYCLE_LATENCY env) \<in># pending (w_eq w') \<and>
      (\<forall>m \<in># queued b. node_key n \<le> node_key m)
    else mb_recycle env w b = None"
proof (cases rule: mb_isReady_cases [OF i, of "w_eq w"])
  case 1
  then show ?thesis by (simp add: mb_recycle_def)
next
  case (2 n h)
  let ?t = "getTime (w_eq w) + RECYCLE_LATENCY env"
  have cmp: "\<forall>y \<in># ph_elems h. counters_differ n y"
    using mb_invD(2) [OF i] 2(5) by (auto simp: pairwise_cmp_def)
  then have "\<forall>y \<in># ph_elems h. counters_differ (n\<lparr>bn_time := ?t\<rparr>) y" by (simp add: counters_differ_def)
  then obtain h' where h': "ph_insert message_node_le MessageBufferNode_default h (n\<lparr>bn_time := ?t\<rparr>) = Some h'"
    "heap_ok node_key h'" "ph_elems h' = add_mset (n\<lparr>bn_time := ?t\<rparr>) (ph_elems h)"
    by (rule mbq.ins_cases [OF 2(4)])
  obtain eq where eq: "scheduleEventAbsolute (w_eq w) (Some c) ?t = Some eq" "eq_inv eq" "event c ?t \<in># pending eq"
    by (rule scheduleEventAbsolute_correct [OF e, of ?t c]) (use lat in \<open>simp_all add: getTime_def\<close>)
  have "pairwise_cmp counters_differ (ph_elems h')"
    unfolding h'(3) using 2(8) cmp by (intro pairwise_cmp_add) (auto simp: counters_differ_def)
  then have "mb_inv (b\<lparr>mb_prio_heap := h'\<rparr>)" using i h' 2(5) by (auto simp: mb_inv_def)
  moreover have "mb_recycle env w b = Some (w\<lparr>w_eq := eq\<rparr>, b\<lparr>mb_prio_heap := h'\<rparr>)"
    using 2 h'(1) eq(1) c by (simp add: mb_recycle_def Let_def)
  ultimately show ?thesis using 2 h'(3) eq
    by (simp only: if_True simp_thms)
      (intro exI [of _ n] exI [of _ "ph_elems h"] exI [of _ "w\<lparr>w_eq := eq\<rparr>"] exI [of _ "b\<lparr>mb_prio_heap := h'\<rparr>"], simp)
qed

lemma setAndReturnDelayCycles_w_eq: "setAndReturnDelayCycles w message = Some (d, w') \<Longrightarrow> w_eq w' = w_eq w"
  by (auto simp: setAndReturnDelayCycles_def Let_def split: if_splits elim!: bind_eq_SomeE)

subsection \<open>Properties\<close>

text \<open>
  C3. A strictly ordered \<^verbatim>\<open>MessageBuffer\<close> is a FIFO: for every sequence of \<^verbatim>\<open>enqueue\<close> and
  \<^verbatim>\<open>dequeue\<close> calls that does not abort, at any times, with any delays and with randomised latencies or not,
  the messages dequeued followed by those still queued are the messages enqueued, in that order.
\<close>
theorem message_buffer_fifo:
  assumes "MessageBuffer_new = Some b" "mb_setConsumer (mb_setOrdering b True) (Some c) = Some b0"
    and "chan_run call_enqueue mb_dequeue ops b0 = Some (out, b')"
  shows "\<exists>rest. out @ rest = map call_message (enq_args ops) \<and> mb_holds b' rest \<and>
    int (length rest) = mb_size b'"
proof -
  have "mb_holds (mb_setOrdering b True) []" using mb_holds_new unfolding assms(1) by simp
  then have "mb_holds b0 []"
    using assms(2) by (auto simp: mb_setConsumer_def mb_holds_def mb_inv_def fifo_nodes_def split: if_splits)
  from mbc.run_in_order [OF this assms(3)] obtain rest where
    r: "out @ rest = map call_message (enq_args ops)" "mb_holds b' rest" by auto
  then obtain l where "mset l = queued b'" "map bn_msgptr l = rest" "mb_inv b'"
    by (auto simp: mb_holds_def fifo_nodes_def)
  then have "int (length rest) = mb_size b'" using mb_invD(3) by (metis length_map size_mset)
  with r show ?thesis by blast
qed

definition example_world :: "Time \<Rightarrow> world" where
  "example_world t = \<lparr>w_eq = EventQueue_new\<lparr>m_globalTime := t\<rparr>,
     w_msgs = (\<lambda>p. Some \<lparr>msg_time = 1, m_LastEnqueueTime = 1, m_DelayedCycles = 0\<rparr>)\<rparr>"

definition example_env :: mb_env where
  "example_env = \<lparr>RANDOMIZATION = False, RECYCLE_LATENCY = 3, libm_log2 = (\<lambda>_. 0)\<rparr>"

definition example_buffer :: "MessageBuffer option" where
  "example_buffer = Option.bind MessageBuffer_new (\<lambda>b. mb_setConsumer (mb_setOrdering b True) (Some 0))"

definition example_ops :: "(enq_call, world) chan_op list" where
  "example_ops = [Enq (example_env, \<lambda>_. 0, example_world 1, Some 5, 2),
     Enq (example_env, \<lambda>_. 0, example_world 1, Some 6, 2), Deq (example_world 4)]"

lemma example_run:
  "(case Option.bind example_buffer (chan_run call_enqueue mb_dequeue example_ops) of
      Some (out, _) \<Rightarrow> out = [Some 5] | None \<Rightarrow> False)"
  by code_simp

theorem message_buffer_fifo_witness:
  "\<exists>b b0 b' rest. MessageBuffer_new = Some b \<and> mb_setConsumer (mb_setOrdering b True) (Some 0) = Some b0 \<and>
     chan_run call_enqueue mb_dequeue example_ops b0 = Some ([Some 5], b') \<and> rest = [Some 6] \<and> mb_holds b' rest"
proof -
  obtain b b0 b' where b: "MessageBuffer_new = Some b" "mb_setConsumer (mb_setOrdering b True) (Some 0) = Some b0"
    and r: "chan_run call_enqueue mb_dequeue example_ops b0 = Some ([Some 5], b')"
    using example_run unfolding example_buffer_def by (auto split: option.splits elim!: bind_eq_SomeE)
  from message_buffer_fifo [OF b r] show ?thesis using b r by (auto simp: example_ops_def call_message_def)
qed

text \<open>
  C31. \<^verbatim>\<open>MessageBuffer::enqueue\<close> returns exactly when its checks hold: the ordering has been
  set, the delay is positive, the message exists and was not enqueued for a later time, a consumer is
  connected, and the arrival time is in the future and, in a FIFO, not before the last arrival.  Then
  the message is queued for its arrival time, a wakeup of the consumer is pending for that time, no event is
  lost, and the invariants of buffer and event queue hold.  In every other case it aborts.
\<close>
theorem message_buffer_enqueue:
  assumes "mb_inv b" "eq_inv (w_eq w)" "now = getTime (w_eq w)" "arr = arrival_time_of env rnd now b delta"
  shows "if mb_ordering_set b \<and> 0 < delta \<and> mb_consumer_ptr b \<noteq> None \<and>
      (\<exists>p m. message = Some p \<and> w_msgs w p = Some m \<and> m_LastEnqueueTime m \<le> now) \<and>
      now < arr \<and> (mb_strict_fifo b \<longrightarrow> last_arrival_of env now b \<le> arr)
    then \<exists>w' b' p c. mb_enqueue env rnd w b message delta = Some (w', b') \<and> message = Some p \<and>
      mb_consumer_ptr b = Some c \<and> mb_inv b' \<and> eq_inv (w_eq w') \<and> queued b' = add_mset (new_node arr b p) (queued b) \<and>
      event c arr \<in># pending (w_eq w') \<and> pending (w_eq w) \<subseteq># pending (w_eq w')
    else mb_enqueue env rnd w b message delta = None"
    (is "if ?ok then _ else _")
proof (cases ?ok)
  case True
  then obtain p m c where "message = Some p" "w_msgs w p = Some m" "m_LastEnqueueTime m \<le> now"
    "mb_consumer_ptr b = Some c" by blast
  moreover from this obtain w' b' where "mb_enqueue env rnd w b (Some p) delta = Some (w', b')" "mb_inv b'"
    "eq_inv (w_eq w')" "queued b' = add_mset (new_node arr b p) (queued b)" "event c arr \<in># pending (w_eq w')"
    "pending (w_eq w) \<subseteq># pending (w_eq w')"
    using True by (auto intro: mb_enqueue_succeeds [OF assms(1,2), of c delta p m arr env rnd] simp: assms(3,4))
  ultimately show ?thesis using True by auto
next
  case False
  have "mb_enqueue env rnd w b message delta = None"
  proof (rule ccontr)
    assume "mb_enqueue env rnd w b message delta \<noteq> None"
    then obtain w' b' where "mb_enqueue env rnd w b message delta = Some (w', b')" by auto
    then show False by (rule mb_enqueue_SomeE) (use False in \<open>auto simp: assms(3,4)\<close>)
  qed
  then show ?thesis using False by simp
qed

theorem message_buffer_enqueue_witness:
  "\<exists>b w' b'. example_buffer = Some b \<and> mb_enqueue example_env (\<lambda>_. 0) (example_world 1) b (Some 5) 2 = Some (w', b') \<and>
     event 0 3 \<in># pending (w_eq w')"
proof -
  obtain b where b: "MessageBuffer_new = Some b" "mb_inv b" "mb_strict_fifo b" "mb_consumer_ptr b = None"
    "mb_last_arrival_time b = 0" using MessageBuffer_new_inv by blast
  let ?b = "mb_setOrdering b True\<lparr>mb_consumer_ptr := Some 0\<rparr>"
  have ex: "example_buffer = Some ?b" unfolding example_buffer_def b(1)
    using b(4) by (simp add: mb_setConsumer_def mb_setOrdering_def)
  have i: "mb_inv ?b" using b(2) by (simp add: mb_inv_def mb_setOrdering_def)
  have w: "eq_inv (w_eq (example_world 1))" "getTime (w_eq (example_world 1)) = 1"
    using eq_inv_new by (simp_all add: example_world_def getTime_def EventQueue_new_def)
  have arr: "arrival_time_of example_env (\<lambda>_. 0) 1 ?b 2 = 3"
    by (simp add: arrival_time_of_def mb_arrival_def example_env_def)
  have "\<exists>w' b'. mb_enqueue example_env (\<lambda>_. 0) (example_world 1) ?b (Some 5) 2 = Some (w', b') \<and> event 0 3 \<in># pending (w_eq w')"
    using message_buffer_enqueue [OF i w(1) w(2) [symmetric] arr [symmetric], of "Some 5"] b
    by (auto simp: mb_setOrdering_def last_arrival_of_def example_world_def example_env_def)
  then show ?thesis unfolding ex by blast
qed

text \<open>
  With randomised latencies a FIFO never reports a violated order: for every outcome of the random
  source the arrival time is 1 to 118 cycles after both the current time and the last arrival time.
\<close>
theorem message_buffer_random_arrival:
  assumes "\<forall>i. 0 \<le> rnd i" "RANDOMIZATION env" "mb_randomization b" "mb_strict_fifo b"
  shows "last_arrival_of env now b = max (mb_last_arrival_time b) now \<and>
    last_arrival_of env now b + 1 \<le> arrival_time_of env rnd now b delta \<and>
    arrival_time_of env rnd now b delta \<le> last_arrival_of env now b + 118"
  using assms random_time_range(1,2) [OF assms(1)]
  by (auto simp: arrival_time_of_def mb_arrival_def last_arrival_of_def)

theorem message_buffer_random_arrival_witness:
  "\<exists>b. MessageBuffer_new = Some b \<and>
     arrival_time_of (example_env\<lparr>RANDOMIZATION := True\<rparr>) (\<lambda>_. 0) 7 b 1 \<le> 7 + 118"
proof -
  obtain b where b: "MessageBuffer_new = Some b" "mb_strict_fifo b" "mb_last_arrival_time b = 0"
    using MessageBuffer_new_inv by blast
  then have "mb_randomization b" by (auto simp: MessageBuffer_new_def elim!: bind_eq_SomeE)
  with b message_buffer_random_arrival [of "\<lambda>_. 0" "example_env\<lparr>RANDOMIZATION := True\<rparr>" b 7 1]
  show ?thesis by (intro exI [of _ b]) simp
qed

text \<open>
  C32. \<^verbatim>\<open>areNSlotsAvailable\<close> never over-promises: in every state a buffer can reach, through any sequence of its
  operations at non-decreasing times, a positive answer for \<open>n\<close> slots means that \<open>n\<close> more messages fit
  below the maximal size (unless the buffer is unbounded).
\<close>
theorem message_buffer_slots_sound:
  assumes "mb_reach (getTime eq) b" "fst (mb_areNSlotsAvailable eq b n)"
  shows "mb_max_size b = -1 \<or> mb_size b + n \<le> mb_max_size b"
  using assms(2) mb_slots_bound [OF mb_reach_slots [OF assms(1)]]
  by (auto simp: mb_areNSlotsAvailable_def split: if_splits)

theorem message_buffer_slots_sound_witness:
  "\<exists>b. MessageBuffer_new = Some b \<and> fst (mb_areNSlotsAvailable EventQueue_new (mb_setSize b 4) 3) \<and>
     mb_size (mb_setSize b 4) + 3 \<le> mb_max_size (mb_setSize b 4)"
proof -
  obtain b where b: "MessageBuffer_new = Some b" "mb_size b = 0" "mb_time_last_time_pop b = 0"
    using MessageBuffer_new_inv by blast
  have t: "getTime EventQueue_new = 1" by (simp add: getTime_def EventQueue_new_def)
  have r: "mb_reach (getTime EventQueue_new) (mb_setSize b 4)"
    unfolding t by (rule resized, rule created [OF b(1)]) simp
  have a: "fst (mb_areNSlotsAvailable EventQueue_new (mb_setSize b 4) 3)"
    using b by (simp add: mb_areNSlotsAvailable_def mb_current_size_def mb_setSize_def t)
  from message_buffer_slots_sound [OF r a] show ?thesis using a b by (auto simp: mb_setSize_def)
qed

text \<open>
  \<^verbatim>\<open>areNSlotsAvailable\<close> counts a message twice that was enqueued earlier in the cycle of the first
  \<^verbatim>\<open>pop\<close>: \<^verbatim>\<open>m_size_at_cycle_start\<close> is taken at that pop and already contains it, and
  \<^verbatim>\<open>m_msgs_this_cycle\<close> is added again.  In a buffer of two slots that held one message, after one enqueue and one
  pop in cycle 5, one message is queued, yet the visible size is three, more than the buffer can hold.
\<close>
theorem message_buffer_slots_double_count:
  "(case Option.bind example_buffer (\<lambda>b.
      Option.bind (mb_enqueue example_env (\<lambda>_. 0) (example_world 1) (mb_setSize b 2) (Some 5) 2) (\<lambda>(w, b).
      Option.bind (mb_enqueue example_env (\<lambda>_. 0) (example_world 5) b (Some 6) 2) (\<lambda>(w, b).
      mb_pop (example_world 5) b))) of
      Some b \<Rightarrow> mb_size b = 1 \<and> mb_max_size b = 2 \<and> mb_current_size (w_eq (example_world 5)) b = 3 \<and>
        \<not> fst (mb_areNSlotsAvailable (w_eq (example_world 5)) b 0)
    | None \<Rightarrow> False)"
  by code_simp

text \<open>
  \<^verbatim>\<open>clearStats\<close> resets \<^verbatim>\<open>m_msg_counter\<close>, which \<^verbatim>\<open>enqueue\<close> also uses to order
  messages of equal arrival time: two messages for the same cycle are accepted, but with
  \<^verbatim>\<open>clearStats\<close> between them the second \<^verbatim>\<open>enqueue\<close> aborts on the assertion that counters differ.
\<close>
theorem message_buffer_clearStats_aborts:
  "Option.bind example_buffer (\<lambda>b. Option.bind (mb_enqueue example_env (\<lambda>_. 0) (example_world 1) b (Some 5) 2)
      (\<lambda>(w, b). mb_enqueue example_env (\<lambda>_. 0) (example_world 1) b (Some 6) 2)) \<noteq> None \<and>
   Option.bind example_buffer (\<lambda>b. Option.bind (mb_enqueue example_env (\<lambda>_. 0) (example_world 1) b (Some 5) 2)
      (\<lambda>(w, b). Option.bind (mb_clearStats b)
      (\<lambda>b. mb_enqueue example_env (\<lambda>_. 0) (example_world 1) b (Some 6) 2))) = None"
  by code_simp

text \<open>
  The delay a message accumulates: enqueued into an empty buffer at time \<open>now\<close> with arrival time \<open>arr\<close>, it
  cannot be dequeued before \<open>arr\<close> (\<^verbatim>\<open>dequeue_getDelayCycles\<close> aborts), and dequeued at \<open>t2\<close> the
  reported delay is what it had, plus the cycles between its previous arrival and \<open>now\<close>, plus \<open>t2 - arr\<close>; the
  buffer is then empty.
\<close>
theorem message_buffer_delay:
  assumes "mb_inv b" "queued b = {#}" "mb_enqueue env rnd w b (Some p) delta = Some (w', b')"
    and "w_msgs w p = Some m" "0 \<le> m_DelayedCycles m" "w_msgs w2 = w_msgs w'"
    and "arr = arrival_time_of env rnd (getTime (w_eq w)) b delta"
  shows "if getTime (w_eq w2) < arr then mb_dequeue_getDelayCycles w2 b' = None
    else \<exists>w3 b3. mb_dequeue_getDelayCycles w2 b' =
        Some (m_DelayedCycles m + (getTime (w_eq w) - m_LastEnqueueTime m) + (getTime (w_eq w2) - arr), w3, b3) \<and>
      mb_isEmpty b3 \<and> mb_inv b3 \<and> mb_size b3 = 0"
proof -
  obtain hist m' h where q: "hist_add (libm_log2 env) (mb_buffer_size b) (mb_size b + 1) = Some hist"
    "w_msgs w p = Some m'" "m_LastEnqueueTime m' \<le> getTime (w_eq w)"
    "ph_insert message_node_le MessageBufferNode_default (mb_prio_heap b) (new_node arr b p) = Some h"
    "b' = enqueued (getTime (w_eq w)) b hist arr h"
    "w_msgs w' = (w_msgs w)(p \<mapsto> m'\<lparr>m_DelayedCycles := getTime (w_eq w) - m_LastEnqueueTime m' + m_DelayedCycles m',
       m_LastEnqueueTime := arr\<rparr>)"
    by (rule mb_enqueue_SomeE [OF assms(3)]) (use assms(7) in auto)
  have hh: "heap_ok node_key h" "ph_elems h = add_mset (new_node arr b p) (queued b)"
    by (rule mb_insert_new [OF assms(1), of arr p], use q(4) in simp)+
  have i': "mb_inv b'" unfolding q(5) by (rule mb_inv_enqueued [OF assms(1) hh q(1)])
  have one: "queued b' = {#new_node arr b p#}" using hh(2) assms(2) by (simp add: q(5) enqueued_def)
  show ?thesis
  proof (cases rule: mb_isReady_cases [OF i', of "w_eq w2"])
    case 1
    then have "mb_dequeue_getDelayCycles w2 b' = None"
      by (auto simp: mb_dequeue_getDelayCycles_def mb_pop_eq split: bind_split dest: setAndReturnDelayCycles_w_eq)
    then show ?thesis using 1(2) one by simp
  next
    case (2 n h2)
    have n: "n = new_node arr b p" "ph_elems h2 = {#}" using 2(5) one by auto
    have i3: "mb_inv (popped (getTime (w_eq w2)) b' h2)" by (rule mb_inv_popped [OF i' 2(4,5)])
    then have "h_size h2 = 0" "mb_size (popped (getTime (w_eq w2)) b' h2) = 0"
      using n(2) mb_invD(3) size_ph_elems [OF 2(4)] by (auto simp: popped_def)
    then show ?thesis using 2 i3 n(1) q(2,3,6) assms(4-6)
      by (simp add: mb_dequeue_getDelayCycles_def setAndReturnDelayCycles_def mb_pop_eq
          mb_isEmpty_def popped_def Let_def)
  qed
qed

theorem message_buffer_delay_witness:
  "\<exists>b w' b' w3 b3. example_buffer = Some b \<and>
     mb_enqueue example_env (\<lambda>_. 0) (example_world 2) b (Some 5) 2 = Some (w', b') \<and>
     mb_dequeue_getDelayCycles (w'\<lparr>w_eq := w_eq (example_world 9)\<rparr>) b' = Some (6, w3, b3) \<and> mb_isEmpty b3"
proof -
  obtain b where b: "MessageBuffer_new = Some b" "mb_inv b" "mb_strict_fifo b" "mb_consumer_ptr b = None"
    "mb_last_arrival_time b = 0" "queued b = {#}" using MessageBuffer_new_inv by blast
  let ?b = "mb_setOrdering b True\<lparr>mb_consumer_ptr := Some 0\<rparr>"
  have ex: "example_buffer = Some ?b" unfolding example_buffer_def b(1)
    using b(4) by (simp add: mb_setConsumer_def mb_setOrdering_def)
  have i: "mb_inv ?b" "queued ?b = {#}" using b(2,6) by (simp_all add: mb_inv_def mb_setOrdering_def)
  have w: "eq_inv (w_eq (example_world 2))" "getTime (w_eq (example_world 2)) = 2"
    using eq_inv_new by (simp_all add: example_world_def getTime_def EventQueue_new_def eq_inv_def Consumer_new_def)
  have arr: "arrival_time_of example_env (\<lambda>_. 0) (getTime (w_eq (example_world 2))) ?b 2 = 4"
    by (simp add: arrival_time_of_def mb_arrival_def example_env_def w(2))
  obtain w' b' where e: "mb_enqueue example_env (\<lambda>_. 0) (example_world 2) ?b (Some 5) 2 = Some (w', b')"
    by (rule mb_enqueue_succeeds [OF i(1) w(1), of 0 2 5 _ 4 example_env "\<lambda>_. 0"])
      (use arr w b in \<open>auto simp: mb_setOrdering_def example_world_def last_arrival_of_def example_env_def\<close>)
  have m: "w_msgs (example_world 2) 5 = Some \<lparr>msg_time = 1, m_LastEnqueueTime = 1, m_DelayedCycles = 0\<rparr>"
    by (simp add: example_world_def)
  from message_buffer_delay [OF i e m _ _ arr [symmetric], of "w'\<lparr>w_eq := w_eq (example_world 9)\<rparr>"]
  show ?thesis using ex e w(2) by (auto simp: getTime_def example_world_def)
qed

end
