(* ===== verification/Config_Model.thy ===== *)
theory Config_Model
  imports Ruby_Prelude
begin

text \<open>
  The configuration of Ruby: the helpers \<^verbatim>\<open>log_int\<close>, \<^verbatim>\<open>is_power_of_2\<close> and
  \<^verbatim>\<open>string_split\<close> of \<^verbatim>\<open>common/util.C\<close>, and \<^verbatim>\<open>RubyConfig::init\<close> of
  \<^verbatim>\<open>config/RubyConfig.C\<close>, which checks the parameters and computes the derived ones.  The global
  variables are the fields of a record; \<^verbatim>\<open>Protocol::m_CMP\<close>, a constant of the generated protocol, is an argument.
  The theory shows what a configuration that passed \<^verbatim>\<open>init\<close> guarantees: the facts on which
  address mapping and the memory modules rely.
\<close>

function log_loop :: "int \<Rightarrow> int \<Rightarrow> int" where
  "log_loop n counter = (if n \<ge> 2 then log_loop (drop_bit 1 n) (counter + 1) else counter)"
  by pat_completeness auto
termination
  by (relation "measure (\<lambda>(n, c). nat n)") (auto simp: drop_bit_eq_div)

declare log_loop.simps [simp del]

definition log_int :: "int \<Rightarrow> int option" where
  "log_int n = do { assert_that (n > 0); Some (log_loop n 0) }"

definition is_power_of_2 :: "int \<Rightarrow> bool option" where
  "is_power_of_2 n = do { k \<leftarrow> log_int n; Some (n = push_bit (nat k) 1) }"

fun split_head :: "string \<Rightarrow> char \<Rightarrow> string \<times> string" where
  "split_head [] c = ([], [])"
| "split_head (x # xs) c =
     (if x = c then ([], xs) else let (head, tail) = split_head xs c in (x # head, tail))"

definition string_split :: "string \<Rightarrow> char \<Rightarrow> string \<times> string" where
  "string_split str split_character = split_head str split_character"

definition bool_to_string :: "bool \<Rightarrow> string" where
  "bool_to_string b = (if b then ''true'' else ''false'')"

record RubyConfig =
  MEM_BUS_CYCLE_MULTIPLIER :: int
  BANKS_PER_RANK :: int
  RANKS_PER_DIMM :: int
  DIMMS_PER_CHANNEL :: int
  BANK_QUEUE_SIZE :: int
  BANK_BUSY_TIME :: int
  MEM_CTL_LATENCY :: int
  REFRESH_PERIOD :: int
  BASIC_BUS_BUSY_TIME :: int
  g_MEMORY_SIZE_BYTES :: int
  g_DATA_BLOCK_BYTES :: int
  g_PAGE_SIZE_BYTES :: int
  g_NUM_PROCESSORS :: int
  g_PROCS_PER_CHIP :: int
  g_NUM_SMT_THREADS :: int
  g_NUM_L2_BANKS :: int
  g_NUM_MEMORIES :: int
  g_NUM_CHIPS :: int
  g_MEMORY_SIZE_BITS :: int
  g_DATA_BLOCK_BITS :: int
  g_PAGE_SIZE_BITS :: int
  g_NUM_PROCESSORS_BITS :: int
  g_NUM_CHIP_BITS :: int
  g_NUM_L2_BANKS_BITS :: int
  g_NUM_MEMORIES_BITS :: int
  g_PROCS_PER_CHIP_BITS :: int
  g_NUM_L2_BANKS_PER_CHIP :: int
  g_NUM_L2_BANKS_PER_CHIP_BITS :: int
  g_MEMORY_MODULE_BLOCKS :: int
  g_MEMORY_MODULE_BITS :: int
  g_NUM_MEMORIES_PER_CHIP :: int
  L2_CACHE_NUM_SETS_BITS :: int
  L2_DIRECTORY_NUM_SETS_BITS :: int
  MAP_L2BANKS_TO_LOWEST_BITS :: bool

definition CHECK_POWER_OF_2 :: "int \<Rightarrow> unit option" where
  "CHECK_POWER_OF_2 n = do { b \<leftarrow> is_power_of_2 n; assert_that b }"

definition CHECK_ZERO :: "int \<Rightarrow> unit option" where
  "CHECK_ZERO n = assert_that (n = 0)"

definition CHECK_NON_ZERO :: "int \<Rightarrow> unit option" where
  "CHECK_NON_ZERO n = assert_that (n \<noteq> 0)"

fun check_all :: "('a \<Rightarrow> unit option) \<Rightarrow> 'a list \<Rightarrow> unit option" where
  "check_all chk [] = Some ()"
| "check_all chk (x # xs) = do { chk x; check_all chk xs }"

text \<open>The checks of the memory controller and the basic parameters, and the two defaults.\<close>

definition config_check_params :: "RubyConfig \<Rightarrow> RubyConfig option" where
  "config_check_params c = do {
     check_all CHECK_NON_ZERO [MEM_BUS_CYCLE_MULTIPLIER c, BANKS_PER_RANK c, RANKS_PER_DIMM c, DIMMS_PER_CHANNEL c,
       BANK_QUEUE_SIZE c, BANK_BUSY_TIME c, MEM_CTL_LATENCY c, REFRESH_PERIOD c, BASIC_BUS_BUSY_TIME c];
     check_all CHECK_POWER_OF_2 [BANKS_PER_RANK c, RANKS_PER_DIMM c, DIMMS_PER_CHANNEL c];
     check_all CHECK_NON_ZERO [g_MEMORY_SIZE_BYTES c, g_DATA_BLOCK_BYTES c, g_PAGE_SIZE_BYTES c,
       g_NUM_PROCESSORS c, g_PROCS_PER_CHIP c];
     let c = (if g_NUM_SMT_THREADS c = 0 then c\<lparr>g_NUM_SMT_THREADS := 1\<rparr> else c);
     let c = (if g_NUM_L2_BANKS c = 0 then c\<lparr>g_NUM_L2_BANKS := g_NUM_PROCESSORS c\<rparr> else c);
     Some c
   }"

text \<open>Derived parameters must not be set, sizes must be powers of two.\<close>

definition config_check_derived :: "RubyConfig \<Rightarrow> unit option" where
  "config_check_derived c = do {
     check_all CHECK_ZERO [g_MEMORY_SIZE_BITS c, g_DATA_BLOCK_BITS c, g_PAGE_SIZE_BITS c, g_NUM_PROCESSORS_BITS c,
       g_NUM_CHIP_BITS c, g_NUM_L2_BANKS_BITS c, g_NUM_MEMORIES_BITS c, g_PROCS_PER_CHIP_BITS c,
       g_NUM_L2_BANKS_PER_CHIP c, g_NUM_L2_BANKS_PER_CHIP_BITS c, g_NUM_MEMORIES_BITS c,
       g_MEMORY_MODULE_BLOCKS c, g_MEMORY_MODULE_BITS c];
     (if g_NUM_MEMORIES c \<noteq> 0 then CHECK_ZERO (g_NUM_MEMORIES_PER_CHIP c) else Some ());
     check_all CHECK_POWER_OF_2 [g_MEMORY_SIZE_BYTES c, g_DATA_BLOCK_BYTES c, g_NUM_PROCESSORS c, g_NUM_L2_BANKS c];
     (if g_NUM_MEMORIES c \<noteq> 0 then CHECK_POWER_OF_2 (g_NUM_MEMORIES c) else Some ());
     CHECK_POWER_OF_2 (g_PROCS_PER_CHIP c)
   }"

definition config_chips :: "RubyConfig \<Rightarrow> RubyConfig option" where
  "config_chips c = do {
     assert_that (g_NUM_PROCESSORS c \<ge> g_PROCS_PER_CHIP c);
     let c = c\<lparr>g_NUM_CHIPS := g_NUM_PROCESSORS c div g_PROCS_PER_CHIP c\<rparr>;
     assert_that (g_NUM_L2_BANKS c \<ge> g_NUM_CHIPS c);
     let c = c\<lparr>g_NUM_L2_BANKS_PER_CHIP := g_NUM_L2_BANKS c div g_NUM_CHIPS c\<rparr>;
     bank_bits \<leftarrow> log_int (g_NUM_L2_BANKS_PER_CHIP c);
     assert_that (L2_CACHE_NUM_SETS_BITS c > bank_bits);
     let c = c\<lparr>L2_CACHE_NUM_SETS_BITS := L2_CACHE_NUM_SETS_BITS c - bank_bits\<rparr>;
     assert_that (L2_DIRECTORY_NUM_SETS_BITS c > bank_bits);
     let c = c\<lparr>L2_DIRECTORY_NUM_SETS_BITS := L2_DIRECTORY_NUM_SETS_BITS c - bank_bits\<rparr>;
     Some (c\<lparr>g_NUM_MEMORIES_PER_CHIP :=
       (if g_NUM_MEMORIES c \<noteq> 0 \<and> g_NUM_CHIPS c > g_NUM_MEMORIES c then 1
        else g_NUM_MEMORIES c div g_NUM_CHIPS c)\<rparr>)
   }"

definition config_bits :: "RubyConfig \<Rightarrow> RubyConfig option" where
  "config_bits c = do {
     chip_bits \<leftarrow> log_int (g_NUM_CHIPS c);
     memory_size_bits \<leftarrow> log_int (g_MEMORY_SIZE_BYTES c);
     data_block_bits \<leftarrow> log_int (g_DATA_BLOCK_BYTES c);
     page_size_bits \<leftarrow> log_int (g_PAGE_SIZE_BYTES c);
     processors_bits \<leftarrow> log_int (g_NUM_PROCESSORS c);
     l2_bits \<leftarrow> log_int (g_NUM_L2_BANKS c);
     l2_chip_bits \<leftarrow> log_int (g_NUM_L2_BANKS_PER_CHIP c);
     memories_bits \<leftarrow> (if g_NUM_MEMORIES c \<noteq> 0 then log_int (g_NUM_MEMORIES c) else Some (g_NUM_MEMORIES_BITS c));
     procs_bits \<leftarrow> log_int (g_PROCS_PER_CHIP c);
     let c = c\<lparr>g_NUM_CHIP_BITS := chip_bits, g_MEMORY_SIZE_BITS := memory_size_bits,
       g_DATA_BLOCK_BITS := data_block_bits, g_PAGE_SIZE_BITS := page_size_bits,
       g_NUM_PROCESSORS_BITS := processors_bits, g_NUM_L2_BANKS_BITS := l2_bits,
       g_NUM_L2_BANKS_PER_CHIP_BITS := l2_chip_bits, g_NUM_MEMORIES_BITS := memories_bits,
       g_PROCS_PER_CHIP_BITS := procs_bits\<rparr>;
     let c = c\<lparr>g_MEMORY_MODULE_BITS := g_MEMORY_SIZE_BITS c - g_DATA_BLOCK_BITS c - g_NUM_MEMORIES_BITS c\<rparr>;
     Some (c\<lparr>g_MEMORY_MODULE_BLOCKS := push_bit (nat (g_MEMORY_MODULE_BITS c)) 1\<rparr>)
   }"

definition config_init :: "bool \<Rightarrow> RubyConfig \<Rightarrow> RubyConfig option" where
  "config_init m_CMP c = do {
     c \<leftarrow> config_check_params c;
     config_check_derived c;
     c \<leftarrow> config_chips c;
     c \<leftarrow> config_bits c;
     assert_that (m_CMP \<or> g_PROCS_PER_CHIP c \<le> 1);
     Some c
   }"

definition L1CacheNumToL2Base :: "RubyConfig \<Rightarrow> int \<Rightarrow> int" where
  "L1CacheNumToL2Base c L1CacheNum = cdiv L1CacheNum (g_PROCS_PER_CHIP c)"

subsection \<open>Logarithms\<close>

lemma log_loop_bounds:
  "0 < n \<Longrightarrow> \<exists>k. log_loop n c = c + int k \<and> 2 ^ k \<le> n \<and> n < 2 ^ Suc k"
proof (induction n c rule: log_loop.induct)
  case (1 n c)
  show ?case
  proof (cases "n \<ge> 2")
    case True
    then have "0 < drop_bit 1 n" by (simp add: drop_bit_eq_div)
    from "1.IH" [OF True this] obtain k where
      k: "log_loop (drop_bit 1 n) (c + 1) = c + 1 + int k" "2 ^ k \<le> n div 2" "n div 2 < 2 ^ Suc k"
      by (auto simp: drop_bit_eq_div)
    have "log_loop n c = c + int (Suc k)" using k(1) True by (subst log_loop.simps) simp
    moreover have "2 ^ Suc k \<le> n" "n < 2 ^ Suc (Suc k)" using k(2,3) by simp_all
    ultimately show ?thesis by blast
  next
    case False
    then show ?thesis using "1.prems" by (intro exI [of _ 0]) (simp add: log_loop.simps)
  qed
qed

lemma log_int_Some:
  assumes "log_int n = Some k"
  shows "0 < n" "0 \<le> k" "2 ^ nat k \<le> n" "n < 2 ^ Suc (nat k)"
  using assms log_loop_bounds [of n 0] by (auto simp: log_int_def split: if_splits)

lemma log_int_pos: "0 < n \<Longrightarrow> \<exists>k. log_int n = Some k"
  by (simp add: log_int_def)

lemma log_int_power [simp]: "log_int (2 ^ k) = Some (int k)"
proof -
  obtain j where j: "log_int (2 ^ k) = Some j" using log_int_pos [of "2 ^ k"] by auto
  note b = log_int_Some [OF j]
  have "2 ^ nat j \<le> (2 :: int) ^ k" "(2 :: int) ^ k < 2 ^ Suc (nat j)" using b(3,4) by auto
  then have "nat j \<le> k" "k < Suc (nat j)" by (simp_all only: power_increasing_iff power_strict_increasing_iff one_less_numeral_iff semiring_norm)
  then show ?thesis using j b(2) by simp
qed

lemma is_power_of_2_True: "is_power_of_2 n = Some True \<longleftrightarrow> (\<exists>k. n = 2 ^ k)"
proof
  assume "is_power_of_2 n = Some True"
  then show "\<exists>k. n = 2 ^ k" by (auto simp: is_power_of_2_def push_bit_eq_mult elim!: bind_eq_SomeE)
next
  assume "\<exists>k. n = 2 ^ k"
  then show "is_power_of_2 n = Some True" by (auto simp: is_power_of_2_def push_bit_eq_mult)
qed

lemma CHECK_POWER_OF_2_Some: "CHECK_POWER_OF_2 n = Some u \<longleftrightarrow> (\<exists>k. n = 2 ^ k)"
proof -
  have "CHECK_POWER_OF_2 n = Some u \<longleftrightarrow> is_power_of_2 n = Some True"
    by (auto simp: CHECK_POWER_OF_2_def bind_eq_Some_conv split: if_splits)
  then show ?thesis by (simp add: is_power_of_2_True)
qed

lemma check_all_Some: "check_all chk xs = Some u \<longleftrightarrow> (\<forall>x \<in> set xs. chk x = Some ())"
  by (induction xs) (auto simp: bind_eq_Some_conv)

subsection \<open>What a checked configuration guarantees\<close>

definition config_ok :: "RubyConfig \<Rightarrow> bool" where
  "config_ok c \<longleftrightarrow>
     g_DATA_BLOCK_BYTES c = 2 ^ nat (g_DATA_BLOCK_BITS c) \<and> 0 \<le> g_DATA_BLOCK_BITS c \<and>
     g_MEMORY_SIZE_BYTES c = 2 ^ nat (g_MEMORY_SIZE_BITS c) \<and> 0 \<le> g_MEMORY_SIZE_BITS c \<and>
     g_NUM_PROCESSORS c = 2 ^ nat (g_NUM_PROCESSORS_BITS c) \<and> 0 \<le> g_NUM_PROCESSORS_BITS c \<and>
     g_PROCS_PER_CHIP c = 2 ^ nat (g_PROCS_PER_CHIP_BITS c) \<and> 0 \<le> g_PROCS_PER_CHIP_BITS c \<and>
     g_NUM_L2_BANKS c = 2 ^ nat (g_NUM_L2_BANKS_BITS c) \<and> 0 \<le> g_NUM_L2_BANKS_BITS c \<and>
     g_NUM_CHIPS c = 2 ^ nat (g_NUM_CHIP_BITS c) \<and> 0 \<le> g_NUM_CHIP_BITS c \<and>
     g_NUM_L2_BANKS_PER_CHIP c = 2 ^ nat (g_NUM_L2_BANKS_PER_CHIP_BITS c) \<and> 0 \<le> g_NUM_L2_BANKS_PER_CHIP_BITS c \<and>
     (g_NUM_MEMORIES c \<noteq> 0 \<longrightarrow> g_NUM_MEMORIES c = 2 ^ nat (g_NUM_MEMORIES_BITS c)) \<and> 0 \<le> g_NUM_MEMORIES_BITS c \<and>
     g_NUM_CHIPS c * g_PROCS_PER_CHIP c = g_NUM_PROCESSORS c \<and>
     g_NUM_CHIPS c * g_NUM_L2_BANKS_PER_CHIP c = g_NUM_L2_BANKS c \<and>
     0 < L2_CACHE_NUM_SETS_BITS c \<and> 0 < L2_DIRECTORY_NUM_SETS_BITS c \<and>
     g_MEMORY_MODULE_BITS c = g_MEMORY_SIZE_BITS c - g_DATA_BLOCK_BITS c - g_NUM_MEMORIES_BITS c \<and>
     g_MEMORY_MODULE_BLOCKS c = 2 ^ nat (g_MEMORY_MODULE_BITS c)"

lemma power_div_power:
  assumes "(2 :: int) ^ a \<le> 2 ^ b"
  shows "(2 :: int) ^ b div 2 ^ a = 2 ^ (b - a)" "a \<le> b"
proof -
  show "a \<le> b" using assms by (simp only: power_increasing_iff one_less_numeral_iff semiring_norm)
  then show "(2 :: int) ^ b div 2 ^ a = 2 ^ (b - a)" by (simp add: power_diff)
qed

lemma config_check_derived_Some:
  assumes "config_check_derived c = Some u"
  shows "\<exists>k. g_MEMORY_SIZE_BYTES c = 2 ^ k" "\<exists>k. g_DATA_BLOCK_BYTES c = 2 ^ k" "\<exists>k. g_NUM_PROCESSORS c = 2 ^ k"
    "\<exists>k. g_NUM_L2_BANKS c = 2 ^ k" "\<exists>k. g_PROCS_PER_CHIP c = 2 ^ k"
    "g_NUM_MEMORIES c \<noteq> 0 \<longrightarrow> (\<exists>k. g_NUM_MEMORIES c = 2 ^ k)" "g_NUM_MEMORIES_BITS c = 0"
  using assms
  by (auto simp: config_check_derived_def check_all_Some CHECK_POWER_OF_2_Some CHECK_ZERO_def
      split: if_splits elim!: bind_eq_SomeE)

lemma config_chips_Some:
  assumes "config_chips c = Some c'" "g_NUM_PROCESSORS c = 2 ^ p" "g_PROCS_PER_CHIP c = 2 ^ q" "g_NUM_L2_BANKS c = 2 ^ l"
  shows "\<exists>i j. g_NUM_CHIPS c' = 2 ^ i \<and> g_NUM_L2_BANKS_PER_CHIP c' = 2 ^ j \<and> p = i + q \<and> l = i + j \<and>
      0 < L2_CACHE_NUM_SETS_BITS c' \<and> 0 < L2_DIRECTORY_NUM_SETS_BITS c' \<and>
      g_NUM_PROCESSORS c' = 2 ^ p \<and> g_PROCS_PER_CHIP c' = 2 ^ q \<and> g_NUM_L2_BANKS c' = 2 ^ l \<and>
      g_MEMORY_SIZE_BYTES c' = g_MEMORY_SIZE_BYTES c \<and> g_DATA_BLOCK_BYTES c' = g_DATA_BLOCK_BYTES c \<and>
      g_NUM_MEMORIES c' = g_NUM_MEMORIES c \<and> g_NUM_MEMORIES_BITS c' = g_NUM_MEMORIES_BITS c"
proof -
  have a: "(2 :: int) ^ q \<le> 2 ^ p" using assms by (simp add: config_chips_def split: if_splits)
  note d = power_div_power [OF a]
  have b: "(2 :: int) ^ (p - q) \<le> 2 ^ l" using assms d by (simp add: config_chips_def Let_def split: if_splits)
  note e = power_div_power [OF b]
  show ?thesis using assms d e
    by (intro exI [of _ "p - q"] exI [of _ "l - (p - q)"])
      (auto simp: config_chips_def Let_def split: if_splits)
qed

lemma config_bits_Some:
  assumes "config_bits c = Some c'" and mem: "g_NUM_MEMORIES c \<noteq> 0 \<longrightarrow> (\<exists>k. g_NUM_MEMORIES c = 2 ^ k)"
    and "g_NUM_MEMORIES_BITS c = 0"
    and pows: "g_NUM_PROCESSORS c = 2 ^ p" "g_PROCS_PER_CHIP c = 2 ^ q" "g_NUM_L2_BANKS c = 2 ^ l"
      "g_NUM_CHIPS c = 2 ^ i" "g_NUM_L2_BANKS_PER_CHIP c = 2 ^ j" "g_MEMORY_SIZE_BYTES c = 2 ^ m" "g_DATA_BLOCK_BYTES c = 2 ^ b"
    and rel: "p = i + q" "l = i + j" "0 < L2_CACHE_NUM_SETS_BITS c" "0 < L2_DIRECTORY_NUM_SETS_BITS c"
  shows "config_ok c'"
proof -
  obtain k where k: "(if g_NUM_MEMORIES c \<noteq> 0 then log_int (g_NUM_MEMORIES c) else Some (g_NUM_MEMORIES_BITS c)) = Some (int k)"
    "g_NUM_MEMORIES c \<noteq> 0 \<longrightarrow> g_NUM_MEMORIES c = 2 ^ k"
    using mem assms(3) by (cases "g_NUM_MEMORIES c = 0") (auto intro: that [of 0])
  have prod: "(2 :: int) ^ i * 2 ^ q = 2 ^ p" "(2 :: int) ^ i * 2 ^ j = 2 ^ l" by (simp_all add: rel(1,2) power_add)
  show ?thesis
    using assms(1) k(2) rel(3,4) prod unfolding config_bits_def k(1) pows
    by (auto simp: config_ok_def pows Let_def push_bit_eq_mult elim!: bind_eq_SomeE)
qed

lemma config_init_ok:
  assumes "config_init cmp c = Some c'"
  shows "config_ok c'"
proof -
  obtain c1 c2 where c1: "config_check_params c = Some c1" and d: "config_check_derived c1 = Some ()"
    and c2: "config_chips c1 = Some c2" and c3: "config_bits c2 = Some c'"
    using assms by (auto simp: config_init_def split: if_splits elim!: bind_eq_SomeE)
  note D = config_check_derived_Some [OF d]
  obtain m b p q l where pw: "g_MEMORY_SIZE_BYTES c1 = 2 ^ m" "g_DATA_BLOCK_BYTES c1 = 2 ^ b"
    "g_NUM_PROCESSORS c1 = 2 ^ p" "g_PROCS_PER_CHIP c1 = 2 ^ q" "g_NUM_L2_BANKS c1 = 2 ^ l"
    using D(1-5) by blast
  from config_chips_Some [OF c2 pw(3,4,5)] obtain i j where
    r: "g_NUM_CHIPS c2 = 2 ^ i" "g_NUM_L2_BANKS_PER_CHIP c2 = 2 ^ j" "p = i + q" "l = i + j"
      "0 < L2_CACHE_NUM_SETS_BITS c2" "0 < L2_DIRECTORY_NUM_SETS_BITS c2"
      "g_NUM_PROCESSORS c2 = 2 ^ p" "g_PROCS_PER_CHIP c2 = 2 ^ q" "g_NUM_L2_BANKS c2 = 2 ^ l"
      "g_MEMORY_SIZE_BYTES c2 = 2 ^ m" "g_DATA_BLOCK_BYTES c2 = 2 ^ b"
      "g_NUM_MEMORIES c2 = g_NUM_MEMORIES c1" "g_NUM_MEMORIES_BITS c2 = g_NUM_MEMORIES_BITS c1"
    unfolding pw(1,2) by blast
  show ?thesis
    by (rule config_bits_Some [OF c3 _ _ r(7-9,1,2,10,11,3-6)]) (use D(6,7) r(12,13) in simp_all)
qed

subsection \<open>Properties\<close>

text \<open>
  A configuration that \<^verbatim>\<open>RubyConfig::init\<close> accepts is consistent: every derived number of bits is
  the exact logarithm of its count, the processors are the chips times the processors per chip, the L2 banks
  are the chips times the banks per chip, each bank keeps at least one set bit, and the number of blocks of a
  memory module is \<open>2 ^ (memory bits - block bits - memory-number bits)\<close>.
\<close>
theorem config_init_consistent:
  assumes "config_init cmp c = Some c'"
  shows "config_ok c'"
  by (rule config_init_ok [OF assms])

definition example_config :: RubyConfig where
  "example_config = \<lparr>MEM_BUS_CYCLE_MULTIPLIER = 10, BANKS_PER_RANK = 8, RANKS_PER_DIMM = 2, DIMMS_PER_CHANNEL = 2,
     BANK_QUEUE_SIZE = 12, BANK_BUSY_TIME = 11, MEM_CTL_LATENCY = 12, REFRESH_PERIOD = 1560, BASIC_BUS_BUSY_TIME = 2,
     g_MEMORY_SIZE_BYTES = 4096, g_DATA_BLOCK_BYTES = 64, g_PAGE_SIZE_BYTES = 4096, g_NUM_PROCESSORS = 4,
     g_PROCS_PER_CHIP = 2, g_NUM_SMT_THREADS = 1, g_NUM_L2_BANKS = 0, g_NUM_MEMORIES = 2, g_NUM_CHIPS = 0,
     g_MEMORY_SIZE_BITS = 0, g_DATA_BLOCK_BITS = 0, g_PAGE_SIZE_BITS = 0, g_NUM_PROCESSORS_BITS = 0,
     g_NUM_CHIP_BITS = 0, g_NUM_L2_BANKS_BITS = 0, g_NUM_MEMORIES_BITS = 0, g_PROCS_PER_CHIP_BITS = 0,
     g_NUM_L2_BANKS_PER_CHIP = 0, g_NUM_L2_BANKS_PER_CHIP_BITS = 0, g_MEMORY_MODULE_BLOCKS = 0,
     g_MEMORY_MODULE_BITS = 0, g_NUM_MEMORIES_PER_CHIP = 0, L2_CACHE_NUM_SETS_BITS = 6,
     L2_DIRECTORY_NUM_SETS_BITS = 6, MAP_L2BANKS_TO_LOWEST_BITS = False\<rparr>"

lemma example_config_accepted:
  "(case config_init True example_config of Some c \<Rightarrow> g_MEMORY_MODULE_BLOCKS c = 32 | None \<Rightarrow> False)"
  by code_simp

theorem config_init_consistent_witness:
  "\<exists>c. config_init True example_config = Some c \<and> config_ok c \<and> g_MEMORY_MODULE_BLOCKS c = 32"
  using example_config_accepted config_init_consistent [of True example_config] by (auto split: option.splits)

text \<open>
  \<^verbatim>\<open>log_int\<close> computes the integer logarithm of every positive number (its loop ends) and aborts on the
  rest; \<^verbatim>\<open>is_power_of_2\<close> decides whether a positive number is a power of two.
\<close>
theorem log_int_correct:
  "(log_int n = None \<longleftrightarrow> n \<le> 0) \<and>
   (case log_int n of Some k \<Rightarrow> 0 \<le> k \<and> 2 ^ nat k \<le> n \<and> n < 2 ^ (nat k + 1) | None \<Rightarrow> True) \<and>
   (is_power_of_2 n = Some True \<longleftrightarrow> (\<exists>k. n = 2 ^ k)) \<and> (is_power_of_2 n = None \<longleftrightarrow> n \<le> 0)"
proof -
  have n: "log_int n = None \<longleftrightarrow> n \<le> 0" by (auto simp: log_int_def)
  moreover have "is_power_of_2 n = None \<longleftrightarrow> n \<le> 0" using n by (auto simp: is_power_of_2_def split: bind_split)
  moreover have "case log_int n of Some k \<Rightarrow> 0 \<le> k \<and> 2 ^ nat k \<le> n \<and> n < 2 ^ (nat k + 1) | None \<Rightarrow> True"
    using log_int_Some by (auto split: option.split)
  ultimately show ?thesis using is_power_of_2_True by blast
qed

end
