(* ===== verification/Address_Model.thy ===== *)
theory Address_Model
  imports Config_Model
begin

text \<open>
  Physical addresses: \<^verbatim>\<open>common/Address.h\<close>, and the part of
  \<^verbatim>\<open>slicc_interface/RubySlicc_ComponentMapping.h\<close> that maps an address to a cache set, an L2 bank and
  a home directory, with \<^verbatim>\<open>system/MachineID.h\<close>.  \<^verbatim>\<open>physical_address_t\<close> is an unsigned 64-bit
  integer, here \<open>64 word\<close>; a value returned through an \<^verbatim>\<open>int\<close> is truncated by \<open>to_int32\<close>.
  The machine types are an enumeration that the protocol compiler generates: numbers, given by
  the record \<open>machine_types\<close>.  Shift counts of 64 and more are undefined in C; the model shifts everything out.

  Main results: line address and offset split an address without loss; a directory and an index in its memory
  module name exactly one line; under a checked configuration none of the mapping assertions fails.
\<close>

unbundle bit_operations_syntax

type_synonym Address = "64 word"

definition ADDRESS_WIDTH :: int where
  "ADDRESS_WIDTH = 64"

definition bitSelect :: "Address \<Rightarrow> int \<Rightarrow> int \<Rightarrow> Address option" where
  "bitSelect a small big = do {
     assert_that (big \<ge> small);
     Some (if big \<ge> ADDRESS_WIDTH - 1 then drop_bit (nat small) a
           else let mask = NOT (push_bit (nat (big + 1)) (NOT 0)); partial = a AND mask
                in drop_bit (nat small) partial)
   }"

definition maskLowOrderBits :: "Address \<Rightarrow> int \<Rightarrow> Address" where
  "maskLowOrderBits a number =
     (let mask = (if number \<ge> ADDRESS_WIDTH - 1 then NOT 0 else push_bit (nat number) (NOT 0)) in a AND mask)"

definition maskHighOrderBits :: "Address \<Rightarrow> int \<Rightarrow> Address" where
  "maskHighOrderBits a number =
     (let mask = (if number \<ge> ADDRESS_WIDTH - 1 then NOT 0 else drop_bit (nat number) (NOT 0)) in a AND mask)"

definition shiftLowOrderBits :: "Address \<Rightarrow> int \<Rightarrow> Address" where
  "shiftLowOrderBits a number = drop_bit (nat number) a"

definition getLineAddress :: "RubyConfig \<Rightarrow> Address \<Rightarrow> Address option" where
  "getLineAddress c a = bitSelect a (g_DATA_BLOCK_BITS c) ADDRESS_WIDTH"

definition getOffset :: "RubyConfig \<Rightarrow> Address \<Rightarrow> Address option" where
  "getOffset c a = bitSelect a 0 (g_DATA_BLOCK_BITS c - 1)"

definition makeLineAddress :: "RubyConfig \<Rightarrow> Address \<Rightarrow> Address" where
  "makeLineAddress c a = maskLowOrderBits a (g_DATA_BLOCK_BITS c)"

definition makeNextStrideAddress :: "RubyConfig \<Rightarrow> Address \<Rightarrow> int \<Rightarrow> Address" where
  "makeNextStrideAddress c a stride =
     maskLowOrderBits a (g_DATA_BLOCK_BITS c) + word_of_int (g_DATA_BLOCK_BYTES c * stride)"

definition makePageAddress :: "RubyConfig \<Rightarrow> Address \<Rightarrow> Address" where
  "makePageAddress c a = maskLowOrderBits a (g_PAGE_SIZE_BITS c)"

definition setOffset :: "RubyConfig \<Rightarrow> Address \<Rightarrow> int \<Rightarrow> Address" where
  "setOffset c a offset = makeLineAddress c a OR word_of_int offset"

definition line_address :: "RubyConfig \<Rightarrow> Address \<Rightarrow> Address" where
  "line_address c addr = makeLineAddress c addr"

definition next_stride_address :: "RubyConfig \<Rightarrow> Address \<Rightarrow> int \<Rightarrow> Address" where
  "next_stride_address c addr stride =
     maskHighOrderBits (makeNextStrideAddress c addr stride) (ADDRESS_WIDTH - g_MEMORY_SIZE_BITS c)"

definition page_address :: "RubyConfig \<Rightarrow> Address \<Rightarrow> Address" where
  "page_address c addr = makePageAddress c addr"

definition memoryModuleIndex :: "RubyConfig \<Rightarrow> Address \<Rightarrow> int option" where
  "memoryModuleIndex c a = do {
     x \<leftarrow> bitSelect a (g_DATA_BLOCK_BITS c + g_NUM_MEMORIES_BITS c) ADDRESS_WIDTH;
     let index = sint x;
     assert_that (index \<ge> 0);
     assert_that (index < g_MEMORY_MODULE_BLOCKS c);
     Some index
   }"

definition address_less :: "Address \<Rightarrow> Address \<Rightarrow> bool" where
  "address_less a b \<longleftrightarrow> a < b"

subsection \<open>Mapping addresses to components\<close>

definition to_int32 :: "Address \<Rightarrow> int" where
  "to_int32 x = sint (ucast x :: 32 word)"

type_synonym MachineType = int

record MachineID =
  mach_type :: MachineType
  mach_num :: int

record machine_types =
  mt_L1Cache :: MachineType
  mt_L2Cache :: MachineType
  mt_L3Cache :: MachineType
  mt_PersistentArbiter :: MachineType
  mt_Collector :: MachineType
  mt_Directory :: MachineType
  mt_NUM :: MachineType

definition map_address_to_L1CacheSet :: "RubyConfig \<Rightarrow> Address \<Rightarrow> int \<Rightarrow> int option" where
  "map_address_to_L1CacheSet c addr cache_num_set_bits =
     map_option to_int32 (bitSelect addr (g_DATA_BLOCK_BITS c) (g_DATA_BLOCK_BITS c + cache_num_set_bits - 1))"

definition map_address_to_L2CacheSet :: "RubyConfig \<Rightarrow> Address \<Rightarrow> int \<Rightarrow> int option" where
  "map_address_to_L2CacheSet c addr cache_num_set_bits =
     map_option to_int32
       (if MAP_L2BANKS_TO_LOWEST_BITS c
        then bitSelect addr (g_DATA_BLOCK_BITS c + g_NUM_L2_BANKS_PER_CHIP_BITS c)
               (g_DATA_BLOCK_BITS c + g_NUM_L2_BANKS_PER_CHIP_BITS c + cache_num_set_bits - 1)
        else bitSelect addr (g_DATA_BLOCK_BITS c) (g_DATA_BLOCK_BITS c + cache_num_set_bits - 1))"

text \<open>The choice of the bank, the same code in both functions that map to an L2 cache.\<close>

definition L2bank_of :: "RubyConfig \<Rightarrow> Address \<Rightarrow> int option" where
  "L2bank_of c addr = do {
     L2bank \<leftarrow> (if g_NUM_L2_BANKS_PER_CHIP_BITS c > 0 then
         map_option to_int32
           (if MAP_L2BANKS_TO_LOWEST_BITS c
            then bitSelect addr (g_DATA_BLOCK_BITS c) (g_DATA_BLOCK_BITS c + g_NUM_L2_BANKS_PER_CHIP_BITS c - 1)
            else bitSelect addr (g_DATA_BLOCK_BITS c + L2_CACHE_NUM_SETS_BITS c)
                   (g_DATA_BLOCK_BITS c + L2_CACHE_NUM_SETS_BITS c + g_NUM_L2_BANKS_PER_CHIP_BITS c - 1))
       else Some 0);
     assert_that (L2bank < g_NUM_L2_BANKS_PER_CHIP c);
     assert_that (L2bank \<ge> 0);
     Some L2bank
   }"

definition map_L1CacheMachId_to_L2Cache ::
  "machine_types \<Rightarrow> RubyConfig \<Rightarrow> Address \<Rightarrow> MachineID \<Rightarrow> MachineID option" where
  "map_L1CacheMachId_to_L2Cache mt c addr L1CacheMachId = do {
     L2bank \<leftarrow> L2bank_of c addr;
     let num = L1CacheNumToL2Base c (mach_num L1CacheMachId) * g_NUM_L2_BANKS_PER_CHIP c + L2bank;
     assert_that (num < g_NUM_L2_BANKS c);
     Some \<lparr>mach_type = mt_L2Cache mt, mach_num = num\<rparr>
   }"

definition map_L2ChipId_to_L2Cache :: "machine_types \<Rightarrow> RubyConfig \<Rightarrow> Address \<Rightarrow> NodeID \<Rightarrow> MachineID option" where
  "map_L2ChipId_to_L2Cache mt c addr L2ChipId = do {
     assert_that (L2ChipId < g_NUM_CHIPS c);
     L2bank \<leftarrow> L2bank_of c addr;
     let num = L2ChipId * g_NUM_L2_BANKS_PER_CHIP c + L2bank;
     assert_that (num < g_NUM_L2_BANKS c);
     Some \<lparr>mach_type = mt_L2Cache mt, mach_num = num\<rparr>
   }"

definition map_Address_to_DirectoryNode :: "RubyConfig \<Rightarrow> Address \<Rightarrow> NodeID option" where
  "map_Address_to_DirectoryNode c addr = do {
     dirNode \<leftarrow> (if g_NUM_MEMORIES_BITS c > 0
        then map_option to_int32 (bitSelect addr (g_DATA_BLOCK_BITS c) (g_DATA_BLOCK_BITS c + g_NUM_MEMORIES_BITS c - 1))
        else Some 0);
     assert_that (dirNode < g_NUM_MEMORIES c);
     assert_that (dirNode \<ge> 0);
     Some dirNode
   }"

definition map_Address_to_Directory :: "machine_types \<Rightarrow> RubyConfig \<Rightarrow> Address \<Rightarrow> MachineID option" where
  "map_Address_to_Directory mt c addr = do {
     n \<leftarrow> map_Address_to_DirectoryNode c addr;
     Some \<lparr>mach_type = mt_Directory mt, mach_num = n\<rparr>
   }"

definition map_Address_to_CentralArbiterNode :: "machine_types \<Rightarrow> RubyConfig \<Rightarrow> Address \<Rightarrow> MachineID option" where
  "map_Address_to_CentralArbiterNode mt c addr = do {
     n \<leftarrow> map_Address_to_DirectoryNode c addr;
     assert_that (n < g_NUM_MEMORIES c);
     assert_that (n \<ge> 0);
     Some \<lparr>mach_type = mt_PersistentArbiter mt, mach_num = n\<rparr>
   }"

definition isLocalProcessor :: "RubyConfig \<Rightarrow> MachineID \<Rightarrow> MachineID \<Rightarrow> bool" where
  "isLocalProcessor c thisId tarID =
     (let start = cdiv (mach_num thisId) (g_PROCS_PER_CHIP c) * g_PROCS_PER_CHIP c
      in \<exists>i \<in> set [start..start + g_PROCS_PER_CHIP c - 1]. i = mach_num tarID)"

definition isL1OnChip :: "machine_types \<Rightarrow> MachineID \<Rightarrow> NodeID \<Rightarrow> bool" where
  "isL1OnChip mt L1machID L2NodeID = (if mach_type L1machID = mt_L1Cache mt then mach_num L1machID = L2NodeID else False)"

definition isL2OnChip :: "machine_types \<Rightarrow> MachineID \<Rightarrow> NodeID \<Rightarrow> bool" where
  "isL2OnChip mt L2machID L2NodeID = (if mach_type L2machID = mt_L2Cache mt then mach_num L2machID = L2NodeID else False)"

definition closest_clockwise_distance :: "RubyConfig \<Rightarrow> NodeID \<Rightarrow> NodeID \<Rightarrow> NodeID" where
  "closest_clockwise_distance c this_node next_node =
     (if this_node \<le> next_node then next_node - this_node else next_node - this_node + g_NUM_CHIPS c)"

definition closer_clockwise_processor :: "RubyConfig \<Rightarrow> NodeID \<Rightarrow> NodeID \<Rightarrow> NodeID \<Rightarrow> bool" where
  "closer_clockwise_processor c this_node newer older \<longleftrightarrow>
     closest_clockwise_distance c this_node newer < closest_clockwise_distance c this_node older"

definition L1CacheMachIDToProcessorNum :: "machine_types \<Rightarrow> MachineID \<Rightarrow> NodeID option" where
  "L1CacheMachIDToProcessorNum mt machID = do { assert_that (mach_type machID = mt_L1Cache mt); Some (mach_num machID) }"

definition L2CacheMachIDToChipID :: "machine_types \<Rightarrow> RubyConfig \<Rightarrow> MachineID \<Rightarrow> NodeID option" where
  "L2CacheMachIDToChipID mt c machID = do {
     assert_that (mach_type machID = mt_L2Cache mt);
     Some (cdiv (mach_num machID) (g_NUM_L2_BANKS_PER_CHIP c))
   }"

datatype GenericMachineType = Gen_L1Cache | Gen_L2Cache | Gen_L3Cache | Gen_Directory | Gen_Collector

definition ConvertMachToGenericMach :: "machine_types \<Rightarrow> MachineType \<Rightarrow> GenericMachineType option" where
  "ConvertMachToGenericMach mt machType =
     (if machType = mt_L1Cache mt then Some Gen_L1Cache
      else if machType = mt_L2Cache mt then Some Gen_L2Cache
      else if machType = mt_L3Cache mt then Some Gen_L3Cache
      else if machType = mt_Directory mt then Some Gen_Directory
      else if machType = mt_Collector mt then Some Gen_Collector
      else None)"

subsection \<open>Bit selection as arithmetic\<close>

lemma not_push_mask: "NOT (push_bit n (NOT 0)) = (mask n :: 64 word)"
  by (simp add: push_bit_eq_mult minus_exp_eq_not_mask)

lemma bitSelect_eq:
  assumes "0 \<le> small" "small \<le> big"
  shows "bitSelect a small big = Some (drop_bit (nat small) (take_bit (nat (big + 1)) a))"
proof (cases "big \<ge> 63")
  case True
  then have "take_bit (nat (big + 1)) a = a" by (intro take_bit_word_eq_self) simp
  with True assms show ?thesis by (simp add: bitSelect_def ADDRESS_WIDTH_def)
next
  case False
  then show ?thesis using assms
    by (simp add: bitSelect_def ADDRESS_WIDTH_def Let_def not_push_mask take_bit_eq_mask)
qed

lemma bitSelect_unat:
  assumes "0 \<le> small" "small \<le> big" "bitSelect a small big = Some x"
  shows "unat x = (unat a mod 2 ^ nat (big + 1)) div 2 ^ nat small"
proof -
  have "x = drop_bit (nat small) (take_bit (nat (big + 1)) a)" using assms by (simp add: bitSelect_eq)
  then have "unat x = drop_bit (nat small) (take_bit (nat (big + 1)) (unat a))"
    by (simp only: unat_drop_bit_eq unsigned_take_bit_eq)
  then show ?thesis by (simp add: drop_bit_eq_div take_bit_eq_mod)
qed

lemma maskLow_unat:
  assumes "0 \<le> n" "n < 63"
  shows "unat (maskLowOrderBits a n) = unat a div 2 ^ nat n * 2 ^ nat n"
proof -
  have "maskLowOrderBits a n = a AND NOT (mask (nat n))"
    using assms by (simp add: maskLowOrderBits_def ADDRESS_WIDTH_def Let_def push_bit_eq_mult minus_exp_eq_not_mask)
  also have "\<dots> = push_bit (nat n) (drop_bit (nat n) a)" by (rule bit_eqI) (auto simp: bit_simps)
  finally have e: "maskLowOrderBits a n = push_bit (nat n) (drop_bit (nat n) a)" .
  have "unat a div 2 ^ nat n * 2 ^ nat n < 2 ^ 64"
    using unsigned_less [of a, where ?'a = nat] by (intro le_less_trans [OF div_times_less_eq_dividend]) simp
  then show ?thesis
    unfolding e unsigned_push_bit_eq unat_drop_bit_eq by (simp add: push_bit_eq_mult drop_bit_eq_div take_bit_eq_mod)
qed

lemma to_int32_small: "unat x < 2 ^ 31 \<Longrightarrow> to_int32 x = int (unat x)"
proof -
  assume x: "unat x < 2 ^ 31"
  then have "unat (ucast x :: 32 word) = unat x" by (simp add: unsigned_ucast_eq take_bit_eq_mod)
  then have u: "uint (ucast x :: 32 word) = int (unat x)" by (metis of_nat_unat)
  have "int (unat x) < int (2 ^ 31)" using x by (simp only: of_nat_less_iff)
  then have lt: "int (unat x) < 2 ^ 31" by (simp only: of_nat_power of_nat_numeral)
  have "- (2 ^ 31) \<le> int (unat x)" by (rule order_trans [OF _ of_nat_0_le_iff]) simp
  then have "signed_take_bit 31 (int (unat x)) = int (unat x)" using lt by (rule signed_take_bit_int_eq_self)
  then show "to_int32 x = int (unat x)" unfolding to_int32_def sint_uint u by simp
qed

lemma sint_eq_uint_small:
  assumes "unat (x :: 64 word) < 2 ^ 63"
  shows "sint x = int (unat x)"
proof -
  have "int (unat x) < int (2 ^ 63)" using assms by (simp only: of_nat_less_iff)
  then have lt: "uint x < 2 ^ 63" by simp
  have "- (2 ^ 63) \<le> uint x" by (rule order_trans [OF _ unsigned_greater_eq]) simp
  then have "signed_take_bit 63 (uint x) = uint x" using lt by (rule signed_take_bit_int_eq_self)
  then show ?thesis by (simp add: sint_uint)
qed

subsection \<open>Lines and offsets\<close>

abbreviation block_bits :: "RubyConfig \<Rightarrow> nat" where
  "block_bits c \<equiv> nat (g_DATA_BLOCK_BITS c)"

lemma line_address_unat:
  assumes "0 \<le> g_DATA_BLOCK_BITS c" "g_DATA_BLOCK_BITS c < 63"
  shows "unat (line_address c a) = unat a div 2 ^ block_bits c * 2 ^ block_bits c"
  using maskLow_unat [OF assms] by (simp add: line_address_def makeLineAddress_def)

lemma getLineAddress_Some:
  assumes "0 \<le> g_DATA_BLOCK_BITS c" "g_DATA_BLOCK_BITS c < 63"
  obtains x where "getLineAddress c a = Some x" "unat x = unat a div 2 ^ block_bits c"
proof -
  obtain x where x: "bitSelect a (g_DATA_BLOCK_BITS c) 64 = Some x" using assms by (simp add: bitSelect_eq)
  have "unat a < 2 ^ 64" using unsigned_less [of a, where ?'a = nat] by simp
  then have "unat a mod 2 ^ 65 = unat a" by (intro mod_less) simp
  then show thesis using that [of x] x bitSelect_unat [OF assms(1) _ x] assms
    by (simp add: getLineAddress_def ADDRESS_WIDTH_def)
qed

lemma getOffset_Some:
  assumes "0 < g_DATA_BLOCK_BITS c"
  obtains x where "getOffset c a = Some x" "unat x = unat a mod 2 ^ block_bits c"
proof -
  obtain x where x: "bitSelect a 0 (g_DATA_BLOCK_BITS c - 1) = Some x" using assms by (simp add: bitSelect_eq)
  then show thesis using that [of x] bitSelect_unat [OF _ _ x] assms by (simp add: getOffset_def)
qed

text \<open>Setting the offset bits of an address.\<close>

lemma setOffset_unat:
  assumes b: "0 \<le> g_DATA_BLOCK_BITS c" "g_DATA_BLOCK_BITS c < 63" and o: "0 \<le> offset" "offset < 2 ^ block_bits c"
  shows "unat (setOffset c a offset) = unat a div 2 ^ block_bits c * 2 ^ block_bits c + nat offset"
proof -
  let ?n = "block_bits c"
  have n: "?n < 63" using b by simp
  have mono: "(2 :: int) ^ ?n \<le> 2 ^ 64" using n by (intro power_increasing) auto
  have w: "unat (word_of_int offset :: 64 word) = nat offset"
    using o mono by (simp add: unsigned_of_int take_bit_eq_mod mod_pos_pos_trivial)
  have line: "unat (makeLineAddress c a) = unat a div 2 ^ ?n * 2 ^ ?n"
    using maskLow_unat [OF b] by (simp add: makeLineAddress_def)
  have "nat offset < 2 ^ ?n" using o by (simp add: nat_less_iff)
  then have small: "take_bit ?n (nat offset) = nat offset" by (simp add: take_bit_nat_eq_self)
  have shift: "unat a div 2 ^ ?n * 2 ^ ?n = push_bit ?n (unat a div 2 ^ ?n)" by (simp add: push_bit_eq_mult)
  have "unat (setOffset c a offset) = push_bit ?n (unat a div 2 ^ ?n) OR nat offset"
    by (simp add: setOffset_def unsigned_or_eq w line shift)
  also have "\<dots> = push_bit ?n (unat a div 2 ^ ?n) + nat offset"
    by (rule disjunctive_add_eq_or [symmetric], subst small [symmetric]) (rule bit_eqI, auto simp: bit_simps)
  finally show ?thesis by (simp add: push_bit_eq_mult)
qed

subsection \<open>Home directories\<close>

lemma DirectoryNode_Some:
  assumes ok: "config_ok c" and mem: "g_NUM_MEMORIES c \<noteq> 0" and bits: "g_NUM_MEMORIES_BITS c \<le> 31"
  shows "map_Address_to_DirectoryNode c a =
    Some (int (unat a div 2 ^ block_bits c mod 2 ^ nat (g_NUM_MEMORIES_BITS c)))"
proof -
  let ?m = "nat (g_NUM_MEMORIES_BITS c)"
  have k: "0 \<le> g_DATA_BLOCK_BITS c" "0 \<le> g_NUM_MEMORIES_BITS c" "g_NUM_MEMORIES c = 2 ^ ?m"
    using ok mem by (auto simp: config_ok_def)
  show ?thesis
  proof (cases "g_NUM_MEMORIES_BITS c > 0")
    case True
    obtain x where x: "bitSelect a (g_DATA_BLOCK_BITS c) (g_DATA_BLOCK_BITS c + g_NUM_MEMORIES_BITS c - 1) = Some x"
      using k True by (simp add: bitSelect_eq)
    have "unat x = (unat a mod 2 ^ (block_bits c + ?m)) div 2 ^ block_bits c"
      using bitSelect_unat [OF _ _ x] k True by (simp add: nat_add_distrib)
    also have "\<dots> = unat a div 2 ^ block_bits c mod 2 ^ ?m"
      by (simp add: power_add mod_mult2_eq)
    finally have ux: "unat x = unat a div 2 ^ block_bits c mod 2 ^ ?m" .
    have lt: "unat x < 2 ^ ?m" unfolding ux by simp
    also have "(2 :: nat) ^ ?m \<le> 2 ^ 31" using bits by (intro power_increasing) auto
    finally have "to_int32 x = int (unat x)" by (rule to_int32_small)
    moreover have "int (unat x) < 2 ^ ?m" using lt by (metis of_nat_less_iff of_nat_power of_nat_numeral)
    ultimately show ?thesis using True x k(3) by (simp add: map_Address_to_DirectoryNode_def ux)
  next
    case False
    then have "?m = 0" using k by simp
    then show ?thesis using False k(3) by (simp add: map_Address_to_DirectoryNode_def)
  qed
qed

lemma memoryModuleIndex_Some:
  assumes ok: "config_ok c" and a: "int (unat a) < g_MEMORY_SIZE_BYTES c"
    and bits: "g_MEMORY_SIZE_BITS c < 63" "g_DATA_BLOCK_BITS c + g_NUM_MEMORIES_BITS c \<le> g_MEMORY_SIZE_BITS c"
  shows "memoryModuleIndex c a = Some (int (unat a div 2 ^ (block_bits c + nat (g_NUM_MEMORIES_BITS c))))"
proof -
  let ?k = "g_DATA_BLOCK_BITS c + g_NUM_MEMORIES_BITS c"
  have k: "0 \<le> g_DATA_BLOCK_BITS c" "0 \<le> g_NUM_MEMORIES_BITS c" "g_MEMORY_SIZE_BYTES c = 2 ^ nat (g_MEMORY_SIZE_BITS c)"
    "g_MEMORY_MODULE_BLOCKS c = 2 ^ nat (g_MEMORY_SIZE_BITS c - ?k)"
    using ok by (auto simp: config_ok_def diff_diff_eq)
  obtain x where x: "bitSelect a ?k 64 = Some x" using k bits by (simp add: bitSelect_eq)
  have a64: "unat a < 2 ^ 64" using unsigned_less [of a, where ?'a = nat] by simp
  have ux: "unat x = unat a div 2 ^ nat ?k"
    using bitSelect_unat [OF _ _ x] k bits mod_less [of "unat a" "2 ^ 65"] a64 by simp
  have "unat a < 2 ^ nat (g_MEMORY_SIZE_BITS c)"
    using a unfolding k(3) by (metis of_nat_less_iff of_nat_power of_nat_numeral)
  also have "nat (g_MEMORY_SIZE_BITS c) = nat (g_MEMORY_SIZE_BITS c - ?k) + nat ?k" using k bits by simp
  finally have lt: "unat x < 2 ^ nat (g_MEMORY_SIZE_BITS c - ?k)"
    unfolding ux by (simp add: power_add less_mult_imp_div_less)
  also have "(2 :: nat) ^ nat (g_MEMORY_SIZE_BITS c - ?k) \<le> 2 ^ 63" using bits k by (intro power_increasing) auto
  finally have "unat x < 2 ^ 63" .
  then have "sint x = int (unat x)" by (simp add: sint_eq_uint_small)
  moreover have "int (unat x) < 2 ^ nat (g_MEMORY_SIZE_BITS c - ?k)"
    using lt by (metis of_nat_less_iff of_nat_power of_nat_numeral)
  ultimately show ?thesis
    using x k by (simp add: memoryModuleIndex_def ADDRESS_WIDTH_def ux nat_add_distrib)
qed

subsection \<open>Cache sets and L2 banks\<close>

lemma bitSelect_field:
  assumes "0 \<le> lo" "0 < n" "n \<le> 31"
  shows "map_option to_int32 (bitSelect a lo (lo + n - 1)) = Some (int (unat a div 2 ^ nat lo mod 2 ^ nat n))"
proof -
  obtain x where x: "bitSelect a lo (lo + n - 1) = Some x" using assms by (simp add: bitSelect_eq)
  have "unat x = (unat a mod 2 ^ (nat lo + nat n)) div 2 ^ nat lo"
    using bitSelect_unat [OF _ _ x] assms by (simp add: nat_add_distrib)
  then have ux: "unat x = unat a div 2 ^ nat lo mod 2 ^ nat n" by (simp add: power_add mod_mult2_eq)
  have "unat x < 2 ^ nat n" unfolding ux by simp
  also have "(2 :: nat) ^ nat n \<le> 2 ^ 31" using assms by (intro power_increasing) auto
  finally show ?thesis using x ux to_int32_small [of x] by simp
qed

lemma field_range: "0 \<le> int (v div k mod 2 ^ n)" "int (v div k mod 2 ^ n) < 2 ^ n"
proof -
  have "v div k mod 2 ^ n < 2 ^ n" by simp
  then show "int (v div k mod 2 ^ n) < 2 ^ n" by (metis of_nat_less_iff of_nat_power of_nat_numeral)
qed simp

lemma L2bank_of_Some:
  assumes ok: "config_ok c" and bits: "g_NUM_L2_BANKS_PER_CHIP_BITS c \<le> 31"
  obtains b where "L2bank_of c a = Some b" "0 \<le> b" "b < g_NUM_L2_BANKS_PER_CHIP c"
proof (cases "g_NUM_L2_BANKS_PER_CHIP_BITS c > 0")
  case True
  have k: "0 \<le> g_DATA_BLOCK_BITS c" "0 \<le> g_DATA_BLOCK_BITS c + L2_CACHE_NUM_SETS_BITS c"
    "g_NUM_L2_BANKS_PER_CHIP c = 2 ^ nat (g_NUM_L2_BANKS_PER_CHIP_BITS c)" using ok by (auto simp: config_ok_def)
  show thesis
    using that True k bits field_range
    by (cases "MAP_L2BANKS_TO_LOWEST_BITS c")
      (simp_all add: L2bank_of_def bitSelect_field add.assoc [symmetric] del: of_nat_mod of_nat_div)
next
  case False
  then show thesis using that [of 0] ok by (auto simp: L2bank_of_def config_ok_def)
qed

subsection \<open>Properties\<close>

text \<open>
  Line address and offset split an address without loss: \<^verbatim>\<open>getLineAddress\<close> and \<^verbatim>\<open>getOffset\<close> return
  the quotient and the remainder of the address by the block size, two addresses have the same
  \<^verbatim>\<open>line_address\<close> exactly when they have the same \<^verbatim>\<open>getLineAddress\<close>, and \<^verbatim>\<open>setOffset\<close> keeps the
  line and sets the offset.  The number of block bits is between 1 and 62.
\<close>
theorem address_line_offset_split:
  assumes b: "0 < g_DATA_BLOCK_BITS c" "g_DATA_BLOCK_BITS c < 63" and o: "0 \<le> offset" "offset < 2 ^ block_bits c"
  shows "(\<exists>l f. getLineAddress c a = Some l \<and> getOffset c a = Some f \<and>
      unat a = unat l * 2 ^ block_bits c + unat f \<and> unat f < 2 ^ block_bits c) \<and>
    (line_address c a = line_address c a' \<longleftrightarrow> getLineAddress c a = getLineAddress c a') \<and>
    getOffset c (setOffset c a offset) = Some (word_of_int offset) \<and>
    line_address c (setOffset c a offset) = line_address c a \<and> line_address c (line_address c a) = line_address c a"
proof -
  let ?B = "2 ^ block_bits c :: nat"
  have b0: "0 \<le> g_DATA_BLOCK_BITS c" using b by simp
  note line = line_address_unat [OF b0 b(2)]
  obtain l where l: "getLineAddress c a = Some l" "unat l = unat a div ?B" by (rule getLineAddress_Some [OF b0 b(2)])
  obtain l' where l': "getLineAddress c a' = Some l'" "unat l' = unat a' div ?B" by (rule getLineAddress_Some [OF b0 b(2)])
  obtain f where f: "getOffset c a = Some f" "unat f = unat a mod ?B" by (rule getOffset_Some [OF b(1)])
  have no: "nat offset < ?B" using o by (simp add: nat_less_iff)
  obtain g where g: "getOffset c (setOffset c a offset) = Some g" "unat g = unat (setOffset c a offset) mod ?B"
    by (rule getOffset_Some [OF b(1)])
  have "unat g = nat offset" unfolding g(2) setOffset_unat [OF b0 b(2) o] using no by simp
  moreover have "unat (word_of_int offset :: 64 word) = nat offset"
  proof -
    have "(2 :: int) ^ block_bits c \<le> 2 ^ 64" using b by (intro power_increasing) auto
    then show ?thesis using o by (simp add: unsigned_of_int take_bit_eq_mod mod_pos_pos_trivial)
  qed
  ultimately have "g = word_of_int offset" by (simp add: word_unat_eq_iff)
  moreover have "line_address c (setOffset c a offset) = line_address c a"
    by (simp add: word_unat_eq_iff line setOffset_unat [OF b0 b(2) o] div_less [OF no])
  moreover have "line_address c (line_address c a) = line_address c a" by (simp add: word_unat_eq_iff line)
  moreover have "line_address c a = line_address c a' \<longleftrightarrow> getLineAddress c a = getLineAddress c a'"
    using l l' by (simp add: word_unat_eq_iff line)
  moreover have "unat a = unat l * ?B + unat f" unfolding l(2) f(2) by (rule div_mult_mod_eq [symmetric])
  moreover have "unat f < ?B" unfolding f(2) by simp
  ultimately show ?thesis using g(1) l(1) f(1) by blast
qed

theorem address_line_offset_split_witness:
  "\<exists>c. config_init True example_config = Some c \<and>
     getOffset c (setOffset c 1000 5) = Some 5 \<and> line_address c (setOffset c 1000 5) = line_address c 1000"
proof -
  obtain c where c: "config_init True example_config = Some c" "g_DATA_BLOCK_BITS c = 6"
  proof -
    have "(case config_init True example_config of Some c \<Rightarrow> g_DATA_BLOCK_BITS c = 6 | None \<Rightarrow> False)" by code_simp
    then show thesis using that by (auto split: option.splits)
  qed
  then show ?thesis using address_line_offset_split [of c 5 1000 0] by auto
qed

lemma home_directory_line:
  assumes ok: "config_ok c" and mem: "g_NUM_MEMORIES c \<noteq> 0"
    and bits: "g_MEMORY_SIZE_BITS c < 63" "g_NUM_MEMORIES_BITS c \<le> 31" "g_DATA_BLOCK_BITS c + g_NUM_MEMORIES_BITS c \<le> g_MEMORY_SIZE_BITS c"
    and a: "int (unat a) < g_MEMORY_SIZE_BYTES c" "int (unat a') < g_MEMORY_SIZE_BYTES c"
  shows "\<exists>d i d' i'. map_Address_to_DirectoryNode c a = Some d \<and> memoryModuleIndex c a = Some i \<and>
    map_Address_to_DirectoryNode c a' = Some d' \<and> memoryModuleIndex c a' = Some i' \<and>
    0 \<le> d \<and> d < g_NUM_MEMORIES c \<and> 0 \<le> i \<and> i < g_MEMORY_MODULE_BLOCKS c \<and>
    (d = d' \<and> i = i' \<longleftrightarrow> line_address c a = line_address c a')"
proof -
  let ?B = "2 ^ block_bits c :: nat" and ?M = "2 ^ nat (g_NUM_MEMORIES_BITS c) :: nat"
  have k: "0 \<le> g_DATA_BLOCK_BITS c" "g_DATA_BLOCK_BITS c < 63" "0 \<le> g_NUM_MEMORIES_BITS c"
    "g_NUM_MEMORIES c = 2 ^ nat (g_NUM_MEMORIES_BITS c)" using ok mem bits by (auto simp: config_ok_def)
  note d = DirectoryNode_Some [OF ok mem bits(2)]
  note i = memoryModuleIndex_Some [OF ok a(1) bits(1,3)] memoryModuleIndex_Some [OF ok a(2) bits(1,3)]
  have "int (unat a div 2 ^ (block_bits c + nat (g_NUM_MEMORIES_BITS c))) < g_MEMORY_MODULE_BLOCKS c"
    using i(1) by (auto simp: memoryModuleIndex_def Let_def split: if_splits elim!: bind_eq_SomeE)
  moreover have "unat a div ?B mod ?M = unat a' div ?B mod ?M \<and> unat a div ?B div ?M = unat a' div ?B div ?M \<longleftrightarrow>
    unat a div ?B = unat a' div ?B" by (metis div_mult_mod_eq)
  ultimately show ?thesis unfolding d i using k field_range
    by (simp add: word_unat_eq_iff line_address_unat power_add div_mult2_eq del: of_nat_mod of_nat_div)
qed

text \<open>
  Every line of memory has exactly one home: under a configuration accepted by \<^verbatim>\<open>RubyConfig::init\<close>, for an address
  inside the memory neither \<^verbatim>\<open>map_Address_to_DirectoryNode\<close> nor \<^verbatim>\<open>memoryModuleIndex\<close> aborts, both
  results are in range, and two addresses have the same directory and the same index exactly when they are on the same line.
\<close>
theorem home_directory_unique:
  assumes ok: "config_ok c" and mem: "g_NUM_MEMORIES c \<noteq> 0"
    and bits: "g_MEMORY_SIZE_BITS c < 63" "g_NUM_MEMORIES_BITS c \<le> 31" "g_DATA_BLOCK_BITS c + g_NUM_MEMORIES_BITS c \<le> g_MEMORY_SIZE_BITS c"
    and a: "int (unat a) < g_MEMORY_SIZE_BYTES c" "int (unat a') < g_MEMORY_SIZE_BYTES c"
  shows "\<exists>d i d' i'. map_Address_to_DirectoryNode c a = Some d \<and> memoryModuleIndex c a = Some i \<and>
    map_Address_to_DirectoryNode c a' = Some d' \<and> memoryModuleIndex c a' = Some i' \<and>
    0 \<le> d \<and> d < g_NUM_MEMORIES c \<and> 0 \<le> i \<and> i < g_MEMORY_MODULE_BLOCKS c \<and>
    (d = d' \<and> i = i' \<longleftrightarrow> line_address c a = line_address c a')"
  by (rule home_directory_line [OF assms])

theorem home_directory_unique_witness:
  "\<exists>c d i. config_init True example_config = Some c \<and> map_Address_to_DirectoryNode c 1000 = Some d \<and>
     memoryModuleIndex c 1000 = Some i \<and> d < 2 \<and> i < 32"
proof -
  obtain c where c: "config_init True example_config = Some c" "g_DATA_BLOCK_BITS c = 6" "g_NUM_MEMORIES c = 2"
    "g_MEMORY_SIZE_BITS c = 12" "g_NUM_MEMORIES_BITS c = 1" "g_MEMORY_SIZE_BYTES c = 4096" "g_MEMORY_MODULE_BLOCKS c = 32"
  proof -
    have "(case config_init True example_config of Some c \<Rightarrow> g_DATA_BLOCK_BITS c = 6 \<and> g_NUM_MEMORIES c = 2 \<and>
      g_MEMORY_SIZE_BITS c = 12 \<and> g_NUM_MEMORIES_BITS c = 1 \<and> g_MEMORY_SIZE_BYTES c = 4096 \<and>
      g_MEMORY_MODULE_BLOCKS c = 32 | None \<Rightarrow> False)" by code_simp
    then show thesis using that by (auto split: option.splits)
  qed
  then show ?thesis using home_directory_unique [OF config_init_ok [OF c(1)], of 1000 1000] by auto
qed

text \<open>
  Under a configuration accepted by \<^verbatim>\<open>RubyConfig::init\<close> no assertion of the L2 mapping fails: for every
  address and every chip, \<^verbatim>\<open>map_L2ChipId_to_L2Cache\<close> returns a bank of that chip, and
  \<^verbatim>\<open>map_L1CacheMachId_to_L2Cache\<close> returns, for every L1 cache, the bank on that cache's own chip, the same one.
\<close>
theorem l2_mapping_in_range:
  assumes ok: "config_ok c" and bits: "g_NUM_L2_BANKS_PER_CHIP_BITS c \<le> 31"
    and l1: "0 \<le> mach_num l1" "mach_num l1 < g_NUM_PROCESSORS c"
  shows "\<exists>m. map_L1CacheMachId_to_L2Cache mt c a l1 = Some m \<and> mach_type m = mt_L2Cache mt \<and>
    0 \<le> mach_num m \<and> mach_num m < g_NUM_L2_BANKS c \<and>
    map_L2ChipId_to_L2Cache mt c a (L1CacheNumToL2Base c (mach_num l1)) = Some m \<and>
    L2CacheMachIDToChipID mt c m = Some (L1CacheNumToL2Base c (mach_num l1))"
proof -
  obtain b where b: "L2bank_of c a = Some b" "0 \<le> b" "b < g_NUM_L2_BANKS_PER_CHIP c" by (rule L2bank_of_Some [OF ok bits])
  let ?p = "g_PROCS_PER_CHIP c" and ?k = "g_NUM_L2_BANKS_PER_CHIP c" and ?q = "mach_num l1 div g_PROCS_PER_CHIP c"
  have pos: "0 < ?p" "0 < ?k" "g_NUM_CHIPS c * ?p = g_NUM_PROCESSORS c" "g_NUM_CHIPS c * ?k = g_NUM_L2_BANKS c"
    using ok by (auto simp: config_ok_def)
  have q: "0 \<le> ?q" using l1 pos by (simp add: pos_imp_zdiv_nonneg_iff)
  have qc: "?q < g_NUM_CHIPS c"
  proof (rule ccontr)
    assume "\<not> ?q < g_NUM_CHIPS c"
    then have "g_NUM_CHIPS c * ?p \<le> ?q * ?p" using pos(1) by (intro mult_right_mono) auto
    also have "\<dots> \<le> mach_num l1" using pos(1) by (simp add: minus_mod_eq_div_mult [symmetric])
    finally show False using l1 pos(3) by simp
  qed
  then have "(?q + 1) * ?k \<le> g_NUM_CHIPS c * ?k" using pos(2) by (intro mult_right_mono) auto
  then have lt: "?q * ?k + b < g_NUM_L2_BANKS c" using b pos(4) by (simp add: distrib_right)
  moreover have "(?q * ?k + b) div ?k = ?q" using b pos(2) by simp
  moreover have "0 \<le> ?q * ?k + b" using q b pos(2) by simp
  ultimately show ?thesis
    using b l1 pos q qc by (simp add: map_L1CacheMachId_to_L2Cache_def map_L2ChipId_to_L2Cache_def
        L2CacheMachIDToChipID_def L1CacheNumToL2Base_def Let_def)
qed

theorem l2_mapping_in_range_witness:
  "\<exists>c m. config_init True example_config = Some c \<and>
     map_L1CacheMachId_to_L2Cache \<lparr>mt_L1Cache = 0, mt_L2Cache = 1, mt_L3Cache = 5, mt_PersistentArbiter = 5,
       mt_Collector = 5, mt_Directory = 2, mt_NUM = 5\<rparr> c 1000 \<lparr>mach_type = 0, mach_num = 3\<rparr> = Some m \<and> mach_num m < 4"
proof -
  obtain c where c: "config_init True example_config = Some c" "g_NUM_L2_BANKS_PER_CHIP_BITS c = 1"
    "g_NUM_PROCESSORS c = 4" "g_NUM_L2_BANKS c = 4"
  proof -
    have "(case config_init True example_config of Some c \<Rightarrow> g_NUM_L2_BANKS_PER_CHIP_BITS c = 1 \<and>
      g_NUM_PROCESSORS c = 4 \<and> g_NUM_L2_BANKS c = 4 | None \<Rightarrow> False)" by code_simp
    then show thesis using that by (auto split: option.splits)
  qed
  then show ?thesis
    using l2_mapping_in_range [OF config_init_ok [OF c(1)], of "\<lparr>mach_type = 0, mach_num = 3\<rparr>"] by fastforce
qed

end
