(* ===== verification/Line_Store.thy ===== *)
theory Line_Store
  imports Address_Model
begin

text \<open>
  The contract of the structures of Ruby that hold one entry per memory line: the cache of
  \<^verbatim>\<open>system/CacheMemory.h\<close>, the perfect cache of \<^verbatim>\<open>system/PerfectCacheMemory.h\<close> and the table of
  transactions in flight of \<^verbatim>\<open>system/TBETable.h\<close>.  A coherence controller allocates an entry, writes it through the
  reference that \<^verbatim>\<open>lookup\<close> returns, and deallocates it.  The contract says that the structure behaves as a finite map
  from addresses to entries; its client lemma is that this holds for every sequence of the three calls.
\<close>

datatype ('t, 'e) line_op = Allocate 't Address | Deallocate Address | Write Address "'e \<Rightarrow> 'e"

text \<open>The map each call is meant to compute; \<open>fr a\<close> is the entry of a line just allocated.\<close>

fun map_op :: "(Address \<Rightarrow> 'e) \<Rightarrow> (Address \<rightharpoonup> 'e) \<Rightarrow> ('t, 'e) line_op \<Rightarrow> (Address \<rightharpoonup> 'e)" where
  "map_op fr m (Allocate t a) = m(a \<mapsto> fr a)"
| "map_op fr m (Deallocate a) = m(a := None)"
| "map_op fr m (Write a f) = m(a := map_option f (m a))"

text \<open>When the map calls may be made: no line is allocated twice, only allocated lines are written or removed.\<close>

fun map_pre :: "(Address \<rightharpoonup> 'e) \<Rightarrow> ('t, 'e) line_op \<Rightarrow> bool" where
  "map_pre m (Allocate t a) \<longleftrightarrow> m a = None"
| "map_pre m (Deallocate a) \<longleftrightarrow> m a \<noteq> None"
| "map_pre m (Write a f) \<longleftrightarrow> m a \<noteq> None"

fun map_pres :: "(Address \<Rightarrow> 'e) \<Rightarrow> (Address \<rightharpoonup> 'e) \<Rightarrow> ('t, 'e) line_op list \<Rightarrow> bool" where
  "map_pres fr m [] \<longleftrightarrow> True"
| "map_pres fr m (x # xs) \<longleftrightarrow> map_pre m x \<and> map_pres fr (map_op fr m x) xs"

fun store_op :: "('t \<Rightarrow> 's \<Rightarrow> Address \<Rightarrow> 's option) \<Rightarrow> ('s \<Rightarrow> Address \<Rightarrow> 's option) \<Rightarrow>
  ('s \<Rightarrow> Address \<Rightarrow> ('e \<Rightarrow> 'e) \<Rightarrow> 's option) \<Rightarrow> 's \<Rightarrow> ('t, 'e) line_op \<Rightarrow> 's option" where
  "store_op al de wr s (Allocate t a) = al t s a"
| "store_op al de wr s (Deallocate a) = de s a"
| "store_op al de wr s (Write a f) = wr s a f"

fun store_run :: "('t \<Rightarrow> 's \<Rightarrow> Address \<Rightarrow> 's option) \<Rightarrow> ('s \<Rightarrow> Address \<Rightarrow> 's option) \<Rightarrow>
  ('s \<Rightarrow> Address \<Rightarrow> ('e \<Rightarrow> 'e) \<Rightarrow> 's option) \<Rightarrow> 's \<Rightarrow> ('t, 'e) line_op list \<Rightarrow> 's option" where
  "store_run al de wr s [] = Some s"
| "store_run al de wr s (x # xs) = do { s' \<leftarrow> store_op al de wr s x; store_run al de wr s' xs }"

text \<open>The calls a client may make: with the addresses \<open>adr\<close>, and with writes that keep the tag of the line.\<close>

fun op_ok :: "(Address \<Rightarrow> bool) \<Rightarrow> (('e \<Rightarrow> 'e) \<Rightarrow> bool) \<Rightarrow> ('t, 'e) line_op \<Rightarrow> bool" where
  "op_ok adr ok (Allocate t a) = adr a"
| "op_ok adr ok (Deallocate a) = adr a"
| "op_ok adr ok (Write a f) = (adr a \<and> ok f)"

locale line_map =
  fixes inv :: "'s \<Rightarrow> bool"
    and lk :: "'s \<Rightarrow> Address \<Rightarrow> 'e option"
    and fr :: "Address \<Rightarrow> 'e"
    and al :: "'t \<Rightarrow> 's \<Rightarrow> Address \<Rightarrow> 's option"
    and de :: "'s \<Rightarrow> Address \<Rightarrow> 's option"
    and wr :: "'s \<Rightarrow> Address \<Rightarrow> ('e \<Rightarrow> 'e) \<Rightarrow> 's option"
    and adr :: "Address \<Rightarrow> bool"
    and ok :: "('e \<Rightarrow> 'e) \<Rightarrow> bool"
  assumes al_law: "\<lbrakk>inv s; adr a; al t s a = Some s'\<rbrakk> \<Longrightarrow> inv s' \<and> lk s' = (lk s)(a \<mapsto> fr a)"
    and de_law: "\<lbrakk>inv s; adr a; de s a = Some s'\<rbrakk> \<Longrightarrow> inv s' \<and> lk s a \<noteq> None \<and> lk s' = (lk s)(a := None)"
    and wr_law: "\<lbrakk>inv s; adr a; ok f; wr s a f = Some s'\<rbrakk> \<Longrightarrow>
      inv s' \<and> lk s a \<noteq> None \<and> lk s' = (lk s)(a := map_option f (lk s a))"
    and de_total: "\<lbrakk>inv s; adr a; lk s a \<noteq> None\<rbrakk> \<Longrightarrow> de s a \<noteq> None"
    and wr_total: "\<lbrakk>inv s; adr a; lk s a \<noteq> None\<rbrakk> \<Longrightarrow> wr s a f \<noteq> None"
begin

lemma step_map:
  assumes i: "inv s" and x: "op_ok adr ok x" "store_op al de wr s x = Some s'"
  shows "inv s' \<and> lk s' = map_op fr (lk s) x"
proof (cases x)
  case (Allocate t a)
  then show ?thesis using al_law [OF i, of a t s'] x by simp
next
  case (Deallocate a)
  then show ?thesis using de_law [OF i, of a s'] x by simp
next
  case (Write a f)
  then show ?thesis using wr_law [OF i, of a f s'] x by simp
qed

lemma run_map:
  assumes "inv s" "\<forall>x \<in> set xs. op_ok adr ok x" "store_run al de wr s xs = Some s'"
  shows "inv s' \<and> lk s' = foldl (map_op fr) (lk s) xs"
  using assms
proof (induction xs arbitrary: s)
  case (Cons x xs)
  then obtain s1 where s1: "store_op al de wr s x = Some s1" "store_run al de wr s1 xs = Some s'"
    by (auto elim: bind_eq_SomeE)
  have step: "inv s1 \<and> lk s1 = map_op fr (lk s) x" using Cons.prems s1(1) by (intro step_map) simp_all
  then have "inv s' \<and> lk s' = foldl (map_op fr) (lk s1) xs"
    using Cons.prems(2) s1(2) by (intro Cons.IH) simp_all
  then show ?case using step by simp
qed simp

text \<open>A line can be deallocated exactly when it is allocated.\<close>

lemma de_iff: "\<lbrakk>inv s; adr a\<rbrakk> \<Longrightarrow> de s a \<noteq> None \<longleftrightarrow> lk s a \<noteq> None"
  using de_law de_total by blast

end

text \<open>A structure that also refuses to allocate a line twice.\<close>

locale line_store = line_map +
  assumes al_fresh: "\<lbrakk>inv s; adr a; al t s a = Some s'\<rbrakk> \<Longrightarrow> lk s a = None"
begin

lemma step_refines:
  assumes i: "inv s" and x: "op_ok adr ok x" "store_op al de wr s x = Some s'"
  shows "inv s' \<and> map_pre (lk s) x \<and> lk s' = map_op fr (lk s) x"
proof -
  have "map_pre (lk s) x" using x al_fresh [OF i] de_law [OF i] wr_law [OF i] by (cases x) auto
  then show ?thesis using step_map [OF assms] by blast
qed

lemma run_refines:
  assumes "inv s" "\<forall>x \<in> set xs. op_ok adr ok x" "store_run al de wr s xs = Some s'"
  shows "inv s' \<and> map_pres fr (lk s) xs \<and> lk s' = foldl (map_op fr) (lk s) xs"
proof -
  have "map_pres fr (lk s) xs" using assms
  proof (induction xs arbitrary: s)
    case (Cons x xs)
    then obtain s1 where s1: "store_op al de wr s x = Some s1" "store_run al de wr s1 xs = Some s'"
      by (auto elim: bind_eq_SomeE)
    have step: "inv s1 \<and> map_pre (lk s) x \<and> lk s1 = map_op fr (lk s) x"
      using Cons.prems s1(1) by (intro step_refines) simp_all
    then have "map_pres fr (lk s1) xs" using Cons.prems(2) s1(2) by (intro Cons.IH) simp_all
    then show ?case using step by simp
  qed simp
  then show ?thesis using run_map [OF assms] by blast
qed

text \<open>Allocating a line and removing it again restores the map.\<close>

lemma alloc_dealloc:
  assumes "inv s" "adr a" "al t s a = Some s1"
  obtains s2 where "de s1 a = Some s2" "inv s2" "lk s2 = lk s"
proof -
  have 1: "inv s1" "lk s a = None" "lk s1 = (lk s)(a \<mapsto> fr a)" using al_law al_fresh assms by blast+
  then obtain s2 where "de s1 a = Some s2" using de_total assms(2) by fastforce
  moreover have "(lk s)(a := None) = lk s" using 1(2) by (rule fun_upd_idem)
  ultimately show thesis using that de_law [OF 1(1) assms(2), of s2] 1(3) by simp
qed

end

end
