(* ===== verification/DataBlock_Model.thy ===== *)
theory DataBlock_Model
  imports Vector_Model Address_Model
begin

text \<open>
  The data of a cache line, \<^verbatim>\<open>common/DataBlock.h\<close> and \<^verbatim>\<open>common/DataBlock.C\<close>, and the part of a line that a
  request reads or writes, \<^verbatim>\<open>common/SubBlock.h\<close> and \<^verbatim>\<open>common/SubBlock.C\<close>.  Data is only kept when the
  configuration says so, the flags of \<open>block_env\<close>.  A sub-block stores its bytes in a vector of 32-bit
  unsigned integers and truncates on reading.  The main result is the round trip of merging.
\<close>

record block_env =
  DATA_BLOCK :: bool
  XACT_MEMORY :: bool

type_synonym DataBlock = "8 word vector"

abbreviation keeps_data :: "block_env \<Rightarrow> bool" where
  "keeps_data e \<equiv> DATA_BLOCK e \<or> XACT_MEMORY e"

definition db_clear :: "DataBlock \<Rightarrow> DataBlock option" where
  "db_clear d = vec_fill d 0 (nat (v_size d)) 0"

definition DataBlock_new :: "block_env \<Rightarrow> RubyConfig \<Rightarrow> DataBlock option" where
  "DataBlock_new e c = do {
     d \<leftarrow> (if keeps_data e then vec_setSize 0 vec_new (g_DATA_BLOCK_BYTES c) else Some vec_new);
     db_clear d
   }"

fun db_equal_loop :: "DataBlock \<Rightarrow> DataBlock \<Rightarrow> nat \<Rightarrow> nat \<Rightarrow> bool \<Rightarrow> bool option" where
  "db_equal_loop d obj i 0 v = Some v"
| "db_equal_loop d obj i (Suc n) v =
     (if v then do {
        x \<leftarrow> vec_ref d (int i);
        y \<leftarrow> vec_ref obj (int i);
        db_equal_loop d obj (Suc i) n (x = y)
      } else db_equal_loop d obj (Suc i) n False)"

definition db_equal :: "DataBlock \<Rightarrow> DataBlock \<Rightarrow> bool option" where
  "db_equal d obj = db_equal_loop d obj 0 (nat (v_size d)) True"

definition db_getByte :: "block_env \<Rightarrow> DataBlock \<Rightarrow> int \<Rightarrow> 8 word option" where
  "db_getByte e d whichByte = (if keeps_data e then vec_ref d whichByte else Some 0)"

definition db_setByte :: "block_env \<Rightarrow> DataBlock \<Rightarrow> int \<Rightarrow> 8 word \<Rightarrow> DataBlock option" where
  "db_setByte e d whichByte x = (if keeps_data e then vec_set d whichByte x else Some d)"

record SubBlock =
  sb_address :: Address
  sb_logicalAddress :: Address
  sb_data :: "32 word vector"

definition sb_getByte :: "SubBlock \<Rightarrow> int \<Rightarrow> 8 word option" where
  "sb_getByte s offset = map_option ucast (vec_ref (sb_data s) offset)"

definition sb_setByte :: "SubBlock \<Rightarrow> int \<Rightarrow> 8 word \<Rightarrow> SubBlock option" where
  "sb_setByte s offset x = map_option (\<lambda>v. s\<lparr>sb_data := v\<rparr>) (vec_set (sb_data s) offset (ucast x))"

fun sb_zero_loop :: "SubBlock \<Rightarrow> nat \<Rightarrow> nat \<Rightarrow> SubBlock option" where
  "sb_zero_loop s i 0 = Some s"
| "sb_zero_loop s i (Suc n) = do { s \<leftarrow> sb_setByte s (int i) 0; sb_zero_loop s (Suc i) n }"

definition SubBlock_new :: "Address \<Rightarrow> Address \<Rightarrow> int \<Rightarrow> SubBlock option" where
  "SubBlock_new addr logicalAddress sz = do {
     v \<leftarrow> vec_setSize 0 vec_new sz;
     sb_zero_loop \<lparr>sb_address = addr, sb_logicalAddress = logicalAddress, sb_data = v\<rparr> 0 (nat sz)
   }"

fun merge_from_loop :: "block_env \<Rightarrow> DataBlock \<Rightarrow> int \<Rightarrow> nat \<Rightarrow> nat \<Rightarrow> SubBlock \<Rightarrow> SubBlock option" where
  "merge_from_loop e d offset i 0 s = Some s"
| "merge_from_loop e d offset i (Suc n) s = do {
     x \<leftarrow> db_getByte e d (offset + int i);
     s \<leftarrow> sb_setByte s (int i) x;
     merge_from_loop e d offset (Suc i) n s
   }"

definition internalMergeFrom :: "block_env \<Rightarrow> RubyConfig \<Rightarrow> SubBlock \<Rightarrow> DataBlock \<Rightarrow> SubBlock option" where
  "internalMergeFrom e c s d = do {
     let sz = v_size (sb_data s);
     assert_that (sz > 0);
     off \<leftarrow> getOffset c (sb_address s);
     merge_from_loop e d (to_int32 off) 0 (nat sz) s
   }"

fun merge_to_loop :: "block_env \<Rightarrow> SubBlock \<Rightarrow> int \<Rightarrow> nat \<Rightarrow> nat \<Rightarrow> DataBlock \<Rightarrow> DataBlock option" where
  "merge_to_loop e s offset i 0 d = Some d"
| "merge_to_loop e s offset i (Suc n) d = do {
     x \<leftarrow> sb_getByte s (int i);
     d \<leftarrow> db_setByte e d (offset + int i) x;
     merge_to_loop e s offset (Suc i) n d
   }"

definition internalMergeTo :: "block_env \<Rightarrow> RubyConfig \<Rightarrow> SubBlock \<Rightarrow> DataBlock \<Rightarrow> DataBlock option" where
  "internalMergeTo e c s d = do {
     let sz = v_size (sb_data s);
     assert_that (sz > 0);
     off \<leftarrow> getOffset c (sb_address s);
     merge_to_loop e s (to_int32 off) 0 (nat sz) d
   }"

definition mergeTo :: "block_env \<Rightarrow> RubyConfig \<Rightarrow> SubBlock \<Rightarrow> DataBlock \<Rightarrow> DataBlock option" where
  "mergeTo e c s d = (if DATA_BLOCK e then internalMergeTo e c s d else Some d)"

definition mergeFrom :: "block_env \<Rightarrow> RubyConfig \<Rightarrow> SubBlock \<Rightarrow> DataBlock \<Rightarrow> SubBlock option" where
  "mergeFrom e c s d = (if DATA_BLOCK e then internalMergeFrom e c s d else Some s)"

subsection \<open>Views as byte lists\<close>

definition sb_bytes :: "SubBlock \<Rightarrow> 8 word list" where
  "sb_bytes s = map ucast (vec_list (sb_data s))"

lemma ucast_ucast_byte: "ucast (ucast (x :: 8 word) :: 32 word) = x"
  by (rule bit_word_eqI) (simp add: bit_simps)

lemma sb_setByte_Some:
  assumes "vec_inv (sb_data s)" "i < length (vec_list (sb_data s))"
  obtains s' where "sb_setByte s (int i) x = Some s'" "vec_inv (sb_data s')" "sb_bytes s' = (sb_bytes s)[i := x]"
    "length (vec_list (sb_data s')) = length (vec_list (sb_data s))" "sb_address s' = sb_address s"
    "v_size (sb_data s') = v_size (sb_data s)"
proof -
  have "int i < v_size (sb_data s)" using assms by simp
  then obtain v where "vec_set (sb_data s) (int i) (ucast x) = Some v" "vec_inv v"
    "vec_list v = (vec_list (sb_data s))[i := ucast x]" "v_size v = v_size (sb_data s)"
    using vec_set_Some [OF assms(1), of "int i" "ucast x"] by (metis nat_int of_nat_0_le_iff)
  then show thesis using that [of "s\<lparr>sb_data := v\<rparr>"]
    by (simp add: sb_setByte_def sb_bytes_def map_update ucast_ucast_byte)
qed

text \<open>What the two loops do to the byte lists.\<close>

lemma merge_to_loop_Some:
  assumes "keeps_data e"
  shows "\<lbrakk>vec_inv d; vec_inv (sb_data s); i + n = length (sb_bytes s); q + i + n \<le> length (vec_list d)\<rbrakk> \<Longrightarrow>
    \<exists>d'. merge_to_loop e s (int q) i n d = Some d' \<and> vec_inv d' \<and> v_size d' = v_size d \<and>
      vec_list d' = take (q + i) (vec_list d) @ drop i (sb_bytes s) @ drop (q + i + n) (vec_list d)"
proof (induction n arbitrary: i d)
  case 0
  then show ?case by simp
next
  case (Suc n)
  have len: "length (sb_bytes s) = length (vec_list (sb_data s))" by (simp add: sb_bytes_def)
  have x: "sb_getByte s (int i) = Some (sb_bytes s ! i)"
    using Suc.prems len by (simp add: sb_getByte_def vec_ref_eq sb_bytes_def)
  have "int (q + i) < v_size d" using Suc.prems by simp
  then obtain d1 where d1: "vec_set d (int (q + i)) (sb_bytes s ! i) = Some d1" "vec_inv d1"
    "vec_list d1 = (vec_list d)[q + i := sb_bytes s ! i]" "v_size d1 = v_size d"
    using vec_set_Some [OF Suc.prems(1), of "int (q + i)" "sb_bytes s ! i"] by (metis nat_int of_nat_0_le_iff)
  have "q + Suc i + n \<le> length (vec_list d1)" using Suc.prems(4) d1(3) by simp
  from Suc.IH [OF d1(2) Suc.prems(2) _ this] Suc.prems(3) obtain d' where
    d': "merge_to_loop e s (int q) (Suc i) n d1 = Some d'" "vec_inv d'" "v_size d' = v_size d1"
      "vec_list d' = take (q + Suc i) (vec_list d1) @ drop (Suc i) (sb_bytes s) @ drop (q + Suc i + n) (vec_list d1)" by auto
  have "drop i (sb_bytes s) = sb_bytes s ! i # drop (Suc i) (sb_bytes s)"
    using Suc.prems(3) by (simp add: Cons_nth_drop_Suc)
  moreover have "take (q + Suc i) (vec_list d1) = take (q + i) (vec_list d) @ [sb_bytes s ! i]"
    using Suc.prems(4) d1(3) by (simp add: take_Suc_conv_app_nth)
  ultimately have "vec_list d' = take (q + i) (vec_list d) @ drop i (sb_bytes s) @ drop (q + i + Suc n) (vec_list d)"
    using d'(4) d1(3) by simp
  moreover have "merge_to_loop e s (int q) i (Suc n) d = Some d'"
    using x d1(1) d'(1) assms by (auto simp: db_setByte_def)
  ultimately show ?case using d' d1(4) by auto
qed

lemma merge_from_loop_Some:
  assumes "keeps_data e"
  shows "\<lbrakk>vec_inv d; vec_inv (sb_data s); i + n = length (vec_list (sb_data s)); q + i + n \<le> length (vec_list d)\<rbrakk> \<Longrightarrow>
    \<exists>s'. merge_from_loop e d (int q) i n s = Some s' \<and> vec_inv (sb_data s') \<and>
      sb_bytes s' = take i (sb_bytes s) @ take n (drop (q + i) (vec_list d)) \<and> sb_address s' = sb_address s"
proof (induction n arbitrary: i s)
  case 0
  then show ?case by (simp add: sb_bytes_def)
next
  case (Suc n)
  let ?x = "vec_list d ! (q + i)"
  have "int (q + i) < v_size d" using Suc.prems by simp
  then have x: "db_getByte e d (int q + int i) = Some ?x"
    using assms Suc.prems(1) by (auto simp: db_getByte_def vec_ref_eq nat_add_distrib)
  obtain s1 where s1: "sb_setByte s (int i) ?x = Some s1" "vec_inv (sb_data s1)" "sb_bytes s1 = (sb_bytes s)[i := ?x]"
    "length (vec_list (sb_data s1)) = length (vec_list (sb_data s))" "sb_address s1 = sb_address s"
    by (rule sb_setByte_Some [OF Suc.prems(2), of i ?x]) (use Suc.prems(3) in auto)
  from Suc.IH [OF Suc.prems(1) s1(2), of "Suc i"] Suc.prems(3,4) s1(4) obtain s' where
    s': "merge_from_loop e d (int q) (Suc i) n s1 = Some s'" "vec_inv (sb_data s')"
      "sb_bytes s' = take (Suc i) (sb_bytes s1) @ take n (drop (q + Suc i) (vec_list d))" "sb_address s' = sb_address s1" by auto
  have "i < length (sb_bytes s)" using Suc.prems(3) by (simp add: sb_bytes_def)
  then have "take (Suc i) (sb_bytes s1) = take i (sb_bytes s) @ [?x]" by (simp add: s1(3) take_Suc_conv_app_nth)
  moreover have "take (Suc n) (drop (q + i) (vec_list d)) = ?x # take n (drop (q + Suc i) (vec_list d))"
    using Suc.prems(4) by (simp add: Cons_nth_drop_Suc [symmetric])
  ultimately show ?case using x s1(1,5) s' by auto
qed

subsection \<open>Properties\<close>

lemma offset_int:
  assumes "0 < g_DATA_BLOCK_BITS c" "g_DATA_BLOCK_BITS c \<le> 31"
  obtains x where "getOffset c a = Some x" "to_int32 x = int (unat a mod 2 ^ block_bits c)"
proof -
  obtain x where x: "getOffset c a = Some x" "unat x = unat a mod 2 ^ block_bits c" by (rule getOffset_Some [OF assms(1)])
  have "unat x < 2 ^ block_bits c" unfolding x(2) by simp
  also have "(2 :: nat) ^ block_bits c \<le> 2 ^ 31" using assms by (intro power_increasing) auto
  finally have "to_int32 x = int (unat x)" by (rule to_int32_small)
  with that x show thesis by simp
qed

text \<open>
  Merging a sub-block into its cache line and reading it back: when the bytes lie inside the line,
  \<^verbatim>\<open>mergeTo\<close> succeeds, replaces exactly the bytes from the offset of the address on, and leaves all other bytes of the
  line; \<^verbatim>\<open>mergeFrom\<close> of the result into any sub-block of the same address and size returns the bytes
  written.
\<close>
theorem subblock_merge_roundtrip:
  assumes e: "DATA_BLOCK e" and b: "0 < g_DATA_BLOCK_BITS c" "g_DATA_BLOCK_BITS c \<le> 31"
    and d: "vec_inv d" "vec_inv (sb_data s)" "0 < v_size (sb_data s)"
    and fit: "q = unat (sb_address s) mod 2 ^ block_bits c" "q + length (sb_bytes s) \<le> length (vec_list d)"
    and s2: "vec_inv (sb_data s2)" "sb_address s2 = sb_address s" "v_size (sb_data s2) = v_size (sb_data s)"
  shows "\<exists>d' s3. mergeTo e c s d = Some d' \<and>
    vec_list d' = take q (vec_list d) @ sb_bytes s @ drop (q + length (sb_bytes s)) (vec_list d) \<and>
    mergeFrom e c s2 d' = Some s3 \<and> sb_bytes s3 = sb_bytes s"
proof -
  obtain x where x: "getOffset c (sb_address s) = Some x" "to_int32 x = int q"
    using fit(1) by (metis offset_int [OF b])
  have n: "nat (v_size (sb_data s)) = length (sb_bytes s)" using d by (simp add: sb_bytes_def)
  from merge_to_loop_Some [of e d s 0 "length (sb_bytes s)" q] e d fit obtain d' where
    d': "merge_to_loop e s (int q) 0 (length (sb_bytes s)) d = Some d'" "vec_inv d'"
      "vec_list d' = take q (vec_list d) @ sb_bytes s @ drop (q + length (sb_bytes s)) (vec_list d)" by auto
  have n2: "length (vec_list (sb_data s2)) = length (sb_bytes s)" using s2 n by simp
  have "q + 0 + length (sb_bytes s) \<le> length (vec_list d')" using d'(3) fit(2) by simp
  from merge_from_loop_Some [of e d' s2 0 "length (sb_bytes s)" q, OF _ d'(2) s2(1) _ this] e n2 obtain s3 where
    s3: "merge_from_loop e d' (int q) 0 (length (sb_bytes s)) s2 = Some s3"
      "sb_bytes s3 = take (length (sb_bytes s)) (drop q (vec_list d'))" by auto
  have "sb_bytes s3 = sb_bytes s" using s3(2) d'(3) fit(2) by simp
  then show ?thesis using d' s3 x e d(3) n s2
    by (simp add: mergeTo_def mergeFrom_def internalMergeTo_def internalMergeFrom_def Let_def)
qed

theorem subblock_merge_roundtrip_witness:
  "\<exists>c d s d' s3. config_init True example_config = Some c \<and> DataBlock_new \<lparr>DATA_BLOCK = True, XACT_MEMORY = False\<rparr> c = Some d \<and>
     SubBlock_new 1000 0 4 = Some s \<and> mergeTo \<lparr>DATA_BLOCK = True, XACT_MEMORY = False\<rparr> c s d = Some d' \<and>
     mergeFrom \<lparr>DATA_BLOCK = True, XACT_MEMORY = False\<rparr> c s d' = Some s3 \<and> sb_bytes s3 = sb_bytes s"
proof -
  let ?e = "\<lparr>DATA_BLOCK = True, XACT_MEMORY = False\<rparr>"
  have run: "case Option.bind (config_init True example_config) (\<lambda>c. Option.bind (DataBlock_new ?e c)
      (\<lambda>d. Option.bind (SubBlock_new 1000 0 4) (\<lambda>s. Some (c, d, s)))) of
    Some (c, d, s) \<Rightarrow> g_DATA_BLOCK_BITS c = 6 \<and> vec_inv d \<and> vec_inv (sb_data s) \<and> v_size (sb_data s) = 4 \<and>
      sb_address s = 1000 \<and> length (vec_list d) = 64 \<and> length (sb_bytes s) = 4 | None \<Rightarrow> False"
    unfolding vec_inv_def by code_simp
  then obtain c d s where cds: "config_init True example_config = Some c" "DataBlock_new ?e c = Some d"
    "SubBlock_new 1000 0 4 = Some s" "g_DATA_BLOCK_BITS c = 6" "vec_inv d" "vec_inv (sb_data s)" "v_size (sb_data s) = 4"
    "sb_address s = 1000" "length (vec_list d) = 64" "length (sb_bytes s) = 4"
    by (auto split: option.splits elim!: bind_eq_SomeE)
  then show ?thesis using subblock_merge_roundtrip [of ?e c d s 40 s] by fastforce
qed

end
