(* ===== verification/Replacement_Model.thy ===== *)
theory Replacement_Model
  imports Ruby_Prelude
begin

text \<open>
  The cache replacement policies: \<^verbatim>\<open>system/AbstractReplacementPolicy.h\<close>, \<^verbatim>\<open>system/LRUPolicy.h\<close>
  and the tree-based \<^verbatim>\<open>system/PseudoLRUPolicy.h\<close>.  The trees are 64-bit words, one per set; the virtual
  calls of a cache are the dispatch functions \<open>touch\<close> and \<open>getVictim\<close> on the datatype \<open>Policy\<close>.
  An array access out of range, undefined in C++, is an abort.

  The contract \<open>replacement_policy\<close> is what a cache relies on: a touch in range succeeds, the victim is a
  way of the set, and a way that was just touched is not the next victim.
\<close>

unbundle bit_operations_syntax

record AbstractReplacementPolicy =
  rp_num_sets :: nat
  rp_assoc :: nat
  rp_last_ref :: "Time list list"

definition AbstractReplacementPolicy_new :: "nat \<Rightarrow> nat \<Rightarrow> AbstractReplacementPolicy" where
  "AbstractReplacementPolicy_new num_sets assoc =
     \<lparr>rp_num_sets = num_sets, rp_assoc = assoc, rp_last_ref = replicate num_sets (replicate assoc 0)\<rparr>"

definition array_ref :: "'a list \<Rightarrow> int \<Rightarrow> 'a option" where
  "array_ref xs i = (if 0 \<le> i \<and> i < int (length xs) then Some (xs ! nat i) else None)"

definition getLastAccess :: "('z) AbstractReplacementPolicy_scheme \<Rightarrow> Index \<Rightarrow> Index \<Rightarrow> Time option" where
  "getLastAccess p set_ix way = do { row \<leftarrow> array_ref (rp_last_ref p) set_ix; array_ref row way }"

definition set_last_ref :: "('z) AbstractReplacementPolicy_scheme \<Rightarrow> Index \<Rightarrow> Index \<Rightarrow> Time \<Rightarrow>
  ('z) AbstractReplacementPolicy_scheme" where
  "set_last_ref p set_ix way time =
     p\<lparr>rp_last_ref := (rp_last_ref p)[nat set_ix := (rp_last_ref p ! nat set_ix)[nat way := time]]\<rparr>"

subsection \<open>True LRU\<close>

definition lru_touch :: "AbstractReplacementPolicy \<Rightarrow> Index \<Rightarrow> Index \<Rightarrow> Time \<Rightarrow> AbstractReplacementPolicy option" where
  "lru_touch p set_ix index time = do {
     assert_that (index \<ge> 0 \<and> index < int (rp_assoc p));
     assert_that (set_ix \<ge> 0 \<and> set_ix < int (rp_num_sets p));
     Some (set_last_ref p set_ix index time)
   }"

fun lru_victim_loop :: "Time list \<Rightarrow> nat \<Rightarrow> nat \<Rightarrow> nat \<Rightarrow> Time \<Rightarrow> nat" where
  "lru_victim_loop row i 0 smallest_index smallest_time = smallest_index"
| "lru_victim_loop row i (Suc n) smallest_index smallest_time =
     (let time = row ! i in
      if time < smallest_time then lru_victim_loop row (Suc i) n i time
      else lru_victim_loop row (Suc i) n smallest_index smallest_time)"

definition lru_getVictim :: "AbstractReplacementPolicy \<Rightarrow> Index \<Rightarrow> Index option" where
  "lru_getVictim p set_ix = do {
     row \<leftarrow> array_ref (rp_last_ref p) set_ix;
     smallest_time \<leftarrow> array_ref row 0;
     Some (int (lru_victim_loop row 0 (rp_assoc p) 0 smallest_time))
   }"

subsection \<open>Pseudo LRU\<close>

record PseudoLRUPolicy = AbstractReplacementPolicy +
  m_effective_assoc :: nat
  m_num_levels :: nat
  m_trees :: "64 word list"

function ceil_power :: "nat \<Rightarrow> nat \<Rightarrow> nat" where
  "ceil_power e assoc = (if 0 < e \<and> e < assoc then ceil_power (push_bit 1 e) assoc else e)"
  by pat_completeness auto
termination
  by (relation "measure (\<lambda>(e, assoc). assoc - e)") (auto simp: push_bit_eq_mult)

declare ceil_power.simps [simp del]

function count_levels :: "nat \<Rightarrow> nat" where
  "count_levels assoc = (let half = assoc div 2 in if half = 0 then 0 else count_levels half + 1)"
  by pat_completeness auto
termination
  by (relation "measure id") auto

declare count_levels.simps [simp del]

definition PseudoLRUPolicy_new :: "int \<Rightarrow> int \<Rightarrow> PseudoLRUPolicy option" where
  "PseudoLRUPolicy_new num_sets assoc = do {
     assert_that (num_sets > 0 \<and> assoc > 1 \<and> assoc \<le> 32);
     let effective_assoc = ceil_power 1 (nat assoc);
     let num_levels = count_levels effective_assoc;
     assert_that (num_levels < 16);
     Some \<lparr>rp_num_sets = nat num_sets, rp_assoc = nat assoc,
       rp_last_ref = replicate (nat num_sets) (replicate (nat assoc) 0),
       m_effective_assoc = effective_assoc, m_num_levels = num_levels, m_trees = replicate (nat num_sets) 0\<rparr>
   }"

text \<open>The walk of \<^verbatim>\<open>touch\<close> from the root, levels counted down.\<close>

fun plru_touch_loop :: "nat \<Rightarrow> nat \<Rightarrow> nat \<Rightarrow> 64 word \<Rightarrow> 64 word" where
  "plru_touch_loop 0 index tree_index t = t"
| "plru_touch_loop (Suc i) index tree_index t =
     (let node_val = odd (index div 2 ^ i);
          t' = (if node_val then t OR push_bit tree_index 1 else t AND NOT (push_bit tree_index 1))
      in plru_touch_loop i index (if node_val then tree_index * 2 + 2 else tree_index * 2 + 1) t')"

definition plru_touch :: "PseudoLRUPolicy \<Rightarrow> Index \<Rightarrow> Index \<Rightarrow> Time \<Rightarrow> PseudoLRUPolicy option" where
  "plru_touch p set_ix index time = do {
     assert_that (index \<ge> 0 \<and> index < int (rp_assoc p));
     assert_that (set_ix \<ge> 0 \<and> set_ix < int (rp_num_sets p));
     let t = plru_touch_loop (m_num_levels p) (nat index) 0 (m_trees p ! nat set_ix);
     Some (set_last_ref (p\<lparr>m_trees := (m_trees p)[nat set_ix := t]\<rparr>) set_ix index time)
   }"

fun plru_victim_loop :: "nat \<Rightarrow> nat \<Rightarrow> nat \<Rightarrow> 64 word \<Rightarrow> nat \<Rightarrow> nat \<Rightarrow> nat" where
  "plru_victim_loop effective i 0 t tree_index index = index"
| "plru_victim_loop effective i (Suc n) t tree_index index =
     (let node_val = bit t tree_index
      in plru_victim_loop effective (Suc i) n t
           (if node_val then tree_index * 2 + 1 else tree_index * 2 + 2)
           (index + (if node_val then 0 else drop_bit (i + 1) effective)))"

definition plru_getVictim :: "PseudoLRUPolicy \<Rightarrow> Index \<Rightarrow> Index option" where
  "plru_getVictim p set_ix = do {
     t \<leftarrow> array_ref (m_trees p) set_ix;
     let index = int (plru_victim_loop (m_effective_assoc p) 0 (m_num_levels p) t 0 0);
     assert_that (index \<ge> 0 \<and> index < int (m_effective_assoc p));
     Some (if index > int (rp_assoc p) - 1 then int (rp_assoc p) - 1 else index)
   }"

subsection \<open>Dispatch\<close>

datatype Policy = LRU AbstractReplacementPolicy | PseudoLRU PseudoLRUPolicy

fun touch :: "Policy \<Rightarrow> Index \<Rightarrow> Index \<Rightarrow> Time \<Rightarrow> Policy option" where
  "touch (LRU p) set_ix way time = map_option LRU (lru_touch p set_ix way time)"
| "touch (PseudoLRU p) set_ix way time = map_option PseudoLRU (plru_touch p set_ix way time)"

fun getVictim :: "Policy \<Rightarrow> Index \<Rightarrow> Index option" where
  "getVictim (LRU p) set_ix = lru_getVictim p set_ix"
| "getVictim (PseudoLRU p) set_ix = plru_getVictim p set_ix"

fun policy_last_access :: "Policy \<Rightarrow> Index \<Rightarrow> Index \<Rightarrow> Time option" where
  "policy_last_access (LRU p) set_ix way = getLastAccess p set_ix way"
| "policy_last_access (PseudoLRU p) set_ix way = getLastAccess p set_ix way"

subsection \<open>Well-formed policies\<close>

definition rp_shape :: "nat \<Rightarrow> nat \<Rightarrow> ('z) AbstractReplacementPolicy_scheme \<Rightarrow> bool" where
  "rp_shape s a p \<longleftrightarrow> rp_num_sets p = s \<and> rp_assoc p = a \<and> 0 < a \<and> length (rp_last_ref p) = s \<and>
     (\<forall>row \<in> set (rp_last_ref p). length row = a)"

fun policy_inv :: "nat \<Rightarrow> nat \<Rightarrow> Policy \<Rightarrow> bool" where
  "policy_inv s a (LRU p) \<longleftrightarrow> rp_shape s a p"
| "policy_inv s a (PseudoLRU p) \<longleftrightarrow> rp_shape s a p \<and> 1 < a \<and> m_effective_assoc p = 2 ^ m_num_levels p \<and>
     0 < m_num_levels p \<and> m_num_levels p \<le> 5 \<and> a \<le> m_effective_assoc p \<and> m_effective_assoc p < 2 * a \<and>
     length (m_trees p) = s"

lemma rp_shape_set_last_ref:
  "rp_shape s a p \<Longrightarrow> rp_shape s a (set_last_ref p i w t)"
  by (cases "nat i < length (rp_last_ref p)")
    (auto simp: rp_shape_def set_last_ref_def list_update_beyond not_less dest!: subsetD [OF set_update_subset_insert])

lemma array_ref_Some [simp]: "\<lbrakk>0 \<le> i; i < int (length xs)\<rbrakk> \<Longrightarrow> array_ref xs i = Some (xs ! nat i)"
  by (simp add: array_ref_def)

lemma array_ref_nat [simp]: "k < length xs \<Longrightarrow> array_ref xs (int k) = Some (xs ! k)"
  by (simp add: array_ref_def)

lemma ceil_power_bounds:
  "\<lbrakk>0 < k; k < a\<rbrakk> \<Longrightarrow> \<exists>m > 0. ceil_power k a = k * 2 ^ m \<and> a \<le> k * 2 ^ m \<and> k * 2 ^ m < 2 * a"
proof (induction k a rule: ceil_power.induct)
  case (1 k a)
  show ?case
  proof (cases "2 * k < a")
    case True
    then have "\<exists>m > 0. ceil_power (push_bit 1 k) a = push_bit 1 k * 2 ^ m \<and> a \<le> push_bit 1 k * 2 ^ m \<and> push_bit 1 k * 2 ^ m < 2 * a"
      using "1.prems" by (intro "1.IH") (auto simp: push_bit_eq_mult)
    then obtain m where "ceil_power (2 * k) a = k * 2 ^ Suc m" "a \<le> k * 2 ^ Suc m" "k * 2 ^ Suc m < 2 * a"
      by (auto simp: push_bit_eq_mult mult_ac)
    then show ?thesis using "1.prems" by (intro exI [of _ "Suc m"]) (simp add: ceil_power.simps [of k] push_bit_eq_mult mult.commute)
  next
    case False
    then show ?thesis using "1.prems"
      by (intro exI [of _ 1]) (simp add: ceil_power.simps [of k] ceil_power.simps [of "k * 2"] push_bit_eq_mult mult.commute)
  qed
qed

lemma count_levels_power: "count_levels (2 ^ m) = m"
proof (induction m)
  case (Suc m)
  then show ?case by (subst count_levels.simps) simp
qed (simp add: count_levels.simps)

lemma PseudoLRUPolicy_new_inv:
  assumes "0 < s" "1 < a" "a \<le> 32"
  shows "\<exists>p. PseudoLRUPolicy_new (int s) (int a) = Some p \<and> policy_inv s a (PseudoLRU p)"
proof -
  obtain m where m: "0 < m" "ceil_power 1 a = 2 ^ m" "a \<le> 2 ^ m" "2 ^ m < 2 * a"
    using ceil_power_bounds [of 1 a] assms by auto
  have "(2 :: nat) ^ m < 2 ^ 6" using m(4) assms(3) by simp
  then have "m < 6" by (simp only: power_strict_increasing_iff one_less_numeral_iff semiring_norm)
  then show ?thesis using m assms by (simp add: PseudoLRUPolicy_new_def rp_shape_def count_levels_power)
qed

lemma AbstractReplacementPolicy_new_inv:
  "0 < a \<Longrightarrow> policy_inv s a (LRU (AbstractReplacementPolicy_new s a))"
  by (simp add: AbstractReplacementPolicy_new_def rp_shape_def)

lemma touch_Some:
  assumes "policy_inv s a p" "0 \<le> i" "i < int s" "0 \<le> w" "w < int a"
  shows "\<exists>p'. touch p i w t = Some p' \<and> policy_inv s a p'"
proof (cases p)
  case (LRU q)
  then show ?thesis using assms by (auto simp: lru_touch_def rp_shape_set_last_ref) (auto simp: rp_shape_def)
next
  case (PseudoLRU q)
  then show ?thesis using assms
    by (auto simp: plru_touch_def Let_def rp_shape_def set_last_ref_def dest!: subsetD [OF set_update_subset_insert])
qed

subsection \<open>The victim of LRU\<close>

lemma lru_victim_loop_min:
  "\<lbrakk>i + n = length row; m < length row; sm = row ! m; \<forall>k < i. sm \<le> row ! k\<rbrakk> \<Longrightarrow>
   lru_victim_loop row i n m sm < length row \<and> (\<forall>k < length row. row ! lru_victim_loop row i n m sm \<le> row ! k)"
proof (induction n arbitrary: i m sm)
  case (Suc n)
  show ?case
  proof (cases "row ! i < sm")
    case True
    with Suc.prems have "\<forall>k < Suc i. row ! i \<le> row ! k" by (auto simp: less_Suc_eq intro: order.trans less_imp_le)
    then show ?thesis using Suc.IH [of "Suc i" i "row ! i"] Suc.prems True by simp
  next
    case False
    with Suc.prems have "\<forall>k < Suc i. sm \<le> row ! k" by (auto simp: less_Suc_eq)
    then show ?thesis using Suc.IH [of "Suc i" m sm] Suc.prems False by simp
  qed
qed simp

lemma lru_getVictim_Some:
  assumes "rp_shape s a p" "0 \<le> i" "i < int s"
  shows "\<exists>v. lru_getVictim p i = Some (int v) \<and> v < a \<and>
    (\<forall>k < a. rp_last_ref p ! nat i ! v \<le> rp_last_ref p ! nat i ! k)"
proof -
  let ?row = "rp_last_ref p ! nat i"
  have l: "length ?row = a" "nat i < length (rp_last_ref p)" "0 < a" "rp_assoc p = a"
    using assms by (auto simp: rp_shape_def)
  have "lru_victim_loop ?row 0 a 0 (?row ! 0) < length ?row \<and>
    (\<forall>k < length ?row. ?row ! lru_victim_loop ?row 0 a 0 (?row ! 0) \<le> ?row ! k)"
    using l by (intro lru_victim_loop_min) auto
  then show ?thesis using assms l by (auto simp: lru_getVictim_def)
qed

subsection \<open>The victim of the tree\<close>

text \<open>The walk finds a number below the number of leaves under the node it stands on.\<close>

lemma plru_victim_bound:
  "plru_victim_loop (2 ^ (i + n)) i n t ti index < index + 2 ^ n"
proof (induction n arbitrary: i ti index)
  case (Suc n)
  have d: "drop_bit (i + 1) (2 ^ (i + Suc n)) = (2 :: nat) ^ n"
    by (simp add: drop_bit_eq_div power_add)
  have "plru_victim_loop (2 ^ (Suc i + n)) (Suc i) n t ti' (index + k) < index + 2 ^ Suc n"
    if "k \<le> 2 ^ n" for ti' k
    using Suc.IH [of "Suc i" ti' "index + k"] that by simp
  then show ?case using d by (auto simp: Let_def)
qed simp

lemma plru_victim_ge: "index \<le> plru_victim_loop e i n t ti index"
proof (induction n arbitrary: i ti index)
  case (Suc n)
  have "index + d \<le> plru_victim_loop e (Suc i) n t ti' (index + d)" for d ti' by (rule Suc.IH)
  then have "index \<le> plru_victim_loop e (Suc i) n t ti' (index + d)" for d ti' by (rule add_leD1)
  from this [of _ 0] this show ?case by (simp add: Let_def)
qed simp

text \<open>A touch below the root does not change the root's bit.\<close>

lemma plru_touch_other: "j < ti \<Longrightarrow> bit (plru_touch_loop n w ti t) j = bit t j"
proof (induction n arbitrary: ti t)
  case (Suc n)
  then show ?case by (auto simp: Let_def bit_simps dest: bit_imp_le_length)
qed simp

lemma plru_touch_root:
  "bit (plru_touch_loop (Suc n) w 0 t) 0 = odd (w div 2 ^ n)"
  by (simp add: Let_def plru_touch_other bit_simps)

lemma odd_top_bit: "w < 2 ^ Suc n \<Longrightarrow> odd (w div 2 ^ n) \<longleftrightarrow> 2 ^ n \<le> (w :: nat)"
proof -
  assume "w < 2 ^ Suc n"
  then have "w div 2 ^ n < 2" by (simp add: less_mult_imp_div_less)
  then have "odd (w div 2 ^ n) \<longleftrightarrow> 0 < w div 2 ^ n" by (auto simp: less_2_cases_iff)
  also have "\<dots> \<longleftrightarrow> 2 ^ n \<le> w" by (simp add: div_greater_zero_iff)
  finally show ?thesis .
qed

text \<open>After a touch of way \<open>w\<close> the victim lies in the other half of the ways.\<close>

lemma plru_victim_other_half:
  assumes "w < 2 ^ Suc n" "t' = plru_touch_loop (Suc n) w 0 t"
  shows "plru_victim_loop (2 ^ Suc n) 0 (Suc n) t' 0 0 < 2 ^ n \<longleftrightarrow> 2 ^ n \<le> w"
proof -
  have b: "bit t' 0 \<longleftrightarrow> 2 ^ n \<le> w" using assms plru_touch_root odd_top_bit by blast
  have h: "drop_bit (Suc 0) (2 ^ Suc n) = (2 :: nat) ^ n" by (simp add: drop_bit_eq_div)
  have "plru_victim_loop (2 ^ Suc n) 1 n t' ti 0 < 2 ^ n" for ti
    using plru_victim_bound [of 1 n t' ti 0] by simp
  moreover have "\<not> plru_victim_loop (2 ^ Suc n) 1 n t' ti (2 ^ n) < 2 ^ n" for ti
    using plru_victim_ge [of "2 ^ n"] by (simp add: not_less)
  ultimately show ?thesis using b h by (simp add: Let_def)
qed

lemma plru_getVictim_Some:
  assumes "policy_inv s a (PseudoLRU p)" "0 \<le> i" "i < int s"
  shows "plru_getVictim p i = Some (int (min (plru_victim_loop (2 ^ m_num_levels p) 0 (m_num_levels p) (m_trees p ! nat i) 0 0) (a - 1)))"
proof -
  have "plru_victim_loop (2 ^ (0 + m_num_levels p)) 0 (m_num_levels p) (m_trees p ! nat i) 0 0 < 0 + 2 ^ m_num_levels p"
    by (rule plru_victim_bound)
  then show ?thesis using assms by (auto simp: plru_getVictim_def Let_def rp_shape_def min_def)
qed

lemma other_half_min: "\<lbrakk>v < (h :: nat) \<longleftrightarrow> h \<le> w; h < a\<rbrakk> \<Longrightarrow> min v (a - 1) \<noteq> w"
  by (auto simp: min_def)

lemma plru_not_victim:
  assumes i: "policy_inv s a (PseudoLRU p)" and r: "0 \<le> i" "i < int s" "0 \<le> w" "w < int a"
    and t: "plru_touch p i w time = Some p'"
  shows "plru_getVictim p' i \<noteq> Some w"
proof -
  obtain n where n: "m_num_levels p = Suc n" using i by (cases "m_num_levels p") auto
  have a: "a \<le> 2 ^ Suc n" "2 ^ Suc n < 2 * a" "nat i < length (m_trees p)" using i n r by auto
  have p': "m_num_levels p' = Suc n" "m_trees p' ! nat i = plru_touch_loop (Suc n) (nat w) 0 (m_trees p ! nat i)"
    using t n a r by (auto simp: plru_touch_def Let_def set_last_ref_def split: if_splits)
  have "policy_inv s a (PseudoLRU p')" using touch_Some [OF i r, of time] t by simp
  note v = plru_getVictim_Some [OF this r(1,2), unfolded p']
  have w: "nat w < 2 ^ Suc n" using r a(1) by linarith
  let ?v = "plru_victim_loop (2 ^ Suc n) 0 (Suc n) (plru_touch_loop (Suc n) (nat w) 0 (m_trees p ! nat i)) 0 0"
  have "?v < 2 ^ n \<longleftrightarrow> 2 ^ n \<le> nat w" by (rule plru_victim_other_half [OF w refl])
  moreover have "2 ^ n < a" using a(2) by simp
  ultimately have "min ?v (a - 1) \<noteq> nat w" by (rule other_half_min)
  then show ?thesis unfolding v by (metis nat_int option.inject)
qed

subsection \<open>The contract\<close>

lemma lru_not_victim:
  assumes i: "policy_inv s a (LRU p)" and r: "0 \<le> i" "i < int s" "0 \<le> w" "w < int a"
    and t: "lru_touch p i w time = Some p'"
    and older: "\<exists>k < a. int k \<noteq> w \<and> rp_last_ref p ! nat i ! k < time"
  shows "lru_getVictim p' i \<noteq> Some w"
proof -
  have sh: "rp_shape s a p" "rp_shape s a p'" and p': "p' = set_last_ref p i w time"
    using i t rp_shape_set_last_ref [of s a p i w time] by (auto simp: lru_touch_def split: if_splits)
  obtain k where k: "k < a" "int k \<noteq> w" "rp_last_ref p ! nat i ! k < time" using older by blast
  have row: "nat i < length (rp_last_ref p)" "length (rp_last_ref p ! nat i) = a" using sh(1) r by (auto simp: rp_shape_def)
  then have "rp_last_ref p' ! nat i = (rp_last_ref p ! nat i)[nat w := time]" by (simp add: p' set_last_ref_def)
  then have "rp_last_ref p' ! nat i ! k < rp_last_ref p' ! nat i ! nat w" using k row r by (auto simp: nth_list_update)
  with lru_getVictim_Some [OF sh(2) r(1,2)] k(1) show ?thesis by fastforce
qed

fun older_way :: "Policy \<Rightarrow> Index \<Rightarrow> Index \<Rightarrow> Time \<Rightarrow> bool" where
  "older_way (LRU p) i w time \<longleftrightarrow> (\<exists>k < rp_assoc p. int k \<noteq> w \<and> rp_last_ref p ! nat i ! k < time)"
| "older_way (PseudoLRU p) i w time \<longleftrightarrow> True"

locale replacement_policy =
  fixes inv :: "nat \<Rightarrow> nat \<Rightarrow> 'p \<Rightarrow> bool"
    and tch :: "'p \<Rightarrow> Index \<Rightarrow> Index \<Rightarrow> Time \<Rightarrow> 'p option"
    and victim :: "'p \<Rightarrow> Index \<Rightarrow> Index option"
    and aged :: "'p \<Rightarrow> Index \<Rightarrow> Index \<Rightarrow> Time \<Rightarrow> bool"
  assumes tch_law: "\<lbrakk>inv s a p; 0 \<le> i; i < int s; 0 \<le> w; w < int a\<rbrakk> \<Longrightarrow> \<exists>p'. tch p i w t = Some p' \<and> inv s a p'"
    and victim_law: "\<lbrakk>inv s a p; 0 \<le> i; i < int s\<rbrakk> \<Longrightarrow> \<exists>v. victim p i = Some v \<and> 0 \<le> v \<and> v < int a"
    and recent_law: "\<lbrakk>inv s a p; 0 \<le> i; i < int s; 0 \<le> w; w < int a; tch p i w t = Some p'; aged p i w t\<rbrakk> \<Longrightarrow>
      victim p' i \<noteq> Some w"
begin

lemma tch_obtain:
  assumes "inv s a p" "0 \<le> i" "i < int s" "0 \<le> w" "w < int a"
  obtains p' where "tch p i w t = Some p'" "inv s a p'"
  using tch_law [OF assms] by blast

lemma tch_victim:
  assumes "inv s a p" "0 \<le> i" "i < int s" "0 \<le> w" "w < int a" "aged p i w t"
  shows "\<exists>p' v. tch p i w t = Some p' \<and> inv s a p' \<and> victim p' i = Some v \<and> 0 \<le> v \<and> v < int a \<and> v \<noteq> w"
proof -
  obtain p' where p': "tch p i w t = Some p'" "inv s a p'" using tch_law [OF assms(1-5)] by blast
  with victim_law [OF p'(2) assms(2,3)] recent_law [OF assms(1-5) p'(1) assms(6)] show ?thesis by auto
qed

end

interpretation rp: replacement_policy policy_inv touch getVictim older_way
proof (unfold_locales, goal_cases)
  case (1 s a p i w t)
  then show ?case by (rule touch_Some)
next
  case (2 s a p i)
  show ?case
  proof (cases p)
    case (LRU q)
    then show ?thesis using 2 lru_getVictim_Some [of s a q i] by auto
  next
    case (PseudoLRU q)
    then have "0 < a" using 2 by (simp add: rp_shape_def)
    then show ?thesis using 2 PseudoLRU plru_getVictim_Some [of s a q i] by (auto simp del: plru_victim_loop.simps)
  qed
next
  case (3 s a p i w t p')
  show ?case
  proof (cases p)
    case (LRU q)
    then have "rp_assoc q = a" using 3 by (simp add: rp_shape_def)
    then show ?thesis using 3 LRU lru_not_victim [of s a q i w t] by auto
  next
    case (PseudoLRU q)
    then show ?thesis using 3 plru_not_victim [of s a q i w t] by auto
  qed
qed

subsection \<open>Properties\<close>

text \<open>
  Both replacement policies protect the way just used: \<^verbatim>\<open>touch\<close> of any way of any set succeeds, and the
  following \<^verbatim>\<open>getVictim\<close> returns a way of the set other than the touched one.  For the tree-based policy this holds for every
  associativity from 2 to 32, powers of two or not, and its range assertion never fails; for LRU it
  needs some other way with an older time stamp.
\<close>
theorem replacement_protects_touched:
  assumes "policy_inv s a p" "0 \<le> i" "i < int s" "0 \<le> w" "w < int a" "older_way p i w t"
  shows "\<exists>p' v. touch p i w t = Some p' \<and> policy_inv s a p' \<and> getVictim p' i = Some v \<and> 0 \<le> v \<and> v < int a \<and> v \<noteq> w"
  by (rule rp.tch_victim [OF assms])

theorem replacement_protects_touched_witness:
  "\<exists>p p' v. PseudoLRUPolicy_new 4 6 = Some p \<and> touch (PseudoLRU p) 2 5 17 = Some p' \<and>
     getVictim p' 2 = Some v \<and> 0 \<le> v \<and> v < 6 \<and> v \<noteq> 5"
proof -
  obtain p where "PseudoLRUPolicy_new 4 6 = Some p" "policy_inv 4 6 (PseudoLRU p)"
    using PseudoLRUPolicy_new_inv [of 4 6] by auto
  then show ?thesis using replacement_protects_touched [of 4 6 "PseudoLRU p" 2 5 17] by auto
qed

text \<open>
  \<^verbatim>\<open>LRUPolicy::getVictim\<close> returns a way of the set whose time stamp is the smallest of the set.
\<close>
theorem lru_victim_is_oldest:
  assumes "policy_inv s a (LRU p)" "0 \<le> i" "i < int s"
  shows "\<exists>v. lru_getVictim p i = Some (int v) \<and> v < a \<and>
    (\<forall>k < a. \<exists>tv tk. getLastAccess p i (int v) = Some tv \<and> getLastAccess p i (int k) = Some tk \<and> tv \<le> tk)"
proof -
  have sh: "rp_shape s a p" using assms(1) by simp
  then have l: "nat i < length (rp_last_ref p)" "length (rp_last_ref p ! nat i) = a" using assms by (auto simp: rp_shape_def)
  then have "getLastAccess p i (int k) = Some (rp_last_ref p ! nat i ! k)" if "k < a" for k
    using that assms(2) by (simp add: getLastAccess_def)
  with lru_getVictim_Some [OF sh assms(2,3)] show ?thesis by auto
qed

theorem lru_victim_is_oldest_witness:
  "\<exists>v. lru_getVictim (AbstractReplacementPolicy_new 4 2) 3 = Some (int v) \<and> v < 2"
  using lru_victim_is_oldest [OF AbstractReplacementPolicy_new_inv [of 2 4], of 3] by auto

end
