(* ===== verification/Cache_Model.thy ===== *)
theory Cache_Model
  imports DataBlock_Model Replacement_Model Line_Store
begin

text \<open>
  The set-associative cache \<^verbatim>\<open>system/CacheMemory.h\<close>.  Its entries are generated by the protocol compiler: the
  three members the cache uses are fields, everything else is the polymorphic field \<open>ce_state\<close>, and a
  default-constructed entry is the argument \<open>entry0\<close>.  A reference to an entry or to its data block is the pair of
  set and way.  The time of the global event queue is the argument \<open>now\<close>.  The permissions and request types are those of
  \<^verbatim>\<open>protocols/RubySlicc_Exports.sm\<close>.

  Main results: the cache refines a finite map from line addresses to entries, \<^verbatim>\<open>allocate\<close> finds a free way whenever
  its assertions hold, a probe names a line of the same set that is present, and access checks respect permissions.
\<close>

datatype AccessPermission = Busy | Read_Only | Read_Write | Invalid | NotPresent | OnHold
  | ReadUpgradingToWrite | Stale

datatype CacheRequestType = LD | ST | ATOMIC | IFETCH | IO | REPLACEMENT | COMMIT | LD_XACT | LDX_XACT
  | ST_XACT | BEGIN_XACT | COMMIT_XACT | ABORT_XACT | MEM_FENCE | IDEAL_INV | NULL

record 'x cache_entry =
  ce_Address :: Address
  ce_Permission :: AccessPermission
  ce_DataBlk :: DataBlock
  ce_state :: 'x

record 'x CacheMemory =
  cm_machType :: MachineType
  cm_is_instruction_cache :: bool
  cm_cache :: "'x cache_entry list list"
  cm_replacementPolicy :: Policy
  cm_cache_num_sets :: int
  cm_cache_num_set_bits :: int
  cm_cache_assoc :: int

record cache_env =
  env_config :: RubyConfig
  env_types :: machine_types
  env_block :: block_env

abbreviation empty_entry :: "'x cache_entry \<Rightarrow> 'x cache_entry" where
  "empty_entry e \<equiv> e\<lparr>ce_Address := 0, ce_Permission := NotPresent\<rparr>"

definition make_policy :: "string \<Rightarrow> int \<Rightarrow> int \<Rightarrow> Policy option" where
  "make_policy g_REPLACEMENT_POLICY num_sets assoc =
     (if g_REPLACEMENT_POLICY = ''PSEDUO_LRU'' then map_option PseudoLRU (PseudoLRUPolicy_new num_sets assoc)
      else if g_REPLACEMENT_POLICY = ''LRU'' then Some (LRU (AbstractReplacementPolicy_new (nat num_sets) (nat assoc)))
      else None)"

definition CacheMemory_new ::
  "string \<Rightarrow> 'x cache_entry \<Rightarrow> int \<Rightarrow> int \<Rightarrow> MachineType \<Rightarrow> 'x CacheMemory option" where
  "CacheMemory_new g_REPLACEMENT_POLICY entry0 numSetBits cacheAssoc machType = do {
     let num_sets = push_bit (nat numSetBits) 1;
     policy \<leftarrow> make_policy g_REPLACEMENT_POLICY num_sets cacheAssoc;
     Some \<lparr>cm_machType = machType, cm_is_instruction_cache = False,
       cm_cache = replicate (nat num_sets) (replicate (nat cacheAssoc) (empty_entry entry0)),
       cm_replacementPolicy = policy, cm_cache_num_sets = num_sets,
       cm_cache_num_set_bits = numSetBits, cm_cache_assoc = cacheAssoc\<rparr>
   }"

definition setAsInstructionCache :: "'x CacheMemory \<Rightarrow> bool \<Rightarrow> 'x CacheMemory" where
  "setAsInstructionCache c is_icache = c\<lparr>cm_is_instruction_cache := is_icache\<rparr>"

definition addressToCacheSet :: "cache_env \<Rightarrow> 'x CacheMemory \<Rightarrow> Address \<Rightarrow> Index option" where
  "addressToCacheSet v c address = do {
     assert_that (address = line_address (env_config v) address);
     temp \<leftarrow> (if cm_machType c = mt_L1Cache (env_types v)
               then map_address_to_L1CacheSet (env_config v) address (cm_cache_num_set_bits c)
               else if cm_machType c = mt_L2Cache (env_types v)
               then map_address_to_L2CacheSet (env_config v) address (cm_cache_num_set_bits c)
               else None);
     assert_that (temp < cm_cache_num_sets c);
     assert_that (temp \<ge> 0);
     Some temp
   }"

text \<open>The loop over the ways of a set that all searches share: the first way with property \<open>P\<close>, or \<open>-1\<close>.\<close>

fun scan_ways :: "('e \<Rightarrow> bool) \<Rightarrow> 'e list \<Rightarrow> nat \<Rightarrow> nat \<Rightarrow> int option" where
  "scan_ways P row i 0 = Some (-1)"
| "scan_ways P row i (Suc n) = do {
     e \<leftarrow> array_ref row (int i);
     (if P e then Some (int i) else scan_ways P row (Suc i) n)
   }"

definition findTagInSet :: "cache_env \<Rightarrow> 'x CacheMemory \<Rightarrow> Index \<Rightarrow> Address \<Rightarrow> int option" where
  "findTagInSet v c cacheSet tag = do {
     assert_that (tag = line_address (env_config v) tag);
     row \<leftarrow> array_ref (cm_cache c) cacheSet;
     scan_ways (\<lambda>e. ce_Address e = tag \<and> ce_Permission e \<noteq> NotPresent) row 0 (nat (cm_cache_assoc c))
   }"

definition findTagInSetIgnorePermissions :: "cache_env \<Rightarrow> 'x CacheMemory \<Rightarrow> Index \<Rightarrow> Address \<Rightarrow> int option" where
  "findTagInSetIgnorePermissions v c cacheSet tag = do {
     assert_that (tag = line_address (env_config v) tag);
     row \<leftarrow> array_ref (cm_cache c) cacheSet;
     scan_ways (\<lambda>e. ce_Address e = tag) row 0 (nat (cm_cache_assoc c))
   }"

definition cm_entry :: "'x CacheMemory \<Rightarrow> Index \<Rightarrow> Index \<Rightarrow> 'x cache_entry option" where
  "cm_entry c cacheSet loc = do { row \<leftarrow> array_ref (cm_cache c) cacheSet; array_ref row loc }"

definition cm_update :: "'x CacheMemory \<Rightarrow> Index \<Rightarrow> Index \<Rightarrow> ('x cache_entry \<Rightarrow> 'x cache_entry) \<Rightarrow> 'x CacheMemory" where
  "cm_update c cacheSet loc f = c\<lparr>cm_cache := (cm_cache c)[nat cacheSet :=
     (cm_cache c ! nat cacheSet)[nat loc := f (cm_cache c ! nat cacheSet ! nat loc)]]\<rparr>"

definition flushCache :: "'x CacheMemory \<Rightarrow> 'x CacheMemory" where
  "flushCache c = c\<lparr>cm_cache := map (map empty_entry) (cm_cache c)\<rparr>"

definition cm_touch :: "'x CacheMemory \<Rightarrow> Index \<Rightarrow> Index \<Rightarrow> Time \<Rightarrow> 'x CacheMemory option" where
  "cm_touch c cacheSet loc now = do {
     p \<leftarrow> touch (cm_replacementPolicy c) cacheSet loc now;
     Some (c\<lparr>cm_replacementPolicy := p\<rparr>)
   }"

definition tryCacheAccess :: "cache_env \<Rightarrow> Time \<Rightarrow> 'x CacheMemory \<Rightarrow> Address \<Rightarrow> CacheRequestType \<Rightarrow>
  (bool \<times> (Index \<times> Index) option \<times> 'x CacheMemory) option" where
  "tryCacheAccess v now c address type = do {
     assert_that (address = line_address (env_config v) address);
     cacheSet \<leftarrow> addressToCacheSet v c address;
     loc \<leftarrow> findTagInSet v c cacheSet address;
     (if loc \<noteq> -1 then do {
        entry \<leftarrow> cm_entry c cacheSet loc;
        c \<leftarrow> cm_touch c cacheSet loc now;
        (if ce_Permission entry = Read_Write then Some (True, Some (cacheSet, loc), c)
         else if ce_Permission entry = Read_Only \<and> (type = LD \<or> type = IFETCH) then Some (True, Some (cacheSet, loc), c)
         else Some (False, None, c))
      } else Some (False, None, c))
   }"

definition testCacheAccess :: "cache_env \<Rightarrow> Time \<Rightarrow> 'x CacheMemory \<Rightarrow> Address \<Rightarrow> CacheRequestType \<Rightarrow>
  (bool \<times> (Index \<times> Index) option \<times> 'x CacheMemory) option" where
  "testCacheAccess v now c address type = do {
     assert_that (address = line_address (env_config v) address);
     cacheSet \<leftarrow> addressToCacheSet v c address;
     loc \<leftarrow> findTagInSet v c cacheSet address;
     (if loc \<noteq> -1 then do {
        entry \<leftarrow> cm_entry c cacheSet loc;
        c \<leftarrow> cm_touch c cacheSet loc now;
        Some (ce_Permission entry \<noteq> NotPresent, Some (cacheSet, loc), c)
      } else Some (False, None, c))
   }"

definition isTagPresent :: "cache_env \<Rightarrow> 'x CacheMemory \<Rightarrow> Address \<Rightarrow> bool option" where
  "isTagPresent v c address = do {
     assert_that (address = line_address (env_config v) address);
     cacheSet \<leftarrow> addressToCacheSet v c address;
     location \<leftarrow> findTagInSet v c cacheSet address;
     Some (location \<noteq> -1)
   }"

definition cacheAvail :: "cache_env \<Rightarrow> 'x CacheMemory \<Rightarrow> Address \<Rightarrow> bool option" where
  "cacheAvail v c address = do {
     assert_that (address = line_address (env_config v) address);
     cacheSet \<leftarrow> addressToCacheSet v c address;
     row \<leftarrow> array_ref (cm_cache c) cacheSet;
     i \<leftarrow> scan_ways (\<lambda>e. ce_Address e = address \<or> ce_Permission e = NotPresent) row 0 (nat (cm_cache_assoc c));
     Some (i \<noteq> -1)
   }"

definition allocate :: "cache_env \<Rightarrow> 'x cache_entry \<Rightarrow> Time \<Rightarrow> 'x CacheMemory \<Rightarrow> Address \<Rightarrow> 'x CacheMemory option" where
  "allocate v entry0 now c address = do {
     assert_that (address = line_address (env_config v) address);
     present \<leftarrow> isTagPresent v c address;
     assert_that (\<not> present);
     avail \<leftarrow> cacheAvail v c address;
     assert_that avail;
     cacheSet \<leftarrow> addressToCacheSet v c address;
     row \<leftarrow> array_ref (cm_cache c) cacheSet;
     i \<leftarrow> scan_ways (\<lambda>e. ce_Permission e = NotPresent) row 0 (nat (cm_cache_assoc c));
     (if i \<noteq> -1
      then cm_touch (cm_update c cacheSet i (\<lambda>_. entry0\<lparr>ce_Address := address, ce_Permission := Invalid\<rparr>)) cacheSet i now
      else None)
   }"

definition lookup :: "cache_env \<Rightarrow> 'x CacheMemory \<Rightarrow> Address \<Rightarrow> (Index \<times> Index) option" where
  "lookup v c address = do {
     assert_that (address = line_address (env_config v) address);
     cacheSet \<leftarrow> addressToCacheSet v c address;
     loc \<leftarrow> findTagInSet v c cacheSet address;
     assert_that (loc \<noteq> -1);
     Some (cacheSet, loc)
   }"

definition lookup_entry :: "cache_env \<Rightarrow> 'x CacheMemory \<Rightarrow> Address \<Rightarrow> 'x cache_entry option" where
  "lookup_entry v c address = do { (s, w) \<leftarrow> lookup v c address; cm_entry c s w }"

text \<open>Assigning to the entry, or to a field of it, through the reference that \<^verbatim>\<open>lookup\<close> returns.\<close>

definition lookup_write :: "cache_env \<Rightarrow> 'x CacheMemory \<Rightarrow> Address \<Rightarrow> ('x cache_entry \<Rightarrow> 'x cache_entry) \<Rightarrow>
  'x CacheMemory option" where
  "lookup_write v c address f = do { (s, w) \<leftarrow> lookup v c address; Some (cm_update c s w f) }"

definition deallocate :: "cache_env \<Rightarrow> 'x CacheMemory \<Rightarrow> Address \<Rightarrow> 'x CacheMemory option" where
  "deallocate v c address = do {
     assert_that (address = line_address (env_config v) address);
     present \<leftarrow> isTagPresent v c address;
     assert_that present;
     (s, w) \<leftarrow> lookup v c address;
     Some (cm_update c s w (\<lambda>e. e\<lparr>ce_Permission := NotPresent\<rparr>))
   }"

definition cacheProbe :: "cache_env \<Rightarrow> 'x CacheMemory \<Rightarrow> Address \<Rightarrow> Address option" where
  "cacheProbe v c address = do {
     assert_that (address = line_address (env_config v) address);
     avail \<leftarrow> cacheAvail v c address;
     assert_that (\<not> avail);
     cacheSet \<leftarrow> addressToCacheSet v c address;
     victim \<leftarrow> getVictim (cm_replacementPolicy c) cacheSet;
     e \<leftarrow> cm_entry c cacheSet victim;
     Some (ce_Address e)
   }"

definition getPermission :: "cache_env \<Rightarrow> 'x CacheMemory \<Rightarrow> Address \<Rightarrow> AccessPermission option" where
  "getPermission v c address = do {
     assert_that (address = line_address (env_config v) address);
     e \<leftarrow> lookup_entry v c address;
     Some (ce_Permission e)
   }"

definition changePermission :: "cache_env \<Rightarrow> 'x CacheMemory \<Rightarrow> Address \<Rightarrow> AccessPermission \<Rightarrow> 'x CacheMemory option" where
  "changePermission v c address new_perm = do {
     assert_that (address = line_address (env_config v) address);
     (s, w) \<leftarrow> lookup v c address;
     let c = cm_update c s w (\<lambda>e. e\<lparr>ce_Permission := new_perm\<rparr>);
     p \<leftarrow> getPermission v c address;
     assert_that (p = new_perm);
     Some c
   }"

definition setMRU :: "cache_env \<Rightarrow> Time \<Rightarrow> 'x CacheMemory \<Rightarrow> Address \<Rightarrow> 'x CacheMemory option" where
  "setMRU v now c address = do {
     cacheSet \<leftarrow> addressToCacheSet v c address;
     loc \<leftarrow> findTagInSet v c cacheSet address;
     cm_touch c cacheSet loc now
   }"

definition record_type :: "'x CacheMemory \<Rightarrow> AccessPermission \<Rightarrow> CacheRequestType" where
  "record_type c perm =
     (if perm = Read_Only then (if cm_is_instruction_cache c then IFETCH else LD)
      else if perm = Read_Write then ST else NULL)"

definition recordCacheContents :: "'x CacheMemory \<Rightarrow> (Address \<times> CacheRequestType \<times> Time option) list" where
  "recordCacheContents c = concat (map (\<lambda>i. concat (map (\<lambda>j.
     let e = cm_cache c ! i ! j; t = record_type c (ce_Permission e) in
     if t \<noteq> NULL then [(ce_Address e, t, policy_last_access (cm_replacementPolicy c) (int i) (int j))] else [])
     [0..<nat (cm_cache_assoc c)])) [0..<nat (cm_cache_num_sets c)])"

fun get_bytes :: "block_env \<Rightarrow> DataBlock \<Rightarrow> int \<Rightarrow> nat \<Rightarrow> nat \<Rightarrow> 8 word list option" where
  "get_bytes e d startByte i 0 = Some []"
| "get_bytes e d startByte i (Suc n) = do {
     x \<leftarrow> db_getByte e d (int i + startByte);
     xs \<leftarrow> get_bytes e d startByte (Suc i) n;
     Some (x # xs)
   }"

fun set_bytes :: "block_env \<Rightarrow> DataBlock \<Rightarrow> int \<Rightarrow> nat \<Rightarrow> 8 word list \<Rightarrow> DataBlock option" where
  "set_bytes e d startByte i [] = Some d"
| "set_bytes e d startByte i (x # xs) = do {
     d \<leftarrow> db_setByte e d (int i + startByte) x;
     set_bytes e d startByte (Suc i) xs
   }"

definition getMemoryValue :: "cache_env \<Rightarrow> 'x CacheMemory \<Rightarrow> Address \<Rightarrow> nat \<Rightarrow> 8 word list option" where
  "getMemoryValue v c addr size_in_bytes = do {
     entry \<leftarrow> lookup_entry v c (line_address (env_config v) addr);
     let startByte = int (unat (addr - line_address (env_config v) addr));
     get_bytes (env_block v) (ce_DataBlk entry) startByte 0 size_in_bytes
   }"

definition setMemoryValue :: "cache_env \<Rightarrow> 'x CacheMemory \<Rightarrow> Address \<Rightarrow> 8 word list \<Rightarrow> 'x CacheMemory option" where
  "setMemoryValue v c addr bytes = do {
     (s, w) \<leftarrow> lookup v c (line_address (env_config v) addr);
     entry \<leftarrow> cm_entry c s w;
     let startByte = int (unat (addr - line_address (env_config v) addr));
     assert_that (bytes \<noteq> []);
     d \<leftarrow> set_bytes (env_block v) (ce_DataBlk entry) startByte 0 bytes;
     Some (cm_update c s w (\<lambda>e. e\<lparr>ce_DataBlk := d\<rparr>))
   }"

subsection \<open>Searching a set\<close>

lemma scan_ways_cases:
  assumes "i + n = length row"
  obtains "scan_ways P row i n = Some (-1)" "\<forall>k. i \<le> k \<longrightarrow> k < length row \<longrightarrow> \<not> P (row ! k)"
  | k where "scan_ways P row i n = Some (int k)" "i \<le> k" "k < length row" "P (row ! k)"
proof -
  have "scan_ways P row i n = Some (-1) \<and> (\<forall>k. i \<le> k \<longrightarrow> k < length row \<longrightarrow> \<not> P (row ! k)) \<or>
    (\<exists>k. scan_ways P row i n = Some (int k) \<and> i \<le> k \<and> k < length row \<and> P (row ! k))"
    using assms
  proof (induction n arbitrary: i)
    case 0
    then show ?case by simp
  next
    case (Suc n)
    then have i: "i < length row" by simp
    show ?case
    proof (cases "P (row ! i)")
      case True
      then show ?thesis using i by auto
    next
      case False
      have "Suc i + n = length row" using Suc.prems by simp
      from Suc.IH [OF this] show ?thesis
      proof (elim disjE conjE exE)
        assume a: "scan_ways P row (Suc i) n = Some (-1)" "\<forall>k. Suc i \<le> k \<longrightarrow> k < length row \<longrightarrow> \<not> P (row ! k)"
        then have "\<forall>k. i \<le> k \<longrightarrow> k < length row \<longrightarrow> \<not> P (row ! k)" using False by (metis le_antisym not_less_eq_eq)
        then show ?thesis using a(1) False i by simp
      next
        fix k assume "scan_ways P row (Suc i) n = Some (int k)" "Suc i \<le> k" "k < length row" "P (row ! k)"
        then show ?thesis using False i by (intro disjI2 exI [of _ k]) simp
      qed
    qed
  qed
  then show thesis using that by blast
qed

text \<open>Searching a list in which at most one element has the property.\<close>

definition at_most_one :: "('a \<Rightarrow> bool) \<Rightarrow> 'a list \<Rightarrow> bool" where
  "at_most_one P xs \<longleftrightarrow> (\<forall>i < length xs. \<forall>j < length xs. P (xs ! i) \<longrightarrow> P (xs ! j) \<longrightarrow> i = j)"

lemma find_at_most_one:
  assumes "at_most_one P xs" "k < length xs" "P (xs ! k)"
  shows "find P xs = Some (xs ! k)"
proof -
  have "\<exists>i < length xs. P (xs ! i) \<and> xs ! k = xs ! i \<and> (\<forall>j < i. \<not> P (xs ! j))"
    using assms unfolding at_most_one_def by (intro exI [of _ k]) (metis less_trans nat_neq_iff)
  then show ?thesis by (simp add: find_Some_iff)
qed

lemma find_update:
  assumes "at_most_one P (xs[k := e])" "k < length xs" "P e"
  shows "find P (xs[k := e]) = Some e"
  using find_at_most_one [of P "xs[k := e]" k] assms by simp

lemma find_update_other:
  assumes "\<not> P e" "k < length xs" "\<not> P (xs ! k)"
  shows "find P (xs[k := e]) = find P xs"
  using assms
proof (induction xs arbitrary: k)
  case (Cons x xs)
  then show ?case by (cases k) auto
qed simp

lemma find_update_removed:
  assumes "at_most_one P xs" "k < length xs" "P (xs ! k)" "\<not> P e"
  shows "find P (xs[k := e]) = None"
proof -
  have "\<not> P (xs[k := e] ! j)" if "j < length xs" for j
    using assms that by (cases "j = k") (auto simp: at_most_one_def)
  then show ?thesis by (auto simp: find_None_iff in_set_conv_nth)
qed

subsection \<open>The invariant\<close>

definition tag_match :: "Address \<Rightarrow> 'x cache_entry \<Rightarrow> bool" where
  "tag_match a e \<longleftrightarrow> ce_Address e = a \<and> ce_Permission e \<noteq> NotPresent"

definition env_ok :: "cache_env \<Rightarrow> 'x CacheMemory \<Rightarrow> bool" where
  "env_ok v c \<longleftrightarrow> 0 \<le> g_DATA_BLOCK_BITS (env_config v) \<and> 0 \<le> g_NUM_L2_BANKS_PER_CHIP_BITS (env_config v) \<and>
     (cm_machType c = mt_L1Cache (env_types v) \<or> cm_machType c = mt_L2Cache (env_types v)) \<and>
     0 < cm_cache_num_set_bits c \<and> cm_cache_num_set_bits c \<le> 30 \<and> cm_cache_num_sets c = 2 ^ nat (cm_cache_num_set_bits c)"

definition cm_shape :: "'x CacheMemory \<Rightarrow> bool" where
  "cm_shape c \<longleftrightarrow> 0 < cm_cache_assoc c \<and> length (cm_cache c) = nat (cm_cache_num_sets c) \<and>
     (\<forall>row \<in> set (cm_cache c). length row = nat (cm_cache_assoc c)) \<and>
     policy_inv (nat (cm_cache_num_sets c)) (nat (cm_cache_assoc c)) (cm_replacementPolicy c)"

text \<open>Every present entry is in the set of its address, and no line is present twice.\<close>

definition cm_inv :: "cache_env \<Rightarrow> 'x CacheMemory \<Rightarrow> bool" where
  "cm_inv v c \<longleftrightarrow> env_ok v c \<and> cm_shape c \<and>
     (\<forall>s < length (cm_cache c). (\<forall>e \<in> set (cm_cache c ! s). ce_Permission e \<noteq> NotPresent \<longrightarrow>
        addressToCacheSet v c (ce_Address e) = Some (int s)) \<and>
        (\<forall>a. at_most_one (tag_match a) (cm_cache c ! s)))"

lemma addressToCacheSet_cong [simp]:
  "addressToCacheSet v (c\<lparr>cm_cache := m\<rparr>) a = addressToCacheSet v c a"
  "addressToCacheSet v (c\<lparr>cm_replacementPolicy := p\<rparr>) a = addressToCacheSet v c a"
  "addressToCacheSet v (cm_update c s w f) a = addressToCacheSet v c a"
  by (simp_all add: addressToCacheSet_def cm_update_def)

lemma env_ok_cong [simp]:
  "env_ok v (c\<lparr>cm_cache := m\<rparr>) = env_ok v c" "env_ok v (c\<lparr>cm_replacementPolicy := p\<rparr>) = env_ok v c"
  by (simp_all add: env_ok_def)

lemma addressToCacheSet_Some:
  assumes "env_ok v c" "a = line_address (env_config v) a"
  obtains s where "addressToCacheSet v c a = Some (int s)" "s < nat (cm_cache_num_sets c)"
proof -
  let ?n = "cm_cache_num_set_bits c" and ?c = "env_config v"
  have k: "0 \<le> g_DATA_BLOCK_BITS ?c" "0 \<le> g_DATA_BLOCK_BITS ?c + g_NUM_L2_BANKS_PER_CHIP_BITS ?c" "0 < ?n" "?n \<le> 31"
    "cm_cache_num_sets c = 2 ^ nat ?n" using assms(1) by (auto simp: env_ok_def)
  have L1: "map_address_to_L1CacheSet ?c a ?n = Some (int (unat a div 2 ^ block_bits ?c mod 2 ^ nat ?n))"
    using bitSelect_field [OF k(1,3,4), of a] by (simp add: map_address_to_L1CacheSet_def)
  have L2: "\<exists>lo. map_address_to_L2CacheSet ?c a ?n = Some (int (unat a div 2 ^ nat lo mod 2 ^ nat ?n))"
    using bitSelect_field [OF k(1,3,4), of a] bitSelect_field [OF k(2,3,4), of a]
    by (auto simp: map_address_to_L2CacheSet_def)
  obtain lo where "(if cm_machType c = mt_L1Cache (env_types v) then map_address_to_L1CacheSet ?c a ?n
      else if cm_machType c = mt_L2Cache (env_types v) then map_address_to_L2CacheSet ?c a ?n else None) =
    Some (int (unat a div 2 ^ nat lo mod 2 ^ nat ?n))"
    using assms(1) L1 L2 by (cases "cm_machType c = mt_L1Cache (env_types v)") (auto simp: env_ok_def)
  then have "addressToCacheSet v c a = Some (int (unat a div 2 ^ nat lo mod 2 ^ nat ?n))"
    using assms(2) field_range [of "unat a" "2 ^ nat lo" "nat ?n"] k(5)
    by (simp add: addressToCacheSet_def del: of_nat_mod of_nat_div)
  moreover have "unat a div 2 ^ nat lo mod 2 ^ nat ?n < nat (cm_cache_num_sets c)"
    unfolding k(5) by (simp add: nat_power_eq)
  ultimately show thesis using that by blast
qed

lemma addressToCacheSet_aligned:
  "addressToCacheSet v c a = Some s \<Longrightarrow> a = line_address (env_config v) a \<and> 0 \<le> s \<and> s < cm_cache_num_sets c"
  by (auto simp: addressToCacheSet_def split: if_splits elim!: bind_eq_SomeE)

text \<open>The result of a search for a line.\<close>

lemma tag_search:
  assumes i: "cm_inv v c" and s: "addressToCacheSet v c a = Some (int s)" "s < nat (cm_cache_num_sets c)"
  obtains (absent) "findTagInSet v c (int s) a = Some (-1)" "lookup v c a = None" "isTagPresent v c a = Some False"
      "lookup_entry v c a = None" "\<forall>k < nat (cm_cache_assoc c). \<not> tag_match a (cm_cache c ! s ! k)"
      "find (tag_match a) (cm_cache c ! s) = None"
  | (present) k where "findTagInSet v c (int s) a = Some (int k)" "k < nat (cm_cache_assoc c)" "tag_match a (cm_cache c ! s ! k)"
      "lookup v c a = Some (int s, int k)" "isTagPresent v c a = Some True"
      "lookup_entry v c a = Some (cm_cache c ! s ! k)" "cm_entry c (int s) (int k) = Some (cm_cache c ! s ! k)"
      "find (tag_match a) (cm_cache c ! s) = Some (cm_cache c ! s ! k)"
proof -
  let ?row = "cm_cache c ! s"
  have al: "a = line_address (env_config v) a" using addressToCacheSet_aligned [OF s(1)] by blast
  have len: "s < length (cm_cache c)" "length ?row = nat (cm_cache_assoc c)"
    using i s(2) by (auto simp: cm_inv_def cm_shape_def)
  have one: "at_most_one (tag_match a) ?row" using i len(1) by (auto simp: cm_inv_def)
  have f: "findTagInSet v c (int s) a = scan_ways (tag_match a) ?row 0 (nat (cm_cache_assoc c))"
    using al len(1) by (simp add: findTagInSet_def tag_match_def [abs_def])
  have "0 + nat (cm_cache_assoc c) = length ?row" using len by simp
  then show thesis
  proof (cases rule: scan_ways_cases [of 0 _ ?row "tag_match a"])
    case 1
    then have "find (tag_match a) ?row = None" by (auto simp: find_None_iff in_set_conv_nth)
    then show thesis using 1 f s al len by (intro absent) (simp_all add: lookup_def isTagPresent_def lookup_entry_def)
  next
    case (2 k)
    then show thesis using f s al len find_at_most_one [OF one, of k]
      by (intro present [of k]) (simp_all add: lookup_def isTagPresent_def lookup_entry_def cm_entry_def)
  qed
qed

lemma lookup_entry_find:
  assumes "cm_inv v c" "addressToCacheSet v c a = Some (int s)" "s < nat (cm_cache_num_sets c)"
  shows "lookup_entry v c a = find (tag_match a) (cm_cache c ! s)"
  by (cases rule: tag_search [OF assms]) simp_all

lemma lookup_entry_misaligned: "addressToCacheSet v c a = None \<Longrightarrow> lookup_entry v c a = None"
  by (simp add: lookup_entry_def lookup_def)

subsection \<open>Updating one entry\<close>

lemma cm_update_row:
  assumes "cm_shape c" "s < length (cm_cache c)"
  shows "cm_cache (cm_update c (int s) (int k) f) ! t =
    (if t = s then (cm_cache c ! s)[k := f (cm_cache c ! s ! k)] else cm_cache c ! t)"
  using assms by (auto simp: cm_update_def nth_list_update)

lemma cm_shape_update: "cm_shape c \<Longrightarrow> s < length (cm_cache c) \<Longrightarrow> cm_shape (cm_update c (int s) (int k) f)"
  unfolding cm_shape_def cm_update_def
  by (auto dest!: subsetD [OF set_update_subset_insert])

lemma at_most_one_update:
  assumes "at_most_one P xs" "\<And>j. \<lbrakk>j < length xs; j \<noteq> k; P e\<rbrakk> \<Longrightarrow> \<not> P (xs ! j)"
  shows "at_most_one P (xs[k := e])"
  unfolding at_most_one_def
proof (intro allI impI)
  fix i j assume *: "i < length (xs[k := e])" "j < length (xs[k := e])" "P (xs[k := e] ! i)" "P (xs[k := e] ! j)"
  have len: "i < length xs" "j < length xs" using * by simp_all
  have old: "xs ! n = xs[k := e] ! n" if "n \<noteq> k" for n using that by simp
  have "\<not> P (xs ! n)" if "P e" "n < length xs" "n \<noteq> k" for n using assms(2) that by blast
  moreover have "P e" if "i = k \<or> j = k" using that * len by (metis nth_list_update_eq)
  ultimately have "i = k \<longleftrightarrow> j = k" using * old len by metis
  moreover have "i = j" if "i \<noteq> k" "j \<noteq> k"
    using assms(1) * len old [OF that(1)] old [OF that(2)] unfolding at_most_one_def by metis
  ultimately show "i = j" by blast
qed

lemma cm_inv_update:
  assumes i: "cm_inv v c" and s: "s < nat (cm_cache_num_sets c)" "k < nat (cm_cache_assoc c)"
    and e: "e = f (cm_cache c ! s ! k)"
    and pres: "ce_Permission e \<noteq> NotPresent \<Longrightarrow> addressToCacheSet v c (ce_Address e) = Some (int s)"
    and uniq: "\<And>j. \<lbrakk>ce_Permission e \<noteq> NotPresent; j < nat (cm_cache_assoc c); j \<noteq> k\<rbrakk> \<Longrightarrow>
      \<not> tag_match (ce_Address e) (cm_cache c ! s ! j)"
  shows "cm_inv v (cm_update c (int s) (int k) f)"
proof -
  let ?c = "cm_update c (int s) (int k) f"
  have sh: "cm_shape c" "s < length (cm_cache c)" "length (cm_cache c ! s) = nat (cm_cache_assoc c)"
    using i s by (auto simp: cm_inv_def cm_shape_def)
  note row = cm_update_row [OF sh(1,2), of k f]
  have env: "env_ok v ?c" using i by (simp add: cm_inv_def cm_update_def)
  have "at_most_one (tag_match a) (cm_cache ?c ! t)" if "t < length (cm_cache c)" for a t
  proof (cases "t = s")
    case True
    have "at_most_one (tag_match a) ((cm_cache c ! s)[k := e])"
      using i sh uniq by (intro at_most_one_update) (auto simp: cm_inv_def tag_match_def)
    then show ?thesis using row e True by simp
  next
    case False
    then show ?thesis using i that row by (simp add: cm_inv_def)
  qed
  moreover have "addressToCacheSet v c (ce_Address x) = Some (int t)"
    if "t < length (cm_cache c)" "x \<in> set (cm_cache ?c ! t)" "ce_Permission x \<noteq> NotPresent" for t x
  proof (cases "t = s \<and> x = e")
    case True
    then show ?thesis using pres that(3) by simp
  next
    case False
    then have "x \<in> set (cm_cache c ! t)"
      using that(2) row e by (auto split: if_splits dest!: subsetD [OF set_update_subset_insert])
    then show ?thesis using i that by (auto simp: cm_inv_def)
  qed
  moreover have "length (cm_cache ?c) = length (cm_cache c)" by (simp add: cm_update_def)
  ultimately show ?thesis using env cm_shape_update [OF sh(1,2)] by (simp add: cm_inv_def)
qed

lemma lookup_after_update:
  assumes i: "cm_inv v c" "cm_inv v (cm_update c (int s) (int k) f)" and s: "s < nat (cm_cache_num_sets c)"
  shows "lookup_entry v (cm_update c (int s) (int k) f) b =
    (if addressToCacheSet v c b = Some (int s)
     then find (tag_match b) ((cm_cache c ! s)[k := f (cm_cache c ! s ! k)]) else lookup_entry v c b)"
proof (cases "addressToCacheSet v c b")
  case None
  then show ?thesis by (simp add: lookup_entry_misaligned)
next
  case (Some t')
  then obtain t where t: "addressToCacheSet v c b = Some (int t)" "t < nat (cm_cache_num_sets c)"
    using addressToCacheSet_aligned [OF Some] by (metis nat_0_le nat_less_eq_zless)
  have sh: "cm_shape c" "s < length (cm_cache c)" using i(1) s by (auto simp: cm_inv_def cm_shape_def)
  have n: "cm_cache_num_sets (cm_update c (int s) (int k) f) = cm_cache_num_sets c" by (simp add: cm_update_def)
  have "lookup_entry v (cm_update c (int s) (int k) f) b = find (tag_match b) (cm_cache (cm_update c (int s) (int k) f) ! t)"
    using t n by (intro lookup_entry_find [OF i(2)]) simp_all
  then show ?thesis using t lookup_entry_find [OF i(1) t] cm_update_row [OF sh, of k f t] by auto
qed

text \<open>Touching the replacement policy changes no entry.\<close>

lemma cm_touch_Some:
  assumes i: "cm_inv v c" and s: "s < nat (cm_cache_num_sets c)" "k < nat (cm_cache_assoc c)"
  obtains p where "cm_touch c (int s) (int k) now = Some (c\<lparr>cm_replacementPolicy := p\<rparr>)"
    "cm_inv v (c\<lparr>cm_replacementPolicy := p\<rparr>)" "touch (cm_replacementPolicy c) (int s) (int k) now = Some p"
proof -
  have sh: "policy_inv (nat (cm_cache_num_sets c)) (nat (cm_cache_assoc c)) (cm_replacementPolicy c)"
    using i by (simp add: cm_inv_def cm_shape_def)
  obtain p where "touch (cm_replacementPolicy c) (int s) (int k) now = Some p"
    "policy_inv (nat (cm_cache_num_sets c)) (nat (cm_cache_assoc c)) p"
    by (rule rp.tch_obtain [OF sh, of "int s" "int k" now]) (use s in auto)
  then show thesis using that [of p] i by (simp add: cm_touch_def cm_inv_def cm_shape_def)
qed

lemma lookup_entry_policy [simp]: "lookup_entry v (c\<lparr>cm_replacementPolicy := p\<rparr>) b = lookup_entry v c b"
  by (simp add: lookup_entry_def lookup_def findTagInSet_def cm_entry_def)

subsection \<open>The cache as a map from lines to entries\<close>

abbreviation fresh_entry :: "'x cache_entry \<Rightarrow> Address \<Rightarrow> 'x cache_entry" where
  "fresh_entry e0 a \<equiv> e0\<lparr>ce_Address := a, ce_Permission := Invalid\<rparr>"

definition keeps_tag :: "('x cache_entry \<Rightarrow> 'x cache_entry) \<Rightarrow> bool" where
  "keeps_tag f \<longleftrightarrow> (\<forall>e. ce_Address (f e) = ce_Address e \<and> (ce_Permission (f e) = NotPresent \<longrightarrow> ce_Permission e = NotPresent))"

definition free_way :: "'x CacheMemory \<Rightarrow> nat \<Rightarrow> bool" where
  "free_way c s \<longleftrightarrow> (\<exists>e \<in> set (cm_cache c ! s). ce_Permission e = NotPresent)"

lemma set_of_address:
  assumes "cm_inv v c" "addressToCacheSet v c a = Some t"
  obtains s where "t = int s" "addressToCacheSet v c a = Some (int s)" "s < nat (cm_cache_num_sets c)"
    "s < length (cm_cache c)" "length (cm_cache c ! s) = nat (cm_cache_assoc c)" "a = line_address (env_config v) a"
proof -
  have "t = int (nat t)" "nat t < nat (cm_cache_num_sets c)" "a = line_address (env_config v) a"
    using addressToCacheSet_aligned [OF assms(2)] by auto
  moreover from this have "nat t < length (cm_cache c)" "length (cm_cache c ! nat t) = nat (cm_cache_assoc c)"
    using assms(1) by (auto simp: cm_inv_def cm_shape_def)
  ultimately show thesis using that [of "nat t"] assms(2) by simp
qed

text \<open>\<^verbatim>\<open>cacheAvail\<close>: the line is present or the set has a free way.\<close>

lemma cacheAvail_iff:
  assumes i: "cm_inv v c" and s: "addressToCacheSet v c a = Some (int s)" "s < nat (cm_cache_num_sets c)"
  shows "cacheAvail v c a = Some (lookup_entry v c a \<noteq> None \<or> free_way c s)"
proof -
  let ?P = "\<lambda>e. ce_Address e = a \<or> ce_Permission e = NotPresent"
  have al: "a = line_address (env_config v) a" using addressToCacheSet_aligned [OF s(1)] by blast
  have len: "s < length (cm_cache c)" "0 + nat (cm_cache_assoc c) = length (cm_cache c ! s)"
    using i s(2) by (auto simp: cm_inv_def cm_shape_def)
  have "lookup_entry v c a \<noteq> None \<or> free_way c s \<longleftrightarrow> (\<exists>e \<in> set (cm_cache c ! s). ?P e)"
    unfolding lookup_entry_find [OF i s] by (auto simp: free_way_def find_None_iff tag_match_def)
  then have eq: "lookup_entry v c a \<noteq> None \<or> free_way c s \<longleftrightarrow> (\<exists>k < length (cm_cache c ! s). ?P (cm_cache c ! s ! k))"
    by (metis in_set_conv_nth)
  show ?thesis unfolding eq
    using al len s by (cases rule: scan_ways_cases [OF len(2), of ?P]) (auto simp: cacheAvail_def)
qed

text \<open>
  \<^verbatim>\<open>allocate\<close> succeeds exactly when the line is absent and the set has a free way; its final
  \<^verbatim>\<open>ERROR_MSG\<close> is never reached.
\<close>

lemma allocate_cases:
  assumes i: "cm_inv v c" and s: "addressToCacheSet v c a = Some (int s)" "s < nat (cm_cache_num_sets c)"
  obtains (fails) "allocate v e0 now c a = None" "lookup_entry v c a \<noteq> None \<or> \<not> free_way c s"
  | (works) k p where "lookup_entry v c a = None" "free_way c s" "k < nat (cm_cache_assoc c)"
      "ce_Permission (cm_cache c ! s ! k) = NotPresent" "touch (cm_replacementPolicy c) (int s) (int k) now = Some p"
      "cm_inv v (cm_update c (int s) (int k) (\<lambda>_. fresh_entry e0 a))"
      "allocate v e0 now c a = Some (cm_update c (int s) (int k) (\<lambda>_. fresh_entry e0 a)\<lparr>cm_replacementPolicy := p\<rparr>)"
      "cm_inv v (cm_update c (int s) (int k) (\<lambda>_. fresh_entry e0 a)\<lparr>cm_replacementPolicy := p\<rparr>)"
proof -
  have al: "a = line_address (env_config v) a" using addressToCacheSet_aligned [OF s(1)] by blast
  have len: "s < length (cm_cache c)" "0 + nat (cm_cache_assoc c) = length (cm_cache c ! s)"
    using i s(2) by (auto simp: cm_inv_def cm_shape_def)
  note av = cacheAvail_iff [OF i s]
  show thesis
  proof (cases "lookup_entry v c a")
    case (Some e)
    then have "isTagPresent v c a = Some True" by (cases rule: tag_search [OF i s]) auto
    then show thesis using Some al by (intro fails) (simp_all add: allocate_def)
  next
    case None
    then have absent: "isTagPresent v c a = Some False" "lookup_entry v c a = None"
      "\<forall>k < nat (cm_cache_assoc c). \<not> tag_match a (cm_cache c ! s ! k)"
      by (cases rule: tag_search [OF i s]; simp)+
    show thesis
    proof (cases rule: scan_ways_cases [OF len(2), of "\<lambda>e. ce_Permission e = NotPresent"])
      case 1
      then have "\<not> free_way c s" by (auto simp: free_way_def in_set_conv_nth)
      then show thesis using al absent av by (intro fails) (simp_all add: allocate_def)
    next
      case (2 k)
      then have free: "free_way c s" by (auto simp: free_way_def)
      let ?c = "cm_update c (int s) (int k) (\<lambda>_. fresh_entry e0 a)"
      have k: "k < nat (cm_cache_assoc c)" using 2 len by simp
      have inv: "cm_inv v ?c" by (rule cm_inv_update [OF i s(2) k refl]) (use s absent in auto)
      obtain p where p: "cm_touch ?c (int s) (int k) now = Some (?c\<lparr>cm_replacementPolicy := p\<rparr>)"
        "cm_inv v (?c\<lparr>cm_replacementPolicy := p\<rparr>)" "touch (cm_replacementPolicy ?c) (int s) (int k) now = Some p"
        by (rule cm_touch_Some [OF inv, of s k now]) (use s k in \<open>simp_all add: cm_update_def\<close>)
      have "allocate v e0 now c a = cm_touch ?c (int s) (int k) now"
        using al absent av free s 2(1) len by (simp add: allocate_def)
      then show thesis using absent free k 2 p inv by (intro works) (simp_all add: cm_update_def)
    qed
  qed
qed

lemma lookup_write_cases:
  assumes i: "cm_inv v c" and f: "\<forall>e. ce_Address (f e) = ce_Address e"
    and s: "addressToCacheSet v c a = Some (int s)" "s < nat (cm_cache_num_sets c)"
  obtains (fails) "lookup_write v c a f = None" "lookup_entry v c a = None"
  | (works) k where "lookup_entry v c a = Some (cm_cache c ! s ! k)" "k < nat (cm_cache_assoc c)"
      "tag_match a (cm_cache c ! s ! k)"
      "lookup_write v c a f = Some (cm_update c (int s) (int k) f)" "cm_inv v (cm_update c (int s) (int k) f)"
proof (cases rule: tag_search [OF i s])
  case 1
  then show thesis by (intro fails) (simp_all add: lookup_write_def)
next
  case (2 k)
  have one: "at_most_one (tag_match a) (cm_cache c ! s)" "length (cm_cache c ! s) = nat (cm_cache_assoc c)"
    using i s(2) by (auto simp: cm_inv_def cm_shape_def)
  have a: "ce_Address (cm_cache c ! s ! k) = a" using 2(3) by (simp add: tag_match_def)
  have "\<not> tag_match a (cm_cache c ! s ! j)" if "j < nat (cm_cache_assoc c)" "j \<noteq> k" for j
    using one 2(2,3) that unfolding at_most_one_def by metis
  then have "cm_inv v (cm_update c (int s) (int k) f)"
    using f a s by (intro cm_inv_update [OF i s(2) 2(2) refl]) auto
  then show thesis using 2 by (intro works [of k]) (simp_all add: lookup_write_def)
qed

text \<open>What \<^verbatim>\<open>lookup\<close> finds after a write to the entry of line \<open>a\<close>.\<close>

lemma lookup_write_law:
  assumes i: "cm_inv v c" and f: "\<forall>e. ce_Address (f e) = ce_Address e" and w: "lookup_write v c a f = Some c'"
  shows "cm_inv v c' \<and> lookup_entry v c a \<noteq> None \<and> lookup_entry v c' = (lookup_entry v c)
    (a := Option.bind (lookup_entry v c a) (\<lambda>e. if ce_Permission (f e) = NotPresent then None else Some (f e)))"
proof -
  obtain t where t: "addressToCacheSet v c a = Some t"
    using w by (auto simp: lookup_write_def lookup_def elim!: bind_eq_SomeE split: if_splits)
  obtain s where s: "addressToCacheSet v c a = Some (int s)" "s < nat (cm_cache_num_sets c)" "s < length (cm_cache c)"
    "length (cm_cache c ! s) = nat (cm_cache_assoc c)"
    by (rule set_of_address [OF i t])
  show ?thesis
  proof (cases rule: lookup_write_cases [OF i f s(1,2)])
    case 1
    then show ?thesis using w by simp
  next
    case (2 k)
    let ?row = "cm_cache c ! s" and ?e = "cm_cache c ! s ! k" and ?c = "cm_update c (int s) (int k) f"
    have k: "k < length ?row" "ce_Address ?e = a" using 2(2,3) s(4) by (simp_all add: tag_match_def)
    have one: "at_most_one (tag_match a) ?row" using i s(3) by (simp add: cm_inv_def)
    have one': "at_most_one (tag_match a) (?row[k := f ?e])"
      using 2(5) s(3) cm_update_row [of c s k f s] i by (auto simp: cm_inv_def cm_update_def)
    have "find (tag_match a) (?row[k := f ?e]) = (if ce_Permission (f ?e) = NotPresent then None else Some (f ?e))"
    proof (cases "tag_match a (f ?e)")
      case True
      then show ?thesis using find_update [OF one' k(1)] by (simp add: tag_match_def)
    next
      case False
      then show ?thesis using find_update_removed [OF one k(1) 2(3)] f k(2) by (simp add: tag_match_def [of a "f _"])
    qed
    moreover have "find (tag_match b) (?row[k := f ?e]) = find (tag_match b) ?row" if "b \<noteq> a" for b
      using find_update_other [of "tag_match b" "f ?e" k ?row] k f that by (auto simp: tag_match_def)
    ultimately have "lookup_entry v ?c b = ((lookup_entry v c)(a := if ce_Permission (f ?e) = NotPresent then None else Some (f ?e))) b" for b
      using lookup_after_update [OF i 2(5) s(2), of b] lookup_entry_find [OF i _ s(2), of b] s(1) by auto
    then show ?thesis using 2 w by auto
  qed
qed

lemma allocate_law:
  assumes i: "cm_inv v c" and w: "allocate v e0 now c a = Some c'"
  shows "cm_inv v c' \<and> lookup_entry v c a = None \<and> lookup_entry v c' = (lookup_entry v c)(a \<mapsto> fresh_entry e0 a)"
proof -
  obtain t where t: "addressToCacheSet v c a = Some t"
    using w by (auto simp: allocate_def isTagPresent_def elim!: bind_eq_SomeE split: if_splits)
  obtain s where s: "addressToCacheSet v c a = Some (int s)" "s < nat (cm_cache_num_sets c)" "s < length (cm_cache c)"
    "length (cm_cache c ! s) = nat (cm_cache_assoc c)"
    by (rule set_of_address [OF i t])
  show ?thesis
  proof (cases rule: allocate_cases [OF i s(1,2), of e0 now])
    case 1
    then show ?thesis using w by simp
  next
    case (2 k p)
    let ?row = "cm_cache c ! s" and ?e = "fresh_entry e0 a" and ?c = "cm_update c (int s) (int k) (\<lambda>_. fresh_entry e0 a)"
    have k: "k < length ?row" using 2(3) s(4) by simp
    have one: "at_most_one (tag_match a) (?row[k := ?e])"
      using 2(6) s(3) cm_update_row [of c s k "\<lambda>_. ?e" s] i by (auto simp: cm_inv_def cm_update_def)
    have "find (tag_match a) (?row[k := ?e]) = Some ?e" by (rule find_update [OF one k]) (simp add: tag_match_def)
    moreover have "find (tag_match b) (?row[k := ?e]) = find (tag_match b) ?row" if "b \<noteq> a" for b
      using find_update_other [of "tag_match b" ?e k ?row] k 2(4) that by (auto simp: tag_match_def)
    ultimately have "lookup_entry v ?c b = ((lookup_entry v c)(a \<mapsto> ?e)) b" for b
      using lookup_after_update [OF i 2(6) s(2), of b] lookup_entry_find [OF i _ s(2), of b] s(1) by auto
    then show ?thesis using 2 w by auto
  qed
qed

lemma lookup_entry_conv: "cm_inv v c \<Longrightarrow> lookup_entry v c a = None \<longleftrightarrow> lookup v c a = None"
proof (cases "addressToCacheSet v c a")
  case (Some t)
  assume i: "cm_inv v c"
  obtain s where s: "addressToCacheSet v c a = Some (int s)" "s < nat (cm_cache_num_sets c)"
    by (rule set_of_address [OF i Some])
  show ?thesis by (cases rule: tag_search [OF i s]) simp_all
qed (simp add: lookup_entry_def lookup_def)

lemma lookup_entry_tag:
  assumes i: "cm_inv v c" and e: "lookup_entry v c a = Some e"
  shows "tag_match a e"
proof (cases "addressToCacheSet v c a")
  case None
  then show ?thesis using e by (simp add: lookup_entry_misaligned)
next
  case (Some t)
  obtain s where s: "addressToCacheSet v c a = Some (int s)" "s < nat (cm_cache_num_sets c)"
    by (rule set_of_address [OF i Some])
  show ?thesis by (cases rule: tag_search [OF i s]) (use e in simp_all)
qed

lemma deallocate_write:
  assumes "cm_inv v c"
  shows "deallocate v c a = lookup_write v c a (\<lambda>e. e\<lparr>ce_Permission := NotPresent\<rparr>)"
proof (cases "addressToCacheSet v c a")
  case None
  then show ?thesis by (simp add: deallocate_def lookup_write_def isTagPresent_def lookup_def)
next
  case (Some t)
  obtain s where s: "addressToCacheSet v c a = Some (int s)" "s < nat (cm_cache_num_sets c)" "a = line_address (env_config v) a"
    by (rule set_of_address [OF assms Some])
  show ?thesis by (cases rule: tag_search [OF assms s(1,2)]) (use s(3) in \<open>simp_all add: deallocate_def lookup_write_def\<close>)
qed

interpretation cache_lines: line_store "cm_inv v" "lookup_entry v" "fresh_entry e0" "allocate v e0" "deallocate v" "lookup_write v" "\<lambda>_. True" keeps_tag
  for v and e0 :: "'x cache_entry"
proof unfold_locales
  fix c c' :: "'x CacheMemory" and a now
  assume i: "cm_inv v c"
  show "allocate v e0 now c a = Some c' \<Longrightarrow>
    cm_inv v c' \<and> lookup_entry v c' = (lookup_entry v c)(a \<mapsto> fresh_entry e0 a)"
    using allocate_law [OF i] by blast
  show "allocate v e0 now c a = Some c' \<Longrightarrow> lookup_entry v c a = None" using allocate_law [OF i] by blast
  show "deallocate v c a = Some c' \<Longrightarrow>
    cm_inv v c' \<and> lookup_entry v c a \<noteq> None \<and> lookup_entry v c' = (lookup_entry v c)(a := None)"
    using lookup_write_law [OF i, of "\<lambda>e. e\<lparr>ce_Permission := NotPresent\<rparr>"] deallocate_write [OF i] by auto
  show "lookup_entry v c a \<noteq> None \<Longrightarrow> deallocate v c a \<noteq> None"
    using deallocate_write [OF i] lookup_entry_conv [OF i] by (auto simp: lookup_write_def)
  fix f
  show "keeps_tag f \<Longrightarrow> lookup_write v c a f = Some c' \<Longrightarrow>
    cm_inv v c' \<and> lookup_entry v c a \<noteq> None \<and> lookup_entry v c' = (lookup_entry v c)(a := map_option f (lookup_entry v c a))"
    using lookup_write_law [OF i, of f a c'] lookup_entry_tag [OF i, of a]
    by (auto simp: keeps_tag_def tag_match_def)
  show "lookup_entry v c a \<noteq> None \<Longrightarrow> lookup_write v c a f \<noteq> None"
    using lookup_entry_conv [OF i] by (auto simp: lookup_write_def)
qed

subsection \<open>Construction, flushing, probing\<close>

text \<open>The parameters a cache can be built with: at least one set bit, and an associativity the policy supports.\<close>

definition cache_params :: "cache_env \<Rightarrow> string \<Rightarrow> int \<Rightarrow> int \<Rightarrow> MachineType \<Rightarrow> bool" where
  "cache_params v policy numSetBits assoc machType \<longleftrightarrow>
     0 \<le> g_DATA_BLOCK_BITS (env_config v) \<and> 0 \<le> g_NUM_L2_BANKS_PER_CHIP_BITS (env_config v) \<and>
     (machType = mt_L1Cache (env_types v) \<or> machType = mt_L2Cache (env_types v)) \<and> 0 < numSetBits \<and> numSetBits \<le> 30 \<and>
     (policy = ''LRU'' \<and> 0 < assoc \<or> policy = ''PSEDUO_LRU'' \<and> 1 < assoc \<and> assoc \<le> 32)"

lemma all_absent:
  assumes i: "cm_inv v c" and e: "\<forall>row \<in> set (cm_cache c). \<forall>e \<in> set row. ce_Permission e = NotPresent"
  shows "lookup_entry v c = Map.empty"
proof (rule ext)
  fix a show "lookup_entry v c a = None"
  proof (cases "addressToCacheSet v c a")
    case None
    then show ?thesis by (rule lookup_entry_misaligned)
  next
    case (Some t)
    obtain s where s: "addressToCacheSet v c a = Some (int s)" "s < nat (cm_cache_num_sets c)" "s < length (cm_cache c)"
      by (rule set_of_address [OF i Some])
    then have "cm_cache c ! s \<in> set (cm_cache c)" by simp
    then have "\<forall>x \<in> set (cm_cache c ! s). \<not> tag_match a x" using e by (auto simp: tag_match_def)
    then have "find (tag_match a) (cm_cache c ! s) = None" by (simp add: find_None_iff)
    then show ?thesis using lookup_entry_find [OF i s(1,2)] by simp
  qed
qed

lemma absent_inv:
  assumes "env_ok v c" "cm_shape c" "\<forall>row \<in> set (cm_cache c). \<forall>e \<in> set row. ce_Permission e = NotPresent"
  shows "cm_inv v c"
proof -
  have "ce_Permission (cm_cache c ! s ! k) = NotPresent" if "s < length (cm_cache c)" "k < length (cm_cache c ! s)" for s k
    using assms(3) nth_mem [OF that(1)] nth_mem [OF that(2)] by blast
  then show ?thesis
    using assms(1,2) unfolding cm_inv_def at_most_one_def tag_match_def by (auto simp: in_set_conv_nth)
qed

lemma CacheMemory_new_ok:
  assumes "cache_params v policy n assoc m"
  obtains c where "CacheMemory_new policy entry0 n assoc m = Some c" "cm_inv v c" "lookup_entry v c = Map.empty"
proof -
  let ?s = "nat (push_bit (nat n) 1)" and ?a = "nat assoc"
  have pos: "0 < ?s" "0 < assoc" "int ?s = push_bit (nat n) 1" "int ?a = assoc"
    using assms by (auto simp: cache_params_def push_bit_eq_mult nat_power_eq)
  obtain p where p: "make_policy policy (push_bit (nat n) 1) assoc = Some p" "policy_inv ?s ?a p"
    using assms AbstractReplacementPolicy_new_inv [of ?a ?s] PseudoLRUPolicy_new_inv [of ?s ?a] pos
    by (fastforce simp: cache_params_def make_policy_def)
  define c where "c = \<lparr>cm_machType = m, cm_is_instruction_cache = False,
    cm_cache = replicate ?s (replicate ?a (empty_entry entry0)), cm_replacementPolicy = p,
    cm_cache_num_sets = push_bit (nat n) 1, cm_cache_num_set_bits = n, cm_cache_assoc = assoc\<rparr>"
  have "env_ok v c" using assms by (auto simp: env_ok_def c_def cache_params_def push_bit_eq_mult)
  moreover have "cm_shape c" using pos p(2) by (simp add: cm_shape_def c_def)
  ultimately have inv: "cm_inv v c" by (rule absent_inv) (simp add: c_def)
  have "lookup_entry v c = Map.empty" by (rule all_absent [OF inv]) (simp add: c_def)
  moreover have "CacheMemory_new policy entry0 n assoc m = Some c" using p(1) by (simp add: CacheMemory_new_def c_def Let_def)
  ultimately show thesis using that inv by blast
qed

lemma flushCache_law:
  assumes i: "cm_inv v c"
  shows "cm_inv v (flushCache c)" "lookup_entry v (flushCache c) = Map.empty"
proof -
  have "env_ok v (flushCache c)" using i by (simp add: cm_inv_def flushCache_def)
  moreover have "cm_shape (flushCache c)" using i by (auto simp: cm_inv_def cm_shape_def flushCache_def)
  ultimately show inv: "cm_inv v (flushCache c)" by (rule absent_inv) (auto simp: flushCache_def)
  show "lookup_entry v (flushCache c) = Map.empty" by (rule all_absent [OF inv]) (auto simp: flushCache_def)
qed

text \<open>In a full set the probe names a line that is present in that set.\<close>

lemma cacheProbe_law:
  assumes i: "cm_inv v c" and s: "addressToCacheSet v c a = Some (int s)" "s < nat (cm_cache_num_sets c)"
    and full: "lookup_entry v c a = None" "\<not> free_way c s"
  obtains b e where "cacheProbe v c a = Some b" "lookup_entry v c b = Some e" "addressToCacheSet v c b = Some (int s)" "b \<noteq> a"
proof -
  have len: "s < length (cm_cache c)" "length (cm_cache c ! s) = nat (cm_cache_assoc c)"
    using i s(2) by (auto simp: cm_inv_def cm_shape_def)
  have pol: "policy_inv (nat (cm_cache_num_sets c)) (nat (cm_cache_assoc c)) (cm_replacementPolicy c)"
    using i by (simp add: cm_inv_def cm_shape_def)
  have "int s < int (nat (cm_cache_num_sets c))" using s(2) by (simp only: of_nat_less_iff)
  then obtain k' where k': "getVictim (cm_replacementPolicy c) (int s) = Some k'" "0 \<le> k'" "k' < int (nat (cm_cache_assoc c))"
    using rp.victim_law [OF pol of_nat_0_le_iff] by blast
  then obtain k where k: "k' = int k" "k < nat (cm_cache_assoc c)" by (metis nonneg_int_cases of_nat_less_iff)
  let ?e = "cm_cache c ! s ! k"
  have mem: "?e \<in> set (cm_cache c ! s)" using k len by simp
  then have present: "ce_Permission ?e \<noteq> NotPresent" using full(2) by (auto simp: free_way_def)
  then have ba: "addressToCacheSet v c (ce_Address ?e) = Some (int s)" using i mem len(1) by (auto simp: cm_inv_def)
  have tag: "tag_match (ce_Address ?e) ?e" using present by (simp add: tag_match_def)
  have one: "at_most_one (tag_match (ce_Address ?e)) (cm_cache c ! s)" using i len(1) by (simp add: cm_inv_def)
  have "lookup_entry v c (ce_Address ?e) = Some ?e"
    using lookup_entry_find [OF i ba s(2)] find_at_most_one [OF one _ tag] k(2) len(2) by simp
  moreover from this have "ce_Address ?e \<noteq> a" using full(1) by auto
  moreover have "cacheProbe v c a = Some (ce_Address ?e)"
    using addressToCacheSet_aligned [OF s(1)] cacheAvail_iff [OF i s] full s(1) k k' len
    by (simp add: cacheProbe_def cm_entry_def)
  ultimately show thesis using that ba by blast
qed

lemma deallocate_frees_way:
  assumes i: "cm_inv v c" and b: "addressToCacheSet v c b = Some (int s)" "s < nat (cm_cache_num_sets c)"
    and d: "deallocate v c b = Some c'"
  shows "free_way c' s" "cm_inv v c'" "addressToCacheSet v c' x = addressToCacheSet v c x"
    "cm_cache_num_sets c' = cm_cache_num_sets c"
proof -
  let ?f = "\<lambda>e :: 'a cache_entry. e\<lparr>ce_Permission := NotPresent\<rparr>"
  have w: "lookup_write v c b ?f = Some c'" using d deallocate_write [OF i] by simp
  have len: "s < length (cm_cache c)" "length (cm_cache c ! s) = nat (cm_cache_assoc c)" "cm_shape c"
    using i b(2) by (auto simp: cm_inv_def cm_shape_def)
  have f: "\<forall>e. ce_Address (?f e) = ce_Address e" by simp
  obtain k where k: "k < nat (cm_cache_assoc c)" "c' = cm_update c (int s) (int k) ?f" "cm_inv v c'"
    using w by (cases rule: lookup_write_cases [OF i f b]) simp_all
  have "?f (cm_cache c ! s ! k) \<in> set (cm_cache c' ! s)"
    using cm_update_row [OF len(3,1)] k len by (simp add: set_update_memI)
  then show "free_way c' s" by (force simp: free_way_def)
  show "cm_inv v c'" by (fact k)
  show "addressToCacheSet v c' x = addressToCacheSet v c x" "cm_cache_num_sets c' = cm_cache_num_sets c"
    using k(2) by (simp_all add: cm_update_def)
qed

subsection \<open>Accesses and permissions\<close>

definition access_ok :: "AccessPermission \<Rightarrow> CacheRequestType \<Rightarrow> bool" where
  "access_ok perm type \<longleftrightarrow> perm = Read_Write \<or> perm = Read_Only \<and> type \<in> {LD, IFETCH}"

lemma tryCacheAccess_law:
  assumes i: "cm_inv v c" and al: "a = line_address (env_config v) a"
  obtains hit ref c' where "tryCacheAccess v now c a type = Some (hit, ref, c')" "cm_inv v c'"
    "lookup_entry v c' = lookup_entry v c"
    "hit \<longleftrightarrow> (\<exists>e. lookup_entry v c a = Some e \<and> access_ok (ce_Permission e) type)"
    "ref = (if hit then lookup v c a else None)"
proof -
  obtain s where s: "addressToCacheSet v c a = Some (int s)" "s < nat (cm_cache_num_sets c)"
    using addressToCacheSet_Some [OF _ al, of c] i by (auto simp: cm_inv_def)
  show thesis
  proof (cases rule: tag_search [OF i s])
    case 1
    then show thesis using i al s by (intro that [of False None c]) (simp_all add: tryCacheAccess_def)
  next
    case (2 k)
    obtain p where p: "cm_touch c (int s) (int k) now = Some (c\<lparr>cm_replacementPolicy := p\<rparr>)"
      "cm_inv v (c\<lparr>cm_replacementPolicy := p\<rparr>)"
      by (rule cm_touch_Some [OF i s(2) 2(2)])
    let ?h = "access_ok (ce_Permission (cm_cache c ! s ! k)) type"
    have "tryCacheAccess v now c a type = Some (?h, if ?h then Some (int s, int k) else None, c\<lparr>cm_replacementPolicy := p\<rparr>)"
      using al s(1) 2 p(1) by (auto simp: tryCacheAccess_def access_ok_def)
    then show thesis by (rule that [OF _ p(2)]) (use 2 in \<open>simp_all add: fun_eq_iff\<close>)
  qed
qed

lemma changePermission_law:
  assumes i: "cm_inv v c"
  shows "changePermission v c a NotPresent = None"
    "\<lbrakk>new_perm \<noteq> NotPresent; lookup_entry v c a = Some e\<rbrakk> \<Longrightarrow> \<exists>c'. changePermission v c a new_perm = Some c' \<and> cm_inv v c' \<and>
       lookup_entry v c' = (lookup_entry v c)(a \<mapsto> e\<lparr>ce_Permission := new_perm\<rparr>)"
proof -
  let ?f = "\<lambda>p (e :: 'a cache_entry). e\<lparr>ce_Permission := p\<rparr>"
  have f: "\<forall>e. ce_Address (?f p e) = ce_Address e" for p by simp
  have eq: "changePermission v c a p = do { c \<leftarrow> lookup_write v c a (?f p); q \<leftarrow> getPermission v c a; assert_that (q = p); Some c }" for p
    by (cases "a = line_address (env_config v) a")
      (auto simp: changePermission_def lookup_write_def lookup_def Let_def split: Option.bind_splits)
  show "changePermission v c a NotPresent = None"
  proof (cases "lookup_write v c a (?f NotPresent)")
    case (Some c')
    then have "lookup_entry v c' a = None" using lookup_write_law [OF i f Some] by auto
    then show ?thesis using Some eq by (simp add: getPermission_def)
  qed (simp add: eq)
  assume np: "new_perm \<noteq> NotPresent" and e: "lookup_entry v c a = Some e"
  then obtain c' where w: "lookup_write v c a (?f new_perm) = Some c'" using cache_lines.wr_total [OF i, of a] by auto
  have al: "a = line_address (env_config v) a"
  proof (rule ccontr)
    assume "\<not> ?thesis"
    then show False using e by (simp add: lookup_entry_def lookup_def)
  qed
  have "cm_inv v c'" "lookup_entry v c' = (lookup_entry v c)(a \<mapsto> e\<lparr>ce_Permission := new_perm\<rparr>)"
    using lookup_write_law [OF i f w] e np by auto
  moreover from this have "changePermission v c a new_perm = Some c'" using w al eq by (simp add: getPermission_def)
  ultimately show "\<exists>c'. changePermission v c a new_perm = Some c' \<and> cm_inv v c' \<and>
       lookup_entry v c' = (lookup_entry v c)(a \<mapsto> e\<lparr>ce_Permission := new_perm\<rparr>)" by blast
qed

subsection \<open>Properties\<close>

definition example_env :: cache_env where
  "example_env = \<lparr>env_config = example_config\<lparr>g_DATA_BLOCK_BITS := 6\<rparr>,
     env_types = \<lparr>mt_L1Cache = 0, mt_L2Cache = 1, mt_L3Cache = 2, mt_PersistentArbiter = 3, mt_Collector = 4, mt_Directory = 5, mt_NUM = 6\<rparr>,
     env_block = \<lparr>DATA_BLOCK = True, XACT_MEMORY = False\<rparr>\<rparr>"

definition example_entry :: "nat cache_entry" where
  "example_entry = \<lparr>ce_Address = 0, ce_Permission = NotPresent, ce_DataBlk = vec_new, ce_state = 0\<rparr>"

lemma example_params: "cache_params example_env ''PSEDUO_LRU'' 2 2 0"
  by code_simp

text \<open>
  C25. From a new cache, any sequence of \<^verbatim>\<open>allocate\<close>, \<^verbatim>\<open>deallocate\<close> and writes through
  \<^verbatim>\<open>lookup\<close> that runs without an abort computes the intended map from line addresses to entries: no line was
  allocated twice, only allocated lines were written or removed, and \<^verbatim>\<open>lookup\<close> finds for every address exactly the
  entry of the map, whatever the replacement policy did to choose ways.
\<close>
theorem cache_refines_map:
  assumes "cache_params v policy numSetBits assoc machType"
    and "CacheMemory_new policy entry0 numSetBits assoc machType = Some c"
    and "store_run (allocate v entry0) (deallocate v) (lookup_write v) c xs = Some c'"
    and "\<forall>x \<in> set xs. op_ok (\<lambda>_. True) keeps_tag x"
  shows "cm_inv v c' \<and> map_pres (fresh_entry entry0) Map.empty xs \<and>
    lookup_entry v c' = foldl (map_op (fresh_entry entry0)) Map.empty xs"
proof -
  have "cm_inv v c" "lookup_entry v c = Map.empty" using CacheMemory_new_ok [OF assms(1), of entry0] assms(2) by auto
  then show ?thesis using cache_lines.run_refines assms(3,4) by metis
qed

definition example_ops :: "(Time, nat cache_entry) line_op list" where
  "example_ops = [Allocate 1 0, Write 0 (\<lambda>e. e\<lparr>ce_state := 7\<rparr>), Allocate 2 256, Deallocate 0, Allocate 3 512]"

theorem cache_refines_map_witness:
  "\<exists>c c'. CacheMemory_new ''PSEDUO_LRU'' example_entry 2 2 0 = Some c \<and>
     store_run (allocate example_env example_entry) (deallocate example_env) (lookup_write example_env) c example_ops = Some c' \<and>
     lookup_entry example_env c' 0 = None \<and> lookup_entry example_env c' 256 = Some (fresh_entry example_entry 256)"
proof -
  have "case CacheMemory_new ''PSEDUO_LRU'' example_entry 2 2 0 of None \<Rightarrow> False | Some c \<Rightarrow>
     (case store_run (allocate example_env example_entry) (deallocate example_env) (lookup_write example_env) c example_ops of
       None \<Rightarrow> False | Some c' \<Rightarrow> True)" by code_simp
  then obtain c c' where c: "CacheMemory_new ''PSEDUO_LRU'' example_entry 2 2 0 = Some c"
    "store_run (allocate example_env example_entry) (deallocate example_env) (lookup_write example_env) c example_ops = Some c'"
    by (auto split: option.splits)
  have "\<forall>x \<in> set example_ops. op_ok (\<lambda>_. True) keeps_tag x" by (simp add: example_ops_def keeps_tag_def)
  then show ?thesis using cache_refines_map [OF example_params c] c by (simp add: example_ops_def)
qed

text \<open>
  C34. Replacement: for every line that is absent from the cache, either \<^verbatim>\<open>allocate\<close> succeeds at once, or
  \<^verbatim>\<open>cacheAvail\<close> is false and \<^verbatim>\<open>cacheProbe\<close> names another line of the same set that is present, and
  after \<^verbatim>\<open>deallocate\<close> of that victim the allocation succeeds.  All other lines keep their entries; no assertion
  fails and the final \<^verbatim>\<open>ERROR_MSG\<close> of \<^verbatim>\<open>allocate\<close> is never reached.
\<close>
theorem cache_replacement_succeeds:
  assumes i: "cm_inv v c" and al: "a = line_address (env_config v) a" and absent: "lookup_entry v c a = None"
  shows "(\<exists>c'. cacheAvail v c a = Some True \<and> allocate v entry0 now c a = Some c' \<and> cm_inv v c' \<and>
      lookup_entry v c' = (lookup_entry v c)(a \<mapsto> fresh_entry entry0 a)) \<or>
    (\<exists>b c1 c2. cacheAvail v c a = Some False \<and> cacheProbe v c a = Some b \<and> b \<noteq> a \<and> lookup_entry v c b \<noteq> None \<and>
      addressToCacheSet v c b = addressToCacheSet v c a \<and> deallocate v c b = Some c1 \<and>
      allocate v entry0 now c1 a = Some c2 \<and> cm_inv v c2 \<and>
      lookup_entry v c2 = (lookup_entry v c)(b := None, a \<mapsto> fresh_entry entry0 a))"
proof -
  obtain s where s: "addressToCacheSet v c a = Some (int s)" "s < nat (cm_cache_num_sets c)"
    using addressToCacheSet_Some [OF _ al, of c] i by (auto simp: cm_inv_def)
  note av = cacheAvail_iff [OF i s]
  show ?thesis
  proof (cases "free_way c s")
    case True
    then obtain c' where c': "allocate v entry0 now c a = Some c'"
      by (cases rule: allocate_cases [OF i s, of entry0 now]) (use absent in auto)
    then show ?thesis using allocate_law [OF i c'] av True by auto
  next
    case False
    obtain b e where b: "cacheProbe v c a = Some b" "lookup_entry v c b = Some e" "addressToCacheSet v c b = Some (int s)" "b \<noteq> a"
      by (rule cacheProbe_law [OF i s absent False])
    obtain c1 where c1: "deallocate v c b = Some c1" using cache_lines.de_total [OF i, of b] b(2) by auto
    note d = deallocate_frees_way [OF i b(3) s(2) c1] and l1 = cache_lines.de_law [OF i TrueI c1]
    have s1: "addressToCacheSet v c1 a = Some (int s)" "s < nat (cm_cache_num_sets c1)" using d s by simp_all
    obtain c2 where c2: "allocate v entry0 now c1 a = Some c2"
      by (cases rule: allocate_cases [OF d(2) s1, of entry0 now]) (use absent d(1) l1 b(4) in auto)
    show ?thesis using allocate_law [OF d(2) c2] l1 b c1 c2 av False absent s(1) by auto
  qed
qed

theorem cache_replacement_succeeds_witness:
  "\<exists>c c'. CacheMemory_new ''PSEDUO_LRU'' example_entry 2 2 0 = Some c \<and> allocate example_env example_entry 5 c 256 = Some c' \<and>
     lookup_entry example_env c' 256 = Some (fresh_entry example_entry 256)"
proof -
  obtain c where c: "CacheMemory_new ''PSEDUO_LRU'' example_entry 2 2 0 = Some c" "cm_inv example_env c" "lookup_entry example_env c = Map.empty"
    by (rule CacheMemory_new_ok [OF example_params])
  have "(256 :: Address) = line_address (env_config example_env) 256" by code_simp
  from cache_replacement_succeeds [OF c(2) this, of example_entry 5] c show ?thesis by auto
qed

text \<open>
  Accesses: \<^verbatim>\<open>tryCacheAccess\<close> never aborts on a line address, changes only the replacement state, and reports a
  hit exactly when the line is present with permission Read\_Write, or Read\_Only for a load or an instruction fetch; on a
  hit it returns the reference that \<^verbatim>\<open>lookup\<close> returns, otherwise none.
\<close>
theorem cache_access_permissions:
  assumes "cm_inv v c" "a = line_address (env_config v) a"
  shows "\<exists>hit ref c'. tryCacheAccess v now c a type = Some (hit, ref, c') \<and> cm_inv v c' \<and>
    lookup_entry v c' = lookup_entry v c \<and> ref = (if hit then lookup v c a else None) \<and>
    (hit \<longleftrightarrow> (\<exists>e. lookup_entry v c a = Some e \<and> access_ok (ce_Permission e) type))"
  by (rule tryCacheAccess_law [OF assms, of now type]) blast

theorem cache_access_permissions_witness:
  "\<exists>c c'. CacheMemory_new ''PSEDUO_LRU'' example_entry 2 2 0 = Some c \<and>
     tryCacheAccess example_env 5 c 256 LD = Some (False, None, c')"
proof -
  obtain c where c: "CacheMemory_new ''PSEDUO_LRU'' example_entry 2 2 0 = Some c" "cm_inv example_env c" "lookup_entry example_env c = Map.empty"
    by (rule CacheMemory_new_ok [OF example_params])
  have "(256 :: Address) = line_address (env_config example_env) 256" by code_simp
  from cache_access_permissions [OF c(2) this, of 5 LD] c show ?thesis by auto
qed

text \<open>
  \<^verbatim>\<open>changePermission\<close> to NotPresent always aborts: its last assertion looks the line up again, and a line
  with permission NotPresent is not found.  To any other permission it succeeds for every line present and changes only that
  field of that entry.
\<close>
theorem cache_changePermission:
  assumes i: "cm_inv v c"
  shows "(changePermission v c a new_perm = None \<longleftrightarrow> new_perm = NotPresent \<or> lookup_entry v c a = None) \<and>
    (\<forall>c'. changePermission v c a new_perm = Some c' \<longrightarrow> cm_inv v c' \<and>
      lookup_entry v c' = (lookup_entry v c)(a := map_option (\<lambda>e. e\<lparr>ce_Permission := new_perm\<rparr>) (lookup_entry v c a)))"
proof (cases "lookup_entry v c a")
  case None
  then have "changePermission v c a new_perm = None"
    using lookup_entry_conv [OF i, of a] by (simp add: changePermission_def)
  then show ?thesis using None by simp
next
  case (Some e)
  then show ?thesis using changePermission_law(1) [OF i, of a] changePermission_law(2) [OF i _ Some, of new_perm]
    by (cases "new_perm = NotPresent") auto
qed

theorem cache_changePermission_witness:
  "\<exists>c c' c''. CacheMemory_new ''PSEDUO_LRU'' example_entry 2 2 0 = Some c \<and> allocate example_env example_entry 5 c 256 = Some c' \<and>
     changePermission example_env c' 256 NotPresent = None \<and> changePermission example_env c' 256 Read_Only = Some c'' \<and>
     lookup_entry example_env c'' 256 = Some (example_entry\<lparr>ce_Address := 256, ce_Permission := Read_Only\<rparr>)"
proof -
  obtain c where c: "CacheMemory_new ''PSEDUO_LRU'' example_entry 2 2 0 = Some c" "cm_inv example_env c" "lookup_entry example_env c = Map.empty"
    by (rule CacheMemory_new_ok [OF example_params])
  have "case CacheMemory_new ''PSEDUO_LRU'' example_entry 2 2 0 of None \<Rightarrow> False | Some c \<Rightarrow>
     (case allocate example_env example_entry 5 c 256 of None \<Rightarrow> False | Some c' \<Rightarrow> True)" by code_simp
  then obtain c' where c': "allocate example_env example_entry 5 c 256 = Some c'" using c(1) by (auto split: option.splits)
  have l: "cm_inv example_env c'" "lookup_entry example_env c' 256 = Some (fresh_entry example_entry 256)"
    using allocate_law [OF c(2) c'] by simp_all
  note p = cache_changePermission [OF l(1), of 256]
  obtain c'' where "changePermission example_env c' 256 Read_Only = Some c''" using p [of Read_Only] l(2) by fastforce
  moreover from this have "lookup_entry example_env c'' 256 = Some (example_entry\<lparr>ce_Address := 256, ce_Permission := Read_Only\<rparr>)"
    using p [of Read_Only] l(2) by simp
  moreover have "changePermission example_env c' 256 NotPresent = None" using p [of NotPresent] by simp
  ultimately show ?thesis using c(1) c' by blast
qed

end
