(* ===== verification/Tables_Model.thy ===== *)
theory Tables_Model
  imports Line_Store EventQueue_Model Cache_Model "HOL-Library.AList"
begin

text \<open>
  The hash map \<^verbatim>\<open>common/Map.h\<close> and the tables built on it: transactions in flight
  (\<^verbatim>\<open>system/TBETable.h\<close>), the perfect cache (\<^verbatim>\<open>system/PerfectCacheMemory.h\<close>), timers
  (\<^verbatim>\<open>system/TimerTable.C\<close>), and the directory memory (\<^verbatim>\<open>system/DirectoryMemory.C\<close>).

  The order in which the hash map iterates over its keys is not specified: \<open>keys\<close> takes it as the argument \<open>ord\<close>, of which
  the results assume only that it permutes its argument.  A default-constructed entry of the generated classes is the argument
  \<open>e0\<close>.  Both tables of lines meet the contract of \<^theory_text>\<open>Line_Store\<close>.
\<close>

subsection \<open>Map\<close>

type_synonym ('k, 'v) Map = "('k \<times> 'v) list"

definition Map_add :: "('k, 'v) Map \<Rightarrow> 'k \<Rightarrow> 'v \<Rightarrow> ('k, 'v) Map" where
  "Map_add m key v = AList.update key v m"

definition Map_exist :: "('k, 'v) Map \<Rightarrow> 'k \<Rightarrow> bool" where
  "Map_exist m key \<longleftrightarrow> (case map_of m key of None \<Rightarrow> False | Some _ \<Rightarrow> True)"

definition Map_size :: "('k, 'v) Map \<Rightarrow> int" where
  "Map_size m = int (length m)"

definition Map_erase :: "('k, 'v) Map \<Rightarrow> 'k \<Rightarrow> ('k, 'v) Map option" where
  "Map_erase m key = do { assert_that (Map_exist m key); Some (AList.delete key m) }"

definition Map_lookup :: "('k, 'v) Map \<Rightarrow> 'k \<Rightarrow> 'v option" where
  "Map_lookup m key = do { assert_that (Map_exist m key); map_of m key }"

definition Map_keys :: "('k list \<Rightarrow> 'k list) \<Rightarrow> ('k, 'v) Map \<Rightarrow> 'k list" where
  "Map_keys ord m = ord (map fst m)"

definition Map_values :: "('k list \<Rightarrow> 'k list) \<Rightarrow> ('k, 'v) Map \<Rightarrow> 'v list" where
  "Map_values ord m = map (\<lambda>k. the (map_of m k)) (ord (map fst m))"

definition Map_inv :: "('k, 'v) Map \<Rightarrow> bool" where
  "Map_inv m \<longleftrightarrow> distinct (map fst m)"

lemma Map_exist_iff [simp]: "Map_exist m k \<longleftrightarrow> map_of m k \<noteq> None"
  by (auto simp: Map_exist_def split: option.splits)

lemma Map_lookup_eq [simp]: "Map_lookup m k = map_of m k"
  by (auto simp: Map_lookup_def)

lemma Map_add_law [simp]:
  "map_of (Map_add m k v) = (map_of m)(k \<mapsto> v)" "Map_inv m \<Longrightarrow> Map_inv (Map_add m k v)"
  by (simp_all add: Map_add_def Map_inv_def update_conv' distinct_update)

lemma Map_size_add: "map_of m k = None \<Longrightarrow> Map_size (Map_add m k v) = Map_size m + 1"
  by (induction m) (auto simp: Map_size_def Map_add_def split: if_splits)

lemma Map_delete_law [simp]:
  "map_of (AList.delete k m) = (map_of m)(k := None)" "Map_inv m \<Longrightarrow> Map_inv (AList.delete k m)"
  by (auto simp: Map_inv_def delete_conv' distinct_delete)

lemma Map_size_delete: "Map_size (AList.delete k m) \<le> Map_size m"
  by (simp add: Map_size_def length_delete_le)

subsection \<open>TBETable\<close>

record 'e TBETable =
  tbe_map :: "(Address, 'e) Map"

definition TBETable_new :: "'e TBETable" where
  "TBETable_new = \<lparr>tbe_map = []\<rparr>"

record tbe_env =
  tbe_config :: RubyConfig
  NUMBER_OF_TBES :: int

definition tbe_areNSlotsAvailable :: "tbe_env \<Rightarrow> 'e TBETable \<Rightarrow> int \<Rightarrow> bool" where
  "tbe_areNSlotsAvailable v t n \<longleftrightarrow> NUMBER_OF_TBES v - Map_size (tbe_map t) \<ge> n"

definition tbe_isPresent :: "tbe_env \<Rightarrow> 'e TBETable \<Rightarrow> Address \<Rightarrow> bool option" where
  "tbe_isPresent v t address = do {
     assert_that (address = line_address (tbe_config v) address);
     assert_that (Map_size (tbe_map t) \<le> NUMBER_OF_TBES v);
     Some (Map_exist (tbe_map t) address)
   }"

definition tbe_allocate :: "tbe_env \<Rightarrow> 'e \<Rightarrow> 'e TBETable \<Rightarrow> Address \<Rightarrow> 'e TBETable option" where
  "tbe_allocate v e0 t address = do {
     present \<leftarrow> tbe_isPresent v t address;
     assert_that (present = False);
     assert_that (Map_size (tbe_map t) < NUMBER_OF_TBES v);
     Some (t\<lparr>tbe_map := Map_add (tbe_map t) address e0\<rparr>)
   }"

definition tbe_deallocate :: "tbe_env \<Rightarrow> 'e TBETable \<Rightarrow> Address \<Rightarrow> 'e TBETable option" where
  "tbe_deallocate v t address = do {
     present \<leftarrow> tbe_isPresent v t address;
     assert_that (present = True);
     assert_that (Map_size (tbe_map t) > 0);
     m \<leftarrow> Map_erase (tbe_map t) address;
     Some (t\<lparr>tbe_map := m\<rparr>)
   }"

definition tbe_lookup :: "tbe_env \<Rightarrow> 'e TBETable \<Rightarrow> Address \<Rightarrow> 'e option" where
  "tbe_lookup v t address = do {
     present \<leftarrow> tbe_isPresent v t address;
     assert_that (present = True);
     Map_lookup (tbe_map t) address
   }"

definition tbe_write :: "tbe_env \<Rightarrow> 'e TBETable \<Rightarrow> Address \<Rightarrow> ('e \<Rightarrow> 'e) \<Rightarrow> 'e TBETable option" where
  "tbe_write v t address f = do {
     e \<leftarrow> tbe_lookup v t address;
     Some (t\<lparr>tbe_map := Map_add (tbe_map t) address (f e)\<rparr>)
   }"

text \<open>The table never exceeds its size, so the assertion in \<^verbatim>\<open>isPresent\<close> never fails.\<close>

definition tbe_inv :: "tbe_env \<Rightarrow> 'e TBETable \<Rightarrow> bool" where
  "tbe_inv v t \<longleftrightarrow> Map_inv (tbe_map t) \<and> Map_size (tbe_map t) \<le> NUMBER_OF_TBES v \<and>
     (\<forall>a \<in> dom (map_of (tbe_map t)). line_address (tbe_config v) a = a)"

lemma tbe_aligned: "\<lbrakk>tbe_inv v t; map_of (tbe_map t) a = Some e\<rbrakk> \<Longrightarrow> a = line_address (tbe_config v) a"
  unfolding tbe_inv_def by (metis domI)

lemma tbe_lookup_eq:
  assumes "tbe_inv v t"
  shows "tbe_lookup v t = map_of (tbe_map t)"
proof (rule ext)
  fix a show "tbe_lookup v t a = map_of (tbe_map t) a"
    using assms tbe_aligned [OF assms, of a]
    by (cases "map_of (tbe_map t) a") (simp_all add: tbe_lookup_def tbe_isPresent_def tbe_inv_def)
qed

lemma Map_size_pos: "map_of m k \<noteq> None \<Longrightarrow> 0 < Map_size m"
  by (cases m) (simp_all add: Map_size_def)

lemma Map_size_add_present: "map_of m k \<noteq> None \<Longrightarrow> Map_size (Map_add m k v) = Map_size m"
  by (induction m) (auto simp: Map_size_def Map_add_def)

lemma tbe_allocate_law:
  assumes i: "tbe_inv v t" and w: "tbe_allocate v e0 t a = Some t'"
  shows "tbe_inv v t' \<and> map_of (tbe_map t) a = None \<and> map_of (tbe_map t') = (map_of (tbe_map t))(a \<mapsto> e0)"
  using w i by (auto simp: tbe_allocate_def tbe_isPresent_def tbe_inv_def Map_size_add split: if_splits elim!: bind_eq_SomeE)

lemma tbe_deallocate_law:
  assumes i: "tbe_inv v t"
  shows "tbe_deallocate v t a = Some t' \<Longrightarrow>
      tbe_inv v t' \<and> map_of (tbe_map t) a \<noteq> None \<and> map_of (tbe_map t') = (map_of (tbe_map t))(a := None)"
    "map_of (tbe_map t) a \<noteq> None \<Longrightarrow> tbe_deallocate v t a \<noteq> None"
proof -
  show "tbe_inv v t' \<and> map_of (tbe_map t) a \<noteq> None \<and> map_of (tbe_map t') = (map_of (tbe_map t))(a := None)"
    if "tbe_deallocate v t a = Some t'"
    using that i Map_size_delete [of a "tbe_map t"]
    by (auto simp: tbe_deallocate_def tbe_isPresent_def tbe_inv_def Map_erase_def split: if_splits elim!: bind_eq_SomeE)
  show "tbe_deallocate v t a \<noteq> None" if "map_of (tbe_map t) a \<noteq> None"
    using that i Map_size_pos [OF that] tbe_aligned [OF i, of a]
    by (cases "map_of (tbe_map t) a") (simp_all add: tbe_deallocate_def tbe_isPresent_def tbe_inv_def Map_erase_def)
qed

lemma tbe_write_law:
  assumes i: "tbe_inv v t"
  shows "tbe_write v t a f = Some t' \<Longrightarrow> tbe_inv v t' \<and> map_of (tbe_map t) a \<noteq> None \<and>
      map_of (tbe_map t') = (map_of (tbe_map t))(a := map_option f (map_of (tbe_map t) a))"
    "map_of (tbe_map t) a \<noteq> None \<Longrightarrow> tbe_write v t a f \<noteq> None"
proof -
  show "tbe_write v t a f \<noteq> None" if "map_of (tbe_map t) a \<noteq> None" using that by (auto simp: tbe_write_def tbe_lookup_eq [OF i])
  assume "tbe_write v t a f = Some t'"
  then obtain e where e: "map_of (tbe_map t) a = Some e" "t' = t\<lparr>tbe_map := Map_add (tbe_map t) a (f e)\<rparr>"
    by (auto simp: tbe_write_def tbe_lookup_eq [OF i] elim!: bind_eq_SomeE)
  moreover from this have "line_address (tbe_config v) a = a" using i by (auto simp: tbe_inv_def)
  ultimately show "tbe_inv v t' \<and> map_of (tbe_map t) a \<noteq> None \<and>
      map_of (tbe_map t') = (map_of (tbe_map t))(a := map_option f (map_of (tbe_map t) a))"
    using i Map_size_add_present [of "tbe_map t" a] by (simp add: tbe_inv_def)
qed

interpretation tbe_lines: line_store "tbe_inv v" "tbe_lookup v" "\<lambda>_. e0" "\<lambda>_ :: unit. tbe_allocate v e0" "tbe_deallocate v"
    "tbe_write v" "\<lambda>_. True" "\<lambda>_. True"
  for v and e0 :: 'e
proof (unfold_locales, goal_cases)
  case (1 s a t s') then show ?case using tbe_allocate_law [of v s e0 a s'] by (simp add: tbe_lookup_eq)
next
  case (2 s a s') then show ?case using tbe_deallocate_law(1) [of v s a s'] by (simp add: tbe_lookup_eq)
next
  case (3 s a f s') then show ?case using tbe_write_law(1) [of v s a f s'] by (simp add: tbe_lookup_eq)
next
  case (4 s a) then show ?case using tbe_deallocate_law(2) [of v s a] by (simp add: tbe_lookup_eq)
next
  case (5 s a f) then show ?case using tbe_write_law(2) [of v s a f] by (simp add: tbe_lookup_eq)
next
  case (6 s a t s') then show ?case using tbe_allocate_law [of v s e0 a s'] by (simp add: tbe_lookup_eq)
qed

subsection \<open>PerfectCacheMemory\<close>

text \<open>
  The permission of a line state is undefined (\<^verbatim>\<open>AccessPermission_NUM\<close>) only before \<^verbatim>\<open>allocate\<close>
  assigns it; line states reach the map only through \<^verbatim>\<open>allocate\<close>.
\<close>

record 'e PerfectCacheLineState =
  pl_permission :: AccessPermission
  pl_entry :: 'e

record 'e PerfectCacheMemory =
  pc_map :: "(Address, 'e PerfectCacheLineState) Map"

definition PerfectCacheMemory_new :: "'e PerfectCacheMemory" where
  "PerfectCacheMemory_new = \<lparr>pc_map = []\<rparr>"

definition pc_isTagPresent :: "RubyConfig \<Rightarrow> 'e PerfectCacheMemory \<Rightarrow> Address \<Rightarrow> bool" where
  "pc_isTagPresent c p address = Map_exist (pc_map p) (line_address c address)"

definition pc_cacheAvail :: "'e PerfectCacheMemory \<Rightarrow> Address \<Rightarrow> bool" where
  "pc_cacheAvail p address = True"

definition pc_allocate :: "RubyConfig \<Rightarrow> 'e \<Rightarrow> 'e PerfectCacheMemory \<Rightarrow> Address \<Rightarrow> 'e PerfectCacheMemory" where
  "pc_allocate c e0 p address =
     (let line_state = \<lparr>pl_permission = Busy, pl_entry = e0\<rparr>
      in p\<lparr>pc_map := Map_add (pc_map p) (line_address c address) line_state\<rparr>)"

definition pc_deallocate :: "RubyConfig \<Rightarrow> 'e PerfectCacheMemory \<Rightarrow> Address \<Rightarrow> 'e PerfectCacheMemory option" where
  "pc_deallocate c p address = do {
     m \<leftarrow> Map_erase (pc_map p) (line_address c address);
     Some (p\<lparr>pc_map := m\<rparr>)
   }"

definition pc_lookup :: "RubyConfig \<Rightarrow> 'e PerfectCacheMemory \<Rightarrow> Address \<Rightarrow> 'e option" where
  "pc_lookup c p address = map_option pl_entry (Map_lookup (pc_map p) (line_address c address))"

definition pc_write :: "RubyConfig \<Rightarrow> 'e PerfectCacheMemory \<Rightarrow> Address \<Rightarrow> ('e \<Rightarrow> 'e) \<Rightarrow> 'e PerfectCacheMemory option" where
  "pc_write c p address f = do {
     ls \<leftarrow> Map_lookup (pc_map p) (line_address c address);
     Some (p\<lparr>pc_map := Map_add (pc_map p) (line_address c address) (ls\<lparr>pl_entry := f (pl_entry ls)\<rparr>)\<rparr>)
   }"

definition pc_getPermission :: "RubyConfig \<Rightarrow> 'e PerfectCacheMemory \<Rightarrow> Address \<Rightarrow> AccessPermission option" where
  "pc_getPermission c p address = map_option pl_permission (Map_lookup (pc_map p) (line_address c address))"

definition pc_changePermission :: "RubyConfig \<Rightarrow> 'e PerfectCacheMemory \<Rightarrow> Address \<Rightarrow> AccessPermission \<Rightarrow> 'e PerfectCacheMemory option" where
  "pc_changePermission c p address new_perm = do {
     ls \<leftarrow> Map_lookup (pc_map p) (line_address c address);
     Some (p\<lparr>pc_map := Map_add (pc_map p) (line_address c address) (ls\<lparr>pl_permission := new_perm\<rparr>)\<rparr>)
   }"

text \<open>
  The perfect cache has no assertion against allocating a line twice, so it meets only the weaker contract, for clients that
  use line addresses; the map it implements is the one on line addresses.
\<close>

definition pc_lines :: "RubyConfig \<Rightarrow> 'e PerfectCacheMemory \<Rightarrow> Address \<Rightarrow> 'e option" where
  "pc_lines c p a = (if a = line_address c a then pc_lookup c p a else None)"

interpretation perfect_lines: line_map "\<lambda>_. True" "pc_lines c" "\<lambda>_. e0" "\<lambda>_ :: unit. \<lambda>p a. Some (pc_allocate c e0 p a)" "pc_deallocate c"
    "pc_write c" "\<lambda>a. a = line_address c a" "\<lambda>_. True"
  for c and e0 :: 'e
  by (unfold_locales;
    auto simp: fun_eq_iff pc_lines_def pc_lookup_def pc_allocate_def pc_deallocate_def pc_write_def Map_erase_def Let_def
      split: if_splits elim!: bind_eq_SomeE)

subsection \<open>TimerTable\<close>

record TimerTable =
  tt_map :: "(Address, Time) Map"
  tt_next_valid :: bool
  tt_next_time :: Time
  tt_next_address :: Address
  tt_consumer_ptr :: ConsumerPtr

definition TimerTable_new :: TimerTable where
  "TimerTable_new = \<lparr>tt_map = [], tt_next_valid = False, tt_next_time = 0, tt_next_address = 0, tt_consumer_ptr = None\<rparr>"

definition tt_setConsumer :: "TimerTable \<Rightarrow> ConsumerPtr \<Rightarrow> TimerTable option" where
  "tt_setConsumer t consumer_ptr = do {
     assert_that (tt_consumer_ptr t = None);
     Some (t\<lparr>tt_consumer_ptr := consumer_ptr\<rparr>)
   }"

fun next_loop :: "(Address, Time) Map \<Rightarrow> Address list \<Rightarrow> Address \<Rightarrow> Time \<Rightarrow> (Address \<times> Time) option" where
  "next_loop m [] next_address next_time = Some (next_address, next_time)"
| "next_loop m (maybe_next_address # addresses) next_address next_time = do {
     maybe_next_time \<leftarrow> Map_lookup m maybe_next_address;
     (if maybe_next_time < next_time then next_loop m addresses maybe_next_address maybe_next_time
      else next_loop m addresses next_address next_time)
   }"

definition updateNext :: "(Address list \<Rightarrow> Address list) \<Rightarrow> TimerTable \<Rightarrow> TimerTable option" where
  "updateNext ord t =
     (if Map_size (tt_map t) = 0 then do { assert_that (tt_next_valid t = False); Some t }
      else (case Map_keys ord (tt_map t) of
          [] \<Rightarrow> None
        | a # addresses \<Rightarrow> do {
            next_time \<leftarrow> Map_lookup (tt_map t) a;
            (na, nt) \<leftarrow> next_loop (tt_map t) addresses a next_time;
            Some (t\<lparr>tt_next_address := na, tt_next_time := nt, tt_next_valid := True\<rparr>)
          }))"

definition tt_refresh :: "(Address list \<Rightarrow> Address list) \<Rightarrow> TimerTable \<Rightarrow> TimerTable option" where
  "tt_refresh ord t = (if \<not> tt_next_valid t then updateNext ord t else Some t)"

definition tt_isReady :: "(Address list \<Rightarrow> Address list) \<Rightarrow> Time \<Rightarrow> TimerTable \<Rightarrow> (bool \<times> TimerTable) option" where
  "tt_isReady ord now t =
     (if Map_size (tt_map t) = 0 then Some (False, t)
      else do {
        t \<leftarrow> tt_refresh ord t;
        assert_that (tt_next_valid t);
        Some (now \<ge> tt_next_time t, t)
      })"

definition tt_readyAddress :: "(Address list \<Rightarrow> Address list) \<Rightarrow> Time \<Rightarrow> TimerTable \<Rightarrow> (Address \<times> TimerTable) option" where
  "tt_readyAddress ord now t = do {
     (ready, t) \<leftarrow> tt_isReady ord now t;
     assert_that ready;
     t \<leftarrow> tt_refresh ord t;
     assert_that (tt_next_valid t);
     Some (tt_next_address t, t)
   }"

definition tt_isSet :: "TimerTable \<Rightarrow> Address \<Rightarrow> bool" where
  "tt_isSet t address = Map_exist (tt_map t) address"

definition tt_set :: "RubyConfig \<Rightarrow> EventQueue \<Rightarrow> TimerTable \<Rightarrow> Address \<Rightarrow> Time \<Rightarrow> (TimerTable \<times> EventQueue) option" where
  "tt_set c eq t address relative_latency = do {
     assert_that (address = line_address c address);
     assert_that (relative_latency > 0);
     assert_that (Map_exist (tt_map t) address = False);
     let ready_time = getTime eq + relative_latency;
     let t = t\<lparr>tt_map := Map_add (tt_map t) address ready_time\<rparr>;
     assert_that (tt_consumer_ptr t \<noteq> None);
     eq \<leftarrow> scheduleEventAbsolute eq (tt_consumer_ptr t) ready_time;
     let t = t\<lparr>tt_next_valid := False\<rparr>;
     let t = (if ready_time \<le> tt_next_time t then t\<lparr>tt_next_valid := False\<rparr> else t);
     Some (t, eq)
   }"

definition tt_unset :: "RubyConfig \<Rightarrow> TimerTable \<Rightarrow> Address \<Rightarrow> TimerTable option" where
  "tt_unset c t address = do {
     assert_that (address = line_address c address);
     assert_that (Map_exist (tt_map t) address = True);
     m \<leftarrow> Map_erase (tt_map t) address;
     let t = t\<lparr>tt_map := m\<rparr>;
     Some (if address = tt_next_address t then t\<lparr>tt_next_valid := False\<rparr> else t)
   }"

text \<open>When the cached minimum is marked valid it is an entry of the table with the earliest time.\<close>

definition earliest :: "(Address \<rightharpoonup> Time) \<Rightarrow> Address \<Rightarrow> Time \<Rightarrow> bool" where
  "earliest m a t \<longleftrightarrow> m a = Some t \<and> (\<forall>b u. m b = Some u \<longrightarrow> t \<le> u)"

definition tt_inv :: "TimerTable \<Rightarrow> bool" where
  "tt_inv t \<longleftrightarrow> Map_inv (tt_map t) \<and> (tt_next_valid t \<longrightarrow> earliest (map_of (tt_map t)) (tt_next_address t) (tt_next_time t))"

lemma next_loop_earliest:
  assumes "map_of m a = Some t" "set as \<subseteq> dom (map_of m)"
  shows "\<exists>b u. next_loop m as a t = Some (b, u) \<and> map_of m b = Some u \<and> u \<le> t \<and> (\<forall>x \<in> set as. u \<le> the (map_of m x))"
  using assms
proof (induction as arbitrary: a t)
  case (Cons x xs)
  then obtain tx where tx: "map_of m x = Some tx" by auto
  show ?case
  proof (cases "tx < t")
    case True
    then show ?thesis using Cons.IH [OF tx] Cons.prems tx by fastforce
  next
    case False
    then show ?thesis using Cons.IH [OF Cons.prems(1)] Cons.prems tx by fastforce
  qed
qed simp

lemma updateNext_law:
  assumes i: "tt_inv t" and ord: "\<forall>xs. mset (ord xs) = mset xs" and ne: "Map_size (tt_map t) \<noteq> 0"
  obtains a u where "updateNext ord t = Some (t\<lparr>tt_next_address := a, tt_next_time := u, tt_next_valid := True\<rparr>)"
    "earliest (map_of (tt_map t)) a u"
proof -
  let ?m = "tt_map t"
  have perm: "mset (Map_keys ord ?m) = mset (map fst ?m)" using ord by (simp add: Map_keys_def)
  have ks: "set (Map_keys ord ?m) = dom (map_of ?m)" using mset_eq_setD [OF perm] by (simp add: dom_map_of_conv_image_fst)
  have "length (Map_keys ord ?m) = length ?m" using mset_eq_length [OF perm] by simp
  then obtain a as where a: "Map_keys ord ?m = a # as" using ne by (cases "Map_keys ord ?m") (auto simp: Map_size_def)
  then obtain u where u: "map_of ?m a = Some u" using ks by auto
  obtain b w where b: "next_loop ?m as a u = Some (b, w)" "map_of ?m b = Some w" "w \<le> u" "\<forall>x \<in> set as. w \<le> the (map_of ?m x)"
    using next_loop_earliest [OF u, of as] ks a by auto
  have "w \<le> v" if "map_of ?m x = Some v" for x v
  proof -
    have "x \<in> set (a # as)" using that ks a by auto
    then show ?thesis using b(3,4) u that by auto
  qed
  then have "earliest (map_of ?m) b w" using b(2) by (simp add: earliest_def)
  then show thesis using that [where a = b and u = w] a u b(1) ne by (simp add: updateNext_def)
qed

text \<open>What a query reports: the table's entries are unchanged and the cache holds the earliest timer.\<close>

lemma tt_refresh_law:
  assumes i: "tt_inv t" and ord: "\<forall>xs. mset (ord xs) = mset xs" and ne: "Map_size (tt_map t) \<noteq> 0"
  obtains t' where "tt_refresh ord t = Some t'" "tt_inv t'" "tt_map t' = tt_map t" "tt_consumer_ptr t' = tt_consumer_ptr t"
    "tt_next_valid t'" "earliest (map_of (tt_map t)) (tt_next_address t') (tt_next_time t')"
proof (cases "tt_next_valid t")
  case True
  then show thesis using that [of t] i by (simp add: tt_refresh_def tt_inv_def)
next
  case False
  obtain a u where "updateNext ord t = Some (t\<lparr>tt_next_address := a, tt_next_time := u, tt_next_valid := True\<rparr>)"
    "earliest (map_of (tt_map t)) a u"
    by (rule updateNext_law [of t ord]) (use assms in auto)
  then show thesis using that i False by (simp add: tt_refresh_def tt_inv_def)
qed

lemma tt_isReady_law:
  assumes i: "tt_inv t" and ord: "\<forall>xs. mset (ord xs) = mset xs"
  obtains t' where "tt_isReady ord now t = Some (\<exists>a u. map_of (tt_map t) a = Some u \<and> u \<le> now, t')" "tt_inv t'"
    "tt_map t' = tt_map t" "Map_size (tt_map t) \<noteq> 0 \<Longrightarrow> tt_next_valid t'"
    "tt_consumer_ptr t' = tt_consumer_ptr t"
proof (cases "Map_size (tt_map t) = 0")
  case True
  then show thesis using that [of t] i by (simp add: tt_isReady_def Map_size_def)
next
  case False
  obtain t' where t': "tt_refresh ord t = Some t'" "tt_inv t'" "tt_map t' = tt_map t" "tt_consumer_ptr t' = tt_consumer_ptr t"
    "tt_next_valid t'" "earliest (map_of (tt_map t)) (tt_next_address t') (tt_next_time t')"
    by (rule tt_refresh_law [of t ord]) (use i ord False in auto)
  then have "(\<exists>a u. map_of (tt_map t) a = Some u \<and> u \<le> now) \<longleftrightarrow> tt_next_time t' \<le> now"
    unfolding earliest_def by (meson order_trans)
  then show thesis using that [of t'] t' False by (simp add: tt_isReady_def)
qed

lemma tt_readyAddress_law:
  assumes i: "tt_inv t" and ord: "\<forall>xs. mset (ord xs) = mset xs" and r: "map_of (tt_map t) b = Some w" "w \<le> now"
  obtains a u t' where "tt_readyAddress ord now t = Some (a, t')" "tt_inv t'" "tt_map t' = tt_map t"
    "earliest (map_of (tt_map t)) a u" "u \<le> now"
proof -
  have ne: "Map_size (tt_map t) \<noteq> 0" using r(1) by (cases "tt_map t") (auto simp: Map_size_def)
  have q: "\<exists>a u. map_of (tt_map t) a = Some u \<and> u \<le> now" using r by blast
  obtain t1 where t1: "tt_isReady ord now t = Some (True, t1)" "tt_inv t1" "tt_map t1 = tt_map t" "tt_next_valid t1"
    by (rule tt_isReady_law [of t ord now]) (use i ord ne q in simp_all)
  obtain t2 where t2: "tt_refresh ord t1 = Some t2" "tt_inv t2" "tt_map t2 = tt_map t1"
    "tt_next_valid t2" "earliest (map_of (tt_map t1)) (tt_next_address t2) (tt_next_time t2)"
    by (rule tt_refresh_law [of t1 ord]) (use ord t1 ne in simp_all)
  have "tt_next_time t2 \<le> now" using t2(5) t1(3) r unfolding earliest_def by (metis order_trans)
  then show thesis using that [of "tt_next_address t2" t2 "tt_next_time t2"] t1 t2 by (simp add: tt_readyAddress_def)
qed

lemma tt_set_law:
  assumes i: "tt_inv t" and w: "tt_set c eq t a lat = Some (t', eq')" and e: "eq_inv eq"
  shows "tt_inv t'" "map_of (tt_map t) a = None" "map_of (tt_map t') = (map_of (tt_map t))(a \<mapsto> m_globalTime eq + lat)" "0 < lat"
    "\<exists>n. tt_consumer_ptr t = Some n \<and> event n (m_globalTime eq + lat) \<in># pending eq'" "eq_inv eq'"
proof -
  obtain n where n: "tt_consumer_ptr t = Some n" using w by (auto simp: tt_set_def Let_def split: if_splits)
  have g: "map_of (tt_map t) a = None" "0 < lat" using w by (auto simp: tt_set_def split: if_splits)
  let ?r = "m_globalTime eq + lat"
  obtain eq1 where eq1: "scheduleEventAbsolute eq (Some n) ?r = Some eq1" "eq_inv eq1" "event n ?r \<in># pending eq1"
    by (rule scheduleEventAbsolute_correct [OF e, of ?r n]) (use g in auto)
  have "a = line_address c a" using w by (simp add: tt_set_def split: if_splits)
  then have t': "eq' = eq1" "t' = t\<lparr>tt_map := Map_add (tt_map t) a ?r, tt_next_valid := False\<rparr>"
    using w n g eq1(1) by (auto simp: tt_set_def Let_def getTime_def)
  show "tt_inv t'" using i t'(2) by (simp add: tt_inv_def)
  show "map_of (tt_map t') = (map_of (tt_map t))(a \<mapsto> ?r)" using t'(2) by simp
  show "map_of (tt_map t) a = None" "0 < lat" by (fact g)+
  show "\<exists>n. tt_consumer_ptr t = Some n \<and> event n ?r \<in># pending eq'" "eq_inv eq'" using n eq1 t' by auto
qed

lemma tt_unset_law:
  assumes i: "tt_inv t" and w: "tt_unset c t a = Some t'"
  shows "tt_inv t'" "map_of (tt_map t) a \<noteq> None" "map_of (tt_map t') = (map_of (tt_map t))(a := None)"
proof -
  have "a = line_address c a" "map_of (tt_map t) a \<noteq> None" using w by (simp_all add: tt_unset_def split: if_splits)
  then have t': "t' = (if a = tt_next_address t then t\<lparr>tt_map := AList.delete a (tt_map t), tt_next_valid := False\<rparr>
      else t\<lparr>tt_map := AList.delete a (tt_map t)\<rparr>)"
    using w by (auto simp: tt_unset_def Map_erase_def Let_def)
  show "tt_inv t'" using i t' by (auto simp: tt_inv_def earliest_def)
  show "map_of (tt_map t) a \<noteq> None" by fact
  show "map_of (tt_map t') = (map_of (tt_map t))(a := None)" using t' by simp
qed

text \<open>
  The runs of a timer table inside the simulator: its own calls, the queries (which update the cached minimum), and everything
  else that moves the event queue forward.
\<close>

inductive tt_step :: "(Address list \<Rightarrow> Address list) \<Rightarrow> RubyConfig \<Rightarrow> TimerTable \<times> EventQueue \<Rightarrow> TimerTable \<times> EventQueue \<Rightarrow> bool"
  for ord c where
  "tt_set c eq t a lat = Some (t', eq') \<Longrightarrow> tt_step ord c (t, eq) (t', eq')"
| "tt_unset c t a = Some t' \<Longrightarrow> tt_step ord c (t, eq) (t', eq)"
| "tt_isReady ord (getTime eq) t = Some (b, t') \<Longrightarrow> tt_step ord c (t, eq) (t', eq)"
| "tt_readyAddress ord (getTime eq) t = Some (a, t') \<Longrightarrow> tt_step ord c (t, eq) (t', eq)"
| "\<lbrakk>eq_inv eq'; m_globalTime eq \<le> m_globalTime eq'\<rbrakk> \<Longrightarrow> tt_step ord c (t, eq) (t, eq')"

inductive tt_reach :: "(Address list \<Rightarrow> Address list) \<Rightarrow> RubyConfig \<Rightarrow> TimerTable \<times> EventQueue \<Rightarrow> bool" for ord c where
  "tt_setConsumer TimerTable_new (Some n) = Some t \<Longrightarrow> tt_reach ord c (t, EventQueue_new)"
| "\<lbrakk>tt_reach ord c s; tt_step ord c s s'\<rbrakk> \<Longrightarrow> tt_reach ord c s'"

inductive_cases tt_stepE: "tt_step ord c (t, eq) s'"

lemma tt_inv_refresh:
  assumes i: "tt_inv t" and ord: "\<forall>xs. mset (ord xs) = mset xs" and w: "tt_refresh ord t = Some t'"
  shows "tt_inv t'"
proof (cases "Map_size (tt_map t) = 0")
  case True
  then show ?thesis using w i by (auto simp: tt_refresh_def updateNext_def split: if_splits)
next
  case False
  show ?thesis by (rule tt_refresh_law [of t ord]) (use i ord False w in auto)
qed

lemma tt_inv_isReady:
  assumes i: "tt_inv t" and ord: "\<forall>xs. mset (ord xs) = mset xs" and w: "tt_isReady ord now t = Some (b, t')"
  shows "tt_inv t'"
  by (rule tt_isReady_law [of t ord now]) (use i ord w in auto)

lemma tt_inv_readyAddress:
  assumes i: "tt_inv t" and ord: "\<forall>xs. mset (ord xs) = mset xs" and w: "tt_readyAddress ord now t = Some (a, t')"
  shows "tt_inv t'"
proof -
  obtain b t1 where t1: "tt_isReady ord now t = Some (b, t1)" "tt_refresh ord t1 = Some t'"
    using w by (auto simp: tt_readyAddress_def elim!: bind_eq_SomeE split: if_splits)
  show ?thesis using tt_inv_refresh [of t1 ord t'] tt_inv_isReady [of t ord now b t1] i ord t1 by blast
qed

lemma tt_step_inv:
  assumes "tt_step ord c s s'" "\<forall>xs. mset (ord xs) = mset xs" "tt_inv (fst s)" "eq_inv (snd s)"
  shows "tt_inv (fst s') \<and> eq_inv (snd s')"
  using assms
proof (induction rule: tt_step.induct)
  case (1 eq t a lat t' eq')
  then show ?case using tt_set_law [of t c eq a lat t' eq'] by simp
next
  case (2 t a t' eq)
  then show ?case using tt_unset_law [of t c a t'] by simp
next
  case (3 eq t b t')
  then show ?case using tt_inv_isReady [of t ord "getTime eq" b t'] by simp
next
  case (4 eq t a t')
  then show ?case using tt_inv_readyAddress [of t ord "getTime eq" a t'] by simp
qed simp

lemma tt_reach_inv:
  assumes "tt_reach ord c s" "\<forall>xs. mset (ord xs) = mset xs"
  shows "tt_inv (fst s) \<and> eq_inv (snd s)"
  using assms
proof (induction rule: tt_reach.induct)
  case (1 n t)
  then show ?case using eq_inv_new by (auto simp: tt_setConsumer_def TimerTable_new_def tt_inv_def Map_inv_def)
next
  case (2 s s')
  then show ?case using tt_step_inv by blast
qed

subsection \<open>DirectoryMemory\<close>

record 'e DirectoryMemory =
  dm_entries :: "int \<rightharpoonup> 'e"
  dm_chip_id :: NodeID
  dm_size :: int
  dm_version :: int

definition DirectoryMemory_new :: "RubyConfig \<Rightarrow> NodeID \<Rightarrow> int \<Rightarrow> 'e DirectoryMemory option" where
  "DirectoryMemory_new c chip version = do {
     assert_that (g_MEMORY_MODULE_BLOCKS c > 0);
     Some \<lparr>dm_entries = Map.empty, dm_chip_id = chip, dm_size = g_MEMORY_MODULE_BLOCKS c, dm_version = version\<rparr>
   }"

definition dm_isPresent :: "RubyConfig \<Rightarrow> 'e DirectoryMemory \<Rightarrow> Address \<Rightarrow> bool option" where
  "dm_isPresent c d address = do {
     n \<leftarrow> map_Address_to_DirectoryNode c address;
     Some (n = dm_chip_id d * g_NUM_MEMORIES_PER_CHIP c + dm_version d)
   }"

definition dm_lookup :: "RubyConfig \<Rightarrow> 'e \<Rightarrow> 'e DirectoryMemory \<Rightarrow> Address \<Rightarrow> (int \<times> 'e DirectoryMemory) option" where
  "dm_lookup c e0 d address = do {
     present \<leftarrow> dm_isPresent c d address;
     assert_that present;
     index \<leftarrow> memoryModuleIndex c address;
     assert_that (\<not> (index < 0 \<or> index > dm_size d));
     Some (index, case dm_entries d index of
         None \<Rightarrow> d\<lparr>dm_entries := (dm_entries d)(index \<mapsto> e0)\<rparr>
       | Some e \<Rightarrow> d)
   }"

lemma dm_lookup_Some:
  assumes "dm_isPresent c d a = Some True" "memoryModuleIndex c a = Some i" "0 \<le> i" "i < g_MEMORY_MODULE_BLOCKS c"
    "dm_size d = g_MEMORY_MODULE_BLOCKS c"
  shows "\<exists>d'. dm_lookup c e0 d a = Some (i, d') \<and>
    dm_entries d' = (dm_entries d)(i \<mapsto> case dm_entries d i of None \<Rightarrow> e0 | Some e \<Rightarrow> e)"
  using assms by (auto simp: dm_lookup_def fun_upd_idem split: option.splits)

subsection \<open>Properties\<close>

text \<open>
  C39. The table of transactions in flight: after any sequence of calls that ran without an abort,
  \<^verbatim>\<open>lookup\<close> finds exactly the entries that were allocated and not deallocated, with what was written to them;
  the table never holds more than \<^verbatim>\<open>NUMBER_OF_TBES\<close> entries; and \<^verbatim>\<open>allocate\<close> of a line succeeds
  exactly when the line has no entry and \<^verbatim>\<open>areNSlotsAvailable(1)\<close> holds.
\<close>
theorem tbe_table_correct:
  assumes "0 \<le> NUMBER_OF_TBES v"
    and run: "store_run (\<lambda>_ :: unit. tbe_allocate v e0) (tbe_deallocate v) (tbe_write v) TBETable_new xs = Some t"
    and al: "a = line_address (tbe_config v) a"
  shows "map_pres (\<lambda>_. e0) Map.empty xs \<and> tbe_lookup v t = foldl (map_op (\<lambda>_. e0)) Map.empty xs \<and>
    Map_size (tbe_map t) \<le> NUMBER_OF_TBES v \<and>
    (tbe_allocate v e0 t a \<noteq> None \<longleftrightarrow> tbe_lookup v t a = None \<and> tbe_areNSlotsAvailable v t 1)"
proof -
  have i0: "tbe_inv v (TBETable_new :: 'a TBETable)" using assms(1) by (simp add: tbe_inv_def TBETable_new_def Map_inv_def Map_size_def)
  have l0: "tbe_lookup v (TBETable_new :: 'a TBETable) = Map.empty" using tbe_lookup_eq [OF i0] by (simp add: TBETable_new_def)
  have ok: "\<forall>x \<in> set xs. op_ok (\<lambda>_. True) (\<lambda>_. True) x" by (auto simp: split: line_op.split) (case_tac x; simp)
  have r: "tbe_inv v t \<and> map_pres (\<lambda>_. e0) Map.empty xs \<and> tbe_lookup v t = foldl (map_op (\<lambda>_. e0)) Map.empty xs"
    using tbe_lines.run_refines [OF i0 ok run] l0 by simp
  then have t: "tbe_inv v t" by blast
  have "tbe_allocate v e0 t a \<noteq> None \<longleftrightarrow> tbe_lookup v t a = None \<and> tbe_areNSlotsAvailable v t 1"
    unfolding tbe_lookup_eq [OF t] using al t
    by (cases "map_of (tbe_map t) a") (simp_all add: tbe_allocate_def tbe_isPresent_def tbe_inv_def tbe_areNSlotsAvailable_def)
  then show ?thesis using r by (simp add: tbe_inv_def)
qed

theorem tbe_table_correct_witness:
  "\<exists>t. store_run (\<lambda>_ :: unit. tbe_allocate \<lparr>tbe_config = example_config, NUMBER_OF_TBES = 2\<rparr> (0 :: nat))
       (tbe_deallocate \<lparr>tbe_config = example_config, NUMBER_OF_TBES = 2\<rparr>)
       (tbe_write \<lparr>tbe_config = example_config, NUMBER_OF_TBES = 2\<rparr>) TBETable_new
       [Allocate () 64, Write 64 (\<lambda>n. n + 7), Allocate () 128] = Some t \<and>
     tbe_lookup \<lparr>tbe_config = example_config, NUMBER_OF_TBES = 2\<rparr> t 64 = Some 7 \<and> Map_size (tbe_map t) \<le> 2"
proof -
  let ?v = "\<lparr>tbe_config = example_config, NUMBER_OF_TBES = 2\<rparr>"
  let ?xs = "[Allocate () 64, Write 64 (\<lambda>n :: nat. n + 7), Allocate () 128]"
  have "case store_run (\<lambda>_ :: unit. tbe_allocate ?v (0 :: nat)) (tbe_deallocate ?v) (tbe_write ?v) TBETable_new ?xs of
    None \<Rightarrow> False | Some t \<Rightarrow> True" by code_simp
  then obtain t where t: "store_run (\<lambda>_ :: unit. tbe_allocate ?v (0 :: nat)) (tbe_deallocate ?v) (tbe_write ?v) TBETable_new ?xs = Some t"
    by (auto split: option.splits)
  have "(64 :: Address) = line_address (tbe_config ?v) 64" by code_simp
  from tbe_table_correct [OF _ t this] t show ?thesis by simp
qed

text \<open>
  Timers: in every reachable state \<^verbatim>\<open>isReady\<close> answers (no assertion fails) and reports exactly whether some
  timer has expired; when one has, \<^verbatim>\<open>readyAddress\<close> returns the address of a timer with the earliest expiry time of
  all, although the minimum is cached across calls; and \<^verbatim>\<open>set\<close> leaves a wakeup of the consumer in the event queue
  for the expiry time of the new timer.
\<close>
theorem timer_table_correct:
  assumes r: "tt_reach ord c (t, eq)" and ord: "\<forall>xs. mset (ord xs) = mset xs"
  shows "(\<exists>t'. tt_isReady ord (getTime eq) t = Some (\<exists>a u. map_of (tt_map t) a = Some u \<and> u \<le> getTime eq, t')) \<and>
    ((\<exists>a u. map_of (tt_map t) a = Some u \<and> u \<le> getTime eq) \<longrightarrow>
      (\<exists>a u t'. tt_readyAddress ord (getTime eq) t = Some (a, t') \<and> earliest (map_of (tt_map t)) a u \<and> u \<le> getTime eq)) \<and>
    (\<forall>a lat t' eq'. tt_set c eq t a lat = Some (t', eq') \<longrightarrow> map_of (tt_map t) a = None \<and>
      map_of (tt_map t') = (map_of (tt_map t))(a \<mapsto> getTime eq + lat) \<and>
      (\<exists>n. tt_consumer_ptr t = Some n \<and> event n (getTime eq + lat) \<in># pending eq'))"
proof -
  have i: "tt_inv t" "eq_inv eq" using tt_reach_inv [OF r ord] by simp_all
  have "\<exists>t'. tt_isReady ord (getTime eq) t = Some (\<exists>a u. map_of (tt_map t) a = Some u \<and> u \<le> getTime eq, t')"
    by (rule tt_isReady_law [of t ord "getTime eq"]) (use i ord in blast)+
  moreover have "\<exists>a u t'. tt_readyAddress ord (getTime eq) t = Some (a, t') \<and> earliest (map_of (tt_map t)) a u \<and> u \<le> getTime eq"
    if "map_of (tt_map t) b = Some w" "w \<le> getTime eq" for b w
    by (rule tt_readyAddress_law [of t ord b w "getTime eq"]) (use i ord that in blast)+
  moreover have "map_of (tt_map t) a = None \<and> map_of (tt_map t') = (map_of (tt_map t))(a \<mapsto> getTime eq + lat) \<and>
      (\<exists>n. tt_consumer_ptr t = Some n \<and> event n (getTime eq + lat) \<in># pending eq')"
    if "tt_set c eq t a lat = Some (t', eq')" for a lat t' eq'
    using tt_set_law [OF i(1) that i(2)] by (simp add: getTime_def)
  ultimately show ?thesis by blast
qed

theorem timer_table_correct_witness:
  "\<exists>t eq t'. tt_reach (\<lambda>xs. xs) example_config (t, eq) \<and> map_of (tt_map t) 64 = Some 6 \<and> tt_isReady (\<lambda>xs. xs) 1 t = Some (False, t')"
proof -
  have "case tt_setConsumer TimerTable_new (Some 3) of None \<Rightarrow> False | Some t \<Rightarrow>
      (case tt_set example_config EventQueue_new t 64 5 of None \<Rightarrow> False | Some (t', eq') \<Rightarrow> map_of (tt_map t') 64 = Some 6 \<and>
        tt_map t' = [(64, 6)] \<and> getTime eq' = 1)"
    by code_simp
  then obtain t0 t eq where t: "tt_setConsumer TimerTable_new (Some 3) = Some t0"
    "tt_set example_config EventQueue_new t0 64 5 = Some (t, eq)" "map_of (tt_map t) 64 = Some 6" "tt_map t = [(64, 6)]" "getTime eq = 1"
    by (auto split: option.splits)
  have r: "tt_reach (\<lambda>xs. xs) example_config (t, eq)" using tt_reach.intros tt_step.intros(1) t(1,2) by metis
  show ?thesis using timer_table_correct [OF r] r t by (auto split: if_splits)
qed

text \<open>
  Directory memory: for an address inside the memory whose home is this directory, \<^verbatim>\<open>lookup\<close> never aborts and
  returns the entry at the line's module index, creating a default entry on the first access and changing no other entry; two
  addresses of this directory get the same entry exactly when they are on the same line.
\<close>
theorem directory_memory_lookup:
  assumes "config_ok c" "g_NUM_MEMORIES c \<noteq> 0"
    and "g_MEMORY_SIZE_BITS c < 63" "g_NUM_MEMORIES_BITS c \<le> 31" "g_DATA_BLOCK_BITS c + g_NUM_MEMORIES_BITS c \<le> g_MEMORY_SIZE_BITS c"
    and "int (unat a) < g_MEMORY_SIZE_BYTES c" "int (unat a') < g_MEMORY_SIZE_BYTES c"
    and p: "dm_isPresent c d a = Some True" "dm_isPresent c d a' = Some True" and sz: "dm_size d = g_MEMORY_MODULE_BLOCKS c"
  shows "\<exists>i d1 i' d2. dm_lookup c e0 d a = Some (i, d1) \<and>
    dm_entries d1 = (dm_entries d)(i \<mapsto> case dm_entries d i of None \<Rightarrow> e0 | Some e \<Rightarrow> e) \<and>
    dm_lookup c e0 d a' = Some (i', d2) \<and> (i = i' \<longleftrightarrow> line_address c a = line_address c a')"
proof -
  obtain n i n' i' where h: "map_Address_to_DirectoryNode c a = Some n" "memoryModuleIndex c a = Some i"
    "map_Address_to_DirectoryNode c a' = Some n'" "memoryModuleIndex c a' = Some i'"
    "0 \<le> i" "i < g_MEMORY_MODULE_BLOCKS c" "n = n' \<and> i = i' \<longleftrightarrow> line_address c a = line_address c a'"
    using home_directory_line [OF assms(1-7)] by blast
  have i': "0 \<le> i'" "i' < g_MEMORY_MODULE_BLOCKS c" using home_directory_line [OF assms(1-5,7,7)] h(4) by auto
  have "n = n'" using p h by (simp add: dm_isPresent_def)
  then show ?thesis
    using dm_lookup_Some [OF p(1) h(2,5,6) sz, of e0] dm_lookup_Some [OF p(2) h(4) i' sz, of e0] h(7) by blast
qed

theorem directory_memory_lookup_witness:
  "\<exists>c d i d1. config_init True example_config = Some c \<and> DirectoryMemory_new c 0 0 = Some d \<and>
     dm_lookup c (7 :: nat) d 130 = Some (i, d1) \<and> dm_entries d1 i = Some 7"
proof -
  have "(case config_init True example_config of Some c \<Rightarrow> g_DATA_BLOCK_BITS c = 6 \<and> g_NUM_MEMORIES c = 2 \<and>
      g_MEMORY_SIZE_BITS c = 12 \<and> g_NUM_MEMORIES_BITS c = 1 \<and> g_MEMORY_SIZE_BYTES c = 4096 \<and>
      (case DirectoryMemory_new c 0 0 of None \<Rightarrow> False | Some (d :: nat DirectoryMemory) \<Rightarrow>
        dm_isPresent c d 130 = Some True \<and> dm_size d = g_MEMORY_MODULE_BLOCKS c)
    | None \<Rightarrow> False)" by code_simp
  then obtain c d where c: "config_init True example_config = Some c" "DirectoryMemory_new c 0 0 = Some (d :: nat DirectoryMemory)"
    "g_DATA_BLOCK_BITS c = 6" "g_NUM_MEMORIES c = 2" "g_MEMORY_SIZE_BITS c = 12" "g_NUM_MEMORIES_BITS c = 1" "g_MEMORY_SIZE_BYTES c = 4096"
    "dm_isPresent c d 130 = Some True" "dm_size d = g_MEMORY_MODULE_BLOCKS c"
    by (auto split: option.splits)
  have d: "dm_entries d = Map.empty" using c(2) by (auto simp: DirectoryMemory_new_def split: if_splits)
  show ?thesis using directory_memory_lookup [OF config_init_ok [OF c(1)], of 130 130 d 7] c d by auto
qed

end
