(* ===== verification/SIMT_Model.thy ===== *)
theory SIMT_Model
  imports Ruby_Prelude
begin

text \<open>
  The SIMT reconvergence stack of GPGPU-Sim: class \<^verbatim>\<open>simt_stack\<close> of \<^verbatim>\<open>abstract_hardware_model.h\<close> and
  \<^verbatim>\<open>abstract_hardware_model.cc\<close>.  Thread masks are \<^verbatim>\<open>std::bitset<32>\<close> and program counters are
  \<^verbatim>\<open>unsigned\<close>, both 32-bit words.  The back of the deque, the top of the stack, is the head of the list.  The
  statistics call at the end of \<^verbatim>\<open>update\<close> is not modelled.

  Main result: \<^verbatim>\<open>update\<close> ends, does not abort, and afterwards every live thread of the executed warp resumes at its
  own next program counter while every other thread of the warp resumes where it was waiting before; and whatever a called function does
  to the stack, its return restores the caller's.
\<close>

unbundle bit_operations_syntax

type_synonym address_type = "32 word"
type_synonym simt_mask_t = "32 word"

datatype op_type = NO_OP | ALU_OP | SFU_OP | ALU_SFU_OP | LOAD_OP | STORE_OP | BRANCH_OP | BARRIER_OP
  | MEMORY_BARRIER_OP | CALL_OPS | RET_OPS

datatype stack_entry_type = STACK_ENTRY_TYPE_NORMAL | STACK_ENTRY_TYPE_CALL

record simt_stack_entry =
  ss_pc :: address_type
  ss_calldepth :: "32 word"
  ss_active_mask :: simt_mask_t
  ss_recvg_pc :: address_type
  ss_branch_div_cycle :: "64 word"
  ss_type :: stack_entry_type

definition new_entry :: simt_stack_entry where
  "new_entry = \<lparr>ss_pc = -1, ss_calldepth = 0, ss_active_mask = 0, ss_recvg_pc = -1, ss_branch_div_cycle = 0,
     ss_type = STACK_ENTRY_TYPE_NORMAL\<rparr>"

abbreviation null_pc :: address_type where "null_pc \<equiv> -1"

record simt_stack =
  st_warp_id :: nat
  st_warp_size :: nat
  st_stack :: "simt_stack_entry list"

definition simt_reset :: "simt_stack \<Rightarrow> simt_stack" where
  "simt_reset s = s\<lparr>st_stack := []\<rparr>"

definition simt_stack_new :: "nat \<Rightarrow> nat \<Rightarrow> simt_stack" where
  "simt_stack_new wid warpSize = simt_reset \<lparr>st_warp_id = wid, st_warp_size = warpSize, st_stack = []\<rparr>"

definition simt_launch :: "simt_stack \<Rightarrow> address_type \<Rightarrow> simt_mask_t \<Rightarrow> simt_stack" where
  "simt_launch s start_pc active_mask =
     (let s = simt_reset s;
          e = new_entry\<lparr>ss_pc := start_pc, ss_calldepth := 1, ss_active_mask := active_mask, ss_type := STACK_ENTRY_TYPE_NORMAL\<rparr>
      in s\<lparr>st_stack := e # st_stack s\<rparr>)"

definition get_active_mask :: "simt_stack \<Rightarrow> simt_mask_t option" where
  "get_active_mask s = (case st_stack s of [] \<Rightarrow> None | e # _ \<Rightarrow> Some (ss_active_mask e))"

definition get_pdom_stack_top_info :: "simt_stack \<Rightarrow> (address_type \<times> address_type) option" where
  "get_pdom_stack_top_info s = (case st_stack s of [] \<Rightarrow> None | e # _ \<Rightarrow> Some (ss_pc e, ss_recvg_pc e))"

definition get_rp :: "simt_stack \<Rightarrow> address_type option" where
  "get_rp s = (case st_stack s of [] \<Rightarrow> None | e # _ \<Rightarrow> Some (ss_recvg_pc e))"

text \<open>What a call of \<^verbatim>\<open>update\<close> keeps fixed during its loop: the arguments, the clock, and the old top of the stack.\<close>

record simt_args =
  sa_warp_size :: nat
  sa_done :: simt_mask_t
  sa_next_pc :: "address_type list"
  sa_recvg_pc :: address_type
  sa_op :: op_type
  sa_cycle :: "64 word"
  sa_top_recvg_pc :: address_type
  sa_top_type :: stack_entry_type

text \<open>The inner loop: one group of active threads with the same next program counter, from the highest thread down.\<close>

fun extract_group :: "simt_mask_t \<Rightarrow> address_type list \<Rightarrow> nat \<Rightarrow> address_type \<Rightarrow> simt_mask_t \<Rightarrow> simt_mask_t \<Rightarrow>
  address_type \<times> simt_mask_t \<times> simt_mask_t" where
  "extract_group done next_pc 0 tmp_next_pc tmp act = (tmp_next_pc, tmp, act)"
| "extract_group done next_pc (Suc i) tmp_next_pc tmp act =
     (if bit act i then
        if bit done i then extract_group done next_pc i tmp_next_pc tmp (unset_bit i act)
        else if tmp_next_pc = null_pc then
          extract_group done next_pc i (next_pc ! i) (set_bit i tmp) (unset_bit i act)
        else if tmp_next_pc = next_pc ! i then
          extract_group done next_pc i tmp_next_pc (set_bit i tmp) (unset_bit i act)
        else extract_group done next_pc i tmp_next_pc tmp act
      else extract_group done next_pc i tmp_next_pc tmp act)"

definition update_top :: "simt_stack_entry list \<Rightarrow> (simt_stack_entry \<Rightarrow> simt_stack_entry) \<Rightarrow> simt_stack_entry list" where
  "update_top stk f = (case stk of [] \<Rightarrow> [] | e # es \<Rightarrow> f e # es)"

text \<open>The case of a return from a called function.\<close>

definition simt_return :: "address_type \<Rightarrow> simt_stack_entry list \<Rightarrow> simt_stack_entry list option" where
  "simt_return tmp_next_pc stk =
     (case stk of
        _ # e # es \<Rightarrow>
          let e = e\<lparr>ss_pc := tmp_next_pc\<rparr> in
          if tmp_next_pc = ss_recvg_pc e \<and> ss_type e \<noteq> STACK_ENTRY_TYPE_CALL then do {
            assert_that (ss_type e = STACK_ENTRY_TYPE_NORMAL);
            Some es
          } else Some (e # es)
      | _ \<Rightarrow> None)"

text \<open>Turning the top entry into a reconvergence entry when the warp diverges.\<close>

definition simt_diverge :: "simt_args \<Rightarrow> simt_stack_entry list \<Rightarrow> simt_stack_entry list" where
  "simt_diverge a stk =
     (if sa_recvg_pc a \<noteq> sa_top_recvg_pc a
      then new_entry # update_top stk (\<lambda>e. e\<lparr>ss_pc := sa_recvg_pc a, ss_branch_div_cycle := sa_cycle a\<rparr>)
      else stk)"

definition simt_set_top :: "simt_args \<Rightarrow> bool \<Rightarrow> address_type \<Rightarrow> address_type \<Rightarrow> simt_mask_t \<Rightarrow> simt_stack_entry \<Rightarrow> simt_stack_entry" where
  "simt_set_top a diverged new_recvg_pc pc grp e =
     (let e = e\<lparr>ss_pc := pc, ss_active_mask := grp\<rparr>
      in if diverged then e\<lparr>ss_calldepth := 0, ss_recvg_pc := new_recvg_pc\<rparr>
         else e\<lparr>ss_recvg_pc := sa_top_recvg_pc a\<rparr>)"

subsection \<open>Extracting a group\<close>

text \<open>The effect of removing from \<open>act\<close> the finished threads below \<open>n\<close> and moving those that go to \<open>p\<close> into \<open>tm\<close>.\<close>

definition takes_group :: "simt_mask_t \<Rightarrow> address_type list \<Rightarrow> nat \<Rightarrow> address_type \<Rightarrow> simt_mask_t \<Rightarrow> simt_mask_t \<Rightarrow>
  simt_mask_t \<Rightarrow> simt_mask_t \<Rightarrow> bool" where
  "takes_group d P n p tm act tm' act' \<longleftrightarrow>
     (\<forall>i. bit tm' i \<longleftrightarrow> bit tm i \<or> i < n \<and> bit act i \<and> \<not> bit d i \<and> P ! i = p) \<and>
     (\<forall>i. bit act' i \<longleftrightarrow> bit act i \<and> \<not> (i < n \<and> (bit d i \<or> P ! i = p)))"

lemma bit_set_active: "bit (act :: 32 word) n \<Longrightarrow> bit (set_bit n (tm :: 32 word)) i \<longleftrightarrow> bit tm i \<or> i = n"
  using bit_imp_possible_bit [of act n] by (auto simp: bit_set_bit_iff)

lemma extract_group_started:
  assumes "p \<noteq> null_pc"
  shows "\<exists>tm' act'. extract_group d P n p tm act = (p, tm', act') \<and> takes_group d P n p tm act tm' act'"
proof (induction n arbitrary: tm act)
  case 0
  then show ?case by (simp add: takes_group_def)
next
  case (Suc n)
  let ?b = "bit act n \<and> (bit d n \<or> P ! n = p)"
  let ?tm = "if ?b \<and> \<not> bit d n then set_bit n tm else tm" and ?act = "if ?b then unset_bit n act else act"
  obtain tm' act' where e: "extract_group d P n p ?tm ?act = (p, tm', act')" "takes_group d P n p ?tm ?act tm' act'"
    using Suc.IH by blast
  have "bit ?tm i \<longleftrightarrow> bit tm i \<or> i = n \<and> ?b \<and> \<not> bit d n" for i using bit_set_active [of act n tm i] by auto
  moreover have "bit ?act i \<longleftrightarrow> bit act i \<and> \<not> (i = n \<and> ?b)" for i by (auto simp: bit_unset_bit_iff)
  ultimately have "takes_group d P (Suc n) p tm act tm' act'"
    using e(2) unfolding takes_group_def by (auto simp: less_Suc_eq)
  then show ?case using e(1) assms by (auto split: if_splits)
qed

definition none_live :: "simt_mask_t \<Rightarrow> nat \<Rightarrow> simt_mask_t \<Rightarrow> bool" where
  "none_live d n act \<longleftrightarrow> (\<forall>i < n. bit act i \<longrightarrow> bit d i)"

lemma extract_group_fresh:
  assumes "\<forall>i < n. bit act i \<longrightarrow> \<not> bit d i \<longrightarrow> P ! i \<noteq> null_pc"
  obtains "none_live d n act" "extract_group d P n null_pc tm act = (null_pc, tm, act AND NOT (d AND mask n))"
  | k tm' act' where "k < n" "bit act k" "\<not> bit d k" "P ! k \<noteq> null_pc"
    "extract_group d P n null_pc tm act = (P ! k, tm', act')" "takes_group d P n (P ! k) tm act tm' act'"
proof -
  have "none_live d n act \<and> extract_group d P n null_pc tm act = (null_pc, tm, act AND NOT (d AND mask n)) \<or>
    (\<exists>k tm' act'. k < n \<and> bit act k \<and> \<not> bit d k \<and> P ! k \<noteq> null_pc \<and>
      extract_group d P n null_pc tm act = (P ! k, tm', act') \<and> takes_group d P n (P ! k) tm act tm' act')"
    using assms
  proof (induction n arbitrary: act)
    case 0
    then show ?case by (simp add: none_live_def)
  next
    case (Suc n)
    show ?case
    proof (cases "bit act n \<and> \<not> bit d n")
      case True
      then have p: "P ! n \<noteq> null_pc" using Suc.prems by simp
      obtain tm' act' where e: "extract_group d P n (P ! n) (set_bit n tm) (unset_bit n act) = (P ! n, tm', act')"
        "takes_group d P n (P ! n) (set_bit n tm) (unset_bit n act) tm' act'"
        using extract_group_started [OF p] by blast
      then have "takes_group d P (Suc n) (P ! n) tm act tm' act'"
        using True bit_set_active [of act n tm] unfolding takes_group_def by (auto simp: bit_unset_bit_iff less_Suc_eq)
      then show ?thesis using True p e(1) by auto
    next
      case False
      let ?act = "if bit act n then unset_bit n act else act"
      have x: "extract_group d P (Suc n) null_pc tm act = extract_group d P n null_pc tm ?act" using False by simp
      have b: "bit ?act i \<longleftrightarrow> bit act i \<and> i \<noteq> n" for i by (auto simp: bit_unset_bit_iff)
      have "\<forall>i < n. bit ?act i \<longrightarrow> \<not> bit d i \<longrightarrow> P ! i \<noteq> null_pc" using Suc.prems b by simp
      from Suc.IH [OF this] show ?thesis
      proof (elim disjE conjE exE)
        assume a: "none_live d n ?act" "extract_group d P n null_pc tm ?act = (null_pc, tm, ?act AND NOT (d AND mask n))"
        have "none_live d (Suc n) act" using a(1) b False by (auto simp: none_live_def less_Suc_eq)
        moreover have "?act AND NOT (d AND mask n) = act AND NOT (d AND mask (Suc n))"
          by (rule bit_word_eqI) (use False b in \<open>auto simp: bit_simps less_Suc_eq\<close>)
        ultimately show ?thesis using a(2) x by simp
      next
        fix k tm' act'
        assume a: "k < n" "bit ?act k" "\<not> bit d k" "P ! k \<noteq> null_pc"
          "extract_group d P n null_pc tm ?act = (P ! k, tm', act')" "takes_group d P n (P ! k) tm ?act tm' act'"
        have "takes_group d P (Suc n) (P ! k) tm act tm' act'"
          using a(6) b False unfolding takes_group_def by (auto simp: less_Suc_eq)
        then show ?thesis using a b x by (intro disjI2 exI [of _ k]) (auto simp del: extract_group.simps)
      qed
    qed
  qed
  then show thesis using that by blast
qed

lemma extract_group_subset:
  "\<lbrakk>extract_group d P n p tm act = (p', tm', act'); bit act' i\<rbrakk> \<Longrightarrow> bit act i"
proof (induction n arbitrary: p tm act)
  case (Suc n)
  from Suc.prems(1) obtain q r b where "extract_group d P n q r b = (p', tm', act')" "b = act \<or> b = unset_bit n act"
    by (auto split: if_splits)
  then show ?case using Suc.IH [of q r b] Suc.prems(2) by (auto simp: bit_unset_bit_iff)
qed simp

lemma extract_group_same:
  "extract_group d P n p tm act = (p', tm', act) \<Longrightarrow> p' = p"
proof (induction n arbitrary: p tm)
  case (Suc n)
  have "\<not> extract_group d P n q r (unset_bit n act) = (p', tm', act)" if "bit act n" for q r
    using extract_group_subset [of d P n q r "unset_bit n act" p' tm' act n] that by (auto simp: bit_unset_bit_iff)
  then show ?case using Suc by (auto split: if_splits)
qed simp

lemma mask_decreases:
  assumes "\<And>i. bit (m' :: 32 word) i \<Longrightarrow> bit m i" "m' \<noteq> m"
  shows "card {i. bit m' i} < card {i. bit m i}"
proof (rule psubset_card_mono)
  have "{i. bit m i} \<subseteq> {..<32}" using bit_imp_le_length [where ?'a = 32] by auto
  then show "finite {i. bit m i}" by (rule finite_subset) simp
  show "{i. bit m' i} \<subset> {i. bit m i}" using assms by (auto simp: bit_eq_iff)
qed

subsection \<open>The update of the stack\<close>

text \<open>The outer loop; it ends because every round removes a thread from the mask or aborts.\<close>

function simt_loop :: "simt_args \<Rightarrow> simt_mask_t \<Rightarrow> bool \<Rightarrow> address_type \<Rightarrow> simt_stack_entry list \<Rightarrow> simt_stack_entry list option" where
  "simt_loop a act diverged new_recvg_pc stk =
     (if act = 0 then (case stk of [] \<Rightarrow> None | _ # es \<Rightarrow> Some es)
      else
        let (tmp_next_pc, tmp, act') = extract_group (sa_done a) (sa_next_pc a) (sa_warp_size a) null_pc 0 act in
        if tmp_next_pc = null_pc then (if act' = 0 then simt_loop a act' diverged new_recvg_pc stk else None)
        else if sa_op a = CALL_OPS then
          (if act' = 0
           then Some (new_entry\<lparr>ss_pc := tmp_next_pc, ss_active_mask := tmp, ss_branch_div_cycle := sa_cycle a,
                        ss_type := STACK_ENTRY_TYPE_CALL\<rparr> # stk)
           else None)
        else if sa_op a = RET_OPS \<and> sa_top_type a = STACK_ENTRY_TYPE_CALL then
          (if act' = 0 then simt_return tmp_next_pc stk else None)
        else if tmp_next_pc = sa_top_recvg_pc a \<and> sa_top_type a \<noteq> STACK_ENTRY_TYPE_CALL then
          simt_loop a act' diverged new_recvg_pc stk
        else
          let (diverged, new_recvg_pc, stk) =
                (if act' \<noteq> 0 \<and> \<not> diverged then (True, sa_recvg_pc a, simt_diverge a stk) else (diverged, new_recvg_pc, stk)) in
          if diverged \<and> tmp_next_pc = new_recvg_pc then simt_loop a act' diverged new_recvg_pc stk
          else simt_loop a act' diverged new_recvg_pc
                 (new_entry # update_top stk (simt_set_top a diverged new_recvg_pc tmp_next_pc tmp)))"
  by pat_completeness auto
termination
proof (relation "measure (\<lambda>(a, act, _). card {i. bit act i})", goal_cases)
  case 1 then show ?case by simp
next
  case (2 a act _ _ _ x p y tm act')
  then show ?case using mask_decreases [of act' act] by (simp add: bot_fun_def)
next
  case (3 a act _ _ _ x p y tm act')
  then have e: "extract_group (sa_done a) (sa_next_pc a) (sa_warp_size a) null_pc 0 act = (p, tm, act')" by simp
  then have "act' \<noteq> act" using 3 extract_group_same by fastforce
  then show ?case using mask_decreases [of act' act] extract_group_subset [OF e] by simp
next
  case (4 a act _ _ _ x p y tm act')
  then have e: "extract_group (sa_done a) (sa_next_pc a) (sa_warp_size a) null_pc 0 act = (p, tm, act')" by simp
  then have "act' \<noteq> act" using 4 extract_group_same by fastforce
  then show ?case using mask_decreases [of act' act] extract_group_subset [OF e] by simp
next
  case (5 a act _ _ _ x p y tm act')
  then have e: "extract_group (sa_done a) (sa_next_pc a) (sa_warp_size a) null_pc 0 act = (p, tm, act')" by simp
  then have "act' \<noteq> act" using 5 extract_group_same by fastforce
  then show ?case using mask_decreases [of act' act] extract_group_subset [OF e] by simp
qed

declare simt_loop.simps [simp del]

definition simt_update :: "64 word \<Rightarrow> simt_stack \<Rightarrow> simt_mask_t \<Rightarrow> address_type list \<Rightarrow> address_type \<Rightarrow> op_type \<Rightarrow> simt_stack option" where
  "simt_update cycle s thread_done next_pc recvg_pc next_inst_op =
     (case st_stack s of [] \<Rightarrow> None
      | e # _ \<Rightarrow> do {
          assert_that (length next_pc = st_warp_size s);
          assert_that (ss_active_mask e \<noteq> 0);
          stk \<leftarrow> simt_loop \<lparr>sa_warp_size = st_warp_size s, sa_done = thread_done, sa_next_pc = next_pc, sa_recvg_pc = recvg_pc,
              sa_op = next_inst_op, sa_cycle = cycle, sa_top_recvg_pc = ss_recvg_pc e, sa_top_type = ss_type e\<rparr>
            (ss_active_mask e) False null_pc (st_stack s);
          Some (s\<lparr>st_stack := stk\<rparr>)
        })"

subsection \<open>Where a thread resumes\<close>

text \<open>A thread waits in the topmost entry whose mask contains it.\<close>

fun resume :: "simt_stack_entry list \<Rightarrow> nat \<Rightarrow> address_type option" where
  "resume [] i = None"
| "resume (e # es) i = (if bit (ss_active_mask e) i then Some (ss_pc e) else resume es i)"

text \<open>
  The invariant of the stack: the threads of an entry with a reconvergence point wait for it below, and an entry made by a call
  has none.
\<close>

fun simt_inv :: "simt_stack_entry list \<Rightarrow> bool" where
  "simt_inv [] \<longleftrightarrow> True"
| "simt_inv (e # es) \<longleftrightarrow> simt_inv es \<and>
     (if ss_type e = STACK_ENTRY_TYPE_CALL then ss_recvg_pc e = null_pc
      else ss_recvg_pc e \<noteq> null_pc \<longrightarrow> (\<forall>i. bit (ss_active_mask e) i \<longrightarrow> resume es i = Some (ss_recvg_pc e)))"

lemma simt_inv_launch: "simt_inv (st_stack (simt_launch s pc m))"
  by (simp add: simt_launch_def simt_reset_def new_entry_def Let_def)

definition live :: "simt_args \<Rightarrow> simt_mask_t \<Rightarrow> nat \<Rightarrow> bool" where
  "live a A i \<longleftrightarrow> bit A i \<and> \<not> bit (sa_done a) i"

text \<open>
  The arguments of an ordinary instruction: the mask has only threads of the warp, live threads have a next program counter, and
  when threads go straight to the reconvergence point of the old top entry while others do not, the branch reconverges there.
\<close>

definition args_ok :: "simt_args \<Rightarrow> simt_mask_t \<Rightarrow> bool" where
  "args_ok a A \<longleftrightarrow> (\<forall>i. bit A i \<longrightarrow> i < sa_warp_size a) \<and> (\<forall>i. live a A i \<longrightarrow> sa_next_pc a ! i \<noteq> null_pc) \<and>
     sa_op a \<noteq> CALL_OPS \<and> \<not> (sa_op a = RET_OPS \<and> sa_top_type a = STACK_ENTRY_TYPE_CALL) \<and>
     (sa_top_type a \<noteq> STACK_ENTRY_TYPE_CALL \<longrightarrow> (\<exists>i. live a A i \<and> sa_next_pc a ! i = sa_top_recvg_pc a) \<longrightarrow>
        sa_recvg_pc a = sa_top_recvg_pc a \<or> (\<forall>i. live a A i \<longrightarrow> sa_next_pc a ! i = sa_top_recvg_pc a))"

text \<open>One round of the loop on such arguments.\<close>

lemma loop_group:
  assumes ok: "args_ok a A" and sub: "\<forall>i. bit act i \<longrightarrow> bit A i" and ne: "act \<noteq> 0"
  obtains (finished) "\<forall>i. \<not> (live a A i \<and> bit act i)"
      "simt_loop a act dv nr stk = (case stk of [] \<Rightarrow> None | _ # es \<Rightarrow> Some es)"
  | (group) p tm act' where "p \<noteq> null_pc" "\<exists>k. live a A k \<and> bit act k \<and> sa_next_pc a ! k = p"
      "\<forall>i. bit tm i \<longleftrightarrow> live a A i \<and> bit act i \<and> sa_next_pc a ! i = p"
      "\<forall>i. bit act' i \<longleftrightarrow> live a A i \<and> bit act i \<and> sa_next_pc a ! i \<noteq> p"
      "card {i. bit act' i} < card {i. bit act i}"
      "simt_loop a act dv nr stk =
        (if p = sa_top_recvg_pc a \<and> sa_top_type a \<noteq> STACK_ENTRY_TYPE_CALL then simt_loop a act' dv nr stk
         else let (dv, nr, stk) = (if act' \<noteq> 0 \<and> \<not> dv then (True, sa_recvg_pc a, simt_diverge a stk) else (dv, nr, stk)) in
           if dv \<and> p = nr then simt_loop a act' dv nr stk
           else simt_loop a act' dv nr (new_entry # update_top stk (simt_set_top a dv nr p tm)))"
proof -
  let ?n = "sa_warp_size a" and ?d = "sa_done a" and ?P = "sa_next_pc a"
  have lv: "i < ?n" "live a A i \<longleftrightarrow> \<not> bit ?d i" if "bit act i" for i using ok sub that by (auto simp: args_ok_def live_def)
  have nn: "\<forall>i < ?n. bit act i \<longrightarrow> \<not> bit ?d i \<longrightarrow> ?P ! i \<noteq> null_pc" using ok lv by (auto simp: args_ok_def)
  have op: "sa_op a \<noteq> CALL_OPS" "\<not> (sa_op a = RET_OPS \<and> sa_top_type a = STACK_ENTRY_TYPE_CALL)" using ok by (auto simp: args_ok_def)
  show thesis
  proof (cases rule: extract_group_fresh [OF nn, of 0])
    case 1
    then have dead: "bit act i \<Longrightarrow> bit ?d i" for i using lv by (auto simp: none_live_def)
    have "act AND NOT (?d AND mask ?n) = 0" by (rule bit_word_eqI) (use dead lv in \<open>auto simp: bit_simps\<close>)
    then have "simt_loop a act dv nr stk = simt_loop a 0 dv nr stk" using 1(2) ne by (subst simt_loop.simps) simp
    then show thesis using dead by (intro finished) (auto simp: live_def simt_loop.simps [of a 0])
  next
    case (2 k tm act')
    note t = 2(6) [unfolded takes_group_def]
    have a': "bit act' i \<longleftrightarrow> live a A i \<and> bit act i \<and> ?P ! i \<noteq> ?P ! k" for i using t lv by auto
    have "act' \<noteq> act" using 2(2) a' by auto
    then have dec: "card {i. bit act' i} < card {i. bit act i}" using a' by (intro mask_decreases) auto
    show thesis
    proof (rule group [of "?P ! k" tm act'])
      show "\<exists>j. live a A j \<and> bit act j \<and> ?P ! j = ?P ! k" using 2 lv by blast
      show "\<forall>i. bit tm i \<longleftrightarrow> live a A i \<and> bit act i \<and> ?P ! i = ?P ! k" using t lv by auto
      show "\<forall>i. bit act' i \<longleftrightarrow> live a A i \<and> bit act i \<and> ?P ! i \<noteq> ?P ! k" using a' by blast
      show "simt_loop a act dv nr stk =
        (if ?P ! k = sa_top_recvg_pc a \<and> sa_top_type a \<noteq> STACK_ENTRY_TYPE_CALL then simt_loop a act' dv nr stk
         else let (dv, nr, stk) = (if act' \<noteq> 0 \<and> \<not> dv then (True, sa_recvg_pc a, simt_diverge a stk) else (dv, nr, stk)) in
           if dv \<and> ?P ! k = nr then simt_loop a act' dv nr stk
           else simt_loop a act' dv nr (new_entry # update_top stk (simt_set_top a dv nr (?P ! k) tm)))"
        using 2 op ne by (subst simt_loop.simps) (cases "sa_op a = RET_OPS"; simp add: Let_def)
    qed (use 2 dec in auto)
  qed
qed

text \<open>
  The loop after the warp has diverged, on a stack of finished groups \<open>gs\<close> above the entries \<open>B\<close> in which the threads
  wait for the reconvergence point \<open>nr\<close>.
\<close>

definition groups_ok :: "simt_args \<Rightarrow> simt_mask_t \<Rightarrow> simt_mask_t \<Rightarrow> simt_stack_entry list \<Rightarrow> simt_stack_entry list \<Rightarrow> bool" where
  "groups_ok a A act gs B \<longleftrightarrow> simt_inv (gs @ B) \<and> (\<forall>i. bit act i \<longrightarrow> bit A i) \<and>
     (\<forall>i. live a A i \<and> \<not> bit act i \<longrightarrow> resume (gs @ B) i = Some (sa_next_pc a ! i)) \<and>
     (\<forall>i. \<not> live a A i \<or> bit act i \<longrightarrow> resume (gs @ B) i = resume B i)"

lemma groups_ok_skip:
  assumes g: "groups_ok a A act gs B" and tm: "\<forall>i. bit tm i \<longleftrightarrow> live a A i \<and> bit act i \<and> sa_next_pc a ! i = p"
    and act': "\<forall>i. bit act' i \<longleftrightarrow> live a A i \<and> bit act i \<and> sa_next_pc a ! i \<noteq> p"
    and B: "\<forall>i. bit tm i \<longrightarrow> resume B i = Some p"
  shows "groups_ok a A act' gs B"
  unfolding groups_ok_def
proof (intro conjI allI impI)
  fix i
  show "resume (gs @ B) i = Some (sa_next_pc a ! i)" if l: "live a A i \<and> \<not> bit act' i"
  proof (cases "bit act i")
    case True
    then have "bit tm i" "sa_next_pc a ! i = p" using l act' tm by auto
    then show ?thesis using B g True by (auto simp: groups_ok_def)
  qed (use g l in \<open>auto simp: groups_ok_def\<close>)
  show "resume (gs @ B) i = resume B i" if "\<not> live a A i \<or> bit act' i" using g that act' by (auto simp: groups_ok_def)
qed (use g act' in \<open>auto simp: groups_ok_def\<close>)

lemma groups_ok_push:
  assumes g: "groups_ok a A act gs B" and tm: "\<forall>i. bit tm i \<longleftrightarrow> live a A i \<and> bit act i \<and> sa_next_pc a ! i = p"
    and act': "\<forall>i. bit act' i \<longleftrightarrow> live a A i \<and> bit act i \<and> sa_next_pc a ! i \<noteq> p"
    and e: "ss_pc e = p" "ss_active_mask e = tm"
    and r: "if ss_type e = STACK_ENTRY_TYPE_CALL then ss_recvg_pc e = null_pc
      else ss_recvg_pc e \<noteq> null_pc \<longrightarrow> (\<forall>i. bit tm i \<longrightarrow> resume B i = Some (ss_recvg_pc e))"
  shows "groups_ok a A act' (e # gs) B"
  unfolding groups_ok_def
proof (intro conjI allI impI)
  have "\<forall>i. bit tm i \<longrightarrow> resume (gs @ B) i = resume B i" using g tm by (auto simp: groups_ok_def)
  then show "simt_inv ((e # gs) @ B)" using g r e(2) by (auto simp: groups_ok_def split: if_splits)
  fix i
  show "bit A i" if "bit act' i" using that g act' by (auto simp: groups_ok_def)
  show "resume ((e # gs) @ B) i = Some (sa_next_pc a ! i)" if "live a A i \<and> \<not> bit act' i"
    using that g act' tm e by (auto simp: groups_ok_def)
  show "resume ((e # gs) @ B) i = resume B i" if "\<not> live a A i \<or> bit act' i" using that g act' tm e by (auto simp: groups_ok_def)
qed

lemma diverged_loop:
  assumes ok: "args_ok a A" and rec: "\<forall>i. bit A i \<longrightarrow> nr \<noteq> null_pc \<longrightarrow> resume B i = Some nr"
    and conv: "sa_top_type a \<noteq> STACK_ENTRY_TYPE_CALL \<longrightarrow> (\<exists>i. live a A i \<and> sa_next_pc a ! i = sa_top_recvg_pc a) \<longrightarrow> nr = sa_top_recvg_pc a"
  shows "\<lbrakk>groups_ok a A act gs B; ss_type e = STACK_ENTRY_TYPE_CALL \<longrightarrow> nr = null_pc\<rbrakk> \<Longrightarrow>
    \<exists>gs'. simt_loop a act True nr (e # gs @ B) = Some (gs' @ B) \<and> groups_ok a A 0 gs' B"
proof (induction "card {i. bit act i}" arbitrary: act gs e rule: less_induct)
  case less
  note g = less.prems(1)
  show ?case
  proof (cases "act = 0")
    case True
    then show ?thesis using g by (auto simp: simt_loop.simps)
  next
    case False
    have sub: "\<forall>i. bit act i \<longrightarrow> bit A i" using g by (simp add: groups_ok_def)
    show ?thesis
    proof (cases rule: loop_group [OF ok sub False, of True nr "e # gs @ B"])
      case 1
      have "groups_ok a A 0 gs B" unfolding groups_ok_def using g 1(1) by (auto simp: groups_ok_def)
      then show ?thesis using 1(2) by auto
    next
      case (2 p tm act')
      have tmA: "\<forall>i. bit tm i \<longrightarrow> bit A i" using 2(3) by (auto simp: live_def)
      show ?thesis
      proof (cases "p = sa_top_recvg_pc a \<and> sa_top_type a \<noteq> STACK_ENTRY_TYPE_CALL \<or> p = nr")
        case True
        then have "p = nr" using conv 2(2) by blast
        then have "groups_ok a A act' gs B" using groups_ok_skip [OF g 2(3,4)] rec 2(1) tmA by auto
        then show ?thesis using less.hyps [OF 2(5) _ less.prems(2)] 2(6) \<open>p = nr\<close> by (auto simp: Let_def)
      next
        case False
        let ?e = "simt_set_top a True nr p tm e"
        have "groups_ok a A act' (?e # gs) B"
          by (rule groups_ok_push [OF g 2(3,4)]) (use rec tmA less.prems(2) in \<open>auto simp: simt_set_top_def Let_def\<close>)
        then have "\<exists>gs'. simt_loop a act' True nr (new_entry # (?e # gs) @ B) = Some (gs' @ B) \<and> groups_ok a A 0 gs' B"
          by (intro less.hyps [OF 2(5)]) (auto simp: new_entry_def)
        then show ?thesis using 2(6) False by (auto simp: Let_def update_top_def)
      qed
    qed
  qed
qed

text \<open>The result of an update of the stack \<open>e # es\<close> by an ordinary instruction.\<close>

definition resumes_ok :: "simt_args \<Rightarrow> simt_stack_entry \<Rightarrow> simt_stack_entry list \<Rightarrow> simt_stack_entry list \<Rightarrow> bool" where
  "resumes_ok a e es stk \<longleftrightarrow> simt_inv stk \<and>
     (\<forall>i. live a (ss_active_mask e) i \<longrightarrow> resume stk i = Some (sa_next_pc a ! i)) \<and>
     (\<forall>i. \<not> bit (ss_active_mask e) i \<longrightarrow> resume stk i = resume (e # es) i)"

lemma groups_resumes_ok:
  assumes "groups_ok a (ss_active_mask e) 0 gs B" "\<forall>i. \<not> bit (ss_active_mask e) i \<longrightarrow> resume B i = resume (e # es) i"
  shows "resumes_ok a e es (gs @ B)"
  using assms by (auto simp: groups_ok_def resumes_ok_def live_def)

text \<open>The round in which the warp diverges.\<close>

lemma diverging_round:
  fixes act :: simt_mask_t
  assumes ok: "args_ok a (ss_active_mask e)" and inv: "simt_inv (e # es)"
    and e: "ss_recvg_pc e = sa_top_recvg_pc a" "ss_type e = sa_top_type a"
    and sub: "\<forall>i. bit act i \<longrightarrow> bit (ss_active_mask e) i"
    and past: "\<forall>i. live a (ss_active_mask e) i \<and> \<not> bit act i \<longrightarrow>
      sa_top_type a \<noteq> STACK_ENTRY_TYPE_CALL \<and> sa_next_pc a ! i = sa_top_recvg_pc a"
    and k: "live a (ss_active_mask e) k" "bit act k" "sa_next_pc a ! k = p" and p: "p \<noteq> null_pc"
    and tm: "\<forall>i. bit tm i \<longleftrightarrow> live a (ss_active_mask e) i \<and> bit act i \<and> sa_next_pc a ! i = p"
    and act': "\<forall>i. bit act' i \<longleftrightarrow> live a (ss_active_mask e) i \<and> bit act i \<and> sa_next_pc a ! i \<noteq> p"
    and kept: "\<not> (p = sa_top_recvg_pc a \<and> sa_top_type a \<noteq> STACK_ENTRY_TYPE_CALL)"
  shows "\<exists>stk. (let nr = sa_recvg_pc a; stk = simt_diverge a (e # es) in
      if p = nr then simt_loop a act' True nr stk
      else simt_loop a act' True nr (new_entry # update_top stk (simt_set_top a True nr p tm))) = Some stk \<and> resumes_ok a e es stk"
proof -
  let ?A = "ss_active_mask e" and ?nr = "sa_recvg_pc a" and ?T = "sa_top_recvg_pc a"
  let ?base = "e\<lparr>ss_pc := ?nr, ss_branch_div_cycle := sa_cycle a\<rparr>"
  define B where "B = (if ?nr \<noteq> ?T then ?base # es else es)"
  define s where "s = (if ?nr \<noteq> ?T then new_entry else e)"
  have stk: "simt_diverge a (e # es) = s # B" by (simp add: simt_diverge_def B_def s_def update_top_def)
  have conv: "sa_top_type a \<noteq> STACK_ENTRY_TYPE_CALL \<longrightarrow> (\<exists>i. live a ?A i \<and> sa_next_pc a ! i = ?T) \<longrightarrow> ?nr = ?T"
    using ok k kept unfolding args_ok_def by blast
  have wait: "resume es i = Some ?T" if "bit ?A i" "sa_top_type a \<noteq> STACK_ENTRY_TYPE_CALL" "?T \<noteq> null_pc" for i
    using inv e that by simp
  have rec: "\<forall>i. bit ?A i \<longrightarrow> ?nr \<noteq> null_pc \<longrightarrow> resume B i = Some ?nr"
    using wait inv e by (auto simp: B_def split: if_splits)
  have type_s: "ss_type s = STACK_ENTRY_TYPE_CALL \<longrightarrow> ?nr = null_pc" using inv e by (auto simp: s_def new_entry_def)
  have outside: "\<forall>i. \<not> bit ?A i \<longrightarrow> resume B i = resume (e # es) i" by (simp add: B_def)
  have invB: "simt_inv B" using inv by (simp add: B_def)
  have "resume B i = Some (sa_next_pc a ! i)" if l: "live a ?A i \<and> \<not> bit act i" for i
  proof -
    have t: "sa_top_type a \<noteq> STACK_ENTRY_TYPE_CALL" "sa_next_pc a ! i = ?T" using past l by auto
    moreover have "?T \<noteq> null_pc" using ok l t unfolding args_ok_def by metis
    ultimately show ?thesis using wait l conv by (auto simp: B_def live_def)
  qed
  then have g: "groups_ok a ?A act [] B" using invB sub by (simp add: groups_ok_def)
  note fin = diverged_loop [OF ok rec conv]
  show ?thesis
  proof (cases "p = ?nr")
    case True
    have "groups_ok a ?A act' [] B" using groups_ok_skip [OF g tm act'] rec p tm True by (auto simp: live_def)
    from fin [OF this type_s] obtain gs where "simt_loop a act' True ?nr (s # [] @ B) = Some (gs @ B)" "groups_ok a ?A 0 gs B" by blast
    then show ?thesis using True stk groups_resumes_ok [OF _ outside] by (auto simp: Let_def)
  next
    case False
    let ?s = "simt_set_top a True ?nr p tm s"
    have "groups_ok a ?A act' [?s] B"
      by (rule groups_ok_push [OF g tm act']) (use rec tm type_s in \<open>auto simp: simt_set_top_def Let_def live_def\<close>)
    from fin [OF this, of new_entry] obtain gs where
      "simt_loop a act' True ?nr (new_entry # [?s] @ B) = Some (gs @ B)" "groups_ok a ?A 0 gs B" by (auto simp: new_entry_def)
    then show ?thesis using False stk groups_resumes_ok [OF _ outside] by (auto simp: Let_def update_top_def)
  qed
qed

lemma update_loop:
  assumes ok: "args_ok a (ss_active_mask e)" and inv: "simt_inv (e # es)"
    and e: "ss_recvg_pc e = sa_top_recvg_pc a" "ss_type e = sa_top_type a"
  shows "\<lbrakk>\<forall>i. bit act i \<longrightarrow> bit (ss_active_mask e) i;
    \<forall>i. live a (ss_active_mask e) i \<and> \<not> bit act i \<longrightarrow> sa_top_type a \<noteq> STACK_ENTRY_TYPE_CALL \<and> sa_next_pc a ! i = sa_top_recvg_pc a\<rbrakk> \<Longrightarrow>
    \<exists>stk. simt_loop a act False null_pc (e # es) = Some stk \<and> resumes_ok a e es stk"
proof (induction "card {i. bit act i}" arbitrary: act rule: less_induct)
  case less
  let ?A = "ss_active_mask e" and ?T = "sa_top_recvg_pc a"
  have wait: "resume es i = Some (sa_next_pc a ! i)"
    if "live a ?A i" "sa_top_type a \<noteq> STACK_ENTRY_TYPE_CALL" "sa_next_pc a ! i = ?T" for i
    using inv e that ok by (auto simp: live_def args_ok_def)
  have all: "resumes_ok a e es es" if "\<forall>i. \<not> (live a ?A i \<and> bit act i)"
    using that less.prems(2) wait inv by (auto simp: resumes_ok_def)
  show ?case
  proof (cases "act = 0")
    case True
    then show ?thesis using all by (simp add: simt_loop.simps)
  next
    case False
    show ?thesis
    proof (cases rule: loop_group [OF ok less.prems(1) False, of False null_pc "e # es"])
      case 1
      then show ?thesis using all by simp
    next
      case (2 p tm act')
      obtain k where k: "live a ?A k" "bit act k" "sa_next_pc a ! k = p" using 2(2) by blast
      consider (drop) "p = ?T" "sa_top_type a \<noteq> STACK_ENTRY_TYPE_CALL"
        | (last) "\<not> (p = ?T \<and> sa_top_type a \<noteq> STACK_ENTRY_TYPE_CALL)" "act' = 0"
        | (div) "\<not> (p = ?T \<and> sa_top_type a \<noteq> STACK_ENTRY_TYPE_CALL)" "act' \<noteq> 0" by blast
      then show ?thesis
      proof cases
        case drop
        have "\<exists>stk. simt_loop a act' False null_pc (e # es) = Some stk \<and> resumes_ok a e es stk"
          by (rule less.hyps [OF 2(5)]) (use less.prems 2(4) drop in auto)
        then show ?thesis using 2(6) drop by simp
      next
        case last
        let ?e = "simt_set_top a False null_pc p tm e"
        have "simt_loop a act False null_pc (e # es) = Some (?e # es)"
          using 2(6) last by (auto simp: update_top_def simt_loop.simps [of a 0])
        moreover have "bit tm i" if "live a ?A i" "bit act i" for i using 2(3,4) last that by auto
        then have "resumes_ok a e es (?e # es)"
          using inv e 2(3) less.prems(2) wait by (auto simp: resumes_ok_def simt_set_top_def Let_def live_def)
        ultimately show ?thesis by blast
      next
        case div
        then show ?thesis
          using 2(6) diverging_round [OF ok inv e less.prems k 2(1,3,4) div(1)] by (auto simp: Let_def)
      qed
    qed
  qed
qed

subsection \<open>Calls and returns\<close>

lemma same_pc_group:
  assumes "\<forall>i. bit A i \<longrightarrow> i < sa_warp_size a" "\<forall>i. live a A i \<longrightarrow> sa_next_pc a ! i = p" "p \<noteq> null_pc" "live a A k"
  obtains tm where "extract_group (sa_done a) (sa_next_pc a) (sa_warp_size a) null_pc 0 A = (p, tm, 0)" "\<forall>i. bit tm i \<longleftrightarrow> live a A i"
proof -
  have nn: "\<forall>i < sa_warp_size a. bit A i \<longrightarrow> \<not> bit (sa_done a) i \<longrightarrow> sa_next_pc a ! i \<noteq> null_pc"
    using assms(2,3) by (auto simp: live_def)
  show thesis
  proof (cases rule: extract_group_fresh [OF nn, of 0])
    case 1
    then show thesis using assms(1,4) by (auto simp: none_live_def live_def)
  next
    case (2 j tm act')
    have p: "sa_next_pc a ! j = p" using assms(2) 2(2,3) by (simp add: live_def)
    have "act' = 0" by (rule bit_word_eqI) (use 2(6) assms(1,2) p in \<open>auto simp: takes_group_def live_def\<close>)
    moreover have "bit tm i \<longleftrightarrow> live a A i" for i using 2(6) assms(1,2) p by (auto simp: takes_group_def live_def)
    ultimately show thesis using 2(5) p that by auto
  qed
qed

subsection \<open>The frame of a call\<close>

text \<open>
  The updates between a call and its return, as a sequence: the clock, the finished threads, the next program counters, the reconvergence
  point and the operation of each.
\<close>

type_synonym simt_step = "64 word \<times> simt_mask_t \<times> address_type list \<times> address_type \<times> op_type"

fun simt_run :: "simt_stack \<Rightarrow> simt_step list \<Rightarrow> simt_stack option" where
  "simt_run s [] = Some s"
| "simt_run s ((cycle, thread_done, next_pc, recvg_pc, op) # steps) =
     (case simt_update cycle s thread_done next_pc recvg_pc op of None \<Rightarrow> None | Some s \<Rightarrow> simt_run s steps)"

definition call_entry :: "64 word \<Rightarrow> address_type \<Rightarrow> simt_mask_t \<Rightarrow> simt_stack_entry" where
  "call_entry cycle pc m = new_entry\<lparr>ss_pc := pc, ss_active_mask := m, ss_branch_div_cycle := cycle, ss_type := STACK_ENTRY_TYPE_CALL\<rparr>"

lemma update_top_append: "xs \<noteq> [] \<Longrightarrow> update_top (xs @ B) f = update_top xs f @ B"
  by (cases xs) (simp_all add: update_top_def)

lemma simt_diverge_append: "xs \<noteq> [] \<Longrightarrow> simt_diverge a (xs @ B) = simt_diverge a xs @ B"
  by (simp add: simt_diverge_def update_top_append)

lemma simt_diverge_nonempty: "xs \<noteq> [] \<Longrightarrow> simt_diverge a xs \<noteq> []"
  by (simp add: simt_diverge_def)

lemma simt_return_append: "simt_return p xs = Some ys \<Longrightarrow> simt_return p (xs @ B) = Some (ys @ B)"
  by (auto simp: simt_return_def Let_def split: list.splits if_splits)

text \<open>What an update keeps of a stack: the type of its lowest entry, and that the masks have threads of the warp only.\<close>

definition in_warp :: "nat \<Rightarrow> simt_stack_entry list \<Rightarrow> bool" where
  "in_warp n xs \<longleftrightarrow> (\<forall>e \<in> set xs. \<forall>i. bit (ss_active_mask e) i \<longrightarrow> i < n)"

definition keeps :: "nat \<Rightarrow> simt_stack_entry list \<Rightarrow> simt_stack_entry list \<Rightarrow> bool" where
  "keeps n xs ys \<longleftrightarrow> (ys \<noteq> [] \<longrightarrow> ss_type (last ys) = ss_type (last xs)) \<and> (in_warp n xs \<longrightarrow> in_warp n ys)"

lemma keeps_trans: "\<lbrakk>keeps n xs ys; ys \<noteq> []; keeps n ys zs\<rbrakk> \<Longrightarrow> keeps n xs zs"
  by (simp add: keeps_def)

lemma keeps_diverge: "xs \<noteq> [] \<Longrightarrow> keeps n xs (simt_diverge a xs)"
  by (cases xs) (auto simp: keeps_def in_warp_def simt_diverge_def update_top_def new_entry_def)

lemma keeps_set_top: "\<lbrakk>xs \<noteq> []; \<forall>i. bit tm i \<longrightarrow> i < n\<rbrakk> \<Longrightarrow> keeps n xs (new_entry # update_top xs (simt_set_top a dv nr p tm))"
  by (cases xs) (auto simp: keeps_def in_warp_def simt_set_top_def update_top_def new_entry_def Let_def)

lemma keeps_return: "simt_return p xs = Some ys \<Longrightarrow> keeps n xs ys"
  by (auto simp: simt_return_def keeps_def in_warp_def Let_def split: list.splits if_splits)

lemma extract_group_bits: "\<lbrakk>extract_group d P n p tm act = (p', tm', act'); \<forall>i. bit tm i \<longrightarrow> i < m; n \<le> m\<rbrakk> \<Longrightarrow> \<forall>i. bit tm' i \<longrightarrow> i < m"
proof (induction n arbitrary: p tm act)
  case (Suc n)
  from Suc.prems(1) obtain q r b where e: "extract_group d P n q r b = (p', tm', act')" "r = tm \<or> r = set_bit n tm"
    by (auto split: if_splits)
  have "\<forall>i. bit r i \<longrightarrow> i < m" using e(2) Suc.prems(2,3) by (auto simp: bit_set_bit_iff)
  then show ?case using Suc.IH [OF e(1)] Suc.prems(3) by simp
qed simp

text \<open>An update that succeeds on the upper part of a stack alone does the same on the whole stack, and leaves the rest alone.\<close>

lemma simt_loop_frame:
  "\<lbrakk>simt_loop a act dv nr xs = Some ys; xs \<noteq> []\<rbrakk> \<Longrightarrow> simt_loop a act dv nr (xs @ B) = Some (ys @ B) \<and> keeps (sa_warp_size a) xs ys"
proof (induction "card {i. bit act i}" arbitrary: act dv nr xs rule: less_induct)
  case less
  let ?n = "sa_warp_size a"
  note run = less.prems(1)
  have pop: "(case xs @ B of [] \<Rightarrow> None | _ # es \<Rightarrow> Some es) = Some (zs @ B) \<and> keeps ?n xs zs" if "(case xs of [] \<Rightarrow> None | _ # es \<Rightarrow> Some es) = Some zs" for zs
    using that less.prems(2) by (auto simp: keeps_def in_warp_def split: list.splits)
  show ?case
  proof (cases "act = 0")
    case True
    then show ?thesis using run pop by (simp add: simt_loop.simps)
  next
    case False
    obtain p tm act' where g: "extract_group (sa_done a) (sa_next_pc a) ?n null_pc 0 act = (p, tm, act')" by (metis prod_cases3)
    have tm: "\<forall>i. bit tm i \<longrightarrow> i < ?n" using extract_group_bits [OF g, of ?n] by simp
    define body where "body stk = (if p = sa_top_recvg_pc a \<and> sa_top_type a \<noteq> STACK_ENTRY_TYPE_CALL then simt_loop a act' dv nr stk
      else let (dv, nr, stk) = (if act' \<noteq> 0 \<and> \<not> dv then (True, sa_recvg_pc a, simt_diverge a stk) else (dv, nr, stk)) in
        if dv \<and> p = nr then simt_loop a act' dv nr stk else simt_loop a act' dv nr (new_entry # update_top stk (simt_set_top a dv nr p tm)))" for stk
    have unf: "simt_loop a act dv nr stk =
      (if p = null_pc then (if act' = 0 then (case stk of [] \<Rightarrow> None | _ # es \<Rightarrow> Some es) else None)
       else if sa_op a = CALL_OPS then (if act' = 0 then Some (call_entry (sa_cycle a) p tm # stk) else None)
       else if sa_op a = RET_OPS \<and> sa_top_type a = STACK_ENTRY_TYPE_CALL then (if act' = 0 then simt_return p stk else None)
       else body stk)" for stk
      using False g by (subst simt_loop.simps) (simp add: body_def call_entry_def simt_loop.simps [of a 0])
    have "body (xs @ B) = Some (ys @ B) \<and> keeps ?n xs ys" if "p \<noteq> null_pc" "body xs = Some ys"
    proof -
      have "act' \<noteq> act" using g that(1) extract_group_same by fastforce
      then have dec: "card {i. bit act' i} < card {i. bit act i}" using extract_group_subset [OF g] by (intro mask_decreases) auto
      note ih = less.hyps [OF dec]
      define dv' nr' xs' where "dv' = (act' \<noteq> 0 \<or> dv)" and "nr' = (if act' \<noteq> 0 \<and> \<not> dv then sa_recvg_pc a else nr)"
        and "xs' = (if act' \<noteq> 0 \<and> \<not> dv then simt_diverge a xs else xs)"
      have xs': "xs' \<noteq> []" "keeps ?n xs xs'" using less.prems(2) simt_diverge_nonempty keeps_diverge by (auto simp: xs'_def keeps_def)
      let ?top = "simt_set_top a dv' nr' p tm"
      have b: "body (xs @ C) = (if p = sa_top_recvg_pc a \<and> sa_top_type a \<noteq> STACK_ENTRY_TYPE_CALL then simt_loop a act' dv nr (xs @ C)
        else if dv' \<and> p = nr' then simt_loop a act' dv' nr' (xs' @ C) else simt_loop a act' dv' nr' ((new_entry # update_top xs' ?top) @ C))" for C
        using less.prems(2) xs'(1) by (auto simp: body_def dv'_def nr'_def xs'_def simt_diverge_append update_top_append Let_def)
      note b0 = b [of "[]", unfolded append_Nil2]
      show ?thesis
      proof (cases "p = sa_top_recvg_pc a \<and> sa_top_type a \<noteq> STACK_ENTRY_TYPE_CALL")
        case True
        then show ?thesis using b [of B] b0 that(2) ih [of dv nr xs] less.prems(2) by simp
      next
        case False
        show ?thesis
        proof (cases "dv' \<and> p = nr'")
          case True
          then have "simt_loop a act' dv' nr' xs' = Some ys" using that(2) unfolding b0 if_not_P [OF False] if_P [OF True] by simp
          from ih [OF this xs'(1)] show ?thesis unfolding b [of B] if_not_P [OF False] if_P [OF True] using keeps_trans [OF xs'(2,1)] by blast
        next
          case cont: False
          then have "simt_loop a act' dv' nr' (new_entry # update_top xs' ?top) = Some ys" using that(2) unfolding b0 if_not_P [OF False] if_not_P [OF cont] by simp
          from ih [OF this list.distinct(2)] have "simt_loop a act' dv' nr' ((new_entry # update_top xs' ?top) @ B) = Some (ys @ B)" "keeps ?n (new_entry # update_top xs' ?top) ys" by simp_all
          then show ?thesis unfolding b [of B] if_not_P [OF False] if_not_P [OF cont] using keeps_trans [OF xs'(2,1)] keeps_trans [OF keeps_set_top [OF xs'(1) tm]] by blast
        qed
      qed
    qed
    moreover have "keeps ?n xs (call_entry (sa_cycle a) p tm # xs)" using less.prems(2) tm by (auto simp: keeps_def in_warp_def call_entry_def)
    ultimately show ?thesis using run pop simt_return_append keeps_return unfolding unf by (auto split: if_splits)
  qed
qed

lemma simt_update_frame:
  assumes "simt_update cycle (s\<lparr>st_stack := xs\<rparr>) d P r op = Some s'"
  shows "simt_update cycle (s\<lparr>st_stack := xs @ B\<rparr>) d P r op = Some (s\<lparr>st_stack := st_stack s' @ B\<rparr>)"
    "s' = s\<lparr>st_stack := st_stack s'\<rparr>" "xs \<noteq> []" "keeps (st_warp_size s) xs (st_stack s')"
proof -
  obtain x ys where xs: "xs = x # ys" using assms by (cases xs) (auto simp: simt_update_def)
  let ?a = "\<lparr>sa_warp_size = st_warp_size s, sa_done = d, sa_next_pc = P, sa_recvg_pc = r, sa_op = op, sa_cycle = cycle,
      sa_top_recvg_pc = ss_recvg_pc x, sa_top_type = ss_type x\<rparr>"
  obtain zs where l: "simt_loop ?a (ss_active_mask x) False null_pc xs = Some zs" "length P = st_warp_size s" "ss_active_mask x \<noteq> 0" "s' = s\<lparr>st_stack := zs\<rparr>"
    using assms xs by (auto simp: simt_update_def bind_eq_Some_conv split: if_splits)
  from simt_loop_frame [OF l(1), of B] show "simt_update cycle (s\<lparr>st_stack := xs @ B\<rparr>) d P r op = Some (s\<lparr>st_stack := st_stack s' @ B\<rparr>)"
    "s' = s\<lparr>st_stack := st_stack s'\<rparr>" "xs \<noteq> []" "keeps (st_warp_size s) xs (st_stack s')"
    using l xs by (simp_all add: simt_update_def)
qed

lemma simt_run_frame:
  assumes "simt_run (s\<lparr>st_stack := xs\<rparr>) steps = Some s'" "st_stack s' \<noteq> []"
  shows "simt_run (s\<lparr>st_stack := xs @ B\<rparr>) steps = Some (s\<lparr>st_stack := st_stack s' @ B\<rparr>) \<and> keeps (st_warp_size s) xs (st_stack s')"
  using assms(1)
proof (induction steps arbitrary: xs)
  case Nil
  then show ?case by (auto simp: keeps_def)
next
  case (Cons st steps)
  obtain cycle d P r op where st: "st = (cycle, d, P, r, op)" by (cases st)
  then obtain s1 where s1: "simt_update cycle (s\<lparr>st_stack := xs\<rparr>) d P r op = Some s1" "simt_run s1 steps = Some s'"
    using Cons.prems by (auto split: option.splits)
  note f = simt_update_frame [OF s1(1)]
  have "simt_run (s\<lparr>st_stack := st_stack s1\<rparr>) steps = Some s'" using s1(2) f(2) by simp
  note ih = Cons.IH [OF this]
  have "st_stack s1 \<noteq> []"
  proof
    assume e: "st_stack s1 = []"
    show False using s1(2) assms(2) e by (cases steps) (auto simp: simt_update_def)
  qed
  then show ?case using ih f(1) [of B] keeps_trans [OF f(4)] st by simp
qed

text \<open>The call pushes an entry for its threads, and the return of a called function pops it.\<close>

lemma simt_update_call:
  assumes "st_stack s = e # es" "length pcs = st_warp_size s" "\<forall>i. bit (ss_active_mask e) i \<longrightarrow> i < st_warp_size s"
    "\<forall>i. bit (ss_active_mask e) i \<and> \<not> bit dn i \<longrightarrow> pcs ! i = p" "p \<noteq> null_pc" "bit (ss_active_mask e) k" "\<not> bit dn k"
  shows "simt_update t s dn pcs r CALL_OPS = Some (s\<lparr>st_stack := call_entry t p (ss_active_mask e AND NOT dn) # e # es\<rparr>)"
proof -
  let ?a = "\<lparr>sa_warp_size = st_warp_size s, sa_done = dn, sa_next_pc = pcs, sa_recvg_pc = r,
    sa_op = CALL_OPS, sa_cycle = t, sa_top_recvg_pc = ss_recvg_pc e, sa_top_type = ss_type e\<rparr>"
  obtain tm where tm: "extract_group dn pcs (st_warp_size s) null_pc 0 (ss_active_mask e) = (p, tm, 0)" "\<forall>i. bit tm i \<longleftrightarrow> bit (ss_active_mask e) i \<and> \<not> bit dn i"
    using same_pc_group [of "ss_active_mask e" ?a p k] assms by (auto simp: live_def)
  have "tm = ss_active_mask e AND NOT dn" by (rule bit_word_eqI) (use tm(2) in \<open>auto simp: bit_simps\<close>)
  moreover have ne: "ss_active_mask e \<noteq> 0" using assms(6) by auto
  ultimately have "simt_loop ?a (ss_active_mask e) False null_pc (e # es) = Some (call_entry t p (ss_active_mask e AND NOT dn) # e # es)"
    using tm(1) assms(5) by (simp add: simt_loop.simps [of ?a] call_entry_def)
  then show ?thesis using assms(1,2) ne by (simp add: simt_update_def)
qed

lemma simt_update_return:
  assumes "length rets = st_warp_size s" "ss_type c = STACK_ENTRY_TYPE_CALL" "\<forall>i. bit (ss_active_mask c) i \<longrightarrow> i < st_warp_size s"
    "\<forall>i. bit (ss_active_mask c) i \<and> \<not> bit dn i \<longrightarrow> rets ! i = q" "q \<noteq> null_pc" "bit (ss_active_mask c) k" "\<not> bit dn k"
  shows "simt_update t (s\<lparr>st_stack := c # e # es\<rparr>) dn rets r RET_OPS =
    Some (s\<lparr>st_stack := if q = ss_recvg_pc e \<and> ss_type e \<noteq> STACK_ENTRY_TYPE_CALL then es else e\<lparr>ss_pc := q\<rparr> # es\<rparr>)"
proof -
  let ?b = "\<lparr>sa_warp_size = st_warp_size s, sa_done = dn, sa_next_pc = rets, sa_recvg_pc = r,
    sa_op = RET_OPS, sa_cycle = t, sa_top_recvg_pc = ss_recvg_pc c, sa_top_type = STACK_ENTRY_TYPE_CALL\<rparr>"
  have ne: "ss_active_mask c \<noteq> 0" using assms(6) by auto
  obtain tm where "extract_group dn rets (st_warp_size s) null_pc 0 (ss_active_mask c) = (q, tm, 0)"
    by (rule same_pc_group [of "ss_active_mask c" ?b q k]) (use assms in \<open>auto simp: live_def\<close>)
  then have "simt_loop ?b (ss_active_mask c) False null_pc (c # e # es) = simt_return q (c # e # es)"
    using ne assms(5) by (simp add: simt_loop.simps [of ?b])
  moreover have "simt_return q (c # e # es) =
    Some (if q = ss_recvg_pc e \<and> ss_type e \<noteq> STACK_ENTRY_TYPE_CALL then es else e\<lparr>ss_pc := q\<rparr> # es)"
    by (cases "ss_type e") (auto simp: simt_return_def Let_def)
  ultimately show ?thesis using assms(1,2) ne by (simp add: simt_update_def)
qed

subsection \<open>The threads of a warp\<close>

text \<open>
  \<^verbatim>\<open>core_t::updateSIMTStack\<close>: the state of the hardware threads is given by whether each is done
  (\<^verbatim>\<open>ptx_thread_done\<close>), its program counter and its return address; the instruction by its reconvergence point and
  operation.
\<close>

record thread_state =
  th_done :: bool
  th_pc :: address_type
  th_return_pc :: address_type

abbreviation RECONVERGE_RETURN_PC :: address_type where "RECONVERGE_RETURN_PC \<equiv> -2"

fun collect_threads :: "thread_state list \<Rightarrow> nat \<Rightarrow> address_type \<Rightarrow> simt_mask_t \<Rightarrow> address_type list \<Rightarrow>
  simt_mask_t \<times> address_type list \<times> address_type" where
  "collect_threads [] i recvg thread_done next_pc = (thread_done, next_pc, recvg)"
| "collect_threads (t # ts) i recvg thread_done next_pc =
     (if th_done t then collect_threads ts (Suc i) recvg (set_bit i thread_done) (next_pc @ [-1])
      else collect_threads ts (Suc i) (if recvg = RECONVERGE_RETURN_PC then th_return_pc t else recvg)
             thread_done (next_pc @ [th_pc t]))"

definition updateSIMTStack :: "64 word \<Rightarrow> simt_stack \<Rightarrow> thread_state list \<Rightarrow> address_type \<Rightarrow> op_type \<Rightarrow> simt_stack option" where
  "updateSIMTStack cycle s threads reconvergence_pc op =
     (let (thread_done, next_pc, recvg) = collect_threads threads 0 reconvergence_pc 0 []
      in simt_update cycle s thread_done next_pc recvg op)"

lemma collect_threads_spec:
  assumes "i = length next_pc" "length ts + length next_pc \<le> 32" "\<forall>j. bit d j \<longrightarrow> j < i"
  obtains d' recvg' where "collect_threads ts i recvg d next_pc = (d', next_pc @ map (\<lambda>t. if th_done t then -1 else th_pc t) ts, recvg')"
    "\<forall>j. bit d' j \<longleftrightarrow> bit d j \<or> (i \<le> j \<and> j - i < length ts \<and> th_done (ts ! (j - i)))"
    "recvg \<noteq> RECONVERGE_RETURN_PC \<longrightarrow> recvg' = recvg"
proof -
  have "\<exists>d' recvg'. collect_threads ts i recvg d next_pc = (d', next_pc @ map (\<lambda>t. if th_done t then -1 else th_pc t) ts, recvg') \<and>
    (\<forall>j. bit d' j \<longleftrightarrow> bit d j \<or> (i \<le> j \<and> j - i < length ts \<and> th_done (ts ! (j - i)))) \<and>
    (recvg \<noteq> RECONVERGE_RETURN_PC \<longrightarrow> recvg' = recvg)"
    using assms
  proof (induction ts arbitrary: i recvg d next_pc)
    case (Cons t ts)
    let ?d = "if th_done t then set_bit i d else d" and ?r = "if th_done t \<or> recvg \<noteq> RECONVERGE_RETURN_PC then recvg else th_return_pc t"
    let ?n = "next_pc @ [if th_done t then -1 else th_pc t]"
    have i: "i < 32" using Cons.prems by simp
    have bd: "bit ?d j \<longleftrightarrow> bit d j \<or> j = i \<and> th_done t" for j using i by (auto simp: bit_set_bit_iff)
    have "\<forall>j. bit ?d j \<longrightarrow> j < Suc i" using Cons.prems(3) bd less_Suc_eq by blast
    then obtain d' r' where ih: "collect_threads ts (Suc i) ?r ?d ?n = (d', ?n @ map (\<lambda>t. if th_done t then -1 else th_pc t) ts, r')"
      "\<forall>j. bit d' j \<longleftrightarrow> bit ?d j \<or> (Suc i \<le> j \<and> j - Suc i < length ts \<and> th_done (ts ! (j - Suc i)))"
      "?r \<noteq> RECONVERGE_RETURN_PC \<longrightarrow> r' = ?r"
      using Cons.IH [of "Suc i" ?n ?d ?r] Cons.prems(1,2) by auto
    have "bit d' j \<longleftrightarrow> bit d j \<or> (i \<le> j \<and> j - i < length (t # ts) \<and> th_done ((t # ts) ! (j - i)))" for j
      using ih(2) bd by (cases "j = i"; cases "j < i") (auto simp: nth_Cons' Suc_diff_Suc)
    then show ?case using ih by auto
  qed simp
  then show thesis using that by blast
qed

subsection \<open>Properties\<close>

text \<open>
  C2. The SIMT stack under an ordinary instruction: \<^verbatim>\<open>simt_stack::update\<close> ends without an abort, keeps the stack
  invariant, every active thread that is not done resumes at its own next program counter, and every thread that was not active
  resumes where it was waiting.  The conditions are those of the caller: the mask holds only threads of the warp, the program counters
  are not the null one, and a branch some of whose threads go to the enclosing reconvergence point while others do not also reconverges
  there (its reconvergence point is the immediate post-dominator).
\<close>
theorem simt_update_resumes:
  assumes stk: "st_stack s = e # es" and inv: "simt_inv (st_stack s)"
    and len: "length next_pc = st_warp_size s" and ne: "ss_active_mask e \<noteq> 0"
    and warp: "\<forall>i. bit (ss_active_mask e) i \<longrightarrow> i < st_warp_size s"
    and pcs: "\<forall>i. bit (ss_active_mask e) i \<and> \<not> bit dn i \<longrightarrow> next_pc ! i \<noteq> null_pc"
    and ordinary: "op \<noteq> CALL_OPS" "\<not> (op = RET_OPS \<and> ss_type e = STACK_ENTRY_TYPE_CALL)"
    and pdom: "ss_type e \<noteq> STACK_ENTRY_TYPE_CALL \<longrightarrow>
      (\<exists>i. bit (ss_active_mask e) i \<and> \<not> bit dn i \<and> next_pc ! i = ss_recvg_pc e) \<longrightarrow>
      recvg_pc = ss_recvg_pc e \<or> (\<forall>i. bit (ss_active_mask e) i \<and> \<not> bit dn i \<longrightarrow> next_pc ! i = ss_recvg_pc e)"
  shows "\<exists>s'. simt_update cycle s dn next_pc recvg_pc op = Some s' \<and> simt_inv (st_stack s') \<and>
    (\<forall>i. bit (ss_active_mask e) i \<and> \<not> bit dn i \<longrightarrow> resume (st_stack s') i = Some (next_pc ! i)) \<and>
    (\<forall>i. \<not> bit (ss_active_mask e) i \<longrightarrow> resume (st_stack s') i = resume (st_stack s) i)"
proof -
  let ?a = "\<lparr>sa_warp_size = st_warp_size s, sa_done = dn, sa_next_pc = next_pc, sa_recvg_pc = recvg_pc,
    sa_op = op, sa_cycle = cycle, sa_top_recvg_pc = ss_recvg_pc e, sa_top_type = ss_type e\<rparr>"
  have "args_ok ?a (ss_active_mask e)"
    unfolding args_ok_def live_def simt_args.simps using warp pcs ordinary pdom by blast
  then obtain stk where "simt_loop ?a (ss_active_mask e) False null_pc (e # es) = Some stk" "resumes_ok ?a e es stk"
    using update_loop [of ?a e es "ss_active_mask e"] inv stk by (auto simp: live_def)
  then show ?thesis using stk len ne by (auto simp: simt_update_def resumes_ok_def live_def)
qed

theorem simt_update_resumes_witness:
  "\<exists>s'. simt_update 9 (simt_launch (simt_stack_new 0 4) 100 (mask 4)) 0 [200, 200, 108, 300] 300 BRANCH_OP = Some s' \<and>
     resume (st_stack s') 0 = Some 200 \<and> resume (st_stack s') 2 = Some 108 \<and> resume (st_stack s') 3 = Some 300"
proof -
  let ?s = "simt_launch (simt_stack_new 0 4) 100 (mask 4)"
  have l: "st_stack ?s = [new_entry\<lparr>ss_pc := 100, ss_calldepth := 1, ss_active_mask := mask 4\<rparr>]" "st_warp_size ?s = 4"
    by (simp_all add: simt_launch_def simt_reset_def simt_stack_new_def new_entry_def)
  have b: "bit (mask 4 :: 32 word) i \<longleftrightarrow> i < 4" for i by (auto simp: bit_mask_iff)
  have four: "i = 0 \<or> i = 1 \<or> i = 2 \<or> i = 3" if "i < 4" for i :: nat using that by auto
  have pcs: "[200, 200, 108, 300] ! i \<noteq> null_pc" if "i < 4" for i using four [OF that] by auto
  let ?e = "new_entry\<lparr>ss_pc := 100, ss_calldepth := 1, ss_active_mask := mask 4\<rparr>"
  have "\<exists>s'. simt_update 9 ?s 0 [200, 200, 108, 300] 300 BRANCH_OP = Some s' \<and> simt_inv (st_stack s') \<and>
    (\<forall>i. bit (ss_active_mask ?e) i \<and> \<not> bit (0 :: 32 word) i \<longrightarrow> resume (st_stack s') i = Some ([200, 200, 108, 300] ! i)) \<and>
    (\<forall>i. \<not> bit (ss_active_mask ?e) i \<longrightarrow> resume (st_stack s') i = resume (st_stack ?s) i)"
    by (rule simt_update_resumes [OF l(1) simt_inv_launch]) (use pcs in \<open>auto simp: l b new_entry_def\<close>)
  then obtain s' where "simt_update 9 ?s 0 [200, 200, 108, 300] 300 BRANCH_OP = Some s'"
    "\<forall>i. i < 4 \<longrightarrow> resume (st_stack s') i = Some ([200, 200, 108, 300] ! i)" by (auto simp: b)
  moreover from this(2) have "resume (st_stack s') 0 = Some 200" "resume (st_stack s') 2 = Some 108" "resume (st_stack s') 3 = Some 300"
    by simp_all
  ultimately show ?thesis by blast
qed

text \<open>
  C36. Calls and returns on the SIMT stack.  All live threads of the top entry call the same function; the stack gets an entry for them on
  top.  The callee is any sequence of updates, with branches, nested calls and threads that finish.  Whatever it does to a stack with the entry
  of the call alone, it does to the whole stack, with the entries of the caller untouched below; and when that leaves one
  entry, since every branch has reconverged, and its live threads all return to the same address, the stack is the one before the call with that
  address as program counter, or the caller's entry is popped when the address is its reconvergence point.
\<close>
theorem simt_call_return:
  assumes stk: "st_stack s = e # es" and sz: "length pcs = st_warp_size s" "length rets = st_warp_size s"
    and warp: "\<forall>i. bit (ss_active_mask e) i \<longrightarrow> i < st_warp_size s"
    and call: "\<forall>i. bit (ss_active_mask e) i \<and> \<not> bit dn i \<longrightarrow> pcs ! i = p" "p \<noteq> null_pc" "bit (ss_active_mask e) k" "\<not> bit dn k"
    and callee: "simt_run (s\<lparr>st_stack := [call_entry t p (ss_active_mask e AND NOT dn)]\<rparr>) steps = Some s'" "st_stack s' = [c]"
    and ret: "\<forall>i. bit (ss_active_mask c) i \<and> \<not> bit dn' i \<longrightarrow> rets ! i = q" "q \<noteq> null_pc" "bit (ss_active_mask c) j" "\<not> bit dn' j"
  shows "\<exists>s1 s2 s3. simt_update t s dn pcs r CALL_OPS = Some s1 \<and> get_pdom_stack_top_info s1 = Some (p, null_pc) \<and>
    get_active_mask s1 = Some (ss_active_mask e AND NOT dn) \<and>
    (\<forall>st x. simt_run (s\<lparr>st_stack := [call_entry t p (ss_active_mask e AND NOT dn)]\<rparr>) st = Some x \<and> st_stack x \<noteq> [] \<longrightarrow>
       simt_run s1 st = Some (s\<lparr>st_stack := st_stack x @ e # es\<rparr>)) \<and>
    simt_run s1 steps = Some s2 \<and> simt_update t' s2 dn' rets r' RET_OPS = Some s3 \<and>
    st_stack s3 = (if q = ss_recvg_pc e \<and> ss_type e \<noteq> STACK_ENTRY_TYPE_CALL then es else e\<lparr>ss_pc := q\<rparr> # es)"
proof -
  let ?c = "call_entry t p (ss_active_mask e AND NOT dn)"
  let ?s1 = "s\<lparr>st_stack := ?c # e # es\<rparr>" and ?s2 = "s\<lparr>st_stack := c # e # es\<rparr>"
  note frame = simt_run_frame [where xs = "[?c]" and B = "e # es" and s = s, unfolded append_Cons append_Nil]
  have run: "simt_run ?s1 steps = Some ?s2" and kept: "keeps (st_warp_size s) [?c] [c]" using frame [OF callee(1)] callee(2) by simp_all
  have "in_warp (st_warp_size s) [?c]" using warp by (simp add: in_warp_def call_entry_def bit_simps)
  then have c: "ss_type c = STACK_ENTRY_TYPE_CALL" "\<forall>i. bit (ss_active_mask c) i \<longrightarrow> i < st_warp_size s"
    using kept by (auto simp: keeps_def in_warp_def call_entry_def)
  have fr: "\<forall>st x. simt_run (s\<lparr>st_stack := [?c]\<rparr>) st = Some x \<and> st_stack x \<noteq> [] \<longrightarrow> simt_run ?s1 st = Some (s\<lparr>st_stack := st_stack x @ e # es\<rparr>)"
    using frame by blast
  have top: "get_pdom_stack_top_info ?s1 = Some (p, null_pc)" "get_active_mask ?s1 = Some (ss_active_mask e AND NOT dn)"
    by (simp_all add: get_pdom_stack_top_info_def get_active_mask_def call_entry_def new_entry_def)
  show ?thesis
    by (rule exI [of _ ?s1], rule exI [of _ ?s2], rule exI, intro conjI, rule simt_update_call [OF stk sz(1) warp call], rule top, rule top, rule fr, rule run,
      rule simt_update_return [OF sz(2) c ret]) simp
qed

text \<open>Two threads call a function that branches: thread 0 goes to 408, thread 1 to 500, both to 600, where the call returns.\<close>

definition example_callee :: "simt_step list" where
  "example_callee = [(6, 0, [408, 500], 600, BRANCH_OP), (7, 0, [600, 504], null_pc, ALU_OP), (8, 0, [600, 600], null_pc, ALU_OP), (9, 0, [604, 604], null_pc, ALU_OP)]"

lemma example_callee_run:
  "map_option st_stack (simt_run (simt_stack_new 0 2\<lparr>st_stack := [call_entry 5 400 (mask 2 AND NOT 0)]\<rparr>) example_callee)
     = Some [\<lparr>ss_pc = 604, ss_calldepth = 0, ss_active_mask = 3, ss_recvg_pc = null_pc, ss_branch_div_cycle = 6, ss_type = STACK_ENTRY_TYPE_CALL\<rparr>]"
  by code_simp

theorem simt_call_return_witness:
  "\<exists>s1 s2 s3. simt_update 5 (simt_launch (simt_stack_new 0 2) 100 (mask 2)) 0 [400, 400] null_pc CALL_OPS = Some s1 \<and>
     simt_run s1 example_callee = Some s2 \<and> simt_update 10 s2 0 [108, 108] null_pc RET_OPS = Some s3 \<and>
     get_active_mask s3 = Some (mask 2) \<and> get_pdom_stack_top_info s3 = Some (108, null_pc)"
proof -
  let ?s = "simt_launch (simt_stack_new 0 2) 100 (mask 2)" and ?e = "new_entry\<lparr>ss_pc := 100, ss_calldepth := 1, ss_active_mask := mask 2\<rparr>"
  let ?c = "\<lparr>ss_pc = 604, ss_calldepth = 0, ss_active_mask = 3, ss_recvg_pc = null_pc, ss_branch_div_cycle = 6, ss_type = STACK_ENTRY_TYPE_CALL\<rparr> :: simt_stack_entry"
  have l: "st_stack ?s = [?e]" "st_warp_size ?s = 2" "?s\<lparr>st_stack := xs\<rparr> = simt_stack_new 0 2\<lparr>st_stack := xs\<rparr>" for xs
    by (simp_all add: simt_launch_def simt_reset_def simt_stack_new_def new_entry_def)
  have b: "i = 0 \<or> i = 1" if "bit (mask 2 :: 32 word) i" for i using that by (auto simp: bit_mask_iff)
  have three: "(3 :: 32 word) = mask 2" by (simp add: mask_eq_exp_minus_1)
  have k: "bit (mask 2 :: 32 word) 0" by (simp add: bit_mask_iff)
  obtain s' where run: "simt_run (?s\<lparr>st_stack := [call_entry 5 400 (ss_active_mask ?e AND NOT 0)]\<rparr>) example_callee = Some s'" "st_stack s' = [?c]"
    using example_callee_run unfolding l(3) by auto
  have "\<exists>s1 s2 s3. simt_update 5 ?s 0 [400, 400] null_pc CALL_OPS = Some s1 \<and> get_pdom_stack_top_info s1 = Some (400, null_pc) \<and>
    get_active_mask s1 = Some (ss_active_mask ?e AND NOT 0) \<and>
    (\<forall>st x. simt_run (?s\<lparr>st_stack := [call_entry 5 400 (ss_active_mask ?e AND NOT 0)]\<rparr>) st = Some x \<and> st_stack x \<noteq> [] \<longrightarrow>
       simt_run s1 st = Some (?s\<lparr>st_stack := st_stack x @ ?e # []\<rparr>)) \<and>
    simt_run s1 example_callee = Some s2 \<and> simt_update 10 s2 0 [108, 108] null_pc RET_OPS = Some s3 \<and>
    st_stack s3 = (if 108 = ss_recvg_pc ?e \<and> ss_type ?e \<noteq> STACK_ENTRY_TYPE_CALL then [] else ?e\<lparr>ss_pc := 108\<rparr> # [])"
  proof (rule simt_call_return [OF l(1) _ _ _ _ _ _ _ run])
    show "\<forall>i. bit (ss_active_mask ?e) i \<longrightarrow> i < st_warp_size ?s" "\<forall>i. bit (ss_active_mask ?e) i \<and> \<not> bit (0 :: 32 word) i \<longrightarrow> [400, 400] ! i = (400 :: 32 word)"
      by (auto simp: l(2) dest: b)
    show "\<forall>i. bit (ss_active_mask ?c) i \<and> \<not> bit (0 :: 32 word) i \<longrightarrow> [108, 108] ! i = (108 :: 32 word)" by (auto simp: three dest: b)
    show "bit (ss_active_mask ?e) 0" "bit (ss_active_mask ?c) 0" using k by (simp_all add: three)
  qed (simp_all add: l(2))
  then show ?thesis by (auto simp: get_active_mask_def get_pdom_stack_top_info_def new_entry_def)
qed

end
