(* ===== verification/GpuCore_Model.thy ===== *)
theory GpuCore_Model
  imports SIMT_Model
begin

text \<open>
  Structures of the GPGPU-Sim core: the enumeration of thread blocks and threads of a kernel (\<^verbatim>\<open>kernel_info_t\<close> of
  \<^verbatim>\<open>abstract_hardware_model.h\<close>, \<^verbatim>\<open>increment_x_then_y_then_z\<close> of \<^verbatim>\<open>gpgpu-sim/gpu-sim.cc\<close>), the
  scoreboard (\<^verbatim>\<open>gpgpu-sim/scoreboard.cc\<close>), the pipeline registers (\<^verbatim>\<open>register_set\<close>) and the delay queue
  (\<^verbatim>\<open>fifo_pipeline\<close> of \<^verbatim>\<open>gpgpu-sim/delayqueue.h\<close>).  Unsigned counters are natural numbers with the
  wrap-around written out where the code can reach it; indexing a \<^verbatim>\<open>std::vector\<close> out of range, which the language
  leaves undefined, is an abort.
\<close>

subsection \<open>Kernels\<close>

record dim3 =
  dim_x :: nat
  dim_y :: nat
  dim_z :: nat

definition increment_x_then_y_then_z :: "dim3 \<Rightarrow> dim3 \<Rightarrow> dim3" where
  "increment_x_then_y_then_z i bound =
     (let i = i\<lparr>dim_x := (dim_x i + 1) mod 2 ^ 32\<rparr> in
      if dim_x i \<ge> dim_x bound then
        let i = i\<lparr>dim_x := 0, dim_y := (dim_y i + 1) mod 2 ^ 32\<rparr> in
        if dim_y i \<ge> dim_y bound then
          let i = i\<lparr>dim_y := 0\<rparr> in
          if dim_z i < dim_z bound then i\<lparr>dim_z := (dim_z i + 1) mod 2 ^ 32\<rparr> else i
        else i
      else i)"

record kernel_info_t =
  k_grid_dim :: dim3
  k_block_dim :: dim3
  k_next_cta :: dim3
  k_next_tid :: dim3
  k_num_cores_running :: nat

abbreviation dim3_zero :: dim3 where "dim3_zero \<equiv> \<lparr>dim_x = 0, dim_y = 0, dim_z = 0\<rparr>"

definition kernel_info_new :: "dim3 \<Rightarrow> dim3 \<Rightarrow> kernel_info_t" where
  "kernel_info_new gridDim blockDim = \<lparr>k_grid_dim = gridDim, k_block_dim = blockDim, k_next_cta = dim3_zero,
     k_next_tid = dim3_zero, k_num_cores_running = 0\<rparr>"

definition inc_running :: "kernel_info_t \<Rightarrow> kernel_info_t" where
  "inc_running k = k\<lparr>k_num_cores_running := (k_num_cores_running k + 1) mod 2 ^ 32\<rparr>"

definition dec_running :: "kernel_info_t \<Rightarrow> kernel_info_t option" where
  "dec_running k = do {
     assert_that (k_num_cores_running k > 0);
     Some (k\<lparr>k_num_cores_running := k_num_cores_running k - 1\<rparr>)
   }"

definition no_more_ctas_to_run :: "kernel_info_t \<Rightarrow> bool" where
  "no_more_ctas_to_run k \<longleftrightarrow> dim_x (k_next_cta k) \<ge> dim_x (k_grid_dim k) \<or> dim_y (k_next_cta k) \<ge> dim_y (k_grid_dim k) \<or>
     dim_z (k_next_cta k) \<ge> dim_z (k_grid_dim k)"

definition kernel_done :: "kernel_info_t \<Rightarrow> bool" where
  "kernel_done k \<longleftrightarrow> no_more_ctas_to_run k \<and> \<not> k_num_cores_running k > 0"

definition num_blocks :: "kernel_info_t \<Rightarrow> nat" where
  "num_blocks k = dim_x (k_grid_dim k) * dim_y (k_grid_dim k) mod 2 ^ 32 * dim_z (k_grid_dim k) mod 2 ^ 32"

definition threads_per_cta :: "kernel_info_t \<Rightarrow> nat" where
  "threads_per_cta k = dim_x (k_block_dim k) * dim_y (k_block_dim k) mod 2 ^ 32 * dim_z (k_block_dim k) mod 2 ^ 32"

definition increment_cta_id :: "kernel_info_t \<Rightarrow> kernel_info_t" where
  "increment_cta_id k = k\<lparr>k_next_cta := increment_x_then_y_then_z (k_next_cta k) (k_grid_dim k), k_next_tid := dim3_zero\<rparr>"

definition increment_thread_id :: "kernel_info_t \<Rightarrow> kernel_info_t" where
  "increment_thread_id k = k\<lparr>k_next_tid := increment_x_then_y_then_z (k_next_tid k) (k_block_dim k)\<rparr>"

definition get_next_thread_id :: "kernel_info_t \<Rightarrow> nat" where
  "get_next_thread_id k = (dim_x (k_next_tid k) + dim_x (k_block_dim k) * dim_y (k_next_tid k) +
     dim_x (k_block_dim k) * dim_y (k_block_dim k) * dim_z (k_next_tid k)) mod 2 ^ 32"

definition more_threads_in_cta :: "kernel_info_t \<Rightarrow> bool" where
  "more_threads_in_cta k \<longleftrightarrow> dim_z (k_next_tid k) < dim_z (k_block_dim k) \<and> dim_y (k_next_tid k) < dim_y (k_block_dim k) \<and>
     dim_x (k_next_tid k) < dim_x (k_block_dim k)"

subsection \<open>Scoreboard\<close>

datatype mem_space_t = undefined_sp | reg_sp | local_sp | shared_sp | param_sp_unclassified | param_sp_kernel | param_sp_local
  | const_sp | tex_sp | surf_sp | global_sp | generic_sp | instruction_sp

datatype memory_op_t = no_memory_op | memory_load | memory_store

record warp_inst =
  wi_empty :: bool
  wi_warp_id :: nat
  wi_op :: op_type
  wi_memory_op :: memory_op_t
  wi_space :: mem_space_t
  wi_out :: "nat list"
  wi_in :: "nat list"
  wi_pred :: int
  wi_ar1 :: int
  wi_ar2 :: int

definition is_load :: "warp_inst \<Rightarrow> bool" where
  "is_load i \<longleftrightarrow> wi_op i = LOAD_OP \<or> wi_memory_op i = memory_load"

definition inst_warp_id :: "warp_inst \<Rightarrow> nat option" where
  "inst_warp_id i = do { assert_that (\<not> wi_empty i); Some (wi_warp_id i) }"

record Scoreboard =
  sb_reg_table :: "nat set list"
  sb_longopregs :: "nat set list"

definition Scoreboard_new :: "nat \<Rightarrow> Scoreboard" where
  "Scoreboard_new n_warps = \<lparr>sb_reg_table = replicate n_warps {}, sb_longopregs = replicate n_warps {}\<rparr>"

definition reserveRegister :: "Scoreboard \<Rightarrow> nat \<Rightarrow> nat \<Rightarrow> Scoreboard option" where
  "reserveRegister s wid regnum = do {
     regs \<leftarrow> vec_at (sb_reg_table s) wid;
     assert_that (\<not> regnum \<in> regs);
     Some (s\<lparr>sb_reg_table := (sb_reg_table s)[wid := insert regnum regs]\<rparr>)
   }"

definition releaseRegister :: "Scoreboard \<Rightarrow> nat \<Rightarrow> nat \<Rightarrow> Scoreboard option" where
  "releaseRegister s wid regnum = do {
     regs \<leftarrow> vec_at (sb_reg_table s) wid;
     Some (if \<not> regnum \<in> regs then s else s\<lparr>sb_reg_table := (sb_reg_table s)[wid := regs - {regnum}]\<rparr>)
   }"

definition islongop :: "Scoreboard \<Rightarrow> nat \<Rightarrow> nat \<Rightarrow> bool option" where
  "islongop s warp_id regnum = do { regs \<leftarrow> vec_at (sb_longopregs s) warp_id; Some (regnum \<in> regs) }"

fun reserve_loop :: "Scoreboard \<Rightarrow> warp_inst \<Rightarrow> nat list \<Rightarrow> Scoreboard option" where
  "reserve_loop s i [] = Some s"
| "reserve_loop s i (r # rs) = do {
     s \<leftarrow> (if r > 0 then do { w \<leftarrow> inst_warp_id i; reserveRegister s w r } else Some s);
     reserve_loop s i rs
   }"

fun release_loop :: "Scoreboard \<Rightarrow> warp_inst \<Rightarrow> nat list \<Rightarrow> Scoreboard option" where
  "release_loop s i [] = Some s"
| "release_loop s i (r # rs) = do {
     s \<leftarrow> (if r > 0 then do { w \<leftarrow> inst_warp_id i; releaseRegister s w r } else Some s);
     release_loop s i rs
   }"

text \<open>The second loop inserts the operand position \<open>r\<close>, not the register \<open>out[r]\<close>.\<close>

fun longop_loop :: "Scoreboard \<Rightarrow> warp_inst \<Rightarrow> nat \<Rightarrow> nat list \<Rightarrow> Scoreboard option" where
  "longop_loop s i r [] = Some s"
| "longop_loop s i r (x # xs) = do {
     s \<leftarrow> (if x > 0 then do {
               w \<leftarrow> inst_warp_id i;
               regs \<leftarrow> vec_at (sb_longopregs s) w;
               Some (s\<lparr>sb_longopregs := (sb_longopregs s)[w := insert r regs]\<rparr>)
             } else Some s);
     longop_loop s i (Suc r) xs
   }"

definition reserveRegisters :: "Scoreboard \<Rightarrow> warp_inst \<Rightarrow> Scoreboard option" where
  "reserveRegisters s i = do {
     s \<leftarrow> reserve_loop s i (take 4 (wi_out i));
     (if is_load i \<and> (wi_space i = global_sp \<or> wi_space i = local_sp \<or> wi_space i = tex_sp)
      then longop_loop s i 0 (take 4 (wi_out i)) else Some s)
   }"

definition releaseRegisters :: "Scoreboard \<Rightarrow> warp_inst \<Rightarrow> Scoreboard option" where
  "releaseRegisters s i = do {
     s \<leftarrow> release_loop s i (take 4 (wi_out i));
     w \<leftarrow> inst_warp_id i;
     regs \<leftarrow> vec_at (sb_longopregs s) w;
     Some (s\<lparr>sb_longopregs := (sb_longopregs s)[w := {}]\<rparr>)
   }"

definition inst_regs :: "warp_inst \<Rightarrow> nat set" where
  "inst_regs i = set (filter (\<lambda>r. r > 0) (take 4 (wi_out i) @ take 4 (wi_in i) @ map nat [wi_pred i, wi_ar1 i, wi_ar2 i]))"

definition checkCollision :: "Scoreboard \<Rightarrow> nat \<Rightarrow> warp_inst \<Rightarrow> bool option" where
  "checkCollision s wid i = do {
     regs \<leftarrow> vec_at (sb_reg_table s) wid;
     Some (\<exists>r \<in> inst_regs i. r \<in> regs)
   }"

definition pendingWrites :: "Scoreboard \<Rightarrow> nat \<Rightarrow> bool option" where
  "pendingWrites s wid = do { regs \<leftarrow> vec_at (sb_reg_table s) wid; Some (regs \<noteq> {}) }"

subsection \<open>Pipeline registers\<close>

text \<open>A pipeline register holds a warp instruction with its unique number, or is empty.\<close>

record 'w reg_inst =
  ri_uid :: nat
  ri_inst :: 'w

type_synonym 'w register_set = "'w reg_inst option list"

definition register_set_new :: "nat \<Rightarrow> 'w register_set" where
  "register_set_new num = replicate num None"

definition has_free :: "'w register_set \<Rightarrow> bool" where
  "has_free regs \<longleftrightarrow> (\<exists>r \<in> set regs. case r of None \<Rightarrow> True | Some _ \<Rightarrow> False)"

definition has_ready :: "'w register_set \<Rightarrow> bool" where
  "has_ready regs \<longleftrightarrow> (\<exists>r \<in> set regs. case r of None \<Rightarrow> False | Some _ \<Rightarrow> True)"

fun get_free_loop :: "'w register_set \<Rightarrow> nat \<Rightarrow> nat option" where
  "get_free_loop [] i = None"
| "get_free_loop (None # rs) i = Some i"
| "get_free_loop (Some _ # rs) i = get_free_loop rs (Suc i)"

fun get_ready_loop :: "'w register_set \<Rightarrow> nat \<Rightarrow> (nat \<times> 'w reg_inst) option \<Rightarrow> (nat \<times> 'w reg_inst) option" where
  "get_ready_loop [] i ready = ready"
| "get_ready_loop (None # rs) i ready = get_ready_loop rs (Suc i) ready"
| "get_ready_loop (Some w # rs) i ready =
     (case ready of
        Some (j, v) \<Rightarrow> if ri_uid v < ri_uid w then get_ready_loop rs (Suc i) ready else get_ready_loop rs (Suc i) (Some (i, w))
      | None \<Rightarrow> get_ready_loop rs (Suc i) (Some (i, w)))"

text \<open>\<^verbatim>\<open>move_warp\<close> exchanges two registers and empties the source; both calls abort where the code does.\<close>

definition move_in :: "'w register_set \<Rightarrow> 'w reg_inst \<Rightarrow> 'w register_set option" where
  "move_in regs src = do { i \<leftarrow> get_free_loop regs 0; Some (regs[i := Some src]) }"

definition move_out_to :: "'w register_set \<Rightarrow> 'w reg_inst option \<Rightarrow> ('w reg_inst \<times> 'w register_set) option" where
  "move_out_to regs dest = do {
     (i, w) \<leftarrow> get_ready_loop regs 0 None;
     assert_that (case dest of None \<Rightarrow> True | Some _ \<Rightarrow> False);
     Some (w, regs[i := None])
   }"

subsection \<open>Delay queue\<close>

text \<open>The linked list from \<^verbatim>\<open>m_head\<close> to \<^verbatim>\<open>m_tail\<close>; a node without data (\<^verbatim>\<open>NULL\<close>) is \<open>None\<close>.\<close>

record 'a fifo_pipeline =
  fp_min_len :: nat
  fp_max_len :: nat
  fp_length :: nat
  fp_n_element :: "32 word"
  fp_nodes :: "'a option list"

definition fp_push :: "'a fifo_pipeline \<Rightarrow> 'a option \<Rightarrow> 'a fifo_pipeline option" where
  "fp_push q data = do {
     assert_that (fp_length q < fp_max_len q);
     let grow = q\<lparr>fp_nodes := fp_nodes q @ [None], fp_length := fp_length q + 1, fp_n_element := fp_n_element q + 1\<rparr>;
     let q = (if fp_nodes q \<noteq> [] then
                (if \<not> Option.is_none (last (fp_nodes q)) \<or> fp_length q < fp_min_len q then grow else q)
              else grow);
     Some (q\<lparr>fp_nodes := butlast (fp_nodes q) @ [data]\<rparr>)
   }"

fun fp_push_nulls :: "nat \<Rightarrow> 'a fifo_pipeline \<Rightarrow> 'a fifo_pipeline option" where
  "fp_push_nulls 0 q = Some q"
| "fp_push_nulls (Suc n) q = do { q \<leftarrow> fp_push q None; fp_push_nulls n q }"

definition fifo_pipeline_new :: "nat \<Rightarrow> nat \<Rightarrow> 'a fifo_pipeline option" where
  "fifo_pipeline_new minlen maxlen = do {
     assert_that (maxlen \<noteq> 0);
     fp_push_nulls minlen \<lparr>fp_min_len = minlen, fp_max_len = maxlen, fp_length = 0, fp_n_element = 0, fp_nodes = []\<rparr>
   }"

definition fp_pop :: "'a fifo_pipeline \<Rightarrow> ('a option \<times> 'a fifo_pipeline) option" where
  "fp_pop q = (case fp_nodes q of
       [] \<Rightarrow> Some (None, q)
     | data # next \<Rightarrow> do {
         let q = q\<lparr>fp_nodes := next, fp_length := fp_length q - 1\<rparr>;
         assert_that (fp_length q = 0 \<longrightarrow> fp_nodes q = []);
         let q = q\<lparr>fp_n_element := fp_n_element q - 1\<rparr>;
         q \<leftarrow> (if fp_min_len q \<noteq> 0 \<and> fp_length q < fp_min_len q
               then do { q \<leftarrow> fp_push q None; Some (q\<lparr>fp_n_element := fp_n_element q - 1\<rparr>) }
               else Some q);
         Some (data, q)
       })"

definition fp_top :: "'a fifo_pipeline \<Rightarrow> 'a option" where
  "fp_top q = (case fp_nodes q of [] \<Rightarrow> None | data # _ \<Rightarrow> data)"

fun fp_grow_loop :: "nat \<Rightarrow> 'a fifo_pipeline \<Rightarrow> 'a fifo_pipeline option" where
  "fp_grow_loop 0 q = Some q"
| "fp_grow_loop (Suc n) q =
     (if fp_length q < fp_min_len q
      then do { q \<leftarrow> fp_push q None; fp_grow_loop n (q\<lparr>fp_n_element := fp_n_element q - 1\<rparr>) }
      else Some q)"

fun fp_shrink_loop :: "nat \<Rightarrow> 'a fifo_pipeline \<Rightarrow> 'a fifo_pipeline option" where
  "fp_shrink_loop 0 q = Some q"
| "fp_shrink_loop (Suc n) q =
     (if fp_length q > fp_min_len q \<and> fp_nodes q \<noteq> [] \<and> Option.is_none (last (fp_nodes q)) then
        (if length (fp_nodes q) = 1 then do { (_, q) \<leftarrow> fp_pop q; fp_shrink_loop n q }
         else fp_shrink_loop n (q\<lparr>fp_nodes := butlast (fp_nodes q), fp_length := fp_length q - 1\<rparr>))
      else Some q)"

definition fp_set_min_length :: "'a fifo_pipeline \<Rightarrow> nat \<Rightarrow> 'a fifo_pipeline option" where
  "fp_set_min_length q new_min_len =
     (if new_min_len = fp_min_len q then Some q
      else if new_min_len > fp_min_len q then fp_grow_loop new_min_len (q\<lparr>fp_min_len := new_min_len\<rparr>)
      else do {
        assert_that (fp_nodes q \<noteq> []);
        fp_shrink_loop (fp_length q) (q\<lparr>fp_min_len := new_min_len\<rparr>)
      })"

definition fp_full :: "'a fifo_pipeline \<Rightarrow> bool" where
  "fp_full q \<longleftrightarrow> fp_max_len q \<noteq> 0 \<and> fp_length q \<ge> fp_max_len q"

definition fp_empty :: "'a fifo_pipeline \<Rightarrow> bool" where
  "fp_empty q \<longleftrightarrow> fp_nodes q = []"

subsection \<open>Enumeration of blocks and threads\<close>

text \<open>The point that an enumeration in the order x, y, z reaches after \<open>n\<close> steps.\<close>

definition nth_dim3 :: "dim3 \<Rightarrow> nat \<Rightarrow> dim3" where
  "nth_dim3 b n = \<lparr>dim_x = n mod dim_x b, dim_y = n div dim_x b mod dim_y b, dim_z = min (n div (dim_x b * dim_y b)) (dim_z b)\<rparr>"

definition dim3_ok :: "dim3 \<Rightarrow> bool" where
  "dim3_ok b \<longleftrightarrow> 0 < dim_x b \<and> dim_x b < 2 ^ 32 \<and> 0 < dim_y b \<and> dim_y b < 2 ^ 32 \<and> 0 < dim_z b \<and> dim_z b < 2 ^ 32"

lemma mod_Suc_lt: "\<lbrakk>0 < (b :: nat); Suc (n mod b) < b\<rbrakk> \<Longrightarrow> Suc n mod b = Suc (n mod b) \<and> Suc n div b = n div b"
  by (simp add: mod_Suc div_Suc)

lemma mod_Suc_eq: "\<lbrakk>0 < (b :: nat); b \<le> Suc (n mod b)\<rbrakk> \<Longrightarrow> Suc n mod b = 0 \<and> Suc n div b = Suc (n div b)"
proof -
  assume b: "0 < b" "b \<le> Suc (n mod b)"
  then have "Suc (n mod b) = b" using mod_less_divisor [OF b(1), of n] by linarith
  then show ?thesis by (simp add: mod_Suc div_Suc)
qed

lemma increment_nth:
  assumes "dim3_ok b"
  shows "increment_x_then_y_then_z (nth_dim3 b n) b = nth_dim3 b (Suc n)"
proof -
  let ?X = "dim_x b" and ?Y = "dim_y b" and ?Z = "dim_z b"
  have b: "0 < ?X" "?X < 2 ^ 32" "0 < ?Y" "?Y < 2 ^ 32" "0 < ?Z" "?Z < 2 ^ 32" using assms by (simp_all add: dim3_ok_def)
  have lt: "n mod ?X < ?X" "n div ?X mod ?Y < ?Y" using b by simp_all
  have w: "(n mod ?X + 1) mod 2 ^ 32 = n mod ?X + 1" "(n div ?X mod ?Y + 1) mod 2 ^ 32 = n div ?X mod ?Y + 1"
    by (rule mod_less, use lt b in linarith)+
  show ?thesis
  proof (cases "Suc (n mod ?X) < ?X")
    case True
    then show ?thesis using mod_Suc_lt [OF b(1) True] w
      by (simp add: increment_x_then_y_then_z_def nth_dim3_def div_mult2_eq)
  next
    case False
    then have x: "Suc n mod ?X = 0" "Suc n div ?X = Suc (n div ?X)" using mod_Suc_eq [OF b(1)] by (simp_all add: not_less)
    show ?thesis
    proof (cases "Suc (n div ?X mod ?Y) < ?Y")
      case True
      then show ?thesis using False x w mod_Suc_lt [OF b(3) True]
        by (simp add: increment_x_then_y_then_z_def nth_dim3_def div_mult2_eq)
    next
      case y: False
      then have "Suc (n div ?X) mod ?Y = 0" "Suc (n div ?X) div ?Y = Suc (n div ?X div ?Y)" using mod_Suc_eq [OF b(3)] by (simp_all add: not_less)
      then show ?thesis using False x w y b(6)
        by (auto simp: increment_x_then_y_then_z_def nth_dim3_def div_mult2_eq Let_def min_def)
    qed
  qed
qed

lemma nth_dim3_0: "dim3_ok b \<Longrightarrow> nth_dim3 b 0 = dim3_zero"
  by (simp add: nth_dim3_def dim3_ok_def)


text \<open>The position of a point in that order.\<close>

definition dim3_index :: "dim3 \<Rightarrow> dim3 \<Rightarrow> nat" where
  "dim3_index b d = dim_x d + dim_x b * dim_y d + dim_x b * dim_y b * dim_z d"

definition dim3_volume :: "dim3 \<Rightarrow> nat" where
  "dim3_volume b = dim_x b * dim_y b * dim_z b"

definition dim3_box :: "dim3 \<Rightarrow> dim3 set" where
  "dim3_box b = {d. dim_x d < dim_x b \<and> dim_y d < dim_y b \<and> dim_z d < dim_z b}"

lemma div_lt_volume: "n < dim3_volume b \<longleftrightarrow> n div (dim_x b * dim_y b) < dim_z b" if "dim3_ok b"
  using that by (simp add: dim3_volume_def dim3_ok_def div_less_iff_less_mult mult.commute mult.left_commute)

lemma nth_dim3_in_box: "dim3_ok b \<Longrightarrow> nth_dim3 b n \<in> dim3_box b \<longleftrightarrow> n < dim3_volume b"
  by (simp add: div_lt_volume dim3_box_def nth_dim3_def min_less_iff_disj) (simp add: dim3_ok_def)

lemma index_nth_dim3: "\<lbrakk>dim3_ok b; n < dim3_volume b\<rbrakk> \<Longrightarrow> dim3_index b (nth_dim3 b n) = n"
proof -
  assume ok: "dim3_ok b" and n: "n < dim3_volume b"
  have "dim_x b * (n div dim_x b mod dim_y b) + dim_x b * (dim_y b * (n div dim_x b div dim_y b)) = dim_x b * (n div dim_x b)"
    by (simp only: add_mult_distrib2 [symmetric] mod_mult_div_eq)
  then have "n mod dim_x b + dim_x b * (n div dim_x b mod dim_y b) + dim_x b * (dim_y b * (n div dim_x b div dim_y b)) = n"
    using mod_mult_div_eq [of n "dim_x b"] by linarith
  then show ?thesis using n by (simp add: div_lt_volume [OF ok] dim3_index_def nth_dim3_def div_mult2_eq mult.assoc)
qed

lemma nth_dim3_index:
  assumes "d \<in> dim3_box b"
  shows "nth_dim3 b (dim3_index b d) = d"
proof -
  have d: "dim_x d < dim_x b" "dim_y d < dim_y b" "dim_z d < dim_z b" using assms by (simp_all add: dim3_box_def)
  have e: "dim3_index b d = dim_x d + dim_x b * (dim_y d + dim_y b * dim_z d)" by (simp add: dim3_index_def algebra_simps)
  have "dim3_index b d div dim_x b = dim_y d + dim_y b * dim_z d" "dim3_index b d mod dim_x b = dim_x d" using d by (simp_all add: e)
  then show ?thesis using d by (simp add: nth_dim3_def div_mult2_eq)
qed

lemma dim3_index_lt: "\<lbrakk>dim3_ok b; d \<in> dim3_box b\<rbrakk> \<Longrightarrow> dim3_index b d < dim3_volume b"
  using nth_dim3_in_box [of b "dim3_index b d"] by (simp add: nth_dim3_index)

lemma nth_dim3_bij: "dim3_ok b \<Longrightarrow> bij_betw (nth_dim3 b) {..<dim3_volume b} (dim3_box b)"
  by (rule bij_betw_byWitness [where f' = "dim3_index b"])
    (auto simp: index_nth_dim3 nth_dim3_index nth_dim3_in_box dim3_index_lt)

lemma enumerates:
  assumes "dim3_ok b" "f 0 = dim3_zero" "\<And>n. f (Suc n) = increment_x_then_y_then_z (f n) b"
  shows "f n = nth_dim3 b n"
  using assms by (induction n) (simp_all add: nth_dim3_0 increment_nth)

lemma increment_cta_id_fields [simp]:
  "k_next_cta (increment_cta_id k) = increment_x_then_y_then_z (k_next_cta k) (k_grid_dim k)"
  "k_next_tid (increment_cta_id k) = dim3_zero" "k_grid_dim (increment_cta_id k) = k_grid_dim k"
  "k_block_dim (increment_cta_id k) = k_block_dim k" "k_num_cores_running (increment_cta_id k) = k_num_cores_running k"
  by (simp_all add: increment_cta_id_def)

lemma increment_thread_id_fields [simp]:
  "k_next_tid (increment_thread_id k) = increment_x_then_y_then_z (k_next_tid k) (k_block_dim k)"
  "k_next_cta (increment_thread_id k) = k_next_cta k" "k_grid_dim (increment_thread_id k) = k_grid_dim k"
  "k_block_dim (increment_thread_id k) = k_block_dim k"
  by (simp_all add: increment_thread_id_def)

lemma kernel_info_new_fields [simp]:
  "k_next_cta (kernel_info_new g b) = dim3_zero" "k_next_tid (kernel_info_new g b) = dim3_zero"
  "k_grid_dim (kernel_info_new g b) = g" "k_block_dim (kernel_info_new g b) = b" "k_num_cores_running (kernel_info_new g b) = 0"
  by (simp_all add: kernel_info_new_def)

text \<open>The kernel after \<open>n\<close> blocks have been issued, and after \<open>m\<close> threads of the next one have been created.\<close>

definition issued :: "dim3 \<Rightarrow> dim3 \<Rightarrow> nat \<Rightarrow> nat \<Rightarrow> kernel_info_t" where
  "issued g b n m = (increment_thread_id ^^ m) ((increment_cta_id ^^ n) (kernel_info_new g b))"

lemma cta_dims [simp]:
  "k_grid_dim ((increment_cta_id ^^ n) k) = k_grid_dim k" "k_block_dim ((increment_cta_id ^^ n) k) = k_block_dim k"
  by (induction n) simp_all

lemma thread_dims [simp]:
  "k_grid_dim ((increment_thread_id ^^ m) k) = k_grid_dim k" "k_block_dim ((increment_thread_id ^^ m) k) = k_block_dim k"
  "k_next_cta ((increment_thread_id ^^ m) k) = k_next_cta k"
  by (induction m) simp_all

lemma issued_cta: "dim3_ok g \<Longrightarrow> k_next_cta (issued g b n m) = nth_dim3 g n"
  unfolding issued_def thread_dims by (rule enumerates) simp_all

lemma cta_tid: "k_next_tid ((increment_cta_id ^^ n) (kernel_info_new g b)) = dim3_zero"
  by (cases n) simp_all

lemma issued_tid: "dim3_ok b \<Longrightarrow> k_next_tid (issued g b n m) = nth_dim3 b m"
  unfolding issued_def by (rule enumerates) (simp_all add: cta_tid)

lemma no_more_iff: "no_more_ctas_to_run k \<longleftrightarrow> k_next_cta k \<notin> dim3_box (k_grid_dim k)"
  by (auto simp: no_more_ctas_to_run_def dim3_box_def)

lemma more_threads_iff: "more_threads_in_cta k \<longleftrightarrow> k_next_tid k \<in> dim3_box (k_block_dim k)"
  by (auto simp: more_threads_in_cta_def dim3_box_def)

lemma issued_dims [simp]: "k_grid_dim (issued g b n m) = g" "k_block_dim (issued g b n m) = b"
  by (simp_all add: issued_def)

text \<open>
  C35. A kernel issues every block of its grid exactly once and creates every thread of each block exactly once.
  Starting from the constructor, after \<open>n\<close> calls of \<^verbatim>\<open>increment_cta_id\<close> and \<open>m\<close> of
  \<^verbatim>\<open>increment_thread_id\<close> the next block is the \<open>n\<close>-th point of the grid and the next thread the \<open>m\<close>-th point of
  the block; \<^verbatim>\<open>no_more_ctas_to_run\<close> holds exactly from the grid's volume on, \<^verbatim>\<open>more_threads_in_cta\<close> exactly
  below the block's volume, the enumeration is a bijection onto the grid, and \<^verbatim>\<open>get_next_thread_id\<close> is \<open>m\<close>.
\<close>

theorem kernel_issues_every_block:
  assumes "dim3_ok g" "dim3_ok b" "dim3_volume b < 2 ^ 32"
  shows "k_next_cta (issued g b n m) = nth_dim3 g n \<and>
    (no_more_ctas_to_run (issued g b n m) \<longleftrightarrow> dim3_volume g \<le> n) \<and>
    bij_betw (\<lambda>n. k_next_cta (issued g b n m)) {..<dim3_volume g} (dim3_box g) \<and>
    bij_betw (\<lambda>m. k_next_tid (issued g b n m)) {..<dim3_volume b} (dim3_box b) \<and>
    (more_threads_in_cta (issued g b n m) \<longleftrightarrow> m < dim3_volume b) \<and>
    (m < dim3_volume b \<longrightarrow> get_next_thread_id (issued g b n m) = m)"
proof (intro conjI impI)
  assume m: "m < dim3_volume b"
  have "get_next_thread_id (issued g b n m) = dim3_index b (nth_dim3 b m) mod 2 ^ 32"
    by (simp add: get_next_thread_id_def issued_tid [OF assms(2)] dim3_index_def)
  then show "get_next_thread_id (issued g b n m) = m" using m assms by (simp add: index_nth_dim3)
qed (use assms in \<open>simp_all add: issued_cta issued_tid no_more_iff more_threads_iff nth_dim3_in_box not_less nth_dim3_bij\<close>)

theorem kernel_issues_every_block_witness:
  "(let g = \<lparr>dim_x = 2, dim_y = 3, dim_z = 1\<rparr>; b = \<lparr>dim_x = 4, dim_y = 2, dim_z = 1\<rparr> in
    k_next_cta (issued g b 3 5) = \<lparr>dim_x = 1, dim_y = 1, dim_z = 0\<rparr> \<and> no_more_ctas_to_run (issued g b 6 0) \<and>
    get_next_thread_id (issued g b 3 5) = 5)"
  using kernel_issues_every_block [of "\<lparr>dim_x = 2, dim_y = 3, dim_z = 1\<rparr>" "\<lparr>dim_x = 4, dim_y = 2, dim_z = 1\<rparr>" 3 5]
    kernel_issues_every_block [of "\<lparr>dim_x = 2, dim_y = 3, dim_z = 1\<rparr>" "\<lparr>dim_x = 4, dim_y = 2, dim_z = 1\<rparr>" 6 0]
  by (simp add: dim3_ok_def dim3_volume_def nth_dim3_def Let_def)

subsection \<open>The scoreboard tracks the outstanding writes\<close>

definition out_regs :: "warp_inst \<Rightarrow> nat set" where
  "out_regs i = set (filter (\<lambda>r. r > 0) (take 4 (wi_out i)))"

text \<open>A filled instruction of an existing warp whose destination registers are different.\<close>

definition inst_ok :: "nat \<Rightarrow> warp_inst \<Rightarrow> bool" where
  "inst_ok n i \<longleftrightarrow> \<not> wi_empty i \<and> wi_warp_id i < n \<and> distinct (filter (\<lambda>r. r > 0) (take 4 (wi_out i)))"

definition sb_shape :: "nat \<Rightarrow> Scoreboard \<Rightarrow> bool" where
  "sb_shape n s \<longleftrightarrow> length (sb_reg_table s) = n \<and> length (sb_longopregs s) = n"

lemma out_regs_inst_regs: "out_regs i \<subseteq> inst_regs i"
  by (auto simp: out_regs_def inst_regs_def)

lemma reserve_loop_eq:
  assumes "\<not> wi_empty i" "wi_warp_id i < length (sb_reg_table s)" "distinct (filter (\<lambda>r. r > 0) rs)"
    "set (filter (\<lambda>r. r > 0) rs) \<inter> sb_reg_table s ! wi_warp_id i = {}"
  shows "reserve_loop s i rs = Some (s\<lparr>sb_reg_table := (sb_reg_table s)[wi_warp_id i :=
    sb_reg_table s ! wi_warp_id i \<union> set (filter (\<lambda>r. r > 0) rs)]\<rparr>)"
  using assms
proof (induction rs arbitrary: s)
  case (Cons r rs)
  show ?case
  proof (cases "0 < r")
    case True
    let ?s = "s\<lparr>sb_reg_table := (sb_reg_table s)[wi_warp_id i := insert r (sb_reg_table s ! wi_warp_id i)]\<rparr>"
    have "reserveRegister s (wi_warp_id i) r = Some ?s" using Cons.prems True by (simp add: reserveRegister_def vec_at_def assert_that_def)
    moreover have "reserve_loop ?s i rs = Some (?s\<lparr>sb_reg_table := (sb_reg_table ?s)[wi_warp_id i :=
        sb_reg_table ?s ! wi_warp_id i \<union> set (filter (\<lambda>r. r > 0) rs)]\<rparr>)"
      using Cons.prems True by (intro Cons.IH) auto
    ultimately show ?thesis using True Cons.prems by (simp add: inst_warp_id_def assert_that_def)
  next
    case False
    then show ?thesis using Cons by simp
  qed
qed simp

lemma release_loop_eq:
  assumes "\<not> wi_empty i" "wi_warp_id i < length (sb_reg_table s)"
  shows "release_loop s i rs = Some (s\<lparr>sb_reg_table := (sb_reg_table s)[wi_warp_id i :=
    sb_reg_table s ! wi_warp_id i - set (filter (\<lambda>r. r > 0) rs)]\<rparr>)"
  using assms
proof (induction rs arbitrary: s)
  case (Cons r rs)
  show ?case
  proof (cases "0 < r")
    case True
    let ?s = "s\<lparr>sb_reg_table := (sb_reg_table s)[wi_warp_id i := sb_reg_table s ! wi_warp_id i - {r}]\<rparr>"
    have "releaseRegister s (wi_warp_id i) r = Some ?s" using Cons.prems True by (simp add: releaseRegister_def vec_at_def)
    moreover have "release_loop ?s i rs = Some (?s\<lparr>sb_reg_table := (sb_reg_table ?s)[wi_warp_id i :=
        sb_reg_table ?s ! wi_warp_id i - set (filter (\<lambda>r. r > 0) rs)]\<rparr>)"
      using Cons.prems by (intro Cons.IH) auto
    moreover have "sb_reg_table s ! wi_warp_id i - insert r (set (filter (\<lambda>r. r > 0) rs)) = sb_reg_table s ! wi_warp_id i - {r} - set (filter (\<lambda>r. r > 0) rs)"
      by auto
    ultimately show ?thesis using True Cons.prems by (simp add: inst_warp_id_def assert_that_def)
  next
    case False
    then show ?thesis using Cons by simp
  qed
qed simp

lemma longop_loop_table:
  assumes "\<not> wi_empty i" "wi_warp_id i < length (sb_longopregs s)"
  shows "\<exists>l. longop_loop s i r xs = Some (s\<lparr>sb_longopregs := l\<rparr>) \<and> length l = length (sb_longopregs s)"
  using assms
proof (induction xs arbitrary: s r)
  case Nil
  then show ?case by (intro exI [of _ "sb_longopregs s"]) simp
next
  case (Cons x xs)
  let ?s = "s\<lparr>sb_longopregs := (sb_longopregs s)[wi_warp_id i := insert r (sb_longopregs s ! wi_warp_id i)]\<rparr>"
  show ?case using Cons.IH [of s "Suc r"] Cons.IH [of ?s "Suc r"] Cons.prems
    by (cases "0 < x") (simp_all add: inst_warp_id_def vec_at_def assert_that_def)
qed

lemma reserveRegisters_eq:
  assumes "inst_ok n i" "sb_shape n s" "out_regs i \<inter> sb_reg_table s ! wi_warp_id i = {}"
  shows "\<exists>l. reserveRegisters s i = Some \<lparr>sb_reg_table = (sb_reg_table s)[wi_warp_id i := sb_reg_table s ! wi_warp_id i \<union> out_regs i],
    sb_longopregs = l\<rparr> \<and> length l = n"
proof -
  let ?t = "(sb_reg_table s)[wi_warp_id i := sb_reg_table s ! wi_warp_id i \<union> out_regs i]"
  have r: "reserve_loop s i (take 4 (wi_out i)) = Some (s\<lparr>sb_reg_table := ?t\<rparr>)"
    using reserve_loop_eq [of i s "take 4 (wi_out i)"] assms by (simp add: inst_ok_def sb_shape_def out_regs_def)
  obtain l where "longop_loop (s\<lparr>sb_reg_table := ?t\<rparr>) i 0 (take 4 (wi_out i)) = Some (s\<lparr>sb_reg_table := ?t, sb_longopregs := l\<rparr>)"
      "length l = length (sb_longopregs s)"
    using longop_loop_table [of i "s\<lparr>sb_reg_table := ?t\<rparr>" 0 "take 4 (wi_out i)"] assms by (auto simp: inst_ok_def sb_shape_def)
  then show ?thesis using assms(2) unfolding reserveRegisters_def r by (cases s) (auto simp: sb_shape_def)
qed

lemma releaseRegisters_eq:
  assumes "inst_ok n i" "sb_shape n s"
  shows "releaseRegisters s i = Some \<lparr>sb_reg_table = (sb_reg_table s)[wi_warp_id i := sb_reg_table s ! wi_warp_id i - out_regs i],
    sb_longopregs = (sb_longopregs s)[wi_warp_id i := {}]\<rparr>"
  using assms by (cases s) (simp add: releaseRegisters_def release_loop_eq inst_ok_def sb_shape_def out_regs_def inst_warp_id_def vec_at_def assert_that_def)

lemma checkCollision_eq: "\<lbrakk>sb_shape n s; w < n\<rbrakk> \<Longrightarrow> checkCollision s w i = Some (inst_regs i \<inter> sb_reg_table s ! w \<noteq> {})"
  by (auto simp: checkCollision_def vec_at_def sb_shape_def)

text \<open>
  The issue and write-back of instructions against one scoreboard: an instruction is issued when
  \<^verbatim>\<open>checkCollision\<close> answers no, and the outstanding ones, kept in issue order, write back in any order.
\<close>

inductive sb_reach :: "nat \<Rightarrow> Scoreboard \<Rightarrow> warp_inst list \<Rightarrow> bool" for n where
  start: "sb_reach n (Scoreboard_new n) []"
| issue: "\<lbrakk>sb_reach n s is; inst_ok n i; checkCollision s (wi_warp_id i) i = Some False; reserveRegisters s i = Some s'\<rbrakk> \<Longrightarrow>
    sb_reach n s' (is @ [i])"
| write_back: "\<lbrakk>sb_reach n s (is @ i # js); releaseRegisters s i = Some s'\<rbrakk> \<Longrightarrow> sb_reach n s' (is @ js)"

definition warp_outs :: "warp_inst list \<Rightarrow> nat \<Rightarrow> nat set" where
  "warp_outs is w = (\<Union>j \<in> {j \<in> set is. wi_warp_id j = w}. out_regs j)"

fun outs_disjoint :: "warp_inst list \<Rightarrow> bool" where
  "outs_disjoint [] \<longleftrightarrow> True"
| "outs_disjoint (i # is) \<longleftrightarrow> out_regs i \<inter> warp_outs is (wi_warp_id i) = {} \<and> outs_disjoint is"

definition sb_inv :: "nat \<Rightarrow> Scoreboard \<Rightarrow> warp_inst list \<Rightarrow> bool" where
  "sb_inv n s is \<longleftrightarrow> sb_shape n s \<and> (\<forall>i \<in> set is. inst_ok n i) \<and> outs_disjoint is \<and> (\<forall>w < n. sb_reg_table s ! w = warp_outs is w)"

lemma warp_outs_simps [simp]:
  "warp_outs [] w = {}"
  "warp_outs (i # is) w = (if wi_warp_id i = w then out_regs i else {}) \<union> warp_outs is w"
  "warp_outs (is @ js) w = warp_outs is w \<union> warp_outs js w"
  by (auto simp: warp_outs_def)

lemma outs_disjoint_append:
  "outs_disjoint (is @ js) \<longleftrightarrow> outs_disjoint is \<and> outs_disjoint js \<and> (\<forall>w. warp_outs is w \<inter> warp_outs js w = {})"
  by (induction "is") auto

lemma sb_inv_start: "sb_inv n (Scoreboard_new n) []"
  by (simp add: sb_inv_def sb_shape_def Scoreboard_new_def)

lemma sb_inv_issue:
  assumes inv: "sb_inv n s is" and i: "inst_ok n i" and no: "checkCollision s (wi_warp_id i) i = Some False"
  shows "\<exists>s'. reserveRegisters s i = Some s' \<and> sb_inv n s' (is @ [i])"
proof -
  have sh: "sb_shape n s" and w: "wi_warp_id i < n" using inv i by (simp_all add: sb_inv_def inst_ok_def)
  then have "inst_regs i \<inter> sb_reg_table s ! wi_warp_id i = {}" using no by (simp add: checkCollision_eq)
  then have d: "out_regs i \<inter> sb_reg_table s ! wi_warp_id i = {}" using out_regs_inst_regs [of i] by blast
  obtain l where r: "reserveRegisters s i = Some \<lparr>sb_reg_table = (sb_reg_table s)[wi_warp_id i := sb_reg_table s ! wi_warp_id i \<union> out_regs i],
      sb_longopregs = l\<rparr>" "length l = n" using reserveRegisters_eq [OF i sh d] by blast
  show ?thesis using inv i d r sh w
    by (auto simp: sb_inv_def outs_disjoint_append sb_shape_def nth_list_update)
qed

lemma sb_inv_write_back:
  assumes inv: "sb_inv n s (is @ i # js)"
  shows "\<exists>s'. releaseRegisters s i = Some s' \<and> sb_inv n s' (is @ js)"
proof -
  have i: "inst_ok n i" and sh: "sb_shape n s" using inv by (simp_all add: sb_inv_def)
  have d: "warp_outs is w \<inter> warp_outs (i # js) w = {}" "out_regs i \<inter> warp_outs js (wi_warp_id i) = {}" "outs_disjoint is" "outs_disjoint js" for w
    using inv unfolding sb_inv_def outs_disjoint_append by simp_all
  have dd: "warp_outs is w \<inter> warp_outs js w = {}" for w using d(1) [of w] by auto
  have o: "out_regs i \<inter> warp_outs is (wi_warp_id i) = {}" using d(1) [of "wi_warp_id i"] by auto
  have t: "sb_reg_table s ! w = warp_outs (is @ i # js) w" if "w < n" for w using inv that by (simp add: sb_inv_def)
  have "(sb_reg_table s)[wi_warp_id i := sb_reg_table s ! wi_warp_id i - out_regs i] ! w = warp_outs (is @ js) w" if "w < n" for w
    using t [OF that] d(2) o that sh by (cases "w = wi_warp_id i") (auto simp: sb_shape_def)
  then show ?thesis using inv sh d dd
    by (simp add: releaseRegisters_eq [OF i sh] sb_inv_def outs_disjoint_append sb_shape_def)
qed

lemma sb_reach_inv: "sb_reach n s is \<Longrightarrow> sb_inv n s is"
proof (induction rule: sb_reach.induct)
  case start
  then show ?case by (rule sb_inv_start)
next
  case (issue s "is" i s')
  then show ?case using sb_inv_issue [of n s "is" i] by auto
next
  case (write_back s "is" i js s')
  then show ?case using sb_inv_write_back [of n s "is" i js] by auto
qed

text \<open>
  C30. The scoreboard blocks exactly the hazards and never aborts.  Let the outstanding instructions be those that were issued
  after \<^verbatim>\<open>checkCollision\<close> answered no and have not written back, in any order of write-back.  Then
  \<^verbatim>\<open>checkCollision\<close> answers yes exactly when the instruction reads or writes a destination register of an outstanding
  instruction of its own warp, \<^verbatim>\<open>pendingWrites\<close> answers yes exactly when one of them has a destination, an instruction
  without collision is reserved without reaching the abort, and every outstanding instruction can be released.
\<close>

theorem scoreboard_tracks_hazards:
  assumes "sb_reach n s is" "w < n"
  shows "checkCollision s w i = Some (\<exists>j \<in> set is. wi_warp_id j = w \<and> inst_regs i \<inter> out_regs j \<noteq> {}) \<and>
    pendingWrites s w = Some (\<exists>j \<in> set is. wi_warp_id j = w \<and> out_regs j \<noteq> {}) \<and>
    (inst_ok n i \<and> wi_warp_id i = w \<and> checkCollision s w i = Some False \<longrightarrow> (\<exists>s'. reserveRegisters s i = Some s')) \<and>
    (\<forall>j \<in> set is. \<exists>s'. releaseRegisters s j = Some s')"
proof -
  have inv: "sb_inv n s is" using assms(1) by (rule sb_reach_inv)
  then have t: "sb_reg_table s ! w = warp_outs is w" and sh: "sb_shape n s" using assms(2) by (simp_all add: sb_inv_def)
  have "checkCollision s w i = Some (\<exists>j \<in> set is. wi_warp_id j = w \<and> inst_regs i \<inter> out_regs j \<noteq> {})"
    unfolding checkCollision_eq [OF sh assms(2)] t warp_outs_def by auto
  moreover have "pendingWrites s w = Some (\<exists>j \<in> set is. wi_warp_id j = w \<and> out_regs j \<noteq> {})"
    using sh assms(2) by (auto simp: pendingWrites_def vec_at_def sb_shape_def t warp_outs_def)
  moreover have "\<exists>s'. releaseRegisters s j = Some s'" if "j \<in> set is" for j
    using releaseRegisters_eq [OF _ sh] inv that by (auto simp: sb_inv_def)
  ultimately show ?thesis using sb_inv_issue [OF inv, of i] by blast
qed

definition example_inst :: warp_inst where
  "example_inst = \<lparr>wi_empty = False, wi_warp_id = 1, wi_op = LOAD_OP, wi_memory_op = memory_load, wi_space = global_sp,
     wi_out = [7, 9, 0, 0], wi_in = [3, 0, 0, 0], wi_pred = 0, wi_ar1 = 0, wi_ar2 = 0\<rparr>"

lemma example_reach: "\<exists>s. reserveRegisters (Scoreboard_new 2) example_inst = Some s \<and> sb_reach 2 s [example_inst]"
proof -
  have "inst_ok 2 example_inst" by (simp add: inst_ok_def example_inst_def)
  moreover have c: "checkCollision (Scoreboard_new 2) (wi_warp_id example_inst) example_inst = Some False"
    by (simp add: checkCollision_def vec_at_def Scoreboard_new_def example_inst_def)
  ultimately obtain s where "reserveRegisters (Scoreboard_new 2) example_inst = Some s"
    using sb_inv_issue [OF sb_inv_start] by blast
  then show ?thesis using sb_reach.issue [OF sb_reach.start \<open>inst_ok 2 example_inst\<close> c] by auto
qed

theorem scoreboard_tracks_hazards_witness:
  "\<exists>s. sb_reach 2 s [example_inst] \<and> checkCollision s 1 (example_inst\<lparr>wi_in := [9, 0, 0, 0], wi_out := [1, 0, 0, 0]\<rparr>) = Some True \<and>
     checkCollision s 0 (example_inst\<lparr>wi_in := [9, 0, 0, 0], wi_out := [1, 0, 0, 0]\<rparr>) = Some False"
proof -
  obtain s where s: "sb_reach 2 s [example_inst]" using example_reach by blast
  show ?thesis
    using s scoreboard_tracks_hazards [OF s, of 1 "example_inst\<lparr>wi_in := [9, 0, 0, 0], wi_out := [1, 0, 0, 0]\<rparr>"]
      scoreboard_tracks_hazards [OF s, of 0 "example_inst\<lparr>wi_in := [9, 0, 0, 0], wi_out := [1, 0, 0, 0]\<rparr>"]
    by (intro exI [of _ s]) (simp add: example_inst_def inst_regs_def out_regs_def)
qed

text \<open>
  The record of long operations holds operand positions instead of registers: after a load of registers 7 and 9 from
  global memory was reserved, \<^verbatim>\<open>islongop\<close> denies both registers and affirms register 1, which the load does not touch.
\<close>

theorem scoreboard_longop_wrong_register:
  "(case reserveRegisters (Scoreboard_new 2) example_inst of
      Some s \<Rightarrow> islongop s 1 7 = Some False \<and> islongop s 1 9 = Some False \<and> islongop s 1 1 = Some True
    | None \<Rightarrow> False)"
  by (simp add: reserveRegisters_def example_inst_def Scoreboard_new_def reserveRegister_def inst_warp_id_def vec_at_def
      assert_that_def is_load_def islongop_def)

subsection \<open>The delay queue is a FIFO with a fixed latency\<close>

fun somes :: "'a option list \<Rightarrow> 'a list" where
  "somes [] = []"
| "somes (None # xs) = somes xs"
| "somes (Some x # xs) = x # somes xs"

lemma somes_append [simp]: "somes (xs @ ys) = somes xs @ somes ys"
  by (induction xs rule: somes.induct) simp_all

lemma somes_butlast: "\<lbrakk>xs \<noteq> []; last xs = None\<rbrakk> \<Longrightarrow> somes (butlast xs) = somes xs"
  by (subst (2) append_butlast_last_id [symmetric]) (simp_all del: append_butlast_last_id)

definition fp_inv :: "nat \<Rightarrow> 'a fifo_pipeline \<Rightarrow> bool" where
  "fp_inv mx q \<longleftrightarrow> fp_max_len q = mx \<and> 0 < mx \<and> fp_length q = length (fp_nodes q) \<and> fp_length q \<le> mx \<and> fp_min_len q \<le> fp_length q"

lemma fp_push_eq:
  assumes "fp_length q = length (fp_nodes q)" "fp_length q < fp_max_len q"
  shows "\<exists>e. fp_push q d = Some (q\<lparr>fp_n_element := e,
      fp_nodes := (if fp_nodes q \<noteq> [] \<and> last (fp_nodes q) = None \<and> fp_min_len q \<le> fp_length q then butlast (fp_nodes q) else fp_nodes q) @ [d],
      fp_length := (if fp_nodes q \<noteq> [] \<and> last (fp_nodes q) = None \<and> fp_min_len q \<le> fp_length q then fp_length q else fp_length q + 1)\<rparr>)"
  using assms by (cases q) (auto simp: fp_push_def assert_that_def Option.is_none_def not_less Let_def)

lemma fp_push_full: "fp_push q d = Some q' \<Longrightarrow> fp_length q < fp_max_len q"
  by (cases "fp_length q < fp_max_len q") (simp_all add: fp_push_def assert_that_def)

lemma fp_push_inv:
  assumes "fp_inv mx q" "fp_length q < mx"
  shows "\<exists>q'. fp_push q (Some x) = Some q' \<and> fp_inv mx q' \<and> somes (fp_nodes q') = somes (fp_nodes q) @ [x] \<and>
    fp_nodes q' \<noteq> [] \<and> last (fp_nodes q') = Some x \<and> fp_min_len q' = fp_min_len q \<and>
    fp_length q' = (if fp_nodes q \<noteq> [] \<and> last (fp_nodes q) = None then fp_length q else fp_length q + 1) \<and>
    (\<forall>k y. k < length (fp_nodes q) \<and> fp_nodes q ! k = Some y \<longrightarrow> k < length (fp_nodes q') \<and> fp_nodes q' ! k = Some y)"
proof -
  obtain e where e: "fp_push q (Some x) = Some (q\<lparr>fp_n_element := e,
      fp_nodes := (if fp_nodes q \<noteq> [] \<and> last (fp_nodes q) = None then butlast (fp_nodes q) else fp_nodes q) @ [Some x],
      fp_length := (if fp_nodes q \<noteq> [] \<and> last (fp_nodes q) = None then fp_length q else fp_length q + 1)\<rparr>)"
    using fp_push_eq [of q "Some x"] assms by (auto simp: fp_inv_def)
  have "k < length (fp_nodes q) - 1" if "fp_nodes q \<noteq> []" "last (fp_nodes q) = None" "k < length (fp_nodes q)" "fp_nodes q ! k = Some y" for k y
    using that by (cases "k = length (fp_nodes q) - 1") (auto simp: last_conv_nth)
  then show ?thesis using assms by (auto simp: e fp_inv_def somes_butlast nth_append nth_butlast)
qed

lemma fp_pop_inv:
  assumes "fp_inv mx q"
  shows "\<exists>q'. fp_pop q = Some (fp_top q, q') \<and> fp_inv mx q' \<and> fp_min_len q' = fp_min_len q \<and>
    somes [fp_top q] @ somes (fp_nodes q') = somes (fp_nodes q) \<and>
    (\<forall>k y. Suc k < length (fp_nodes q) \<and> fp_nodes q ! Suc k = Some y \<longrightarrow> k < length (fp_nodes q') \<and> fp_nodes q' ! k = Some y)"
proof (cases "fp_nodes q")
  case Nil
  then show ?thesis using assms by (simp add: fp_pop_def fp_top_def)
next
  case (Cons d ds)
  let ?q = "q\<lparr>fp_nodes := ds, fp_length := fp_length q - 1, fp_n_element := fp_n_element q - 1\<rparr>"
  have len: "fp_length q = Suc (length ds)" "fp_max_len q = mx" "Suc (length ds) \<le> mx" "fp_min_len q \<le> Suc (length ds)"
    using assms Cons by (simp_all add: fp_inv_def)
  obtain e where e: "length ds < fp_min_len q \<Longrightarrow> fp_push ?q None =
      Some (q\<lparr>fp_nodes := ds @ [None], fp_length := Suc (length ds), fp_n_element := e\<rparr>)"
    using fp_push_eq [of ?q None] len by (cases q) auto
  have split: "somes (d # ds) = somes [d] @ somes ds" by (cases d) simp_all
  show ?thesis
    using len e assms Cons by (auto simp: fp_pop_def fp_top_def assert_that_def fp_inv_def split nth_append Let_def simp del: somes.simps(3))
qed

lemma fp_grow_inv:
  assumes "fp_length q = length (fp_nodes q)" "fp_max_len q = mx" "0 < mx" "fp_length q \<le> mx" "fp_min_len q \<le> mx" "fp_min_len q \<le> fp_length q + n"
  shows "\<exists>q' j. fp_grow_loop n q = Some q' \<and> fp_inv mx q' \<and> fp_min_len q' = fp_min_len q \<and> fp_nodes q' = fp_nodes q @ replicate j None"
  using assms
proof (induction n arbitrary: q)
  case 0
  then show ?case by (auto simp: fp_inv_def intro: exI [of _ 0])
next
  case (Suc n)
  show ?case
  proof (cases "fp_length q < fp_min_len q")
    case True
    obtain e where e: "fp_push q None = Some (q\<lparr>fp_n_element := e, fp_nodes := fp_nodes q @ [None], fp_length := fp_length q + 1\<rparr>)"
      using fp_push_eq [of q None] Suc.prems True by auto
    then have "fp_grow_loop (Suc n) q = fp_grow_loop n (q\<lparr>fp_n_element := e - 1, fp_nodes := fp_nodes q @ [None], fp_length := fp_length q + 1\<rparr>)"
      using True by (cases q) simp
    moreover obtain q' j where "fp_grow_loop n (q\<lparr>fp_n_element := e - 1, fp_nodes := fp_nodes q @ [None], fp_length := fp_length q + 1\<rparr>) = Some q'"
        "fp_inv mx q'" "fp_min_len q' = fp_min_len q" "fp_nodes q' = fp_nodes q @ replicate (Suc j) None"
      using Suc.IH [of "q\<lparr>fp_n_element := e - 1, fp_nodes := fp_nodes q @ [None], fp_length := fp_length q + 1\<rparr>"] Suc.prems True by auto
    ultimately show ?thesis by metis
  next
    case False
    then show ?thesis using Suc.prems by (auto simp: fp_inv_def intro: exI [of _ 0])
  qed
qed

lemma fp_shrink_inv:
  assumes "fp_inv mx q"
  shows "\<exists>q' j. fp_shrink_loop n q = Some q' \<and> fp_inv mx q' \<and> fp_min_len q' = fp_min_len q \<and> fp_nodes q = fp_nodes q' @ replicate j None"
  using assms
proof (induction n arbitrary: q)
  case 0
  then show ?case by (auto intro: exI [of _ 0])
next
  case (Suc n)
  let ?c = "fp_length q > fp_min_len q \<and> fp_nodes q \<noteq> [] \<and> Option.is_none (last (fp_nodes q))"
  show ?case
  proof (cases ?c)
    case True
    then have n: "fp_nodes q = butlast (fp_nodes q) @ [None]"
      using append_butlast_last_id [of "fp_nodes q"] by (simp add: Option.is_none_def)
    obtain q1 where q1: "fp_shrink_loop (Suc n) q = fp_shrink_loop n q1" "fp_nodes q1 = butlast (fp_nodes q)" "fp_inv mx q1"
        "fp_min_len q1 = fp_min_len q"
    proof (cases "length (fp_nodes q) = 1")
      case one: True
      then have "fp_nodes q = [None]" using n by (cases "fp_nodes q") auto
      then show ?thesis using that [of "q\<lparr>fp_nodes := [], fp_length := 0, fp_n_element := fp_n_element q - 1\<rparr>"] True Suc.prems one
        by (simp add: fp_pop_def fp_inv_def assert_that_def Let_def)
    next
      case False
      then show ?thesis
        by (intro that [of "q\<lparr>fp_nodes := butlast (fp_nodes q), fp_length := fp_length q - 1\<rparr>"]) (use True Suc.prems in \<open>auto simp: fp_inv_def\<close>)
    qed
    obtain q' j where "fp_shrink_loop n q1 = Some q'" "fp_inv mx q'" "fp_min_len q' = fp_min_len q1" "fp_nodes q1 = fp_nodes q' @ replicate j None"
      using Suc.IH [OF q1(3)] by auto
    then show ?thesis using q1 n by (metis append.assoc replicate_append_same replicate_Suc)
  next
    case False
    then show ?thesis using Suc.prems by (auto intro: exI [of _ 0])
  qed
qed

lemma fp_set_min_inv:
  assumes "fp_inv mx q" "m \<le> mx"
  shows "\<exists>q'. fp_set_min_length q m = Some q' \<and> fp_inv mx q' \<and> fp_min_len q' = m \<and> somes (fp_nodes q') = somes (fp_nodes q) \<and>
    (\<forall>k y. k < length (fp_nodes q) \<and> fp_nodes q ! k = Some y \<longrightarrow> k < length (fp_nodes q') \<and> fp_nodes q' ! k = Some y)"
proof -
  have none: "somes (replicate j None) = []" for j by (induction j) simp_all
  consider "m = fp_min_len q" | "m > fp_min_len q" | "m < fp_min_len q" by linarith
  then show ?thesis
  proof cases
    case 1
    then show ?thesis using assms by (simp add: fp_set_min_length_def)
  next
    case 2
    let ?q = "q\<lparr>fp_min_len := m\<rparr>"
    have "fp_length ?q = length (fp_nodes ?q)" "fp_max_len ?q = mx" "0 < mx" "fp_length ?q \<le> mx" "fp_min_len ?q \<le> mx" "fp_min_len ?q \<le> fp_length ?q + m"
      using assms by (simp_all add: fp_inv_def)
    from fp_grow_inv [OF this] obtain q' j where "fp_grow_loop m ?q = Some q'" "fp_inv mx q'" "fp_min_len q' = m" "fp_nodes q' = fp_nodes q @ replicate j None"
      by auto
    then show ?thesis using 2 by (simp add: fp_set_min_length_def none nth_append)
  next
    case 3
    have "fp_inv mx (q\<lparr>fp_min_len := m\<rparr>)" using assms 3 by (simp add: fp_inv_def)
    from fp_shrink_inv [OF this, of "fp_length q"]
    obtain q' j where q': "fp_shrink_loop (fp_length q) (q\<lparr>fp_min_len := m\<rparr>) = Some q'" "fp_inv mx q'" "fp_min_len q' = m"
        "fp_nodes q = fp_nodes q' @ replicate j None" by auto
    have "fp_nodes q \<noteq> []" using 3 assms by (auto simp: fp_inv_def)
    then have "fp_set_min_length q m = Some q'" using 3 q' by (simp add: fp_set_min_length_def assert_that_def)
    then show ?thesis using q' by (auto simp: none nth_append split: if_splits)
  qed
qed

lemma fp_push_nulls_inv:
  assumes "fp_length q = length (fp_nodes q)" "fp_max_len q = mx" "fp_length q + n = fp_min_len q" "fp_min_len q \<le> mx" "0 < mx"
  shows "\<exists>q'. fp_push_nulls n q = Some q' \<and> fp_inv mx q' \<and> fp_min_len q' = fp_min_len q \<and> fp_nodes q' = fp_nodes q @ replicate n None"
  using assms
proof (induction n arbitrary: q)
  case 0
  then show ?case by (simp add: fp_inv_def)
next
  case (Suc n)
  obtain e where e: "fp_push q None = Some (q\<lparr>fp_n_element := e, fp_nodes := fp_nodes q @ [None], fp_length := fp_length q + 1\<rparr>)"
    using fp_push_eq [of q None] Suc.prems by auto
  show ?case using Suc.IH [of "q\<lparr>fp_n_element := e, fp_nodes := fp_nodes q @ [None], fp_length := fp_length q + 1\<rparr>"] Suc.prems
    by (simp add: e)
qed

lemma fifo_pipeline_new_eq:
  assumes "mn \<le> mx" "0 < mx"
  shows "\<exists>q. fifo_pipeline_new mn mx = Some q \<and> fp_inv mx q \<and> fp_min_len q = mn \<and> fp_nodes q = replicate mn None"
  using fp_push_nulls_inv [of "\<lparr>fp_min_len = mn, fp_max_len = mx, fp_length = 0, fp_n_element = 0, fp_nodes = []\<rparr>" mx mn] assms
  by (simp add: fifo_pipeline_new_def assert_that_def)

text \<open>Sequences of calls; the outputs are the results of the calls of \<^verbatim>\<open>pop\<close>.\<close>

datatype 'a fp_op = FpPush 'a | FpPop | FpSetMin nat

fun fp_run :: "'a fifo_pipeline \<Rightarrow> 'a fp_op list \<Rightarrow> ('a option list \<times> 'a fifo_pipeline) option" where
  "fp_run q [] = Some ([], q)"
| "fp_run q (FpPush x # ops) = do { q \<leftarrow> fp_push q (Some x); fp_run q ops }"
| "fp_run q (FpPop # ops) = do { (d, q) \<leftarrow> fp_pop q; (ds, q) \<leftarrow> fp_run q ops; Some (d # ds, q) }"
| "fp_run q (FpSetMin m # ops) = do { q \<leftarrow> fp_set_min_length q m; fp_run q ops }"

fun fp_pushed :: "'a fp_op list \<Rightarrow> 'a list" where
  "fp_pushed [] = []"
| "fp_pushed (FpPush x # ops) = x # fp_pushed ops"
| "fp_pushed (_ # ops) = fp_pushed ops"

definition mins_ok :: "nat \<Rightarrow> 'a fp_op list \<Rightarrow> bool" where
  "mins_ok mx ops \<longleftrightarrow> (\<forall>m. FpSetMin m \<in> set ops \<longrightarrow> m \<le> mx)"

lemma mins_ok_Cons: "mins_ok mx (x # ops) \<Longrightarrow> mins_ok mx ops"
  by (simp add: mins_ok_def)

lemma fp_run_step:
  assumes "fp_run q (x # ops) = Some (outs, q'')" "fp_inv mx q" "mins_ok mx (x # ops)"
  obtains q' outs' where "fp_inv mx q'" "fp_run q' ops = Some (outs', q'')" "outs = (if x = FpPop then fp_top q # outs' else outs')"
    "somes (if x = FpPop then [fp_top q] else []) @ somes (fp_nodes q') = somes (fp_nodes q) @ (case x of FpPush y \<Rightarrow> [y] | _ \<Rightarrow> [])"
    "\<And>k y. \<lbrakk>k < length (fp_nodes q); fp_nodes q ! k = Some y\<rbrakk> \<Longrightarrow>
       (if x = FpPop then k = 0 \<or> k - 1 < length (fp_nodes q') \<and> fp_nodes q' ! (k - 1) = Some y
        else k < length (fp_nodes q') \<and> fp_nodes q' ! k = Some y)"
proof (cases x)
  case (FpPush y)
  then have "fp_length q < mx" using assms fp_push_full [of q "Some y"] by (auto simp: fp_inv_def bind_eq_Some_conv)
  from fp_push_inv [OF assms(2) this, of y] show ?thesis using that assms(1) FpPush by auto
next
  case FpPop
  obtain q1 where q1: "fp_pop q = Some (fp_top q, q1)" "fp_inv mx q1" "somes [fp_top q] @ somes (fp_nodes q1) = somes (fp_nodes q)"
    "\<And>k y. \<lbrakk>Suc k < length (fp_nodes q); fp_nodes q ! Suc k = Some y\<rbrakk> \<Longrightarrow> k < length (fp_nodes q1) \<and> fp_nodes q1 ! k = Some y"
    using fp_pop_inv [OF assms(2)] by auto
  obtain outs' where o: "fp_run q1 ops = Some (outs', q'')" "outs = fp_top q # outs'" using assms(1) FpPop q1(1) by (auto simp: bind_eq_Some_conv)
  show ?thesis
  proof (rule that [of q1 outs'])
    show "if x = FpPop then k = 0 \<or> k - 1 < length (fp_nodes q1) \<and> fp_nodes q1 ! (k - 1) = Some y
        else k < length (fp_nodes q1) \<and> fp_nodes q1 ! k = Some y" if "k < length (fp_nodes q)" "fp_nodes q ! k = Some y" for k y
      using q1(4) [of "k - 1" y] that FpPop by (cases k) simp_all
  qed (use q1 o FpPop in simp_all)
next
  case (FpSetMin m)
  then have "m \<le> mx" using assms(3) by (simp add: mins_ok_def)
  from fp_set_min_inv [OF assms(2) this] show ?thesis using that assms(1) FpSetMin by auto
qed

lemma fp_run_inv:
  "\<lbrakk>fp_run q ops = Some (outs, q'); fp_inv mx q; mins_ok mx ops\<rbrakk> \<Longrightarrow>
    fp_inv mx q' \<and> somes outs @ somes (fp_nodes q') = somes (fp_nodes q) @ fp_pushed ops"
proof (induction ops arbitrary: q outs)
  case (Cons x ops)
  obtain q1 outs' where q1: "fp_inv mx q1" "fp_run q1 ops = Some (outs', q')" "outs = (if x = FpPop then fp_top q # outs' else outs')"
      "somes (if x = FpPop then [fp_top q] else []) @ somes (fp_nodes q1) = somes (fp_nodes q) @ (case x of FpPush y \<Rightarrow> [y] | _ \<Rightarrow> [])"
    by (rule fp_run_step [OF Cons.prems])
  then have "fp_inv mx q'" and ih: "somes outs' @ somes (fp_nodes q') = somes (fp_nodes q1) @ fp_pushed ops"
    using Cons.IH [OF q1(2,1) mins_ok_Cons [OF Cons.prems(3)]] by simp_all
  have "somes outs = somes (if x = FpPop then [fp_top q] else []) @ somes outs'" using q1(3) by (cases "fp_top q") simp_all
  then have "somes outs @ somes (fp_nodes q') = (somes (if x = FpPop then [fp_top q] else []) @ somes (fp_nodes q1)) @ fp_pushed ops"
    using ih by simp
  also have "\<dots> = somes (fp_nodes q) @ fp_pushed (x # ops)" unfolding q1(4) by (cases x) simp_all
  finally show ?case using \<open>fp_inv mx q'\<close> by simp
qed simp

lemma fp_run_latency:
  "\<lbrakk>fp_run q ops = Some (outs, q'); fp_inv mx q; mins_ok mx ops; k < length (fp_nodes q); fp_nodes q ! k = Some y; k < length outs\<rbrakk> \<Longrightarrow>
    outs ! k = Some y"
proof (induction ops arbitrary: q outs k)
  case (Cons x ops)
  obtain q1 outs' where q1: "fp_inv mx q1" "fp_run q1 ops = Some (outs', q')" "outs = (if x = FpPop then fp_top q # outs' else outs')"
      "if x = FpPop then k = 0 \<or> k - 1 < length (fp_nodes q1) \<and> fp_nodes q1 ! (k - 1) = Some y
        else k < length (fp_nodes q1) \<and> fp_nodes q1 ! k = Some y"
    using fp_run_step [OF Cons.prems(1-3)] Cons.prems(4,5) by metis
  note IH = Cons.IH [OF q1(2,1) mins_ok_Cons [OF Cons.prems(3)]]
  show ?case
  proof (cases "x = FpPop \<and> k = 0")
    case True
    then show ?thesis using q1(3) Cons.prems(4,5) by (cases "fp_nodes q") (simp_all add: fp_top_def)
  next
    case False
    then show ?thesis using IH [of k] IH [of "k - 1"] q1(3,4) Cons.prems(6) by (cases k) (auto split: if_splits)
  qed
qed simp

text \<open>
  A delay queue delivers every element exactly once, in the order of the pushes, and with the latency of its length.  For
  every sequence of pushes, pops and changes of the minimum length from the constructor: the popped elements followed by the
  queued ones are the pushed ones; the length stays between the minimum and the maximum; a push is accepted exactly when the
  queue is not full and a pop never aborts; and an element pushed then leaves at the pop whose number is the queue's length
  after the push, whatever calls come between.
\<close>

theorem delay_queue_fifo:
  assumes "fifo_pipeline_new mn mx = Some q0" "mn \<le> mx" "fp_run q0 ops = Some (outs, q)" "mins_ok mx ops"
  shows "somes outs @ somes (fp_nodes q) = fp_pushed ops \<and> fp_min_len q \<le> fp_length q \<and> fp_length q \<le> mx \<and>
    ((\<exists>q'. fp_push q (Some x) = Some q') \<longleftrightarrow> \<not> fp_full q) \<and> (\<exists>q'. fp_pop q = Some (fp_top q, q')) \<and>
    (\<forall>q' ops' outs' q''. fp_push q (Some x) = Some q' \<and> fp_run q' ops' = Some (outs', q'') \<and> mins_ok mx ops' \<and> fp_length q' \<le> length outs' \<longrightarrow>
       outs' ! (fp_length q' - 1) = Some x)"
proof (intro conjI allI impI)
  have "0 < mx" using assms(1) by (cases "mx = 0") (simp_all add: fifo_pipeline_new_def assert_that_def)
  then have q0: "fp_inv mx q0" "fp_nodes q0 = replicate mn None" using fifo_pipeline_new_eq [where 'a = 'a, OF assms(2)] assms(1) by (metis option.inject)+
  have none: "somes (replicate j None) = []" for j by (induction j) simp_all
  have q: "fp_inv mx q" "somes outs @ somes (fp_nodes q) = fp_pushed ops"
    using fp_run_inv [OF assms(3) q0(1) assms(4)] q0(2) none by simp_all
  show "somes outs @ somes (fp_nodes q) = fp_pushed ops" by (rule q)
  show "fp_min_len q \<le> fp_length q" "fp_length q \<le> mx" using q(1) by (simp_all add: fp_inv_def)
  show "(\<exists>q'. fp_push q (Some x) = Some q') \<longleftrightarrow> \<not> fp_full q"
    using fp_push_inv [OF q(1), of x] q(1) fp_push_full [of q "Some x"] by (auto simp: fp_full_def fp_inv_def not_le)
  show "\<exists>q'. fp_pop q = Some (fp_top q, q')" using fp_pop_inv [OF q(1)] by blast
  fix q' ops' outs' q''
  assume a: "fp_push q (Some x) = Some q' \<and> fp_run q' ops' = Some (outs', q'') \<and> mins_ok mx ops' \<and> fp_length q' \<le> length outs'"
  then have "fp_length q < mx" using fp_push_full [of q "Some x"] q(1) by (auto simp: fp_inv_def)
  then have p: "fp_inv mx q'" "fp_nodes q' \<noteq> []" "last (fp_nodes q') = Some x" using fp_push_inv [OF q(1), of x] a by auto
  then have l: "fp_length q' = length (fp_nodes q')" by (simp add: fp_inv_def)
  have "fp_nodes q' ! (fp_length q' - 1) = Some x" using p l by (simp add: last_conv_nth)
  moreover have "fp_length q' - 1 < length (fp_nodes q')" "fp_length q' - 1 < length outs'" using l p(2) a by (cases "fp_nodes q'", auto)+
  ultimately show "outs' ! (fp_length q' - 1) = Some x"
    using fp_run_latency [of q' ops' outs' q'' mx "fp_length q' - 1" x] a p(1) by blast
qed

theorem delay_queue_fifo_witness:
  "(case fifo_pipeline_new 2 3 of Some q0 \<Rightarrow>
      (case fp_run q0 [FpPush (5 :: nat), FpPop, FpPush 6, FpPop] of
         Some (outs, q) \<Rightarrow> somes outs @ somes (fp_nodes q) = [5, 6] \<and> fp_length q \<le> 3
       | None \<Rightarrow> False)
    | None \<Rightarrow> False)"
proof -
  obtain q0 :: "nat fifo_pipeline" where q0: "fifo_pipeline_new 2 3 = Some q0"
    using fifo_pipeline_new_eq [of 2 3] by auto
  have "(case fifo_pipeline_new 2 3 of Some q0 \<Rightarrow> fp_run q0 [FpPush (5 :: nat), FpPop, FpPush 6, FpPop] \<noteq> None | None \<Rightarrow> False)"
    by code_simp
  then obtain outs q where r: "fp_run q0 [FpPush (5 :: nat), FpPop, FpPush 6, FpPop] = Some (outs, q)" using q0 by auto
  show ?thesis using delay_queue_fifo [OF q0 _ r, of 7] unfolding q0 option.case r prod.case by (simp add: mins_ok_def)
qed

text \<open>
  The element counter of a delay queue with a minimum length is wrong and can wrap: the constructor counts the empty nodes
  it inserts, so a new queue of minimum length 1 claims one element, and after two pops of the empty queue the unsigned
  counter is \<open>2\<^sup>3\<^sup>2 - 1\<close>.
\<close>

theorem delay_queue_counter_wraps:
  "(case fifo_pipeline_new 1 2 of Some q0 \<Rightarrow>
      fp_n_element q0 = 1 \<and> fp_top q0 = None \<and>
      (case fp_run q0 [FpPop, FpPop] of Some (outs, q) \<Rightarrow> outs = [None, None :: nat option] \<and> fp_n_element q = - 1 | None \<Rightarrow> False)
    | None \<Rightarrow> False)"
  by code_simp

subsection \<open>Pipeline registers\<close>

lemma get_free_loop_Some: "get_free_loop regs i = Some k \<Longrightarrow> i \<le> k \<and> k < i + length regs \<and> regs ! (k - i) = None"
  by (induction regs i rule: get_free_loop.induct) (auto simp: nth_Cons' Suc_diff_Suc)

lemma get_free_loop_None: "get_free_loop regs i = None \<longleftrightarrow> None \<notin> set regs"
  by (induction regs i rule: get_free_loop.induct) auto

lemma get_ready_loop_oldest:
  assumes "get_ready_loop regs i ready = Some (k, w)"
    "\<And>j v. ready = Some (j, v) \<Longrightarrow> j < i"
  shows "(ready = Some (k, w) \<or> i \<le> k \<and> k < i + length regs \<and> regs ! (k - i) = Some w) \<and>
    (\<forall>v. Some v \<in> set regs \<or> (\<exists>j. ready = Some (j, v)) \<longrightarrow> ri_uid w \<le> ri_uid v)"
  using assms
proof (induction regs i ready rule: get_ready_loop.induct)
  case (2 rs i ready)
  have "\<And>j v. ready = Some (j, v) \<Longrightarrow> j < Suc i" using 2(3) less_Suc_eq by blast
  then show ?case using 2 by (auto simp: nth_Cons' Suc_diff_Suc)
next
  case (3 v rs i ready)
  show ?case
  proof (cases ready)
    case None
    then show ?thesis using 3 by (auto simp: nth_Cons' Suc_diff_Suc)
  next
    case (Some p)
    then obtain j u where p: "ready = Some (j, u)" by (cases p) simp
    then have "j < Suc i" using 3(5) by fastforce
    show ?thesis
    proof (cases "ri_uid u < ri_uid v")
      case True
      then have "(ready = Some (k, w) \<or> Suc i \<le> k \<and> k < Suc i + length rs \<and> rs ! (k - Suc i) = Some w) \<and>
          (\<forall>v. Some v \<in> set rs \<or> (\<exists>j. ready = Some (j, v)) \<longrightarrow> ri_uid w \<le> ri_uid v)"
        using 3(2) [OF p refl True] 3(4) p \<open>j < Suc i\<close> by simp
      then show ?thesis using True p by (auto simp: nth_Cons' Suc_diff_Suc)
    next
      case False
      then have "(Some (i, v) = Some (k, w) \<or> Suc i \<le> k \<and> k < Suc i + length rs \<and> rs ! (k - Suc i) = Some w) \<and>
          (\<forall>x. Some x \<in> set rs \<or> (\<exists>j. Some (i, v) = Some (j, x)) \<longrightarrow> ri_uid w \<le> ri_uid x)"
        using 3(3) [OF p refl False] 3(4) p by simp
      then show ?thesis using False p by (auto simp: nth_Cons' Suc_diff_Suc)
    qed
  qed
qed auto

lemma get_ready_loop_None: "get_ready_loop regs i ready = None \<longleftrightarrow> ready = None \<and> (\<forall>v. Some v \<notin> set regs)"
  by (induction regs i ready rule: get_ready_loop.induct) (auto split: option.splits prod.splits)

lemma somes_fill: "\<lbrakk>k < length regs; regs ! k = None\<rbrakk> \<Longrightarrow> mset (somes (regs[k := Some w])) = add_mset w (mset (somes regs))"
  by (subst (2) id_take_nth_drop [of k regs], assumption) (simp add: upd_conv_take_nth_drop)

lemma set_somes: "v \<in> set (somes regs) \<longleftrightarrow> Some v \<in> set regs"
  by (induction regs rule: somes.induct) auto

lemma has_free_iff: "has_free regs \<longleftrightarrow> None \<in> set regs"
  by (auto simp: has_free_def split: option.splits)

lemma has_ready_iff: "has_ready regs \<longleftrightarrow> (\<exists>v. Some v \<in> set regs)"
  by (auto simp: has_ready_def split: option.splits)

lemma nth_mem_eq: "\<lbrakk>xs ! k = x; k < length xs\<rbrakk> \<Longrightarrow> x \<in> set xs"
  by auto

text \<open>
  A register set moves instructions without losing one, the oldest first: \<^verbatim>\<open>move_in\<close> succeeds exactly when
  \<^verbatim>\<open>has_free\<close> holds and adds the instruction, and \<^verbatim>\<open>move_out_to\<close> into an empty destination succeeds exactly
  when \<^verbatim>\<open>has_ready\<close> holds and removes an instruction with the least unique number.
\<close>

theorem register_set_moves:
  "(case move_in regs src of Some regs' \<Rightarrow> has_free regs \<and> has_ready regs' \<and> mset (somes regs') = add_mset src (mset (somes regs))
    | None \<Rightarrow> \<not> has_free regs) \<and>
   (case move_out_to regs None of
      Some (w, regs') \<Rightarrow> has_ready regs \<and> has_free regs' \<and> mset (somes regs) = add_mset w (mset (somes regs')) \<and>
        (\<forall>v \<in> set (somes regs). ri_uid w \<le> ri_uid v)
    | None \<Rightarrow> \<not> has_ready regs)"
proof (rule conjI, goal_cases)
  case 1
  show ?case
  proof (cases "get_free_loop regs 0")
    case None
    then have "\<not> has_free regs" by (simp add: has_free_iff get_free_loop_None)
    then show ?thesis using None by (simp add: move_in_def)
  next
    case (Some k)
    then have "k < length regs" "regs ! k = None" using get_free_loop_Some [OF Some] by simp_all
    then show ?thesis using Some has_free_iff [of regs] has_ready_iff [of "regs[k := Some src]"]
      by (auto simp: move_in_def somes_fill intro: nth_mem_eq set_update_memI)
  qed
next
  case 2
  show ?case
  proof (cases "get_ready_loop regs 0 None")
    case None
    then have "\<not> has_ready regs" by (simp add: has_ready_iff get_ready_loop_None)
    then show ?thesis using None by (simp add: move_out_to_def)
  next
    case (Some p)
    then obtain k w where p: "get_ready_loop regs 0 None = Some (k, w)" by (cases p) simp
    have k: "k < length regs" "regs ! k = Some w" "\<And>v. Some v \<in> set regs \<Longrightarrow> ri_uid w \<le> ri_uid v"
      using get_ready_loop_oldest [OF p] by simp_all
    have "mset (somes regs) = add_mset w (mset (somes (regs[k := None])))"
      using somes_fill [of k "regs[k := None]" w] k list_update_id [of regs k] by simp
    then show ?thesis using k has_ready_iff [of regs] has_free_iff [of "regs[k := None]"]
      by (auto simp: move_out_to_def p assert_that_def set_somes intro: nth_mem_eq set_update_memI)
  qed
qed

theorem register_set_moves_witness:
  "(case move_out_to [None, Some \<lparr>ri_uid = 4, ri_inst = True\<rparr>, Some \<lparr>ri_uid = 2, ri_inst = False\<rparr>] None of
      Some (w, regs') \<Rightarrow> ri_uid w \<le> 2 \<and> has_free regs' | None \<Rightarrow> False)"
  using register_set_moves [of "[None, Some \<lparr>ri_uid = 4, ri_inst = True\<rparr>, Some \<lparr>ri_uid = 2, ri_inst = False\<rparr>]" "\<lparr>ri_uid = 5, ri_inst = True\<rparr>"]
  by (auto simp: has_ready_def split: option.splits)

end
