(* ===== verification/GpuMemory_Model.thy ===== *)
theory GpuMemory_Model
  imports Ruby_Prelude
begin

text \<open>
  The functional memory of GPGPU-Sim: \<^verbatim>\<open>memory_space_impl\<close> of \<^verbatim>\<open>cuda-sim/memory.h\<close> and
  \<^verbatim>\<open>cuda-sim/memory.cc\<close>, and the device-memory calls of \<^verbatim>\<open>cuda-sim/cuda-sim.cc\<close>.  Addresses are 32-bit
  unsigned numbers: natural numbers below \<open>2 ^ 32\<close>, with every wrap-around of the code written out.  A length of type
  \<^verbatim>\<open>size_t\<close> is a natural number.  The instantiations of the template have block sizes 32, 64, 8192 and 16384; the model
  takes any power of two.  A watchpoint hit is the list of watchpoint numbers that a write reports.

  Main results: the paged memory refines a flat map from addresses to bytes, on the fast route inside a block and on the slow route
  across blocks; what is written is read back; and the last block of the address space can be written but never read.
\<close>

unbundle bit_operations_syntax

type_synonym byte = "8 word"
type_synonym mem_addr_t = nat

abbreviation U32 :: nat where "U32 \<equiv> 2 ^ 32"

record mem_space =
  ms_BSIZE :: nat
  ms_log2_block_size :: nat
  ms_data :: "mem_addr_t \<rightharpoonup> byte list"
  ms_watchpoints :: "(nat \<times> mem_addr_t) list"

text \<open>The loop of the constructor over the 32 bits of the block size; \<open>None\<close> in the accumulator is \<^verbatim>\<open>(unsigned)-1\<close>.\<close>

fun log2_scan :: "nat \<Rightarrow> nat \<Rightarrow> nat \<Rightarrow> nat option \<Rightarrow> nat option option" where
  "log2_scan bs n 0 acc = Some acc"
| "log2_scan bs n (Suc m) acc =
     (if bit bs n then do { assert_that (acc = None); log2_scan bs (Suc n) m (Some n) }
      else log2_scan bs (Suc n) m acc)"

definition mem_space_new :: "nat \<Rightarrow> mem_space option" where
  "mem_space_new bs = do {
     l \<leftarrow> log2_scan bs 0 32 None;
     k \<leftarrow> l;
     Some \<lparr>ms_BSIZE = bs, ms_log2_block_size = k, ms_data = Map.empty, ms_watchpoints = []\<rparr>
   }"

definition storage_write :: "nat \<Rightarrow> byte list \<Rightarrow> nat \<Rightarrow> byte list \<Rightarrow> byte list option" where
  "storage_write bs blk offset data = do {
     assert_that (offset + length data \<le> bs);
     Some (take offset blk @ data @ drop (offset + length data) blk)
   }"

definition storage_read :: "nat \<Rightarrow> byte list \<Rightarrow> nat \<Rightarrow> nat \<Rightarrow> byte list option" where
  "storage_read bs blk offset len = do {
     assert_that (offset + len \<le> bs);
     Some (take len (drop offset blk))
   }"

text \<open>\<^verbatim>\<open>m_data[index]\<close> creates a zeroed block when there is none.\<close>

definition get_block :: "mem_space \<Rightarrow> mem_addr_t \<Rightarrow> byte list" where
  "get_block m index = (case ms_data m index of None \<Rightarrow> replicate (ms_BSIZE m) 0 | Some b \<Rightarrow> b)"

definition block_write :: "mem_space \<Rightarrow> mem_addr_t \<Rightarrow> nat \<Rightarrow> byte list \<Rightarrow> mem_space option" where
  "block_write m index offset data = do {
     b \<leftarrow> storage_write (ms_BSIZE m) (get_block m index) offset data;
     Some (m\<lparr>ms_data := (ms_data m)(index \<mapsto> b)\<rparr>)
   }"

text \<open>The limit \<^verbatim>\<open>(index+1)*BSIZE\<close> is computed in 32 bits.\<close>

definition block_limit :: "mem_space \<Rightarrow> mem_addr_t \<Rightarrow> nat" where
  "block_limit m index = (index + 1) mod U32 * ms_BSIZE m mod U32"

text \<open>Bytes of a transfer that lie in the block of the current address.\<close>

definition tx_bytes :: "mem_space \<Rightarrow> mem_addr_t \<Rightarrow> nat \<Rightarrow> nat" where
  "tx_bytes m current_addr nbytes_remain =
     (let offset = current_addr AND (ms_BSIZE m - 1);
          access_limit = (offset + nbytes_remain) mod U32;
          access_limit = (if access_limit > ms_BSIZE m then ms_BSIZE m else access_limit)
      in (access_limit + U32 - offset) mod U32)"

text \<open>The loop across blocks; \<open>fuel\<close> bounds the rounds, and one round per byte is always enough.\<close>

fun write_loop :: "nat \<Rightarrow> mem_space \<Rightarrow> mem_addr_t \<Rightarrow> byte list \<Rightarrow> mem_space option" where
  "write_loop fuel m current_addr [] = Some m"
| "write_loop 0 m current_addr (x # xs) = None"
| "write_loop (Suc fuel) m current_addr (x # xs) = do {
     let offset = current_addr AND (ms_BSIZE m - 1);
     let page = drop_bit (ms_log2_block_size m) current_addr;
     let tx = tx_bytes m current_addr (length (x # xs));
     m \<leftarrow> block_write m page offset (take tx (x # xs));
     write_loop fuel m ((current_addr + tx) mod U32) (drop tx (x # xs))
   }"

definition hit_watchpoints :: "mem_space \<Rightarrow> mem_addr_t \<Rightarrow> nat \<Rightarrow> nat list" where
  "hit_watchpoints m addr len = map fst (filter (\<lambda>(_, wa).
     (addr \<le> wa \<and> addr + len > wa) \<or> (addr > wa \<and> addr < (wa + 4) mod U32)) (ms_watchpoints m))"

definition ms_write :: "mem_space \<Rightarrow> mem_addr_t \<Rightarrow> byte list \<Rightarrow> (nat list \<times> mem_space) option" where
  "ms_write m addr data = do {
     let len = length data;
     let index = drop_bit (ms_log2_block_size m) addr;
     m \<leftarrow> (if addr + len \<le> block_limit m index
           then block_write m index (addr AND (ms_BSIZE m - 1)) data
           else write_loop len m addr (take (len mod U32) data));
     Some (hit_watchpoints m addr len, m)
   }"

definition read_single_block :: "mem_space \<Rightarrow> mem_addr_t \<Rightarrow> mem_addr_t \<Rightarrow> nat \<Rightarrow> byte list option" where
  "read_single_block m blk_idx addr len = do {
     assert_that (\<not> (addr + len > block_limit m blk_idx));
     (case ms_data m blk_idx of
        None \<Rightarrow> Some (replicate len 0)
      | Some b \<Rightarrow> storage_read (ms_BSIZE m) b (addr AND (ms_BSIZE m - 1)) len)
   }"

fun read_loop :: "nat \<Rightarrow> mem_space \<Rightarrow> mem_addr_t \<Rightarrow> nat \<Rightarrow> byte list option" where
  "read_loop fuel m current_addr 0 = Some []"
| "read_loop 0 m current_addr (Suc n) = None"
| "read_loop (Suc fuel) m current_addr (Suc n) = do {
     let page = drop_bit (ms_log2_block_size m) current_addr;
     let tx = tx_bytes m current_addr (Suc n);
     xs \<leftarrow> read_single_block m page current_addr tx;
     ys \<leftarrow> read_loop fuel m ((current_addr + tx) mod U32) (Suc n - tx);
     Some (xs @ ys)
   }"

definition ms_read :: "mem_space \<Rightarrow> mem_addr_t \<Rightarrow> nat \<Rightarrow> byte list option" where
  "ms_read m addr len = do {
     let index = drop_bit (ms_log2_block_size m) addr;
     (if addr + len \<le> block_limit m index then read_single_block m index addr len
      else read_loop len m addr (len mod U32))
   }"

text \<open>\<^verbatim>\<open>std::map\<close> keeps the watchpoints sorted by number.\<close>

fun watch_put :: "nat \<Rightarrow> mem_addr_t \<Rightarrow> (nat \<times> mem_addr_t) list \<Rightarrow> (nat \<times> mem_addr_t) list" where
  "watch_put k v [] = [(k, v)]"
| "watch_put k v ((k', v') # ws) =
     (if k < k' then (k, v) # (k', v') # ws else if k = k' then (k, v) # ws else (k', v') # watch_put k v ws)"

definition set_watch :: "mem_space \<Rightarrow> mem_addr_t \<Rightarrow> nat \<Rightarrow> mem_space" where
  "set_watch m addr watchpoint = m\<lparr>ms_watchpoints := watch_put watchpoint addr (ms_watchpoints m)\<rparr>"

subsection \<open>The memory as a map of bytes\<close>

definition byte_at :: "mem_space \<Rightarrow> mem_addr_t \<Rightarrow> byte" where
  "byte_at m a = get_block m (a div ms_BSIZE m) ! (a mod ms_BSIZE m)"

definition ms_inv :: "mem_space \<Rightarrow> bool" where
  "ms_inv m \<longleftrightarrow> ms_BSIZE m = 2 ^ ms_log2_block_size m \<and> ms_log2_block_size m < 32 \<and>
     (\<forall>b \<in> ran (ms_data m). length b = ms_BSIZE m)"

lemma log2_scan_above: "\<lbrakk>\<forall>i. n \<le> i \<and> i < n + m \<longrightarrow> \<not> bit bs i\<rbrakk> \<Longrightarrow> log2_scan bs n m acc = Some acc"
  by (induction m arbitrary: n) auto

lemma log2_scan_power:
  assumes "n \<le> k" "k < n + m"
  shows "log2_scan (2 ^ k) n m None = Some (Some k)"
  using assms
proof (induction m arbitrary: n)
  case (Suc m)
  show ?case
  proof (cases "n = k")
    case True
    have "log2_scan (2 ^ k) (Suc n) m (Some n) = Some (Some n)"
      by (rule log2_scan_above) (use True in \<open>auto simp: bit_exp_iff\<close>)
    then show ?thesis using True by (simp add: bit_exp_iff)
  next
    case False
    then show ?thesis using Suc by (simp add: bit_exp_iff)
  qed
qed simp

lemma mem_space_new_ok: "k < 32 \<Longrightarrow> \<exists>m. mem_space_new (2 ^ k) = Some m \<and> ms_inv m \<and> byte_at m = (\<lambda>_. 0)"
  using log2_scan_power [of 0 k 32] by (auto simp: mem_space_new_def ms_inv_def byte_at_def get_block_def fun_eq_iff)

lemma ms_invD:
  assumes "ms_inv m"
  shows "0 < ms_BSIZE m" "ms_BSIZE m \<le> 2 ^ 31" "length (get_block m i) = ms_BSIZE m"
    "a AND (ms_BSIZE m - 1) = a mod ms_BSIZE m" "drop_bit (ms_log2_block_size m) a = a div ms_BSIZE m" "ms_BSIZE m dvd U32"
proof -
  have k: "ms_BSIZE m = 2 ^ ms_log2_block_size m" "ms_log2_block_size m < 32" using assms by (auto simp: ms_inv_def)
  show "0 < ms_BSIZE m" using k by simp
  show "ms_BSIZE m \<le> 2 ^ 31" unfolding k(1) using k(2) by (intro power_increasing) auto
  show "length (get_block m i) = ms_BSIZE m" using assms by (auto simp: get_block_def ms_inv_def ran_def split: option.split)
  have "ms_BSIZE m - 1 = mask (ms_log2_block_size m)" using k(1) by (simp add: mask_eq_exp_minus_1)
  then show "a AND (ms_BSIZE m - 1) = a mod ms_BSIZE m" using k(1) by (simp add: take_bit_eq_mask flip: take_bit_eq_mod)
  show "drop_bit (ms_log2_block_size m) a = a div ms_BSIZE m" using k(1) by (simp add: drop_bit_eq_div)
  show "ms_BSIZE m dvd U32" unfolding k(1) using k(2) by (intro le_imp_power_dvd) simp
qed

lemma tx_bytes_eq:
  assumes i: "ms_inv m" and n: "n \<le> 2 ^ 31"
  shows "tx_bytes m a n = min n (ms_BSIZE m - a mod ms_BSIZE m)"
proof -
  let ?B = "ms_BSIZE m"
  have o: "a mod ?B < ?B" "?B \<le> 2 ^ 31" using ms_invD(1,2) [OF i] by auto
  then have w: "a mod ?B + n < U32" using n by simp
  have "(?B + U32 - a mod ?B) mod U32 = (?B - a mod ?B + U32) mod U32" using o by simp
  also have "\<dots> = ?B - a mod ?B" using o by (simp only: mod_add_self2) simp
  finally show ?thesis unfolding tx_bytes_def Let_def ms_invD(4) [OF i] using o w by (auto simp: min_def)
qed

lemma block_write_law:
  assumes i: "ms_inv m" and len: "a mod ms_BSIZE m + length xs \<le> ms_BSIZE m"
  obtains m' where "block_write m (a div ms_BSIZE m) (a mod ms_BSIZE m) xs = Some m'" "ms_inv m'"
    "ms_BSIZE m' = ms_BSIZE m" "ms_watchpoints m' = ms_watchpoints m"
    "\<forall>b. byte_at m' b = (if a \<le> b \<and> b < a + length xs then xs ! (b - a) else byte_at m b)"
proof -
  let ?B = "ms_BSIZE m" and ?blk = "get_block m (a div ms_BSIZE m)" and ?o = "a mod ms_BSIZE m"
  let ?new = "take ?o ?blk @ xs @ drop (?o + length xs) ?blk"
  let ?m = "m\<lparr>ms_data := (ms_data m)(a div ?B \<mapsto> ?new)\<rparr>"
  have B: "0 < ?B" "length ?blk = ?B" using ms_invD(1,3) [OF i] by auto
  have new: "length ?new = ?B" using B len by simp
  have w: "block_write m (a div ?B) ?o xs = Some ?m" using len by (simp add: block_write_def storage_write_def)
  have inv: "ms_inv ?m" using i new by (auto simp: ms_inv_def ran_def split: if_splits)
  have "byte_at ?m b = (if a \<le> b \<and> b < a + length xs then xs ! (b - a) else byte_at m b)" for b
  proof (cases "b div ?B = a div ?B")
    case True
    define q where "q = a div ?B * ?B"
    have q: "b = q + b mod ?B" "a = q + ?o" using div_mult_mod_eq [of b ?B] True by (simp_all add: q_def)
    have eq: "a \<le> b \<longleftrightarrow> ?o \<le> b mod ?B" "b < a + length xs \<longleftrightarrow> b mod ?B < ?o + length xs" "b - a = b mod ?B - ?o"
      using q by linarith+
    have "byte_at ?m b = ?new ! (b mod ?B)" using True by (simp add: byte_at_def get_block_def)
    also have "\<dots> = (if ?o \<le> b mod ?B \<and> b mod ?B < ?o + length xs then xs ! (b mod ?B - ?o) else ?blk ! (b mod ?B))"
      using B len by (auto simp: nth_append min_def)
    finally show ?thesis using eq True by (auto simp: byte_at_def)
  next
    case False
    have "\<not> (a \<le> b \<and> b < a + length xs)"
    proof
      assume ab: "a \<le> b \<and> b < a + length xs"
      then have "b < a div ?B * ?B + ?B" using len div_mult_mod_eq [of a ?B] by linarith
      moreover have "a div ?B * ?B \<le> b" using ab div_mult_mod_eq [of a ?B] by linarith
      ultimately have "b div ?B = a div ?B" by (simp add: div_nat_eqI mult.commute)
      then show False using False by simp
    qed
    moreover have "byte_at ?m b = byte_at m b" using False by (simp add: byte_at_def get_block_def split: option.split)
    ultimately show ?thesis by (simp only: if_False)
  qed
  then show thesis using that [OF w inv] by simp
qed

text \<open>Writing, seen as an update of bytes.\<close>

definition writes :: "mem_space \<Rightarrow> mem_addr_t \<Rightarrow> byte list \<Rightarrow> mem_space \<Rightarrow> bool" where
  "writes m a xs m' \<longleftrightarrow> ms_inv m' \<and> ms_BSIZE m' = ms_BSIZE m \<and> ms_watchpoints m' = ms_watchpoints m \<and>
     (\<forall>b. byte_at m' b = (if a \<le> b \<and> b < a + length xs then xs ! (b - a) else byte_at m b))"

lemma ms_inv_log2: "\<lbrakk>ms_inv m; ms_inv m'; ms_BSIZE m' = ms_BSIZE m\<rbrakk> \<Longrightarrow> ms_log2_block_size m' = ms_log2_block_size m"
  by (simp add: ms_inv_def)

lemma writes_trans:
  assumes "writes m a (take n xs) m1" "writes m1 (a + n) (drop n xs) m2" "n \<le> length xs"
  shows "writes m a xs m2"
  using assms by (auto simp: writes_def nth_append min_def not_less)

lemma writes_nil: "ms_inv m \<Longrightarrow> writes m a [] m"
  by (auto simp: writes_def)

lemma write_loop_law:
  assumes "ms_inv m" "a + length xs \<le> U32" "length xs \<le> 2 ^ 31" "length xs \<le> fuel"
  shows "\<exists>m'. write_loop fuel m a xs = Some m' \<and> writes m a xs m'"
  using assms
proof (induction fuel arbitrary: m a xs)
  case 0
  then show ?case by (simp add: writes_nil)
next
  case (Suc fuel)
  show ?case
  proof (cases xs)
    case Nil
    then show ?thesis using Suc.prems(1) by (simp add: writes_nil)
  next
    case (Cons x ys)
    let ?B = "ms_BSIZE m"
    note i = Suc.prems(1)
    define tx where "tx = min (length xs) (?B - a mod ?B)"
    have tx: "tx_bytes m a (length xs) = tx" "tx \<le> length xs" "0 < tx" "a mod ?B + length (take tx xs) \<le> ?B"
      using tx_bytes_eq [OF i Suc.prems(3)] Cons ms_invD(1) [OF i] by (auto simp: tx_def min_def)
    obtain m1 where m1: "block_write m (a div ?B) (a mod ?B) (take tx xs) = Some m1" "writes m a (take tx xs) m1"
      using block_write_law [OF i tx(4)] unfolding writes_def by metis
    have rest: "\<exists>m2. write_loop fuel m1 ((a + tx) mod U32) (drop tx xs) = Some m2 \<and> writes m1 (a + tx) (drop tx xs) m2"
    proof (cases "tx = length xs")
      case True
      then show ?thesis using m1(2) by (cases fuel) (simp_all add: writes_def [of m] writes_nil)
    next
      case False
      then have "a + tx < U32" using tx(2) Suc.prems(2) by linarith
      then show ?thesis using Suc.IH [of m1 "a + tx" "drop tx xs"] m1(2) Suc.prems tx(2,3) by (simp add: writes_def)
    qed
    then obtain m2 where m2: "write_loop fuel m1 ((a + tx) mod U32) (drop tx xs) = Some m2" "writes m1 (a + tx) (drop tx xs) m2" by blast
    have "write_loop (Suc fuel) m a xs = Some m2"
      using Cons tx(1) m1(1) m2(1) by (simp add: Let_def ms_invD(4,5) [OF i] del: One_nat_def)
    then show ?thesis using writes_trans [OF m1(2) m2(2) tx(2)] by blast
  qed
qed

lemma fast_route:
  assumes i: "ms_inv m" and fits: "a + n \<le> block_limit m (a div ms_BSIZE m)" and a: "a < U32"
  shows "a mod ms_BSIZE m + n \<le> ms_BSIZE m"
proof -
  let ?B = "ms_BSIZE m"
  have "block_limit m (a div ?B) \<le> (a div ?B + 1) * ?B"
    unfolding block_limit_def by (meson mod_less_eq_dividend mult_le_mono1 order_trans)
  then have "a + n \<le> a div ?B * ?B + ?B" using fits by simp
  then show ?thesis using div_mult_mod_eq [of a ?B] by linarith
qed

lemma ms_write_law:
  assumes i: "ms_inv m" and a: "a + length xs \<le> U32" "a < U32" "length xs \<le> 2 ^ 31"
  shows "\<exists>m'. ms_write m a xs = Some (hit_watchpoints m a (length xs), m') \<and> writes m a xs m'"
proof -
  let ?B = "ms_BSIZE m"
  have eq: "drop_bit (ms_log2_block_size m) a = a div ?B" "a AND (?B - 1) = a mod ?B" by (rule ms_invD [OF i])+
  have "length xs mod U32 = length xs" using a(3) by simp
  then have slow: "\<exists>m'. write_loop (length xs) m a (take (length xs mod U32) xs) = Some m' \<and> writes m a xs m'"
    using write_loop_law [OF i a(1,3)] by simp
  have "\<exists>m'. (if a + length xs \<le> block_limit m (a div ?B) then block_write m (a div ?B) (a mod ?B) xs
      else write_loop (length xs) m a (take (length xs mod U32) xs)) = Some m' \<and> writes m a xs m'"
  proof (cases "a + length xs \<le> block_limit m (a div ?B)")
    case True
    obtain m' where "block_write m (a div ?B) (a mod ?B) xs = Some m'" "ms_inv m'"
      "ms_BSIZE m' = ms_BSIZE m" "ms_watchpoints m' = ms_watchpoints m"
      "\<forall>b. byte_at m' b = (if a \<le> b \<and> b < a + length xs then xs ! (b - a) else byte_at m b)"
      by (rule block_write_law [OF i fast_route [OF i True a(2)]])
    then show ?thesis using True by (auto simp: writes_def)
  qed (use slow in auto)
  then obtain m' where m': "(if a + length xs \<le> block_limit m (a div ?B) then block_write m (a div ?B) (a mod ?B) xs
      else write_loop (length xs) m a (take (length xs mod U32) xs)) = Some m'" "writes m a xs m'" by blast
  have "hit_watchpoints m' a (length xs) = hit_watchpoints m a (length xs)" using m'(2) by (simp add: writes_def hit_watchpoints_def)
  then show ?thesis using m' unfolding ms_write_def Let_def eq by auto
qed

lemma block_limit_inner:
  assumes i: "ms_inv m" and a: "a div ms_BSIZE m * ms_BSIZE m + ms_BSIZE m < U32"
  shows "block_limit m (a div ms_BSIZE m) = a div ms_BSIZE m * ms_BSIZE m + ms_BSIZE m"
proof -
  let ?q = "a div ms_BSIZE m" and ?B = "ms_BSIZE m"
  have "(?q + 1) * 1 \<le> (?q + 1) * ?B" using ms_invD(1) [OF i] by (intro mult_le_mono2) simp
  then have "?q + 1 < U32" using a by simp
  then show ?thesis using a by (simp add: block_limit_def)
qed

text \<open>In the last block the limit wraps to zero.\<close>

lemma block_limit_last:
  assumes i: "ms_inv m" and a: "a < U32" "U32 - ms_BSIZE m \<le> a"
  shows "block_limit m (a div ms_BSIZE m) = 0"
proof -
  let ?B = "ms_BSIZE m"
  obtain k where k: "U32 = ?B * k" using ms_invD(6) [OF i] by (auto simp: dvd_def)
  have B: "0 < ?B" "?B < U32" using ms_invD(1,2) [OF i] by auto
  then have "2 \<le> k" using k by (cases k; cases "k - 1") auto
  then have "a div ?B = k - 1" using a B k by (intro div_nat_eqI) (auto simp: algebra_simps diff_mult_distrib2)
  then have eq: "(a div ?B + 1) = k" using \<open>2 \<le> k\<close> by simp
  have "k mod U32 * ?B mod U32 = 0" using k by (metis mod_mult_left_eq mod_self mult.commute)
  then show ?thesis using eq by (simp add: block_limit_def)
qed

lemma within_block:
  assumes "a mod B + j < (B :: nat)"
  shows "(a + j) div B = a div B" "(a + j) mod B = a mod B + j"
proof -
  have e: "a + j = (a mod B + j) + a div B * B" using div_mult_mod_eq [of a B] by linarith
  have nz: "B \<noteq> 0" using assms by auto
  show "(a + j) div B = a div B" by (subst e) (simp only: div_mult_self1 [OF nz] div_less [OF assms] add_0_right)
  show "(a + j) mod B = a mod B + j" by (subst e) (simp only: mod_mult_self1 mod_less [OF assms])
qed

definition bytes_from :: "mem_space \<Rightarrow> mem_addr_t \<Rightarrow> nat \<Rightarrow> byte list" where
  "bytes_from m a n = map (byte_at m) [a..<a + n]"

lemma read_single_block_law:
  assumes i: "ms_inv m" and a: "a div ms_BSIZE m * ms_BSIZE m + ms_BSIZE m < U32" and n: "a mod ms_BSIZE m + n \<le> ms_BSIZE m"
  shows "read_single_block m (a div ms_BSIZE m) a n = Some (bytes_from m a n)"
proof -
  let ?B = "ms_BSIZE m" and ?blk = "get_block m (a div ms_BSIZE m)"
  have lim: "a + n \<le> block_limit m (a div ?B)"
    using block_limit_inner [OF i a] n div_mult_mod_eq [of a ?B] by linarith
  have "byte_at m (a + j) = ?blk ! (a mod ?B + j)" if "j < n" for j
    using within_block [of a ?B j] that n by (simp add: byte_at_def)
  then have "bytes_from m a n = take n (drop (a mod ?B) ?blk)"
    using ms_invD(3) [OF i] n by (intro nth_equalityI) (simp_all add: bytes_from_def)
  then show ?thesis using lim n ms_invD(4) [OF i]
    by (auto simp: read_single_block_def storage_read_def get_block_def simp del: One_nat_def split: option.splits)
qed

lemma bytes_from_split: "t \<le> n \<Longrightarrow> bytes_from m a t @ bytes_from m (a + t) (n - t) = bytes_from m a n"
  using upt_add_eq_append [of a "a + t" "n - t"] by (simp add: bytes_from_def flip: map_append)

text \<open>Below the last block.\<close>

lemma below_last_block:
  assumes i: "ms_inv m" and a: "a < U32 - ms_BSIZE m"
  shows "a div ms_BSIZE m * ms_BSIZE m + ms_BSIZE m < U32"
proof -
  have "a div ms_BSIZE m * ms_BSIZE m \<le> a" by simp
  then show ?thesis using a by linarith
qed

lemma read_loop_law:
  assumes "ms_inv m" "a + n \<le> U32 - ms_BSIZE m" "n \<le> 2 ^ 31" "n \<le> fuel"
  shows "read_loop fuel m a n = Some (bytes_from m a n)"
  using assms
proof (induction fuel arbitrary: a n)
  case 0
  then show ?case by (simp add: bytes_from_def)
next
  case (Suc fuel)
  show ?case
  proof (cases n)
    case 0
    then show ?thesis by (simp add: bytes_from_def)
  next
    case (Suc k)
    let ?B = "ms_BSIZE m"
    note i = Suc.prems(1)
    define tx where "tx = min n (?B - a mod ?B)"
    have tx: "tx_bytes m a n = tx" "tx \<le> n" "0 < tx" "a mod ?B + tx \<le> ?B"
      using tx_bytes_eq [OF i Suc.prems(3)] \<open>n = Suc k\<close> ms_invD(1) [OF i] by (auto simp: tx_def min_def)
    have lt: "a < U32 - ?B" "a + tx < U32" using Suc.prems(2) \<open>n = Suc k\<close> tx(2) ms_invD(1) [OF i] by linarith+
    have 1: "read_single_block m (a div ?B) a tx = Some (bytes_from m a tx)"
      by (rule read_single_block_law [OF i below_last_block [OF i lt(1)] tx(4)])
    have 2: "read_loop fuel m (a + tx) (n - tx) = Some (bytes_from m (a + tx) (n - tx))"
      using Suc.prems tx(2,3) by (intro Suc.IH) auto
    have "read_loop (Suc fuel) m a n = Some (bytes_from m a tx @ bytes_from m (a + tx) (n - tx))"
      using \<open>n = Suc k\<close> tx(1) 1 2 lt(2) by (simp add: Let_def ms_invD(5) [OF i])
    then show ?thesis using bytes_from_split [OF tx(2)] by simp
  qed
qed

lemma ms_read_law:
  assumes i: "ms_inv m" and a: "a + n \<le> U32 - ms_BSIZE m" "a < U32 - ms_BSIZE m" "n \<le> 2 ^ 31"
  shows "ms_read m a n = Some (bytes_from m a n)"
proof (cases "a + n \<le> block_limit m (a div ms_BSIZE m)")
  case True
  have "a < U32" using a by linarith
  then show ?thesis
    using True read_single_block_law [OF i below_last_block [OF i a(2)] fast_route [OF i True]]
    by (simp add: ms_read_def ms_invD(5) [OF i])
next
  case False
  have "n mod U32 = n" using a(3) by simp
  then show ?thesis using False read_loop_law [OF i a(1,3) order_refl] by (simp add: ms_read_def ms_invD(5) [OF i])
qed

lemma ms_read_last:
  assumes i: "ms_inv m" and a: "a < U32" "U32 - ms_BSIZE m \<le> a" "0 < n" "n \<le> 2 ^ 31"
  shows "ms_read m a n = None"
proof -
  have z: "block_limit m (a div ms_BSIZE m) = 0" by (rule block_limit_last [OF i a(1,2)])
  have n: "n mod U32 = n" "0 < a" using a ms_invD(1,2) [OF i] by auto
  obtain k where k: "n = Suc k" using a(3) by (cases n) auto
  have "read_loop n m a n = None"
    using k z n(2) by (simp add: read_single_block_def Let_def ms_invD(5) [OF i])
  then show ?thesis using z n a(3) by (simp add: ms_read_def ms_invD(5) [OF i])
qed

subsection \<open>Device memory\<close>

text \<open>
  The device-memory calls of \<^verbatim>\<open>gpgpu_t\<close>: the allocation pointer and the global memory.  The debugging output is not
  modelled.  The 64-bit addresses of these calls reach the memory through a 32-bit parameter.
\<close>

record gpgpu =
  g_dev_malloc :: "64 word"
  g_global_mem :: mem_space

definition GLOBAL_HEAP_START :: nat where "GLOBAL_HEAP_START = 0x80000000"

definition gpgpu_new :: "gpgpu option" where
  "gpgpu_new = do {
     mem \<leftarrow> mem_space_new 8192;
     Some \<lparr>g_dev_malloc = of_nat GLOBAL_HEAP_START, g_global_mem = mem\<rparr>
   }"

definition gpu_malloc :: "gpgpu \<Rightarrow> 64 word \<Rightarrow> 64 word \<times> gpgpu" where
  "gpu_malloc g sz =
     (let result = g_dev_malloc g;
          p = g_dev_malloc g + sz;
          p = (if sz mod 256 \<noteq> 0 then p + (256 - sz mod 256) else p)
      in (result, g\<lparr>g_dev_malloc := p\<rparr>))"

definition gpu_mallocarray :: "gpgpu \<Rightarrow> 64 word \<Rightarrow> 64 word \<times> gpgpu" where
  "gpu_mallocarray g sz =
     (let result = g_dev_malloc g;
          p = g_dev_malloc g + sz;
          p = (if sz mod 256 \<noteq> 0 then p + (256 - sz mod 256) else p)
      in (result, g\<lparr>g_dev_malloc := p\<rparr>))"

fun memcpy_to_gpu :: "mem_space \<Rightarrow> nat \<Rightarrow> byte list \<Rightarrow> mem_space option" where
  "memcpy_to_gpu m dst [] = Some m"
| "memcpy_to_gpu m dst (x # xs) = do {
     (hits, m) \<leftarrow> ms_write m (dst mod U32) [x];
     memcpy_to_gpu m (dst + 1) xs
   }"

fun memcpy_from_gpu :: "mem_space \<Rightarrow> nat \<Rightarrow> nat \<Rightarrow> byte list option" where
  "memcpy_from_gpu m src 0 = Some []"
| "memcpy_from_gpu m src (Suc n) = do {
     x \<leftarrow> ms_read m (src mod U32) 1;
     xs \<leftarrow> memcpy_from_gpu m (src + 1) n;
     Some (x @ xs)
   }"

fun memcpy_gpu_to_gpu :: "mem_space \<Rightarrow> nat \<Rightarrow> nat \<Rightarrow> nat \<Rightarrow> mem_space option" where
  "memcpy_gpu_to_gpu m dst src 0 = Some m"
| "memcpy_gpu_to_gpu m dst src (Suc n) = do {
     tmp \<leftarrow> ms_read m (src mod U32) 1;
     (hits, m) \<leftarrow> ms_write m (dst mod U32) tmp;
     memcpy_gpu_to_gpu m (dst + 1) (src + 1) n
   }"

definition gpu_memset :: "mem_space \<Rightarrow> nat \<Rightarrow> int \<Rightarrow> nat \<Rightarrow> mem_space option" where
  "gpu_memset m dst c n = memcpy_to_gpu m dst (replicate n (word_of_int c))"

lemma writes_Cons:
  assumes "writes m a [x] m1" "writes m1 (a + 1) xs m2"
  shows "writes m a (x # xs) m2"
  using writes_trans [of m a 1 "x # xs" m1 m2] assms by simp

lemma memcpy_to_gpu_law:
  assumes "ms_inv m" "a + length xs \<le> U32"
  shows "\<exists>m'. memcpy_to_gpu m a xs = Some m' \<and> writes m a xs m'"
  using assms
proof (induction xs arbitrary: m a)
  case Nil
  then show ?case by (simp add: writes_nil)
next
  case (Cons x xs)
  then have a: "a mod U32 = a" "a < U32" by simp_all
  obtain m1 where m1: "ms_write m a [x] = Some (hit_watchpoints m a 1, m1)" "writes m a [x] m1"
    using ms_write_law [of m a "[x]"] Cons.prems a(2) by auto
  then obtain m2 where "memcpy_to_gpu m1 (a + 1) xs = Some m2" "writes m1 (a + 1) xs m2"
    using Cons.IH [of m1 "a + 1"] Cons.prems by (auto simp: writes_def)
  then show ?case using m1 a writes_Cons [OF m1(2)] by auto
qed

lemma memcpy_from_gpu_law:
  assumes "ms_inv m" "a + n \<le> U32 - ms_BSIZE m"
  shows "memcpy_from_gpu m a n = Some (bytes_from m a n)"
  using assms
proof (induction n arbitrary: a)
  case 0
  then show ?case by (simp add: bytes_from_def)
next
  case (Suc n)
  then have a: "a mod U32 = a" "a < U32 - ms_BSIZE m" by simp_all
  have "ms_read m a 1 = Some (bytes_from m a 1)" using ms_read_law [of m a 1] Suc.prems a(2) by simp
  then show ?case using Suc a bytes_from_split [of 1 "Suc n" m a] by simp
qed

subsection \<open>Generic addresses\<close>

text \<open>The windows of the 32-bit generic address space; all arithmetic is that of \<^verbatim>\<open>addr_t\<close>, 32 bits.\<close>

type_synonym addr_t = "32 word"

datatype memory_space_kind =
  undefined_space | reg_space | local_space | shared_space | param_space_unclassified | param_space_kernel
| param_space_local | const_space | tex_space | surf_space | global_space | generic_space | instruction_space

abbreviation SHARED_MEM_SIZE_MAX :: addr_t where "SHARED_MEM_SIZE_MAX \<equiv> 65536"
abbreviation LOCAL_MEM_SIZE_MAX :: addr_t where "LOCAL_MEM_SIZE_MAX \<equiv> 8192"
abbreviation TOTAL_LOCAL_MEM_PER_SM :: addr_t where "TOTAL_LOCAL_MEM_PER_SM \<equiv> 16777216"
abbreviation SHARED_GENERIC_START :: addr_t where "SHARED_GENERIC_START \<equiv> 0x80000000 - 4194304"
abbreviation LOCAL_GENERIC_START :: addr_t where "LOCAL_GENERIC_START \<equiv> 0x80000000 - 4194304 - 1073741824"
abbreviation STATIC_ALLOC_LIMIT :: addr_t where "STATIC_ALLOC_LIMIT \<equiv> 0x80000000 - (1073741824 + 4194304)"

definition shared_to_generic :: "32 word \<Rightarrow> addr_t \<Rightarrow> addr_t option" where
  "shared_to_generic smid addr = do {
     assert_that (addr < SHARED_MEM_SIZE_MAX);
     Some (SHARED_GENERIC_START + smid * SHARED_MEM_SIZE_MAX + addr)
   }"

definition isspace_shared :: "32 word \<Rightarrow> addr_t \<Rightarrow> bool" where
  "isspace_shared smid addr =
     (let start = SHARED_GENERIC_START + smid * SHARED_MEM_SIZE_MAX;
          end = SHARED_GENERIC_START + (smid + 1) * SHARED_MEM_SIZE_MAX
      in \<not> (addr \<ge> end \<or> addr < start))"

definition whichspace :: "addr_t \<Rightarrow> memory_space_kind" where
  "whichspace addr =
     (if addr \<ge> 0x80000000 \<or> addr < STATIC_ALLOC_LIMIT then global_space
      else if addr \<ge> SHARED_GENERIC_START then shared_space
      else local_space)"

definition generic_to_shared :: "32 word \<Rightarrow> addr_t \<Rightarrow> addr_t option" where
  "generic_to_shared smid addr = do {
     assert_that (isspace_shared smid addr);
     Some (addr - (SHARED_GENERIC_START + smid * SHARED_MEM_SIZE_MAX))
   }"

definition local_to_generic :: "32 word \<Rightarrow> 32 word \<Rightarrow> addr_t \<Rightarrow> addr_t option" where
  "local_to_generic smid hwtid addr = do {
     assert_that (addr < LOCAL_MEM_SIZE_MAX);
     Some (LOCAL_GENERIC_START + TOTAL_LOCAL_MEM_PER_SM * smid + LOCAL_MEM_SIZE_MAX * hwtid + addr)
   }"

definition isspace_local :: "32 word \<Rightarrow> 32 word \<Rightarrow> addr_t \<Rightarrow> bool" where
  "isspace_local smid hwtid addr =
     (let start = LOCAL_GENERIC_START + TOTAL_LOCAL_MEM_PER_SM * smid + LOCAL_MEM_SIZE_MAX * hwtid;
          end = LOCAL_GENERIC_START + TOTAL_LOCAL_MEM_PER_SM * smid + LOCAL_MEM_SIZE_MAX * (hwtid + 1)
      in \<not> (addr \<ge> end \<or> addr < start))"

definition generic_to_local :: "32 word \<Rightarrow> 32 word \<Rightarrow> addr_t \<Rightarrow> addr_t option" where
  "generic_to_local smid hwtid addr = do {
     assert_that (isspace_local smid hwtid addr);
     Some (addr - (LOCAL_GENERIC_START + TOTAL_LOCAL_MEM_PER_SM * smid + LOCAL_MEM_SIZE_MAX * hwtid))
   }"

lemma unat_lin: "unat (of_nat n :: 32 word) = n" if "n < U32"
  using that by (simp add: unat_of_nat take_bit_eq_mod)

lemma shared_nat:
  assumes "unat smid \<le> 64" "unat a < U32 - (2143289344 + unat smid * 65536)"
  shows "unat (SHARED_GENERIC_START + smid * SHARED_MEM_SIZE_MAX + a) = 2143289344 + unat smid * 65536 + unat a"
proof -
  have "SHARED_GENERIC_START + smid * SHARED_MEM_SIZE_MAX + a = of_nat (2143289344 + unat smid * 65536 + unat a)"
    by (simp add: algebra_simps)
  then show ?thesis using assms by (simp only: unat_lin)
qed

lemma local_nat:
  assumes "unat smid < 64" "unat hwtid \<le> 2048" "unat a \<le> 8192"
  shows "unat (LOCAL_GENERIC_START + TOTAL_LOCAL_MEM_PER_SM * smid + LOCAL_MEM_SIZE_MAX * hwtid + a) =
    1069547520 + 16777216 * unat smid + 8192 * unat hwtid + unat a"
proof -
  have "LOCAL_GENERIC_START + TOTAL_LOCAL_MEM_PER_SM * smid + LOCAL_MEM_SIZE_MAX * hwtid + a =
    of_nat (1069547520 + 16777216 * unat smid + 8192 * unat hwtid + unat a)"
    by (simp add: algebra_simps)
  moreover have "1069547520 + 16777216 * unat smid + 8192 * unat hwtid + unat a < U32" using assms by simp
  ultimately show ?thesis by (simp only: unat_lin)
qed

lemma shared_to_generic_law:
  assumes s: "unat smid < 64" and a: "a < SHARED_MEM_SIZE_MAX"
  obtains g where "shared_to_generic smid a = Some g" "unat g = 2143289344 + unat smid * 65536 + unat a"
    "isspace_shared smid g" "generic_to_shared smid g = Some a" "whichspace g = shared_space"
proof -
  let ?g = "SHARED_GENERIC_START + smid * SHARED_MEM_SIZE_MAX + a"
  have a': "unat a < 65536" using a by (simp add: word_less_nat_alt)
  have g: "unat ?g = 2143289344 + unat smid * 65536 + unat a" using shared_nat [of smid a] s a' by simp
  have st: "unat (SHARED_GENERIC_START + smid * SHARED_MEM_SIZE_MAX) = 2143289344 + unat smid * 65536"
    using shared_nat [of smid 0] s by simp
  have s1: "unat (smid + 1) = unat smid + 1" using s by (simp add: unat_word_ariths)
  have en: "unat (SHARED_GENERIC_START + (smid + 1) * SHARED_MEM_SIZE_MAX) = 2143289344 + (unat smid + 1) * 65536"
    using shared_nat [of "smid + 1" 0] s s1 by simp
  have "isspace_shared smid ?g"
    unfolding isspace_shared_def Let_def word_le_nat_alt word_less_nat_alt g st en using a' by simp
  moreover have "whichspace ?g = shared_space"
    unfolding whichspace_def word_le_nat_alt word_less_nat_alt g using s a' by simp
  ultimately show thesis using that [OF _ g] a by (simp add: shared_to_generic_def generic_to_shared_def)
qed

lemma local_to_generic_law:
  assumes s: "unat smid < 64" "unat hwtid < 2048" and a: "a < LOCAL_MEM_SIZE_MAX"
  obtains g where "local_to_generic smid hwtid a = Some g" "unat g = 1069547520 + 16777216 * unat smid + 8192 * unat hwtid + unat a"
    "isspace_local smid hwtid g" "generic_to_local smid hwtid g = Some a" "whichspace g = local_space"
proof -
  let ?g = "LOCAL_GENERIC_START + TOTAL_LOCAL_MEM_PER_SM * smid + LOCAL_MEM_SIZE_MAX * hwtid + a"
  have a': "unat a < 8192" using a by (simp add: word_less_nat_alt)
  have g: "unat ?g = 1069547520 + 16777216 * unat smid + 8192 * unat hwtid + unat a" using local_nat [of smid hwtid a] s a' by simp
  have st: "unat (LOCAL_GENERIC_START + TOTAL_LOCAL_MEM_PER_SM * smid + LOCAL_MEM_SIZE_MAX * hwtid) =
    1069547520 + 16777216 * unat smid + 8192 * unat hwtid" using local_nat [of smid hwtid 0] s by simp
  have h1: "unat (hwtid + 1) = unat hwtid + 1" using s by (simp add: unat_word_ariths)
  have en: "unat (LOCAL_GENERIC_START + TOTAL_LOCAL_MEM_PER_SM * smid + LOCAL_MEM_SIZE_MAX * (hwtid + 1)) =
    1069547520 + 16777216 * unat smid + 8192 * (unat hwtid + 1)" using local_nat [of smid "hwtid + 1" 0] s h1 by simp
  have "isspace_local smid hwtid ?g"
    unfolding isspace_local_def Let_def word_le_nat_alt word_less_nat_alt g st en using a' by simp
  moreover have "whichspace ?g = local_space"
    unfolding whichspace_def word_le_nat_alt word_less_nat_alt g using s a' by simp
  ultimately show thesis using that [OF _ g] a by (simp add: local_to_generic_def generic_to_local_def)
qed

subsection \<open>Integer logarithm\<close>

definition logb2_step :: "32 word \<Rightarrow> nat \<Rightarrow> 32 word \<times> 32 word \<Rightarrow> 32 word \<times> 32 word" where
  "logb2_step m s vr = (case vr of (v, r) \<Rightarrow>
     let shift = push_bit s (if v AND m \<noteq> 0 then 1 else 0) in (drop_bit (unat shift) v, r OR shift))"

definition intLOGB2 :: "32 word \<Rightarrow> 32 word" where
  "intLOGB2 v = snd (logb2_step 0x2 0 (logb2_step 0xC 1 (logb2_step 0xF0 2 (logb2_step 0xFF00 3 (logb2_step 0xFFFF0000 4 (v, 0))))))"

lemma word_and_field:
  assumes "unat (v :: 32 word) < 2 ^ (2 * k)"
  shows "v AND (mask (2 * k) AND NOT (mask k)) \<noteq> 0 \<longleftrightarrow> 2 ^ k \<le> unat v"
proof -
  have hi: "\<not> bit v i" if "2 * k \<le> i" for i
  proof -
    have "unat v < 2 ^ i" using assms that by (meson less_le_trans one_le_numeral power_increasing)
    then show ?thesis using bit_unsigned_iff [where ?'a = nat, of v i] by (auto simp: bit_iff_odd)
  qed
  have "v AND (mask (2 * k) AND NOT (mask k)) = 0 \<longleftrightarrow> drop_bit k v = 0"
  proof
    assume z: "v AND (mask (2 * k) AND NOT (mask k)) = 0"
    have "\<not> bit v i" if "k \<le> i" for i
    proof
      assume b: "bit v i"
      then have "bit (v AND (mask (2 * k) AND NOT (mask k))) i"
        using that hi [of i] bit_imp_le_length [OF b] by (cases "i < 2 * k") (auto simp: bit_simps)
      then show False using z by simp
    qed
    then show "drop_bit k v = 0" by (intro bit_eqI) (simp add: bit_simps)
  next
    assume z: "drop_bit k v = 0"
    have "\<not> bit v i" if "k \<le> i" for i
      using z that bit_drop_bit_eq [of k v] by (metis bit_0_eq bot_apply bot_bool_def comp_apply le_add_diff_inverse)
    then show "v AND (mask (2 * k) AND NOT (mask k)) = 0" by (intro bit_eqI) (auto simp: bit_simps not_less)
  qed
  also have "\<dots> \<longleftrightarrow> unat v div 2 ^ k = 0" by (simp only: word_unat_eq_iff unat_drop_bit_eq unat_0) (simp only: drop_bit_eq_div)
  finally show ?thesis by (auto simp: div_eq_0_iff not_less)
qed

lemma div_one:
  assumes "x div b = (1 :: nat)"
  shows "b \<le> x \<and> x < 2 * b"
proof -
  have "b > 0" using assms by (cases b) auto
  then have "x mod b < b" by simp
  moreover have "b + x mod b = x" using div_mult_mod_eq [of x b] assms by simp
  ultimately show ?thesis by linarith
qed

text \<open>One step: when the upper half of the field is used, it becomes the lower half.\<close>

lemma logb2_step_law:
  assumes k: "k = 2 ^ s" "k \<le> 16" and v: "unat v < 2 ^ (2 * k)" "unat v > 0"
  obtains v' b where "logb2_step (mask (2 * k) AND NOT (mask k)) s (v, r) = (v', r OR (if b then of_nat k else 0))"
    "unat v' = unat v div 2 ^ (if b then k else 0)" "unat v' < 2 ^ k" "unat v' > 0"
proof -
  let ?b = "2 ^ k \<le> unat v"
  have u: "unat (of_nat k :: 32 word) = k" using k(2) by (simp add: unat_lin)
  have sh: "push_bit s (if ?b then 1 else 0 :: 32 word) = (if ?b then of_nat k else 0)" by (simp add: k(1) push_bit_eq_mult)
  have "logb2_step (mask (2 * k) AND NOT (mask k)) s (v, r) =
    (drop_bit (if ?b then k else 0) v, r OR (if ?b then of_nat k else 0))"
    unfolding logb2_step_def prod.case word_and_field [OF v(1)] Let_def sh by (simp add: u)
  moreover have "unat (drop_bit (if ?b then k else 0) v) = unat v div 2 ^ (if ?b then k else 0)"
    by (simp only: unat_drop_bit_eq) (simp only: drop_bit_eq_div)
  moreover have "unat v div 2 ^ (if ?b then k else 0) < 2 ^ k"
    using v(1) by (auto simp: mult_2 power_add less_mult_imp_div_less)
  moreover have "unat v div 2 ^ (if ?b then k else 0) > 0" using v(2) by (auto simp: div_greater_zero_iff)
  ultimately show thesis using that by metis
qed

subsection \<open>Properties\<close>

text \<open>
  C11. The paged memory refines a flat memory of bytes: for every access that does not wrap around the address space, a write
  changes exactly the bytes it names, whether it stays in one block or crosses any number of blocks, and a read that ends below the
  last block returns exactly the bytes of the map; so what was written is read back.
\<close>
theorem gpu_memory_refines_bytes:
  assumes i: "ms_inv m" and a: "a + length xs \<le> U32" "a < U32" "length xs \<le> 2 ^ 31"
  shows "\<exists>m'. ms_write m a xs = Some (hit_watchpoints m a (length xs), m') \<and> ms_inv m' \<and>
    (\<forall>b. byte_at m' b = (if a \<le> b \<and> b < a + length xs then xs ! (b - a) else byte_at m b)) \<and>
    (\<forall>b n. b + n \<le> U32 - ms_BSIZE m \<and> b < U32 - ms_BSIZE m \<and> n \<le> 2 ^ 31 \<longrightarrow>
      ms_read m' b n = Some (map (byte_at m') [b..<b + n])) \<and>
    (a + length xs < U32 - ms_BSIZE m \<longrightarrow> ms_read m' a (length xs) = Some xs)"
proof -
  obtain m' where w: "ms_write m a xs = Some (hit_watchpoints m a (length xs), m')" "writes m a xs m'"
    using ms_write_law [OF assms] by blast
  then have m': "ms_inv m'" "ms_BSIZE m' = ms_BSIZE m" by (simp_all add: writes_def)
  have r: "ms_read m' b n = Some (bytes_from m' b n)" if "b + n \<le> U32 - ms_BSIZE m" "b < U32 - ms_BSIZE m" "n \<le> 2 ^ 31" for b n
    using ms_read_law [OF m'(1)] that m'(2) by simp
  have "bytes_from m' a (length xs) = xs" using w(2) by (intro nth_equalityI) (simp_all add: bytes_from_def writes_def)
  then have "a + length xs < U32 - ms_BSIZE m \<longrightarrow> ms_read m' a (length xs) = Some xs" using r [of a "length xs"] a(3) by auto
  then show ?thesis using w m' r by (auto simp: writes_def bytes_from_def)
qed

theorem gpu_memory_refines_bytes_witness:
  "\<exists>m h m'. mem_space_new 32 = Some m \<and> ms_write m 30 [1, 2, 3, 4] = Some (h, m') \<and> ms_read m' 30 4 = Some [1, 2, 3, 4] \<and>
     byte_at m' 34 = 0"
proof -
  obtain m where m: "mem_space_new 32 = Some m" "ms_inv m" "byte_at m = (\<lambda>_. 0)" using mem_space_new_ok [of 5] by auto
  have "ms_BSIZE m = 32" using m(1) by (auto simp: mem_space_new_def elim!: bind_eq_SomeE)
  then show ?thesis using gpu_memory_refines_bytes [OF m(2), of 30 "[1, 2, 3, 4]"] m by auto
qed

text \<open>
  The last block of the address space is write-only: the limit \<^verbatim>\<open>(index+1)*BSIZE\<close> wraps to zero there, so every read
  of at least one byte that starts in it fails, although the write to the same address succeeds.
\<close>
theorem gpu_memory_last_block:
  assumes "ms_inv m" "U32 - ms_BSIZE m \<le> a" "a + length xs \<le> U32" "xs \<noteq> []" "length xs \<le> 2 ^ 31"
  shows "\<exists>h m'. ms_write m a xs = Some (h, m') \<and> (\<forall>k < length xs. byte_at m' (a + k) = xs ! k) \<and> ms_read m' a (length xs) = None"
proof -
  have a: "a < U32" "0 < length xs" using assms(3,4) by (cases xs; simp)+
  obtain h m' where w: "ms_write m a xs = Some (h, m')" "writes m a xs m'" using ms_write_law [OF assms(1,3) a(1) assms(5)] by blast
  then have "ms_read m' a (length xs) = None" using ms_read_last [of m', OF _ a(1) _ a(2) assms(5)] assms(2) by (simp add: writes_def)
  then show ?thesis using w by (auto simp: writes_def)
qed

theorem gpu_memory_last_block_witness:
  "\<exists>m h m'. mem_space_new 8192 = Some m \<and> ms_write m 4294967292 [1, 2] = Some (h, m') \<and> ms_read m' 4294967292 2 = None"
proof -
  obtain m where m: "mem_space_new 8192 = Some m" "ms_inv m" using mem_space_new_ok [of 13] by auto
  have "ms_BSIZE m = 8192" using m(1) by (auto simp: mem_space_new_def elim!: bind_eq_SomeE)
  then obtain h m' where "ms_write m 4294967292 [1, 2] = Some (h, m')" "ms_read m' 4294967292 (length [1, 2 :: byte]) = None"
    using gpu_memory_last_block [OF m(2), of 4294967292 "[1, 2]"] by auto
  then show ?thesis using m(1) by (auto simp: numeral_2_eq_2)
qed

text \<open>
  Host copies: \<^verbatim>\<open>memcpy_to_gpu\<close> followed by \<^verbatim>\<open>memcpy_from_gpu\<close> of the same range returns the data,
  and reading any disjoint range below the last block gives what it held before.
\<close>
theorem gpu_memcpy_roundtrip:
  assumes "ms_inv m" "a + length xs \<le> U32 - ms_BSIZE m"
  shows "\<exists>m'. memcpy_to_gpu m a xs = Some m' \<and> memcpy_from_gpu m' a (length xs) = Some xs \<and>
    (\<forall>b n. b + n \<le> U32 - ms_BSIZE m \<and> (b + n \<le> a \<or> a + length xs \<le> b) \<longrightarrow> memcpy_from_gpu m' b n = memcpy_from_gpu m b n)"
proof -
  have "a + length xs \<le> U32" using assms(2) by linarith
  then obtain m' where w: "memcpy_to_gpu m a xs = Some m'" "writes m a xs m'" using memcpy_to_gpu_law [OF assms(1)] by blast
  then have m': "ms_inv m'" "ms_BSIZE m' = ms_BSIZE m" by (simp_all add: writes_def)
  have "bytes_from m' a (length xs) = xs" using w(2) by (intro nth_equalityI) (simp_all add: bytes_from_def writes_def)
  moreover have "bytes_from m' b n = bytes_from m b n" if "b + n \<le> a \<or> a + length xs \<le> b" for b n
    using w(2) that by (auto simp: bytes_from_def writes_def)
  ultimately show ?thesis using w(1) memcpy_from_gpu_law [OF m'(1)] memcpy_from_gpu_law [OF assms(1)] m'(2) assms(2) by auto
qed

theorem gpu_memcpy_roundtrip_witness:
  "\<exists>m m'. mem_space_new 8192 = Some m \<and> memcpy_to_gpu m 8190 [7, 8, 9] = Some m' \<and> memcpy_from_gpu m' 8190 3 = Some [7, 8, 9]"
proof -
  obtain m where m: "mem_space_new 8192 = Some m" "ms_inv m" using mem_space_new_ok [of 13] by auto
  have "ms_BSIZE m = 8192" using m(1) by (auto simp: mem_space_new_def elim!: bind_eq_SomeE)
  then show ?thesis using gpu_memcpy_roundtrip [OF m(2), of 8190 "[7, 8, 9]"] m
    by (auto simp: numeral_3_eq_3 simp del: memcpy_to_gpu.simps memcpy_from_gpu.simps)
qed

text \<open>
  Generic addresses: for every multiprocessor and hardware thread, converting a shared or local address to a generic one and
  back is the identity, the generic address is classified as the right space, and generic addresses of different multiprocessors,
  threads or offsets are different.
\<close>
theorem generic_address_roundtrip:
  assumes "unat smid < 64" "unat smid' < 64" "unat hwtid < 2048" "unat hwtid' < 2048"
    and "a < SHARED_MEM_SIZE_MAX" "a' < SHARED_MEM_SIZE_MAX" "b < LOCAL_MEM_SIZE_MAX" "b' < LOCAL_MEM_SIZE_MAX"
  shows "\<exists>g g' l l'. shared_to_generic smid a = Some g \<and> generic_to_shared smid g = Some a \<and> whichspace g = shared_space \<and>
    shared_to_generic smid' a' = Some g' \<and> (g = g' \<longleftrightarrow> smid = smid' \<and> a = a') \<and>
    local_to_generic smid hwtid b = Some l \<and> generic_to_local smid hwtid l = Some b \<and> whichspace l = local_space \<and>
    local_to_generic smid' hwtid' b' = Some l' \<and> (l = l' \<longleftrightarrow> smid = smid' \<and> hwtid = hwtid' \<and> b = b')"
proof -
  obtain g where g: "shared_to_generic smid a = Some g" "unat g = 2143289344 + unat smid * 65536 + unat a"
    "generic_to_shared smid g = Some a" "whichspace g = shared_space" by (rule shared_to_generic_law [OF assms(1,5)])
  obtain g' where g': "shared_to_generic smid' a' = Some g'" "unat g' = 2143289344 + unat smid' * 65536 + unat a'"
    by (rule shared_to_generic_law [OF assms(2,6)])
  obtain l where l: "local_to_generic smid hwtid b = Some l" "unat l = 1069547520 + 16777216 * unat smid + 8192 * unat hwtid + unat b"
    "generic_to_local smid hwtid l = Some b" "whichspace l = local_space" by (rule local_to_generic_law [OF assms(1,3,7)])
  obtain l' where l': "local_to_generic smid' hwtid' b' = Some l'" "unat l' = 1069547520 + 16777216 * unat smid' + 8192 * unat hwtid' + unat b'"
    by (rule local_to_generic_law [OF assms(2,4,8)])
  have bd: "unat a < 65536" "unat a' < 65536" "unat b < 8192" "unat b' < 8192" using assms(5-8) by (simp_all add: word_less_nat_alt)
  have "g = g' \<longleftrightarrow> smid = smid' \<and> a = a'" unfolding word_unat_eq_iff g g'
    using bd by (cases "unat smid" "unat smid'" rule: linorder_cases) auto
  moreover have "l = l' \<longleftrightarrow> smid = smid' \<and> hwtid = hwtid' \<and> b = b'"
    unfolding word_unat_eq_iff l l' using bd assms(3,4)
    by (cases "unat smid" "unat smid'" rule: linorder_cases; cases "unat hwtid" "unat hwtid'" rule: linorder_cases) auto
  ultimately show ?thesis using g g' l l' by blast
qed

theorem generic_address_roundtrip_witness:
  "\<exists>g l. shared_to_generic 3 100 = Some g \<and> generic_to_shared 3 g = Some 100 \<and> local_to_generic 3 9 40 = Some l \<and> whichspace l = local_space"
  using generic_address_roundtrip [of 3 4 9 9 100 100 40 40] by auto

text \<open>
  \<^verbatim>\<open>intLOGB2\<close>, which finds the highest bit by halving, computes the integer logarithm of every positive 32-bit number.
\<close>
theorem intLOGB2_correct:
  assumes "v \<noteq> 0"
  shows "2 ^ unat (intLOGB2 v) \<le> unat v \<and> unat v < 2 ^ (unat (intLOGB2 v) + 1)"
proof -
  have m: "(0xFFFF0000 :: 32 word) = mask (2 * 16) AND NOT (mask 16)" "(0xFF00 :: 32 word) = mask (2 * 8) AND NOT (mask 8)"
    "(0xF0 :: 32 word) = mask (2 * 4) AND NOT (mask 4)" "(0xC :: 32 word) = mask (2 * 2) AND NOT (mask 2)"
    "(0x2 :: 32 word) = mask (2 * 1) AND NOT (mask 1)" by (simp_all add: mask_numeral)
  have v0: "unat v < 2 ^ (2 * 16)" "unat v > 0" using unsigned_less [of v, where ?'a = nat] assms by (simp_all add: unat_gt_0)
  obtain v1 b1 where 1: "logb2_step 0xFFFF0000 4 (v, 0) = (v1, 0 OR (if b1 then of_nat 16 else 0))"
    "unat v1 = unat v div 2 ^ (if b1 then 16 else 0)" "unat v1 < 2 ^ 16" "unat v1 > 0"
    unfolding m by (rule logb2_step_law [of 16 4 v 0]) (use v0 in simp_all)
  let ?r1 = "0 OR (if b1 then of_nat 16 else 0) :: 32 word"
  obtain v2 b2 where 2: "logb2_step 0xFF00 3 (v1, ?r1) = (v2, ?r1 OR (if b2 then of_nat 8 else 0))"
    "unat v2 = unat v1 div 2 ^ (if b2 then 8 else 0)" "unat v2 < 2 ^ 8" "unat v2 > 0"
    unfolding m by (rule logb2_step_law [of 8 3 v1 ?r1]) (use 1 in simp_all)
  let ?r2 = "?r1 OR (if b2 then of_nat 8 else 0)"
  obtain v3 b3 where 3: "logb2_step 0xF0 2 (v2, ?r2) = (v3, ?r2 OR (if b3 then of_nat 4 else 0))"
    "unat v3 = unat v2 div 2 ^ (if b3 then 4 else 0)" "unat v3 < 2 ^ 4" "unat v3 > 0"
    unfolding m by (rule logb2_step_law [of 4 2 v2 ?r2]) (use 2 in simp_all)
  let ?r3 = "?r2 OR (if b3 then of_nat 4 else 0)"
  obtain v4 b4 where 4: "logb2_step 0xC 1 (v3, ?r3) = (v4, ?r3 OR (if b4 then of_nat 2 else 0))"
    "unat v4 = unat v3 div 2 ^ (if b4 then 2 else 0)" "unat v4 < 2 ^ 2" "unat v4 > 0"
    unfolding m by (rule logb2_step_law [of 2 1 v3 ?r3]) (use 3 in simp_all)
  let ?r4 = "?r3 OR (if b4 then of_nat 2 else 0)"
  obtain v5 b5 where 5: "logb2_step 0x2 0 (v4, ?r4) = (v5, ?r4 OR (if b5 then of_nat 1 else 0))"
    "unat v5 = unat v4 div 2 ^ (if b5 then 1 else 0)" "unat v5 < 2 ^ 1" "unat v5 > 0"
    unfolding m by (rule logb2_step_law [of 1 0 v4 ?r4]) (use 4 in simp_all)
  let ?n = "(if b1 then 16 else 0) + (if b2 then 8 else 0) + (if b3 then 4 else 0) + (if b4 then 2 else 0) + (if b5 then 1 else 0 :: nat)"
  have r: "unat (intLOGB2 v) = ?n"
    unfolding intLOGB2_def 1(1) 2(1) 3(1) 4(1) 5(1) snd_conv by simp
  have "unat v div 2 ^ ?n = unat v5" unfolding 5(2) 4(2) 3(2) 2(2) 1(2) by (simp only: power_add div_mult2_eq)
  then have "unat v div 2 ^ ?n = 1" using 5(3,4) by simp
  then show ?thesis unfolding r using div_one [of "unat v" "2 ^ ?n"] by (simp add: mult.commute)
qed

theorem intLOGB2_correct_witness: "unat (intLOGB2 1000) = 9 \<and> 2 ^ unat (intLOGB2 1000) \<le> unat (1000 :: 32 word)"
  using intLOGB2_correct [of 1000] by (simp add: intLOGB2_def logb2_step_def Let_def)

subsection \<open>Device allocations\<close>

text \<open>The bases and sizes handed out by a sequence of allocations; \<open>True\<close> asks for an array.\<close>

fun alloc_run :: "gpgpu \<Rightarrow> (bool \<times> 64 word) list \<Rightarrow> (64 word \<times> 64 word) list \<times> gpgpu" where
  "alloc_run g [] = ([], g)"
| "alloc_run g ((arr, sz) # rs) =
     (let (p, g) = (if arr then gpu_mallocarray g sz else gpu_malloc g sz); (ps, g) = alloc_run g rs in ((p, sz) # ps, g))"

definition rounded :: "64 word \<Rightarrow> nat" where
  "rounded sz = (unat sz + 255) div 256 * 256"

lemma rounded_ge: "unat sz \<le> rounded sz"
  using div_mult_mod_eq [of "unat sz + 255" 256] mod_less_divisor [of 256 "unat sz + 255"] unfolding rounded_def by linarith

lemma rounded_eq: "rounded sz = (if unat sz mod 256 \<noteq> 0 then unat sz + (256 - unat sz mod 256) else unat sz)"
proof -
  obtain q r where n: "unat sz = 256 * q + r" "r < 256" "unat sz mod 256 = r"
    using that [of "unat sz div 256" "unat sz mod 256"] by simp
  show ?thesis
  proof (cases "r = 0")
    case True
    have "(unat sz + 255) div 256 = q" by (rule div_nat_eqI) (use n True in auto)
    then show ?thesis unfolding rounded_def using n True by simp
  next
    case False
    have "(unat sz + 255) div 256 = Suc q" by (rule div_nat_eqI) (use n False in auto)
    then show ?thesis unfolding rounded_def using n False by simp
  qed
qed

lemma unat_mod_256: "unat (sz mod 256 :: 64 word) = unat sz mod 256"
  by (simp add: unat_mod)

lemma unat_of_nat64: "n < 2 ^ 64 \<Longrightarrow> unat (of_nat n :: 64 word) = n"
  by (simp only: unat_of_nat) (simp add: take_bit_nat_eq_self)

lemma gpu_malloc_eq:
  assumes "unat (g_dev_malloc g) + rounded sz < 2 ^ 64"
  shows "gpu_malloc g sz = (g_dev_malloc g, g\<lparr>g_dev_malloc := of_nat (unat (g_dev_malloc g) + rounded sz)\<rparr>)"
proof -
  have "sz mod 256 \<noteq> 0 \<longleftrightarrow> unat sz mod 256 \<noteq> 0" by (simp add: unat_mod_256 [symmetric] unat_eq_0)
  moreover have "unat sz mod 256 \<le> 256" by (simp add: less_imp_le)
  ultimately show ?thesis
    by (simp add: gpu_malloc_def Let_def of_nat_diff rounded_eq unat_mod_256 [symmetric])
qed

lemma gpu_mallocarray_eq: "gpu_mallocarray = gpu_malloc"
  by (intro ext) (simp add: gpu_mallocarray_def gpu_malloc_def)

lemma alloc_run_bounds:
  assumes "unat (g_dev_malloc g) + sum_list (map (rounded \<circ> snd) rs) < 2 ^ 64" "unat (g_dev_malloc g) mod 256 = 0"
    "alloc_run g rs = (ps, g')"
  shows "(\<forall>(p, sz) \<in> set ps. unat (g_dev_malloc g) \<le> unat p \<and> unat p mod 256 = 0 \<and> unat p + unat sz \<le> unat (g_dev_malloc g')) \<and>
    sorted_wrt (\<lambda>(p, sz) (p', sz'). unat p + unat sz \<le> unat p') ps \<and> map snd ps = map snd rs \<and>
    unat (g_dev_malloc g) \<le> unat (g_dev_malloc g')"
  using assms
proof (induction rs arbitrary: g ps)
  case (Cons r rs)
  obtain arr sz where r: "r = (arr, sz)" by (cases r)
  let ?g = "g\<lparr>g_dev_malloc := of_nat (unat (g_dev_malloc g) + rounded sz)\<rparr>"
  have m: "gpu_malloc g sz = (g_dev_malloc g, ?g)" using Cons.prems(1) by (intro gpu_malloc_eq) (simp add: r)
  obtain qs where q: "alloc_run ?g rs = (qs, g')" "ps = (g_dev_malloc g, sz) # qs"
    using Cons.prems(3) by (cases "alloc_run ?g rs") (auto simp: r m gpu_mallocarray_eq split: if_splits)
  have u: "unat (g_dev_malloc ?g) = unat (g_dev_malloc g) + rounded sz"
    using unat_of_nat64 [of "unat (g_dev_malloc g) + rounded sz"] Cons.prems(1) by (simp add: r del: of_nat_add)
  have "unat (g_dev_malloc ?g) mod 256 = 0" by (subst u) (use Cons.prems(2) in \<open>simp add: rounded_def\<close>)
  moreover have "unat (g_dev_malloc ?g) + sum_list (map (rounded \<circ> snd) rs) < 2 ^ 64" using Cons.prems(1) unfolding u by (simp add: r comp_def add.assoc)
  ultimately have ih: "(\<forall>(p, sz) \<in> set qs. unat (g_dev_malloc ?g) \<le> unat p \<and> unat p mod 256 = 0 \<and> unat p + unat sz \<le> unat (g_dev_malloc g')) \<and>
      sorted_wrt (\<lambda>(p, sz) (p', sz'). unat p + unat sz \<le> unat p') qs \<and> map snd qs = map snd rs \<and> unat (g_dev_malloc ?g) \<le> unat (g_dev_malloc g')"
    by (intro Cons.IH [OF _ _ q(1)])
  show ?case using ih Cons.prems(2) rounded_ge [of sz] unfolding u q(2)
    by (auto simp: r)
qed simp

text \<open>
  Device allocations do not overlap: as long as the allocation pointer stays below the end of the address space, every
  sequence of \<^verbatim>\<open>gpu_malloc\<close> and \<^verbatim>\<open>gpu_mallocarray\<close> calls on a new device returns 256-byte aligned blocks that
  lie above the heap start and one after the other, each large enough for the size asked for.
\<close>

theorem gpu_malloc_disjoint:
  assumes "gpgpu_new = Some g" "GLOBAL_HEAP_START + sum_list (map (rounded \<circ> snd) rs) < 2 ^ 64" "alloc_run g rs = (ps, g')"
  shows "map snd ps = map snd rs \<and> (\<forall>(p, sz) \<in> set ps. GLOBAL_HEAP_START \<le> unat p \<and> unat p mod 256 = 0) \<and>
    sorted_wrt (\<lambda>(p, sz) (p', sz'). unat p + unat sz \<le> unat p') ps"
proof -
  have g: "unat (g_dev_malloc g) = GLOBAL_HEAP_START"
    using assms(1) by (auto simp: gpgpu_new_def bind_eq_Some_conv GLOBAL_HEAP_START_def)
  have "unat (g_dev_malloc g) mod 256 = 0" unfolding g GLOBAL_HEAP_START_def by simp
  from alloc_run_bounds [OF _ this assms(3)] show ?thesis using assms(2) unfolding g by fastforce
qed

lemma gpgpu_new_Some: "\<exists>g. gpgpu_new = Some g"
  using mem_space_new_ok [of 13] by (auto simp: gpgpu_new_def)

theorem gpu_malloc_disjoint_witness:
  "(case gpgpu_new of Some g \<Rightarrow> sorted_wrt (\<lambda>(p, sz) (p', sz'). unat p + unat sz \<le> unat p') (fst (alloc_run g [(False, 100), (True, 512), (False, 1)]))
    | None \<Rightarrow> False)"
proof -
  obtain g where g: "gpgpu_new = Some g" using gpgpu_new_Some by blast
  obtain ps g' where r: "alloc_run g [(False, 100), (True, 512), (False, 1)] = (ps, g')" by (cases "alloc_run g [(False, 100), (True, 512), (False, 1)]")
  show ?thesis using gpu_malloc_disjoint [OF g _ r] unfolding g option.case r fst_conv by (simp add: rounded_def GLOBAL_HEAP_START_def)
qed

end
