(* ===== verification/Dominator_Model.thy ===== *)
theory Dominator_Model
  imports Ruby_Prelude
begin

text \<open>
  Dominators and postdominators of the basic blocks of a PTX function (\<^verbatim>\<open>cuda-sim/ptx_ir.cc\<close>:
  \<^verbatim>\<open>find_dominators\<close>, \<^verbatim>\<open>find_idominators\<close>, \<^verbatim>\<open>find_postdominators\<close>,
  \<^verbatim>\<open>find_ipostdominators\<close>).  The immediate postdominator of a branch is the point where the SIMT stack lets
  divergent threads reconverge.  Blocks refer to each other by their number and to instructions by their position in the
  function.  A \<^verbatim>\<open>std::set\<close> is a set that is traversed in ascending order.  The while loops have no bound, so they are
  partial functions in the option monad, and their termination is part of what is proved.
\<close>

subsection \<open>Blocks\<close>

record basic_block =
  bb_id :: nat
  ptx_begin :: "nat option"
  ptx_end :: "nat option"
  predecessor_ids :: "nat set"
  successor_ids :: "nat set"
  postdominator_ids :: "nat set"
  dominator_ids :: "nat set"
  Tmp_ids :: "nat set"
  immediatepostdominator_id :: int
  immediatedominator_id :: int
  is_entry :: bool
  is_exit :: bool

definition basic_block_new :: "nat \<Rightarrow> nat option \<Rightarrow> nat option \<Rightarrow> bool \<Rightarrow> bool \<Rightarrow> basic_block" where
  "basic_block_new ID b e entry ex = \<lparr>bb_id = ID, ptx_begin = b, ptx_end = e, predecessor_ids = {}, successor_ids = {},
     postdominator_ids = {}, dominator_ids = {}, Tmp_ids = {}, immediatepostdominator_id = -1, immediatedominator_id = -1,
     is_entry = entry, is_exit = ex\<rparr>"

definition bb_dom :: "basic_block \<Rightarrow> basic_block \<Rightarrow> bool" where
  "bb_dom a b \<longleftrightarrow> bb_id a \<in> dominator_ids b"

definition bb_pdom :: "basic_block \<Rightarrow> basic_block \<Rightarrow> bool" where
  "bb_pdom a b \<longleftrightarrow> bb_id a \<in> postdominator_ids b"

subsection \<open>The iteration of both analyses\<close>

fun intersect_loop :: "nat set \<Rightarrow> nat list \<Rightarrow> nat set \<Rightarrow> nat set" where
  "intersect_loop B [] A = A"
| "intersect_loop B (a # as) A = intersect_loop B as (if a \<notin> B then A - {a} else A)"

definition intersect :: "nat set \<Rightarrow> nat set \<Rightarrow> nat set" where
  "intersect A B = intersect_loop B (sorted_list_of_set A) A"

definition is_equal :: "nat set \<Rightarrow> nat set \<Rightarrow> bool" where
  "is_equal A B \<longleftrightarrow> card A = card B \<and> (\<forall>b \<in> B. b \<in> A)"

type_synonym blocks = "basic_block list"

fun meet_over :: "(basic_block \<Rightarrow> nat set) \<Rightarrow> blocks \<Rightarrow> nat list \<Rightarrow> nat set \<Rightarrow> nat set option" where
  "meet_over get bbs [] T = Some T"
| "meet_over get bbs (s # ss) T = do { b \<leftarrow> vec_at bbs s; meet_over get bbs ss (intersect T (get b)) }"

text \<open>The body of the for loops: \<open>get\<close> and \<open>put\<close> access the set under computation, \<open>nxt\<close> the neighbours it is met over.\<close>

definition visit :: "(basic_block \<Rightarrow> nat set) \<Rightarrow> (nat set \<Rightarrow> basic_block \<Rightarrow> basic_block) \<Rightarrow> (basic_block \<Rightarrow> nat set) \<Rightarrow>
    blocks \<Rightarrow> nat \<Rightarrow> (bool \<times> blocks) option" where
  "visit get put nxt bbs h = do {
     b \<leftarrow> vec_at bbs h;
     assert_that (bb_id b = h);
     T \<leftarrow> meet_over get bbs (sorted_list_of_set (nxt b)) (set [0..<length bbs]);
     let T = insert h T;
     Some (if \<not> is_equal T (get b) then (True, bbs[h := put T b]) else (False, bbs))
   }"

fun sweep :: "(blocks \<Rightarrow> nat \<Rightarrow> (bool \<times> blocks) option) \<Rightarrow> nat list \<Rightarrow> bool \<Rightarrow> blocks \<Rightarrow> (bool \<times> blocks) option" where
  "sweep v [] change bbs = Some (change, bbs)"
| "sweep v (h # hs) change bbs = do { (c, bbs) \<leftarrow> v bbs h; sweep v hs (change \<or> c) bbs }"

partial_function (option) iterate :: "(blocks \<Rightarrow> nat \<Rightarrow> (bool \<times> blocks) option) \<Rightarrow> nat list \<Rightarrow> blocks \<Rightarrow> blocks option" where
  "iterate v hs bbs = Option.bind (sweep v hs False bbs) (\<lambda>(change, bbs). if change then iterate v hs bbs else Some bbs)"

declare iterate.simps [code]

subsection \<open>The four analyses\<close>

abbreviation put_dom :: "nat set \<Rightarrow> basic_block \<Rightarrow> basic_block" where
  "put_dom T b \<equiv> b\<lparr>dominator_ids := T\<rparr>"

abbreviation put_pdom :: "nat set \<Rightarrow> basic_block \<Rightarrow> basic_block" where
  "put_pdom T b \<equiv> b\<lparr>postdominator_ids := T\<rparr>"

definition dom_visit :: "blocks \<Rightarrow> nat \<Rightarrow> (bool \<times> blocks) option" where
  "dom_visit = visit dominator_ids put_dom predecessor_ids"

definition pdom_visit :: "blocks \<Rightarrow> nat \<Rightarrow> (bool \<times> blocks) option" where
  "pdom_visit = visit postdominator_ids put_pdom successor_ids"

definition insert_dom :: "nat set \<Rightarrow> basic_block \<Rightarrow> basic_block" where
  "insert_dom A b = b\<lparr>dominator_ids := dominator_ids b \<union> A\<rparr>"

definition insert_pdom :: "nat set \<Rightarrow> basic_block \<Rightarrow> basic_block" where
  "insert_pdom A b = b\<lparr>postdominator_ids := postdominator_ids b \<union> A\<rparr>"

definition clean_dom :: "basic_block \<Rightarrow> basic_block" where
  "clean_dom b = (if predecessor_ids b = {} then b\<lparr>dominator_ids := {}\<rparr> else b)"

definition find_dominators :: "blocks \<Rightarrow> blocks option" where
  "find_dominators bbs = do {
     assert_that (length bbs \<ge> 2);
     let bbs = insert_dom {bb_id (hd bbs)} (hd bbs) # map (insert_dom (set [0..<length bbs])) (tl bbs);
     bbs \<leftarrow> iterate dom_visit [1..<length bbs] bbs;
     Some (hd bbs # map clean_dom (tl bbs))
   }"

definition find_postdominators :: "blocks \<Rightarrow> blocks option" where
  "find_postdominators bbs = do {
     assert_that (length bbs \<ge> 2);
     let bbs = map (insert_pdom (set [0..<length bbs])) (butlast bbs) @ [insert_pdom {bb_id (last bbs)} (last bbs)];
     iterate pdom_visit (rev [0..<length bbs - 1]) bbs
   }"

text \<open>
  The reduction of \<^verbatim>\<open>Tmp_ids\<close>: \<open>drop_above\<close> is the inner loop, which erases what the block \<open>s\<close> stands below;
  \<open>reduce\<close> is the loop over \<open>s\<close>, whose iterator moves on to the next element that is still in the set.
\<close>

fun drop_above :: "nat set \<Rightarrow> nat \<Rightarrow> nat list \<Rightarrow> nat set \<Rightarrow> nat set" where
  "drop_above D s [] T = T"
| "drop_above D s (t # ts) T = drop_above D s ts (if s = t then T else if t \<in> D then T - {t} else T)"

function reduce :: "(basic_block \<Rightarrow> nat set) \<Rightarrow> blocks \<Rightarrow> nat list \<Rightarrow> nat set \<Rightarrow> nat set option" where
  "reduce get bbs [] T = Some T"
| "reduce get bbs (s # ss) T = do {
     b \<leftarrow> vec_at bbs s;
     let T' = drop_above (get b) s (sorted_list_of_set T) T;
     reduce get bbs (filter (\<lambda>x. x \<in> T') ss) T'
   }"
  by pat_completeness auto
termination
  by (relation "measure (\<lambda>(_, _, ss, _). length ss)") (auto simp: le_imp_less_Suc)

definition init_Tmp :: "(basic_block \<Rightarrow> nat set) \<Rightarrow> nat \<Rightarrow> basic_block \<Rightarrow> basic_block option" where
  "init_Tmp get i b = do { assert_that (bb_id b = i); Some (b\<lparr>Tmp_ids := get b - {i}\<rparr>) }"

fun init_Tmps :: "(basic_block \<Rightarrow> nat set) \<Rightarrow> nat \<Rightarrow> blocks \<Rightarrow> blocks option" where
  "init_Tmps get i [] = Some []"
| "init_Tmps get i (b # bs) = do { b \<leftarrow> init_Tmp get i b; bs \<leftarrow> init_Tmps get (Suc i) bs; Some (b # bs) }"

fun reduce_blocks :: "(basic_block \<Rightarrow> nat set) \<Rightarrow> nat list \<Rightarrow> blocks \<Rightarrow> blocks option" where
  "reduce_blocks get [] bbs = Some bbs"
| "reduce_blocks get (n # ns) bbs = do {
     b \<leftarrow> vec_at bbs n;
     T \<leftarrow> reduce get bbs (sorted_list_of_set (Tmp_ids b)) (Tmp_ids b);
     reduce_blocks get ns (bbs[n := b\<lparr>Tmp_ids := T\<rparr>])
   }"

text \<open>The last loops store the element left over and count; only the one for postdominators checks that there is at most one.\<close>

fun store_ipdoms :: "nat list \<Rightarrow> nat \<Rightarrow> blocks \<Rightarrow> (nat \<times> blocks) option" where
  "store_ipdoms [] num bbs = Some (num, bbs)"
| "store_ipdoms (n # ns) num bbs = do {
     b \<leftarrow> vec_at bbs n;
     assert_that (card (Tmp_ids b) \<le> 1);
     (if Tmp_ids b \<noteq> {}
      then store_ipdoms ns (num + 1) (bbs[n := b\<lparr>immediatepostdominator_id := int (hd (sorted_list_of_set (Tmp_ids b)))\<rparr>])
      else store_ipdoms ns num bbs)
   }"

fun store_idoms :: "nat list \<Rightarrow> nat \<Rightarrow> nat \<Rightarrow> blocks \<Rightarrow> (nat \<times> nat \<times> blocks) option" where
  "store_idoms [] num nopred bbs = Some (num, nopred, bbs)"
| "store_idoms (n # ns) num nopred bbs = do {
     b \<leftarrow> vec_at bbs n;
     (if Tmp_ids b \<noteq> {}
      then store_idoms ns (num + 1) nopred (bbs[n := b\<lparr>immediatedominator_id := int (hd (sorted_list_of_set (Tmp_ids b)))\<rparr>])
      else store_idoms ns num (if predecessor_ids b = {} then nopred + 1 else nopred) bbs)
   }"

definition find_ipostdominators :: "blocks \<Rightarrow> blocks option" where
  "find_ipostdominators bbs = do {
     assert_that (length bbs \<ge> 2);
     bbs \<leftarrow> init_Tmps postdominator_ids 0 bbs;
     bbs \<leftarrow> reduce_blocks postdominator_ids (rev [0..<length bbs - 1]) bbs;
     (num_ipdoms, bbs) \<leftarrow> store_ipdoms (rev [0..<length bbs]) 0 bbs;
     assert_that (num_ipdoms = length bbs - 1);
     Some bbs
   }"

definition find_idominators :: "blocks \<Rightarrow> blocks option" where
  "find_idominators bbs = do {
     assert_that (length bbs \<ge> 2);
     bbs \<leftarrow> init_Tmps dominator_ids 0 bbs;
     bbs \<leftarrow> reduce_blocks dominator_ids [0..<length bbs] bbs;
     (num_idoms, num_nopred, bbs) \<leftarrow> store_idoms [0..<length bbs] 0 0 bbs;
     assert_that (num_idoms = length bbs - num_nopred);
     Some bbs
   }"

subsection \<open>Walks\<close>

fun is_walk :: "(nat \<Rightarrow> nat set) \<Rightarrow> nat list \<Rightarrow> bool" where
  "is_walk nxt [] \<longleftrightarrow> False"
| "is_walk nxt [x] \<longleftrightarrow> True"
| "is_walk nxt (x # y # zs) \<longleftrightarrow> y \<in> nxt x \<and> is_walk nxt (y # zs)"

definition walks :: "(nat \<Rightarrow> nat set) \<Rightarrow> nat \<Rightarrow> nat \<Rightarrow> nat list set" where
  "walks nxt h e = {p. is_walk nxt p \<and> hd p = h \<and> last p = e}"

text \<open>The block \<open>d\<close> lies on every walk from \<open>h\<close> to \<open>e\<close>.\<close>

definition on_all_walks :: "(nat \<Rightarrow> nat set) \<Rightarrow> nat \<Rightarrow> nat \<Rightarrow> nat \<Rightarrow> bool" where
  "on_all_walks nxt e d h \<longleftrightarrow> (\<forall>p \<in> walks nxt h e. d \<in> set p)"

inductive avoids :: "(nat \<Rightarrow> nat set) \<Rightarrow> nat \<Rightarrow> nat \<Rightarrow> nat \<Rightarrow> bool" for nxt e d where
  stop: "e \<noteq> d \<Longrightarrow> avoids nxt e d e"
| move: "\<lbrakk>h \<noteq> d; s \<in> nxt h; avoids nxt e d s\<rbrakk> \<Longrightarrow> avoids nxt e d h"

inductive_simps avoids_root: "avoids nxt e d e"

lemma walk_avoids: "\<lbrakk>is_walk nxt p; d \<notin> set p\<rbrakk> \<Longrightarrow> avoids nxt (last p) d (hd p)"
  by (induction nxt p rule: is_walk.induct) (auto intro: avoids.intros)

lemma avoids_walk: "avoids nxt e d h \<Longrightarrow> \<exists>p \<in> walks nxt h e. d \<notin> set p"
proof (induction rule: avoids.induct)
  case stop
  then show ?case by (intro bexI [of _ "[e]"]) (auto simp: walks_def)
next
  case (move h s)
  then obtain p where p: "is_walk nxt p" "hd p = s" "last p = e" "d \<notin> set p" by (auto simp: walks_def)
  then have "is_walk nxt (h # p)" using move by (cases p) auto
  moreover have "p \<noteq> []" using p by auto
  ultimately show ?case using p move by (intro bexI [of _ "h # p"]) (auto simp: walks_def)
qed

lemma on_all_walks_iff: "on_all_walks nxt e d h \<longleftrightarrow> \<not> avoids nxt e d h"
  using walk_avoids avoids_walk unfolding on_all_walks_def walks_def by fastforce

lemma avoids_self: "\<not> avoids nxt e h h"
  by (auto elim: avoids.cases)

lemma avoids_end: "\<not> avoids nxt e e h"
proof
  assume "avoids nxt e e h"
  then show False by (induction rule: avoids.induct) auto
qed

lemma avoids_root_iff: "avoids nxt e d e \<longleftrightarrow> d \<noteq> e"
  using avoids_self avoids.stop by metis

lemma avoids_trans: "avoids nxt e d1 h \<Longrightarrow> avoids nxt e d1 d2 \<or> avoids nxt e d2 h"
  by (induction rule: avoids.induct) (metis avoids.intros)+

text \<open>A block can reach the end.\<close>

inductive reaches :: "(nat \<Rightarrow> nat set) \<Rightarrow> nat \<Rightarrow> nat \<Rightarrow> bool" for nxt e where
  here: "reaches nxt e e"
| there: "\<lbrakk>s \<in> nxt h; reaches nxt e s\<rbrakk> \<Longrightarrow> reaches nxt e h"

lemma walk_reaches: "is_walk nxt p \<Longrightarrow> reaches nxt (last p) (hd p)"
  by (induction nxt p rule: is_walk.induct) (auto intro: reaches.intros)

lemma reaches_iff: "reaches nxt e h \<longleftrightarrow> walks nxt h e \<noteq> {}"
proof
  assume "reaches nxt e h"
  then show "walks nxt h e \<noteq> {}"
  proof (induction rule: reaches.induct)
    case here
    have "[e] \<in> walks nxt e e" by (simp add: walks_def)
    then show ?case by blast
  next
    case (there s h)
    then obtain p where p: "is_walk nxt p" "hd p = s" "last p = e" by (auto simp: walks_def)
    then have "h # p \<in> walks nxt h e" using there(1) by (cases p) (auto simp: walks_def)
    then show ?case by blast
  qed
qed (use walk_reaches in \<open>fastforce simp: walks_def\<close>)

lemma chain: "\<lbrakk>reaches nxt e h; d1 \<noteq> d2; avoids nxt e d2 d1; avoids nxt e d1 d2\<rbrakk> \<Longrightarrow> avoids nxt e d1 h \<or> avoids nxt e d2 h"
  by (induction rule: reaches.induct) (metis avoids.intros)+

lemma antisym_aux:
  "\<lbrakk>reaches nxt e h; d1 \<noteq> d2; \<not> avoids nxt e d2 d1; \<not> avoids nxt e d1 d2\<rbrakk> \<Longrightarrow> avoids nxt e d1 h \<and> avoids nxt e d2 h"
  by (induction rule: reaches.induct) (metis avoids.intros)+

lemma avoids_antisym: "\<lbrakk>reaches nxt e d1; d1 \<noteq> d2; \<not> avoids nxt e d1 d2\<rbrakk> \<Longrightarrow> avoids nxt e d2 d1"
  using antisym_aux by metis

subsection \<open>The greatest solution\<close>

definition meet :: "nat \<Rightarrow> (nat \<Rightarrow> nat set) \<Rightarrow> (nat \<Rightarrow> nat set) \<Rightarrow> nat \<Rightarrow> nat set" where
  "meet n nxt P h = insert h ({..<n} \<inter> (\<Inter>s \<in> nxt h. P s))"

definition approx :: "nat \<Rightarrow> (nat \<Rightarrow> nat set) \<Rightarrow> nat \<Rightarrow> (nat \<Rightarrow> nat set) \<Rightarrow> bool" where
  "approx n nxt e P \<longleftrightarrow> P e = {e} \<and> (\<forall>h<n. P h \<subseteq> {..<n} \<and> (h \<noteq> e \<longrightarrow> meet n nxt P h \<subseteq> P h) \<and> (\<forall>d<n. \<not> avoids nxt e d h \<longrightarrow> d \<in> P h))"

lemma approx_start: "e < n \<Longrightarrow> approx n nxt e (\<lambda>h. if h = e then {e} else {..<n})"
  by (auto simp: approx_def meet_def avoids_root_iff)

lemma meet_mono: "\<lbrakk>\<And>s. s \<in> nxt h \<Longrightarrow> P s \<subseteq> Q s\<rbrakk> \<Longrightarrow> meet n nxt P h \<subseteq> meet n nxt Q h"
  by (auto simp: meet_def)

lemma approx_update:
  assumes P: "approx n nxt e P" and h: "h < n" "h \<noteq> e" and r: "nxt h \<subseteq> {..<n}"
  shows "approx n nxt e (P(h := meet n nxt P h))"
proof -
  let ?Q = "P(h := meet n nxt P h)"
  have sub: "?Q k \<subseteq> P k" for k using P h by (auto simp: approx_def)
  have m: "meet n nxt ?Q k \<subseteq> meet n nxt P k" for k by (rule meet_mono) (rule sub)
  have mon: "meet n nxt ?Q k \<subseteq> ?Q k" if "k < n" "k \<noteq> e" for k
    using m [of k] P that by (cases "k = h") (auto simp: approx_def)
  have range: "?Q k \<subseteq> {..<n}" if "k < n" for k using sub [of k] P that by (fastforce simp: approx_def)
  have in_P: "d \<in> P k" if "k < n" "d < n" "\<not> avoids nxt e d k" for d k using P that by (simp add: approx_def)
  have keep: "d \<in> meet n nxt P h" if d: "d < n" "\<not> avoids nxt e d h" for d
  proof (cases "d = h")
    case False
    have "d \<in> P s" if "s \<in> nxt h" for s using in_P [of s d] avoids.move [of h d s nxt e] that d False r by auto
    then show ?thesis using d by (simp add: meet_def)
  qed (simp add: meet_def)
  show ?thesis unfolding approx_def
  proof (intro conjI allI impI)
    show "?Q e = {e}" using P h by (simp add: approx_def)
    show "d \<in> ?Q k" if "k < n" "d < n" "\<not> avoids nxt e d k" for k d using in_P [of k d] keep [of d] that by (cases "k = h") simp_all
  qed (use mon range in blast)+
qed

lemma approx_fixpoint:
  assumes P: "approx n nxt e P" and stable: "\<And>h. \<lbrakk>h < n; h \<noteq> e\<rbrakk> \<Longrightarrow> meet n nxt P h = P h"
    and r: "\<And>h. h < n \<Longrightarrow> nxt h \<subseteq> {..<n}" and h: "h < n"
  shows "P h = {d. d < n \<and> \<not> avoids nxt e d h}"
proof -
  have "d \<notin> P h" if "avoids nxt e d h" for d
    using that h
  proof (induction rule: avoids.induct)
    case stop
    then show ?case using P by (simp add: approx_def)
  next
    case (move k s)
    show ?case
    proof (cases "k = e")
      case True
      then show ?thesis using P move by (simp add: approx_def)
    next
      case False
      have "d \<notin> P s" using move r by auto
      then have "d \<notin> meet n nxt P k" using move by (auto simp: meet_def)
      then show ?thesis using stable [of k] False move by simp
    qed
  qed
  then show ?thesis using P h by (auto simp: approx_def)
qed

subsection \<open>The iteration computes it\<close>

lemma intersect_loop_eq: "intersect_loop B as A = A - (set as - B)"
  by (induction "as" arbitrary: A) auto

lemma intersect_eq [simp]: "finite A \<Longrightarrow> intersect A B = A \<inter> B"
  by (auto simp: intersect_def intersect_loop_eq)

lemma is_equal_eq: "\<lbrakk>finite A; finite B\<rbrakk> \<Longrightarrow> is_equal A B \<longleftrightarrow> A = B"
  by (auto simp: is_equal_def dest: card_subset_eq)

text \<open>Blocks carry their position as number, and their neighbours exist.\<close>

definition cfg_shape :: "(basic_block \<Rightarrow> nat set) \<Rightarrow> blocks \<Rightarrow> bool" where
  "cfg_shape nxt_of bbs \<longleftrightarrow> (\<forall>h < length bbs. bb_id (bbs ! h) = h \<and> nxt_of (bbs ! h) \<subseteq> {..<length bbs})"

definition nbrs :: "(basic_block \<Rightarrow> nat set) \<Rightarrow> blocks \<Rightarrow> nat \<Rightarrow> nat set" where
  "nbrs nxt_of bbs h = (if h < length bbs then nxt_of (bbs ! h) else {})"

lemma nbrs_lt [simp]: "h < length bbs \<Longrightarrow> nbrs nxt_of bbs h = nxt_of (bbs ! h)"
  by (simp add: nbrs_def)

lemma cfg_shape_nbrs: "cfg_shape nxt_of bbs \<Longrightarrow> nbrs nxt_of bbs h \<subseteq> {..<length bbs}"
  by (simp add: cfg_shape_def nbrs_def)

lemma frame_nbrs:
  assumes "map f bbs' = map f bbs" "\<And>b. nxt_of (f b) = nxt_of b"
  shows "nbrs nxt_of bbs' = nbrs nxt_of bbs"
proof
  fix h
  have "length bbs' = length bbs" using assms(1) by (rule map_eq_imp_length_eq)
  moreover have "nxt_of (bbs' ! h) = nxt_of (bbs ! h)" if "h < length bbs"
    using assms(2) [of "bbs' ! h"] assms(2) [of "bbs ! h"] arg_cong [OF assms(1), of "\<lambda>xs. xs ! h"] that calculation by simp
  ultimately show "nbrs nxt_of bbs' h = nbrs nxt_of bbs h" by (simp add: nbrs_def)
qed

lemma approx_cong:
  assumes "\<And>h. h < n \<Longrightarrow> P h = Q h" "\<And>h. nxt h \<subseteq> {..<n}" "e < n" "approx n nxt e P"
  shows "approx n nxt e Q"
proof -
  have "meet n nxt P h = meet n nxt Q h" for h unfolding meet_def using assms(1,2) by (intro arg_cong [of _ _ "insert h"] arg_cong2 [of _ _ _ _ "(\<inter>)"] INF_cong) auto
  then show ?thesis using assms by (simp add: approx_def)
qed

locale block_analysis =
  fixes get :: "basic_block \<Rightarrow> nat set" and put :: "nat set \<Rightarrow> basic_block \<Rightarrow> basic_block" and nxt_of :: "basic_block \<Rightarrow> nat set"
  assumes get_put [simp]: "get (put T b) = T"
    and nxt_put [simp]: "nxt_of (put T b) = nxt_of b"
    and id_put [simp]: "bb_id (put T b) = bb_id b"
    and put_put [simp]: "put T (put U b) = put T b"
begin

abbreviation nx :: "blocks \<Rightarrow> nat \<Rightarrow> nat set" where "nx bbs \<equiv> nbrs nxt_of bbs"

abbreviation sol :: "blocks \<Rightarrow> nat \<Rightarrow> nat set" where "sol bbs h \<equiv> get (bbs ! h)"

lemma meet_over_eq:
  "\<lbrakk>\<forall>s \<in> set ss. s < length bbs; finite T\<rbrakk> \<Longrightarrow> meet_over get bbs ss T = Some (T \<inter> (\<Inter>s \<in> set ss. sol bbs s))"
  by (induction ss arbitrary: T) (auto simp: vec_at_def Int_assoc)

abbreviation upd :: "blocks \<Rightarrow> nat \<Rightarrow> blocks" where
  "upd bbs h \<equiv> bbs[h := put (meet (length bbs) (nx bbs) (sol bbs) h) (bbs ! h)]"

lemma visit_eq:
  assumes "cfg_shape nxt_of bbs" "h < length bbs" "finite (sol bbs h)"
  shows "visit get put nxt_of bbs h = Some (if meet (length bbs) (nx bbs) (sol bbs) h = sol bbs h then (False, bbs) else (True, upd bbs h))"
proof -
  have r: "nx bbs h \<subseteq> {..<length bbs}" using assms(1) by (rule cfg_shape_nbrs)
  have "finite (nx bbs h)" by (rule finite_subset [OF r]) simp
  with r have "meet_over get bbs (sorted_list_of_set (nx bbs h)) (set [0..<length bbs]) = Some ({..<length bbs} \<inter> (\<Inter>s \<in> nx bbs h. sol bbs s))"
    using r by (subst meet_over_eq) (auto simp: atLeast0LessThan)
  moreover have "finite (meet (length bbs) (nx bbs) (sol bbs) h)" by (simp add: meet_def)
  ultimately show ?thesis using assms
    by (simp add: visit_def vec_at_def cfg_shape_def is_equal_eq meet_def)
qed

lemma approx_sol:
  assumes "cfg_shape nxt_of bbs" "approx (length bbs) (nx bbs) e (sol bbs)" "h < length bbs"
  shows "finite (sol bbs h)"
  using assms finite_subset by (auto simp: approx_def)

lemma upd_fun:
  assumes "h < length bbs"
  shows "nx (upd bbs h) = nx bbs" "sol (upd bbs h) = (sol bbs)(h := meet (length bbs) (nx bbs) (sol bbs) h)"
  using assms by (auto simp: fun_eq_iff nth_list_update nbrs_def)

lemma upd_shape: "\<lbrakk>cfg_shape nxt_of bbs; h < length bbs\<rbrakk> \<Longrightarrow> cfg_shape nxt_of (upd bbs h)"
  by (auto simp: cfg_shape_def nth_list_update)

lemma upd_approx:
  assumes "cfg_shape nxt_of bbs" "approx (length bbs) (nx bbs) e (sol bbs)" "h < length bbs" "h \<noteq> e"
  shows "approx (length bbs) (nx (upd bbs h)) e (sol (upd bbs h))"
  unfolding upd_fun [OF assms(3)] by (rule approx_update) (use assms cfg_shape_nbrs [OF assms(1)] in blast)+

abbreviation weight :: "blocks \<Rightarrow> nat" where "weight bbs \<equiv> (\<Sum>k<length bbs. card (sol bbs k))"

lemma upd_weight:
  assumes "cfg_shape nxt_of bbs" "approx (length bbs) (nx bbs) e (sol bbs)" "h < length bbs" "h \<noteq> e"
    "meet (length bbs) (nx bbs) (sol bbs) h \<noteq> sol bbs h"
  shows "weight (upd bbs h) < weight bbs"
proof -
  have f: "finite (sol bbs h)" using assms approx_sol by blast
  have "meet (length bbs) (nx bbs) (sol bbs) h \<subset> sol bbs h" using assms by (auto simp: approx_def)
  then have "card (meet (length bbs) (nx bbs) (sol bbs) h) < card (sol bbs h)" using f by (rule psubset_card_mono [rotated])
  then have "(\<Sum>k<length bbs. card (((sol bbs)(h := meet (length bbs) (nx bbs) (sol bbs) h)) k)) < weight bbs"
    using assms(3) by (intro sum_strict_mono_ex1) auto
  moreover have "weight (upd bbs h) = (\<Sum>k<length bbs. card (((sol bbs)(h := meet (length bbs) (nx bbs) (sol bbs) h)) k))"
    using assms(3) by (auto intro!: sum.cong simp: nth_list_update)
  ultimately show ?thesis by simp
qed

text \<open>What a sweep over the blocks \<open>hs\<close> leaves.\<close>

lemma sweep_eq:
  assumes "cfg_shape nxt_of bbs" "approx (length bbs) (nx bbs) e (sol bbs)" "\<forall>h \<in> set hs. h < length bbs \<and> h \<noteq> e"
  shows "\<exists>c bbs'. sweep (visit get put nxt_of) hs change bbs = Some (change \<or> c, bbs') \<and> map (put {}) bbs' = map (put {}) bbs \<and>
    cfg_shape nxt_of bbs' \<and> nx bbs' = nx bbs \<and> approx (length bbs) (nx bbs) e (sol bbs') \<and>
    (if c then weight bbs' < weight bbs else bbs' = bbs \<and> (\<forall>h \<in> set hs. meet (length bbs) (nx bbs) (sol bbs) h = sol bbs h))"
  using assms
proof (induction hs arbitrary: change bbs)
  case (Cons h hs)
  have h: "h < length bbs" "h \<noteq> e" and hs: "\<forall>h \<in> set hs. h < length bbs \<and> h \<noteq> e" using Cons.prems(3) by simp_all
  have v: "visit get put nxt_of bbs h = Some (if meet (length bbs) (nx bbs) (sol bbs) h = sol bbs h then (False, bbs) else (True, upd bbs h))"
    using Cons.prems h by (intro visit_eq approx_sol) auto
  show ?case
  proof (cases "meet (length bbs) (nx bbs) (sol bbs) h = sol bbs h")
    case True
    then have "sweep (visit get put nxt_of) (h # hs) change bbs = sweep (visit get put nxt_of) hs change bbs" using v by simp
    then show ?thesis using Cons.IH [OF Cons.prems(1,2) hs, of change] True by (metis (no_types, lifting) set_ConsD)
  next
    case False
    note w = upd_weight [OF Cons.prems(1,2) h False]
    have "map (put {}) (upd bbs h) = map (put {}) bbs" using h by (simp add: map_update list_update_same_conv)
    moreover obtain c bbs' where "sweep (visit get put nxt_of) hs True (upd bbs h) = Some (True \<or> c, bbs')" "map (put {}) bbs' = map (put {}) (upd bbs h)"
      "cfg_shape nxt_of bbs'" "nx bbs' = nx bbs" "approx (length bbs) (nx bbs) e (sol bbs')" "weight bbs' \<le> weight (upd bbs h)"
      using Cons.IH [of "upd bbs h" True] upd_shape [OF Cons.prems(1) h(1)] upd_approx [OF Cons.prems(1,2) h] hs
      unfolding upd_fun(1) [OF h(1)] by (auto split: if_splits)
    ultimately show ?thesis using v False w by (intro exI [of _ True] exI [of _ bbs']) auto
  qed
qed auto

lemma iterate_eq:
  assumes "cfg_shape nxt_of bbs" "approx (length bbs) (nx bbs) e (sol bbs)" "set hs = {..<length bbs} - {e}"
  shows "\<exists>bbs'. iterate (visit get put nxt_of) hs bbs = Some bbs' \<and> map (put {}) bbs' = map (put {}) bbs \<and>
    (\<forall>h < length bbs. sol bbs' h = {d. d < length bbs \<and> \<not> avoids (nx bbs) e d h})"
  using assms
proof (induction "weight bbs" arbitrary: bbs rule: less_induct)
  case less
  have hs: "\<forall>h \<in> set hs. h < length bbs \<and> h \<noteq> e" using less.prems(3) by auto
  obtain c bbs1 where s: "sweep (visit get put nxt_of) hs False bbs = Some (c, bbs1)" "map (put {}) bbs1 = map (put {}) bbs"
    "cfg_shape nxt_of bbs1" "nx bbs1 = nx bbs" "approx (length bbs) (nx bbs) e (sol bbs1)"
    "if c then weight bbs1 < weight bbs else bbs1 = bbs \<and> (\<forall>h \<in> set hs. meet (length bbs) (nx bbs) (sol bbs) h = sol bbs h)"
    using sweep_eq [OF less.prems(1,2) hs, of False] by auto
  have len: "length bbs1 = length bbs" using s(2) by (rule map_eq_imp_length_eq)
  show ?case
  proof (cases c)
    case True
    then show ?thesis using less.hyps [of bbs1] s len less.prems(3)
      by (subst iterate.simps) simp
  next
    case False
    then have "bbs1 = bbs" and st: "\<And>h. \<lbrakk>h < length bbs; h \<noteq> e\<rbrakk> \<Longrightarrow> meet (length bbs) (nx bbs) (sol bbs) h = sol bbs h"
      using s(6) less.prems(3) by auto
    moreover have "sol bbs h = {d. d < length bbs \<and> \<not> avoids (nx bbs) e d h}" if "h < length bbs" for h
      using that by (intro approx_fixpoint [OF less.prems(2) st] cfg_shape_nbrs [OF less.prems(1)])
    ultimately show ?thesis using s(1) False by (subst iterate.simps) simp
  qed
qed

end

subsection \<open>Dominators and postdominators\<close>

interpretation dom_sets: block_analysis dominator_ids put_dom predecessor_ids
  by unfold_locales simp_all

interpretation pdom_sets: block_analysis postdominator_ids put_pdom successor_ids
  by unfold_locales simp_all

text \<open>The blocks of a function before an analysis: the distinguished block's set is still empty or only its own number.\<close>

definition fresh_at :: "(basic_block \<Rightarrow> nat set) \<Rightarrow> nat \<Rightarrow> blocks \<Rightarrow> bool" where
  "fresh_at get e bbs \<longleftrightarrow> get (bbs ! e) \<subseteq> {e} \<and> (\<forall>h < length bbs. get (bbs ! h) \<subseteq> {..<length bbs})"

abbreviation succs :: "blocks \<Rightarrow> nat \<Rightarrow> nat set" where "succs bbs \<equiv> nbrs successor_ids bbs"

abbreviation preds :: "blocks \<Rightarrow> nat \<Rightarrow> nat set" where "preds bbs \<equiv> nbrs predecessor_ids bbs"

lemma map_nth_eq: "\<lbrakk>map f xs = map f ys; h < length ys\<rbrakk> \<Longrightarrow> f (xs ! h) = f (ys ! h)"
  by (metis length_map nth_map)

lemma frame_shape:
  assumes "map f bbs' = map f bbs" "\<And>b. nxt_of (f b) = nxt_of b" "\<And>b. bb_id (f b) = bb_id b" "cfg_shape nxt_of bbs"
  shows "cfg_shape nxt_of bbs'"
proof -
  have l: "length bbs' = length bbs" using assms(1) by (rule map_eq_imp_length_eq)
  have "nxt_of (bbs' ! h) = nxt_of (bbs ! h) \<and> bb_id (bbs' ! h) = bb_id (bbs ! h)" if "h < length bbs" for h
    using map_nth_eq [OF assms(1) that] assms(2,3) by metis
  then show ?thesis using assms(4) l by (simp add: cfg_shape_def)
qed

lemma find_postdominators_eq:
  assumes len: "2 \<le> length bbs" and sh: "cfg_shape successor_ids bbs" and fr: "fresh_at postdominator_ids (length bbs - 1) bbs"
  shows "\<exists>bbs'. find_postdominators bbs = Some bbs' \<and> map (put_pdom {}) bbs' = map (put_pdom {}) bbs \<and>
    (\<forall>h < length bbs. postdominator_ids (bbs' ! h) = {d. d < length bbs \<and> \<not> avoids (succs bbs) (length bbs - 1) d h})"
proof -
  let ?n = "length bbs" and ?e = "length bbs - 1"
  let ?b = "map (insert_pdom (set [0..<length bbs])) (butlast bbs) @ [insert_pdom {bb_id (last bbs)} (last bbs)]"
  have l: "length ?b = ?n" using len by simp
  have last: "last bbs = bbs ! ?e" using len by (intro last_conv_nth) auto
  have nth: "?b ! h = (if h = ?e then insert_pdom {?e} (bbs ! h) else insert_pdom {..<?n} (bbs ! h))" if "h < ?n" for h
    using that len sh by (auto simp: nth_append nth_butlast last cfg_shape_def atLeast0LessThan)
  have fm: "map (put_pdom {}) ?b = map (put_pdom {}) bbs"
    by (rule nth_equalityI) (use l nth in \<open>simp_all add: insert_pdom_def del: map_append\<close>)
  have sh1: "cfg_shape successor_ids ?b" by (rule frame_shape [OF fm _ _ sh]) simp_all
  have nb: "succs ?b = succs bbs" by (rule frame_nbrs [OF fm]) simp
  have "approx ?n (succs bbs) ?e (\<lambda>h. if h = ?e then {?e} else {..<?n})" using len by (intro approx_start) simp
  then have "approx ?n (succs bbs) ?e (\<lambda>h. postdominator_ids (?b ! h))"
    by (rule approx_cong [rotated 3]) (use nth fr len cfg_shape_nbrs [OF sh] in \<open>auto simp: insert_pdom_def fresh_at_def\<close>)
  moreover have "set (rev [0..<length ?b - 1]) = {..<length ?b} - {?e}" using l by auto
  ultimately obtain bbs' where "iterate pdom_visit (rev [0..<length ?b - 1]) ?b = Some bbs'" "map (put_pdom {}) bbs' = map (put_pdom {}) ?b"
      "\<forall>h < ?n. postdominator_ids (bbs' ! h) = {d. d < ?n \<and> \<not> avoids (succs bbs) ?e d h}"
    using pdom_sets.iterate_eq [OF sh1, of ?e "rev [0..<length ?b - 1]"] unfolding l nb pdom_visit_def by blast
  then show ?thesis using len fm by (simp add: find_postdominators_def Let_def)
qed

lemma find_dominators_eq:
  assumes len: "2 \<le> length bbs" and sh: "cfg_shape predecessor_ids bbs" and fr: "fresh_at dominator_ids 0 bbs"
  shows "\<exists>bbs'. find_dominators bbs = Some bbs' \<and> map (put_dom {}) bbs' = map (put_dom {}) bbs \<and>
    (\<forall>h < length bbs. dominator_ids (bbs' ! h) =
       (if h \<noteq> 0 \<and> preds bbs h = {} then {} else {d. d < length bbs \<and> \<not> avoids (preds bbs) 0 d h}))"
proof -
  let ?n = "length bbs"
  let ?b = "insert_dom {bb_id (hd bbs)} (hd bbs) # map (insert_dom (set [0..<length bbs])) (tl bbs)"
  have l: "length ?b = ?n" using len by simp
  have nth: "?b ! h = (if h = 0 then insert_dom {0} (bbs ! h) else insert_dom {..<?n} (bbs ! h))" if "h < ?n" for h
    using that len sh by (cases bbs; cases h) (auto simp: cfg_shape_def atLeast0LessThan lessThan_Suc)
  have fm: "map (put_dom {}) ?b = map (put_dom {}) bbs"
    by (rule nth_equalityI, use l in simp) (simp only: length_map l nth_map, use nth in \<open>simp add: insert_dom_def\<close>)
  have sh1: "cfg_shape predecessor_ids ?b" by (rule frame_shape [OF fm _ _ sh]) simp_all
  have nb: "preds ?b = preds bbs" by (rule frame_nbrs [OF fm]) simp
  have "approx ?n (preds bbs) 0 (\<lambda>h. if h = 0 then {0} else {..<?n})" using len by (intro approx_start) linarith
  then have "approx ?n (preds bbs) 0 (\<lambda>h. dominator_ids (?b ! h))"
    by (rule approx_cong [rotated 3]) (use nth fr len cfg_shape_nbrs [OF sh] in \<open>auto simp: insert_dom_def fresh_at_def\<close>)
  moreover have "set [1..<length ?b] = {..<length ?b} - {0}" by auto
  ultimately obtain bbs' where it: "iterate dom_visit [1..<length ?b] ?b = Some bbs'" "map (put_dom {}) bbs' = map (put_dom {}) ?b"
      "\<forall>h < ?n. dominator_ids (bbs' ! h) = {d. d < ?n \<and> \<not> avoids (preds bbs) 0 d h}"
    using dom_sets.iterate_eq [OF sh1, of 0 "[1..<length ?b]"] unfolding l nb dom_visit_def by blast
  have l': "length bbs' = ?n" using map_eq_imp_length_eq [OF it(2)] l by simp
  have nb': "preds bbs' = preds bbs" using frame_nbrs [OF it(2), of predecessor_ids] nb by simp
  let ?r = "hd bbs' # map clean_dom (tl bbs')"
  have nthr: "?r ! h = (if h = 0 then bbs' ! 0 else clean_dom (bbs' ! h))" if "h < ?n" for h
    using that len l' by (cases bbs'; cases h) auto
  have "put_dom {} (clean_dom b) = put_dom {} b" for b by (simp add: clean_dom_def)
  then have "map (put_dom {}) ?r = map (put_dom {}) bbs'" using l' len by (cases bbs') auto
  moreover have "dominator_ids (?r ! h) = (if h \<noteq> 0 \<and> preds bbs h = {} then {} else {d. d < ?n \<and> \<not> avoids (preds bbs) 0 d h})" if "h < ?n" for h
    using nthr [OF that] it(3) that fun_cong [OF nb', of h] l' by (auto simp: clean_dom_def)
  ultimately show ?thesis using len it fm by (auto simp: find_dominators_def Let_def)
qed

subsection \<open>Immediate dominators and postdominators\<close>

lemma drop_above_eq: "drop_above D s ts T = T - {t \<in> set ts. t \<noteq> s \<and> t \<in> D}"
  by (induction ts arbitrary: T) auto

lemma drop_above_all: "finite T \<Longrightarrow> drop_above D s (sorted_list_of_set T) T = {t \<in> T. t = s \<or> t \<notin> D}"
  by (auto simp: drop_above_eq)

lemma reduce_least:
  assumes "\<forall>s \<in> T0. s < length bbs \<and> (s \<noteq> m \<longrightarrow> s \<in> get (bbs ! m) \<and> m \<notin> get (bbs ! s))" "finite T0"
    "set ss \<subseteq> T" "T \<subseteq> T0" "m \<in> T" "m \<in> set ss \<or> T = {m}"
  shows "reduce get bbs ss T = Some {m}"
  using assms(3-)
proof (induction "length ss" arbitrary: ss T rule: less_induct)
  case less
  show ?case
  proof (cases ss)
    case Nil
    then show ?thesis using less.prems by simp
  next
    case (Cons s rest)
    have s: "s \<in> T" "s < length bbs" "finite T" using less.prems assms(1,2) Cons finite_subset by auto
    let ?T = "{t \<in> T. t = s \<or> t \<notin> get (bbs ! s)}"
    have "reduce get bbs ss T = reduce get bbs (filter (\<lambda>x. x \<in> ?T) rest) ?T"
      using s Cons by (simp add: vec_at_def drop_above_all Let_def)
    also have "\<dots> = Some {m}"
    proof (rule less.hyps)
      show "length (filter (\<lambda>x. x \<in> ?T) rest) < length ss" using Cons by (simp add: le_imp_less_Suc)
      show "m \<in> ?T" using less.prems assms(1) s by (cases "s = m") auto
      show "m \<in> set (filter (\<lambda>x. x \<in> ?T) rest) \<or> ?T = {m}"
      proof (cases "s = m")
        case True
        have "?T \<subseteq> {m}" using assms(1) less.prems(2) True by auto
        then show ?thesis using \<open>m \<in> ?T\<close> by blast
      next
        case False
        then have "m \<in> set rest" using less.prems(4) s(1) Cons by auto
        then show ?thesis using \<open>m \<in> ?T\<close> by simp
      qed
    qed (use less.prems in auto)
    finally show ?thesis .
  qed
qed

lemma reduce_cong: "map get bbs' = map get bbs \<Longrightarrow> reduce get bbs' ss T = reduce get bbs ss T"
proof (induction get bbs ss T rule: reduce.induct)
  case (2 get bbs s ss T)
  have l: "length bbs' = length bbs" using 2(2) by (rule map_eq_imp_length_eq)
  show ?case
  proof (cases "s < length bbs")
    case True
    then have "get (bbs' ! s) = get (bbs ! s)" using map_nth_eq [OF 2(2)] by simp
    then show ?thesis using 2 True l by (simp add: vec_at_def Let_def)
  next
    case False
    then show ?thesis using l by (simp add: vec_at_def)
  qed
qed simp

lemma reduce_blocks_eq:
  assumes "\<And>b T. get (b\<lparr>Tmp_ids := T\<rparr>) = get b" "distinct ns"
    "\<And>n. n \<in> set ns \<Longrightarrow> n < length bbs \<and> reduce get bbs (sorted_list_of_set (Tmp_ids (bbs ! n))) (Tmp_ids (bbs ! n)) = Some (M n)"
  shows "\<exists>bbs'. reduce_blocks get ns bbs = Some bbs' \<and> length bbs' = length bbs \<and>
    (\<forall>h < length bbs. bbs' ! h = (if h \<in> set ns then (bbs ! h)\<lparr>Tmp_ids := M h\<rparr> else bbs ! h))"
  using assms(2,3)
proof (induction ns arbitrary: bbs)
  case (Cons n ns)
  let ?b = "bbs[n := (bbs ! n)\<lparr>Tmp_ids := M n\<rparr>]"
  have n: "n < length bbs" "reduce get bbs (sorted_list_of_set (Tmp_ids (bbs ! n))) (Tmp_ids (bbs ! n)) = Some (M n)"
    using Cons.prems(2) [of n] by simp_all
  have mg: "map get ?b = map get bbs" using n(1) assms(1) by (simp add: map_update list_update_same_conv)
  have "k < length ?b \<and> reduce get ?b (sorted_list_of_set (Tmp_ids (?b ! k))) (Tmp_ids (?b ! k)) = Some (M k)" if "k \<in> set ns" for k
  proof -
    have "n \<noteq> k" using Cons.prems(1) that by auto
    then show ?thesis unfolding reduce_cong [OF mg] using Cons.prems(2) [of k] that by simp
  qed
  from Cons.IH [OF _ this] Cons.prems(1) obtain bbs' where "reduce_blocks get ns ?b = Some bbs'" "length bbs' = length bbs"
      "\<forall>h < length bbs. bbs' ! h = (if h \<in> set ns then (?b ! h)\<lparr>Tmp_ids := M h\<rparr> else ?b ! h)"
    by auto
  then show ?case using n Cons.prems(1) by (auto simp: vec_at_def nth_list_update)
qed simp

lemma init_Tmps_eq:
  "\<forall>k < length bs. bb_id (bs ! k) = i + k \<Longrightarrow> init_Tmps get i bs = Some (map (\<lambda>b. b\<lparr>Tmp_ids := get b - {bb_id b}\<rparr>) bs)"
proof (induction bs arbitrary: i)
  case (Cons b bs)
  have "bb_id b = i" "\<forall>k < length bs. bb_id (bs ! k) = Suc i + k" using Cons.prems by (force dest: spec [of _ "Suc _"])+
  then show ?case using Cons.IH by (simp add: init_Tmp_def)
qed simp

text \<open>Among the blocks other than \<open>h\<close> on all its walks there is a nearest one.\<close>

lemma nearest_aux:
  assumes "reaches nxt e h" "finite S" "S \<noteq> {}" "\<And>d. d \<in> S \<Longrightarrow> \<not> avoids nxt e d h"
  shows "\<exists>m \<in> S. \<forall>t \<in> S. \<not> avoids nxt e t m"
  using assms(2-)
proof (induction S rule: finite_ne_induct)
  case (singleton x)
  then show ?case using avoids_self by simp
next
  case (insert x S)
  then obtain m where m: "m \<in> S" "\<forall>t \<in> S. \<not> avoids nxt e t m" by auto
  show ?case
  proof (cases "avoids nxt e x m")
    case True
    then have "\<not> avoids nxt e m x" using chain [OF assms(1), of x m] insert.prems m(1) insert.hyps by auto
    then have "\<forall>t \<in> S. \<not> avoids nxt e t x" using m avoids_trans [of nxt e _ x m] by blast
    then show ?thesis using avoids_self by auto
  next
    case False
    then show ?thesis using m by auto
  qed
qed

definition immediate :: "(nat \<Rightarrow> nat set) \<Rightarrow> nat \<Rightarrow> nat \<Rightarrow> nat \<Rightarrow> bool" where
  "immediate nxt e m h \<longleftrightarrow> m \<noteq> h \<and> on_all_walks nxt e m h \<and> (\<forall>d. d \<noteq> h \<and> on_all_walks nxt e d h \<longrightarrow> on_all_walks nxt e d m)"

lemma reaches_bounded:
  assumes "reaches nxt e h" "h < n" "\<And>k. nxt k \<subseteq> {..<n}" "\<not> avoids nxt e d h"
  shows "d < n"
proof -
  obtain p where p: "p \<in> walks nxt h e" using assms(1) reaches_iff by blast
  have "set p \<subseteq> {..<n}" if "is_walk nxt p" "hd p < n" for p
    using that assms(3) by (induction nxt p rule: is_walk.induct) auto
  moreover have "d \<in> set p" using iffD2 [OF on_all_walks_iff assms(4)] p by (auto simp: on_all_walks_def)
  ultimately show ?thesis using p assms(2) by (auto simp: walks_def)
qed

lemma reduce_immediate:
  assumes sh: "cfg_shape nxt_of bbs" and e: "e < length bbs"
    and reach: "\<And>k. k < length bbs \<Longrightarrow> reaches (nbrs nxt_of bbs) e k"
    and sets: "\<And>k. k < length bbs \<Longrightarrow> get (bbs ! k) = {d. d < length bbs \<and> \<not> avoids (nbrs nxt_of bbs) e d k}"
    and h: "h < length bbs" "h \<noteq> e"
  shows "\<exists>m < length bbs. immediate (nbrs nxt_of bbs) e m h \<and>
    reduce get bbs (sorted_list_of_set (get (bbs ! h) - {h})) (get (bbs ! h) - {h}) = Some {m}"
proof -
  let ?T = "get (bbs ! h) - {h}" and ?nx = "nbrs nxt_of bbs"
  have T: "?T = {d. d < length bbs \<and> d \<noteq> h \<and> \<not> avoids ?nx e d h}" using sets [OF h(1)] by auto
  have fin: "finite ?T" unfolding T by simp
  have "e \<in> ?T" unfolding T using e h avoids_end by auto
  then obtain m where m: "m \<in> ?T" "\<forall>t \<in> ?T. \<not> avoids ?nx e t m"
    using nearest_aux [OF reach [OF h(1)], of ?T] fin T by blast
  have ml: "m < length bbs" using m(1) T by simp
  have "\<forall>s \<in> ?T. s < length bbs \<and> (s \<noteq> m \<longrightarrow> s \<in> get (bbs ! m) \<and> m \<notin> get (bbs ! s))"
  proof (intro ballI conjI impI)
    fix s assume s: "s \<in> ?T"
    then show sl: "s < length bbs" using T by simp
    show "s \<in> get (bbs ! m)" using s m(2) sets [OF ml] sl by auto
    show "m \<notin> get (bbs ! s)" if "s \<noteq> m"
      using avoids_antisym [OF reach [OF sl] that] m(2) s sets [OF sl] by auto
  qed
  then have "reduce get bbs (sorted_list_of_set ?T) ?T = Some {m}"
    by (rule reduce_least [OF _ fin]) (use m(1) fin in auto)
  moreover have "immediate ?nx e m h"
    using m T reaches_bounded [OF reach [OF h(1)] h(1) cfg_shape_nbrs [OF sh]]
    by (auto simp: immediate_def on_all_walks_iff)
  ultimately show ?thesis using ml by auto
qed

lemma store_ipdoms_eq:
  assumes "distinct ns" "\<And>k. k \<in> set ns \<Longrightarrow> k < length bbs \<and> (Tmp_ids (bbs ! k) = {} \<or> Tmp_ids (bbs ! k) = {M k})"
  shows "\<exists>bbs'. store_ipdoms ns num bbs = Some (num + card {k \<in> set ns. Tmp_ids (bbs ! k) \<noteq> {}}, bbs') \<and> length bbs' = length bbs \<and>
    (\<forall>h < length bbs. bbs' ! h = (if h \<in> set ns \<and> Tmp_ids (bbs ! h) \<noteq> {} then (bbs ! h)\<lparr>immediatepostdominator_id := int (M h)\<rparr> else bbs ! h))"
  using assms
proof (induction ns arbitrary: num bbs)
  case (Cons n ns)
  have n: "n < length bbs" "n \<notin> set ns" "distinct ns" using Cons.prems by auto
  show ?case
  proof (cases "Tmp_ids (bbs ! n) = {}")
    case True
    have "{k. (k = n \<or> k \<in> set ns) \<and> Tmp_ids (bbs ! k) \<noteq> {}} = {k \<in> set ns. Tmp_ids (bbs ! k) \<noteq> {}}" using True by auto
    then show ?thesis using Cons.IH [of bbs num] Cons.prems n True by (auto simp: vec_at_def)
  next
    case False
    then have T: "Tmp_ids (bbs ! n) = {M n}" using Cons.prems(2) [of n] by auto
    let ?b = "bbs[n := (bbs ! n)\<lparr>immediatepostdominator_id := int (M n)\<rparr>]"
    have Tmp: "Tmp_ids (?b ! k) = Tmp_ids (bbs ! k)" for k using n(1) by (cases "k = n") simp_all
    have "{k. (k = n \<or> k \<in> set ns) \<and> Tmp_ids (bbs ! k) \<noteq> {}} = insert n {k \<in> set ns. Tmp_ids (bbs ! k) \<noteq> {}}" using False by auto
    then have c: "card {k \<in> set (n # ns). Tmp_ids (bbs ! k) \<noteq> {}} = Suc (card {k \<in> set ns. Tmp_ids (bbs ! k) \<noteq> {}})" using n(2) by simp
    obtain bbs' where "store_ipdoms ns (num + 1) ?b = Some (num + 1 + card {k \<in> set ns. Tmp_ids (bbs ! k) \<noteq> {}}, bbs')" "length bbs' = length bbs"
        "\<forall>h < length bbs. bbs' ! h = (if h \<in> set ns \<and> Tmp_ids (bbs ! h) \<noteq> {} then (?b ! h)\<lparr>immediatepostdominator_id := int (M h)\<rparr> else ?b ! h)"
      using Cons.IH [OF n(3), of ?b "num + 1"] Cons.prems(2) unfolding Tmp by auto
    then show ?thesis using n T c by (auto simp: vec_at_def nth_list_update)
  qed
qed simp

lemma store_idoms_eq:
  assumes "distinct ns" "\<And>k. k \<in> set ns \<Longrightarrow> k < length bbs \<and> (Tmp_ids (bbs ! k) = {} \<or> Tmp_ids (bbs ! k) = {M k})"
  shows "\<exists>bbs'. store_idoms ns num nopred bbs = Some (num + card {k \<in> set ns. Tmp_ids (bbs ! k) \<noteq> {}},
      nopred + card {k \<in> set ns. Tmp_ids (bbs ! k) = {} \<and> predecessor_ids (bbs ! k) = {}}, bbs') \<and> length bbs' = length bbs \<and>
    (\<forall>h < length bbs. bbs' ! h = (if h \<in> set ns \<and> Tmp_ids (bbs ! h) \<noteq> {} then (bbs ! h)\<lparr>immediatedominator_id := int (M h)\<rparr> else bbs ! h))"
  using assms
proof (induction ns arbitrary: num nopred bbs)
  case (Cons n ns)
  have n: "n < length bbs" "n \<notin> set ns" "distinct ns" using Cons.prems by auto
  have ins: "{k \<in> set (n # ns). P k} = (if P n then insert n {k \<in> set ns. P k} else {k \<in> set ns. P k})" for P by auto
  have c: "card {k \<in> set (n # ns). P k} = (if P n then Suc (card {k \<in> set ns. P k}) else card {k \<in> set ns. P k})" for P
    unfolding ins using n(2) by simp
  show ?case
  proof (cases "Tmp_ids (bbs ! n) = {}")
    case True
    let ?p = "if predecessor_ids (bbs ! n) = {} then nopred + 1 else nopred"
    obtain bbs' where "store_idoms ns num ?p bbs = Some (num + card {k \<in> set ns. Tmp_ids (bbs ! k) \<noteq> {}},
        ?p + card {k \<in> set ns. Tmp_ids (bbs ! k) = {} \<and> predecessor_ids (bbs ! k) = {}}, bbs')" "length bbs' = length bbs"
        "\<forall>h < length bbs. bbs' ! h = (if h \<in> set ns \<and> Tmp_ids (bbs ! h) \<noteq> {} then (bbs ! h)\<lparr>immediatedominator_id := int (M h)\<rparr> else bbs ! h)"
      using Cons.IH [of bbs num ?p] Cons.prems n by auto
    then show ?thesis using n True unfolding c by (intro exI [of _ bbs']) (auto simp: vec_at_def)
  next
    case False
    then have T: "Tmp_ids (bbs ! n) = {M n}" using Cons.prems(2) [of n] by auto
    let ?b = "bbs[n := (bbs ! n)\<lparr>immediatedominator_id := int (M n)\<rparr>]"
    have Tmp: "Tmp_ids (?b ! k) = Tmp_ids (bbs ! k)" "predecessor_ids (?b ! k) = predecessor_ids (bbs ! k)" for k
      using n(1) by (cases "k = n", simp_all)+
    obtain bbs' where "store_idoms ns (num + 1) nopred ?b = Some (num + 1 + card {k \<in> set ns. Tmp_ids (bbs ! k) \<noteq> {}},
        nopred + card {k \<in> set ns. Tmp_ids (bbs ! k) = {} \<and> predecessor_ids (bbs ! k) = {}}, bbs')" "length bbs' = length bbs"
        "\<forall>h < length bbs. bbs' ! h = (if h \<in> set ns \<and> Tmp_ids (bbs ! h) \<noteq> {} then (?b ! h)\<lparr>immediatedominator_id := int (M h)\<rparr> else ?b ! h)"
      using Cons.IH [OF n(3), of ?b "num + 1" nopred] Cons.prems(2) unfolding Tmp by auto
    then show ?thesis using n T unfolding c by (auto simp: vec_at_def nth_list_update)
  qed
qed simp

text \<open>The computation of the immediate blocks on the reduced sets, common to both analyses.\<close>

lemma reduce_all:
  assumes sh: "cfg_shape nxt_of bbs" and e: "e < length bbs"
    and reach: "\<And>k. k < length bbs \<Longrightarrow> reaches (nbrs nxt_of bbs) e k"
    and sets: "\<And>k. k < length bbs \<Longrightarrow> get (bbs ! k) = {d. d < length bbs \<and> \<not> avoids (nbrs nxt_of bbs) e d k}"
    and frame: "\<And>b T. get (b\<lparr>Tmp_ids := T\<rparr>) = get b" "\<And>b T. nxt_of (b\<lparr>Tmp_ids := T\<rparr>) = nxt_of b"
    and ns: "distinct ns" "{..<length bbs} - {e} \<subseteq> set ns" "set ns \<subseteq> {..<length bbs}"
  shows "\<exists>M b1 b2. init_Tmps get 0 bbs = Some b1 \<and> length b1 = length bbs \<and> reduce_blocks get ns b1 = Some b2 \<and> length b2 = length bbs \<and>
    (\<forall>h < length bbs. b2 ! h = (bbs ! h)\<lparr>Tmp_ids := if h = e then {} else {M h}\<rparr>) \<and>
    (\<forall>h < length bbs. h \<noteq> e \<longrightarrow> M h < length bbs \<and> immediate (nbrs nxt_of bbs) e (M h) h)"
proof -
  have "\<forall>h. \<exists>m. h < length bbs \<and> h \<noteq> e \<longrightarrow> m < length bbs \<and> immediate (nbrs nxt_of bbs) e m h \<and>
      reduce get bbs (sorted_list_of_set (get (bbs ! h) - {h})) (get (bbs ! h) - {h}) = Some {m}"
    using reduce_immediate [OF sh e reach sets] by blast
  from choice [OF this] obtain M where M: "\<And>h. \<lbrakk>h < length bbs; h \<noteq> e\<rbrakk> \<Longrightarrow> M h < length bbs \<and> immediate (nbrs nxt_of bbs) e (M h) h \<and>
      reduce get bbs (sorted_list_of_set (get (bbs ! h) - {h})) (get (bbs ! h) - {h}) = Some {M h}"
    by blast
  let ?b = "map (\<lambda>b. b\<lparr>Tmp_ids := get b - {bb_id b}\<rparr>) bbs"
  have ids: "bb_id (bbs ! h) = h" if "h < length bbs" for h using sh that by (simp add: cfg_shape_def)
  have mg: "map get ?b = map get bbs" using frame(1) by simp
  have e0: "get (bbs ! e) - {e} = {}" using sets [OF e] by (auto simp: avoids_root_iff)
  have "k < length ?b \<and> reduce get ?b (sorted_list_of_set (Tmp_ids (?b ! k))) (Tmp_ids (?b ! k)) = Some (if k = e then {} else {M k})"
    if "k \<in> set ns" for k
  proof -
    have k: "k < length bbs" using that ns(3) by auto
    have T: "Tmp_ids (?b ! k) = get (bbs ! k) - {k}" using k ids by simp
    have "reduce get bbs (sorted_list_of_set (get (bbs ! k) - {k})) (get (bbs ! k) - {k}) = Some (if k = e then {} else {M k})"
    proof (cases "k = e")
      case True
      then show ?thesis unfolding True e0 by simp
    qed (use k M [of k] in simp)
    then show ?thesis unfolding reduce_cong [OF mg] T using k by simp
  qed
  from reduce_blocks_eq [OF frame(1) ns(1) this] obtain b2 where b2: "reduce_blocks get ns ?b = Some b2" "length b2 = length ?b"
      "\<forall>h < length ?b. b2 ! h = (if h \<in> set ns then (?b ! h)\<lparr>Tmp_ids := if h = e then {} else {M h}\<rparr> else ?b ! h)"
    by blast
  have "b2 ! h = (bbs ! h)\<lparr>Tmp_ids := if h = e then {} else {M h}\<rparr>" if "h < length bbs" for h
    using b2(3) that ns(2) e0 ids by (cases "h \<in> set ns") auto
  moreover have "init_Tmps get 0 bbs = Some ?b" using ids by (intro init_Tmps_eq) simp
  ultimately show ?thesis using b2 M by (intro exI [of _ M] exI [of _ ?b] exI [of _ b2]) auto
qed

text \<open>
  C10. The reconvergence points are the immediate postdominators.  For a function whose blocks all reach the exit block, the
  iteration of \<^verbatim>\<open>find_postdominators\<close> ends, without reaching an assertion, with exactly the blocks that lie on every walk
  to the exit, and \<^verbatim>\<open>find_ipostdominators\<close> passes all its assertions and stores for each block but the exit its
  immediate postdominator: another block on every walk to the exit, such that every other such block lies on all walks from it.
\<close>

theorem postdominators_correct:
  assumes len: "2 \<le> length bbs" and sh: "cfg_shape successor_ids bbs" and fr: "fresh_at postdominator_ids (length bbs - 1) bbs"
    and reach: "\<forall>h < length bbs. walks (succs bbs) h (length bbs - 1) \<noteq> {}"
  shows "\<exists>b1 b2. find_postdominators bbs = Some b1 \<and> find_ipostdominators b1 = Some b2 \<and> length b2 = length bbs \<and>
    (\<forall>h < length bbs. successor_ids (b2 ! h) = successor_ids (bbs ! h) \<and>
       postdominator_ids (b2 ! h) = {d. d < length bbs \<and> on_all_walks (succs bbs) (length bbs - 1) d h} \<and>
       (h \<noteq> length bbs - 1 \<longrightarrow> (\<exists>m < length bbs. immediatepostdominator_id (b2 ! h) = int m \<and> immediate (succs bbs) (length bbs - 1) m h)))"
proof -
  let ?n = "length bbs" and ?e = "length bbs - 1"
  have e: "?e < ?n" using len by simp
  obtain b1 where b1: "find_postdominators bbs = Some b1" "map (put_pdom {}) b1 = map (put_pdom {}) bbs"
      "\<forall>h < ?n. postdominator_ids (b1 ! h) = {d. d < ?n \<and> \<not> avoids (succs bbs) ?e d h}"
    using find_postdominators_eq [OF len sh fr] by auto
  have l1: "length b1 = ?n" by (rule map_eq_imp_length_eq [OF b1(2)])
  have nb: "succs b1 = succs bbs" by (rule frame_nbrs [OF b1(2)]) simp
  have sh1: "cfg_shape successor_ids b1" by (rule frame_shape [OF b1(2) _ _ sh]) simp_all
  have ns: "distinct (rev [0..<?n - 1])" "{..<?n} - {?e} \<subseteq> set (rev [0..<?n - 1])" "set (rev [0..<?n - 1]) \<subseteq> {..<?n}" by auto
  obtain M c1 c2 where c: "init_Tmps postdominator_ids 0 b1 = Some c1" "length c1 = ?n" "length c2 = ?n"
      "reduce_blocks postdominator_ids (rev [0..<?n - 1]) c1 = Some c2"
      "\<forall>h < ?n. c2 ! h = (b1 ! h)\<lparr>Tmp_ids := if h = ?e then {} else {M h}\<rparr>"
      "\<forall>h < ?n. h \<noteq> ?e \<longrightarrow> M h < ?n \<and> immediate (succs bbs) ?e (M h) h"
    using reduce_all [OF sh1, of ?e postdominator_ids "rev [0..<?n - 1]"] reach e b1(3) ns unfolding l1 nb reaches_iff by auto
  have "\<And>k. k \<in> set (rev [0..<?n]) \<Longrightarrow> k < length c2 \<and> (Tmp_ids (c2 ! k) = {} \<or> Tmp_ids (c2 ! k) = {M k})" using c by simp
  from store_ipdoms_eq [where ns = "rev [0..<?n]" and num = 0 and M = M, OF _ this] obtain b2 where b2: "length b2 = ?n"
      "store_ipdoms (rev [0..<?n]) 0 c2 = Some (0 + card {k \<in> set (rev [0..<?n]). Tmp_ids (c2 ! k) \<noteq> {}}, b2)"
      "\<forall>h < ?n. b2 ! h = (if h \<in> set (rev [0..<?n]) \<and> Tmp_ids (c2 ! h) \<noteq> {} then (c2 ! h)\<lparr>immediatepostdominator_id := int (M h)\<rparr> else c2 ! h)"
    unfolding c(3) by auto
  have "{k \<in> set (rev [0..<?n]). Tmp_ids (c2 ! k) \<noteq> {}} = {..<?n} - {?e}" using c(5) by auto
  then have "find_ipostdominators b1 = Some b2" using c b2 l1 len e by (simp add: find_ipostdominators_def)
  moreover have "successor_ids (b1 ! h) = successor_ids (bbs ! h)" if "h < ?n" for h using fun_cong [OF nb, of h] that l1 by simp
  ultimately show ?thesis using b1 b2 c by (intro exI [of _ b1] exI [of _ b2]) (auto simp: on_all_walks_iff)
qed

lemma upt_only_0: "\<lbrakk>0 < n; \<And>k. k < n \<Longrightarrow> P k \<longleftrightarrow> k = 0\<rbrakk> \<Longrightarrow> {k \<in> set [0..<n]. P k} = {0}"
  by auto

text \<open>A diamond: block 0 branches to 1 and 2, which meet in 3; 4 is the exit.\<close>

definition diamond :: blocks where
  "diamond = [(basic_block_new 0 (Some 0) (Some 1) True False)\<lparr>successor_ids := {1, 2}\<rparr>,
     (basic_block_new 1 (Some 2) (Some 3) False False)\<lparr>successor_ids := {3}, predecessor_ids := {0}\<rparr>,
     (basic_block_new 2 (Some 4) (Some 5) False False)\<lparr>successor_ids := {3}, predecessor_ids := {0}\<rparr>,
     (basic_block_new 3 (Some 6) (Some 7) False False)\<lparr>successor_ids := {4}, predecessor_ids := {1, 2}\<rparr>,
     (basic_block_new 4 None None False True)\<lparr>predecessor_ids := {3}\<rparr>]"

lemma all_less_5: "(\<forall>h < (5 :: nat). P h) \<longleftrightarrow> P 0 \<and> P 1 \<and> P 2 \<and> P 3 \<and> P 4"
proof -
  have "h < 5 \<longleftrightarrow> h = 0 \<or> h = 1 \<or> h = 2 \<or> h = 3 \<or> h = 4" for h :: nat by linarith
  then show ?thesis by auto
qed

lemma diamond_facts:
  "length diamond = 5" "cfg_shape successor_ids diamond" "cfg_shape predecessor_ids diamond"
  "fresh_at postdominator_ids 4 diamond" "fresh_at dominator_ids 0 diamond" "preds diamond 0 = {}"
  by (simp_all add: diamond_def basic_block_new_def cfg_shape_def fresh_at_def nbrs_def All_less_Suc)

lemma diamond_walks:
  "\<forall>h < 5. walks (succs diamond) h 4 \<noteq> {}" "\<forall>h < 5. walks (preds diamond) h 0 \<noteq> {}"
proof -
  have s: "[0, 1, 3, 4] \<in> walks (succs diamond) 0 4" "[1, 3, 4] \<in> walks (succs diamond) 1 4" "[2, 3, 4] \<in> walks (succs diamond) 2 4"
      "[3, 4] \<in> walks (succs diamond) 3 4" "[4] \<in> walks (succs diamond) 4 4"
    by (simp_all add: walks_def nbrs_def diamond_def basic_block_new_def)
  have p: "[0] \<in> walks (preds diamond) 0 0" "[1, 0] \<in> walks (preds diamond) 1 0" "[2, 0] \<in> walks (preds diamond) 2 0"
      "[3, 1, 0] \<in> walks (preds diamond) 3 0" "[4, 3, 1, 0] \<in> walks (preds diamond) 4 0"
    by (simp_all add: walks_def nbrs_def diamond_def basic_block_new_def)
  show "\<forall>h < 5. walks (succs diamond) h 4 \<noteq> {}" "\<forall>h < 5. walks (preds diamond) h 0 \<noteq> {}"
    unfolding all_less_5 using s p by blast+
qed

theorem postdominators_correct_witness:
  "\<exists>b1 b2. find_postdominators diamond = Some b1 \<and> find_ipostdominators b1 = Some b2 \<and>
     (\<exists>m. immediatepostdominator_id (b2 ! 0) = int m \<and> immediate (succs diamond) 4 m 0)"
  using postdominators_correct [of diamond] diamond_facts diamond_walks(1) unfolding all_less_5 diamond_facts(1) by auto

text \<open>
  C40. The dominators are computed correctly.  For a function of at least two blocks whose entry block has no predecessor
  and whose blocks are all reachable from it, the iteration of \<^verbatim>\<open>find_dominators\<close> ends with exactly the blocks on every
  walk from the entry (traversed backwards along the predecessors), and \<^verbatim>\<open>find_idominators\<close> passes its assertions and
  stores for each other block its immediate dominator.
\<close>

theorem dominators_correct:
  assumes len: "2 \<le> length bbs" and sh: "cfg_shape predecessor_ids bbs" and fr: "fresh_at dominator_ids 0 bbs"
    and reach: "\<forall>h < length bbs. walks (preds bbs) h 0 \<noteq> {}" and entry: "preds bbs 0 = {}"
  shows "\<exists>b1 b2. find_dominators bbs = Some b1 \<and> find_idominators b1 = Some b2 \<and> length b2 = length bbs \<and>
    (\<forall>h < length bbs. predecessor_ids (b2 ! h) = predecessor_ids (bbs ! h) \<and>
       dominator_ids (b2 ! h) = {d. d < length bbs \<and> on_all_walks (preds bbs) 0 d h} \<and>
       (h \<noteq> 0 \<longrightarrow> (\<exists>m < length bbs. immediatedominator_id (b2 ! h) = int m \<and> immediate (preds bbs) 0 m h)))"
proof -
  let ?n = "length bbs"
  have pos: "0 < ?n" using len by linarith
  have reach': "reaches (preds bbs) 0 h" if "h < ?n" for h using reach that by (simp add: reaches_iff)
  have nopred: "h = 0" if "h < ?n" "preds bbs h = {}" for h using reach' [OF that(1)] that(2) by (cases rule: reaches.cases) auto
  obtain b1 where b0: "find_dominators bbs = Some b1" "map (put_dom {}) b1 = map (put_dom {}) bbs"
      "\<forall>h < ?n. dominator_ids (b1 ! h) = (if h \<noteq> 0 \<and> preds bbs h = {} then {} else {d. d < ?n \<and> \<not> avoids (preds bbs) 0 d h})"
    using find_dominators_eq [OF len sh fr] by blast
  note b1 = b0(1,2)
  have b1_sets: "dominator_ids (b1 ! h) = {d. d < ?n \<and> \<not> avoids (preds bbs) 0 d h}" if "h < ?n" for h
    using b0(3) nopred that by auto
  have l1: "length b1 = ?n" by (rule map_eq_imp_length_eq [OF b1(2)])
  have nb: "preds b1 = preds bbs" by (rule frame_nbrs [OF b1(2)]) simp
  have sh1: "cfg_shape predecessor_ids b1" by (rule frame_shape [OF b1(2) _ _ sh]) simp_all
  have ns: "distinct [0..<?n]" "{..<?n} - {0} \<subseteq> set [0..<?n]" "set [0..<?n] \<subseteq> {..<?n}" by auto
  obtain M c1 c2 where c: "init_Tmps dominator_ids 0 b1 = Some c1" "length c1 = ?n" "length c2 = ?n"
      "reduce_blocks dominator_ids [0..<?n] c1 = Some c2"
      "\<forall>h < ?n. c2 ! h = (b1 ! h)\<lparr>Tmp_ids := if h = 0 then {} else {M h}\<rparr>"
      "\<forall>h < ?n. h \<noteq> 0 \<longrightarrow> M h < ?n \<and> immediate (preds bbs) 0 (M h) h"
    using reduce_all [OF sh1, of 0 dominator_ids "[0..<?n]"] reach' pos b1_sets ns unfolding l1 nb by auto
  have "\<And>k. k \<in> set [0..<?n] \<Longrightarrow> k < length c2 \<and> (Tmp_ids (c2 ! k) = {} \<or> Tmp_ids (c2 ! k) = {M k})" using c by simp
  from store_idoms_eq [where ns = "[0..<?n]" and num = 0 and nopred = 0 and M = M, OF _ this] obtain b2 where b2: "length b2 = ?n"
      "store_idoms [0..<?n] 0 0 c2 = Some (0 + card {k \<in> set [0..<?n]. Tmp_ids (c2 ! k) \<noteq> {}},
         0 + card {k \<in> set [0..<?n]. Tmp_ids (c2 ! k) = {} \<and> predecessor_ids (c2 ! k) = {}}, b2)"
      "\<forall>h < ?n. b2 ! h = (if h \<in> set [0..<?n] \<and> Tmp_ids (c2 ! h) \<noteq> {} then (c2 ! h)\<lparr>immediatedominator_id := int (M h)\<rparr> else c2 ! h)"
    unfolding c(3) by auto
  have pr: "predecessor_ids (b1 ! h) = predecessor_ids (bbs ! h)" if "h < ?n" for h using fun_cong [OF nb, of h] that l1 by simp
  have "{k \<in> set [0..<?n]. Tmp_ids (c2 ! k) \<noteq> {}} = {..<?n} - {0}" using c(5) by auto
  moreover have "{k \<in> set [0..<?n]. Tmp_ids (c2 ! k) = {} \<and> predecessor_ids (c2 ! k) = {}} = {0}"
  proof -
    have "Tmp_ids (c2 ! k) = {} \<and> predecessor_ids (c2 ! k) = {} \<longleftrightarrow> k = 0" if "k < ?n" for k
      using c(5) that pr [OF that] entry pos by (cases "k = 0") simp_all
    then show ?thesis by (intro upt_only_0 [OF pos]) blast
  qed
  moreover have "card ({..<?n} - {0}) = ?n - 1" using pos by (subst card_Diff_singleton) auto
  ultimately have "find_idominators b1 = Some b2" using c b2 l1 len by (simp add: find_idominators_def)
  then show ?thesis using b1 b1_sets b2 c pr by (intro exI [of _ b1] exI [of _ b2]) (auto simp: on_all_walks_iff)
qed

theorem dominators_correct_witness:
  "\<exists>b1 b2. find_dominators diamond = Some b1 \<and> find_idominators b1 = Some b2 \<and>
     (\<exists>m. immediatedominator_id (b2 ! 3) = int m \<and> immediate (preds diamond) 0 m 3)"
  using dominators_correct [of diamond] diamond_facts diamond_walks(2) unfolding all_less_5 diamond_facts(1) by auto

end
