(* ===== verification/PtxCfg_Model.thy ===== *)
theory PtxCfg_Model
  imports Dominator_Model
begin

text \<open>
  Assembly of a PTX function and its control-flow graph (\<^verbatim>\<open>function_info::ptx_assemble\<close> of
  \<^verbatim>\<open>cuda-sim/cuda-sim.cc\<close> and the construction of the basic blocks in \<^verbatim>\<open>cuda-sim/ptx_ir.cc\<close>).
  Instructions are named by their position in \<^verbatim>\<open>m_instructions\<close>.  The instruction memory distinguishes a cell that was never
  written from one that holds \<^verbatim>\<open>NULL\<close>; following either, and reading past the end of a container, is an abort.
  Parsing, the pre-decoding of the instructions and the output are not part of the model.
\<close>

subsection \<open>Instructions and functions\<close>

text \<open>The opcodes that the construction distinguishes.\<close>

datatype ptx_opcode = BRA_OP | RET_OP | EXIT_OP | RETP_OP | BREAK_OP | BREAKADDR_OP | CALL_OP | CALLP_OP | OTHER_OP

record ptx_instruction =
  pi_label :: "string option"
  pi_opcode :: ptx_opcode
  pi_has_pred :: bool
  pi_size :: nat
  pi_dst :: "string option"

record function_info =
  fi_id :: nat
  fi_insts :: "ptx_instruction list"
  fi_labels :: "string \<Rightarrow> nat option"
  fi_mem :: "nat \<Rightarrow> nat option option"
  fi_mem_size :: nat
  fi_index :: "nat \<Rightarrow> nat option"
  fi_PC :: "nat \<Rightarrow> nat option"
  fi_bb :: "nat \<Rightarrow> nat option"
  fi_blocks :: blocks
  fi_start_PC :: nat
  fi_label_address :: "string \<Rightarrow> nat option"
  fi_assembled :: bool
  fi_num_reconvergence_pairs :: nat

text \<open>The tables shared by all functions; an entry of the first table names a function and one of its instructions.\<close>

record code_tables =
  ct_pc_to_insn :: "(nat \<times> nat) option list"
  ct_pc_to_finfo :: "nat \<Rightarrow> nat option"
  ct_next_pc :: nat

definition MAX_INST_SIZE :: nat where "MAX_INST_SIZE = 8"

definition is_label :: "ptx_instruction \<Rightarrow> bool" where
  "is_label p \<longleftrightarrow> pi_label p \<noteq> None"

definition dst :: "ptx_instruction \<Rightarrow> string option" where
  "dst p = pi_dst p"

definition label_at :: "function_info \<Rightarrow> string \<Rightarrow> nat" where
  "label_at f l = (case fi_labels f l of None \<Rightarrow> 0 | Some n \<Rightarrow> n)"

definition inst_at :: "function_info \<Rightarrow> nat \<Rightarrow> nat option" where
  "inst_at f a = do { c \<leftarrow> fi_mem f a; c }"

subsection \<open>Assembly\<close>

definition store_inst :: "nat \<Rightarrow> nat \<Rightarrow> nat \<Rightarrow> nat \<Rightarrow> function_info \<Rightarrow> function_info" where
  "store_inst i n PC sz f = f\<lparr>fi_mem := (\<lambda>a. if a = n then Some (Some i) else if n < a \<and> a < n + sz then Some None else fi_mem f a),
     fi_index := (fi_index f)(i \<mapsto> n), fi_PC := (fi_PC f)(i \<mapsto> PC)\<rparr>"

fun assemble_loop :: "nat \<Rightarrow> ptx_instruction list \<Rightarrow> nat \<Rightarrow> nat \<Rightarrow> function_info \<Rightarrow> code_tables \<Rightarrow>
    (nat \<times> nat \<times> function_info \<times> code_tables) option" where
  "assemble_loop i [] n PC f g = Some (n, PC, f, g)"
| "assemble_loop i (p # ps) n PC f g = (case pi_label p of
       Some l \<Rightarrow> assemble_loop (Suc i) ps n PC (f\<lparr>fi_labels := (fi_labels f)(l \<mapsto> n)\<rparr>) g
     | None \<Rightarrow> do {
         let g = g\<lparr>ct_pc_to_finfo := (ct_pc_to_finfo g)(PC \<mapsto> fi_id f), ct_pc_to_insn := ct_pc_to_insn g @ [Some (fi_id f, i)]\<rparr>;
         e \<leftarrow> vec_at (ct_pc_to_insn g) PC;
         assert_that (e = Some (fi_id f, i));
         assert_that (pi_size p \<le> MAX_INST_SIZE);
         let g = g\<lparr>ct_pc_to_insn := ct_pc_to_insn g @ replicate (pi_size p - 1) None\<rparr>;
         assemble_loop (Suc i) ps (n + pi_size p) (PC + pi_size p) (store_inst i n PC (pi_size p) f) g
       })"

text \<open>The second loop walks over the instruction memory and resolves the labels; \<open>k\<close> bounds its turns, one per cell is enough.\<close>

fun resolve_loop :: "nat \<Rightarrow> nat \<Rightarrow> nat \<Rightarrow> function_info \<Rightarrow> function_info option" where
  "resolve_loop 0 ii n f = (if ii < n then None else Some f)"
| "resolve_loop (Suc k) ii n f =
     (if ii < n then do {
        i \<leftarrow> inst_at f ii;
        p \<leftarrow> vec_at (fi_insts f) i;
        f \<leftarrow> (if pi_opcode p = BRA_OP \<or> pi_opcode p = BREAKADDR_OP \<or> pi_opcode p = CALLP_OP then do {
                t \<leftarrow> dst p;
                index \<leftarrow> fi_labels f t;
                j \<leftarrow> inst_at f index;
                pc \<leftarrow> fi_PC f j;
                Some (f\<lparr>fi_label_address := (fi_label_address f)(t \<mapsto> pc)\<rparr>)
              } else Some f);
        resolve_loop k (ii + pi_size p) n f
      } else Some f)"

definition assemble_insts :: "function_info \<Rightarrow> code_tables \<Rightarrow> (function_info \<times> code_tables) option" where
  "assemble_insts f g = do {
     let f = f\<lparr>fi_mem_size := MAX_INST_SIZE * (length (fi_insts f) + 1), fi_mem := (\<lambda>_. None)\<rparr>;
     let PC = ct_next_pc g;
     let g = g\<lparr>ct_pc_to_insn := ct_pc_to_insn g @ replicate (PC mod MAX_INST_SIZE) None\<rparr>;
     let PC = PC + PC mod MAX_INST_SIZE;
     (n, PC, f, g) \<leftarrow> assemble_loop 0 (fi_insts f) 0 PC (f\<lparr>fi_start_PC := PC\<rparr>) g;
     f \<leftarrow> resolve_loop n 0 n f;
     Some (f, g\<lparr>ct_next_pc := PC\<rparr>)
   }"

subsection \<open>Basic blocks\<close>

definition find_next_real_instruction :: "ptx_instruction list \<Rightarrow> nat \<Rightarrow> nat" where
  "find_next_real_instruction is i = i + length (takeWhile is_label (drop i is))"

definition ends_block :: "ptx_instruction \<Rightarrow> bool" where
  "ends_block p \<longleftrightarrow> pi_opcode p \<in> {BRA_OP, RET_OP, EXIT_OP, RETP_OP, BREAK_OP} \<or>
     pi_opcode p \<in> {CALL_OP, CALLP_OP} \<and> pi_has_pred p"

function leaders_from :: "ptx_instruction list \<Rightarrow> nat \<Rightarrow> nat list" where
  "leaders_from is i =
     (if i < length is then
        (if is_label (is ! i) then i # leaders_from is (find_next_real_instruction is (i + 1))
         else if ends_block (is ! i) then
           (if i + 1 < length is then [i + 1] else []) @ leaders_from is (find_next_real_instruction is (i + 1))
         else leaders_from is (i + 1))
      else [])"
  by pat_completeness auto
termination
  by (relation "measure (\<lambda>(is, i). length is - i)") (auto simp: find_next_real_instruction_def)

definition leaders :: "ptx_instruction list \<Rightarrow> nat list" where
  "leaders is = 0 # leaders_from is 1"

definition map_last :: "('a \<Rightarrow> 'a) \<Rightarrow> 'a list \<Rightarrow> 'a list" where
  "map_last h xs = butlast xs @ [h (last xs)]"

text \<open>The start of the next block at a leader: the block before it ends with the last real instruction seen.\<close>

definition start_block :: "nat \<Rightarrow> nat \<times> function_info \<Rightarrow> nat \<times> function_info" where
  "start_block i = (\<lambda>(last_real_inst, f).
     let f = f\<lparr>fi_blocks := map_last (\<lambda>b. b\<lparr>ptx_end := Some last_real_inst\<rparr>) (fi_blocks f)\<rparr>;
         r = find_next_real_instruction (fi_insts f) i
     in if r < length (fi_insts f)
        then (r, f\<lparr>fi_blocks := fi_blocks f @ [basic_block_new (length (fi_blocks f)) (Some r) None False False]\<rparr>)
        else (last_real_inst, f))"

definition assign_bb :: "nat \<Rightarrow> function_info \<Rightarrow> function_info" where
  "assign_bb i f = f\<lparr>fi_bb := (fi_bb f)(i \<mapsto> length (fi_blocks f) - 1)\<rparr>"

text \<open>The loop over the instructions: \<open>k\<close> of them from \<open>i\<close> on are left, \<open>l\<close> are the leaders to come.\<close>

fun build_loop :: "nat \<Rightarrow> nat \<Rightarrow> nat list \<Rightarrow> nat \<times> function_info \<Rightarrow> nat \<times> function_info" where
  "build_loop 0 i l s = s"
| "build_loop (Suc k) i l s =
     (let found = (l \<noteq> [] \<and> i = hd l);
          (last_real_inst, f) = (if found then start_block i s else s);
          f = assign_bb i f
      in build_loop k (i + 1) (if found then tl l else l) (if \<not> is_label (fi_insts f ! i) then i else last_real_inst, f))"

definition create_basic_blocks :: "function_info \<Rightarrow> function_info option" where
  "create_basic_blocks f = do {
     let is = fi_insts f;
     assert_that (is \<noteq> []);
     let l = leaders is;
     let r = find_next_real_instruction is 0;
     assert_that (r < length is);
     let (last_real_inst, f) = build_loop (length is) 0 (tl l) (hd l, f\<lparr>fi_blocks := [basic_block_new 0 (Some r) None True False]\<rparr>);
     let f = f\<lparr>fi_blocks := map_last (\<lambda>b. b\<lparr>ptx_end := Some last_real_inst\<rparr>) (fi_blocks f)\<rparr>;
     Some (f\<lparr>fi_blocks := fi_blocks f @ [basic_block_new (length (fi_blocks f)) None None False True]\<rparr>)
   }"

subsection \<open>Edges\<close>

definition link :: "nat \<Rightarrow> nat \<Rightarrow> blocks \<Rightarrow> blocks" where
  "link a b bbs =
     (let bbs = bbs[a := (bbs ! a)\<lparr>successor_ids := insert b (successor_ids (bbs ! a))\<rparr>]
      in bbs[b := (bbs ! b)\<lparr>predecessor_ids := insert a (predecessor_ids (bbs ! b))\<rparr>])"

text \<open>The block of the instruction at an address of the instruction memory.\<close>

definition block_at :: "function_info \<Rightarrow> nat \<Rightarrow> nat option" where
  "block_at f a = do { i \<leftarrow> inst_at f a; fi_bb f i }"

definition end_inst :: "function_info \<Rightarrow> nat \<Rightarrow> (nat \<times> ptx_instruction) option" where
  "end_inst f h = do { b \<leftarrow> vec_at (fi_blocks f) h; i \<leftarrow> ptx_end b; p \<leftarrow> vec_at (fi_insts f) i; Some (i, p) }"

definition link_to :: "function_info \<Rightarrow> nat \<Rightarrow> nat \<Rightarrow> function_info option" where
  "link_to f h a = do { t \<leftarrow> block_at f a; Some (f\<lparr>fi_blocks := link h t (fi_blocks f)\<rparr>) }"

definition connect_return :: "function_info \<Rightarrow> nat \<Rightarrow> nat \<Rightarrow> ptx_instruction \<Rightarrow> function_info option" where
  "connect_return f h i p = do {
     let f = f\<lparr>fi_blocks := link h (length (fi_blocks f) - 1) (fi_blocks f)\<rparr>;
     (if pi_has_pred p then do {
        ix \<leftarrow> fi_index f i;
        let next_addr = ix + 1;
        (if next_addr < fi_mem_size f then do {
           c \<leftarrow> fi_mem f next_addr;
           (case c of None \<Rightarrow> Some f | Some _ \<Rightarrow> link_to f h next_addr)
         } else Some f)
      } else Some f)
   }"

definition connect_next :: "function_info \<Rightarrow> nat \<Rightarrow> nat \<Rightarrow> ptx_instruction \<Rightarrow> function_info option" where
  "connect_next f h i p = do { ix \<leftarrow> fi_index f i; link_to f h (ix + pi_size p) }"

definition connect_block :: "function_info \<Rightarrow> nat \<Rightarrow> function_info option" where
  "connect_block f h = do {
     b \<leftarrow> vec_at (fi_blocks f) h;
     (if is_exit b then Some f
      else do {
        (i, p) \<leftarrow> end_inst f h;
        (if pi_opcode p = RETP_OP \<or> pi_opcode p = RET_OP \<or> pi_opcode p = EXIT_OP then connect_return f h i p
         else do {
           f \<leftarrow> (if pi_opcode p = BRA_OP then do { t \<leftarrow> dst p; link_to f h (label_at f t) } else Some f);
           (if \<not> (pi_opcode p = BRA_OP \<and> \<not> pi_has_pred p) then connect_next f h i p else Some f)
         })
      })
   }"

fun connect_loop :: "nat list \<Rightarrow> function_info \<Rightarrow> function_info option" where
  "connect_loop [] f = Some f"
| "connect_loop (h # hs) f = do { f \<leftarrow> connect_block f h; connect_loop hs f }"

definition connect_basic_blocks :: "function_info \<Rightarrow> function_info option" where
  "connect_basic_blocks f = connect_loop [0..<length (fi_blocks f)] f"

subsection \<open>Break targets\<close>

text \<open>The search backwards through the instructions of a block, from the address \<open>a\<close> down to \<open>a - k + 1\<close>.\<close>

fun find_breakaddr :: "function_info \<Rightarrow> nat \<Rightarrow> nat \<Rightarrow> string option option" where
  "find_breakaddr f a 0 = Some None"
| "find_breakaddr f a (Suc k) = do {
     c \<leftarrow> fi_mem f a;
     (case c of None \<Rightarrow> find_breakaddr f (a - 1) k
      | Some i \<Rightarrow> do {
          p \<leftarrow> vec_at (fi_insts f) i;
          (if pi_opcode p = BREAKADDR_OP then do { t \<leftarrow> dst p; Some (Some t) } else find_breakaddr f (a - 1) k)
        })
   }"

text \<open>The walk up the dominator tree, which does not search the block where it ends; \<open>k\<close> bounds its length.\<close>

fun find_break_target :: "nat \<Rightarrow> function_info \<Rightarrow> nat \<Rightarrow> string option" where
  "find_break_target 0 f h = None"
| "find_break_target (Suc k) f h = do {
     b \<leftarrow> vec_at (fi_blocks f) h;
     (if immediatedominator_id b = -1 then None
      else do {
        i \<leftarrow> ptx_end b; last_a \<leftarrow> fi_index f i;
        j \<leftarrow> ptx_begin b; first_a \<leftarrow> fi_index f j;
        r \<leftarrow> find_breakaddr f last_a (last_a + 1 - first_a);
        (case r of Some t \<Rightarrow> Some t | None \<Rightarrow> find_break_target k f (nat (immediatedominator_id b)))
      })
   }"

fun unlink_loop :: "nat \<Rightarrow> nat list \<Rightarrow> blocks \<Rightarrow> blocks" where
  "unlink_loop a [] bbs = bbs"
| "unlink_loop a (t # ts) bbs = unlink_loop a ts (bbs[t := (bbs ! t)\<lparr>predecessor_ids := predecessor_ids (bbs ! t) - {a}\<rparr>])"

definition unlink :: "nat \<Rightarrow> blocks \<Rightarrow> blocks" where
  "unlink a bbs =
     (let bbs = unlink_loop a (sorted_list_of_set (successor_ids (bbs ! a))) bbs
      in bbs[a := (bbs ! a)\<lparr>successor_ids := {}\<rparr>])"

definition connect_break :: "function_info \<Rightarrow> nat \<Rightarrow> (bool \<times> function_info) option" where
  "connect_break f h = do {
     b \<leftarrow> vec_at (fi_blocks f) h;
     (if is_exit b then Some (False, f)
      else do {
        (i, p) \<leftarrow> end_inst f h;
        (if pi_opcode p = BREAK_OP then do {
           let orig = successor_ids b;
           let f = f\<lparr>fi_blocks := unlink h (fi_blocks f)\<rparr>;
           t \<leftarrow> find_break_target (length (fi_blocks f)) f h;
           f \<leftarrow> link_to f h (label_at f t);
           f \<leftarrow> (if pi_has_pred p then connect_next f h i p else Some f);
           Some (orig \<noteq> successor_ids (fi_blocks f ! h), f)
         } else Some (False, f))
      })
   }"

fun break_loop :: "nat list \<Rightarrow> bool \<Rightarrow> function_info \<Rightarrow> (bool \<times> function_info) option" where
  "break_loop [] modified f = Some (modified, f)"
| "break_loop (h # hs) modified f = do { (m, f) \<leftarrow> connect_break f h; break_loop hs (modified \<or> m) f }"

definition connect_break_targets :: "function_info \<Rightarrow> (bool \<times> function_info) option" where
  "connect_break_targets f = break_loop [0..<length (fi_blocks f)] False f"

partial_function (option) dominator_rounds :: "function_info \<Rightarrow> function_info option" where
  "dominator_rounds f =
     Option.bind (find_dominators (fi_blocks f)) (\<lambda>bbs.
     Option.bind (find_idominators bbs) (\<lambda>bbs.
     Option.bind (connect_break_targets (f\<lparr>fi_blocks := bbs\<rparr>)) (\<lambda>(modified, f).
     if modified then dominator_rounds f else Some f)))"

declare dominator_rounds.simps [code]

definition ptx_assemble :: "function_info \<Rightarrow> code_tables \<Rightarrow> (function_info \<times> code_tables) option" where
  "ptx_assemble f g =
     (if fi_assembled f then Some (f, g)
      else do {
        (f, g) \<leftarrow> assemble_insts f g;
        f \<leftarrow> create_basic_blocks f;
        f \<leftarrow> connect_basic_blocks f;
        f \<leftarrow> dominator_rounds f;
        bbs \<leftarrow> find_postdominators (fi_blocks f);
        bbs \<leftarrow> find_ipostdominators bbs;
        Some (f\<lparr>fi_blocks := bbs, fi_assembled := True\<rparr>, g)
      })"

subsection \<open>Reconvergence pairs\<close>

text \<open>A missing target instruction gives the program counter \<open>-2\<close>: reconverge after the return of the function.\<close>

fun recon_pairs :: "function_info \<Rightarrow> blocks \<Rightarrow> (nat \<times> int) list option" where
  "recon_pairs f [] = Some []"
| "recon_pairs f (b # bs) = do {
     i \<leftarrow> ptx_end b;
     p \<leftarrow> vec_at (fi_insts f) i;
     (if pi_opcode p = BRA_OP then do {
        source_pc \<leftarrow> fi_PC f i;
        assert_that (0 \<le> immediatepostdominator_id b);
        t \<leftarrow> vec_at (fi_blocks f) (nat (immediatepostdominator_id b));
        target_pc \<leftarrow> (case ptx_begin t of Some j \<Rightarrow> do { pc \<leftarrow> fi_PC f j; Some (int pc) } | None \<Rightarrow> Some (-2));
        rest \<leftarrow> recon_pairs f bs;
        Some ((source_pc, target_pc) # rest)
      } else recon_pairs f bs)
   }"

definition get_reconvergence_pairs :: "function_info \<Rightarrow> (nat \<times> int) list option" where
  "get_reconvergence_pairs f = (if fi_blocks f = [] then Some [] else recon_pairs f (butlast (fi_blocks f)))"

fun count_branches :: "function_info \<Rightarrow> blocks \<Rightarrow> nat option" where
  "count_branches f [] = Some 0"
| "count_branches f (b # bs) = do {
     i \<leftarrow> ptx_end b;
     p \<leftarrow> vec_at (fi_insts f) i;
     n \<leftarrow> count_branches f bs;
     Some (if pi_opcode p = BRA_OP then n + 1 else n)
   }"

definition get_num_reconvergence_pairs :: "function_info \<Rightarrow> (nat \<times> function_info) option" where
  "get_num_reconvergence_pairs f =
     (if fi_num_reconvergence_pairs f = 0 then
        (if fi_blocks f = [] then Some (0, f)
         else do {
           n \<leftarrow> count_branches f (butlast (fi_blocks f));
           Some (n, f\<lparr>fi_num_reconvergence_pairs := n\<rparr>)
         })
      else Some (fi_num_reconvergence_pairs f, f))"

subsection \<open>The graph is well formed\<close>

text \<open>
  Blocks carry their position as number, edges stay inside the function and are recorded at both ends, the last block is the
  only exit and has no successors, and the results of the analyses mention existing blocks only.
\<close>

definition block_ok :: "blocks \<Rightarrow> nat \<Rightarrow> bool" where
  "block_ok bbs h \<longleftrightarrow> bb_id (bbs ! h) = h \<and> successor_ids (bbs ! h) \<subseteq> {..<length bbs} \<and> predecessor_ids (bbs ! h) \<subseteq> {..<length bbs} \<and>
     dominator_ids (bbs ! h) \<subseteq> {..<length bbs} \<and> postdominator_ids (bbs ! h) = {} \<and> (is_exit (bbs ! h) \<longleftrightarrow> h = length bbs - 1)"

definition cfg_wf :: "blocks \<Rightarrow> bool" where
  "cfg_wf bbs \<longleftrightarrow> 2 \<le> length bbs \<and> (\<forall>h < length bbs. block_ok bbs h) \<and> successor_ids (bbs ! (length bbs - 1)) = {} \<and>
     dominator_ids (bbs ! 0) \<subseteq> {0} \<and>
     (\<forall>a < length bbs. \<forall>b < length bbs. b \<in> successor_ids (bbs ! a) \<longleftrightarrow> a \<in> predecessor_ids (bbs ! b))"

lemma cfg_wf_shape:
  assumes "cfg_wf bbs"
  shows "cfg_shape successor_ids bbs" "cfg_shape predecessor_ids bbs" "fresh_at dominator_ids 0 bbs"
    "fresh_at postdominator_ids (length bbs - 1) bbs"
  using assms by (auto simp: cfg_wf_def block_ok_def cfg_shape_def fresh_at_def)

lemma length_link [simp]: "length (link a b bbs) = length bbs"
  by (simp add: link_def Let_def)

lemma link_nth:
  assumes "a < length bbs" "b < length bbs" "h < length bbs"
  shows "link a b bbs ! h = (bbs ! h)\<lparr>successor_ids := (if h = a then insert b else id) (successor_ids (bbs ! h)),
    predecessor_ids := (if h = b then insert a else id) (predecessor_ids (bbs ! h))\<rparr>"
  using assms by (auto simp: link_def Let_def nth_list_update)

lemma link_wf:
  assumes wf: "cfg_wf bbs" and a: "a < length bbs" "a \<noteq> length bbs - 1" and b: "b < length bbs"
  shows "cfg_wf (link a b bbs)"
proof -
  note n = link_nth [OF a(1) b]
  have "block_ok (link a b bbs) h" if "h < length bbs" for h
    using wf that a b by (auto simp: cfg_wf_def block_ok_def n)
  moreover have "y \<in> successor_ids (link a b bbs ! x) \<longleftrightarrow> x \<in> predecessor_ids (link a b bbs ! y)" if "x < length bbs" "y < length bbs" for x y
    using wf that a b by (auto simp: cfg_wf_def n)
  moreover have "0 < length bbs" "length bbs - 1 < length bbs" using a by auto
  ultimately show ?thesis using wf a b by (auto simp: cfg_wf_def n)
qed

text \<open>While blocks are being created there is no exit yet and no edge.\<close>

definition building :: "function_info \<Rightarrow> bool" where
  "building f \<longleftrightarrow> fi_blocks f \<noteq> [] \<and> (\<forall>i b. fi_bb f i = Some b \<longrightarrow> b < length (fi_blocks f)) \<and>
     (\<forall>h < length (fi_blocks f). let b = fi_blocks f ! h in bb_id b = h \<and> successor_ids b = {} \<and> predecessor_ids b = {} \<and>
        dominator_ids b = {} \<and> postdominator_ids b = {} \<and> \<not> is_exit b)"

lemma map_last_nth: "\<lbrakk>xs \<noteq> []; h < length xs\<rbrakk> \<Longrightarrow> map_last g xs ! h = (if h = length xs - 1 then g (xs ! h) else xs ! h)"
  by (auto simp: map_last_def nth_append nth_butlast last_conv_nth)

lemma length_map_last [simp]: "xs \<noteq> [] \<Longrightarrow> length (map_last g xs) = length xs"
  by (simp add: map_last_def)

lemma building_end: "building f \<Longrightarrow> building (f\<lparr>fi_blocks := map_last (\<lambda>b. b\<lparr>ptx_end := e\<rparr>) (fi_blocks f)\<rparr>)"
  by (auto simp: building_def map_last_nth Let_def) (simp add: map_last_def)

lemma building_new:
  "building f \<Longrightarrow> building (f\<lparr>fi_blocks := fi_blocks f @ [basic_block_new (length (fi_blocks f)) b e False False]\<rparr>)"
  by (auto simp: building_def nth_append basic_block_new_def Let_def less_Suc_eq)

lemma building_start: "building (snd s) \<Longrightarrow> building (snd (start_block i s))"
  using building_new [OF building_end] by (auto simp: start_block_def Let_def split: prod.split intro: building_end)

lemma building_assign: "building f \<Longrightarrow> building (assign_bb i f)"
  by (auto simp: building_def assign_bb_def)

lemma building_loop: "building (snd s) \<Longrightarrow> building (snd (build_loop k i l s))"
proof (induction k arbitrary: i l s)
  case (Suc k)
  obtain x f where s: "(if l \<noteq> [] \<and> i = hd l then start_block i s else s) = (x, f)" by fastforce
  then have "building f" using Suc.prems building_start [of s i] by (metis snd_conv)
  then show ?case using Suc.IH [of "(if \<not> is_label (fi_insts (assign_bb i f) ! i) then i else x, assign_bb i f)"] s
    by (simp add: building_assign Let_def split del: if_split)
qed simp

lemma start_block_frame [simp]:
  "fi_insts (snd (start_block i s)) = fi_insts (snd s)" "fi_mem (snd (start_block i s)) = fi_mem (snd s)"
  by (simp_all add: start_block_def Let_def split: prod.split)

lemma create_basic_blocks_wf:
  assumes "create_basic_blocks f = Some f1" "fi_bb f = Map.empty"
  shows "cfg_wf (fi_blocks f1)" "\<And>i b. fi_bb f1 i = Some b \<Longrightarrow> b < length (fi_blocks f1)"
proof -
  obtain f2 e where f2: "building f2" "f1 = f2\<lparr>fi_blocks := fi_blocks f2 @ [basic_block_new (length (fi_blocks f2)) None None False True]\<rparr>"
  proof -
    let ?r = "find_next_real_instruction (fi_insts f) 0"
    let ?f = "f\<lparr>fi_blocks := [basic_block_new 0 (Some ?r) None True False]\<rparr>"
    obtain x g where g: "build_loop (length (fi_insts f)) 0 (tl (leaders (fi_insts f))) (hd (leaders (fi_insts f)), ?f) = (x, g)" by fastforce
    have "building ?f" using assms(2) by (simp add: building_def basic_block_new_def)
    then have "building g" using building_loop [of "(hd (leaders (fi_insts f)), ?f)"] g by (metis snd_conv)
    then show ?thesis using that [OF building_end] assms(1) g
      by (auto simp: create_basic_blocks_def Let_def split: if_splits)
  qed
  then show "\<And>i b. fi_bb f1 i = Some b \<Longrightarrow> b < length (fi_blocks f1)" by (auto simp: building_def less_Suc_eq)
  have nth: "fi_blocks f1 ! h = (if h = length (fi_blocks f2) then basic_block_new (length (fi_blocks f2)) None None False True else fi_blocks f2 ! h)"
    if "h < Suc (length (fi_blocks f2))" for h using f2(2) that by (auto simp: nth_append)
  have l: "length (fi_blocks f1) = Suc (length (fi_blocks f2))" "0 < length (fi_blocks f2)" using f2 by (simp_all add: building_def)
  have old: "bb_id (fi_blocks f2 ! h) = h" "successor_ids (fi_blocks f2 ! h) = {}" "predecessor_ids (fi_blocks f2 ! h) = {}"
      "dominator_ids (fi_blocks f2 ! h) = {}" "postdominator_ids (fi_blocks f2 ! h) = {}" "\<not> is_exit (fi_blocks f2 ! h)"
    if "h < length (fi_blocks f2)" for h using f2(1) that by (auto simp: building_def Let_def)
  show "cfg_wf (fi_blocks f1)" unfolding cfg_wf_def block_ok_def l(1)
    using l(2) old by (auto simp: nth basic_block_new_def less_Suc_eq Suc_le_eq)
qed

text \<open>What the connecting passes keep: a well-formed graph, and instructions that belong to existing blocks.\<close>

definition connected :: "nat \<Rightarrow> function_info \<Rightarrow> bool" where
  "connected n f \<longleftrightarrow> cfg_wf (fi_blocks f) \<and> length (fi_blocks f) = n \<and> (\<forall>i b. fi_bb f i = Some b \<longrightarrow> b < n)"

lemma connected_link: "\<lbrakk>connected n f; h < n; h \<noteq> n - 1; t < n\<rbrakk> \<Longrightarrow> connected n (f\<lparr>fi_blocks := link h t (fi_blocks f)\<rparr>)"
  by (auto simp: connected_def link_wf)

lemma block_at_lt: "\<lbrakk>connected n f; block_at f a = Some t\<rbrakk> \<Longrightarrow> t < n"
  by (auto simp: connected_def block_at_def bind_eq_Some_conv)

lemma connected_link_to: "\<lbrakk>link_to f h a = Some f'; connected n f; h < n; h \<noteq> n - 1\<rbrakk> \<Longrightarrow> connected n f'"
  using block_at_lt connected_link by (auto simp: link_to_def bind_eq_Some_conv)

lemma connected_next: "\<lbrakk>connect_next f h i p = Some f'; connected n f; h < n; h \<noteq> n - 1\<rbrakk> \<Longrightarrow> connected n f'"
  using connected_link_to by (auto simp: connect_next_def bind_eq_Some_conv)

lemma connected_return:
  assumes "connect_return f h i p = Some f'" "connected n f" "h < n" "h \<noteq> n - 1"
  shows "connected n f'"
proof -
  let ?f = "f\<lparr>fi_blocks := link h (length (fi_blocks f) - 1) (fi_blocks f)\<rparr>"
  have "connected n ?f" using connected_link [OF assms(2-4), of "n - 1"] assms(2,3) by (simp add: connected_def)
  moreover have "f' = ?f \<or> (\<exists>a. link_to ?f h a = Some f')"
    using assms(1) by (auto simp: connect_return_def Let_def bind_eq_Some_conv split: if_splits option.splits)
  ultimately show ?thesis using connected_link_to assms(3,4) by blast
qed

lemma not_exit: "\<lbrakk>connected n f; vec_at (fi_blocks f) h = Some b; \<not> is_exit b\<rbrakk> \<Longrightarrow> h < n \<and> h \<noteq> n - 1"
  by (auto simp: connected_def cfg_wf_def block_ok_def vec_at_def split: if_splits)

lemma connected_block:
  assumes "connect_block f h = Some f'" "connected n f"
  shows "connected n f'"
proof -
  obtain b where b: "vec_at (fi_blocks f) h = Some b" using assms(1) by (auto simp: connect_block_def bind_eq_Some_conv)
  show ?thesis
  proof (cases "is_exit b")
    case True
    then show ?thesis using assms b by (simp add: connect_block_def)
  next
    case False
    note h = not_exit [OF assms(2) b False]
    obtain i p where ip: "end_inst f h = Some (i, p)" using assms(1) b False by (auto simp: connect_block_def bind_eq_Some_conv)
    show ?thesis
    proof (cases "pi_opcode p = RETP_OP \<or> pi_opcode p = RET_OP \<or> pi_opcode p = EXIT_OP")
      case True
      then show ?thesis using assms b False ip h connected_return by (auto simp: connect_block_def)
    next
      case no_ret: False
      obtain f1 where f1: "connected n f1" "f' = f1 \<or> connect_next f1 h i p = Some f'"
        using assms b False ip no_ret h connected_link_to [OF _ assms(2)]
        by (auto simp: connect_block_def bind_eq_Some_conv split: if_splits)
      then show ?thesis using connected_next h by blast
    qed
  qed
qed

lemma connected_loop: "\<lbrakk>connect_loop hs f = Some f'; connected n f\<rbrakk> \<Longrightarrow> connected n f'"
  by (induction hs arbitrary: f) (auto simp: bind_eq_Some_conv dest: connected_block)

lemma length_unlink_loop [simp]: "length (unlink_loop a ts bbs) = length bbs"
  by (induction ts arbitrary: bbs) simp_all

lemma unlink_loop_nth: "h < length bbs \<Longrightarrow> unlink_loop a ts bbs ! h =
    (bbs ! h)\<lparr>predecessor_ids := if h \<in> set ts then predecessor_ids (bbs ! h) - {a} else predecessor_ids (bbs ! h)\<rparr>"
proof (induction ts arbitrary: bbs)
  case (Cons t ts)
  then show ?case by (cases "t = h") (simp_all add: nth_list_update)
qed simp

lemma unlink_wf:
  assumes "cfg_wf bbs" "a < length bbs"
  shows "cfg_wf (unlink a bbs)" "length (unlink a bbs) = length bbs"
proof -
  have l: "length (unlink a bbs) = length bbs" by (simp add: unlink_def Let_def)
  have "successor_ids (bbs ! a) \<subseteq> {..<length bbs}" using assms by (simp add: cfg_wf_def block_ok_def)
  then have fin: "finite (successor_ids (bbs ! a))" by (rule finite_subset) simp
  have nth: "unlink a bbs ! h = (bbs ! h)\<lparr>successor_ids := if h = a then {} else successor_ids (bbs ! h),
      predecessor_ids := if h \<in> successor_ids (bbs ! a) then predecessor_ids (bbs ! h) - {a} else predecessor_ids (bbs ! h)\<rparr>"
    if "h < length bbs" for h
    using that assms(2) fin by (auto simp: unlink_def Let_def nth_list_update unlink_loop_nth)
  have "0 < length bbs" "length bbs - 1 < length bbs" using assms(2) by auto
  moreover have "block_ok (unlink a bbs) h" if "h < length bbs" for h
    using assms that by (auto simp: cfg_wf_def block_ok_def nth l)
  moreover have "y \<in> successor_ids (unlink a bbs ! x) \<longleftrightarrow> x \<in> predecessor_ids (unlink a bbs ! y)" if "x < length bbs" "y < length bbs" for x y
    using assms that by (auto simp: cfg_wf_def nth)
  ultimately show "cfg_wf (unlink a bbs)" "length (unlink a bbs) = length bbs"
    using assms by (auto simp: cfg_wf_def nth l)
qed

lemma connected_break:
  assumes "connect_break f h = Some (m, f')" "connected n f"
  shows "connected n f'"
proof -
  obtain b where b: "vec_at (fi_blocks f) h = Some b" using assms(1) by (auto simp: connect_break_def bind_eq_Some_conv)
  show ?thesis
  proof (cases "f' = f")
    case False
    then have e: "\<not> is_exit b" using assms(1) b by (auto simp: connect_break_def)
    note h = not_exit [OF assms(2) b e]
    let ?f = "f\<lparr>fi_blocks := unlink h (fi_blocks f)\<rparr>"
    have u: "connected n ?f" using unlink_wf [of "fi_blocks f" h] assms(2) h by (simp add: connected_def)
    obtain i p f1 a where "link_to ?f h a = Some f1" "f' = f1 \<or> connect_next f1 h i p = Some f'"
      using assms(1) False b e by (auto simp: connect_break_def bind_eq_Some_conv Let_def split: if_splits)
    then show ?thesis using connected_link_to [OF _ u] connected_next h by blast
  qed (use assms in simp)
qed

lemma connected_break_loop: "\<lbrakk>break_loop hs m f = Some (m', f'); connected n f\<rbrakk> \<Longrightarrow> connected n f'"
proof (induction hs arbitrary: m f)
  case (Cons h hs)
  then show ?case using connected_break by (fastforce simp: bind_eq_Some_conv)
qed simp

text \<open>The dominator passes change no edge.\<close>

definition bare :: "basic_block \<Rightarrow> basic_block" where
  "bare b = b\<lparr>Tmp_ids := {}, immediatedominator_id := 0, dominator_ids := {}\<rparr>"

lemma map_upd_same: "\<lbrakk>i < length xs; g y = g (xs ! i)\<rbrakk> \<Longrightarrow> map g (xs[i := y]) = map g xs"
  by (simp add: map_update list_update_same_conv)

lemma init_Tmps_frame: "\<lbrakk>\<And>b T. g (b\<lparr>Tmp_ids := T\<rparr>) = g b; init_Tmps get i bs = Some bs'\<rbrakk> \<Longrightarrow> map g bs' = map g bs"
  by (induction bs arbitrary: i bs') (auto simp: bind_eq_Some_conv init_Tmp_def split: if_splits)

lemma reduce_blocks_frame:
  assumes "\<And>b T. g (b\<lparr>Tmp_ids := T\<rparr>) = g b"
  shows "reduce_blocks get ns bs = Some bs' \<Longrightarrow> map g bs' = map g bs"
proof (induction ns arbitrary: bs)
  case (Cons n ns)
  obtain T where "n < length bs" "reduce_blocks get ns (bs[n := (bs ! n)\<lparr>Tmp_ids := T\<rparr>]) = Some bs'"
    using Cons.prems by (auto simp: bind_eq_Some_conv vec_at_def split: if_splits)
  then show ?case using Cons.IH assms by (auto simp: map_upd_same)
qed simp

lemma store_idoms_frame:
  assumes "\<And>b d. g (b\<lparr>immediatedominator_id := d\<rparr>) = g b"
  shows "store_idoms ns a c bs = Some (x, y, bs') \<Longrightarrow> map g bs' = map g bs"
proof (induction ns arbitrary: bs a c)
  case (Cons n ns)
  obtain a' c' bs1 where "store_idoms ns a' c' bs1 = Some (x, y, bs')" "n < length bs" "bs1 = bs \<or> (\<exists>d. bs1 = bs[n := (bs ! n)\<lparr>immediatedominator_id := d\<rparr>])"
    using Cons.prems by (auto simp: bind_eq_Some_conv vec_at_def split: if_splits)
  then show ?case using Cons.IH [of a' c' bs1] assms by (auto simp: map_upd_same)
qed simp

lemma store_ipdoms_frame:
  assumes "\<And>b d. g (b\<lparr>immediatepostdominator_id := d\<rparr>) = g b"
  shows "store_ipdoms ns a bs = Some (x, bs') \<Longrightarrow> map g bs' = map g bs"
proof (induction ns arbitrary: bs a)
  case (Cons n ns)
  obtain a' bs1 where "store_ipdoms ns a' bs1 = Some (x, bs')" "n < length bs" "bs1 = bs \<or> (\<exists>d. bs1 = bs[n := (bs ! n)\<lparr>immediatepostdominator_id := d\<rparr>])"
    using Cons.prems by (auto simp: bind_eq_Some_conv vec_at_def split: if_splits)
  then show ?case using Cons.IH [of a' bs1] assms by (auto simp: map_upd_same)
qed simp

lemma find_idominators_frame:
  assumes "find_idominators bs = Some bs'" "\<And>b T. g (b\<lparr>Tmp_ids := T\<rparr>) = g b" "\<And>b d. g (b\<lparr>immediatedominator_id := d\<rparr>) = g b"
  shows "map g bs' = map g bs"
  using assms(1) init_Tmps_frame [of g, OF assms(2)] reduce_blocks_frame [of g, OF assms(2)] store_idoms_frame [of g, OF assms(3)]
  by (fastforce simp: find_idominators_def bind_eq_Some_conv split: if_splits)

lemma find_ipostdominators_frame:
  assumes "find_ipostdominators bs = Some bs'" "\<And>b T. g (b\<lparr>Tmp_ids := T\<rparr>) = g b" "\<And>b d. g (b\<lparr>immediatepostdominator_id := d\<rparr>) = g b"
  shows "map g bs' = map g bs"
  using assms(1) init_Tmps_frame [of g, OF assms(2)] reduce_blocks_frame [of g, OF assms(2)] store_ipdoms_frame [of g, OF assms(3)]
  by (fastforce simp: find_ipostdominators_def bind_eq_Some_conv split: if_splits)

lemma bare_eqD:
  "bare a = bare b \<Longrightarrow> bb_id a = bb_id b \<and> successor_ids a = successor_ids b \<and> predecessor_ids a = predecessor_ids b \<and>
    postdominator_ids a = postdominator_ids b \<and> is_exit a = is_exit b"
  by (cases a; cases b) (simp add: bare_def)

lemma cfg_wf_bare:
  assumes wf: "cfg_wf bs" and m: "map bare bs' = map bare bs"
    and d: "\<And>h. h < length bs \<Longrightarrow> dominator_ids (bs' ! h) \<subseteq> {..<length bs}" "dominator_ids (bs' ! 0) \<subseteq> {0}"
  shows "cfg_wf bs'"
proof -
  have l: "length bs' = length bs" by (rule map_eq_imp_length_eq [OF m])
  have f: "bb_id (bs' ! h) = bb_id (bs ! h)" "successor_ids (bs' ! h) = successor_ids (bs ! h)" "predecessor_ids (bs' ! h) = predecessor_ids (bs ! h)"
      "postdominator_ids (bs' ! h) = postdominator_ids (bs ! h)" "is_exit (bs' ! h) = is_exit (bs ! h)" if "h < length bs" for h
    using bare_eqD [OF map_nth_eq [OF m that]] by simp_all
  have "2 \<le> length bs" using wf by (simp add: cfg_wf_def)
  then have "length bs - 1 < length bs" "0 < length bs" by linarith+
  then show ?thesis using wf d by (simp add: cfg_wf_def block_ok_def l f)
qed

lemma find_dominators_wf:
  assumes "find_dominators bs = Some bs'" "cfg_wf bs"
  shows "cfg_wf bs' \<and> length bs' = length bs"
proof -
  note sh = cfg_wf_shape [OF assms(2)]
  have len: "2 \<le> length bs" using assms(2) by (simp add: cfg_wf_def)
  have m: "map (put_dom {}) bs' = map (put_dom {}) bs"
    and d: "\<forall>h < length bs. dominator_ids (bs' ! h) =
      (if h \<noteq> 0 \<and> preds bs h = {} then {} else {d. d < length bs \<and> \<not> avoids (preds bs) 0 d h})"
    using find_dominators_eq [OF len sh(2,3)] assms(1) by auto
  have "bare (put_dom {} b) = bare b" for b by (simp add: bare_def)
  then have "map bare bs' = map bare bs" using arg_cong [OF m, of "map bare"] by (simp add: comp_def)
  then have "cfg_wf bs'"
  proof (rule cfg_wf_bare [OF assms(2)])
    show "dominator_ids (bs' ! h) \<subseteq> {..<length bs}" if "h < length bs" for h using d that by auto
    have "0 < length bs" using len by linarith
    then show "dominator_ids (bs' ! 0) \<subseteq> {0}" using d by (auto simp: avoids_root_iff)
  qed
  then show ?thesis using map_eq_imp_length_eq [OF m] by simp
qed

lemma find_idominators_wf:
  assumes "find_idominators bs = Some bs'" "cfg_wf bs"
  shows "cfg_wf bs' \<and> length bs' = length bs"
proof -
  have m: "map bare bs' = map bare bs" "map dominator_ids bs' = map dominator_ids bs" 
    by (rule find_idominators_frame [OF assms(1)]; simp add: bare_def)+
  have l: "length bs' = length bs" by (rule map_eq_imp_length_eq [OF m(1)])
  have "dominator_ids (bs' ! h) = dominator_ids (bs ! h)" if "h < length bs" for h by (rule map_nth_eq [OF m(2) that])
  moreover have "0 < length bs" using assms(2) by (auto simp: cfg_wf_def)
  ultimately show ?thesis using cfg_wf_bare [OF assms(2) m(1)] assms(2) l by (simp add: cfg_wf_def block_ok_def)
qed

lemma connected_blocks: "\<lbrakk>connected n f; cfg_wf bs; length bs = n\<rbrakk> \<Longrightarrow> connected n (f\<lparr>fi_blocks := bs\<rparr>)"
  by (simp add: connected_def)

lemma dominator_rounds_connected:
  assumes "dominator_rounds f = Some f'" "connected n f"
  shows "connected n f'"
proof -
  have "connected n f \<longrightarrow> connected n f'"
  proof (rule dominator_rounds.raw_induct [OF _ assms(1)], rule impI)
    fix F f f'
    assume F: "\<And>f f'. F f = Some f' \<Longrightarrow> connected n f \<longrightarrow> connected n f'" and c: "connected n f"
      and step: "Option.bind (find_dominators (fi_blocks f)) (\<lambda>bbs. Option.bind (find_idominators bbs) (\<lambda>bbs.
        Option.bind (connect_break_targets (f\<lparr>fi_blocks := bbs\<rparr>)) (\<lambda>(modified, f). if modified then F f else Some f))) = Some f'"
    obtain b1 b2 m f1 where b: "find_dominators (fi_blocks f) = Some b1" "find_idominators b1 = Some b2"
        "connect_break_targets (f\<lparr>fi_blocks := b2\<rparr>) = Some (m, f1)" "(if m then F f1 else Some f1) = Some f'"
      using step by (auto simp: bind_eq_Some_conv)
    have "cfg_wf b2 \<and> length b2 = n"
      using find_dominators_wf [OF b(1)] find_idominators_wf [OF b(2)] c by (simp add: connected_def)
    then have "connected n f1" using b(3) connected_blocks [OF c] connected_break_loop unfolding connect_break_targets_def by blast
    then show "connected n f'" using F b(4) by (auto split: if_splits)
  qed
  then show ?thesis using assms(2) by blast
qed

lemma assemble_loop_bb: "assemble_loop i ps n PC f g = Some (n', PC', f', g') \<Longrightarrow> fi_bb f' = fi_bb f"
  by (induction ps arbitrary: i n PC f g) (auto simp: bind_eq_Some_conv store_inst_def Let_def split: option.splits if_splits)

lemma resolve_loop_bb: "resolve_loop k ii n f = Some f' \<Longrightarrow> fi_bb f' = fi_bb f"
  by (induction k arbitrary: ii f) (fastforce simp: bind_eq_Some_conv split: if_splits)+

lemma assemble_insts_bb: "assemble_insts f g = Some (f', g') \<Longrightarrow> fi_bb f' = fi_bb f"
  by (auto simp: assemble_insts_def bind_eq_Some_conv Let_def dest!: assemble_loop_bb resolve_loop_bb)

lemma ptx_assemble_connected:
  assumes "ptx_assemble f g = Some (f', g')" "fi_bb f = Map.empty" "\<not> fi_assembled f"
  obtains f1 :: function_info and b where "cfg_wf (fi_blocks f1)" "find_postdominators (fi_blocks f1) = Some b" "find_ipostdominators b = Some (fi_blocks f')"
proof -
  obtain f0 f2 f3 f1 b b' where a: "assemble_insts f g = Some (f0, g')" "create_basic_blocks f0 = Some f2" "connect_basic_blocks f2 = Some f3"
      "dominator_rounds f3 = Some f1" "find_postdominators (fi_blocks f1) = Some b" "find_ipostdominators b = Some b'" "f' = f1\<lparr>fi_blocks := b', fi_assembled := True\<rparr>"
    using assms(1,3) by (auto simp: ptx_assemble_def bind_eq_Some_conv)
  have "fi_bb f0 = Map.empty" using assemble_insts_bb [OF a(1)] assms(2) by simp
  then have "connected (length (fi_blocks f2)) f2" using create_basic_blocks_wf [OF a(2)] by (simp add: connected_def)
  then have "cfg_wf (fi_blocks f1)" using connected_loop [OF a(3) [unfolded connect_basic_blocks_def]] dominator_rounds_connected [OF a(4)]
    by (auto simp: connected_def)
  from that [OF this a(5)] show ?thesis using a(6,7) by simp
qed

text \<open>The address at which the threads that diverge at a block whose immediate postdominator is \<open>m\<close> wait for each other.\<close>

definition reconvergence_pc :: "function_info \<Rightarrow> nat \<Rightarrow> int option" where
  "reconvergence_pc f m = (case ptx_begin (fi_blocks f ! m) of None \<Rightarrow> Some (-2) | Some j \<Rightarrow> map_option int (fi_PC f j))"

lemma recon_pairs_mem:
  assumes "recon_pairs f bs = Some ps" "b \<in> set bs" "ptx_end b = Some i" "i < length (fi_insts f)" "pi_opcode (fi_insts f ! i) = BRA_OP"
    "immediatepostdominator_id b = int m"
  shows "\<exists>pc t. fi_PC f i = Some pc \<and> reconvergence_pc f m = Some t \<and> (pc, t) \<in> set ps"
  using assms
proof (induction bs arbitrary: ps)
  case (Cons a bs)
  show ?case
  proof (cases "a = b")
    case True
    then show ?thesis using Cons.prems
      by (auto simp: bind_eq_Some_conv vec_at_def reconvergence_pc_def split: if_splits option.splits)
  next
    case False
    have "\<exists>ps'. recon_pairs f bs = Some ps' \<and> set ps' \<subseteq> set ps"
      using Cons.prems(1) by (auto simp: bind_eq_Some_conv vec_at_def split: if_splits option.splits)
    then obtain ps' where "recon_pairs f bs = Some ps'" "set ps' \<subseteq> set ps" by blast
    then show ?thesis using Cons.IH [of ps'] Cons.prems False by auto
  qed
qed simp

lemma count_branches_length: "\<lbrakk>recon_pairs f bs = Some ps; count_branches f bs = Some n\<rbrakk> \<Longrightarrow> length ps = n"
  by (induction bs arbitrary: ps n) (fastforce simp: bind_eq_Some_conv vec_at_def split: if_splits)+

text \<open>
  C9. The assembler tells the SIMT stack the right reconvergence points.  When a function assembles and all its blocks reach the
  exit block, then every block that ends in a branch has, among the pairs that \<^verbatim>\<open>get_reconvergence_pairs\<close> reports, the
  pair of the branch's address and the address of the first instruction of the block's immediate postdominator in the
  control-flow graph (or \<open>-2\<close>, after the return, when that is the exit block).
\<close>

theorem reconvergence_pairs_correct:
  assumes asm: "ptx_assemble f g = Some (f', g')" "fi_bb f = Map.empty" "\<not> fi_assembled f" and pairs: "get_reconvergence_pairs f' = Some ps"
    and reach: "\<forall>h < length (fi_blocks f'). walks (succs (fi_blocks f')) h (length (fi_blocks f') - 1) \<noteq> {}"
    and h: "h < length (fi_blocks f') - 1" and br: "end_inst f' h = Some (i, p)" "pi_opcode p = BRA_OP"
  shows "\<exists>m pc t. immediate (succs (fi_blocks f')) (length (fi_blocks f') - 1) m h \<and> m < length (fi_blocks f') \<and>
    fi_PC f' i = Some pc \<and> reconvergence_pc f' m = Some t \<and> (pc, t) \<in> set ps"
proof -
  obtain f1 :: function_info and b where f1: "cfg_wf (fi_blocks f1)" "find_postdominators (fi_blocks f1) = Some b" "find_ipostdominators b = Some (fi_blocks f')"
    using ptx_assemble_connected [OF asm] .
  note sh = cfg_wf_shape [OF f1(1)]
  have len: "2 \<le> length (fi_blocks f1)" using f1(1) by (simp add: cfg_wf_def)
  obtain b1 where b1: "find_postdominators (fi_blocks f1) = Some b1" "map (put_pdom {}) b1 = map (put_pdom {}) (fi_blocks f1)"
    using find_postdominators_eq [OF len sh(1,4)] by auto
  have "b1 = b" using f1(2) b1(1) by simp
  then have m1: "map successor_ids b = map successor_ids (fi_blocks f1)" using arg_cong [OF b1(2), of "map successor_ids"] by (simp add: comp_def)
  have m2: "map successor_ids (fi_blocks f') = map successor_ids b" by (rule find_ipostdominators_frame [OF f1(3)]) simp_all
  have m: "map successor_ids (fi_blocks f') = map successor_ids (fi_blocks f1)" using m1 m2 by simp
  have l: "length (fi_blocks f') = length (fi_blocks f1)" by (rule map_eq_imp_length_eq [OF m])
  have nb: "succs (fi_blocks f') = succs (fi_blocks f1)"
    using l map_nth_eq [OF m] by (auto simp: fun_eq_iff nbrs_def)
  obtain m where m: "immediatepostdominator_id (fi_blocks f' ! h) = int m" "immediate (succs (fi_blocks f')) (length (fi_blocks f') - 1) m h" "m < length (fi_blocks f')"
  proof -
    have "h < length (fi_blocks f1)" "h \<noteq> length (fi_blocks f1) - 1" using h l by linarith+
    then show ?thesis using that postdominators_correct [OF len sh(1,4)] reach f1(2,3) unfolding l nb by auto
  qed
  have "fi_blocks f' ! h \<in> set (butlast (fi_blocks f'))" using h by (metis in_set_conv_nth length_butlast nth_butlast)
  moreover have "ptx_end (fi_blocks f' ! h) = Some i" "i < length (fi_insts f')" "fi_insts f' ! i = p"
    using br(1) by (auto simp: end_inst_def vec_at_def bind_eq_Some_conv split: if_splits)
  moreover have "recon_pairs f' (butlast (fi_blocks f')) = Some ps" using pairs h by (auto simp: get_reconvergence_pairs_def split: if_splits)
  ultimately show ?thesis using recon_pairs_mem [of f' "butlast (fi_blocks f')" ps "fi_blocks f' ! h" i m] br(2) m by blast
qed

subsection \<open>Small functions\<close>

definition instr :: "ptx_opcode \<Rightarrow> bool \<Rightarrow> string option \<Rightarrow> ptx_instruction" where
  "instr opc pr t = \<lparr>pi_label = None, pi_opcode = opc, pi_has_pred = pr, pi_size = 8, pi_dst = t\<rparr>"

definition label :: "string \<Rightarrow> ptx_instruction" where
  "label l = \<lparr>pi_label = Some l, pi_opcode = OTHER_OP, pi_has_pred = False, pi_size = 8, pi_dst = None\<rparr>"

definition new_function :: "ptx_instruction list \<Rightarrow> function_info" where
  "new_function is = \<lparr>fi_id = 0, fi_insts = is, fi_labels = Map.empty, fi_mem = Map.empty, fi_mem_size = 0, fi_index = Map.empty,
     fi_PC = Map.empty, fi_bb = Map.empty, fi_blocks = [], fi_start_PC = 0, fi_label_address = Map.empty, fi_assembled = False,
     fi_num_reconvergence_pairs = 0\<rparr>"

definition no_code :: code_tables where
  "no_code = \<lparr>ct_pc_to_insn = [], ct_pc_to_finfo = Map.empty, ct_next_pc = 0\<rparr>"

definition skip_function :: function_info where
  "skip_function = new_function [instr OTHER_OP False None, instr BRA_OP True (Some ''L''), instr OTHER_OP False None, label ''L'',
     instr OTHER_OP False None, instr EXIT_OP False None]"

lemma skip_function_run:
  "case ptx_assemble skip_function no_code of
     Some (f, g) \<Rightarrow> get_reconvergence_pairs f = Some [(8, 24)] \<and> map successor_ids (fi_blocks f) = [{1, 2}, {2}, {3}, {}] \<and>
       map_option (pi_opcode \<circ> snd) (end_inst f 0) = Some BRA_OP
   | None \<Rightarrow> False"
  by code_simp

theorem reconvergence_pairs_correct_witness:
  "\<exists>f g m. ptx_assemble skip_function no_code = Some (f, g) \<and> get_reconvergence_pairs f = Some [(8, 24)] \<and>
     immediate (succs (fi_blocks f)) 3 m 0 \<and> reconvergence_pc f m = Some 24"
proof -
  obtain f g where a: "ptx_assemble skip_function no_code = Some (f, g)" and ps: "get_reconvergence_pairs f = Some [(8, 24)]"
      and su: "map successor_ids (fi_blocks f) = [{1, 2}, {2}, {3}, {}]" and br: "map_option (pi_opcode \<circ> snd) (end_inst f 0) = Some BRA_OP"
    using skip_function_run by (auto split: option.splits)
  have l: "length (fi_blocks f) = 4" using arg_cong [OF su, of length] by simp
  have "succs (fi_blocks f) h = [{1, 2}, {2}, {3}, {}] ! h" if "h < 4" for h
    using l that arg_cong [OF su, of "\<lambda>xs. xs ! h"] by (simp add: nbrs_def)
  then have s: "succs (fi_blocks f) 0 = {1, 2}" "succs (fi_blocks f) 1 = {2}" "succs (fi_blocks f) 2 = {3}" by simp_all
  have "[0, 1, 2, 3] \<in> walks (succs (fi_blocks f)) 0 3" "[1, 2, 3] \<in> walks (succs (fi_blocks f)) 1 3" "[2, 3] \<in> walks (succs (fi_blocks f)) 2 3"
      "[3] \<in> walks (succs (fi_blocks f)) 3 3" unfolding walks_def using s by (simp_all del: nbrs_lt One_nat_def)
  moreover have "h = 0 \<or> h = 1 \<or> h = 2 \<or> h = 3" if "h < 4" for h :: nat using that by linarith
  ultimately have reach: "\<forall>h < length (fi_blocks f). walks (succs (fi_blocks f)) h (length (fi_blocks f) - 1) \<noteq> {}" unfolding l by fastforce
  obtain i p where ip: "end_inst f 0 = Some (i, p)" "pi_opcode p = BRA_OP" using br by auto
  have "fi_bb skip_function = Map.empty" "\<not> fi_assembled skip_function" by (simp_all add: skip_function_def new_function_def)
  from reconvergence_pairs_correct [OF a this ps reach _ ip] show ?thesis using a ps by (auto simp: l)
qed

text \<open>
  The link from a predicated return to the next instruction is missing: \<^verbatim>\<open>connect_basic_blocks\<close> looks for it at the
  address after the first cell of the return, which is inside the instruction, and not after the instruction.  The block after
  a predicated exit has no predecessor, and the exit block is taken for the only successor of the block that ends with it.
\<close>

theorem predicated_return_link_missing:
  "case ptx_assemble (new_function [instr OTHER_OP False None, instr EXIT_OP True None, instr OTHER_OP False None, instr EXIT_OP False None]) no_code of
     Some (f, g) \<Rightarrow> map successor_ids (fi_blocks f) = [{2}, {2}, {}] \<and> predecessor_ids (fi_blocks f ! 1) = {}
   | None \<Rightarrow> False"
  by code_simp

definition loop_function :: function_info where
  "loop_function = new_function [label ''L'', instr OTHER_OP False None, instr BRA_OP True (Some ''L''), instr EXIT_OP False None]"

definition break_function :: function_info where
  "break_function = new_function [instr BREAKADDR_OP False (Some ''E''), label ''L'', instr BREAK_OP True None, label ''E'', instr EXIT_OP False None]"

definition branch_first_function :: function_info where
  "branch_first_function = new_function [instr BRA_OP True (Some ''L''), instr OTHER_OP False None, label ''L'', instr EXIT_OP False None]"

lemma loop_function_fails: "Option.is_none (ptx_assemble loop_function no_code)"
  by code_simp

lemma break_function_fails: "Option.is_none (ptx_assemble break_function no_code)"
  by code_simp

lemma branch_first_run:
  "case ptx_assemble branch_first_function no_code of Some (f, g) \<Rightarrow> get_reconvergence_pairs f = Some [] | None \<Rightarrow> False"
  by code_simp

text \<open>
  Two valid functions that cannot be assembled.  When a branch leads back to the first instruction, the entry block has a
  predecessor but no immediate dominator and the final assertion of \<^verbatim>\<open>find_idominators\<close> fails; when the break address
  is set in the entry block, \<^verbatim>\<open>find_break_target\<close> ends its walk up the dominator tree before searching that block and runs
  into \<^verbatim>\<open>assert(0)\<close>.  A function whose first instruction is a branch loses the branch: no block ends with it.
\<close>

theorem entry_block_mishandled:
  "ptx_assemble loop_function no_code = None \<and> ptx_assemble break_function no_code = None \<and>
   (case ptx_assemble branch_first_function no_code of Some (f, g) \<Rightarrow> get_reconvergence_pairs f = Some [] | None \<Rightarrow> False)"
  using loop_function_fails break_function_fails branch_first_run by (simp add: Option.is_none_def)

end
