(* ===== verification/GpuCache_Model.thy ===== *)
theory GpuCache_Model
  imports Ruby_Prelude "HOL-Library.AList"
begin

text \<open>
  The caches of GPGPU-Sim (\<^verbatim>\<open>gpgpu-sim/gpu-cache.h\<close>, \<^verbatim>\<open>gpgpu-sim/gpu-cache.cc\<close>, configuration in
  \<^verbatim>\<open>gpgpu-sim/gpu-config.h\<close>): tag array, miss status holding registers, the baseline cache and the read-only and data
  caches built on it.  Addresses are 64-bit words; times are the values of an unsigned counter.  A memory fetch is named by a
  number, and \<open>bc_heap\<close> holds the fetch objects, whose size the caches change.  Statistics (lifetime histograms, the access log,
  the status stamps of fetches) and the parsing of the configuration string are not part of the model.
\<close>

unbundle bit_operations_syntax

subsection \<open>Configuration\<close>

type_synonym new_addr_type = "64 word"

datatype replacement_policy_t = LRU | FIFO

datatype write_policy_t = READ_ONLY | WRITE_BACK | WRITE_THROUGH | WRITE_EVICT | LOCAL_WB_GLOBAL_WT

datatype allocation_policy_t = ON_MISS | ON_FILL

datatype write_allocate_policy_t = NO_WRITE_ALLOCATE | WRITE_ALLOCATE

record cache_config =
  cc_line_sz :: "32 word"
  cc_line_sz_log2 :: nat
  cc_nset :: "32 word"
  cc_nset_log2 :: nat
  cc_assoc :: nat
  cc_replacement_policy :: replacement_policy_t
  cc_write_policy :: write_policy_t
  cc_alloc_policy :: allocation_policy_t
  cc_write_alloc_policy :: write_allocate_policy_t
  cc_mshr_entries :: nat
  cc_mshr_max_merge :: nat
  cc_miss_queue_size :: nat

definition get_num_lines :: "cache_config \<Rightarrow> nat" where
  "get_num_lines cfg = unat (cc_nset cfg) * cc_assoc cfg mod 2 ^ 32"

definition set_index :: "cache_config \<Rightarrow> new_addr_type \<Rightarrow> nat" where
  "set_index cfg addr = unat (drop_bit (cc_line_sz_log2 cfg) addr AND ucast (cc_nset cfg - 1)) mod 2 ^ 32"

definition tag :: "cache_config \<Rightarrow> new_addr_type \<Rightarrow> new_addr_type" where
  "tag cfg addr = drop_bit (cc_line_sz_log2 cfg + cc_nset_log2 cfg) addr"

text \<open>The mask is computed with the 32 bits of \<^verbatim>\<open>m_line_sz\<close> before it is widened.\<close>

definition block_addr :: "cache_config \<Rightarrow> new_addr_type \<Rightarrow> new_addr_type" where
  "block_addr cfg addr = addr AND ucast (NOT (cc_line_sz cfg - 1))"

subsection \<open>Tag array\<close>

datatype cache_block_state = INVALID | RESERVED | VALID | MODIFIED

datatype cache_request_status = HIT | HIT_RESERVED | MISS | RESERVATION_FAIL

datatype cache_event = WRITE_BACK_REQUEST_SENT | READ_REQUEST_SENT | WRITE_REQUEST_SENT

record cache_block =
  cb_tag :: new_addr_type
  cb_block_addr :: new_addr_type
  cb_alloc_time :: nat
  cb_last_access_time :: nat
  cb_fill_time :: nat
  cb_status :: cache_block_state

definition cache_block_new :: cache_block where
  "cache_block_new = \<lparr>cb_tag = 0, cb_block_addr = 0, cb_alloc_time = 0, cb_last_access_time = 0, cb_fill_time = 0, cb_status = INVALID\<rparr>"

definition cb_allocate :: "new_addr_type \<Rightarrow> new_addr_type \<Rightarrow> nat \<Rightarrow> cache_block" where
  "cb_allocate t a time = \<lparr>cb_tag = t, cb_block_addr = a, cb_alloc_time = time, cb_last_access_time = time, cb_fill_time = 0, cb_status = RESERVED\<rparr>"

definition cb_fill :: "nat \<Rightarrow> cache_block \<Rightarrow> cache_block option" where
  "cb_fill time b = do { assert_that (cb_status b = RESERVED); Some (b\<lparr>cb_status := VALID, cb_fill_time := time\<rparr>) }"

record tag_array =
  ta_lines :: "cache_block list"
  ta_access :: nat
  ta_miss :: nat
  ta_pending_hit :: nat

definition tag_array_new :: "cache_config \<Rightarrow> tag_array" where
  "tag_array_new cfg = \<lparr>ta_lines = replicate (get_num_lines cfg) cache_block_new, ta_access = 0, ta_miss = 0, ta_pending_hit = 0\<rparr>"

text \<open>What the search has seen so far; the index and time \<^verbatim>\<open>(unsigned)-1\<close> stand for none.\<close>

record probe_acc =
  pa_invalid :: "nat option"
  pa_valid :: "nat option"
  pa_timestamp :: nat
  pa_all_reserved :: bool

definition probe_start :: probe_acc where
  "probe_start = \<lparr>pa_invalid = None, pa_valid = None, pa_timestamp = 2 ^ 32 - 1, pa_all_reserved = True\<rparr>"

definition age_of :: "cache_config \<Rightarrow> cache_block \<Rightarrow> nat" where
  "age_of cfg b = (case cc_replacement_policy cfg of LRU \<Rightarrow> cb_last_access_time b | FIFO \<Rightarrow> cb_alloc_time b)"

definition probe_note :: "cache_config \<Rightarrow> nat \<Rightarrow> cache_block \<Rightarrow> probe_acc \<Rightarrow> probe_acc" where
  "probe_note cfg ix b acc =
     (if cb_status b \<noteq> RESERVED then
        let acc = acc\<lparr>pa_all_reserved := False\<rparr>
        in if cb_status b = INVALID then acc\<lparr>pa_invalid := Some ix\<rparr>
           else if age_of cfg b < pa_timestamp acc then acc\<lparr>pa_timestamp := age_of cfg b, pa_valid := Some ix\<rparr> else acc
      else acc)"

fun probe_loop :: "cache_config \<Rightarrow> cache_block list \<Rightarrow> new_addr_type \<Rightarrow> nat list \<Rightarrow> probe_acc \<Rightarrow>
    ((cache_request_status \<times> nat) + probe_acc) option" where
  "probe_loop cfg ls t [] acc = Some (Inr acc)"
| "probe_loop cfg ls t (ix # ixs) acc = do {
     b \<leftarrow> vec_at ls ix;
     (if cb_tag b = t \<and> cb_status b = RESERVED then Some (Inl (HIT_RESERVED, ix))
      else if cb_tag b = t \<and> (cb_status b = VALID \<or> cb_status b = MODIFIED) then Some (Inl (HIT, ix))
      else probe_loop cfg ls t ixs (probe_note cfg ix b acc))
   }"

definition set_lines :: "cache_config \<Rightarrow> new_addr_type \<Rightarrow> nat list" where
  "set_lines cfg addr = [set_index cfg addr * cc_assoc cfg ..< set_index cfg addr * cc_assoc cfg + cc_assoc cfg]"

definition ta_probe :: "cache_config \<Rightarrow> tag_array \<Rightarrow> new_addr_type \<Rightarrow> (cache_request_status \<times> nat option) option" where
  "ta_probe cfg t addr = do {
     r \<leftarrow> probe_loop cfg (ta_lines t) (tag cfg addr) (set_lines cfg addr) probe_start;
     (case r of
        Inl (s, ix) \<Rightarrow> Some (s, Some ix)
      | Inr acc \<Rightarrow>
          if pa_all_reserved acc then do { assert_that (cc_alloc_policy cfg = ON_MISS); Some (RESERVATION_FAIL, None) }
          else (case pa_invalid acc of
                  Some ix \<Rightarrow> Some (MISS, Some ix)
                | None \<Rightarrow> (case pa_valid acc of Some ix \<Rightarrow> Some (MISS, Some ix) | None \<Rightarrow> None)))
   }"

text \<open>An access with the index \<open>idx\<close> the caller holds; the result has the index after the call and the block to write back.\<close>

definition ta_access_wb :: "cache_config \<Rightarrow> tag_array \<Rightarrow> new_addr_type \<Rightarrow> nat \<Rightarrow> nat \<Rightarrow>
    (cache_request_status \<times> nat \<times> cache_block option \<times> tag_array) option" where
  "ta_access_wb cfg t addr time idx = do {
     (s, r) \<leftarrow> ta_probe cfg t addr;
     let t = t\<lparr>ta_access := ta_access t + 1\<rparr>;
     let idx = (case r of Some ix \<Rightarrow> ix | None \<Rightarrow> idx);
     (case s of
        RESERVATION_FAIL \<Rightarrow> Some (s, idx, None, t\<lparr>ta_miss := ta_miss t + 1\<rparr>)
      | MISS \<Rightarrow> do {
          b \<leftarrow> vec_at (ta_lines t) idx;
          let t = t\<lparr>ta_miss := ta_miss t + 1\<rparr>;
          (if cc_alloc_policy cfg = ON_MISS
           then Some (s, idx, if cb_status b = MODIFIED then Some b else None,
                  t\<lparr>ta_lines := (ta_lines t)[idx := cb_allocate (tag cfg addr) (block_addr cfg addr) time]\<rparr>)
           else Some (s, idx, None, t))
        }
      | _ \<Rightarrow> do {
          b \<leftarrow> vec_at (ta_lines t) idx;
          let t = (if s = HIT_RESERVED then t\<lparr>ta_pending_hit := ta_pending_hit t + 1\<rparr> else t);
          Some (s, idx, None, t\<lparr>ta_lines := (ta_lines t)[idx := b\<lparr>cb_last_access_time := time\<rparr>]\<rparr>)
        })
   }"

definition ta_access_ro :: "cache_config \<Rightarrow> tag_array \<Rightarrow> new_addr_type \<Rightarrow> nat \<Rightarrow> nat \<Rightarrow> (cache_request_status \<times> nat \<times> tag_array) option" where
  "ta_access_ro cfg t addr time idx = do {
     (s, idx, wb, t) \<leftarrow> ta_access_wb cfg t addr time idx;
     assert_that (Option.is_none wb);
     Some (s, idx, t)
   }"

definition ta_fill_addr :: "cache_config \<Rightarrow> tag_array \<Rightarrow> new_addr_type \<Rightarrow> nat \<Rightarrow> tag_array option" where
  "ta_fill_addr cfg t addr time = do {
     assert_that (cc_alloc_policy cfg = ON_FILL);
     (s, r) \<leftarrow> ta_probe cfg t addr;
     assert_that (s = MISS);
     idx \<leftarrow> r;
     b \<leftarrow> cb_fill time (cb_allocate (tag cfg addr) (block_addr cfg addr) time);
     Some (t\<lparr>ta_lines := (ta_lines t)[idx := b]\<rparr>)
   }"

definition ta_fill_idx :: "cache_config \<Rightarrow> tag_array \<Rightarrow> nat \<Rightarrow> nat \<Rightarrow> tag_array option" where
  "ta_fill_idx cfg t idx time = do {
     assert_that (cc_alloc_policy cfg = ON_MISS);
     b \<leftarrow> vec_at (ta_lines t) idx;
     b \<leftarrow> cb_fill time b;
     Some (t\<lparr>ta_lines := (ta_lines t)[idx := b]\<rparr>)
   }"

definition ta_flush :: "tag_array \<Rightarrow> tag_array" where
  "ta_flush t = t\<lparr>ta_lines := map (\<lambda>b. b\<lparr>cb_status := INVALID\<rparr>) (ta_lines t)\<rparr>"

definition set_status :: "tag_array \<Rightarrow> nat \<Rightarrow> cache_block_state \<Rightarrow> tag_array option" where
  "set_status t idx s = do { b \<leftarrow> vec_at (ta_lines t) idx; Some (t\<lparr>ta_lines := (ta_lines t)[idx := b\<lparr>cb_status := s\<rparr>]\<rparr>) }"

subsection \<open>Miss status holding registers\<close>

record mshr_entry =
  me_list :: "nat list"
  me_has_atomic :: bool

record mshr_table =
  mt_num_entries :: nat
  mt_max_merged :: nat
  mt_data :: "(new_addr_type \<times> mshr_entry) list"
  mt_current_response :: "new_addr_type list"

definition mshr_table_new :: "nat \<Rightarrow> nat \<Rightarrow> mshr_table" where
  "mshr_table_new num_entries max_merged = \<lparr>mt_num_entries = num_entries, mt_max_merged = max_merged, mt_data = [], mt_current_response = []\<rparr>"

definition mshr_probe :: "mshr_table \<Rightarrow> new_addr_type \<Rightarrow> bool" where
  "mshr_probe t a \<longleftrightarrow> \<not> Option.is_none (map_of (mt_data t) a)"

definition mshr_full :: "mshr_table \<Rightarrow> new_addr_type \<Rightarrow> bool" where
  "mshr_full t a \<longleftrightarrow> (case map_of (mt_data t) a of
       Some e \<Rightarrow> length (me_list e) \<ge> mt_max_merged t
     | None \<Rightarrow> length (mt_data t) \<ge> mt_num_entries t)"

text \<open>\<^verbatim>\<open>m_data[block_addr]\<close>, which creates an empty entry where there is none.\<close>

definition mshr_entry_at :: "mshr_table \<Rightarrow> new_addr_type \<Rightarrow> mshr_entry" where
  "mshr_entry_at t a = (case map_of (mt_data t) a of Some e \<Rightarrow> e | None \<Rightarrow> \<lparr>me_list = [], me_has_atomic = False\<rparr>)"

definition mshr_add :: "mshr_table \<Rightarrow> new_addr_type \<Rightarrow> nat \<Rightarrow> bool \<Rightarrow> mshr_table option" where
  "mshr_add t a mf isatomic = do {
     let e = mshr_entry_at t a;
     let e = e\<lparr>me_list := me_list e @ [mf]\<rparr>;
     let d = AList.update a e (mt_data t);
     assert_that (length d \<le> mt_num_entries t);
     assert_that (length (me_list e) \<le> mt_max_merged t);
     Some (t\<lparr>mt_data := (if isatomic then AList.update a (e\<lparr>me_has_atomic := True\<rparr>) d else d)\<rparr>)
   }"

definition mark_ready :: "mshr_table \<Rightarrow> new_addr_type \<Rightarrow> (bool \<times> mshr_table) option" where
  "mark_ready t a = do {
     e \<leftarrow> map_of (mt_data t) a;
     let t = t\<lparr>mt_current_response := mt_current_response t @ [a]\<rparr>;
     assert_that (length (mt_current_response t) \<le> length (mt_data t));
     Some (me_has_atomic e, t)
   }"

definition access_ready :: "mshr_table \<Rightarrow> bool" where
  "access_ready t \<longleftrightarrow> mt_current_response t \<noteq> []"

definition next_access :: "mshr_table \<Rightarrow> (nat \<times> mshr_table) option" where
  "next_access t = (case mt_current_response t of
       [] \<Rightarrow> None
     | a # as \<Rightarrow>
         let e = mshr_entry_at t a
         in (case me_list e of
               [] \<Rightarrow> None
             | mf # mfs \<Rightarrow>
                 if mfs = [] then Some (mf, t\<lparr>mt_data := AList.delete a (mt_data t), mt_current_response := as\<rparr>)
                 else Some (mf, t\<lparr>mt_data := AList.update a (e\<lparr>me_list := mfs\<rparr>) (mt_data t)\<rparr>)))"

subsection \<open>Baseline cache\<close>

datatype mem_access_type = GLOBAL_ACC_R | LOCAL_ACC_R | CONST_ACC_R | TEXTURE_ACC_R | GLOBAL_ACC_W | LOCAL_ACC_W
  | L1_WRBK_ACC | L2_WRBK_ACC | INST_ACC_R | L2_WR_ALLOC_R | MEM_FENCE | RUBY_DRAM_R | RUBY_DRAM_W

record mem_fetch =
  mf_addr :: new_addr_type
  mf_data_size :: nat
  mf_is_write :: bool
  mf_isatomic :: bool
  mf_access_type :: mem_access_type

record mf_heap =
  mh_next :: nat
  mh_obj :: "nat \<Rightarrow> mem_fetch"

definition mf_alloc :: "mf_heap \<Rightarrow> mem_fetch \<Rightarrow> nat \<times> mf_heap" where
  "mf_alloc h m = (mh_next h, h\<lparr>mh_next := mh_next h + 1, mh_obj := (mh_obj h)(mh_next h := m)\<rparr>)"

definition mf_set_data_size :: "nat \<Rightarrow> nat \<Rightarrow> mf_heap \<Rightarrow> mf_heap" where
  "mf_set_data_size mf sz h = h\<lparr>mh_obj := (mh_obj h)(mf := (mh_obj h mf)\<lparr>mf_data_size := sz\<rparr>)\<rparr>"

record extra_mf_fields =
  ex_block_addr :: new_addr_type
  ex_cache_index :: nat
  ex_data_size :: nat

record baseline_cache =
  bc_tag_array :: tag_array
  bc_mshrs :: mshr_table
  bc_miss_queue :: "nat list"
  bc_extra :: "nat \<Rightarrow> extra_mf_fields option"
  bc_heap :: mf_heap

definition baseline_cache_new :: "cache_config \<Rightarrow> mf_heap \<Rightarrow> baseline_cache" where
  "baseline_cache_new cfg h = \<lparr>bc_tag_array = tag_array_new cfg, bc_mshrs = mshr_table_new (cc_mshr_entries cfg) (cc_mshr_max_merge cfg),
     bc_miss_queue = [], bc_extra = (\<lambda>_. None), bc_heap = h\<rparr>"

text \<open>The cache cycle with the memory port's answer \<open>port_full\<close>; the result has the fetch handed to the port.\<close>

definition bc_cycle :: "(nat \<Rightarrow> bool \<Rightarrow> bool) \<Rightarrow> baseline_cache \<Rightarrow> nat option \<times> baseline_cache" where
  "bc_cycle port_full c = (case bc_miss_queue c of
       [] \<Rightarrow> (None, c)
     | mf # mfs \<Rightarrow>
         if \<not> port_full (mf_data_size (mh_obj (bc_heap c) mf)) (mf_is_write (mh_obj (bc_heap c) mf))
         then (Some mf, c\<lparr>bc_miss_queue := mfs\<rparr>) else (None, c))"

definition bc_fill :: "cache_config \<Rightarrow> baseline_cache \<Rightarrow> nat \<Rightarrow> nat \<Rightarrow> baseline_cache option" where
  "bc_fill cfg c mf time = do {
     e \<leftarrow> bc_extra c mf;
     let c = c\<lparr>bc_heap := mf_set_data_size mf (ex_data_size e) (bc_heap c)\<rparr>;
     t \<leftarrow> (if cc_alloc_policy cfg = ON_MISS then ta_fill_idx cfg (bc_tag_array c) (ex_cache_index e) time
           else ta_fill_addr cfg (bc_tag_array c) (ex_block_addr e) time);
     (has_atomic, m) \<leftarrow> mark_ready (bc_mshrs c) (ex_block_addr e);
     t \<leftarrow> (if has_atomic then do { assert_that (cc_alloc_policy cfg = ON_MISS); set_status t (ex_cache_index e) MODIFIED } else Some t);
     Some (c\<lparr>bc_tag_array := t, bc_mshrs := m, bc_extra := (bc_extra c)(mf := None)\<rparr>)
   }"

definition waiting_for_fill :: "baseline_cache \<Rightarrow> nat \<Rightarrow> bool" where
  "waiting_for_fill c mf \<longleftrightarrow> \<not> Option.is_none (bc_extra c mf)"

definition bc_next_access :: "baseline_cache \<Rightarrow> (nat \<times> baseline_cache) option" where
  "bc_next_access c = do { (mf, m) \<leftarrow> next_access (bc_mshrs c); Some (mf, c\<lparr>bc_mshrs := m\<rparr>) }"

definition bc_flush :: "baseline_cache \<Rightarrow> baseline_cache" where
  "bc_flush c = c\<lparr>bc_tag_array := ta_flush (bc_tag_array c)\<rparr>"

definition miss_queue_full :: "cache_config \<Rightarrow> baseline_cache \<Rightarrow> nat \<Rightarrow> bool" where
  "miss_queue_full cfg c num_miss \<longleftrightarrow> length (bc_miss_queue c) + num_miss \<ge> cc_miss_queue_size cfg"

text \<open>
  The read miss handler: the result has \<^verbatim>\<open>do_miss\<close>, the block to write back and the events sent.
\<close>

definition send_read_request :: "cache_config \<Rightarrow> baseline_cache \<Rightarrow> new_addr_type \<Rightarrow> nat \<Rightarrow> nat \<Rightarrow> nat \<Rightarrow> bool \<Rightarrow> bool \<Rightarrow>
    (bool \<times> cache_block option \<times> cache_event list \<times> baseline_cache) option" where
  "send_read_request cfg c baddr cache_index mf time read_only wa = do {
     let mshr_hit = mshr_probe (bc_mshrs c) baddr;
     let mshr_avail = \<not> mshr_full (bc_mshrs c) baddr;
     let isatomic = mf_isatomic (mh_obj (bc_heap c) mf);
     (if mshr_hit \<and> mshr_avail then do {
        (s, idx, wb, t) \<leftarrow> ta_access_wb cfg (bc_tag_array c) baddr time cache_index;
        assert_that (read_only \<longrightarrow> Option.is_none wb);
        m \<leftarrow> mshr_add (bc_mshrs c) baddr mf isatomic;
        Some (True, wb, [], c\<lparr>bc_tag_array := t, bc_mshrs := m\<rparr>)
      } else if \<not> mshr_hit \<and> mshr_avail \<and> length (bc_miss_queue c) < cc_miss_queue_size cfg then do {
        (s, idx, wb, t) \<leftarrow> ta_access_wb cfg (bc_tag_array c) baddr time cache_index;
        assert_that (read_only \<longrightarrow> Option.is_none wb);
        m \<leftarrow> mshr_add (bc_mshrs c) baddr mf isatomic;
        let e = \<lparr>ex_block_addr = baddr, ex_cache_index = idx, ex_data_size = mf_data_size (mh_obj (bc_heap c) mf)\<rparr>;
        Some (True, wb, if wa then [] else [READ_REQUEST_SENT],
          c\<lparr>bc_tag_array := t, bc_mshrs := m, bc_extra := (bc_extra c)(mf \<mapsto> e),
            bc_heap := mf_set_data_size mf (unat (cc_line_sz cfg)) (bc_heap c), bc_miss_queue := bc_miss_queue c @ [mf]\<rparr>)
      } else Some (False, None, [], c))
   }"

subsection \<open>Read-only cache\<close>

definition read_only_access :: "cache_config \<Rightarrow> baseline_cache \<Rightarrow> new_addr_type \<Rightarrow> nat \<Rightarrow> nat \<Rightarrow>
    (cache_request_status \<times> cache_event list \<times> baseline_cache) option" where
  "read_only_access cfg c addr mf time = do {
     assert_that (mf_data_size (mh_obj (bc_heap c) mf) \<le> unat (cc_line_sz cfg));
     assert_that (cc_write_policy cfg = READ_ONLY);
     assert_that (\<not> mf_is_write (mh_obj (bc_heap c) mf));
     let baddr = block_addr cfg addr;
     (s, r) \<leftarrow> ta_probe cfg (bc_tag_array c) baddr;
     let cache_index = (case r of Some ix \<Rightarrow> ix | None \<Rightarrow> 2 ^ 32 - 1);
     (if s = HIT then do {
        (s', idx, t) \<leftarrow> ta_access_ro cfg (bc_tag_array c) baddr time cache_index;
        Some (HIT, [], c\<lparr>bc_tag_array := t\<rparr>)
      } else if s \<noteq> RESERVATION_FAIL \<and> \<not> miss_queue_full cfg c 0 then do {
        (do_miss, wb, ev, c) \<leftarrow> send_read_request cfg c baddr cache_index mf time True False;
        Some (if do_miss then MISS else RESERVATION_FAIL, ev, c)
      } else Some (RESERVATION_FAIL, [], c))
   }"

subsection \<open>Data caches\<close>

type_synonym access_result = "(cache_request_status \<times> cache_event list \<times> baseline_cache) option"

definition send_write_request :: "baseline_cache \<Rightarrow> nat \<Rightarrow> baseline_cache" where
  "send_write_request c mf = c\<lparr>bc_miss_queue := bc_miss_queue c @ [mf]\<rparr>"

definition wr_hit_wb :: "cache_config \<Rightarrow> baseline_cache \<Rightarrow> new_addr_type \<Rightarrow> nat \<Rightarrow> nat \<Rightarrow> nat \<Rightarrow> access_result" where
  "wr_hit_wb cfg c addr cache_index mf time = do {
     (s, idx, t) \<leftarrow> ta_access_ro cfg (bc_tag_array c) (block_addr cfg addr) time cache_index;
     t \<leftarrow> set_status t idx MODIFIED;
     Some (HIT, [], c\<lparr>bc_tag_array := t\<rparr>)
   }"

definition wr_hit_wt :: "cache_config \<Rightarrow> baseline_cache \<Rightarrow> new_addr_type \<Rightarrow> nat \<Rightarrow> nat \<Rightarrow> nat \<Rightarrow> access_result" where
  "wr_hit_wt cfg c addr cache_index mf time =
     (if miss_queue_full cfg c 0 then Some (RESERVATION_FAIL, [], c)
      else do {
        (s, idx, t) \<leftarrow> ta_access_ro cfg (bc_tag_array c) (block_addr cfg addr) time cache_index;
        t \<leftarrow> set_status t idx MODIFIED;
        Some (HIT, [WRITE_REQUEST_SENT], send_write_request (c\<lparr>bc_tag_array := t\<rparr>) mf)
      })"

definition wr_hit_we :: "cache_config \<Rightarrow> baseline_cache \<Rightarrow> new_addr_type \<Rightarrow> nat \<Rightarrow> nat \<Rightarrow> nat \<Rightarrow> access_result" where
  "wr_hit_we cfg c addr cache_index mf time =
     (if miss_queue_full cfg c 0 then Some (RESERVATION_FAIL, [], c)
      else do {
        t \<leftarrow> set_status (bc_tag_array c) cache_index INVALID;
        Some (HIT, [WRITE_REQUEST_SENT], send_write_request (c\<lparr>bc_tag_array := t\<rparr>) mf)
      })"

definition wr_hit_global_we_local_wb :: "cache_config \<Rightarrow> baseline_cache \<Rightarrow> new_addr_type \<Rightarrow> nat \<Rightarrow> nat \<Rightarrow> nat \<Rightarrow> access_result" where
  "wr_hit_global_we_local_wb cfg c addr cache_index mf time =
     (if mf_access_type (mh_obj (bc_heap c) mf) = GLOBAL_ACC_W then wr_hit_we cfg c addr cache_index mf time
      else wr_hit_wb cfg c addr cache_index mf time)"

text \<open>The write-back of an evicted block; a write-through cache has already updated the lower level.\<close>

definition write_back :: "cache_config \<Rightarrow> mem_access_type \<Rightarrow> cache_block option \<Rightarrow> baseline_cache \<Rightarrow> bool \<times> baseline_cache" where
  "write_back cfg ty wb c = (case wb of
       Some b \<Rightarrow>
         if cc_write_policy cfg \<noteq> WRITE_THROUGH then
           let (w, h) = mf_alloc (bc_heap c) \<lparr>mf_addr = cb_block_addr b, mf_data_size = unat (cc_line_sz cfg), mf_is_write = True,
                          mf_isatomic = False, mf_access_type = ty\<rparr>
           in (True, send_write_request (c\<lparr>bc_heap := h\<rparr>) w)
         else (False, c)
     | None \<Rightarrow> (False, c))"

definition wr_miss_wa :: "cache_config \<Rightarrow> baseline_cache \<Rightarrow> new_addr_type \<Rightarrow> nat \<Rightarrow> nat \<Rightarrow> nat \<Rightarrow> access_result" where
  "wr_miss_wa cfg c addr cache_index mf time = do {
     let baddr = block_addr cfg addr;
     let mshr_hit = mshr_probe (bc_mshrs c) baddr;
     let mshr_avail = \<not> mshr_full (bc_mshrs c) baddr;
     (if miss_queue_full cfg c 2 \<or>
         (\<not> (mshr_hit \<and> mshr_avail) \<and> \<not> (\<not> mshr_hit \<and> mshr_avail \<and> length (bc_miss_queue c) < cc_miss_queue_size cfg))
      then Some (RESERVATION_FAIL, [], c)
      else do {
        let c = send_write_request c mf;
        let m = mh_obj (bc_heap c) mf;
        let (n_mf, h) = mf_alloc (bc_heap c) \<lparr>mf_addr = mf_addr m, mf_data_size = mf_data_size m, mf_is_write = False,
                          mf_isatomic = False, mf_access_type = L2_WR_ALLOC_R\<rparr>;
        (do_miss, wb, ev, c) \<leftarrow> send_read_request cfg (c\<lparr>bc_heap := h\<rparr>) baddr cache_index n_mf time False True;
        let (sent, c) = write_back cfg L2_WRBK_ACC wb c;
        Some (if do_miss then MISS else RESERVATION_FAIL, WRITE_REQUEST_SENT # ev, c)
      })
   }"

definition wr_miss_no_wa :: "cache_config \<Rightarrow> baseline_cache \<Rightarrow> new_addr_type \<Rightarrow> nat \<Rightarrow> nat \<Rightarrow> nat \<Rightarrow> access_result" where
  "wr_miss_no_wa cfg c addr cache_index mf time =
     (if miss_queue_full cfg c 0 then Some (RESERVATION_FAIL, [], c)
      else Some (MISS, [WRITE_REQUEST_SENT], send_write_request c mf))"

definition rd_hit_base :: "cache_config \<Rightarrow> baseline_cache \<Rightarrow> new_addr_type \<Rightarrow> nat \<Rightarrow> nat \<Rightarrow> nat \<Rightarrow> access_result" where
  "rd_hit_base cfg c addr cache_index mf time = do {
     (s, idx, t) \<leftarrow> ta_access_ro cfg (bc_tag_array c) (block_addr cfg addr) time cache_index;
     let m = mh_obj (bc_heap c) mf;
     t \<leftarrow> (if mf_isatomic m then do { assert_that (mf_access_type m = GLOBAL_ACC_R); set_status t idx MODIFIED } else Some t);
     Some (HIT, [], c\<lparr>bc_tag_array := t\<rparr>)
   }"

definition rd_miss_base :: "cache_config \<Rightarrow> baseline_cache \<Rightarrow> new_addr_type \<Rightarrow> nat \<Rightarrow> nat \<Rightarrow> nat \<Rightarrow> access_result" where
  "rd_miss_base cfg c addr cache_index mf time =
     (if miss_queue_full cfg c 1 then Some (RESERVATION_FAIL, [], c)
      else do {
        (do_miss, wb, ev, c) \<leftarrow> send_read_request cfg c (block_addr cfg addr) cache_index mf time False False;
        let (sent, c) = write_back cfg L1_WRBK_ACC wb c;
        Some (if do_miss then MISS else RESERVATION_FAIL, ev @ (if sent then [WRITE_BACK_REQUEST_SENT] else []), c)
      })"

definition m_wr_hit :: "cache_config \<Rightarrow> baseline_cache \<Rightarrow> new_addr_type \<Rightarrow> nat \<Rightarrow> nat \<Rightarrow> nat \<Rightarrow> access_result" where
  "m_wr_hit cfg = (case cc_write_policy cfg of
       READ_ONLY \<Rightarrow> (\<lambda>_ _ _ _ _. None)
     | WRITE_BACK \<Rightarrow> wr_hit_wb cfg
     | WRITE_THROUGH \<Rightarrow> wr_hit_wt cfg
     | WRITE_EVICT \<Rightarrow> wr_hit_we cfg
     | LOCAL_WB_GLOBAL_WT \<Rightarrow> wr_hit_global_we_local_wb cfg)"

definition m_wr_miss :: "cache_config \<Rightarrow> baseline_cache \<Rightarrow> new_addr_type \<Rightarrow> nat \<Rightarrow> nat \<Rightarrow> nat \<Rightarrow> access_result" where
  "m_wr_miss cfg = (case cc_write_alloc_policy cfg of WRITE_ALLOCATE \<Rightarrow> wr_miss_wa cfg | NO_WRITE_ALLOCATE \<Rightarrow> wr_miss_no_wa cfg)"

text \<open>\<^verbatim>\<open>l1_cache::access\<close> and \<^verbatim>\<open>l2_cache::access\<close> have the same body.\<close>

definition data_cache_access :: "cache_config \<Rightarrow> baseline_cache \<Rightarrow> new_addr_type \<Rightarrow> nat \<Rightarrow> nat \<Rightarrow> access_result" where
  "data_cache_access cfg c addr mf time = do {
     assert_that (mf_data_size (mh_obj (bc_heap c) mf) \<le> unat (cc_line_sz cfg));
     (s, r) \<leftarrow> ta_probe cfg (bc_tag_array c) (block_addr cfg addr);
     let cache_index = (case r of Some ix \<Rightarrow> ix | None \<Rightarrow> 2 ^ 32 - 1);
     (if mf_is_write (mh_obj (bc_heap c) mf) then
        (if s = HIT then m_wr_hit cfg c addr cache_index mf time
         else if s \<noteq> RESERVATION_FAIL then m_wr_miss cfg c addr cache_index mf time
         else Some (RESERVATION_FAIL, [], c))
      else
        (if s = HIT then rd_hit_base cfg c addr cache_index mf time
         else if s \<noteq> RESERVATION_FAIL then rd_miss_base cfg c addr cache_index mf time
         else Some (RESERVATION_FAIL, [], c)))
   }"

subsection \<open>The tag array\<close>

definition cfg_ok :: "cache_config \<Rightarrow> bool" where
  "cfg_ok cfg \<longleftrightarrow> cc_line_sz cfg = 2 ^ cc_line_sz_log2 cfg \<and> cc_nset cfg = 2 ^ cc_nset_log2 cfg \<and> cc_line_sz_log2 cfg < 32 \<and>
     cc_nset_log2 cfg < 32 \<and> 0 < cc_assoc cfg \<and> unat (cc_nset cfg) * cc_assoc cfg < 2 ^ 32"

lemma nset_mask: "cfg_ok cfg \<Longrightarrow> (ucast (cc_nset cfg - 1) :: 64 word) = mask (cc_nset_log2 cfg)"
  by (rule bit_word_eqI) (auto simp: cfg_ok_def mask_eq_exp_minus_1 [symmetric] bit_simps)

lemma set_index_eq: "cfg_ok cfg \<Longrightarrow> set_index cfg addr = unat addr div 2 ^ cc_line_sz_log2 cfg mod 2 ^ cc_nset_log2 cfg"
proof -
  assume ok: "cfg_ok cfg"
  then have "set_index cfg addr = unat (take_bit (cc_nset_log2 cfg) (drop_bit (cc_line_sz_log2 cfg) addr)) mod 2 ^ 32"
    by (simp add: set_index_def nset_mask take_bit_eq_mask)
  also have "\<dots> = (unat addr div 2 ^ cc_line_sz_log2 cfg mod 2 ^ cc_nset_log2 cfg) mod 2 ^ 32"
    by (simp only: unsigned_take_bit_eq unat_drop_bit_eq) (simp only: take_bit_eq_mod drop_bit_eq_div)
  also have "\<dots> = unat addr div 2 ^ cc_line_sz_log2 cfg mod 2 ^ cc_nset_log2 cfg"
  proof (rule mod_less)
    have "unat addr div 2 ^ cc_line_sz_log2 cfg mod 2 ^ cc_nset_log2 cfg < (2 :: nat) ^ cc_nset_log2 cfg" by simp
    also have "\<dots> \<le> 2 ^ 32" using ok by (intro power_increasing) (auto simp: cfg_ok_def)
    finally show "unat addr div 2 ^ cc_line_sz_log2 cfg mod 2 ^ cc_nset_log2 cfg < (2 :: nat) ^ 32" .
  qed
  finally show ?thesis .
qed

lemma unat_p2: "n < 32 \<Longrightarrow> unat (2 ^ n :: 32 word) = 2 ^ n"
proof -
  assume n: "n < 32"
  then have "(2 :: nat) ^ n < 2 ^ 32" by (intro power_strict_increasing) simp_all
  then have "unat (of_nat (2 ^ n) :: 32 word) = 2 ^ n" by (simp only: unat_of_nat) (simp add: take_bit_nat_eq_self)
  then show ?thesis by simp
qed

lemma nset_unat: "cfg_ok cfg \<Longrightarrow> unat (cc_nset cfg) = 2 ^ cc_nset_log2 cfg"
  by (simp add: cfg_ok_def unat_p2)

lemma set_index_lt: "cfg_ok cfg \<Longrightarrow> set_index cfg addr < unat (cc_nset cfg)"
  by (simp add: set_index_eq nset_unat)

lemma num_lines_eq: "cfg_ok cfg \<Longrightarrow> get_num_lines cfg = unat (cc_nset cfg) * cc_assoc cfg"
  unfolding get_num_lines_def cfg_ok_def by (intro mod_less) blast

lemma set_lines_mem:
  assumes "cfg_ok cfg"
  shows "i \<in> set (set_lines cfg addr) \<longleftrightarrow> i div cc_assoc cfg = set_index cfg addr"
proof -
  have a: "0 < cc_assoc cfg" using assms by (simp add: cfg_ok_def)
  have "i div cc_assoc cfg = k \<longleftrightarrow> k * cc_assoc cfg \<le> i \<and> i < k * cc_assoc cfg + cc_assoc cfg" for k
    using a by (auto simp: div_nat_eqI less_mult_imp_div_less mult.commute intro: div_nat_eqI)
      (metis add.commute dividend_less_times_div mult.commute)
  then show ?thesis by (simp add: set_lines_def)
qed

lemma set_lines_lt: "\<lbrakk>cfg_ok cfg; i \<in> set (set_lines cfg addr)\<rbrakk> \<Longrightarrow> i < get_num_lines cfg"
proof -
  assume ok: "cfg_ok cfg" and i: "i \<in> set (set_lines cfg addr)"
  have "Suc (set_index cfg addr) * cc_assoc cfg \<le> unat (cc_nset cfg) * cc_assoc cfg"
    using set_index_lt [OF ok, of addr] by (intro mult_le_mono1) simp
  then show ?thesis using i by (simp add: num_lines_eq [OF ok] set_lines_def)
qed

text \<open>
  Within a set no tag is held twice, the address kept for the write-back is that of the line's set and tag, and the time stamps
  are below the value that stands for none.
\<close>

definition ta_inv :: "cache_config \<Rightarrow> tag_array \<Rightarrow> bool" where
  "ta_inv cfg t \<longleftrightarrow> length (ta_lines t) = get_num_lines cfg \<and>
     (\<forall>i < get_num_lines cfg. let b = ta_lines t ! i in
        cb_last_access_time b < 2 ^ 32 - 1 \<and> cb_alloc_time b < 2 ^ 32 - 1 \<and>
        (cb_status b \<noteq> INVALID \<longrightarrow> block_addr cfg (cb_block_addr b) = cb_block_addr b \<and> tag cfg (cb_block_addr b) = cb_tag b \<and>
           set_index cfg (cb_block_addr b) = i div cc_assoc cfg \<and>
           (\<forall>j < get_num_lines cfg. j \<noteq> i \<and> j div cc_assoc cfg = i div cc_assoc cfg \<and> cb_status (ta_lines t ! j) \<noteq> INVALID \<longrightarrow>
              cb_tag (ta_lines t ! j) \<noteq> cb_tag b)))"

definition matches :: "cache_block list \<Rightarrow> new_addr_type \<Rightarrow> nat \<Rightarrow> bool" where
  "matches ls tg i \<longleftrightarrow> cb_tag (ls ! i) = tg \<and> cb_status (ls ! i) \<noteq> INVALID"

definition hit_status :: "cache_block \<Rightarrow> cache_request_status" where
  "hit_status b = (if cb_status b = RESERVED then HIT_RESERVED else HIT)"

definition in_use :: "cache_block \<Rightarrow> bool" where
  "in_use b \<longleftrightarrow> cb_status b = VALID \<or> cb_status b = MODIFIED"

definition seen :: "cache_config \<Rightarrow> cache_block list \<Rightarrow> nat set \<Rightarrow> probe_acc \<Rightarrow> bool" where
  "seen cfg ls S acc \<longleftrightarrow> (pa_all_reserved acc \<longleftrightarrow> (\<forall>i \<in> S. cb_status (ls ! i) = RESERVED)) \<and>
     (case pa_invalid acc of Some i \<Rightarrow> i \<in> S \<and> cb_status (ls ! i) = INVALID | None \<Rightarrow> \<forall>i \<in> S. cb_status (ls ! i) \<noteq> INVALID) \<and>
     (case pa_valid acc of
        Some i \<Rightarrow> i \<in> S \<and> in_use (ls ! i) \<and> age_of cfg (ls ! i) = pa_timestamp acc \<and> (\<forall>j \<in> S. in_use (ls ! j) \<longrightarrow> age_of cfg (ls ! i) \<le> age_of cfg (ls ! j))
      | None \<Rightarrow> pa_timestamp acc = 2 ^ 32 - 1 \<and> (\<forall>j \<in> S. \<not> in_use (ls ! j)))"

lemma seen_start: "seen cfg ls {} probe_start"
  by (simp add: seen_def probe_start_def)

lemma seen_note:
  assumes "seen cfg ls S acc" "age_of cfg (ls ! ix) < 2 ^ 32 - 1"
  shows "seen cfg ls (insert ix S) (probe_note cfg ix (ls ! ix) acc)"
proof (cases "cb_status (ls ! ix)")
  case INVALID
  then show ?thesis using assms(1) by (auto simp: seen_def probe_note_def Let_def in_use_def split: option.splits)
next
  case RESERVED
  then show ?thesis using assms(1) by (auto simp: seen_def probe_note_def in_use_def split: option.splits)
next
  case VALID
  then show ?thesis using assms by (auto simp: seen_def probe_note_def Let_def in_use_def split: option.splits)
next
  case MODIFIED
  then show ?thesis using assms by (auto simp: seen_def probe_note_def Let_def in_use_def split: option.splits)
qed

lemma probe_loop_hit:
  assumes "\<forall>i \<in> set ixs. i < length ls" "\<exists>i \<in> set ixs. matches ls tg i"
  shows "\<exists>i \<in> set ixs. matches ls tg i \<and> probe_loop cfg ls tg ixs acc = Some (Inl (hit_status (ls ! i), i))"
  using assms
proof (induction ixs arbitrary: acc)
  case (Cons ix ixs)
  show ?case
  proof (cases "matches ls tg ix")
    case True
    then show ?thesis using Cons.prems by (cases "cb_status (ls ! ix)") (auto simp: matches_def vec_at_def hit_status_def)
  next
    case False
    then have "probe_loop cfg ls tg (ix # ixs) acc = probe_loop cfg ls tg ixs (probe_note cfg ix (ls ! ix) acc)"
      using Cons.prems(1) by (auto simp: matches_def vec_at_def)
    then show ?thesis using Cons.IH Cons.prems False by auto
  qed
qed simp

lemma probe_loop_miss:
  assumes "\<forall>i \<in> set ixs. i < length ls \<and> age_of cfg (ls ! i) < 2 ^ 32 - 1 \<and> \<not> matches ls tg i" "seen cfg ls S acc"
  shows "\<exists>acc'. probe_loop cfg ls tg ixs acc = Some (Inr acc') \<and> seen cfg ls (S \<union> set ixs) acc'"
  using assms
proof (induction ixs arbitrary: acc S)
  case (Cons ix ixs)
  have "probe_loop cfg ls tg (ix # ixs) acc = probe_loop cfg ls tg ixs (probe_note cfg ix (ls ! ix) acc)"
    using Cons.prems(1) by (auto simp: matches_def vec_at_def)
  moreover have "seen cfg ls (insert ix S) (probe_note cfg ix (ls ! ix) acc)" using Cons.prems by (intro seen_note) auto
  ultimately show ?case using Cons.IH [of "insert ix S"] Cons.prems(1) by auto
qed simp

text \<open>The three outcomes of a probe.\<close>

lemma ta_probe_cases:
  assumes ok: "cfg_ok cfg" "ta_inv cfg t" and pol: "cc_alloc_policy cfg = ON_MISS"
  obtains (hit) i where "i \<in> set (set_lines cfg addr)" "matches (ta_lines t) (tag cfg addr) i"
      "ta_probe cfg t addr = Some (hit_status (ta_lines t ! i), Some i)"
  | (miss) i where "i \<in> set (set_lines cfg addr)" "\<forall>j \<in> set (set_lines cfg addr). \<not> matches (ta_lines t) (tag cfg addr) j"
      "ta_probe cfg t addr = Some (MISS, Some i)" "cb_status (ta_lines t ! i) \<noteq> RESERVED"
      "cb_status (ta_lines t ! i) = INVALID \<or> (\<forall>j \<in> set (set_lines cfg addr). cb_status (ta_lines t ! j) \<noteq> INVALID \<and>
         (in_use (ta_lines t ! j) \<longrightarrow> age_of cfg (ta_lines t ! i) \<le> age_of cfg (ta_lines t ! j)))"
  | (full) "\<forall>j \<in> set (set_lines cfg addr). cb_status (ta_lines t ! j) = RESERVED \<and> \<not> matches (ta_lines t) (tag cfg addr) j"
      "ta_probe cfg t addr = Some (RESERVATION_FAIL, None)"
proof -
  let ?ls = "ta_lines t" and ?ix = "set_lines cfg addr"
  have lt: "\<forall>i \<in> set ?ix. i < length ?ls" using set_lines_lt [OF ok(1)] ok(2) by (simp add: ta_inv_def)
  have age: "\<forall>i \<in> set ?ix. age_of cfg (?ls ! i) < 2 ^ 32 - 1"
    using set_lines_lt [OF ok(1)] ok(2) by (auto simp: ta_inv_def age_of_def Let_def split: replacement_policy_t.splits)
  show ?thesis
  proof (cases "\<exists>i \<in> set ?ix. matches ?ls (tag cfg addr) i")
    case True
    from probe_loop_hit [OF lt this, of cfg probe_start] obtain i where i: "i \<in> set ?ix" "matches ?ls (tag cfg addr) i"
        "probe_loop cfg ?ls (tag cfg addr) ?ix probe_start = Some (Inl (hit_status (?ls ! i), i))" by blast
    then show ?thesis using hit [OF i(1,2)] by (simp add: ta_probe_def)
  next
    case False
    then obtain acc where acc: "probe_loop cfg ?ls (tag cfg addr) ?ix probe_start = Some (Inr acc)" "seen cfg ?ls (set ?ix) acc"
      using probe_loop_miss [of ?ix ?ls cfg "tag cfg addr" "{}" probe_start, OF _ seen_start] lt age by auto
    show ?thesis
    proof (cases "pa_all_reserved acc")
      case True
      then show ?thesis using full acc False pol by (auto simp: ta_probe_def seen_def)
    next
      case nr: False
      obtain j where j: "j \<in> set ?ix" "cb_status (?ls ! j) \<noteq> RESERVED" using acc(2) nr by (auto simp: seen_def)
      show ?thesis
      proof (cases "pa_invalid acc")
        case (Some i)
        then show ?thesis using miss [of i] acc False nr by (auto simp: ta_probe_def seen_def)
      next
        case None
        then have "in_use (?ls ! j)" using acc(2) j by (cases "cb_status (?ls ! j)") (auto simp: seen_def in_use_def)
        then obtain i where "pa_valid acc = Some i" using acc(2) j by (cases "pa_valid acc") (auto simp: seen_def)
        then show ?thesis using miss [of i] acc False nr None by (auto simp: ta_probe_def seen_def in_use_def)
      qed
    qed
  qed
qed

lemma ta_inv_update:
  assumes inv: "ta_inv cfg t" and i: "i < get_num_lines cfg" and tm: "cb_last_access_time b < 2 ^ 32 - 1" "cb_alloc_time b < 2 ^ 32 - 1"
    and b: "cb_status b \<noteq> INVALID \<Longrightarrow> block_addr cfg (cb_block_addr b) = cb_block_addr b \<and> tag cfg (cb_block_addr b) = cb_tag b \<and>
      set_index cfg (cb_block_addr b) = i div cc_assoc cfg \<and>
      (\<forall>j < get_num_lines cfg. j \<noteq> i \<and> j div cc_assoc cfg = i div cc_assoc cfg \<and> cb_status (ta_lines t ! j) \<noteq> INVALID \<longrightarrow>
         cb_tag (ta_lines t ! j) \<noteq> cb_tag b)"
    and t': "ta_lines t' = (ta_lines t)[i := b]"
  shows "ta_inv cfg t'"
proof -
  let ?n = "get_num_lines cfg"
  have len: "length (ta_lines t) = ?n" using inv by (simp add: ta_inv_def)
  have nth: "ta_lines t' ! k = (if k = i then b else ta_lines t ! k)" if "k < ?n" for k using that len by (simp add: t' nth_list_update)
  have old: "cb_last_access_time (ta_lines t ! k) < 2 ^ 32 - 1 \<and> cb_alloc_time (ta_lines t ! k) < 2 ^ 32 - 1"
    "cb_status (ta_lines t ! k) \<noteq> INVALID \<Longrightarrow> block_addr cfg (cb_block_addr (ta_lines t ! k)) = cb_block_addr (ta_lines t ! k) \<and>
       tag cfg (cb_block_addr (ta_lines t ! k)) = cb_tag (ta_lines t ! k) \<and> set_index cfg (cb_block_addr (ta_lines t ! k)) = k div cc_assoc cfg \<and>
       (\<forall>j < ?n. j \<noteq> k \<and> j div cc_assoc cfg = k div cc_assoc cfg \<and> cb_status (ta_lines t ! j) \<noteq> INVALID \<longrightarrow> cb_tag (ta_lines t ! j) \<noteq> cb_tag (ta_lines t ! k))"
    if "k < ?n" for k using inv that by (auto simp: ta_inv_def Let_def)
  have l': "length (ta_lines t') = ?n" by (simp add: t' len)
  show ?thesis unfolding ta_inv_def Let_def
  proof (intro conjI allI impI, goal_cases)
    case 1
    show ?case by (rule l')
  next
    case (2 k)
    then show ?case using old(1) [of k] tm by (simp add: nth)
  next
    case (3 k)
    then show ?case using old(1) [of k] tm by (simp add: nth)
  next
    case (4 k)
    then show ?case using old(2) [of k] b by (simp add: nth split: if_splits)
  next
    case (5 k)
    then show ?case using old(2) [of k] b by (simp add: nth split: if_splits)
  next
    case (6 k)
    then show ?case using old(2) [of k] b by (simp add: nth split: if_splits)
  next
    case (7 k j)
    show ?case
    proof (cases "k = i")
      case True
      then have "cb_status b \<noteq> INVALID" using 7 by (simp add: nth)
      then show ?thesis using b 7 True by (auto simp: nth)
    next
      case False
      then show ?thesis using old(2) [of k] b 7 i by (cases "j = i") (auto simp: nth)
    qed
  qed
qed

lemma ta_inv_lines: "\<lbrakk>ta_inv cfg t; ta_lines t' = ta_lines t\<rbrakk> \<Longrightarrow> ta_inv cfg t'"
  by (simp add: ta_inv_def)

lemma ta_inv_new: "ta_inv cfg (tag_array_new cfg)"
  by (simp add: ta_inv_def tag_array_new_def cache_block_new_def)

lemma ta_inv_status:
  assumes "ta_inv cfg t" "i < get_num_lines cfg" "cb_status (ta_lines t ! i) = INVALID \<Longrightarrow> s = INVALID"
    "ta_lines t' = (ta_lines t)[i := (ta_lines t ! i)\<lparr>cb_status := s, cb_fill_time := f\<rparr>]"
  shows "ta_inv cfg t'"
  by (rule ta_inv_update [OF assms(1,2) _ _ _ assms(4)]) (use assms in \<open>auto simp: ta_inv_def Let_def\<close>)

lemma ta_inv_touch:
  assumes "ta_inv cfg t" "i < get_num_lines cfg" "time < 2 ^ 32 - 1"
    "ta_lines t' = (ta_lines t)[i := (ta_lines t ! i)\<lparr>cb_last_access_time := time\<rparr>]"
  shows "ta_inv cfg t'"
  by (rule ta_inv_update [OF assms(1,2) _ _ _ assms(4)]) (use assms in \<open>auto simp: ta_inv_def Let_def\<close>)

lemma ta_inv_allocate:
  assumes ok: "cfg_ok cfg" "ta_inv cfg t" and i: "i \<in> set (set_lines cfg addr)" and time: "time < 2 ^ 32 - 1"
    and no: "\<forall>j \<in> set (set_lines cfg addr). \<not> matches (ta_lines t) (tag cfg addr) j" and al: "block_addr cfg addr = addr"
    and t': "ta_lines t' = (ta_lines t)[i := (cb_allocate (tag cfg addr) (block_addr cfg addr) time)\<lparr>cb_status := s, cb_fill_time := f\<rparr>]"
  shows "ta_inv cfg t'"
proof (rule ta_inv_update [OF ok(2) set_lines_lt [OF ok(1) i] _ _ _ t'], goal_cases)
  case 3
  have "i div cc_assoc cfg = set_index cfg addr" using i set_lines_mem [OF ok(1)] by blast
  then show ?case using no al by (auto simp: cb_allocate_def matches_def set_lines_mem [OF ok(1)])
qed (use time in \<open>simp_all add: cb_allocate_def\<close>)

text \<open>What an access does after each of the outcomes of the probe.\<close>

lemma ta_access_hit:
  assumes ok: "cfg_ok cfg" "ta_inv cfg t" and time: "time < 2 ^ 32 - 1" and i: "i \<in> set (set_lines cfg addr)" "matches (ta_lines t) (tag cfg addr) i"
    and p: "ta_probe cfg t addr = Some (hit_status (ta_lines t ! i), Some i)"
  shows "\<exists>t'. ta_access_wb cfg t addr time idx = Some (hit_status (ta_lines t ! i), i, None, t') \<and> ta_inv cfg t' \<and> matches (ta_lines t') (tag cfg addr) i"
    and "\<And>j. \<lbrakk>j \<in> set (set_lines cfg addr); matches (ta_lines t) (tag cfg addr) j\<rbrakk> \<Longrightarrow> j = i"
proof -
  let ?ls = "ta_lines t"
  note lt = set_lines_lt [OF ok(1), of _ addr]
  have l: "i < length ?ls" using lt [OF i(1)] ok(2) by (simp add: ta_inv_def)
  let ?t = "t\<lparr>ta_access := ta_access t + 1, ta_pending_hit := (if hit_status (?ls ! i) = HIT_RESERVED then ta_pending_hit t + 1 else ta_pending_hit t),
    ta_lines := ?ls[i := (?ls ! i)\<lparr>cb_last_access_time := time\<rparr>]\<rparr>"
  have "ta_access_wb cfg t addr time idx = Some (hit_status (?ls ! i), i, None, ?t)"
    using p l by (cases t) (auto simp: ta_access_wb_def vec_at_def hit_status_def Let_def)
  moreover have "ta_inv cfg ?t" by (rule ta_inv_touch [OF ok(2) lt [OF i(1)] time]) simp
  moreover have "matches (ta_lines ?t) (tag cfg addr) i" using i(2) l by (simp add: matches_def)
  ultimately show "\<exists>t'. ta_access_wb cfg t addr time idx = Some (hit_status (?ls ! i), i, None, t') \<and> ta_inv cfg t' \<and> matches (ta_lines t') (tag cfg addr) i" by blast
  show "j = i" if "j \<in> set (set_lines cfg addr)" "matches ?ls (tag cfg addr) j" for j
    using ok(2) that i lt [OF that(1)] lt [OF i(1)] unfolding ta_inv_def Let_def matches_def set_lines_mem [OF ok(1)] by metis
qed

lemma ta_access_miss:
  assumes ok: "cfg_ok cfg" "ta_inv cfg t" and pol: "cc_alloc_policy cfg = ON_MISS" and al: "block_addr cfg addr = addr" and time: "time < 2 ^ 32 - 1"
    and i: "i \<in> set (set_lines cfg addr)" "\<forall>j \<in> set (set_lines cfg addr). \<not> matches (ta_lines t) (tag cfg addr) j" and p: "ta_probe cfg t addr = Some (MISS, Some i)"
  shows "\<exists>t'. ta_access_wb cfg t addr time idx = Some (MISS, i, if cb_status (ta_lines t ! i) = MODIFIED then Some (ta_lines t ! i) else None, t')
    \<and> ta_inv cfg t' \<and> matches (ta_lines t') (tag cfg addr) i \<and> cb_status (ta_lines t' ! i) = RESERVED"
proof -
  let ?ls = "ta_lines t"
  have l: "i < length ?ls" using set_lines_lt [OF ok(1) i(1)] ok(2) by (simp add: ta_inv_def)
  let ?t = "t\<lparr>ta_access := ta_access t + 1, ta_miss := ta_miss t + 1, ta_lines := ?ls[i := cb_allocate (tag cfg addr) (block_addr cfg addr) time]\<rparr>"
  have "ta_access_wb cfg t addr time idx = Some (MISS, i, if cb_status (?ls ! i) = MODIFIED then Some (?ls ! i) else None, ?t)"
    using p l pol by (cases t) (simp add: ta_access_wb_def vec_at_def Let_def)
  moreover have "ta_inv cfg ?t" by (rule ta_inv_allocate [OF ok i(1) time i(2) al, where s = RESERVED and f = 0]) (simp add: cb_allocate_def)
  moreover have "matches (ta_lines ?t) (tag cfg addr) i" "cb_status (ta_lines ?t ! i) = RESERVED" using l by (simp_all add: matches_def cb_allocate_def)
  ultimately show ?thesis by blast
qed

text \<open>
  C26. Tag array.  In a set-associative tag array with allocation on miss whose sets hold no tag twice, an access never aborts
  and keeps that invariant.  It answers a hit exactly when the set holds the tag, pending when the line is still reserved; a
  miss reserves for the block a line that was invalid or, in a set without invalid line, the least recently used (or first
  allocated) of the unreserved lines, and reports the old block for write-back exactly when it was modified; and it fails
  exactly when all lines of the set are reserved for other blocks.
\<close>

theorem tag_array_access:
  assumes ok: "cfg_ok cfg" "ta_inv cfg t" and pol: "cc_alloc_policy cfg = ON_MISS" and al: "block_addr cfg addr = addr" and time: "time < 2 ^ 32 - 1"
  shows "\<exists>s i wb t'. ta_access_wb cfg t addr time idx = Some (s, i, wb, t') \<and> ta_inv cfg t' \<and>
    (let S = set (set_lines cfg addr); ls = ta_lines t in
      (s = HIT \<or> s = HIT_RESERVED \<longleftrightarrow> (\<exists>j \<in> S. matches ls (tag cfg addr) j)) \<and>
      (s = HIT_RESERVED \<longleftrightarrow> (\<exists>j \<in> S. matches ls (tag cfg addr) j \<and> cb_status (ls ! j) = RESERVED)) \<and>
      (s = RESERVATION_FAIL \<longleftrightarrow> (\<forall>j \<in> S. cb_status (ls ! j) = RESERVED \<and> \<not> matches ls (tag cfg addr) j)) \<and>
      (s \<noteq> RESERVATION_FAIL \<longrightarrow> i \<in> S \<and> matches (ta_lines t') (tag cfg addr) i) \<and>
      (s = MISS \<longrightarrow> cb_status (ta_lines t' ! i) = RESERVED \<and> cb_status (ls ! i) \<noteq> RESERVED \<and>
         (cb_status (ls ! i) = INVALID \<or>
           (\<forall>j \<in> S. cb_status (ls ! j) \<noteq> INVALID \<and> (in_use (ls ! j) \<longrightarrow> age_of cfg (ls ! i) \<le> age_of cfg (ls ! j))))) \<and>
      wb = (if s = MISS \<and> cb_status (ls ! i) = MODIFIED then Some (ls ! i) else None))"
proof -
  let ?S = "set (set_lines cfg addr)" and ?ls = "ta_lines t"
  show ?thesis using ok(1) ok(2) pol
  proof (cases rule: ta_probe_cases [where addr = addr])
    case (hit i)
    note uniq = ta_access_hit(2) [OF ok time hit]
    from ta_access_hit(1) [OF ok time hit] obtain t' where
      t': "ta_access_wb cfg t addr time idx = Some (hit_status (?ls ! i), i, None, t')" "ta_inv cfg t'" "matches (ta_lines t') (tag cfg addr) i" by blast
    have "hit_status (?ls ! i) = HIT_RESERVED \<longleftrightarrow> cb_status (?ls ! i) = RESERVED" "hit_status (?ls ! i) \<noteq> MISS" "hit_status (?ls ! i) \<noteq> RESERVATION_FAIL"
      "hit_status (?ls ! i) = HIT \<or> hit_status (?ls ! i) = HIT_RESERVED" by (simp_all add: hit_status_def)
    moreover have "\<exists>j \<in> ?S. matches ?ls (tag cfg addr) j" "\<exists>j \<in> ?S. cb_status (?ls ! j) = RESERVED \<longrightarrow> matches ?ls (tag cfg addr) j" using hit(1,2) by blast+
    moreover have "(\<exists>j \<in> ?S. matches ?ls (tag cfg addr) j \<and> cb_status (?ls ! j) = RESERVED) \<longleftrightarrow> cb_status (?ls ! i) = RESERVED"
      using hit(1,2) uniq by blast
    ultimately show ?thesis unfolding Let_def using t' hit(1)
      by (intro exI [of _ "hit_status (?ls ! i)"] exI [of _ i] exI [of _ None] exI [of _ t']) simp
  next
    case (miss i)
    from ta_access_miss [OF ok pol al time miss(1-3)] obtain t' where
      t': "ta_access_wb cfg t addr time idx = Some (MISS, i, if cb_status (?ls ! i) = MODIFIED then Some (?ls ! i) else None, t')"
        "ta_inv cfg t'" "matches (ta_lines t') (tag cfg addr) i" "cb_status (ta_lines t' ! i) = RESERVED" by blast
    have "\<not> (\<exists>j \<in> ?S. matches ?ls (tag cfg addr) j)" "\<not> (\<forall>j \<in> ?S. cb_status (?ls ! j) = RESERVED \<and> \<not> matches ?ls (tag cfg addr) j)"
      "\<not> (\<exists>j \<in> ?S. matches ?ls (tag cfg addr) j \<and> cb_status (?ls ! j) = RESERVED)" using miss(1,2,4) by blast+
    then show ?thesis unfolding Let_def using t' miss(1,4,5)
      by (intro exI [of _ MISS] exI [of _ i] exI [of _ "if cb_status (?ls ! i) = MODIFIED then Some (?ls ! i) else None"] exI [of _ t'])
        (simp only: cache_request_status.distinct simp_thms if_True if_False)
  next
    case full
    let ?t = "t\<lparr>ta_access := ta_access t + 1, ta_miss := ta_miss t + 1\<rparr>"
    have "ta_access_wb cfg t addr time idx = Some (RESERVATION_FAIL, idx, None, ?t)"
      using full(2) by (simp add: ta_access_wb_def Let_def)
    moreover have "ta_inv cfg ?t" by (rule ta_inv_lines [OF ok(2)]) simp
    ultimately show ?thesis unfolding Let_def using full by (intro exI [of _ RESERVATION_FAIL] exI [of _ idx] exI [of _ None] exI [of _ ?t]) auto
  qed
qed

definition small_config :: cache_config where
  "small_config = \<lparr>cc_line_sz = 128, cc_line_sz_log2 = 7, cc_nset = 1, cc_nset_log2 = 0, cc_assoc = 1, cc_replacement_policy = LRU,
     cc_write_policy = READ_ONLY, cc_alloc_policy = ON_MISS, cc_write_alloc_policy = NO_WRITE_ALLOCATE, cc_mshr_entries = 4,
     cc_mshr_max_merge = 4, cc_miss_queue_size = 4\<rparr>"

lemma small_config_ok: "cfg_ok small_config" "cc_alloc_policy small_config = ON_MISS"
  by (simp_all add: cfg_ok_def small_config_def)

lemma small_lines [simp]: "set_lines small_config addr = [0]"
  by (simp add: set_lines_def set_index_def small_config_def)

lemma small_fields [simp]:
  "cc_line_sz small_config = 128" "cc_line_sz_log2 small_config = 7" "cc_nset small_config = 1" "cc_nset_log2 small_config = 0"
  "cc_assoc small_config = 1" "cc_replacement_policy small_config = LRU" "cc_write_policy small_config = READ_ONLY"
  "cc_alloc_policy small_config = ON_MISS" "cc_mshr_entries small_config = 4" "cc_mshr_max_merge small_config = 4"
  "cc_miss_queue_size small_config = 4"
  by (simp_all add: small_config_def)

lemmas small_cache_eval = ta_probe_def probe_start_def probe_note_def age_of_def get_num_lines_def cache_block_new_def
  cb_allocate_def block_addr_def tag_def vec_at_def Let_def

theorem tag_array_access_witness:
  "\<exists>i wb t'. ta_access_wb small_config (tag_array_new small_config) 0x80000000 5 0 = Some (MISS, i, wb, t') \<and> ta_inv small_config t' \<and>
     matches (ta_lines t') (tag small_config 0x80000000) i"
proof -
  have al: "block_addr small_config 0x80000000 = 0x80000000" by (simp add: block_addr_def small_config_def)
  have tm: "(5 :: nat) < 2 ^ 32 - 1" by simp
  have "\<exists>s i wb t'. ta_access_wb small_config (tag_array_new small_config) 0x80000000 5 0 = Some (s, i, wb, t') \<and> ta_inv small_config t' \<and>
      (s \<noteq> RESERVATION_FAIL \<longrightarrow> matches (ta_lines t') (tag small_config 0x80000000) i)"
    using tag_array_access [OF small_config_ok(1) ta_inv_new small_config_ok(2) al tm, of 0] unfolding Let_def
    by (elim ex_forward) (elim conjE, intro conjI; (assumption | iprover))
  then obtain s i wb t' where r: "ta_access_wb small_config (tag_array_new small_config) 0x80000000 5 0 = Some (s, i, wb, t')"
      "ta_inv small_config t'" "s \<noteq> RESERVATION_FAIL \<longrightarrow> matches (ta_lines t') (tag small_config 0x80000000) i" by blast
  have "fst (the (ta_access_wb small_config (tag_array_new small_config) 0x80000000 5 0)) = MISS"
    by (simp add: small_cache_eval ta_access_wb_def tag_array_new_def)
  then show ?thesis using r by simp
qed

lemma tag_array_ops_inv:
  assumes "cfg_ok cfg" "ta_inv cfg t"
  shows "ta_inv cfg (ta_flush t)" "\<lbrakk>ta_fill_idx cfg t idx time = Some t'\<rbrakk> \<Longrightarrow> ta_inv cfg t'"
proof -
  show "ta_inv cfg (ta_flush t)" using assms(2) by (simp add: ta_inv_def ta_flush_def Let_def)
  assume f: "ta_fill_idx cfg t idx time = Some t'"
  then have "idx < get_num_lines cfg" "cb_status (ta_lines t ! idx) = RESERVED"
      "ta_lines t' = (ta_lines t)[idx := (ta_lines t ! idx)\<lparr>cb_status := VALID, cb_fill_time := time\<rparr>]"
    using assms(2) by (auto simp: ta_fill_idx_def cb_fill_def vec_at_def bind_eq_Some_conv ta_inv_def split: if_splits)
  then show "ta_inv cfg t'" using ta_inv_status [OF assms(2), of idx VALID t' time] by simp
qed

subsection \<open>The miss status holding registers\<close>

text \<open>
  The runs of a table as the caches use it: a fetch is added when the table is not full for its block, a block becomes ready when
  the answer to its one request arrives, and the ready fetches are taken out.  The logs keep the additions and the results.
\<close>

inductive mshr_reach :: "nat \<Rightarrow> nat \<Rightarrow> mshr_table \<Rightarrow> (new_addr_type \<times> nat) list \<Rightarrow> (new_addr_type \<times> nat) list \<Rightarrow> bool"
  for n m where
  mshr_new: "mshr_reach n m (mshr_table_new n m) [] []"
| mshr_add: "\<lbrakk>mshr_reach n m t ad rt; \<not> mshr_full t a; mshr_add t a mf isatomic = Some t'\<rbrakk> \<Longrightarrow> mshr_reach n m t' (ad @ [(a, mf)]) rt"
| mshr_ready: "\<lbrakk>mshr_reach n m t ad rt; a \<notin> set (mt_current_response t); mark_ready t a = Some (at, t')\<rbrakk> \<Longrightarrow> mshr_reach n m t' ad rt"
| mshr_next: "\<lbrakk>mshr_reach n m t ad rt; mt_current_response t = a # as; next_access t = Some (mf, t')\<rbrakk> \<Longrightarrow> mshr_reach n m t' ad (rt @ [(a, mf)])"

definition of_block :: "new_addr_type \<Rightarrow> (new_addr_type \<times> nat) list \<Rightarrow> nat list" where
  "of_block a log = map snd (filter (\<lambda>p. fst p = a) log)"

definition mshr_inv :: "nat \<Rightarrow> nat \<Rightarrow> mshr_table \<Rightarrow> bool" where
  "mshr_inv n m t \<longleftrightarrow> mt_num_entries t = n \<and> mt_max_merged t = m \<and> distinct (map fst (mt_data t)) \<and> length (mt_data t) \<le> n \<and>
     distinct (mt_current_response t) \<and> set (mt_current_response t) \<subseteq> dom (map_of (mt_data t)) \<and>
     (\<forall>a e. map_of (mt_data t) a = Some e \<longrightarrow> me_list e \<noteq> [] \<and> length (me_list e) \<le> m)"

lemma of_block_snoc [simp]: "of_block a (log @ [(b, mf)]) = (if a = b then of_block a log @ [mf] else of_block a log)"
  "of_block a [] = []"
  by (auto simp: of_block_def)

lemma update_twice [simp]: "AList.update a x (AList.update a y d) = AList.update a x d"
  by (induction d) auto

lemma length_update: "length (AList.update a e d) = (if a \<in> dom (map_of d) then length d else Suc (length d))"
  by (induction d) auto

lemma length_delete: "distinct (map fst d) \<Longrightarrow> a \<in> dom (map_of d) \<Longrightarrow> length (AList.delete a d) = length d - 1"
proof (induction d)
  case (Cons p d)
  show ?case
  proof (cases "fst p = a")
    case True
    then have "a \<notin> fst ` set d" using Cons.prems(1) by auto
    then have "AList.delete a d = d" by (induction d) auto
    then show ?thesis using True by (cases p) auto
  next
    case False
    then have "a \<in> dom (map_of d)" using Cons.prems(2) by (cases p) auto
    moreover from this have "0 < length d" by (cases d) auto
    ultimately show ?thesis using Cons False by (cases p) auto
  qed
qed simp

lemma mshr_add_eq:
  "mshr_add t a mf isatomic =
    (let d = AList.update a (\<lparr>me_list = me_list (mshr_entry_at t a) @ [mf], me_has_atomic = isatomic \<or> me_has_atomic (mshr_entry_at t a)\<rparr>) (mt_data t)
     in if length d \<le> mt_num_entries t \<and> Suc (length (me_list (mshr_entry_at t a))) \<le> mt_max_merged t then Some (t\<lparr>mt_data := d\<rparr>) else None)"
  by (cases "mshr_entry_at t a") (auto simp: mshr_add_def Let_def length_update)

lemma mshr_add_inv: "\<lbrakk>mshr_inv n m t; mshr_add t a mf isatomic = Some t'\<rbrakk> \<Longrightarrow> mshr_inv n m t'"
  by (auto simp: mshr_inv_def mshr_add_eq Let_def update_conv' distinct_update split: if_splits)

lemma mark_ready_inv: "\<lbrakk>mshr_inv n m t; a \<notin> set (mt_current_response t); mark_ready t a = Some (at, t')\<rbrakk> \<Longrightarrow> mshr_inv n m t'"
  by (auto simp: mshr_inv_def mark_ready_def Let_def bind_eq_Some_conv simp del: map_of_eq_Some_iff split: if_splits)

lemma next_access_cases:
  assumes "next_access t = Some (mf, t')"
  obtains (last) a as e where "mt_current_response t = a # as" "mshr_entry_at t a = e" "me_list e = [mf]"
      "t' = t\<lparr>mt_data := AList.delete a (mt_data t), mt_current_response := as\<rparr>"
    | (more) a as e mfs where "mt_current_response t = a # as" "mshr_entry_at t a = e" "me_list e = mf # mfs" "mfs \<noteq> []"
      "t' = t\<lparr>mt_data := AList.update a (e\<lparr>me_list := mfs\<rparr>) (mt_data t)\<rparr>"
  using assms by (auto simp: next_access_def Let_def split: list.splits if_splits)

lemma next_access_inv: "\<lbrakk>mshr_inv n m t; next_access t = Some (mf, t')\<rbrakk> \<Longrightarrow> mshr_inv n m t'"
proof (erule next_access_cases, goal_cases)
  case (1 a as e)
  then have a: "a \<in> dom (map_of (mt_data t))" by (auto simp: mshr_inv_def)
  have "length (AList.delete a (mt_data t)) \<le> n" using 1(1) by (auto simp: mshr_inv_def length_delete [OF _ a])
  then show ?case using 1 by (auto simp: mshr_inv_def delete_conv' distinct_delete split: if_splits)
next
  case (2 a as e mfs)
  then obtain e' where "map_of (mt_data t) a = Some e'" by (auto simp: mshr_inv_def)
  then have "map_of (mt_data t) a = Some e" using 2 by (simp add: mshr_entry_at_def)
  moreover have "\<forall>a e. map_of (mt_data t) a = Some e \<longrightarrow> me_list e \<noteq> [] \<and> length (me_list e) \<le> m" using 2(1) unfolding mshr_inv_def by blast
  ultimately have "length (me_list e) \<le> m" "a \<in> dom (map_of (mt_data t))" by blast+
  then show ?case using 2 by (auto simp: mshr_inv_def update_conv' distinct_update length_update split: if_splits)
qed

lemma mshr_entry_step:
  "mshr_add t a mf isatomic = Some t' \<Longrightarrow> me_list (mshr_entry_at t' b) = me_list (mshr_entry_at t b) @ (if b = a then [mf] else [])"
  "mark_ready t a = Some (at, t') \<Longrightarrow> me_list (mshr_entry_at t' b) = me_list (mshr_entry_at t b)"
  "\<lbrakk>mt_current_response t = a # as; next_access t = Some (mf, t')\<rbrakk> \<Longrightarrow>
     me_list (mshr_entry_at t b) = (if b = a then mf # me_list (mshr_entry_at t' b) else me_list (mshr_entry_at t' b))"
proof -
  show "mshr_add t a mf isatomic = Some t' \<Longrightarrow> me_list (mshr_entry_at t' b) = me_list (mshr_entry_at t b) @ (if b = a then [mf] else [])"
    by (auto simp: mshr_add_eq mshr_entry_at_def Let_def update_conv' split: if_splits)
  show "mark_ready t a = Some (at, t') \<Longrightarrow> me_list (mshr_entry_at t' b) = me_list (mshr_entry_at t b)"
    by (auto simp: mark_ready_def mshr_entry_at_def Let_def bind_eq_Some_conv split: if_splits)
  show "\<lbrakk>mt_current_response t = a # as; next_access t = Some (mf, t')\<rbrakk> \<Longrightarrow>
      me_list (mshr_entry_at t b) = (if b = a then mf # me_list (mshr_entry_at t' b) else me_list (mshr_entry_at t' b))"
    by (erule next_access_cases) (auto simp: mshr_entry_at_def update_conv' delete_conv' split: if_splits option.splits)
qed

lemma mshr_reach_inv: "mshr_reach n m t ad rt \<Longrightarrow> mshr_inv n m t"
proof (induction rule: mshr_reach.induct)
  case mshr_new
  then show ?case by (simp add: mshr_inv_def mshr_table_new_def)
qed (blast intro: mshr_add_inv mark_ready_inv next_access_inv)+

lemma mshr_reach_fifo: "mshr_reach n m t ad rt \<Longrightarrow> of_block a ad = of_block a rt @ me_list (mshr_entry_at t a)"
proof (induction arbitrary: a rule: mshr_reach.induct)
  case mshr_new
  then show ?case by (simp add: mshr_table_new_def mshr_entry_at_def)
next
  case (mshr_add t ad rt b mf isatomic t')
  then show ?case using mshr_entry_step(1) [OF mshr_add.hyps(3)] by simp
next
  case (mshr_ready t ad rt b at t')
  then show ?case using mshr_entry_step(2) [OF mshr_ready.hyps(3)] by simp
next
  case (mshr_next t ad rt b as mf t')
  then show ?case using mshr_entry_step(3) [OF mshr_next.hyps(2,3), of a] by (simp split: if_splits)
qed

text \<open>
  C29. Miss status holding registers.  In every run with a positive merge limit no operation aborts: a fetch can be added whenever
  the table does not say full, a block with an entry can be marked ready once, and a ready fetch can be taken out.  The fetches of
  a block come out in the order they went in, each once: those taken out followed by those still waiting are those added.
  The table never has more blocks than entries nor a block more waiting fetches than the merge limit.
\<close>

theorem mshr_table_correct:
  assumes "mshr_reach n m t ad rt" "0 < m"
  shows "of_block a ad = of_block a rt @ me_list (mshr_entry_at t a) \<and>
    length (mt_data t) \<le> n \<and> length (me_list (mshr_entry_at t a)) \<le> m \<and>
    (\<not> mshr_full t a \<longrightarrow> mshr_add t a mf isatomic \<noteq> None) \<and>
    (mshr_probe t a \<longleftrightarrow> of_block a ad \<noteq> of_block a rt) \<and>
    (mshr_probe t a \<and> a \<notin> set (mt_current_response t) \<longrightarrow> mark_ready t a \<noteq> None) \<and>
    (access_ready t \<longrightarrow> next_access t \<noteq> None)"
proof -
  have inv: "mshr_inv n m t" and fifo: "of_block a ad = of_block a rt @ me_list (mshr_entry_at t a)"
    using mshr_reach_inv mshr_reach_fifo assms(1) by blast+
  have ne: "map_of (mt_data t) b = Some e \<Longrightarrow> me_list e \<noteq> [] \<and> length (me_list e) \<le> m" for b e using inv unfolding mshr_inv_def by blast
  have lim: "mt_num_entries t = n" "mt_max_merged t = m" "length (mt_data t) \<le> n" using inv by (auto simp: mshr_inv_def)
  have probe: "mshr_probe t a \<longleftrightarrow> me_list (mshr_entry_at t a) \<noteq> []"
    using ne [of a] by (cases "map_of (mt_data t) a") (auto simp: mshr_probe_def mshr_entry_at_def)
  have len: "length (me_list (mshr_entry_at t a)) \<le> m" using ne [of a] by (auto simp: mshr_entry_at_def split: option.splits)
  have add: "\<not> mshr_full t a \<longrightarrow> mshr_add t a mf isatomic \<noteq> None"
    using lim assms(2) by (cases "map_of (mt_data t) a") (auto simp: mshr_full_def mshr_add_eq mshr_entry_at_def Let_def length_update)
  have "mark_ready t a \<noteq> None" if a: "mshr_probe t a" "a \<notin> set (mt_current_response t)"
  proof -
    have "insert a (set (mt_current_response t)) \<subseteq> fst ` set (mt_data t)" "distinct (mt_current_response t)"
      using inv a(1) by (auto simp: mshr_inv_def mshr_probe_def Option.is_none_def map_of_eq_None_iff dom_map_of_conv_image_fst)
    then have "Suc (length (mt_current_response t)) \<le> card (fst ` set (mt_data t))"
      using a(2) card_mono [of "fst ` set (mt_data t)" "insert a (set (mt_current_response t))"] by (simp add: distinct_card)
    also have "\<dots> \<le> length (mt_data t)" using card_image_le [of "set (mt_data t)" fst, OF finite_set] card_length [of "mt_data t"] by linarith
    finally show ?thesis using a(1) by (cases "map_of (mt_data t) a") (auto simp: mark_ready_def mshr_probe_def Let_def)
  qed
  moreover have "access_ready t \<longrightarrow> next_access t \<noteq> None"
  proof
    assume "access_ready t"
    then obtain b bs where b: "mt_current_response t = b # bs" by (cases "mt_current_response t") (auto simp: access_ready_def)
    then obtain e where "map_of (mt_data t) b = Some e" using inv by (auto simp: mshr_inv_def)
    then show "next_access t \<noteq> None" using b ne [of b e] by (auto simp: next_access_def mshr_entry_at_def Let_def split: list.splits)
  qed
  ultimately show ?thesis using fifo lim(3) len add probe by simp
qed

theorem mshr_table_correct_witness:
  "\<exists>t. mshr_reach 4 4 t [(0x80, 1), (0x80, 2)] [(0x80, 1)] \<and> me_list (mshr_entry_at t 0x80) = [2] \<and> next_access t \<noteq> None"
proof -
  let ?e = "\<lambda>l. \<lparr>me_list = l, me_has_atomic = False\<rparr>"
  let ?t = "\<lambda>l r. \<lparr>mt_num_entries = 4, mt_max_merged = 4, mt_data = [(0x80, ?e l)], mt_current_response = r\<rparr>"
  have "mshr_reach 4 4 (?t [1] []) ([] @ [(0x80, 1)]) []"
    by (rule mshr_add [OF mshr_new, where isatomic = False]) (simp_all add: mshr_full_def mshr_add_def mshr_table_new_def mshr_entry_at_def Let_def)
  then have "mshr_reach 4 4 (?t [1, 2] []) (([] @ [(0x80, 1)]) @ [(0x80, 2)]) []"
    by (rule mshr_add [where isatomic = False]) (simp_all add: mshr_full_def mshr_add_def mshr_entry_at_def Let_def)
  then have "mshr_reach 4 4 (?t [1, 2] [0x80]) (([] @ [(0x80, 1)]) @ [(0x80, 2)]) []"
    by (rule mshr_ready [where at = False and a = "0x80"]) (simp_all add: mark_ready_def Let_def)
  then have r: "mshr_reach 4 4 (?t [2] [0x80]) (([] @ [(0x80, 1)]) @ [(0x80, 2)]) ([] @ [(0x80, 1)])"
    by (rule mshr_next) (simp_all add: next_access_def mshr_entry_at_def Let_def)
  then have "next_access (?t [2] [0x80]) \<noteq> None" "me_list (mshr_entry_at (?t [2] [0x80]) 0x80) = [2]"
    using mshr_table_correct [OF r, of "0x80" 0 False] by (simp_all add: access_ready_def of_block_def)
  then show ?thesis using r by auto
qed

subsection \<open>A line reserved without a request\<close>

definition read_fetches :: mf_heap where
  "read_fetches = \<lparr>mh_next = 5, mh_obj = (\<lambda>_. \<lparr>mf_addr = 0x80000000, mf_data_size = 32, mf_is_write = False, mf_isatomic = False,
     mf_access_type = CONST_ACC_R\<rparr>)\<rparr>"

text \<open>
  Two reads of a block, its fill, and the first of the two answers; then another block takes the line; then the first block is read
  again while its second answer still waits, and all answers are taken out.
\<close>

definition drain_run :: "baseline_cache option" where
  "drain_run = do {
     (s, _, c) \<leftarrow> read_only_access small_config (baseline_cache_new small_config read_fetches) 0x80000000 0 1;
     (s, _, c) \<leftarrow> read_only_access small_config c 0x80000000 1 2;
     let (_, c) = bc_cycle (\<lambda>_ _. False) c;
     c \<leftarrow> bc_fill small_config c 0 3;
     (_, c) \<leftarrow> bc_next_access c;
     (s, _, c) \<leftarrow> read_only_access small_config c 0x80000100 2 4;
     let (_, c) = bc_cycle (\<lambda>_ _. False) c;
     c \<leftarrow> bc_fill small_config c 2 5;
     (s, _, c) \<leftarrow> read_only_access small_config c 0x80000000 3 6;
     (_, c) \<leftarrow> bc_next_access c;
     (_, c) \<leftarrow> bc_next_access c;
     (_, c) \<leftarrow> bc_next_access c;
     Some c
   }"

text \<open>
  A read that merges with a block whose answers are being taken out reserves a line but sends no request, since the block
  still has an entry.  After the run above every request is answered, the miss queue and the table are empty and no fetch waits
  for a fill, yet the line stays reserved: the cache refuses every read of another block, for ever.
\<close>

theorem reserved_line_leak:
  "\<exists>c. drain_run = Some c \<and> bc_miss_queue c = [] \<and> mt_data (bc_mshrs c) = [] \<and> (\<forall>mf. \<not> waiting_for_fill c mf) \<and>
     (\<forall>mf time. read_only_access small_config c 0x80000200 mf time = Some (RESERVATION_FAIL, [], c))"
proof -
  note defs = small_cache_eval read_only_access_def baseline_cache_new_def tag_array_new_def mshr_table_new_def read_fetches_def
    send_read_request_def miss_queue_full_def mshr_probe_def mshr_full_def mshr_entry_at_def ta_access_wb_def ta_access_ro_def
    mshr_add_def bc_cycle_def bc_fill_def ta_fill_idx_def cb_fill_def mark_ready_def bc_next_access_def next_access_def
    mf_set_data_size_def waiting_for_fill_def
  show ?thesis unfolding drain_run_def by (simp add: defs)
qed

subsection \<open>Addresses above four gigabytes\<close>

lemma unat_lt_mask: "(w :: 64 word) AND ucast (m :: 32 word) = take_bit 32 w AND ucast m"
  by (rule bit_word_eqI) (auto simp: bit_simps dest: bit_imp_le_length)

text \<open>
  The block address keeps only the low 32 bits of an address: the mask \<^verbatim>\<open>~(m_line_sz-1)\<close> is a 32-bit value that
  is widened with zeros.  Addresses that agree in their low 32 bits have the same block address in every configuration, while
  their tags, which are taken from the whole address, differ.
\<close>

theorem block_addr_truncates:
  "block_addr cfg a = block_addr cfg (take_bit 32 a) \<and> unat (block_addr cfg a) < 2 ^ 32 \<and>
   block_addr small_config 0x180000000 = block_addr small_config 0x80000000 \<and>
   tag small_config 0x180000000 \<noteq> tag small_config 0x80000000"
proof (intro conjI)
  show "block_addr cfg a = block_addr cfg (take_bit 32 a)"
    unfolding block_addr_def unat_lt_mask [of a] by (subst unat_lt_mask [of "take_bit 32 a"]) simp
  have "take_bit 32 (block_addr cfg a) = block_addr cfg a"
    unfolding block_addr_def unat_lt_mask [of a] by (rule bit_word_eqI) (auto simp: bit_simps)
  then have "unat (block_addr cfg a) = take_bit 32 (unat (block_addr cfg a))" using unsigned_take_bit_eq [of 32 "block_addr cfg a", where 'a = nat] by simp
  then show "unat (block_addr cfg a) < 2 ^ 32" using take_bit_nat_less_exp [of 32 "unat (block_addr cfg a)"] by simp
qed (simp_all add: block_addr_def tag_def small_config_def)

end
