(* ===== verification/Bloom_Model.thy ===== *)
theory Bloom_Model
  imports Address_Model H3_Table
begin

text \<open>
  The Bloom filters of Ruby (\<^verbatim>\<open>system/*BloomFilter.*\<close>), which record the read and write sets of transactions.
  \<^verbatim>\<open>GenericBloomFilter\<close> chooses one of seven implementations by a configuration string and forwards every call.  A filter
  array is a list whose accesses are checked, as \<^verbatim>\<open>Vector::ref\<close> does.  A function that ends without a return statement has
  no result (\<open>None\<close>).  The counters are unbounded; sizes are those of a C \<^verbatim>\<open>int\<close>.  The shift by the skipped bits in
  \<^verbatim>\<open>MultiBitSelBloomFilter::get_index\<close> is that of \<open>drop_bit\<close>: a count of 64 or more gives 0 and a negative one shifts by nothing,
  where the shift of the code is undefined.

  Main results: the interface of the filters, with the law that a set address is found again, holds for the six
  implementations that have \<^verbatim>\<open>set\<close>; merging keeps what both filters hold where it is implemented.
\<close>

subsection \<open>Arrays and configuration strings\<close>

definition flt_ref :: "int list \<Rightarrow> int \<Rightarrow> int option" where
  "flt_ref xs i = (if 0 \<le> i \<and> i < int (length xs) then Some (xs ! nat i) else None)"

definition flt_put :: "int list \<Rightarrow> int \<Rightarrow> int \<Rightarrow> int list option" where
  "flt_put xs i v = (if 0 \<le> i \<and> i < int (length xs) then Some (xs[nat i := v]) else None)"

definition flt_isSet :: "int list \<Rightarrow> int \<Rightarrow> bool option" where
  "flt_isSet xs i = map_option (\<lambda>v. v \<noteq> 0) (flt_ref xs i)"

text \<open>The loops over the first \<open>n\<close> elements: clearing, adding up, counting the set ones, and the union with another array.\<close>

fun flt_clear :: "nat \<Rightarrow> int list \<Rightarrow> int list option" where
  "flt_clear 0 xs = Some xs"
| "flt_clear (Suc n) xs = do { xs \<leftarrow> flt_clear n xs; flt_put xs (int n) 0 }"

fun flt_sum :: "nat \<Rightarrow> int list \<Rightarrow> int option" where
  "flt_sum 0 xs = Some 0"
| "flt_sum (Suc n) xs = do { k \<leftarrow> flt_sum n xs; v \<leftarrow> flt_ref xs (int n); Some (k + v) }"

fun flt_count :: "nat \<Rightarrow> int list \<Rightarrow> int option" where
  "flt_count 0 xs = Some 0"
| "flt_count (Suc n) xs = do { k \<leftarrow> flt_count n xs; v \<leftarrow> flt_ref xs (int n); Some (if v \<noteq> 0 then k + 1 else k) }"

fun flt_merge :: "nat \<Rightarrow> int list \<Rightarrow> int list \<Rightarrow> int list option" where
  "flt_merge 0 ys xs = Some xs"
| "flt_merge (Suc n) ys xs = do {
     xs \<leftarrow> flt_merge n ys xs;
     v \<leftarrow> flt_ref xs (int n);
     w \<leftarrow> flt_ref ys (int n);
     flt_put xs (int n) (v OR w)
   }"

text \<open>\<^verbatim>\<open>atoi\<close> of the C library: blanks, a sign, digits up to the first other character.\<close>

fun atoi_digits :: "string \<Rightarrow> int \<Rightarrow> int" where
  "atoi_digits [] n = n"
| "atoi_digits (x # xs) n = (if CHR ''0'' = x \<or> (48 < (of_char x :: nat) \<and> (of_char x :: nat) \<le> 57) then atoi_digits xs (10 * n + of_char x - 48) else n)"

fun atoi :: "string \<Rightarrow> int" where
  "atoi [] = 0"
| "atoi (x # xs) = (if x = CHR '' '' \<or> (9 \<le> (of_char x :: nat) \<and> (of_char x :: nat) \<le> 13) then atoi xs
     else if x = CHR ''-'' then - atoi_digits xs 0
     else if x = CHR ''+'' then atoi_digits xs 0 else atoi_digits (x # xs) 0)"

text \<open>A bit field of the address as a C \<^verbatim>\<open>int\<close>.\<close>

definition bits_int :: "Address \<Rightarrow> int \<Rightarrow> int \<Rightarrow> int option" where
  "bits_int a lo hi = map_option to_int32 (bitSelect a lo hi)"

subsection \<open>LSB counting filter\<close>

record LSB_CountingBloomFilter =
  lsb_filter :: "int list"
  lsb_filter_size :: int
  lsb_filter_size_bits :: int
  lsb_count :: int
  lsb_count_bits :: int

definition lsb_clear :: "LSB_CountingBloomFilter \<Rightarrow> LSB_CountingBloomFilter option" where
  "lsb_clear f = do { xs \<leftarrow> flt_clear (nat (lsb_filter_size f)) (lsb_filter f); Some (f\<lparr>lsb_filter := xs\<rparr>) }"

definition lsb_new :: "string \<Rightarrow> LSB_CountingBloomFilter option" where
  "lsb_new str = do {
     let (head, tail) = string_split str (CHR '':'');
     let size = atoi head;
     size_bits \<leftarrow> log_int size;
     let count = atoi tail;
     count_bits \<leftarrow> log_int count;
     lsb_clear \<lparr>lsb_filter = replicate (nat size) 0, lsb_filter_size = size, lsb_filter_size_bits = size_bits,
       lsb_count = count, lsb_count_bits = count_bits\<rparr>
   }"

definition lsb_get_index :: "RubyConfig \<Rightarrow> LSB_CountingBloomFilter \<Rightarrow> Address \<Rightarrow> int option" where
  "lsb_get_index c f a = bits_int a (g_DATA_BLOCK_BITS c) (g_DATA_BLOCK_BITS c + lsb_filter_size_bits f - 1)"

text \<open>A semicolon ends the test of the limit, so the addition is unconditional.\<close>

definition lsb_increment :: "RubyConfig \<Rightarrow> LSB_CountingBloomFilter \<Rightarrow> Address \<Rightarrow> LSB_CountingBloomFilter option" where
  "lsb_increment c f a = do {
     i \<leftarrow> lsb_get_index c f a;
     v \<leftarrow> flt_ref (lsb_filter f) i;
     xs \<leftarrow> flt_put (lsb_filter f) i (v + 1);
     Some (f\<lparr>lsb_filter := xs\<rparr>)
   }"

definition lsb_decrement :: "RubyConfig \<Rightarrow> LSB_CountingBloomFilter \<Rightarrow> Address \<Rightarrow> LSB_CountingBloomFilter option" where
  "lsb_decrement c f a = do {
     i \<leftarrow> lsb_get_index c f a;
     v \<leftarrow> flt_ref (lsb_filter f) i;
     xs \<leftarrow> (if v > 0 then flt_put (lsb_filter f) i (v - 1) else Some (lsb_filter f));
     Some (f\<lparr>lsb_filter := xs\<rparr>)
   }"

definition lsb_getCount :: "RubyConfig \<Rightarrow> LSB_CountingBloomFilter \<Rightarrow> Address \<Rightarrow> int option" where
  "lsb_getCount c f a = do { i \<leftarrow> lsb_get_index c f a; flt_ref (lsb_filter f) i }"

definition lsb_getTotalCount :: "LSB_CountingBloomFilter \<Rightarrow> int option" where
  "lsb_getTotalCount f = flt_sum (nat (lsb_filter_size f)) (lsb_filter f)"

subsection \<open>Non-counting filter\<close>

record NonCountingBloomFilter =
  nc_filter :: "int list"
  nc_filter_size :: int
  nc_offset :: int
  nc_filter_size_bits :: int

definition nc_clear :: "NonCountingBloomFilter \<Rightarrow> NonCountingBloomFilter option" where
  "nc_clear f = do { xs \<leftarrow> flt_clear (nat (nc_filter_size f)) (nc_filter f); Some (f\<lparr>nc_filter := xs\<rparr>) }"

definition nc_new :: "string \<Rightarrow> NonCountingBloomFilter option" where
  "nc_new str = do {
     let (head, tail) = string_split str (CHR ''_'');
     let size = atoi head;
     size_bits \<leftarrow> log_int size;
     nc_clear \<lparr>nc_filter = replicate (nat size) 0, nc_filter_size = size, nc_offset = atoi tail, nc_filter_size_bits = size_bits\<rparr>
   }"

definition nc_get_index :: "RubyConfig \<Rightarrow> NonCountingBloomFilter \<Rightarrow> Address \<Rightarrow> int option" where
  "nc_get_index c f a = bits_int a (g_DATA_BLOCK_BITS c + nc_offset f) (g_DATA_BLOCK_BITS c + nc_offset f + nc_filter_size_bits f - 1)"

definition nc_merge :: "NonCountingBloomFilter \<Rightarrow> NonCountingBloomFilter \<Rightarrow> NonCountingBloomFilter option" where
  "nc_merge f g = do { xs \<leftarrow> flt_merge (nat (nc_filter_size f)) (nc_filter g) (nc_filter f); Some (f\<lparr>nc_filter := xs\<rparr>) }"

definition nc_writeBit :: "NonCountingBloomFilter \<Rightarrow> int \<Rightarrow> int \<Rightarrow> NonCountingBloomFilter option" where
  "nc_writeBit f i v = do { xs \<leftarrow> flt_put (nc_filter f) i v; Some (f\<lparr>nc_filter := xs\<rparr>) }"

definition nc_set :: "RubyConfig \<Rightarrow> NonCountingBloomFilter \<Rightarrow> Address \<Rightarrow> NonCountingBloomFilter option" where
  "nc_set c f a = do { i \<leftarrow> nc_get_index c f a; xs \<leftarrow> flt_put (nc_filter f) i 1; Some (f\<lparr>nc_filter := xs\<rparr>) }"

definition nc_unset :: "RubyConfig \<Rightarrow> NonCountingBloomFilter \<Rightarrow> Address \<Rightarrow> NonCountingBloomFilter option" where
  "nc_unset c f a = do { i \<leftarrow> nc_get_index c f a; xs \<leftarrow> flt_put (nc_filter f) i 0; Some (f\<lparr>nc_filter := xs\<rparr>) }"

definition nc_isSet :: "RubyConfig \<Rightarrow> NonCountingBloomFilter \<Rightarrow> Address \<Rightarrow> bool option" where
  "nc_isSet c f a = do { i \<leftarrow> nc_get_index c f a; flt_isSet (nc_filter f) i }"

definition nc_getCount :: "RubyConfig \<Rightarrow> NonCountingBloomFilter \<Rightarrow> Address \<Rightarrow> int option" where
  "nc_getCount c f a = do { i \<leftarrow> nc_get_index c f a; flt_ref (nc_filter f) i }"

definition nc_getTotalCount :: "NonCountingBloomFilter \<Rightarrow> int option" where
  "nc_getTotalCount f = flt_sum (nat (nc_filter_size f)) (nc_filter f)"

subsection \<open>Block filter\<close>

record BlockBloomFilter =
  blk_filter :: "int list"
  blk_filter_size :: int
  blk_filter_size_bits :: int

definition blk_clear :: "BlockBloomFilter \<Rightarrow> BlockBloomFilter option" where
  "blk_clear f = do { xs \<leftarrow> flt_clear (nat (blk_filter_size f)) (blk_filter f); Some (f\<lparr>blk_filter := xs\<rparr>) }"

definition blk_new :: "string \<Rightarrow> BlockBloomFilter option" where
  "blk_new str = do {
     let (head, tail) = string_split str (CHR ''_'');
     let size = atoi head;
     size_bits \<leftarrow> log_int size;
     blk_clear \<lparr>blk_filter = replicate (nat size) 0, blk_filter_size = size, blk_filter_size_bits = size_bits\<rparr>
   }"

definition blk_get_index :: "RubyConfig \<Rightarrow> BlockBloomFilter \<Rightarrow> Address \<Rightarrow> int option" where
  "blk_get_index c f a = do {
     block_bits \<leftarrow> bitSelect a (g_DATA_BLOCK_BITS c) (2 * g_DATA_BLOCK_BITS c - 1);
     let offset = 5;
     other_bits \<leftarrow> bitSelect a (2 * g_DATA_BLOCK_BITS c + offset) (2 * g_DATA_BLOCK_BITS c + offset + blk_filter_size_bits f - 1);
     let index = to_int32 (block_bits XOR other_bits);
     assert_that (index < blk_filter_size f);
     Some index
   }"

definition blk_writeBit :: "BlockBloomFilter \<Rightarrow> int \<Rightarrow> int \<Rightarrow> BlockBloomFilter option" where
  "blk_writeBit f i v = do { xs \<leftarrow> flt_put (blk_filter f) i v; Some (f\<lparr>blk_filter := xs\<rparr>) }"

definition blk_set :: "RubyConfig \<Rightarrow> BlockBloomFilter \<Rightarrow> Address \<Rightarrow> BlockBloomFilter option" where
  "blk_set c f a = do { i \<leftarrow> blk_get_index c f a; xs \<leftarrow> flt_put (blk_filter f) i 1; Some (f\<lparr>blk_filter := xs\<rparr>) }"

definition blk_unset :: "RubyConfig \<Rightarrow> BlockBloomFilter \<Rightarrow> Address \<Rightarrow> BlockBloomFilter option" where
  "blk_unset c f a = do { i \<leftarrow> blk_get_index c f a; xs \<leftarrow> flt_put (blk_filter f) i 0; Some (f\<lparr>blk_filter := xs\<rparr>) }"

definition blk_isSet :: "RubyConfig \<Rightarrow> BlockBloomFilter \<Rightarrow> Address \<Rightarrow> bool option" where
  "blk_isSet c f a = do { i \<leftarrow> blk_get_index c f a; flt_isSet (blk_filter f) i }"

definition blk_getCount :: "RubyConfig \<Rightarrow> BlockBloomFilter \<Rightarrow> Address \<Rightarrow> int option" where
  "blk_getCount c f a = do { i \<leftarrow> blk_get_index c f a; flt_ref (blk_filter f) i }"

definition blk_getTotalCount :: "BlockBloomFilter \<Rightarrow> int option" where
  "blk_getTotalCount f = flt_count (nat (blk_filter_size f)) (blk_filter f)"

subsection \<open>Bulk filter\<close>

record BulkBloomFilter =
  bulk_filter :: "int list"
  bulk_temp_filter :: "int list"
  bulk_filter_size :: int
  bulk_filter_size_bits :: int
  bulk_sector_bits :: int

definition bulk_clear :: "BulkBloomFilter \<Rightarrow> BulkBloomFilter option" where
  "bulk_clear f = do { xs \<leftarrow> flt_clear (nat (bulk_filter_size f)) (bulk_filter f); Some (f\<lparr>bulk_filter := xs\<rparr>) }"

definition bulk_new :: "string \<Rightarrow> BulkBloomFilter option" where
  "bulk_new str = do {
     let (head, tail) = string_split str (CHR ''_'');
     let size = atoi head;
     size_bits \<leftarrow> log_int size;
     f \<leftarrow> bulk_clear \<lparr>bulk_filter = replicate (nat size) 0, bulk_temp_filter = replicate (nat size) 0, bulk_filter_size = size,
            bulk_filter_size_bits = size_bits, bulk_sector_bits = size_bits - 1\<rparr>;
     xs \<leftarrow> flt_clear (nat size) (bulk_temp_filter f);
     Some (f\<lparr>bulk_temp_filter := xs\<rparr>)
   }"

text \<open>The positions of the two bits of an address.\<close>

definition bulk_positions :: "RubyConfig \<Rightarrow> BulkBloomFilter \<Rightarrow> Address \<Rightarrow> (int \<times> int) option" where
  "bulk_positions c f a = do {
     let set_bits = bulk_sector_bits f;
     let block_bits = g_DATA_BLOCK_BITS c;
     c0 \<leftarrow> bits_int a block_bits (block_bits + set_bits - 1);
     c1 \<leftarrow> bits_int a (block_bits + set_bits) (block_bits + 2 * set_bits - 1);
     Some (c0 + cdiv (bulk_filter_size f) 2, c1)
   }"

definition bulk_put2 :: "int list \<Rightarrow> int \<Rightarrow> int \<Rightarrow> int \<Rightarrow> int list option" where
  "bulk_put2 xs v0 v1 x = do { xs \<leftarrow> flt_put xs v0 x; flt_put xs v1 x }"

definition bulk_set :: "RubyConfig \<Rightarrow> BulkBloomFilter \<Rightarrow> Address \<Rightarrow> BulkBloomFilter option" where
  "bulk_set c f a = do {
     (v0, v1) \<leftarrow> bulk_positions c f a;
     xs \<leftarrow> bulk_put2 (bulk_filter f) v0 v1 1;
     Some (f\<lparr>bulk_filter := xs\<rparr>)
   }"

text \<open>The intersection of one half, with the flag that tells whether a bit survived.\<close>

fun bulk_half :: "nat list \<Rightarrow> int list \<Rightarrow> int list \<Rightarrow> bool \<Rightarrow> (bool \<times> int list) option" where
  "bulk_half [] flt temp found = Some (found, temp)"
| "bulk_half (i # is) flt temp found = do {
     t \<leftarrow> flt_ref temp (int i);
     v \<leftarrow> (if t \<noteq> 0 then flt_ref flt (int i) else Some 0);
     let t = (if t \<noteq> 0 \<and> v \<noteq> 0 then 1 else 0);
     temp \<leftarrow> flt_put temp (int i) t;
     bulk_half is flt temp (found \<or> t \<noteq> 0)
   }"

definition bulk_isSet :: "RubyConfig \<Rightarrow> BulkBloomFilter \<Rightarrow> Address \<Rightarrow> (bool \<times> BulkBloomFilter) option" where
  "bulk_isSet c f a = do {
     (v0, v1) \<leftarrow> bulk_positions c f a;
     temp \<leftarrow> bulk_put2 (bulk_temp_filter f) v0 v1 1;
     let half = nat (cdiv (bulk_filter_size f) 2);
     (found, temp) \<leftarrow> bulk_half [0..<half] (bulk_filter f) temp False;
     (if \<not> found then do { temp \<leftarrow> bulk_put2 temp v0 v1 0; Some (False, f\<lparr>bulk_temp_filter := temp\<rparr>) }
      else do {
        (found, temp) \<leftarrow> bulk_half [half..<nat (bulk_filter_size f)] (bulk_filter f) temp False;
        temp \<leftarrow> bulk_put2 temp v0 v1 0;
        Some (found, f\<lparr>bulk_temp_filter := temp\<rparr>)
      })
   }"

definition bulk_getTotalCount :: "BulkBloomFilter \<Rightarrow> int option" where
  "bulk_getTotalCount f = flt_count (nat (bulk_filter_size f)) (bulk_filter f)"

definition bulk_get_index :: "RubyConfig \<Rightarrow> BulkBloomFilter \<Rightarrow> Address \<Rightarrow> int option" where
  "bulk_get_index c f a = bits_int a (g_DATA_BLOCK_BITS c) (g_DATA_BLOCK_BITS c + bulk_filter_size_bits f - 1)"

definition bulk_permute :: "RubyConfig \<Rightarrow> Address \<Rightarrow> Address option" where
  "bulk_permute c a = do {
     let b = g_DATA_BLOCK_BITS c;
     part1 \<leftarrow> bitSelect a b (b + 6);
     part2 \<leftarrow> bitSelect a (b + 9) (b + 9);
     part3 \<leftarrow> bitSelect a (b + 11) (b + 11);
     part4 \<leftarrow> bitSelect a (b + 17) (b + 17);
     part5 \<leftarrow> bitSelect a (b + 7) (b + 8);
     part6 \<leftarrow> bitSelect a (b + 10) (b + 10);
     part7 \<leftarrow> bitSelect a (b + 12) (b + 12);
     part8 \<leftarrow> bitSelect a (b + 13) (b + 13);
     part9 \<leftarrow> bitSelect a (b + 15) (b + 16);
     part10 \<leftarrow> bitSelect a (b + 18) (b + 20);
     part11 \<leftarrow> bitSelect a (b + 14) (b + 14);
     let result = push_bit 14 part1 OR push_bit 13 part2 OR push_bit 12 part3 OR push_bit 11 part4 OR push_bit 9 part5 OR
           push_bit 8 part6 OR push_bit 7 part7 OR push_bit 6 part8 OR push_bit 4 part9 OR push_bit 1 part10 OR part11;
     remaining \<leftarrow> bitSelect a (b + 21) 31;
     Some (result OR push_bit 21 remaining)
   }"

subsection \<open>Multigrain filter\<close>

record MultiGrainBloomFilter =
  mg_filter :: "int list"
  mg_filter_size :: int
  mg_filter_size_bits :: int
  mg_page_filter :: "int list"
  mg_page_filter_size :: int
  mg_page_filter_size_bits :: int

definition mg_clear :: "MultiGrainBloomFilter \<Rightarrow> MultiGrainBloomFilter option" where
  "mg_clear f = do {
     xs \<leftarrow> flt_clear (nat (mg_filter_size f)) (mg_filter f);
     ys \<leftarrow> flt_clear (nat (mg_page_filter_size f)) (mg_page_filter f);
     Some (f\<lparr>mg_filter := xs, mg_page_filter := ys\<rparr>)
   }"

definition mg_new :: "string \<Rightarrow> MultiGrainBloomFilter option" where
  "mg_new str = do {
     let (head, tail) = string_split str (CHR ''_'');
     let size = atoi head;
     size_bits \<leftarrow> log_int size;
     let page_size = atoi tail;
     page_size_bits \<leftarrow> log_int page_size;
     mg_clear \<lparr>mg_filter = replicate (nat size) 0, mg_filter_size = size, mg_filter_size_bits = size_bits,
       mg_page_filter = replicate (nat page_size) 0, mg_page_filter_size = page_size, mg_page_filter_size_bits = page_size_bits\<rparr>
   }"

definition mg_get_block_index :: "RubyConfig \<Rightarrow> MultiGrainBloomFilter \<Rightarrow> Address \<Rightarrow> int option" where
  "mg_get_block_index c f a = bits_int a (g_DATA_BLOCK_BITS c) (g_DATA_BLOCK_BITS c + mg_filter_size_bits f - 1)"

definition mg_get_page_index :: "RubyConfig \<Rightarrow> MultiGrainBloomFilter \<Rightarrow> Address \<Rightarrow> int option" where
  "mg_get_page_index c f a = bits_int a (g_DATA_BLOCK_BITS c + mg_filter_size_bits f - 1)
     (g_DATA_BLOCK_BITS c + mg_filter_size_bits f - 1 + mg_page_filter_size_bits f - 1)"

text \<open>Both functions index the page filter with the block index \<open>i\<close>, not with \<open>j\<close>.\<close>

definition mg_set :: "RubyConfig \<Rightarrow> MultiGrainBloomFilter \<Rightarrow> Address \<Rightarrow> MultiGrainBloomFilter option" where
  "mg_set c f a = do {
     i \<leftarrow> mg_get_block_index c f a;
     j \<leftarrow> mg_get_page_index c f a;
     assert_that (i < mg_filter_size f);
     assert_that (j < mg_page_filter_size f);
     xs \<leftarrow> flt_put (mg_filter f) i 1;
     ys \<leftarrow> flt_put (mg_page_filter f) i 1;
     Some (f\<lparr>mg_filter := xs, mg_page_filter := ys\<rparr>)
   }"

definition mg_isSet :: "RubyConfig \<Rightarrow> MultiGrainBloomFilter \<Rightarrow> Address \<Rightarrow> bool option" where
  "mg_isSet c f a = do {
     i \<leftarrow> mg_get_block_index c f a;
     j \<leftarrow> mg_get_page_index c f a;
     assert_that (i < mg_filter_size f);
     assert_that (j < mg_page_filter_size f);
     v \<leftarrow> flt_isSet (mg_filter f) i;
     (if v then flt_isSet (mg_page_filter f) i else Some False)
   }"

text \<open>The second loop is \<^verbatim>\<open>count += m_page_filter[i] = 0\<close>: it clears the page filter and adds nothing.\<close>

definition mg_getTotalCount :: "MultiGrainBloomFilter \<Rightarrow> (int \<times> MultiGrainBloomFilter) option" where
  "mg_getTotalCount f = do {
     k \<leftarrow> flt_sum (nat (mg_filter_size f)) (mg_filter f);
     ys \<leftarrow> flt_clear (nat (mg_page_filter_size f)) (mg_page_filter f);
     Some (k, f\<lparr>mg_page_filter := ys\<rparr>)
   }"

subsection \<open>Filters with several hash functions\<close>

text \<open>The loops of \<^verbatim>\<open>set\<close> and \<^verbatim>\<open>isSet\<close> over the hash functions, the same code in both classes.\<close>

fun hashes_set :: "(nat \<Rightarrow> int option) \<Rightarrow> nat list \<Rightarrow> int list \<Rightarrow> int list option" where
  "hashes_set get_index [] xs = Some xs"
| "hashes_set get_index (i # is) xs = do {
     idx \<leftarrow> get_index i;
     xs \<leftarrow> flt_put xs idx 1;
     hashes_set get_index is xs
   }"

fun hashes_isSet :: "(nat \<Rightarrow> int option) \<Rightarrow> nat list \<Rightarrow> int list \<Rightarrow> bool \<Rightarrow> bool option" where
  "hashes_isSet get_index [] xs res = Some res"
| "hashes_isSet get_index (i # is) xs res = do {
     idx \<leftarrow> get_index i;
     v \<leftarrow> (if res then flt_isSet xs idx else Some False);
     hashes_isSet get_index is xs (res \<and> v)
   }"

record MultiBitSelBloomFilter =
  mbs_filter :: "int list"
  mbs_filter_size :: int
  mbs_num_hashes :: int
  mbs_filter_size_bits :: int
  mbs_skip_bits :: int
  mbs_par_filter_size :: int
  mbs_par_filter_size_bits :: int
  mbs_isParallel :: bool

definition mbs_clear :: "MultiBitSelBloomFilter \<Rightarrow> MultiBitSelBloomFilter option" where
  "mbs_clear f = do { xs \<leftarrow> flt_clear (nat (mbs_filter_size f)) (mbs_filter f); Some (f\<lparr>mbs_filter := xs\<rparr>) }"

definition mbs_new :: "string \<Rightarrow> MultiBitSelBloomFilter option" where
  "mbs_new str = do {
     let (head, tail) = string_split str (CHR ''_'');
     let size = atoi head;
     let (head, tail) = string_split tail (CHR ''_'');
     let num_hashes = atoi head;
     let (head, tail) = string_split tail (CHR ''_'');
     let skip_bits = atoi head;
     isParallel \<leftarrow> (if tail = ''Regular'' then Some False else if tail = ''Parallel'' then Some True else None);
     size_bits \<leftarrow> log_int size;
     assert_that (num_hashes \<noteq> 0);
     let par_size = cdiv size num_hashes;
     par_size_bits \<leftarrow> log_int par_size;
     mbs_clear \<lparr>mbs_filter = replicate (nat size) 0, mbs_filter_size = size, mbs_num_hashes = num_hashes,
       mbs_filter_size_bits = size_bits, mbs_skip_bits = skip_bits, mbs_par_filter_size = par_size,
       mbs_par_filter_size_bits = par_size_bits, mbs_isParallel = isParallel\<rparr>
   }"

fun bitsel_loop :: "64 word \<Rightarrow> int \<Rightarrow> int \<Rightarrow> int \<Rightarrow> nat list \<Rightarrow> int \<Rightarrow> int" where
  "bitsel_loop v index jump maxBits [] result = result"
| "bitsel_loop v index jump maxBits (i # is) result =
     (let b = (index + jump * int i) mod maxBits
      in bitsel_loop v index jump maxBits is (if v AND push_bit (nat b) 1 \<noteq> 0 then result + push_bit i 1 else result))"

definition hash_bitsel :: "64 word \<Rightarrow> int \<Rightarrow> int \<Rightarrow> int \<Rightarrow> int \<Rightarrow> int" where
  "hash_bitsel v index jump maxBits numBits = bitsel_loop v index jump maxBits [0..<nat numBits] 0"

definition mbs_get_index :: "RubyConfig \<Rightarrow> MultiBitSelBloomFilter \<Rightarrow> Address \<Rightarrow> nat \<Rightarrow> int option" where
  "mbs_get_index c f a i = do {
     l \<leftarrow> getLineAddress c a;
     let x = drop_bit (nat (mbs_skip_bits f)) l;
     let y = hash_bitsel x (int i) (mbs_num_hashes f) 30 (mbs_filter_size_bits f);
     Some (if mbs_isParallel f then y mod mbs_par_filter_size f + int i * mbs_par_filter_size f else y mod mbs_filter_size f)
   }"

definition mbs_set :: "RubyConfig \<Rightarrow> MultiBitSelBloomFilter \<Rightarrow> Address \<Rightarrow> MultiBitSelBloomFilter option" where
  "mbs_set c f a = do {
     xs \<leftarrow> hashes_set (mbs_get_index c f a) [0..<nat (mbs_num_hashes f)] (mbs_filter f);
     Some (f\<lparr>mbs_filter := xs\<rparr>)
   }"

definition mbs_isSet :: "RubyConfig \<Rightarrow> MultiBitSelBloomFilter \<Rightarrow> Address \<Rightarrow> bool option" where
  "mbs_isSet c f a = hashes_isSet (mbs_get_index c f a) [0..<nat (mbs_num_hashes f)] (mbs_filter f) True"

definition mbs_merge :: "MultiBitSelBloomFilter \<Rightarrow> MultiBitSelBloomFilter \<Rightarrow> MultiBitSelBloomFilter option" where
  "mbs_merge f g = do { xs \<leftarrow> flt_merge (nat (mbs_filter_size f)) (mbs_filter g) (mbs_filter f); Some (f\<lparr>mbs_filter := xs\<rparr>) }"

definition mbs_getTotalCount :: "MultiBitSelBloomFilter \<Rightarrow> int option" where
  "mbs_getTotalCount f = flt_sum (nat (mbs_filter_size f)) (mbs_filter f)"

record H3BloomFilter =
  h3_filter :: "int list"
  h3_filter_size :: int
  h3_num_hashes :: int
  h3_filter_size_bits :: int
  h3_par_filter_size :: int
  h3_par_filter_size_bits :: int
  h3_isParallel :: bool

definition h3_clear :: "H3BloomFilter \<Rightarrow> H3BloomFilter option" where
  "h3_clear f = do { xs \<leftarrow> flt_clear (nat (h3_filter_size f)) (h3_filter f); Some (f\<lparr>h3_filter := xs\<rparr>) }"

definition h3_new :: "string \<Rightarrow> H3BloomFilter option" where
  "h3_new str = do {
     let (head, tail) = string_split str (CHR ''_'');
     let size = atoi head;
     let (head, tail) = string_split tail (CHR ''_'');
     let num_hashes = atoi head;
     isParallel \<leftarrow> (if tail = ''Regular'' then Some False else if tail = ''Parallel'' then Some True else None);
     size_bits \<leftarrow> log_int size;
     assert_that (num_hashes \<noteq> 0);
     let par_size = cdiv size num_hashes;
     par_size_bits \<leftarrow> log_int par_size;
     h3_clear \<lparr>h3_filter = replicate (nat size) 0, h3_filter_size = size, h3_num_hashes = num_hashes, h3_filter_size_bits = size_bits,
       h3_par_filter_size = par_size, h3_par_filter_size_bits = par_size_bits, h3_isParallel = isParallel\<rparr>
   }"

fun hash_H3_loop :: "int list list \<Rightarrow> 64 word \<Rightarrow> nat \<Rightarrow> int \<Rightarrow> int option" where
  "hash_H3_loop [] v index result = Some result"
| "hash_H3_loop (row # rows) v index result = do {
     result \<leftarrow> (if v AND 1 \<noteq> 0 then do { h \<leftarrow> vec_at row index; Some (result XOR h) } else Some result);
     hash_H3_loop rows (drop_bit 1 v) index result
   }"

definition hash_H3 :: "64 word \<Rightarrow> nat \<Rightarrow> int option" where
  "hash_H3 v index = hash_H3_loop H3 v index 0"

definition h3_get_index :: "RubyConfig \<Rightarrow> H3BloomFilter \<Rightarrow> Address \<Rightarrow> nat \<Rightarrow> int option" where
  "h3_get_index c f a i = do {
     x \<leftarrow> getLineAddress c a;
     y \<leftarrow> hash_H3 x i;
     Some (if h3_isParallel f then y mod h3_par_filter_size f + int i * h3_par_filter_size f else y mod h3_filter_size f)
   }"

definition h3_set :: "RubyConfig \<Rightarrow> H3BloomFilter \<Rightarrow> Address \<Rightarrow> H3BloomFilter option" where
  "h3_set c f a = do { xs \<leftarrow> hashes_set (h3_get_index c f a) [0..<nat (h3_num_hashes f)] (h3_filter f); Some (f\<lparr>h3_filter := xs\<rparr>) }"

definition h3_isSet :: "RubyConfig \<Rightarrow> H3BloomFilter \<Rightarrow> Address \<Rightarrow> bool option" where
  "h3_isSet c f a = hashes_isSet (h3_get_index c f a) [0..<nat (h3_num_hashes f)] (h3_filter f) True"

definition h3_merge :: "H3BloomFilter \<Rightarrow> H3BloomFilter \<Rightarrow> H3BloomFilter option" where
  "h3_merge f g = do { xs \<leftarrow> flt_merge (nat (h3_filter_size f)) (h3_filter g) (h3_filter f); Some (f\<lparr>h3_filter := xs\<rparr>) }"

definition h3_getTotalCount :: "H3BloomFilter \<Rightarrow> int option" where
  "h3_getTotalCount f = flt_sum (nat (h3_filter_size f)) (h3_filter f)"

subsection \<open>The generic filter\<close>

datatype GenericBloomFilter =
    LSB_Counting LSB_CountingBloomFilter
  | NonCounting NonCountingBloomFilter
  | Bulk BulkBloomFilter
  | Block BlockBloomFilter
  | Multigrain MultiGrainBloomFilter
  | MultiBitSel MultiBitSelBloomFilter
  | H3Bloom H3BloomFilter

definition gb_new :: "string \<Rightarrow> GenericBloomFilter option" where
  "gb_new config =
     (let (head, tail) = string_split config (CHR ''_'')
      in if head = ''LSB_Counting'' then map_option LSB_Counting (lsb_new tail)
         else if head = ''NonCounting'' then map_option NonCounting (nc_new tail)
         else if head = ''Bulk'' then map_option Bulk (bulk_new tail)
         else if head = ''Block'' then map_option Block (blk_new tail)
         else if head = ''Multigrain'' then map_option Multigrain (mg_new tail)
         else if head = ''MultiBitSel'' then map_option MultiBitSel (mbs_new tail)
         else if head = ''H3'' then map_option H3Bloom (h3_new tail)
         else None)"

fun gb_clear :: "GenericBloomFilter \<Rightarrow> GenericBloomFilter option" where
  "gb_clear (LSB_Counting f) = map_option LSB_Counting (lsb_clear f)"
| "gb_clear (NonCounting f) = map_option NonCounting (nc_clear f)"
| "gb_clear (Bulk f) = map_option Bulk (bulk_clear f)"
| "gb_clear (Block f) = map_option Block (blk_clear f)"
| "gb_clear (Multigrain f) = map_option Multigrain (mg_clear f)"
| "gb_clear (MultiBitSel f) = map_option MultiBitSel (mbs_clear f)"
| "gb_clear (H3Bloom f) = map_option H3Bloom (h3_clear f)"

fun gb_increment :: "RubyConfig \<Rightarrow> GenericBloomFilter \<Rightarrow> Address \<Rightarrow> GenericBloomFilter option" where
  "gb_increment c (LSB_Counting f) a = map_option LSB_Counting (lsb_increment c f a)"
| "gb_increment c f a = Some f"

fun gb_decrement :: "RubyConfig \<Rightarrow> GenericBloomFilter \<Rightarrow> Address \<Rightarrow> GenericBloomFilter option" where
  "gb_decrement c (LSB_Counting f) a = map_option LSB_Counting (lsb_decrement c f a)"
| "gb_decrement c f a = Some f"

text \<open>Where \<^verbatim>\<open>merge\<close> is implemented it casts its argument to its own class.\<close>

fun gb_merge :: "GenericBloomFilter \<Rightarrow> GenericBloomFilter \<Rightarrow> GenericBloomFilter option" where
  "gb_merge (NonCounting f) g = (case g of NonCounting h \<Rightarrow> map_option NonCounting (nc_merge f h) | _ \<Rightarrow> None)"
| "gb_merge (MultiBitSel f) g = (case g of MultiBitSel h \<Rightarrow> map_option MultiBitSel (mbs_merge f h) | _ \<Rightarrow> None)"
| "gb_merge (H3Bloom f) g = (case g of H3Bloom h \<Rightarrow> map_option H3Bloom (h3_merge f h) | _ \<Rightarrow> None)"
| "gb_merge f g = Some f"

fun gb_set :: "RubyConfig \<Rightarrow> GenericBloomFilter \<Rightarrow> Address \<Rightarrow> GenericBloomFilter option" where
  "gb_set c (LSB_Counting f) a = Some (LSB_Counting f)"
| "gb_set c (NonCounting f) a = map_option NonCounting (nc_set c f a)"
| "gb_set c (Bulk f) a = map_option Bulk (bulk_set c f a)"
| "gb_set c (Block f) a = map_option Block (blk_set c f a)"
| "gb_set c (Multigrain f) a = map_option Multigrain (mg_set c f a)"
| "gb_set c (MultiBitSel f) a = map_option MultiBitSel (mbs_set c f a)"
| "gb_set c (H3Bloom f) a = map_option H3Bloom (h3_set c f a)"

fun gb_unset :: "RubyConfig \<Rightarrow> GenericBloomFilter \<Rightarrow> Address \<Rightarrow> GenericBloomFilter option" where
  "gb_unset c (NonCounting f) a = map_option NonCounting (nc_unset c f a)"
| "gb_unset c (Block f) a = map_option Block (blk_unset c f a)"
| "gb_unset c (MultiBitSel f) a = None"
| "gb_unset c (H3Bloom f) a = None"
| "gb_unset c f a = Some f"

fun gb_isSet :: "RubyConfig \<Rightarrow> GenericBloomFilter \<Rightarrow> Address \<Rightarrow> (bool \<times> GenericBloomFilter) option" where
  "gb_isSet c (LSB_Counting f) a = None"
| "gb_isSet c (NonCounting f) a = map_option (\<lambda>b. (b, NonCounting f)) (nc_isSet c f a)"
| "gb_isSet c (Bulk f) a = map_option (\<lambda>(b, f). (b, Bulk f)) (bulk_isSet c f a)"
| "gb_isSet c (Block f) a = map_option (\<lambda>b. (b, Block f)) (blk_isSet c f a)"
| "gb_isSet c (Multigrain f) a = map_option (\<lambda>b. (b, Multigrain f)) (mg_isSet c f a)"
| "gb_isSet c (MultiBitSel f) a = map_option (\<lambda>b. (b, MultiBitSel f)) (mbs_isSet c f a)"
| "gb_isSet c (H3Bloom f) a = map_option (\<lambda>b. (b, H3Bloom f)) (h3_isSet c f a)"

fun gb_getCount :: "RubyConfig \<Rightarrow> GenericBloomFilter \<Rightarrow> Address \<Rightarrow> int option" where
  "gb_getCount c (LSB_Counting f) a = lsb_getCount c f a"
| "gb_getCount c (NonCounting f) a = nc_getCount c f a"
| "gb_getCount c (Block f) a = blk_getCount c f a"
| "gb_getCount c (MultiBitSel f) a = map_option (\<lambda>b. if b then 1 else 0) (mbs_isSet c f a)"
| "gb_getCount c (H3Bloom f) a = map_option (\<lambda>b. if b then 1 else 0) (h3_isSet c f a)"
| "gb_getCount c f a = Some 0"

fun gb_getTotalCount :: "GenericBloomFilter \<Rightarrow> (int \<times> GenericBloomFilter) option" where
  "gb_getTotalCount (LSB_Counting f) = map_option (\<lambda>k. (k, LSB_Counting f)) (lsb_getTotalCount f)"
| "gb_getTotalCount (NonCounting f) = map_option (\<lambda>k. (k, NonCounting f)) (nc_getTotalCount f)"
| "gb_getTotalCount (Bulk f) = map_option (\<lambda>k. (k, Bulk f)) (bulk_getTotalCount f)"
| "gb_getTotalCount (Block f) = map_option (\<lambda>k. (k, Block f)) (blk_getTotalCount f)"
| "gb_getTotalCount (Multigrain f) = map_option (\<lambda>(k, f). (k, Multigrain f)) (mg_getTotalCount f)"
| "gb_getTotalCount (MultiBitSel f) = map_option (\<lambda>k. (k, MultiBitSel f)) (mbs_getTotalCount f)"
| "gb_getTotalCount (H3Bloom f) = map_option (\<lambda>k. (k, H3Bloom f)) (h3_getTotalCount f)"

fun gb_getIndex :: "RubyConfig \<Rightarrow> GenericBloomFilter \<Rightarrow> Address \<Rightarrow> int option" where
  "gb_getIndex c (LSB_Counting f) a = lsb_get_index c f a"
| "gb_getIndex c (NonCounting f) a = nc_get_index c f a"
| "gb_getIndex c (Bulk f) a = bulk_get_index c f a"
| "gb_getIndex c (Block f) a = blk_get_index c f a"
| "gb_getIndex c f a = Some 0"

fun gb_readBit :: "GenericBloomFilter \<Rightarrow> int \<Rightarrow> int option" where
  "gb_readBit (NonCounting f) i = flt_ref (nc_filter f) i"
| "gb_readBit (Block f) i = flt_ref (blk_filter f) i"
| "gb_readBit f i = Some 0"

fun gb_writeBit :: "GenericBloomFilter \<Rightarrow> int \<Rightarrow> int \<Rightarrow> GenericBloomFilter option" where
  "gb_writeBit (NonCounting f) i v = map_option NonCounting (nc_writeBit f i v)"
| "gb_writeBit (Block f) i v = map_option Block (blk_writeBit f i v)"
| "gb_writeBit f i v = Some f"

subsection \<open>The contract of the filters\<close>

text \<open>What a filter answers, runs of insertions and queries, and the contract: a query changes no answer, an insertion makes the
  address found and loses no other.\<close>

definition finds :: "('f \<Rightarrow> Address \<Rightarrow> (bool \<times> 'f) option) \<Rightarrow> 'f \<Rightarrow> Address \<Rightarrow> bool" where
  "finds test f a \<longleftrightarrow> (case test f a of Some (b, f') \<Rightarrow> b | None \<Rightarrow> False)"

datatype bloom_op = Set_addr Address | Test_addr Address

fun bloom_run :: "('f \<Rightarrow> Address \<Rightarrow> 'f option) \<Rightarrow> ('f \<Rightarrow> Address \<Rightarrow> (bool \<times> 'f) option) \<Rightarrow> bloom_op list \<Rightarrow> 'f \<Rightarrow> 'f option" where
  "bloom_run ins test [] f = Some f"
| "bloom_run ins test (Set_addr a # ops) f = do { f \<leftarrow> ins f a; bloom_run ins test ops f }"
| "bloom_run ins test (Test_addr a # ops) f = do { (b, f) \<leftarrow> test f a; bloom_run ins test ops f }"

locale bloom_filter =
  fixes inv :: "'f \<Rightarrow> bool" and ins :: "'f \<Rightarrow> Address \<Rightarrow> 'f option" and test :: "'f \<Rightarrow> Address \<Rightarrow> (bool \<times> 'f) option"
  assumes test_ok: "inv f \<Longrightarrow> \<exists>b f'. test f a = Some (b, f') \<and> inv f' \<and> (\<forall>x. finds test f' x = finds test f x)"
    and ins_ok: "inv f \<Longrightarrow> \<exists>f'. ins f a = Some f' \<and> inv f' \<and> finds test f' a \<and> (\<forall>x. finds test f x \<longrightarrow> finds test f' x)"
begin

lemma run_finds:
  "inv f \<Longrightarrow> \<exists>f'. bloom_run ins test ops f = Some f' \<and> inv f' \<and> (\<forall>a. finds test f a \<or> Set_addr a \<in> set ops \<longrightarrow> finds test f' a)"
proof (induction ops arbitrary: f)
  case (Cons op ops)
  show ?case
  proof (cases op)
    case (Set_addr a)
    obtain f1 where f1: "ins f a = Some f1" "inv f1" "finds test f1 a" "\<forall>x. finds test f x \<longrightarrow> finds test f1 x"
      using ins_ok [OF Cons.prems, of a] by blast
    then show ?thesis using Cons.IH [OF f1(2)] Set_addr by fastforce
  next
    case (Test_addr a)
    obtain b f1 where f1: "test f a = Some (b, f1)" "inv f1" "\<forall>x. finds test f1 x = finds test f x"
      using test_ok [OF Cons.prems, of a] by blast
    then show ?thesis using Cons.IH [OF f1(2)] Test_addr by auto
  qed
qed simp

lemma finds_result:
  assumes "inv f" "finds test f a"
  shows "\<exists>f'. test f a = Some (True, f')"
  using test_ok [OF assms(1), of a] assms(2) by (auto simp: finds_def)

end

locale mergeable_filter = bloom_filter +
  fixes merge :: "'f \<Rightarrow> 'f \<Rightarrow> 'f option" and same :: "'f \<Rightarrow> 'f \<Rightarrow> bool"
  assumes merge_ok: "\<lbrakk>inv f; inv g; same f g\<rbrakk> \<Longrightarrow>
    \<exists>h. merge f g = Some h \<and> inv h \<and> (\<forall>a. finds test f a \<or> finds test g a \<longrightarrow> finds test h a)"

subsection \<open>Filters over one array\<close>

lemma flt_ref_ok [simp]: "\<lbrakk>0 \<le> i; i < int (length xs)\<rbrakk> \<Longrightarrow> flt_ref xs i = Some (xs ! nat i)"
  by (simp add: flt_ref_def)

lemma flt_put_ok [simp]: "\<lbrakk>0 \<le> i; i < int (length xs)\<rbrakk> \<Longrightarrow> flt_put xs i v = Some (xs[nat i := v])"
  by (simp add: flt_put_def)

lemma flt_isSet_ok [simp]: "\<lbrakk>0 \<le> i; i < int (length xs)\<rbrakk> \<Longrightarrow> flt_isSet xs i = Some (xs ! nat i \<noteq> 0)"
  by (simp add: flt_isSet_def)

lemma flt_clear_eq: "n \<le> length xs \<Longrightarrow> flt_clear n xs = Some (replicate n 0 @ drop n xs)"
proof (induction n)
  case (Suc n)
  then have "drop n xs = xs ! n # drop (Suc n) xs" by (simp add: Cons_nth_drop_Suc)
  then show ?case using Suc by (simp add: list_update_append replicate_append_same [symmetric])
qed simp

lemma flt_clear_replicate [simp]: "flt_clear n (replicate n v) = Some (replicate n 0)"
  by (simp add: flt_clear_eq)

lemma flt_merge_ok:
  assumes "length ys = length xs" "n \<le> length xs"
  shows "\<exists>zs. flt_merge n ys xs = Some zs \<and> length zs = length xs \<and> (\<forall>j < length xs. zs ! j = (if j < n then xs ! j OR ys ! j else xs ! j))"
  using assms(2)
proof (induction n)
  case (Suc n)
  then obtain zs where "flt_merge n ys xs = Some zs" "length zs = length xs" "\<forall>j < length xs. zs ! j = (if j < n then xs ! j OR ys ! j else xs ! j)"
    by auto
  then show ?case using Suc.prems assms(1) by (auto simp: nth_list_update)
qed simp

definition all_found :: "(nat \<Rightarrow> int option) \<Rightarrow> nat list \<Rightarrow> int list \<Rightarrow> bool" where
  "all_found idx is xs \<longleftrightarrow> (\<forall>i \<in> set is. \<exists>k. idx i = Some k \<and> xs ! nat k \<noteq> 0)"

definition in_array :: "(nat \<Rightarrow> int option) \<Rightarrow> nat list \<Rightarrow> int list \<Rightarrow> bool" where
  "in_array idx is xs \<longleftrightarrow> (\<forall>i \<in> set is. \<exists>k. idx i = Some k \<and> 0 \<le> k \<and> k < int (length xs))"

lemma hashes_set_ok:
  assumes "in_array idx is xs"
  shows "\<exists>ys. hashes_set idx is xs = Some ys \<and> length ys = length xs \<and>
    (\<forall>j < length xs. (xs ! j \<noteq> 0 \<longrightarrow> ys ! j \<noteq> 0)) \<and> all_found idx is ys"
  using assms
proof (induction "is" arbitrary: xs)
  case (Cons i "is")
  obtain k where k: "idx i = Some k" "0 \<le> k" "k < int (length xs)" using Cons.prems by (auto simp: in_array_def)
  have "in_array idx is (xs[nat k := 1])" using Cons.prems by (auto simp: in_array_def)
  from Cons.IH [OF this] obtain ys where ys: "hashes_set idx is (xs[nat k := 1]) = Some ys" "length ys = length xs"
      "\<forall>j < length xs. xs[nat k := 1] ! j \<noteq> 0 \<longrightarrow> ys ! j \<noteq> 0" "all_found idx is ys" by auto
  have "ys ! nat k \<noteq> 0" using ys(3) k by simp
  moreover have "xs ! j \<noteq> 0 \<longrightarrow> ys ! j \<noteq> 0" if "j < length xs" for j using ys(3) that by (cases "j = nat k") (auto simp: nth_list_update)
  ultimately show ?case using ys k by (auto simp: all_found_def)
qed (simp add: all_found_def)

lemma hashes_isSet_ok: "in_array idx is xs \<Longrightarrow> hashes_isSet idx is xs r = Some (r \<and> all_found idx is xs)"
proof (induction "is" arbitrary: r)
  case (Cons i "is")
  obtain k where k: "idx i = Some k" "0 \<le> k" "k < int (length xs)" using Cons.prems by (auto simp: in_array_def)
  have "in_array idx is xs" using Cons.prems by (auto simp: in_array_def)
  then show ?case using Cons.IH k by (auto simp: all_found_def)
qed (simp add: all_found_def)

locale array_filter =
  fixes inv :: "'f \<Rightarrow> bool" and ins :: "'f \<Rightarrow> Address \<Rightarrow> 'f option" and test :: "'f \<Rightarrow> Address \<Rightarrow> (bool \<times> 'f) option"
    and merge :: "'f \<Rightarrow> 'f \<Rightarrow> 'f option" and arr :: "'f \<Rightarrow> int list" and upd :: "int list \<Rightarrow> 'f \<Rightarrow> 'f"
    and hs :: "'f \<Rightarrow> nat list" and idx :: "'f \<Rightarrow> Address \<Rightarrow> nat \<Rightarrow> int option"
  assumes ins_eq: "ins f a = map_option (\<lambda>xs. upd xs f) (hashes_set (idx f a) (hs f) (arr f))"
    and test_eq: "inv f \<Longrightarrow> test f a = map_option (\<lambda>b. (b, f)) (hashes_isSet (idx f a) (hs f) (arr f) True)"
    and merge_eq: "inv f \<Longrightarrow> merge f g = map_option (\<lambda>xs. upd xs f) (flt_merge (length (arr f)) (arr g) (arr f))"
    and upd_ok: "arr (upd xs f) = xs" "hs (upd xs f) = hs f" "idx (upd xs f) = idx f"
    and inv_idx: "inv f \<Longrightarrow> in_array (idx f a) (hs f) (arr f)"
    and inv_upd: "\<lbrakk>inv f; length xs = length (arr f)\<rbrakk> \<Longrightarrow> inv (upd xs f)"
begin

definition same_shape :: "'f \<Rightarrow> 'f \<Rightarrow> bool" where
  "same_shape f g \<longleftrightarrow> hs f = hs g \<and> idx f = idx g \<and> length (arr f) = length (arr g)"

lemma finds_eq: "inv f \<Longrightarrow> finds test f a \<longleftrightarrow> all_found (idx f a) (hs f) (arr f)"
  using inv_idx by (simp add: finds_def test_eq hashes_isSet_ok)

lemma all_found_mono:
  assumes "in_array (idx f a) (hs f) (arr f)" "all_found (idx f a) (hs f) (arr f)" "\<forall>j < length (arr f). arr f ! j \<noteq> 0 \<longrightarrow> ys ! j \<noteq> 0"
  shows "all_found (idx f a) (hs f) ys"
  unfolding all_found_def
proof
  fix i assume i: "i \<in> set (hs f)"
  then obtain k where k: "idx f a i = Some k" "0 \<le> k" "k < int (length (arr f))" using assms(1) by (auto simp: in_array_def)
  then have "arr f ! nat k \<noteq> 0" using assms(2) i by (auto simp: all_found_def)
  then show "\<exists>k. idx f a i = Some k \<and> ys ! nat k \<noteq> 0" using k assms(3) by (simp add: nat_less_iff)
qed

lemma run_shape: "\<lbrakk>inv f; bloom_run ins test ops f = Some f'\<rbrakk> \<Longrightarrow> same_shape f f'"
proof (induction ops arbitrary: f)
  case (Cons op ops)
  show ?case
  proof (cases op)
    case (Set_addr a)
    obtain ys where ys: "hashes_set (idx f a) (hs f) (arr f) = Some ys" "length ys = length (arr f)" using hashes_set_ok [OF inv_idx [OF Cons.prems(1)]] by blast
    then have "ins f a = Some (upd ys f)" by (simp add: ins_eq)
    then have "bloom_run ins test ops (upd ys f) = Some f'" using Cons.prems(2) Set_addr by simp
    then show ?thesis using Cons.IH [OF inv_upd [OF Cons.prems(1) ys(2)]] ys(2) by (simp add: same_shape_def upd_ok)
  next
    case (Test_addr a)
    then show ?thesis using Cons by (auto simp: test_eq bind_eq_Some_conv)
  qed
qed (simp add: same_shape_def)

end

sublocale array_filter \<subseteq> mergeable_filter inv ins test merge same_shape
proof (unfold_locales, goal_cases)
  case (1 f a)
  then show ?case using inv_idx by (simp add: test_eq hashes_isSet_ok)
next
  case (2 f a)
  obtain ys where ys: "hashes_set (idx f a) (hs f) (arr f) = Some ys" "length ys = length (arr f)"
      "\<forall>j < length (arr f). arr f ! j \<noteq> 0 \<longrightarrow> ys ! j \<noteq> 0" "all_found (idx f a) (hs f) ys" using hashes_set_ok [OF inv_idx [OF 2]] by blast
  have inv': "inv (upd ys f)" by (rule inv_upd [OF 2 ys(2)])
  have "finds test (upd ys f) x" if "finds test f x" for x
    using all_found_mono [OF inv_idx [OF 2, of x] _ ys(3)] that by (simp add: finds_eq [OF 2] finds_eq [OF inv'] upd_ok)
  then show ?case using inv' ys by (simp add: ins_eq finds_eq [OF inv'] upd_ok)
next
  case (3 f g)
  note sh = 3(3) [unfolded same_shape_def]
  obtain zs where zs: "flt_merge (length (arr f)) (arr g) (arr f) = Some zs" "length zs = length (arr f)"
      "\<forall>j < length (arr f). zs ! j = arr f ! j OR arr g ! j" using flt_merge_ok [of "arr g" "arr f" "length (arr f)"] sh by auto
  have inv': "inv (upd zs f)" by (rule inv_upd [OF 3(1) zs(2)])
  have "finds test (upd zs f) x" if "finds test f x \<or> finds test g x" for x
    using that
  proof
    assume "finds test f x"
    then show ?thesis using all_found_mono [OF inv_idx [OF 3(1), of x], of zs] zs(3) by (simp add: finds_eq [OF 3(1)] finds_eq [OF inv'] upd_ok or_eq_0_iff)
  next
    assume "finds test g x"
    then show ?thesis using all_found_mono [OF inv_idx [OF 3(2), of x], of zs] zs(3) sh
      by (simp add: finds_eq [OF 3(2)] finds_eq [OF inv'] upd_ok or_eq_0_iff)
  qed
  then show ?case using inv' zs by (simp add: merge_eq [OF 3(1)])
qed

subsection \<open>The filters keep the contract\<close>

definition block_bits_ok :: "RubyConfig \<Rightarrow> bool" where
  "block_bits_ok c \<longleftrightarrow> 0 \<le> g_DATA_BLOCK_BITS c \<and> g_DATA_BLOCK_BITS c < 63"

definition size_ok :: "int list \<Rightarrow> int \<Rightarrow> int \<Rightarrow> bool" where
  "size_ok xs sz bits \<longleftrightarrow> int (length xs) = sz \<and> log_int sz = Some bits \<and> sz < 2 ^ 31"

lemma bind_Some_map: "Option.bind m (\<lambda>x. Some (g x)) = map_option g m"
  by (cases m) simp_all

lemma size_ok_nat: "size_ok xs sz bits \<Longrightarrow> nat sz = length xs"
  by (auto simp: size_ok_def)

lemma size_ok_length: "\<lbrakk>size_ok xs sz bits; length ys = length xs\<rbrakk> \<Longrightarrow> size_ok ys sz bits"
  by (simp add: size_ok_def)

lemma size_ok_bits: "size_ok xs sz bits \<Longrightarrow> 0 \<le> bits \<and> bits \<le> 30 \<and> 2 ^ nat bits \<le> sz \<and> 0 < sz"
proof -
  assume a: "size_ok xs sz bits"
  then have b: "0 \<le> bits" "2 ^ nat bits \<le> sz" "0 < sz" using log_int_Some [of sz bits] by (auto simp: size_ok_def)
  then have "(2 :: int) ^ nat bits < 2 ^ 31" using a by (auto simp: size_ok_def)
  then have "nat bits < 31" by (rule power_less_imp_less_exp [rotated]) simp
  then show ?thesis using b by simp
qed

lemma bitSelect_bound:
  assumes "0 \<le> lo" "0 < n" "bitSelect a lo (lo + n - 1) = Some x"
  shows "unat x < 2 ^ nat n"
proof -
  have "unat x = (unat a mod 2 ^ (nat lo + nat n)) div 2 ^ nat lo"
    using bitSelect_unat [OF _ _ assms(3)] assms(1,2) by (simp add: nat_add_distrib)
  then have "unat x = unat a div 2 ^ nat lo mod 2 ^ nat n" by (simp add: power_add mod_mult2_eq)
  then show ?thesis by simp
qed

lemma field_index:
  assumes "size_ok xs sz bits" "0 < bits" "0 \<le> lo"
  shows "\<exists>k. bits_int a lo (lo + bits - 1) = Some k \<and> 0 \<le> k \<and> k < sz"
proof -
  note b = size_ok_bits [OF assms(1)]
  have "bits_int a lo (lo + bits - 1) = Some (int (unat a div 2 ^ nat lo mod 2 ^ nat bits))"
    unfolding bits_int_def using assms b by (intro bitSelect_field) auto
  moreover have "int (unat a div 2 ^ nat lo mod 2 ^ nat bits) < sz" using field_range(2) [of "unat a" "2 ^ nat lo" "nat bits"] b by linarith
  ultimately show ?thesis by simp
qed

definition nc_inv :: "RubyConfig \<Rightarrow> NonCountingBloomFilter \<Rightarrow> bool" where
  "nc_inv c f \<longleftrightarrow> size_ok (nc_filter f) (nc_filter_size f) (nc_filter_size_bits f) \<and> 0 < nc_filter_size_bits f \<and>
     0 \<le> g_DATA_BLOCK_BITS c + nc_offset f"

text \<open>A filter with one hash function is the case of a single index.\<close>

lemma single_hash:
  "Option.bind i (\<lambda>k. Option.bind (flt_put xs k 1) (\<lambda>ys. Some (g ys))) = map_option g (hashes_set (\<lambda>_. i) [0] xs)"
  "Option.bind i (flt_isSet xs) = hashes_isSet (\<lambda>_. i) [0] xs True"
proof -
  show "Option.bind i (\<lambda>k. Option.bind (flt_put xs k 1) (\<lambda>ys. Some (g ys))) = map_option g (hashes_set (\<lambda>_. i) [0] xs)"
    by (cases i; cases "flt_put xs (the i) 1") simp_all
  show "Option.bind i (flt_isSet xs) = hashes_isSet (\<lambda>_. i) [0] xs True"
    by (cases i; cases "flt_isSet xs (the i)") simp_all
qed

interpretation nc: array_filter "nc_inv c" "nc_set c" "\<lambda>f a. map_option (\<lambda>b. (b, f)) (nc_isSet c f a)" nc_merge nc_filter
  "\<lambda>xs. nc_filter_update (\<lambda>_. xs)" "\<lambda>_. [0]" "\<lambda>f a _. nc_get_index c f a" for c
proof (unfold_locales, goal_cases)
  case (1 f a)
  show ?case by (simp only: nc_set_def single_hash)
next
  case (2 f a)
  show ?case by (simp only: nc_isSet_def single_hash)
next
  case (3 f g)
  then have "nat (nc_filter_size f) = length (nc_filter f)" by (auto simp: nc_inv_def size_ok_def)
  then show ?case by (simp add: nc_merge_def bind_Some_map)
next
  case (7 f a)
  then show ?case using field_index [of "nc_filter f" "nc_filter_size f" "nc_filter_size_bits f" "g_DATA_BLOCK_BITS c + nc_offset f" a]
    by (auto simp: in_array_def nc_inv_def nc_get_index_def size_ok_def)
qed (auto simp: nc_inv_def nc_get_index_def size_ok_def fun_eq_iff)

definition blk_inv :: "RubyConfig \<Rightarrow> BlockBloomFilter \<Rightarrow> bool" where
  "blk_inv c f \<longleftrightarrow> size_ok (blk_filter f) (blk_filter_size f) (blk_filter_size_bits f) \<and> 0 < g_DATA_BLOCK_BITS c \<and>
     g_DATA_BLOCK_BITS c \<le> blk_filter_size_bits f"

lemma xor_index:
  assumes "unat (x :: 64 word) < 2 ^ n" "unat y < 2 ^ n" "n \<le> 30"
  shows "0 \<le> to_int32 (x XOR y) \<and> to_int32 (x XOR y) < 2 ^ n"
proof -
  have "take_bit n x = x" "take_bit n y = y" using assms by (simp_all add: word_unat_eq_iff unsigned_take_bit_eq take_bit_nat_eq_self)
  then have "take_bit n (x XOR y) = x XOR y" by simp
  then have u: "unat (x XOR y) < 2 ^ n" by (metis unsigned_take_bit_eq take_bit_nat_less_exp)
  also have "(2 :: nat) ^ n \<le> 2 ^ 30" using assms(3) by (intro power_increasing) auto
  finally have "to_int32 (x XOR y) = int (unat (x XOR y))" by (intro to_int32_small) simp
  moreover have "int (unat (x XOR y)) < 2 ^ n" using u by (metis of_nat_less_iff of_nat_power of_nat_numeral)
  ultimately show ?thesis by simp
qed

interpretation blk: array_filter "blk_inv c" "blk_set c" "\<lambda>f a. map_option (\<lambda>b. (b, f)) (blk_isSet c f a)"
  "\<lambda>f g. map_option (\<lambda>xs. f\<lparr>blk_filter := xs\<rparr>) (flt_merge (length (blk_filter f)) (blk_filter g) (blk_filter f))" blk_filter
  "\<lambda>xs. blk_filter_update (\<lambda>_. xs)" "\<lambda>_. [0]" "\<lambda>f a _. blk_get_index c f a" for c
proof (unfold_locales, goal_cases)
  case (1 f a)
  show ?case by (simp only: blk_set_def single_hash)
next
  case (2 f a)
  show ?case by (simp only: blk_isSet_def single_hash)
next
  case (7 f a)
  let ?b = "g_DATA_BLOCK_BITS c" and ?n = "blk_filter_size_bits f"
  have ok: "size_ok (blk_filter f) (blk_filter_size f) ?n" "0 < ?b" "?b \<le> ?n" using 7 by (auto simp: blk_inv_def)
  note bits = size_ok_bits [OF ok(1)]
  obtain x where x: "bitSelect a ?b (2 * ?b - 1) = Some x" using ok(2) by (simp add: bitSelect_eq)
  obtain y where y: "bitSelect a (2 * ?b + 5) (2 * ?b + 5 + ?n - 1) = Some y" using ok(2,3) by (simp add: bitSelect_eq)
  have "2 * ?b - 1 = ?b + ?b - 1" by simp
  then have "unat x < 2 ^ nat ?b" using bitSelect_bound [of ?b ?b a x] ok(2) x by (simp only: order_less_imp_le)
  also have "(2 :: nat) ^ nat ?b \<le> 2 ^ nat ?n" using ok(3) by (intro power_increasing) auto
  finally have "unat x < 2 ^ nat ?n" .
  moreover have "unat y < 2 ^ nat ?n" using bitSelect_bound [OF _ _ y] ok(2,3) by simp
  ultimately have "0 \<le> to_int32 (x XOR y) \<and> to_int32 (x XOR y) < 2 ^ nat ?n" using bits by (intro xor_index) auto
  moreover from this have lt: "to_int32 (x XOR y) < blk_filter_size f" using bits by linarith
  then have "blk_get_index c f a = Some (to_int32 (x XOR y))" unfolding blk_get_index_def Let_def x y by simp
  ultimately show ?case using lt ok(1) unfolding in_array_def size_ok_def by simp
qed (auto simp: blk_inv_def blk_get_index_def size_ok_def fun_eq_iff)

text \<open>The bulk filter compares through its temporary array, which is all zero between calls.\<close>

definition bulk_inv :: "RubyConfig \<Rightarrow> BulkBloomFilter \<Rightarrow> bool" where
  "bulk_inv c f \<longleftrightarrow> size_ok (bulk_filter f) (bulk_filter_size f) (bulk_filter_size_bits f) \<and> 0 \<le> g_DATA_BLOCK_BITS c \<and>
     bulk_sector_bits f = bulk_filter_size_bits f - 1 \<and> 0 < bulk_sector_bits f \<and>
     bulk_temp_filter f = replicate (length (bulk_filter f)) 0"

lemma bulk_positions_ok:
  assumes "bulk_inv c f"
  obtains v0 v1 where "bulk_positions c f a = Some (v0, v1)" "0 \<le> v1" "v1 < bulk_filter_size f div 2" "bulk_filter_size f div 2 \<le> v0"
    "v0 < bulk_filter_size f"
proof -
  let ?n = "bulk_sector_bits f" and ?b = "g_DATA_BLOCK_BITS c" and ?s = "bulk_filter_size f"
  have inv: "size_ok (bulk_filter f) ?s (?n + 1)" "0 \<le> ?b" "0 < ?n" using assms by (auto simp: bulk_inv_def)
  note bits = size_ok_bits [OF inv(1)]
  have "2 * 2 ^ nat ?n = (2 :: int) ^ nat (?n + 1)" using inv(3) by (simp add: nat_add_distrib)
  then have half: "2 ^ nat ?n \<le> ?s div 2" using bits by linarith
  let ?f = "\<lambda>lo. int (unat a div 2 ^ nat lo mod 2 ^ nat ?n)"
  have c: "bits_int a lo (lo + ?n - 1) = Some (?f lo)" if "0 \<le> lo" for lo
    unfolding bits_int_def using that inv(3) bits by (intro bitSelect_field) auto
  have r: "0 \<le> ?f lo" "?f lo < ?s div 2" for lo using field_range [of "unat a" "2 ^ nat lo" "nat ?n"] half by linarith+
  have c0: "bits_int a ?b (?b + ?n - 1) = Some (?f ?b)" and c1: "bits_int a (?b + ?n) (?b + ?n + ?n - 1) = Some (?f (?b + ?n))"
    using c [of ?b] c [of "?b + ?n"] inv(2,3) by auto
  have "?b + 2 * ?n - 1 = ?b + ?n + ?n - 1" "cdiv ?s 2 = ?s div 2" using bits by simp_all
  then have "bulk_positions c f a = Some (?f ?b + ?s div 2, ?f (?b + ?n))" unfolding bulk_positions_def Let_def by (simp only: c0 c1 Option.bind.simps)
  moreover have "?f ?b + ?s div 2 < ?s" using r(2) [of ?b] by linarith
  ultimately show thesis using r [of ?b] r [of "?b + ?n"] that by simp
qed

lemma bulk_half_eq:
  assumes "distinct is" "\<forall>i \<in> set is. i < length flt \<and> i < length temp"
  shows "\<exists>t. bulk_half is flt temp found = Some (found \<or> (\<exists>i \<in> set is. temp ! i \<noteq> 0 \<and> flt ! i \<noteq> 0), t) \<and> length t = length temp \<and>
    (\<forall>j < length temp. t ! j = (if j \<in> set is then if temp ! j \<noteq> 0 \<and> flt ! j \<noteq> 0 then 1 else 0 else temp ! j))"
  using assms
proof (induction "is" arbitrary: temp found)
  case (Cons i "is")
  let ?t = "if temp ! i \<noteq> 0 \<and> flt ! i \<noteq> 0 then 1 else 0 :: int" and ?temp = "temp[i := if temp ! i \<noteq> 0 \<and> flt ! i \<noteq> 0 then 1 else 0]"
  have i: "i < length flt" "i < length temp" "i \<notin> set is" using Cons.prems by auto
  have "bulk_half (i # is) flt temp found = bulk_half is flt ?temp (found \<or> ?t \<noteq> 0)" using i by (auto simp: Let_def)
  moreover obtain t where t: "bulk_half is flt ?temp (found \<or> ?t \<noteq> 0) = Some ((found \<or> ?t \<noteq> 0) \<or> (\<exists>i \<in> set is. ?temp ! i \<noteq> 0 \<and> flt ! i \<noteq> 0), t)"
      "length t = length temp" "\<forall>j < length temp. t ! j = (if j \<in> set is then if ?temp ! j \<noteq> 0 \<and> flt ! j \<noteq> 0 then 1 else 0 else ?temp ! j)"
    using Cons.IH [of ?temp "found \<or> ?t \<noteq> 0"] Cons.prems by auto
  moreover have "(\<exists>k \<in> set is. ?temp ! k \<noteq> 0 \<and> flt ! k \<noteq> 0) \<longleftrightarrow> (\<exists>k \<in> set is. temp ! k \<noteq> 0 \<and> flt ! k \<noteq> 0)"
    using i(3) by (intro bex_cong refl) (metis nth_list_update_neq)
  moreover have "t ! j = (if j \<in> set (i # is) then if temp ! j \<noteq> 0 \<and> flt ! j \<noteq> 0 then 1 else 0 else temp ! j)" if "j < length temp" for j
    using t(3) that i by (cases "j = i") auto
  ultimately show ?case by auto
qed simp

lemma bulk_isSet_eq:
  assumes inv: "bulk_inv c f" and pos: "bulk_positions c f a = Some (v0, v1)"
  shows "bulk_isSet c f a = Some (bulk_filter f ! nat v1 \<noteq> 0 \<and> bulk_filter f ! nat v0 \<noteq> 0, f)"
proof -
  let ?fl = "bulk_filter f" and ?n = "length (bulk_filter f)" and ?s = "bulk_filter_size f"
  let ?h = "nat (?s div 2)" and ?z = "replicate (length (bulk_filter f)) (0 :: int)"
  have sz: "int ?n = ?s" "0 < ?s" using inv size_ok_bits [of ?fl ?s "bulk_filter_size_bits f"] by (auto simp: bulk_inv_def size_ok_def)
  obtain w0 w1 where "bulk_positions c f a = Some (w0, w1)" "0 \<le> w1" "w1 < ?s div 2" "?s div 2 \<le> w0" "w0 < ?s" using bulk_positions_ok [OF inv] .
  then have v: "0 \<le> v1" "v1 < ?s div 2" "?s div 2 \<le> v0" "v0 < ?s" using pos by auto
  define p0 p1 where p: "p0 = nat v0" "p1 = nat v1"
  have q: "p1 < ?h" "?h \<le> p0" "p0 < ?n" "?h \<le> ?n" "nat ?s = ?n" using v sz unfolding p by linarith+
  have put: "bulk_put2 xs v0 v1 x = Some (xs[p0 := x, p1 := x])" if "length xs = ?n" for xs :: "int list" and x
    using that v sz unfolding bulk_put2_def p by simp
  let ?t = "?z[p0 := 1, p1 := 1]"
  have t: "?t ! j \<noteq> 0 \<longleftrightarrow> j = p0 \<or> j = p1" if "j < ?n" for j using that q by (auto simp: nth_list_update)
  obtain t1 where t1: "bulk_half [0..<?h] ?fl ?t False = Some (\<exists>i \<in> {0..<?h}. ?t ! i \<noteq> 0 \<and> ?fl ! i \<noteq> 0, t1)" "length t1 = ?n"
      "\<forall>j < ?n. t1 ! j = (if j < ?h then if ?t ! j \<noteq> 0 \<and> ?fl ! j \<noteq> 0 then 1 else 0 else ?t ! j)"
    using bulk_half_eq [of "[0..<?h]" ?fl ?t False] q by auto
  have f1: "(\<exists>i \<in> {0..<?h}. ?t ! i \<noteq> 0 \<and> ?fl ! i \<noteq> 0) \<longleftrightarrow> ?fl ! p1 \<noteq> 0"
  proof -
    have "?t ! i \<noteq> 0 \<longleftrightarrow> i = p1" if "i \<in> {0..<?h}" for i using t [of i] that q by auto
    then show ?thesis using q by auto
  qed
  have z1: "t1[p0 := 0, p1 := 0] = ?z"
  proof (rule nth_equalityI)
    show "t1[p0 := 0, p1 := 0] ! j = ?z ! j" if "j < length (t1[p0 := 0, p1 := 0])" for j
      using that t1(2,3) t [of j] q by (auto simp: nth_list_update)
  qed (simp add: t1(2))
  obtain t2 where t2: "bulk_half [?h..<?n] ?fl t1 False = Some (\<exists>i \<in> {?h..<?n}. t1 ! i \<noteq> 0 \<and> ?fl ! i \<noteq> 0, t2)" "length t2 = ?n"
      "\<forall>j < ?n. t2 ! j = (if ?h \<le> j then if t1 ! j \<noteq> 0 \<and> ?fl ! j \<noteq> 0 then 1 else 0 else t1 ! j)"
    using bulk_half_eq [of "[?h..<?n]" ?fl t1 False] t1(2) q by auto
  have f2: "(\<exists>i \<in> {?h..<?n}. t1 ! i \<noteq> 0 \<and> ?fl ! i \<noteq> 0) \<longleftrightarrow> ?fl ! p0 \<noteq> 0"
  proof -
    have "t1 ! i \<noteq> 0 \<longleftrightarrow> i = p0" if "i \<in> {?h..<?n}" for i using t1(3) t [of i] that q by auto
    then show ?thesis using q by auto
  qed
  have z2: "t2[p0 := 0, p1 := 0] = ?z"
  proof (rule nth_equalityI)
    show "t2[p0 := 0, p1 := 0] ! j = ?z ! j" if "j < length (t2[p0 := 0, p1 := 0])" for j
      using that t2(2,3) t1(3) t [of j] q by (auto simp: nth_list_update)
  qed (simp add: t2(2))
  have tmp: "bulk_temp_filter f = ?z" using inv by (simp add: bulk_inv_def)
  then have same: "f\<lparr>bulk_temp_filter := ?z\<rparr> = f" by (cases f) simp
  have half: "cdiv ?s 2 = ?s div 2" using sz by simp
  show ?thesis
    unfolding bulk_isSet_def pos Let_def half tmp
    by (simp add: put t1(1,2) t2(1,2) f1 f2 z1 z2 same q(5) p [symmetric])
qed

lemma hashes_set_Nil: "hashes_set idx [] = Some"
  by (rule ext) simp

definition bulk_index :: "RubyConfig \<Rightarrow> BulkBloomFilter \<Rightarrow> Address \<Rightarrow> nat \<Rightarrow> int option" where
  "bulk_index c f a i = map_option (\<lambda>(v0, v1). if i = 0 then v0 else v1) (bulk_positions c f a)"

interpretation bulk: array_filter "bulk_inv c" "bulk_set c" "bulk_isSet c"
  "\<lambda>f g. map_option (\<lambda>xs. f\<lparr>bulk_filter := xs\<rparr>) (flt_merge (length (bulk_filter f)) (bulk_filter g) (bulk_filter f))" bulk_filter
  "\<lambda>xs. bulk_filter_update (\<lambda>_. xs)" "\<lambda>_. [0, 1]" "bulk_index c" for c
proof (unfold_locales, goal_cases)
  case (1 f a)
  show ?case
  proof (cases "bulk_positions c f a")
    case (Some v)
    then show ?thesis
      by (cases v; cases "flt_put (bulk_filter f) (fst v) 1") (simp_all add: bulk_set_def bulk_put2_def bulk_index_def bind_Some_map hashes_set_Nil option.map_ident)
  qed (simp add: bulk_set_def bulk_index_def)
next
  case (2 f a)
  obtain v0 v1 where v: "bulk_positions c f a = Some (v0, v1)" "0 \<le> v1" "v1 < bulk_filter_size f div 2" "bulk_filter_size f div 2 \<le> v0"
      "v0 < bulk_filter_size f" using bulk_positions_ok [OF 2] .
  have n: "int (length (bulk_filter f)) = bulk_filter_size f" using 2 by (simp add: bulk_inv_def size_ok_def)
  then have "v1 < int (length (bulk_filter f))" "0 \<le> v0" using v by linarith+
  then show ?case using bulk_isSet_eq [OF 2 v(1)] v n by (auto simp: bulk_index_def)
next
  case (7 f a)
  obtain v0 v1 where v: "bulk_positions c f a = Some (v0, v1)" "0 \<le> v1" "v1 < bulk_filter_size f div 2" "bulk_filter_size f div 2 \<le> v0"
      "v0 < bulk_filter_size f" using bulk_positions_ok [OF 7] .
  have n: "int (length (bulk_filter f)) = bulk_filter_size f" using 7 by (simp add: bulk_inv_def size_ok_def)
  then have "v1 < int (length (bulk_filter f))" "0 \<le> v0" using v by linarith+
  then show ?case using v n by (simp add: in_array_def bulk_index_def)
qed (auto simp: bulk_inv_def bulk_index_def bulk_positions_def size_ok_def fun_eq_iff)

definition mg_inv :: "RubyConfig \<Rightarrow> MultiGrainBloomFilter \<Rightarrow> bool" where
  "mg_inv c f \<longleftrightarrow> size_ok (mg_filter f) (mg_filter_size f) (mg_filter_size_bits f) \<and>
     size_ok (mg_page_filter f) (mg_page_filter_size f) (mg_page_filter_size_bits f) \<and> 0 < mg_filter_size_bits f \<and>
     0 < mg_page_filter_size_bits f \<and> 0 \<le> g_DATA_BLOCK_BITS c \<and> mg_filter_size f \<le> mg_page_filter_size f"

lemma mg_index:
  assumes "mg_inv c f"
  obtains i j where "mg_get_block_index c f a = Some i" "mg_get_page_index c f a = Some j" "0 \<le> i" "i < mg_filter_size f"
    "j < mg_page_filter_size f" "i < int (length (mg_filter f))" "i < int (length (mg_page_filter f))"
proof -
  have inv: "size_ok (mg_filter f) (mg_filter_size f) (mg_filter_size_bits f)" "size_ok (mg_page_filter f) (mg_page_filter_size f) (mg_page_filter_size_bits f)"
      "0 < mg_filter_size_bits f" "0 < mg_page_filter_size_bits f" "0 \<le> g_DATA_BLOCK_BITS c" "mg_filter_size f \<le> mg_page_filter_size f"
    using assms by (auto simp: mg_inv_def)
  obtain i where i: "mg_get_block_index c f a = Some i" "0 \<le> i" "i < mg_filter_size f"
    using field_index [OF inv(1,3,5)] unfolding mg_get_block_index_def by blast
  have "0 \<le> g_DATA_BLOCK_BITS c + mg_filter_size_bits f - 1" using inv(3,5) by linarith
  from field_index [OF inv(2,4) this, of a] obtain j where j: "mg_get_page_index c f a = Some j" "j < mg_page_filter_size f"
    unfolding mg_get_page_index_def by blast
  show thesis using that [OF i(1) j(1) i(2,3) j(2)] i(3) inv(1,2,6) by (simp add: size_ok_def)
qed

lemma mg_isSet_eq:
  assumes "mg_inv c f" "mg_get_block_index c f a = Some i"
  shows "mg_isSet c f a = Some (mg_filter f ! nat i \<noteq> 0 \<and> mg_page_filter f ! nat i \<noteq> 0)"
proof -
  obtain i' j where "mg_get_block_index c f a = Some i'" and j: "mg_get_page_index c f a = Some j" "0 \<le> i'" "i' < mg_filter_size f"
    "j < mg_page_filter_size f" "i' < int (length (mg_filter f))" "i' < int (length (mg_page_filter f))" using mg_index [OF assms(1), of a] .
  then have "i' = i" using assms(2) by simp
  then show ?thesis using assms(2) j by (simp add: mg_isSet_def)
qed

interpretation mg: bloom_filter "mg_inv c" "mg_set c" "\<lambda>f a. map_option (\<lambda>b. (b, f)) (mg_isSet c f a)" for c
proof (unfold_locales, goal_cases)
  case (1 f a)
  obtain i where "mg_get_block_index c f a = Some i" using mg_index [OF 1, of a] .
  then show ?case using mg_isSet_eq [OF 1] 1 by simp
next
  case (2 f a)
  obtain i j where ij: "mg_get_block_index c f a = Some i" "mg_get_page_index c f a = Some j" "0 \<le> i" "i < mg_filter_size f"
    "j < mg_page_filter_size f" "i < int (length (mg_filter f))" "i < int (length (mg_page_filter f))" using mg_index [OF 2, of a] .
  define g where "g = f\<lparr>mg_filter := (mg_filter f)[nat i := 1], mg_page_filter := (mg_page_filter f)[nat i := 1]\<rparr>"
  have "mg_set c f a = Some g" using ij by (simp add: mg_set_def g_def)
  moreover have g: "mg_inv c g" using 2 by (simp add: g_def mg_inv_def size_ok_def)
  have blk: "mg_get_block_index c g x = mg_get_block_index c f x" for x by (simp add: mg_get_block_index_def g_def)
  have "finds (\<lambda>f a. map_option (\<lambda>b. (b, f)) (mg_isSet c f a)) g a"
    using mg_isSet_eq [OF g, of a i] ij by (simp add: blk finds_def) (simp add: g_def nat_less_iff)
  moreover have "finds (\<lambda>f a. map_option (\<lambda>b. (b, f)) (mg_isSet c f a)) g x" if "finds (\<lambda>f a. map_option (\<lambda>b. (b, f)) (mg_isSet c f a)) f x" for x
  proof -
    obtain k where k: "mg_get_block_index c f x = Some k" using mg_index [OF 2, of x] .
    have "(mg_filter g ! nat k \<noteq> 0 \<and> mg_page_filter g ! nat k \<noteq> 0) \<or> \<not> (mg_filter f ! nat k \<noteq> 0 \<and> mg_page_filter f ! nat k \<noteq> 0)"
      using ij(3,6,7) by (cases "nat i = nat k") (auto simp: g_def nat_less_iff)
    then show ?thesis using that mg_isSet_eq [OF 2 k] mg_isSet_eq [OF g, of x k] k by (auto simp: blk finds_def)
  qed
  ultimately show ?case using g by blast
qed

text \<open>The filters with several hash functions.\<close>

definition par_ok :: "int list \<Rightarrow> int \<Rightarrow> int \<Rightarrow> int \<Rightarrow> int \<Rightarrow> bool" where
  "par_ok xs sz bits hashes par \<longleftrightarrow> size_ok xs sz bits \<and> 0 < hashes \<and> par = sz div hashes \<and> 0 < par"

lemma par_index:
  assumes "par_ok xs sz bits hashes par" "i < nat hashes"
  shows "0 \<le> (if p then y mod par + int i * par else y mod sz)" "(if p then y mod par + int i * par else y mod sz) < int (length xs)"
proof -
  have ok: "int (length xs) = sz" "0 < sz" "0 < par" "par = sz div hashes" "0 < hashes"
    using assms(1) size_ok_bits [of xs sz bits] by (auto simp: par_ok_def size_ok_def)
  show "0 \<le> (if p then y mod par + int i * par else y mod sz)" using ok by simp
  have "int i + 1 \<le> hashes" using assms(2) by linarith
  then have "(int i + 1) * par \<le> hashes * par" using ok(3) by (intro mult_right_mono) auto
  also have "\<dots> \<le> sz" unfolding ok(4) using ok(5) by (metis mult.commute times_div_less_eq_dividend div_mult_mod_eq le_add_same_cancel1 pos_mod_sign)
  finally have "y mod par + int i * par < sz" using pos_mod_bound [OF ok(3), of y] by (simp add: distrib_right)
  then show "(if p then y mod par + int i * par else y mod sz) < int (length xs)" using ok(1,2) by simp
qed

definition mbs_inv :: "RubyConfig \<Rightarrow> MultiBitSelBloomFilter \<Rightarrow> bool" where
  "mbs_inv c f \<longleftrightarrow> block_bits_ok c \<and>
     par_ok (mbs_filter f) (mbs_filter_size f) (mbs_filter_size_bits f) (mbs_num_hashes f) (mbs_par_filter_size f)"

interpretation mbs: array_filter "mbs_inv c" "mbs_set c" "\<lambda>f a. map_option (\<lambda>b. (b, f)) (mbs_isSet c f a)" mbs_merge mbs_filter
  "\<lambda>xs. mbs_filter_update (\<lambda>_. xs)" "\<lambda>f. [0..<nat (mbs_num_hashes f)]" "mbs_get_index c" for c
proof (unfold_locales, goal_cases)
  case (1 f a)
  show ?case by (simp add: mbs_set_def bind_Some_map)
next
  case (2 f a)
  show ?case by (simp add: mbs_isSet_def)
next
  case (3 f g)
  then have "nat (mbs_filter_size f) = length (mbs_filter f)" by (auto simp: mbs_inv_def par_ok_def size_ok_def)
  then show ?case by (simp add: mbs_merge_def bind_Some_map)
next
  case (7 f a)
  then have "0 \<le> g_DATA_BLOCK_BITS c" "g_DATA_BLOCK_BITS c < 63" by (auto simp: mbs_inv_def block_bits_ok_def)
  then obtain x where "getLineAddress c a = Some x" by (rule getLineAddress_Some)
  then show ?case using 7 par_index [of "mbs_filter f"] unfolding in_array_def mbs_get_index_def mbs_inv_def Let_def by (auto split del: if_split)
qed (auto simp: mbs_inv_def par_ok_def size_ok_def fun_eq_iff mbs_get_index_def cong: if_cong)

definition h3_inv :: "RubyConfig \<Rightarrow> H3BloomFilter \<Rightarrow> bool" where
  "h3_inv c f \<longleftrightarrow> block_bits_ok c \<and> h3_num_hashes f \<le> 16 \<and>
     par_ok (h3_filter f) (h3_filter_size f) (h3_filter_size_bits f) (h3_num_hashes f) (h3_par_filter_size f)"

lemma hash_H3_Some: "i < 16 \<Longrightarrow> \<exists>y. hash_H3 v i = Some y"
proof -
  assume i: "i < 16"
  have "\<forall>r \<in> set rows. length r = 16 \<Longrightarrow> \<exists>y. hash_H3_loop rows v i r0 = Some y" for rows v r0
    using i by (induction rows arbitrary: v r0) (auto simp: vec_at_def)
  moreover have "\<forall>r \<in> set H3. length r = 16" using H3_shape(2) by (auto simp: h3_row_ok_def)
  ultimately show ?thesis unfolding hash_H3_def by blast
qed

interpretation h3: array_filter "h3_inv c" "h3_set c" "\<lambda>f a. map_option (\<lambda>b. (b, f)) (h3_isSet c f a)" h3_merge h3_filter
  "\<lambda>xs. h3_filter_update (\<lambda>_. xs)" "\<lambda>f. [0..<nat (h3_num_hashes f)]" "h3_get_index c" for c
proof (unfold_locales, goal_cases)
  case (1 f a)
  show ?case by (simp add: h3_set_def bind_Some_map)
next
  case (2 f a)
  show ?case by (simp add: h3_isSet_def)
next
  case (3 f g)
  then have "nat (h3_filter_size f) = length (h3_filter f)" by (auto simp: h3_inv_def par_ok_def size_ok_def)
  then show ?case by (simp add: h3_merge_def bind_Some_map)
next
  case (7 f a)
  then have "0 \<le> g_DATA_BLOCK_BITS c" "g_DATA_BLOCK_BITS c < 63" by (auto simp: h3_inv_def block_bits_ok_def)
  then obtain x where x: "getLineAddress c a = Some x" by (rule getLineAddress_Some)
  show ?case unfolding in_array_def
  proof
    fix i assume "i \<in> set [0..<nat (h3_num_hashes f)]"
    then have i: "i < nat (h3_num_hashes f)" "i < 16" using 7 by (auto simp: h3_inv_def)
    then obtain y where "hash_H3 x i = Some y" using hash_H3_Some by blast
    then show "\<exists>k. h3_get_index c f a i = Some k \<and> 0 \<le> k \<and> k < int (length (h3_filter f))"
      using 7 x i par_index [of "h3_filter f"] unfolding h3_get_index_def h3_inv_def by (auto split del: if_split)
  qed
qed (auto simp: h3_inv_def par_ok_def size_ok_def fun_eq_iff h3_get_index_def cong: if_cong)

subsection \<open>The generic filter keeps the contract\<close>

text \<open>The parameters under which an implementation answers: sizes of a C \<^verbatim>\<open>int\<close> and bit fields that exist.\<close>

fun gb_params_ok :: "RubyConfig \<Rightarrow> GenericBloomFilter \<Rightarrow> bool" where
  "gb_params_ok c (LSB_Counting f) = False"
| "gb_params_ok c (NonCounting f) = (2 \<le> nc_filter_size f \<and> nc_filter_size f < 2 ^ 31 \<and> 0 \<le> g_DATA_BLOCK_BITS c + nc_offset f)"
| "gb_params_ok c (Bulk f) = (4 \<le> bulk_filter_size f \<and> bulk_filter_size f < 2 ^ 31 \<and> 0 \<le> g_DATA_BLOCK_BITS c)"
| "gb_params_ok c (Block f) = (blk_filter_size f < 2 ^ 31 \<and> 0 < g_DATA_BLOCK_BITS c \<and> g_DATA_BLOCK_BITS c \<le> blk_filter_size_bits f)"
| "gb_params_ok c (Multigrain f) = (2 \<le> mg_filter_size f \<and> mg_filter_size f \<le> mg_page_filter_size f \<and> mg_page_filter_size f < 2 ^ 31 \<and>
     0 \<le> g_DATA_BLOCK_BITS c)"
| "gb_params_ok c (MultiBitSel f) = (mbs_filter_size f < 2 ^ 31 \<and> 0 < mbs_num_hashes f \<and> block_bits_ok c)"
| "gb_params_ok c (H3Bloom f) = (h3_filter_size f < 2 ^ 31 \<and> 0 < h3_num_hashes f \<and> h3_num_hashes f \<le> 16 \<and> block_bits_ok c)"

fun gb_inv :: "RubyConfig \<Rightarrow> GenericBloomFilter \<Rightarrow> bool" where
  "gb_inv c (LSB_Counting f) = False"
| "gb_inv c (NonCounting f) = nc_inv c f"
| "gb_inv c (Bulk f) = bulk_inv c f"
| "gb_inv c (Block f) = blk_inv c f"
| "gb_inv c (Multigrain f) = mg_inv c f"
| "gb_inv c (MultiBitSel f) = mbs_inv c f"
| "gb_inv c (H3Bloom f) = h3_inv c f"

lemma log_int_ge1: "\<lbrakk>log_int n = Some k; 2 \<le> n\<rbrakk> \<Longrightarrow> 0 < k"
  using log_int_Some [of n k] by (cases "k = 0") auto

lemma log_int_ge2: "\<lbrakk>log_int n = Some k; 4 \<le> n\<rbrakk> \<Longrightarrow> 0 < k - 1"
  using log_int_Some [of n k] by (cases "k = 0"; cases "k = 1") auto

lemma gb_new_inv:
  assumes "gb_new config = Some f" "gb_params_ok c f"
  shows "gb_inv c f"
proof (cases f)
  case (NonCounting g)
  then show ?thesis using assms log_int_ge1 [of "nc_filter_size g"]
    by (auto simp: gb_new_def nc_new_def nc_clear_def nc_inv_def size_ok_def Let_def bind_eq_Some_conv dest: log_int_Some(1) split: if_splits prod.splits)
next
  case (Bulk g)
  then show ?thesis using assms log_int_ge2 [of "bulk_filter_size g"]
    by (auto simp: gb_new_def bulk_new_def bulk_clear_def bulk_inv_def size_ok_def Let_def bind_eq_Some_conv dest: log_int_Some(1) split: if_splits prod.splits)
next
  case (Block g)
  then show ?thesis using assms
    by (auto simp: gb_new_def blk_new_def blk_clear_def blk_inv_def size_ok_def Let_def bind_eq_Some_conv dest: log_int_Some(1) split: if_splits prod.splits)
next
  case (Multigrain g)
  then show ?thesis using assms log_int_ge1 [of "mg_filter_size g"] log_int_ge1 [of "mg_page_filter_size g"]
    by (auto simp: gb_new_def mg_new_def mg_clear_def mg_inv_def size_ok_def Let_def bind_eq_Some_conv dest: log_int_Some(1) split: if_splits prod.splits)
next
  case (MultiBitSel g)
  then show ?thesis using assms
    by (auto simp: gb_new_def mbs_new_def mbs_clear_def mbs_inv_def par_ok_def size_ok_def Let_def bind_eq_Some_conv dest: log_int_Some(1) split: if_splits prod.splits)
next
  case (H3Bloom g)
  then show ?thesis using assms
    by (auto simp: gb_new_def h3_new_def h3_clear_def h3_inv_def par_ok_def size_ok_def Let_def bind_eq_Some_conv dest: log_int_Some(1) split: if_splits prod.splits)
qed (use assms in simp)

text \<open>The generic operations inherit the contract of the implementation they forward to.\<close>

lemma forward_filter:
  assumes "bloom_filter i s t" and f: "i f"
    and set_eq: "\<And>f a. gb_set c (K f) a = map_option K (s f a)" and test_eq: "\<And>f a. gb_isSet c (K f) a = map_option (map_prod id K) (t f a)"
    and inv_eq: "\<And>f. gb_inv c (K f) = i f"
  shows "\<exists>b g. gb_isSet c (K f) a = Some (b, g) \<and> gb_inv c g \<and> (\<forall>x. finds (gb_isSet c) g x = finds (gb_isSet c) (K f) x)"
    and "\<exists>g. gb_set c (K f) a = Some g \<and> gb_inv c g \<and> finds (gb_isSet c) g a \<and> (\<forall>x. finds (gb_isSet c) (K f) x \<longrightarrow> finds (gb_isSet c) g x)"
proof -
  have fi: "finds (gb_isSet c) (K g) x = finds t g x" for g x by (cases "t g x") (auto simp: finds_def test_eq)
  show "\<exists>b g. gb_isSet c (K f) a = Some (b, g) \<and> gb_inv c g \<and> (\<forall>x. finds (gb_isSet c) g x = finds (gb_isSet c) (K f) x)"
    using bloom_filter.test_ok [OF assms(1) f, of a] by (fastforce simp: test_eq inv_eq fi)
  show "\<exists>g. gb_set c (K f) a = Some g \<and> gb_inv c g \<and> finds (gb_isSet c) g a \<and> (\<forall>x. finds (gb_isSet c) (K f) x \<longrightarrow> finds (gb_isSet c) g x)"
    using bloom_filter.ins_ok [OF assms(1) f, of a] by (fastforce simp: set_eq inv_eq fi)
qed

lemma map_prod_pair: "map_option (map_prod id K) (map_option (\<lambda>b. (b, f)) m) = map_option (\<lambda>b. (b, K f)) m"
  by (cases m) simp_all

lemma map_prod_case: "map_option (\<lambda>(b, f). (b, K f)) m = map_option (map_prod id K) m"
  by (cases m) (auto simp: map_prod_def)

interpretation gb: bloom_filter "gb_inv c" "gb_set c" "gb_isSet c" for c
proof (unfold_locales, goal_cases)
  case (1 f a)
  show ?case
  proof (cases f)
    case (NonCounting g)
    then show ?thesis using 1 forward_filter(1) [OF nc.bloom_filter_axioms, of c g c NonCounting] by (simp add: map_prod_pair)
  next
    case (Bulk g)
    then show ?thesis using 1 forward_filter(1) [OF bulk.bloom_filter_axioms, of c g c Bulk] by (simp add: map_prod_case)
  next
    case (Block g)
    then show ?thesis using 1 forward_filter(1) [OF blk.bloom_filter_axioms, of c g c Block] by (simp add: map_prod_pair)
  next
    case (Multigrain g)
    then show ?thesis using 1 forward_filter(1) [OF mg.bloom_filter_axioms, of c g c Multigrain] by (simp add: map_prod_pair)
  next
    case (MultiBitSel g)
    then show ?thesis using 1 forward_filter(1) [OF mbs.bloom_filter_axioms, of c g c MultiBitSel] by (simp add: map_prod_pair)
  next
    case (H3Bloom g)
    then show ?thesis using 1 forward_filter(1) [OF h3.bloom_filter_axioms, of c g c H3Bloom] by (simp add: map_prod_pair)
  qed (use 1 in simp)
next
  case (2 f a)
  show ?case
  proof (cases f)
    case (NonCounting g)
    then show ?thesis using 2 forward_filter(2) [OF nc.bloom_filter_axioms, of c g c NonCounting] by (simp add: map_prod_pair)
  next
    case (Bulk g)
    then show ?thesis using 2 forward_filter(2) [OF bulk.bloom_filter_axioms, of c g c Bulk] by (simp add: map_prod_case)
  next
    case (Block g)
    then show ?thesis using 2 forward_filter(2) [OF blk.bloom_filter_axioms, of c g c Block] by (simp add: map_prod_pair)
  next
    case (Multigrain g)
    then show ?thesis using 2 forward_filter(2) [OF mg.bloom_filter_axioms, of c g c Multigrain] by (simp add: map_prod_pair)
  next
    case (MultiBitSel g)
    then show ?thesis using 2 forward_filter(2) [OF mbs.bloom_filter_axioms, of c g c MultiBitSel] by (simp add: map_prod_pair)
  next
    case (H3Bloom g)
    then show ?thesis using 2 forward_filter(2) [OF h3.bloom_filter_axioms, of c g c H3Bloom] by (simp add: map_prod_pair)
  qed (use 2 in simp)
qed

context array_filter
begin

lemma merge_runs:
  assumes "inv f"
  shows "\<exists>f1 f2 h. bloom_run ins test ops1 f = Some f1 \<and> bloom_run ins test ops2 f = Some f2 \<and> merge f1 f2 = Some h \<and> inv h \<and>
    (\<forall>a. Set_addr a \<in> set ops1 \<or> Set_addr a \<in> set ops2 \<longrightarrow> finds test h a)"
proof -
  obtain f1 where f1: "bloom_run ins test ops1 f = Some f1" "inv f1" "\<forall>a. Set_addr a \<in> set ops1 \<longrightarrow> finds test f1 a" using run_finds [OF assms] by blast
  obtain f2 where f2: "bloom_run ins test ops2 f = Some f2" "inv f2" "\<forall>a. Set_addr a \<in> set ops2 \<longrightarrow> finds test f2 a" using run_finds [OF assms] by blast
  have "same_shape f1 f2" using run_shape [OF assms f1(1)] run_shape [OF assms f2(1)] by (simp add: same_shape_def)
  from merge_ok [OF f1(2) f2(2) this] show ?thesis using f1 f2 by blast
qed

end

lemma forward_run:
  assumes "\<And>f a. gb_set c (K f) a = map_option K (s f a)" and "\<And>f a. gb_isSet c (K f) a = map_option (map_prod id K) (t f a)"
  shows "bloom_run (gb_set c) (gb_isSet c) ops (K f) = map_option K (bloom_run s t ops f)"
proof (induction ops arbitrary: f)
  case (Cons op ops)
  then show ?case
  proof (cases op)
    case (Set_addr a)
    then show ?thesis using Cons by (cases "s f a") (simp_all add: assms)
  next
    case (Test_addr a)
    then show ?thesis using Cons by (cases "t f a") (auto simp: assms)
  qed
qed simp

lemma forward_merge:
  assumes run: "\<exists>f1 f2 h. bloom_run s t ops1 f = Some f1 \<and> bloom_run s t ops2 f = Some f2 \<and> m f1 f2 = Some h \<and> i h \<and>
      (\<forall>a. Set_addr a \<in> set ops1 \<or> Set_addr a \<in> set ops2 \<longrightarrow> finds t h a)"
    and eqs: "\<And>f a. gb_set c (K f) a = map_option K (s f a)" "\<And>f a. gb_isSet c (K f) a = map_option (map_prod id K) (t f a)"
      "\<And>f g. gb_merge (K f) (K g) = map_option K (m f g)" "\<And>f. gb_inv c (K f) = i f"
  shows "\<exists>f1 f2 h. bloom_run (gb_set c) (gb_isSet c) ops1 (K f) = Some f1 \<and> bloom_run (gb_set c) (gb_isSet c) ops2 (K f) = Some f2 \<and>
      gb_merge f1 f2 = Some h \<and> (\<forall>a. Set_addr a \<in> set ops1 \<or> Set_addr a \<in> set ops2 \<longrightarrow> (\<exists>g. gb_isSet c h a = Some (True, g)))"
proof -
  obtain f1 f2 h where r: "bloom_run s t ops1 f = Some f1" "bloom_run s t ops2 f = Some f2" "m f1 f2 = Some h" "i h"
      "\<forall>a. Set_addr a \<in> set ops1 \<or> Set_addr a \<in> set ops2 \<longrightarrow> finds t h a" using run by blast
  have fi: "finds (gb_isSet c) (K g) x = finds t g x" for g x by (cases "t g x") (auto simp: finds_def eqs)
  have "gb_inv c (K h)" using r(4) eqs(4) by simp
  then have "\<exists>g. gb_isSet c (K h) a = Some (True, g)" if "Set_addr a \<in> set ops1 \<or> Set_addr a \<in> set ops2" for a
    using gb.finds_result [of c "K h" a] r(5) that fi by simp
  then show ?thesis using r(1-3) by (simp add: forward_run [OF eqs(1,2)] eqs(3))
qed

fun merges :: "GenericBloomFilter \<Rightarrow> bool" where
  "merges (NonCounting f) = True"
| "merges (MultiBitSel f) = True"
| "merges (H3Bloom f) = True"
| "merges f = False"

text \<open>
  C38. A Bloom filter has no false negatives.  For a filter that the generic constructor made with usable parameters, every run of
  insertions and queries succeeds, and afterwards \<^verbatim>\<open>isSet\<close> answers true for every address that was inserted.  This holds for
  all six implementations that insert: bit selection, block, bulk, multigrain, multiple bit selection and H3.
\<close>

theorem bloom_filter_no_false_negative:
  assumes "gb_new config = Some f" "gb_params_ok c f"
  shows "\<exists>f'. bloom_run (gb_set c) (gb_isSet c) ops f = Some f' \<and> (\<forall>a. Set_addr a \<in> set ops \<longrightarrow> (\<exists>g. gb_isSet c f' a = Some (True, g)))"
  using gb.run_finds [OF gb_new_inv [OF assms], of ops] gb.finds_result by blast

definition bloom_config :: RubyConfig where
  "bloom_config = example_config\<lparr>g_DATA_BLOCK_BITS := 6\<rparr>"

theorem bloom_filter_no_false_negative_witness:
  "\<exists>f f' g. gb_new ''Bulk_1024'' = Some f \<and>
     bloom_run (gb_set bloom_config) (gb_isSet bloom_config) [Set_addr 0x1240, Test_addr 0x40, Set_addr 0x80] f = Some f' \<and>
     gb_isSet bloom_config f' 0x1240 = Some (True, g)"
proof -
  let ?ops = "[Set_addr 0x1240, Test_addr 0x40, Set_addr 0x80]"
  have "log_int 1024 = Some 10" using log_int_power [of 10] by simp
  then obtain f where f: "gb_new ''Bulk_1024'' = Some f" "gb_params_ok bloom_config f"
    by (auto simp: gb_new_def bulk_new_def bulk_clear_def string_split_def Let_def bloom_config_def)
  then show ?thesis using bloom_filter_no_false_negative [OF f, of ?ops] by fastforce
qed

text \<open>
  Merging.  For the implementations that merge (bit selection, multiple bit selection and H3), two filters made from the same
  configuration string can be merged after any runs, and the result answers true for every address inserted into either.
\<close>

theorem bloom_filter_merge:
  assumes "gb_new config = Some f" "gb_params_ok c f" "merges f"
  shows "\<exists>f1 f2 h. bloom_run (gb_set c) (gb_isSet c) ops1 f = Some f1 \<and> bloom_run (gb_set c) (gb_isSet c) ops2 f = Some f2 \<and>
    gb_merge f1 f2 = Some h \<and> (\<forall>a. Set_addr a \<in> set ops1 \<or> Set_addr a \<in> set ops2 \<longrightarrow> (\<exists>g. gb_isSet c h a = Some (True, g)))"
proof (cases f)
  case (NonCounting g)
  then show ?thesis using gb_new_inv [OF assms(1,2)] forward_merge [OF nc.merge_runs, of c g c NonCounting] by (simp add: map_prod_pair)
next
  case (MultiBitSel g)
  then show ?thesis using gb_new_inv [OF assms(1,2)] forward_merge [OF mbs.merge_runs, of c g c MultiBitSel] by (simp add: map_prod_pair)
next
  case (H3Bloom g)
  then show ?thesis using gb_new_inv [OF assms(1,2)] forward_merge [OF h3.merge_runs, of c g c H3Bloom] by (simp add: map_prod_pair)
qed (use assms in simp_all)

theorem bloom_filter_merge_witness:
  "\<exists>f f1 f2 h g. gb_new ''H3_1024_4_Parallel'' = Some f \<and>
     bloom_run (gb_set bloom_config) (gb_isSet bloom_config) [Set_addr 0x1240] f = Some f1 \<and>
     bloom_run (gb_set bloom_config) (gb_isSet bloom_config) [Set_addr 0x80] f = Some f2 \<and>
     gb_merge f1 f2 = Some h \<and> gb_isSet bloom_config h 0x80 = Some (True, g)"
proof -
  have "log_int 1024 = Some 10" "log_int 256 = Some 8" using log_int_power [of 10] log_int_power [of 8] by simp_all
  then obtain f where f: "gb_new ''H3_1024_4_Parallel'' = Some f" "gb_params_ok bloom_config f" "merges f"
    by (auto simp: gb_new_def h3_new_def h3_clear_def string_split_def Let_def bloom_config_def block_bits_ok_def)
  then show ?thesis using bloom_filter_merge [OF f, of "[Set_addr 0x1240]" "[Set_addr 0x80]"] by fastforce
qed

lemma multigrain_count_run:
  "case gb_new ''Multigrain_4_4'' of None \<Rightarrow> False | Some f \<Rightarrow>
    (case gb_set bloom_config f 0x40 of None \<Rightarrow> False | Some g \<Rightarrow> map_option fst (gb_isSet bloom_config g 0x40) = Some True \<and>
      (case gb_getTotalCount g of None \<Rightarrow> False | Some (n, h) \<Rightarrow> n = 1 \<and> map_option fst (gb_isSet bloom_config h 0x40) = Some False))"
  by code_simp

lemma block_merge_run:
  "case gb_new ''Block_64'' of None \<Rightarrow> False | Some f \<Rightarrow>
    (case gb_set bloom_config f 0x40 of None \<Rightarrow> False | Some g \<Rightarrow> map_option fst (gb_isSet bloom_config g 0x40) = Some True \<and>
      (case gb_merge f g of None \<Rightarrow> False | Some h \<Rightarrow> map_option fst (gb_isSet bloom_config h 0x40) = Some False))"
  by code_simp

lemma split_head_no: "c \<notin> set (fst (split_head str c))"
  by (induction str c rule: split_head.induct) (auto split: prod.splits)

text \<open>
  Three defects.  Asking a multigrain filter for its total count clears its page filter, after which an inserted address is
  no longer found.  Merging block filters, as bulk and multigrain ones, does nothing, so the addresses of the other filter are
  lost.  And no configuration string selects the counting filter, since the string is split at the first underscore.
\<close>

theorem bloom_filter_defects:
  "(\<exists>f g h. gb_new ''Multigrain_4_4'' = Some f \<and> gb_set bloom_config f 0x40 = Some g \<and>
      map_option fst (gb_isSet bloom_config g 0x40) = Some True \<and>
      gb_getTotalCount g = Some (1, h) \<and> map_option fst (gb_isSet bloom_config h 0x40) = Some False) \<and>
   (\<exists>f g h. gb_new ''Block_64'' = Some f \<and> gb_set bloom_config f 0x40 = Some g \<and> gb_merge f g = Some h \<and>
      map_option fst (gb_isSet bloom_config g 0x40) = Some True \<and> map_option fst (gb_isSet bloom_config h 0x40) = Some False) \<and>
   (\<forall>config. case gb_new config of Some (LSB_Counting f) \<Rightarrow> False | _ \<Rightarrow> True)"
proof (intro conjI)
  show "\<exists>f g h. gb_new ''Multigrain_4_4'' = Some f \<and> gb_set bloom_config f 0x40 = Some g \<and>
      map_option fst (gb_isSet bloom_config g 0x40) = Some True \<and>
      gb_getTotalCount g = Some (1, h) \<and> map_option fst (gb_isSet bloom_config h 0x40) = Some False"
    using multigrain_count_run by (auto split: option.splits)
  show "\<exists>f g h. gb_new ''Block_64'' = Some f \<and> gb_set bloom_config f 0x40 = Some g \<and> gb_merge f g = Some h \<and>
      map_option fst (gb_isSet bloom_config g 0x40) = Some True \<and> map_option fst (gb_isSet bloom_config h 0x40) = Some False"
    using block_merge_run by (auto split: option.splits)
  have "fst (string_split config (CHR ''_'')) \<noteq> ''LSB_Counting''" for config
    using split_head_no [of "CHR ''_''" config] by (auto simp: string_split_def)
  then show "\<forall>config. case gb_new config of Some (LSB_Counting f) \<Rightarrow> False | _ \<Rightarrow> True"
    by (auto simp: gb_new_def Let_def split: option.splits prod.splits GenericBloomFilter.splits if_splits) (metis fst_conv)+
qed

end
