(* ===== verification/PtxReg_Model.thy ===== *)
theory PtxReg_Model
  imports GpuMemory_Model GpuCore_Model
begin

text \<open>
  Registers and operands of a PTX thread: the union \<^verbatim>\<open>ptx_reg_t\<close> and the class \<^verbatim>\<open>ptx_thread_info\<close> of
  \<^verbatim>\<open>cuda-sim/ptx_sim.h\<close>, the symbols and operands of \<^verbatim>\<open>cuda-sim/ptx_ir.h\<close>, and the functions of
  \<^verbatim>\<open>cuda-sim/instructions.cc\<close> that read and write operands.

  The union is a word of 128 bits and each of its members a view of the low bits, as on the little-endian hosts of the
  simulator.  The constructor leaves the upper half of the union indeterminate; it is zero here, and only 128-bit operands, which
  are always written as a whole, look at it.  A \<^verbatim>\<open>float\<close> or \<^verbatim>\<open>double\<close> is its bit pattern.  Signed arithmetic that
  overflows wraps around.  The memories that the threads of a block share extend the record of the thread; the record of
  registers of the active function is the head of \<open>th_regs\<close>.  Trace output is left out.
\<close>

unbundle bit_operations_syntax

subsection \<open>The register union\<close>

type_synonym ptx_reg_t = "128 word"

definition put_low :: "nat \<Rightarrow> ptx_reg_t \<Rightarrow> ptx_reg_t \<Rightarrow> ptx_reg_t" where
  "put_low n r v = take_bit n v OR (r AND NOT (mask n))"

abbreviation (input) reg_u8 :: "ptx_reg_t \<Rightarrow> 8 word" where "reg_u8 r \<equiv> ucast r"
abbreviation (input) reg_u16 :: "ptx_reg_t \<Rightarrow> 16 word" where "reg_u16 r \<equiv> ucast r"
abbreviation (input) reg_u32 :: "ptx_reg_t \<Rightarrow> 32 word" where "reg_u32 r \<equiv> ucast r"
abbreviation (input) reg_u64 :: "ptx_reg_t \<Rightarrow> 64 word" where "reg_u64 r \<equiv> ucast r"
abbreviation (input) reg_pred :: "ptx_reg_t \<Rightarrow> 4 word" where "reg_pred r \<equiv> ucast r"
abbreviation (input) reg_s8 :: "ptx_reg_t \<Rightarrow> int" where "reg_s8 r \<equiv> sint (reg_u8 r)"
abbreviation (input) reg_s16 :: "ptx_reg_t \<Rightarrow> int" where "reg_s16 r \<equiv> sint (reg_u16 r)"
abbreviation (input) reg_s32 :: "ptx_reg_t \<Rightarrow> int" where "reg_s32 r \<equiv> sint (reg_u32 r)"
abbreviation (input) reg_s64 :: "ptx_reg_t \<Rightarrow> int" where "reg_s64 r \<equiv> sint (reg_u64 r)"

definition set_u8 :: "ptx_reg_t \<Rightarrow> 8 word \<Rightarrow> ptx_reg_t" where "set_u8 r v = put_low 8 r (ucast v)"
definition set_u16 :: "ptx_reg_t \<Rightarrow> 16 word \<Rightarrow> ptx_reg_t" where "set_u16 r v = put_low 16 r (ucast v)"
definition set_u32 :: "ptx_reg_t \<Rightarrow> 32 word \<Rightarrow> ptx_reg_t" where "set_u32 r v = put_low 32 r (ucast v)"
definition set_u64 :: "ptx_reg_t \<Rightarrow> 64 word \<Rightarrow> ptx_reg_t" where "set_u64 r v = put_low 64 r (ucast v)"
definition set_pred :: "ptx_reg_t \<Rightarrow> 4 word \<Rightarrow> ptx_reg_t" where "set_pred r v = put_low 4 r (ucast v)"

text \<open>The constructor \<^verbatim>\<open>ptx_reg_t(unsigned)\<close>, through which every conversion from an integer goes.\<close>

definition reg_of_unsigned :: "32 word \<Rightarrow> ptx_reg_t" where
  "reg_of_unsigned x = set_u32 0 x"

definition mask_and :: "ptx_reg_t \<Rightarrow> 32 word \<Rightarrow> 32 word \<Rightarrow> ptx_reg_t" where
  "mask_and r ms ls = set_u64 r (reg_u64 r AND word_cat ms ls)"

definition mask_or :: "ptx_reg_t \<Rightarrow> 32 word \<Rightarrow> 32 word \<Rightarrow> ptx_reg_t" where
  "mask_or r ms ls = set_u64 r (reg_u64 r OR word_cat ms ls)"

definition get_bit :: "ptx_reg_t \<Rightarrow> nat \<Rightarrow> bool" where
  "get_bit r b = (if b < 32 then bit (reg_u32 r) b else bit (ucast (drop_bit 32 r) :: 32 word) (b - 32))"

text \<open>Memory transfers of \<open>n\<close> bytes from and to the start of the union.\<close>

fun reg_bytes :: "nat \<Rightarrow> ptx_reg_t \<Rightarrow> byte list" where
  "reg_bytes 0 r = []"
| "reg_bytes (Suc n) r = ucast r # reg_bytes n (drop_bit 8 r)"

fun bytes_reg :: "byte list \<Rightarrow> ptx_reg_t" where
  "bytes_reg [] = 0"
| "bytes_reg (b # bs) = ucast b OR push_bit 8 (bytes_reg bs)"

definition put_bytes :: "ptx_reg_t \<Rightarrow> byte list \<Rightarrow> ptx_reg_t" where
  "put_bytes r bs = put_low (8 * length bs) r (bytes_reg bs)"

subsection \<open>Types\<close>

datatype ptx_type =
  S8_TYPE | S16_TYPE | S32_TYPE | S64_TYPE | U8_TYPE | U16_TYPE | U32_TYPE | U64_TYPE
| F16_TYPE | F32_TYPE | F64_TYPE | FF64_TYPE | B8_TYPE | B16_TYPE | B32_TYPE | B64_TYPE
| BB64_TYPE | BB128_TYPE | PRED_TYPE | TEXREF_TYPE | SAMPLERREF_TYPE | SURFREF_TYPE

text \<open>The number of the format, the width in bits and the kind (signed 1, unsigned 0, floating point -1).\<close>

fun type_decode :: "ptx_type \<Rightarrow> nat \<times> nat \<times> int" where
  "type_decode S8_TYPE = (0, 8, 1)"
| "type_decode S16_TYPE = (1, 16, 1)"
| "type_decode S32_TYPE = (2, 32, 1)"
| "type_decode S64_TYPE = (3, 64, 1)"
| "type_decode U8_TYPE = (4, 8, 0)"
| "type_decode U16_TYPE = (5, 16, 0)"
| "type_decode U32_TYPE = (6, 32, 0)"
| "type_decode U64_TYPE = (7, 64, 0)"
| "type_decode F16_TYPE = (8, 16, - 1)"
| "type_decode F32_TYPE = (9, 32, - 1)"
| "type_decode F64_TYPE = (10, 64, - 1)"
| "type_decode FF64_TYPE = (10, 64, - 1)"
| "type_decode PRED_TYPE = (11, 1, 2)"
| "type_decode B8_TYPE = (12, 8, 0)"
| "type_decode B16_TYPE = (13, 16, 0)"
| "type_decode B32_TYPE = (14, 32, 0)"
| "type_decode B64_TYPE = (15, 64, 0)"
| "type_decode BB64_TYPE = (15, 64, 0)"
| "type_decode BB128_TYPE = (16, 128, 0)"
| "type_decode TEXREF_TYPE = (16, 32, 3)"
| "type_decode SAMPLERREF_TYPE = (16, 32, 3)"
| "type_decode SURFREF_TYPE = (16, 32, 3)"

abbreviation type_size :: "ptx_type \<Rightarrow> nat" where "type_size t \<equiv> fst (snd (type_decode t))"

record memory_space_t =
  m_type :: memory_space_kind
  m_bank :: nat

text \<open>The conversion from the enumeration, which selects bank 0; a comparison with a constant converts it first.\<close>

definition space_of :: "memory_space_kind \<Rightarrow> memory_space_t" where
  "space_of k = \<lparr>m_type = k, m_bank = 0\<rparr>"

record type_info_key =
  m_space_spec :: memory_space_t
  m_scalar_type_spec :: ptx_type
  m_is_function :: bool

definition key_is_reg :: "type_info_key \<Rightarrow> bool" where
  "key_is_reg k = (m_space_spec k = space_of reg_space)"

definition key_is_param_kernel :: "type_info_key \<Rightarrow> bool" where
  "key_is_param_kernel k = (m_space_spec k = space_of param_space_kernel)"

definition key_is_param_local :: "type_info_key \<Rightarrow> bool" where
  "key_is_param_local k = (m_space_spec k = space_of param_space_local)"

definition key_is_global :: "type_info_key \<Rightarrow> bool" where
  "key_is_global k = (m_space_spec k = space_of global_space)"

definition key_is_local :: "type_info_key \<Rightarrow> bool" where
  "key_is_local k = (m_space_spec k = space_of local_space)"

definition key_is_shared :: "type_info_key \<Rightarrow> bool" where
  "key_is_shared k = (m_space_spec k = space_of shared_space)"

definition key_is_const :: "type_info_key \<Rightarrow> bool" where
  "key_is_const k = (m_type (m_space_spec k) = const_space)"

definition key_is_tex :: "type_info_key \<Rightarrow> bool" where
  "key_is_tex k = (m_space_spec k = space_of tex_space)"

subsection \<open>Symbols\<close>

text \<open>A pointer to a symbol is the symbol: \<open>sym_uid\<close> makes the records of different symbols different.\<close>

record symbol =
  sym_uid :: nat
  sym_name :: string
  sym_type :: "type_info_key option"
  sym_size :: nat
  sym_address :: addr_t
  sym_address_valid :: bool
  sym_is_label :: bool
  sym_is_shared :: bool
  sym_is_const :: bool
  sym_is_global :: bool
  sym_is_local :: bool
  sym_is_param_local :: bool
  sym_is_tex :: bool
  sym_is_func_addr :: bool

definition symbol_new :: "nat \<Rightarrow> string \<Rightarrow> type_info_key option \<Rightarrow> nat \<Rightarrow> symbol" where
  "symbol_new uid name type sz =
     \<lparr>sym_uid = uid, sym_name = name, sym_type = type, sym_size = sz, sym_address = 0, sym_address_valid = False,
      sym_is_label = False,
      sym_is_shared = (case type of None \<Rightarrow> False | Some k \<Rightarrow> key_is_shared k),
      sym_is_const = (case type of None \<Rightarrow> False | Some k \<Rightarrow> key_is_const k),
      sym_is_global = (case type of None \<Rightarrow> False | Some k \<Rightarrow> key_is_global k),
      sym_is_local = (case type of None \<Rightarrow> False | Some k \<Rightarrow> key_is_local k),
      sym_is_param_local = (case type of None \<Rightarrow> False | Some k \<Rightarrow> key_is_param_local k),
      sym_is_tex = (case type of None \<Rightarrow> False | Some k \<Rightarrow> key_is_tex k),
      sym_is_func_addr = (case type of None \<Rightarrow> False | Some k \<Rightarrow> m_is_function k)\<rparr>"

definition sym_get_address :: "symbol \<Rightarrow> addr_t option" where
  "sym_get_address y = do {
     (if sym_is_label y then Some () else do { k \<leftarrow> sym_type y; assert_that (\<not> key_is_reg k) });
     assert_that (sym_address_valid y);
     Some (sym_address y)
   }"

definition set_address :: "symbol \<Rightarrow> addr_t \<Rightarrow> symbol" where
  "set_address y a = y\<lparr>sym_address_valid := True, sym_address := a\<rparr>"

definition set_label_address :: "symbol \<Rightarrow> addr_t \<Rightarrow> symbol" where
  "set_label_address y a = y\<lparr>sym_address_valid := True, sym_address := a, sym_is_label := True\<rparr>"

subsection \<open>Operands\<close>

datatype operand_type =
  reg_t | vector_t | builtin_t | address_t | memory_t | float_op_t | double_op_t | int_t
| unsigned_t | symbolic_t | label_t | v_reg_t | v_float_op_t | v_double_op_t | v_int_t | v_unsigned_t

text \<open>The member of the union \<^verbatim>\<open>m_value\<close> that was written last; reading a pointer that is not there aborts.\<close>

datatype operand_value =
  V_none | V_int "32 word" | V_unsigned "32 word" | V_float "32 word" | V_double "64 word"
| V_symbolic symbol | V_vector "symbol option list"

record operand_info =
  op_valid :: bool
  op_vector :: bool
  op_type :: operand_type
  op_immediate_address :: bool
  op_addr_space :: memory_space_kind
  op_lohi :: int
  op_double_type :: int
  op_neg :: bool
  op_const_mem_offset :: addr_t
  op_value :: operand_value
  op_addr_offset :: "32 word"
  op_neg_pred :: bool
  op_is_return_var :: bool

definition operand_new :: "operand_type \<Rightarrow> operand_value \<Rightarrow> operand_info" where
  "operand_new t v =
     \<lparr>op_valid = True, op_vector = False, op_type = t, op_immediate_address = False, op_addr_space = undefined_space,
      op_lohi = 0, op_double_type = 0, op_neg = False, op_const_mem_offset = 0, op_value = v, op_addr_offset = 0,
      op_neg_pred = False, op_is_return_var = False\<rparr>"

definition operand_symbol :: "symbol \<Rightarrow> operand_info" where
  "operand_symbol y = operand_new
     (if sym_is_label y then label_t
      else if sym_is_shared y \<or> sym_is_const y \<or> sym_is_global y \<or> sym_is_local y \<or> sym_is_param_local y
              \<or> sym_is_tex y \<or> sym_is_func_addr y then symbolic_t
      else reg_t) (V_symbolic y)"

definition operand_pair :: "symbol \<Rightarrow> symbol \<Rightarrow> operand_info" where
  "operand_pair y1 y2 = operand_new memory_t (V_vector [Some y1, Some y2, None, None])"

definition operand_builtin :: "32 word \<Rightarrow> 32 word \<Rightarrow> operand_info" where
  "operand_builtin builtin_id dim_mod = (operand_new builtin_t (V_int builtin_id))\<lparr>op_addr_offset := dim_mod\<rparr>"

definition operand_address :: "symbol \<Rightarrow> 32 word \<Rightarrow> operand_info" where
  "operand_address y offset = (operand_new address_t (V_symbolic y))\<lparr>op_addr_offset := offset\<rparr>"

definition operand_unsigned :: "32 word \<Rightarrow> operand_info" where
  "operand_unsigned x = (operand_new unsigned_t (V_unsigned x))\<lparr>op_addr_offset := x, op_immediate_address := True\<rparr>"

definition operand_int :: "32 word \<Rightarrow> operand_info" where
  "operand_int x = operand_new int_t (V_int x)"

definition operand_float :: "32 word \<Rightarrow> operand_info" where
  "operand_float x = operand_new float_op_t (V_float x)"

definition operand_double :: "64 word \<Rightarrow> operand_info" where
  "operand_double x = operand_new double_op_t (V_double x)"

definition operand_vector :: "symbol option \<Rightarrow> symbol option \<Rightarrow> symbol option \<Rightarrow> symbol option \<Rightarrow> operand_info" where
  "operand_vector y1 y2 y3 y4 = (operand_new vector_t (V_vector [y1, y2, y3, y4]))\<lparr>op_vector := True\<rparr>"

definition make_memory_operand :: "operand_info \<Rightarrow> operand_info" where
  "make_memory_operand p = p\<lparr>op_type := memory_t\<rparr>"

fun op_symbol :: "operand_info \<Rightarrow> symbol option" where
  "op_symbol p = (case op_value p of V_symbolic y \<Rightarrow> Some y | _ \<Rightarrow> None)"

definition get_vect_nelem :: "operand_info \<Rightarrow> nat option" where
  "get_vect_nelem p = do {
     assert_that (op_vector p);
     (case op_value p of V_vector ys \<Rightarrow> Some (length (takeWhile (\<lambda>y. y \<noteq> None) (take 4 ys))) | _ \<Rightarrow> None)
   }"

definition vec_symbol :: "operand_info \<Rightarrow> nat \<Rightarrow> symbol option" where
  "vec_symbol p idx = do {
     assert_that (idx < 4);
     (case op_value p of V_vector ys \<Rightarrow> Option.bind (vec_at ys idx) id | _ \<Rightarrow> None)
   }"

definition op_is_reg :: "operand_info \<Rightarrow> bool option" where
  "op_is_reg p =
     (if op_type p = reg_t then Some True
      else if op_type p \<noteq> symbolic_t then Some False
      else do { y \<leftarrow> op_symbol p; k \<leftarrow> sym_type y; Some (key_is_reg k) })"

definition op_is_param_local :: "operand_info \<Rightarrow> bool option" where
  "op_is_param_local p =
     (if op_type p \<noteq> symbolic_t then Some False
      else do { y \<leftarrow> op_symbol p; k \<leftarrow> sym_type y; Some (key_is_param_local k) })"

definition op_is_literal :: "operand_info \<Rightarrow> bool" where
  "op_is_literal p = (op_type p \<in> {int_t, float_op_t, double_op_t, unsigned_t})"

definition op_is_shared :: "operand_info \<Rightarrow> bool option" where
  "op_is_shared p =
     (if op_type p \<notin> {symbolic_t, address_t, memory_t} then Some False
      else do { y \<leftarrow> op_symbol p; Some (sym_is_shared y) })"

text \<open>\<^verbatim>\<open>is_memory_operand2\<close>: a memory operand of PTXPlus.\<close>

definition op_is_memory_operand2 :: "operand_info \<Rightarrow> bool" where
  "op_is_memory_operand2 p = (op_addr_space p \<noteq> undefined_space)"

definition get_literal_value :: "operand_info \<Rightarrow> ptx_reg_t option" where
  "get_literal_value p =
     (case (op_type p, op_value p) of
        (int_t, V_int x) \<Rightarrow> Some (set_u32 0 x)
      | (float_op_t, V_float x) \<Rightarrow> Some (set_u32 0 x)
      | (double_op_t, V_double x) \<Rightarrow> Some (set_u64 0 x)
      | (unsigned_t, V_unsigned x) \<Rightarrow> Some (set_u32 0 x)
      | _ \<Rightarrow> None)"

subsection \<open>Instructions\<close>

text \<open>The options of an instruction that the functional simulation looks at.\<close>

datatype compare_op =
  EQ_OPTION | NE_OPTION | LT_OPTION | LE_OPTION | GT_OPTION | GE_OPTION | LO_OPTION | LS_OPTION | HI_OPTION | HS_OPTION
| EQU_OPTION | NEU_OPTION | LTU_OPTION | LEU_OPTION | GTU_OPTION | GEU_OPTION | NUM_OPTION | NAN_OPTION

datatype rounding_option =
  RN_OPTION | RZ_OPTION | RM_OPTION | RP_OPTION | RNI_OPTION | RZI_OPTION | RMI_OPTION | RPI_OPTION

datatype atomic_op =
  ATOMIC_AND | ATOMIC_OR | ATOMIC_XOR | ATOMIC_CAS | ATOMIC_EXCH | ATOMIC_ADD | ATOMIC_INC | ATOMIC_DEC
| ATOMIC_MIN | ATOMIC_MAX

datatype vector_spec = No_vector | V2_TYPE | V3_TYPE | V4_TYPE

datatype vote_mode_t = vote_any | vote_all | vote_uni | vote_ballot

record ptx_instruction =
  pi_operands :: "operand_info list"
  pi_scalar_type :: "ptx_type list"
  pi_space_spec :: memory_space_t
  pi_vector_spec :: vector_spec
  pi_atomic_spec :: "atomic_op option"
  pi_compare_op :: "compare_op option"
  pi_vote_mode :: vote_mode_t
  pi_rounding_mode :: rounding_option
  pi_saturation_mode :: bool
  pi_wide :: bool
  pi_hi :: bool
  pi_lo :: bool
  pi_abs :: bool
  pi_neg :: bool
  pi_to_option :: bool
  pi_exit :: bool
  pi_pred :: "symbol option"
  pi_neg_pred :: bool
  pi_pred_mod :: int
  pi_has_return :: bool
  pi_inst_size :: addr_t
  pi_active_mask :: "nat \<Rightarrow> bool"
  pi_warp_size :: nat

definition pi_operand :: "ptx_instruction \<Rightarrow> nat \<Rightarrow> operand_info option" where
  "pi_operand pI n = vec_at (pi_operands pI) n"

abbreviation pi_dst :: "ptx_instruction \<Rightarrow> operand_info option" where "pi_dst pI \<equiv> pi_operand pI 0"
abbreviation pi_src1 :: "ptx_instruction \<Rightarrow> operand_info option" where "pi_src1 pI \<equiv> pi_operand pI 1"
abbreviation pi_src2 :: "ptx_instruction \<Rightarrow> operand_info option" where "pi_src2 pI \<equiv> pi_operand pI 2"
abbreviation pi_src3 :: "ptx_instruction \<Rightarrow> operand_info option" where "pi_src3 pI \<equiv> pi_operand pI 3"

definition get_type :: "ptx_instruction \<Rightarrow> ptx_type option" where
  "get_type pI = (case pi_scalar_type pI of [] \<Rightarrow> None | t # _ \<Rightarrow> Some t)"

definition get_type2 :: "ptx_instruction \<Rightarrow> ptx_type option" where
  "get_type2 pI = (case pi_scalar_type pI of [_, t] \<Rightarrow> Some t | _ \<Rightarrow> None)"

subsection \<open>Threads\<close>

text \<open>
  A function is what a call needs of it: its start, the size of its frame in local memory, its parameters and the variable
  of its result.
\<close>

record ptx_function =
  fn_uid :: nat
  fn_name :: string
  fn_start_PC :: addr_t
  fn_local_mem_framesize :: addr_t
  fn_args :: "symbol list"
  fn_return_var :: "symbol option"

record stack_entry =
  se_func_info :: "ptx_function option"
  se_PC :: addr_t
  se_RPC :: addr_t
  se_return_var_src :: "symbol option"
  se_return_var_dst :: "symbol option"

record ptx_thread_info =
  th_regs :: "(symbol \<rightharpoonup> ptx_reg_t) list"
  th_last_set_operand_value :: ptx_reg_t
  th_last_effective_address :: addr_t
  th_last_memory_space :: memory_space_t
  th_last_dram_callback :: "ptx_instruction option"
  th_branch_taken :: bool
  th_NPC :: addr_t
  th_PC :: addr_t
  th_RPC :: addr_t
  th_RPC_updated :: bool
  th_last_was_call :: bool
  th_thread_done :: bool
  th_func_info :: "ptx_function option"
  th_callstack :: "stack_entry list"
  th_local_mem_stack_pointer :: addr_t
  th_breakaddrs :: "operand_info list"
  th_hw_sid :: "32 word"
  th_hw_tid :: "32 word"
  th_valid :: bool
  th_ctaid :: dim3
  th_nctaid :: dim3
  th_tid :: dim3
  th_ntid :: dim3
  th_gridid :: addr_t
  th_local_mem :: mem_space

text \<open>What the thread reaches through its pointers: the memories, the clock and the grid of the kernel.\<close>

record xstate = ptx_thread_info +
  xs_global_mem :: mem_space
  xs_tex_mem :: mem_space
  xs_surf_mem :: mem_space
  xs_param_mem :: mem_space
  xs_shared_mem :: mem_space
  xs_cycle :: "64 word"
  xs_grid_dim :: dim3
  xs_ptx_version_2 :: bool

subsection \<open>Special registers\<close>

datatype special_reg =
  CLOCK_REG | HALFCLOCK_ID | CLOCK64_REG | CTAID_REG | ENVREG_REG | GRIDID_REG | LANEID_REG | LANEMASK_EQ_REG
| LANEMASK_LE_REG | LANEMASK_LT_REG | LANEMASK_GE_REG | LANEMASK_GT_REG | NCTAID_REG | NTID_REG | NSMID_REG
| NWARPID_REG | PM_REG | SMID_REG | TID_REG | WARPID_REG | WARPSZ_REG

definition special_regs :: "special_reg list" where
  "special_regs = [CLOCK_REG, HALFCLOCK_ID, CLOCK64_REG, CTAID_REG, ENVREG_REG, GRIDID_REG, LANEID_REG, LANEMASK_EQ_REG,
     LANEMASK_LE_REG, LANEMASK_LT_REG, LANEMASK_GE_REG, LANEMASK_GT_REG, NCTAID_REG, NTID_REG, NSMID_REG,
     NWARPID_REG, PM_REG, SMID_REG, TID_REG, WARPID_REG, WARPSZ_REG]"

definition dim_component :: "dim3 \<Rightarrow> 32 word \<Rightarrow> 32 word option" where
  "dim_component d m =
     (if m = 0 then Some (of_nat (dim_x d)) else if m = 1 then Some (of_nat (dim_y d))
      else if m = 2 then Some (of_nat (dim_z d)) else None)"

text \<open>An index of \<^verbatim>\<open>%envreg\<close> above 9 falls through to \<^verbatim>\<open>%gridid\<close>.\<close>

definition env_register :: "dim3 \<Rightarrow> 32 word \<Rightarrow> 32 word \<Rightarrow> 32 word" where
  "env_register gdim gridid i =
     (if i \<le> 5 then 0
      else if i = 6 then of_nat (dim_x gdim)
      else if i = 7 then of_nat (dim_y gdim)
      else if i = 8 then of_nat (dim_z gdim)
      else if i = 9 then (if dim_z gdim = 1 \<and> dim_y gdim = 1 then 1 else if dim_z gdim = 1 then 2 else 3)
      else gridid)"

definition get_builtin :: "xstate \<Rightarrow> 32 word \<Rightarrow> 32 word \<Rightarrow> 32 word option" where
  "get_builtin s builtin_id dim_mod = do {
     assert_that (th_valid s);
     r \<leftarrow> vec_at special_regs (unat (builtin_id AND 0xFFFF));
     (case r of
        CLOCK_REG \<Rightarrow> Some (ucast (xs_cycle s))
      | HALFCLOCK_ID \<Rightarrow> Some (ucast (xs_cycle s * 2))
      | CTAID_REG \<Rightarrow> dim_component (th_ctaid s) dim_mod
      | ENVREG_REG \<Rightarrow> Some (env_register (xs_grid_dim s) (th_gridid s) (signed_drop_bit 16 builtin_id))
      | GRIDID_REG \<Rightarrow> Some (th_gridid s)
      | NCTAID_REG \<Rightarrow> dim_component (th_nctaid s) dim_mod
      | NTID_REG \<Rightarrow> dim_component (th_ntid s) dim_mod
      | TID_REG \<Rightarrow> dim_component (th_tid s) dim_mod
      | _ \<Rightarrow> None)
   }"

subsection \<open>Registers of a thread\<close>

definition set_reg :: "symbol \<Rightarrow> ptx_reg_t \<Rightarrow> 'a ptx_thread_info_scheme \<Rightarrow> 'a ptx_thread_info_scheme option" where
  "set_reg reg v s =
     (if sym_name reg = ''_'' then Some s
      else case th_regs s of
        [] \<Rightarrow> None
      | m # ms \<Rightarrow> do {
          assert_that (sym_uid reg > 0);
          Some (s\<lparr>th_regs := m(reg \<mapsto> v) # ms, th_last_set_operand_value := v\<rparr>)
        })"

text \<open>
  Reading a register that was never written makes it zero.  For the name \<^verbatim>\<open>_\<close> the assignment has no effect and the
  iterator that is read afterwards is past the end.
\<close>

definition get_reg :: "symbol \<Rightarrow> 'a ptx_thread_info_scheme \<Rightarrow> (ptx_reg_t \<times> 'a ptx_thread_info_scheme) option" where
  "get_reg reg s =
     (case th_regs s of
        [] \<Rightarrow> None
      | m # ms \<Rightarrow>
          (case m reg of
             Some v \<Rightarrow> Some (v, s)
           | None \<Rightarrow> do {
               k \<leftarrow> sym_type reg;
               assert_that (key_is_reg k);
               assert_that (sym_name reg \<noteq> ''_'');
               s \<leftarrow> set_reg reg 0 s;
               Some (0, s)
             }))"

text \<open>\<^verbatim>\<open>m_regs.back()[sym]\<close>: a missing register is created and is zero.\<close>

definition reg_ref :: "symbol \<Rightarrow> 'a ptx_thread_info_scheme \<Rightarrow> (ptx_reg_t \<times> 'a ptx_thread_info_scheme) option" where
  "reg_ref y s =
     (case th_regs s of
        [] \<Rightarrow> None
      | m # ms \<Rightarrow> (case m y of Some v \<Rightarrow> Some (v, s) | None \<Rightarrow> Some (0, s\<lparr>th_regs := m(y \<mapsto> 0) # ms\<rparr>)))"

definition get_operand_nbits :: "operand_info \<Rightarrow> nat option" where
  "get_operand_nbits p = do {
     r \<leftarrow> op_is_reg p;
     assert_that r;
     y \<leftarrow> op_symbol p;
     k \<leftarrow> sym_type y;
     let t = m_scalar_type_spec k;
     (if t = PRED_TYPE then Some 1
      else if t \<in> {B8_TYPE, S8_TYPE, U8_TYPE} then Some 8
      else if t \<in> {S16_TYPE, U16_TYPE, F16_TYPE, B16_TYPE} then Some 16
      else if t \<in> {S32_TYPE, U32_TYPE, F32_TYPE, B32_TYPE} then Some 32
      else if t \<in> {S64_TYPE, U64_TYPE, F64_TYPE, B64_TYPE} then Some 64
      else None)
   }"

definition sign_extend :: "ptx_reg_t \<Rightarrow> nat \<Rightarrow> operand_info \<Rightarrow> ptx_reg_t option" where
  "sign_extend data src_size dst = do {
     r \<leftarrow> op_is_reg dst;
     (if \<not> r then Some data
      else do {
        dst_size \<leftarrow> get_operand_nbits dst;
        (if src_size \<ge> dst_size then Some data
         else if push_bit (src_size - 1) 1 AND reg_u64 data = 0 then Some data
         else Some (set_u64 data (reg_u64 data OR push_bit src_size (push_bit (dst_size - src_size) 1 - 1))))
      })
   }"

subsection \<open>Floating-point bit patterns\<close>

text \<open>Negation, the test for zero, the test for NaN and the order of IEEE 754 numbers, on bit patterns.\<close>

definition f32_neg :: "32 word \<Rightarrow> 32 word" where "f32_neg x = x XOR 0x80000000"
definition f64_neg :: "64 word \<Rightarrow> 64 word" where "f64_neg x = x XOR 0x8000000000000000"

definition f32_isNaN :: "32 word \<Rightarrow> bool" where "f32_isNaN x = (x AND 0x7FFFFFFF > 0x7F800000)"
definition f64_isNaN :: "64 word \<Rightarrow> bool" where "f64_isNaN x = (x AND 0x7FFFFFFFFFFFFFFF > 0x7FF0000000000000)"

text \<open>The pattern read as sign and magnitude; both zeros are 0.\<close>

definition f32_rank :: "32 word \<Rightarrow> int" where
  "f32_rank x = (if bit x 31 then - uint (x AND 0x7FFFFFFF) else uint (x AND 0x7FFFFFFF))"

definition f64_rank :: "64 word \<Rightarrow> int" where
  "f64_rank x = (if bit x 63 then - uint (x AND 0x7FFFFFFFFFFFFFFF) else uint (x AND 0x7FFFFFFFFFFFFFFF))"

definition f32_lt :: "32 word \<Rightarrow> 32 word \<Rightarrow> bool" where
  "f32_lt x y = (\<not> f32_isNaN x \<and> \<not> f32_isNaN y \<and> f32_rank x < f32_rank y)"

definition f32_eq :: "32 word \<Rightarrow> 32 word \<Rightarrow> bool" where
  "f32_eq x y = (\<not> f32_isNaN x \<and> \<not> f32_isNaN y \<and> f32_rank x = f32_rank y)"

definition f64_lt :: "64 word \<Rightarrow> 64 word \<Rightarrow> bool" where
  "f64_lt x y = (\<not> f64_isNaN x \<and> \<not> f64_isNaN y \<and> f64_rank x < f64_rank y)"

definition f64_eq :: "64 word \<Rightarrow> 64 word \<Rightarrow> bool" where
  "f64_eq x y = (\<not> f64_isNaN x \<and> \<not> f64_isNaN y \<and> f64_rank x = f64_rank y)"

abbreviation F32_ONE :: "32 word" where "F32_ONE \<equiv> 0x3F800000"
abbreviation F64_ONE :: "64 word" where "F64_ONE \<equiv> 0x3FF0000000000000"

subsection \<open>Reading an operand\<close>

definition pick_lohi :: "int \<Rightarrow> ptx_reg_t \<Rightarrow> ptx_reg_t" where
  "pick_lohi lohi r =
     (if lohi = 1 then set_u64 r (reg_u64 r AND 0xFFFF)
      else if lohi = 2 then set_u64 r (drop_bit 16 (reg_u64 r) AND 0xFFFF)
      else r)"

text \<open>The address of a symbol plus the offset of the operand, as an unsigned number.\<close>

definition sym_offset :: "symbol \<Rightarrow> operand_info \<Rightarrow> ptx_reg_t option" where
  "sym_offset y p = do { a \<leftarrow> sym_get_address y; Some (reg_of_unsigned (a + op_addr_offset p)) }"

definition memory_operand_value :: "operand_info \<Rightarrow> xstate \<Rightarrow> (ptx_reg_t \<times> xstate) option" where
  "memory_operand_value p s = do {
     y \<leftarrow> op_symbol p;
     k \<leftarrow> sym_type y;
     (if key_is_reg k then do {
        (v, s) \<leftarrow> get_reg y s;
        Some (set_u64 0 (reg_u64 v + scast (op_addr_offset p)), s)
      }
      else if key_is_param_kernel k \<or> key_is_param_local k then do { r \<leftarrow> sym_offset y p; Some (r, s) }
      else if key_is_global k then do {
        assert_that (op_addr_offset p = 0);
        a \<leftarrow> sym_get_address y;
        Some (reg_of_unsigned a, s)
      }
      else if key_is_local k \<or> key_is_const k then do { r \<leftarrow> sym_offset y p; Some (r, s) }
      else do {
        sh \<leftarrow> op_is_shared p;
        assert_that sh;
        r \<leftarrow> sym_offset y p;
        Some (r, s)
      })
   }"

definition symbol_operand_value :: "operand_info \<Rightarrow> xstate \<Rightarrow> (ptx_reg_t \<times> xstate) option" where
  "symbol_operand_value p s = do {
     y \<leftarrow> op_symbol p;
     sh \<leftarrow> op_is_shared p;
     assert_that (op_type p = label_t \<or> sh \<or> sym_is_const y \<or> sym_is_global y \<or> sym_is_local y);
     a \<leftarrow> sym_get_address y;
     Some (reg_of_unsigned a, s)
   }"

definition scalar_operand_value :: "operand_info \<Rightarrow> xstate \<Rightarrow> (ptx_reg_t \<times> xstate) option" where
  "scalar_operand_value p s = do {
     r \<leftarrow> op_is_reg p;
     (if r then do { y \<leftarrow> op_symbol p; get_reg y s }
      else if op_type p = builtin_t then
        (case op_value p of
           V_int b \<Rightarrow> do { v \<leftarrow> get_builtin s b (op_addr_offset p); Some (reg_of_unsigned v, s) }
         | _ \<Rightarrow> None)
      else if op_immediate_address p then Some (reg_of_unsigned (op_addr_offset p), s)
      else if op_type p = memory_t then memory_operand_value p s
      else if op_is_literal p then do { v \<leftarrow> get_literal_value p; Some (v, s) }
      else symbol_operand_value p s)
   }"

text \<open>The value of an operand before a PTXPlus memory access; assignments from 64-bit values to a register truncate to 32 bits.\<close>

definition operand_base :: "operand_info \<Rightarrow> ptx_type \<Rightarrow> xstate \<Rightarrow> (ptx_reg_t \<times> xstate) option" where
  "operand_base p opType s =
     (if op_double_type p = 0 then
        (if opType \<notin> {BB128_TYPE, BB64_TYPE, FF64_TYPE} \<or> op_addr_space p \<noteq> undefined_space then do {
           (r, s) \<leftarrow> scalar_operand_value p s;
           Some (pick_lohi (op_lohi p) r, s)
         }
         else if opType = BB128_TYPE then do {
           y0 \<leftarrow> vec_symbol p 0; (r0, s) \<leftarrow> get_reg y0 s;
           y1 \<leftarrow> vec_symbol p 1; (r1, s) \<leftarrow> get_reg y1 s;
           y2 \<leftarrow> vec_symbol p 2; (r2, s) \<leftarrow> get_reg y2 s;
           y3 \<leftarrow> vec_symbol p 3; (r3, s) \<leftarrow> get_reg y3 s;
           Some (word_cat (word_cat (reg_u32 r3) (reg_u32 r2) :: 64 word) (word_cat (reg_u32 r1) (reg_u32 r0) :: 64 word), s)
         }
         else do {
           y0 \<leftarrow> vec_symbol p 0; (r0, s) \<leftarrow> get_reg y0 s;
           y1 \<leftarrow> vec_symbol p 1; (r1, s) \<leftarrow> get_reg y1 s;
           Some (set_u64 0 (word_cat (reg_u32 r1) (reg_u32 r0)), s)
         })
      else if op_double_type p = 1 then do {
        y0 \<leftarrow> vec_symbol p 0; (r0, s) \<leftarrow> get_reg y0 s;
        y1 \<leftarrow> vec_symbol p 1; (r1, s) \<leftarrow> get_reg y1 s;
        let firstHalf = reg_of_unsigned (ucast r0);
        let secondHalf = pick_lohi (op_lohi p) (reg_of_unsigned (ucast r1));
        Some (reg_of_unsigned (ucast (reg_u64 firstHalf + reg_u64 secondHalf)), s)
      }
      else if op_double_type p = 2 then do {
        y0 \<leftarrow> vec_symbol p 0; (r0, s) \<leftarrow> get_reg y0 s;
        y1 \<leftarrow> vec_symbol p 1; (r1, s) \<leftarrow> get_reg y1 s;
        let firstHalf = reg_of_unsigned (ucast r0);
        let secondHalf = pick_lohi (op_lohi p) (reg_of_unsigned (ucast r1));
        s \<leftarrow> set_reg y0 (reg_of_unsigned (ucast (reg_u64 firstHalf + reg_u64 secondHalf))) s;
        Some (firstHalf, s)
      }
      else if op_double_type p = 3 then do {
        y \<leftarrow> op_symbol p; (r, s) \<leftarrow> get_reg y s;
        let firstHalf = reg_of_unsigned (ucast r);
        s \<leftarrow> set_reg y (reg_of_unsigned (ucast (reg_u64 firstHalf + scast (op_addr_offset p)))) s;
        Some (firstHalf, s)
      }
      else Some (0, s))"

text \<open>The memory that a PTXPlus operand names; constants live in global memory.\<close>

definition operand_memory :: "memory_space_kind \<Rightarrow> xstate \<Rightarrow> mem_space option" where
  "operand_memory k s =
     (if k = global_space \<or> k = const_space then Some (xs_global_mem s)
      else if k = shared_space then Some (xs_shared_mem s)
      else if k = local_space then Some (th_local_mem s)
      else None)"

definition operand_load :: "operand_info \<Rightarrow> operand_info \<Rightarrow> ptx_type \<Rightarrow> mem_space \<Rightarrow> ptx_reg_t \<Rightarrow> xstate
    \<Rightarrow> (ptx_reg_t \<times> xstate) option" where
  "operand_load p dstInfo opType m r s = do {
     let addr = (if op_addr_space p = const_space then reg_u32 r + op_const_mem_offset p else reg_u32 r);
     bs \<leftarrow> ms_read m (unat addr) (type_size opType div 8);
     let s = s\<lparr>th_last_effective_address := reg_u32 r, th_last_memory_space := space_of (op_addr_space p)\<rparr>;
     v \<leftarrow> (if opType = S16_TYPE \<or> opType = S32_TYPE then sign_extend (put_bytes 0 bs) (type_size opType) dstInfo
          else Some (put_bytes 0 bs));
     Some (v, s)
   }"

definition negate_operand :: "ptx_type \<Rightarrow> ptx_reg_t \<Rightarrow> ptx_reg_t option" where
  "negate_operand t r =
     (if t \<in> {S8_TYPE, U8_TYPE, B8_TYPE} then Some (set_u8 r (- reg_u8 r))
      else if t \<in> {S16_TYPE, U16_TYPE, B16_TYPE} then Some (set_u16 r (- reg_u16 r))
      else if t \<in> {S32_TYPE, U32_TYPE, B32_TYPE} then Some (set_u32 r (- reg_u32 r))
      else if t \<in> {S64_TYPE, U64_TYPE, B64_TYPE} then Some (set_u64 r (- reg_u64 r))
      else if t = F16_TYPE \<or> t = F32_TYPE then Some (set_u32 r (f32_neg (reg_u32 r)))
      else if t = F64_TYPE \<or> t = FF64_TYPE then Some (set_u64 r (f64_neg (reg_u64 r)))
      else None)"

definition get_operand_value :: "operand_info \<Rightarrow> operand_info \<Rightarrow> ptx_type \<Rightarrow> bool \<Rightarrow> xstate \<Rightarrow> (ptx_reg_t \<times> xstate) option"
where
  "get_operand_value p dstInfo opType derefFlag s = do {
     (r, s) \<leftarrow> operand_base p opType s;
     (v, s) \<leftarrow> (case operand_memory (op_addr_space p) s of
                 Some m \<Rightarrow> (if derefFlag then operand_load p dstInfo opType m r s else Some (r, s))
               | None \<Rightarrow> Some (r, s));
     v \<leftarrow> (if op_neg p \<and> derefFlag then negate_operand opType v else Some v);
     Some (v, s)
   }"

subsection \<open>Writing an operand\<close>

definition zero_flag :: "ptx_type \<Rightarrow> ptx_reg_t \<Rightarrow> bool option" where
  "zero_flag t v =
     (if t = S8_TYPE then Some (reg_u8 v AND 0x7F = 0)
      else if t = S16_TYPE then Some (reg_u16 v AND 0x7FFF = 0)
      else if t = S32_TYPE then Some (reg_u32 v AND 0x7FFFFFFF = 0)
      else if t = S64_TYPE then Some (reg_u64 v AND 0x7FFFFFFFFFFFFFFF = 0)
      else if t = U8_TYPE \<or> t = B8_TYPE then Some (reg_u8 v = 0)
      else if t = U16_TYPE \<or> t = B16_TYPE then Some (reg_u16 v = 0)
      else if t = U32_TYPE \<or> t = B32_TYPE then Some (reg_u32 v = 0)
      else if t = U64_TYPE \<or> t = B64_TYPE then Some (reg_u64 v = 0)
      else if t = F16_TYPE \<or> t = F32_TYPE then Some (f32_eq (reg_u32 v) 0)
      else if t = F64_TYPE \<or> t = FF64_TYPE then Some (f64_eq (reg_u64 v) 0)
      else None)"

text \<open>For 64-bit integers the shift \<^verbatim>\<open>1<<(size-1)\<close> of an \<^verbatim>\<open>int\<close> is undefined.\<close>

definition sign_flag :: "ptx_type \<Rightarrow> ptx_reg_t \<Rightarrow> bool option" where
  "sign_flag t v =
     (if t \<in> {S8_TYPE, U8_TYPE, B8_TYPE, S16_TYPE, U16_TYPE, B16_TYPE, S32_TYPE, U32_TYPE, B32_TYPE}
      then Some (reg_u32 v AND push_bit (type_size t - 1) 1 \<noteq> 0)
      else if t \<in> {S64_TYPE, U64_TYPE, B64_TYPE} then None
      else if t = F32_TYPE then Some (f32_lt (reg_u32 v) 0)
      else Some False)"

text \<open>
  Writing one half of a register.  The constant \<^verbatim>\<open>~(0xFFFF0000)\<close> is an unsigned 32-bit number, so that a write of the
  high half clears the bits from 32 on.
\<close>

definition merge_lohi :: "int \<Rightarrow> symbol \<Rightarrow> ptx_reg_t \<Rightarrow> ptx_reg_t \<Rightarrow> xstate \<Rightarrow> (ptx_reg_t \<times> xstate) option" where
  "merge_lohi lohi y data setValue s =
     (if lohi = 1 then do {
        (old, s) \<leftarrow> reg_ref y s;
        Some (set_u64 setValue ((reg_u64 old AND NOT 0xFFFF) + (reg_u64 data AND 0xFFFF)), s)
      }
      else if lohi = 2 then do {
        (old, s) \<leftarrow> reg_ref y s;
        Some (set_u64 setValue ((reg_u64 old AND 0xFFFF) + (push_bit 16 (reg_u64 data) AND 0xFFFF0000)), s)
      }
      else Some (setValue, s))"

definition is_float_type :: "ptx_type \<Rightarrow> bool" where
  "is_float_type t = (t \<in> {F16_TYPE, F32_TYPE, F64_TYPE, FF64_TYPE})"

definition set_register_operand :: "operand_info \<Rightarrow> ptx_reg_t \<Rightarrow> ptx_type \<Rightarrow> xstate \<Rightarrow> xstate option" where
  "set_register_operand dst data t s = (let setValue = set_u64 0 (reg_u64 data) in
     if op_double_type dst = - 1 then do {
       y1 \<leftarrow> vec_symbol dst 0;
       y2 \<leftarrow> vec_symbol dst 1;
       let setValue2 = (if is_float_type t then set_u32 0 (if reg_u64 setValue = 0 then F32_ONE else 0)
                        else set_u32 0 (if reg_u64 setValue = 0 then 0xFFFFFFFF else 0));
       s \<leftarrow> set_reg y1 setValue s;
       set_reg y2 setValue2 s
     }
     else if op_double_type dst = - 2 \<or> op_double_type dst = - 3 then do {
       predName \<leftarrow> vec_symbol dst 0;
       regName \<leftarrow> vec_symbol dst 1;
       z \<leftarrow> zero_flag t setValue;
       n \<leftarrow> sign_flag t setValue;
       let predValue = set_u64 0 ((if z then 1 else 0) OR (if n then 2 else 0));
       (setValue, s) \<leftarrow> merge_lohi (op_lohi dst) regName data setValue s;
       s \<leftarrow> set_reg predName predValue s;
       set_reg regName setValue s
     }
     else if t = BB128_TYPE then do {
       y1 \<leftarrow> vec_symbol dst 0; y2 \<leftarrow> vec_symbol dst 1; y3 \<leftarrow> vec_symbol dst 2; y4 \<leftarrow> vec_symbol dst 3;
       s \<leftarrow> set_reg y1 (set_u32 0 (ucast data)) s;
       s \<leftarrow> set_reg y2 (set_u32 0 (ucast (drop_bit 32 data))) s;
       s \<leftarrow> set_reg y3 (set_u32 0 (ucast (drop_bit 64 data))) s;
       set_reg y4 (set_u32 0 (ucast (drop_bit 96 data))) s
     }
     else if t = BB64_TYPE \<or> t = FF64_TYPE then do {
       y1 \<leftarrow> vec_symbol dst 0; y2 \<leftarrow> vec_symbol dst 1;
       s \<leftarrow> set_reg y1 (set_u32 setValue (ucast data)) s;
       set_reg y2 (set_u32 0 (ucast (drop_bit 32 data))) s
     }
     else do {
       y \<leftarrow> op_symbol dst;
       (setValue, s) \<leftarrow> merge_lohi (op_lohi dst) y data setValue s;
       set_reg y setValue s
     })"

definition put_memory :: "memory_space_kind \<Rightarrow> mem_space \<Rightarrow> xstate \<Rightarrow> xstate" where
  "put_memory k m s =
     (if k = shared_space then s\<lparr>xs_shared_mem := m\<rparr>
      else if k = local_space then s\<lparr>th_local_mem := m\<rparr>
      else s\<lparr>xs_global_mem := m\<rparr>)"

text \<open>There is no store to constant memory.\<close>

definition set_operand_value :: "operand_info \<Rightarrow> ptx_reg_t \<Rightarrow> ptx_type \<Rightarrow> xstate \<Rightarrow> xstate option" where
  "set_operand_value dst data t s =
     (if op_addr_space dst = undefined_space then set_register_operand dst data t s
      else do {
        assert_that (op_addr_space dst \<in> {global_space, shared_space, local_space});
        (dstData, s) \<leftarrow> get_operand_value dst dst t False s;
        m \<leftarrow> operand_memory (op_addr_space dst) s;
        (_, m) \<leftarrow> ms_write m (unat (reg_u32 dstData)) (reg_bytes (type_size t div 8) data);
        Some ((put_memory (op_addr_space dst) m s)
          \<lparr>th_last_effective_address := reg_u32 dstData, th_last_memory_space := space_of (op_addr_space dst)\<rparr>)
      })"

definition set_operand_value_flags :: "operand_info \<Rightarrow> ptx_reg_t \<Rightarrow> ptx_type \<Rightarrow> bool \<Rightarrow> bool \<Rightarrow> xstate \<Rightarrow> xstate option" where
  "set_operand_value_flags dst data t overflow carry s = do {
     s \<leftarrow> set_operand_value dst data t s;
     (if op_double_type dst = - 2 then do {
        y \<leftarrow> vec_symbol dst 0;
        (old, s) \<leftarrow> reg_ref y s;
        set_reg y (set_u64 0 ((reg_u64 old AND NOT 0x0C) OR (if overflow then 8 else 0) OR (if carry then 4 else 0))) s
      }
      else if op_double_type dst = 0 then Some s
      else None)
   }"

fun set_vector_regs :: "operand_info \<Rightarrow> nat \<Rightarrow> ptx_reg_t list \<Rightarrow> xstate \<Rightarrow> xstate option" where
  "set_vector_regs dst i [] s = Some s"
| "set_vector_regs dst i (d # ds) s = do {
     y \<leftarrow> vec_symbol dst i;
     s \<leftarrow> set_reg y d s;
     set_vector_regs dst (Suc i) ds s
   }"

definition set_vector_operand_values :: "operand_info \<Rightarrow> ptx_reg_t \<Rightarrow> ptx_reg_t \<Rightarrow> ptx_reg_t \<Rightarrow> ptx_reg_t \<Rightarrow> xstate \<Rightarrow> xstate option"
where
  "set_vector_operand_values dst d1 d2 d3 d4 s = do {
     n \<leftarrow> get_vect_nelem dst;
     s \<leftarrow> set_vector_regs dst 0 (take n [d1, d2, d3, d4]) s;
     Some (s\<lparr>th_last_set_operand_value := d1\<rparr>)
   }"

text \<open>The elements are read from the last to the first; an element named \<^verbatim>\<open>_\<close> keeps the value that the array had.\<close>

fun get_vector_operand_values :: "operand_info \<Rightarrow> ptx_reg_t list \<Rightarrow> nat \<Rightarrow> xstate \<Rightarrow> ptx_reg_t list option" where
  "get_vector_operand_values p v 0 s = do { assert_that (op_vector p); Some v }"
| "get_vector_operand_values p v (Suc idx) s = do {
     assert_that (op_vector p \<and> Suc idx \<le> 4);
     y \<leftarrow> vec_symbol p idx;
     v \<leftarrow> (if sym_name y = ''_'' then Some v
          else case th_regs s of
            [] \<Rightarrow> None
          | m # ms \<Rightarrow> do { r \<leftarrow> m y; Some (v[idx := r]) });
     get_vector_operand_values p v idx s
   }"

subsection \<open>Laws of the register union\<close>

named_theorems reg_simps \<open>views of the register union\<close>

lemma bit_put_low: "n \<le> 128 \<Longrightarrow> bit (put_low n r v) i \<longleftrightarrow> (if i < n then bit v i else bit r i)"
  by (cases "i < 128")
    (auto simp: put_low_def bit_or_iff bit_and_iff bit_not_iff bit_take_bit_iff bit_mask_iff dest: bit_imp_le_length)

lemma ucast_put_low:
  "\<lbrakk>LENGTH('a) \<le> n; n \<le> 128\<rbrakk> \<Longrightarrow> (ucast (put_low n r v) :: 'a::len word) = ucast v"
  by (rule bit_word_eqI) (auto simp: bit_ucast_iff bit_put_low)

lemma ucast_put_same: "\<lbrakk>n = LENGTH('a); n \<le> 128\<rbrakk> \<Longrightarrow> (ucast (put_low n r (ucast v)) :: 'a::len word) = v"
  by (rule bit_word_eqI) (auto simp: bit_ucast_iff bit_put_low)

lemma reg_views [reg_simps]:
  "reg_u8 (set_u8 r b8) = b8" "reg_u16 (set_u16 r b16) = b16" "reg_u32 (set_u32 r b32) = b32"
  "reg_u64 (set_u64 r b64) = b64" "reg_pred (set_pred r p) = p"
  "reg_u8 (set_u16 r b16) = ucast b16" "reg_u8 (set_u32 r b32) = ucast b32" "reg_u8 (set_u64 r b64) = ucast b64"
  "reg_u16 (set_u32 r b32) = ucast b32" "reg_u16 (set_u64 r b64) = ucast b64"
  "reg_u32 (set_u64 r b64) = ucast b64" "reg_pred (set_u64 r b64) = ucast b64" "reg_pred (set_u32 r b32) = ucast b32"
  by (auto simp: set_u8_def set_u16_def set_u32_def set_u64_def set_pred_def ucast_put_low ucast_put_same
      intro!: bit_word_eqI simp: bit_ucast_iff)

lemma bit_reg_of_set:
  "bit (set_u64 r v) i \<longleftrightarrow> (if i < 64 then bit v i else bit r i)"
  "bit (set_u32 r w) i \<longleftrightarrow> (if i < 32 then bit w i else bit r i)"
  by (auto simp: set_u64_def set_u32_def bit_put_low bit_ucast_iff)

lemma reg_u64_set_u32 [reg_simps]: "reg_u64 (set_u32 0 w) = ucast w"
  by (rule bit_word_eqI) (auto simp: bit_ucast_iff bit_reg_of_set dest: bit_imp_le_length)

lemma put_low_put_low [reg_simps]: "n \<le> 128 \<Longrightarrow> put_low n (put_low n r v) w = put_low n r w"
  by (rule bit_word_eqI) (auto simp: bit_put_low)

lemma put_low_same [simp]: "put_low n r r = r"
  by (rule bit_word_eqI)
    (auto simp: put_low_def bit_or_iff bit_and_iff bit_not_iff bit_take_bit_iff bit_mask_iff)

lemma put_low_0: "put_low n 0 v = take_bit n v"
  by (simp add: put_low_def)

lemma bit_bytes_reg: "bit (bytes_reg bs) i \<longleftrightarrow> i < 128 \<and> i div 8 < length bs \<and> bit (bs ! (i div 8)) (i mod 8)"
proof (induction bs arbitrary: i)
  case (Cons b bs)
  have "bit (bytes_reg (b # bs)) i \<longleftrightarrow> i < 128 \<and> (if i < 8 then bit b i else bit (bytes_reg bs) (i - 8))"
    by (auto simp: bit_or_iff bit_ucast_iff bit_push_bit_iff dest: bit_imp_le_length)
  moreover have "i div 8 = Suc ((i - 8) div 8)" "i mod 8 = (i - 8) mod 8" if "8 \<le> i"
    using that by (auto simp: le_mod_geq le_div_geq)
  moreover have "i div 8 = 0" "i mod 8 = i" if "i < 8" using that by auto
  ultimately show ?case
    by (cases "i < 8") (auto simp: Cons.IH simp del: bytes_reg.simps)
qed simp

lemma length_reg_bytes [simp]: "length (reg_bytes n r) = n"
  by (induction n arbitrary: r) auto

lemma nth_reg_bytes: "k < n \<Longrightarrow> reg_bytes n r ! k = ucast (drop_bit (8 * k) r)"
proof (induction n arbitrary: r k)
  case (Suc n)
  show ?case
    using Suc.prems by (cases k) (simp_all add: Suc.IH algebra_simps)
qed simp

text \<open>Loading what was stored restores the low bytes of the register.\<close>

lemma put_bytes_reg_bytes: "n \<le> 16 \<Longrightarrow> put_bytes r (reg_bytes n v) = put_low (8 * n) r v"
proof (rule bit_word_eqI)
  fix i assume "n \<le> 16" "i < LENGTH(128)"
  then show "bit (put_bytes r (reg_bytes n v)) i \<longleftrightarrow> bit (put_low (8 * n) r v) i"
    by (auto simp: put_bytes_def bit_put_low bit_bytes_reg nth_reg_bytes bit_ucast_iff bit_drop_bit_eq
        less_mult_imp_div_less mult.commute)
qed

subsection \<open>Register operands\<close>

text \<open>The value of a register in the active frame, and operands that name a register and nothing else.\<close>

definition reg_val :: "'a ptx_thread_info_scheme \<Rightarrow> symbol \<Rightarrow> ptx_reg_t option" where
  "reg_val s y = (case th_regs s of [] \<Rightarrow> None | m # ms \<Rightarrow> m y)"

definition writable :: "symbol \<Rightarrow> bool" where
  "writable y = (sym_name y \<noteq> ''_'' \<and> sym_uid y > 0)"

definition plain_reg :: "operand_info \<Rightarrow> symbol \<Rightarrow> bool" where
  "plain_reg p y = (op_type p = reg_t \<and> op_value p = V_symbolic y \<and> op_double_type p = 0
     \<and> op_addr_space p = undefined_space \<and> op_lohi p = 0 \<and> \<not> op_neg p)"

text \<open>The double destination \<^verbatim>\<open>$p|$r\<close> of PTXPlus.\<close>

definition flag_pair :: "operand_info \<Rightarrow> symbol \<Rightarrow> symbol \<Rightarrow> bool" where
  "flag_pair p q y = (op_double_type p = - 2 \<and> op_addr_space p = undefined_space \<and> op_lohi p = 0
     \<and> (\<exists>ys. op_value p = V_vector (Some q # Some y # ys)))"

definition wide_type :: "ptx_type \<Rightarrow> bool" where
  "wide_type t = (t \<in> {BB128_TYPE, BB64_TYPE, FF64_TYPE})"

lemma plain_reg_operand_symbol:
  "\<lbrakk>\<not> sym_is_label y; \<not> sym_is_shared y; \<not> sym_is_const y; \<not> sym_is_global y; \<not> sym_is_local y; \<not> sym_is_param_local y;
    \<not> sym_is_tex y; \<not> sym_is_func_addr y\<rbrakk> \<Longrightarrow> plain_reg (operand_symbol y) y"
  by (simp add: plain_reg_def operand_symbol_def operand_new_def)

lemma reg_val_Some: "reg_val s y = Some v \<Longrightarrow> \<exists>m ms. th_regs s = m # ms \<and> m y = Some v"
  by (auto simp: reg_val_def split: list.splits)

lemma get_plain_reg [reg_simps]:
  "\<lbrakk>plain_reg p y; reg_val s y = Some v; \<not> wide_type t\<rbrakk> \<Longrightarrow> get_operand_value p d t deref s = Some (v, s)"
  by (auto dest!: reg_val_Some simp: plain_reg_def wide_type_def get_operand_value_def operand_base_def scalar_operand_value_def
      op_is_reg_def get_reg_def pick_lohi_def operand_memory_def)

lemma set_reg_law:
  assumes "writable y" "th_regs s \<noteq> []"
  shows "\<exists>s'. set_reg y v s = Some s' \<and> reg_val s' y = Some v \<and> th_regs s' \<noteq> []
    \<and> (\<forall>z. z \<noteq> y \<longrightarrow> reg_val s' z = reg_val s z)
    \<and> s' = s\<lparr>th_regs := th_regs s', th_last_set_operand_value := v\<rparr>"
  using assms by (cases "th_regs s") (auto simp: set_reg_def writable_def reg_val_def)

lemma set_plain_reg:
  assumes "plain_reg p y" "writable y" "th_regs s \<noteq> []" "\<not> wide_type t"
  shows "set_operand_value p v t s = set_reg y (set_u64 0 (reg_u64 v)) s"
  using assms
  by (simp add: plain_reg_def wide_type_def set_operand_value_def set_register_operand_def merge_lohi_def)

end
