(* ===== verification/PtxAlu_Model.thy ===== *)
theory PtxAlu_Model
  imports PtxReg_Model
begin

text \<open>
  The arithmetic, logic, comparison and conversion instructions of \<^verbatim>\<open>cuda-sim/instructions.cc\<close> and the condition
  codes of \<^verbatim>\<open>decuda_pred_table.cc\<close>.  Each handler reads its operands, computes a register from them, and writes the
  destination; the function that computes the register is separate.  An \<^verbatim>\<open>assert(0)\<close>, a division that traps and a
  shift that C++ leaves undefined are \<open>None\<close>.  Arithmetic on floating-point numbers is the record \<open>fpu\<close> of operations on
  bit patterns: the instructions of the host and the conversions of NVIDIA's \<^verbatim>\<open>cuda-math.h\<close>.
\<close>

unbundle bit_operations_syntax

subsection \<open>The floating-point unit of the host\<close>

datatype host_rounding = FE_TONEAREST | FE_TOWARDZERO

record fpu =
  fp_add32 :: "host_rounding \<Rightarrow> 32 word \<Rightarrow> 32 word \<Rightarrow> 32 word"
  fp_sub32 :: "host_rounding \<Rightarrow> 32 word \<Rightarrow> 32 word \<Rightarrow> 32 word"
  fp_mul32 :: "host_rounding \<Rightarrow> 32 word \<Rightarrow> 32 word \<Rightarrow> 32 word"
  fp_div32 :: "host_rounding \<Rightarrow> 32 word \<Rightarrow> 32 word \<Rightarrow> 32 word"
  fp_add64 :: "host_rounding \<Rightarrow> 64 word \<Rightarrow> 64 word \<Rightarrow> 64 word"
  fp_sub64 :: "host_rounding \<Rightarrow> 64 word \<Rightarrow> 64 word \<Rightarrow> 64 word"
  fp_mul64 :: "host_rounding \<Rightarrow> 64 word \<Rightarrow> 64 word \<Rightarrow> 64 word"
  fp_div64 :: "host_rounding \<Rightarrow> 64 word \<Rightarrow> 64 word \<Rightarrow> 64 word"
  fp_int2float :: "rounding_option \<Rightarrow> int \<Rightarrow> 32 word"
  fp_int2double :: "int \<Rightarrow> 64 word"
  fp_float2int :: "rounding_option \<Rightarrow> 32 word \<Rightarrow> 32 word"
  fp_float2uint :: "rounding_option \<Rightarrow> 32 word \<Rightarrow> 32 word"
  fp_float2double :: "32 word \<Rightarrow> 64 word"
  fp_double2float :: "64 word \<Rightarrow> 32 word"
  fp_double2int :: "64 word \<Rightarrow> int"
  fp_round32 :: "rounding_option \<Rightarrow> 32 word \<Rightarrow> 32 word"
  fp_round64 :: "rounding_option \<Rightarrow> 64 word \<Rightarrow> 64 word"
  fp_saturate32 :: "32 word \<Rightarrow> 32 word"

text \<open>Selection of the host's rounding mode; any other mode ends the run.\<close>

definition host_mode :: "rounding_option \<Rightarrow> host_rounding option" where
  "host_mode rm = (if rm = RN_OPTION then Some FE_TONEAREST else if rm = RZ_OPTION then Some FE_TOWARDZERO else None)"

definition saturate32 :: "bool \<Rightarrow> 32 word \<Rightarrow> 32 word" where
  "saturate32 sat x = (if sat then (if f32_lt x 0 then 0 else if f32_lt F32_ONE x then F32_ONE else x) else x)"

definition saturate64 :: "bool \<Rightarrow> 64 word \<Rightarrow> 64 word" where
  "saturate64 sat x = (if sat then (if f64_lt x 0 then 0 else if f64_lt F64_ONE x then F64_ONE else x) else x)"

subsection \<open>Handlers with one, two and three sources\<close>

definition unary_impl :: "(ptx_type \<Rightarrow> ptx_reg_t \<Rightarrow> ptx_reg_t option) \<Rightarrow> ptx_instruction \<Rightarrow> xstate \<Rightarrow> xstate option" where
  "unary_impl f pI s = do {
     dst \<leftarrow> pi_dst pI; src1 \<leftarrow> pi_src1 pI; t \<leftarrow> get_type pI;
     (a, s) \<leftarrow> get_operand_value src1 dst t True s;
     d \<leftarrow> f t a;
     set_operand_value dst d t s
   }"

definition binary_impl :: "(ptx_type \<Rightarrow> ptx_reg_t \<Rightarrow> ptx_reg_t \<Rightarrow> ptx_reg_t option) \<Rightarrow> ptx_instruction \<Rightarrow> xstate \<Rightarrow> xstate option"
where
  "binary_impl f pI s = do {
     dst \<leftarrow> pi_dst pI; src1 \<leftarrow> pi_src1 pI; src2 \<leftarrow> pi_src2 pI; t \<leftarrow> get_type pI;
     (a, s) \<leftarrow> get_operand_value src1 dst t True s;
     (b, s) \<leftarrow> get_operand_value src2 dst t True s;
     d \<leftarrow> f t a b;
     set_operand_value dst d t s
   }"

subsection \<open>Absolute value, addition, subtraction\<close>

definition my_abs :: "'a::len word \<Rightarrow> 'a word" where
  "my_abs a = (if sint a < 0 then - a else a)"

definition abs_data :: "ptx_type \<Rightarrow> ptx_reg_t \<Rightarrow> ptx_reg_t option" where
  "abs_data t a =
     (case t of
        S16_TYPE \<Rightarrow> Some (set_u16 0 (my_abs (reg_u16 a)))
      | S32_TYPE \<Rightarrow> Some (set_u32 0 (my_abs (reg_u32 a)))
      | S64_TYPE \<Rightarrow> Some (set_u64 0 (my_abs (reg_u64 a)))
      | U16_TYPE \<Rightarrow> Some (set_u16 0 (reg_u16 a))
      | U32_TYPE \<Rightarrow> Some (set_u32 0 (reg_u32 a))
      | U64_TYPE \<Rightarrow> Some (set_u64 0 (reg_u64 a))
      | F32_TYPE \<Rightarrow> Some (set_u32 0 (if f32_lt (reg_u32 a) 0 then f32_neg (reg_u32 a) else reg_u32 a))
      | F64_TYPE \<Rightarrow> Some (set_u64 0 (if f64_lt (reg_u64 a) 0 then f64_neg (reg_u64 a) else reg_u64 a))
      | FF64_TYPE \<Rightarrow> Some (set_u64 0 (if f64_lt (reg_u64 a) 0 then f64_neg (reg_u64 a) else reg_u64 a))
      | _ \<Rightarrow> None)"

definition abs_impl :: "ptx_instruction \<Rightarrow> xstate \<Rightarrow> xstate option" where
  "abs_impl = unary_impl abs_data"

text \<open>
  The sum of the low \<open>n\<close> bits with an incoming carry, its overflow and its carry out.  The overflow compares the
  sign bits of the operands and of the result.
\<close>

definition sum_bits :: "nat \<Rightarrow> 64 word \<Rightarrow> 64 word \<Rightarrow> 64 word \<Rightarrow> 64 word" where
  "sum_bits n a b c = (a AND mask n) + (b AND mask n) + c"

definition sign_bit :: "nat \<Rightarrow> 64 word \<Rightarrow> 64 word" where
  "sign_bit n a = a AND push_bit (n - 1) 1"

definition sum_overflow :: "nat \<Rightarrow> 64 word \<Rightarrow> 64 word \<Rightarrow> 64 word \<Rightarrow> bool" where
  "sum_overflow n a b d = (if sign_bit n a - sign_bit n b = 0 then sign_bit n a - sign_bit n d \<noteq> 0 else False)"

definition carry_out :: "nat \<Rightarrow> 64 word \<Rightarrow> bool" where
  "carry_out n d = bit d n"

definition signed_sum :: "nat \<Rightarrow> ptx_reg_t \<Rightarrow> ptx_reg_t \<Rightarrow> 64 word \<Rightarrow> ptx_reg_t \<times> bool \<times> bool" where
  "signed_sum n a b c = (let d = sum_bits n (reg_u64 a) (reg_u64 b) c
     in (set_u64 0 d, sum_overflow n (reg_u64 a) (reg_u64 b) d, carry_out n d))"

definition unsigned_sum :: "nat \<Rightarrow> ptx_reg_t \<Rightarrow> ptx_reg_t \<Rightarrow> 64 word \<Rightarrow> ptx_reg_t \<times> bool \<times> bool" where
  "unsigned_sum n a b c = (let d = sum_bits n (reg_u64 a) (reg_u64 b) c in (set_u64 0 d, False, carry_out n d))"

definition sum_data :: "fpu \<Rightarrow> host_rounding \<Rightarrow> ptx_type \<Rightarrow> ptx_reg_t \<Rightarrow> ptx_reg_t \<Rightarrow> 64 word
    \<Rightarrow> (ptx_reg_t \<times> bool \<times> bool) option" where
  "sum_data fp m t a b c =
     (case t of
        S8_TYPE \<Rightarrow> Some (signed_sum 8 a b c)
      | S16_TYPE \<Rightarrow> Some (signed_sum 16 a b c)
      | S32_TYPE \<Rightarrow> Some (signed_sum 32 a b c)
      | S64_TYPE \<Rightarrow> Some (set_u64 0 (reg_u64 a + reg_u64 b + c), False, False)
      | U8_TYPE \<Rightarrow> Some (unsigned_sum 8 a b c)
      | U16_TYPE \<Rightarrow> Some (unsigned_sum 16 a b c)
      | U32_TYPE \<Rightarrow> Some (unsigned_sum 32 a b c)
      | U64_TYPE \<Rightarrow> Some (set_u64 0 (reg_u64 a + reg_u64 b + c), False, False)
      | F32_TYPE \<Rightarrow> Some (set_u32 0 (fp_add32 fp m (reg_u32 a) (reg_u32 b)), False, False)
      | F64_TYPE \<Rightarrow> Some (set_u64 0 (fp_add64 fp m (reg_u64 a) (reg_u64 b)), False, False)
      | FF64_TYPE \<Rightarrow> Some (set_u64 0 (fp_add64 fp m (reg_u64 a) (reg_u64 b)), False, False)
      | _ \<Rightarrow> None)"

definition add_impl :: "fpu \<Rightarrow> ptx_instruction \<Rightarrow> xstate \<Rightarrow> xstate option" where
  "add_impl fp pI s = do {
     dst \<leftarrow> pi_dst pI; src1 \<leftarrow> pi_src1 pI; src2 \<leftarrow> pi_src2 pI; t \<leftarrow> get_type pI;
     (a, s) \<leftarrow> get_operand_value src1 dst t True s;
     (b, s) \<leftarrow> get_operand_value src2 dst t True s;
     m \<leftarrow> host_mode (pi_rounding_mode pI);
     (d, overflow, carry) \<leftarrow> sum_data fp m t a b 0;
     set_operand_value_flags dst d t overflow carry s
   }"

text \<open>The carry flag is taken from bit 2 of the predicate without a shift.\<close>

definition addp_impl :: "fpu \<Rightarrow> ptx_instruction \<Rightarrow> xstate \<Rightarrow> xstate option" where
  "addp_impl fp pI s = do {
     dst \<leftarrow> pi_dst pI; src1 \<leftarrow> pi_src1 pI; src2 \<leftarrow> pi_src2 pI; src3 \<leftarrow> pi_src3 pI; t \<leftarrow> get_type pI;
     (a, s) \<leftarrow> get_operand_value src1 dst t True s;
     (b, s) \<leftarrow> get_operand_value src2 dst t True s;
     (c, s) \<leftarrow> get_operand_value src3 dst t True s;
     m \<leftarrow> host_mode (pi_rounding_mode pI);
     (d, overflow, carry) \<leftarrow> sum_data fp m t a b (ucast (reg_pred c AND 0x4));
     set_operand_value_flags dst d t overflow carry s
   }"

text \<open>Subtraction adds \<open>2 ^ n\<close>, so that the carry is set when there is no borrow.\<close>

definition diff_bits :: "nat \<Rightarrow> 64 word \<Rightarrow> 64 word \<Rightarrow> 64 word" where
  "diff_bits n a b = (a AND mask n) - (b AND mask n) + push_bit n 1"

definition diff_overflow :: "nat \<Rightarrow> 64 word \<Rightarrow> 64 word \<Rightarrow> 64 word \<Rightarrow> bool" where
  "diff_overflow n a b d = (if sign_bit n a - sign_bit n b \<noteq> 0 then sign_bit n a - sign_bit n d \<noteq> 0 else False)"

definition signed_diff :: "nat \<Rightarrow> ptx_reg_t \<Rightarrow> ptx_reg_t \<Rightarrow> ptx_reg_t \<times> bool \<times> bool" where
  "signed_diff n a b = (let d = diff_bits n (reg_u64 a) (reg_u64 b)
     in (set_u64 0 d, diff_overflow n (reg_u64 a) (reg_u64 b) d, carry_out n d))"

definition unsigned_diff :: "nat \<Rightarrow> ptx_reg_t \<Rightarrow> ptx_reg_t \<Rightarrow> ptx_reg_t \<times> bool \<times> bool" where
  "unsigned_diff n a b = (let d = diff_bits n (reg_u64 a) (reg_u64 b) in (set_u64 0 d, False, carry_out n d))"

definition sub_data :: "fpu \<Rightarrow> ptx_type \<Rightarrow> ptx_reg_t \<Rightarrow> ptx_reg_t \<Rightarrow> (ptx_reg_t \<times> bool \<times> bool) option" where
  "sub_data fp t a b =
     (if t = S8_TYPE then Some (signed_diff 8 a b)
      else if t = S16_TYPE then Some (signed_diff 16 a b)
      else if t = S32_TYPE then Some (signed_diff 32 a b)
      else if t = B8_TYPE \<or> t = U8_TYPE then Some (unsigned_diff 8 a b)
      else if t = B16_TYPE \<or> t = U16_TYPE then Some (unsigned_diff 16 a b)
      else if t = B32_TYPE \<or> t = U32_TYPE then Some (unsigned_diff 32 a b)
      else if t = S64_TYPE \<or> t = B64_TYPE \<or> t = U64_TYPE then Some (set_u64 0 (reg_u64 a - reg_u64 b), False, False)
      else if t = F32_TYPE then Some (set_u32 0 (fp_sub32 fp FE_TONEAREST (reg_u32 a) (reg_u32 b)), False, False)
      else if t = F64_TYPE \<or> t = FF64_TYPE
        then Some (set_u64 0 (fp_sub64 fp FE_TONEAREST (reg_u64 a) (reg_u64 b)), False, False)
      else None)"

definition sub_impl :: "fpu \<Rightarrow> ptx_instruction \<Rightarrow> xstate \<Rightarrow> xstate option" where
  "sub_impl fp pI s = do {
     dst \<leftarrow> pi_dst pI; src1 \<leftarrow> pi_src1 pI; src2 \<leftarrow> pi_src2 pI; t \<leftarrow> get_type pI;
     (a, s) \<leftarrow> get_operand_value src1 dst t True s;
     (b, s) \<leftarrow> get_operand_value src2 dst t True s;
     (d, overflow, carry) \<leftarrow> sub_data fp t a b;
     set_operand_value_flags dst d t overflow carry s
   }"

subsection \<open>Condition codes\<close>

definition pred_table :: "nat list list" where
  "pred_table =
    [[0, 0, 0, 0, 0, 0, 0, 0, 0, 0, 0, 0, 0, 0, 0, 0],
     [0, 0, 1, 0, 0, 0, 1, 0, 1, 1, 0, 1, 1, 1, 0, 1],
     [0, 1, 0, 0, 0, 1, 0, 0, 0, 1, 0, 0, 0, 1, 0, 0],
     [0, 1, 1, 0, 0, 1, 1, 0, 1, 1, 0, 0, 1, 1, 0, 0],
     [1, 0, 0, 0, 1, 0, 0, 0, 0, 0, 1, 0, 0, 0, 1, 0],
     [1, 0, 1, 0, 1, 0, 1, 0, 1, 0, 1, 0, 1, 0, 1, 0],
     [1, 1, 0, 0, 1, 1, 0, 0, 0, 0, 1, 1, 0, 0, 1, 1],
     [1, 1, 1, 0, 1, 1, 1, 0, 1, 1, 1, 0, 1, 1, 1, 0],
     [0, 0, 0, 1, 0, 0, 0, 1, 0, 0, 0, 1, 0, 0, 0, 1],
     [0, 0, 1, 1, 0, 0, 1, 1, 1, 1, 0, 0, 1, 1, 0, 0],
     [0, 1, 0, 1, 0, 1, 0, 1, 0, 1, 0, 1, 0, 1, 0, 1],
     [0, 1, 1, 1, 0, 1, 1, 1, 1, 1, 0, 1, 1, 1, 0, 1],
     [1, 0, 0, 1, 1, 0, 0, 1, 0, 0, 1, 1, 0, 0, 1, 1],
     [1, 0, 1, 1, 1, 0, 1, 1, 1, 0, 1, 1, 1, 0, 1, 1],
     [1, 1, 0, 1, 1, 1, 0, 1, 0, 0, 1, 0, 0, 0, 1, 0],
     [1, 1, 1, 1, 1, 1, 1, 1, 1, 1, 1, 1, 1, 1, 1, 1],
     [0, 0, 0, 0, 0, 0, 0, 0, 1, 1, 1, 1, 1, 1, 1, 1],
     [0, 0, 0, 0, 1, 1, 1, 1, 0, 0, 0, 0, 1, 1, 1, 1],
     [0, 0, 0, 0, 1, 0, 1, 0, 0, 0, 0, 0, 1, 0, 1, 0],
     [0, 0, 1, 1, 0, 0, 1, 1, 0, 0, 1, 1, 0, 0, 1, 1],
     [0, 0, 0, 0, 0, 0, 0, 0, 0, 0, 0, 0, 0, 0, 0, 0],
     [0, 0, 0, 0, 0, 0, 0, 0, 0, 0, 0, 0, 0, 0, 0, 0],
     [0, 0, 0, 0, 0, 0, 0, 0, 0, 0, 0, 0, 0, 0, 0, 0],
     [0, 0, 0, 0, 0, 0, 0, 0, 0, 0, 0, 0, 0, 0, 0, 0],
     [0, 0, 0, 0, 0, 0, 0, 0, 0, 0, 0, 0, 0, 0, 0, 0],
     [0, 0, 0, 0, 0, 0, 0, 0, 0, 0, 0, 0, 0, 0, 0, 0],
     [0, 0, 0, 0, 0, 0, 0, 0, 0, 0, 0, 0, 0, 0, 0, 0],
     [0, 0, 0, 0, 0, 0, 0, 0, 0, 0, 0, 0, 0, 0, 0, 0],
     [1, 1, 0, 0, 1, 1, 0, 0, 1, 1, 0, 0, 1, 1, 0, 0],
     [1, 1, 1, 1, 0, 1, 0, 1, 1, 1, 1, 1, 0, 1, 0, 1],
     [1, 1, 1, 1, 0, 0, 0, 0, 1, 1, 1, 1, 0, 0, 0, 0],
     [1, 1, 1, 1, 1, 1, 1, 1, 0, 0, 0, 0, 0, 0, 0, 0]]"

definition pred_lookup :: "nat \<Rightarrow> nat \<Rightarrow> bool option" where
  "pred_lookup condition flags = do { row \<leftarrow> vec_at pred_table condition; x \<leftarrow> vec_at row flags; Some (x \<noteq> 0) }"

subsection \<open>Logic\<close>

text \<open>A predicate holds when its zero flag is clear, so the logic of predicates is dual.\<close>

definition and_data :: "ptx_type \<Rightarrow> ptx_reg_t \<Rightarrow> ptx_reg_t \<Rightarrow> ptx_reg_t option" where
  "and_data t a b =
     Some (if t = PRED_TYPE then set_pred 0 (NOT (NOT (reg_pred a) AND NOT (reg_pred b))) else set_u64 0 (reg_u64 a AND reg_u64 b))"

definition andn_data :: "ptx_type \<Rightarrow> ptx_reg_t \<Rightarrow> ptx_reg_t \<Rightarrow> ptx_reg_t option" where
  "andn_data t a b = do {
     b \<leftarrow> (case t of
            B16_TYPE \<Rightarrow> Some (set_u16 b (NOT (reg_u16 b)))
          | B32_TYPE \<Rightarrow> Some (set_u32 b (NOT (reg_u32 b)))
          | B64_TYPE \<Rightarrow> Some (set_u64 b (NOT (reg_u64 b)))
          | _ \<Rightarrow> None);
     Some (set_u64 0 (reg_u64 a AND reg_u64 b))
   }"

definition or_data :: "ptx_type \<Rightarrow> ptx_reg_t \<Rightarrow> ptx_reg_t \<Rightarrow> ptx_reg_t option" where
  "or_data t a b =
     Some (if t = PRED_TYPE then set_pred 0 (NOT (NOT (reg_pred a) OR NOT (reg_pred b))) else set_u64 0 (reg_u64 a OR reg_u64 b))"

definition orn_data :: "ptx_type \<Rightarrow> ptx_reg_t \<Rightarrow> ptx_reg_t \<Rightarrow> ptx_reg_t option" where
  "orn_data t a b =
     Some (if t = PRED_TYPE then set_pred 0 (NOT (NOT (reg_pred a) OR reg_pred b)) else set_u64 0 (reg_u64 a OR NOT (reg_u64 b)))"

definition xor_data :: "ptx_type \<Rightarrow> ptx_reg_t \<Rightarrow> ptx_reg_t \<Rightarrow> ptx_reg_t option" where
  "xor_data t a b =
     Some (if t = PRED_TYPE then set_pred 0 (NOT (NOT (reg_pred a) XOR NOT (reg_pred b))) else set_u64 0 (reg_u64 a XOR reg_u64 b))"

definition nandn_data :: "ptx_type \<Rightarrow> ptx_reg_t \<Rightarrow> ptx_reg_t \<Rightarrow> ptx_reg_t option" where
  "nandn_data t a b =
     Some (if t = PRED_TYPE then set_pred 0 (NOT (reg_pred a) AND reg_pred b) else set_u64 0 (NOT (reg_u64 a AND NOT (reg_u64 b))))"

definition norn_data :: "ptx_type \<Rightarrow> ptx_reg_t \<Rightarrow> ptx_reg_t \<Rightarrow> ptx_reg_t option" where
  "norn_data t a b =
     Some (if t = PRED_TYPE then set_pred 0 (NOT (reg_pred a AND NOT (reg_pred b))) else set_u64 0 (NOT (reg_u64 a) AND reg_u64 b))"

definition not_data :: "ptx_type \<Rightarrow> ptx_reg_t \<Rightarrow> ptx_reg_t option" where
  "not_data t a =
     (case t of
        PRED_TYPE \<Rightarrow> Some (set_pred 0 (NOT (reg_pred a) AND 0xF))
      | B16_TYPE \<Rightarrow> Some (set_u16 0 (NOT (reg_u16 a)))
      | B32_TYPE \<Rightarrow> Some (set_u32 0 (NOT (reg_u32 a)))
      | B64_TYPE \<Rightarrow> Some (set_u64 0 (NOT (reg_u64 a)))
      | _ \<Rightarrow> None)"

definition cnot_data :: "ptx_type \<Rightarrow> ptx_reg_t \<Rightarrow> ptx_reg_t option" where
  "cnot_data t a =
     (case t of
        PRED_TYPE \<Rightarrow> Some (set_pred 0 (if reg_pred a AND 1 = 0 then 1 else 0))
      | B16_TYPE \<Rightarrow> Some (set_u16 0 (if reg_u16 a = 0 then 1 else 0))
      | B32_TYPE \<Rightarrow> Some (set_u32 0 (if reg_u32 a = 0 then 1 else 0))
      | B64_TYPE \<Rightarrow> Some (set_u64 0 (if reg_u64 a = 0 then 1 else 0))
      | _ \<Rightarrow> None)"

definition and_impl :: "ptx_instruction \<Rightarrow> xstate \<Rightarrow> xstate option" where "and_impl = binary_impl and_data"
definition andn_impl :: "ptx_instruction \<Rightarrow> xstate \<Rightarrow> xstate option" where "andn_impl = binary_impl andn_data"
definition or_impl :: "ptx_instruction \<Rightarrow> xstate \<Rightarrow> xstate option" where "or_impl = binary_impl or_data"
definition orn_impl :: "ptx_instruction \<Rightarrow> xstate \<Rightarrow> xstate option" where "orn_impl = binary_impl orn_data"
definition xor_impl :: "ptx_instruction \<Rightarrow> xstate \<Rightarrow> xstate option" where "xor_impl = binary_impl xor_data"
definition nandn_impl :: "ptx_instruction \<Rightarrow> xstate \<Rightarrow> xstate option" where "nandn_impl = binary_impl nandn_data"
definition norn_impl :: "ptx_instruction \<Rightarrow> xstate \<Rightarrow> xstate option" where "norn_impl = binary_impl norn_data"
definition not_impl :: "ptx_instruction \<Rightarrow> xstate \<Rightarrow> xstate option" where "not_impl = unary_impl not_data"
definition cnot_impl :: "ptx_instruction \<Rightarrow> xstate \<Rightarrow> xstate option" where "cnot_impl = unary_impl cnot_data"

subsection \<open>Counting bits and shifting\<close>

text \<open>The loop of \<^verbatim>\<open>clz\<close>; its first argument is the number of rounds that \<^verbatim>\<open>max\<close> still allows.\<close>

fun clz_loop :: "nat \<Rightarrow> 64 word \<Rightarrow> 64 word \<Rightarrow> 32 word \<Rightarrow> 32 word" where
  "clz_loop 0 msk a d = d"
| "clz_loop (Suc n) msk a d = (if a AND msk = 0 then clz_loop n msk (push_bit 1 a) (d + 1) else d)"

definition clz_data :: "ptx_type \<Rightarrow> ptx_reg_t \<Rightarrow> ptx_reg_t option" where
  "clz_data t a =
     (case t of
        B32_TYPE \<Rightarrow> Some (set_u32 0 (clz_loop 32 0x80000000 (reg_u64 a) 0))
      | B64_TYPE \<Rightarrow> Some (set_u32 0 (clz_loop 64 0x8000000000000000 (reg_u64 a) 0))
      | _ \<Rightarrow> None)"

definition clz_impl :: "ptx_instruction \<Rightarrow> xstate \<Rightarrow> xstate option" where
  "clz_impl pI s = do {
     dst \<leftarrow> pi_dst pI; src1 \<leftarrow> pi_src1 pI; t \<leftarrow> get_type pI;
     (a, s) \<leftarrow> get_operand_value src1 dst t True s;
     d \<leftarrow> clz_data t a;
     set_operand_value dst d B32_TYPE s
   }"

definition popc_data :: "ptx_type \<Rightarrow> ptx_reg_t \<Rightarrow> ptx_reg_t option" where
  "popc_data t a =
     (case t of
        B32_TYPE \<Rightarrow> Some (set_u32 0 (of_nat (length (filter (bit (reg_u32 a)) [0..<32]))))
      | B64_TYPE \<Rightarrow> Some (set_u32 0 (of_nat (length (filter (bit (reg_u64 a)) [0..<64]))))
      | _ \<Rightarrow> None)"

definition popc_impl :: "ptx_instruction \<Rightarrow> xstate \<Rightarrow> xstate option" where "popc_impl = unary_impl popc_data"

text \<open>The 64-bit shifts test the low half of the count and shift by all of it.\<close>

definition shl_data :: "ptx_type \<Rightarrow> ptx_reg_t \<Rightarrow> ptx_reg_t \<Rightarrow> ptx_reg_t option" where
  "shl_data t a b =
     (if t = B16_TYPE \<or> t = U16_TYPE then
        Some (set_u16 0 (if reg_u16 b \<ge> 16 then 0 else push_bit (unat (reg_u16 b)) (reg_u16 a)))
      else if t = B32_TYPE \<or> t = U32_TYPE then
        Some (set_u32 0 (if reg_u32 b \<ge> 32 then 0 else push_bit (unat (reg_u32 b)) (reg_u32 a)))
      else if t = B64_TYPE \<or> t = U64_TYPE then
        (if reg_u32 b \<ge> 64 then Some 0
         else do { assert_that (reg_u64 b < 64); Some (set_u64 0 (push_bit (unat (reg_u64 b)) (reg_u64 a))) })
      else None)"

definition shl_impl :: "ptx_instruction \<Rightarrow> xstate \<Rightarrow> xstate option" where "shl_impl = binary_impl shl_data"

definition shr_data :: "ptx_type \<Rightarrow> ptx_reg_t \<Rightarrow> ptx_reg_t \<Rightarrow> ptx_reg_t option" where
  "shr_data t a b =
     (if t = B16_TYPE \<or> t = U16_TYPE then
        Some (set_u16 0 (if reg_u16 b < 16 then drop_bit (unat (reg_u16 b)) (reg_u16 a) else 0))
      else if t = B32_TYPE \<or> t = U32_TYPE then
        Some (set_u32 0 (if reg_u32 b < 32 then drop_bit (unat (reg_u32 b)) (reg_u32 a) else 0))
      else if t = B64_TYPE \<or> t = U64_TYPE then
        (if reg_u32 b < 64
         then do { assert_that (reg_u64 b < 64); Some (set_u64 0 (drop_bit (unat (reg_u64 b)) (reg_u64 a))) }
         else Some 0)
      else if t = S16_TYPE then
        Some (set_u64 0 (if reg_u16 b < 16 then scast (signed_drop_bit (unat (reg_u16 b)) (reg_u16 a))
                         else if reg_s16 a < 0 then - 1 else 0))
      else if t = S32_TYPE then
        Some (set_u64 0 (if reg_u32 b < 32 then scast (signed_drop_bit (unat (reg_u32 b)) (reg_u32 a))
                         else if reg_s32 a < 0 then - 1 else 0))
      else if t = S64_TYPE then
        Some (if reg_u64 b < 64 then set_u64 0 (signed_drop_bit (unat (reg_u64 b)) (reg_u64 a))
              else if reg_s64 a < 0 then (if reg_s32 b < 0 then set_u32 (set_u64 0 (- 1)) 0 else set_u64 0 (- 1))
              else 0)
      else None)"

definition shr_impl :: "ptx_instruction \<Rightarrow> xstate \<Rightarrow> xstate option" where "shr_impl = binary_impl shr_data"

subsection \<open>Multiplication\<close>

text \<open>The part of a product that \<^verbatim>\<open>.wide\<close>, \<^verbatim>\<open>.hi\<close> and \<^verbatim>\<open>.lo\<close> select, in the order of the tests.\<close>

definition select_whl :: "ptx_instruction \<Rightarrow> 'a option \<Rightarrow> 'a option \<Rightarrow> 'a option \<Rightarrow> 'a option" where
  "select_whl pI w h l = (if pi_wide pI then w else if pi_hi pI then h else if pi_lo pI then l else None)"

definition select_wlh :: "ptx_instruction \<Rightarrow> 'a option \<Rightarrow> 'a option \<Rightarrow> 'a option \<Rightarrow> 'a option" where
  "select_wlh pI w h l = (if pi_wide pI then w else if pi_lo pI then l else if pi_hi pI then h else None)"

definition mul_data :: "fpu \<Rightarrow> ptx_instruction \<Rightarrow> ptx_type \<Rightarrow> ptx_reg_t \<Rightarrow> ptx_reg_t \<Rightarrow> ptx_reg_t option" where
  "mul_data fp pI t a b =
     (case t of
        S16_TYPE \<Rightarrow> (let p = scast (reg_u16 a) * scast (reg_u16 b) :: 32 word in
          select_whl pI (Some (set_u32 0 p)) (Some (set_u16 0 (ucast (signed_drop_bit 16 p)))) (Some (set_u16 0 (ucast p))))
      | S32_TYPE \<Rightarrow> (let p = scast (reg_u32 a) * scast (reg_u32 b) :: 64 word in
          select_whl pI (Some (set_u64 0 p)) (Some (set_u32 0 (ucast (signed_drop_bit 32 p)))) (Some (set_u32 0 (ucast p))))
      | S64_TYPE \<Rightarrow> select_whl pI None None (Some (set_u64 0 (reg_u64 a * reg_u64 b)))
      | U16_TYPE \<Rightarrow> (let p = ucast (reg_u16 a) * ucast (reg_u16 b) :: 32 word in
          select_wlh pI (Some (set_u32 0 p)) (Some (set_u16 0 (ucast (drop_bit 16 p)))) (Some (set_u16 0 (ucast p))))
      | U32_TYPE \<Rightarrow> (let p = ucast (reg_u32 a) * ucast (reg_u32 b) :: 64 word in
          select_wlh pI (Some (set_u64 0 p)) (Some (set_u32 0 (ucast (drop_bit 32 p)))) (Some (set_u32 0 (ucast p))))
      | U64_TYPE \<Rightarrow> select_whl pI None None (Some (set_u64 0 (reg_u64 a * reg_u64 b)))
      | F32_TYPE \<Rightarrow> do {
          m \<leftarrow> host_mode (pi_rounding_mode pI);
          Some (set_u32 0 (saturate32 (pi_saturation_mode pI) (fp_mul32 fp m (reg_u32 a) (reg_u32 b)))) }
      | F64_TYPE \<Rightarrow> do {
          m \<leftarrow> host_mode (pi_rounding_mode pI);
          Some (set_u64 0 (saturate64 (pi_saturation_mode pI) (fp_mul64 fp m (reg_u64 a) (reg_u64 b)))) }
      | FF64_TYPE \<Rightarrow> do {
          m \<leftarrow> host_mode (pi_rounding_mode pI);
          Some (set_u64 0 (saturate64 (pi_saturation_mode pI) (fp_mul64 fp m (reg_u64 a) (reg_u64 b)))) }
      | _ \<Rightarrow> None)"

definition mul_impl :: "fpu \<Rightarrow> ptx_instruction \<Rightarrow> xstate \<Rightarrow> xstate option" where
  "mul_impl fp pI = binary_impl (mul_data fp pI) pI"

definition sext24 :: "ptx_reg_t \<Rightarrow> ptx_reg_t" where
  "sext24 r = (if get_bit r 23 then mask_or r 0xFFFFFFFF 0xFF000000 else r)"

definition mul24_data :: "ptx_instruction \<Rightarrow> ptx_type \<Rightarrow> ptx_reg_t \<Rightarrow> ptx_reg_t \<Rightarrow> ptx_reg_t option" where
  "mul24_data pI t a b = do {
     let a = mask_and a 0 0x00FFFFFF;
     let b = mask_and b 0 0x00FFFFFF;
     d \<leftarrow> (case t of
            S32_TYPE \<Rightarrow> Some (set_u64 0 (reg_u64 (sext24 a) * reg_u64 (sext24 b)))
          | U32_TYPE \<Rightarrow> Some (set_u64 0 (reg_u64 a * reg_u64 b))
          | _ \<Rightarrow> None);
     Some (if pi_hi pI then mask_and (set_u64 d (drop_bit 16 (reg_u64 d))) 0 0xFFFFFFFF
           else if pi_lo pI then mask_and d 0 0xFFFFFFFF else d)
   }"

definition mul24_impl :: "ptx_instruction \<Rightarrow> xstate \<Rightarrow> xstate option" where
  "mul24_impl pI = binary_impl (mul24_data pI) pI"

text \<open>
  Multiply and add.  The product of two 32-bit operands is an \<^verbatim>\<open>int\<close> (or \<^verbatim>\<open>unsigned\<close>) that is extended after the
  multiplication.  The addition of 16-bit unsigned operands for \<^verbatim>\<open>.hi\<close> precedes the shift.
\<close>

definition mad_carry :: "ptx_reg_t \<Rightarrow> 4 word" where
  "mad_carry c = drop_bit 2 (reg_pred c AND 0x4)"

definition mad_data :: "fpu \<Rightarrow> ptx_instruction \<Rightarrow> bool \<Rightarrow> ptx_type \<Rightarrow> ptx_reg_t \<Rightarrow> ptx_reg_t \<Rightarrow> ptx_reg_t \<Rightarrow> 4 word
    \<Rightarrow> (ptx_reg_t \<times> bool) option" where
  "mad_data fp pI use_carry t a b c cy =
     (case t of
        S16_TYPE \<Rightarrow> do {
          let p = (scast (reg_u16 a) * scast (reg_u16 b) :: 32 word);
          d \<leftarrow> select_whl pI (Some (set_u32 0 (p + reg_u32 c + ucast cy)))
                 (Some (set_u16 0 (ucast (signed_drop_bit 16 p) + reg_u16 c + ucast cy)))
                 (Some (set_u16 0 (ucast p + reg_u16 c + ucast cy)));
          Some (d, bit (scast (p + reg_u32 c + ucast cy) :: 64 word) 32) }
      | S32_TYPE \<Rightarrow> do {
          let p = (scast (reg_u32 a * reg_u32 b) :: 64 word);
          d \<leftarrow> select_whl pI (Some (set_u64 0 (p + reg_u64 c + ucast cy)))
                 (Some (set_u32 0 (ucast (signed_drop_bit 32 p) + reg_u32 c + ucast cy)))
                 (Some (set_u32 0 (ucast p + reg_u32 c + ucast cy)));
          Some (d, False) }
      | S64_TYPE \<Rightarrow> do {
          assert_that (\<not> use_carry);
          d \<leftarrow> select_whl pI None None (Some (set_u64 0 (reg_u64 a * reg_u64 b + reg_u64 c + ucast cy)));
          Some (d, False) }
      | U16_TYPE \<Rightarrow> do {
          let p = (ucast (reg_u16 a) * ucast (reg_u16 b) :: 32 word);
          d \<leftarrow> select_whl pI (Some (set_u32 0 (p + reg_u32 c + ucast cy)))
                 (Some (set_u16 0 (ucast (drop_bit 16 (p + ucast (reg_u16 c) + ucast cy)))))
                 (Some (set_u16 0 (ucast p + reg_u16 c + ucast cy)));
          Some (d, bit (ucast p + ucast (reg_u32 c) + ucast cy :: 64 word) 32) }
      | U32_TYPE \<Rightarrow> do {
          let p = (ucast (reg_u32 a * reg_u32 b) :: 64 word);
          d \<leftarrow> select_whl pI (Some (set_u64 0 (p + reg_u64 c + ucast cy)))
                 (Some (set_u32 0 (ucast (drop_bit 32 (p + ucast (reg_u32 c) + ucast cy)))))
                 (Some (set_u32 0 (ucast p + reg_u32 c + ucast cy)));
          Some (d, False) }
      | U64_TYPE \<Rightarrow> do {
          assert_that (\<not> use_carry);
          d \<leftarrow> select_whl pI None None (Some (set_u64 0 (reg_u64 a * reg_u64 b + reg_u64 c + ucast cy)));
          Some (d, False) }
      | F32_TYPE \<Rightarrow> do {
          assert_that (\<not> use_carry);
          m \<leftarrow> host_mode (pi_rounding_mode pI);
          Some (set_u32 0 (saturate32 (pi_saturation_mode pI)
                  (fp_add32 fp m (fp_mul32 fp m (reg_u32 a) (reg_u32 b)) (reg_u32 c))), False) }
      | _ \<Rightarrow> (if t = F64_TYPE \<or> t = FF64_TYPE then do {
          assert_that (\<not> use_carry);
          m \<leftarrow> host_mode (pi_rounding_mode pI);
          Some (set_u64 0 (saturate64 (pi_saturation_mode pI)
                  (fp_add64 fp m (fp_mul64 fp m (reg_u64 a) (reg_u64 b)) (reg_u64 c))), False) } else None))"

definition mad_def :: "fpu \<Rightarrow> bool \<Rightarrow> ptx_instruction \<Rightarrow> xstate \<Rightarrow> xstate option" where
  "mad_def fp use_carry pI s = do {
     dst \<leftarrow> pi_dst pI; src1 \<leftarrow> pi_src1 pI; src2 \<leftarrow> pi_src2 pI; src3 \<leftarrow> pi_src3 pI; t \<leftarrow> get_type pI;
     (a, s) \<leftarrow> get_operand_value src1 dst t True s;
     (b, s) \<leftarrow> get_operand_value src2 dst t True s;
     (c, s) \<leftarrow> get_operand_value src3 dst t True s;
     (cy, s) \<leftarrow> (if use_carry then do {
                   src4 \<leftarrow> pi_operand pI 4;
                   (r, s) \<leftarrow> get_operand_value src4 dst PRED_TYPE False s;
                   Some (mad_carry r, s)
                 } else Some (0, s));
     (d, carry) \<leftarrow> mad_data fp pI use_carry t a b c cy;
     set_operand_value_flags dst d t False carry s
   }"

definition mad_impl :: "fpu \<Rightarrow> ptx_instruction \<Rightarrow> xstate \<Rightarrow> xstate option" where "mad_impl fp = mad_def fp False"
definition madp_impl :: "fpu \<Rightarrow> ptx_instruction \<Rightarrow> xstate \<Rightarrow> xstate option" where "madp_impl fp = mad_def fp True"
definition fma_impl :: "fpu \<Rightarrow> ptx_instruction \<Rightarrow> xstate \<Rightarrow> xstate option" where "fma_impl fp = mad_def fp False"

text \<open>\<^verbatim>\<open>mad24\<close> multiplies all 32 bits of its operands.\<close>

definition mad24_data :: "ptx_instruction \<Rightarrow> ptx_type \<Rightarrow> ptx_reg_t \<Rightarrow> ptx_reg_t \<Rightarrow> ptx_reg_t \<Rightarrow> ptx_reg_t option" where
  "mad24_data pI t a b c =
     (case t of
        S32_TYPE \<Rightarrow> (let p = scast (reg_u32 a * reg_u32 b) :: 64 word in
          if pi_hi pI then (let d = signed_drop_bit 16 p + scast (reg_u32 c) in
            Some (set_u64 0 (if pi_saturation_mode pI
                             then (if sint d > 0x7FFFFFFF then 0x7FFFFFFF else if sint d < - 0x80000000 then - 0x80000000 else d)
                             else d)))
          else if pi_lo pI then Some (set_u64 0 (scast (ucast p + reg_u32 c :: 32 word))) else None)
      | U32_TYPE \<Rightarrow> (let p = ucast (reg_u32 a * reg_u32 b) :: 64 word in
          if pi_hi pI then Some (set_u64 0 (drop_bit 16 p + ucast (reg_u32 c)))
          else if pi_lo pI then Some (set_u64 0 (ucast (ucast p + reg_u32 c :: 32 word))) else None)
      | _ \<Rightarrow> None)"

definition mad24_impl :: "ptx_instruction \<Rightarrow> xstate \<Rightarrow> xstate option" where
  "mad24_impl pI s = do {
     dst \<leftarrow> pi_dst pI; src1 \<leftarrow> pi_src1 pI; src2 \<leftarrow> pi_src2 pI; src3 \<leftarrow> pi_src3 pI; t \<leftarrow> get_type pI;
     (a, s) \<leftarrow> get_operand_value src1 dst t True s;
     (b, s) \<leftarrow> get_operand_value src2 dst t True s;
     (c, s) \<leftarrow> get_operand_value src3 dst t True s;
     assert_that (\<not> pi_wide pI);
     d \<leftarrow> mad24_data pI t a b c;
     set_operand_value dst d t s
   }"

subsection \<open>Division, extrema, differences\<close>

text \<open>Operands narrower than \<^verbatim>\<open>int\<close> are promoted; the quotient of the least 32- or 64-bit number by -1 traps.\<close>

definition sdiv_word :: "'a::len word \<Rightarrow> 'a word \<Rightarrow> 'a word option" where
  "sdiv_word a b = do { assert_that (b \<noteq> 0); Some (word_of_int (cdiv (sint a) (sint b))) }"

definition sdiv_trap :: "'a::len word \<Rightarrow> 'a word \<Rightarrow> 'a word option" where
  "sdiv_trap a b = do {
     assert_that (\<not> (sint a = - (2 ^ (LENGTH('a) - 1)) \<and> sint b = - 1));
     sdiv_word a b
   }"

definition udiv_word :: "'a::len word \<Rightarrow> 'a word \<Rightarrow> 'a word option" where
  "udiv_word a b = do { assert_that (b \<noteq> 0); Some (a div b) }"

definition div_data :: "fpu \<Rightarrow> ptx_type \<Rightarrow> ptx_reg_t \<Rightarrow> ptx_reg_t \<Rightarrow> ptx_reg_t option" where
  "div_data fp t a b =
     (if t = S8_TYPE then map_option (set_u8 0) (sdiv_word (reg_u8 a) (reg_u8 b))
      else if t = S16_TYPE then map_option (set_u16 0) (sdiv_word (reg_u16 a) (reg_u16 b))
      else if t = S32_TYPE then map_option (set_u32 0) (sdiv_trap (reg_u32 a) (reg_u32 b))
      else if t = S64_TYPE then map_option (set_u64 0) (sdiv_trap (reg_u64 a) (reg_u64 b))
      else if t = U8_TYPE \<or> t = B8_TYPE then map_option (set_u8 0) (udiv_word (reg_u8 a) (reg_u8 b))
      else if t = U16_TYPE \<or> t = B16_TYPE then map_option (set_u16 0) (udiv_word (reg_u16 a) (reg_u16 b))
      else if t = U32_TYPE \<or> t = B32_TYPE then map_option (set_u32 0) (udiv_word (reg_u32 a) (reg_u32 b))
      else if t = U64_TYPE \<or> t = B64_TYPE then map_option (set_u64 0) (udiv_word (reg_u64 a) (reg_u64 b))
      else if t = F32_TYPE then Some (set_u32 0 (fp_div32 fp FE_TONEAREST (reg_u32 a) (reg_u32 b)))
      else if t = F64_TYPE \<or> t = FF64_TYPE then Some (set_u64 0 (fp_div64 fp FE_TONEAREST (reg_u64 a) (reg_u64 b)))
      else None)"

definition div_impl :: "fpu \<Rightarrow> ptx_instruction \<Rightarrow> xstate \<Rightarrow> xstate option" where "div_impl fp = binary_impl (div_data fp)"

text \<open>The remainder of all types is that of the unsigned 64-bit members.\<close>

definition rem_data :: "ptx_type \<Rightarrow> ptx_reg_t \<Rightarrow> ptx_reg_t \<Rightarrow> ptx_reg_t option" where
  "rem_data t a b = do { assert_that (reg_u64 b \<noteq> 0); Some (set_u64 0 (reg_u64 a mod reg_u64 b)) }"

definition rem_impl :: "ptx_instruction \<Rightarrow> xstate \<Rightarrow> xstate option" where "rem_impl = binary_impl rem_data"

definition smax :: "'a::len word \<Rightarrow> 'a word \<Rightarrow> 'a word" where "smax a b = (if sint a > sint b then a else b)"
definition umax :: "'a::len word \<Rightarrow> 'a word \<Rightarrow> 'a word" where "umax a b = (if a > b then a else b)"
definition smin :: "'a::len word \<Rightarrow> 'a word \<Rightarrow> 'a word" where "smin a b = (if sint a < sint b then a else b)"
definition umin :: "'a::len word \<Rightarrow> 'a word \<Rightarrow> 'a word" where "umin a b = (if a < b then a else b)"

definition fmax32 :: "32 word \<Rightarrow> 32 word \<Rightarrow> 32 word" where
  "fmax32 a b = (if f32_isNaN a then b else if f32_isNaN b then a else if f32_lt b a then a else b)"

definition fmin32 :: "32 word \<Rightarrow> 32 word \<Rightarrow> 32 word" where
  "fmin32 a b = (if f32_isNaN a then b else if f32_isNaN b then a else if f32_lt a b then a else b)"

definition fmax64 :: "64 word \<Rightarrow> 64 word \<Rightarrow> 64 word" where
  "fmax64 a b = (if f64_isNaN a then b else if f64_isNaN b then a else if f64_lt b a then a else b)"

definition fmin64 :: "64 word \<Rightarrow> 64 word \<Rightarrow> 64 word" where
  "fmin64 a b = (if f64_isNaN a then b else if f64_isNaN b then a else if f64_lt a b then a else b)"

definition max_data :: "ptx_type \<Rightarrow> ptx_reg_t \<Rightarrow> ptx_reg_t \<Rightarrow> ptx_reg_t option" where
  "max_data t a b =
     (case t of
        U16_TYPE \<Rightarrow> Some (set_u16 0 (umax (reg_u16 a) (reg_u16 b)))
      | U32_TYPE \<Rightarrow> Some (set_u32 0 (umax (reg_u32 a) (reg_u32 b)))
      | U64_TYPE \<Rightarrow> Some (set_u64 0 (umax (reg_u64 a) (reg_u64 b)))
      | S16_TYPE \<Rightarrow> Some (set_u16 0 (smax (reg_u16 a) (reg_u16 b)))
      | S32_TYPE \<Rightarrow> Some (set_u32 0 (smax (reg_u32 a) (reg_u32 b)))
      | S64_TYPE \<Rightarrow> Some (set_u64 0 (smax (reg_u64 a) (reg_u64 b)))
      | F32_TYPE \<Rightarrow> Some (set_u32 0 (fmax32 (reg_u32 a) (reg_u32 b)))
      | F64_TYPE \<Rightarrow> Some (set_u64 0 (fmax64 (reg_u64 a) (reg_u64 b)))
      | FF64_TYPE \<Rightarrow> Some (set_u64 0 (fmax64 (reg_u64 a) (reg_u64 b)))
      | _ \<Rightarrow> None)"

definition min_data :: "ptx_type \<Rightarrow> ptx_reg_t \<Rightarrow> ptx_reg_t \<Rightarrow> ptx_reg_t option" where
  "min_data t a b =
     (case t of
        U16_TYPE \<Rightarrow> Some (set_u16 0 (umin (reg_u16 a) (reg_u16 b)))
      | U32_TYPE \<Rightarrow> Some (set_u32 0 (umin (reg_u32 a) (reg_u32 b)))
      | U64_TYPE \<Rightarrow> Some (set_u64 0 (umin (reg_u64 a) (reg_u64 b)))
      | S16_TYPE \<Rightarrow> Some (set_u16 0 (smin (reg_u16 a) (reg_u16 b)))
      | S32_TYPE \<Rightarrow> Some (set_u32 0 (smin (reg_u32 a) (reg_u32 b)))
      | S64_TYPE \<Rightarrow> Some (set_u64 0 (smin (reg_u64 a) (reg_u64 b)))
      | F32_TYPE \<Rightarrow> Some (set_u32 0 (fmin32 (reg_u32 a) (reg_u32 b)))
      | F64_TYPE \<Rightarrow> Some (set_u64 0 (fmin64 (reg_u64 a) (reg_u64 b)))
      | FF64_TYPE \<Rightarrow> Some (set_u64 0 (fmin64 (reg_u64 a) (reg_u64 b)))
      | _ \<Rightarrow> None)"

definition max_impl :: "ptx_instruction \<Rightarrow> xstate \<Rightarrow> xstate option" where "max_impl = binary_impl max_data"
definition min_impl :: "ptx_instruction \<Rightarrow> xstate \<Rightarrow> xstate option" where "min_impl = binary_impl min_data"

text \<open>The negation of the narrow types leaves the upper bits of the 64-bit difference in the register.\<close>

definition neg_data :: "fpu \<Rightarrow> ptx_type \<Rightarrow> ptx_reg_t \<Rightarrow> ptx_reg_t option" where
  "neg_data fp t a =
     (if t \<in> {S8_TYPE, S16_TYPE, S32_TYPE, S64_TYPE} then Some (set_u64 0 (0 - reg_u64 a))
      else if t = F32_TYPE then Some (set_u32 0 (fp_sub32 fp FE_TONEAREST 0 (reg_u32 a)))
      else if t = F64_TYPE \<or> t = FF64_TYPE then Some (set_u64 0 (fp_sub64 fp FE_TONEAREST 0 (reg_u64 a)))
      else None)"

definition neg_impl :: "fpu \<Rightarrow> ptx_instruction \<Rightarrow> xstate \<Rightarrow> xstate option" where "neg_impl fp = unary_impl (neg_data fp)"

definition usad :: "'a::len word \<Rightarrow> 'a word \<Rightarrow> 'a word \<Rightarrow> 'a word" where
  "usad a b c = c + (if a < b then b - a else a - b)"

definition ssad :: "'a::len word \<Rightarrow> 'a word \<Rightarrow> 'a word \<Rightarrow> 'a word" where
  "ssad a b c = c + (if sint a < sint b then b - a else a - b)"

definition sad_data :: "fpu \<Rightarrow> ptx_type \<Rightarrow> ptx_reg_t \<Rightarrow> ptx_reg_t \<Rightarrow> ptx_reg_t \<Rightarrow> ptx_reg_t option" where
  "sad_data fp t a b c =
     (let sad64 = (let x = reg_u64 a; y = reg_u64 b in
            fp_add64 fp FE_TONEAREST (reg_u64 c) (if f64_lt x y then fp_sub64 fp FE_TONEAREST y x else fp_sub64 fp FE_TONEAREST x y))
      in case t of
        U16_TYPE \<Rightarrow> Some (set_u16 0 (usad (reg_u16 a) (reg_u16 b) (reg_u16 c)))
      | U32_TYPE \<Rightarrow> Some (set_u32 0 (usad (reg_u32 a) (reg_u32 b) (reg_u32 c)))
      | U64_TYPE \<Rightarrow> Some (set_u64 0 (usad (reg_u64 a) (reg_u64 b) (reg_u64 c)))
      | S16_TYPE \<Rightarrow> Some (set_u16 0 (ssad (reg_u16 a) (reg_u16 b) (reg_u16 c)))
      | S32_TYPE \<Rightarrow> Some (set_u32 0 (ssad (reg_u32 a) (reg_u32 b) (reg_u32 c)))
      | S64_TYPE \<Rightarrow> Some (set_u64 0 (ssad (reg_u64 a) (reg_u64 b) (reg_u64 c)))
      | F32_TYPE \<Rightarrow> (let x = reg_u32 a; y = reg_u32 b in
          Some (set_u32 0 (fp_add32 fp FE_TONEAREST (reg_u32 c)
            (if f32_lt x y then fp_sub32 fp FE_TONEAREST y x else fp_sub32 fp FE_TONEAREST x y))))
      | F64_TYPE \<Rightarrow> Some (set_u64 0 sad64)
      | FF64_TYPE \<Rightarrow> Some (set_u64 0 sad64)
      | _ \<Rightarrow> None)"

text \<open>All three sources of \<^verbatim>\<open>sad\<close> are the first operand.\<close>

definition sad_impl :: "fpu \<Rightarrow> ptx_instruction \<Rightarrow> xstate \<Rightarrow> xstate option" where
  "sad_impl fp pI s = do {
     dst \<leftarrow> pi_dst pI; src1 \<leftarrow> pi_src1 pI; src2 \<leftarrow> pi_src1 pI; src3 \<leftarrow> pi_src1 pI; t \<leftarrow> get_type pI;
     (a, s) \<leftarrow> get_operand_value src1 dst t True s;
     (b, s) \<leftarrow> get_operand_value src2 dst t True s;
     (c, s) \<leftarrow> get_operand_value src3 dst t True s;
     d \<leftarrow> sad_data fp t a b c;
     set_operand_value dst d t s
   }"

subsection \<open>Comparison and selection\<close>

definition selp_impl :: "ptx_instruction \<Rightarrow> xstate \<Rightarrow> xstate option" where
  "selp_impl pI s = do {
     dst \<leftarrow> pi_dst pI; src1 \<leftarrow> pi_src1 pI; src2 \<leftarrow> pi_src2 pI; src3 \<leftarrow> pi_src3 pI; t \<leftarrow> get_type pI;
     (a, s) \<leftarrow> get_operand_value src1 dst t True s;
     (b, s) \<leftarrow> get_operand_value src2 dst t True s;
     (c, s) \<leftarrow> get_operand_value src3 dst t True s;
     set_operand_value dst (if reg_pred c AND 1 = 0 then a else b) PRED_TYPE s
   }"

definition equality_op :: "compare_op \<Rightarrow> bool \<Rightarrow> bool option" where
  "equality_op c eq = (case c of EQ_OPTION \<Rightarrow> Some eq | NE_OPTION \<Rightarrow> Some (\<not> eq) | _ \<Rightarrow> None)"

definition signed_op :: "compare_op \<Rightarrow> int \<Rightarrow> int \<Rightarrow> bool option" where
  "signed_op c a b =
     (case c of
        EQ_OPTION \<Rightarrow> Some (a = b) | NE_OPTION \<Rightarrow> Some (a \<noteq> b) | LT_OPTION \<Rightarrow> Some (a < b)
      | LE_OPTION \<Rightarrow> Some (a \<le> b) | GT_OPTION \<Rightarrow> Some (a > b) | GE_OPTION \<Rightarrow> Some (a \<ge> b)
      | _ \<Rightarrow> None)"

definition unsigned_op :: "compare_op \<Rightarrow> 'a::len word \<Rightarrow> 'a word \<Rightarrow> bool option" where
  "unsigned_op c a b =
     (case c of
        EQ_OPTION \<Rightarrow> Some (a = b) | NE_OPTION \<Rightarrow> Some (a \<noteq> b) | LT_OPTION \<Rightarrow> Some (a < b)
      | LE_OPTION \<Rightarrow> Some (a \<le> b) | GT_OPTION \<Rightarrow> Some (a > b) | GE_OPTION \<Rightarrow> Some (a \<ge> b)
      | LO_OPTION \<Rightarrow> Some (a < b) | LS_OPTION \<Rightarrow> Some (a \<le> b) | HI_OPTION \<Rightarrow> Some (a > b) | HS_OPTION \<Rightarrow> Some (a \<ge> b)
      | _ \<Rightarrow> None)"

text \<open>Comparison of floating-point numbers, given the order and the presence of a NaN; C++ makes \<^verbatim>\<open>!=\<close> true for a NaN.\<close>

definition float_op :: "compare_op \<Rightarrow> bool \<Rightarrow> bool \<Rightarrow> bool \<Rightarrow> bool \<Rightarrow> bool option" where
  "float_op c lt eq gt nan =
     (case c of
        EQ_OPTION \<Rightarrow> Some (eq \<and> \<not> nan) | NE_OPTION \<Rightarrow> Some (\<not> eq \<and> \<not> nan) | LT_OPTION \<Rightarrow> Some (lt \<and> \<not> nan)
      | LE_OPTION \<Rightarrow> Some ((lt \<or> eq) \<and> \<not> nan) | GT_OPTION \<Rightarrow> Some (gt \<and> \<not> nan) | GE_OPTION \<Rightarrow> Some ((gt \<or> eq) \<and> \<not> nan)
      | EQU_OPTION \<Rightarrow> Some (eq \<or> nan) | NEU_OPTION \<Rightarrow> Some (\<not> eq \<or> nan) | LTU_OPTION \<Rightarrow> Some (lt \<or> nan)
      | LEU_OPTION \<Rightarrow> Some (lt \<or> eq \<or> nan) | GTU_OPTION \<Rightarrow> Some (gt \<or> nan) | GEU_OPTION \<Rightarrow> Some (gt \<or> eq \<or> nan)
      | NUM_OPTION \<Rightarrow> Some (\<not> nan) | NAN_OPTION \<Rightarrow> Some nan
      | _ \<Rightarrow> None)"

text \<open>The cases of \<^verbatim>\<open>B16\<close> and \<^verbatim>\<open>B32\<close> fall through to \<^verbatim>\<open>B64\<close>, and those of 8 bits compare 16.\<close>

definition CmpOp :: "ptx_type \<Rightarrow> ptx_reg_t \<Rightarrow> ptx_reg_t \<Rightarrow> compare_op option \<Rightarrow> bool option" where
  "CmpOp t a b cmpop = do {
     c \<leftarrow> cmpop;
     (if t \<in> {B16_TYPE, B32_TYPE, B64_TYPE} then equality_op c (reg_u64 a = reg_u64 b)
      else if t \<in> {S8_TYPE, S16_TYPE} then signed_op c (reg_s16 a) (reg_s16 b)
      else if t = S32_TYPE then signed_op c (reg_s32 a) (reg_s32 b)
      else if t = S64_TYPE then signed_op c (reg_s64 a) (reg_s64 b)
      else if t \<in> {U8_TYPE, U16_TYPE} then unsigned_op c (reg_u16 a) (reg_u16 b)
      else if t = U32_TYPE then unsigned_op c (reg_u32 a) (reg_u32 b)
      else if t = U64_TYPE then unsigned_op c (reg_u64 a) (reg_u64 b)
      else if t = F32_TYPE then (let x = reg_u32 a; y = reg_u32 b in
        float_op c (f32_lt x y) (f32_eq x y) (f32_lt y x) (f32_isNaN x \<or> f32_isNaN y))
      else if t = F64_TYPE \<or> t = FF64_TYPE then (let x = reg_u64 a; y = reg_u64 b in
        float_op c (f64_lt x y) (f64_eq x y) (f64_lt y x) (f64_isNaN x \<or> f64_isNaN y))
      else None)
   }"

definition setp_impl :: "ptx_instruction \<Rightarrow> xstate \<Rightarrow> xstate option" where
  "setp_impl pI s = do {
     dst \<leftarrow> pi_dst pI; src1 \<leftarrow> pi_src1 pI; src2 \<leftarrow> pi_src2 pI;
     assert_that (length (pi_operands pI) < 4);
     t \<leftarrow> get_type pI;
     (a, s) \<leftarrow> get_operand_value src1 dst t True s;
     (b, s) \<leftarrow> get_operand_value src2 dst t True s;
     r \<leftarrow> CmpOp t a b (pi_compare_op pI);
     set_operand_value dst (set_pred 0 (if r then 0 else 1)) PRED_TYPE s
   }"

definition set_abs :: "ptx_type \<Rightarrow> ptx_reg_t \<Rightarrow> ptx_reg_t option" where
  "set_abs t a =
     (case t of
        S16_TYPE \<Rightarrow> Some (set_u16 a (my_abs (reg_u16 a)))
      | S32_TYPE \<Rightarrow> Some (set_u32 a (my_abs (reg_u32 a)))
      | S64_TYPE \<Rightarrow> Some (set_u64 a (my_abs (reg_u64 a)))
      | U16_TYPE \<Rightarrow> Some a | U32_TYPE \<Rightarrow> Some a | U64_TYPE \<Rightarrow> Some a
      | F32_TYPE \<Rightarrow> Some (set_u32 a (if f32_lt (reg_u32 a) 0 then f32_neg (reg_u32 a) else reg_u32 a))
      | F64_TYPE \<Rightarrow> Some (set_u64 a (if f64_lt (reg_u64 a) 0 then f64_neg (reg_u64 a) else reg_u64 a))
      | FF64_TYPE \<Rightarrow> Some (set_u64 a (if f64_lt (reg_u64 a) 0 then f64_neg (reg_u64 a) else reg_u64 a))
      | _ \<Rightarrow> None)"

definition set_impl :: "ptx_instruction \<Rightarrow> xstate \<Rightarrow> xstate option" where
  "set_impl pI s = do {
     dst \<leftarrow> pi_dst pI; src1 \<leftarrow> pi_src1 pI; src2 \<leftarrow> pi_src2 pI;
     assert_that (length (pi_operands pI) < 4);
     src_type \<leftarrow> get_type2 pI;
     (a, s) \<leftarrow> get_operand_value src1 dst src_type True s;
     (b, s) \<leftarrow> get_operand_value src2 dst src_type True s;
     a \<leftarrow> (if pi_abs pI then set_abs src_type a else Some a);
     r \<leftarrow> CmpOp src_type a b (pi_compare_op pI);
     t \<leftarrow> get_type pI;
     let data = set_u32 0 (if is_float_type t then (if r then F32_ONE else 0) else (if r then 0xFFFFFFFF else 0));
     set_operand_value dst data t s
   }"

definition slct_impl :: "ptx_instruction \<Rightarrow> xstate \<Rightarrow> xstate option" where
  "slct_impl pI s = do {
     dst \<leftarrow> pi_dst pI; src1 \<leftarrow> pi_src1 pI; src2 \<leftarrow> pi_src2 pI; src3 \<leftarrow> pi_src3 pI;
     t \<leftarrow> get_type pI; c_type \<leftarrow> get_type2 pI;
     (a, s) \<leftarrow> get_operand_value src1 dst t True s;
     (b, s) \<leftarrow> get_operand_value src2 dst t True s;
     (c, s) \<leftarrow> get_operand_value src3 dst c_type True s;
     r \<leftarrow> (if c_type = S32_TYPE then Some (reg_s32 c \<ge> 0)
          else if c_type = F32_TYPE then Some (f32_lt 0 (reg_u32 c) \<or> f32_eq 0 (reg_u32 c))
          else None);
     let v = (if r then a else b);
     d \<leftarrow> (if t \<in> {B16_TYPE, U16_TYPE} then Some (set_u16 0 (reg_u16 v))
          else if t \<in> {F32_TYPE, B32_TYPE, U32_TYPE} then Some (set_u32 0 (reg_u32 v))
          else if t \<in> {F64_TYPE, FF64_TYPE, B64_TYPE, U64_TYPE} then Some (set_u64 0 (reg_u64 v))
          else None);
     set_operand_value dst d t s
   }"

subsection \<open>Moving, packing and unpacking\<close>

fun pack_bits :: "nat \<Rightarrow> nat \<Rightarrow> ptx_reg_t list \<Rightarrow> 64 word \<Rightarrow> 64 word option" where
  "pack_bits w i [] acc = Some acc"
| "pack_bits w i (v # vs) acc = do {
     assert_that (w \<in> {8, 16, 32});
     pack_bits w (Suc i) vs (acc OR push_bit (w * i) (take_bit w (reg_u64 v)))
   }"

fun unpack_bits :: "nat \<Rightarrow> nat \<Rightarrow> nat \<Rightarrow> 64 word \<Rightarrow> ptx_reg_t list option" where
  "unpack_bits w i 0 bits = Some []"
| "unpack_bits w i (Suc n) bits = do {
     assert_that (w \<in> {8, 16, 32});
     vs \<leftarrow> unpack_bits w (Suc i) n bits;
     Some (put_low w 0 (ucast (drop_bit (w * i) bits AND mask w)) # vs)
   }"

definition nbits_to_move :: "ptx_type \<Rightarrow> nat option" where
  "nbits_to_move t = (case t of B16_TYPE \<Rightarrow> Some 16 | B32_TYPE \<Rightarrow> Some 32 | B64_TYPE \<Rightarrow> Some 64 | _ \<Rightarrow> None)"

definition mov_vector :: "operand_info \<Rightarrow> operand_info \<Rightarrow> ptx_type \<Rightarrow> xstate \<Rightarrow> xstate option" where
  "mov_vector dst src1 t s = do {
     nb \<leftarrow> nbits_to_move t;
     (bits, s) \<leftarrow>
       (if op_vector src1 then do {
          n \<leftarrow> get_vect_nelem src1;
          v \<leftarrow> get_vector_operand_values src1 (replicate 4 0) n s;
          assert_that (n \<noteq> 0);
          bits \<leftarrow> pack_bits (nb div n) 0 (take n v) 0;
          Some (bits, s)
        } else do {
          (data, s) \<leftarrow> get_operand_value src1 dst t True s;
          Some (take_bit nb (reg_u64 data), s)
        });
     (if op_vector dst then do {
        n \<leftarrow> get_vect_nelem dst;
        assert_that (n \<noteq> 0);
        v \<leftarrow> unpack_bits (nb div n) 0 n bits;
        let v = v @ replicate (4 - n) 0;
        set_vector_operand_values dst (v ! 0) (v ! 1) (v ! 2) (v ! 3) s
      }
      else set_operand_value dst (set_u64 0 bits) t s)
   }"

definition mov_impl :: "ptx_instruction \<Rightarrow> xstate \<Rightarrow> xstate option" where
  "mov_impl pI s = do {
     dst \<leftarrow> pi_dst pI; src1 \<leftarrow> pi_src1 pI; t \<leftarrow> get_type pI;
     (if (op_vector src1 \<or> op_vector dst) \<and> t \<notin> {BB64_TYPE, BB128_TYPE, FF64_TYPE} then mov_vector dst src1 t s
      else do {
        (data, s) \<leftarrow> get_operand_value src1 dst t True s;
        set_operand_value dst data t s
      })
   }"

subsection \<open>Conversion\<close>

definition chop :: "ptx_reg_t \<Rightarrow> nat \<Rightarrow> ptx_reg_t option" where
  "chop x to_width =
     (if to_width = 8 then Some (mask_and x 0 0xFF)
      else if to_width = 16 then Some (mask_and x 0 0xFFFF)
      else if to_width = 32 then Some (mask_and x 0 0xFFFFFFFF)
      else if to_width = 64 then Some x
      else None)"

text \<open>Sign extension from the bit below \<open>w\<close>.\<close>

definition sign_fill :: "ptx_reg_t \<Rightarrow> nat \<Rightarrow> ptx_reg_t option" where
  "sign_fill x w =
     (if w = 8 then Some (if get_bit x 7 then mask_or x 0xFFFFFFFF 0xFFFFFF00 else x)
      else if w = 16 then Some (if get_bit x 15 then mask_or x 0xFFFFFFFF 0xFFFF0000 else x)
      else if w = 32 then Some (if get_bit x 31 then mask_or x 0xFFFFFFFF 0x00000000 else x)
      else if w = 64 then Some x
      else None)"

definition sext :: "ptx_reg_t \<Rightarrow> nat \<Rightarrow> nat \<Rightarrow> ptx_reg_t option" where
  "sext x from_width to_width = do { x \<leftarrow> chop x from_width; sign_fill x from_width }"

definition sexd :: "ptx_reg_t \<Rightarrow> nat \<Rightarrow> nat \<Rightarrow> ptx_reg_t option" where
  "sexd x from_width to_width = do { x \<leftarrow> chop x from_width; sign_fill x to_width }"

definition zext :: "ptx_reg_t \<Rightarrow> nat \<Rightarrow> nat \<Rightarrow> ptx_reg_t option" where
  "zext x from_width to_width = chop x from_width"

definition saturatei :: "int \<Rightarrow> int \<Rightarrow> int \<Rightarrow> int" where
  "saturatei a mx mn = (if a > mx then mx else if a < mn then mn else a)"

text \<open>Rounding to \<^verbatim>\<open>float\<close>; a mode that is not a direction leaves the register as it is.\<close>

definition store_int2float :: "fpu \<Rightarrow> rounding_option \<Rightarrow> ptx_reg_t \<Rightarrow> int \<Rightarrow> ptx_reg_t" where
  "store_int2float fp rm y i =
     (if rm \<in> {RZ_OPTION, RN_OPTION, RM_OPTION, RP_OPTION} then set_u32 y (fp_int2float fp rm i) else y)"

text \<open>For 64-bit sources the code converts the fresh result \<^verbatim>\<open>y\<close>, not the argument \<^verbatim>\<open>x\<close>.\<close>

definition s2f :: "fpu \<Rightarrow> ptx_reg_t \<Rightarrow> nat \<Rightarrow> nat \<Rightarrow> rounding_option \<Rightarrow> ptx_reg_t option" where
  "s2f fp x from_width to_width rm = do {
     y \<leftarrow> (if from_width < 64 then sext x from_width 32 else Some 0);
     let i = (if from_width < 64 then reg_s32 y else reg_s64 y);
     (if to_width = 32 then Some (store_int2float fp rm y i)
      else if to_width = 64 then Some (set_u64 y (fp_int2double fp i))
      else None)
   }"

definition u2f :: "fpu \<Rightarrow> ptx_reg_t \<Rightarrow> nat \<Rightarrow> nat \<Rightarrow> rounding_option \<Rightarrow> ptx_reg_t option" where
  "u2f fp x from_width to_width rm = do {
     y \<leftarrow> (if from_width < 64 then zext x from_width 32 else Some 0);
     let i = (if from_width < 64 then uint (reg_u32 y) else uint (reg_u64 y));
     let rm = (if from_width \<ge> 64 \<and> rm \<in> {RZ_OPTION, RN_OPTION, RM_OPTION, RP_OPTION} then RN_OPTION else rm);
     (if to_width = 32 then Some (store_int2float fp rm y i)
      else if to_width = 64 then Some (set_u64 y (fp_int2double fp i))
      else None)
   }"

definition is_denormal :: "32 word \<Rightarrow> bool" where "is_denormal x = (x AND 0x7F800000 = 0)"

definition integer_mode :: "rounding_option \<Rightarrow> rounding_option" where
  "integer_mode rm = (if rm \<in> {RNI_OPTION, RMI_OPTION, RPI_OPTION} then rm else RZI_OPTION)"

definition store_width :: "nat \<Rightarrow> int \<Rightarrow> ptx_reg_t option" where
  "store_width w i =
     (if w = 8 then Some (set_u8 0 (word_of_int i)) else if w = 16 then Some (set_u16 0 (word_of_int i))
      else if w = 32 then Some (set_u32 0 (word_of_int i)) else if w = 64 then Some (set_u64 0 (word_of_int i)) else None)"

definition f2x :: "fpu \<Rightarrow> ptx_reg_t \<Rightarrow> nat \<Rightarrow> nat \<Rightarrow> int \<Rightarrow> rounding_option \<Rightarrow> bool \<Rightarrow> ptx_reg_t option" where
  "f2x fp x from_width to_width to_sign rm sat = do {
     assert_that (from_width = 32);
     (if to_sign = 1 then do {
        let tmp = (if is_denormal (reg_u32 x) then 0 else sint (fp_float2int fp (integer_mode rm) (reg_u32 x)));
        store_width to_width (if sat \<and> to_width < 32 then saturatei tmp (2 ^ to_width - 1) (- (2 ^ to_width)) else tmp)
      }
      else if to_sign = 0 then do {
        let tmp = (if is_denormal (reg_u32 x) then 0 else uint (fp_float2uint fp (integer_mode rm) (reg_u32 x)));
        store_width to_width (if sat \<and> to_width < 32 \<and> tmp > 2 ^ to_width - 1 then 2 ^ to_width - 1 else tmp)
      }
      else if to_width = 64 then Some (set_u64 0 (fp_float2double fp (reg_u32 x)))
      else None)
   }"

text \<open>The bounds are computed as \<^verbatim>\<open>int\<close>; the lower one for signed results lacks its sign.\<close>

definition saturated2i :: "fpu \<Rightarrow> 64 word \<Rightarrow> int \<Rightarrow> int \<Rightarrow> 64 word" where
  "saturated2i fp a mx mn =
     (if f64_lt (fp_int2double fp mx) a then fp_int2double fp mx
      else if f64_lt a (fp_int2double fp mn) then fp_int2double fp mn else a)"

definition d2x :: "fpu \<Rightarrow> ptx_reg_t \<Rightarrow> nat \<Rightarrow> nat \<Rightarrow> int \<Rightarrow> rounding_option \<Rightarrow> ptx_reg_t option" where
  "d2x fp x from_width to_width to_sign rm = do {
     assert_that (from_width = 64);
     let tmp = (if rm \<in> {RZI_OPTION, RNI_OPTION, RMI_OPTION, RPI_OPTION} then fp_round64 fp rm (reg_u64 x) else reg_u64 x);
     (if to_sign = 1 \<or> to_sign = 0 then do {
        assert_that (to_width \<le> 32);
        let top_bit = (push_bit (to_width - 1) 1 :: 32 word);
        let mn = (if to_sign = 1 then sint top_bit else 0);
        store_width to_width (fp_double2int fp (saturated2i fp tmp (sint (top_bit - 1)) mn))
      }
      else if to_width = 32 then Some (set_u32 0 (fp_double2float fp (reg_u64 x)))
      else if to_width = 64 then Some (set_u64 0 (reg_u64 x))
      else None)
   }"

definition f2f :: "fpu \<Rightarrow> ptx_reg_t \<Rightarrow> rounding_option \<Rightarrow> bool \<Rightarrow> ptx_reg_t" where
  "f2f fp x rm sat =
     (let y = (if rm \<in> {RZI_OPTION, RNI_OPTION} then fp_round32 fp rm (reg_u32 x)
               else if is_denormal (reg_u32 x) then reg_u32 x AND 0x80000000
               else if rm \<in> {RMI_OPTION, RPI_OPTION} then fp_round32 fp rm (reg_u32 x)
               else reg_u32 x)
      in set_u32 0 (if f32_isNaN y then 0x7FFFFFFF else if sat then fp_saturate32 fp y else y))"

text \<open>Saturation of a \<^verbatim>\<open>double\<close> goes through \<^verbatim>\<open>float\<close>.\<close>

definition d2d :: "fpu \<Rightarrow> ptx_reg_t \<Rightarrow> rounding_option \<Rightarrow> bool \<Rightarrow> ptx_reg_t" where
  "d2d fp x rm sat =
     (let y = (if rm \<in> {RZI_OPTION, RNI_OPTION, RMI_OPTION, RPI_OPTION} then fp_round64 fp rm (reg_u64 x) else reg_u64 x)
      in set_u64 0 (if f64_isNaN y then 0xFFF8000000000000
                    else if sat then fp_float2double fp (fp_saturate32 fp (fp_double2float fp y)) else y))"

datatype cvt_fn = Keep | Chop | Sext | Sexd | Zext | S2F | U2F | F2X | D2X | F2F | D2D

definition g_cvt_fn :: "cvt_fn list list" where
  "g_cvt_fn =
    [[Keep, Sext, Sext, Sext, Keep, Sext, Sext, Sext, S2F, S2F, S2F],
     [Chop, Keep, Sext, Sext, Chop, Keep, Sext, Sext, S2F, S2F, S2F],
     [Chop, Sexd, Keep, Sext, Chop, Chop, Keep, Sext, S2F, S2F, S2F],
     [Chop, Chop, Chop, Keep, Chop, Chop, Chop, Keep, S2F, S2F, S2F],
     [Keep, Zext, Zext, Zext, Keep, Zext, Zext, Zext, U2F, U2F, U2F],
     [Chop, Keep, Zext, Zext, Chop, Keep, Zext, Zext, U2F, U2F, U2F],
     [Chop, Chop, Keep, Zext, Chop, Chop, Keep, Zext, U2F, U2F, U2F],
     [Chop, Chop, Chop, Keep, Chop, Chop, Chop, Keep, U2F, U2F, U2F],
     [F2X, F2X, F2X, F2X, F2X, F2X, F2X, F2X, Keep, F2X, F2X],
     [F2X, F2X, F2X, F2X, F2X, F2X, F2X, F2X, F2X, F2F, F2X],
     [D2X, D2X, D2X, D2X, D2X, D2X, D2X, D2X, D2X, D2X, D2D]]"

definition convert :: "fpu \<Rightarrow> ptx_instruction \<Rightarrow> ptx_type \<Rightarrow> ptx_type \<Rightarrow> ptx_reg_t \<Rightarrow> ptx_reg_t option" where
  "convert fp pI from_type to_type x = do {
     let (src_fmt, fw, from_sign) = type_decode from_type;
     let (dst_fmt, tw, to_sign) = type_decode to_type;
     row \<leftarrow> vec_at g_cvt_fn src_fmt;
     fn \<leftarrow> vec_at row dst_fmt;
     (case fn of
        Keep \<Rightarrow> Some x
      | Chop \<Rightarrow> chop x tw
      | Sext \<Rightarrow> sext x fw tw
      | Sexd \<Rightarrow> sexd x fw tw
      | Zext \<Rightarrow> zext x fw tw
      | S2F \<Rightarrow> s2f fp x fw tw (pi_rounding_mode pI)
      | U2F \<Rightarrow> u2f fp x fw tw (pi_rounding_mode pI)
      | F2X \<Rightarrow> f2x fp x fw tw to_sign (pi_rounding_mode pI) (pi_saturation_mode pI)
      | D2X \<Rightarrow> d2x fp x fw tw to_sign (pi_rounding_mode pI)
      | F2F \<Rightarrow> Some (f2f fp x (pi_rounding_mode pI) (pi_saturation_mode pI))
      | D2D \<Rightarrow> Some (d2d fp x (pi_rounding_mode pI) (pi_saturation_mode pI)))
   }"

definition cvt_impl :: "fpu \<Rightarrow> ptx_instruction \<Rightarrow> xstate \<Rightarrow> xstate option" where
  "cvt_impl fp pI s = do {
     dst \<leftarrow> pi_dst pI; src1 \<leftarrow> pi_src1 pI; to_type \<leftarrow> get_type pI; from_type \<leftarrow> get_type2 pI;
     assert_that (to_type \<noteq> F16_TYPE \<and> from_type \<noteq> F16_TYPE);
     (data, s) \<leftarrow> get_operand_value src1 dst from_type True s;
     data \<leftarrow> (if pi_neg pI then negate_operand from_type data else Some data);
     data \<leftarrow> convert fp pI from_type to_type data;
     set_operand_value dst data to_type s
   }"

end
