(* ===== verification/PtxArith_Laws.thy ===== *)
theory PtxArith_Laws
  imports PtxAlu_Model
begin

text \<open>
  Laws of the arithmetic instructions of \<open>PtxAlu_Model\<close>: flags and condition codes, exact products, conversions between integer
  types, predicates, and the places where the code does not compute what the instruction means.
\<close>

unbundle bit_operations_syntax

subsection \<open>Flags of additions and subtractions\<close>

text \<open>The low \<open>n\<close> bits of a register, read as an unsigned and as a signed number.\<close>

definition uval :: "nat \<Rightarrow> ptx_reg_t \<Rightarrow> int" where "uval n r = take_bit n (uint r)"
definition sval :: "nat \<Rightarrow> ptx_reg_t \<Rightarrow> int" where "sval n r = signed_take_bit (n - 1) (uint r)"

lemma uval_bounds: "0 \<le> uval n r" "uval n r < 2 ^ n"
  by (simp_all add: uval_def)

lemma bit_top: "bit (x::int) k \<longleftrightarrow> 2 ^ k \<le> x" if "0 \<le> x" "x < 2 ^ Suc k"
proof (cases "x < 2 ^ k")
  case False
  then have "x div 2 ^ k = 1" using that by (simp add: div_pos_geq div_pos_pos_trivial)
  then show ?thesis using False by (simp add: bit_iff_odd)
qed (use that in \<open>simp add: bit_iff_odd div_pos_pos_trivial\<close>)

lemma sval_uval: "sval (Suc k) r = (if uval (Suc k) r < 2 ^ k then uval (Suc k) r else uval (Suc k) r - 2 ^ Suc k)"
proof -
  have "bit (uint r) k \<longleftrightarrow> 2 ^ k \<le> take_bit (Suc k) (uint r)"
    using bit_top [of "take_bit (Suc k) (uint r)" k] take_bit_int_less_exp [of "Suc k" "uint r"]
    by (simp add: bit_take_bit_iff del: power_Suc take_bit_int_less_exp)
  then show ?thesis
    by (simp add: sval_def uval_def signed_take_bit_eq_take_bit_minus)
qed

lemma uint_reg_mask: "k \<le> 64 \<Longrightarrow> uint (reg_u64 r AND mask k) = uval k r"
  by (simp add: uval_def unsigned_take_bit_eq unsigned_ucast_eq min_def flip: take_bit_eq_mask)

lemma bit_reg_u64: "k < 64 \<Longrightarrow> bit (reg_u64 r) k \<longleftrightarrow> 2 ^ k \<le> uval (Suc k) r"
  using bit_top [of "uval (Suc k) r" k] uval_bounds [of "Suc k" r]
  by (simp add: bit_ucast_iff uval_def bit_take_bit_iff bit_uint_iff del: power_Suc)

lemma sign_bit_eq: "k < 64 \<Longrightarrow> sign_bit (Suc k) a = (if bit a k then 2 ^ k else 0)"
  by (rule bit_word_eqI) (auto simp: sign_bit_def bit_and_iff bit_exp_iff)

lemma sign_bits_differ: "k < 64 \<Longrightarrow> sign_bit (Suc k) a = sign_bit (Suc k) b \<longleftrightarrow> bit a k = bit b k"
proof -
  assume k: "k < 64"
  then have "(2 ^ k :: 64 word) \<noteq> 0" by simp
  with k show ?thesis by (auto simp: sign_bit_eq)
qed

lemma uint_diff_bits:
  assumes "n < 64" shows "uint (diff_bits n (reg_u64 a) (reg_u64 b)) = uval n a - uval n b + 2 ^ n"
proof -
  have "2 ^ n \<le> (2 ^ 63 :: int)" using assms by (intro power_increasing) auto
  moreover have "uint (2 ^ n :: 64 word) = 2 ^ n"
    using assms uint_word_of_int [of "2 ^ n", where 'a = 64] power_strict_increasing [of n 64 "2::int"] by simp
  ultimately show ?thesis
    using assms uval_bounds [of n a] uval_bounds [of n b]
    by (simp add: diff_bits_def uint_word_ariths uint_reg_mask mod_simps mod_pos_pos_trivial)
qed

text \<open>What the four flags of a subtraction say of the operands.\<close>

lemma diff_flags:
  fixes a b :: ptx_reg_t
  defines "A k \<equiv> uval (Suc k) a" and "B k \<equiv> uval (Suc k) b" and "d k \<equiv> diff_bits (Suc k) (reg_u64 a) (reg_u64 b)"
  assumes k: "k < 63"
  shows "carry_out (Suc k) (d k) \<longleftrightarrow> B k \<le> A k"
    and "bit (d k) k \<longleftrightarrow> 2 ^ k \<le> (if B k \<le> A k then A k - B k else A k - B k + 2 ^ Suc k)"
    and "take_bit (Suc k) (uint (d k)) = (if B k \<le> A k then A k - B k else A k - B k + 2 ^ Suc k)"
    and "diff_overflow (Suc k) (reg_u64 a) (reg_u64 b) (d k)
      \<longleftrightarrow> sval (Suc k) a - sval (Suc k) b < - (2 ^ k) \<or> 2 ^ k \<le> sval (Suc k) a - sval (Suc k) b"
proof -
  let ?D = "A k - B k + 2 ^ Suc k"
  have D: "uint (d k) = ?D" unfolding A_def B_def d_def by (rule uint_diff_bits) (use k in simp)
  have AB: "0 \<le> A k" "A k < 2 ^ Suc k" "0 \<le> B k" "B k < 2 ^ Suc k"
    unfolding A_def B_def by (rule uval_bounds)+
  then have "?D < 2 ^ Suc (Suc k)" "0 < ?D" by simp_all
  then have c: "bit (d k) (Suc k) \<longleftrightarrow> B k \<le> A k"
    using bit_top [of ?D "Suc k"] k bit_uint_iff [of "d k" "Suc k"] unfolding D by auto
  then show "carry_out (Suc k) (d k) \<longleftrightarrow> B k \<le> A k" by (simp add: carry_out_def)
  show t: "take_bit (Suc k) (uint (d k)) = (if B k \<le> A k then A k - B k else A k - B k + 2 ^ Suc k)"
    using AB mod_pos_pos_trivial [of ?D "2 ^ Suc k"] by (auto simp: D take_bit_eq_mod)
  have "bit (d k) k \<longleftrightarrow> bit (take_bit (Suc k) (uint (d k))) k"
    using k by (simp add: bit_take_bit_iff bit_uint_iff)
  also have "\<dots> \<longleftrightarrow> 2 ^ k \<le> take_bit (Suc k) (uint (d k))"
    by (rule bit_top) (simp_all del: power_Suc)
  finally show n: "bit (d k) k \<longleftrightarrow> 2 ^ k \<le> (if B k \<le> A k then A k - B k else A k - B k + 2 ^ Suc k)"
    unfolding t .
  have "bit (reg_u64 a) k \<longleftrightarrow> 2 ^ k \<le> A k" "bit (reg_u64 b) k \<longleftrightarrow> 2 ^ k \<le> B k"
    unfolding A_def B_def using k by (simp_all only: bit_reg_u64)
  with n k AB show "diff_overflow (Suc k) (reg_u64 a) (reg_u64 b) (d k)
      \<longleftrightarrow> sval (Suc k) a - sval (Suc k) b < - (2 ^ k) \<or> 2 ^ k \<le> sval (Suc k) a - sval (Suc k) b"
    unfolding diff_overflow_def
    by (simp add: sign_bits_differ sval_uval flip: A_def B_def) (auto split: if_splits)
qed
text \<open>The four flags as an index of the table, and the conditions as formulas over the flags.\<close>

definition flag_index :: "bool \<Rightarrow> bool \<Rightarrow> bool \<Rightarrow> bool \<Rightarrow> nat" where
  "flag_index z n c ov = (if z then 1 else 0) + (if n then 2 else 0) + (if c then 4 else 0) + (if ov then 8 else 0)"

lemma pred_rows:
  "pred_lookup 0x01 (flag_index z n c ov) = Some (if z \<and> n then ov else n \<noteq> ov)"
  "pred_lookup 0x02 (flag_index z n c ov) = Some (z \<and> \<not> n)"
  "pred_lookup 0x03 (flag_index z n c ov) = Some (\<not> (z \<and> n) \<and> (z \<or> n \<noteq> ov))"
  "pred_lookup 0x04 (flag_index z n c ov) = Some (\<not> z \<and> n = ov)"
  "pred_lookup 0x05 (flag_index z n c ov) = Some (\<not> z)"
  "pred_lookup 0x06 (flag_index z n c ov) = Some (if z \<and> n then ov else n = ov)"
  "pred_lookup 0x11 (flag_index z n c ov) = Some c"
  "pred_lookup 0x12 (flag_index z n c ov) = Some (c \<and> \<not> z)"
  "pred_lookup 0x1D (flag_index z n c ov) = Some (\<not> c \<or> z)"
  "pred_lookup 0x1E (flag_index z n c ov) = Some (\<not> c)"
  by (cases z; cases n; cases c; cases ov; simp add: pred_lookup_def pred_table_def vec_at_def flag_index_def)+

lemma flag_register:
  "unat (reg_pred (set_u64 0 ((reg_u64 (set_u64 0 ((if z then 1 else 0) OR (if n then 2 else 0))) AND NOT 0x0C)
     OR (if ov then 8 else 0) OR (if c then 4 else 0)))) = flag_index z n c ov"
  by (cases z; cases n; cases c; cases ov; simp add: reg_views flag_index_def)

lemma set_flag_pair:
  assumes p: "flag_pair dst q r" "q \<noteq> r" "writable q" "writable r" "th_regs s \<noteq> []"
    and f: "zero_flag t (set_u64 0 (reg_u64 v)) = Some z" "sign_flag t (set_u64 0 (reg_u64 v)) = Some n"
  shows "\<exists>s' f. set_operand_value_flags dst v t ov c s = Some s' \<and> reg_val s' r = Some (set_u64 0 (reg_u64 v))
    \<and> reg_val s' q = Some f \<and> unat (reg_pred f) = flag_index z n c ov
    \<and> (\<forall>y. y \<noteq> q \<and> y \<noteq> r \<longrightarrow> reg_val s' y = reg_val s y)"
proof -
  from p(5) obtain m ms where m: "th_regs s = m # ms" by (cases "th_regs s") auto
  from p(1) obtain ys where ys: "op_value dst = V_vector (Some q # Some r # ys)" and
    d: "op_double_type dst = - 2" "op_addr_space dst = undefined_space" "op_lohi dst = 0"
    by (auto simp: flag_pair_def)
  have v: "vec_symbol dst 0 = Some q" "vec_symbol dst (Suc 0) = Some r"
    using ys by (simp_all add: vec_symbol_def vec_at_def)
  let ?P = "set_u64 0 ((if z then 1 else 0) OR (if n then 2 else 0)) :: ptx_reg_t"
  let ?F = "set_u64 0 ((reg_u64 ?P AND NOT 0x0C) OR (if ov then 8 else 0) OR (if c then 4 else 0)) :: ptx_reg_t"
  let ?V = "set_u64 0 (reg_u64 v) :: ptx_reg_t"
  have "set_operand_value dst v t s = Some (s\<lparr>th_regs := m(q \<mapsto> ?P, r \<mapsto> ?V) # ms, th_last_set_operand_value := ?V\<rparr>)"
    using p(2-4) f by (simp add: set_operand_value_def set_register_operand_def d v merge_lohi_def set_reg_def writable_def m Let_def)
  then have "set_operand_value_flags dst v t ov c s
      = Some (s\<lparr>th_regs := m(q \<mapsto> ?P, r \<mapsto> ?V, q \<mapsto> ?F) # ms, th_last_set_operand_value := ?F\<rparr>)"
    using p(2-4) by (simp add: set_operand_value_flags_def d v reg_ref_def set_reg_def writable_def)
  moreover have "unat (reg_pred ?F) = flag_index z n c ov" by (rule flag_register)
  ultimately show ?thesis
    using p(2) by (auto simp: reg_val_def m)
qed

lemma and_low_zero:
  "(ucast (d :: 64 word) :: 8 word) AND 0x7F = 0 \<longleftrightarrow> take_bit 7 (uint d) = 0"
  "(ucast d :: 16 word) AND 0x7FFF = 0 \<longleftrightarrow> take_bit 15 (uint d) = 0"
  "(ucast d :: 32 word) AND 0x7FFFFFFF = 0 \<longleftrightarrow> take_bit 31 (uint d) = 0"
proof -
  have "uint (0x7F :: 8 word) = mask 7" "uint (0x7FFF :: 16 word) = mask 15" "uint (0x7FFFFFFF :: 32 word) = mask 31"
    by (simp_all add: mask_eq_exp_minus_1)
  then show "(ucast d :: 8 word) AND 0x7F = 0 \<longleftrightarrow> take_bit 7 (uint d) = 0"
    "(ucast d :: 16 word) AND 0x7FFF = 0 \<longleftrightarrow> take_bit 15 (uint d) = 0"
    "(ucast d :: 32 word) AND 0x7FFFFFFF = 0 \<longleftrightarrow> take_bit 31 (uint d) = 0"
    by (simp_all only: word_uint_eq_iff uint_and unsigned_ucast_eq flip: take_bit_eq_mask) simp_all
qed

text \<open>The zero and sign flags that the code computes from a 64-bit difference.\<close>

lemma flags_signed:
  "(t, k) \<in> {(S8_TYPE, 7), (S16_TYPE, 15), (S32_TYPE, 31)} \<Longrightarrow>
     zero_flag t (set_u64 0 d) = Some (take_bit k (uint d) = 0) \<and> sign_flag t (set_u64 0 d) = Some (bit d k)"
  by (auto simp: zero_flag_def sign_flag_def reg_views and_low_zero bit_ucast_iff and_exp_eq_0_iff_not_bit)

lemma ucast_zero_iff: "LENGTH('a) \<le> 64 \<Longrightarrow> (ucast (d :: 64 word) :: 'a::len word) = 0 \<longleftrightarrow> take_bit LENGTH('a) (uint d) = 0"
  by (simp add: word_uint_eq_iff unsigned_ucast_eq)

lemma flags_unsigned:
  "(t, k) \<in> {(U8_TYPE, 7), (B8_TYPE, 7), (U16_TYPE, 15), (B16_TYPE, 15), (U32_TYPE, 31), (B32_TYPE, 31)} \<Longrightarrow>
     zero_flag t (set_u64 0 d) = Some (take_bit (Suc k) (uint d) = 0) \<and> sign_flag t (set_u64 0 d) = Some (bit d k)"
  by (auto simp: zero_flag_def sign_flag_def reg_views ucast_zero_iff bit_ucast_iff and_exp_eq_0_iff_not_bit)

lemma low_bits_zero:
  fixes x :: int assumes "0 \<le> x" "x < 2 ^ Suc k" shows "take_bit k x = 0 \<longleftrightarrow> x = 0 \<or> x = 2 ^ k"
proof (cases "x < 2 ^ k")
  case False
  then have "x mod 2 ^ k = x - 2 ^ k"
    using assms minus_mod_self2 [of x "2 ^ k"] mod_pos_pos_trivial [of "x - 2 ^ k" "2 ^ k"] by simp
  then show ?thesis using False assms by (auto simp: take_bit_eq_mod)
qed (use assms in \<open>simp add: take_bit_eq_mod mod_pos_pos_trivial\<close>)

text \<open>Signed comparison from the flags of a subtraction.\<close>

lemma diff_compares:
  fixes a b :: ptx_reg_t
  assumes k: "k < 63" and x: "\<bar>sval (Suc k) a - sval (Suc k) b\<bar> \<noteq> 2 ^ k"
  defines "d \<equiv> diff_bits (Suc k) (reg_u64 a) (reg_u64 b)"
  shows "take_bit k (uint d) = 0 \<longleftrightarrow> sval (Suc k) a = sval (Suc k) b"
    and "bit d k \<noteq> diff_overflow (Suc k) (reg_u64 a) (reg_u64 b) d \<longleftrightarrow> sval (Suc k) a < sval (Suc k) b"
    and "\<not> (take_bit k (uint d) = 0 \<and> bit d k)"
proof -
  define A B where "A = uval (Suc k) a" "B = uval (Suc k) b"
  define T where "T = (if B \<le> A then A - B else A - B + 2 ^ Suc k)"
  have AB: "0 \<le> A" "A < 2 ^ Suc k" "0 \<le> B" "B < 2 ^ Suc k"
    unfolding A_B_def by (rule uval_bounds)+
  have s: "sval (Suc k) a = (if A < 2 ^ k then A else A - 2 ^ Suc k)" "sval (Suc k) b = (if B < 2 ^ k then B else B - 2 ^ Suc k)"
    unfolding A_B_def by (rule sval_uval)+
  note f = diff_flags [OF k, of a b, folded d_def A_B_def, folded T_def]
  have T: "0 \<le> T" "T < 2 ^ Suc k" "T \<noteq> 2 ^ k" using AB x unfolding T_def s by (auto split: if_splits)
  have "take_bit k (uint d) = take_bit k (take_bit (Suc k) (uint d))" by simp
  then have z: "take_bit k (uint d) = 0 \<longleftrightarrow> T = 0"
    using low_bits_zero [OF T(1,2)] T(3) unfolding f(3) by simp
  then show "take_bit k (uint d) = 0 \<longleftrightarrow> sval (Suc k) a = sval (Suc k) b"
    using AB unfolding T_def s by (auto split: if_splits)
  show "bit d k \<noteq> diff_overflow (Suc k) (reg_u64 a) (reg_u64 b) d \<longleftrightarrow> sval (Suc k) a < sval (Suc k) b"
    using AB unfolding f(2,4) T_def s by (auto split: if_splits)
  show "\<not> (take_bit k (uint d) = 0 \<and> bit d k)"
    unfolding z f(2) by auto
qed

lemma sub_flag_pair:
  assumes i: "pi_operands pI = [dst, src1, src2]" "pi_scalar_type pI = [t]"
    and p: "flag_pair dst q r" "q \<noteq> r" "writable q" "writable r"
    and o: "plain_reg src1 x" "plain_reg src2 y" "reg_val s x = Some a" "reg_val s y = Some b" "\<not> wide_type t"
    and d: "sub_data fp t a b = Some (set_u64 0 d, ov, c)"
    and f: "zero_flag t (set_u64 0 d) = Some z" "sign_flag t (set_u64 0 d) = Some n"
  shows "\<exists>s' f. sub_impl fp pI s = Some s' \<and> reg_val s' r = Some (set_u64 0 d)
    \<and> reg_val s' q = Some f \<and> unat (reg_pred f) = flag_index z n c ov"
proof -
  have "th_regs s \<noteq> []" using o(3) by (auto simp: reg_val_def split: list.splits)
  from set_flag_pair [OF p this, of t "set_u64 0 d" z n ov c] f obtain s' f where
    "set_operand_value_flags dst (set_u64 0 d) t ov c s = Some s'" "reg_val s' r = Some (set_u64 0 d)"
    "reg_val s' q = Some f" "unat (reg_pred f) = flag_index z n c ov"
    by (auto simp: reg_views)
  then show ?thesis
    using i d by (simp add: sub_impl_def pi_operand_def vec_at_def get_type_def get_plain_reg [OF o(1,3)]
        get_plain_reg [OF o(2,4)] o(5))
qed

definition signed_flag_types :: "(ptx_type \<times> nat) set" where
  "signed_flag_types = {(S8_TYPE, 8), (S16_TYPE, 16), (S32_TYPE, 32)}"

definition unsigned_flag_types :: "(ptx_type \<times> nat) set" where
  "unsigned_flag_types = {(U8_TYPE, 8), (B8_TYPE, 8), (U16_TYPE, 16), (B16_TYPE, 16), (U32_TYPE, 32), (B32_TYPE, 32)}"


text \<open>Concrete registers and threads for the witnesses.\<close>

definition ex_reg :: "nat \<Rightarrow> ptx_type \<Rightarrow> symbol" where
  "ex_reg i t = symbol_new i ''r'' (Some \<lparr>m_space_spec = space_of reg_space, m_scalar_type_spec = t, m_is_function = False\<rparr>) 4"

definition ex_mem :: mem_space where
  "ex_mem = \<lparr>ms_BSIZE = 32, ms_log2_block_size = 5, ms_data = Map.empty, ms_watchpoints = []\<rparr>"

definition ex_dim :: dim3 where "ex_dim = \<lparr>dim_x = 1, dim_y = 1, dim_z = 1\<rparr>"

definition ex_thread :: "(symbol \<rightharpoonup> ptx_reg_t) \<Rightarrow> xstate" where
  "ex_thread m =
     \<lparr>th_regs = [m], th_last_set_operand_value = 0, th_last_effective_address = 0,
      th_last_memory_space = space_of undefined_space, th_last_dram_callback = None, th_branch_taken = False, th_NPC = 0,
      th_PC = 0, th_RPC = 0, th_RPC_updated = False, th_last_was_call = False, th_thread_done = False, th_func_info = None, th_callstack = [],
      th_local_mem_stack_pointer = 0, th_breakaddrs = [], th_hw_sid = 0, th_hw_tid = 0, th_valid = True,
      th_ctaid = ex_dim, th_nctaid = ex_dim, th_tid = ex_dim, th_ntid = ex_dim, th_gridid = 0, th_local_mem = ex_mem,
      xs_global_mem = ex_mem, xs_tex_mem = ex_mem, xs_surf_mem = ex_mem, xs_param_mem = ex_mem, xs_shared_mem = ex_mem,
      xs_cycle = 0, xs_grid_dim = ex_dim, xs_ptx_version_2 = True\<rparr>"

definition ex_inst :: "operand_info list \<Rightarrow> ptx_type list \<Rightarrow> ptx_instruction" where
  "ex_inst ps ts =
     \<lparr>pi_operands = ps, pi_scalar_type = ts, pi_space_spec = space_of global_space, pi_vector_spec = No_vector,
      pi_atomic_spec = None, pi_compare_op = None, pi_vote_mode = vote_any, pi_rounding_mode = RN_OPTION,
      pi_saturation_mode = False, pi_wide = False, pi_hi = False, pi_lo = False, pi_abs = False, pi_neg = False,
      pi_to_option = False, pi_exit = False, pi_pred = None, pi_neg_pred = False, pi_pred_mod = - 1, pi_has_return = False,
      pi_inst_size = 8, pi_active_mask = (\<lambda>_. True), pi_warp_size = 32\<rparr>"

definition ex_pair :: "symbol \<Rightarrow> symbol \<Rightarrow> operand_info" where
  "ex_pair q r = (operand_vector (Some q) (Some r) None None)\<lparr>op_double_type := - 2\<rparr>"

definition ex_fpu :: fpu where
  "ex_fpu = \<lparr>fp_add32 = (\<lambda>_ _ _. 0), fp_sub32 = (\<lambda>_ _ _. 0), fp_mul32 = (\<lambda>_ _ _. 0), fp_div32 = (\<lambda>_ _ _. 0),
     fp_add64 = (\<lambda>_ _ _. 0), fp_sub64 = (\<lambda>_ _ _. 0), fp_mul64 = (\<lambda>_ _ _. 0), fp_div64 = (\<lambda>_ _ _. 0),
     fp_int2float = (\<lambda>_ _. 0), fp_int2double = (\<lambda>_. 0), fp_float2int = (\<lambda>_ _. 0), fp_float2uint = (\<lambda>_ _. 0),
     fp_float2double = (\<lambda>_. 0), fp_double2float = (\<lambda>_. 0), fp_double2int = (\<lambda>_. 0), fp_round32 = (\<lambda>_ x. x),
     fp_round64 = (\<lambda>_ x. x), fp_saturate32 = (\<lambda>x. x)\<rparr>"

lemma ex_regs [simp]:
  "plain_reg (operand_symbol (ex_reg i t)) (ex_reg i t)" "writable (ex_reg i t) \<longleftrightarrow> 0 < i"
  "ex_reg i t = ex_reg j u \<longleftrightarrow> i = j \<and> t = u" "flag_pair (ex_pair q r) q r"
  "reg_val (ex_thread m) y = m y" "pi_operands (ex_inst ps ts) = ps" "pi_scalar_type (ex_inst ps ts) = ts"
  by (auto simp: ex_reg_def symbol_new_def plain_reg_def operand_symbol_def operand_new_def key_is_shared_def key_is_const_def
      key_is_global_def key_is_local_def key_is_param_local_def key_is_tex_def space_of_def writable_def flag_pair_def
      ex_pair_def operand_vector_def reg_val_def ex_thread_def ex_inst_def)


subsection \<open>Instructions on registers\<close>

lemma uval_set_u64: "n \<le> 64 \<Longrightarrow> uval n (set_u64 0 (reg_u64 r)) = uval n r"
  by (auto intro!: bit_eqI simp: uval_def bit_take_bit_iff bit_uint_iff bit_reg_of_set bit_ucast_iff)

lemma sval_set_u64: "\<lbrakk>0 < n; n \<le> 64\<rbrakk> \<Longrightarrow> sval n (set_u64 0 (reg_u64 r)) = sval n r"
  using sval_uval [of "n - 1"] uval_set_u64 [of n r] by simp

lemma unary_plain:
  assumes "pi_operands pI = [dst, src1]" "pi_scalar_type pI = [t]" "\<not> wide_type t"
    and "plain_reg dst z" "plain_reg src1 x" "writable z" "reg_val s x = Some a" "f t a = Some d"
  shows "\<exists>s'. unary_impl f pI s = Some s' \<and> reg_val s' z = Some (set_u64 0 (reg_u64 d))
    \<and> (\<forall>w. w \<noteq> z \<longrightarrow> reg_val s' w = reg_val s w)"
proof -
  have ne: "th_regs s \<noteq> []" using assms(7) by (auto simp: reg_val_def split: list.splits)
  obtain s' where "set_reg z (set_u64 0 (reg_u64 d)) s = Some s'" "reg_val s' z = Some (set_u64 0 (reg_u64 d))"
    "\<forall>w. w \<noteq> z \<longrightarrow> reg_val s' w = reg_val s w"
    using set_reg_law [OF assms(6) ne] by blast
  then show ?thesis
    using assms(1,2,8) by (simp add: unary_impl_def pi_operand_def vec_at_def get_type_def
        get_plain_reg [OF assms(5,7,3)] set_plain_reg [OF assms(4,6) ne assms(3)])
qed

lemma binary_plain:
  assumes "pi_operands pI = [dst, src1, src2]" "pi_scalar_type pI = [t]" "\<not> wide_type t"
    and "plain_reg dst z" "plain_reg src1 x" "plain_reg src2 y" "writable z"
    and "reg_val s x = Some a" "reg_val s y = Some b" "f t a b = Some d"
  shows "\<exists>s'. binary_impl f pI s = Some s' \<and> reg_val s' z = Some (set_u64 0 (reg_u64 d))
    \<and> (\<forall>w. w \<noteq> z \<longrightarrow> reg_val s' w = reg_val s w)"
proof -
  have ne: "th_regs s \<noteq> []" using assms(8) by (auto simp: reg_val_def split: list.splits)
  obtain s' where "set_reg z (set_u64 0 (reg_u64 d)) s = Some s'" "reg_val s' z = Some (set_u64 0 (reg_u64 d))"
    "\<forall>w. w \<noteq> z \<longrightarrow> reg_val s' w = reg_val s w"
    using set_reg_law [OF assms(7) ne] by blast
  then show ?thesis
    using assms(1,2,10) by (simp add: binary_impl_def pi_operand_def vec_at_def get_type_def
        get_plain_reg [OF assms(5,8,3)] get_plain_reg [OF assms(6,9,3)] set_plain_reg [OF assms(4,7) ne assms(3)])
qed

lemma binary_plain_None:
  assumes "pi_operands pI = [dst, src1, src2]" "pi_scalar_type pI = [t]" "\<not> wide_type t"
    and "plain_reg src1 x" "plain_reg src2 y" "reg_val s x = Some a" "reg_val s y = Some b" "f t a b = None"
  shows "binary_impl f pI s = None"
  using assms(1,2,8) by (simp add: binary_impl_def pi_operand_def vec_at_def get_type_def get_plain_reg [OF assms(4,6,3)] get_plain_reg [OF assms(5,7,3)])

subsection \<open>Products\<close>

lemma sval_sint: "LENGTH('a::len) \<le> 128 \<Longrightarrow> sval LENGTH('a) r = sint (ucast r :: 'a word)"
  by (simp add: sval_def sint_uint unsigned_ucast_eq signed_take_bit_take_bit)

lemma uval_uint: "LENGTH('a::len) \<le> 128 \<Longrightarrow> uval LENGTH('a) r = uint (ucast r :: 'a word)"
  by (simp add: uval_def unsigned_ucast_eq)

lemma sint_scast_mult:
  fixes a b :: "'a::len word"
  assumes "LENGTH('b::len) = 2 * LENGTH('a)"
  shows "sint (scast a * scast b :: 'b word) = sint a * sint b"
proof -
  let ?h = "2 ^ (LENGTH('a) - 1) :: int"
  have r: "- ?h \<le> sint x" "sint x < ?h" for x :: "'a word"
    using sint_ge [of x] sint_lt [of x] by auto
  have "\<bar>sint a\<bar> \<le> ?h" "\<bar>sint b\<bar> \<le> ?h" using r [of a] r [of b] by auto
  then have "\<bar>sint a * sint b\<bar> \<le> ?h * ?h" unfolding abs_mult by (rule mult_mono) auto
  moreover have "?h * ?h < 2 ^ (LENGTH('b) - 1)"
  proof -
    obtain k where k: "LENGTH('a) = Suc k" by (cases "LENGTH('a)") auto
    then have "LENGTH('b) - 1 = Suc (k + k)" using assms by simp
    then show ?thesis unfolding k by (simp add: power_add)
  qed
  ultimately have "- (2 ^ (LENGTH('b) - 1)) \<le> sint a * sint b" "sint a * sint b < 2 ^ (LENGTH('b) - 1)"
    by linarith+
  then have "signed_take_bit (LENGTH('b) - 1) (sint a * sint b) = sint a * sint b"
    by (rule signed_take_bit_int_eq_self)
  then show ?thesis by (simp only: scast_eq sint_sbintrunc' flip: of_int_mult)
qed

lemma uint_ucast_mult:
  fixes a b :: "'a::len word"
  assumes "LENGTH('b::len) = 2 * LENGTH('a)"
  shows "uint (ucast a * ucast b :: 'b word) = uint a * uint b"
proof -
  have "uint a * uint b < 2 ^ LENGTH('a) * 2 ^ LENGTH('a)"
    using uint_bounded [of a] uint_bounded [of b] by (intro mult_strict_mono') auto
  then have "uint a * uint b < 2 ^ LENGTH('b)" using assms by (simp add: mult_2 flip: power_add)
  moreover have "uint (ucast x :: 'b word) = uint x" for x :: "'a word"
    using assms by (simp add: unsigned_ucast_eq take_bit_int_eq_self order_less_le_trans [OF uint_bounded])
  ultimately show ?thesis by (simp add: uint_word_ariths)
qed

lemma sint_high:
  fixes p :: "'b::len word"
  assumes "LENGTH('b) = 2 * LENGTH('a::len)"
  shows "sint (ucast (signed_drop_bit LENGTH('a) p) :: 'a word) = sint p div 2 ^ LENGTH('a)"
proof (rule bit_eqI)
  fix i
  obtain k where k: "LENGTH('a) = Suc k" by (cases "LENGTH('a)") auto
  have low: "bit (ucast (signed_drop_bit LENGTH('a) p) :: 'a word) j \<longleftrightarrow> j < LENGTH('a) \<and> bit p (LENGTH('a) + j)" for j
    using assms by (auto simp: bit_ucast_iff bit_signed_drop_bit_iff)
  show "bit (sint (ucast (signed_drop_bit LENGTH('a) p) :: 'a word)) i \<longleftrightarrow> bit (sint p div 2 ^ LENGTH('a)) i"
    using assms unfolding drop_bit_eq_div [symmetric] bit_drop_bit_eq bit_sint_iff low
    by (cases "i < LENGTH('a)") (auto simp: k mult_2 dest: bit_imp_le_length)
qed

lemma uint_high:
  fixes p :: "'b::len word"
  assumes "LENGTH('b) = 2 * LENGTH('a::len)"
  shows "uint (ucast (drop_bit LENGTH('a) p) :: 'a word) = uint p div 2 ^ LENGTH('a)"
  using assms by (intro bit_eqI) (auto simp: bit_uint_iff bit_ucast_iff bit_drop_bit_eq drop_bit_eq_div [symmetric])

definition mul_types :: "(ptx_type \<times> nat \<times> bool) set" where
  "mul_types = {(S16_TYPE, 16, True), (S32_TYPE, 32, True), (U16_TYPE, 16, False), (U32_TYPE, 32, False)}"

text \<open>The value of an operand of a signed or an unsigned type.\<close>

definition ival :: "bool \<Rightarrow> nat \<Rightarrow> ptx_reg_t \<Rightarrow> int" where
  "ival sgnd n r = (if sgnd then sval n r else uval n r)"

lemma vals_of_set:
  "sval 16 (set_u16 0 w16) = sint w16" "uval 16 (set_u16 0 w16) = uint w16"
  "sval 32 (set_u32 0 w32) = sint w32" "uval 32 (set_u32 0 w32) = uint w32"
  "sval 64 (set_u64 0 w64) = sint w64" "uval 64 (set_u64 0 w64) = uint w64"
  using sval_sint [where 'a = 16] uval_uint [where 'a = 16] sval_sint [where 'a = 32] uval_uint [where 'a = 32]
    sval_sint [where 'a = 64] uval_uint [where 'a = 64]
  by (simp_all add: reg_views)

lemma uint_low: "LENGTH('a::len) \<le> LENGTH('b::len) \<Longrightarrow> uint (ucast (p :: 'b word) :: 'a word) = uint p mod 2 ^ LENGTH('a)"
  by (simp add: unsigned_ucast_eq take_bit_eq_mod)

lemma uint_mod_sint: "LENGTH('a::len) \<le> LENGTH('b::len) \<Longrightarrow> uint (p :: 'b word) mod 2 ^ LENGTH('a) = sint p mod 2 ^ LENGTH('a)"
  by (simp add: sint_uint take_bit_signed_take_bit flip: take_bit_eq_mod)

lemma mul_data_correct:
  fixes a b :: ptx_reg_t
  assumes "(t, n, sgnd) \<in> mul_types"
  defines "P \<equiv> ival sgnd n a * ival sgnd n b"
  shows "pi_wide pI \<Longrightarrow> \<exists>d. mul_data fp pI t a b = Some d \<and> ival sgnd (2 * n) d = P"
    and "\<lbrakk>\<not> pi_wide pI; pi_hi pI; \<not> pi_lo pI\<rbrakk> \<Longrightarrow> \<exists>d. mul_data fp pI t a b = Some d \<and> ival sgnd n d = P div 2 ^ n"
    and "\<lbrakk>\<not> pi_wide pI; pi_lo pI; \<not> pi_hi pI\<rbrakk> \<Longrightarrow> \<exists>d. mul_data fp pI t a b = Some d \<and> uval n d = P mod 2 ^ n"
proof -
  have v: "sval 16 r = sint (reg_u16 r)" "sval 32 r = sint (reg_u32 r)" "uval 16 r = uint (reg_u16 r)"
    "uval 32 r = uint (reg_u32 r)" for r
    using sval_sint [where 'a = 16] uval_uint [where 'a = 16] sval_sint [where 'a = 32] uval_uint [where 'a = 32]
    by simp_all
  note sm = sint_scast_mult [where 'a = 16 and 'b = 32, simplified] sint_scast_mult [where 'a = 32 and 'b = 64, simplified]
    uint_ucast_mult [where 'a = 16 and 'b = 32, simplified] uint_ucast_mult [where 'a = 32 and 'b = 64, simplified]
  note hi = sint_high [where 'a = 16 and 'b = 32, simplified] sint_high [where 'a = 32 and 'b = 64, simplified]
    uint_high [where 'a = 16 and 'b = 32, simplified] uint_high [where 'a = 32 and 'b = 64, simplified]
  note lo = uint_low [where 'a = 16 and 'b = 32, simplified] uint_low [where 'a = 32 and 'b = 64, simplified]
    uint_mod_sint [where 'a = 16 and 'b = 32, simplified] uint_mod_sint [where 'a = 32 and 'b = 64, simplified]
  consider "t = S16_TYPE" "n = 16" "sgnd" | "t = S32_TYPE" "n = 32" "sgnd" | "t = U16_TYPE" "n = 16" "\<not> sgnd"
    | "t = U32_TYPE" "n = 32" "\<not> sgnd"
    using assms(1) by (auto simp: mul_types_def)
  then show "pi_wide pI \<Longrightarrow> \<exists>d. mul_data fp pI t a b = Some d \<and> ival sgnd (2 * n) d = P"
    by cases (simp_all add: mul_data_def Let_def select_whl_def select_wlh_def P_def ival_def v vals_of_set sm reg_views)
  show "\<exists>d. mul_data fp pI t a b = Some d \<and> ival sgnd n d = P div 2 ^ n" if "\<not> pi_wide pI" "pi_hi pI" "\<not> pi_lo pI"
    using assms(1) that
    by (auto simp: mul_types_def mul_data_def Let_def select_whl_def select_wlh_def P_def ival_def v vals_of_set sm hi reg_views)
  show "\<exists>d. mul_data fp pI t a b = Some d \<and> uval n d = P mod 2 ^ n" if "\<not> pi_wide pI" "pi_lo pI" "\<not> pi_hi pI"
    using assms(1) that
    by (auto simp: mul_types_def mul_data_def Let_def select_whl_def select_wlh_def P_def ival_def v vals_of_set lo sm reg_views)
qed

subsection \<open>Conversions between integers\<close>

definition int_types :: "(ptx_type \<times> nat \<times> bool) set" where
  "int_types = {(S8_TYPE, 8, True), (S16_TYPE, 16, True), (S32_TYPE, 32, True), (S64_TYPE, 64, True),
     (U8_TYPE, 8, False), (U16_TYPE, 16, False), (U32_TYPE, 32, False), (U64_TYPE, 64, False)}"

lemma mul_data_64:
  assumes "(t, n, sgnd) \<in> int_types" "n = 64" "\<not> pi_wide pI" "\<not> pi_hi pI" "pi_lo pI"
  shows "\<exists>d. mul_data fp pI t a b = Some d \<and> uval n d = (ival sgnd n a * ival sgnd n b) mod 2 ^ n"
proof -
  have v: "sval 64 r = sint (reg_u64 r)" "uval 64 r = uint (reg_u64 r)" for r using sval_sint [where 'a = 64] uval_uint [where 'a = 64] by simp_all
  have u: "uint (x * y) = (uint x * uint y) mod 2 ^ 64" for x y :: "64 word" by (simp add: uint_mult_lem uint_word_ariths)
  have "(sint x * sint y) mod 2 ^ 64 = (uint x * uint y) mod 2 ^ 64" for x y :: "64 word"
    using uint_mod_sint [where 'a = 64 and 'b = 64, of x] uint_mod_sint [where 'a = 64 and 'b = 64, of y] by (intro mod_mult_cong) simp_all
  then show ?thesis using assms by (auto simp: int_types_def mul_data_def select_whl_def ival_def v [of a] v [of b] vals_of_set u)
qed

lemma bit_ival: "\<lbrakk>0 < n; n \<le> 64\<rbrakk> \<Longrightarrow> bit (ival g n x) i \<longleftrightarrow> (if i < n then bit x i else g \<and> bit x (n - 1))"
  by (cases n) (auto simp: ival_def sval_def uval_def bit_take_bit_iff bit_signed_take_bit_iff bit_uint_iff min_def less_Suc_eq)

lemma bit_uval: "bit (uval n x) i \<longleftrightarrow> i < n \<and> bit x i"
  by (auto simp: uval_def bit_take_bit_iff bit_uint_iff dest: bit_imp_le_length)

lemma get_bit_eq: "b < 64 \<Longrightarrow> get_bit x b = bit x b"
  by (auto simp: get_bit_def bit_ucast_iff bit_drop_bit_eq)

lemma low_masks: "(0xFF :: 32 word) = mask 8" "(0xFFFF :: 32 word) = mask 16" "(0xFFFFFFFF :: 32 word) = mask 32"
  "(0xFFFFFF00 :: 32 word) = NOT (mask 8)" "(0xFFFF0000 :: 32 word) = NOT (mask 16)"
  by (simp_all add: mask_eq_exp_minus_1)

lemma bit_chop:
  assumes "w \<in> {8, 16, 32, 64}"
  shows "\<exists>d. chop x w = Some d \<and> (\<forall>i<64. bit d i \<longleftrightarrow> i < w \<and> bit x i)"
  using assms
  by (auto simp: chop_def mask_and_def low_masks bit_reg_of_set bit_and_iff bit_ucast_iff bit_word_cat_iff bit_mask_iff)

lemma bit_sign_fill:
  assumes "w \<in> {8, 16, 32, 64}"
  shows "\<exists>d. sign_fill x w = Some d \<and> (\<forall>i<64. bit d i \<longleftrightarrow> bit x i \<or> w \<le> i \<and> bit x (w - 1))"
  using assms
  by (auto simp: sign_fill_def mask_or_def low_masks bit_reg_of_set bit_or_iff bit_ucast_iff bit_word_cat_iff bit_mask_iff
      bit_not_iff get_bit_eq)

lemma convert_bits:
  assumes "(t1, n1, g1) \<in> int_types" "(t2, n2, g2) \<in> int_types"
  shows "\<exists>d. convert fp pI t1 t2 x = Some d \<and> (\<forall>i<n2. bit d i \<longleftrightarrow> (if i < n1 then bit x i else g1 \<and> bit x (n1 - 1)))"
proof -
  have w: "n1 \<in> {8, 16, 32, 64}" "n2 \<in> {8, 16, 32, 64}" and n: "0 < n1" "n1 \<le> 64" "n2 \<le> 64"
    using assms by (auto simp: int_types_def)
  from bit_chop [OF w(1)] obtain c1 where c1: "chop x n1 = Some c1" "\<forall>i<64. bit c1 i \<longleftrightarrow> i < n1 \<and> bit x i" by blast
  from bit_chop [OF w(2)] obtain c2 where c2: "chop x n2 = Some c2" "\<forall>i<64. bit c2 i \<longleftrightarrow> i < n2 \<and> bit x i" by blast
  from bit_sign_fill [OF w(1)] obtain f1 where
    f1: "sign_fill c1 n1 = Some f1" "\<forall>i<64. bit f1 i \<longleftrightarrow> bit c1 i \<or> n1 \<le> i \<and> bit c1 (n1 - 1)" by blast
  from bit_sign_fill [OF w(2)] obtain f2 where
    f2: "sign_fill c1 n2 = Some f2" "\<forall>i<64. bit f2 i \<longleftrightarrow> bit c1 i \<or> n2 \<le> i \<and> bit c1 (n2 - 1)" by blast
  have "convert fp pI t1 t2 x = (if n1 = n2 then Some x
      else if n2 < n1 then (if t1 = S32_TYPE \<and> t2 = S16_TYPE then Some f2 else Some c2)
      else if g1 then Some f1 else Some c1)"
    using assms c1(1) c2(1) f1(1) f2(1)
    by (auto simp: int_types_def convert_def g_cvt_fn_def vec_at_def sext_def sexd_def zext_def)
  then show ?thesis
    using c1(2) c2(2) f1(2) f2(2) n by (auto split: if_splits)
qed

lemma convert_correct:
  assumes "(t1, n1, g1) \<in> int_types" "(t2, n2, g2) \<in> int_types"
  shows "\<exists>d. convert fp pI t1 t2 x = Some d \<and> uval n2 d = ival g1 n1 x mod 2 ^ n2"
proof -
  have n: "0 < n1" "n1 \<le> 64" using assms by (auto simp: int_types_def)
  from convert_bits [OF assms, of fp pI x] obtain d where
    "convert fp pI t1 t2 x = Some d" "\<forall>i<n2. bit d i \<longleftrightarrow> (if i < n1 then bit x i else g1 \<and> bit x (n1 - 1))" by blast
  moreover from this(2) have "uval n2 d = take_bit n2 (ival g1 n1 x)"
    by (intro bit_eqI) (auto simp: bit_uval bit_take_bit_iff bit_ival [OF n])
  ultimately show ?thesis by (simp add: take_bit_eq_mod)
qed

subsection \<open>Comparisons and predicates\<close>

text \<open>The order that a comparison asks for; the four names for unsigned numbers mean the same as the general ones.\<close>

definition order_of :: "compare_op \<Rightarrow> int \<Rightarrow> int \<Rightarrow> bool" where
  "order_of c a b =
     (if c = EQ_OPTION then a = b else if c = NE_OPTION then a \<noteq> b
      else if c \<in> {LT_OPTION, LO_OPTION} then a < b else if c \<in> {LE_OPTION, LS_OPTION} then a \<le> b
      else if c \<in> {GT_OPTION, HI_OPTION} then a > b else a \<ge> b)"

definition order_op :: "bool \<Rightarrow> compare_op \<Rightarrow> bool" where
  "order_op g c = (c \<in> {EQ_OPTION, NE_OPTION, LT_OPTION, LE_OPTION, GT_OPTION, GE_OPTION}
     \<or> \<not> g \<and> c \<in> {LO_OPTION, LS_OPTION, HI_OPTION, HS_OPTION})"

lemma word_order_uint:
  "a = b \<longleftrightarrow> uint a = uint b" "a < b \<longleftrightarrow> uint a < uint b" "a \<le> b \<longleftrightarrow> uint a \<le> uint b" for a b :: "'a::len word"
  by (simp_all add: word_uint_eq_iff word_less_def word_le_def)

lemma CmpOp_order:
  assumes "(t, n, g) \<in> int_types" "16 \<le> n" "order_op g c"
  shows "CmpOp t a b (Some c) = Some (order_of c (ival g n a) (ival g n b))"
proof -
  have "ival True 16 r = reg_s16 r" "ival True 32 r = reg_s32 r" "ival True 64 r = reg_s64 r"
    "ival False 16 r = uint (reg_u16 r)" "ival False 32 r = uint (reg_u32 r)" "ival False 64 r = uint (reg_u64 r)" for r
    using sval_sint [where 'a = 16] sval_sint [where 'a = 32] sval_sint [where 'a = 64]
      uval_uint [where 'a = 16] uval_uint [where 'a = 32] uval_uint [where 'a = 64]
    by (simp_all add: ival_def)
  then show ?thesis
    using assms
    by (auto simp: int_types_def CmpOp_def order_op_def order_of_def signed_op_def unsigned_op_def word_order_uint)
qed

text \<open>A predicate register holds when its zero flag is clear.\<close>

definition pred_holds :: "ptx_reg_t \<Rightarrow> bool" where "pred_holds v = (reg_pred v AND 1 = 0)"

lemma pred_holds_bit: "pred_holds v \<longleftrightarrow> \<not> bit v 0"
proof -
  have "pred_holds v \<longleftrightarrow> \<not> bit (reg_pred v) 0"
    using and_exp_eq_0_iff_not_bit [of "reg_pred v" 0] by (simp only: pred_holds_def power_0)
  then show ?thesis by (simp only: bit_ucast_iff) simp
qed

lemma pred_holds_set [simp]:
  "pred_holds (set_pred 0 p) \<longleftrightarrow> \<not> bit p 0" "pred_holds (set_u64 0 (reg_u64 v)) = pred_holds v"
  by (simp_all add: pred_holds_bit set_pred_def bit_put_low bit_ucast_iff bit_reg_of_set)

definition logic_instructions :: "((ptx_instruction \<Rightarrow> xstate \<Rightarrow> xstate option) \<times> (bool \<Rightarrow> bool \<Rightarrow> bool)) set" where
  "logic_instructions = {(and_impl, (\<and>)), (or_impl, (\<or>)), (xor_impl, (\<noteq>)), (orn_impl, \<lambda>a b. a \<or> \<not> b),
     (nandn_impl, \<lambda>a b. \<not> (a \<and> \<not> b)), (norn_impl, \<lambda>a b. \<not> a \<and> b)}"

lemma logic_plain:
  assumes "(impl, f) \<in> logic_instructions" "pi_operands pI = [dst, src1, src2]" "pi_scalar_type pI = [PRED_TYPE]"
    and "plain_reg dst z" "plain_reg src1 x" "plain_reg src2 y" "writable z" "reg_val s x = Some a" "reg_val s y = Some b"
  shows "\<exists>s' v. impl pI s = Some s' \<and> reg_val s' z = Some v \<and> (pred_holds v \<longleftrightarrow> f (pred_holds a) (pred_holds b))
    \<and> (\<forall>w. w \<noteq> z \<longrightarrow> reg_val s' w = reg_val s w)"
proof -
  have "\<exists>g d. impl = binary_impl g \<and> g PRED_TYPE a b = Some d \<and> (pred_holds d \<longleftrightarrow> f (pred_holds a) (pred_holds b))"
    using assms(1)
    by (auto simp: logic_instructions_def and_impl_def or_impl_def xor_impl_def orn_impl_def nandn_impl_def norn_impl_def
        and_data_def or_data_def xor_data_def orn_data_def nandn_data_def norn_data_def pred_holds_bit [of a] pred_holds_bit [of b]
        bit_simps)
  then obtain g d where g: "impl = binary_impl g" "g PRED_TYPE a b = Some d" "pred_holds d \<longleftrightarrow> f (pred_holds a) (pred_holds b)"
    by blast
  from binary_plain [where f = g, OF assms(2,3) _ assms(4-9) g(2)] g show ?thesis by (auto simp: wide_type_def)
qed

lemma setp_set:
  assumes "pi_operands pI = [dst, src1, src2]" "pi_scalar_type pI = [t]" "\<not> wide_type t"
    and "plain_reg dst z" "plain_reg src1 x" "plain_reg src2 y" "writable z"
    and "reg_val s x = Some a" "reg_val s y = Some b" "CmpOp t a b (pi_compare_op pI) = Some r"
  shows "setp_impl pI s = set_reg z (set_u64 0 (reg_u64 (set_pred 0 (if r then 0 else 1) :: ptx_reg_t))) s" "th_regs s \<noteq> []"
proof -
  show ne: "th_regs s \<noteq> []" using assms(8) by (auto simp: reg_val_def split: list.splits)
  show "setp_impl pI s = set_reg z (set_u64 0 (reg_u64 (set_pred 0 (if r then 0 else 1) :: ptx_reg_t))) s"
    using assms(1,2,10) by (simp add: setp_impl_def pi_operand_def vec_at_def get_type_def get_plain_reg [OF assms(5,8,3)]
        get_plain_reg [OF assms(6,9,3)] set_plain_reg [OF assms(4,7) ne] wide_type_def)
qed

lemma setp_plain:
  assumes "pi_operands pI = [dst, src1, src2]" "pi_scalar_type pI = [t]" "\<not> wide_type t"
    and "plain_reg dst z" "plain_reg src1 x" "plain_reg src2 y" "writable z"
    and "reg_val s x = Some a" "reg_val s y = Some b" "CmpOp t a b (pi_compare_op pI) = Some r"
  shows "\<exists>s' v. setp_impl pI s = Some s' \<and> reg_val s' z = Some v \<and> (pred_holds v \<longleftrightarrow> r)
    \<and> (\<forall>w. w \<noteq> z \<longrightarrow> reg_val s' w = reg_val s w)"
  using set_reg_law [OF assms(7) setp_set(2) [OF assms],
      of "set_u64 0 (reg_u64 (set_pred 0 (if r then 0 else 1) :: ptx_reg_t))"] setp_set(1) [OF assms] by auto

lemma selp_plain:
  assumes "pi_operands pI = [dst, src1, src2, src3]" "pi_scalar_type pI = [t]" "\<not> wide_type t"
    and "plain_reg dst z" "plain_reg src1 x" "plain_reg src2 y" "plain_reg src3 p" "writable z"
    and "reg_val s x = Some a" "reg_val s y = Some b" "reg_val s p = Some c"
  shows "\<exists>s'. selp_impl pI s = Some s' \<and> reg_val s' z = Some (set_u64 0 (reg_u64 (if pred_holds c then a else b)))"
proof -
  have ne: "th_regs s \<noteq> []" using assms(9) by (auto simp: reg_val_def split: list.splits)
  have "selp_impl pI s = set_reg z (set_u64 0 (reg_u64 (if pred_holds c then a else b))) s"
    using assms(1,2) by (simp add: selp_impl_def pi_operand_def vec_at_def get_type_def get_plain_reg [OF assms(5,9,3)]
        get_plain_reg [OF assms(6,10,3)] get_plain_reg [OF assms(7,11,3)] set_plain_reg [OF assms(4,8) ne] wide_type_def
        pred_holds_def)
  then show ?thesis using set_reg_law [OF assms(8) ne] by auto
qed

subsection \<open>Theorems\<close>

text \<open>
  C22. Multiplication of integers is exact.  For the signed and unsigned types of 16 and 32 bits, with \<open>P\<close> the product of the operands as
  numbers of the type, \<^verbatim>\<open>mul.wide\<close> leaves \<open>P\<close> in twice the width, \<^verbatim>\<open>mul.hi\<close> its upper half (rounded
  towards minus infinity for a signed type) and \<^verbatim>\<open>mul.lo\<close> the rest modulo \<open>2 ^ n\<close>.  For the two types of 64 bits
  \<^verbatim>\<open>mul.lo\<close> leaves \<open>P\<close> modulo \<open>2 ^ 64\<close>, where the signed multiplication of the host wraps around, and
  \<^verbatim>\<open>mul.wide\<close> and \<^verbatim>\<open>mul.hi\<close> fail on an assertion.  No other register changes.  The instruction has exactly one of the three
  modifiers and its operands are registers.
\<close>

theorem ptx_multiply_exact:
  assumes "pi_operands pI = [dst, src1, src2]" "pi_scalar_type pI = [t]"
    and "plain_reg dst z" "plain_reg src1 x" "plain_reg src2 y" "writable z"
    and "reg_val s x = Some a" "reg_val s y = Some b" "(t, n, sgnd) \<in> int_types" "16 \<le> n"
    and "(if pi_wide pI then 1 else 0) + (if pi_hi pI then 1 else 0) + (if pi_lo pI then 1 else 0) = (1 :: nat)"
  shows "if n = 64 \<and> \<not> pi_lo pI then mul_impl fp pI s = None
    else \<exists>s' v. mul_impl fp pI s = Some s' \<and> reg_val s' z = Some v \<and> (\<forall>w. w \<noteq> z \<longrightarrow> reg_val s' w = reg_val s w)
      \<and> (let P = ival sgnd n a * ival sgnd n b in
          if pi_wide pI then ival sgnd (2 * n) v = P
          else if pi_hi pI then ival sgnd n v = P div 2 ^ n
          else uval n v = P mod 2 ^ n)"
proof (cases "n = 64 \<and> \<not> pi_lo pI")
  case True
  then have "mul_data fp pI t a b = None" using assms(9) by (auto simp: int_types_def mul_data_def select_whl_def)
  moreover have w: "\<not> wide_type t" using assms(9) by (auto simp: int_types_def wide_type_def)
  ultimately show ?thesis using True binary_plain_None [where f = "mul_data fp pI", OF assms(1,2) w assms(4,5) assms(7,8)]
    by (simp add: mul_impl_def)
next
  case False
  have w: "\<not> wide_type t" and n: "0 < n" "n \<le> 64" "pi_wide pI \<longrightarrow> 2 * n \<le> 64"
    using assms(9,11) False by (auto simp: int_types_def wide_type_def)
  have keep: "ival sgnd k (set_u64 0 (reg_u64 d)) = ival sgnd k d" if "0 < k" "k \<le> 64" for k d
    using that by (simp add: ival_def uval_set_u64 sval_set_u64)
  let ?ok = "\<lambda>v. let P = ival sgnd n a * ival sgnd n b in
        if pi_wide pI then ival sgnd (2 * n) v = P
        else if pi_hi pI then ival sgnd n v = P div 2 ^ n
        else uval n v = P mod 2 ^ n"
  have "\<exists>d. mul_data fp pI t a b = Some d \<and> ?ok d"
  proof (cases "n = 64")
    case True
    then have "\<not> pi_wide pI" "\<not> pi_hi pI" "pi_lo pI" using False assms(11) by (auto split: if_splits)
    then show ?thesis using mul_data_64 [of t n sgnd pI fp a b] True assms(9) by (auto simp: Let_def)
  next
    case small: False
    then have "(t, n, sgnd) \<in> mul_types" using assms(9,10) by (auto simp: int_types_def mul_types_def)
    from mul_data_correct [OF this, of pI fp a b] show ?thesis using assms(11) by (auto simp: Let_def split: if_splits)
  qed
  then obtain d where d: "mul_data fp pI t a b = Some d" "?ok d" by blast
  moreover have "?ok (set_u64 0 (reg_u64 d))"
    using d(2) n by (auto simp: Let_def keep uval_set_u64 split: if_splits)
  moreover from binary_plain [where f = "mul_data fp pI", OF assms(1,2) w assms(3-8) d(1)] obtain s' where
    "mul_impl fp pI s = Some s'" "reg_val s' z = Some (set_u64 0 (reg_u64 d))" "\<forall>w. w \<noteq> z \<longrightarrow> reg_val s' w = reg_val s w"
    unfolding mul_impl_def by blast
  ultimately show ?thesis using False by auto
qed

theorem ptx_multiply_exact_witness:
  "\<exists>s' v. mul_impl ex_fpu ((ex_inst [operand_symbol (ex_reg 1 S32_TYPE), operand_symbol (ex_reg 2 S32_TYPE),
        operand_symbol (ex_reg 3 S32_TYPE)] [S32_TYPE])\<lparr>pi_hi := True\<rparr>)
      (ex_thread [ex_reg 2 S32_TYPE \<mapsto> 0xFFFFFFFF, ex_reg 3 S32_TYPE \<mapsto> 7]) = Some s'
    \<and> reg_val s' (ex_reg 1 S32_TYPE) = Some v \<and> sval 32 v = - 1"
  using ptx_multiply_exact [of "(ex_inst [operand_symbol (ex_reg 1 S32_TYPE), operand_symbol (ex_reg 2 S32_TYPE),
        operand_symbol (ex_reg 3 S32_TYPE)] [S32_TYPE])\<lparr>pi_hi := True\<rparr>" "operand_symbol (ex_reg 1 S32_TYPE)"
      "operand_symbol (ex_reg 2 S32_TYPE)" "operand_symbol (ex_reg 3 S32_TYPE)" S32_TYPE "ex_reg 1 S32_TYPE" "ex_reg 2 S32_TYPE"
      "ex_reg 3 S32_TYPE" "ex_thread [ex_reg 2 S32_TYPE \<mapsto> 0xFFFFFFFF, ex_reg 3 S32_TYPE \<mapsto> 7]" "0xFFFFFFFF" 7 32 True ex_fpu]
  by (simp add: int_types_def ival_def sval_def Let_def ex_inst_def) blast

text \<open>
  C23. Conversion between the eight integer types.  \<^verbatim>\<open>cvt\<close> leaves in the low \<open>n2\<close> bits of the destination the value of
  the source, read as a number of the source type, modulo \<open>2 ^ n2\<close>: it extends with the sign of a signed source and with
  zeros an unsigned one, and truncates to a narrower type.
\<close>

theorem ptx_convert_integers:
  assumes "pi_operands pI = [dst, src1]" "pi_scalar_type pI = [t2, t1]" "\<not> pi_neg pI"
    and "plain_reg dst z" "plain_reg src1 x" "writable z" "reg_val s x = Some a"
    and "(t1, n1, g1) \<in> int_types" "(t2, n2, g2) \<in> int_types"
  shows "\<exists>s' v. cvt_impl fp pI s = Some s' \<and> reg_val s' z = Some v \<and> uval n2 v = ival g1 n1 a mod 2 ^ n2
    \<and> (\<forall>w. w \<noteq> z \<longrightarrow> reg_val s' w = reg_val s w)"
proof -
  have w: "\<not> wide_type t1" "\<not> wide_type t2" "t1 \<noteq> F16_TYPE" "t2 \<noteq> F16_TYPE" "n2 \<le> 64"
    using assms(8,9) by (auto simp: int_types_def wide_type_def)
  have ne: "th_regs s \<noteq> []" using assms(7) by (auto simp: reg_val_def split: list.splits)
  from convert_correct [OF assms(8,9)] obtain d where d: "convert fp pI t1 t2 a = Some d" "uval n2 d = ival g1 n1 a mod 2 ^ n2"
    by blast
  have "cvt_impl fp pI s = set_reg z (set_u64 0 (reg_u64 d)) s"
    using assms(1-3) w d(1) by (simp add: cvt_impl_def pi_operand_def vec_at_def get_type_def get_type2_def
        get_plain_reg [OF assms(5,7) w(1)] set_plain_reg [OF assms(4,6) ne w(2)])
  then show ?thesis
    using set_reg_law [OF assms(6) ne, of "set_u64 0 (reg_u64 d)"] d(2) w(5) by (auto simp: uval_set_u64)
qed

theorem ptx_convert_integers_witness:
  "\<exists>s' v. cvt_impl ex_fpu (ex_inst [operand_symbol (ex_reg 1 U32_TYPE), operand_symbol (ex_reg 2 S8_TYPE)] [U32_TYPE, S8_TYPE])
      (ex_thread [ex_reg 2 S8_TYPE \<mapsto> 0x1FE]) = Some s'
    \<and> reg_val s' (ex_reg 1 U32_TYPE) = Some v \<and> uval 32 v = 0xFFFFFFFE"
  using ptx_convert_integers [of "ex_inst [operand_symbol (ex_reg 1 U32_TYPE), operand_symbol (ex_reg 2 S8_TYPE)] [U32_TYPE, S8_TYPE]"
      "operand_symbol (ex_reg 1 U32_TYPE)" "operand_symbol (ex_reg 2 S8_TYPE)" U32_TYPE S8_TYPE "ex_reg 1 U32_TYPE" "ex_reg 2 S8_TYPE"
      "ex_thread [ex_reg 2 S8_TYPE \<mapsto> 0x1FE]" "0x1FE" 8 True 32 False ex_fpu]
  by (simp add: int_types_def ival_def sval_def ex_inst_def) blast

text \<open>
  Predicates.  Two comparisons \<^verbatim>\<open>setp\<close>, a logical instruction on the predicates and a selection \<^verbatim>\<open>selp\<close> compute
  what they say, although a predicate is true when its stored zero flag is 0: the selected value is the first one exactly when the
  logical function of the two orders (of signed or unsigned integers of 16 to 64 bits) is true.
\<close>

theorem ptx_predicates:
  assumes "\<And>w. plain_reg (opnd w) w"
    and "pi_operands i1 = map opnd [p, a1, b1]" "pi_scalar_type i1 = [t1]" "pi_compare_op i1 = Some c1"
    and "(t1, n1, g1) \<in> int_types" "16 \<le> n1" "order_op g1 c1"
    and "pi_operands i2 = map opnd [q, a2, b2]" "pi_scalar_type i2 = [t2]" "pi_compare_op i2 = Some c2"
    and "(t2, n2, g2) \<in> int_types" "16 \<le> n2" "order_op g2 c2"
    and "(impl, f) \<in> logic_instructions" "pi_operands i3 = map opnd [r, p, q]" "pi_scalar_type i3 = [PRED_TYPE]"
    and "pi_operands i4 = map opnd [z, x, y, r]" "pi_scalar_type i4 = [t]" "\<not> wide_type t"
    and "distinct [p, q, r]" "{a2, b2, x, y} \<inter> {p, q, r} = {}" "writable p" "writable q" "writable r" "writable z"
    and "reg_val s a1 = Some va1" "reg_val s b1 = Some vb1" "reg_val s a2 = Some va2" "reg_val s b2 = Some vb2"
    and "reg_val s x = Some vx" "reg_val s y = Some vy"
  shows "\<exists>s'. do { s \<leftarrow> setp_impl i1 s; s \<leftarrow> setp_impl i2 s; s \<leftarrow> impl i3 s; selp_impl i4 s } = Some s'
    \<and> reg_val s' z = Some (set_u64 0 (reg_u64
        (if f (order_of c1 (ival g1 n1 va1) (ival g1 n1 vb1)) (order_of c2 (ival g2 n2 va2) (ival g2 n2 vb2)) then vx else vy)))"
proof -
  have w: "\<not> wide_type t1" "\<not> wide_type t2" using assms(5,11) by (auto simp: int_types_def wide_type_def)
  note o = assms(2,8,15,17) [unfolded list.map]
  note c1 = CmpOp_order [OF assms(5-7), of va1 vb1, folded assms(4)]
  note c2 = CmpOp_order [OF assms(11-13), of va2 vb2, folded assms(10)]
  from setp_plain [OF o(1) assms(3) w(1) assms(1,1,1,22,26,27) c1] obtain s1 v1 where
    1: "setp_impl i1 s = Some s1" "reg_val s1 p = Some v1" "\<forall>w. w \<noteq> p \<longrightarrow> reg_val s1 w = reg_val s w"
    and h1: "pred_holds v1 = order_of c1 (ival g1 n1 va1) (ival g1 n1 vb1)" by blast
  have "reg_val s1 a2 = Some va2" "reg_val s1 b2 = Some vb2" using 1(3) assms(21,28,29) by auto
  from setp_plain [OF o(2) assms(9) w(2) assms(1,1,1,23) this c2] obtain s2 v2 where
    2: "setp_impl i2 s1 = Some s2" "reg_val s2 q = Some v2" "\<forall>w. w \<noteq> q \<longrightarrow> reg_val s2 w = reg_val s1 w"
    and h2: "pred_holds v2 = order_of c2 (ival g2 n2 va2) (ival g2 n2 vb2)" by blast
  have "reg_val s2 p = Some v1" using 1 2 assms(20) by auto
  from logic_plain [OF assms(14) o(3) assms(16) assms(1,1,1,24) this 2(2)] obtain s3 v3 where
    3: "impl i3 s2 = Some s3" "reg_val s3 r = Some v3" "\<forall>w. w \<noteq> r \<longrightarrow> reg_val s3 w = reg_val s2 w"
    and h3: "pred_holds v3 = f (pred_holds v1) (pred_holds v2)" by blast
  have "reg_val s3 x = Some vx" "reg_val s3 y = Some vy" using 1(3) 2(3) 3(3) assms(21,30,31) by auto
  from selp_plain [OF o(4) assms(18,19) assms(1,1,1,1,25) this 3(2)] 1(1) 2(1) 3(1) h1 h2 h3
  show ?thesis by auto
qed

definition ex_opnd :: "symbol \<Rightarrow> operand_info" where "ex_opnd y = operand_new reg_t (V_symbolic y)"

lemma ex_opnd [simp]: "plain_reg (ex_opnd w) w"
  by (simp add: ex_opnd_def operand_new_def plain_reg_def)

theorem ptx_predicates_witness:
  "\<exists>s'. do {
      s \<leftarrow> setp_impl ((ex_inst (map ex_opnd [ex_reg 1 PRED_TYPE, ex_reg 5 S32_TYPE, ex_reg 6 S32_TYPE]) [S32_TYPE])
        \<lparr>pi_compare_op := Some LT_OPTION\<rparr>)
        (ex_thread [ex_reg 5 S32_TYPE \<mapsto> 0xFFFFFFFF, ex_reg 6 S32_TYPE \<mapsto> 1]);
      s \<leftarrow> setp_impl ((ex_inst (map ex_opnd [ex_reg 2 PRED_TYPE, ex_reg 5 S32_TYPE, ex_reg 6 S32_TYPE]) [U32_TYPE])
        \<lparr>pi_compare_op := Some HI_OPTION\<rparr>) s;
      s \<leftarrow> and_impl (ex_inst (map ex_opnd [ex_reg 3 PRED_TYPE, ex_reg 1 PRED_TYPE, ex_reg 2 PRED_TYPE]) [PRED_TYPE]) s;
      selp_impl (ex_inst (map ex_opnd [ex_reg 4 S32_TYPE, ex_reg 6 S32_TYPE, ex_reg 5 S32_TYPE, ex_reg 3 PRED_TYPE]) [S32_TYPE]) s
    } = Some s' \<and> reg_val s' (ex_reg 4 S32_TYPE) = Some 1"
proof -
  let ?i1 = "(ex_inst (map ex_opnd [ex_reg 1 PRED_TYPE, ex_reg 5 S32_TYPE, ex_reg 6 S32_TYPE]) [S32_TYPE])
        \<lparr>pi_compare_op := Some LT_OPTION\<rparr>"
  let ?i2 = "(ex_inst (map ex_opnd [ex_reg 2 PRED_TYPE, ex_reg 5 S32_TYPE, ex_reg 6 S32_TYPE]) [U32_TYPE])
        \<lparr>pi_compare_op := Some HI_OPTION\<rparr>"
  let ?s = "ex_thread [ex_reg 5 S32_TYPE \<mapsto> 0xFFFFFFFF, ex_reg 6 S32_TYPE \<mapsto> 1]"
  have "set_u64 0 (reg_u64 1) = (1 :: ptx_reg_t)" by (simp add: set_u64_def put_low_0)
  then show ?thesis
    using ptx_predicates [of ex_opnd ?i1 "ex_reg 1 PRED_TYPE" "ex_reg 5 S32_TYPE" "ex_reg 6 S32_TYPE" S32_TYPE LT_OPTION 32 True
        ?i2 "ex_reg 2 PRED_TYPE" "ex_reg 5 S32_TYPE" "ex_reg 6 S32_TYPE" U32_TYPE HI_OPTION 32 False and_impl "(\<and>)"
        "ex_inst (map ex_opnd [ex_reg 3 PRED_TYPE, ex_reg 1 PRED_TYPE, ex_reg 2 PRED_TYPE]) [PRED_TYPE]" "ex_reg 3 PRED_TYPE"
        "ex_inst (map ex_opnd [ex_reg 4 S32_TYPE, ex_reg 6 S32_TYPE, ex_reg 5 S32_TYPE, ex_reg 3 PRED_TYPE]) [S32_TYPE]"
        "ex_reg 4 S32_TYPE" "ex_reg 6 S32_TYPE" "ex_reg 5 S32_TYPE" S32_TYPE ?s "0xFFFFFFFF" 1 "0xFFFFFFFF" 1 1 "0xFFFFFFFF"]
    by (simp add: int_types_def order_op_def logic_instructions_def wide_type_def order_of_def ival_def sval_def uval_def
        ex_inst_def)
qed

text \<open>
  Inputs on which the code departs from the meaning of the instruction: \<^verbatim>\<open>addp\<close> with a set carry flag adds 4; \<^verbatim>\<open>mad.wide\<close> on 32
  bits gives 0 for \<open>2 ^ 16\<close> squared; \<^verbatim>\<open>mad.hi.u16\<close> of 1, 1 and 65535 is 1; \<^verbatim>\<open>sad\<close> does not look at its second and
  third source; \<^verbatim>\<open>rem.s32\<close> of -7 by 3 is 0; \<^verbatim>\<open>setp.eq.b16\<close> tells 0x10001 from 1; the conversion of a 64-bit integer to a
  floating-point number does not depend on the integer; and after the subtraction of 0 from the least 32-bit number the condition
  \<^verbatim>\<open>lt\<close> is false.
\<close>

lemma arithmetic_defects:
  "sum_data fp m U32_TYPE 1 1 (ucast (reg_pred 4 AND 0x4)) = Some (6, False, False)"
  "mad_data fp ((ex_inst ps ts)\<lparr>pi_wide := True\<rparr>) False S32_TYPE 0x10000 0x10000 0 0 = Some (0, False)"
  "mad_data fp ((ex_inst ps ts)\<lparr>pi_hi := True\<rparr>) False U16_TYPE 1 1 0xFFFF 0 = Some (1, False)"
  "sad_impl fp (ex_inst [d, a, b, c] ts) s = sad_impl fp (ex_inst [d, a, b', c'] ts) s"
  "rem_data S32_TYPE (ucast (- 7 :: 32 word)) 3 = Some 0"
  "CmpOp B16_TYPE 0x10001 1 (Some EQ_OPTION) = Some False"
  "s2f fp x 64 w rm = s2f fp y 64 w rm" "u2f fp x 64 w rm = u2f fp y 64 w rm"
  "sub_data fp S32_TYPE 0x80000000 0 = Some (0x180000000, False, True)"
  "zero_flag S32_TYPE 0x180000000 = Some True" "sign_flag S32_TYPE 0x180000000 = Some True"
  "pred_lookup 0x01 (flag_index True True True False) = Some False"
  "sval 32 0x80000000 < sval 32 0"
proof -
  show "sum_data fp m U32_TYPE 1 1 (ucast (reg_pred 4 AND 0x4)) = Some (6, False, False)"
    by (simp add: sum_data_def unsigned_sum_def sum_bits_def carry_out_def set_u64_def put_low_0 mask_eq_exp_minus_1 Let_def)
  show "mad_data fp ((ex_inst ps ts)\<lparr>pi_wide := True\<rparr>) False S32_TYPE 0x10000 0x10000 0 0 = Some (0, False)"
    by (simp add: mad_data_def select_whl_def set_u64_def put_low_0 ex_inst_def)
  show "mad_data fp ((ex_inst ps ts)\<lparr>pi_hi := True\<rparr>) False U16_TYPE 1 1 0xFFFF 0 = Some (1, False)"
    by (simp add: mad_data_def select_whl_def set_u16_def put_low_0 ex_inst_def)
  show "sad_impl fp (ex_inst [d, a, b, c] ts) s = sad_impl fp (ex_inst [d, a, b', c'] ts) s"
    by (simp add: sad_impl_def pi_operand_def vec_at_def get_type_def)
  show "rem_data S32_TYPE (ucast (- 7 :: 32 word)) 3 = Some 0"
    by (simp add: rem_data_def set_u64_def put_low_0)
  show "CmpOp B16_TYPE 0x10001 1 (Some EQ_OPTION) = Some False"
    by (simp add: CmpOp_def equality_op_def)
  show "s2f fp x 64 w rm = s2f fp y 64 w rm" "u2f fp x 64 w rm = u2f fp y 64 w rm"
    by (simp_all add: s2f_def u2f_def)
  show "sub_data fp S32_TYPE 0x80000000 0 = Some (0x180000000, False, True)"
    by (simp add: sub_data_def signed_diff_def diff_bits_def diff_overflow_def sign_bit_def carry_out_def set_u64_def put_low_0
        mask_eq_exp_minus_1 Let_def)
  show "zero_flag S32_TYPE 0x180000000 = Some True" "sign_flag S32_TYPE 0x180000000 = Some True"
    by (simp_all add: zero_flag_def sign_flag_def)
  show "pred_lookup 0x01 (flag_index True True True False) = Some False" by (simp only: pred_rows) simp
  show "sval 32 0x80000000 < sval 32 0" by (simp add: sval_def)
qed

end
