(* ===== verification/PtxExec_Model.thy ===== *)
theory PtxExec_Model
  imports PtxArith_Laws
begin

text \<open>
  The memory, atomic, control and vote instructions of \<^verbatim>\<open>cuda-sim/instructions.cc\<close>, the call stack of
  \<^verbatim>\<open>cuda-sim/ptx_sim.cc\<close> with the argument buffers of \<^verbatim>\<open>cuda-sim/ptx_ir.*\<close>, and the frame of
  \<^verbatim>\<open>ptx_thread_info::ptx_exec_inst\<close> (\<^verbatim>\<open>cuda-sim/cuda-sim.cc\<close>) around the handler of an opcode.  Not part of the
  model are the symbol table that a call saves beside the function, the notification of the core and of the block when a thread
  ends, and the profiling output.
\<close>

unbundle bit_operations_syntax

subsection \<open>Address spaces\<close>

datatype mem_ref = M_global | M_tex | M_surf | M_param | M_shared | M_local

fun get_mem :: "mem_ref \<Rightarrow> xstate \<Rightarrow> mem_space" where
  "get_mem M_global s = xs_global_mem s"
| "get_mem M_tex s = xs_tex_mem s"
| "get_mem M_surf s = xs_surf_mem s"
| "get_mem M_param s = xs_param_mem s"
| "get_mem M_shared s = xs_shared_mem s"
| "get_mem M_local s = th_local_mem s"

fun put_mem :: "mem_ref \<Rightarrow> mem_space \<Rightarrow> xstate \<Rightarrow> xstate" where
  "put_mem M_global m s = s\<lparr>xs_global_mem := m\<rparr>"
| "put_mem M_tex m s = s\<lparr>xs_tex_mem := m\<rparr>"
| "put_mem M_surf m s = s\<lparr>xs_surf_mem := m\<rparr>"
| "put_mem M_param m s = s\<lparr>xs_param_mem := m\<rparr>"
| "put_mem M_shared m s = s\<lparr>xs_shared_mem := m\<rparr>"
| "put_mem M_local m s = s\<lparr>th_local_mem := m\<rparr>"

definition global_to_generic :: "addr_t \<Rightarrow> addr_t" where "global_to_generic addr = addr"
definition generic_to_global :: "addr_t \<Rightarrow> addr_t" where "generic_to_global addr = addr"

definition resolve_param :: "memory_space_t \<Rightarrow> operand_info \<Rightarrow> memory_space_t option" where
  "resolve_param space p =
     (if space = space_of param_space_unclassified then do {
        y \<leftarrow> op_symbol p;
        k \<leftarrow> sym_type y;
        (if key_is_param_kernel k then Some (space_of param_space_kernel)
         else if key_is_param_local k then Some (space_of param_space_local)
         else None)
      } else Some space)"

definition decode_generic :: "addr_t \<Rightarrow> xstate \<Rightarrow> (memory_space_t \<times> mem_ref \<times> addr_t) option" where
  "decode_generic addr s = do {
     assert_that (xs_ptx_version_2 s);
     let k = whichspace addr;
     (case k of
        global_space \<Rightarrow> Some (space_of k, M_global, generic_to_global addr)
      | local_space \<Rightarrow> do { a \<leftarrow> generic_to_local (th_hw_sid s) (th_hw_tid s) addr; Some (space_of k, M_local, a) }
      | shared_space \<Rightarrow> do { a \<leftarrow> generic_to_shared (th_hw_sid s) addr; Some (space_of k, M_shared, a) }
      | _ \<Rightarrow> None)
   }"

text \<open>The memory and the address in it that an instruction with an address space means.\<close>

definition decode_space :: "memory_space_t \<Rightarrow> operand_info \<Rightarrow> addr_t \<Rightarrow> xstate \<Rightarrow> (memory_space_t \<times> mem_ref \<times> addr_t) option"
where
  "decode_space space p addr s = do {
     space \<leftarrow> resolve_param space p;
     (case m_type space of
        global_space \<Rightarrow> Some (space, M_global, addr)
      | param_space_local \<Rightarrow> Some (space, M_local, addr + th_local_mem_stack_pointer s)
      | local_space \<Rightarrow> Some (space, M_local, addr + th_local_mem_stack_pointer s)
      | tex_space \<Rightarrow> Some (space, M_tex, addr)
      | surf_space \<Rightarrow> Some (space, M_surf, addr)
      | param_space_kernel \<Rightarrow> Some (space, M_param, addr)
      | shared_space \<Rightarrow> Some (space, M_shared, addr)
      | const_space \<Rightarrow> Some (space, M_global, addr)
      | generic_space \<Rightarrow> decode_generic addr s
      | _ \<Rightarrow> None)
   }"

subsection \<open>Loads and stores\<close>

fun vector_length :: "vector_spec \<Rightarrow> nat" where
  "vector_length No_vector = 1"
| "vector_length V2_TYPE = 2"
| "vector_length V3_TYPE = 3"
| "vector_length V4_TYPE = 4"

text \<open>Element \<open>i\<close> of a vector lies at \<^verbatim>\<open>addr+i*size/8\<close>.\<close>

definition elem_addr :: "addr_t \<Rightarrow> nat \<Rightarrow> nat \<Rightarrow> addr_t" where
  "elem_addr addr sz i = addr + of_nat (i * sz div 8)"

fun load_elems :: "mem_space \<Rightarrow> addr_t \<Rightarrow> nat \<Rightarrow> nat \<Rightarrow> nat \<Rightarrow> ptx_reg_t list option" where
  "load_elems m addr sz i 0 = Some []"
| "load_elems m addr sz i (Suc n) = do {
     bs \<leftarrow> ms_read m (unat (elem_addr addr sz i)) (sz div 8);
     rs \<leftarrow> load_elems m addr sz (Suc i) n;
     Some (put_bytes 0 bs # rs)
   }"

text \<open>The last elements of a short vector repeat one that was read; the destination does not name them.\<close>

definition ld_exec :: "ptx_instruction \<Rightarrow> xstate \<Rightarrow> xstate option" where
  "ld_exec pI s = do {
     dst \<leftarrow> pi_dst pI; src1 \<leftarrow> pi_src1 pI; t \<leftarrow> get_type pI;
     (r, s) \<leftarrow> get_operand_value src1 dst t True s;
     (space, mr, addr) \<leftarrow> decode_space (pi_space_spec pI) src1 (reg_u32 r) s;
     let sz = type_size t;
     s \<leftarrow> (if pi_vector_spec pI = No_vector then do {
            bs \<leftarrow> ms_read (get_mem mr s) (unat addr) (sz div 8);
            data \<leftarrow> (if t = S16_TYPE \<or> t = S32_TYPE then sign_extend (put_bytes 0 bs) sz dst else Some (put_bytes 0 bs));
            set_operand_value dst data t s
          } else do {
            rs \<leftarrow> load_elems (get_mem mr s) addr sz 0 (vector_length (pi_vector_spec pI));
            let rs = rs @ replicate (4 - length rs) (last rs);
            set_vector_operand_values dst (rs ! 0) (rs ! 1) (rs ! 2) (rs ! 3) s
          });
     Some (s\<lparr>th_last_effective_address := addr, th_last_memory_space := space\<rparr>)
   }"

definition ld_impl :: "ptx_instruction \<Rightarrow> xstate \<Rightarrow> xstate option" where "ld_impl = ld_exec"
definition ldu_impl :: "ptx_instruction \<Rightarrow> xstate \<Rightarrow> xstate option" where "ldu_impl = ld_exec"

fun store_elems :: "mem_ref \<Rightarrow> addr_t \<Rightarrow> nat \<Rightarrow> nat \<Rightarrow> ptx_reg_t list \<Rightarrow> xstate \<Rightarrow> xstate option" where
  "store_elems mr addr sz i [] s = Some s"
| "store_elems mr addr sz i (r # rs) s = do {
     (_, m) \<leftarrow> ms_write (get_mem mr s) (unat (elem_addr addr sz i)) (reg_bytes (sz div 8) r);
     store_elems mr addr sz (Suc i) rs (put_mem mr m s)
   }"

definition st_impl :: "ptx_instruction \<Rightarrow> xstate \<Rightarrow> xstate option" where
  "st_impl pI s = do {
     dst \<leftarrow> pi_dst pI; src1 \<leftarrow> pi_src1 pI; t \<leftarrow> get_type pI;
     (r, s) \<leftarrow> get_operand_value dst dst t True s;
     (space, mr, addr) \<leftarrow> decode_space (pi_space_spec pI) dst (reg_u32 r) s;
     let sz = type_size t;
     s \<leftarrow> (if pi_vector_spec pI = No_vector then do {
            (data, s) \<leftarrow> get_operand_value src1 dst t True s;
            store_elems mr addr sz 0 [data] s
          } else do {
            let n = vector_length (pi_vector_spec pI);
            rs \<leftarrow> get_vector_operand_values src1 (replicate n 0) n s;
            store_elems mr addr sz 0 rs s
          });
     Some (s\<lparr>th_last_effective_address := addr, th_last_memory_space := space\<rparr>)
   }"

definition cvta_impl :: "ptx_instruction \<Rightarrow> xstate \<Rightarrow> xstate option" where
  "cvta_impl pI s = do {
     dst \<leftarrow> pi_dst pI; src1 \<leftarrow> pi_src1 pI; t \<leftarrow> get_type pI;
     (r, s) \<leftarrow> get_operand_value src1 dst t True s;
     let a = reg_u32 r;
     a \<leftarrow> (if pi_to_option pI then
            (case m_type (pi_space_spec pI) of
               shared_space \<Rightarrow> generic_to_shared (th_hw_sid s) a
             | local_space \<Rightarrow> generic_to_local (th_hw_sid s) (th_hw_tid s) a
             | global_space \<Rightarrow> Some (generic_to_global a)
             | _ \<Rightarrow> None)
          else
            (case m_type (pi_space_spec pI) of
               shared_space \<Rightarrow> shared_to_generic (th_hw_sid s) a
             | local_space \<Rightarrow> do { g \<leftarrow> local_to_generic (th_hw_sid s) (th_hw_tid s) a; Some (g + th_local_mem_stack_pointer s) }
             | global_space \<Rightarrow> Some (global_to_generic a)
             | _ \<Rightarrow> None));
     y \<leftarrow> op_symbol dst;
     set_reg y (set_u64 0 (ucast a)) s
   }"

text \<open>The cases of the switch have no \<^verbatim>\<open>break\<close>, and all of them end in \<^verbatim>\<open>abort\<close>.\<close>

definition isspacep_impl :: "ptx_instruction \<Rightarrow> xstate \<Rightarrow> xstate option" where
  "isspacep_impl pI s = do {
     dst \<leftarrow> pi_dst pI; src1 \<leftarrow> pi_src1 pI;
     y \<leftarrow> op_symbol src1;
     (a, s) \<leftarrow> get_reg y s;
     None
   }"

subsection \<open>Atomic operations\<close>

text \<open>The new contents of the memory cell, from the old contents and the second and third source.\<close>

definition atom_op :: "fpu \<Rightarrow> atomic_op \<Rightarrow> ptx_type \<Rightarrow> ptx_reg_t \<Rightarrow> ptx_reg_t \<Rightarrow> ptx_reg_t \<Rightarrow> ptx_reg_t option" where
  "atom_op fp op t d b c =
     (let w32 = (\<lambda>v. Some (set_u32 0 v)); w64 = (\<lambda>v. Some (set_u64 0 v));
          x = reg_u32 d; y = reg_u32 b; z = reg_u32 c;
          word = t \<in> {B32_TYPE, U32_TYPE, S32_TYPE}; long = t \<in> {B64_TYPE, U64_TYPE}
      in case op of
        ATOMIC_AND \<Rightarrow> (if word then w32 (x AND y) else None)
      | ATOMIC_OR \<Rightarrow> (if word then w32 (x OR y) else None)
      | ATOMIC_XOR \<Rightarrow> (if word then w32 (x XOR y) else None)
      | ATOMIC_CAS \<Rightarrow> (if word then w32 (if x = y then z else x)
                      else if long then w64 (if reg_u64 d = reg_u64 b then reg_u64 c else reg_u64 d) else None)
      | ATOMIC_EXCH \<Rightarrow> (if word then w32 y else if long then w64 (reg_u64 b) else None)
      | ATOMIC_ADD \<Rightarrow> (if t = U32_TYPE \<or> t = S32_TYPE then w32 (x + y)
                      else if t = U64_TYPE then w64 (reg_u64 d + reg_u64 b)
                      else if t = F32_TYPE then w32 (fp_add32 fp FE_TONEAREST x y) else None)
      | ATOMIC_INC \<Rightarrow> (if t = U32_TYPE then w32 (if x \<ge> y then 0 else x + 1) else None)
      | ATOMIC_DEC \<Rightarrow> (if t = U32_TYPE then w32 (if x = 0 \<or> x > y then y else x - 1) else None)
      | ATOMIC_MIN \<Rightarrow> (if t = U32_TYPE then w32 (umin x y) else if t = S32_TYPE then w32 (smin x y) else None)
      | ATOMIC_MAX \<Rightarrow> (if t = U32_TYPE then w32 (umax x y) else if t = S32_TYPE then w32 (smax x y) else None))"

definition atom_space :: "memory_space_t \<Rightarrow> addr_t \<Rightarrow> xstate \<Rightarrow> (memory_space_t \<times> mem_ref \<times> addr_t) option" where
  "atom_space space addr s = do {
     (space, addr) \<leftarrow> (if space = space_of undefined_space then
        (case whichspace addr of
           global_space \<Rightarrow> Some (space_of global_space, generic_to_global addr)
         | shared_space \<Rightarrow> do { a \<leftarrow> generic_to_shared (th_hw_sid s) addr; Some (space_of shared_space, a) }
         | _ \<Rightarrow> None)
      else Some (space, addr));
     (if space = space_of global_space then Some (space, M_global, addr)
      else if space = space_of shared_space then Some (space, M_shared, addr)
      else None)
   }"

text \<open>
  The memory side of an atomic instruction.  The old contents go to the destination before the third source of a
  compare-and-swap is read.
\<close>

definition atom_callback :: "fpu \<Rightarrow> ptx_instruction \<Rightarrow> xstate \<Rightarrow> xstate option" where
  "atom_callback fp pI s = do {
     t \<leftarrow> get_type pI;
     let sz = type_size t div 8;
     dst \<leftarrow> pi_dst pI; src1 \<leftarrow> pi_src1 pI; src2 \<leftarrow> pi_src2 pI;
     (a, s) \<leftarrow> get_operand_value src1 src1 t True s;
     y \<leftarrow> op_symbol dst;
     (b, s) \<leftarrow> get_operand_value src2 (if sym_type y \<noteq> None then dst else src1) t True s;
     (space, mr, addr) \<leftarrow> atom_space (pi_space_spec pI) (reg_u32 a) s;
     bs \<leftarrow> ms_read (get_mem mr s) (unat addr) sz;
     let data = put_bytes 0 bs;
     s \<leftarrow> (if sym_type y \<noteq> None then set_operand_value dst data t s else Some s);
     op \<leftarrow> pi_atomic_spec pI;
     (c, s) \<leftarrow> (if op = ATOMIC_CAS then do { src3 \<leftarrow> pi_src3 pI; get_operand_value src3 dst t True s } else Some (0, s));
     r \<leftarrow> atom_op fp op t data b c;
     (_, m) \<leftarrow> ms_write (get_mem mr s) (unat addr) (reg_bytes sz r);
     Some (put_mem mr m s)
   }"

definition atom_impl :: "ptx_instruction \<Rightarrow> xstate \<Rightarrow> xstate option" where
  "atom_impl pI s = do {
     src1 \<leftarrow> pi_src1 pI; t \<leftarrow> get_type pI;
     (a, s) \<leftarrow> get_operand_value src1 src1 t True s;
     (space, mr, addr) \<leftarrow> atom_space (pi_space_spec pI) (reg_u32 a) s;
     Some (s\<lparr>th_last_effective_address := addr, th_last_memory_space := space, th_last_dram_callback := Some pI\<rparr>)
   }"

subsection \<open>Control\<close>

definition bar_sync_impl :: "ptx_instruction \<Rightarrow> xstate \<Rightarrow> xstate option" where
  "bar_sync_impl pI s = do {
     dst \<leftarrow> pi_dst pI;
     (b, s) \<leftarrow> get_operand_value dst dst U32_TYPE True s;
     assert_that (reg_u32 b = 0);
     Some s
   }"

definition jump :: "operand_info \<Rightarrow> xstate \<Rightarrow> xstate option" where
  "jump target s = do {
     (pc, s) \<leftarrow> get_operand_value target target U32_TYPE True s;
     Some (s\<lparr>th_branch_taken := True, th_NPC := reg_u32 pc\<rparr>)
   }"

definition bra_impl :: "ptx_instruction \<Rightarrow> xstate \<Rightarrow> xstate option" where
  "bra_impl pI s = do { target \<leftarrow> pi_dst pI; jump target s }"

definition brx_impl :: "ptx_instruction \<Rightarrow> xstate \<Rightarrow> xstate option" where
  "brx_impl pI s = do { target \<leftarrow> pi_dst pI; jump target s }"

text \<open>\<^verbatim>\<open>pop_breakaddr\<close> returns a reference to the element it has removed; the model takes the element.\<close>

definition pop_breakaddr :: "xstate \<Rightarrow> (operand_info \<times> xstate) option" where
  "pop_breakaddr s = (case th_breakaddrs s of [] \<Rightarrow> None | p # ps \<Rightarrow> Some (p, s\<lparr>th_breakaddrs := ps\<rparr>))"

definition push_breakaddr :: "operand_info \<Rightarrow> xstate \<Rightarrow> xstate" where
  "push_breakaddr p s = s\<lparr>th_breakaddrs := p # th_breakaddrs s\<rparr>"

definition break_impl :: "ptx_instruction \<Rightarrow> xstate \<Rightarrow> xstate option" where
  "break_impl pI s = do { (target, s) \<leftarrow> pop_breakaddr s; jump target s }"

definition breakaddr_impl :: "ptx_instruction \<Rightarrow> xstate \<Rightarrow> xstate option" where
  "breakaddr_impl pI s = do {
     target \<leftarrow> pi_dst pI;
     assert_that (pi_pred pI = None);
     Some (push_breakaddr target s)
   }"

subsection \<open>Calls\<close>

datatype arg_buffer = Arg_reg symbol ptx_reg_t | Arg_param symbol "byte list"

text \<open>
  The constructors of \<^verbatim>\<open>arg_buffer_t\<close>.  A register whose size is none of 1, 2, 4 and 8 bytes keeps its fresh value.
\<close>

definition sym_is_reg :: "symbol \<Rightarrow> bool" where
  "sym_is_reg y = (case sym_type y of None \<Rightarrow> False | Some k \<Rightarrow> key_is_reg k)"

definition arg_from_reg :: "symbol \<Rightarrow> operand_info \<Rightarrow> ptx_reg_t \<Rightarrow> arg_buffer option" where
  "arg_from_reg formal src v =
     (if sym_is_reg formal then do { r \<leftarrow> op_is_reg src; assert_that r; Some (Arg_reg formal v) }
      else Some (Arg_param formal (reg_bytes 16 v)))"

definition arg_from_bytes :: "symbol \<Rightarrow> operand_info \<Rightarrow> byte list \<Rightarrow> arg_buffer option" where
  "arg_from_bytes formal src bs =
     (if sym_is_reg formal then do {
        r \<leftarrow> op_is_param_local src;
        assert_that r;
        assert_that (sym_size formal = length bs);
        Some (Arg_reg formal (if length bs \<in> {1, 2, 4, 8} then put_bytes 0 bs else 0))
      }
      else Some (Arg_param formal bs))"

definition copy_arg_to_buffer :: "operand_info \<Rightarrow> symbol \<Rightarrow> xstate \<Rightarrow> (arg_buffer \<times> xstate) option" where
  "copy_arg_to_buffer actual formal s = do {
     r \<leftarrow> op_is_reg actual;
     (if r then do {
        y \<leftarrow> op_symbol actual;
        (v, s) \<leftarrow> get_reg y s;
        a \<leftarrow> arg_from_reg formal actual v;
        Some (a, s)
      }
      else do {
        pl \<leftarrow> op_is_param_local actual;
        assert_that pl;
        y \<leftarrow> op_symbol actual;
        frame_offset \<leftarrow> sym_get_address y;
        assert_that (sym_size formal < 1024);
        bs \<leftarrow> ms_read (th_local_mem s) (unat (th_local_mem_stack_pointer s + frame_offset)) (sym_size formal);
        a \<leftarrow> arg_from_bytes formal actual bs;
        Some (a, s)
      })
   }"

fun copy_args_into_buffer_list :: "operand_info list \<Rightarrow> symbol list \<Rightarrow> xstate \<Rightarrow> (arg_buffer list \<times> xstate) option" where
  "copy_args_into_buffer_list ps [] s = Some ([], s)"
| "copy_args_into_buffer_list [] (f # fs) s = None"
| "copy_args_into_buffer_list (p # ps) (f # fs) s = do {
     (a, s) \<leftarrow> copy_arg_to_buffer p f s;
     (as, s) \<leftarrow> copy_args_into_buffer_list ps fs s;
     Some (a # as, s)
   }"

fun copy_buffer_to_frame :: "arg_buffer \<Rightarrow> xstate \<Rightarrow> xstate option" where
  "copy_buffer_to_frame (Arg_reg y v) s = set_reg y v s"
| "copy_buffer_to_frame (Arg_param y bs) s = do {
     frame_offset \<leftarrow> sym_get_address y;
     (_, m) \<leftarrow> ms_write (th_local_mem s) (unat (th_local_mem_stack_pointer s + frame_offset)) bs;
     Some (s\<lparr>th_local_mem := m\<rparr>)
   }"

fun copy_buffer_list_into_frame :: "arg_buffer list \<Rightarrow> xstate \<Rightarrow> xstate option" where
  "copy_buffer_list_into_frame [] s = Some s"
| "copy_buffer_list_into_frame (a # as) s = do { s \<leftarrow> copy_buffer_to_frame a s; copy_buffer_list_into_frame as s }"

text \<open>Pushing a frame; the PTXPlus version keeps the registers of the caller.\<close>

definition push_frame :: "bool \<Rightarrow> addr_t \<Rightarrow> addr_t \<Rightarrow> symbol option \<Rightarrow> symbol option \<Rightarrow> xstate \<Rightarrow> xstate option" where
  "push_frame same_regs pc rpc rv_src rv_dst s = do {
     f \<leftarrow> th_func_info s;
     Some (s\<lparr>th_RPC := - 1, th_RPC_updated := True, th_last_was_call := True,
       th_callstack := \<lparr>se_func_info = Some f, se_PC = pc, se_RPC = rpc, se_return_var_src = rv_src,
         se_return_var_dst = rv_dst\<rparr> # th_callstack s,
       th_regs := (if same_regs then th_regs s else Map.empty # th_regs s),
       th_local_mem_stack_pointer := th_local_mem_stack_pointer s + fn_local_mem_framesize f\<rparr>)
   }"

definition callstack_push :: "addr_t \<Rightarrow> addr_t \<Rightarrow> symbol option \<Rightarrow> symbol option \<Rightarrow> xstate \<Rightarrow> xstate option" where
  "callstack_push = push_frame False"

definition callstack_push_plus :: "addr_t \<Rightarrow> addr_t \<Rightarrow> symbol option \<Rightarrow> symbol option \<Rightarrow> xstate \<Rightarrow> xstate option" where
  "callstack_push_plus = push_frame True"

text \<open>Popping a frame: the result is read in the frame of the callee and written in that of the caller.\<close>

definition pop_frame :: "bool \<Rightarrow> xstate \<Rightarrow> (bool \<times> xstate) option" where
  "pop_frame same_regs s =
     (case th_callstack s of
        [] \<Rightarrow> None
      | e # es \<Rightarrow> do {
          assert_that ((se_return_var_src e = None) = (se_return_var_dst e = None));
          (buffer, s) \<leftarrow> (case (se_return_var_src e, se_return_var_dst e) of
              (Some y, Some d) \<Rightarrow> do { (a, s) \<leftarrow> copy_arg_to_buffer (operand_symbol y) d s; Some (Some a, s) }
            | _ \<Rightarrow> Some (None, s));
          let s = s\<lparr>th_NPC := se_PC e, th_RPC_updated := True, th_last_was_call := False, th_RPC := se_RPC e,
                    th_func_info := se_func_info e\<rparr>;
          s \<leftarrow> (case se_func_info e of
              None \<Rightarrow> Some s
            | Some f \<Rightarrow> do {
                assert_that (th_local_mem_stack_pointer s \<ge> fn_local_mem_framesize f);
                Some (s\<lparr>th_local_mem_stack_pointer := th_local_mem_stack_pointer s - fn_local_mem_framesize f\<rparr>)
              });
          assert_that (same_regs \<or> th_regs s \<noteq> []);
          let s = s\<lparr>th_callstack := es, th_regs := (if same_regs then th_regs s else tl (th_regs s))\<rparr>;
          s \<leftarrow> (case buffer of None \<Rightarrow> Some s | Some a \<Rightarrow> copy_buffer_to_frame a s);
          Some (es = [], s)
        })"

definition callstack_pop :: "xstate \<Rightarrow> (bool \<times> xstate) option" where "callstack_pop = pop_frame False"
definition callstack_pop_plus :: "xstate \<Rightarrow> (bool \<times> xstate) option" where "callstack_pop_plus = pop_frame True"

text \<open>
  \<open>funcs\<close> is the function a symbol stands for, and \<open>top\<close> the program counter and reconvergence point on top of
  the stack of the warp when the core has one.
\<close>

definition caller_pcs :: "(addr_t \<times> addr_t) option \<Rightarrow> xstate \<Rightarrow> (addr_t \<times> addr_t) option" where
  "caller_pcs tp s = (case tp of None \<Rightarrow> Some (0, 0) | Some (pc, rpc) \<Rightarrow> do { assert_that (pc = th_PC s); Some (pc, rpc) })"

definition func_addr :: "ptx_instruction \<Rightarrow> operand_info option" where
  "func_addr pI = do { p \<leftarrow> pi_operand pI 0; (if \<not> op_is_return_var p then Some p else pi_operand pI 1) }"

definition call_impl :: "(symbol \<Rightarrow> ptx_function option) \<Rightarrow> (addr_t \<times> addr_t) option \<Rightarrow> ptx_instruction \<Rightarrow> xstate \<Rightarrow> xstate option"
where
  "call_impl funcs tp pI s = do {
     target \<leftarrow> func_addr pI;
     y \<leftarrow> op_symbol target;
     assert_that (op_type target = symbolic_t \<and> sym_is_func_addr y);
     f \<leftarrow> funcs y;
     assert_that (pi_has_return pI = (fn_return_var f \<noteq> None));
     let n_return = (if fn_return_var f \<noteq> None then 1 else 0);
     assert_that (length (pi_operands pI) = n_return + 1 + length (fn_args f));
     (if fn_name f = ''vprintf'' then Some s
      else do {
        (args, s) \<leftarrow> copy_args_into_buffer_list (drop (n_return + 1) (pi_operands pI)) (fn_args f) s;
        rv_dst \<leftarrow> (if fn_return_var f \<noteq> None then do { d \<leftarrow> pi_dst pI; y \<leftarrow> op_symbol d; Some (Some y) } else Some None);
        (pc, rpc) \<leftarrow> caller_pcs tp s;
        s \<leftarrow> callstack_push (pc + pi_inst_size pI) rpc (fn_return_var f) rv_dst s;
        s \<leftarrow> copy_buffer_list_into_frame args s;
        Some (s\<lparr>th_NPC := fn_start_PC f, th_func_info := Some f\<rparr>)
      })
   }"

definition callp_impl :: "(addr_t \<times> addr_t) option \<Rightarrow> ptx_instruction \<Rightarrow> xstate \<Rightarrow> xstate option" where
  "callp_impl tp pI s = do {
     target \<leftarrow> pi_dst pI;
     (t, s) \<leftarrow> get_operand_value target target U32_TYPE True s;
     (pc, rpc) \<leftarrow> caller_pcs tp s;
     s \<leftarrow> callstack_push_plus (pc + pi_inst_size pI) rpc None None s;
     Some (s\<lparr>th_NPC := reg_u32 t\<rparr>)
   }"

definition ret_impl :: "xstate \<Rightarrow> xstate option" where
  "ret_impl s = do { (empty, s) \<leftarrow> callstack_pop s; Some (if empty then s\<lparr>th_thread_done := True\<rparr> else s) }"

definition retp_impl :: "xstate \<Rightarrow> xstate option" where
  "retp_impl s = do { (empty, s) \<leftarrow> callstack_pop_plus s; Some (if empty then s\<lparr>th_thread_done := True\<rparr> else s) }"

definition exit_impl :: "xstate \<Rightarrow> xstate option" where
  "exit_impl s = Some (s\<lparr>th_thread_done := True\<rparr>)"

subsection \<open>Execution of an instruction\<close>

text \<open>The guard of an instruction: the condition code of its predicate register, or its zero flag.\<close>

definition predicate_skip :: "ptx_instruction \<Rightarrow> xstate \<Rightarrow> (bool \<times> xstate) option" where
  "predicate_skip pI s =
     (case pi_pred pI of
        None \<Rightarrow> Some (False, s)
      | Some y \<Rightarrow> do {
          let p = operand_symbol y;
          (v, s) \<leftarrow> get_operand_value p p PRED_TYPE False s;
          (if pi_pred_mod pI = - 1 then Some ((reg_pred v AND 1 \<noteq> 0) \<noteq> pi_neg_pred pI, s)
           else do {
             assert_that (pi_pred_mod pI \<ge> 0);
             b \<leftarrow> pred_lookup (nat (pi_pred_mod pI)) (unat (reg_pred v));
             Some (\<not> b, s)
           })
        })"

definition ptx_exec_inst :: "(ptx_instruction \<Rightarrow> xstate \<Rightarrow> xstate option) \<Rightarrow> ptx_instruction \<Rightarrow> xstate \<Rightarrow> (bool \<times> xstate) option"
where
  "ptx_exec_inst handler pI s = do {
     let s = s\<lparr>th_branch_taken := False, th_NPC := th_PC s + pi_inst_size pI, th_RPC := - 1, th_RPC_updated := False,
               th_last_was_call := False, th_last_set_operand_value := set_u64 (th_last_set_operand_value s) 0\<rparr>;
     assert_that (\<not> th_thread_done s);
     (skip, s) \<leftarrow> predicate_skip pI s;
     s \<leftarrow> (if skip then Some s
          else do {
            s \<leftarrow> handler pI s;
            (if pi_exit pI then exit_impl s else Some s)
          });
     Some (\<not> skip, s\<lparr>th_PC := th_NPC s\<rparr>)
   }"

subsection \<open>Votes of a warp\<close>

text \<open>
  The static variables of \<^verbatim>\<open>vote_impl\<close>, and the threads by their hardware number.  The handler runs once for each
  active thread of the warp; the last one distributes the result.
\<close>

record vote_state =
  vs_first_in_warp :: bool
  vs_and_all :: bool
  vs_or_all :: bool
  vs_ballot_result :: "32 word"
  vs_threads_in_warp :: "nat list"
  vs_last_tid :: nat

fun last_active :: "nat \<Rightarrow> (nat \<Rightarrow> bool) \<Rightarrow> nat option" where
  "last_active 0 act = None"
| "last_active (Suc n) act = (if act n then Some n else last_active n act)"

definition vote_begin :: "ptx_instruction \<Rightarrow> nat \<Rightarrow> vote_state \<Rightarrow> vote_state option" where
  "vote_begin pI tid vs =
     (if vs_first_in_warp vs then do {
        offset \<leftarrow> last_active 32 (pi_active_mask pI);
        Some \<lparr>vs_first_in_warp = False, vs_and_all = True, vs_or_all = False, vs_ballot_result = 0, vs_threads_in_warp = [],
          vs_last_tid = (tid - tid mod pi_warp_size pI) + offset\<rparr>
      } else Some vs)"

fun set_all :: "operand_info \<Rightarrow> ptx_reg_t \<Rightarrow> ptx_type \<Rightarrow> nat list \<Rightarrow> (nat \<Rightarrow> xstate) \<Rightarrow> (nat \<Rightarrow> xstate) option" where
  "set_all dst data t [] ths = Some ths"
| "set_all dst data t (i # is) ths = do {
     s \<leftarrow> set_operand_value dst data t (ths i);
     set_all dst data t is (ths(i := s))
   }"

definition vote_result :: "vote_mode_t \<Rightarrow> vote_state \<Rightarrow> bool" where
  "vote_result m vs =
     (case m of
        vote_any \<Rightarrow> vs_or_all vs
      | vote_all \<Rightarrow> vs_and_all vs
      | vote_uni \<Rightarrow> vs_or_all vs \<noteq> vs_and_all vs
      | vote_ballot \<Rightarrow> False)"

definition vote_impl :: "ptx_instruction \<Rightarrow> nat \<Rightarrow> vote_state \<Rightarrow> (nat \<Rightarrow> xstate) \<Rightarrow> (vote_state \<times> (nat \<Rightarrow> xstate)) option" where
  "vote_impl pI tid vs ths = do {
     vs \<leftarrow> vote_begin pI tid vs;
     dst \<leftarrow> pi_dst pI; src1 \<leftarrow> pi_src1 pI;
     (v, s) \<leftarrow> get_operand_value src1 dst PRED_TYPE True (ths tid);
     let ths = ths(tid := s);
     let pred_value = ((reg_pred v AND 1 = 0) \<noteq> op_neg_pred src1);
     let vs = vs\<lparr>vs_threads_in_warp := vs_threads_in_warp vs @ [tid], vs_and_all := vs_and_all vs \<and> pred_value,
                 vs_or_all := vs_or_all vs \<or> pred_value,
                 vs_ballot_result := (if pred_value then vs_ballot_result vs OR push_bit (tid mod pi_warp_size pI) 1
                                      else vs_ballot_result vs)\<rparr>;
     (if tid = vs_last_tid vs then do {
        ths \<leftarrow> (if pi_vote_mode pI = vote_ballot then do {
                 t \<leftarrow> get_type pI;
                 set_all dst (reg_of_unsigned (vs_ballot_result vs)) t (vs_threads_in_warp vs) ths
               }
               else set_all dst (set_pred 0 (if vote_result (pi_vote_mode pI) vs then 0 else 1)) PRED_TYPE
                      (vs_threads_in_warp vs) ths);
        Some (vs\<lparr>vs_first_in_warp := True\<rparr>, ths)
      }
      else Some (vs, ths))
   }"

end
