(* ===== verification/PtxExec_Laws.thy ===== *)
theory PtxExec_Laws
  imports PtxExec_Model
begin

text \<open>
  Laws of the memory, atomic, control and vote instructions of \<open>PtxExec_Model\<close>: a store followed by a load, votes of a warp,
  guarded branches, atomic operations of several threads on one cell, and a call with its return.
\<close>

unbundle bit_operations_syntax

subsection \<open>Memory operands\<close>

text \<open>An address in a register plus an offset, as in \<^verbatim>\<open>[%r1+4]\<close>.\<close>

definition mem_operand :: "operand_info \<Rightarrow> symbol \<Rightarrow> bool" where
  "mem_operand p y = (op_type p = memory_t \<and> op_value p = V_symbolic y \<and> op_double_type p = 0
     \<and> op_addr_space p = undefined_space \<and> op_lohi p = 0 \<and> \<not> op_neg p \<and> \<not> op_immediate_address p
     \<and> (\<exists>k. sym_type y = Some k \<and> key_is_reg k))"

definition mem_addr :: "operand_info \<Rightarrow> ptx_reg_t \<Rightarrow> addr_t" where
  "mem_addr p v = reg_u32 v + op_addr_offset p"

lemma ucast_plus_down:
  "LENGTH('b::len) \<le> LENGTH('a::len) \<Longrightarrow> (ucast (x + y :: 'a word) :: 'b word) = ucast x + ucast y"
  by (simp add: word_uint_eq_iff unsigned_ucast_eq uint_word_arith_bintrs take_bit_add)

lemma get_mem_operand:
  assumes "mem_operand p y" "reg_val s y = Some v" "\<not> wide_type t"
  shows "\<exists>r. get_operand_value p d t deref s = Some (r, s) \<and> reg_u32 r = mem_addr p v"
proof -
  have "(ucast (scast x :: 64 word) :: 32 word) = x" for x :: "32 word"
    by (rule bit_word_eqI) (auto simp: bit_ucast_iff bit_signed_iff)
  then have "reg_u32 (set_u64 0 (reg_u64 v + scast (op_addr_offset p))) = mem_addr p v"
    by (simp add: reg_views mem_addr_def ucast_plus_down) (rule bit_word_eqI, simp add: bit_ucast_iff)
  moreover have "get_operand_value p d t deref s = Some (set_u64 0 (reg_u64 v + scast (op_addr_offset p)), s)"
    using assms by (auto dest!: reg_val_Some simp: mem_operand_def wide_type_def get_operand_value_def operand_base_def
        scalar_operand_value_def op_is_reg_def memory_operand_value_def get_reg_def pick_lohi_def operand_memory_def)
  ultimately show ?thesis by blast
qed

lemma decode_space_cong:
  assumes "th_local_mem_stack_pointer s' = th_local_mem_stack_pointer s" "th_hw_sid s' = th_hw_sid s" "th_hw_tid s' = th_hw_tid s"
    "xs_ptx_version_2 s' = xs_ptx_version_2 s"
  shows "decode_space sp p a s' = decode_space sp p a s"
  unfolding decode_space_def decode_generic_def assms ..

lemma atom_space_cong: "th_hw_sid s' = th_hw_sid s \<Longrightarrow> atom_space sp a s' = atom_space sp a s"
  unfolding atom_space_def by metis

lemma mem_ref_laws [simp]:
  "get_mem mr (put_mem mr m s) = m" "th_regs (put_mem mr m s) = th_regs s" "reg_val (put_mem mr m s) y = reg_val s y"
  by (cases mr; simp add: reg_val_def)+

lemma mem_ref_spaces [simp]:
  "decode_space sp p a (put_mem mr m s) = decode_space sp p a s" "atom_space sp a (put_mem mr m s) = atom_space sp a s"
  by (rule decode_space_cong atom_space_cong; cases mr; simp)+

lemma reg_val_access [simp]: "reg_val (s\<lparr>th_last_effective_address := a, th_last_memory_space := sp\<rparr>) y = reg_val s y"
  by (simp add: reg_val_def)

lemma get_mem_access [simp]: "get_mem mr (s\<lparr>th_last_effective_address := a, th_last_memory_space := sp\<rparr>) = get_mem mr s"
  by (cases mr; simp)

lemma decode_access [simp]:
  "decode_space sp' p b (s\<lparr>th_last_effective_address := a, th_last_memory_space := sp\<rparr>) = decode_space sp' p b s"
  by (rule decode_space_cong; simp)

lemma bytes_from_write: "writes m a xs m' \<Longrightarrow> bytes_from m' a (length xs) = xs"
  by (intro nth_equalityI) (simp_all add: bytes_from_def writes_def)

text \<open>The accesses that stay clear of the last block of the memory.\<close>

definition mem_ok :: "mem_space \<Rightarrow> addr_t \<Rightarrow> nat \<Rightarrow> bool" where
  "mem_ok m a n = (ms_inv m \<and> unat a + n < U32 - ms_BSIZE m \<and> n \<le> 16)"

lemma mem_ok_write:
  assumes "mem_ok m a n"
  shows "\<exists>h m'. ms_write m (unat a) (reg_bytes n v) = Some (h, m') \<and> writes m (unat a) (reg_bytes n v) m'
    \<and> ms_read m' (unat a) n = Some (reg_bytes n v) \<and> mem_ok m' a n"
proof -
  have a: "ms_inv m" "unat a + length (reg_bytes n v) \<le> U32" "unat a < U32" "length (reg_bytes n v) \<le> 2 ^ 31"
    using assms unsigned_less [of a] by (auto simp: mem_ok_def)
  from ms_write_law [OF a] obtain m' where
    w: "ms_write m (unat a) (reg_bytes n v) = Some (hit_watchpoints m (unat a) (length (reg_bytes n v)), m')"
      "writes m (unat a) (reg_bytes n v) m'" by blast
  then have m': "ms_inv m'" "ms_BSIZE m' = ms_BSIZE m" by (simp_all add: writes_def)
  then have "ms_read m' (unat a) n = Some (bytes_from m' (unat a) n)"
    using assms by (intro ms_read_law) (auto simp: mem_ok_def)
  then show ?thesis using w m' assms bytes_from_write [OF w(2)] by (auto simp: mem_ok_def)
qed

lemma mem_ok_read: "mem_ok m a n \<Longrightarrow> ms_read m (unat a) n = Some (bytes_from m (unat a) n)"
  by (intro ms_read_law) (auto simp: mem_ok_def)

subsection \<open>A store followed by a load\<close>

definition scalar_types :: "ptx_type set" where
  "scalar_types = {S8_TYPE, U8_TYPE, B8_TYPE, S16_TYPE, U16_TYPE, B16_TYPE, S32_TYPE, U32_TYPE, B32_TYPE, F32_TYPE,
     S64_TYPE, U64_TYPE, B64_TYPE, F64_TYPE}"

lemma scalar_size: "t \<in> scalar_types \<Longrightarrow> \<not> wide_type t \<and> type_size t \<in> {8, 16, 32, 64} \<and> 8 * (type_size t div 8) = type_size t"
  by (auto simp: scalar_types_def wide_type_def)

lemma st_law:
  assumes "mem_operand am y" "reg_val s y = Some av" "plain_reg src x" "reg_val s x = Some v"
    and "pi_operands i = [am, src]" "pi_scalar_type i = [t]" "pi_vector_spec i = No_vector" "t \<in> scalar_types"
    and "decode_space (pi_space_spec i) am (mem_addr am av) s = Some (sp, mr, a)" "mem_ok (get_mem mr s) a (type_size t div 8)"
  shows "\<exists>m'. st_impl i s = Some ((put_mem mr m' s)\<lparr>th_last_effective_address := a, th_last_memory_space := sp\<rparr>)
    \<and> writes (get_mem mr s) (unat a) (reg_bytes (type_size t div 8) v) m'
    \<and> ms_read m' (unat a) (type_size t div 8) = Some (reg_bytes (type_size t div 8) v)"
proof -
  have w: "\<not> wide_type t" using scalar_size [OF assms(8)] by blast
  from get_mem_operand [OF assms(1,2) w] obtain r where
    r: "get_operand_value am am t True s = Some (r, s)" "reg_u32 r = mem_addr am av" by blast
  from mem_ok_write [OF assms(10), of v] obtain h m' where
    "ms_write (get_mem mr s) (unat a) (reg_bytes (type_size t div 8) v) = Some (h, m')"
    "writes (get_mem mr s) (unat a) (reg_bytes (type_size t div 8) v) m'"
    "ms_read m' (unat a) (type_size t div 8) = Some (reg_bytes (type_size t div 8) v)" by blast
  then show ?thesis
    using assms(5-7,9) r by (intro exI conjI) (simp_all add: st_impl_def pi_operand_def vec_at_def get_type_def elem_addr_def
        get_plain_reg [OF assms(3,4) w])
qed

text \<open>The value that a load leaves in the destination, given the bytes of the memory.\<close>

lemma ld_law:
  assumes "mem_operand am y" "reg_val s y = Some av" "plain_reg dst z" "writable z"
    and "pi_operands i = [dst, am]" "pi_scalar_type i = [t]" "pi_vector_spec i = No_vector" "t \<in> scalar_types"
    and "decode_space (pi_space_spec i) am (mem_addr am av) s = Some (sp, mr, a)"
    and "ms_read (get_mem mr s) (unat a) (type_size t div 8) = Some (reg_bytes (type_size t div 8) v)"
    and "t \<in> {S16_TYPE, S32_TYPE} \<Longrightarrow> sign_extend (take_bit (type_size t) v) (type_size t) dst = Some data"
    and "t \<notin> {S16_TYPE, S32_TYPE} \<Longrightarrow> data = take_bit (type_size t) v"
  shows "\<exists>s'. ld_impl i s = Some s' \<and> reg_val s' z = Some (set_u64 0 (reg_u64 data))
    \<and> th_last_effective_address s' = a \<and> th_last_memory_space s' = sp
    \<and> (\<forall>w. w \<noteq> z \<longrightarrow> reg_val s' w = reg_val s w)"
proof -
  have w: "\<not> wide_type t" "type_size t \<le> 64" "8 * (type_size t div 8) = type_size t" using scalar_size [OF assms(8)] by auto
  have ne: "th_regs s \<noteq> []" using assms(2) by (auto simp: reg_val_def split: list.splits)
  from get_mem_operand [OF assms(1,2) w(1)] obtain r where
    r: "get_operand_value am dst t True s = Some (r, s)" "reg_u32 r = mem_addr am av" by blast
  have b: "put_bytes 0 (reg_bytes (type_size t div 8) v) = take_bit (type_size t) v"
    using put_bytes_reg_bytes [of "type_size t div 8" 0 v] w by (simp add: put_low_0)
  obtain s' where s': "set_reg z (set_u64 0 (reg_u64 data)) s = Some s'" "reg_val s' z = Some (set_u64 0 (reg_u64 data))"
    "\<forall>w. w \<noteq> z \<longrightarrow> reg_val s' w = reg_val s w"
    using set_reg_law [OF assms(4) ne] by blast
  have "ld_impl i s = Some (s'\<lparr>th_last_effective_address := a, th_last_memory_space := sp\<rparr>)"
    using assms(5-7,9-12) r s'(1)
    by (cases "t \<in> {S16_TYPE, S32_TYPE}")
      (auto simp: ld_impl_def ld_exec_def pi_operand_def vec_at_def get_type_def Let_def b set_plain_reg [OF assms(3,4) ne w(1)])
  then show ?thesis using s' by simp
qed

lemma op_is_reg_plain: "get_operand_nbits p = Some n \<Longrightarrow> op_is_reg p = Some True"
  by (auto simp: get_operand_nbits_def bind_eq_Some_conv split: if_splits)

lemma operand_nbits_le: "get_operand_nbits p = Some n \<Longrightarrow> 0 < n \<and> n \<le> 64"
  by (auto simp: get_operand_nbits_def bind_eq_Some_conv Let_def split: if_splits)

lemma sign_extend_law:
  assumes "get_operand_nbits dst = Some nd" "0 < n" "n \<le> 64"
  shows "\<exists>data. sign_extend (take_bit n v) n dst = Some data \<and> uval n data = uval n v \<and> (n \<le> nd \<longrightarrow> sval nd data = sval n v)"
proof -
  let ?d = "take_bit n v"
  define e where "e = set_u64 ?d (reg_u64 ?d OR push_bit n (push_bit (nd - n) 1 - 1))"
  have nd: "0 < nd" "nd \<le> 64" using operand_nbits_le [OF assms(1)] by auto
  have m: "push_bit (nd - n) 1 - 1 = (mask (nd - n) :: 64 word)" by (simp add: mask_eq_exp_minus_1)
  have e: "bit e k \<longleftrightarrow> bit ?d k \<or> n \<le> k \<and> k < nd" if "k < 64" for k
    using that nd unfolding e_def m by (auto simp: set_u64_def bit_put_low bit_ucast_iff bit_or_iff bit_push_bit_iff bit_mask_iff)
  have s: "bit (reg_u64 ?d) (n - 1) \<longleftrightarrow> bit v (n - 1)"
    using assms(2,3) by (auto simp: bit_ucast_iff bit_take_bit_iff)
  have z: "(push_bit (n - 1) 1 AND reg_u64 ?d = 0) \<longleftrightarrow> \<not> bit v (n - 1)"
    using s by (simp add: and_exp_eq_0_iff_not_bit and.commute)
  have top: "k = n - Suc 0" if "n - Suc 0 \<le> k" "k < n" for k using that by simp
  show ?thesis
  proof (cases "nd \<le> n \<or> \<not> bit v (n - 1)")
    case True
    then have "sign_extend ?d n dst = Some ?d" using z assms(1) op_is_reg_plain [OF assms(1)] by (auto simp: sign_extend_def)
    moreover have "sval nd ?d = sval n v" if "n \<le> nd"
    proof (intro bit_eqI)
      fix k
      show "bit (sval nd ?d) k = bit (sval n v) k"
        using True that assms(2,3) nd
        by (auto simp: sval_def bit_signed_take_bit_iff bit_uint_iff bit_take_bit_iff min_def) (metis diff_le_mono top)+
    qed
    ultimately show ?thesis using assms by (auto simp: uval_def unsigned_take_bit_eq)
  next
    case False
    then have "sign_extend ?d n dst = Some e" using z assms(1) op_is_reg_plain [OF assms(1)] by (auto simp: sign_extend_def e_def)
    moreover have "uval n e = uval n v"
      using assms(3) by (intro bit_eqI) (auto simp: uval_def bit_take_bit_iff bit_uint_iff e)
    moreover have "sval nd e = sval n v"
      using False assms(2,3) nd
      by (intro bit_eqI, auto simp: sval_def bit_signed_take_bit_iff bit_uint_iff bit_take_bit_iff min_def e) (metis top not_le)
    ultimately show ?thesis by blast
  qed
qed

text \<open>
  C19. A store followed by a load of the same type through the same address expression.  The low bits of the type come back;
  \<^verbatim>\<open>ld.s16\<close> and \<^verbatim>\<open>ld.s32\<close> into a wider register extend them with the sign, every other type with zeros.  Both
  instructions record the decoded address and space, and nothing in the memory but the bytes stored changes.
\<close>

theorem ptx_store_load:
  assumes "mem_operand am y" "reg_val s y = Some av" "plain_reg src x" "reg_val s x = Some v"
    and "pi_operands st = [am, src]" "pi_scalar_type st = [t]" "pi_vector_spec st = No_vector" "pi_space_spec st = sp0"
    and "plain_reg dst z" "writable z" "get_operand_nbits dst = Some nd"
    and "pi_operands ld = [dst, am]" "pi_scalar_type ld = [t]" "pi_vector_spec ld = No_vector" "pi_space_spec ld = sp0"
    and "t \<in> scalar_types" "decode_space sp0 am (mem_addr am av) s = Some (sp, mr, a)"
    and "mem_ok (get_mem mr s) a (type_size t div 8)"
  shows "\<exists>s1 s2 r. st_impl st s = Some s1 \<and> ld_impl ld s1 = Some s2 \<and> reg_val s2 z = Some r
    \<and> uval (type_size t) r = uval (type_size t) v
    \<and> (t \<in> {S16_TYPE, S32_TYPE} \<and> type_size t \<le> nd \<longrightarrow> sval nd r = sval (type_size t) v)
    \<and> (t \<notin> {S16_TYPE, S32_TYPE} \<longrightarrow> uval 64 r = uval (type_size t) v)
    \<and> writes (get_mem mr s) (unat a) (reg_bytes (type_size t div 8) v) (get_mem mr s1)
    \<and> th_last_effective_address s1 = a \<and> th_last_memory_space s1 = sp
    \<and> th_last_effective_address s2 = a \<and> th_last_memory_space s2 = sp
    \<and> (\<forall>w. w \<noteq> z \<longrightarrow> reg_val s2 w = reg_val s w)"
proof -
  let ?n = "type_size t"
  have n: "0 < ?n" "?n \<le> 64" using scalar_size [OF assms(16)] by auto
  from st_law [OF assms(1-7,16) _ assms(18)] assms(8,17) obtain m' where
    m: "st_impl st s = Some ((put_mem mr m' s)\<lparr>th_last_effective_address := a, th_last_memory_space := sp\<rparr>)"
      "writes (get_mem mr s) (unat a) (reg_bytes (?n div 8) v) m'" "ms_read m' (unat a) (?n div 8) = Some (reg_bytes (?n div 8) v)"
    by blast
  let ?s1 = "(put_mem mr m' s)\<lparr>th_last_effective_address := a, th_last_memory_space := sp\<rparr>"
  from sign_extend_law [OF assms(11) n, of v] obtain e where
    e: "sign_extend (take_bit ?n v) ?n dst = Some e" "uval ?n e = uval ?n v" "?n \<le> nd \<longrightarrow> sval nd e = sval ?n v" by blast
  define d where "d = (if t \<in> {S16_TYPE, S32_TYPE} then e else take_bit ?n v)"
  have nd: "0 < nd" "nd \<le> 64" using operand_nbits_le [OF assms(11)] by auto
  have "uval ?n (take_bit ?n v) = uval ?n v" "uval 64 (take_bit ?n v) = uval ?n v"
    using n by (simp_all add: uval_def unsigned_take_bit_eq min_def)
  then have v: "uval ?n (set_u64 0 (reg_u64 d)) = uval ?n v"
    "t \<in> {S16_TYPE, S32_TYPE} \<and> ?n \<le> nd \<longrightarrow> sval nd (set_u64 0 (reg_u64 d)) = sval ?n v"
    "t \<notin> {S16_TYPE, S32_TYPE} \<longrightarrow> uval 64 (set_u64 0 (reg_u64 d)) = uval ?n v"
    using n nd e(2,3) by (simp_all add: uval_set_u64 sval_set_u64 d_def)
  have "reg_val ?s1 y = Some av" "decode_space (pi_space_spec ld) am (mem_addr am av) ?s1 = Some (sp, mr, a)"
    "ms_read (get_mem mr ?s1) (unat a) (?n div 8) = Some (reg_bytes (?n div 8) v)"
    using assms(2,15,17) m(3) by simp_all
  from ld_law [OF assms(1) this(1) assms(9,10,12-14,16) this(2,3), of d] e(1) obtain s2 where
    s2: "ld_impl ld ?s1 = Some s2" "reg_val s2 z = Some (set_u64 0 (reg_u64 d))" "th_last_effective_address s2 = a"
      "th_last_memory_space s2 = sp" "\<forall>w. w \<noteq> z \<longrightarrow> reg_val s2 w = reg_val ?s1 w" by (auto simp: d_def)
  show ?thesis
    by (intro exI conjI, rule m(1), rule s2(1), rule s2(2), rule v(1), rule v(2), rule v(3)) (use m(2) s2(3-) in simp_all)
qed

definition ex_at :: "symbol \<Rightarrow> addr_t \<Rightarrow> operand_info" where
  "ex_at y off = (operand_new memory_t (V_symbolic y))\<lparr>op_addr_offset := off\<rparr>"

lemma ex_at [simp]: "mem_operand (ex_at (ex_reg i t) off) (ex_reg i t)" "mem_addr (ex_at y off) v = reg_u32 v + off"
  by (simp_all add: ex_at_def operand_new_def mem_operand_def mem_addr_def ex_reg_def symbol_new_def key_is_reg_def space_of_def)

lemma ex_mem_ok: "unat a + n < 1000 \<Longrightarrow> n \<le> 16 \<Longrightarrow> mem_ok ex_mem a n"
  by (simp add: mem_ok_def ex_mem_def ms_inv_def)

theorem ptx_store_load_witness:
  "\<exists>s1 s2 r. st_impl ((ex_inst [ex_at (ex_reg 1 U32_TYPE) 4, ex_opnd (ex_reg 2 S16_TYPE)] [S16_TYPE])\<lparr>pi_space_spec := space_of shared_space\<rparr>)
      (ex_thread [ex_reg 1 U32_TYPE \<mapsto> 0x20, ex_reg 2 S16_TYPE \<mapsto> 0x1FFFE]) = Some s1
    \<and> ld_impl ((ex_inst [ex_opnd (ex_reg 3 S32_TYPE), ex_at (ex_reg 1 U32_TYPE) 4] [S16_TYPE])\<lparr>pi_space_spec := space_of shared_space\<rparr>) s1
      = Some s2
    \<and> reg_val s2 (ex_reg 3 S32_TYPE) = Some r \<and> sval 32 r = - 2 \<and> th_last_effective_address s2 = 0x24"
proof -
  have n: "get_operand_nbits (ex_opnd (ex_reg 3 S32_TYPE)) = Some 32"
    by (simp add: get_operand_nbits_def ex_opnd_def operand_new_def ex_reg_def symbol_new_def op_is_reg_def)
  have d: "decode_space (space_of shared_space) p a s = Some (space_of shared_space, M_shared, a)" for p a s
    by (simp add: decode_space_def resolve_param_def space_of_def)
  have m: "mem_ok (xs_shared_mem (ex_thread f)) 0x24 2" for f
    by (simp add: ex_thread_def ex_mem_ok)
  show ?thesis
    using ptx_store_load [of "ex_at (ex_reg 1 U32_TYPE) 4" "ex_reg 1 U32_TYPE"
        "ex_thread [ex_reg 1 U32_TYPE \<mapsto> 0x20, ex_reg 2 S16_TYPE \<mapsto> 0x1FFFE]" "0x20" "ex_opnd (ex_reg 2 S16_TYPE)" "ex_reg 2 S16_TYPE"
        "0x1FFFE" "(ex_inst [ex_at (ex_reg 1 U32_TYPE) 4, ex_opnd (ex_reg 2 S16_TYPE)] [S16_TYPE])\<lparr>pi_space_spec := space_of shared_space\<rparr>"
        S16_TYPE "space_of shared_space" "ex_opnd (ex_reg 3 S32_TYPE)" "ex_reg 3 S32_TYPE" 32
        "(ex_inst [ex_opnd (ex_reg 3 S32_TYPE), ex_at (ex_reg 1 U32_TYPE) 4] [S16_TYPE])\<lparr>pi_space_spec := space_of shared_space\<rparr>"
        "space_of shared_space" M_shared "0x24", OF _ _ _ _ _ _ _ _ _ _ n]
    by (simp add: d m scalar_types_def sval_def ex_inst_def) blast
qed

subsection \<open>Votes\<close>

fun vote_run :: "ptx_instruction \<Rightarrow> nat list \<Rightarrow> vote_state \<Rightarrow> (nat \<Rightarrow> xstate) \<Rightarrow> (vote_state \<times> (nat \<Rightarrow> xstate)) option" where
  "vote_run pI [] vs ths = Some (vs, ths)"
| "vote_run pI (tid # tids) vs ths = do { (vs, ths) \<leftarrow> vote_impl pI tid vs ths; vote_run pI tids vs ths }"

definition vote_acc :: "nat \<Rightarrow> (nat \<Rightarrow> bool) \<Rightarrow> nat \<Rightarrow> vote_state \<Rightarrow> vote_state" where
  "vote_acc w P tid vs = vs\<lparr>vs_threads_in_warp := vs_threads_in_warp vs @ [tid], vs_and_all := vs_and_all vs \<and> P tid,
     vs_or_all := vs_or_all vs \<or> P tid,
     vs_ballot_result := (if P tid then vs_ballot_result vs OR push_bit (tid mod w) 1 else vs_ballot_result vs)\<rparr>"

lemma vote_acc_keeps [simp]: "vs_first_in_warp (vote_acc w P t vs) = vs_first_in_warp vs" "vs_last_tid (vote_acc w P t vs) = vs_last_tid vs"
  by (simp_all add: vote_acc_def)

lemma fold_vote_acc:
  "vs_first_in_warp (fold (vote_acc w P) ts vs) = vs_first_in_warp vs"
  "vs_last_tid (fold (vote_acc w P) ts vs) = vs_last_tid vs"
  "vs_threads_in_warp (fold (vote_acc w P) ts vs) = vs_threads_in_warp vs @ ts"
  "vs_and_all (fold (vote_acc w P) ts vs) \<longleftrightarrow> vs_and_all vs \<and> (\<forall>t \<in> set ts. P t)"
  "vs_or_all (fold (vote_acc w P) ts vs) \<longleftrightarrow> vs_or_all vs \<or> (\<exists>t \<in> set ts. P t)"
  "bit (vs_ballot_result (fold (vote_acc w P) ts vs)) k \<longleftrightarrow>
     bit (vs_ballot_result vs) k \<or> k < 32 \<and> (\<exists>t \<in> set ts. P t \<and> t mod w = k)"
  by (induction ts arbitrary: vs) (auto simp: vote_acc_def bit_or_iff bit_push_bit_iff bit_exp_iff)

lemma last_active_upt: "last_active n act = Some k \<Longrightarrow> filter act [0..<n] = filter act [0..<k] @ [k]"
  by (induction n) (auto split: if_splits)

lemma last_active_exists: "\<exists>i<n. act i \<Longrightarrow> \<exists>k<n. last_active n act = Some k"
  by (induction n) (auto simp: less_Suc_eq)

text \<open>The vote of a thread, as its predicate operand says.\<close>

definition thread_votes :: "operand_info \<Rightarrow> symbol \<Rightarrow> (nat \<Rightarrow> xstate) \<Rightarrow> nat \<Rightarrow> bool" where
  "thread_votes src p ths tid = (pred_holds (the (reg_val (ths tid) p)) \<noteq> op_neg_pred src)"

lemma vote_impl_eq:
  assumes "pi_operands pI = [dst, src]" "pi_scalar_type pI = [t]" "plain_reg src p" "reg_val (ths tid) p \<noteq> None" "\<not> vs_first_in_warp vs"
  shows "vote_impl pI tid vs ths = (let vs' = vote_acc (pi_warp_size pI) (thread_votes src p ths) tid vs in
      if tid = vs_last_tid vs' then do {
        ths \<leftarrow> (if pi_vote_mode pI = vote_ballot then set_all dst (reg_of_unsigned (vs_ballot_result vs')) t (vs_threads_in_warp vs') ths
               else set_all dst (set_pred 0 (if vote_result (pi_vote_mode pI) vs' then 0 else 1)) PRED_TYPE (vs_threads_in_warp vs') ths);
        Some (vs'\<lparr>vs_first_in_warp := True\<rparr>, ths)
      } else Some (vs', ths))"
proof -
  from assms(4) obtain v where v: "reg_val (ths tid) p = Some v" by blast
  from get_plain_reg [OF assms(3) v, of PRED_TYPE dst True] assms(1,2,5) v show ?thesis
    by (simp add: vote_impl_def vote_begin_def pi_operand_def vec_at_def get_type_def wide_type_def vote_acc_def thread_votes_def
        pred_holds_def Let_def cong: if_cong)
qed

lemma vote_run_prefix:
  "\<lbrakk>pi_operands pI = [dst, src]; pi_scalar_type pI = [t]; plain_reg src p; \<forall>t \<in> set ts. reg_val (ths t) p \<noteq> None \<and> t \<noteq> vs_last_tid vs; \<not> vs_first_in_warp vs\<rbrakk>
    \<Longrightarrow> vote_run pI (ts @ us) vs ths = vote_run pI us (fold (vote_acc (pi_warp_size pI) (thread_votes src p ths)) ts vs) ths"
  by (induction ts arbitrary: vs) (auto simp: vote_impl_eq)

lemma set_all_law:
  assumes "plain_reg dst z" "writable z" "\<not> wide_type t" "\<forall>i \<in> set ts. th_regs (ths i) \<noteq> []" "distinct ts"
  shows "\<exists>ths'. set_all dst data t ts ths = Some ths' \<and> (\<forall>i. i \<notin> set ts \<longrightarrow> ths' i = ths i)
    \<and> (\<forall>i \<in> set ts. reg_val (ths' i) z = Some (set_u64 0 (reg_u64 data)) \<and> (\<forall>w. w \<noteq> z \<longrightarrow> reg_val (ths' i) w = reg_val (ths i) w))"
  using assms(4,5)
proof (induction ts arbitrary: ths)
  case (Cons i ts)
  then have ne: "th_regs (ths i) \<noteq> []" by simp
  from set_reg_law [OF assms(2) ne, of "set_u64 0 (reg_u64 data)"] obtain s where
    s: "set_reg z (set_u64 0 (reg_u64 data)) (ths i) = Some s" "reg_val s z = Some (set_u64 0 (reg_u64 data))"
      "\<forall>w. w \<noteq> z \<longrightarrow> reg_val s w = reg_val (ths i) w" by blast
  have "\<forall>j \<in> set ts. th_regs ((ths(i := s)) j) \<noteq> []" "distinct ts" using Cons.prems by auto
  from Cons.IH [OF this] obtain ths' where
    "set_all dst data t ts (ths(i := s)) = Some ths'" "\<forall>j. j \<notin> set ts \<longrightarrow> ths' j = (ths(i := s)) j"
    "\<forall>j \<in> set ts. reg_val (ths' j) z = Some (set_u64 0 (reg_u64 data)) \<and> (\<forall>w. w \<noteq> z \<longrightarrow> reg_val (ths' j) w = reg_val ((ths(i := s)) j) w)"
    by blast
  then show ?case using s Cons.prems(2) by (auto simp: set_plain_reg [OF assms(1,2) ne assms(3)])
qed simp

lemma vote_last:
  assumes "pi_operands pI = [dst, src]" "pi_scalar_type pI = [t]" "\<not> wide_type t" "plain_reg dst z" "writable z" "plain_reg src p"
    and "\<forall>i \<in> set (vs_threads_in_warp vs @ [tid]). reg_val (ths i) p \<noteq> None" "distinct (vs_threads_in_warp vs @ [tid])"
    and "\<not> vs_first_in_warp vs" "tid = vs_last_tid vs"
    and "vs' = vote_acc (pi_warp_size pI) (thread_votes src p ths) tid vs"
  shows "\<exists>ths'. vote_impl pI tid vs ths = Some (vs'\<lparr>vs_first_in_warp := True\<rparr>, ths')
    \<and> (\<forall>i. i \<notin> set (vs_threads_in_warp vs') \<longrightarrow> ths' i = ths i)
    \<and> (\<forall>i \<in> set (vs_threads_in_warp vs'). \<exists>r. reg_val (ths' i) z = Some r \<and> (\<forall>w. w \<noteq> z \<longrightarrow> reg_val (ths' i) w = reg_val (ths i) w)
        \<and> (if pi_vote_mode pI = vote_ballot then \<forall>k<32. bit r k = bit (vs_ballot_result vs') k
           else pred_holds r = vote_result (pi_vote_mode pI) vs'))"
proof -
  define data t' where "data = (if pi_vote_mode pI = vote_ballot then reg_of_unsigned (vs_ballot_result vs')
       else set_pred 0 (if vote_result (pi_vote_mode pI) vs' then 0 else 1))"
    and "t' = (if pi_vote_mode pI = vote_ballot then t else PRED_TYPE)"
  have "vs_threads_in_warp vs' = vs_threads_in_warp vs @ [tid]" using assms(11) by (simp add: vote_acc_def)
  then have *: "\<forall>i \<in> set (vs_threads_in_warp vs'). th_regs (ths i) \<noteq> []" "distinct (vs_threads_in_warp vs')" "\<not> wide_type t'"
    using assms(3,7,8) by (auto simp: reg_val_def t'_def wide_type_def split: list.splits)
  from set_all_law [OF assms(4,5) *(3,1,2), of data] obtain ths' where
    s: "set_all dst data t' (vs_threads_in_warp vs') ths = Some ths'" "\<forall>i. i \<notin> set (vs_threads_in_warp vs') \<longrightarrow> ths' i = ths i"
      "\<forall>i \<in> set (vs_threads_in_warp vs'). reg_val (ths' i) z = Some (set_u64 0 (reg_u64 data))
         \<and> (\<forall>w. w \<noteq> z \<longrightarrow> reg_val (ths' i) w = reg_val (ths i) w)" by blast
  have l: "tid = vs_last_tid vs'" by (simp add: assms(10,11))
  have "vote_impl pI tid vs ths = Some (vs'\<lparr>vs_first_in_warp := True\<rparr>, ths')"
    using vote_impl_eq [OF assms(1,2,6) _ assms(9), of ths tid, folded assms(11)] assms(7) l s(1)
    by (simp add: Let_def data_def t'_def split: if_splits)
  moreover have "if pi_vote_mode pI = vote_ballot then \<forall>k<32. bit (set_u64 0 (reg_u64 data)) k = bit (vs_ballot_result vs') k
           else pred_holds (set_u64 0 (reg_u64 data)) = vote_result (pi_vote_mode pI) vs'"
    by (auto simp: data_def reg_of_unsigned_def set_u32_def bit_reg_of_set bit_put_low bit_ucast_iff)
  ultimately show ?thesis using s(2,3) by blast
qed

lemma lanes:
  fixes base n :: nat
  shows "set (map ((+) base) (filter act [0..<n])) = (+) base ` {i. i < n \<and> act i}" "distinct (map ((+) base) (filter act [0..<n]))"
  by (auto simp: distinct_map)

definition vote_fresh :: "nat \<Rightarrow> vote_state" where
  "vote_fresh tid = \<lparr>vs_first_in_warp = False, vs_and_all = True, vs_or_all = False, vs_ballot_result = 0, vs_threads_in_warp = [], vs_last_tid = tid\<rparr>"

text \<open>The first lane of a warp sets the static variables up for the vote.\<close>

lemma vote_run_fresh:
  assumes "pi_warp_size pI = 32" "32 dvd base" "vs_first_in_warp vs" "last_active 32 (pi_active_mask pI) = Some l" "i < 32"
  shows "vote_run pI ((base + i) # us) vs ths = vote_run pI ((base + i) # us) (vote_fresh (base + l)) ths"
proof -
  have "base + i - (base + i) mod 32 = base" using assms(2,5) by auto
  then have "vote_begin pI (base + i) vs = Some (vote_fresh (base + l))" using assms(1,3,4) by (simp add: vote_begin_def vote_fresh_def)
  moreover have "vote_begin pI tid (vote_fresh (base + l)) = Some (vote_fresh (base + l))" for tid by (simp add: vote_begin_def vote_fresh_def)
  ultimately show ?thesis by (simp add: vote_impl_def)
qed

text \<open>What the accumulated variables mean for the result, by mode.\<close>

lemma vote_outcome:
  assumes "vs_or_all w \<longleftrightarrow> (\<exists>j \<in> A. V j)" "vs_and_all w \<longleftrightarrow> (\<forall>j \<in> A. V j)" "\<forall>k<32. bit (vs_ballot_result w) k = (k \<in> A \<and> V k)" "A \<noteq> {}"
    and "if mode = vote_ballot then \<forall>k<32. bit r k = bit (vs_ballot_result w) k else pred_holds r = vote_result mode w"
  shows "case mode of
      vote_any \<Rightarrow> pred_holds r = (\<exists>j \<in> A. V j)
    | vote_all \<Rightarrow> pred_holds r = (\<forall>j \<in> A. V j)
    | vote_uni \<Rightarrow> pred_holds r = (\<exists>j \<in> A. \<exists>k \<in> A. V j \<noteq> V k)
    | vote_ballot \<Rightarrow> \<forall>k<32. bit r k = (k \<in> A \<and> V k)"
proof (cases mode)
  case vote_uni
  have "(vs_or_all w \<noteq> vs_and_all w) \<longleftrightarrow> (\<exists>j \<in> A. \<exists>k \<in> A. V j \<noteq> V k)" unfolding assms(1,2) using assms(4) by blast
  with assms(5) vote_uni show ?thesis by (simp only: vote_result_def vote_mode_t.simps if_False)
qed (use assms(1-3,5) in \<open>simp_all add: vote_result_def\<close>)

text \<open>
  C16. A vote of a warp.  The handler is called once for each active lane, in order; after the last one every active thread has the
  result in its destination register, no other register and no other thread has changed, and the static variables are ready for
  the next vote.  \<^verbatim>\<open>vote.any\<close> and \<^verbatim>\<open>vote.all\<close> are the disjunction and the conjunction of the votes of the active
  lanes, and \<^verbatim>\<open>vote.ballot\<close> has bit \<open>k\<close> set exactly when lane \<open>k\<close> is active and votes true.  \<^verbatim>\<open>vote.uni\<close> is
  true when the votes differ, which is the opposite of what the instruction is for.
\<close>

theorem ptx_vote:
  assumes "pi_operands pI = [dst, src]" "pi_scalar_type pI = [t]" "\<not> wide_type t" "plain_reg dst z" "writable z" "plain_reg src p"
    and "pi_warp_size pI = 32" "32 dvd base" "pi_active_mask pI lane" "lane < 32" "vs_first_in_warp vs"
    and "\<forall>i<32. pi_active_mask pI i \<longrightarrow> reg_val (ths (base + i)) p \<noteq> None"
  shows "\<exists>vs' ths'. vote_run pI (map ((+) base) (filter (pi_active_mask pI) [0..<32])) vs ths = Some (vs', ths') \<and> vs_first_in_warp vs'
    \<and> (let A = {i. i < 32 \<and> pi_active_mask pI i}; V = (\<lambda>i. thread_votes src p ths (base + i)) in
        (\<forall>tid. tid \<notin> (+) base ` A \<longrightarrow> ths' tid = ths tid)
      \<and> (\<forall>i \<in> A. \<exists>r. reg_val (ths' (base + i)) z = Some r \<and> (\<forall>w. w \<noteq> z \<longrightarrow> reg_val (ths' (base + i)) w = reg_val (ths (base + i)) w)
          \<and> (case pi_vote_mode pI of
               vote_any \<Rightarrow> pred_holds r = (\<exists>j \<in> A. V j)
             | vote_all \<Rightarrow> pred_holds r = (\<forall>j \<in> A. V j)
             | vote_uni \<Rightarrow> pred_holds r = (\<exists>j \<in> A. \<exists>k \<in> A. V j \<noteq> V k)
             | vote_ballot \<Rightarrow> \<forall>k<32. bit r k = (k \<in> A \<and> V k))))"
proof -
  let ?act = "pi_active_mask pI" and ?P = "thread_votes src p ths"
  let ?A = "{i. i < 32 \<and> pi_active_mask pI i}"
  from last_active_exists [of 32 ?act] assms(9,10) obtain l where l: "last_active 32 ?act = Some l" "l < 32" by blast
  define ts where "ts = map ((+) base) (filter ?act [0..<l])"
  have ts: "map ((+) base) (filter ?act [0..<32]) = ts @ [base + l]" unfolding ts_def last_active_upt [OF l(1)] by simp
  have A: "set (ts @ [base + l]) = (+) base ` ?A" "distinct (ts @ [base + l])" unfolding ts [symmetric] by (rule lanes)+
  let ?vs0 = "vote_fresh (base + l)"
  obtain i us where "ts @ [base + l] = (base + i) # us" "i < 32" using A(1) by (cases "ts @ [base + l]") auto
  then have r0: "vote_run pI (ts @ [base + l]) vs ths = vote_run pI (ts @ [base + l]) ?vs0 ths" using vote_run_fresh [OF assms(7,8,11) l(1)] by metis
  have p: "\<forall>i \<in> set (ts @ [base + l]). reg_val (ths i) p \<noteq> None" using assms(12) unfolding A(1) by auto
  let ?w = "fold (vote_acc 32 ?P) ts ?vs0"
  have v: "vote_run pI (ts @ [base + l]) ?vs0 ths = vote_run pI [base + l] ?w ths"
    by (subst vote_run_prefix [OF assms(1,2,6)]) (use p A(2) assms(7) in \<open>auto simp: vote_fresh_def\<close>)
  define w' where "w' = vote_acc 32 ?P (base + l) ?w"
  have w': "w' = fold (vote_acc 32 ?P) (ts @ [base + l]) ?vs0" by (simp add: w'_def)
  note f = fold_vote_acc [of 32 ?P "ts @ [base + l]" ?vs0, folded w', unfolded A(1)] and g = fold_vote_acc [of 32 ?P ts ?vs0]
  have q: "\<forall>i \<in> set (vs_threads_in_warp ?w @ [base + l]). reg_val (ths i) p \<noteq> None" "distinct (vs_threads_in_warp ?w @ [base + l])"
    "\<not> vs_first_in_warp ?w" "base + l = vs_last_tid ?w" "w' = vote_acc (pi_warp_size pI) ?P (base + l) ?w"
    using p A(2) unfolding g(1-3) by (simp_all add: vote_fresh_def w'_def assms(7))
  from vote_last [OF assms(1-6) q] obtain ths' where
    t: "vote_impl pI (base + l) ?w ths = Some (w'\<lparr>vs_first_in_warp := True\<rparr>, ths')"
      "\<forall>i. i \<notin> set (vs_threads_in_warp w') \<longrightarrow> ths' i = ths i"
      "\<forall>i \<in> set (vs_threads_in_warp w'). \<exists>r. reg_val (ths' i) z = Some r \<and> (\<forall>w. w \<noteq> z \<longrightarrow> reg_val (ths' i) w = reg_val (ths i) w)
        \<and> (if pi_vote_mode pI = vote_ballot then \<forall>k<32. bit r k = bit (vs_ballot_result w') k
           else pred_holds r = vote_result (pi_vote_mode pI) w')"
    by blast
  have th: "set (vs_threads_in_warp w') = (+) base ` ?A" unfolding w' fold_vote_acc(3) using A(1) by (simp add: vote_fresh_def)
  have m: "(base + k) mod 32 = k" if "k < 32" for k using that assms(8) by auto
  have b: "\<forall>k<32. bit (vs_ballot_result w') k = (k \<in> ?A \<and> ?P (base + k))" using f(6) m by (auto simp: vote_fresh_def)
  have oa: "vs_or_all w' \<longleftrightarrow> (\<exists>j \<in> ?A. ?P (base + j))" "vs_and_all w' \<longleftrightarrow> (\<forall>j \<in> ?A. ?P (base + j))" using f(4,5) by (simp_all add: vote_fresh_def)
  have "?A \<noteq> {}" using assms(9,10) by blast
  note res = vote_outcome [OF oa b this]
  have "vote_run pI (ts @ [base + l]) vs ths = Some (w'\<lparr>vs_first_in_warp := True\<rparr>, ths')" "vs_first_in_warp (w'\<lparr>vs_first_in_warp := True\<rparr>)"
    unfolding r0 v using t(1) by simp_all
  moreover have "\<forall>tid. tid \<notin> (+) base ` ?A \<longrightarrow> ths' tid = ths tid" using t(2) unfolding th .
  moreover note t(3) [unfolded th ball_simps] res
  ultimately show ?thesis unfolding ts Let_def by blast
qed

theorem ptx_vote_witness:
  "\<exists>vs' ths' r. vote_run ((ex_inst [ex_opnd (ex_reg 2 PRED_TYPE), ex_opnd (ex_reg 1 PRED_TYPE)] [PRED_TYPE])
        \<lparr>pi_vote_mode := vote_all, pi_active_mask := (\<lambda>i. i < 3)\<rparr>) (map ((+) 64) (filter (\<lambda>i. i < 3) [0..<32]))
      \<lparr>vs_first_in_warp = True, vs_and_all = False, vs_or_all = True, vs_ballot_result = 7, vs_threads_in_warp = [9], vs_last_tid = 9\<rparr>
      (\<lambda>i. ex_thread [ex_reg 1 PRED_TYPE \<mapsto> (if i < 67 then 0 else 1)]) = Some (vs', ths')
    \<and> reg_val (ths' 65) (ex_reg 2 PRED_TYPE) = Some r \<and> pred_holds r"
proof -
  let ?i = "(ex_inst [ex_opnd (ex_reg 2 PRED_TYPE), ex_opnd (ex_reg 1 PRED_TYPE)] [PRED_TYPE])
        \<lparr>pi_vote_mode := vote_all, pi_active_mask := (\<lambda>i. i < 3)\<rparr>"
  let ?v = "\<lparr>vs_first_in_warp = True, vs_and_all = False, vs_or_all = True, vs_ballot_result = 7, vs_threads_in_warp = [9], vs_last_tid = 9\<rparr>"
  let ?t = "\<lambda>i. ex_thread [ex_reg 1 PRED_TYPE \<mapsto> (if i < 67 then 0 else 1)]"
  have m: "pi_active_mask ?i = (\<lambda>i. i < 3)" "pi_vote_mode ?i = vote_all" by simp_all
  have v: "thread_votes (ex_opnd (ex_reg 1 PRED_TYPE)) (ex_reg 1 PRED_TYPE) ?t (64 + j)" if "j < 3" for j
    using that by (simp add: thread_votes_def pred_holds_def ex_opnd_def operand_new_def)
  have h: "pi_operands ?i = [ex_opnd (ex_reg 2 PRED_TYPE), ex_opnd (ex_reg 1 PRED_TYPE)]" "pi_scalar_type ?i = [PRED_TYPE]"
    "\<not> wide_type PRED_TYPE" "plain_reg (ex_opnd (ex_reg 2 PRED_TYPE)) (ex_reg 2 PRED_TYPE)" "writable (ex_reg 2 PRED_TYPE)"
    "plain_reg (ex_opnd (ex_reg 1 PRED_TYPE)) (ex_reg 1 PRED_TYPE)" "pi_warp_size ?i = 32" "32 dvd (64 :: nat)" "pi_active_mask ?i 0"
    "0 < (32 :: nat)" "vs_first_in_warp ?v" "\<forall>i<32. pi_active_mask ?i i \<longrightarrow> reg_val (?t (64 + i)) (ex_reg 1 PRED_TYPE) \<noteq> None"
    by (simp_all add: wide_type_def ex_inst_def)
  from ptx_vote [OF h, unfolded m vote_mode_t.case Let_def]
  obtain vs' ths' where *: "vote_run ?i (map ((+) 64) (filter (\<lambda>i. i < 3) [0..<32])) ?v ?t = Some (vs', ths')"
    and r: "\<forall>i \<in> {i. i < 32 \<and> i < 3}. \<exists>r. reg_val (ths' (64 + i)) (ex_reg 2 PRED_TYPE) = Some r
      \<and> pred_holds r = (\<forall>j \<in> {i. i < 32 \<and> i < 3}. thread_votes (ex_opnd (ex_reg 1 PRED_TYPE)) (ex_reg 1 PRED_TYPE) ?t (64 + j))"
    by blast
  from bspec [OF r, of 1] v obtain r where "reg_val (ths' 65) (ex_reg 2 PRED_TYPE) = Some r" "pred_holds r" by auto
  with * show ?thesis by blast
qed

subsection \<open>Guarded branches\<close>

text \<open>A branch target: a label with its address.\<close>

definition label_operand :: "operand_info \<Rightarrow> addr_t \<Rightarrow> bool" where
  "label_operand p a = (op_type p = label_t \<and> op_double_type p = 0 \<and> op_addr_space p = undefined_space \<and> op_lohi p = 0
     \<and> \<not> op_neg p \<and> \<not> op_immediate_address p \<and> (\<exists>y. op_value p = V_symbolic y \<and> sym_get_address y = Some a))"

lemma get_label: "label_operand p a \<Longrightarrow> get_operand_value p d U32_TYPE True s = Some (reg_of_unsigned a, s)"
  by (auto simp: label_operand_def get_operand_value_def operand_base_def scalar_operand_value_def op_is_reg_def op_is_literal_def
      symbol_operand_value_def op_is_shared_def pick_lohi_def operand_memory_def)

lemma bra_law:
  "\<lbrakk>label_operand p a; pi_operands pI = [p]\<rbrakk> \<Longrightarrow> bra_impl pI s = Some (s\<lparr>th_branch_taken := True, th_NPC := a\<rparr>)"
  by (simp add: bra_impl_def jump_def pi_operand_def vec_at_def get_label reg_of_unsigned_def reg_views)

text \<open>What the frame of an instruction sets before the guard is read.\<close>

definition inst_begin :: "ptx_instruction \<Rightarrow> xstate \<Rightarrow> xstate" where
  "inst_begin pI s = s\<lparr>th_branch_taken := False, th_NPC := th_PC s + pi_inst_size pI, th_RPC := - 1, th_RPC_updated := False,
     th_last_was_call := False, th_last_set_operand_value := set_u64 (th_last_set_operand_value s) 0\<rparr>"

lemma inst_begin_simps [simp]:
  "reg_val (inst_begin pI s) y = reg_val s y" "th_NPC (inst_begin pI s) = th_PC s + pi_inst_size pI"
  "th_thread_done (inst_begin pI s) = th_thread_done s" "th_branch_taken (inst_begin pI s) = False" "th_regs (inst_begin pI s) = th_regs s"
  by (simp_all add: inst_begin_def reg_val_def)

lemma exec_unguarded:
  "\<lbrakk>pi_pred pI = None; \<not> pi_exit pI; \<not> th_thread_done s; handler pI (inst_begin pI s) = Some s'\<rbrakk>
    \<Longrightarrow> ptx_exec_inst handler pI s = Some (True, s'\<lparr>th_PC := th_NPC s'\<rparr>)"
  by (simp add: ptx_exec_inst_def predicate_skip_def inst_begin_def [symmetric] Let_def)

lemma exec_guarded:
  assumes "pi_pred pI = Some y" "pi_pred_mod pI = - 1" "plain_reg (operand_symbol y) y" "reg_val s y = Some v" "\<not> pi_exit pI"
    and "\<not> th_thread_done s" "handler pI (inst_begin pI s) = Some s'"
  shows "ptx_exec_inst handler pI s = (if pred_holds v \<noteq> pi_neg_pred pI then Some (True, s'\<lparr>th_PC := th_NPC s'\<rparr>)
     else Some (False, (inst_begin pI s)\<lparr>th_PC := th_PC s + pi_inst_size pI\<rparr>))"
proof -
  have "get_operand_value (operand_symbol y) (operand_symbol y) PRED_TYPE False (inst_begin pI s) = Some (v, inst_begin pI s)"
    by (rule get_plain_reg [OF assms(3)]) (use assms(4) in \<open>simp_all add: wide_type_def\<close>)
  then show ?thesis
    using assms by (auto simp: ptx_exec_inst_def predicate_skip_def inst_begin_def [symmetric] Let_def pred_holds_def)
qed

text \<open>
  C24. A guarded branch on a comparison of integers.  The comparison is a \<^verbatim>\<open>setp\<close> of a signed or unsigned type of 16, 32 or 64
  bits, with one of the six order relations or, for an unsigned type, one of \<^verbatim>\<open>lo\<close>, \<^verbatim>\<open>ls\<close>, \<^verbatim>\<open>hi\<close> and
  \<^verbatim>\<open>hs\<close>; it has no guard of its own and its operands are registers.  After it and a branch guarded by the predicate (or by its negation) the program
  counter is the address of the label exactly when the comparison of the two numbers holds (does not hold), and the next instruction
  otherwise; the thread reports the branch as executed and as taken in the same cases, and only the predicate register has changed.
  Floating-point types, which depend on the arithmetic of the host, and the untyped \<^verbatim>\<open>.b16\<close> and \<^verbatim>\<open>.b32\<close>, whose
  equality the code decides on all 64 bits of the registers, are not included.
\<close>

theorem ptx_guarded_branch:
  assumes "pi_operands i1 = [p', a', b']" "pi_scalar_type i1 = [t]" "pi_compare_op i1 = Some c" "pi_pred i1 = None" "\<not> pi_exit i1"
    and "(t, n, g) \<in> int_types" "16 \<le> n" "order_op g c"
    and "plain_reg p' p" "plain_reg a' a" "plain_reg b' b" "writable p" "plain_reg (operand_symbol p) p"
    and "reg_val s a = Some va" "reg_val s b = Some vb" "\<not> th_thread_done s"
    and "pi_operands i2 = [l]" "label_operand l target" "pi_pred i2 = Some p" "pi_pred_mod i2 = - 1" "\<not> pi_exit i2"
  shows "\<exists>s1 s2. ptx_exec_inst setp_impl i1 s = Some (True, s1)
    \<and> (let go = (order_of c (ival g n va) (ival g n vb) \<noteq> pi_neg_pred i2) in
        ptx_exec_inst bra_impl i2 s1 = Some (go, s2) \<and> th_branch_taken s2 = go
      \<and> th_PC s2 = (if go then target else th_PC s + pi_inst_size i1 + pi_inst_size i2))
    \<and> (\<forall>w. w \<noteq> p \<longrightarrow> reg_val s2 w = reg_val s w)"
proof -
  let ?r = "order_of c (ival g n va) (ival g n vb)"
  let ?v = "set_u64 0 (reg_u64 (set_pred 0 (if ?r then 0 else 1) :: ptx_reg_t))"
  have w: "\<not> wide_type t" using assms(6) by (auto simp: int_types_def wide_type_def)
  have ab: "reg_val (inst_begin i1 s) a = Some va" "reg_val (inst_begin i1 s) b = Some vb" using assms(14,15) by simp_all
  note c = CmpOp_order [OF assms(6-8), of va vb, folded assms(3)]
  note st = setp_set [OF assms(1,2) w assms(9-12) ab c]
  from set_reg_law [OF assms(12) st(2), of ?v] obtain s' where
    s': "setp_impl i1 (inst_begin i1 s) = Some s'" "reg_val s' p = Some ?v" "\<forall>w. w \<noteq> p \<longrightarrow> reg_val s' w = reg_val s w"
      "s' = (inst_begin i1 s)\<lparr>th_regs := th_regs s', th_last_set_operand_value := ?v\<rparr>"
    unfolding st(1) by auto
  have k: "th_NPC s' = th_PC s + pi_inst_size i1" "\<not> th_thread_done s'"
    using assms(16) by (subst s'(4), simp)+
  let ?s1 = "s'\<lparr>th_PC := th_NPC s'\<rparr>"
  have "ptx_exec_inst setp_impl i1 s = Some (True, ?s1)"
    by (rule exec_unguarded [where handler = setp_impl, OF assms(4,5,16) s'(1)])
  moreover have r1: "reg_val ?s1 p = Some ?v" "\<forall>w. w \<noteq> p \<longrightarrow> reg_val ?s1 w = reg_val s w"
    using s'(2,3) by (simp_all add: reg_val_def)
  have "\<not> th_thread_done ?s1" using k by simp
  note exec_guarded [where handler = bra_impl, OF assms(19,20,13) r1(1) assms(21) this bra_law [OF assms(18,17)]]
  then have "ptx_exec_inst bra_impl i2 ?s1 = (if ?r \<noteq> pi_neg_pred i2
      then Some (True, (inst_begin i2 ?s1)\<lparr>th_branch_taken := True, th_NPC := target, th_PC := target\<rparr>)
      else Some (False, (inst_begin i2 ?s1)\<lparr>th_PC := th_PC s + pi_inst_size i1 + pi_inst_size i2\<rparr>))"
    using k by simp
  ultimately show ?thesis
    using r1(2) by (auto simp: Let_def reg_val_def)
qed

definition ex_label :: "addr_t \<Rightarrow> operand_info" where
  "ex_label a = operand_symbol (set_label_address (symbol_new 9 ''L'' None 0) a)"

lemma ex_label [simp]: "label_operand (ex_label a) a"
  by (simp add: ex_label_def label_operand_def operand_symbol_def operand_new_def set_label_address_def symbol_new_def sym_get_address_def)

theorem ptx_guarded_branch_witness:
  "\<exists>s1 s2. ptx_exec_inst setp_impl ((ex_inst [ex_opnd (ex_reg 1 PRED_TYPE), ex_opnd (ex_reg 2 S32_TYPE), ex_opnd (ex_reg 3 S32_TYPE)] [S32_TYPE])
        \<lparr>pi_compare_op := Some LT_OPTION\<rparr>) (ex_thread [ex_reg 2 S32_TYPE \<mapsto> 0xFFFFFFFF, ex_reg 3 S32_TYPE \<mapsto> 1]) = Some (True, s1)
    \<and> ptx_exec_inst bra_impl ((ex_inst [ex_label 0x40] [])\<lparr>pi_pred := Some (ex_reg 1 PRED_TYPE)\<rparr>) s1 = Some (True, s2)
    \<and> th_PC s2 = 0x40"
  using ptx_guarded_branch [of "(ex_inst [ex_opnd (ex_reg 1 PRED_TYPE), ex_opnd (ex_reg 2 S32_TYPE), ex_opnd (ex_reg 3 S32_TYPE)] [S32_TYPE])
        \<lparr>pi_compare_op := Some LT_OPTION\<rparr>" "ex_opnd (ex_reg 1 PRED_TYPE)" "ex_opnd (ex_reg 2 S32_TYPE)" "ex_opnd (ex_reg 3 S32_TYPE)"
      S32_TYPE LT_OPTION 32 True "ex_reg 1 PRED_TYPE" "ex_reg 2 S32_TYPE" "ex_reg 3 S32_TYPE"
      "ex_thread [ex_reg 2 S32_TYPE \<mapsto> 0xFFFFFFFF, ex_reg 3 S32_TYPE \<mapsto> 1]" "0xFFFFFFFF" 1
      "(ex_inst [ex_label 0x40] [])\<lparr>pi_pred := Some (ex_reg 1 PRED_TYPE)\<rparr>" "ex_label 0x40" "0x40"]
  by (simp add: int_types_def order_op_def order_of_def ival_def sval_def Let_def ex_inst_def ex_thread_def reg_val_def) blast

subsection \<open>Atomic operations\<close>

text \<open>The memory side of the same atomic instruction in several threads, one after the other, on one global memory.\<close>

fun atoms_run :: "fpu \<Rightarrow> ptx_instruction \<Rightarrow> xstate list \<Rightarrow> mem_space \<Rightarrow> (xstate list \<times> mem_space) option" where
  "atoms_run fp pI [] m = Some ([], m)"
| "atoms_run fp pI (s # ss) m = do {
     s' \<leftarrow> atom_callback fp pI (s\<lparr>xs_global_mem := m\<rparr>);
     (rs, m') \<leftarrow> atoms_run fp pI ss (xs_global_mem s');
     Some (s' # rs, m')
   }"

text \<open>The operation on a 32-bit cell, as a function of the old value and the operand.\<close>

fun atomic_fun :: "atomic_op \<Rightarrow> 32 word \<Rightarrow> 32 word \<Rightarrow> 32 word" where
  "atomic_fun ATOMIC_ADD x y = x + y"
| "atomic_fun ATOMIC_AND x y = x AND y"
| "atomic_fun ATOMIC_OR x y = x OR y"
| "atomic_fun ATOMIC_XOR x y = x XOR y"
| "atomic_fun ATOMIC_EXCH x y = y"
| "atomic_fun ATOMIC_INC x y = (if x \<ge> y then 0 else x + 1)"
| "atomic_fun ATOMIC_DEC x y = (if x = 0 \<or> x > y then y else x - 1)"
| "atomic_fun ATOMIC_MIN x y = min x y"
| "atomic_fun ATOMIC_MAX x y = max x y"
| "atomic_fun ATOMIC_CAS x y = x"

definition word_at :: "mem_space \<Rightarrow> nat \<Rightarrow> 32 word" where
  "word_at m a = reg_u32 (put_bytes 0 (bytes_from m a 4))"

lemma word_at_write: "writes m a (reg_bytes 4 (set_u32 0 w)) m' \<Longrightarrow> word_at m' a = w"
proof -
  assume "writes m a (reg_bytes 4 (set_u32 0 w)) m'"
  then have "bytes_from m' a 4 = reg_bytes 4 (set_u32 0 w)" using bytes_from_write by fastforce
  then have "put_bytes 0 (bytes_from m' a 4) = take_bit 32 (set_u32 0 w)"
    using put_bytes_reg_bytes [of 4 0 "set_u32 0 w"] by (simp add: put_low_0)
  then show ?thesis by (simp add: word_at_def) (auto intro!: bit_word_eqI simp: bit_ucast_iff bit_take_bit_iff set_u32_def bit_put_low)
qed

lemma atom_fun_u32:
  "op \<noteq> ATOMIC_CAS \<Longrightarrow> atom_op fp op U32_TYPE d b c = Some (set_u32 0 (atomic_fun op (reg_u32 d) (reg_u32 b)))"
  by (cases op) (auto simp: atom_op_def Let_def umin_def umax_def min_def max_def)

definition atom_thread :: "symbol \<Rightarrow> symbol \<Rightarrow> operand_info \<Rightarrow> addr_t \<Rightarrow> xstate \<Rightarrow> bool" where
  "atom_thread y x am a s = (\<exists>av v. reg_val s y = Some av \<and> mem_addr am av = a \<and> reg_val s x = Some v)"

lemma atom_step:
  assumes "pi_operands pI = [dst, am, src]" "pi_scalar_type pI = [U32_TYPE]" "pi_space_spec pI = space_of global_space"
    and "pi_atomic_spec pI = Some op" "op \<noteq> ATOMIC_CAS" "plain_reg dst z" "writable z" "sym_type z \<noteq> None" "mem_operand am y" "plain_reg src x"
    and "reg_val s y = Some av" "reg_val s x = Some v" "a = mem_addr am av" "mem_ok m a 4"
  shows "\<exists>s' r. atom_callback fp pI (s\<lparr>xs_global_mem := m\<rparr>) = Some s' \<and> reg_val s' z = Some r \<and> reg_u32 r = word_at m (unat a)
    \<and> mem_ok (xs_global_mem s') a 4
    \<and> writes m (unat a) (reg_bytes 4 (set_u32 0 (atomic_fun op (word_at m (unat a)) (reg_u32 v)))) (xs_global_mem s')
    \<and> (\<forall>w. w \<noteq> z \<longrightarrow> reg_val s' w = reg_val s w)"
proof -
  let ?s = "s\<lparr>xs_global_mem := m\<rparr>" and ?d = "put_bytes 0 (bytes_from m (unat a) 4) :: ptx_reg_t"
  have w: "\<not> wide_type U32_TYPE" by (simp add: wide_type_def)
  have rv: "reg_val ?s w = reg_val s w" for w by (simp add: reg_val_def)
  from rv assms(11) have "reg_val ?s y = Some av" by simp
  from get_mem_operand [OF assms(9) this w] obtain ar where
    ar: "get_operand_value am am U32_TYPE True ?s = Some (ar, ?s)" "reg_u32 ar = a" using assms(13) by metis
  have src: "get_operand_value src d U32_TYPE True ?s = Some (v, ?s)" for d
    by (rule get_plain_reg [OF assms(10) _ w]) (simp add: rv assms(12))
  have ne: "th_regs ?s \<noteq> []" using assms(11) by (auto simp: reg_val_def split: list.splits)
  from set_reg_law [OF assms(7) ne, of "set_u64 0 (reg_u64 ?d)"] obtain s1 where
    s1: "set_reg z (set_u64 0 (reg_u64 ?d)) ?s = Some s1" "reg_val s1 z = Some (set_u64 0 (reg_u64 ?d))"
      "\<forall>w. w \<noteq> z \<longrightarrow> reg_val s1 w = reg_val ?s w" "s1 = ?s\<lparr>th_regs := th_regs s1, th_last_set_operand_value := set_u64 0 (reg_u64 ?d)\<rparr>"
    by blast
  have g: "xs_global_mem s1 = m" by (subst s1(4)) simp
  let ?n = "atomic_fun op (word_at m (unat a)) (reg_u32 v)"
  from mem_ok_write [OF assms(14), of "set_u32 0 ?n"] obtain h m' where
    m': "ms_write m (unat a) (reg_bytes 4 (set_u32 0 ?n)) = Some (h, m')" "writes m (unat a) (reg_bytes 4 (set_u32 0 ?n)) m'" "mem_ok m' a 4"
    by blast
  have "atom_callback fp pI ?s = Some (s1\<lparr>xs_global_mem := m'\<rparr>)"
    using assms(1-5,8) ar src s1(1) m'(1) assms(6)
    by (auto simp: atom_callback_def pi_operand_def vec_at_def get_type_def Let_def atom_space_def space_of_def mem_ok_read [OF assms(14)]
        set_plain_reg [OF assms(6,7) ne w] plain_reg_def g atom_fun_u32 word_at_def)
  moreover have "reg_u32 (set_u64 0 (reg_u64 ?d)) = word_at m (unat a)"
    by (simp add: word_at_def) (rule bit_word_eqI, simp add: bit_ucast_iff bit_reg_of_set)
  ultimately show ?thesis using s1(2,3) m' rv
    by (intro exI [of _ "s1\<lparr>xs_global_mem := m'\<rparr>"] exI [of _ "set_u64 0 (reg_u64 ?d)"]) (simp add: reg_val_def)
qed

definition atom_operand :: "symbol \<Rightarrow> xstate \<Rightarrow> 32 word" where
  "atom_operand x s = reg_u32 (the (reg_val s x))"

text \<open>
  C17. Atomicity of the \<^verbatim>\<open>.u32\<close> operations \<^verbatim>\<open>and\<close>, \<^verbatim>\<open>or\<close>, \<^verbatim>\<open>xor\<close>, \<^verbatim>\<open>exch\<close>,
  \<^verbatim>\<open>add\<close>, \<^verbatim>\<open>inc\<close>, \<^verbatim>\<open>dec\<close>, \<^verbatim>\<open>min\<close> and \<^verbatim>\<open>max\<close> on global memory; \<^verbatim>\<open>cas\<close>,
  which the code computes wrongly, and the other types are not included.  When several threads perform the same one of these operations
  on one cell of 32 bits, one after the other in any order, the cell ends with the operation folded over all operands in that order, thread \<open>k\<close> reads the
  value that the threads before it have left, and no other byte of the memory changes.
\<close>

theorem ptx_atomics:
  assumes "pi_operands pI = [dst, am, src]" "pi_scalar_type pI = [U32_TYPE]" "pi_space_spec pI = space_of global_space"
    and "pi_atomic_spec pI = Some op" "op \<noteq> ATOMIC_CAS" "plain_reg dst z" "writable z" "sym_type z \<noteq> None" "mem_operand am y" "plain_reg src x"
    and "\<forall>s \<in> set ss. atom_thread y x am a s" "mem_ok m a 4"
  shows "\<exists>rs m'. atoms_run fp pI ss m = Some (rs, m') \<and> length rs = length ss
    \<and> word_at m' (unat a) = foldl (atomic_fun op) (word_at m (unat a)) (map (atom_operand x) ss)
    \<and> (\<forall>k < length ss. \<exists>r. reg_val (rs ! k) z = Some r
        \<and> reg_u32 r = foldl (atomic_fun op) (word_at m (unat a)) (map (atom_operand x) (take k ss)))
    \<and> (\<forall>b. b < unat a \<or> unat a + 4 \<le> b \<longrightarrow> byte_at m' b = byte_at m b)"
  using assms(11,12)
proof (induction ss arbitrary: m)
  case (Cons s ss)
  from Cons.prems(1) obtain av v where
    s: "reg_val s y = Some av" "a = mem_addr am av" "reg_val s x = Some v" by (auto simp: atom_thread_def)
  from atom_step [OF assms(1-10) s(1,3,2) Cons.prems(2), of fp] obtain s' r where
    t: "atom_callback fp pI (s\<lparr>xs_global_mem := m\<rparr>) = Some s'" "reg_val s' z = Some r" "reg_u32 r = word_at m (unat a)"
      "mem_ok (xs_global_mem s') a 4"
      "writes m (unat a) (reg_bytes 4 (set_u32 0 (atomic_fun op (word_at m (unat a)) (reg_u32 v)))) (xs_global_mem s')" by blast
  have w: "word_at (xs_global_mem s') (unat a) = atomic_fun op (word_at m (unat a)) (atom_operand x s)"
    using word_at_write [OF t(5)] s(3) by (simp add: atom_operand_def)
  have o: "byte_at (xs_global_mem s') b = byte_at m b" if "b < unat a \<or> unat a + 4 \<le> b" for b
    using t(5) that by (auto simp: writes_def)
  from Cons.IH [OF _ t(4), unfolded w] Cons.prems(1) obtain rs m' where
    i: "atoms_run fp pI ss (xs_global_mem s') = Some (rs, m')" "length rs = length ss"
      "word_at m' (unat a) = foldl (atomic_fun op) (atomic_fun op (word_at m (unat a)) (atom_operand x s)) (map (atom_operand x) ss)"
      "\<forall>k < length ss. \<exists>r. reg_val (rs ! k) z = Some r
        \<and> reg_u32 r = foldl (atomic_fun op) (atomic_fun op (word_at m (unat a)) (atom_operand x s)) (map (atom_operand x) (take k ss))"
      "\<forall>b. b < unat a \<or> unat a + 4 \<le> b \<longrightarrow> byte_at m' b = byte_at (xs_global_mem s') b" by auto
  have "\<exists>r. reg_val ((s' # rs) ! k) z = Some r
        \<and> reg_u32 r = foldl (atomic_fun op) (word_at m (unat a)) (map (atom_operand x) (take k (s # ss)))" if "k < length (s # ss)" for k
    using i(4) t(2,3) that by (cases k) auto
  then show ?case using t(1) i o by (intro exI [of _ "s' # rs"] exI [of _ m'] conjI) simp_all
qed simp

theorem ptx_atomics_witness:
  "\<exists>rs m' r. atoms_run ex_fpu ((ex_inst [ex_opnd (ex_reg 3 U32_TYPE), ex_at (ex_reg 1 U32_TYPE) 0, ex_opnd (ex_reg 2 U32_TYPE)] [U32_TYPE])
        \<lparr>pi_atomic_spec := Some ATOMIC_ADD\<rparr>)
      [ex_thread [ex_reg 1 U32_TYPE \<mapsto> 0x20, ex_reg 2 U32_TYPE \<mapsto> 5], ex_thread [ex_reg 1 U32_TYPE \<mapsto> 0x20, ex_reg 2 U32_TYPE \<mapsto> 7]] ex_mem
      = Some (rs, m')
    \<and> word_at m' 0x20 = word_at ex_mem 0x20 + 12 \<and> reg_val (rs ! 1) (ex_reg 3 U32_TYPE) = Some r \<and> reg_u32 r = word_at ex_mem 0x20 + 5"
proof -
  let ?i = "(ex_inst [ex_opnd (ex_reg 3 U32_TYPE), ex_at (ex_reg 1 U32_TYPE) 0, ex_opnd (ex_reg 2 U32_TYPE)] [U32_TYPE])
        \<lparr>pi_atomic_spec := Some ATOMIC_ADD\<rparr>"
  let ?ss = "[ex_thread [ex_reg 1 U32_TYPE \<mapsto> 0x20, ex_reg 2 U32_TYPE \<mapsto> 5], ex_thread [ex_reg 1 U32_TYPE \<mapsto> 0x20, ex_reg 2 U32_TYPE \<mapsto> 7]]"
  have h: "pi_operands ?i = [ex_opnd (ex_reg 3 U32_TYPE), ex_at (ex_reg 1 U32_TYPE) 0, ex_opnd (ex_reg 2 U32_TYPE)]"
    "pi_scalar_type ?i = [U32_TYPE]" "pi_space_spec ?i = space_of global_space" "pi_atomic_spec ?i = Some ATOMIC_ADD" "ATOMIC_ADD \<noteq> ATOMIC_CAS"
    "plain_reg (ex_opnd (ex_reg 3 U32_TYPE)) (ex_reg 3 U32_TYPE)" "writable (ex_reg 3 U32_TYPE)" "sym_type (ex_reg 3 U32_TYPE) \<noteq> None"
    "mem_operand (ex_at (ex_reg 1 U32_TYPE) 0) (ex_reg 1 U32_TYPE)" "plain_reg (ex_opnd (ex_reg 2 U32_TYPE)) (ex_reg 2 U32_TYPE)"
    "\<forall>s \<in> set ?ss. atom_thread (ex_reg 1 U32_TYPE) (ex_reg 2 U32_TYPE) (ex_at (ex_reg 1 U32_TYPE) 0) 0x20 s" "mem_ok ex_mem 0x20 4"
    by (simp_all add: ex_inst_def atom_thread_def ex_mem_ok) (simp add: ex_reg_def symbol_new_def)
  from ptx_atomics [OF h, of ex_fpu] obtain rs m' where
    1: "atoms_run ex_fpu ?i ?ss ex_mem = Some (rs, m')"
    and 2: "word_at m' (unat (0x20 :: addr_t)) = foldl (atomic_fun ATOMIC_ADD) (word_at ex_mem (unat (0x20 :: addr_t)))
       (map (atom_operand (ex_reg 2 U32_TYPE)) ?ss)"
    and 3: "\<forall>k < length ?ss. \<exists>r. reg_val (rs ! k) (ex_reg 3 U32_TYPE) = Some r \<and> reg_u32 r
       = foldl (atomic_fun ATOMIC_ADD) (word_at ex_mem (unat (0x20 :: addr_t))) (map (atom_operand (ex_reg 2 U32_TYPE)) (take k ?ss))"
    by blast
  from 3 [rule_format, of 1] obtain r where "reg_val (rs ! 1) (ex_reg 3 U32_TYPE) = Some r" "reg_u32 r = word_at ex_mem 0x20 + 5"
    by (auto simp: atom_operand_def)
  moreover have "word_at m' 0x20 = word_at ex_mem 0x20 + 12" using 2 by (simp add: atom_operand_def)
  ultimately show ?thesis using 1 by blast
qed

subsection \<open>Calls\<close>

lemma op_is_reg_plain_reg: "plain_reg p y \<Longrightarrow> op_is_reg p = Some True \<and> op_symbol p = Some y"
  by (simp add: plain_reg_def op_is_reg_def)

lemma get_reg_val: "reg_val s y = Some v \<Longrightarrow> get_reg y s = Some (v, s)"
  by (auto dest!: reg_val_Some simp: get_reg_def)

lemma copy_args_plain:
  "\<lbrakk>list_all2 plain_reg ps xs; map (reg_val s) xs = map Some vs; length fs = length xs; \<forall>f \<in> set fs. sym_is_reg f\<rbrakk>
    \<Longrightarrow> copy_args_into_buffer_list ps fs s = Some (map2 Arg_reg fs vs, s)"
proof (induction ps xs arbitrary: fs vs rule: list_all2_induct)
  case (Cons p ps x xs)
  then obtain f fs' v vs' where "fs = f # fs'" "vs = v # vs'" by (cases fs; cases vs) auto
  then show ?case using Cons op_is_reg_plain_reg [OF Cons.hyps(1)] get_reg_val [of s x v]
    by (simp add: copy_arg_to_buffer_def arg_from_reg_def)
qed simp

lemma copy_buffers_plain:
  "\<lbrakk>th_regs s = m # ms; \<forall>f \<in> set fs. writable f; length vs = length fs\<rbrakk>
    \<Longrightarrow> \<exists>lv. copy_buffer_list_into_frame (map2 Arg_reg fs vs) s
      = Some (s\<lparr>th_regs := (m(fs [\<mapsto>] vs)) # ms, th_last_set_operand_value := lv\<rparr>)"
proof (induction fs arbitrary: vs s m)
  case Nil
  then show ?case by (auto intro: exI [of _ "th_last_set_operand_value s"])
next
  case (Cons f fs)
  then obtain v vs' where v: "vs = v # vs'" by (cases vs) auto
  let ?s = "s\<lparr>th_regs := m(f \<mapsto> v) # ms, th_last_set_operand_value := v\<rparr>"
  have "set_reg f v s = Some ?s" using Cons.prems by (simp add: set_reg_def writable_def)
  moreover have "th_regs ?s = m(f \<mapsto> v) # ms" "\<forall>f \<in> set fs. writable f" "length vs' = length fs" using Cons.prems v by simp_all
  from Cons.IH [OF this] obtain lv where
    "copy_buffer_list_into_frame (map2 Arg_reg fs vs') ?s
      = Some (?s\<lparr>th_regs := m(f \<mapsto> v, fs [\<mapsto>] vs') # ms, th_last_set_operand_value := lv\<rparr>)" by blast
  ultimately show ?case by (auto simp: v)
qed

lemma map_upds_nth:
  "\<lbrakk>distinct fs; length vs = length fs; i < length fs\<rbrakk> \<Longrightarrow> (m(fs [\<mapsto>] vs)) (fs ! i) = Some (vs ! i)"
proof (induction fs arbitrary: m vs i)
  case (Cons f fs)
  then obtain v vs' where v: "vs = v # vs'" by (cases vs) auto
  show ?case
  proof (cases i)
    case 0
    then show ?thesis using Cons.prems by (simp add: v map_upds_apply_nontin)
  next
    case (Suc j)
    then show ?thesis using Cons.IH [of vs' j m] Cons.prems by (auto simp: v)
  qed
qed simp

text \<open>
  C13. A call and its return.  The call starts the function with its formal parameters holding the values of the actual ones, in a
  fresh register frame.  Whatever the callee then does to its own frame and to the memories, its return brings the caller back
  behind the call with its registers, its local stack pointer, its function and its call stack as they were, except for the
  destination, which holds the value of the return variable; the thread goes on unless the call was made with an empty call stack.
\<close>

theorem ptx_call_return:
  assumes "pi_operands pI = dst # target # actuals" "op_is_return_var dst" "pi_has_return pI"
    and "op_symbol target = Some fy" "op_type target = symbolic_t" "sym_is_func_addr fy" "funcs fy = Some f" "fn_name f \<noteq> ''vprintf''"
    and "fn_return_var f = Some rv" "plain_reg (operand_symbol rv) rv" "op_symbol dst = Some d" "sym_is_reg d" "writable d"
    and "list_all2 plain_reg actuals xs" "map (reg_val s) xs = map Some vs" "length (fn_args f) = length xs"
    and "distinct (fn_args f)" "\<forall>y \<in> set (fn_args f). sym_is_reg y \<and> writable y"
    and "th_func_info s = Some g" "th_regs s \<noteq> []"
    and "unat (th_local_mem_stack_pointer s) + unat (fn_local_mem_framesize g) < 2 ^ 32"
  shows "\<exists>s1. call_impl funcs (Some (th_PC s, rpc)) pI s = Some s1 \<and> th_NPC s1 = fn_start_PC f \<and> th_func_info s1 = Some f
    \<and> (\<forall>i < length xs. reg_val s1 (fn_args f ! i) = Some (vs ! i)) \<and> tl (th_regs s1) = th_regs s
    \<and> (\<forall>s2 r. th_callstack s2 = th_callstack s1 \<and> th_regs s2 \<noteq> [] \<and> tl (th_regs s2) = tl (th_regs s1)
          \<and> th_local_mem_stack_pointer s2 = th_local_mem_stack_pointer s1 \<and> reg_val s2 rv = Some r
        \<longrightarrow> (\<exists>s3. ret_impl s2 = Some s3 \<and> th_NPC s3 = th_PC s + pi_inst_size pI \<and> th_RPC s3 = rpc \<and> reg_val s3 d = Some r
            \<and> (\<forall>w. w \<noteq> d \<longrightarrow> reg_val s3 w = reg_val s w) \<and> tl (th_regs s3) = tl (th_regs s)
            \<and> th_local_mem_stack_pointer s3 = th_local_mem_stack_pointer s \<and> th_func_info s3 = Some g
            \<and> th_callstack s3 = th_callstack s \<and> th_thread_done s3 = (th_thread_done s2 \<or> th_callstack s = [])))"
proof -
  have lv: "length vs = length (fn_args f)" "length actuals = length (fn_args f)"
    using assms(14-16) map_eq_imp_length_eq [OF assms(15)] by (simp_all add: list_all2_lengthD)
  let ?e = "\<lparr>se_func_info = Some g, se_PC = th_PC s + pi_inst_size pI, se_RPC = rpc, se_return_var_src = Some rv, se_return_var_dst = Some d\<rparr>"
  let ?sp = "th_local_mem_stack_pointer s + fn_local_mem_framesize g"
  let ?sa = "s\<lparr>th_RPC := - 1, th_RPC_updated := True, th_last_was_call := True, th_callstack := ?e # th_callstack s,
     th_regs := Map.empty # th_regs s, th_local_mem_stack_pointer := ?sp\<rparr>"
  have "\<forall>y \<in> set (fn_args f). writable y" using assms(18) by blast
  from copy_buffers_plain [of ?sa, OF _ this lv(1)] obtain lo where
    b: "copy_buffer_list_into_frame (map2 Arg_reg (fn_args f) vs) ?sa
      = Some (?sa\<lparr>th_regs := (Map.empty(fn_args f [\<mapsto>] vs)) # th_regs s, th_last_set_operand_value := lo\<rparr>)" by auto
  let ?s1 = "?sa\<lparr>th_regs := (Map.empty(fn_args f [\<mapsto>] vs)) # th_regs s, th_last_set_operand_value := lo, th_NPC := fn_start_PC f,
     th_func_info := Some f\<rparr>"
  have "copy_args_into_buffer_list actuals (fn_args f) s = Some (map2 Arg_reg (fn_args f) vs, s)"
    using assms(18) by (intro copy_args_plain [OF assms(14-16)]) blast
  then have c: "call_impl funcs (Some (th_PC s, rpc)) pI s = Some ?s1"
    using assms(1-9,11,19) b lv
    by (simp add: call_impl_def func_addr_def pi_operand_def vec_at_def caller_pcs_def callstack_push_def push_frame_def Let_def)
  have r: "\<exists>s3. ret_impl s2 = Some s3 \<and> th_NPC s3 = th_PC s + pi_inst_size pI \<and> th_RPC s3 = rpc \<and> reg_val s3 d = Some r
            \<and> (\<forall>w. w \<noteq> d \<longrightarrow> reg_val s3 w = reg_val s w) \<and> tl (th_regs s3) = tl (th_regs s)
            \<and> th_local_mem_stack_pointer s3 = th_local_mem_stack_pointer s \<and> th_func_info s3 = Some g
            \<and> th_callstack s3 = th_callstack s \<and> th_thread_done s3 = (th_thread_done s2 \<or> th_callstack s = [])"
    if h: "th_callstack s2 = ?e # th_callstack s" "th_regs s2 \<noteq> []" "tl (th_regs s2) = th_regs s"
      "th_local_mem_stack_pointer s2 = ?sp" "reg_val s2 rv = Some r" for s2 r
  proof -
    from assms(20) obtain m ms where m: "th_regs s = m # ms" by (cases "th_regs s") auto
    have buf: "copy_arg_to_buffer (operand_symbol rv) d s2 = Some (Arg_reg d r, s2)"
      using op_is_reg_plain_reg [OF assms(10)] get_reg_val [OF h(5)] assms(12) by (simp add: copy_arg_to_buffer_def arg_from_reg_def)
    have "fn_local_mem_framesize g \<le> ?sp" using assms(21) by (simp add: word_le_nat_alt unat_word_ariths)
    then show ?thesis
      using h m buf assms(13)
      by (auto simp: ret_impl_def callstack_pop_def pop_frame_def Let_def set_reg_def writable_def reg_val_def)
  qed
  have "\<forall>i < length xs. reg_val ?s1 (fn_args f ! i) = Some (vs ! i)"
    using map_upds_nth [OF assms(17) lv(1)] assms(16) by (simp add: reg_val_def)
  with c r show ?thesis by (intro exI [of _ ?s1] conjI) (simp_all add: reg_val_def)
qed

definition ex_func :: ptx_function where
  "ex_func = \<lparr>fn_uid = 1, fn_name = ''f'', fn_start_PC = 0x100, fn_local_mem_framesize = 16, fn_args = [ex_reg 5 S32_TYPE],
     fn_return_var = Some (ex_reg 6 S32_TYPE)\<rparr>"

definition ex_func_symbol :: symbol where
  "ex_func_symbol = (symbol_new 8 ''f'' None 0)\<lparr>sym_is_func_addr := True\<rparr>"

lemma ex_func_symbol:
  "op_value (operand_symbol ex_func_symbol) = V_symbolic ex_func_symbol" "op_type (operand_symbol ex_func_symbol) = symbolic_t"
  "sym_is_func_addr ex_func_symbol" "sym_is_reg (ex_reg i t)"
  by (simp_all add: ex_func_symbol_def operand_symbol_def operand_new_def symbol_new_def sym_is_reg_def ex_reg_def key_is_reg_def
      space_of_def)

theorem ptx_call_return_witness:
  "\<exists>s1 s3. call_impl (\<lambda>_. Some ex_func) (Some (0x20, 0x28)) ((ex_inst [(ex_opnd (ex_reg 2 S32_TYPE))\<lparr>op_is_return_var := True\<rparr>,
        operand_symbol ex_func_symbol, ex_opnd (ex_reg 1 S32_TYPE)] [])\<lparr>pi_has_return := True\<rparr>)
      ((ex_thread [ex_reg 1 S32_TYPE \<mapsto> 7])\<lparr>th_PC := 0x20, th_func_info := Some ex_func\<rparr>) = Some s1
    \<and> reg_val s1 (ex_reg 5 S32_TYPE) = Some 7
    \<and> ret_impl (s1\<lparr>th_regs := [ex_reg 6 S32_TYPE \<mapsto> 9] # tl (th_regs s1)\<rparr>) = Some s3
    \<and> th_NPC s3 = 0x28 \<and> reg_val s3 (ex_reg 1 S32_TYPE) = Some 7 \<and> reg_val s3 (ex_reg 2 S32_TYPE) = Some 9"
proof -
  let ?d = "(ex_opnd (ex_reg 2 S32_TYPE))\<lparr>op_is_return_var := True\<rparr>"
  let ?i = "(ex_inst [?d, operand_symbol ex_func_symbol, ex_opnd (ex_reg 1 S32_TYPE)] [])\<lparr>pi_has_return := True\<rparr>"
  let ?s = "(ex_thread [ex_reg 1 S32_TYPE \<mapsto> 7])\<lparr>th_PC := 0x20, th_func_info := Some ex_func\<rparr>"
  have h: "pi_operands ?i = ?d # operand_symbol ex_func_symbol # [ex_opnd (ex_reg 1 S32_TYPE)]" "op_is_return_var ?d" "pi_has_return ?i"
    "op_symbol (operand_symbol ex_func_symbol) = Some ex_func_symbol" "op_type (operand_symbol ex_func_symbol) = symbolic_t"
    "sym_is_func_addr ex_func_symbol" "Some ex_func = Some ex_func" "fn_name ex_func \<noteq> ''vprintf''"
    "fn_return_var ex_func = Some (ex_reg 6 S32_TYPE)" "plain_reg (operand_symbol (ex_reg 6 S32_TYPE)) (ex_reg 6 S32_TYPE)"
    "op_symbol ?d = Some (ex_reg 2 S32_TYPE)" "sym_is_reg (ex_reg 2 S32_TYPE)" "writable (ex_reg 2 S32_TYPE)"
    "list_all2 plain_reg [ex_opnd (ex_reg 1 S32_TYPE)] [ex_reg 1 S32_TYPE]" "map (reg_val ?s) [ex_reg 1 S32_TYPE] = map Some [7]"
    "length (fn_args ex_func) = length [ex_reg 1 S32_TYPE]" "distinct (fn_args ex_func)"
    "\<forall>y \<in> set (fn_args ex_func). sym_is_reg y \<and> writable y" "th_func_info ?s = Some ex_func" "th_regs ?s \<noteq> []"
    "unat (th_local_mem_stack_pointer ?s) + unat (fn_local_mem_framesize ex_func) < 2 ^ 32"
    by (simp_all add: ex_func_def ex_func_symbol ex_inst_def ex_thread_def reg_val_def) (simp_all add: ex_opnd_def operand_new_def)
  from ptx_call_return [of ?i ?d "operand_symbol ex_func_symbol" _ _ "\<lambda>_. Some ex_func", OF h, of "0x28"] obtain s1 where
    1: "call_impl (\<lambda>_. Some ex_func) (Some (th_PC ?s, 0x28)) ?i ?s = Some s1"
    and 2: "\<forall>i < length [ex_reg 1 S32_TYPE]. reg_val s1 (fn_args ex_func ! i) = Some ([7] ! i)"
    and 3: "\<forall>s2 r. th_callstack s2 = th_callstack s1 \<and> th_regs s2 \<noteq> [] \<and> tl (th_regs s2) = tl (th_regs s1)
          \<and> th_local_mem_stack_pointer s2 = th_local_mem_stack_pointer s1 \<and> reg_val s2 (ex_reg 6 S32_TYPE) = Some r
        \<longrightarrow> (\<exists>s3. ret_impl s2 = Some s3 \<and> th_NPC s3 = th_PC ?s + pi_inst_size ?i \<and> th_RPC s3 = 0x28 \<and> reg_val s3 (ex_reg 2 S32_TYPE) = Some r
            \<and> (\<forall>w. w \<noteq> ex_reg 2 S32_TYPE \<longrightarrow> reg_val s3 w = reg_val ?s w) \<and> tl (th_regs s3) = tl (th_regs ?s)
            \<and> th_local_mem_stack_pointer s3 = th_local_mem_stack_pointer ?s \<and> th_func_info s3 = Some ex_func
            \<and> th_callstack s3 = th_callstack ?s \<and> th_thread_done s3 = (th_thread_done s2 \<or> th_callstack ?s = []))"
    by (elim exE conjE) (rule that)
  from 3 [rule_format, of "s1\<lparr>th_regs := [ex_reg 6 S32_TYPE \<mapsto> 9] # tl (th_regs s1)\<rparr>" 9] obtain s3 where
    "ret_impl (s1\<lparr>th_regs := [ex_reg 6 S32_TYPE \<mapsto> 9] # tl (th_regs s1)\<rparr>) = Some s3" "th_NPC s3 = 0x28"
    "reg_val s3 (ex_reg 2 S32_TYPE) = Some 9" "reg_val s3 (ex_reg 1 S32_TYPE) = Some 7"
    by (auto simp: reg_val_def ex_inst_def ex_thread_def)
  moreover have "th_PC ?s = 0x20" by simp
  moreover have "reg_val s1 (ex_reg 5 S32_TYPE) = Some 7" using 2 by (simp add: ex_func_def)
  ultimately show ?thesis using 1 by auto
qed

end
