(* ===== verification/NodeSet_Model.thy ===== *)
theory NodeSet_Model
  imports Address_Model Vector_Model
begin

text \<open>
  Sets of nodes, \<^verbatim>\<open>common/Set.*\<close>, \<^verbatim>\<open>OptBigSet.*\<close> and \<^verbatim>\<open>BigSet.*\<close>: three implementations of one class, of
  which the build selects one (\<^verbatim>\<open>OPTBIGSET\<close> by default).  The default keeps the bits in an array of 64-bit words, the
  others in one 32-bit word and in a vector of flags.

  Main result: the three implement the same finite sets, as instances of the locale \<open>node_set\<close>; every sequence of
  operations gives the same observations in all of them.
\<close>

unbundle bit_operations_syntax

subsection \<open>Sets in an array of words\<close>

text \<open>The array has \<^verbatim>\<open>m_nArrayLen\<close> words.  An index outside of it is an error of the caller, here \<open>None\<close>.\<close>

record Set =
  st_nSize :: int
  st_nArray :: "64 word list"

definition os_words :: "int \<Rightarrow> int" where
  "os_words n = cdiv n 64 + (if n mod 64 = 0 then 0 else 1)"

definition os_clear :: "Set \<Rightarrow> Set" where
  "os_clear s = s\<lparr>st_nArray := map (\<lambda>_. 0) (st_nArray s)\<rparr>"

definition os_setSize :: "int \<Rightarrow> Set" where
  "os_setSize n = os_clear \<lparr>st_nSize = n, st_nArray = replicate (nat (os_words n)) 0\<rparr>"

definition os_new :: "int \<Rightarrow> Set option" where
  "os_new n = do { assert_that (n > 0); Some (os_setSize n) }"

definition os_copy :: "Set \<Rightarrow> Set" where
  "os_copy s = (os_setSize (st_nSize s))\<lparr>st_nArray := st_nArray s\<rparr>"

definition os_word :: "Set \<Rightarrow> int \<Rightarrow> 64 word option" where
  "os_word s i = (if 0 \<le> i \<and> i < int (length (st_nArray s)) then Some (st_nArray s ! nat i) else None)"

definition os_put :: "Set \<Rightarrow> int \<Rightarrow> 64 word \<Rightarrow> Set" where
  "os_put s i w = s\<lparr>st_nArray := (st_nArray s)[nat i := w]\<rparr>"

text \<open>The bit of an element in its word, \<^verbatim>\<open>1 << (index & 0x03F)\<close>.\<close>

definition os_bit :: "int \<Rightarrow> 64 word" where
  "os_bit index = push_bit (nat (index mod 64)) 1"

definition os_add :: "Set \<Rightarrow> int \<Rightarrow> Set option" where
  "os_add s index = do { w \<leftarrow> os_word s (index div 64); Some (os_put s (index div 64) (w OR os_bit index)) }"

definition os_remove :: "Set \<Rightarrow> int \<Rightarrow> Set option" where
  "os_remove s index = do { w \<leftarrow> os_word s (index div 64); Some (os_put s (index div 64) (w AND NOT (os_bit index))) }"

definition os_isElement :: "Set \<Rightarrow> int \<Rightarrow> bool option" where
  "os_isElement s index = do { w \<leftarrow> os_word s (index div 64); Some (w AND os_bit index \<noteq> 0) }"

definition os_elementAt :: "Set \<Rightarrow> int \<Rightarrow> NodeID option" where
  "os_elementAt s index = do { b \<leftarrow> os_isElement s index; Some (if b then 1 else 0) }"

definition os_addSet :: "Set \<Rightarrow> Set \<Rightarrow> Set option" where
  "os_addSet s t = do {
     assert_that (st_nSize s = st_nSize t);
     Some (s\<lparr>st_nArray := map2 (OR) (st_nArray s) (st_nArray t)\<rparr>)
   }"

definition os_removeSet :: "Set \<Rightarrow> Set \<Rightarrow> Set option" where
  "os_removeSet s t = do {
     assert_that (st_nSize s = st_nSize t);
     Some (s\<lparr>st_nArray := map2 (\<lambda>a b. a AND NOT b) (st_nArray s) (st_nArray t)\<rparr>)
   }"

text \<open>Clearing the bits of the last word beyond the size, one by one from the top.\<close>

fun clear_top :: "64 word \<Rightarrow> 64 word \<Rightarrow> nat \<Rightarrow> 64 word" where
  "clear_top w m 0 = w"
| "clear_top w m (Suc n) = clear_top (w AND m) (drop_bit 1 m) n"

definition os_trim :: "Set \<Rightarrow> Set" where
  "os_trim s =
     (if st_nSize s mod 64 \<noteq> 0 then
        s\<lparr>st_nArray := butlast (st_nArray s) @ [clear_top (last (st_nArray s)) 0x7FFFFFFFFFFFFFFF (nat (64 - st_nSize s mod 64))]\<rparr>
      else s)"

text \<open>\<open>rs\<close> are the pairs of results of \<^verbatim>\<open>random()\<close>, one pair for a word.\<close>

definition os_addRandom :: "(64 word \<times> 64 word) list \<Rightarrow> Set \<Rightarrow> Set" where
  "os_addRandom rs s = os_trim (s\<lparr>st_nArray := map2 (\<lambda>w (a, b). w OR (a XOR push_bit 4 b)) (st_nArray s) rs\<rparr>)"

definition os_broadcast :: "Set \<Rightarrow> Set" where
  "os_broadcast s = os_trim (s\<lparr>st_nArray := map (\<lambda>_. - 1) (st_nArray s)\<rparr>)"

fun count_word :: "64 word \<Rightarrow> 64 word \<Rightarrow> nat \<Rightarrow> int" where
  "count_word w m 0 = 0"
| "count_word w m (Suc n) = (if w AND m \<noteq> 0 then 1 else 0) + count_word w (push_bit 1 m) n"

definition os_count :: "Set \<Rightarrow> int" where
  "os_count s = sum_list (map (\<lambda>w. count_word w 1 64) (st_nArray s))"

definition os_isEqual :: "Set \<Rightarrow> Set \<Rightarrow> bool option" where
  "os_isEqual s t = do {
     assert_that (st_nSize s = st_nSize t);
     Some (list_all (\<lambda>(a, b). a = b) (zip (st_nArray s) (st_nArray t)))
   }"

fun small_bit :: "64 word \<Rightarrow> int \<Rightarrow> nat \<Rightarrow> int option" where
  "small_bit x j 0 = None"
| "small_bit x j (Suc n) = (if x AND 1 \<noteq> 0 then Some j else small_bit (signed_drop_bit 1 x) (j + 1) n)"

fun small_word :: "64 word list \<Rightarrow> int \<Rightarrow> int option" where
  "small_word [] i = None"
| "small_word (w # ws) i = (if w \<noteq> 0 then small_bit w (64 * i) 64 else small_word ws (i + 1))"

definition os_smallestElement :: "Set \<Rightarrow> NodeID option" where
  "os_smallestElement s = do { assert_that (os_count s > 0); small_word (st_nArray s) 0 }"

fun all_ones :: "64 word \<Rightarrow> 64 word \<Rightarrow> nat \<Rightarrow> bool" where
  "all_ones w m 0 = True"
| "all_ones w m (Suc n) = (if m AND w = 0 then False else all_ones w (push_bit 1 m) n)"

definition os_isBroadcast :: "Set \<Rightarrow> bool" where
  "os_isBroadcast s =
     (list_all (\<lambda>w. w = - 1) (if st_nSize s mod 64 = 0 then st_nArray s else butlast (st_nArray s))
      \<and> (st_nSize s mod 64 \<noteq> 0 \<longrightarrow> all_ones (last (st_nArray s)) 1 (nat (st_nSize s mod 64))))"

definition os_isEmpty :: "Set \<Rightarrow> bool" where
  "os_isEmpty s = list_all (\<lambda>w. w = 0) (st_nArray s)"

definition os_OR :: "Set \<Rightarrow> Set \<Rightarrow> Set option" where
  "os_OR s t = do {
     r \<leftarrow> os_new (st_nSize s);
     assert_that (st_nSize s = st_nSize t);
     Some (r\<lparr>st_nArray := map2 (OR) (st_nArray s) (st_nArray t)\<rparr>)
   }"

definition os_AND :: "Set \<Rightarrow> Set \<Rightarrow> Set option" where
  "os_AND s t = do {
     r \<leftarrow> os_new (st_nSize s);
     assert_that (st_nSize s = st_nSize t);
     Some (r\<lparr>st_nArray := map2 (AND) (st_nArray s) (st_nArray t)\<rparr>)
   }"

definition os_intersectionIsNotEmpty :: "Set \<Rightarrow> Set \<Rightarrow> bool" where
  "os_intersectionIsNotEmpty s t = list_ex (\<lambda>(a, b). a AND b \<noteq> 0) (zip (st_nArray s) (st_nArray t))"

definition os_intersectionIsEmpty :: "Set \<Rightarrow> Set \<Rightarrow> bool" where
  "os_intersectionIsEmpty s t = list_all (\<lambda>(a, b). a AND b = 0) (zip (st_nArray s) (st_nArray t))"

definition os_isSuperset :: "Set \<Rightarrow> Set \<Rightarrow> bool option" where
  "os_isSuperset s t = do {
     assert_that (st_nSize s = st_nSize t);
     Some (list_all (\<lambda>(a, b). (b AND a) OR NOT b = - 1) (zip (st_nArray s) (st_nArray t)))
   }"

definition os_isSubset :: "Set \<Rightarrow> Set \<Rightarrow> bool option" where
  "os_isSubset s t = os_isSuperset t s"

subsection \<open>Sets in one word\<close>

text \<open>A shift by a negative number or by 32 and more is undefined in C, here \<open>None\<close>.\<close>

record SmallSet =
  ss_size :: int
  ss_bits :: "32 word"
  ss_mask :: "32 word"

definition bit32 :: "int \<Rightarrow> 32 word option" where
  "bit32 i = do { assert_that (0 \<le> i \<and> i < 32); Some (push_bit (nat i) 1) }"

definition ss_checked :: "SmallSet \<Rightarrow> SmallSet option" where
  "ss_checked s = do { assert_that (ss_bits s AND ss_mask s = ss_bits s); Some s }"

definition ss_setSize :: "int \<Rightarrow> SmallSet option" where
  "ss_setSize n = do {
     assert_that (0 \<le> n \<and> n < 32);
     let m = NOT (push_bit (nat n) (- 1));
     assert_that (m \<noteq> 0);
     ss_checked \<lparr>ss_size = n, ss_bits = 0, ss_mask = m\<rparr>
   }"

definition ss_add :: "SmallSet \<Rightarrow> int \<Rightarrow> SmallSet option" where
  "ss_add s index = do {
     s \<leftarrow> ss_checked s;
     assert_that (index < ss_size s);
     b \<leftarrow> bit32 index;
     ss_checked (s\<lparr>ss_bits := ss_bits s OR b\<rparr>)
   }"

definition ss_addSet :: "SmallSet \<Rightarrow> SmallSet \<Rightarrow> SmallSet option" where
  "ss_addSet s t = do { assert_that (ss_size s = ss_size t); ss_checked (s\<lparr>ss_bits := ss_bits s OR ss_bits t\<rparr>) }"

definition ss_addRandom :: "32 word \<Rightarrow> SmallSet \<Rightarrow> SmallSet option" where
  "ss_addRandom r s = ss_checked (s\<lparr>ss_bits := (ss_bits s OR r) AND ss_mask s\<rparr>)"

definition ss_remove :: "SmallSet \<Rightarrow> int \<Rightarrow> SmallSet option" where
  "ss_remove s index = do {
     assert_that (index < ss_size s);
     b \<leftarrow> bit32 index;
     ss_checked (s\<lparr>ss_bits := ss_bits s AND NOT b\<rparr>)
   }"

definition ss_removeSet :: "SmallSet \<Rightarrow> SmallSet \<Rightarrow> SmallSet option" where
  "ss_removeSet s t = do { assert_that (ss_size s = ss_size t); ss_checked (s\<lparr>ss_bits := ss_bits s AND NOT (ss_bits t)\<rparr>) }"

definition ss_clear :: "SmallSet \<Rightarrow> SmallSet" where "ss_clear s = s\<lparr>ss_bits := 0\<rparr>"
definition ss_broadcast :: "SmallSet \<Rightarrow> SmallSet" where "ss_broadcast s = s\<lparr>ss_bits := ss_mask s\<rparr>"

definition ss_isElement :: "SmallSet \<Rightarrow> int \<Rightarrow> bool option" where
  "ss_isElement s i = do { b \<leftarrow> bit32 i; Some (ss_bits s AND b \<noteq> 0) }"

fun ss_count_loop :: "SmallSet \<Rightarrow> int \<Rightarrow> nat \<Rightarrow> int option" where
  "ss_count_loop s i 0 = Some 0"
| "ss_count_loop s i (Suc n) = do {
     e \<leftarrow> ss_isElement s i;
     c \<leftarrow> ss_count_loop s (i + 1) n;
     Some ((if e then 1 else 0) + c)
   }"

definition ss_count :: "SmallSet \<Rightarrow> int option" where
  "ss_count s = ss_count_loop s 0 (nat (ss_size s))"

fun ss_element_loop :: "SmallSet \<Rightarrow> int \<Rightarrow> nat \<Rightarrow> int \<Rightarrow> NodeID option" where
  "ss_element_loop s i 0 index = None"
| "ss_element_loop s i (Suc n) index = do {
     e \<leftarrow> ss_isElement s i;
     (if e then if index = 0 then Some i else ss_element_loop s (i + 1) n (index - 1)
      else ss_element_loop s (i + 1) n index)
   }"

definition ss_elementAt :: "SmallSet \<Rightarrow> int \<Rightarrow> NodeID option" where
  "ss_elementAt s index = ss_element_loop s 0 (nat (ss_size s)) index"

definition ss_smallestElement :: "SmallSet \<Rightarrow> NodeID option" where
  "ss_smallestElement s = do {
     c \<leftarrow> ss_count s;
     assert_that (c > 0);
     ss_element_loop s 0 (nat (ss_size s)) 0
   }"

definition ss_isBroadcast :: "SmallSet \<Rightarrow> bool option" where
  "ss_isBroadcast s = do { s \<leftarrow> ss_checked s; Some (ss_mask s = ss_bits s) }"

definition ss_isEmpty :: "SmallSet \<Rightarrow> bool option" where
  "ss_isEmpty s = do { s \<leftarrow> ss_checked s; Some (ss_bits s = 0) }"

definition ss_isEqual :: "SmallSet \<Rightarrow> SmallSet \<Rightarrow> bool" where
  "ss_isEqual s t = (ss_bits s = ss_bits t)"

definition ss_OR :: "SmallSet \<Rightarrow> SmallSet \<Rightarrow> SmallSet option" where
  "ss_OR s t = do {
     assert_that (ss_size s = ss_size t);
     r \<leftarrow> ss_setSize (ss_size s);
     ss_checked (r\<lparr>ss_bits := ss_bits s OR ss_bits t\<rparr>)
   }"

definition ss_AND :: "SmallSet \<Rightarrow> SmallSet \<Rightarrow> SmallSet option" where
  "ss_AND s t = do {
     assert_that (ss_size s = ss_size t);
     r \<leftarrow> ss_setSize (ss_size s);
     ss_checked (r\<lparr>ss_bits := ss_bits s AND ss_bits t\<rparr>)
   }"

definition ss_intersectionIsNotEmpty :: "SmallSet \<Rightarrow> SmallSet \<Rightarrow> bool option" where
  "ss_intersectionIsNotEmpty s t = do { assert_that (ss_size s = ss_size t); Some (ss_bits s AND ss_bits t \<noteq> 0) }"

definition ss_intersectionIsEmpty :: "SmallSet \<Rightarrow> SmallSet \<Rightarrow> bool option" where
  "ss_intersectionIsEmpty s t = do { assert_that (ss_size s = ss_size t); Some (ss_bits s AND ss_bits t = 0) }"

definition ss_isSuperset :: "SmallSet \<Rightarrow> SmallSet \<Rightarrow> bool option" where
  "ss_isSuperset s t = do { assert_that (ss_size s = ss_size t); Some (ss_bits t AND NOT (ss_bits s) = 0) }"

subsection \<open>Sets in a vector of flags\<close>

text \<open>A loop \<^verbatim>\<open>for (int i = ...; i < n; i++)\<close> over a state, and one that returns \<^verbatim>\<open>false\<close> at the first failure.\<close>

fun for_loop :: "(int \<Rightarrow> 's \<Rightarrow> 's option) \<Rightarrow> int \<Rightarrow> nat \<Rightarrow> 's \<Rightarrow> 's option" where
  "for_loop f i 0 s = Some s"
| "for_loop f i (Suc n) s = do { s \<leftarrow> f i s; for_loop f (i + 1) n s }"

fun all_loop :: "(int \<Rightarrow> bool option) \<Rightarrow> int \<Rightarrow> nat \<Rightarrow> bool option" where
  "all_loop f i 0 = Some True"
| "all_loop f i (Suc n) = do { b \<leftarrow> f i; (if b then all_loop f (i + 1) n else Some False) }"

fun find_loop :: "(int \<Rightarrow> bool option) \<Rightarrow> int \<Rightarrow> nat \<Rightarrow> int option" where
  "find_loop f i 0 = None"
| "find_loop f i (Suc n) = do { b \<leftarrow> f i; (if b then Some i else find_loop f (i + 1) n) }"

type_synonym BigSet = "bool vector"

abbreviation bs_len :: "BigSet \<Rightarrow> nat" where "bs_len v \<equiv> nat (v_size v)"

definition bs_add :: "BigSet \<Rightarrow> int \<Rightarrow> BigSet option" where "bs_add v i = vec_set v i True"
definition bs_remove :: "BigSet \<Rightarrow> int \<Rightarrow> BigSet option" where "bs_remove v i = vec_set v i False"
definition bs_isElement :: "BigSet \<Rightarrow> int \<Rightarrow> bool option" where "bs_isElement v i = vec_ref v i"

definition bs_addSet :: "BigSet \<Rightarrow> BigSet \<Rightarrow> BigSet option" where
  "bs_addSet v t = do {
     assert_that (v_size v = v_size t);
     for_loop (\<lambda>i v. do { e \<leftarrow> bs_isElement t i; (if e then bs_add v i else Some v) }) 0 (bs_len v) v
   }"

definition bs_removeSet :: "BigSet \<Rightarrow> BigSet \<Rightarrow> BigSet option" where
  "bs_removeSet v t = do {
     assert_that (v_size v = v_size t);
     for_loop (\<lambda>i v. do { e \<leftarrow> bs_isElement t i; (if e then bs_remove v i else Some v) }) 0 (bs_len v) v
   }"

text \<open>\<^verbatim>\<open>rand & 0x1 == 0\<close> is \<^verbatim>\<open>rand & (0x1 == 0)\<close>.\<close>

definition bs_addRandom :: "32 word \<Rightarrow> BigSet \<Rightarrow> BigSet option" where
  "bs_addRandom rand v = map_option snd
     (for_loop (\<lambda>i (rand, v). do {
         v \<leftarrow> (if rand AND (if (1 :: 32 word) = 0 then 1 else 0) \<noteq> 0 then bs_add v i else Some v);
         Some (signed_drop_bit 1 rand, v)
       }) 0 (bs_len v) (rand, v))"

definition bs_clear :: "BigSet \<Rightarrow> BigSet option" where
  "bs_clear v = for_loop (\<lambda>i v. vec_set v i False) 0 (bs_len v) v"

definition bs_broadcast :: "BigSet \<Rightarrow> BigSet option" where
  "bs_broadcast v = for_loop (\<lambda>i v. vec_set v i True) 0 (bs_len v) v"

definition bs_setSize :: "BigSet \<Rightarrow> int \<Rightarrow> BigSet option" where
  "bs_setSize v n = do { v \<leftarrow> vec_setSize False v n; bs_clear v }"

definition bs_new :: "int \<Rightarrow> BigSet option" where "bs_new n = bs_setSize vec_new n"

definition bs_count :: "BigSet \<Rightarrow> int option" where
  "bs_count v = for_loop (\<lambda>i c. do { e \<leftarrow> vec_ref v i; Some (if e then c + 1 else c) }) 0 (bs_len v) 0"

definition bs_isEqual :: "BigSet \<Rightarrow> BigSet \<Rightarrow> bool option" where
  "bs_isEqual v t = do {
     assert_that (v_size v = v_size t);
     all_loop (\<lambda>i. do { a \<leftarrow> vec_ref v i; b \<leftarrow> bs_isElement t i; Some (a = b) }) 0 (bs_len v)
   }"

definition bs_smallestElement :: "BigSet \<Rightarrow> NodeID option" where
  "bs_smallestElement v = do { c \<leftarrow> bs_count v; assert_that (c > 0); find_loop (bs_isElement v) 0 (bs_len v) }"

definition bs_isBroadcast :: "BigSet \<Rightarrow> bool option" where
  "bs_isBroadcast v = all_loop (\<lambda>i. vec_ref v i) 0 (bs_len v)"

definition bs_isEmpty :: "BigSet \<Rightarrow> bool option" where
  "bs_isEmpty v = all_loop (\<lambda>i. map_option Not (vec_ref v i)) 0 (bs_len v)"

definition bs_combine :: "(bool \<Rightarrow> bool \<Rightarrow> bool) \<Rightarrow> BigSet \<Rightarrow> BigSet \<Rightarrow> BigSet option" where
  "bs_combine f v t = do {
     assert_that (v_size v = v_size t);
     r \<leftarrow> bs_setSize vec_new (v_size v);
     for_loop (\<lambda>i r. do {
         a \<leftarrow> vec_ref v i; b \<leftarrow> bs_isElement t i;
         (if f a b then bs_add r i else bs_remove r i)
       }) 0 (bs_len v) r
   }"

definition bs_OR :: "BigSet \<Rightarrow> BigSet \<Rightarrow> BigSet option" where "bs_OR = bs_combine (\<or>)"
definition bs_AND :: "BigSet \<Rightarrow> BigSet \<Rightarrow> BigSet option" where "bs_AND = bs_combine (\<and>)"

definition bs_intersectionIsEmpty :: "BigSet \<Rightarrow> BigSet \<Rightarrow> bool option" where
  "bs_intersectionIsEmpty v t = do {
     assert_that (v_size v = v_size t);
     all_loop (\<lambda>i. do { b \<leftarrow> bs_isElement t i; a \<leftarrow> bs_isElement v i; Some (\<not> (b \<and> a)) }) 0 (bs_len v)
   }"

definition bs_intersectionIsNotEmpty :: "BigSet \<Rightarrow> BigSet \<Rightarrow> bool option" where
  "bs_intersectionIsNotEmpty v t = map_option Not (bs_intersectionIsEmpty v t)"

definition bs_isSuperset :: "BigSet \<Rightarrow> BigSet \<Rightarrow> bool option" where
  "bs_isSuperset v t = do {
     assert_that (v_size v = v_size t);
     all_loop (\<lambda>i. do { b \<leftarrow> bs_isElement t i; a \<leftarrow> bs_isElement v i; Some (\<not> (b \<and> \<not> a)) }) 0 (bs_len v)
   }"

definition bs_elementAt :: "BigSet \<Rightarrow> int \<Rightarrow> NodeID option" where
  "bs_elementAt v i = do { b \<leftarrow> vec_ref v i; Some (if b then 1 else 0) }"

subsection \<open>The class and its contract\<close>

record 's set_class =
  so_new :: "int \<Rightarrow> 's option"
  so_add :: "'s \<Rightarrow> int \<Rightarrow> 's option"
  so_remove :: "'s \<Rightarrow> int \<Rightarrow> 's option"
  so_clear :: "'s \<Rightarrow> 's option"
  so_broadcast :: "'s \<Rightarrow> 's option"
  so_addSet :: "'s \<Rightarrow> 's \<Rightarrow> 's option"
  so_removeSet :: "'s \<Rightarrow> 's \<Rightarrow> 's option"
  so_OR :: "'s \<Rightarrow> 's \<Rightarrow> 's option"
  so_AND :: "'s \<Rightarrow> 's \<Rightarrow> 's option"
  so_count :: "'s \<Rightarrow> int option"
  so_isElement :: "'s \<Rightarrow> int \<Rightarrow> bool option"
  so_isEmpty :: "'s \<Rightarrow> bool option"
  so_isBroadcast :: "'s \<Rightarrow> bool option"
  so_isEqual :: "'s \<Rightarrow> 's \<Rightarrow> bool option"
  so_isSuperset :: "'s \<Rightarrow> 's \<Rightarrow> bool option"
  so_meets :: "'s \<Rightarrow> 's \<Rightarrow> bool option"
  so_smallest :: "'s \<Rightarrow> int option"

definition os_class :: "Set set_class" where
  "os_class = \<lparr>so_new = os_new, so_add = os_add, so_remove = os_remove, so_clear = (\<lambda>s. Some (os_clear s)),
     so_broadcast = (\<lambda>s. Some (os_broadcast s)), so_addSet = os_addSet, so_removeSet = os_removeSet, so_OR = os_OR, so_AND = os_AND,
     so_count = (\<lambda>s. Some (os_count s)), so_isElement = os_isElement, so_isEmpty = (\<lambda>s. Some (os_isEmpty s)),
     so_isBroadcast = (\<lambda>s. Some (os_isBroadcast s)), so_isEqual = os_isEqual, so_isSuperset = os_isSuperset,
     so_meets = (\<lambda>s t. Some (os_intersectionIsNotEmpty s t)), so_smallest = os_smallestElement\<rparr>"

definition ss_class :: "SmallSet set_class" where
  "ss_class = \<lparr>so_new = ss_setSize, so_add = ss_add, so_remove = ss_remove, so_clear = (\<lambda>s. Some (ss_clear s)),
     so_broadcast = (\<lambda>s. Some (ss_broadcast s)), so_addSet = ss_addSet, so_removeSet = ss_removeSet, so_OR = ss_OR, so_AND = ss_AND,
     so_count = ss_count, so_isElement = ss_isElement, so_isEmpty = ss_isEmpty, so_isBroadcast = ss_isBroadcast,
     so_isEqual = (\<lambda>s t. Some (ss_isEqual s t)), so_isSuperset = ss_isSuperset, so_meets = ss_intersectionIsNotEmpty,
     so_smallest = ss_smallestElement\<rparr>"

definition bs_class :: "BigSet set_class" where
  "bs_class = \<lparr>so_new = bs_new, so_add = bs_add, so_remove = bs_remove, so_clear = bs_clear, so_broadcast = bs_broadcast,
     so_addSet = bs_addSet, so_removeSet = bs_removeSet, so_OR = bs_OR, so_AND = bs_AND, so_count = bs_count,
     so_isElement = bs_isElement, so_isEmpty = bs_isEmpty, so_isBroadcast = bs_isBroadcast, so_isEqual = bs_isEqual,
     so_isSuperset = bs_isSuperset, so_meets = bs_intersectionIsNotEmpty, so_smallest = bs_smallestElement\<rparr>"

text \<open>
  \<open>rep s n A\<close>: the object \<open>s\<close> is a set over the nodes below \<open>n\<close> with the elements \<open>A\<close>.
  Programs work on two sets, and their observations are what the class lets a client see.
\<close>

datatype set_op = Add nat | Remove nat | Clear | Broadcast | AddSet | RemoveSet | Or | And | Swap

fun set_step :: "'s set_class \<Rightarrow> set_op \<Rightarrow> 's \<times> 's \<Rightarrow> ('s \<times> 's) option" where
  "set_step C (Add i) (s, t) = map_option (\<lambda>s. (s, t)) (so_add C s (int i))"
| "set_step C (Remove i) (s, t) = map_option (\<lambda>s. (s, t)) (so_remove C s (int i))"
| "set_step C Clear (s, t) = map_option (\<lambda>s. (s, t)) (so_clear C s)"
| "set_step C Broadcast (s, t) = map_option (\<lambda>s. (s, t)) (so_broadcast C s)"
| "set_step C AddSet (s, t) = map_option (\<lambda>s. (s, t)) (so_addSet C s t)"
| "set_step C RemoveSet (s, t) = map_option (\<lambda>s. (s, t)) (so_removeSet C s t)"
| "set_step C Or (s, t) = map_option (\<lambda>s. (s, t)) (so_OR C s t)"
| "set_step C And (s, t) = map_option (\<lambda>s. (s, t)) (so_AND C s t)"
| "set_step C Swap (s, t) = Some (t, s)"

fun set_run :: "'s set_class \<Rightarrow> set_op list \<Rightarrow> 's \<times> 's \<Rightarrow> ('s \<times> 's) option" where
  "set_run C [] st = Some st"
| "set_run C (x # xs) st = do { st \<leftarrow> set_step C x st; set_run C xs st }"

record set_view =
  vw_elements :: "bool option list"
  vw_count :: "int option"
  vw_isEmpty :: "bool option"
  vw_isBroadcast :: "bool option"
  vw_isEqual :: "bool option"
  vw_isSuperset :: "bool option"
  vw_meets :: "bool option"
  vw_smallest :: "int option"

fun set_view_of :: "'s set_class \<Rightarrow> nat \<Rightarrow> 's \<times> 's \<Rightarrow> set_view" where
  "set_view_of C n (s, t) =
     \<lparr>vw_elements = map (\<lambda>i. so_isElement C s (int i)) [0..<n], vw_count = so_count C s, vw_isEmpty = so_isEmpty C s,
      vw_isBroadcast = so_isBroadcast C s, vw_isEqual = so_isEqual C s t, vw_isSuperset = so_isSuperset C s t,
      vw_meets = so_meets C s t, vw_smallest = (if so_isEmpty C s = Some True then None else so_smallest C s)\<rparr>"

definition set_program :: "'s set_class \<Rightarrow> nat \<Rightarrow> set_op list \<Rightarrow> set_view option" where
  "set_program C n xs = do {
     s \<leftarrow> so_new C (int n); t \<leftarrow> so_new C (int n);
     st \<leftarrow> set_run C xs (s, t);
     Some (set_view_of C n st)
   }"

text \<open>The same programs on mathematical sets.\<close>

fun spec_step :: "nat \<Rightarrow> set_op \<Rightarrow> nat set \<times> nat set \<Rightarrow> nat set \<times> nat set" where
  "spec_step n (Add i) (A, B) = (insert i A, B)"
| "spec_step n (Remove i) (A, B) = (A - {i}, B)"
| "spec_step n Clear (A, B) = ({}, B)"
| "spec_step n Broadcast (A, B) = ({..<n}, B)"
| "spec_step n AddSet (A, B) = (A \<union> B, B)"
| "spec_step n RemoveSet (A, B) = (A - B, B)"
| "spec_step n Or (A, B) = (A \<union> B, B)"
| "spec_step n And (A, B) = (A \<inter> B, B)"
| "spec_step n Swap (A, B) = (B, A)"

fun spec_view :: "nat \<Rightarrow> nat set \<times> nat set \<Rightarrow> set_view" where
  "spec_view n (A, B) =
     \<lparr>vw_elements = map (\<lambda>i. Some (i \<in> A)) [0..<n], vw_count = Some (int (card A)), vw_isEmpty = Some (A = {}),
      vw_isBroadcast = Some (A = {..<n}), vw_isEqual = Some (A = B), vw_isSuperset = Some (B \<subseteq> A),
      vw_meets = Some (A \<inter> B \<noteq> {}), vw_smallest = (if A = {} then None else Some (int (Min A)))\<rparr>"

fun op_ok :: "nat \<Rightarrow> set_op \<Rightarrow> bool" where
  "op_ok n (Add i) = (i < n)"
| "op_ok n (Remove i) = (i < n)"
| "op_ok n x = True"

locale node_set =
  fixes C :: "'s set_class" and rep :: "'s \<Rightarrow> nat \<Rightarrow> nat set \<Rightarrow> bool" and ok :: "nat \<Rightarrow> bool"
  assumes new_law: "ok n \<Longrightarrow> \<exists>s. so_new C (int n) = Some s \<and> rep s n {}"
    and add_law: "\<lbrakk>rep s n A; i < n\<rbrakk> \<Longrightarrow> \<exists>s'. so_add C s (int i) = Some s' \<and> rep s' n (insert i A)"
    and remove_law: "\<lbrakk>rep s n A; i < n\<rbrakk> \<Longrightarrow> \<exists>s'. so_remove C s (int i) = Some s' \<and> rep s' n (A - {i})"
    and clear_law: "rep s n A \<Longrightarrow> \<exists>s'. so_clear C s = Some s' \<and> rep s' n {}"
    and broadcast_law: "rep s n A \<Longrightarrow> \<exists>s'. so_broadcast C s = Some s' \<and> rep s' n {..<n}"
    and addSet_law: "\<lbrakk>rep s n A; rep t n B\<rbrakk> \<Longrightarrow> \<exists>s'. so_addSet C s t = Some s' \<and> rep s' n (A \<union> B)"
    and removeSet_law: "\<lbrakk>rep s n A; rep t n B\<rbrakk> \<Longrightarrow> \<exists>s'. so_removeSet C s t = Some s' \<and> rep s' n (A - B)"
    and OR_law: "\<lbrakk>rep s n A; rep t n B\<rbrakk> \<Longrightarrow> \<exists>s'. so_OR C s t = Some s' \<and> rep s' n (A \<union> B)"
    and AND_law: "\<lbrakk>rep s n A; rep t n B\<rbrakk> \<Longrightarrow> \<exists>s'. so_AND C s t = Some s' \<and> rep s' n (A \<inter> B)"
    and count_law: "rep s n A \<Longrightarrow> so_count C s = Some (int (card A))"
    and isElement_law: "\<lbrakk>rep s n A; i < n\<rbrakk> \<Longrightarrow> so_isElement C s (int i) = Some (i \<in> A)"
    and isEmpty_law: "rep s n A \<Longrightarrow> so_isEmpty C s = Some (A = {})"
    and isBroadcast_law: "rep s n A \<Longrightarrow> so_isBroadcast C s = Some (A = {..<n})"
    and isEqual_law: "\<lbrakk>rep s n A; rep t n B\<rbrakk> \<Longrightarrow> so_isEqual C s t = Some (A = B)"
    and isSuperset_law: "\<lbrakk>rep s n A; rep t n B\<rbrakk> \<Longrightarrow> so_isSuperset C s t = Some (B \<subseteq> A)"
    and meets_law: "\<lbrakk>rep s n A; rep t n B\<rbrakk> \<Longrightarrow> so_meets C s t = Some (A \<inter> B \<noteq> {})"
    and smallest_law: "\<lbrakk>rep s n A; A \<noteq> {}\<rbrakk> \<Longrightarrow> so_smallest C s = Some (int (Min A))"
begin

lemma step_law:
  assumes "rep s n A" "rep t n B" "op_ok n x"
  shows "\<exists>s' t'. set_step C x (s, t) = Some (s', t') \<and> rep s' n (fst (spec_step n x (A, B))) \<and> rep t' n (snd (spec_step n x (A, B)))"
  using assms add_law remove_law clear_law broadcast_law addSet_law removeSet_law OR_law AND_law by (cases x) fastforce+

lemma run_law:
  "\<lbrakk>rep s n A; rep t n B; \<forall>x \<in> set xs. op_ok n x\<rbrakk>
    \<Longrightarrow> \<exists>s' t' A' B'. set_run C xs (s, t) = Some (s', t') \<and> fold (spec_step n) xs (A, B) = (A', B') \<and> rep s' n A' \<and> rep t' n B'"
proof (induction xs arbitrary: s t A B)
  case (Cons x xs)
  obtain A1 B1 where 1: "spec_step n x (A, B) = (A1, B1)" by fastforce
  with step_law [OF Cons.prems(1,2)] Cons.prems(3) obtain s1 t1 where
    "set_step C x (s, t) = Some (s1, t1)" "rep s1 n A1" "rep t1 n B1" by fastforce
  with Cons.IH [of s1 A1 t1 B1] Cons.prems(3) 1 show ?case by simp
qed auto

lemma view_law: "\<lbrakk>rep s n A; rep t n B\<rbrakk> \<Longrightarrow> set_view_of C n (s, t) = spec_view n (A, B)"
  using count_law isElement_law isEmpty_law isBroadcast_law isEqual_law isSuperset_law meets_law smallest_law by auto

lemma program_law:
  assumes "ok n" "\<forall>x \<in> set xs. op_ok n x"
  shows "set_program C n xs = Some (spec_view n (fold (spec_step n) xs ({}, {})))"
proof -
  from new_law [OF assms(1)] obtain s where s: "so_new C (int n) = Some s" "rep s n {}" by blast
  with run_law [OF s(2) s(2) assms(2)] view_law show ?thesis by (fastforce simp: set_program_def)
qed

end

subsection \<open>The array of words\<close>

definition word_bit :: "64 word list \<Rightarrow> nat \<Rightarrow> bool" where
  "word_bit ws i = (i < 64 * length ws \<and> bit (ws ! (i div 64)) (i mod 64))"

definition os_rep :: "Set \<Rightarrow> nat \<Rightarrow> nat set \<Rightarrow> bool" where
  "os_rep s n A = (0 < n \<and> st_nSize s = int n \<and> length (st_nArray s) = (n + 63) div 64 \<and> A \<subseteq> {..<n}
     \<and> (\<forall>i. word_bit (st_nArray s) i \<longleftrightarrow> i \<in> A))"

lemma int64: "int i div 64 = int (i div 64)" "int i mod 64 = int (i mod 64)"
  by (simp_all add: zdiv_int zmod_int)

lemma os_words_eq: "nat (os_words (int n)) = (n + 63) div 64"
proof -
  have "(n mod 64 + 63) div 64 = (if n mod 64 = 0 then 0 else 1)" by (auto intro!: div_nat_eqI)
  then have "n div 64 + (if n mod 64 = 0 then 0 else 1) = (n + 63) div 64" by (simp add: div_add1_eq [of n 63 64])
  then show ?thesis by (auto simp: os_words_def int64 nat_add_distrib split: if_splits)
qed

lemma word_bit_zero: "word_bit (map (\<lambda>_. 0) ws) i \<longleftrightarrow> False"
  by (auto simp: word_bit_def)

lemma word_index: "i < 64 * length ws \<longleftrightarrow> i div 64 < length (ws :: 'a list)"
  by (metis div_less_iff_less_mult mult.commute zero_less_numeral)

lemma word_bit_map2:
  assumes "length us = length ws" "\<And>a b k. k < 64 \<Longrightarrow> bit (f a b) k = g (bit a k) (bit b k)" "\<not> g False False"
  shows "word_bit (map2 f us ws) i \<longleftrightarrow> g (word_bit us i) (word_bit ws i)"
  using assms by (cases "i div 64 < length ws") (simp_all add: word_bit_def word_index)

lemma word_bit_update:
  assumes "k < length ws"
  shows "word_bit (ws[k := w]) i \<longleftrightarrow> (if i div 64 = k then bit w (i mod 64) else word_bit ws i)"
  using assms by (auto simp: word_bit_def word_index nth_list_update)

lemma os_repD:
  assumes "os_rep s n A"
  shows "0 < n" "st_nSize s = int n" "n \<le> 64 * length (st_nArray s)" "length (st_nArray s) = (n + 63) div 64" "A \<subseteq> {..<n}"
    "word_bit (st_nArray s) i \<longleftrightarrow> i \<in> A" "i < n \<Longrightarrow> i div 64 < length (st_nArray s)"
proof -
  show n: "n \<le> 64 * length (st_nArray s)" using assms by (simp add: os_rep_def)
  show "i < n \<Longrightarrow> i div 64 < length (st_nArray s)" using n by (simp flip: word_index)
qed (use assms in \<open>simp_all add: os_rep_def\<close>)

lemma os_rep_size: "os_rep s n A \<Longrightarrow> os_rep t n B \<Longrightarrow> st_nSize s = st_nSize t \<and> length (st_nArray s) = length (st_nArray t)"
  by (simp add: os_rep_def)

lemma os_rep_map2:
  assumes "os_rep s n A" "os_rep t n B" "\<And>a b k. k < 64 \<Longrightarrow> bit (f a b) k = g (bit a k) (bit b k)" "\<And>b. \<not> g False b \<or> b"
  shows "\<not> g False False \<Longrightarrow> os_rep (s\<lparr>st_nArray := map2 f (st_nArray s) (st_nArray t)\<rparr>) n {i. g (i \<in> A) (i \<in> B)}"
proof -
  assume g: "\<not> g False False"
  have "length (st_nArray s) = length (st_nArray t)" using os_rep_size [OF assms(1,2)] by simp
  from word_bit_map2 [where f = f and g = g, OF this assms(3) g] have "word_bit (map2 f (st_nArray s) (st_nArray t)) i \<longleftrightarrow> g (i \<in> A) (i \<in> B)" for i
    using assms(1,2) by (simp add: os_rep_def)
  moreover have "{i. g (i \<in> A) (i \<in> B)} \<subseteq> A \<union> B" using g by auto (metis (full_types))
  ultimately show ?thesis using assms(1,2) by (auto simp: os_rep_def)
qed

lemma os_word_at: "os_rep s n A \<Longrightarrow> i < n \<Longrightarrow> os_word s (int i div 64) = Some (st_nArray s ! (i div 64))"
  using os_repD(7) [of s n A i] by (simp add: os_word_def int64)

lemma os_bit_at: "bit (os_bit (int i)) k \<longleftrightarrow> k < 64 \<and> k = i mod 64"
  by (auto simp: os_bit_def int64 bit_push_bit_iff bit_exp_iff)

lemma os_rep_put:
  assumes "os_rep s n A" "i < n" "\<And>k. k < 64 \<Longrightarrow> bit w k \<longleftrightarrow> (if k = i mod 64 then b else bit (st_nArray s ! (i div 64)) k)"
  shows "os_rep (os_put s (int i div 64) w) n (if b then insert i A else A - {i})"
proof -
  have *: "st_nArray (os_put s (int i div 64) w) = (st_nArray s)[i div 64 := w]" by (simp add: os_put_def int64)
  have "word_bit ((st_nArray s)[i div 64 := w]) j \<longleftrightarrow> j \<in> (if b then insert i A else A - {i})" for j
  proof (cases "j div 64 = i div 64")
    case True
    have "word_bit (st_nArray s) j \<longleftrightarrow> bit (st_nArray s ! (i div 64)) (j mod 64)"
      using True os_repD(7) [OF assms(1,2)] by (simp add: word_bit_def word_index)
    moreover have "j mod 64 = i mod 64 \<longleftrightarrow> j = i" using True by (metis div_mult_mod_eq)
    ultimately show ?thesis
      using True os_repD(7) [OF assms(1,2)] os_repD(6) [OF assms(1), of j] assms(3) [of "j mod 64"] by (auto simp: word_bit_update)
  next
    case False
    then show ?thesis using os_repD(6) [OF assms(1), of j] os_repD(7) [OF assms(1,2)] by (auto simp: word_bit_update)
  qed
  moreover have "st_nSize (os_put s (int i div 64) w) = st_nSize s" by (simp add: os_put_def)
  ultimately show ?thesis using assms(1,2) by (auto simp: os_rep_def *)
qed

lemma drop_mask: "j \<le> 64 \<Longrightarrow> drop_bit 1 (mask j :: 64 word) = mask (j - 1)"
  by (rule bit_word_eqI) (auto simp: bit_drop_bit_eq bit_mask_iff)

lemma clear_top_mask: "n \<le> Suc j \<Longrightarrow> j \<le> 63 \<Longrightarrow> clear_top w (mask j) n = (if n = 0 then w else w AND mask (Suc j - n))"
proof (induction n arbitrary: w j)
  case (Suc n)
  have step: "clear_top w (mask j) (Suc n) = clear_top (w AND mask j) (mask (j - 1)) n"
    using Suc.prems by (simp only: clear_top.simps drop_mask)
  show ?case
  proof (cases n)
    case (Suc n')
    have "w AND mask j AND mask (j - n) = w AND mask (j - n)"
      by (rule bit_word_eqI) (auto simp: bit_and_iff bit_mask_iff)
    then show ?thesis using Suc.IH [of "j - 1" "w AND mask j"] Suc.prems Suc unfolding step by (auto simp: and.assoc)
  qed simp
qed simp

lemma top_mask: "(0x7FFFFFFFFFFFFFFF :: 64 word) = mask 63"
  by (simp add: mask_eq_exp_minus_1)

lemma and_push_bit: "w AND push_bit k 1 \<noteq> (0 :: 64 word) \<longleftrightarrow> bit w k" "push_bit k 1 AND w = (0 :: 64 word) \<longleftrightarrow> \<not> bit w k"
  using and_exp_eq_0_iff_not_bit [of w k] by (simp_all add: and.commute)

lemma push_push: "push_bit 1 (push_bit k 1) = (push_bit (Suc k) 1 :: 64 word)"
  by (simp add: mult.commute)

lemma count_word_card:
  "count_word w (push_bit k 1) n = int (card {j. k \<le> j \<and> j < k + n \<and> bit w j})"
proof (induction n arbitrary: k)
  case (Suc n)
  have "{j. k \<le> j \<and> j < k + Suc n \<and> bit w j} = (if bit w k then {k} else {}) \<union> {j. Suc k \<le> j \<and> j < Suc k + n \<and> bit w j}"
    by (auto simp: le_Suc_eq Suc_le_eq le_less)
  moreover have "card (insert k {j. Suc k \<le> j \<and> j < Suc k + n \<and> bit w j}) = Suc (card {j. Suc k \<le> j \<and> j < Suc k + n \<and> bit w j})"
    by (intro card_insert_disjoint) (auto intro: finite_subset [of _ "{..<Suc k + n}"])
  ultimately show ?case unfolding count_word.simps push_push and_push_bit Suc.IH by simp
qed simp

lemma word_bit_app: "word_bit (ws @ [w]) i \<longleftrightarrow> word_bit ws i \<or> (\<exists>j<64. bit w j \<and> i = 64 * length ws + j)"
proof (cases "i < 64 * length ws")
  case True
  then show ?thesis by (auto simp: word_bit_def nth_append word_index)
next
  case False
  define j where "j = i - 64 * length ws"
  with False have "i = 64 * length ws + j" by simp
  then show ?thesis by (auto simp: word_bit_def nth_append)
qed

lemma word_bit_snoc:
  "{i. word_bit (ws @ [w]) i} = {i. word_bit ws i} \<union> (\<lambda>j. 64 * length ws + j) ` {j. j < 64 \<and> bit w j}"
  by (auto simp: word_bit_app)

lemma finite_word_bit: "finite (Collect (word_bit ws))"
  by (rule finite_subset [of _ "{..<64 * length ws}"]) (auto simp: word_bit_def)

lemma sum_words: "sum_list (map (\<lambda>w. count_word w 1 64) ws) = int (card {i. word_bit ws i})"
proof (induction ws rule: rev_induct)
  case (snoc w ws)
  have "count_word w 1 64 = int (card {j. j < 64 \<and> bit w j})" using count_word_card [of w 0 64] by simp
  moreover have "card {i. word_bit (ws @ [w]) i} = card {i. word_bit ws i} + card {j. j < 64 \<and> bit w j}"
    unfolding word_bit_snoc using finite_word_bit [of ws]
    by (subst card_Un_disjoint) (auto simp: card_image word_bit_def)
  ultimately show ?case using snoc by simp
qed (simp add: word_bit_def)

lemma small_bit_least:
  "\<lbrakk>bit x k; \<forall>i<k. \<not> bit x i; k < n; n \<le> 64\<rbrakk> \<Longrightarrow> small_bit x j n = Some (j + int k)"
proof (induction n arbitrary: x j k)
  case (Suc n)
  have "x AND 1 \<noteq> 0 \<longleftrightarrow> bit x 0" using and_push_bit(1) [of x 0] by simp
  moreover have "bit (signed_drop_bit 1 x) i \<longleftrightarrow> bit x (Suc i)" if "i < 63" for i
    using that by (auto simp: bit_signed_drop_bit_iff)
  ultimately show ?case using Suc.prems Suc.IH [of "signed_drop_bit 1 x" "k - 1" "j + 1"] by (cases k) auto
qed simp

lemma word_bit_Cons: "word_bit (w # ws) (64 + i) = word_bit ws i"
proof -
  have "(64 + i) div 64 = Suc (i div 64)" "(64 + i) mod 64 = i mod 64" by simp_all
  then show ?thesis by (simp add: word_bit_def)
qed

lemma small_word_least:
  "\<lbrakk>word_bit ws k; \<forall>i<k. \<not> word_bit ws i\<rbrakk> \<Longrightarrow> small_word ws j = Some (64 * j + int k)"
proof (induction ws arbitrary: k j)
  case (Cons w ws)
  show ?case
  proof (cases "w = 0")
    case True
    then have "64 \<le> k" using Cons.prems(1) by (auto simp: word_bit_def nth_Cons' div_less intro: leI)
    then obtain l where l: "k = 64 + l" using le_Suc_ex by blast
    have "word_bit ws l" using Cons.prems(1) l word_bit_Cons [of w ws l] by simp
    moreover have "\<not> word_bit ws i" if "i < l" for i using that Cons.prems(2) l word_bit_Cons [of w ws i] by auto
    ultimately show ?thesis using True l Cons.IH [of l "j + 1"] by simp
  next
    case False
    have "\<exists>b. bit w b"
    proof (rule ccontr)
      assume "\<nexists>b. bit w b"
      then have "w = 0" by (intro bit_word_eqI) simp
      with False show False by simp
    qed
    then obtain b where b: "bit w b" by blast
    then have "b < 64" using bit_imp_le_length by fastforce
    with b have "word_bit (w # ws) b" by (simp add: word_bit_def)
    then have "k < 64" using Cons.prems(2) \<open>b < 64\<close> by (meson not_less order_le_less_trans)
    then have "bit w k" "\<forall>i<k. \<not> bit w i" using Cons.prems by (auto simp: word_bit_def)
    with False \<open>k < 64\<close> small_bit_least [of w k 64 "64 * j"] show ?thesis by simp
  qed
qed (simp add: word_bit_def)

lemma all_ones_iff: "all_ones w (push_bit k 1) n \<longleftrightarrow> (\<forall>j. k \<le> j \<and> j < k + n \<longrightarrow> bit w j)"
proof (induction n arbitrary: k)
  case (Suc n)
  have "k \<le> j \<and> j < k + Suc n \<longleftrightarrow> j = k \<or> (Suc k \<le> j \<and> j < Suc k + n)" for j by arith
  then have "(\<forall>j. k \<le> j \<and> j < k + Suc n \<longrightarrow> bit w j) \<longleftrightarrow> bit w k \<and> (\<forall>j. Suc k \<le> j \<and> j < Suc k + n \<longrightarrow> bit w j)"
    by metis
  then show ?case unfolding all_ones.simps push_push and_push_bit Suc.IH by simp
qed auto

text \<open>The words but the last are full, and the last one reaches up to the size.\<close>

lemma split_last_word:
  assumes "length ws = (n + 63) div 64" "\<not> 64 dvd n"
  obtains us w where "ws = us @ [w]" "64 * length us + n mod 64 = n" "length us = n div 64"
proof -
  have l: "(n + 63) div 64 = Suc (n div 64)"
    using assms(2) by (subst div_add1_eq) (auto simp: dvd_eq_mod_eq_0 intro!: div_nat_eqI)
  with assms(1) obtain us w where "ws = us @ [w]" by (cases ws rule: rev_cases) auto
  with l assms(1) that [of us w] show thesis by simp
qed

lemma word_bit_last:
  assumes "64 * length us + r = n" "r < 64" "i < n"
  shows "word_bit (us @ [w]) i = (if i < 64 * length us then word_bit us i else bit w (i - 64 * length us))"
proof (cases "i < 64 * length us")
  case True
  then have "i div 64 < length us" by (simp add: word_index)
  then show ?thesis using True by (simp add: word_bit_def nth_append)
next
  case False
  then obtain j where "i = 64 * length us + j" using le_Suc_ex not_less by blast
  then show ?thesis using assms by (simp add: word_bit_def nth_append)
qed

lemma os_rep_trim:
  assumes "0 < n" "st_nSize s = int n" "length (st_nArray s) = (n + 63) div 64"
  shows "os_rep (os_trim s) n {i. i < n \<and> word_bit (st_nArray s) i}"
proof (cases "64 dvd n")
  case True
  then have "os_trim s = s" using assms(2) by (simp add: os_trim_def int64 dvd_eq_mod_eq_0)
  moreover have "64 * length (st_nArray s) = n"
    using True assms(3) by (auto elim!: dvdE)
  ultimately show ?thesis using assms by (auto simp: os_rep_def word_bit_def)
next
  case False
  from split_last_word [OF assms(3) False] obtain us w where
    u: "st_nArray s = us @ [w]" "64 * length us + n mod 64 = n" "length us = n div 64" by blast
  let ?v = "w AND mask (n mod 64)"
  have r: "0 < n mod 64" "n mod 64 < 64" using False by (simp_all add: dvd_eq_mod_eq_0)
  have "clear_top w (mask 63) (64 - n mod 64) = ?v" using clear_top_mask [of "64 - n mod 64" 63 w] r by simp
  moreover have "nat (64 - int (n mod 64)) = 64 - n mod 64" by (simp add: nat_diff_distrib')
  ultimately have t: "os_trim s = s\<lparr>st_nArray := us @ [?v]\<rparr>"
    using r assms(2) u(1) by (simp add: os_trim_def int64 top_mask)
  have "word_bit (us @ [?v]) i \<longleftrightarrow> i < n \<and> word_bit (us @ [w]) i" for i
  proof (cases "i < n")
    case True
    then have "i - 64 * length us < n mod 64 \<or> i < 64 * length us" using u(2) by linarith
    then show ?thesis using True word_bit_last [OF u(2) r(2) True] by (auto simp: bit_and_iff bit_mask_iff)
  next
    case False
    then show ?thesis using u(2) by (auto simp: word_bit_app bit_and_iff bit_mask_iff) (auto simp: word_bit_def)
  qed
  with t assms u show ?thesis by (auto simp: os_rep_def)
qed

lemma all_minus_one: "list_all (\<lambda>w :: 64 word. w = - 1) us \<longleftrightarrow> (\<forall>i < 64 * length us. word_bit us i)"
proof
  assume "list_all (\<lambda>w. w = - 1) us"
  then show "\<forall>i < 64 * length us. word_bit us i" by (auto simp: word_bit_def list_all_length word_index)
next
  assume a: "\<forall>i < 64 * length us. word_bit us i"
  have "us ! k = - 1" if "k < length us" for k
  proof (rule bit_word_eqI)
    fix j :: nat assume "j < LENGTH(64)"
    then show "bit (us ! k) j = bit (- 1 :: 64 word) j"
      using a [rule_format, of "64 * k + j"] that by (simp add: word_bit_def word_index)
  qed
  then show "list_all (\<lambda>w. w = - 1) us" by (simp add: list_all_length)
qed

lemma os_rep_isBroadcast:
  assumes "os_rep s n A"
  shows "os_isBroadcast s \<longleftrightarrow> A = {..<n}"
proof (cases "64 dvd n")
  case True
  then have "64 * length (st_nArray s) = n" using os_repD(4) [OF assms] by (auto elim!: dvdE)
  then show ?thesis
    using True os_repD(2,5,6) [OF assms] all_minus_one [of "st_nArray s"] by (auto simp: os_isBroadcast_def int64 dvd_eq_mod_eq_0)
next
  case False
  from split_last_word [OF os_repD(4) [OF assms] False] obtain us w where
    u: "st_nArray s = us @ [w]" "64 * length us + n mod 64 = n" "length us = n div 64" by blast
  have "os_isBroadcast s \<longleftrightarrow> (\<forall>i < 64 * length us. word_bit us i) \<and> (\<forall>j < n mod 64. bit w j)"
    using False os_repD(2) [OF assms] all_ones_iff [of w 0 "n mod 64"] u(1)
    by (simp add: os_isBroadcast_def int64 all_minus_one dvd_eq_mod_eq_0)
  also have "\<dots> \<longleftrightarrow> (\<forall>i < n. word_bit (us @ [w]) i)"
  proof -
    have "word_bit (us @ [w]) (64 * length us + j) \<longleftrightarrow> bit w j" if "j < n mod 64" for j
      using word_bit_last [OF u(2) mod_less_divisor, of "64 * length us + j" w] that u(2) by simp
    moreover have "i < 64 * length us \<or> (\<exists>j < n mod 64. i = 64 * length us + j)" if "i < n" for i
      using that u(2) by (metis add_diff_inverse_nat nat_add_left_cancel_less)
    moreover have "word_bit (us @ [w]) i \<longleftrightarrow> word_bit us i" if "i < 64 * length us" for i
      using word_bit_last [OF u(2) mod_less_divisor, of i w] that u(2) by simp
    ultimately show ?thesis using u(2) by (metis add_strict_left_mono trans_less_add1)
  qed
  finally show ?thesis using os_repD(5,6) [OF assms] u(1) by auto
qed

subsection \<open>The three implementations\<close>

lemma os_rep_new: "0 < n \<Longrightarrow> os_rep (os_setSize (int n)) n {}"
  by (simp add: os_rep_def os_setSize_def os_clear_def os_words_eq word_bit_def)

lemma os_rep_add:
  "os_rep s n A \<Longrightarrow> i < n \<Longrightarrow> os_add s (int i) = Some (os_put s (int i div 64) (st_nArray s ! (i div 64) OR os_bit (int i)))
     \<and> os_rep (os_put s (int i div 64) (st_nArray s ! (i div 64) OR os_bit (int i))) n (insert i A)"
  using os_rep_put [of s n A i "st_nArray s ! (i div 64) OR os_bit (int i)" True]
  by (auto simp: os_add_def os_word_at bit_or_iff os_bit_at)

lemma os_rep_remove:
  "os_rep s n A \<Longrightarrow> i < n \<Longrightarrow> os_remove s (int i) = Some (os_put s (int i div 64) (st_nArray s ! (i div 64) AND NOT (os_bit (int i))))
     \<and> os_rep (os_put s (int i div 64) (st_nArray s ! (i div 64) AND NOT (os_bit (int i)))) n (A - {i})"
  using os_rep_put [of s n A i "st_nArray s ! (i div 64) AND NOT (os_bit (int i))" False]
  by (auto simp: os_remove_def os_word_at bit_and_iff bit_not_iff os_bit_at)

lemma os_rep_clear: "os_rep s n A \<Longrightarrow> os_rep (os_clear s) n {}"
  by (auto simp: os_rep_def os_clear_def word_bit_zero)

lemma os_rep_broadcast:
  assumes "os_rep s n A"
  shows "os_rep (os_broadcast s) n {..<n}"
proof -
  have "{i. i < n \<and> word_bit (map (\<lambda>_. - 1) (st_nArray s)) i} = {..<n}"
    using os_repD(3) [OF assms] by (auto simp: word_bit_def word_index less_le_trans)
  moreover have "os_rep (os_broadcast s) n {i. i < n \<and> word_bit (map (\<lambda>_. - 1) (st_nArray s)) i}"
    using os_rep_trim [of n "s\<lparr>st_nArray := map (\<lambda>_. - 1) (st_nArray s)\<rparr>"] os_repD(1,2,4) [OF assms]
    by (simp add: os_broadcast_def)
  ultimately show ?thesis by simp
qed

lemma os_rep_addRandom:
  assumes "os_rep s n A" "length rs = length (st_nArray s)"
  shows "\<exists>B. os_rep (os_addRandom rs s) n B \<and> A \<subseteq> B"
proof -
  let ?w = "map2 (\<lambda>w (a, b). w OR (a XOR push_bit 4 b)) (st_nArray s) rs"
  have "word_bit ?w i" if "i \<in> A" for i
    using that assms(2) os_repD(6) [OF assms(1), of i] by (auto simp: word_bit_def word_index bit_or_iff split_beta)
  moreover have "os_rep (os_addRandom rs s) n {i. i < n \<and> word_bit ?w i}"
    using os_rep_trim [of n "s\<lparr>st_nArray := ?w\<rparr>"] os_repD(1,2,4) [OF assms(1)] assms(2) by (simp add: os_addRandom_def)
  ultimately show ?thesis using os_repD(5) [OF assms(1)] by blast
qed

lemma os_rep_addSet:
  assumes "os_rep s n A" "os_rep t n B"
  shows "\<exists>s'. os_addSet s t = Some s' \<and> os_rep s' n (A \<union> B)"
  using os_rep_map2 [OF assms, of "(OR)" "(\<or>)"] os_repD(2) [OF assms(1)] os_repD(2) [OF assms(2)]
  by (simp add: os_addSet_def bit_or_iff Un_def)

lemma os_rep_removeSet:
  assumes "os_rep s n A" "os_rep t n B"
  shows "\<exists>s'. os_removeSet s t = Some s' \<and> os_rep s' n (A - B)"
  using os_rep_map2 [OF assms, of "\<lambda>a b. a AND NOT b" "\<lambda>a b. a \<and> \<not> b"] os_repD(2) [OF assms(1)] os_repD(2) [OF assms(2)]
  by (simp add: os_removeSet_def bit_and_iff bit_not_iff set_diff_eq)

lemma os_fresh: "st_nSize s = n \<Longrightarrow> (os_setSize n)\<lparr>st_nArray := ws\<rparr> = s\<lparr>st_nArray := ws\<rparr>"
  by (simp add: os_setSize_def os_clear_def)

lemma os_rep_OR:
  assumes "os_rep s n A" "os_rep t n B"
  shows "\<exists>s'. os_OR s t = Some s' \<and> os_rep s' n (A \<union> B)"
  using os_rep_map2 [OF assms, of "(OR)" "(\<or>)"] os_repD(1,2) [OF assms(1)] os_repD(2) [OF assms(2)] os_fresh [OF os_repD(2) [OF assms(1)]]
  by (simp add: os_OR_def os_new_def bit_or_iff Un_def)

lemma os_rep_AND:
  assumes "os_rep s n A" "os_rep t n B"
  shows "\<exists>s'. os_AND s t = Some s' \<and> os_rep s' n (A \<inter> B)"
  using os_rep_map2 [OF assms, of "(AND)" "(\<and>)"] os_repD(1,2) [OF assms(1)] os_repD(2) [OF assms(2)] os_fresh [OF os_repD(2) [OF assms(1)]]
  by (simp add: os_AND_def os_new_def bit_and_iff Int_def)

lemma os_rep_count: "os_rep s n A \<Longrightarrow> os_count s = int (card A)"
  using os_repD(6) [of s n A] by (simp add: os_count_def sum_words)

lemma os_rep_isElement: "os_rep s n A \<Longrightarrow> i < n \<Longrightarrow> os_isElement s (int i) = Some (i \<in> A)"
proof -
  assume a: "os_rep s n A" "i < n"
  have "w AND os_bit (int i) \<noteq> 0 \<longleftrightarrow> bit w (i mod 64)" for w using and_push_bit(1) [of w "i mod 64"] by (simp add: os_bit_def int64)
  with a os_repD(6,7) [OF a(1), of i] show ?thesis by (simp add: os_isElement_def os_word_at word_bit_def word_index)
qed

lemma word_bit_empty: "list_all (\<lambda>w. w = 0) ws \<longleftrightarrow> (\<forall>i. \<not> word_bit ws i)"
proof
  assume a: "\<forall>i. \<not> word_bit ws i"
  have "ws ! k = 0" if "k < length ws" for k
  proof (rule bit_word_eqI)
    fix j :: nat assume "j < LENGTH(64)"
    then show "bit (ws ! k) j = bit (0 :: 64 word) j"
      using a [rule_format, of "64 * k + j"] that by (simp add: word_bit_def word_index)
  qed
  then show "list_all (\<lambda>w. w = 0) ws" by (simp add: list_all_length)
qed (auto simp: word_bit_def list_all_length word_index)

lemma os_rep_isEmpty: "os_rep s n A \<Longrightarrow> os_isEmpty s \<longleftrightarrow> A = {}"
  using os_repD(6) [of s n A] by (auto simp: os_isEmpty_def word_bit_empty)

text \<open>A comparison of two sets word by word is the emptiness of a combination.\<close>

lemma os_rep_words:
  fixes f :: "64 word \<Rightarrow> 64 word \<Rightarrow> 64 word"
  assumes "os_rep s n A" "os_rep t n B" "\<And>a b k. k < 64 \<Longrightarrow> bit (f a b) k = g (bit a k) (bit b k)" "\<not> g False False"
  shows "list_all (\<lambda>(a, b). f a b = 0) (zip (st_nArray s) (st_nArray t)) \<longleftrightarrow> (\<forall>i. \<not> g (i \<in> A) (i \<in> B))"
proof -
  have "list_all (\<lambda>(a, b). f a b = 0) (zip us ws) = list_all (\<lambda>w. w = 0) (map2 f us ws)" for us ws :: "64 word list"
    by (simp add: list_all_iff split_beta)
  then show ?thesis
    using word_bit_map2 [where f = f and g = g, OF conjunct2 [OF os_rep_size [OF assms(1,2)]] assms(3,4)]
      os_repD(6) [OF assms(1)] os_repD(6) [OF assms(2)] by (simp add: word_bit_empty)
qed

lemma os_rep_isEqual:
  assumes "os_rep s n A" "os_rep t n B"
  shows "os_isEqual s t = Some (A = B)"
proof -
  have "a XOR b = 0 \<longleftrightarrow> a = b" for a b :: "64 word" by (auto simp: bit_eq_iff bit_simps)
  then have "list_all (\<lambda>(a, b). a = b) (zip (st_nArray s) (st_nArray t)) \<longleftrightarrow> A = B"
    using os_rep_words [OF assms, of "(XOR)" "(\<noteq>)"] by (auto simp: bit_xor_iff)
  then show ?thesis using os_repD(2) [OF assms(1)] os_repD(2) [OF assms(2)] by (simp add: os_isEqual_def)
qed

lemma os_rep_isSuperset:
  assumes "os_rep s n A" "os_rep t n B"
  shows "os_isSuperset s t = Some (B \<subseteq> A)"
proof -
  have "(b AND a) OR NOT b = - 1 \<longleftrightarrow> b AND NOT a = 0" for a b :: "64 word"
    by (auto simp: bit_eq_iff bit_simps)
  then have "list_all (\<lambda>(a, b). (b AND a) OR NOT b = - 1) (zip (st_nArray s) (st_nArray t)) \<longleftrightarrow> B \<subseteq> A"
    using os_rep_words [OF assms, of "\<lambda>a b. b AND NOT a" "\<lambda>a b. b \<and> \<not> a"] by (auto simp: bit_and_iff bit_not_iff)
  then show ?thesis using os_repD(2) [OF assms(1)] os_repD(2) [OF assms(2)] by (simp add: os_isSuperset_def)
qed

lemma os_rep_meets: "os_rep s n A \<Longrightarrow> os_rep t n B \<Longrightarrow> os_intersectionIsNotEmpty s t \<longleftrightarrow> A \<inter> B \<noteq> {}"
  using os_rep_words [of s n A t B "(AND)" "(\<and>)"]
  by (auto simp: os_intersectionIsNotEmpty_def bit_and_iff list_ex_iff list_all_iff)

lemma os_intersection: "os_intersectionIsEmpty s t \<longleftrightarrow> \<not> os_intersectionIsNotEmpty s t"
  by (auto simp: os_intersectionIsNotEmpty_def os_intersectionIsEmpty_def list_ex_iff list_all_iff)

lemma os_rep_smallest:
  assumes "os_rep s n A" "A \<noteq> {}"
  shows "os_smallestElement s = Some (int (Min A))"
proof -
  have f: "finite A" using os_repD(5) [OF assms(1)] finite_subset by blast
  then have "small_word (st_nArray s) 0 = Some (int (Min A))"
    using small_word_least [of "st_nArray s" "Min A" 0] os_repD(6) [OF assms(1)] assms(2) by (force simp: not_le)
  then show ?thesis using f assms by (simp add: os_smallestElement_def os_rep_count card_gt_0_iff)
qed

interpretation os: node_set os_class os_rep "\<lambda>n. 0 < n"
proof (unfold_locales, goal_cases)
  case (1 n) then show ?case using os_rep_new [of n] by (simp add: os_class_def os_new_def)
qed (auto simp: os_class_def os_rep_add os_rep_remove os_rep_clear os_rep_broadcast os_rep_addSet os_rep_removeSet os_rep_OR os_rep_AND
  os_rep_count os_rep_isElement os_rep_isEmpty os_rep_isBroadcast os_rep_isEqual os_rep_isSuperset os_rep_meets os_rep_smallest)

subsubsection \<open>One word\<close>

definition ss_rep :: "SmallSet \<Rightarrow> nat \<Rightarrow> nat set \<Rightarrow> bool" where
  "ss_rep s n A = (0 < n \<and> n < 32 \<and> ss_size s = int n \<and> ss_mask s = mask n \<and> A \<subseteq> {..<n}
     \<and> (\<forall>i<32. bit (ss_bits s) i \<longleftrightarrow> i \<in> A))"

lemma ss_repD:
  assumes "ss_rep s n A"
  shows "0 < n" "n < 32" "ss_size s = int n" "ss_mask s = mask n" "A \<subseteq> {..<n}" "i < 32 \<Longrightarrow> bit (ss_bits s) i \<longleftrightarrow> i \<in> A"
  using assms by (simp_all add: ss_rep_def)

lemma ss_rep_checked: "ss_rep s n A \<Longrightarrow> ss_checked s = Some s"
proof -
  assume a: "ss_rep s n A"
  have "ss_bits s AND ss_mask s = ss_bits s"
    by (rule bit_word_eqI) (use ss_repD [OF a] in \<open>auto simp: bit_and_iff bit_mask_iff\<close>)
  then show ?thesis by (simp add: ss_checked_def)
qed

lemma bit32_at: "i < 32 \<Longrightarrow> bit32 (int i) = Some (push_bit i 1)"
  by (simp add: bit32_def)

lemma bit_push_one: "bit (push_bit i 1 :: 32 word) j \<longleftrightarrow> j < 32 \<and> j = i"
  by (auto simp: bit_exp_iff)

lemma ss_rep_bits:
  assumes "ss_rep s n A" "B \<subseteq> {..<n}" "\<And>i. i < 32 \<Longrightarrow> bit w i \<longleftrightarrow> i \<in> B"
  shows "ss_checked (s\<lparr>ss_bits := w\<rparr>) = Some (s\<lparr>ss_bits := w\<rparr>) \<and> ss_rep (s\<lparr>ss_bits := w\<rparr>) n B"
proof -
  have "ss_rep (s\<lparr>ss_bits := w\<rparr>) n B" using assms by (simp add: ss_rep_def)
  then show ?thesis using ss_rep_checked by blast
qed

lemma ss_rep_new:
  assumes "0 < n" "n < 32"
  shows "\<exists>s. ss_setSize (int n) = Some s \<and> ss_rep s n {}"
proof -
  have m: "NOT (push_bit n (- 1)) = (mask n :: 32 word)" by (simp add: mask_eq_exp_minus_1 not_eq_complement push_bit_of_1 push_bit_minus_one)
  have "bit (mask n :: 32 word) 0" using assms by (simp add: bit_mask_iff)
  then have "(mask n :: 32 word) \<noteq> 0" by fastforce
  then show ?thesis using assms by (simp add: ss_setSize_def m ss_checked_def ss_rep_def Let_def)
qed

lemma ss_rep_add:
  assumes "ss_rep s n A" "i < n"
  shows "\<exists>s'. ss_add s (int i) = Some s' \<and> ss_rep s' n (insert i A)"
  using ss_rep_bits [OF assms(1), of "insert i A" "ss_bits s OR push_bit i 1"] ss_repD [OF assms(1)] assms
  by (simp add: ss_add_def ss_rep_checked [OF assms(1)] bit32_at bit_or_iff bit_push_one insert_subset disj_commute del: push_bit_of_1)

lemma ss_rep_remove:
  assumes "ss_rep s n A" "i < n"
  shows "\<exists>s'. ss_remove s (int i) = Some s' \<and> ss_rep s' n (A - {i})"
  using ss_rep_bits [OF assms(1), of "A - {i}" "ss_bits s AND NOT (push_bit i 1)"] ss_repD [OF assms(1)] assms
  by (auto simp: ss_remove_def bit32_at bit_and_iff bit_not_iff bit_push_one simp del: push_bit_of_1)

lemma ss_rep_combine:
  assumes "ss_rep s n A" "ss_rep t n B" "\<And>i. i < 32 \<Longrightarrow> bit w i \<longleftrightarrow> g (bit (ss_bits s) i) (bit (ss_bits t) i)" "\<not> g False False"
  shows "ss_checked (s\<lparr>ss_bits := w\<rparr>) = Some (s\<lparr>ss_bits := w\<rparr>) \<and> ss_rep (s\<lparr>ss_bits := w\<rparr>) n {i. g (i \<in> A) (i \<in> B)}"
proof (rule ss_rep_bits [OF assms(1)])
  have "{i. g (i \<in> A) (i \<in> B)} \<subseteq> A \<union> B" using assms(4) by auto (metis (full_types))
  then show "{i. g (i \<in> A) (i \<in> B)} \<subseteq> {..<n}" using ss_repD(5) [OF assms(1)] ss_repD(5) [OF assms(2)] by blast
qed (use assms ss_repD(6) [OF assms(1)] ss_repD(6) [OF assms(2)] in simp)

lemma ss_rep_addSet:
  assumes "ss_rep s n A" "ss_rep t n B"
  shows "\<exists>s'. ss_addSet s t = Some s' \<and> ss_rep s' n (A \<union> B)"
  using ss_rep_combine [OF assms, of "ss_bits s OR ss_bits t" "(\<or>)"] ss_repD(3) [OF assms(1)] ss_repD(3) [OF assms(2)]
  by (simp add: ss_addSet_def bit_or_iff Un_def)

lemma ss_rep_removeSet:
  assumes "ss_rep s n A" "ss_rep t n B"
  shows "\<exists>s'. ss_removeSet s t = Some s' \<and> ss_rep s' n (A - B)"
  using ss_rep_combine [OF assms, of "ss_bits s AND NOT (ss_bits t)" "\<lambda>a b. a \<and> \<not> b"] ss_repD(3) [OF assms(1)] ss_repD(3) [OF assms(2)]
  by (simp add: ss_removeSet_def bit_and_iff bit_not_iff set_diff_eq)

lemma ss_fresh: "ss_rep s n A \<Longrightarrow> ss_setSize (int n) = Some r \<Longrightarrow> r\<lparr>ss_bits := w\<rparr> = s\<lparr>ss_bits := w\<rparr>"
  using ss_rep_new [of n] by (cases s; cases r) (simp add: ss_rep_def)

lemma ss_rep_OR:
  assumes "ss_rep s n A" "ss_rep t n B"
  shows "\<exists>s'. ss_OR s t = Some s' \<and> ss_rep s' n (A \<union> B)"
proof -
  obtain r where "ss_setSize (int n) = Some r" using ss_rep_new ss_repD(1,2) [OF assms(1)] by blast
  with ss_rep_combine [OF assms, of "ss_bits s OR ss_bits t" "(\<or>)"] ss_repD(3) [OF assms(1)] ss_repD(3) [OF assms(2)] ss_fresh [OF assms(1)]
  show ?thesis by (simp add: ss_OR_def bit_or_iff Un_def)
qed

lemma ss_rep_AND:
  assumes "ss_rep s n A" "ss_rep t n B"
  shows "\<exists>s'. ss_AND s t = Some s' \<and> ss_rep s' n (A \<inter> B)"
proof -
  obtain r where "ss_setSize (int n) = Some r" using ss_rep_new ss_repD(1,2) [OF assms(1)] by blast
  with ss_rep_combine [OF assms, of "ss_bits s AND ss_bits t" "(\<and>)"] ss_repD(3) [OF assms(1)] ss_repD(3) [OF assms(2)] ss_fresh [OF assms(1)]
  show ?thesis by (simp add: ss_AND_def bit_and_iff Int_def)
qed

lemma ss_rep_isElement: "ss_rep s n A \<Longrightarrow> i < n \<Longrightarrow> ss_isElement s (int i) = Some (i \<in> A)"
  using and_exp_eq_0_iff_not_bit [of "ss_bits s" i] ss_repD(2,6) [of s n A] by (simp add: ss_isElement_def bit32_at)

lemma ss_count_upto:
  "ss_rep s n A \<Longrightarrow> i + k \<le> n \<Longrightarrow> ss_count_loop s (int i) k = Some (int (card {j \<in> A. i \<le> j \<and> j < i + k}))"
proof (induction k arbitrary: i)
  case (Suc k)
  have "{j \<in> A. i \<le> j \<and> j < i + Suc k} = (if i \<in> A then {i} else {}) \<union> {j \<in> A. Suc i \<le> j \<and> j < Suc i + k}"
    by (auto simp: Suc_le_eq le_less)
  moreover have "card (insert i {j \<in> A. Suc i \<le> j \<and> j < Suc i + k}) = Suc (card {j \<in> A. Suc i \<le> j \<and> j < Suc i + k})"
    by (intro card_insert_disjoint) (auto intro: finite_subset [of _ "{..<Suc i + k}"])
  ultimately show ?case using Suc.IH [of "Suc i"] Suc.prems ss_rep_isElement [of s n A i] by (simp add: add.commute)
qed simp

lemma ss_rep_count: "ss_rep s n A \<Longrightarrow> ss_count s = Some (int (card A))"
proof -
  assume a: "ss_rep s n A"
  have "{j \<in> A. 0 \<le> j \<and> j < 0 + n} = A" using ss_repD(5) [OF a] by auto
  with ss_count_upto [OF a, of 0 n] show ?thesis by (simp add: ss_count_def ss_repD(3) [OF a])
qed

lemma ss_element_least:
  "\<lbrakk>ss_rep s n A; i + k \<le> n; m \<in> A; i \<le> m; m < i + k; \<forall>j\<in>A. i \<le> j \<longrightarrow> m \<le> j\<rbrakk> \<Longrightarrow> ss_element_loop s (int i) k 0 = Some (int m)"
proof (induction k arbitrary: i)
  case (Suc k)
  have "i \<in> A \<Longrightarrow> m = i" using Suc.prems by fastforce
  moreover have "i \<notin> A \<Longrightarrow> Suc i \<le> m" using Suc.prems by (metis Suc_leI le_neq_implies_less)
  ultimately show ?case using Suc.IH [of "Suc i"] Suc.prems ss_rep_isElement [of s n A i] by (auto simp: add.commute)
qed simp

lemma ss_rep_smallest:
  assumes "ss_rep s n A" "A \<noteq> {}"
  shows "ss_smallestElement s = Some (int (Min A))"
proof -
  have f: "finite A" using ss_repD(5) [OF assms(1)] finite_subset by blast
  then have "Min A \<in> A" using assms(2) by simp
  then have "Min A < n" using ss_repD(5) [OF assms(1)] by blast
  then have "ss_element_loop s 0 n 0 = Some (int (Min A))"
    using ss_element_least [OF assms(1), of 0 n "Min A"] f assms(2) by simp
  then show ?thesis using f assms by (simp add: ss_smallestElement_def ss_rep_count ss_repD(3) [OF assms(1)] card_gt_0_iff)
qed

lemma ss_rep_clear: "ss_rep s n A \<Longrightarrow> ss_rep (ss_clear s) n {}"
  by (simp add: ss_rep_def ss_clear_def)

lemma ss_rep_broadcast: "ss_rep s n A \<Longrightarrow> ss_rep (ss_broadcast s) n {..<n}"
  by (auto simp: ss_rep_def ss_broadcast_def bit_mask_iff)

lemma ss_rep_eqI:
  assumes "ss_rep s n A" "\<And>i. i < 32 \<Longrightarrow> bit w i \<longleftrightarrow> i \<in> B" "B \<subseteq> {..<n}"
  shows "ss_bits s = w \<longleftrightarrow> A = B"
proof -
  have "ss_bits s = w \<longleftrightarrow> (\<forall>i<32. i \<in> A \<longleftrightarrow> i \<in> B)" using assms(2) ss_repD(6) [OF assms(1)] by (auto simp: bit_eq_iff bit_imp_le_length)
  also have "\<dots> \<longleftrightarrow> A = B" using ss_repD(2,5) [OF assms(1)] assms(3) by (auto dest: subsetD)
  finally show ?thesis .
qed

lemma ss_rep_zero:
  fixes w :: "32 word"
  assumes "ss_rep s n A" "ss_rep t n B" "\<And>i. i < 32 \<Longrightarrow> bit w i \<longleftrightarrow> g (bit (ss_bits s) i) (bit (ss_bits t) i)" "\<not> g False False"
  shows "w = 0 \<longleftrightarrow> (\<forall>i. \<not> g (i \<in> A) (i \<in> B))"
proof -
  have "ss_rep (s\<lparr>ss_bits := w\<rparr>) n {i. g (i \<in> A) (i \<in> B)}" using ss_rep_combine [OF assms] by simp
  from ss_rep_eqI [OF this, of 0 "{}"] show ?thesis by simp
qed

interpretation ss: node_set ss_class ss_rep "\<lambda>n. 0 < n \<and> n < 32"
proof (unfold_locales, goal_cases)
  case (13 s n A) then show ?case using ss_rep_eqI [of s n A "mask n" "{..<n}"] ss_repD [of s n A]
    by (auto simp: ss_class_def ss_isBroadcast_def ss_rep_checked bit_mask_iff)
next
  case (12 s n A) then show ?case using ss_rep_eqI [of s n A 0 "{}"] by (simp add: ss_class_def ss_isEmpty_def ss_rep_checked)
next
  case (14 s n A t B) then show ?case using ss_rep_eqI [of s n A "ss_bits t" B] ss_repD(5,6) [of t n B] by (simp add: ss_class_def ss_isEqual_def)
next
  case (15 s n A t B) then show ?case
    using ss_rep_zero [of s n A t B "ss_bits t AND NOT (ss_bits s)" "\<lambda>a b. b \<and> \<not> a"] ss_repD(3) [of s n A] ss_repD(3) [of t n B]
    by (auto simp: ss_class_def ss_isSuperset_def bit_and_iff bit_not_iff)
next
  case (16 s n A t B) then show ?case
    using ss_rep_zero [of s n A t B "ss_bits s AND ss_bits t" "(\<and>)"] ss_repD(3) [of s n A] ss_repD(3) [of t n B]
    by (auto simp: ss_class_def ss_intersectionIsNotEmpty_def bit_and_iff)
qed (auto simp: ss_class_def ss_rep_new ss_rep_add ss_rep_remove ss_rep_clear ss_rep_broadcast ss_rep_addSet ss_rep_removeSet ss_rep_OR
  ss_rep_AND ss_rep_count ss_rep_isElement ss_rep_smallest)

subsubsection \<open>A vector of flags\<close>

lemma for_loop_inv:
  "\<lbrakk>\<And>i s. \<lbrakk>k \<le> i; i < k + m; I i s\<rbrakk> \<Longrightarrow> \<exists>s'. f (int i) s = Some s' \<and> I (Suc i) s'; I k s\<rbrakk>
    \<Longrightarrow> \<exists>s'. for_loop f (int k) m s = Some s' \<and> I (k + m) s'"
proof (induction m arbitrary: k s)
  case (Suc m)
  from Suc.prems(1) [of k s] Suc.prems(2) obtain s1 where s1: "f (int k) s = Some s1" "I (Suc k) s1" by auto
  with Suc.IH [of "Suc k" s1] Suc.prems(1) show ?case by (simp add: add.commute)
qed simp

lemma all_loop_eq:
  "(\<And>i. \<lbrakk>k \<le> i; i < k + m\<rbrakk> \<Longrightarrow> f (int i) = Some (p i)) \<Longrightarrow> all_loop f (int k) m = Some (\<forall>i. k \<le> i \<and> i < k + m \<longrightarrow> p i)"
proof (induction m arbitrary: k)
  case (Suc m)
  have "(\<forall>i. k \<le> i \<and> i < k + Suc m \<longrightarrow> p i) \<longleftrightarrow> p k \<and> (\<forall>i. Suc k \<le> i \<and> i < Suc k + m \<longrightarrow> p i)"
  proof -
    have "k \<le> i \<and> i < k + Suc m \<longleftrightarrow> i = k \<or> (Suc k \<le> i \<and> i < Suc k + m)" for i by arith
    then show ?thesis by metis
  qed
  moreover have "all_loop f (int (Suc k)) m = Some (\<forall>i. Suc k \<le> i \<and> i < Suc k + m \<longrightarrow> p i)"
    using Suc.IH [of "Suc k"] Suc.prems by simp
  ultimately show ?case using Suc.prems [of k] by (simp add: add.commute)
qed auto

lemma find_loop_least:
  "\<lbrakk>\<And>i. \<lbrakk>k \<le> i; i < k + m\<rbrakk> \<Longrightarrow> f (int i) = Some (p i); p j; k \<le> j; j < k + m; \<And>i. \<lbrakk>k \<le> i; p i\<rbrakk> \<Longrightarrow> j \<le> i\<rbrakk>
    \<Longrightarrow> find_loop f (int k) m = Some (int j)"
proof (induction m arbitrary: k)
  case (Suc m)
  show ?case
  proof (cases "p k")
    case True
    with Suc.prems(3) Suc.prems(5) [of k] have "j = k" by simp
    with True Suc.prems(1) [of k] show ?thesis by simp
  next
    case False
    with Suc.prems(2,3) have "Suc k \<le> j" by (metis Suc_leI le_neq_implies_less)
    moreover have "f (int k) = Some (p k)" using Suc.prems(1) [of k] by simp
    ultimately show ?thesis using False Suc.IH [of "Suc k"] Suc.prems by (simp add: add.commute)
  qed
qed simp

definition bs_rep :: "BigSet \<Rightarrow> nat \<Rightarrow> nat set \<Rightarrow> bool" where
  "bs_rep v n A = (vec_inv v \<and> v_size v = int n \<and> A \<subseteq> {..<n} \<and> (\<forall>i<n. vec_list v ! i \<longleftrightarrow> i \<in> A))"

lemma bs_rep_ref: "bs_rep v n A \<Longrightarrow> i < n \<Longrightarrow> vec_ref v (int i) = Some (i \<in> A)"
  by (simp add: bs_rep_def vec_ref_eq)

lemma bs_rep_set:
  assumes "bs_rep v n A" "i < n"
  shows "\<exists>v'. vec_set v (int i) b = Some v' \<and> bs_rep v' n (if b then insert i A else A - {i})"
proof -
  have "vec_inv v" "0 \<le> int i" "int i < v_size v" using assms by (simp_all add: bs_rep_def)
  from vec_set_Some [OF this, of b] obtain v' where
    "vec_set v (int i) b = Some v'" "vec_inv v'" "vec_list v' = (vec_list v)[i := b]" "v_size v' = v_size v" by (metis nat_int)
  then show ?thesis using assms by (auto simp: bs_rep_def nth_list_update)
qed

lemma bs_rep_size: "bs_rep v n A \<Longrightarrow> v_size v = int n"
  by (simp add: bs_rep_def)

lemma bs_rep_sub: "bs_rep v n A \<Longrightarrow> A \<subseteq> {..<n}"
  by (simp add: bs_rep_def)

text \<open>A loop over the nodes that sets flag \<open>i\<close> to \<open>g i\<close> in step \<open>i\<close>.\<close>

lemma bs_rep_loop:
  assumes "bs_rep v n A"
    "\<And>i v B. \<lbrakk>i < n; bs_rep v n B; i \<in> B \<longleftrightarrow> i \<in> A\<rbrakk> \<Longrightarrow> \<exists>v'. f (int i) v = Some v' \<and> bs_rep v' n (if g i then insert i B else B - {i})"
  shows "\<exists>v'. for_loop f 0 n v = Some v' \<and> bs_rep v' n {j. j < n \<and> g j}"
proof -
  let ?I = "\<lambda>i v. bs_rep v n {j. j < n \<and> (if j < i then g j else j \<in> A)}"
  have "\<exists>v'. f (int i) v = Some v' \<and> ?I (Suc i) v'" if "i < n" "?I i v" for i v
  proof -
    have "(if g i then insert i {j. j < n \<and> (if j < i then g j else j \<in> A)} else {j. j < n \<and> (if j < i then g j else j \<in> A)} - {i})
        = {j. j < n \<and> (if j < Suc i then g j else j \<in> A)}" using that(1) by (auto simp: less_Suc_eq)
    with assms(2) [OF that] that(1) show ?thesis by simp
  qed
  moreover have "{j. j < n \<and> (if j < 0 then g j else j \<in> A)} = A" using bs_rep_sub [OF assms(1)] by auto
  then have "?I 0 v" using assms(1) by simp
  ultimately obtain v' where "for_loop f 0 n v = Some v'" "?I n v'" using for_loop_inv [of 0 n ?I f v] by auto
  moreover have "{j. j < n \<and> (if j < n then g j else j \<in> A)} = {j. j < n \<and> g j}" by auto
  ultimately show ?thesis by auto
qed

lemma bs_rep_clear: "bs_rep v n A \<Longrightarrow> \<exists>v'. bs_clear v = Some v' \<and> bs_rep v' n {}"
  using bs_rep_loop [of v n A "\<lambda>i v. vec_set v i False" "\<lambda>_. False"] bs_rep_set [where b = False] by (simp add: bs_clear_def bs_rep_size)

lemma bs_rep_broadcast: "bs_rep v n A \<Longrightarrow> \<exists>v'. bs_broadcast v = Some v' \<and> bs_rep v' n {..<n}"
  using bs_rep_loop [of v n A "\<lambda>i v. vec_set v i True" "\<lambda>_. True"] bs_rep_set [where b = True]
  by (simp add: bs_broadcast_def bs_rep_size lessThan_def)

lemma bs_rep_new: "\<exists>v. bs_setSize vec_new (int n) = Some v \<and> bs_rep v n {}"
proof -
  from vec_setSize_Some [of "vec_new :: BigSet" "int n" False] obtain v where
    v: "vec_setSize False vec_new (int n) = Some v" "vec_inv v" "v_size v = int n" by auto
  then have "bs_rep v n {i. i < n \<and> vec_list v ! i}" by (auto simp: bs_rep_def)
  from bs_rep_clear [OF this] v show ?thesis by (auto simp: bs_setSize_def)
qed

lemma bs_rep_addSet:
  assumes "bs_rep v n A" "bs_rep t n B"
  shows "\<exists>v'. bs_addSet v t = Some v' \<and> bs_rep v' n (A \<union> B)"
proof -
  let ?f = "\<lambda>i v. do { e \<leftarrow> bs_isElement t i; (if e then bs_add v i else Some v) }"
  have "\<exists>v'. ?f (int i) v = Some v' \<and> bs_rep v' n (if i \<in> A \<union> B then insert i D else D - {i})"
    if "i < n" "bs_rep v n D" "i \<in> D \<longleftrightarrow> i \<in> A" for i v D
    using that bs_rep_set [OF that(2,1), of True] bs_rep_ref [OF assms(2) that(1)] by (auto simp: bs_isElement_def bs_add_def insert_absorb)
  from bs_rep_loop [OF assms(1) this] have "\<exists>v'. for_loop ?f 0 n v = Some v' \<and> bs_rep v' n {j. j < n \<and> j \<in> A \<union> B}" .
  moreover have "{j. j < n \<and> j \<in> A \<union> B} = A \<union> B" using bs_rep_sub [OF assms(1)] bs_rep_sub [OF assms(2)] by auto
  ultimately show ?thesis using assms by (simp add: bs_addSet_def bs_rep_size)
qed

lemma bs_rep_removeSet:
  assumes "bs_rep v n A" "bs_rep t n B"
  shows "\<exists>v'. bs_removeSet v t = Some v' \<and> bs_rep v' n (A - B)"
proof -
  let ?f = "\<lambda>i v. do { e \<leftarrow> bs_isElement t i; (if e then bs_remove v i else Some v) }"
  have "\<exists>v'. ?f (int i) v = Some v' \<and> bs_rep v' n (if i \<in> A - B then insert i D else D - {i})"
    if "i < n" "bs_rep v n D" "i \<in> D \<longleftrightarrow> i \<in> A" for i v D
    using that bs_rep_set [OF that(2,1), of False] bs_rep_ref [OF assms(2) that(1)] by (auto simp: bs_isElement_def bs_remove_def insert_absorb)
  from bs_rep_loop [OF assms(1) this] have "\<exists>v'. for_loop ?f 0 n v = Some v' \<and> bs_rep v' n {j. j < n \<and> j \<in> A - B}" .
  moreover have "{j. j < n \<and> j \<in> A - B} = A - B" using bs_rep_sub [OF assms(1)] by auto
  ultimately show ?thesis using assms by (simp add: bs_removeSet_def bs_rep_size)
qed

lemma bs_rep_combine:
  assumes "bs_rep v n A" "bs_rep t n B"
  shows "\<exists>v'. bs_combine f v t = Some v' \<and> bs_rep v' n {j. j < n \<and> f (j \<in> A) (j \<in> B)}"
proof -
  let ?f = "\<lambda>i r. do { a \<leftarrow> vec_ref v i; b \<leftarrow> bs_isElement t i; (if f a b then bs_add r i else bs_remove r i) }"
  have "\<exists>v'. ?f (int i) r = Some v' \<and> bs_rep v' n (if f (i \<in> A) (i \<in> B) then insert i D else D - {i})"
    if "i < n" "bs_rep r n D" "i \<in> D \<longleftrightarrow> i \<in> {}" for i r D
    using bs_rep_set [OF that(2,1), of True] bs_rep_set [OF that(2,1), of False] bs_rep_ref [OF assms(1) that(1)] bs_rep_ref [OF assms(2) that(1)]
    by (auto simp: bs_isElement_def bs_add_def bs_remove_def)
  note step = this
  obtain r where r: "bs_setSize vec_new (int n) = Some r" "bs_rep r n {}" using bs_rep_new by blast
  from bs_rep_loop [where f = ?f and g = "\<lambda>i. f (i \<in> A) (i \<in> B)", OF r(2) step] r(1) assms show ?thesis
    by (simp add: bs_combine_def bs_rep_size)
qed

lemma bs_rep_count: "bs_rep v n A \<Longrightarrow> bs_count v = Some (int (card A))"
proof -
  assume a: "bs_rep v n A"
  let ?f = "\<lambda>i c. do { e \<leftarrow> vec_ref v i; Some (if e then c + 1 else c) }"
  let ?I = "\<lambda>i c. c = int (card {j \<in> A. j < i})"
  have "\<exists>c'. ?f (int i) c = Some c' \<and> ?I (Suc i) c'" if "i < n" "?I i c" for i c
  proof -
    have "{j \<in> A. j < Suc i} = (if i \<in> A then insert i {j \<in> A. j < i} else {j \<in> A. j < i})" by (auto simp: less_Suc_eq)
    then show ?thesis using that bs_rep_ref [OF a that(1)] by simp
  qed
  then have "for_loop ?f 0 n 0 = Some (int (card {j \<in> A. j < n}))" using for_loop_inv [of 0 n ?I ?f 0] by auto
  moreover have "{j \<in> A. j < n} = A" using bs_rep_sub [OF a] by auto
  ultimately show ?thesis using a by (simp add: bs_count_def bs_rep_size)
qed

lemma bs_rep_all:
  assumes "bs_rep v n A" "\<And>i. i < n \<Longrightarrow> f (int i) = Some (p i)"
  shows "all_loop f 0 (bs_len v) = Some (\<forall>i<n. p i)"
  using all_loop_eq [of 0 n f p] assms by (simp add: bs_rep_size)

lemma bs_rep_smallest:
  assumes "bs_rep v n A" "A \<noteq> {}"
  shows "bs_smallestElement v = Some (int (Min A))"
proof -
  have f: "finite A" using bs_rep_sub [OF assms(1)] finite_subset by blast
  then have "Min A \<in> A" using assms(2) by simp
  moreover have "Min A < n" using bs_rep_sub [OF assms(1)] calculation by blast
  ultimately have "find_loop (bs_isElement v) 0 n = Some (int (Min A))"
    using find_loop_least [of 0 n "bs_isElement v" "\<lambda>i. i \<in> A" "Min A"] bs_rep_ref [OF assms(1)] f by (simp add: bs_isElement_def)
  then show ?thesis using f assms by (simp add: bs_smallestElement_def bs_rep_count bs_rep_size card_gt_0_iff)
qed

lemma bs_addRandom_idle: "bs_rep v n A \<Longrightarrow> bs_addRandom rand v = Some v"
proof -
  have "for_loop (\<lambda>i (rand, v). do { v \<leftarrow> (if rand AND (if (1 :: 32 word) = 0 then 1 else 0) \<noteq> 0 then bs_add v i else Some v);
     Some (signed_drop_bit 1 rand, v) }) i m (r, v) = Some (((signed_drop_bit 1) ^^ m) r, v)" for i m r
    by (induction m arbitrary: i r) (simp_all add: funpow_swap1)
  then show ?thesis by (auto simp: bs_addRandom_def)
qed

interpretation bs: node_set bs_class bs_rep "\<lambda>n. 0 < n"
proof (unfold_locales, goal_cases)
  case (1 n) then show ?case using bs_rep_new by (simp add: bs_class_def bs_new_def)
next
  case (2 s n A i) then show ?case using bs_rep_set [of s n A i True] by (simp add: bs_class_def bs_add_def)
next
  case (3 s n A i) then show ?case using bs_rep_set [of s n A i False] by (simp add: bs_class_def bs_remove_def)
next
  case (8 s n A t B)
  then have "{j. j < n \<and> (j \<in> A \<or> j \<in> B)} = A \<union> B" using bs_rep_sub [of s n A] bs_rep_sub [of t n B] by auto
  then show ?case using bs_rep_combine [OF 8, of "(\<or>)"] by (simp add: bs_class_def bs_OR_def)
next
  case (9 s n A t B)
  then have "{j. j < n \<and> j \<in> A \<and> j \<in> B} = A \<inter> B" using bs_rep_sub [of s n A] by auto
  then show ?case using bs_rep_combine [OF 9, of "(\<and>)"] by (simp add: bs_class_def bs_AND_def)
next
  case (12 s n A) then show ?case
    using bs_rep_all [OF 12, of "\<lambda>i. map_option Not (vec_ref s i)" "\<lambda>i. i \<notin> A"] bs_rep_sub [OF 12] bs_rep_ref [OF 12]
    by (auto simp: bs_class_def bs_isEmpty_def)
next
  case (13 s n A) then show ?case
    using bs_rep_all [OF 13, of "vec_ref s" "\<lambda>i. i \<in> A"] bs_rep_sub [OF 13] bs_rep_ref [OF 13] by (auto simp: bs_class_def bs_isBroadcast_def)
next
  case (14 s n A t B) then show ?case
    using bs_rep_all [OF 14(1), of "\<lambda>i. do { a \<leftarrow> vec_ref s i; b \<leftarrow> bs_isElement t i; Some (a = b) }" "\<lambda>i. i \<in> A \<longleftrightarrow> i \<in> B"]
      bs_rep_sub [OF 14(1)] bs_rep_sub [OF 14(2)] bs_rep_ref [OF 14(1)] bs_rep_ref [OF 14(2)]
    by (auto simp: bs_class_def bs_isEqual_def bs_rep_size bs_isElement_def)
next
  case (15 s n A t B) then show ?case
    using bs_rep_all [OF 15(1), of "\<lambda>i. do { b \<leftarrow> bs_isElement t i; a \<leftarrow> bs_isElement s i; Some (\<not> (b \<and> \<not> a)) }" "\<lambda>i. i \<in> B \<longrightarrow> i \<in> A"]
      bs_rep_sub [OF 15(1)] bs_rep_sub [OF 15(2)] bs_rep_ref [OF 15(1)] bs_rep_ref [OF 15(2)]
    by (auto simp: bs_class_def bs_isSuperset_def bs_rep_size bs_isElement_def)
next
  case (16 s n A t B) then show ?case
    using bs_rep_all [OF 16(1), of "\<lambda>i. do { b \<leftarrow> bs_isElement t i; a \<leftarrow> bs_isElement s i; Some (\<not> (b \<and> a)) }" "\<lambda>i. \<not> (i \<in> B \<and> i \<in> A)"]
      bs_rep_sub [OF 16(1)] bs_rep_sub [OF 16(2)] bs_rep_ref [OF 16(1)] bs_rep_ref [OF 16(2)]
    by (auto simp: bs_class_def bs_intersectionIsNotEmpty_def bs_intersectionIsEmpty_def bs_rep_size bs_isElement_def)
qed (auto simp: bs_class_def bs_rep_clear bs_rep_broadcast bs_rep_addSet bs_rep_removeSet bs_rep_count bs_rep_ref bs_isElement_def bs_rep_smallest)

subsection \<open>Agreement\<close>

text \<open>C14. Every program of set operations on nodes below the size returns, in each of the three implementations (for the
  one-word sets up to 31 nodes), and what the class lets a client see of the two sets afterwards (the elements, the count, emptiness,
  broadcast, equality, inclusion, intersection, the smallest element) is the same, namely that of the mathematical sets.\<close>

theorem node_sets_agree:
  assumes "0 < n" "\<forall>x \<in> set xs. op_ok n x"
  shows "set_program os_class n xs = Some (spec_view n (fold (spec_step n) xs ({}, {})))
    \<and> set_program bs_class n xs = set_program os_class n xs
    \<and> (n < 32 \<longrightarrow> set_program ss_class n xs = set_program os_class n xs)"
  using assms by (simp add: os.program_law bs.program_law ss.program_law)

theorem node_sets_agree_witness:
  "map_option vw_elements (set_program os_class 3 [Add 2, Swap, Broadcast, RemoveSet]) = Some [Some True, Some True, Some False]"
  using node_sets_agree [of 3 "[Add 2, Swap, Broadcast, RemoveSet]"] by (simp add: upt_rec)

end
