(* ===== verification/NetDest_Model.thy ===== *)
theory NetDest_Model
  imports NodeSet_Model
begin

text \<open>
  Network destinations, \<^verbatim>\<open>common/NetDest.*\<close>: a vector of node sets, one for each machine type of the protocol.  The
  functions on machine types are written out by \<^verbatim>\<open>slicc/symbols/Type.C\<close>; what it emits for the machine types of a protocol is
  given here over \<open>counts\<close>, the numbers of machines that \<^verbatim>\<open>RubyConfig::numberOf...()\<close> returns for them in the order of
  the enumeration.

  Main result: the operations act on a set of machines as their names say, and what a client reads from a destination is
  what the set of machines gives.
\<close>

subsection \<open>Machine types\<close>

definition MachineType_base_level :: "int list \<Rightarrow> MachineType \<Rightarrow> int option" where
  "MachineType_base_level counts obj = do { assert_that (0 \<le> obj \<and> obj \<le> int (length counts)); Some obj }"

definition MachineType_base_number :: "int list \<Rightarrow> MachineType \<Rightarrow> int option" where
  "MachineType_base_number counts obj = do { assert_that (0 \<le> obj \<and> obj \<le> int (length counts)); Some (sum_list (take (nat obj) counts)) }"

definition MachineType_base_count :: "int list \<Rightarrow> MachineType \<Rightarrow> int option" where
  "MachineType_base_count counts obj = do { assert_that (0 \<le> obj \<and> obj < int (length counts)); Some (counts ! nat obj) }"

subsection \<open>Operations\<close>

type_synonym NetDest = "Set vector"

text \<open>\<^verbatim>\<open>m_bits[i].op(...)\<close>, and a loop of it over all indices.\<close>

definition nd_at :: "NetDest \<Rightarrow> int \<Rightarrow> (Set \<Rightarrow> Set option) \<Rightarrow> NetDest option" where
  "nd_at v i f = do { s \<leftarrow> vec_ref v i; s \<leftarrow> f s; vec_set v i s }"

definition nd_each :: "(int \<Rightarrow> Set \<Rightarrow> Set option) \<Rightarrow> NetDest \<Rightarrow> NetDest option" where
  "nd_each f v = for_loop (\<lambda>i v. nd_at v i (f i)) 0 (nat (v_size v)) v"

text \<open>\<open>procs\<close> is \<^verbatim>\<open>RubyConfig::numberOfProcessors()\<close>, the size of a default-constructed set.\<close>

definition nd_setSize :: "int \<Rightarrow> int list \<Rightarrow> NetDest \<Rightarrow> NetDest option" where
  "nd_setSize procs counts v = do {
     n \<leftarrow> MachineType_base_level counts (int (length counts));
     v \<leftarrow> vec_setSize (os_setSize procs) v n;
     assert_that (v_size v = int (length counts));
     nd_each (\<lambda>i _. map_option os_setSize (MachineType_base_count counts i)) v
   }"

definition nd_new :: "int \<Rightarrow> int list \<Rightarrow> NetDest option" where
  "nd_new procs counts = nd_setSize procs counts vec_new"

definition nd_vecIndex :: "int list \<Rightarrow> NetDest \<Rightarrow> MachineID \<Rightarrow> int option" where
  "nd_vecIndex counts v m = do {
     vec_index \<leftarrow> MachineType_base_level counts (mach_type m);
     assert_that (vec_index < v_size v);
     Some vec_index
   }"

definition nd_add :: "int list \<Rightarrow> NetDest \<Rightarrow> MachineID \<Rightarrow> NetDest option" where
  "nd_add counts v m = do { i \<leftarrow> nd_vecIndex counts v m; nd_at v i (\<lambda>s. os_add s (mach_num m)) }"

definition nd_remove :: "int list \<Rightarrow> NetDest \<Rightarrow> MachineID \<Rightarrow> NetDest option" where
  "nd_remove counts v m = do { i \<leftarrow> nd_vecIndex counts v m; nd_at v i (\<lambda>s. os_remove s (mach_num m)) }"

definition nd_addNetDest :: "NetDest \<Rightarrow> NetDest \<Rightarrow> NetDest option" where
  "nd_addNetDest v w = do {
     assert_that (v_size v = v_size w);
     nd_each (\<lambda>i s. do { t \<leftarrow> vec_ref w i; os_addSet s t }) v
   }"

definition nd_removeNetDest :: "NetDest \<Rightarrow> NetDest \<Rightarrow> NetDest option" where
  "nd_removeNetDest v w = do {
     assert_that (v_size v = v_size w);
     nd_each (\<lambda>i s. do { t \<leftarrow> vec_ref w i; os_removeSet s t }) v
   }"

definition nd_addRandom :: "int \<Rightarrow> (64 word \<times> 64 word) list \<Rightarrow> NetDest \<Rightarrow> NetDest option" where
  "nd_addRandom rand rs v = do { assert_that (v_size v \<noteq> 0); nd_at v (rand mod v_size v) (\<lambda>s. Some (os_addRandom rs s)) }"

definition nd_setNetDest :: "int list \<Rightarrow> NetDest \<Rightarrow> MachineType \<Rightarrow> Set \<Rightarrow> NetDest option" where
  "nd_setNetDest counts v machine s = do {
     hi \<leftarrow> MachineType_base_level counts (machine + 1);
     lo \<leftarrow> MachineType_base_level counts machine;
     assert_that (hi - lo = 1);
     nd_at v lo (\<lambda>_. Some (os_copy s))
   }"

definition nd_clear :: "NetDest \<Rightarrow> NetDest option" where
  "nd_clear v = nd_each (\<lambda>i s. Some (os_clear s)) v"

definition nd_broadcast_type :: "int list \<Rightarrow> MachineType \<Rightarrow> NetDest \<Rightarrow> NetDest option" where
  "nd_broadcast_type counts machineType v = do {
     n \<leftarrow> MachineType_base_count counts machineType;
     for_loop (\<lambda>i v. nd_add counts v \<lparr>mach_type = machineType, mach_num = i\<rparr>) 0 (nat n) v
   }"

definition nd_broadcast :: "int list \<Rightarrow> NetDest \<Rightarrow> NetDest option" where
  "nd_broadcast counts v = for_loop (\<lambda>machine v. nd_broadcast_type counts machine v) 0 (length counts) v"

definition nd_getAllDest :: "int list \<Rightarrow> NetDest \<Rightarrow> NodeID list option" where
  "nd_getAllDest counts v = for_loop (\<lambda>i dest. do {
       s \<leftarrow> vec_ref v i;
       for_loop (\<lambda>j dest. do {
           e \<leftarrow> os_isElement s j;
           (if e then do { b \<leftarrow> MachineType_base_number counts i; Some (dest @ [b + j]) } else Some dest)
         }) 0 (nat (st_nSize s)) dest
     }) 0 (nat (v_size v)) []"

definition nd_count :: "NetDest \<Rightarrow> int option" where
  "nd_count v = for_loop (\<lambda>i c. do { s \<leftarrow> vec_ref v i; Some (c + os_count s) }) 0 (nat (v_size v)) 0"

definition nd_elementAt :: "int list \<Rightarrow> NetDest \<Rightarrow> MachineID \<Rightarrow> NodeID option" where
  "nd_elementAt counts v m = do { i \<leftarrow> nd_vecIndex counts v m; s \<leftarrow> vec_ref v i; os_elementAt s (mach_num m) }"

text \<open>The first index of a set's range with an element, if there is one.\<close>

fun first_loop :: "(int \<Rightarrow> bool option) \<Rightarrow> int \<Rightarrow> nat \<Rightarrow> int option option" where
  "first_loop f i 0 = Some None"
| "first_loop f i (Suc n) = do { b \<leftarrow> f i; (if b then Some (Some i) else first_loop f (i + 1) n) }"

definition nd_first :: "Set \<Rightarrow> int option option" where
  "nd_first s = first_loop (os_isElement s) 0 (nat (st_nSize s))"

fun nd_smallest_loop :: "NetDest \<Rightarrow> int \<Rightarrow> nat \<Rightarrow> NodeID option" where
  "nd_smallest_loop v i 0 = None"
| "nd_smallest_loop v i (Suc n) = do {
     s \<leftarrow> vec_ref v i;
     r \<leftarrow> nd_first s;
     (case r of Some j \<Rightarrow> Some j | None \<Rightarrow> nd_smallest_loop v (i + 1) n)
   }"

definition nd_smallestElement :: "NetDest \<Rightarrow> NodeID option" where
  "nd_smallestElement v = do {
     c \<leftarrow> nd_count v;
     assert_that (c > 0);
     nd_smallest_loop v 0 (nat (v_size v))
   }"

definition nd_smallestElement_of :: "int list \<Rightarrow> NetDest \<Rightarrow> MachineType \<Rightarrow> MachineID option" where
  "nd_smallestElement_of counts v machine = do {
     i \<leftarrow> MachineType_base_level counts machine;
     s \<leftarrow> vec_ref v i;
     r \<leftarrow> nd_first s;
     (case r of Some j \<Rightarrow> Some \<lparr>mach_type = machine, mach_num = j\<rparr> | None \<Rightarrow> None)
   }"

definition nd_isBroadcast :: "NetDest \<Rightarrow> bool option" where
  "nd_isBroadcast v = all_loop (\<lambda>i. map_option os_isBroadcast (vec_ref v i)) 0 (nat (v_size v))"

definition nd_isEmpty :: "NetDest \<Rightarrow> bool option" where
  "nd_isEmpty v = all_loop (\<lambda>i. map_option os_isEmpty (vec_ref v i)) 0 (nat (v_size v))"

definition nd_combine :: "(Set \<Rightarrow> Set \<Rightarrow> Set option) \<Rightarrow> int \<Rightarrow> int list \<Rightarrow> NetDest \<Rightarrow> NetDest \<Rightarrow> NetDest option" where
  "nd_combine f procs counts v w = do {
     assert_that (v_size v = v_size w);
     result \<leftarrow> nd_new procs counts;
     for_loop (\<lambda>i r. do {
         s \<leftarrow> vec_ref v i; t \<leftarrow> vec_ref w i; u \<leftarrow> f s t;
         nd_at r i (\<lambda>_. Some (os_copy u))
       }) 0 (nat (v_size v)) result
   }"

definition nd_OR :: "int \<Rightarrow> int list \<Rightarrow> NetDest \<Rightarrow> NetDest \<Rightarrow> NetDest option" where "nd_OR = nd_combine os_OR"
definition nd_AND :: "int \<Rightarrow> int list \<Rightarrow> NetDest \<Rightarrow> NetDest \<Rightarrow> NetDest option" where "nd_AND = nd_combine os_AND"

definition nd_intersectionIsNotEmpty :: "NetDest \<Rightarrow> NetDest \<Rightarrow> bool option" where
  "nd_intersectionIsNotEmpty v w = do {
     assert_that (v_size v = v_size w);
     b \<leftarrow> all_loop (\<lambda>i. do { s \<leftarrow> vec_ref v i; t \<leftarrow> vec_ref w i; Some (\<not> os_intersectionIsNotEmpty s t) }) 0 (nat (v_size v));
     Some (\<not> b)
   }"

definition nd_isSuperset :: "NetDest \<Rightarrow> NetDest \<Rightarrow> bool option" where
  "nd_isSuperset v w = do {
     assert_that (v_size v = v_size w);
     all_loop (\<lambda>i. do { s \<leftarrow> vec_ref v i; t \<leftarrow> vec_ref w i; os_isSuperset s t }) 0 (nat (v_size v))
   }"

definition nd_isSubset :: "NetDest \<Rightarrow> NetDest \<Rightarrow> bool option" where
  "nd_isSubset v w = nd_isSuperset w v"

definition nd_isElement :: "int list \<Rightarrow> NetDest \<Rightarrow> MachineID \<Rightarrow> bool option" where
  "nd_isElement counts v m = do { i \<leftarrow> nd_vecIndex counts v m; s \<leftarrow> vec_ref v i; os_isElement s (mach_num m) }"

subsection \<open>The set of machines\<close>

text \<open>A machine is its type and its number.\<close>

definition all_machines :: "int list \<Rightarrow> (nat \<times> nat) list" where
  "all_machines counts = concat (map (\<lambda>m. map (Pair m) [0..<nat (counts ! m)]) [0..<length counts])"

definition nd_rep :: "int list \<Rightarrow> NetDest \<Rightarrow> (nat \<times> nat) set \<Rightarrow> bool" where
  "nd_rep counts v A = ((\<forall>n \<in> set counts. 0 < n) \<and> vec_inv v \<and> v_size v = int (length counts) \<and> A \<subseteq> set (all_machines counts)
     \<and> (\<forall>m < length counts. os_rep (vec_list v ! m) (nat (counts ! m)) {j. (m, j) \<in> A}))"

lemma in_all_machines [simp]: "(m, j) \<in> set (all_machines counts) \<longleftrightarrow> m < length counts \<and> j < nat (counts ! m)"
  by (auto simp: all_machines_def intro: bexI [of _ m])

lemma nd_repD:
  assumes "nd_rep counts v A"
  shows "vec_inv v" "v_size v = int (length counts)" "A \<subseteq> set (all_machines counts)"
    "m < length counts \<Longrightarrow> 0 < counts ! m" "m < length counts \<Longrightarrow> os_rep (vec_list v ! m) (nat (counts ! m)) {j. (m, j) \<in> A}"
    "m < length counts \<Longrightarrow> vec_ref v (int m) = Some (vec_list v ! m)"
    "(m, j) \<in> A \<Longrightarrow> m < length counts" "(m, j) \<in> A \<Longrightarrow> j < nat (counts ! m)"
  using assms by (auto simp: nd_rep_def vec_ref_eq)

lemma nd_at_Some:
  assumes "vec_inv v" "i < n" "v_size v = int n" "f (vec_list v ! i) = Some t"
  shows "\<exists>v'. nd_at v (int i) f = Some v' \<and> vec_inv v' \<and> v_size v' = int n \<and> vec_list v' = (vec_list v)[i := t]"
proof -
  have "0 \<le> int i" "int i < v_size v" using assms by simp_all
  from vec_set_Some [OF assms(1) this, of t] obtain v' where
    "vec_set v (int i) t = Some v'" "vec_inv v'" "vec_list v' = (vec_list v)[i := t]" "v_size v' = v_size v" by (metis nat_int)
  then show ?thesis using assms by (simp add: nd_at_def vec_ref_eq)
qed

lemma nd_loop_Some:
  assumes "vec_inv v" "v_size v = int n"
    "\<And>i v'. \<lbrakk>i < n; vec_inv v'; v_size v' = int n; vec_list v' ! i = vec_list v ! i\<rbrakk>
       \<Longrightarrow> \<exists>h. f (int i) v' = nd_at v' (int i) h \<and> h (vec_list v ! i) = Some (g i)"
  shows "\<exists>v'. for_loop f 0 n v = Some v' \<and> vec_inv v' \<and> v_size v' = int n \<and> vec_list v' = map g [0..<n]"
proof -
  let ?I = "\<lambda>i v'. vec_inv v' \<and> v_size v' = int n \<and> vec_list v' = map g [0..<i] @ drop i (vec_list v)"
  have "\<exists>v''. f (int i) v' = Some v'' \<and> ?I (Suc i) v''" if "i < n" "?I i v'" for i v'
  proof -
    have l: "i < length (vec_list v)" using assms(1,2) that(1) by simp
    then have "vec_list v' ! i = vec_list v ! i" using that(2) by (simp add: nth_append)
    with assms(3) [of i v'] that obtain h where h: "f (int i) v' = nd_at v' (int i) h" "h (vec_list v' ! i) = Some (g i)" by auto
    have "(vec_list v')[i := g i] = map g [0..<Suc i] @ drop (Suc i) (vec_list v)"
      using that(2) l by (simp add: list_update_append flip: Cons_nth_drop_Suc)
    with nd_at_Some [of v' i n h "g i"] h that show ?thesis by auto
  qed
  then obtain v' where "for_loop f 0 n v = Some v'" "?I n v'" using for_loop_inv [of 0 n ?I f v] assms(1,2) by auto
  then show ?thesis using assms(1,2) by auto
qed

lemma nd_each_Some:
  assumes "vec_inv v" "v_size v = int n" "\<And>i. i < n \<Longrightarrow> f (int i) (vec_list v ! i) = Some (g i)"
  shows "\<exists>v'. nd_each f v = Some v' \<and> vec_inv v' \<and> v_size v' = int n \<and> vec_list v' = map g [0..<n]"
  using nd_loop_Some [OF assms(1,2), of "\<lambda>i v. nd_at v i (f i)" g] assms by (auto simp: nd_each_def)

lemma nd_rep_new:
  assumes "\<forall>n \<in> set counts. 0 < n"
  shows "\<exists>v. nd_new procs counts = Some v \<and> nd_rep counts v {}"
proof -
  let ?n = "length counts"
  from vec_setSize_Some [of "vec_new :: NetDest" "int ?n" "os_setSize procs"] obtain v where
    v: "vec_setSize (os_setSize procs) vec_new (int ?n) = Some v" "vec_inv v" "v_size v = int ?n" by auto
  from nd_each_Some [OF v(2,3), of "\<lambda>i _. map_option os_setSize (MachineType_base_count counts i)" "\<lambda>i. os_setSize (counts ! i)"]
  obtain v' where "nd_each (\<lambda>i _. map_option os_setSize (MachineType_base_count counts i)) v = Some v'" "vec_inv v'"
    "v_size v' = int ?n" "vec_list v' = map (\<lambda>i. os_setSize (counts ! i)) [0..<?n]" by (auto simp: MachineType_base_count_def)
  moreover have "os_rep (os_setSize (counts ! m)) (nat (counts ! m)) {}" if "m < ?n" for m
  proof -
    have "0 < counts ! m" using assms that by simp
    then show ?thesis using os_rep_new [of "nat (counts ! m)"] by simp
  qed
  ultimately show ?thesis using v assms by (simp add: nd_new_def nd_setSize_def MachineType_base_level_def nd_rep_def)
qed

lemma nd_vecIndex_eq: "nd_rep counts v A \<Longrightarrow> m < length counts \<Longrightarrow> nd_vecIndex counts v \<lparr>mach_type = int m, mach_num = j\<rparr> = Some (int m)"
  by (simp add: nd_vecIndex_def MachineType_base_level_def nd_repD(2))

lemma nd_rep_at:
  assumes "nd_rep counts v A" "m < length counts" "f (vec_list v ! m) = Some t" "os_rep t (nat (counts ! m)) {j. (m, j) \<in> B}"
    "\<And>k j. k \<noteq> m \<Longrightarrow> (k, j) \<in> B \<longleftrightarrow> (k, j) \<in> A" "B \<subseteq> set (all_machines counts)"
  shows "\<exists>v'. nd_at v (int m) f = Some v' \<and> nd_rep counts v' B"
proof -
  from nd_at_Some [of v m "length counts" f t] nd_repD(1,2) [OF assms(1)] assms(2,3) obtain v' where
    "nd_at v (int m) f = Some v'" "vec_inv v'" "v_size v' = int (length counts)" "vec_list v' = (vec_list v)[m := t]" by auto
  then show ?thesis using assms by (auto simp: nd_rep_def nth_list_update)
qed

lemma nd_rep_add:
  assumes "nd_rep counts v A" "m < length counts" "j < nat (counts ! m)"
  shows "\<exists>v'. nd_add counts v \<lparr>mach_type = int m, mach_num = int j\<rparr> = Some v' \<and> nd_rep counts v' (insert (m, j) A)"
proof -
  from os_rep_add [OF nd_repD(5) [OF assms(1,2)] assms(3)] obtain t where
    "os_add (vec_list v ! m) (int j) = Some t" "os_rep t (nat (counts ! m)) (insert j {j. (m, j) \<in> A})" by blast
  moreover have "insert j {j. (m, j) \<in> A} = {i. (m, i) \<in> insert (m, j) A}" by auto
  ultimately show ?thesis using assms nd_repD(3) [OF assms(1)] nd_rep_at [OF assms(1,2), of "\<lambda>s. os_add s (int j)" t "insert (m, j) A"]
    by (simp add: nd_add_def nd_vecIndex_eq [OF assms(1,2)])
qed

lemma nd_rep_remove:
  assumes "nd_rep counts v A" "m < length counts" "j < nat (counts ! m)"
  shows "\<exists>v'. nd_remove counts v \<lparr>mach_type = int m, mach_num = int j\<rparr> = Some v' \<and> nd_rep counts v' (A - {(m, j)})"
proof -
  from os_rep_remove [OF nd_repD(5) [OF assms(1,2)] assms(3)] obtain t where
    "os_remove (vec_list v ! m) (int j) = Some t" "os_rep t (nat (counts ! m)) ({j. (m, j) \<in> A} - {j})" by blast
  moreover have "{j. (m, j) \<in> A} - {j} = {i. (m, i) \<in> A - {(m, j)}}" by auto
  ultimately show ?thesis using assms nd_repD(3) [OF assms(1)] nd_rep_at [OF assms(1,2), of "\<lambda>s. os_remove s (int j)" t "A - {(m, j)}"]
    by (auto simp: nd_remove_def nd_vecIndex_eq [OF assms(1,2)])
qed

text \<open>The operations on all types: the result for each type is a set of machines of the type.\<close>

lemma nd_rep_each:
  assumes "nd_rep counts v A" "\<And>m. m < length counts \<Longrightarrow> \<exists>t. f (int m) (vec_list v ! m) = Some t \<and> os_rep t (nat (counts ! m)) {j. (m, j) \<in> B}"
    "B \<subseteq> set (all_machines counts)"
  shows "\<exists>v'. nd_each f v = Some v' \<and> nd_rep counts v' B"
proof -
  from assms(2) obtain g where g: "\<And>m. m < length counts \<Longrightarrow> f (int m) (vec_list v ! m) = Some (g m)"
    "\<And>m. m < length counts \<Longrightarrow> os_rep (g m) (nat (counts ! m)) {j. (m, j) \<in> B}" by metis
  from nd_each_Some [where g = g, OF nd_repD(1,2) [OF assms(1)] g(1)] show ?thesis using assms(1,3) g(2) by (auto simp: nd_rep_def)
qed

lemma nd_rep_clear: "nd_rep counts v A \<Longrightarrow> \<exists>v'. nd_clear v = Some v' \<and> nd_rep counts v' {}"
  unfolding nd_clear_def by (rule nd_rep_each) (auto intro: os_rep_clear dest: nd_repD(5))

lemma nd_rep_addNetDest:
  assumes "nd_rep counts v A" "nd_rep counts w B"
  shows "\<exists>v'. nd_addNetDest v w = Some v' \<and> nd_rep counts v' (A \<union> B)"
proof -
  have "\<exists>t. (do { t \<leftarrow> vec_ref w (int m); os_addSet (vec_list v ! m) t }) = Some t \<and> os_rep t (nat (counts ! m)) {j. (m, j) \<in> A \<union> B}"
    if "m < length counts" for m
    using os_rep_addSet [OF nd_repD(5) [OF assms(1) that] nd_repD(5) [OF assms(2) that]] nd_repD(6) [OF assms(2) that] by (simp add: Collect_disj_eq)
  from nd_rep_each [where f = "\<lambda>i s. do { t \<leftarrow> vec_ref w i; os_addSet s t }" and B = "A \<union> B", OF assms(1) this]
  show ?thesis using nd_repD(2,3) [OF assms(1)] nd_repD(2,3) [OF assms(2)] by (simp add: nd_addNetDest_def)
qed

lemma nd_rep_removeNetDest:
  assumes "nd_rep counts v A" "nd_rep counts w B"
  shows "\<exists>v'. nd_removeNetDest v w = Some v' \<and> nd_rep counts v' (A - B)"
proof -
  have "\<exists>t. (do { t \<leftarrow> vec_ref w (int m); os_removeSet (vec_list v ! m) t }) = Some t \<and> os_rep t (nat (counts ! m)) {j. (m, j) \<in> A - B}"
    if "m < length counts" for m
    using os_rep_removeSet [OF nd_repD(5) [OF assms(1) that] nd_repD(5) [OF assms(2) that]] nd_repD(6) [OF assms(2) that] by (simp add: set_diff_eq)
  from nd_rep_each [where f = "\<lambda>i s. do { t \<leftarrow> vec_ref w i; os_removeSet s t }" and B = "A - B", OF assms(1) this]
  show ?thesis using nd_repD(2,3) [OF assms(1)] nd_repD(2,3) [OF assms(2)] by (auto simp: nd_removeNetDest_def)
qed

lemma nd_rep_broadcast_type:
  assumes "nd_rep counts v A" "m < length counts"
  shows "\<exists>v'. nd_broadcast_type counts (int m) v = Some v' \<and> nd_rep counts v' (A \<union> {m} \<times> {..<nat (counts ! m)})"
proof -
  let ?f = "\<lambda>i v. nd_add counts v \<lparr>mach_type = int m, mach_num = i\<rparr>"
  have "\<exists>v'. ?f (int i) v = Some v' \<and> nd_rep counts v' (A \<union> {m} \<times> {..<Suc i})"
    if "i < nat (counts ! m)" "nd_rep counts v (A \<union> {m} \<times> {..<i})" for i v
  proof -
    have "insert (m, i) (A \<union> {m} \<times> {..<i}) = A \<union> {m} \<times> {..<Suc i}" by (auto simp: less_Suc_eq)
    with nd_rep_add [OF that(2) assms(2) that(1)] show ?thesis by simp
  qed
  with for_loop_inv [of 0 "nat (counts ! m)" "\<lambda>i v. nd_rep counts v (A \<union> {m} \<times> {..<i})" ?f v] assms
  show ?thesis by (simp add: nd_broadcast_type_def MachineType_base_count_def)
qed

lemma nd_rep_broadcast:
  assumes "nd_rep counts v A"
  shows "\<exists>v'. nd_broadcast counts v = Some v' \<and> nd_rep counts v' (set (all_machines counts))"
proof -
  let ?I = "\<lambda>i v. nd_rep counts v (A \<union> {(m, j). m < i \<and> j < nat (counts ! m)})"
  have "\<exists>v'. nd_broadcast_type counts (int m) v = Some v' \<and> ?I (Suc m) v'" if "m < length counts" "?I m v" for m v
  proof -
    have "(A \<union> {(k, j). k < m \<and> j < nat (counts ! k)}) \<union> {m} \<times> {..<nat (counts ! m)} = A \<union> {(k, j). k < Suc m \<and> j < nat (counts ! k)}"
      by (auto simp: less_Suc_eq)
    with nd_rep_broadcast_type [OF that(2,1)] show ?thesis by simp
  qed
  then obtain v' where "nd_broadcast counts v = Some v'" "?I (length counts) v'"
    using for_loop_inv [of 0 "length counts" ?I "nd_broadcast_type counts" v] assms by (auto simp: nd_broadcast_def)
  moreover have "A \<union> {(m, j). m < length counts \<and> j < nat (counts ! m)} = set (all_machines counts)" using nd_repD(3) [OF assms] by auto
  ultimately show ?thesis by auto
qed

lemma os_copy_rep: "os_rep s n A \<Longrightarrow> os_copy s = s"
  by (simp add: os_copy_def os_setSize_def os_clear_def)

lemma nd_rep_combine:
  assumes "nd_rep counts v A" "nd_rep counts w B" "C \<subseteq> set (all_machines counts)"
    "\<And>m. m < length counts \<Longrightarrow> \<exists>t. f (vec_list v ! m) (vec_list w ! m) = Some t \<and> os_rep t (nat (counts ! m)) {j. (m, j) \<in> C}"
  shows "\<exists>v'. nd_combine f procs counts v w = Some v' \<and> nd_rep counts v' C"
proof -
  let ?n = "length counts"
  let ?f = "\<lambda>i r. do { s \<leftarrow> vec_ref v i; t \<leftarrow> vec_ref w i; u \<leftarrow> f s t; nd_at r i (\<lambda>_. Some (os_copy u)) }"
  from assms(4) obtain g where g: "\<And>m. m < ?n \<Longrightarrow> f (vec_list v ! m) (vec_list w ! m) = Some (g m)"
    "\<And>m. m < ?n \<Longrightarrow> os_rep (g m) (nat (counts ! m)) {j. (m, j) \<in> C}" by metis
  have "\<forall>n \<in> set counts. 0 < n" using assms(1) by (simp add: nd_rep_def)
  from nd_rep_new [OF this] obtain r where r: "nd_new procs counts = Some r" "nd_rep counts r {}" by blast
  have "\<exists>h. ?f (int i) r' = nd_at r' (int i) h \<and> h (vec_list r ! i) = Some (g i)" if "i < ?n" for i r'
    using nd_repD(6) [OF assms(1) that] nd_repD(6) [OF assms(2) that] g [OF that] os_copy_rep by auto
  from nd_loop_Some [where f = ?f and g = g, OF nd_repD(1,2) [OF r(2)] this] obtain v' where
    "for_loop ?f 0 ?n r = Some v'" "vec_inv v'" "v_size v' = int ?n" "vec_list v' = map g [0..<?n]" by auto
  then show ?thesis using assms(1,3) g(2) r nd_repD(2) [OF assms(1)] nd_repD(2) [OF assms(2)] by (auto simp: nd_combine_def nd_rep_def)
qed

lemma nd_rep_OR:
  assumes "nd_rep counts v A" "nd_rep counts w B"
  shows "\<exists>v'. nd_OR procs counts v w = Some v' \<and> nd_rep counts v' (A \<union> B)"
  unfolding nd_OR_def
proof (rule nd_rep_combine [OF assms])
  show "A \<union> B \<subseteq> set (all_machines counts)" using nd_repD(3) [OF assms(1)] nd_repD(3) [OF assms(2)] by simp
  fix m assume "m < length counts"
  from os_rep_OR [OF nd_repD(5) [OF assms(1) this] nd_repD(5) [OF assms(2) this]]
  show "\<exists>t. os_OR (vec_list v ! m) (vec_list w ! m) = Some t \<and> os_rep t (nat (counts ! m)) {j. (m, j) \<in> A \<union> B}" by (simp add: Collect_disj_eq)
qed

lemma nd_rep_AND:
  assumes "nd_rep counts v A" "nd_rep counts w B"
  shows "\<exists>v'. nd_AND procs counts v w = Some v' \<and> nd_rep counts v' (A \<inter> B)"
  unfolding nd_AND_def
proof (rule nd_rep_combine [OF assms])
  show "A \<inter> B \<subseteq> set (all_machines counts)" using nd_repD(3) [OF assms(1)] by auto
  fix m assume "m < length counts"
  from os_rep_AND [OF nd_repD(5) [OF assms(1) this] nd_repD(5) [OF assms(2) this]]
  show "\<exists>t. os_AND (vec_list v ! m) (vec_list w ! m) = Some t \<and> os_rep t (nat (counts ! m)) {j. (m, j) \<in> A \<inter> B}" by (simp add: Collect_conj_eq)
qed

subsubsection \<open>Observations\<close>

lemma nd_rep_isElement:
  "nd_rep counts v A \<Longrightarrow> (m, j) \<in> set (all_machines counts) \<Longrightarrow> nd_isElement counts v \<lparr>mach_type = int m, mach_num = int j\<rparr> = Some ((m, j) \<in> A)"
  using os_rep_isElement [OF nd_repD(5)] by (simp add: nd_isElement_def nd_vecIndex_eq nd_repD(6))

lemma nd_rep_count:
  assumes "nd_rep counts v A"
  shows "nd_count v = Some (int (card A))"
proof -
  let ?f = "\<lambda>i c. do { s \<leftarrow> vec_ref v i; Some (c + os_count s) }"
  let ?I = "\<lambda>i c. c = int (card {x \<in> A. fst x < i})"
  have fin: "finite A" using nd_repD(3) [OF assms] finite_subset by blast
  have "\<exists>c'. ?f (int m) c = Some c' \<and> ?I (Suc m) c'" if "m < length counts" "?I m c" for m c
  proof -
    have "{x \<in> A. fst x < Suc m} = {x \<in> A. fst x < m} \<union> Pair m ` {j. (m, j) \<in> A}" by (auto simp: less_Suc_eq image_iff)
    moreover have "card ({x \<in> A. fst x < m} \<union> Pair m ` {j. (m, j) \<in> A}) = card {x \<in> A. fst x < m} + card {j. (m, j) \<in> A}"
      using fin by (subst card_Un_disjoint) (auto simp: card_image inj_on_def intro: finite_subset [of _ "A"])
    ultimately show ?thesis using that os_rep_count [OF nd_repD(5) [OF assms that(1)]] nd_repD(6) [OF assms that(1)] by simp
  qed
  then have "for_loop ?f 0 (length counts) 0 = Some (int (card {x \<in> A. fst x < length counts}))"
    using for_loop_inv [of 0 "length counts" ?I ?f 0] by auto
  moreover have "{x \<in> A. fst x < length counts} = A" using nd_repD(7) [OF assms] by auto
  ultimately show ?thesis using nd_repD(2) [OF assms] by (simp add: nd_count_def)
qed

lemma nd_rep_all:
  assumes "nd_rep counts v A" "\<And>m. m < length counts \<Longrightarrow> f (int m) = Some (p m)"
  shows "all_loop f 0 (nat (v_size v)) = Some (\<forall>m < length counts. p m)"
  using all_loop_eq [of 0 "length counts" f p] assms nd_repD(2) [OF assms(1)] by simp

lemma nd_rep_isEmpty: "nd_rep counts v A \<Longrightarrow> nd_isEmpty v = Some (A = {})"
proof -
  assume a: "nd_rep counts v A"
  have "map_option os_isEmpty (vec_ref v (int m)) = Some (\<forall>j. (m, j) \<notin> A)" if "m < length counts" for m
    using os_rep_isEmpty [OF nd_repD(5) [OF a that]] nd_repD(6) [OF a that] by simp
  from nd_rep_all [where p = "\<lambda>m. \<forall>j. (m, j) \<notin> A", OF a this] nd_repD(7) [OF a] show ?thesis by (auto simp: nd_isEmpty_def)
qed

lemma nd_rep_isBroadcast: "nd_rep counts v A \<Longrightarrow> nd_isBroadcast v = Some (A = set (all_machines counts))"
proof -
  assume a: "nd_rep counts v A"
  have "map_option os_isBroadcast (vec_ref v (int m)) = Some ({j. (m, j) \<in> A} = {..<nat (counts ! m)})" if "m < length counts" for m
    using os_rep_isBroadcast [OF nd_repD(5) [OF a that]] nd_repD(6) [OF a that] by simp
  note all = nd_rep_all [where p = "\<lambda>m. {j. (m, j) \<in> A} = {..<nat (counts ! m)}", OF a this]
  have "set (all_machines counts) \<subseteq> A" if f: "\<forall>m < length counts. {j. (m, j) \<in> A} = {..<nat (counts ! m)}"
  proof (rule subrelI)
    fix m j assume "(m, j) \<in> set (all_machines counts)"
    then have "m < length counts" "j \<in> {..<nat (counts ! m)}" by simp_all
    with f show "(m, j) \<in> A" by blast
  qed
  then have "(\<forall>m < length counts. {j. (m, j) \<in> A} = {..<nat (counts ! m)}) \<longleftrightarrow> A = set (all_machines counts)"
    using nd_repD(3) [OF a] by auto
  with all show ?thesis by (simp add: nd_isBroadcast_def)
qed

lemma nd_rep_isSuperset:
  assumes "nd_rep counts v A" "nd_rep counts w B"
  shows "nd_isSuperset v w = Some (B \<subseteq> A)"
proof -
  let ?f = "\<lambda>i. do { s \<leftarrow> vec_ref v i; t \<leftarrow> vec_ref w i; os_isSuperset s t }"
  have "?f (int m) = Some (\<forall>j. (m, j) \<in> B \<longrightarrow> (m, j) \<in> A)" if "m < length counts" for m
    using os_rep_isSuperset [OF nd_repD(5) [OF assms(1) that] nd_repD(5) [OF assms(2) that]]
      nd_repD(6) [OF assms(1) that] nd_repD(6) [OF assms(2) that] by (auto simp: subset_iff)
  from nd_rep_all [where f = ?f and p = "\<lambda>m. \<forall>j. (m, j) \<in> B \<longrightarrow> (m, j) \<in> A", OF assms(1) this] nd_repD(7) [OF assms(2)]
  show ?thesis using nd_repD(2) [OF assms(1)] nd_repD(2) [OF assms(2)] by (auto simp: nd_isSuperset_def)
qed

lemma nd_rep_meets:
  assumes "nd_rep counts v A" "nd_rep counts w B"
  shows "nd_intersectionIsNotEmpty v w = Some (A \<inter> B \<noteq> {})"
proof -
  let ?f = "\<lambda>i. do { s \<leftarrow> vec_ref v i; t \<leftarrow> vec_ref w i; Some (\<not> os_intersectionIsNotEmpty s t) }"
  have "?f (int m) = Some (\<forall>j. \<not> ((m, j) \<in> A \<and> (m, j) \<in> B))" if "m < length counts" for m
    using os_rep_meets [OF nd_repD(5) [OF assms(1) that] nd_repD(5) [OF assms(2) that]]
      nd_repD(6) [OF assms(1) that] nd_repD(6) [OF assms(2) that] by auto
  from nd_rep_all [where f = ?f and p = "\<lambda>m. \<forall>j. \<not> ((m, j) \<in> A \<and> (m, j) \<in> B)", OF assms(1) this] nd_repD(7) [OF assms(2)]
  show ?thesis using nd_repD(2) [OF assms(1)] nd_repD(2) [OF assms(2)] by (auto simp: nd_intersectionIsNotEmpty_def)
qed

text \<open>The destinations in the order of the network's numbering of the machines.\<close>

lemma nd_rep_getAllDest:
  assumes "nd_rep counts v A"
  shows "nd_getAllDest counts v = Some (map (\<lambda>(m, j). sum_list (take m counts) + int j) (filter (\<lambda>x. x \<in> A) (all_machines counts)))"
proof -
  let ?dest = "\<lambda>xs. map (\<lambda>(m, j). sum_list (take m counts) + int j) (filter (\<lambda>x. x \<in> A) xs)"
  let ?upto = "\<lambda>i. concat (map (\<lambda>m. map (Pair m) [0..<nat (counts ! m)]) [0..<i])"
  let ?g = "\<lambda>i s j dest. do { e \<leftarrow> os_isElement s j;
      (if e then do { b \<leftarrow> MachineType_base_number counts i; Some (dest @ [b + j]) } else Some dest) }"
  have "\<exists>d'. (do { s \<leftarrow> vec_ref v (int m); for_loop (?g (int m) s) 0 (nat (st_nSize s)) d }) = Some d' \<and> d' = ?dest (?upto (Suc m))"
    if m: "m < length counts" and d: "d = ?dest (?upto m)" for m d
  proof -
    note rep = nd_repD(5) [OF assms m]
    have "\<exists>d'. ?g (int m) (vec_list v ! m) (int j) d = Some d' \<and> d' = ?dest (?upto m @ map (Pair m) [0..<Suc j])"
      if "j < nat (counts ! m)" "d = ?dest (?upto m @ map (Pair m) [0..<j])" for j d
      using os_rep_isElement [OF rep that(1)] that m by (simp add: MachineType_base_number_def)
    with for_loop_inv [of 0 "nat (counts ! m)" "\<lambda>j d. d = ?dest (?upto m @ map (Pair m) [0..<j])" "?g (int m) (vec_list v ! m)" d] d
    show ?thesis using nd_repD(6) [OF assms m] os_repD(2) [OF rep] by simp
  qed
  with for_loop_inv [of 0 "length counts" "\<lambda>i d. d = ?dest (?upto i)" "\<lambda>i d. do { s \<leftarrow> vec_ref v i; for_loop (?g i s) 0 (nat (st_nSize s)) d }" "[]"]
  show ?thesis using nd_repD(2) [OF assms] by (simp add: nd_getAllDest_def all_machines_def)
qed

lemma first_loop_eq:
  "(\<And>i. \<lbrakk>k \<le> i; i < k + m\<rbrakk> \<Longrightarrow> f (int i) = Some (p i))
    \<Longrightarrow> first_loop f (int k) m = Some (if \<exists>i. k \<le> i \<and> i < k + m \<and> p i then Some (int (LEAST i. k \<le> i \<and> p i)) else None)"
proof (induction m arbitrary: k)
  case (Suc m)
  have fk: "f (int k) = Some (p k)" using Suc.prems by simp
  show ?case
  proof (cases "p k")
    case True
    then have "(LEAST i. k \<le> i \<and> p i) = k" by (auto intro: Least_equality)
    moreover have "\<exists>i. k \<le> i \<and> i < k + Suc m \<and> p i" using True by (intro exI [of _ k]) simp
    ultimately show ?thesis using True fk by simp
  next
    case False
    then have "k \<le> i \<and> p i \<longleftrightarrow> Suc k \<le> i \<and> p i" for i by (metis Suc_leD Suc_leI le_neq_implies_less)
    moreover from this have "(\<exists>i. k \<le> i \<and> i < k + Suc m \<and> p i) \<longleftrightarrow> (\<exists>i. Suc k \<le> i \<and> i < Suc k + m \<and> p i)" by auto
    moreover have "first_loop f (int (Suc k)) m
        = Some (if \<exists>i. Suc k \<le> i \<and> i < Suc k + m \<and> p i then Some (int (LEAST i. Suc k \<le> i \<and> p i)) else None)"
      using Suc.IH [of "Suc k"] Suc.prems by simp
    ultimately show ?thesis using False fk by (auto simp: add.commute)
  qed
qed auto

lemma nd_rep_smallest:
  assumes "nd_rep counts v A" "m < length counts"
  shows "nd_smallestElement_of counts v (int m) =
    (if \<exists>j. (m, j) \<in> A then Some \<lparr>mach_type = int m, mach_num = int (LEAST j. (m, j) \<in> A)\<rparr> else None)"
proof -
  note rep = nd_repD(5) [OF assms]
  have "(\<exists>j < nat (counts ! m). (m, j) \<in> A) \<longleftrightarrow> (\<exists>j. (m, j) \<in> A)" using nd_repD(8) [OF assms(1)] by blast
  then have "nd_first (vec_list v ! m) = Some (if \<exists>j. (m, j) \<in> A then Some (int (LEAST j. (m, j) \<in> A)) else None)"
    using first_loop_eq [of 0 "nat (counts ! m)" "os_isElement (vec_list v ! m)" "\<lambda>j. (m, j) \<in> A"] os_rep_isElement [OF rep] os_repD(2) [OF rep]
      nd_repD(4) [OF assms] by (simp add: nd_first_def)
  then show ?thesis using assms(2) nd_repD(6) [OF assms] by (simp add: nd_smallestElement_of_def MachineType_base_level_def)
qed

subsection \<open>Programs\<close>

datatype nd_op = NAdd nat nat | NRemove nat nat | NClear | NBroadcast | NBroadcastType nat | NAddNetDest | NRemoveNetDest | NOr | NAnd | NSwap

fun nd_step :: "int \<Rightarrow> int list \<Rightarrow> nd_op \<Rightarrow> NetDest \<times> NetDest \<Rightarrow> (NetDest \<times> NetDest) option" where
  "nd_step p c (NAdd m j) (v, w) = map_option (\<lambda>v. (v, w)) (nd_add c v \<lparr>mach_type = int m, mach_num = int j\<rparr>)"
| "nd_step p c (NRemove m j) (v, w) = map_option (\<lambda>v. (v, w)) (nd_remove c v \<lparr>mach_type = int m, mach_num = int j\<rparr>)"
| "nd_step p c NClear (v, w) = map_option (\<lambda>v. (v, w)) (nd_clear v)"
| "nd_step p c NBroadcast (v, w) = map_option (\<lambda>v. (v, w)) (nd_broadcast c v)"
| "nd_step p c (NBroadcastType m) (v, w) = map_option (\<lambda>v. (v, w)) (nd_broadcast_type c (int m) v)"
| "nd_step p c NAddNetDest (v, w) = map_option (\<lambda>v. (v, w)) (nd_addNetDest v w)"
| "nd_step p c NRemoveNetDest (v, w) = map_option (\<lambda>v. (v, w)) (nd_removeNetDest v w)"
| "nd_step p c NOr (v, w) = map_option (\<lambda>v. (v, w)) (nd_OR p c v w)"
| "nd_step p c NAnd (v, w) = map_option (\<lambda>v. (v, w)) (nd_AND p c v w)"
| "nd_step p c NSwap (v, w) = Some (w, v)"

fun nd_run :: "int \<Rightarrow> int list \<Rightarrow> nd_op list \<Rightarrow> NetDest \<times> NetDest \<Rightarrow> (NetDest \<times> NetDest) option" where
  "nd_run p c [] st = Some st"
| "nd_run p c (x # xs) st = do { st \<leftarrow> nd_step p c x st; nd_run p c xs st }"

fun nd_spec :: "int list \<Rightarrow> nd_op \<Rightarrow> (nat \<times> nat) set \<times> (nat \<times> nat) set \<Rightarrow> (nat \<times> nat) set \<times> (nat \<times> nat) set" where
  "nd_spec c (NAdd m j) (A, B) = (insert (m, j) A, B)"
| "nd_spec c (NRemove m j) (A, B) = (A - {(m, j)}, B)"
| "nd_spec c NClear (A, B) = ({}, B)"
| "nd_spec c NBroadcast (A, B) = (set (all_machines c), B)"
| "nd_spec c (NBroadcastType m) (A, B) = (A \<union> {m} \<times> {..<nat (c ! m)}, B)"
| "nd_spec c NAddNetDest (A, B) = (A \<union> B, B)"
| "nd_spec c NRemoveNetDest (A, B) = (A - B, B)"
| "nd_spec c NOr (A, B) = (A \<union> B, B)"
| "nd_spec c NAnd (A, B) = (A \<inter> B, B)"
| "nd_spec c NSwap (A, B) = (B, A)"

fun nd_ok :: "int list \<Rightarrow> nd_op \<Rightarrow> bool" where
  "nd_ok c (NAdd m j) = (m < length c \<and> j < nat (c ! m))"
| "nd_ok c (NRemove m j) = (m < length c \<and> j < nat (c ! m))"
| "nd_ok c (NBroadcastType m) = (m < length c)"
| "nd_ok c x = True"

lemma nd_step_rep:
  assumes "nd_rep c v A" "nd_rep c w B" "nd_ok c x"
  shows "\<exists>v' w'. nd_step p c x (v, w) = Some (v', w') \<and> nd_rep c v' (fst (nd_spec c x (A, B))) \<and> nd_rep c w' (snd (nd_spec c x (A, B)))"
proof (cases x)
  case (NAdd m j) with nd_rep_add [OF assms(1)] assms show ?thesis by fastforce
next
  case (NRemove m j) with nd_rep_remove [OF assms(1)] assms show ?thesis by fastforce
next
  case (NBroadcastType m) with nd_rep_broadcast_type [OF assms(1)] assms show ?thesis by fastforce
qed (use assms nd_rep_clear [OF assms(1)] nd_rep_broadcast [OF assms(1)] nd_rep_addNetDest [OF assms(1,2)] nd_rep_removeNetDest [OF assms(1,2)]
    nd_rep_OR [OF assms(1,2), of p] nd_rep_AND [OF assms(1,2), of p] in auto)

lemma nd_run_rep:
  "\<lbrakk>nd_rep c v A; nd_rep c w B; \<forall>x \<in> set xs. nd_ok c x\<rbrakk>
    \<Longrightarrow> \<exists>v' w'. nd_run p c xs (v, w) = Some (v', w') \<and> nd_rep c v' (fst (fold (nd_spec c) xs (A, B))) \<and> nd_rep c w' (snd (fold (nd_spec c) xs (A, B)))"
proof (induction xs arbitrary: v w A B)
  case (Cons x xs)
  obtain A1 B1 where 1: "nd_spec c x (A, B) = (A1, B1)" by fastforce
  with nd_step_rep [OF Cons.prems(1,2)] Cons.prems(3) obtain v1 w1 where
    "nd_step p c x (v, w) = Some (v1, w1)" "nd_rep c v1 A1" "nd_rep c w1 B1" by fastforce
  with Cons.IH [of v1 A1 w1 B1] Cons.prems(3) 1 show ?case by simp
qed auto

text \<open>C27. Every program of operations on two network destinations, over machines that exist and with at least one machine of each
  type, returns; the destination then answers membership, count, emptiness, broadcast, inclusion, intersection, the smallest machine of a
  type and the list of network numbers exactly as the set of machines the program describes.\<close>

theorem netdest_refines_machine_sets:
  assumes "\<forall>n \<in> set counts. 0 < n" "\<forall>x \<in> set xs. nd_ok counts x" "fold (nd_spec counts) xs ({}, {}) = (A, B)"
  shows "\<exists>z v w. nd_new procs counts = Some z \<and> nd_run procs counts xs (z, z) = Some (v, w)
    \<and> (\<forall>(m, j) \<in> set (all_machines counts). nd_isElement counts v \<lparr>mach_type = int m, mach_num = int j\<rparr> = Some ((m, j) \<in> A))
    \<and> nd_count v = Some (int (card A)) \<and> nd_isEmpty v = Some (A = {}) \<and> nd_isBroadcast v = Some (A = set (all_machines counts))
    \<and> nd_isSuperset v w = Some (B \<subseteq> A) \<and> nd_intersectionIsNotEmpty v w = Some (A \<inter> B \<noteq> {})
    \<and> (\<forall>m < length counts. nd_smallestElement_of counts v (int m) =
        (if \<exists>j. (m, j) \<in> A then Some \<lparr>mach_type = int m, mach_num = int (LEAST j. (m, j) \<in> A)\<rparr> else None))
    \<and> nd_getAllDest counts v = Some (map (\<lambda>(m, j). sum_list (take m counts) + int j) (filter (\<lambda>x. x \<in> A) (all_machines counts)))"
proof -
  obtain z where z: "nd_new procs counts = Some z" "nd_rep counts z {}" using nd_rep_new [OF assms(1)] by blast
  with nd_run_rep [OF z(2) z(2) assms(2), of procs] assms(3) obtain v w where
    r: "nd_run procs counts xs (z, z) = Some (v, w)" "nd_rep counts v A" "nd_rep counts w B" by auto
  have "\<forall>(m, j) \<in> set (all_machines counts). nd_isElement counts v \<lparr>mach_type = int m, mach_num = int j\<rparr> = Some ((m, j) \<in> A)"
    using nd_rep_isElement [OF r(2)] by blast
  with z(1) r(1) nd_rep_count [OF r(2)] nd_rep_isEmpty [OF r(2)] nd_rep_isBroadcast [OF r(2)] nd_rep_isSuperset [OF r(2,3)]
    nd_rep_meets [OF r(2,3)] nd_rep_smallest [OF r(2)] nd_rep_getAllDest [OF r(2)] show ?thesis by blast
qed

theorem netdest_refines_machine_sets_witness:
  "\<exists>z v w. nd_new 4 [2, 1] = Some z \<and> nd_run 4 [2, 1] [NAdd 1 0, NSwap, NBroadcast, NRemoveNetDest] (z, z) = Some (v, w)
    \<and> nd_getAllDest [2, 1] v = Some [0, 1]"
  using netdest_refines_machine_sets [of "[2, 1]" "[NAdd 1 0, NSwap, NBroadcast, NRemoveNetDest]" "set (all_machines [2, 1]) - {(1, 0)}" "{(1, 0)}" 4]
  by (force simp: all_machines_def upt_rec)

end
