(* ===== verification/MemCtrl_Model.thy ===== *)
theory MemCtrl_Model
  imports EventQueue_Model "HOL-Library.Word"
begin

text \<open>
  The memory controller of Ruby, \<^verbatim>\<open>system/MemoryControl.*\<close> and \<^verbatim>\<open>system/MemoryNode.h\<close>: requests wait in an input queue
  and in one queue per bank; every memory cycle scans the banks in a round robin, issues a refresh or a request where the timing of bank,
  bus and rank allows it, and moves one request from the input to its bank.

  The members that the constructor copies from the configuration and that never change are in \<open>mem_config\<close>.  Counters that the code
  decrements under a guard are natural numbers, the others integers.  The memory messages come from generated code; a function of the
  pointer gives their address and type.  The results of \<^verbatim>\<open>random()\<close> are a sequence, of which \<open>mc_draws\<close> counts the elements
  used.  Profiling is left out.

  Main results: a history of what every cycle issues respects the timing of the DRAM (bank busy time, bus occupancy, four activates per
  window and rank) when no fixed delay is configured, and a cycle loses no request, in order, in both modes; it succeeds unless refreshes
  are overrun or the window is longer than the shift of \<^verbatim>\<open>markTfaw\<close> allows.
\<close>

unbundle bit_operations_syntax

subsection \<open>State\<close>

record MemoryNode =
  mn_time :: Time
  mn_msg_counter :: int
  mn_msgptr :: "nat option"
  mn_addr :: "64 word"
  mn_is_mem_read :: bool
  mn_is_dirty_wb :: bool

record mem_config =
  mem_bus_cycle_multiplier :: nat
  banks_per_rank :: nat
  ranks_per_dimm :: nat
  dimms_per_channel :: nat
  bank_bit_0 :: nat
  rank_bit_0 :: nat
  dimm_bit_0 :: nat
  bank_queue_size :: nat
  bank_busy_time :: nat
  rank_rank_delay :: nat
  read_write_delay :: nat
  basic_bus_busy_time :: nat
  mem_ctl_latency :: nat
  refresh_period :: nat
  memRandomArbitrate :: nat
  tFaw :: nat
  memFixedDelay :: nat

definition total_ranks :: "mem_config \<Rightarrow> nat" where
  "total_ranks cfg = ranks_per_dimm cfg * dimms_per_channel cfg"

definition total_banks :: "mem_config \<Rightarrow> nat" where
  "total_banks cfg = banks_per_rank cfg * ranks_per_dimm cfg * dimms_per_channel cfg"

definition refresh_period_system :: "mem_config \<Rightarrow> nat" where
  "refresh_period_system cfg = refresh_period cfg div total_banks cfg"

record MemoryControl =
  mc_consumer_ptr :: ConsumerPtr
  mc_msg_counter :: int
  mc_awakened :: bool
  mc_response_queue :: "MemoryNode list"
  mc_input_queue :: "MemoryNode list"
  mc_bankQueues :: "MemoryNode list list"
  mc_bankBusyCounter :: "nat list"
  mc_oldRequest :: "bool list"
  mc_tfaw_shift :: "64 word list"
  mc_tfaw_count :: "int list"
  mc_busBusyCounter_Write :: nat
  mc_busBusyCounter_ReadNewRank :: nat
  mc_busBusyCounter_Basic :: nat
  mc_busBusy_WhichRank :: nat
  mc_roundRobin :: nat
  mc_refresh_count :: int
  mc_need_refresh :: nat
  mc_refresh_bank :: nat
  mc_ageCounter :: nat
  mc_idleCount :: int
  mc_draws :: nat

definition MemoryControl_new :: "mem_config \<Rightarrow> MemoryControl option" where
  "MemoryControl_new cfg = do {
     assert_that (tFaw cfg \<le> 62);
     assert_that (total_banks cfg \<noteq> 0);
     Some \<lparr>mc_consumer_ptr = None, mc_msg_counter = 0, mc_awakened = False, mc_response_queue = [], mc_input_queue = [],
           mc_bankQueues = replicate (total_banks cfg) [], mc_bankBusyCounter = replicate (total_banks cfg) 0,
           mc_oldRequest = replicate (total_banks cfg) False, mc_tfaw_shift = replicate (total_ranks cfg) 0,
           mc_tfaw_count = replicate (total_ranks cfg) 0, mc_busBusyCounter_Write = 0, mc_busBusyCounter_ReadNewRank = 0,
           mc_busBusyCounter_Basic = 0, mc_busBusy_WhichRank = 0, mc_roundRobin = 0, mc_refresh_count = 1, mc_need_refresh = 0,
           mc_refresh_bank = 0, mc_ageCounter = 0, mc_idleCount = 0, mc_draws = 0\<rparr>
   }"

definition mc_random :: "(nat \<Rightarrow> nat) \<Rightarrow> MemoryControl \<Rightarrow> nat \<times> MemoryControl" where
  "mc_random rnd m = (rnd (mc_draws m), m\<lparr>mc_draws := Suc (mc_draws m)\<rparr>)"

subsection \<open>Interface to the directory\<close>

definition addr_field :: "64 word \<Rightarrow> nat \<Rightarrow> nat \<Rightarrow> nat" where
  "addr_field addr low n = unat (drop_bit low addr AND (of_nat n - 1))"

definition getBank :: "mem_config \<Rightarrow> 64 word \<Rightarrow> nat" where
  "getBank cfg addr =
     addr_field addr (dimm_bit_0 cfg) (dimms_per_channel cfg) * ranks_per_dimm cfg * banks_per_rank cfg
     + addr_field addr (rank_bit_0 cfg) (ranks_per_dimm cfg) * banks_per_rank cfg
     + addr_field addr (bank_bit_0 cfg) (banks_per_rank cfg)"

definition getRank :: "mem_config \<Rightarrow> nat \<Rightarrow> nat option" where
  "getRank cfg bank = do {
     assert_that (banks_per_rank cfg \<noteq> 0);
     assert_that (bank div banks_per_rank cfg < ranks_per_dimm cfg * dimms_per_channel cfg);
     Some (bank div banks_per_rank cfg)
   }"

definition enqueueMemRef :: "nat \<Rightarrow> MemoryNode \<Rightarrow> EventQueue \<Rightarrow> MemoryControl \<Rightarrow> (EventQueue \<times> MemoryControl) option" where
  "enqueueMemRef self memRef eq m = do {
     let m = m\<lparr>mc_msg_counter := mc_msg_counter m + 1\<rparr>;
     let m = m\<lparr>mc_input_queue := mc_input_queue m @ [memRef\<lparr>mn_msg_counter := mc_msg_counter m\<rparr>]\<rparr>;
     (if \<not> mc_awakened m then do { eq \<leftarrow> scheduleEvent eq (Some self) 1; Some (eq, m\<lparr>mc_awakened := True\<rparr>) } else Some (eq, m))
   }"

definition mc_enqueue ::
  "(nat \<Rightarrow> 64 word \<times> bool) \<Rightarrow> nat \<Rightarrow> nat \<Rightarrow> Time \<Rightarrow> EventQueue \<Rightarrow> MemoryControl \<Rightarrow> (EventQueue \<times> MemoryControl) option" where
  "mc_enqueue memory_msg self message latency eq m = do {
     let (addr, is_mem_read) = memory_msg message;
     enqueueMemRef self \<lparr>mn_time = getTime eq + latency, mn_msg_counter = 0, mn_msgptr = Some message, mn_addr = addr,
       mn_is_mem_read = is_mem_read, mn_is_dirty_wb = \<not> is_mem_read\<rparr> eq m
   }"

definition mc_isReady :: "EventQueue \<Rightarrow> MemoryControl \<Rightarrow> bool" where
  "mc_isReady eq m = (case mc_response_queue m of [] \<Rightarrow> False | r # _ \<Rightarrow> mn_time r \<le> getTime eq)"

definition mc_dequeue :: "EventQueue \<Rightarrow> MemoryControl \<Rightarrow> MemoryControl option" where
  "mc_dequeue eq m = do { assert_that (mc_isReady eq m); Some (m\<lparr>mc_response_queue := tl (mc_response_queue m)\<rparr>) }"

definition mc_peekNode :: "EventQueue \<Rightarrow> MemoryControl \<Rightarrow> MemoryNode option" where
  "mc_peekNode eq m = do { assert_that (mc_isReady eq m); Some (hd (mc_response_queue m)) }"

definition mc_peek :: "EventQueue \<Rightarrow> MemoryControl \<Rightarrow> nat option" where
  "mc_peek eq m = do { node \<leftarrow> mc_peekNode eq m; mn_msgptr node }"

definition mc_setConsumer :: "ConsumerPtr \<Rightarrow> MemoryControl \<Rightarrow> MemoryControl" where
  "mc_setConsumer consumer_ptr m = m\<lparr>mc_consumer_ptr := consumer_ptr\<rparr>"

definition enqueueToDirectory :: "mem_config \<Rightarrow> MemoryNode \<Rightarrow> nat \<Rightarrow> EventQueue \<Rightarrow> MemoryControl \<Rightarrow> (EventQueue \<times> MemoryControl) option" where
  "enqueueToDirectory cfg req latency eq m = do {
     let arrival_time = getTime eq + int (latency * mem_bus_cycle_multiplier cfg);
     let m = m\<lparr>mc_response_queue := mc_response_queue m @ [req\<lparr>mn_time := arrival_time\<rparr>]\<rparr>;
     eq \<leftarrow> scheduleEventAbsolute eq (mc_consumer_ptr m) arrival_time;
     Some (eq, m)
   }"

subsection \<open>Issue\<close>

text \<open>
  The literal \<^verbatim>\<open>1\<close> that \<^verbatim>\<open>markTfaw\<close> shifts is an \<^verbatim>\<open>int\<close> of 32 bits, whose sign is extended to 64 bits by the
  assignment; a shift by 32 or more is undefined.
\<close>

definition markTfaw :: "mem_config \<Rightarrow> nat \<Rightarrow> MemoryControl \<Rightarrow> MemoryControl option" where
  "markTfaw cfg rank m =
     (if tFaw cfg = 0 then Some m
      else do {
        assert_that (tFaw cfg \<le> 32);
        s \<leftarrow> vec_at (mc_tfaw_shift m) rank;
        c \<leftarrow> vec_at (mc_tfaw_count m) rank;
        Some (m\<lparr>mc_tfaw_shift := (mc_tfaw_shift m)[rank := s OR signed (push_bit (tFaw cfg - 1) 1 :: 32 word)],
                mc_tfaw_count := (mc_tfaw_count m)[rank := c + 1]\<rparr>)
      })"

definition ACTIVATE_PER_TFAW :: int where
  "ACTIVATE_PER_TFAW = 4"

definition queue_timing_ready :: "mem_config \<Rightarrow> nat \<Rightarrow> MemoryControl \<Rightarrow> bool option" where
  "queue_timing_ready cfg bank m = do {
     old \<leftarrow> vec_at (mc_oldRequest m) bank;
     (if mc_ageCounter m > 2 * bank_busy_time cfg \<and> \<not> old then Some False
      else if mc_busBusyCounter_Basic m = basic_bus_busy_time cfg then Some False
      else if mc_busBusyCounter_Basic m > 0 then Some False
      else do {
        rank \<leftarrow> getRank cfg bank;
        c \<leftarrow> vec_at (mc_tfaw_count m) rank;
        (if c \<ge> ACTIVATE_PER_TFAW then Some False
         else do {
           q \<leftarrow> vec_at (mc_bankQueues m) bank;
           (case q of
              [] \<Rightarrow> None
            | req # _ \<Rightarrow>
                let wr = \<not> mn_is_mem_read req in
                Some (\<not> (wr \<and> mc_busBusyCounter_Write m > 0)
                  \<and> \<not> (\<not> wr \<and> rank \<noteq> mc_busBusy_WhichRank m \<and> mc_busBusyCounter_ReadNewRank m > 0)))
         })
      })
   }"

definition queueReady :: "mem_config \<Rightarrow> (nat \<Rightarrow> nat) \<Rightarrow> nat \<Rightarrow> MemoryControl \<Rightarrow> (bool \<times> MemoryControl) option" where
  "queueReady cfg rnd bank m = do {
     busy \<leftarrow> vec_at (mc_bankBusyCounter m) bank;
     (if busy > 0 \<and> memFixedDelay cfg = 0 then Some (False, m)
      else do {
        let (blocked, m) = (if memRandomArbitrate cfg \<ge> 2 then let (x, m) = mc_random rnd m in (x mod 100 < memRandomArbitrate cfg, m) else (False, m));
        (if blocked then Some (False, m)
         else if memFixedDelay cfg \<noteq> 0 then Some (True, m)
         else do { b \<leftarrow> queue_timing_ready cfg bank m; Some (b, m) })
      })
   }"

definition issueRefresh :: "mem_config \<Rightarrow> nat \<Rightarrow> MemoryControl \<Rightarrow> (bool \<times> MemoryControl) option" where
  "issueRefresh cfg bank m =
     (if mc_need_refresh m = 0 \<or> mc_refresh_bank m \<noteq> bank then Some (False, m)
      else do {
        busy \<leftarrow> vec_at (mc_bankBusyCounter m) bank;
        (if busy > 0 then Some (False, m)
         else if mc_busBusyCounter_Basic m > 0 then Some (False, m)
         else do {
           rank \<leftarrow> getRank cfg bank;
           c \<leftarrow> vec_at (mc_tfaw_count m) rank;
           (if c \<ge> ACTIVATE_PER_TFAW then Some (False, m)
            else do {
              m \<leftarrow> markTfaw cfg rank (m\<lparr>
                mc_need_refresh := mc_need_refresh m - 1,
                mc_refresh_bank := (if Suc (mc_refresh_bank m) \<ge> total_banks cfg then 0 else Suc (mc_refresh_bank m)),
                mc_bankBusyCounter := (mc_bankBusyCounter m)[bank := bank_busy_time cfg],
                mc_busBusyCounter_Basic := basic_bus_busy_time cfg,
                mc_busBusyCounter_Write := basic_bus_busy_time cfg,
                mc_busBusyCounter_ReadNewRank := basic_bus_busy_time cfg\<rparr>);
              Some (True, m)
            })
         })
      })"

definition issueRequest :: "mem_config \<Rightarrow> nat \<Rightarrow> EventQueue \<Rightarrow> MemoryControl \<Rightarrow> (EventQueue \<times> MemoryControl) option" where
  "issueRequest cfg bank eq m = do {
     rank \<leftarrow> getRank cfg bank;
     q \<leftarrow> vec_at (mc_bankQueues m) bank;
     (case q of
        [] \<Rightarrow> None
      | req # q' \<Rightarrow> do {
          let m = m\<lparr>mc_bankQueues := (mc_bankQueues m)[bank := q']\<rparr>;
          (eq, m) \<leftarrow> (if mn_msgptr req \<noteq> None then enqueueToDirectory cfg req (mem_ctl_latency cfg + memFixedDelay cfg) eq m else Some (eq, m));
          m \<leftarrow> markTfaw cfg rank (m\<lparr>mc_oldRequest := (mc_oldRequest m)[bank := False]\<rparr>);
          Some (eq, m\<lparr>mc_bankBusyCounter := (mc_bankBusyCounter m)[bank := bank_busy_time cfg],
                      mc_busBusy_WhichRank := rank,
                      mc_busBusyCounter_Basic := basic_bus_busy_time cfg,
                      mc_busBusyCounter_Write := basic_bus_busy_time cfg + (if mn_is_mem_read req then read_write_delay cfg else 0),
                      mc_busBusyCounter_ReadNewRank := basic_bus_busy_time cfg + (if mn_is_mem_read req then rank_rank_delay cfg else 0)\<rparr>)
        })
   }"

subsection \<open>The cycle\<close>

definition count_down :: "MemoryControl \<Rightarrow> MemoryControl" where
  "count_down m = m\<lparr>mc_bankBusyCounter := map (\<lambda>c. c - 1) (mc_bankBusyCounter m),
     mc_busBusyCounter_Write := mc_busBusyCounter_Write m - 1,
     mc_busBusyCounter_ReadNewRank := mc_busBusyCounter_ReadNewRank m - 1,
     mc_busBusyCounter_Basic := mc_busBusyCounter_Basic m - 1,
     mc_tfaw_count := map2 (\<lambda>s c. if s AND 1 \<noteq> 0 then c - 1 else c) (mc_tfaw_shift m) (mc_tfaw_count m),
     mc_tfaw_shift := map (drop_bit 1) (mc_tfaw_shift m)\<rparr>"

definition refresh_timer :: "mem_config \<Rightarrow> MemoryControl \<Rightarrow> MemoryControl option" where
  "refresh_timer cfg m = do {
     let m = (if memFixedDelay cfg = 0 then m\<lparr>mc_refresh_count := mc_refresh_count m - 1\<rparr> else m);
     (if mc_refresh_count m = 0
      then do {
        assert_that (mc_need_refresh m < 10);
        Some (m\<lparr>mc_refresh_count := int (refresh_period_system cfg), mc_need_refresh := mc_need_refresh m + 1\<rparr>)
      }
      else Some m)
   }"

definition new_batch :: "MemoryControl \<Rightarrow> MemoryControl" where
  "new_batch m =
     (let m = m\<lparr>mc_ageCounter := mc_ageCounter m + 1\<rparr> in
      if True \<in> set (mc_oldRequest m) then m
      else m\<lparr>mc_oldRequest := map2 (\<lambda>q old. if q \<noteq> [] then True else old) (mc_bankQueues m) (mc_oldRequest m), mc_ageCounter := 0\<rparr>)"

definition IDLECOUNT_MAX_VALUE :: int where
  "IDLECOUNT_MAX_VALUE = 1000"

text \<open>One bank of the scan.\<close>

definition scan_bank :: "mem_config \<Rightarrow> (nat \<Rightarrow> nat) \<Rightarrow> EventQueue \<Rightarrow> MemoryControl \<Rightarrow> (EventQueue \<times> MemoryControl) option" where
  "scan_bank cfg rnd eq m = do {
     let m = m\<lparr>mc_roundRobin := (if Suc (mc_roundRobin m) \<ge> total_banks cfg then 0 else Suc (mc_roundRobin m))\<rparr>;
     (_, m) \<leftarrow> issueRefresh cfg (mc_roundRobin m) m;
     q \<leftarrow> vec_at (mc_bankQueues m) (mc_roundRobin m);
     (if q = [] then Some (eq, m)
      else do {
        (ready, m) \<leftarrow> queueReady cfg rnd (mc_roundRobin m) (m\<lparr>mc_idleCount := IDLECOUNT_MAX_VALUE\<rparr>);
        (if ready then issueRequest cfg (mc_roundRobin m) eq m else Some (eq, m))
      })
   }"

fun scan_banks :: "mem_config \<Rightarrow> (nat \<Rightarrow> nat) \<Rightarrow> nat \<Rightarrow> EventQueue \<Rightarrow> MemoryControl \<Rightarrow> (EventQueue \<times> MemoryControl) option" where
  "scan_banks cfg rnd 0 eq m = Some (eq, m)"
| "scan_banks cfg rnd (Suc n) eq m = do { (eq, m) \<leftarrow> scan_bank cfg rnd eq m; scan_banks cfg rnd n eq m }"

definition accept_input :: "mem_config \<Rightarrow> MemoryControl \<Rightarrow> MemoryControl option" where
  "accept_input cfg m =
     (case mc_input_queue m of
        [] \<Rightarrow> Some m
      | req # rest \<Rightarrow> do {
          let m = m\<lparr>mc_idleCount := IDLECOUNT_MAX_VALUE\<rparr>;
          let bank = getBank cfg (mn_addr req);
          q \<leftarrow> vec_at (mc_bankQueues m) bank;
          Some (if length q < bank_queue_size cfg
                then m\<lparr>mc_input_queue := rest, mc_bankQueues := (mc_bankQueues m)[bank := q @ [req]]\<rparr> else m)
        })"

definition executeCycle :: "mem_config \<Rightarrow> (nat \<Rightarrow> nat) \<Rightarrow> EventQueue \<Rightarrow> MemoryControl \<Rightarrow> (EventQueue \<times> MemoryControl) option" where
  "executeCycle cfg rnd eq m = do {
     m \<leftarrow> refresh_timer cfg (count_down m);
     let m = new_batch m;
     let m = (if memRandomArbitrate cfg \<noteq> 0 then let (x, m) = mc_random rnd m in m\<lparr>mc_roundRobin := x mod total_banks cfg\<rparr> else m);
     (eq, m) \<leftarrow> scan_banks cfg rnd (total_banks cfg) eq m;
     m \<leftarrow> accept_input cfg m;
     Some (eq, m)
   }"

definition mc_wakeup :: "mem_config \<Rightarrow> (nat \<Rightarrow> nat) \<Rightarrow> nat \<Rightarrow> EventQueue \<Rightarrow> MemoryControl \<Rightarrow> (EventQueue \<times> MemoryControl) option" where
  "mc_wakeup cfg rnd self eq m = do {
     (eq, m) \<leftarrow> executeCycle cfg rnd eq m;
     let m = m\<lparr>mc_idleCount := mc_idleCount m - 1\<rparr>;
     (if mc_idleCount m \<le> 0 then Some (eq, m\<lparr>mc_awakened := False\<rparr>)
      else do { eq \<leftarrow> scheduleEvent eq (Some self) (int (mem_bus_cycle_multiplier cfg)); Some (eq, m) })
   }"


subsection \<open>Activates\<close>

definition mc_wf :: "mem_config \<Rightarrow> MemoryControl \<Rightarrow> bool" where
  "mc_wf cfg m \<longleftrightarrow> length (mc_bankQueues m) = total_banks cfg \<and> length (mc_bankBusyCounter m) = total_banks cfg
     \<and> length (mc_oldRequest m) = total_banks cfg \<and> length (mc_tfaw_shift m) = total_ranks cfg \<and> length (mc_tfaw_count m) = total_ranks cfg
     \<and> mc_roundRobin m < total_banks cfg \<and> mc_refresh_bank m < total_banks cfg"

abbreviation rank_of :: "mem_config \<Rightarrow> nat \<Rightarrow> nat" where "rank_of cfg b \<equiv> b div banks_per_rank cfg"

lemma getRank_ok:
  assumes "bank < total_banks cfg"
  shows "getRank cfg bank = Some (rank_of cfg bank)" "rank_of cfg bank < total_ranks cfg"
proof -
  have "0 < banks_per_rank cfg" using assms by (cases "banks_per_rank cfg") (simp_all add: total_banks_def)
  moreover have "bank < total_ranks cfg * banks_per_rank cfg" using assms by (simp add: total_banks_def total_ranks_def ac_simps)
  then show "rank_of cfg bank < total_ranks cfg" by (simp add: less_mult_imp_div_less)
  ultimately show "getRank cfg bank = Some (rank_of cfg bank)" by (simp add: getRank_def total_ranks_def)
qed

text \<open>What a step does to the timing: nothing, or the activate of a bank that is allowed.\<close>

definition quiet :: "MemoryControl \<Rightarrow> MemoryControl \<Rightarrow> bool" where
  "quiet m m' \<longleftrightarrow> mc_bankBusyCounter m' = mc_bankBusyCounter m \<and> mc_busBusyCounter_Basic m' = mc_busBusyCounter_Basic m
     \<and> mc_tfaw_shift m' = mc_tfaw_shift m \<and> mc_tfaw_count m' = mc_tfaw_count m"

definition may_activate :: "mem_config \<Rightarrow> nat \<Rightarrow> MemoryControl \<Rightarrow> bool" where
  "may_activate cfg b m \<longleftrightarrow> b < total_banks cfg \<and> mc_bankBusyCounter m ! b = 0 \<and> mc_busBusyCounter_Basic m = 0 \<and> mc_tfaw_count m ! rank_of cfg b < 4"

definition activates :: "mem_config \<Rightarrow> nat \<Rightarrow> MemoryControl \<Rightarrow> MemoryControl \<Rightarrow> bool" where
  "activates cfg b m m' \<longleftrightarrow> mc_bankBusyCounter m' = (mc_bankBusyCounter m)[b := bank_busy_time cfg] \<and> mc_busBusyCounter_Basic m' = basic_bus_busy_time cfg
     \<and> (0 < tFaw cfg \<and> tFaw cfg \<le> 31 \<longrightarrow>
          mc_tfaw_shift m' = (mc_tfaw_shift m)[rank_of cfg b := mc_tfaw_shift m ! rank_of cfg b OR push_bit (tFaw cfg - 1) 1]
          \<and> mc_tfaw_count m' = (mc_tfaw_count m)[rank_of cfg b := mc_tfaw_count m ! rank_of cfg b + 1])"

lemma quiet_refl [simp]: "quiet m m" and quiet_trans: "quiet m m1 \<Longrightarrow> quiet m1 m2 \<Longrightarrow> quiet m m2"
  by (simp_all add: quiet_def)

lemma quiet_may_activate: "quiet m m' \<Longrightarrow> may_activate cfg b m' \<longleftrightarrow> may_activate cfg b m"
  by (simp add: quiet_def may_activate_def)

lemma quiet_activates: "quiet m m1 \<Longrightarrow> activates cfg b m1 m2 \<Longrightarrow> activates cfg b m m2" "activates cfg b m m1 \<Longrightarrow> quiet m1 m2 \<Longrightarrow> activates cfg b m m2"
  by (simp_all add: quiet_def activates_def)

lemma signed_one: "t \<le> 31 \<Longrightarrow> signed (push_bit (t - 1) 1 :: 32 word) = (push_bit (t - 1) 1 :: 64 word)"
  by (rule bit_word_eqI) (auto simp: bit_simps split: if_splits)

text \<open>The fields that the four parts of the controller leave alone while they issue.\<close>

definition same_queues :: "MemoryControl \<Rightarrow> MemoryControl \<Rightarrow> bool" where
  "same_queues m m' \<longleftrightarrow> mc_bankQueues m' = mc_bankQueues m \<and> mc_input_queue m' = mc_input_queue m \<and> mc_response_queue m' = mc_response_queue m
     \<and> mc_consumer_ptr m' = mc_consumer_ptr m \<and> mc_roundRobin m' = mc_roundRobin m"

text \<open>\<^verbatim>\<open>markTfaw\<close> changes the window of the rank only, and fails for windows of more than 32 cycles.\<close>

lemma markTfaw_total: "\<lbrakk>tFaw cfg \<le> 32; mc_wf cfg m; r < total_ranks cfg\<rbrakk> \<Longrightarrow> \<exists>m'. markTfaw cfg r m = Some m'"
  by (simp add: markTfaw_def mc_wf_def vec_at_def)

lemma markTfaw_window:
  assumes "markTfaw cfg r m = Some m'"
  obtains s c where "m' = m\<lparr>mc_tfaw_shift := s, mc_tfaw_count := c\<rparr>" "length s = length (mc_tfaw_shift m)" "length c = length (mc_tfaw_count m)"
    "0 < tFaw cfg \<and> tFaw cfg \<le> 31 \<longrightarrow> s = (mc_tfaw_shift m)[r := mc_tfaw_shift m ! r OR push_bit (tFaw cfg - 1) 1] \<and> c = (mc_tfaw_count m)[r := mc_tfaw_count m ! r + 1]"
proof (cases "tFaw cfg = 0")
  case True
  then show ?thesis using that [where s = "mc_tfaw_shift m" and c = "mc_tfaw_count m"] assms by (simp add: markTfaw_def)
next
  case False
  let ?s = "(mc_tfaw_shift m)[r := mc_tfaw_shift m ! r OR signed (push_bit (tFaw cfg - 1) 1 :: 32 word)]" and ?c = "(mc_tfaw_count m)[r := mc_tfaw_count m ! r + 1]"
  have "m' = m\<lparr>mc_tfaw_shift := ?s, mc_tfaw_count := ?c\<rparr>" using assms False by (auto simp: markTfaw_def vec_at_def split: if_splits)
  then show ?thesis using that [where s = ?s and c = ?c] signed_one [of "tFaw cfg"] by simp
qed

lemma issueRefresh_ok:
  assumes wf: "mc_wf cfg m" and b: "bank < total_banks cfg"
  shows "tFaw cfg \<le> 32 \<Longrightarrow> \<exists>f m'. issueRefresh cfg bank m = Some (f, m')"
    and "issueRefresh cfg bank m = Some (f, m') \<Longrightarrow> mc_wf cfg m' \<and> same_queues m m' \<and> (if f then may_activate cfg bank m \<and> activates cfg bank m m' else quiet m m')"
proof -
  let ?m = "m\<lparr>mc_need_refresh := mc_need_refresh m - 1, mc_refresh_bank := (if Suc (mc_refresh_bank m) \<ge> total_banks cfg then 0 else Suc (mc_refresh_bank m)),
    mc_bankBusyCounter := (mc_bankBusyCounter m)[bank := bank_busy_time cfg], mc_busBusyCounter_Basic := basic_bus_busy_time cfg,
    mc_busBusyCounter_Write := basic_bus_busy_time cfg, mc_busBusyCounter_ReadNewRank := basic_bus_busy_time cfg\<rparr>"
  have run: "issueRefresh cfg bank m = (if mc_need_refresh m = 0 \<or> mc_refresh_bank m \<noteq> bank \<or> \<not> may_activate cfg bank m then Some (False, m)
      else map_option (\<lambda>m'. (True, m')) (markTfaw cfg (rank_of cfg bank) ?m))"
  proof (cases "mc_need_refresh m = 0 \<or> mc_refresh_bank m \<noteq> bank \<or> \<not> may_activate cfg bank m")
    case True
    have "mc_bankBusyCounter m ! bank > 0 \<or> mc_busBusyCounter_Basic m > 0 \<or> mc_tfaw_count m ! rank_of cfg bank \<ge> 4" if "\<not> may_activate cfg bank m"
      using that b by (auto simp: may_activate_def)
    then have "issueRefresh cfg bank m = Some (False, m)"
      using True wf b getRank_ok [OF b] by (auto simp: issueRefresh_def mc_wf_def vec_at_def ACTIVATE_PER_TFAW_def)
    then show ?thesis using True by simp
  next
    case False
    then show ?thesis using wf b getRank_ok [OF b]
      by (cases "markTfaw cfg (rank_of cfg bank) ?m") (simp_all add: issueRefresh_def mc_wf_def vec_at_def may_activate_def ACTIVATE_PER_TFAW_def)
  qed
  have wf': "mc_wf cfg ?m" using wf b by (simp add: mc_wf_def)
  show "\<exists>f m'. issueRefresh cfg bank m = Some (f, m')" if "tFaw cfg \<le> 32"
    using markTfaw_total [OF that wf' getRank_ok(2) [OF b]] unfolding run by fastforce
  show "mc_wf cfg m' \<and> same_queues m m' \<and> (if f then may_activate cfg bank m \<and> activates cfg bank m m' else quiet m m')" if "issueRefresh cfg bank m = Some (f, m')"
  proof (cases "mc_need_refresh m = 0 \<or> mc_refresh_bank m \<noteq> bank \<or> \<not> may_activate cfg bank m")
    case True
    then show ?thesis using that wf unfolding run by (auto simp: same_queues_def)
  next
    case False
    then have m': f "markTfaw cfg (rank_of cfg bank) ?m = Some m'" "may_activate cfg bank m" using that unfolding run by (auto split: if_splits)
    obtain s c where "m' = ?m\<lparr>mc_tfaw_shift := s, mc_tfaw_count := c\<rparr>" "length s = length (mc_tfaw_shift m)" "length c = length (mc_tfaw_count m)"
      "0 < tFaw cfg \<and> tFaw cfg \<le> 31 \<longrightarrow> s = (mc_tfaw_shift m)[rank_of cfg bank := mc_tfaw_shift m ! rank_of cfg bank OR push_bit (tFaw cfg - 1) 1]
         \<and> c = (mc_tfaw_count m)[rank_of cfg bank := mc_tfaw_count m ! rank_of cfg bank + 1]"
      by (rule markTfaw_window [OF m'(2)]) simp
    then show ?thesis using m'(1,3) wf' by (simp add: activates_def mc_wf_def same_queues_def)
  qed
qed

lemma queueReady_ok:
  assumes wf: "mc_wf cfg m" and b: "bank < total_banks cfg" and q: "mc_bankQueues m ! bank \<noteq> []"
  shows "\<exists>f m'. queueReady cfg rnd bank m = Some (f, m') \<and> mc_wf cfg m' \<and> same_queues m m' \<and> quiet m m' \<and> (f \<and> memFixedDelay cfg = 0 \<longrightarrow> may_activate cfg bank m)"
proof (cases "mc_bankBusyCounter m ! bank > 0 \<and> memFixedDelay cfg = 0")
  case True
  then have "queueReady cfg rnd bank m = Some (False, m)" using wf b by (simp add: queueReady_def mc_wf_def vec_at_def)
  moreover have "same_queues m m" by (simp add: same_queues_def)
  ultimately show ?thesis using wf by fastforce
next
  case False
  have t: "\<exists>f. queue_timing_ready cfg bank n = Some f \<and> (f \<and> memFixedDelay cfg = 0 \<longrightarrow> may_activate cfg bank m)"
    if "n = m\<lparr>mc_draws := d\<rparr>" for n d
    unfolding that using False wf b q getRank_ok [OF b] hd_Cons_tl [OF q]
    by (auto simp: queue_timing_ready_def mc_wf_def vec_at_def may_activate_def ACTIVATE_PER_TFAW_def Let_def split: list.splits)
  define n where "n = (if memRandomArbitrate cfg \<ge> 2 then m\<lparr>mc_draws := Suc (mc_draws m)\<rparr> else m\<lparr>mc_draws := mc_draws m\<rparr>)"
  then obtain f where f: "queue_timing_ready cfg bank n = Some f" "f \<and> memFixedDelay cfg = 0 \<longrightarrow> may_activate cfg bank m" using t by (metis (no_types))
  have "mc_wf cfg n" "same_queues m n" "quiet m n" using wf by (simp_all add: n_def mc_wf_def same_queues_def quiet_def)
  moreover have "queueReady cfg rnd bank m = Some (False, n) \<or> queueReady cfg rnd bank m = Some (if memFixedDelay cfg = 0 then f else True, n)"
    using f(1) False wf b by (auto simp: queueReady_def mc_wf_def vec_at_def mc_random_def n_def Let_def)
  ultimately show ?thesis using f(2) by (auto split: if_splits)
qed



subsection \<open>Requests\<close>

text \<open>The reply to a request that is issued now; a write-back without a message has none.\<close>

definition replies :: "mem_config \<Rightarrow> Time \<Rightarrow> MemoryNode \<Rightarrow> MemoryNode list" where
  "replies cfg now req = (if mn_msgptr req \<noteq> None then [req\<lparr>mn_time := now + int ((mem_ctl_latency cfg + memFixedDelay cfg) * mem_bus_cycle_multiplier cfg)\<rparr>] else [])"

text \<open>The requests of a list that go to a bank, and the issued ones of a bank.\<close>

abbreviation to_bank :: "mem_config \<Rightarrow> nat \<Rightarrow> MemoryNode list \<Rightarrow> MemoryNode list" where
  "to_bank cfg b reqs \<equiv> filter (\<lambda>req. getBank cfg (mn_addr req) = b) reqs"

abbreviation from_bank :: "nat \<Rightarrow> (nat \<times> MemoryNode) list \<Rightarrow> MemoryNode list" where
  "from_bank b issued \<equiv> map snd (filter (\<lambda>x. fst x = b) issued)"

text \<open>The requests of a list leave the heads of their bank queues and are answered, in this order.\<close>

definition flow :: "mem_config \<Rightarrow> Time \<Rightarrow> (nat \<times> MemoryNode) list \<Rightarrow> MemoryControl \<Rightarrow> MemoryControl \<Rightarrow> bool" where
  "flow cfg now issued m m' \<longleftrightarrow> mc_input_queue m' = mc_input_queue m \<and> mc_consumer_ptr m' = mc_consumer_ptr m
     \<and> mc_response_queue m' = mc_response_queue m @ concat (map (replies cfg now \<circ> snd) issued)
     \<and> (\<forall>b<total_banks cfg. mc_bankQueues m ! b = from_bank b issued @ mc_bankQueues m' ! b)"

lemma flow_trans: "\<lbrakk>flow cfg now xs m m1; flow cfg now ys m1 m2\<rbrakk> \<Longrightarrow> flow cfg now (xs @ ys) m m2"
  by (simp add: flow_def)

lemma flow_same: "same_queues m m' \<Longrightarrow> flow cfg now [] m m'"
  by (simp add: flow_def same_queues_def)

lemma scheduled_time: "scheduleEventAbsolute eq c t = Some eq' \<Longrightarrow> getTime eq' = getTime eq"
  by (auto simp: scheduleEventAbsolute_def setLastScheduledWakeup_def getTime_def bind_eq_Some_conv split: option.splits if_splits)

text \<open>The event queue accepts the wakeups of the consumer.\<close>

definition eq_ready :: "mem_config \<Rightarrow> EventQueue \<Rightarrow> MemoryControl \<Rightarrow> bool" where
  "eq_ready cfg eq m \<longleftrightarrow> eq_inv eq \<and> mc_consumer_ptr m \<noteq> None \<and> 0 < mem_ctl_latency cfg + memFixedDelay cfg \<and> 0 < mem_bus_cycle_multiplier cfg"

lemma issueRequest_ok:
  assumes wf: "mc_wf cfg m" and b: "b < total_banks cfg" and q: "mc_bankQueues m ! b \<noteq> []"
  shows "issueRequest cfg b eq m = Some (eq', m') \<Longrightarrow> mc_wf cfg m' \<and> activates cfg b m m' \<and> flow cfg (getTime eq) [(b, hd (mc_bankQueues m ! b))] m m' \<and> getTime eq' = getTime eq"
    and "\<lbrakk>tFaw cfg \<le> 32; eq_ready cfg eq m\<rbrakk> \<Longrightarrow> \<exists>eq' m'. issueRequest cfg b eq m = Some (eq', m') \<and> eq_inv eq'"
proof -
  obtain req q' where rq: "mc_bankQueues m ! b = req # q'" using q by (cases "mc_bankQueues m ! b") auto
  let ?l = "mem_ctl_latency cfg + memFixedDelay cfg" and ?m1 = "m\<lparr>mc_bankQueues := (mc_bankQueues m)[b := q']\<rparr>"
  let ?at = "getTime eq + int ((mem_ctl_latency cfg + memFixedDelay cfg) * mem_bus_cycle_multiplier cfg)"
  let ?m2 = "?m1\<lparr>mc_response_queue := mc_response_queue m @ replies cfg (getTime eq) req\<rparr>"
  let ?m3 = "?m2\<lparr>mc_oldRequest := (mc_oldRequest m)[b := False]\<rparr>"
  have wf3: "mc_wf cfg ?m3" using wf by (simp add: mc_wf_def)
  let ?busy = "\<lambda>m4. m4\<lparr>mc_bankBusyCounter := (mc_bankBusyCounter m4)[b := bank_busy_time cfg], mc_busBusy_WhichRank := rank_of cfg b,
      mc_busBusyCounter_Basic := basic_bus_busy_time cfg,
      mc_busBusyCounter_Write := basic_bus_busy_time cfg + (if mn_is_mem_read req then read_write_delay cfg else 0),
      mc_busBusyCounter_ReadNewRank := basic_bus_busy_time cfg + (if mn_is_mem_read req then rank_rank_delay cfg else 0)\<rparr>"
  let ?eq = "if mn_msgptr req = None then Some eq else scheduleEventAbsolute eq (mc_consumer_ptr m) ?at"
  have run: "issueRequest cfg b eq m = do { eq' \<leftarrow> ?eq; m4 \<leftarrow> markTfaw cfg (rank_of cfg b) ?m3; Some (eq', ?busy m4) }"
  proof (cases "mn_msgptr req")
    case None
    then show ?thesis using getRank_ok [OF b] wf b rq by (simp add: issueRequest_def mc_wf_def vec_at_def replies_def Let_def)
  next
    case (Some x)
    have "enqueueToDirectory cfg req ?l eq ?m1 = map_option (\<lambda>eq'. (eq', ?m2)) (scheduleEventAbsolute eq (mc_consumer_ptr m) ?at)"
      using Some by (cases "scheduleEventAbsolute eq (mc_consumer_ptr m) ?at") (simp_all add: enqueueToDirectory_def Let_def replies_def)
    then show ?thesis using Some getRank_ok [OF b] wf b rq
      by (cases "scheduleEventAbsolute eq (mc_consumer_ptr m) ?at") (simp_all add: issueRequest_def mc_wf_def vec_at_def Let_def)
  qed
  show "mc_wf cfg m' \<and> activates cfg b m m' \<and> flow cfg (getTime eq) [(b, hd (mc_bankQueues m ! b))] m m' \<and> getTime eq' = getTime eq" if r: "issueRequest cfg b eq m = Some (eq', m')"
  proof -
    obtain m4 where m4: "?eq = Some eq'" "markTfaw cfg (rank_of cfg b) ?m3 = Some m4" "m' = ?busy m4" using r unfolding run by (auto simp: bind_eq_Some_conv)
    obtain s c where sc: "m4 = ?m3\<lparr>mc_tfaw_shift := s, mc_tfaw_count := c\<rparr>" "length s = length (mc_tfaw_shift m)" "length c = length (mc_tfaw_count m)"
      "0 < tFaw cfg \<and> tFaw cfg \<le> 31 \<longrightarrow> s = (mc_tfaw_shift m)[rank_of cfg b := mc_tfaw_shift m ! rank_of cfg b OR push_bit (tFaw cfg - 1) 1]
         \<and> c = (mc_tfaw_count m)[rank_of cfg b := mc_tfaw_count m ! rank_of cfg b + 1]"
      by (rule markTfaw_window [OF m4(2)]) simp
    have "mc_wf cfg m'" "activates cfg b m m'" using sc wf by (simp_all add: m4(3) mc_wf_def activates_def)
    moreover have "flow cfg (getTime eq) [(b, hd (mc_bankQueues m ! b))] m m'" using wf rq by (auto simp: flow_def m4(3) sc(1) mc_wf_def nth_list_update)
    moreover have "getTime eq' = getTime eq" using m4(1) by (auto split: if_splits dest: scheduled_time)
    ultimately show ?thesis by blast
  qed
  show "\<exists>eq' m'. issueRequest cfg b eq m = Some (eq', m') \<and> eq_inv eq'" if t: "tFaw cfg \<le> 32" and r: "eq_ready cfg eq m"
  proof -
    obtain c where c: "mc_consumer_ptr m = Some c" using r by (auto simp: eq_ready_def)
    have "0 < ?l * mem_bus_cycle_multiplier cfg" using r unfolding eq_ready_def by (intro mult_pos_pos) auto
    then have "m_globalTime eq < ?at" unfolding getTime_def by linarith
    then obtain eq1 where "scheduleEventAbsolute eq (Some c) ?at = Some eq1" "eq_inv eq1"
      using scheduleEventAbsolute_correct [of eq ?at c] r by (metis eq_ready_def)
    then have "\<exists>eq'. ?eq = Some eq' \<and> eq_inv eq'" using r c by (auto simp: eq_ready_def)
    then show ?thesis using markTfaw_total [OF t wf3 getRank_ok(2) [OF b]] unfolding run by fastforce
  qed
qed


subsection \<open>What a cycle issues\<close>

text \<open>
  The calls of a scan that issue, in their order: an \<^verbatim>\<open>issueRefresh\<close> that returns true, and an \<^verbatim>\<open>issueRequest\<close>, which is
  called where \<^verbatim>\<open>queueReady\<close> returns true.
\<close>

datatype issue = Refresh nat | Request nat

primrec issue_bank :: "issue \<Rightarrow> nat" where
  "issue_bank (Refresh b) = b"
| "issue_bank (Request b) = b"

definition requested :: "issue list \<Rightarrow> nat list" where
  "requested xs = concat (map (\<lambda>x. case x of Refresh b \<Rightarrow> [] | Request b \<Rightarrow> [b]) xs)"

definition bank_issues :: "mem_config \<Rightarrow> (nat \<Rightarrow> nat) \<Rightarrow> MemoryControl \<Rightarrow> issue list" where
  "bank_issues cfg rnd m =
     (let b = (if Suc (mc_roundRobin m) \<ge> total_banks cfg then 0 else Suc (mc_roundRobin m)) in
      case issueRefresh cfg b (m\<lparr>mc_roundRobin := b\<rparr>) of
        None \<Rightarrow> []
      | Some (refreshed, m) \<Rightarrow> (if refreshed then [Refresh b] else [])
          @ (if mc_bankQueues m ! b = [] then []
             else case queueReady cfg rnd b (m\<lparr>mc_idleCount := IDLECOUNT_MAX_VALUE\<rparr>) of
                    None \<Rightarrow> [] | Some (ready, _) \<Rightarrow> if ready then [Request b] else []))"

fun scan_issues :: "mem_config \<Rightarrow> (nat \<Rightarrow> nat) \<Rightarrow> nat \<Rightarrow> EventQueue \<Rightarrow> MemoryControl \<Rightarrow> issue list" where
  "scan_issues cfg rnd 0 eq m = []"
| "scan_issues cfg rnd (Suc n) eq m =
     bank_issues cfg rnd m @ (case scan_bank cfg rnd eq m of None \<Rightarrow> [] | Some (eq, m) \<Rightarrow> scan_issues cfg rnd n eq m)"

text \<open>With the timing of the DRAM, at most one bank is activated, and it may be.\<close>

definition timed :: "mem_config \<Rightarrow> issue list \<Rightarrow> MemoryControl \<Rightarrow> MemoryControl \<Rightarrow> bool" where
  "timed cfg xs m m' \<longleftrightarrow> xs = [] \<and> quiet m m' \<or> (\<exists>x. xs = [x] \<and> may_activate cfg (issue_bank x) m \<and> activates cfg (issue_bank x) m m')"

lemma timed_trans:
  assumes "0 < basic_bus_busy_time cfg" "timed cfg xs m m1" "timed cfg ys m1 m2"
  shows "timed cfg (xs @ ys) m m2"
proof (cases "xs = []")
  case True
  then have "quiet m m1" using assms(2) by (simp add: timed_def)
  then show ?thesis using True assms(3) quiet_trans quiet_activates(1) quiet_may_activate by (fastforce simp: timed_def)
next
  case False
  then obtain x where x: "xs = [x]" "may_activate cfg (issue_bank x) m" "activates cfg (issue_bank x) m m1" using assms(2) by (auto simp: timed_def)
  have "\<not> may_activate cfg b m1" for b using x(3) assms(1) by (simp add: activates_def may_activate_def)
  then have "ys = []" "quiet m1 m2" using assms(3) by (auto simp: timed_def)
  then show ?thesis using x quiet_activates(2) by (simp add: timed_def)
qed

lemma timed_quiet:
  assumes "quiet m m1" "timed cfg xs m1 m2" "quiet m2 m'"
  shows "timed cfg xs m m'"
  using assms(2) quiet_trans [OF assms(1)] quiet_trans [OF _ assms(3)] quiet_activates(1) [OF assms(1)] quiet_activates(2) [OF _ assms(3)] quiet_may_activate [OF assms(1)]
  unfolding timed_def by blast

text \<open>The two branches of a scan step: the bank has a request that is ready, or not.\<close>

lemma scan_bank_eq:
  assumes wf: "mc_wf cfg m" and r: "issueRefresh cfg b (m\<lparr>mc_roundRobin := b\<rparr>) = Some (f, m1)"
    and b: "b = (if Suc (mc_roundRobin m) \<ge> total_banks cfg then 0 else Suc (mc_roundRobin m))" "b < total_banks cfg"
  obtains g m2 where "mc_wf cfg m2" "flow cfg now [] m m2" "mc_bankQueues m2 = mc_bankQueues m" "mc_consumer_ptr m2 = mc_consumer_ptr m"
    "if f then may_activate cfg b m \<and> activates cfg b m m2 else quiet m m2" "g \<Longrightarrow> mc_bankQueues m2 ! b \<noteq> []" "g \<and> memFixedDelay cfg = 0 \<longrightarrow> may_activate cfg b m2"
    "scan_bank cfg rnd eq m = (if g then issueRequest cfg b eq m2 else Some (eq, m2))"
    "bank_issues cfg rnd m = (if f then [Refresh b] else []) @ (if g then [Request b] else [])"
proof -
  let ?m0 = "m\<lparr>mc_roundRobin := b\<rparr>"
  have m0: "mc_wf cfg ?m0" "quiet m ?m0" using wf b(2) by (simp_all add: mc_wf_def quiet_def)
  from issueRefresh_ok(2) [OF m0(1) b(2) r] have m1: "mc_wf cfg m1" "same_queues ?m0 m1" "if f then may_activate cfg b ?m0 \<and> activates cfg b ?m0 m1 else quiet ?m0 m1" by simp_all
  have s1: "mc_roundRobin m1 = b" "mc_bankQueues m1 = mc_bankQueues m" "mc_consumer_ptr m1 = mc_consumer_ptr m" "length (mc_bankQueues m) = total_banks cfg" "flow cfg now [] m m1"
    using m1(1,2) by (simp_all add: same_queues_def mc_wf_def flow_def)
  have act1: "if f then may_activate cfg b m \<and> activates cfg b m m1 else quiet m m1"
    using m1(3) quiet_trans [OF m0(2)] quiet_activates(1) [OF m0(2)] quiet_may_activate [OF m0(2)] by (cases f) simp_all
  have run: "scan_bank cfg rnd eq m = (if mc_bankQueues m ! b = [] then Some (eq, m1)
      else do { (ready, m) \<leftarrow> queueReady cfg rnd b (m1\<lparr>mc_idleCount := IDLECOUNT_MAX_VALUE\<rparr>); (if ready then issueRequest cfg (mc_roundRobin m) eq m else Some (eq, m)) })"
    using r s1 b(2) by (simp add: scan_bank_def Let_def b(1) [symmetric] vec_at_def)
  show ?thesis
  proof (cases "mc_bankQueues m ! b = []")
    case True
    then have "bank_issues cfg rnd m = (if f then [Refresh b] else [])" using r s1(2) by (simp add: bank_issues_def Let_def b(1) [symmetric])
    then show ?thesis using that [of m1 False] m1(1) s1 act1 run True by simp
  next
    case False
    let ?m1 = "m1\<lparr>mc_idleCount := IDLECOUNT_MAX_VALUE\<rparr>"
    have i: "mc_wf cfg ?m1" "quiet m1 ?m1" "mc_bankQueues ?m1 ! b \<noteq> []" using m1(1) s1(2) False by (simp_all add: mc_wf_def quiet_def)
    from queueReady_ok [OF i(1) b(2) i(3), of rnd] obtain g m2 where
      m2: "queueReady cfg rnd b ?m1 = Some (g, m2)" "mc_wf cfg m2" "same_queues ?m1 m2" "quiet ?m1 m2" "g \<and> memFixedDelay cfg = 0 \<longrightarrow> may_activate cfg b ?m1" by blast
    have q2: "quiet m1 m2" "mc_roundRobin m2 = b" "mc_bankQueues m2 = mc_bankQueues m" "mc_consumer_ptr m2 = mc_consumer_ptr m" "flow cfg now [] m m2"
      using quiet_trans [OF i(2) m2(4)] m2(3) s1 by (simp_all add: same_queues_def flow_def)
    have act2: "if f then may_activate cfg b m \<and> activates cfg b m m2 else quiet m m2"
      using act1 quiet_trans [OF _ q2(1)] quiet_activates(2) [OF _ q2(1)] by (cases f) simp_all
    have "bank_issues cfg rnd m = (if f then [Refresh b] else []) @ (if g then [Request b] else [])"
      using r s1(2) False m2(1) by (simp add: bank_issues_def Let_def b(1) [symmetric])
    moreover have "scan_bank cfg rnd eq m = (if g then issueRequest cfg b eq m2 else Some (eq, m2))" using run False m2(1) q2(2) by simp
    moreover have "g \<and> memFixedDelay cfg = 0 \<longrightarrow> may_activate cfg b m2" using m2(4,5) quiet_may_activate by blast
    ultimately show ?thesis using that [of m2 g] m2(2) q2(3-5) act2 False by simp
  qed
qed


definition step_ok :: "mem_config \<Rightarrow> Time \<Rightarrow> nat \<Rightarrow> issue list \<Rightarrow> MemoryControl \<Rightarrow> MemoryControl \<Rightarrow> bool" where
  "step_ok cfg now n xs m m' \<longleftrightarrow> (\<exists>issued. map fst issued = requested xs \<and> length issued \<le> n \<and> flow cfg now issued m m')
     \<and> (memFixedDelay cfg = 0 \<and> 0 < basic_bus_busy_time cfg \<longrightarrow> timed cfg xs m m')"

lemma step_ok_trans:
  assumes "step_ok cfg now k xs m m1" "step_ok cfg now n ys m1 m2"
  shows "step_ok cfg now (k + n) (xs @ ys) m m2"
proof -
  obtain ks js where "map fst ks = requested xs" "length ks \<le> k" "flow cfg now ks m m1" "map fst js = requested ys" "length js \<le> n" "flow cfg now js m1 m2"
    using assms by (auto simp: step_ok_def)
  then have "\<exists>issued. map fst issued = requested (xs @ ys) \<and> length issued \<le> k + n \<and> flow cfg now issued m m2"
    by (intro exI [of _ "ks @ js"]) (auto simp: requested_def intro: flow_trans)
  then show ?thesis using assms timed_trans by (auto simp: step_ok_def)
qed

lemma step_ok_consumer: "step_ok cfg now n xs m m' \<Longrightarrow> mc_consumer_ptr m' = mc_consumer_ptr m"
  by (auto simp: step_ok_def flow_def)

lemma scan_bank_refresh:
  assumes "mc_wf cfg m"
  obtains b where "b = (if Suc (mc_roundRobin m) \<ge> total_banks cfg then 0 else Suc (mc_roundRobin m))" "b < total_banks cfg" "mc_wf cfg (m\<lparr>mc_roundRobin := b\<rparr>)"
  using assms that by (auto simp: mc_wf_def split: if_splits)

lemma scan_bank_ok:
  assumes wf: "mc_wf cfg m"
  shows "scan_bank cfg rnd eq m = Some (eq', m') \<Longrightarrow> mc_wf cfg m' \<and> step_ok cfg (getTime eq) 1 (bank_issues cfg rnd m) m m' \<and> getTime eq' = getTime eq"
    and "\<lbrakk>tFaw cfg \<le> 32; eq_ready cfg eq m\<rbrakk> \<Longrightarrow> \<exists>eq' m'. scan_bank cfg rnd eq m = Some (eq', m') \<and> eq_inv eq'"
proof -
  obtain b where b: "b = (if Suc (mc_roundRobin m) \<ge> total_banks cfg then 0 else Suc (mc_roundRobin m))" "b < total_banks cfg" "mc_wf cfg (m\<lparr>mc_roundRobin := b\<rparr>)"
    by (rule scan_bank_refresh [OF wf])
  show "mc_wf cfg m' \<and> step_ok cfg (getTime eq) 1 (bank_issues cfg rnd m) m m' \<and> getTime eq' = getTime eq" if r: "scan_bank cfg rnd eq m = Some (eq', m')"
  proof -
    obtain f m1 where "issueRefresh cfg b (m\<lparr>mc_roundRobin := b\<rparr>) = Some (f, m1)"
      using r by (auto simp: scan_bank_def Let_def b(1) [symmetric] bind_eq_Some_conv)
    from scan_bank_eq [OF wf this b(1,2), of "getTime eq" rnd eq] obtain g m2 where
      m2: "mc_wf cfg m2" "flow cfg (getTime eq) [] m m2" "mc_bankQueues m2 = mc_bankQueues m" "mc_consumer_ptr m2 = mc_consumer_ptr m"
        "if f then may_activate cfg b m \<and> activates cfg b m m2 else quiet m m2" "g \<Longrightarrow> mc_bankQueues m2 ! b \<noteq> []" "g \<and> memFixedDelay cfg = 0 \<longrightarrow> may_activate cfg b m2"
        "scan_bank cfg rnd eq m = (if g then issueRequest cfg b eq m2 else Some (eq, m2))"
        "bank_issues cfg rnd m = (if f then [Refresh b] else []) @ (if g then [Request b] else [])" by blast
    have "timed cfg (if f then [Refresh b] else []) m m2" using m2(5) by (auto simp: timed_def)
    then have first: "step_ok cfg (getTime eq) 0 (if f then [Refresh b] else []) m m2" using m2(2) by (simp add: step_ok_def requested_def)
    have "mc_wf cfg m' \<and> step_ok cfg (getTime eq) 1 (if g then [Request b] else []) m2 m' \<and> getTime eq' = getTime eq"
    proof (cases g)
      case True
      from issueRequest_ok(1) [OF m2(1) b(2) m2(6) [OF True]] r m2(8) True
      have i: "mc_wf cfg m'" "activates cfg b m2 m'" "flow cfg (getTime eq) [(b, hd (mc_bankQueues m2 ! b))] m2 m'" "getTime eq' = getTime eq" by auto
      have "\<exists>issued. map fst issued = requested [Request b] \<and> length issued \<le> 1 \<and> flow cfg (getTime eq) issued m2 m'"
        using i(3) by (intro exI [of _ "[(b, hd (mc_bankQueues m2 ! b))]"]) (simp add: requested_def)
      then show ?thesis using i m2(7) True by (simp add: step_ok_def timed_def)
    next
      case False
      then show ?thesis using r m2(1,8) by (simp add: step_ok_def timed_def requested_def flow_def)
    qed
    then show ?thesis using step_ok_trans [OF first] m2(9) by fastforce
  qed
  show "\<exists>eq' m'. scan_bank cfg rnd eq m = Some (eq', m') \<and> eq_inv eq'" if t: "tFaw cfg \<le> 32" and e: "eq_ready cfg eq m"
  proof -
    obtain f m1 where "issueRefresh cfg b (m\<lparr>mc_roundRobin := b\<rparr>) = Some (f, m1)" using issueRefresh_ok(1) [OF b(3,2) t] by blast
    from scan_bank_eq [OF wf this b(1,2), of "getTime eq" rnd eq] obtain g m2 where
      m2: "mc_wf cfg m2" "flow cfg (getTime eq) [] m m2" "mc_bankQueues m2 = mc_bankQueues m" "mc_consumer_ptr m2 = mc_consumer_ptr m"
        "if f then may_activate cfg b m \<and> activates cfg b m m2 else quiet m m2" "g \<Longrightarrow> mc_bankQueues m2 ! b \<noteq> []" "g \<and> memFixedDelay cfg = 0 \<longrightarrow> may_activate cfg b m2"
        "scan_bank cfg rnd eq m = (if g then issueRequest cfg b eq m2 else Some (eq, m2))"
        "bank_issues cfg rnd m = (if f then [Refresh b] else []) @ (if g then [Request b] else [])" by blast
    have "eq_ready cfg eq m2" using e m2(4) by (simp add: eq_ready_def)
    then show ?thesis using issueRequest_ok(2) [OF m2(1) b(2) m2(6) t] m2(8) by (cases g) (simp_all add: eq_ready_def)
  qed
qed

lemma scan_banks_ok:
  shows "\<lbrakk>mc_wf cfg m; scan_banks cfg rnd n eq m = Some (eq', m')\<rbrakk> \<Longrightarrow> mc_wf cfg m' \<and> step_ok cfg (getTime eq) n (scan_issues cfg rnd n eq m) m m' \<and> getTime eq' = getTime eq"
    and "\<lbrakk>mc_wf cfg m; tFaw cfg \<le> 32; eq_ready cfg eq m\<rbrakk> \<Longrightarrow> \<exists>eq' m'. scan_banks cfg rnd n eq m = Some (eq', m') \<and> eq_inv eq'"
proof (induction n arbitrary: eq m)
  case 0
  { case 1 then show ?case by (simp add: step_ok_def timed_def requested_def flow_def) }
  { case 2 then show ?case by (simp add: eq_ready_def) }
next
  case (Suc n)
  { case 1
    then obtain eq1 m1 where s: "scan_bank cfg rnd eq m = Some (eq1, m1)" "scan_banks cfg rnd n eq1 m1 = Some (eq', m')" by (auto simp: bind_eq_Some_conv)
    from scan_bank_ok(1) [OF 1(1) s(1)] have a: "mc_wf cfg m1" "step_ok cfg (getTime eq) 1 (bank_issues cfg rnd m) m m1" "getTime eq1 = getTime eq" by simp_all
    from Suc(1) [OF a(1) s(2)] show ?case using step_ok_trans [OF a(2)] a(3) s(1) by fastforce }
  { case 2
    from scan_bank_ok(2) [OF 2] obtain eq1 m1 where s: "scan_bank cfg rnd eq m = Some (eq1, m1)" "eq_inv eq1" by blast
    with scan_bank_ok(1) [OF 2(1) s(1)] have "mc_wf cfg m1" "eq_ready cfg eq1 m1" using 2(3) by (auto simp: eq_ready_def dest: step_ok_consumer)
    with Suc(2) 2(2) s(1) show ?case by fastforce }
qed


subsection \<open>A cycle\<close>

lemma prepare_ok:
  assumes "refresh_timer cfg m = Some m1"
  shows "quiet m (new_batch m1)" "flow cfg now [] m (new_batch m1)" "mc_wf cfg m \<Longrightarrow> mc_wf cfg (new_batch m1)"
proof -
  have "quiet m m1" "flow cfg now [] m m1" "mc_wf cfg m \<Longrightarrow> mc_wf cfg m1"
    using assms by (auto simp: refresh_timer_def Let_def quiet_def flow_def mc_wf_def split: if_splits)
  then show "quiet m (new_batch m1)" "flow cfg now [] m (new_batch m1)" "mc_wf cfg m \<Longrightarrow> mc_wf cfg (new_batch m1)"
    by (simp_all add: new_batch_def Let_def quiet_def flow_def mc_wf_def)
qed

definition arbitrate :: "mem_config \<Rightarrow> (nat \<Rightarrow> nat) \<Rightarrow> MemoryControl \<Rightarrow> MemoryControl" where
  "arbitrate cfg rnd m = (if memRandomArbitrate cfg \<noteq> 0 then let (x, m) = mc_random rnd m in m\<lparr>mc_roundRobin := x mod total_banks cfg\<rparr> else m)"

text \<open>The calls of a cycle that issue.\<close>

definition cycle_issues :: "mem_config \<Rightarrow> (nat \<Rightarrow> nat) \<Rightarrow> EventQueue \<Rightarrow> MemoryControl \<Rightarrow> issue list" where
  "cycle_issues cfg rnd eq m = (case refresh_timer cfg (count_down m) of None \<Rightarrow> []
     | Some m \<Rightarrow> scan_issues cfg rnd (total_banks cfg) eq (arbitrate cfg rnd (new_batch m)))"

lemma arbitrate_ok: "quiet m (arbitrate cfg rnd m)" "flow cfg now [] m (arbitrate cfg rnd m)" "mc_wf cfg m \<Longrightarrow> mc_wf cfg (arbitrate cfg rnd m)"
  by (auto simp: arbitrate_def mc_random_def quiet_def flow_def mc_wf_def intro!: mod_less_divisor)

lemma executeCycle_arbitrate:
  "executeCycle cfg rnd eq m = do {
     m \<leftarrow> refresh_timer cfg (count_down m);
     (eq, m) \<leftarrow> scan_banks cfg rnd (total_banks cfg) eq (arbitrate cfg rnd (new_batch m));
     m \<leftarrow> accept_input cfg m;
     Some (eq, m)
   }"
  by (simp add: executeCycle_def arbitrate_def Let_def)

lemma count_down_wf: "mc_wf cfg m \<Longrightarrow> mc_wf cfg (count_down m)"
  by (simp add: mc_wf_def count_down_def)

text \<open>The request that the end of a cycle moves from the input to its bank, when there is room.\<close>

definition accepted :: "mem_config \<Rightarrow> MemoryControl \<Rightarrow> MemoryNode list" where
  "accepted cfg m = (case mc_input_queue m of [] \<Rightarrow> []
     | req # _ \<Rightarrow> if length (mc_bankQueues m ! getBank cfg (mn_addr req)) < bank_queue_size cfg then [req] else [])"

lemma accept_input_ok:
  assumes "accept_input cfg m = Some m'" "mc_wf cfg m"
  shows "quiet m m'" "mc_wf cfg m'" "mc_consumer_ptr m' = mc_consumer_ptr m" "mc_response_queue m' = mc_response_queue m"
    "mc_input_queue m = accepted cfg m @ mc_input_queue m'"
    "\<forall>b<total_banks cfg. mc_bankQueues m' ! b = mc_bankQueues m ! b @ to_bank cfg b (accepted cfg m)
       \<and> length (mc_bankQueues m' ! b) \<le> max (length (mc_bankQueues m ! b)) (bank_queue_size cfg)"
  using assms by (auto simp: accept_input_def accepted_def quiet_def mc_wf_def vec_at_def Let_def nth_list_update split: list.splits if_splits)

lemma executeCycle_ok:
  assumes wf: "mc_wf cfg m" and run: "executeCycle cfg rnd eq m = Some (eq', m')"
  obtains m2 where "mc_wf cfg m2" "step_ok cfg (getTime eq) (total_banks cfg) (cycle_issues cfg rnd eq m) (count_down m) m2" "accept_input cfg m2 = Some m'"
    "getTime eq' = getTime eq"
proof -
  from run obtain m1 m2 where
    s: "refresh_timer cfg (count_down m) = Some m1" "scan_banks cfg rnd (total_banks cfg) eq (arbitrate cfg rnd (new_batch m1)) = Some (eq', m2)"
      "accept_input cfg m2 = Some m'" unfolding executeCycle_arbitrate by (auto simp: bind_eq_Some_conv)
  let ?m = "arbitrate cfg rnd (new_batch m1)" and ?xs = "cycle_issues cfg rnd eq m"
  note p = prepare_ok [OF s(1)] and a = arbitrate_ok [where m = "new_batch m1" and cfg = cfg and rnd = rnd]
  have q: "quiet (count_down m) ?m" "flow cfg now [] (count_down m) ?m" "mc_wf cfg ?m" for now
    using quiet_trans [OF p(1) a(1)] flow_trans [OF p(2) a(2)] a(3) [OF p(3) [OF count_down_wf [OF wf]]] by simp_all
  have "step_ok cfg (getTime eq) 0 [] (count_down m) ?m" using q by (simp add: step_ok_def timed_def requested_def)
  moreover from scan_banks_ok(1) [OF q(3) s(2)] have o: "mc_wf cfg m2" "step_ok cfg (getTime eq) (total_banks cfg) ?xs ?m m2" "getTime eq' = getTime eq"
    by (simp_all add: cycle_issues_def s(1))
  ultimately have "step_ok cfg (getTime eq) (total_banks cfg) ?xs (count_down m) m2" using step_ok_trans by fastforce
  then show ?thesis using that o(1,3) s(3) by blast
qed


subsection \<open>Timing\<close>

text \<open>The activates of a rank in the \<open>tFaw\<close> cycles from the \<open>k\<close>-th on, in a history that starts with the latest cycle.\<close>

definition window :: "mem_config \<Rightarrow> nat list list \<Rightarrow> nat \<Rightarrow> nat \<Rightarrow> nat set" where
  "window cfg h r k = {i. k \<le> i \<and> i < k + tFaw cfg \<and> i < length h \<and> (\<exists>b \<in> set (h ! i). rank_of cfg b = r)}"

definition spaced :: "mem_config \<Rightarrow> nat list list \<Rightarrow> bool" where
  "spaced cfg h \<longleftrightarrow> (\<forall>i<length h. length (h ! i) \<le> 1 \<and> set (h ! i) \<subseteq> {..<total_banks cfg})
     \<and> (\<forall>i j b. i < j \<and> j < length h \<and> b \<in> set (h ! i) \<and> b \<in> set (h ! j) \<longrightarrow> bank_busy_time cfg \<le> j - i)
     \<and> (\<forall>i j. i < j \<and> j < length h \<and> h ! i \<noteq> [] \<and> h ! j \<noteq> [] \<longrightarrow> basic_bus_busy_time cfg \<le> j - i)
     \<and> (0 < tFaw cfg \<and> tFaw cfg \<le> 31 \<longrightarrow> (\<forall>r k. card (window cfg h r k) \<le> 4))"

text \<open>How the counters remember the history.\<close>

definition remembers :: "mem_config \<Rightarrow> nat list list \<Rightarrow> MemoryControl \<Rightarrow> bool" where
  "remembers cfg h m \<longleftrightarrow> (\<forall>b<total_banks cfg. mc_bankBusyCounter m ! b \<le> bank_busy_time cfg)
     \<and> (\<forall>i<length h. \<forall>b \<in> set (h ! i). bank_busy_time cfg \<le> mc_bankBusyCounter m ! b + i)
     \<and> (\<forall>i<length h. h ! i \<noteq> [] \<longrightarrow> basic_bus_busy_time cfg \<le> mc_busBusyCounter_Basic m + i)
     \<and> (0 < tFaw cfg \<and> tFaw cfg \<le> 31 \<longrightarrow> (\<forall>r<total_ranks cfg. mc_tfaw_count m ! r = int (card {k. bit (mc_tfaw_shift m ! r) k}) \<and> mc_tfaw_count m ! r \<le> 4
          \<and> (\<forall>k. bit (mc_tfaw_shift m ! r) k \<longleftrightarrow> k < tFaw cfg \<and> tFaw cfg - 1 - k \<in> window cfg h r 0)))"

lemma window_Cons:
  "window cfg (X # h) r (Suc k) = Suc ` window cfg h r k"
  "i \<in> window cfg (X # h) r 0 \<longleftrightarrow> i < tFaw cfg \<and> (case i of 0 \<Rightarrow> \<exists>b \<in> set X. rank_of cfg b = r | Suc j \<Rightarrow> j \<in> window cfg h r 0)"
proof -
  show "window cfg (X # h) r (Suc k) = Suc ` window cfg h r k"
  proof (rule set_eqI)
    fix i show "i \<in> window cfg (X # h) r (Suc k) \<longleftrightarrow> i \<in> Suc ` window cfg h r k" by (cases i) (auto simp: window_def)
  qed
  show "i \<in> window cfg (X # h) r 0 \<longleftrightarrow> i < tFaw cfg \<and> (case i of 0 \<Rightarrow> \<exists>b \<in> set X. rank_of cfg b = r | Suc j \<Rightarrow> j \<in> window cfg h r 0)"
    by (cases i) (auto simp: window_def)
qed

lemma window_high: "\<lbrakk>spaced cfg h; total_ranks cfg \<le> r\<rbrakk> \<Longrightarrow> window cfg h r k = {}"
proof -
  assume sp: "spaced cfg h" and r: "total_ranks cfg \<le> r"
  have "rank_of cfg b \<noteq> r" if "i < length h" "b \<in> set (h ! i)" for i b
  proof -
    have "b < total_banks cfg" using sp that unfolding spaced_def by blast
    then show ?thesis using getRank_ok(2) [of b cfg] r by simp
  qed
  then show ?thesis unfolding window_def by blast
qed

lemma window_count:
  assumes "remembers cfg h m" "0 < tFaw cfg" "tFaw cfg \<le> 31" "r < total_ranks cfg"
  shows "card (window cfg h r 0) \<le> 4"
proof -
  have bits: "bit (mc_tfaw_shift m ! r) k \<longleftrightarrow> k < tFaw cfg \<and> tFaw cfg - 1 - k \<in> window cfg h r 0" for k using assms by (simp add: remembers_def)
  have "window cfg h r 0 \<subseteq> (\<lambda>k. tFaw cfg - 1 - k) ` {k. bit (mc_tfaw_shift m ! r) k}"
  proof
    fix i assume "i \<in> window cfg h r 0"
    then have "i < tFaw cfg" "bit (mc_tfaw_shift m ! r) (tFaw cfg - 1 - i)" unfolding bits by (auto simp: window_def)
    then show "i \<in> (\<lambda>k. tFaw cfg - 1 - k) ` {k. bit (mc_tfaw_shift m ! r) k}" by (intro image_eqI [of _ _ "tFaw cfg - 1 - i"]) simp_all
  qed
  moreover have fin: "finite {k. bit (mc_tfaw_shift m ! r) k}" by (rule finite_subset [of _ "{..<tFaw cfg}"]) (use bits in blast, simp)
  ultimately have "card (window cfg h r 0) \<le> card {k. bit (mc_tfaw_shift m ! r) k}" by (meson card_image_le card_mono finite_imageI order_trans)
  moreover have "mc_tfaw_count m ! r = int (card {k. bit (mc_tfaw_shift m ! r) k})" "mc_tfaw_count m ! r \<le> 4" using assms unfolding remembers_def by blast+
  ultimately show ?thesis by linarith
qed

lemma card_drop_bit:
  fixes w :: "'a::len word"
  shows "int (card {k. bit w k}) = int (card {k. bit (drop_bit 1 w) k}) + (if w AND 1 \<noteq> 0 then 1 else 0)"
proof -
  have fin: "finite {k. bit w (Suc k)}" by (rule finite_subset [of _ "{..<LENGTH('a)}"]) (auto dest: bit_imp_le_length)
  have low: "w AND 1 \<noteq> 0 \<longleftrightarrow> bit w 0" by (simp add: and_one_eq bit_0 odd_iff_mod_2_eq_one)
  have "{k. bit w k} = Suc ` {k. bit w (Suc k)} \<union> (if bit w 0 then {0} else {})"
  proof (rule set_eqI)
    fix k show "k \<in> {k. bit w k} \<longleftrightarrow> k \<in> Suc ` {k. bit w (Suc k)} \<union> (if bit w 0 then {0} else {})" by (cases k) auto
  qed
  then have "card {k. bit w k} = card {k. bit w (Suc k)} + (if bit w 0 then 1 else 0)"
    using fin by (auto simp: card_Un_disjoint card_image)
  then show ?thesis unfolding low by (simp add: bit_simps)
qed

lemma remembers_count_down:
  assumes wf: "mc_wf cfg m" and rem: "remembers cfg h m" and sp: "spaced cfg h"
  shows "remembers cfg ([] # h) (count_down m)"
proof -
  have "mc_tfaw_count (count_down m) ! r = int (card {k. bit (mc_tfaw_shift (count_down m) ! r) k}) \<and> mc_tfaw_count (count_down m) ! r \<le> 4
      \<and> (\<forall>k. bit (mc_tfaw_shift (count_down m) ! r) k \<longleftrightarrow> k < tFaw cfg \<and> tFaw cfg - 1 - k \<in> window cfg ([] # h) r 0)" if t: "0 < tFaw cfg" "tFaw cfg \<le> 31" and r: "r < total_ranks cfg" for r
  proof -
    let ?s = "mc_tfaw_shift m ! r"
    have old: "mc_tfaw_count m ! r = int (card {k. bit ?s k})" "mc_tfaw_count m ! r \<le> 4" "\<And>k. bit ?s k \<longleftrightarrow> k < tFaw cfg \<and> tFaw cfg - 1 - k \<in> window cfg h r 0"
      using rem t r unfolding remembers_def by blast+
    have new: "mc_tfaw_shift (count_down m) ! r = drop_bit 1 ?s" "mc_tfaw_count (count_down m) ! r = mc_tfaw_count m ! r - (if ?s AND 1 \<noteq> 0 then 1 else 0)"
      using wf r by (simp_all add: count_down_def mc_wf_def)
    have bits: "bit (drop_bit 1 ?s) k \<longleftrightarrow> k < tFaw cfg \<and> tFaw cfg - 1 - k \<in> window cfg ([] # h) r 0" for k
    proof (cases "tFaw cfg - 1 - k")
      case 0
      then show ?thesis using old(3) [of "Suc k"] by (auto simp: bit_simps window_Cons(2))
    next
      case (Suc j)
      then have "tFaw cfg - 1 - Suc k = j" "Suc k < tFaw cfg" "Suc j < tFaw cfg" by simp_all
      then show ?thesis using old(3) [of "Suc k"] Suc by (simp add: bit_simps window_Cons(2))
    qed
    define d :: int where "d = (if ?s AND 1 \<noteq> 0 then 1 else 0)"
    have "0 \<le> d" "int (card {k. bit ?s k}) = int (card {k. bit (drop_bit 1 ?s) k}) + d" using card_drop_bit [of ?s] by (simp_all add: d_def)
    then have "mc_tfaw_count m ! r - d = int (card {k. bit (drop_bit 1 ?s) k})" "mc_tfaw_count m ! r - d \<le> 4" using old(1,2) by linarith+
    then show ?thesis unfolding new d_def [symmetric] using bits by blast
  qed
  moreover have "bank_busy_time cfg \<le> mc_bankBusyCounter (count_down m) ! b + i" if "i < length ([] # h)" "b \<in> set (([] # h) ! i)" for i b
  proof (cases i)
    case (Suc j)
    then have j: "j < length h" "b \<in> set (h ! j)" using that by simp_all
    then have "b < total_banks cfg" using sp [unfolded spaced_def, THEN conjunct1] by blast
    moreover have "bank_busy_time cfg \<le> mc_bankBusyCounter m ! b + j" using rem [unfolded remembers_def, THEN conjunct2, THEN conjunct1] j by blast
    ultimately show ?thesis using Suc wf by (simp add: count_down_def mc_wf_def)
  qed (use that in simp)
  moreover have "basic_bus_busy_time cfg \<le> mc_busBusyCounter_Basic (count_down m) + i" if "i < length ([] # h)" "([] # h) ! i \<noteq> []" for i
  proof (cases i)
    case (Suc j)
    then have "basic_bus_busy_time cfg \<le> mc_busBusyCounter_Basic m + j"
      using that rem [unfolded remembers_def, THEN conjunct2, THEN conjunct2, THEN conjunct1] by simp
    then show ?thesis using Suc by (simp add: count_down_def)
  qed (use that in simp)
  moreover have "mc_bankBusyCounter (count_down m) ! b \<le> bank_busy_time cfg" if b: "b < total_banks cfg" for b
  proof -
    have "mc_bankBusyCounter m ! b \<le> bank_busy_time cfg" using rem b unfolding remembers_def by blast
    then show ?thesis using wf b by (simp add: count_down_def mc_wf_def)
  qed
  ultimately show ?thesis unfolding remembers_def by blast
qed

lemma remembers_quiet: "\<lbrakk>remembers cfg h m; quiet m m'\<rbrakk> \<Longrightarrow> remembers cfg h m'"
proof -
  assume r: "remembers cfg h m" and "quiet m m'"
  then have e: "mc_bankBusyCounter m' = mc_bankBusyCounter m" "mc_busBusyCounter_Basic m' = mc_busBusyCounter_Basic m"
    "mc_tfaw_shift m' = mc_tfaw_shift m" "mc_tfaw_count m' = mc_tfaw_count m" by (simp_all add: quiet_def)
  show ?thesis using r unfolding remembers_def e .
qed

lemma remembers_activate:
  assumes wf: "mc_wf cfg m" and rem: "remembers cfg ([] # h) m" and may: "may_activate cfg b m" and act: "activates cfg b m m'"
  shows "remembers cfg ([b] # h) m'"
proof -
  let ?t = "tFaw cfg"
  have b: "b < total_banks cfg" "rank_of cfg b < total_ranks cfg" "mc_tfaw_count m ! rank_of cfg b < 4" using may getRank_ok(2) by (auto simp: may_activate_def)
  have busy: "mc_bankBusyCounter m' = (mc_bankBusyCounter m)[b := bank_busy_time cfg]" "mc_busBusyCounter_Basic m' = basic_bus_busy_time cfg"
    and len: "length (mc_bankBusyCounter m) = total_banks cfg" using act wf by (simp_all add: activates_def mc_wf_def)
  have "mc_tfaw_count m' ! r = int (card {k. bit (mc_tfaw_shift m' ! r) k}) \<and> mc_tfaw_count m' ! r \<le> 4
      \<and> (\<forall>k. bit (mc_tfaw_shift m' ! r) k \<longleftrightarrow> k < ?t \<and> ?t - 1 - k \<in> window cfg ([b] # h) r 0)" if t: "0 < ?t" "?t \<le> 31" and r: "r < total_ranks cfg" for r
  proof -
    let ?s = "mc_tfaw_shift m ! r"
    have old: "mc_tfaw_count m ! r = int (card {k. bit ?s k})" "mc_tfaw_count m ! r \<le> 4" "\<And>k. bit ?s k \<longleftrightarrow> k < ?t \<and> ?t - 1 - k \<in> window cfg ([] # h) r 0"
      using rem t r unfolding remembers_def by blast+
    have w: "k < ?t \<and> ?t - 1 - k \<in> window cfg ([b] # h) r 0 \<longleftrightarrow> bit ?s k \<or> (k = ?t - 1 \<and> rank_of cfg b = r)" for k
      unfolding old(3) window_Cons(2) using t by (cases "?t - 1 - k") auto
    show ?thesis
    proof (cases "rank_of cfg b = r")
      case False
      then have "mc_tfaw_shift m' ! r = ?s" "mc_tfaw_count m' ! r = mc_tfaw_count m ! r" using act t by (simp_all add: activates_def)
      then show ?thesis using old(1,2) w False by simp
    next
      case True
      have new: "mc_tfaw_shift m' ! r = ?s OR push_bit (?t - 1) 1" "mc_tfaw_count m' ! r = mc_tfaw_count m ! r + 1"
        using act True t r wf by (simp_all add: activates_def mc_wf_def)
      have bits: "bit (?s OR push_bit (?t - 1) 1) k \<longleftrightarrow> bit ?s k \<or> k = ?t - 1" for k using t by (auto simp: bit_simps)
      have fin: "finite {k. bit ?s k}" by (rule finite_subset [of _ "{..<64}"]) (auto dest: bit_imp_le_length)
      have "\<not> bit ?s (?t - 1)" unfolding old(3) window_Cons(2) using t by simp
      then have "card (insert (?t - 1) {k. bit ?s k}) = card {k. bit ?s k} + 1" using fin by simp
      moreover have "insert (?t - 1) {k. bit ?s k} = {k. bit (?s OR push_bit (?t - 1) 1) k}" unfolding bits by blast
      ultimately have "int (card {k. bit (?s OR push_bit (?t - 1) 1) k}) = mc_tfaw_count m ! r + 1" using old(1) by simp
      then show ?thesis using b(3) True w bits unfolding new by simp
    qed
  qed
  moreover have "bank_busy_time cfg \<le> mc_bankBusyCounter m' ! c + i" if "i < length ([b] # h)" "c \<in> set (([b] # h) ! i)" for i c
  proof (cases "c = b")
    case True
    then show ?thesis using busy(1) b(1) len by simp
  next
    case False
    have "i \<noteq> 0" using that(2) False by (cases i) auto
    then obtain j where "i = Suc j" by (cases i) auto
    then have "i < length ([] # h)" "c \<in> set (([] # h) ! i)" using that by simp_all
    then have "bank_busy_time cfg \<le> mc_bankBusyCounter m ! c + i" using rem unfolding remembers_def by blast
    then show ?thesis using busy(1) False by simp
  qed
  moreover have "\<forall>c<total_banks cfg. mc_bankBusyCounter m' ! c \<le> bank_busy_time cfg" using rem [unfolded remembers_def, THEN conjunct1] busy(1) b(1) len by (simp add: nth_list_update)
  moreover have "basic_bus_busy_time cfg \<le> mc_busBusyCounter_Basic m' + i" for i using busy(2) by simp
  ultimately show ?thesis unfolding remembers_def by blast
qed

lemma spaced_Cons:
  assumes sp: "spaced cfg h" and X: "length X \<le> 1" "set X \<subseteq> {..<total_banks cfg}"
    and bank: "\<And>j b. \<lbrakk>j < length h; b \<in> set X; b \<in> set (h ! j)\<rbrakk> \<Longrightarrow> bank_busy_time cfg \<le> Suc j"
    and bus: "\<And>j. \<lbrakk>j < length h; X \<noteq> []; h ! j \<noteq> []\<rbrakk> \<Longrightarrow> basic_bus_busy_time cfg \<le> Suc j"
    and win: "\<And>r. \<lbrakk>0 < tFaw cfg; tFaw cfg \<le> 31; r < total_ranks cfg\<rbrakk> \<Longrightarrow> card (window cfg (X # h) r 0) \<le> 4"
  shows "spaced cfg (X # h)"
proof -
  have one: "length ((X # h) ! i) \<le> 1 \<and> set ((X # h) ! i) \<subseteq> {..<total_banks cfg}" if "i < length (X # h)" for i using that X sp by (cases i) (auto simp: spaced_def)
  note old = sp [unfolded spaced_def, THEN conjunct2, THEN conjunct1, rule_format] sp [unfolded spaced_def, THEN conjunct2, THEN conjunct2, THEN conjunct1, rule_format]
  have "bank_busy_time cfg \<le> j - i" if "i < j" "j < length (X # h)" "b \<in> set ((X # h) ! i)" "b \<in> set ((X # h) ! j)" for i j b
  proof (cases i)
    case 0
    then show ?thesis using that bank [of "j - 1" b] by (cases j) simp_all
  next
    case (Suc k)
    then show ?thesis using that old(1) [of k "j - 1" b] by (cases j) simp_all
  qed
  moreover have "basic_bus_busy_time cfg \<le> j - i" if "i < j" "j < length (X # h)" "(X # h) ! i \<noteq> []" "(X # h) ! j \<noteq> []" for i j
  proof (cases i)
    case 0
    then show ?thesis using that bus [of "j - 1"] by (cases j) simp_all
  next
    case (Suc k)
    then show ?thesis using that old(2) [of k "j - 1"] by (cases j) simp_all
  qed
  moreover have "card (window cfg (X # h) r k) \<le> 4" if t: "0 < tFaw cfg" "tFaw cfg \<le> 31" for r k
  proof (cases k)
    case 0
    have "rank_of cfg b < total_ranks cfg" if "i < length (X # h)" "b \<in> set ((X # h) ! i)" for i b
      using one [OF that(1)] that(2) getRank_ok(2) [of b cfg] by blast
    then have "window cfg (X # h) r 0 = {}" if "total_ranks cfg \<le> r" using that unfolding window_def by fastforce
    then show ?thesis using win [OF t, of r] 0 by (cases "r < total_ranks cfg") auto
  next
    case (Suc l)
    have "card (window cfg h r l) \<le> 4" using sp t unfolding spaced_def by blast
    then show ?thesis using Suc window_Cons(1) [of cfg X h r l] by (simp add: card_image)
  qed
  ultimately show ?thesis using one unfolding spaced_def by blast
qed


subsection \<open>Runs\<close>

text \<open>
  The controller from its construction on, with what its cycles issue, the latest cycle first; between the cycles the directory sends
  requests and takes responses, and time passes.
\<close>

inductive mc_run :: "mem_config \<Rightarrow> (nat \<Rightarrow> nat) \<Rightarrow> nat \<Rightarrow> issue list list \<Rightarrow> MemoryControl \<Rightarrow> bool" for cfg rnd self where
  start: "MemoryControl_new cfg = Some m \<Longrightarrow> mc_run cfg rnd self [] m"
| connect: "mc_run cfg rnd self h m \<Longrightarrow> mc_run cfg rnd self h (mc_setConsumer c m)"
| request: "\<lbrakk>mc_run cfg rnd self h m; enqueueMemRef self req eq m = Some (eq', m')\<rbrakk> \<Longrightarrow> mc_run cfg rnd self h m'"
| response: "\<lbrakk>mc_run cfg rnd self h m; mc_dequeue eq m = Some m'\<rbrakk> \<Longrightarrow> mc_run cfg rnd self h m'"
| cycle: "\<lbrakk>mc_run cfg rnd self h m; mc_wakeup cfg rnd self eq m = Some (eq', m')\<rbrakk> \<Longrightarrow> mc_run cfg rnd self (cycle_issues cfg rnd eq m # h) m'"

lemma wf_step:
  assumes "enqueueMemRef self req eq m = Some (eq', m') \<or> mc_dequeue eq m = Some m' \<or> mc_setConsumer c m = m'"
  shows "quiet m m'" "mc_wf cfg m \<Longrightarrow> mc_wf cfg m'"
  using assms by (auto simp: enqueueMemRef_def mc_dequeue_def mc_setConsumer_def quiet_def mc_wf_def Let_def bind_eq_Some_conv split: if_splits)

lemma mc_wakeup_cycle:
  assumes "mc_wakeup cfg rnd self eq m = Some (eq', m')"
  obtains eq1 m1 where "executeCycle cfg rnd eq m = Some (eq1, m1)" "quiet m1 m'" "mc_wf cfg m1 \<Longrightarrow> mc_wf cfg m'"
  using assms by (auto simp: mc_wakeup_def quiet_def mc_wf_def Let_def bind_eq_Some_conv split: if_splits)

lemma mc_run_wf: "mc_run cfg rnd self h m \<Longrightarrow> mc_wf cfg m"
proof (induction rule: mc_run.induct)
  case (start m)
  then show ?case by (auto simp: MemoryControl_new_def mc_wf_def split: if_splits)
next
  case (connect h m c)
  then show ?case using wf_step(2) [OF disjI2 [OF disjI2 [OF refl]], where m = m and c = c] by blast
next
  case (request h m req eq eq' m')
  then show ?case using wf_step(2) [OF disjI1 [OF request(2)]] by blast
next
  case (response h m eq m')
  then show ?case using wf_step(2) [OF disjI2 [OF disjI1 [OF response(2)]]] by blast
next
  case (cycle h m eq eq' m')
  from mc_wakeup_cycle [OF cycle(2)] obtain eq1 m1 where m1: "executeCycle cfg rnd eq m = Some (eq1, m1)" "mc_wf cfg m1 \<Longrightarrow> mc_wf cfg m'" by blast
  from executeCycle_ok [OF cycle(3) m1(1)] accept_input_ok(2) m1(2) show ?case by blast
qed

lemma cycle_timing:
  assumes wf: "mc_wf cfg m" and sp: "spaced cfg h" and rem: "remembers cfg h m" and step: "timed cfg xs (count_down m) m'"
  shows "spaced cfg (map issue_bank xs # h) \<and> remembers cfg (map issue_bank xs # h) m'"
proof -
  let ?m = "count_down m" and ?X = "map issue_bank xs"
  note rd = remembers_count_down [OF wf rem sp]
  have "remembers cfg (?X # h) m' \<and> length ?X \<le> 1 \<and> set ?X \<subseteq> {..<total_banks cfg} \<and> (\<forall>b \<in> set ?X. may_activate cfg b ?m)"
  proof (cases "xs = []")
    case True
    then show ?thesis using step remembers_quiet [OF rd] by (simp add: timed_def)
  next
    case False
    then obtain x where x: "xs = [x]" "may_activate cfg (issue_bank x) ?m" "activates cfg (issue_bank x) ?m m'" using step by (auto simp: timed_def)
    then show ?thesis using remembers_activate [OF count_down_wf [OF wf] rd x(2,3)] by (simp add: may_activate_def)
  qed
  then have X: "remembers cfg (?X # h) m'" "length ?X \<le> 1" "set ?X \<subseteq> {..<total_banks cfg}" "\<And>b. b \<in> set ?X \<Longrightarrow> may_activate cfg b ?m" by blast+
  note past = rd [unfolded remembers_def, THEN conjunct2, THEN conjunct1, rule_format]
    rd [unfolded remembers_def, THEN conjunct2, THEN conjunct2, THEN conjunct1, rule_format]
  have "spaced cfg (?X # h)"
  proof (rule spaced_Cons [OF sp X(2,3)])
    fix j b assume "j < length h" "b \<in> set ?X" "b \<in> set (h ! j)"
    then show "bank_busy_time cfg \<le> Suc j" using past(1) [of "Suc j" b] X(4) [of b] by (simp add: may_activate_def)
  next
    fix j assume j: "j < length h" "?X \<noteq> []" "h ! j \<noteq> []"
    then have "may_activate cfg (hd ?X) ?m" using X(4) hd_in_set by blast
    then show "basic_bus_busy_time cfg \<le> Suc j" using past(2) [of "Suc j"] j(1,3) by (simp add: may_activate_def)
  next
    fix r assume "0 < tFaw cfg" "tFaw cfg \<le> 31" "r < total_ranks cfg"
    then show "card (window cfg (?X # h) r 0) \<le> 4" by (rule window_count [OF X(1)])
  qed
  then show ?thesis using X(1) by simp
qed

lemma mc_run_timing:
  "\<lbrakk>mc_run cfg rnd self h m; memFixedDelay cfg = 0; 0 < basic_bus_busy_time cfg\<rbrakk> \<Longrightarrow> spaced cfg (map (map issue_bank) h) \<and> remembers cfg (map (map issue_bank) h) m"
proof (induction rule: mc_run.induct)
  case (start m)
  have "total_ranks cfg = 0 \<or> mc_tfaw_shift m ! r = 0 \<and> mc_tfaw_count m ! r = 0" if "r < total_ranks cfg" for r
    using start(1) that by (auto simp: MemoryControl_new_def split: if_splits)
  moreover have "\<forall>b<total_banks cfg. mc_bankBusyCounter m ! b = 0" using start(1) by (auto simp: MemoryControl_new_def split: if_splits)
  ultimately show ?case by (auto simp: spaced_def remembers_def window_def)
next
  case (connect h m c)
  then show ?case using wf_step(1) [OF disjI2 [OF disjI2 [OF refl]], where m = m and c = c] remembers_quiet by blast
next
  case (request h m req eq eq' m')
  then show ?case using wf_step(1) [OF disjI1 [OF request(2)]] remembers_quiet by blast
next
  case (response h m eq m')
  then show ?case using wf_step(1) [OF disjI2 [OF disjI1 [OF response(2)]]] remembers_quiet by blast
next
  case (cycle h m eq eq' m')
  from mc_wakeup_cycle [OF cycle(2)] obtain eq1 m1 where m1: "executeCycle cfg rnd eq m = Some (eq1, m1)" "quiet m1 m'" by blast
  note wf = mc_run_wf [OF cycle(1)]
  from executeCycle_ok [OF wf m1(1)] obtain m2 where
    m2: "mc_wf cfg m2" "step_ok cfg (getTime eq) (total_banks cfg) (cycle_issues cfg rnd eq m) (count_down m) m2" "accept_input cfg m2 = Some m1" by blast
  have "timed cfg (cycle_issues cfg rnd eq m) (count_down m) m2" using m2(2) cycle(4,5) by (simp add: step_ok_def)
  then have "timed cfg (cycle_issues cfg rnd eq m) (count_down m) m'"
    using timed_quiet [OF quiet_refl _ quiet_trans [OF accept_input_ok(1) [OF m2(3,1)] m1(2)]] by blast
  then show ?case using cycle_timing [OF wf] cycle by simp
qed

text \<open>
  C4. The memory controller keeps the timing of the DRAM (\<^verbatim>\<open>system/MemoryControl.C\<close>).  The history of a run has, for every
  cycle, the calls of \<^verbatim>\<open>issueRefresh\<close> that return true and the calls of \<^verbatim>\<open>issueRequest\<close>.  In every run from the
  construction on, with requests and responses in any order between the cycles and for any outcome of the random arbitration, and for
  every configuration with a positive bus occupancy and without \<^verbatim>\<open>MEM_FIXED_DELAY\<close>, the mode that switches the timing off: a
  cycle issues at most one refresh or request; two to the same bank are at least the bank busy time apart and any two at least the
  bus occupancy.  For a \<^verbatim>\<open>tFaw\<close> of 1 to 31 cycles, moreover, no rank has more than four activates, refreshes included, in any
  window of \<^verbatim>\<open>tFaw\<close> cycles.  The constructor admits a \<^verbatim>\<open>tFaw\<close> of up to 62, but the bound does not extend to 32 and
  more, where \<^verbatim>\<open>markTfaw\<close> sets the sign bit of its 32-bit literal or shifts it too far.
\<close>

theorem memory_controller_timing:
  assumes "mc_run cfg rnd self h m" "memFixedDelay cfg = 0" "0 < basic_bus_busy_time cfg"
  shows "(\<forall>i<length h. length (h ! i) \<le> 1)
    \<and> (\<forall>i j b. i < j \<and> j < length h \<and> b \<in> issue_bank ` set (h ! i) \<and> b \<in> issue_bank ` set (h ! j) \<longrightarrow> bank_busy_time cfg \<le> j - i)
    \<and> (\<forall>i j. i < j \<and> j < length h \<and> h ! i \<noteq> [] \<and> h ! j \<noteq> [] \<longrightarrow> basic_bus_busy_time cfg \<le> j - i)
    \<and> (0 < tFaw cfg \<and> tFaw cfg \<le> 31 \<longrightarrow>
         (\<forall>r k. card {i. k \<le> i \<and> i < k + tFaw cfg \<and> i < length h \<and> (\<exists>b \<in> issue_bank ` set (h ! i). b div banks_per_rank cfg = r)} \<le> 4))"
proof -
  let ?h = "map (map issue_bank) h"
  note s = mc_run_timing [OF assms, THEN conjunct1, unfolded spaced_def]
  note a = s [THEN conjunct1, rule_format] and b = s [THEN conjunct2, THEN conjunct1, rule_format]
    and c = s [THEN conjunct2, THEN conjunct2, THEN conjunct1, rule_format] and d = s [THEN conjunct2, THEN conjunct2, THEN conjunct2, rule_format]
  have "length (h ! i) \<le> 1" if "i < length h" for i using a [of i] that by simp
  moreover have "bank_busy_time cfg \<le> j - i" if "i < j" "j < length h" "x \<in> issue_bank ` set (h ! i)" "x \<in> issue_bank ` set (h ! j)" for i j x
    using b [of i j x] that by simp
  moreover have "basic_bus_busy_time cfg \<le> j - i" if "i < j" "j < length h" "h ! i \<noteq> []" "h ! j \<noteq> []" for i j using c [of i j] that by simp
  moreover have "card {i. k \<le> i \<and> i < k + tFaw cfg \<and> i < length h \<and> (\<exists>b \<in> issue_bank ` set (h ! i). b div banks_per_rank cfg = r)} \<le> 4"
    if "0 < tFaw cfg \<and> tFaw cfg \<le> 31" for r k
  proof -
    have "window cfg ?h r k = {i. k \<le> i \<and> i < k + tFaw cfg \<and> i < length h \<and> (\<exists>b \<in> issue_bank ` set (h ! i). b div banks_per_rank cfg = r)}"
      unfolding window_def by (rule Collect_cong) (auto simp: conj_assoc)
    then show ?thesis using d [OF that, of r k] by simp
  qed
  ultimately show ?thesis by blast
qed



subsection \<open>Requests through a cycle\<close>

definition mem_cfg_fits :: "mem_config \<Rightarrow> bool" where
  "mem_cfg_fits cfg \<longleftrightarrow> banks_per_rank cfg < 2 ^ 31 \<and> ranks_per_dimm cfg < 2 ^ 31 \<and> dimms_per_channel cfg < 2 ^ 31"

lemma addr_field_less:
  assumes "0 < n" "n < 2 ^ 31"
  shows "addr_field addr low n < n"
proof -
  have "unat (drop_bit low addr AND (of_nat n - 1)) \<le> unat (of_nat n - 1 :: 64 word)" by (simp add: word_and_le1 flip: word_le_nat_alt)
  also have "\<dots> = n - 1"
  proof -
    have e: "(of_nat n - 1 :: 64 word) = of_nat (n - 1)" using assms(1) by (simp add: of_nat_diff)
    have "unat (of_nat k :: 64 word) = k" if "k < 2 ^ 31" for k using that by (simp add: unsigned_of_nat take_bit_nat_eq_self)
    then show ?thesis unfolding e using assms(2) by simp
  qed
  finally show ?thesis using assms(1) by (simp add: addr_field_def)
qed

lemma row_bound: "\<lbrakk>a < A; b < B\<rbrakk> \<Longrightarrow> a * B + b < A * (B :: nat)"
  using mult_le_mono1 [of "Suc a" A B] by simp

lemma getBank_less:
  assumes "mem_cfg_fits cfg" "0 < total_banks cfg"
  shows "getBank cfg addr < total_banks cfg"
proof -
  let ?d = "addr_field addr (dimm_bit_0 cfg) (dimms_per_channel cfg)" and ?r = "addr_field addr (rank_bit_0 cfg) (ranks_per_dimm cfg)"
    and ?b = "addr_field addr (bank_bit_0 cfg) (banks_per_rank cfg)"
  have "0 < banks_per_rank cfg" "0 < ranks_per_dimm cfg" "0 < dimms_per_channel cfg" using assms(2) by (auto simp: total_banks_def)
  then have f: "?d < dimms_per_channel cfg" "?r < ranks_per_dimm cfg" "?b < banks_per_rank cfg" using assms(1) addr_field_less by (simp_all add: mem_cfg_fits_def)
  have "?r * banks_per_rank cfg + ?b < ranks_per_dimm cfg * banks_per_rank cfg" using f(2,3) by (rule row_bound)
  then have "?d * (ranks_per_dimm cfg * banks_per_rank cfg) + (?r * banks_per_rank cfg + ?b) < dimms_per_channel cfg * (ranks_per_dimm cfg * banks_per_rank cfg)"
    using f(1) row_bound by blast
  then show ?thesis by (simp add: getBank_def total_banks_def ac_simps)
qed

lemma executeCycle_total:
  assumes cfg: "mem_cfg_fits cfg" "tFaw cfg \<le> 32" and wf: "mc_wf cfg m" and e: "eq_ready cfg eq m" and r: "mc_need_refresh m < 10"
  shows "\<exists>eq' m'. executeCycle cfg rnd eq m = Some (eq', m') \<and> eq_inv eq'"
proof -
  have "mc_need_refresh (count_down m) < 10" using r by (simp add: count_down_def)
  then obtain m1 where m1: "refresh_timer cfg (count_down m) = Some m1" by (fastforce simp: refresh_timer_def Let_def)
  let ?m = "arbitrate cfg rnd (new_batch m1)"
  note p = prepare_ok [OF m1] and a = arbitrate_ok [where m = "new_batch m1" and cfg = cfg and rnd = rnd]
  have pos: "0 < total_banks cfg" using wf by (auto simp: mc_wf_def)
  have w: "mc_wf cfg ?m" using a(3) [OF p(3) [OF count_down_wf [OF wf]]] .
  have "mc_consumer_ptr ?m = mc_consumer_ptr m" using flow_trans [OF p(2) a(2)] by (simp add: flow_def count_down_def)
  then have "eq_ready cfg eq ?m" using e by (simp add: eq_ready_def)
  from scan_banks_ok(2) [OF w cfg(2) this, of rnd "total_banks cfg"] obtain eq2 m2 where
    m2: "scan_banks cfg rnd (total_banks cfg) eq ?m = Some (eq2, m2)" "eq_inv eq2" by blast
  have m2w: "mc_wf cfg m2" using scan_banks_ok(1) [OF w m2(1)] by simp
  have "\<exists>m'. accept_input cfg m2 = Some m'"
    using getBank_less [OF cfg(1) pos] m2w by (auto simp: accept_input_def mc_wf_def vec_at_def Let_def split: list.splits)
  then show ?thesis using m1 m2(1,2) unfolding executeCycle_arbitrate by auto
qed

text \<open>The request that a cycle takes from the input queue: its first, when its bank has room after the requests issued in the cycle have left.\<close>

definition taken :: "mem_config \<Rightarrow> (nat \<times> MemoryNode) list \<Rightarrow> MemoryControl \<Rightarrow> MemoryNode list" where
  "taken cfg issued m = (case mc_input_queue m of [] \<Rightarrow> []
     | req # _ \<Rightarrow> (let b = getBank cfg (mn_addr req) in
         if length (mc_bankQueues m ! b) < bank_queue_size cfg + length (from_bank b issued) then [req] else []))"

lemma accepted_taken:
  assumes "flow cfg now issued m m2" "mem_cfg_fits cfg" "0 < total_banks cfg"
  shows "accepted cfg m2 = taken cfg issued m"
proof (cases "mc_input_queue m")
  case (Cons req rest)
  let ?b = "getBank cfg (mn_addr req)"
  have "length (mc_bankQueues m ! ?b) = length (from_bank ?b issued) + length (mc_bankQueues m2 ! ?b)"
    using assms(1) getBank_less [OF assms(2,3)] by (simp add: flow_def)
  then show ?thesis using assms(1) Cons by (simp add: accepted_def taken_def flow_def Let_def)
qed (use assms(1) in \<open>simp add: accepted_def taken_def flow_def\<close>)

lemma executeCycle_requests:
  assumes cfg: "mem_cfg_fits cfg" and wf: "mc_wf cfg m" and run: "executeCycle cfg rnd eq m = Some (eq', m')"
  shows "\<exists>issued. map fst issued = requested (cycle_issues cfg rnd eq m) \<and> length issued \<le> total_banks cfg
    \<and> (memFixedDelay cfg = 0 \<and> 0 < basic_bus_busy_time cfg \<longrightarrow> length issued \<le> 1)
    \<and> mc_response_queue m' = mc_response_queue m @ concat (map (replies cfg (getTime eq) \<circ> snd) issued)
    \<and> mc_input_queue m = taken cfg issued m @ mc_input_queue m'
    \<and> (\<forall>b<total_banks cfg. mc_bankQueues m ! b @ to_bank cfg b (taken cfg issued m) = from_bank b issued @ mc_bankQueues m' ! b
         \<and> length (mc_bankQueues m' ! b) \<le> max (length (mc_bankQueues m ! b)) (bank_queue_size cfg))"
proof -
  from executeCycle_ok [OF wf run] obtain m2 where
    m2: "mc_wf cfg m2" "step_ok cfg (getTime eq) (total_banks cfg) (cycle_issues cfg rnd eq m) (count_down m) m2" "accept_input cfg m2 = Some m'" by blast
  then obtain issued where i: "map fst issued = requested (cycle_issues cfg rnd eq m)" "length issued \<le> total_banks cfg" "flow cfg (getTime eq) issued (count_down m) m2"
    by (auto simp: step_ok_def)
  have f: "flow cfg (getTime eq) issued m m2" using i(3) by (simp add: flow_def count_down_def)
  have pos: "0 < total_banks cfg" using wf by (auto simp: mc_wf_def)
  note acc = accept_input_ok(4-6) [OF m2(3,1), unfolded accepted_taken [OF f cfg pos]]
  have "length (requested xs) \<le> length xs" if "length xs \<le> 1" for xs using that by (cases xs) (auto simp: requested_def split: issue.splits)
  moreover have "length (cycle_issues cfg rnd eq m) \<le> 1" if "memFixedDelay cfg = 0 \<and> 0 < basic_bus_busy_time cfg" using m2(2) that by (auto simp: step_ok_def timed_def)
  ultimately have one: "memFixedDelay cfg = 0 \<and> 0 < basic_bus_busy_time cfg \<longrightarrow> length issued \<le> 1" using i(1) by (metis length_map order_trans)
  have "length (mc_bankQueues m2 ! b) \<le> length (mc_bankQueues m ! b)" "mc_bankQueues m ! b = from_bank b issued @ mc_bankQueues m2 ! b" if "b < total_banks cfg" for b
    using f that by (auto simp: flow_def)
  then show ?thesis using i(1,2) one acc f by (intro exI [of _ issued]) (fastforce simp: flow_def)
qed




definition example_mem :: mem_config where
  "example_mem = \<lparr>mem_bus_cycle_multiplier = 10, banks_per_rank = 2, ranks_per_dimm = 1, dimms_per_channel = 1, bank_bit_0 = 6, rank_bit_0 = 7, dimm_bit_0 = 8,
     bank_queue_size = 2, bank_busy_time = 3, rank_rank_delay = 1, read_write_delay = 2, basic_bus_busy_time = 2, mem_ctl_latency = 12, refresh_period = 100,
     memRandomArbitrate = 0, tFaw = 5, memFixedDelay = 0\<rparr>"

definition example_request :: MemoryNode where
  "example_request = \<lparr>mn_time = 0, mn_msg_counter = 1, mn_msgptr = Some 7, mn_addr = 64, mn_is_mem_read = True, mn_is_dirty_wb = False\<rparr>"

text \<open>A controller with a consumer and one request in its input queue, and its state after one, two and three cycles.\<close>

definition example_controller :: MemoryControl where
  "example_controller = snd (the (enqueueMemRef 0 example_request EventQueue_new (mc_setConsumer (Some 1) (the (MemoryControl_new example_mem)))))"

definition example_cycle :: "MemoryControl \<Rightarrow> MemoryControl" where
  "example_cycle m = snd (the (mc_wakeup example_mem (\<lambda>_. 0) 0 EventQueue_new m))"

lemma example_mem_ok:
  "mem_cfg_fits example_mem" "tFaw example_mem \<le> 32" "memFixedDelay example_mem = 0" "0 < basic_bus_busy_time example_mem"
  by (simp_all add: example_mem_def mem_cfg_fits_def)

lemma example_eq_ready: "mc_consumer_ptr m \<noteq> None \<Longrightarrow> eq_ready example_mem EventQueue_new m"
  using eq_inv_new by (simp add: eq_ready_def example_mem_def)

lemma example_mem_run_start: "mc_run example_mem (\<lambda>_. 0) 0 [] example_controller"
proof -
  have "MemoryControl_new example_mem = Some (the (MemoryControl_new example_mem))" by (simp add: MemoryControl_new_def example_mem_def total_banks_def)
  note c = mc_run.connect [OF mc_run.start [OF this], where c = "Some 1"]
  have "enqueueMemRef 0 example_request EventQueue_new (mc_setConsumer (Some 1) (the (MemoryControl_new example_mem))) \<noteq> None" by code_simp
  then obtain eq m where e: "enqueueMemRef 0 example_request EventQueue_new (mc_setConsumer (Some 1) (the (MemoryControl_new example_mem))) = Some (eq, m)" by auto
  show ?thesis using mc_run.request [OF c e] unfolding example_controller_def e by simp
qed

lemma example_mem_run_cycle:
  assumes "mc_run example_mem (\<lambda>_. 0) 0 h m" "mc_wakeup example_mem (\<lambda>_. 0) 0 EventQueue_new m \<noteq> None" "cycle_issues example_mem (\<lambda>_. 0) EventQueue_new m = xs"
  shows "mc_run example_mem (\<lambda>_. 0) 0 (xs # h) (example_cycle m)"
  using mc_run.cycle [OF assms(1), of EventQueue_new] assms(2,3) unfolding example_cycle_def by fastforce

text \<open>The first cycle refreshes bank 0 and takes the request; the bus is free again in the third, which issues it to bank 1.\<close>

lemma example_mem_run: "mc_run example_mem (\<lambda>_. 0) 0 [[], [Refresh 0]] (example_cycle (example_cycle example_controller))"
proof (intro example_mem_run_cycle example_mem_run_start)
  show "mc_wakeup example_mem (\<lambda>_. 0) 0 EventQueue_new example_controller \<noteq> None"
    "mc_wakeup example_mem (\<lambda>_. 0) 0 EventQueue_new (example_cycle example_controller) \<noteq> None" by code_simp+
  show "cycle_issues example_mem (\<lambda>_. 0) EventQueue_new example_controller = [Refresh 0]"
    "cycle_issues example_mem (\<lambda>_. 0) EventQueue_new (example_cycle example_controller) = []" by code_simp+
qed


theorem memory_controller_timing_witness:
  "\<exists>m. mc_run example_mem (\<lambda>_. 0) 0 [[Request 1], [], [Refresh 0]] m \<and> basic_bus_busy_time example_mem \<le> 2
     \<and> card {i. 0 \<le> i \<and> i < 0 + tFaw example_mem \<and> i < length [[Request 1], [], [Refresh 0]]
          \<and> (\<exists>b \<in> issue_bank ` set ([[Request 1], [], [Refresh 0]] ! i). b div banks_per_rank example_mem = 0)} \<le> 4"
proof -
  let ?h = "[[Request 1], [], [Refresh 0]]"
  have "mc_wakeup example_mem (\<lambda>_. 0) 0 EventQueue_new (example_cycle (example_cycle example_controller)) \<noteq> None"
    "cycle_issues example_mem (\<lambda>_. 0) EventQueue_new (example_cycle (example_cycle example_controller)) = [Request 1]" by code_simp+
  from example_mem_run_cycle [OF example_mem_run this] obtain m where m: "mc_run example_mem (\<lambda>_. 0) 0 ?h m" by blast
  note t = memory_controller_timing [OF m example_mem_ok(3,4)]
  have "basic_bus_busy_time example_mem \<le> 2 - 0" by (rule t [THEN conjunct2, THEN conjunct2, THEN conjunct1, rule_format]) simp
  moreover have "0 < tFaw example_mem \<and> tFaw example_mem \<le> 31" by (simp add: example_mem_def)
  ultimately show ?thesis using m t [THEN conjunct2, THEN conjunct2, THEN conjunct2, rule_format, of 0 0] by auto
qed

text \<open>
  The constructor admits windows of up to 62 cycles, but \<^verbatim>\<open>markTfaw\<close> shifts a 32-bit literal.  With a window of 32 cycles its sign
  extension sets 33 bits for one activate, and when they have been shifted out the count of the rank is negative.
\<close>

lemma tfaw_sign_extended: "k < 32 \<Longrightarrow> bit (signed (push_bit k 1 :: 32 word) :: 64 word) n \<longleftrightarrow> n < 64 \<and> min 31 n = k"
  by (auto simp: bit_simps min_def)

fun shifted_out :: "nat \<Rightarrow> 64 word \<times> int \<Rightarrow> int" where
  "shifted_out 0 (s, c) = c"
| "shifted_out (Suc n) (s, c) = shifted_out n (drop_bit 1 s, if s AND 1 \<noteq> 0 then c - 1 else c)"

lemma shifted_out_count: "n \<le> 64 \<Longrightarrow> shifted_out n (s, c) = c - int (card {k. k < n \<and> bit s k})"
proof (induction n arbitrary: s c)
  case (Suc n)
  have "{k. k < Suc n \<and> bit s k} = Suc ` {k. k < n \<and> bit s (Suc k)} \<union> (if bit s 0 then {0} else {})"
  proof (rule set_eqI)
    fix k show "k \<in> {k. k < Suc n \<and> bit s k} \<longleftrightarrow> k \<in> Suc ` {k. k < n \<and> bit s (Suc k)} \<union> (if bit s 0 then {0} else {})" by (cases k) auto
  qed
  then have "card {k. k < Suc n \<and> bit s k} = card {k. k < n \<and> bit s (Suc k)} + (if bit s 0 then 1 else 0)" by (auto simp: card_Un_disjoint card_image)
  moreover have "s AND 1 \<noteq> 0 \<longleftrightarrow> bit s 0" by (simp add: and_one_eq bit_0 odd_iff_mod_2_eq_one)
  moreover have "{k. k < n \<and> bit (drop_bit 1 s) k} = {k. k < n \<and> bit s (Suc k)}" by (simp add: bit_simps)
  ultimately show ?case using Suc by simp
qed simp

theorem tfaw_count_negative:
  assumes "tFaw cfg = 32" "mc_tfaw_shift m = [0]" "mc_tfaw_count m = [0]"
  shows "\<exists>m' s. markTfaw cfg 0 m = Some m' \<and> mc_tfaw_shift m' = [s] \<and> mc_tfaw_count m' = [1] \<and> shifted_out 64 (s, 1) = - 32"
proof -
  let ?s = "signed (push_bit (tFaw cfg - 1) 1 :: 32 word) :: 64 word"
  have k: "tFaw cfg - 1 < 32" using assms(1) by simp
  have "{k. k < 64 \<and> bit ?s k} = {31..<64}" unfolding tfaw_sign_extended [OF k] using assms(1) by auto
  then have "shifted_out 64 (?s, 1) = - 32" by (simp add: shifted_out_count)
  then show ?thesis using assms(2,3) by (simp add: markTfaw_def vec_at_def assms(1))
qed

end
