(* ===== verification/Coalesce_Model.thy ===== *)
theory Coalesce_Model
  imports GpuCore_Model GpuCache_Model
begin

text \<open>
  Memory accesses of a warp, \<^verbatim>\<open>warp_inst_t::generate_mem_accesses\<close> of \<^verbatim>\<open>abstract_hardware_model.cc\<close>: the addresses of the
  active threads of a load or store are combined to transactions for the memory system.  Global and local accesses are grouped by
  segments of 32 to 128 bytes and each transaction is then reduced to the part in use; constant and texture accesses are grouped by
  cache lines; for shared memory the conflicts between banks determine the number of cycles.

  Addresses are 64-bit words (\<^verbatim>\<open>new_addr_type\<close>) that pass through 32-bit words (\<^verbatim>\<open>address_type\<close>) where the code
  does it.  Bit sets are words of their size, and setting or testing a bit outside, which throws, is \<open>None\<close>.

  Main results: the accesses cover what the threads touch, are aligned and no larger than needed; an atomic access never combines
  two threads on the same byte.  Shared, constant and texture memory are the subject of \<open>BankConflict_Laws\<close>.
\<close>

unbundle bit_operations_syntax

subsection \<open>Bit sets and maps\<close>

definition mask_set :: "nat \<Rightarrow> 'n::len word \<Rightarrow> 'n word option" where
  "mask_set i w = (if i < LENGTH('n) then Some (set_bit i w) else None)"

definition mask_test :: "'n::len word \<Rightarrow> nat \<Rightarrow> bool option" where
  "mask_test w i = (if i < LENGTH('n) then Some (bit w i) else None)"

fun mask_set_range :: "nat \<Rightarrow> nat \<Rightarrow> 'n::len word \<Rightarrow> 'n word option" where
  "mask_set_range idx 0 w = Some w"
| "mask_set_range idx (Suc n) w = do { w \<leftarrow> mask_set idx w; mask_set_range (Suc idx) n w }"

text \<open>A \<^verbatim>\<open>std::map\<close> is a list sorted by its keys; \<^verbatim>\<open>m[k]\<close> inserts a default value if the key is absent.\<close>

fun at_key :: "'v \<Rightarrow> ('v \<Rightarrow> 'v option) \<Rightarrow> 'k::linorder \<Rightarrow> ('k \<times> 'v) list \<Rightarrow> ('k \<times> 'v) list option" where
  "at_key d f k [] = map_option (\<lambda>v. [(k, v)]) (f d)"
| "at_key d f k ((j, u) # m) =
     (if k < j then map_option (\<lambda>v. (k, v) # (j, u) # m) (f d)
      else if k = j then map_option (\<lambda>v. (j, v) # m) (f u)
      else map_option ((#) (j, u)) (at_key d f k m))"

fun loop_over :: "('a \<Rightarrow> 's \<Rightarrow> 's option) \<Rightarrow> 'a list \<Rightarrow> 's \<Rightarrow> 's option" where
  "loop_over f [] s = Some s"
| "loop_over f (x # xs) s = do { s \<leftarrow> f x s; loop_over f xs s }"

subsection \<open>Instruction and configuration\<close>

record core_config =
  cc_warp_size :: nat
  cc_coalesce_arch :: int
  cc_shmem_limited_broadcast :: bool
  cc_num_shmem_bank :: "32 word"
  cc_mem_warp_parts :: nat
  cc_texl1_linesize :: new_addr_type
  cc_constl1_linesize :: new_addr_type

record mem_access =
  ma_type :: mem_access_type
  ma_addr :: new_addr_type
  ma_req_size :: "32 word"
  ma_write :: bool
  ma_warp_mask :: "32 word"
  ma_byte_mask :: "128 word"

text \<open>The address parameter of the constructor is an \<^verbatim>\<open>address_type\<close>.\<close>

definition new_access :: "mem_access_type \<Rightarrow> new_addr_type \<Rightarrow> 32 word \<Rightarrow> bool \<Rightarrow> 32 word \<Rightarrow> 128 word \<Rightarrow> mem_access" where
  "new_access t address sz wr active_mask byte_mask =
     \<lparr>ma_type = t, ma_addr = ucast (ucast address :: address_type), ma_req_size = sz, ma_write = wr, ma_warp_mask = active_mask,
      ma_byte_mask = byte_mask\<rparr>"

record transaction_info =
  ti_chunks :: "4 word"
  ti_bytes :: "128 word"
  ti_active :: "32 word"

definition transaction_new :: transaction_info where
  "transaction_new = \<lparr>ti_chunks = 0, ti_bytes = 0, ti_active = 0\<rparr>"

fun test_bytes :: "128 word \<Rightarrow> nat \<Rightarrow> nat \<Rightarrow> bool option" where
  "test_bytes w i 0 = Some False"
| "test_bytes w i (Suc n) = do { b \<leftarrow> mask_test w i; (if b then Some True else test_bytes w (Suc i) n) }"

record warp_mem = warp_inst +
  wm_active :: "32 word"
  wm_created :: bool
  wm_valid :: bool
  wm_isatomic :: bool
  wm_addrs :: "new_addr_type list list"
  wm_data_size :: nat
  wm_accessq :: "mem_access list"
  wm_cycles :: nat

definition is_store :: "'a warp_inst_scheme \<Rightarrow> bool" where
  "is_store i \<longleftrightarrow> wi_op i = STORE_OP \<or> wi_memory_op i = memory_store"

definition line_size_based_tag_func :: "new_addr_type \<Rightarrow> new_addr_type \<Rightarrow> address_type" where
  "line_size_based_tag_func address line_size = ucast (address AND NOT (line_size - 1))"

definition shmem_bank_func :: "core_config \<Rightarrow> address_type \<Rightarrow> 32 word option" where
  "shmem_bank_func cfg addr = do { assert_that (cc_num_shmem_bank cfg \<noteq> 0); Some ((addr div 4) mod cc_num_shmem_bank cfg) }"

definition memreqaddr :: "warp_mem \<Rightarrow> nat \<Rightarrow> nat \<Rightarrow> new_addr_type option" where
  "memreqaddr w thread k = do { as \<leftarrow> vec_at (wm_addrs w) thread; vec_at as k }"

definition set_addr :: "core_config \<Rightarrow> nat \<Rightarrow> new_addr_type list \<Rightarrow> warp_mem \<Rightarrow> warp_mem option" where
  "set_addr cfg n as w = do {
     let w = (if wm_valid w then w else w\<lparr>wm_addrs := replicate (cc_warp_size cfg) (replicate 8 0), wm_valid := True\<rparr>);
     assert_that (length as \<le> 8);
     old \<leftarrow> vec_at (wm_addrs w) n;
     Some (w\<lparr>wm_addrs := (wm_addrs w)[n := as @ drop (length as) old]\<rparr>)
   }"

definition clear_active :: "32 word \<Rightarrow> warp_mem \<Rightarrow> warp_mem option" where
  "clear_active inactive w = do {
     assert_that (wm_active w AND inactive = inactive);
     Some (w\<lparr>wm_active := wm_active w AND NOT inactive\<rparr>)
   }"

definition set_not_active :: "nat \<Rightarrow> warp_mem \<Rightarrow> warp_mem option" where
  "set_not_active lane w = do { assert_that (lane < 32); Some (w\<lparr>wm_active := unset_bit lane (wm_active w)\<rparr>) }"

subsection \<open>Global and local memory\<close>

definition segment_size_of :: "nat \<Rightarrow> 32 word" where
  "segment_size_of n = (if n = 1 then 32 else if n = 2 then 64 else if n \<in> {4, 8, 16} then 128 else 0)"

definition reduce_and_send ::
  "bool \<Rightarrow> mem_access_type \<Rightarrow> transaction_info \<Rightarrow> new_addr_type \<Rightarrow> 32 word \<Rightarrow> mem_access list \<Rightarrow> mem_access list option" where
  "reduce_and_send is_write access_type info addr segment_size accessq = do {
     assert_that (addr AND ucast (segment_size - 1) = 0);
     let q = ti_chunks info;
     assert_that (q \<noteq> 0);
     (sz, addr, h0, h1) \<leftarrow>
       (if segment_size = 128 then
          (let lower = bit q 0 \<or> bit q 1; upper = bit q 2 \<or> bit q 3 in
           if lower \<and> \<not> upper then Some (64, addr, bit q 0, bit q 1)
           else if \<not> lower \<and> upper then Some (64, addr + 64, bit q 2, bit q 3)
           else if lower \<and> upper then Some (segment_size, addr, False, False) else None)
        else if segment_size = 64 then
          (if addr mod 128 = 0 then Some (segment_size, addr, bit q 0, bit q 1)
           else if addr mod 128 = 64 then Some (segment_size, addr, bit q 2, bit q 3) else None)
        else Some (segment_size, addr, False, False));
     (sz, addr) \<leftarrow>
       (if sz = 64 then
          (if h0 \<and> \<not> h1 then Some (32, addr)
           else if \<not> h0 \<and> h1 then Some (32, addr + 32)
           else if h0 \<and> h1 then Some (sz, addr) else None)
        else Some (sz, addr));
     Some (accessq @ [new_access access_type addr sz is_write (ti_active info) (ti_bytes info)])
   }"

definition note_access :: "nat \<Rightarrow> new_addr_type \<Rightarrow> nat \<Rightarrow> transaction_info \<Rightarrow> transaction_info option" where
  "note_access thread addr data_size info = do {
     c \<leftarrow> mask_set (unat ((addr AND 127) div 32)) (ti_chunks info);
     a \<leftarrow> mask_set thread (ti_active info);
     b \<leftarrow> mask_set_range (unat (addr AND 127)) data_size (ti_bytes info);
     Some (info\<lparr>ti_chunks := c, ti_active := a, ti_bytes := b\<rparr>)
   }"

definition coalesce_split :: "warp_mem \<Rightarrow> nat \<times> nat" where
  "coalesce_split w =
     (if (wi_space w = local_sp \<or> wi_space w = param_sp_local) \<and> wm_data_size w \<ge> 4 then (4, wm_data_size w div 4)
      else (wm_data_size w, 1))"

type_synonym transactions = "(new_addr_type \<times> transaction_info) list"

definition coalesce_access :: "warp_mem \<Rightarrow> 32 word \<Rightarrow> nat \<Rightarrow> nat \<Rightarrow> nat \<Rightarrow> transactions \<Rightarrow> transactions option" where
  "coalesce_access w segment_size data_size_coales thread k m = do {
     addr \<leftarrow> memreqaddr w thread k;
     let block_address = line_size_based_tag_func addr (ucast segment_size);
     assert_that (block_address = line_size_based_tag_func (addr + of_nat data_size_coales - 1) (ucast segment_size));
     at_key transaction_new (note_access thread addr data_size_coales) (ucast block_address) m
   }"

definition coalesce_thread :: "warp_mem \<Rightarrow> 32 word \<Rightarrow> nat \<Rightarrow> transactions \<Rightarrow> transactions option" where
  "coalesce_thread w segment_size thread m = do {
     act \<leftarrow> mask_test (wm_active w) thread;
     (if \<not> act then Some m
      else do {
        let (data_size_coales, num_accesses) = coalesce_split w;
        assert_that (num_accesses \<le> 8);
        loop_over (coalesce_access w segment_size data_size_coales thread) [0..<num_accesses] m
      })
   }"

definition coalesce_subwarp ::
  "warp_mem \<Rightarrow> bool \<Rightarrow> mem_access_type \<Rightarrow> nat \<Rightarrow> nat \<Rightarrow> mem_access list \<Rightarrow> mem_access list option" where
  "coalesce_subwarp w is_write access_type subwarp_size subwarp accessq = do {
     let segment_size = segment_size_of (wm_data_size w);
     m \<leftarrow> loop_over (coalesce_thread w segment_size) [subwarp * subwarp_size..<subwarp_size * (subwarp + 1)] [];
     loop_over (\<lambda>(addr, info). reduce_and_send is_write access_type info addr segment_size) m accessq
   }"

definition memory_coalescing_arch_13 :: "core_config \<Rightarrow> bool \<Rightarrow> mem_access_type \<Rightarrow> warp_mem \<Rightarrow> warp_mem option" where
  "memory_coalescing_arch_13 cfg is_write access_type w = do {
     let warp_parts = cc_mem_warp_parts cfg;
     assert_that (warp_parts \<noteq> 0);
     let subwarp_size = cc_warp_size cfg div warp_parts;
     q \<leftarrow> loop_over (coalesce_subwarp w is_write access_type subwarp_size) [0..<warp_parts] (wm_accessq w);
     Some (w\<lparr>wm_accessq := q\<rparr>)
   }"

subsection \<open>Atomic accesses\<close>

text \<open>The first transaction of the list that shares no byte with the thread, or a new one at the end.\<close>

definition atomic_note :: "nat \<Rightarrow> new_addr_type \<Rightarrow> nat \<Rightarrow> transaction_info \<Rightarrow> transaction_info option" where
  "atomic_note thread addr data_size info = do {
     clash \<leftarrow> test_bytes (ti_bytes info) (unat (addr AND 127)) data_size;
     assert_that (\<not> clash);
     note_access thread addr data_size info
   }"

fun atomic_insert :: "nat \<Rightarrow> new_addr_type \<Rightarrow> nat \<Rightarrow> transaction_info list \<Rightarrow> transaction_info list option" where
  "atomic_insert thread addr data_size [] = map_option (\<lambda>t. [t]) (atomic_note thread addr data_size transaction_new)"
| "atomic_insert thread addr data_size (t # ts) = do {
     clash \<leftarrow> test_bytes (ti_bytes t) (unat (addr AND 127)) data_size;
     (if \<not> clash then map_option (\<lambda>t. t # ts) (atomic_note thread addr data_size t)
      else map_option ((#) t) (atomic_insert thread addr data_size ts))
   }"

type_synonym atomic_transactions = "(new_addr_type \<times> transaction_info list) list"

definition atomic_thread :: "warp_mem \<Rightarrow> 32 word \<Rightarrow> nat \<Rightarrow> atomic_transactions \<Rightarrow> atomic_transactions option" where
  "atomic_thread w segment_size thread m = do {
     act \<leftarrow> mask_test (wm_active w) thread;
     (if \<not> act then Some m
      else do {
        addr \<leftarrow> memreqaddr w thread 0;
        let block_address = line_size_based_tag_func addr (ucast segment_size);
        assert_that (block_address = line_size_based_tag_func (addr + of_nat (wm_data_size w) - 1) (ucast segment_size));
        at_key [] (atomic_insert thread addr (wm_data_size w)) (ucast block_address) m
      })
   }"

definition atomic_subwarp ::
  "warp_mem \<Rightarrow> bool \<Rightarrow> mem_access_type \<Rightarrow> nat \<Rightarrow> nat \<Rightarrow> mem_access list \<Rightarrow> mem_access list option" where
  "atomic_subwarp w is_write access_type subwarp_size subwarp accessq = do {
     let segment_size = segment_size_of (wm_data_size w);
     m \<leftarrow> loop_over (atomic_thread w segment_size) [subwarp * subwarp_size..<subwarp_size * (subwarp + 1)] [];
     loop_over (\<lambda>(addr, infos). loop_over (\<lambda>info. reduce_and_send is_write access_type info addr segment_size) infos) m accessq
   }"

definition memory_coalescing_arch_13_atomic :: "core_config \<Rightarrow> bool \<Rightarrow> mem_access_type \<Rightarrow> warp_mem \<Rightarrow> warp_mem option" where
  "memory_coalescing_arch_13_atomic cfg is_write access_type w = do {
     assert_that (wi_space w = global_sp);
     let subwarp_size = cc_warp_size cfg div 2;
     q \<leftarrow> loop_over (atomic_subwarp w is_write access_type subwarp_size) [0..<2] (wm_accessq w);
     Some (w\<lparr>wm_accessq := q\<rparr>)
   }"

subsection \<open>Shared memory\<close>

type_synonym bank_accesses = "(32 word \<times> (new_addr_type \<times> nat) list) list"

definition bank_thread :: "core_config \<Rightarrow> warp_mem \<Rightarrow> nat \<Rightarrow> bank_accesses \<Rightarrow> bank_accesses option" where
  "bank_thread cfg w thread m = do {
     act \<leftarrow> mask_test (wm_active w) thread;
     (if \<not> act then Some m
      else do {
        addr \<leftarrow> memreqaddr w thread 0;
        bank \<leftarrow> shmem_bank_func cfg (ucast addr);
        at_key [] (at_key 0 (\<lambda>n. Some (n + 1)) (ucast (line_size_based_tag_func addr 4))) bank m
      })
   }"

text \<open>The first bank, in the order of the map, with a word that several threads read, and that word.\<close>

fun find_broadcast :: "bank_accesses \<Rightarrow> (32 word \<times> new_addr_type) option" where
  "find_broadcast [] = None"
| "find_broadcast ((b, s) # m) = (case filter (\<lambda>(a, n). n > 1) s of [] \<Rightarrow> find_broadcast m | (a, n) # _ \<Rightarrow> Some (b, a))"

definition broadcast_accesses :: "(32 word \<times> new_addr_type) option \<Rightarrow> 32 word \<times> (new_addr_type \<times> nat) list \<Rightarrow> nat option" where
  "broadcast_accesses bc = (\<lambda>(b, s).
     let n = sum_list (map snd s) in
     case bc of
       Some (bank, word_) \<Rightarrow>
         (if bank = b then
            (case map_of s word_ of
               Some k \<Rightarrow> do { assert_that (k > 1); assert_that (n \<ge> k - 1); Some (n - (k - 1)) }
             | None \<Rightarrow> Some n)
          else Some n)
     | None \<Rightarrow> Some n)"

definition max_bank_accesses :: "core_config \<Rightarrow> bank_accesses \<Rightarrow> nat option" where
  "max_bank_accesses cfg m =
     (if cc_shmem_limited_broadcast cfg then
        loop_over (\<lambda>b acc. do { n \<leftarrow> broadcast_accesses (find_broadcast m) b; Some (if n > acc then n else acc) }) m 0
      else loop_over (\<lambda>(_, s) acc. Some (max acc (length s))) m 0)"

definition shared_subwarp :: "core_config \<Rightarrow> warp_mem \<Rightarrow> nat \<Rightarrow> nat \<Rightarrow> nat option" where
  "shared_subwarp cfg w subwarp acc = do {
     let subwarp_size = cc_warp_size cfg div cc_mem_warp_parts cfg;
     m \<leftarrow> loop_over (bank_thread cfg w) [subwarp * subwarp_size..<(subwarp + 1) * subwarp_size] [];
     n \<leftarrow> max_bank_accesses cfg m;
     Some (acc + n)
   }"

definition shared_accesses :: "core_config \<Rightarrow> warp_mem \<Rightarrow> warp_mem option" where
  "shared_accesses cfg w = do {
     assert_that (cc_mem_warp_parts cfg \<noteq> 0);
     total_accesses \<leftarrow> loop_over (shared_subwarp cfg w) [0..<cc_mem_warp_parts cfg] 0;
     assert_that (total_accesses > 0 \<and> total_accesses \<le> cc_warp_size cfg);
     Some (w\<lparr>wm_cycles := total_accesses\<rparr>)
   }"

subsection \<open>Constant and texture memory\<close>

text \<open>The byte mask is one for all accesses of the instruction.\<close>

definition line_thread ::
  "warp_mem \<Rightarrow> new_addr_type \<Rightarrow> nat \<Rightarrow> (new_addr_type \<times> 32 word) list \<times> 128 word \<Rightarrow> ((new_addr_type \<times> 32 word) list \<times> 128 word) option" where
  "line_thread w cache_block_size thread = (\<lambda>(accesses, byte_mask). do {
     act \<leftarrow> mask_test (wm_active w) thread;
     (if \<not> act then Some (accesses, byte_mask)
      else do {
        addr \<leftarrow> memreqaddr w thread 0;
        let block_address = line_size_based_tag_func addr cache_block_size;
        accesses \<leftarrow> at_key 0 (mask_set thread) (ucast block_address) accesses;
        byte_mask \<leftarrow> mask_set_range (unat (ucast (addr - ucast block_address) :: 32 word)) (wm_data_size w) byte_mask;
        Some (accesses, byte_mask)
      })
   })"

definition line_accesses :: "core_config \<Rightarrow> bool \<Rightarrow> mem_access_type \<Rightarrow> new_addr_type \<Rightarrow> warp_mem \<Rightarrow> warp_mem option" where
  "line_accesses cfg is_write access_type cache_block_size w =
     (if cache_block_size = 0 then Some w
      else do {
        assert_that (wm_accessq w = []);
        (accesses, byte_mask) \<leftarrow> loop_over (line_thread w cache_block_size) [0..<cc_warp_size cfg] ([], 0);
        Some (w\<lparr>wm_accessq := map (\<lambda>(a, t). new_access access_type a (ucast cache_block_size) is_write t byte_mask) accesses\<rparr>)
      })"

subsection \<open>The accesses of an instruction\<close>

definition access_type_of :: "mem_space_t \<Rightarrow> bool \<Rightarrow> mem_access_type option" where
  "access_type_of sp is_write =
     (if sp = const_sp \<or> sp = param_sp_kernel then Some CONST_ACC_R
      else if sp = tex_sp then Some TEXTURE_ACC_R
      else if sp = global_sp then Some (if is_write then GLOBAL_ACC_W else GLOBAL_ACC_R)
      else if sp = local_sp \<or> sp = param_sp_local then Some (if is_write then LOCAL_ACC_W else LOCAL_ACC_R)
      else None)"

definition generate_mem_accesses :: "core_config \<Rightarrow> warp_mem \<Rightarrow> warp_mem option" where
  "generate_mem_accesses cfg w =
     (if wi_empty w \<or> wi_op w = MEMORY_BARRIER_OP \<or> wm_created w then Some w
      else if \<not> (wi_op w = LOAD_OP \<or> wi_op w = STORE_OP) then Some w
      else if wm_active w = 0 then Some w
      else do {
        assert_that (wm_valid w);
        let is_write = is_store w;
        w \<leftarrow> (if wi_space w = shared_sp then shared_accesses cfg w
              else do {
                access_type \<leftarrow> access_type_of (wi_space w) is_write;
                (if wi_space w = tex_sp then line_accesses cfg is_write access_type (cc_texl1_linesize cfg) w
                 else if wi_space w = const_sp \<or> wi_space w = param_sp_kernel
                 then line_accesses cfg is_write access_type (cc_constl1_linesize cfg) w
                 else do {
                   assert_that (cc_coalesce_arch cfg = 13);
                   (if wm_isatomic w then memory_coalescing_arch_13_atomic cfg is_write access_type w
                    else memory_coalescing_arch_13 cfg is_write access_type w)
                 })
              });
        Some (w\<lparr>wm_created := True\<rparr>)
      })"

subsection \<open>Segments\<close>

lemma and_not_mask: "unat (a AND NOT (mask k)) = unat a div 2 ^ k * 2 ^ k" for a :: "'n::len word"
proof -
  have "a AND NOT (mask k) = push_bit k (drop_bit k a)"
    by (rule bit_word_eqI) (auto simp: bit_simps)
  moreover have "unat (push_bit k (drop_bit k a)) = take_bit LENGTH('n) (unat a div 2 ^ k * 2 ^ k)"
    unfolding unsigned_push_bit_eq unsigned_drop_bit_eq by (simp add: push_bit_eq_mult drop_bit_eq_div take_bit_nat_eq_self)
  moreover have "unat a div 2 ^ k * 2 ^ k < 2 ^ LENGTH('n)"
    using div_times_less_eq_dividend [of "unat a" "2 ^ k"] unsigned_less [of a] le_less_trans by blast
  ultimately show ?thesis by (simp add: take_bit_nat_eq_self)
qed

definition seg_ok :: "32 word \<Rightarrow> bool" where "seg_ok s \<longleftrightarrow> s \<in> {32, 64, 128}"

lemma seg_okE:
  assumes "seg_ok s"
  obtains k where "s = 2 ^ k" "unat s = 2 ^ k" "k \<in> {5, 6, 7}" "ucast s - 1 = (mask k :: 64 word)" "unat s dvd 128"
  using assms unfolding seg_ok_def
  by (elim insertE) (force simp: mask_eq_exp_minus_1 intro: that [of 5] that [of 6] that [of 7])+

text \<open>The block of an address below \<open>2^32\<close>.\<close>

definition block_of :: "32 word \<Rightarrow> new_addr_type \<Rightarrow> new_addr_type" where
  "block_of s a = ucast (line_size_based_tag_func a (ucast s))"

lemma unat_ucast_small: "unat a < 2 ^ 32 \<Longrightarrow> unat (ucast (a :: 64 word) :: 32 word) = unat a"
  by (simp add: unsigned_ucast_eq take_bit_nat_eq_self)

lemma unat_ucast_up [simp]: "unat (ucast (a :: 32 word) :: 64 word) = unat a"
proof -
  have "unat a < 2 ^ 64" using unsigned_less [of a, where 'a = nat] by simp
  then show ?thesis by (simp add: unsigned_ucast_eq take_bit_nat_eq_self)
qed

lemma unat_tag: "seg_ok s \<Longrightarrow> unat a < 2 ^ 32 \<Longrightarrow> unat (line_size_based_tag_func a (ucast s)) = unat a div unat s * unat s"
proof -
  assume a: "seg_ok s" "unat a < 2 ^ 32"
  from a(1) obtain k where k: "unat s = 2 ^ k" "ucast s - 1 = (mask k :: 64 word)" by (rule seg_okE)
  have "unat a div 2 ^ k * 2 ^ k < 2 ^ 32" using div_times_less_eq_dividend a(2) le_less_trans by blast
  then show ?thesis
    using and_not_mask [of a k] unat_ucast_small [of "a AND NOT (mask k)"] by (simp add: line_size_based_tag_func_def k)
qed

lemma unat_block_of: "seg_ok s \<Longrightarrow> unat a < 2 ^ 32 \<Longrightarrow> unat (block_of s a) = unat a div unat s * unat s"
  using unat_tag [of s a] by (simp add: block_of_def unat_ucast_up)

lemma and_127: "unat (a AND 127) = unat a mod 128" for a :: "64 word"
proof -
  have "a AND 127 = take_bit 7 a" by (simp add: take_bit_eq_mask mask_eq_exp_minus_1)
  then show ?thesis by (simp add: unat_mod take_bit_eq_mod)
qed

lemma and_127_div: "unat ((a AND 127) div 32) = unat a mod 128 div 32" for a :: "64 word"
  by (simp add: unat_div and_127)

text \<open>An aligned access stays within a chunk of 32 bytes and hence within a block.\<close>

lemma aligned_chunk:
  fixes d n s :: nat
  assumes "d \<in> {1, 2, 4, 8, 16}" "d dvd n" "32 dvd s" "0 < s"
  shows "n mod 32 + d \<le> 32" "(n + d - 1) div s = n div s"
proof -
  have dd: "d dvd 32" "0 < d" "d \<le> 16" using assms(1) by auto
  show 1: "n mod 32 + d \<le> 32"
  proof -
    have "d dvd n mod 32" using assms(2) dd(1) by (simp add: dvd_mod)
    then obtain k where k: "n mod 32 = d * k" by blast
    obtain j where j: "32 = d * j" using dd(1) by blast
    have "d * k < d * j" using k j mod_less_divisor [of 32 n] by simp
    then have "d * k + d \<le> d * j" using dd(2) by (metis mult_less_cancel1 Suc_leI mult_Suc_right add.commute mult_le_mono2)
    then show ?thesis using k j by simp
  qed
  have "n mod s + d \<le> s"
  proof -
    obtain j where j: "s = 32 * j" using assms(3) by blast
    have "n mod s = 32 * (n div 32 mod j) + n mod 32" unfolding j by (rule mod_mult2_eq)
    moreover have "n div 32 mod j < j" using j assms(4) by simp
    ultimately have "n mod s + d \<le> 32 * (n div 32 mod j) + 32" using 1 by simp
    also have "\<dots> \<le> 32 * j" using \<open>n div 32 mod j < j\<close> by (simp add: Suc_leI flip: mult_Suc_right)
    finally show ?thesis using j by simp
  qed
  then have "n mod s + d - 1 < s" using dd(2) assms(4) by simp
  moreover have "n + d - 1 = n div s * s + (n mod s + d - 1)" using dd(2) div_mult_mod_eq [of n s] by linarith
  ultimately show "(n + d - 1) div s = n div s" using assms(4) by (metis add.commute add_cancel_right_right div_less div_mult_self3 less_not_refl3)
qed

subsection \<open>Reduction of a transaction\<close>

text \<open>The access sent for a transaction lies in its segment, is aligned and covers the chunks in use; its size is more than 32 bytes
  only if chunks in both of its halves are in use.\<close>

definition covers :: "mem_access \<Rightarrow> nat \<Rightarrow> nat \<Rightarrow> bool" where
  "covers x n d \<longleftrightarrow> unat (ma_addr x) \<le> n \<and> n + d \<le> unat (ma_addr x) + unat (ma_req_size x)"

definition access_tight :: "mem_access \<Rightarrow> (nat \<Rightarrow> bool) \<Rightarrow> bool" where
  "access_tight x used \<longleftrightarrow>
     unat (ma_req_size x) \<in> {32, 64, 128} \<and> unat (ma_req_size x) dvd unat (ma_addr x)
     \<and> (unat (ma_req_size x) \<noteq> 32 \<longrightarrow>
          (\<exists>c. used c \<and> covers (x\<lparr>ma_req_size := ma_req_size x div 2\<rparr>) (32 * c) 32)
          \<and> (\<exists>c. used c \<and> covers (x\<lparr>ma_addr := ma_addr x + ucast (ma_req_size x div 2), ma_req_size := ma_req_size x div 2\<rparr>) (32 * c) 32))"

lemma four_bits: "(\<forall>c<4. P c) \<longleftrightarrow> P 0 \<and> P 1 \<and> P 2 \<and> P (3 :: nat)"
  by (auto simp: numeral_eq_Suc less_Suc_eq)

lemma four_zero: "(q :: 4 word) \<noteq> 0 \<longleftrightarrow> bit q 0 \<or> bit q 1 \<or> bit q 2 \<or> bit q 3"
proof -
  have "q = 0 \<longleftrightarrow> (\<forall>c<4. \<not> bit q c)" by (auto simp: bit_eq_iff)
  then show ?thesis unfolding four_bits by blast
qed

definition chunk_used :: "4 word \<Rightarrow> nat \<Rightarrow> nat \<Rightarrow> bool" where
  "chunk_used q N c \<longleftrightarrow> c div 4 = N \<and> bit q (c mod 4)"

lemma ex_chunk: "(\<exists>c. chunk_used q N c \<and> P c) \<longleftrightarrow> (\<exists>j<4. bit q j \<and> P (4 * N + j))"
proof
  assume "\<exists>c. chunk_used q N c \<and> P c"
  then obtain c where c: "c div 4 = N" "bit q (c mod 4)" "P c" by (auto simp: chunk_used_def)
  moreover have "4 * N + c mod 4 = c" using c(1) by auto
  ultimately show "\<exists>j<4. bit q j \<and> P (4 * N + j)" by (intro exI [of _ "c mod 4"]) simp
next
  assume "\<exists>j<4. bit q j \<and> P (4 * N + j)"
  then obtain j where "j < 4" "bit q j" "P (4 * N + j)" by blast
  then show "\<exists>c. chunk_used q N c \<and> P c" by (intro exI [of _ "4 * N + j"]) (simp add: chunk_used_def)
qed

lemma ex_four: "(\<exists>c<4. P c) \<longleftrightarrow> P 0 \<or> P 1 \<or> P 2 \<or> P (3 :: nat)"
  using four_bits [of "\<lambda>c. \<not> P c"] by blast

lemma new_access_sel [simp]:
  "ma_type (new_access ty a z wr t b) = ty" "ma_write (new_access ty a z wr t b) = wr" "ma_warp_mask (new_access ty a z wr t b) = t"
  "ma_byte_mask (new_access ty a z wr t b) = b" "ma_req_size (new_access ty a z wr t b) = z"
  by (simp_all add: new_access_def)

lemma new_access_addr: "unat a < 2 ^ 32 \<Longrightarrow> ma_addr (new_access ty a z wr t b) = a"
  using unat_ucast_small [of a] unat_ucast_up [of "ucast a"] by (simp add: new_access_def word_unat_eq_iff)

lemma unat_add_small: "unat a + m < 2 ^ 64 \<Longrightarrow> unat (a + of_nat m) = unat a + m" for a :: "64 word"
  by (simp add: unat_word_ariths unsigned_of_nat take_bit_eq_mod)

text \<open>The access at offset \<open>m\<close> of the block.\<close>

lemma send_shape:
  fixes b :: "64 word"
  assumes "unat b + m + z \<le> 2 ^ 32" "z \<in> {32, 64, 128}" "z dvd unat b + m" "unat b = 128 * N + r"
    "z \<noteq> 32 \<longrightarrow> (\<exists>j<4. bit q j \<and> r + m \<le> 32 * j \<and> 32 * j + 32 \<le> r + m + z div 2) \<and> (\<exists>j<4. bit q j \<and> r + m + z div 2 \<le> 32 * j \<and> 32 * j + 32 \<le> r + m + z)"
    "\<forall>j<4. bit q j \<longrightarrow> r + m \<le> 32 * j \<and> 32 * j + 32 \<le> r + m + z"
  shows "access_tight (new_access ty (b + of_nat m) (of_nat z) wr t y) (chunk_used q N)
    \<and> (\<forall>j<4. bit q j \<longrightarrow> covers (new_access ty (b + of_nat m) (of_nat z) wr t y) (128 * N + 32 * j) 32)"
proof -
  let ?x = "new_access ty (b + of_nat m) (of_nat z) wr t y"
  have z: "unat (of_nat z :: 32 word) = z" "unat (of_nat z div 2 :: 32 word) = z div 2" using assms(2) by (auto simp: unat_div)
  have a: "unat (ma_addr ?x) = unat b + m"
    using assms(1,2) unat_add_small [of b m] new_access_addr [of "b + of_nat m"] by auto
  have a2: "unat (ma_addr ?x + ucast (of_nat z div 2 :: 32 word)) = unat b + m + z div 2"
  proof -
    have "ucast (of_nat z div 2 :: 32 word) = (of_nat (z div 2) :: 64 word)" using assms(2) by auto
    then show ?thesis using assms(1,2) a unat_add_small [of "ma_addr ?x" "z div 2"] by auto
  qed
  have "\<exists>c. chunk_used q N c \<and> covers (?x\<lparr>ma_req_size := ma_req_size ?x div 2\<rparr>) (32 * c) 32" if "z \<noteq> 32"
    unfolding ex_chunk covers_def using assms(4,5) that a z by auto
  moreover have "\<exists>c. chunk_used q N c
      \<and> covers (?x\<lparr>ma_addr := ma_addr ?x + ucast (ma_req_size ?x div 2), ma_req_size := ma_req_size ?x div 2\<rparr>) (32 * c) 32" if "z \<noteq> 32"
    unfolding ex_chunk covers_def using assms(2,4,5) that a2 z by auto
  ultimately have "access_tight ?x (chunk_used q N)" unfolding access_tight_def using assms(2,3) z a by simp
  moreover have "\<forall>j<4. bit q j \<longrightarrow> covers ?x (128 * N + 32 * j) 32" unfolding covers_def using assms(4,6) a z by (auto simp: add.assoc)
  ultimately show ?thesis by blast
qed

lemma aligned_block: "seg_ok s \<Longrightarrow> unat s dvd unat b \<Longrightarrow> b AND ucast (s - 1) = 0" for b :: "64 word"
proof -
  assume a: "seg_ok s" "unat s dvd unat b"
  have m: "ucast (s - 1) = (ucast s - 1 :: 64 word)" using a(1) by (auto simp: seg_ok_def)
  from a(1) obtain k where k: "unat s = 2 ^ k" "ucast s - 1 = (mask k :: 64 word)" by (rule seg_okE)
  have "unat (b AND mask k) = unat b mod 2 ^ k"
    using unsigned_take_bit_eq [of k b, where 'a = nat] by (simp only: take_bit_eq_mask [of k b] take_bit_eq_mod [of k "unat b"])
  then show ?thesis using a(2) by (simp add: m k word_unat_eq_iff)
qed

definition sent_for :: "bool \<Rightarrow> mem_access_type \<Rightarrow> transaction_info \<Rightarrow> new_addr_type \<Rightarrow> mem_access \<Rightarrow> bool" where
  "sent_for wr ty info b x \<longleftrightarrow> ma_type x = ty \<and> ma_write x = wr \<and> ma_warp_mask x = ti_active info \<and> ma_byte_mask x = ti_bytes info
     \<and> access_tight x (chunk_used (ti_chunks info) (unat b div 128))
     \<and> (\<forall>j<4. bit (ti_chunks info) j \<longrightarrow> covers x (128 * (unat b div 128) + 32 * j) 32)"

lemma sent_for_at:
  assumes "unat b + m + z \<le> 2 ^ 32" "z \<in> {32, 64, 128}" "z dvd unat b + m"
    "z \<noteq> 32 \<longrightarrow> (\<exists>j<4. bit (ti_chunks info) j \<and> unat b mod 128 + m \<le> 32 * j \<and> 32 * j + 32 \<le> unat b mod 128 + m + z div 2)
       \<and> (\<exists>j<4. bit (ti_chunks info) j \<and> unat b mod 128 + m + z div 2 \<le> 32 * j \<and> 32 * j + 32 \<le> unat b mod 128 + m + z)"
    "\<forall>j<4. bit (ti_chunks info) j \<longrightarrow> unat b mod 128 + m \<le> 32 * j \<and> 32 * j + 32 \<le> unat b mod 128 + m + z"
  shows "sent_for wr ty info b (new_access ty (b + of_nat m) (of_nat z) wr (ti_active info) (ti_bytes info))"
proof -
  have "unat b = 128 * (unat b div 128) + unat b mod 128" by simp
  from send_shape [OF assms(1-3) this assms(4,5)] show ?thesis by (simp add: sent_for_def)
qed

text \<open>The three sizes of segments.\<close>

lemma send_32:
  assumes "unat b + 32 \<le> 2 ^ 32" "32 dvd unat b" "ti_chunks info \<noteq> 0"
    "\<forall>j<4. bit (ti_chunks info) j \<longrightarrow> unat b mod 128 \<le> 32 * j \<and> 32 * j + 32 \<le> unat b mod 128 + 32"
  shows "\<exists>x. reduce_and_send wr ty info b 32 accq = Some (accq @ [x]) \<and> sent_for wr ty info b x"
  using sent_for_at [of b 0 32 info wr ty] aligned_block [of 32 b] assms by (simp add: reduce_and_send_def seg_ok_def)

lemma send_64:
  assumes "unat b + 64 \<le> 2 ^ 32" "64 dvd unat b" "ti_chunks info \<noteq> 0"
    "\<forall>j<4. bit (ti_chunks info) j \<longrightarrow> unat b mod 128 \<le> 32 * j \<and> 32 * j + 32 \<le> unat b mod 128 + 64"
  shows "\<exists>x. reduce_and_send wr ty info b 64 accq = Some (accq @ [x]) \<and> sent_for wr ty info b x"
proof -
  let ?q = "ti_chunks info"
  obtain k where k: "unat b = 64 * k" using assms(2) by blast
  have "64 * k mod (64 * 2) = 64 * (k mod 2)" by (rule mult_mod_right [symmetric])
  then have r: "unat b mod 128 = 0 \<or> unat b mod 128 = 64" using k by (cases "k mod 2 = 0") simp_all
  have d: "32 dvd unat b" "32 dvd unat b + 32" using assms(2) by (auto elim!: dvdE)
  have w: "b mod 128 = 0 \<longleftrightarrow> unat b mod 128 = 0" "b mod 128 = 64 \<longleftrightarrow> unat b mod 128 = 64" by (auto simp: word_unat_eq_iff unat_mod)
  have b: "unat b + 0 + 64 \<le> 2 ^ 32" "unat b + 0 + 32 \<le> 2 ^ 32" "unat b + 32 + 32 \<le> 2 ^ 32" using assms(1) by simp_all
  note at = sent_for_at [OF b(1), of info wr ty] sent_for_at [OF b(2), of info wr ty] sent_for_at [OF b(3), of info wr ty]
  have q: "bit ?q 0 \<or> bit ?q 1 \<or> bit ?q 2 \<or> bit ?q 3" using assms(3) by (simp add: four_zero)
  from r show ?thesis
  proof
    assume z: "unat b mod 128 = 0"
    have "\<not> bit ?q 2" "\<not> bit ?q 3" using assms(4) z by (simp_all add: four_bits)
    then show ?thesis using at z w q d assms(2,3) aligned_block [of 64 b]
      by (cases "bit ?q 0"; cases "bit ?q 1") (simp_all add: reduce_and_send_def seg_ok_def four_bits ex_four)
  next
    assume z: "unat b mod 128 = 64"
    have "\<not> bit ?q 0" "\<not> bit ?q 1" using assms(4) z by (simp_all add: four_bits)
    then show ?thesis using at z w q d assms(2,3) aligned_block [of 64 b]
      by (cases "bit ?q 2"; cases "bit ?q 3") (simp_all add: reduce_and_send_def seg_ok_def four_bits ex_four)
  qed
qed

lemma send_128:
  assumes "unat b + 128 \<le> 2 ^ 32" "128 dvd unat b" "ti_chunks info \<noteq> 0"
  shows "\<exists>x. reduce_and_send wr ty info b 128 accq = Some (accq @ [x]) \<and> sent_for wr ty info b x"
proof -
  let ?q = "ti_chunks info"
  have r: "unat b mod 128 = 0" using assms(2) by simp
  have d: "32 dvd unat b" "32 dvd unat b + 32" "32 dvd unat b + 64" "32 dvd unat b + 96" "64 dvd unat b" "64 dvd unat b + 64"
    using assms(2) by (auto elim!: dvdE)
  have b: "unat b + 0 + 128 \<le> 2 ^ 32" "unat b + 0 + 64 \<le> 2 ^ 32" "unat b + 64 + 64 \<le> 2 ^ 32" "unat b + 0 + 32 \<le> 2 ^ 32"
    "unat b + 32 + 32 \<le> 2 ^ 32" "unat b + 64 + 32 \<le> 2 ^ 32" "unat b + 96 + 32 \<le> 2 ^ 32" using assms(1) by simp_all
  note at = b [THEN sent_for_at, of info wr ty]
  have q: "bit ?q 0 \<or> bit ?q 1 \<or> bit ?q 2 \<or> bit ?q 3" using assms(3) by (simp add: four_zero)
  show ?thesis using at r q d assms(2,3) aligned_block [of 128 b]
    by (cases "bit ?q 0"; cases "bit ?q 1"; cases "bit ?q 2"; cases "bit ?q 3")
      (simp_all add: reduce_and_send_def seg_ok_def four_bits ex_four add.commute [of b])
qed

lemma reduce_and_send_ok:
  assumes "seg_ok s" "unat s dvd unat b" "unat b + unat s \<le> 2 ^ 32" "ti_chunks info \<noteq> 0"
    "\<forall>j<4. bit (ti_chunks info) j \<longrightarrow> unat b mod 128 \<le> 32 * j \<and> 32 * j + 32 \<le> unat b mod 128 + unat s"
  shows "\<exists>x. reduce_and_send wr ty info b s accq = Some (accq @ [x]) \<and> sent_for wr ty info b x"
  using assms send_32 [of b info wr ty accq] send_64 [of b info wr ty accq] send_128 [of b info wr ty accq] by (auto simp: seg_ok_def)

subsection \<open>Maps and loops\<close>

lemma at_key_Some:
  assumes "sorted_wrt (<) (map fst m)" "f (case map_of m k of Some u \<Rightarrow> u | None \<Rightarrow> d) = Some v"
  shows "\<exists>m'. at_key d f k m = Some m' \<and> sorted_wrt (<) (map fst m') \<and> map_of m' = (map_of m)(k \<mapsto> v) \<and> set (map fst m') = insert k (set (map fst m))"
  using assms
proof (induction m)
  case (Cons p m)
  obtain j u where p: "p = (j, u)" by fastforce
  have nk: "map_of m k = None" if "k \<le> j" using Cons.prems(1) p that by (fastforce simp: map_of_eq_None_iff)
  consider "k < j" | "k = j" | "j < k" by (rule linorder_cases)
  then show ?case
  proof cases
    case 1
    then have "k \<noteq> j" "map_of m k = None" using nk by auto
    then have "f d = Some v" using Cons.prems(2) p by simp
    with 1 Cons.prems(1) p show ?thesis by (auto simp: fun_eq_iff)
  next
    case 2
    then show ?thesis using Cons.prems p by (auto simp: fun_eq_iff)
  next
    case 3
    then have "f (case map_of m k of Some u \<Rightarrow> u | None \<Rightarrow> d) = Some v" using Cons.prems(2) p less_imp_neq [OF 3] by simp
    moreover have "sorted_wrt (<) (map fst m)" using Cons.prems(1) p by simp
    ultimately obtain m' where "at_key d f k m = Some m'" "sorted_wrt (<) (map fst m')" "map_of m' = (map_of m)(k \<mapsto> v)"
      "set (map fst m') = insert k (set (map fst m))" using Cons.IH by blast
    then show ?thesis using 3 Cons.prems(1) p by (auto simp: fun_eq_iff)
  qed
qed simp

lemma loop_over_inv:
  "\<lbrakk>\<And>ys x zs s. \<lbrakk>xs = ys @ x # zs; I ys s\<rbrakk> \<Longrightarrow> \<exists>s'. f x s = Some s' \<and> I (ys @ [x]) s'; I [] s\<rbrakk> \<Longrightarrow> \<exists>s'. loop_over f xs s = Some s' \<and> I xs s'"
proof (induction xs arbitrary: I s)
  case (Cons x xs)
  from Cons.prems(1) [of "[]" x xs s] Cons.prems(2) obtain s1 where s1: "f x s = Some s1" "I [x] s1" by auto
  have "\<exists>s'. loop_over f xs s1 = Some s' \<and> I (x # xs) s'"
  proof (rule Cons.IH [of "\<lambda>ys. I (x # ys)"])
    fix ys y zs s assume "xs = ys @ y # zs" "I (x # ys) s"
    then show "\<exists>s'. f y s = Some s' \<and> I (x # ys @ [y]) s'" using Cons.prems(1) [of "x # ys" y zs s] by simp
  qed (use s1 in simp)
  then show ?case using s1 by simp
qed simp

lemma bit_mask_set: "i < LENGTH('n) \<Longrightarrow> \<exists>w'. mask_set i w = Some w' \<and> (\<forall>j. bit w' j \<longleftrightarrow> bit w j \<or> j = i)" for w :: "'n::len word"
  by (auto simp: mask_set_def bit_set_bit_iff)

lemma bit_mask_set_range:
  "idx + n \<le> LENGTH('n) \<Longrightarrow> \<exists>w'. mask_set_range idx n w = Some w' \<and> (\<forall>j. bit w' j \<longleftrightarrow> bit w j \<or> (idx \<le> j \<and> j < idx + n))" for w :: "'n::len word"
proof (induction n arbitrary: idx w)
  case (Suc n)
  from bit_mask_set [of idx w] Suc.prems obtain w1 where w1: "mask_set idx w = Some w1" "\<forall>j. bit w1 j \<longleftrightarrow> bit w j \<or> j = idx" by auto
  from Suc.IH [of "Suc idx" w1] Suc.prems obtain w2 where
    "mask_set_range (Suc idx) n w1 = Some w2" "\<forall>j. bit w2 j \<longleftrightarrow> bit w1 j \<or> (Suc idx \<le> j \<and> j < Suc idx + n)" by auto
  moreover have "idx \<le> j \<and> j < idx + Suc n \<longleftrightarrow> j = idx \<or> (Suc idx \<le> j \<and> j < Suc idx + n)" for j by arith
  ultimately show ?case using w1 by auto
qed auto

text \<open>What the transaction of a block holds after the accesses \<open>S\<close> of size \<open>d\<close>.\<close>

definition info_of :: "nat \<Rightarrow> (nat \<times> new_addr_type) set \<Rightarrow> transaction_info \<Rightarrow> bool" where
  "info_of d S info \<longleftrightarrow>
     (\<forall>c. bit (ti_chunks info) c \<longleftrightarrow> (\<exists>(t, a) \<in> S. unat a mod 128 div 32 = c))
     \<and> (\<forall>t. bit (ti_active info) t \<longleftrightarrow> (\<exists>a. (t, a) \<in> S))
     \<and> (\<forall>i. bit (ti_bytes info) i \<longleftrightarrow> (\<exists>(t, a) \<in> S. unat a mod 128 \<le> i \<and> i < unat a mod 128 + d))"

lemma info_of_new: "info_of d {} transaction_new"
  by (simp add: info_of_def transaction_new_def)

lemma note_access_ok:
  assumes "info_of d S info" "t < 32" "unat a mod 128 + d \<le> 128"
  shows "\<exists>info'. note_access t a d info = Some info' \<and> info_of d (insert (t, a) S) info'"
proof -
  have "unat a mod 128 div 32 < LENGTH(4)" by (simp add: div_less_iff_less_mult)
  from bit_mask_set [OF this, of "ti_chunks info"] obtain c where
    c: "mask_set (unat a mod 128 div 32) (ti_chunks info) = Some c" "\<forall>j. bit c j \<longleftrightarrow> bit (ti_chunks info) j \<or> j = unat a mod 128 div 32" by blast
  from bit_mask_set [of t "ti_active info"] assms(2) obtain m where
    m: "mask_set t (ti_active info) = Some m" "\<forall>j. bit m j \<longleftrightarrow> bit (ti_active info) j \<or> j = t" by auto
  from bit_mask_set_range [of "unat a mod 128" d "ti_bytes info"] assms(3) obtain b where
    b: "mask_set_range (unat a mod 128) d (ti_bytes info) = Some b"
      "\<forall>j. bit b j \<longleftrightarrow> bit (ti_bytes info) j \<or> (unat a mod 128 \<le> j \<and> j < unat a mod 128 + d)" by auto
  have "note_access t a d info = Some (info\<lparr>ti_chunks := c, ti_active := m, ti_bytes := b\<rparr>)"
    using c(1) m(1) b(1) by (simp add: note_access_def and_127 and_127_div)
  moreover have "info_of d (insert (t, a) S) (info\<lparr>ti_chunks := c, ti_active := m, ti_bytes := b\<rparr>)"
    using assms(1) c(2) m(2) b(2) by (auto simp: info_of_def)
  ultimately show ?thesis by blast
qed

subsection \<open>The transactions of a subwarp\<close>

text \<open>The map holds a transaction for each block with an access, and it holds what the accesses to the block give.\<close>

definition trans_inv :: "32 word \<Rightarrow> nat \<Rightarrow> (nat \<times> new_addr_type) set \<Rightarrow> transactions \<Rightarrow> bool" where
  "trans_inv s d S m \<longleftrightarrow> sorted_wrt (<) (map fst m)
     \<and> dom (map_of m) = (\<lambda>x. block_of s (snd x)) ` S
     \<and> (\<forall>b info. map_of m b = Some info \<longrightarrow> info_of d {x \<in> S. block_of s (snd x) = b} info)"

definition addr_ok :: "nat \<Rightarrow> new_addr_type \<Rightarrow> bool" where
  "addr_ok d a \<longleftrightarrow> unat a < 2 ^ 32 \<and> d dvd unat a"

definition size_ok :: "nat \<Rightarrow> bool" where "size_ok d \<longleftrightarrow> d \<in> {1, 2, 4, 8, 16}"

lemma addr_in_mod:
  assumes "size_ok d" "addr_ok d a"
  shows "unat a mod 128 + d \<le> 128"
proof -
  have d: "d \<in> {1, 2, 4, 8, 16}" "d dvd unat a" using assms by (auto simp: size_ok_def addr_ok_def)
  have "(unat a mod 128) mod 32 + d \<le> 32" using aligned_chunk(1) [OF d, of 32] by (simp add: mod_mod_cancel)
  moreover have "unat a mod 128 div 32 \<le> 3" by (simp add: less_Suc_eq_le [symmetric] div_less_iff_less_mult)
  ultimately show ?thesis using div_mult_mod_eq [of "unat a mod 128" 32] by linarith
qed

lemma block_last:
  assumes "seg_ok s" "size_ok d" "addr_ok d a"
  shows "line_size_based_tag_func a (ucast s) = line_size_based_tag_func (a + of_nat d - 1) (ucast s)"
proof -
  have d: "d \<in> {1, 2, 4, 8, 16}" "d dvd unat a" "0 < d" using assms(2,3) by (auto simp: size_ok_def addr_ok_def)
  have "32 dvd unat s" "0 < unat s" using assms(1) by (auto simp: seg_ok_def)
  note al = aligned_chunk(2) [OF d(1,2) this]
  have dv: "d dvd 2 ^ 32" using d(1) by (auto intro: dvdI [of _ 1])
  have lt: "unat a < 2 ^ 32" using assms(3) by (simp add: addr_ok_def)
  then have le: "unat a + d \<le> 2 ^ 32" using d(2,3) dv by (metis dvd_add_right_iff dvd_imp_le dvd_minus_self less_imp_add_positive less_imp_le_nat nat_dvd_not_less nat_add_left_cancel_le zero_less_diff)
  have "a + of_nat d - 1 = a + of_nat (d - 1)" using d(3) by (simp add: of_nat_diff)
  moreover have "unat (a + of_nat (d - 1)) = unat a + (d - 1)" using unat_add_small [of a "d - 1"] le by simp
  ultimately have u: "unat (a + of_nat d - 1) = unat a + d - 1" using d(3) by (metis Nat.add_diff_assoc Suc_leI One_nat_def)
  then have "unat (a + of_nat d - 1) < 2 ^ 32" using le d(3) by simp
  from unat_tag [OF assms(1) this] unat_tag [OF assms(1) lt] u al show ?thesis by (simp add: word_unat_eq_iff)
qed

lemma coalesce_access_ok:
  assumes "trans_inv s d S m" "seg_ok s" "size_ok d" "memreqaddr w t k = Some a" "addr_ok d a" "t < 32"
  shows "\<exists>m'. coalesce_access w s d t k m = Some m' \<and> trans_inv s d (insert (t, a) S) m'"
proof -
  let ?b = "block_of s a"
  let ?old = "case map_of m ?b of Some u \<Rightarrow> u | None \<Rightarrow> transaction_new"
  let ?T = "\<lambda>S b. {x \<in> S. block_of s (snd x) = b}"
  have "info_of d (?T S ?b) ?old"
  proof (cases "map_of m ?b")
    case None
    then have "?b \<notin> (\<lambda>x. block_of s (snd x)) ` S" using assms(1) by (auto simp: trans_inv_def domIff)
    then have "?T S ?b = {}" by force
    with None show ?thesis using info_of_new [of d] by (simp only: option.case)
  next
    case (Some info)
    with assms(1) show ?thesis by (simp add: trans_inv_def)
  qed
  from note_access_ok [OF this assms(6) addr_in_mod [OF assms(3,5)]] obtain info' where
    i: "note_access t a d ?old = Some info'" "info_of d (insert (t, a) (?T S ?b)) info'" by blast
  from at_key_Some [where f = "note_access t a d", OF _ i(1)] assms(1) obtain m' where
    m': "at_key transaction_new (note_access t a d) ?b m = Some m'" "sorted_wrt (<) (map fst m')" "map_of m' = (map_of m)(?b \<mapsto> info')"
    by (auto simp: trans_inv_def)
  have "insert (t, a) (?T S ?b) = ?T (insert (t, a) S) ?b" by auto
  moreover have "?T (insert (t, a) S) b = ?T S b" if "b \<noteq> ?b" for b using that by auto
  ultimately have "trans_inv s d (insert (t, a) S) m'"
    using assms(1) m'(2,3) i(2) by (auto simp: trans_inv_def)
  moreover have "coalesce_access w s d t k m = at_key transaction_new (note_access t a d) ?b m"
    using assms(4) block_last [OF assms(2,3,5)] by (simp add: coalesce_access_def block_of_def)
  ultimately show ?thesis using m'(1) by simp
qed

text \<open>The accesses that the threads of a list make.\<close>

definition thread_accesses :: "warp_mem \<Rightarrow> nat list \<Rightarrow> (nat \<times> new_addr_type) set" where
  "thread_accesses w ts = {(t, a). t \<in> set ts \<and> bit (wm_active w) t \<and> (\<exists>k < snd (coalesce_split w). memreqaddr w t k = Some a)}"

definition warp_ok :: "core_config \<Rightarrow> warp_mem \<Rightarrow> bool" where
  "warp_ok cfg w \<longleftrightarrow> cc_warp_size cfg \<le> 32 \<and> cc_mem_warp_parts cfg \<noteq> 0 \<and> cc_mem_warp_parts cfg dvd cc_warp_size cfg \<and> size_ok (wm_data_size w)
     \<and> (\<forall>t < 32. bit (wm_active w) t \<longrightarrow> t < cc_warp_size cfg
          \<and> (\<forall>k < snd (coalesce_split w). \<exists>a. memreqaddr w t k = Some a \<and> addr_ok (fst (coalesce_split w)) a))"

lemma coalesce_split_ok:
  assumes "warp_ok cfg w"
  shows "size_ok (fst (coalesce_split w))" "snd (coalesce_split w) \<le> 8" "0 < snd (coalesce_split w)" "seg_ok (segment_size_of (wm_data_size w))"
  using assms by (auto simp: warp_ok_def size_ok_def coalesce_split_def segment_size_of_def seg_ok_def)

lemma coalesce_thread_ok:
  assumes "warp_ok cfg w" "trans_inv s d S m" "seg_ok s" "d = fst (coalesce_split w)" "t < 32"
  shows "\<exists>m'. coalesce_thread w s t m = Some m' \<and> trans_inv s d (S \<union> thread_accesses w [t]) m'"
proof (cases "bit (wm_active w) t")
  case False
  then have "thread_accesses w [t] = {}" by (auto simp: thread_accesses_def)
  with False assms show ?thesis by (simp add: coalesce_thread_def mask_test_def)
next
  case True
  let ?n = "snd (coalesce_split w)"
  let ?acc = "\<lambda>ks. {(t, a) |a. \<exists>k \<in> set ks. memreqaddr w t k = Some a}"
  have "\<exists>m'. loop_over (coalesce_access w s d t) [0..<?n] m = Some m' \<and> trans_inv s d (S \<union> ?acc [0..<?n]) m'"
  proof (rule loop_over_inv [where I = "\<lambda>ks m. trans_inv s d (S \<union> ?acc ks) m"])
    fix ys k zs m assume split: "[0..<?n] = ys @ k # zs" and inv: "trans_inv s d (S \<union> ?acc ys) m"
    have "k \<in> set [0..<?n]" unfolding split by simp
    then have "k < ?n" by simp
    with assms(1,4,5) True obtain a where a: "memreqaddr w t k = Some a" "addr_ok d a" unfolding warp_ok_def by blast
    have "insert (t, a) (S \<union> ?acc ys) = S \<union> ?acc (ys @ [k])" using a by auto
    with coalesce_access_ok [OF inv assms(3) coalesce_split_ok(1) [OF assms(1), folded assms(4)] a assms(5)]
    show "\<exists>m'. coalesce_access w s d t k m = Some m' \<and> trans_inv s d (S \<union> ?acc (ys @ [k])) m'" by simp
  qed (use assms(2) in simp)
  moreover have "?acc [0..<?n] = thread_accesses w [t]" using True by (auto simp: thread_accesses_def Bex_def)
  ultimately show ?thesis
    using True assms(4,5) coalesce_split_ok(2) [OF assms(1)] by (simp add: coalesce_thread_def mask_test_def split_beta)
qed

lemma coalesce_threads_ok:
  assumes "warp_ok cfg w" "seg_ok s" "d = fst (coalesce_split w)" "\<forall>t \<in> set ts. t < 32"
  shows "\<exists>m. loop_over (coalesce_thread w s) ts [] = Some m \<and> trans_inv s d (thread_accesses w ts) m"
proof (rule loop_over_inv [where I = "\<lambda>ts m. trans_inv s d (thread_accesses w ts) m"])
  fix ys t zs m assume split: "ts = ys @ t # zs" and inv: "trans_inv s d (thread_accesses w ys) m"
  have "thread_accesses w ys \<union> thread_accesses w [t] = thread_accesses w (ys @ [t])" by (auto simp: thread_accesses_def)
  with coalesce_thread_ok [OF assms(1) inv assms(2,3), of t] assms(4) split
  show "\<exists>m'. coalesce_thread w s t m = Some m' \<and> trans_inv s d (thread_accesses w (ys @ [t])) m'" by simp
qed (simp add: trans_inv_def thread_accesses_def)

text \<open>The accesses that stand for a set of thread accesses: each is tight and says which threads and bytes it is for.\<close>

definition access_for :: "bool \<Rightarrow> mem_access_type \<Rightarrow> nat \<Rightarrow> (nat \<times> new_addr_type) set \<Rightarrow> mem_access \<Rightarrow> bool" where
  "access_for wr ty d S x \<longleftrightarrow> ma_type x = ty \<and> ma_write x = wr
     \<and> access_tight x (\<lambda>c. \<exists>(t, a) \<in> S. bit (ma_warp_mask x) t \<and> covers x (unat a) d \<and> unat a div 32 = c)
     \<and> (\<forall>t. bit (ma_warp_mask x) t \<longrightarrow> (\<exists>a. (t, a) \<in> S \<and> covers x (unat a) d))
     \<and> (\<forall>i. bit (ma_byte_mask x) i \<longrightarrow> (\<exists>(t, a) \<in> S. covers x (unat a) d \<and> unat a mod 128 \<le> i \<and> i < unat a mod 128 + d))"

definition served :: "bool \<Rightarrow> mem_access_type \<Rightarrow> nat \<Rightarrow> (nat \<times> new_addr_type) set \<Rightarrow> mem_access list \<Rightarrow> bool" where
  "served wr ty d S xs \<longleftrightarrow>
     (\<forall>(t, a) \<in> S. \<exists>x \<in> set xs. bit (ma_warp_mask x) t \<and> covers x (unat a) d \<and> (\<forall>i < d. bit (ma_byte_mask x) (unat a mod 128 + i)))
     \<and> (\<forall>x \<in> set xs. access_for wr ty d S x)"

lemma access_tight_mono: "access_tight x used \<Longrightarrow> (\<And>c. used c \<Longrightarrow> used' c) \<Longrightarrow> access_tight x used'"
  unfolding access_tight_def by blast

lemma access_for_mono:
  assumes "access_for wr ty d S x" "S \<subseteq> S'"
  shows "access_for wr ty d S' x"
proof -
  have "access_tight x (\<lambda>c. \<exists>(t, a) \<in> S'. bit (ma_warp_mask x) t \<and> covers x (unat a) d \<and> unat a div 32 = c)"
    by (rule access_tight_mono [of x "\<lambda>c. \<exists>(t, a) \<in> S. bit (ma_warp_mask x) t \<and> covers x (unat a) d \<and> unat a div 32 = c"])
      (use assms in \<open>auto simp: access_for_def\<close>)
  then show ?thesis using assms unfolding access_for_def by blast
qed

lemma segment_base:
  fixes N r s :: nat
  assumes "r < 128" "s \<in> {32, 64, 128}"
  shows "(128 * N + r) div s * s = 128 * N + r div s * s" "r div s * s \<le> 32 * (r div 32)" "32 * (r div 32) + 32 \<le> r div s * s + s" "r div s * s + s \<le> 128"
proof -
  have e: "(32 * (4 * N) + r) div 32 = 4 * N + r div 32" "(64 * (2 * N) + r) div 64 = 2 * N + r div 64" "(128 * N + r) div 128 = N + r div 128"
    by (simp_all only: div_mult_self4 zero_neq_numeral not_False_eq_True)
  have c: "r div 64 = r div 32 div 2" "r div 32 < 4" "r div 128 = 0" using assms(1) div_mult2_eq [of r 32 2] by simp_all
  show "(128 * N + r) div s * s = 128 * N + r div s * s" using e assms(2) by auto
  have "r div 32 \<in> {0, 1, 2, 3}" using c(2) by auto
  then show "r div s * s \<le> 32 * (r div 32)" "32 * (r div 32) + 32 \<le> r div s * s + s" "r div s * s + s \<le> 128" using c assms(2) by auto
qed

lemma chunk_of:
  assumes "block_of s a = b" "seg_ok s" "unat a < 2 ^ 32"
  shows "unat b div 128 = unat a div 128" "unat s dvd unat b" "unat b + unat s \<le> 2 ^ 32"
    "unat b mod 128 \<le> 32 * (unat a mod 128 div 32)" "32 * (unat a mod 128 div 32) + 32 \<le> unat b mod 128 + unat s"
proof -
  let ?N = "unat a div 128" and ?r = "unat a mod 128"
  have s: "unat s \<in> {32, 64, 128}" using assms(2) by (auto simp: seg_ok_def)
  have r: "?r < 128" by simp
  note base = segment_base [OF r s]
  have u: "unat b = unat a div unat s * unat s" using unat_block_of [OF assms(2,3)] assms(1) by simp
  then show "unat s dvd unat b" by simp
  have b: "unat b = 128 * ?N + ?r div unat s * unat s" using u base(1) [of ?N] by simp
  have lt: "?r div unat s * unat s < 128" using base(4) s by auto
  show "unat b div 128 = ?N" using b lt by simp
  have m: "unat b mod 128 = ?r div unat s * unat s" using b lt by simp
  show "unat b mod 128 \<le> 32 * (?r div 32)" "32 * (?r div 32) + 32 \<le> unat b mod 128 + unat s" using m base(2,3) by simp_all
  have "?N < 2 ^ 25" using assms(3) by (simp add: div_less_iff_less_mult)
  then show "unat b + unat s \<le> 2 ^ 32" using b base(4) by simp
qed

lemma split_128: "n div 32 = 4 * (n div 128) + n mod 128 div 32" "n = 128 * (n div 128) + 32 * (n mod 128 div 32) + n mod 32" for n :: nat
proof -
  have m: "n mod 128 = 32 * (n div 32 mod 4) + n mod 32" using mod_mult2_eq [of n 32 4] by simp
  have d: "n div 128 = n div 32 div 4" using div_mult2_eq [of n 32 4] by simp
  have "n mod 128 div 32 = n div 32 mod 4" using m by simp
  then show "n div 32 = 4 * (n div 128) + n mod 128 div 32" using d by simp
  then show "n = 128 * (n div 128) + 32 * (n mod 128 div 32) + n mod 32" using div_mult_mod_eq [of n 32] by linarith
qed

lemma serve_one:
  assumes "info_of d T info" "T \<noteq> {}" "\<forall>(t, a) \<in> T. addr_ok d a \<and> block_of s a = b" "seg_ok s" "size_ok d"
  shows "\<exists>x. reduce_and_send wr ty info b s accq = Some (accq @ [x]) \<and> served wr ty d T [x]"
proof -
  let ?q = "ti_chunks info"
  have q: "bit ?q c \<longleftrightarrow> (\<exists>(t, a) \<in> T. unat a mod 128 div 32 = c)" for c using assms(1) by (simp add: info_of_def)
  have ch: "unat b div 128 = unat a div 128" "unat s dvd unat b" "unat b + unat s \<le> 2 ^ 32"
    "unat b mod 128 \<le> 32 * (unat a mod 128 div 32)" "32 * (unat a mod 128 div 32) + 32 \<le> unat b mod 128 + unat s" if "(t, a) \<in> T" for t a
    using chunk_of [of s a b] assms(3,4) that by (auto simp: addr_ok_def)
  obtain t0 a0 where T0: "(t0, a0) \<in> T" using assms(2) by fastforce
  then have "?q \<noteq> 0" using q [of "unat a0 mod 128 div 32"] by (metis (mono_tags, lifting) bit_0_eq bot_apply bot_bool_def case_prodI)
  moreover have "\<forall>j<4. bit ?q j \<longrightarrow> unat b mod 128 \<le> 32 * j \<and> 32 * j + 32 \<le> unat b mod 128 + unat s" using ch(4,5) by (auto simp: q)
  ultimately obtain x where x: "reduce_and_send wr ty info b s accq = Some (accq @ [x])" "sent_for wr ty info b x"
    using reduce_and_send_ok [OF assms(4) ch(2,3) [OF T0]] by blast
  have cov: "covers x (unat a) d" if "(t, a) \<in> T" for t a
  proof -
    let ?j = "unat a mod 128 div 32"
    have "bit ?q ?j" using q that by blast
    moreover have "?j < 4" by (simp add: div_less_iff_less_mult)
    ultimately have "covers x (128 * (unat a div 128) + 32 * ?j) 32" using x(2) ch(1) [OF that] unfolding sent_for_def by metis
    moreover have "unat a mod 32 + d \<le> 32"
      using aligned_chunk(1) [of d "unat a" 32] assms(3,5) that by (auto simp: size_ok_def addr_ok_def)
    ultimately show ?thesis using split_128(2) [of "unat a"] unfolding covers_def by linarith
  qed
  have "access_tight x (\<lambda>c. \<exists>(t, a) \<in> T. bit (ma_warp_mask x) t \<and> covers x (unat a) d \<and> unat a div 32 = c)"
  proof (rule access_tight_mono)
    show "access_tight x (chunk_used ?q (unat b div 128))" using x(2) by (simp add: sent_for_def)
    fix c assume "chunk_used ?q (unat b div 128) c"
    then obtain t a where ta: "(t, a) \<in> T" "unat a mod 128 div 32 = c mod 4" "c div 4 = unat b div 128" using q by (auto simp: chunk_used_def)
    moreover have "unat a div 32 = c" using split_128(1) [of "unat a"] ch(1) [OF ta(1)] ta(2,3) div_mult_mod_eq [of c 4] by (simp add: mult.commute)
    moreover have "bit (ma_warp_mask x) t" using x(2) ta(1) assms(1) by (auto simp: sent_for_def info_of_def)
    ultimately show "\<exists>(t, a) \<in> T. bit (ma_warp_mask x) t \<and> covers x (unat a) d \<and> unat a div 32 = c" using cov by blast
  qed
  moreover have m: "ma_warp_mask x = ti_active info" "ma_byte_mask x = ti_bytes info" "ma_type x = ty" "ma_write x = wr"
    using x(2) by (simp_all add: sent_for_def)
  have act: "bit (ma_warp_mask x) t \<longleftrightarrow> (\<exists>a. (t, a) \<in> T)" for t using assms(1) m(1) by (simp add: info_of_def)
  have byt: "bit (ma_byte_mask x) i \<longleftrightarrow> (\<exists>(t, a) \<in> T. unat a mod 128 \<le> i \<and> i < unat a mod 128 + d)" for i
    using assms(1) m(2) by (simp add: info_of_def)
  have "\<forall>i. bit (ma_byte_mask x) i \<longrightarrow> (\<exists>(t, a) \<in> T. covers x (unat a) d \<and> unat a mod 128 \<le> i \<and> i < unat a mod 128 + d)"
    unfolding byt using cov by fast
  moreover have "\<forall>t. bit (ma_warp_mask x) t \<longrightarrow> (\<exists>a. (t, a) \<in> T \<and> covers x (unat a) d)" unfolding act using cov by fast
  ultimately have "access_for wr ty d T x" using m(3,4) by (simp only: access_for_def simp_thms)
  moreover have "bit (ma_byte_mask x) (unat a mod 128 + i)" if "(t, a) \<in> T" "i < d" for t a i
    unfolding byt using that by (intro bexI [of _ "(t, a)"]) simp_all
  ultimately have "served wr ty d T [x]" using cov act by (fastforce simp: served_def)
  with x(1) show ?thesis by blast
qed

lemma served_Un:
  assumes "served wr ty d S xs" "served wr ty d T ys"
  shows "served wr ty d (S \<union> T) (xs @ ys)"
proof -
  have "\<forall>x \<in> set (xs @ ys). access_for wr ty d (S \<union> T) x"
    using assms access_for_mono [of wr ty d S _ "S \<union> T"] access_for_mono [of wr ty d T _ "S \<union> T"] by (auto simp: served_def)
  then show ?thesis using assms by (auto simp: served_def)
qed

lemma send_all_ok:
  assumes "\<forall>(b, info) \<in> set m. info_of d (T b) info \<and> T b \<noteq> {} \<and> (\<forall>(t, a) \<in> T b. addr_ok d a \<and> block_of s a = b)" "seg_ok s" "size_ok d"
  shows "\<exists>xs. loop_over (\<lambda>(b, info). reduce_and_send wr ty info b s) m accq = Some (accq @ xs) \<and> served wr ty d (\<Union>x \<in> set m. T (fst x)) xs"
  using assms(1)
proof (induction m arbitrary: accq)
  case Nil
  then show ?case by (simp add: served_def)
next
  case (Cons p m)
  obtain b info where p: "p = (b, info)" by fastforce
  with Cons.prems serve_one [OF _ _ _ assms(2,3), of "T b" info b wr ty accq] obtain x where
    x: "reduce_and_send wr ty info b s accq = Some (accq @ [x])" "served wr ty d (T b) [x]" by auto
  from Cons.IH [of "accq @ [x]"] Cons.prems obtain xs where
    "loop_over (\<lambda>(b, info). reduce_and_send wr ty info b s) m (accq @ [x]) = Some (accq @ [x] @ xs)" "served wr ty d (\<Union>x \<in> set m. T (fst x)) xs" by auto
  with x p served_Un [OF x(2)] show ?case by fastforce
qed

lemma coalesce_subwarp_ok:
  assumes "warp_ok cfg w" "\<forall>t \<in> set [subwarp * n..<n * (subwarp + 1)]. t < 32"
  shows "\<exists>xs. coalesce_subwarp w wr ty n subwarp accq = Some (accq @ xs)
    \<and> served wr ty (fst (coalesce_split w)) (thread_accesses w [subwarp * n..<n * (subwarp + 1)]) xs"
proof -
  let ?d = "fst (coalesce_split w)" and ?s = "segment_size_of (wm_data_size w)" and ?ts = "[subwarp * n..<n * (subwarp + 1)]"
  let ?S = "thread_accesses w ?ts"
  note ok = coalesce_split_ok [OF assms(1)]
  from coalesce_threads_ok [OF assms(1) ok(4) refl assms(2)] obtain m where
    m: "loop_over (coalesce_thread w ?s) ?ts [] = Some m" "trans_inv ?s ?d ?S m" by blast
  let ?T = "\<lambda>b. {x \<in> ?S. block_of ?s (snd x) = b}"
  have aok: "addr_ok ?d a" if "(t, a) \<in> ?S" for t a
  proof -
    from that have "bit (wm_active w) t" "t < 32" "\<exists>k < snd (coalesce_split w). memreqaddr w t k = Some a"
      using assms(2) by (auto simp: thread_accesses_def)
    then show ?thesis using assms(1) unfolding warp_ok_def by fastforce
  qed
  have dm: "distinct (map fst m)" using m(2) strict_sorted_iff by (auto simp: trans_inv_def)
  have "info_of ?d (?T b) info \<and> ?T b \<noteq> {} \<and> (\<forall>(t, a) \<in> ?T b. addr_ok ?d a \<and> block_of ?s a = b)" if "(b, info) \<in> set m" for b info
  proof -
    have mo: "map_of m b = Some info" using that dm by (simp add: map_of_eq_Some_iff)
    then have "b \<in> (\<lambda>x. block_of ?s (snd x)) ` ?S" using m(2) by (auto simp: trans_inv_def)
    then have "?T b \<noteq> {}" by blast
    moreover have "info_of ?d (?T b) info" using m(2) mo by (simp add: trans_inv_def)
    ultimately show ?thesis using aok by fastforce
  qed
  then have "\<forall>(b, info) \<in> set m. info_of ?d (?T b) info \<and> ?T b \<noteq> {} \<and> (\<forall>(t, a) \<in> ?T b. addr_ok ?d a \<and> block_of ?s a = b)" by blast
  from send_all_ok [OF this ok(4,1), of wr ty accq] obtain xs where
    xs: "loop_over (\<lambda>(b, info). reduce_and_send wr ty info b ?s) m accq = Some (accq @ xs)" "served wr ty ?d (\<Union>x \<in> set m. ?T (fst x)) xs" by blast
  have "(\<lambda>x. block_of ?s (snd x)) ` ?S = fst ` set m" using m(2) by (simp add: trans_inv_def dom_map_of_conv_image_fst)
  then have "(\<Union>x \<in> set m. ?T (fst x)) = ?S" by (auto simp: set_eq_iff image_iff) force
  with m(1) xs show ?thesis by (simp add: coalesce_subwarp_def)
qed

lemma coalescing_ok:
  assumes "warp_ok cfg w"
  shows "\<exists>xs. memory_coalescing_arch_13 cfg wr ty w = Some (w\<lparr>wm_accessq := wm_accessq w @ xs\<rparr>)
    \<and> served wr ty (fst (coalesce_split w)) (thread_accesses w [0..<cc_warp_size cfg]) xs"
proof -
  let ?p = "cc_mem_warp_parts cfg"
  let ?n = "cc_warp_size cfg div ?p"
  let ?I = "\<lambda>ks q. \<exists>xs. q = wm_accessq w @ xs \<and> served wr ty (fst (coalesce_split w)) (thread_accesses w [0..<?n * length ks]) xs"
  have np: "?n * ?p = cc_warp_size cfg" "?p \<noteq> 0" "cc_warp_size cfg \<le> 32" using assms by (auto simp: warp_ok_def)
  have "\<exists>q. loop_over (coalesce_subwarp w wr ty ?n) [0..<?p] (wm_accessq w) = Some q \<and> ?I [0..<?p] q"
  proof (rule loop_over_inv [where I = ?I])
    fix ys k zs q assume split: "[0..<?p] = ys @ k # zs" and inv: "?I ys q"
    have "[0..<?p] ! length ys = k" "length ys < length [0..<?p]" by (simp_all only: split nth_append_length) simp
    then have k: "length ys = k" "k < ?p" by simp_all
    have "?n * (k + 1) \<le> ?n * ?p" using k(2) by (intro mult_le_mono2) simp
    then have "\<forall>t \<in> set [k * ?n..<?n * (k + 1)]. t < 32" using np(1,3) by auto
    from coalesce_subwarp_ok [OF assms this] inv obtain xs ys' where
      "q = wm_accessq w @ xs" "served wr ty (fst (coalesce_split w)) (thread_accesses w [0..<?n * k]) xs"
      "coalesce_subwarp w wr ty ?n k q = Some (q @ ys')"
      "served wr ty (fst (coalesce_split w)) (thread_accesses w [k * ?n..<?n * (k + 1)]) ys'" using k(1) by metis
    moreover have "thread_accesses w [0..<?n * k] \<union> thread_accesses w [k * ?n..<?n * (k + 1)] = thread_accesses w [0..<?n * (k + 1)]"
      by (auto simp: thread_accesses_def mult.commute)
    ultimately show "\<exists>q'. coalesce_subwarp w wr ty ?n k q = Some q' \<and> ?I (ys @ [k]) q'"
      using served_Un [of wr ty "fst (coalesce_split w)"] k(1) by (metis append.assoc length_append_singleton Suc_eq_plus1)
  qed (simp add: served_def thread_accesses_def)
  then show ?thesis using np by (auto simp: memory_coalescing_arch_13_def)
qed

definition global_ready :: "core_config \<Rightarrow> warp_mem \<Rightarrow> bool" where
  "global_ready cfg w \<longleftrightarrow> warp_ok cfg w \<and> \<not> wi_empty w \<and> \<not> wm_created w \<and> (wi_op w = LOAD_OP \<or> wi_op w = STORE_OP) \<and> wm_active w \<noteq> 0 \<and> wm_valid w
     \<and> cc_coalesce_arch cfg = 13 \<and> wi_space w \<in> {global_sp, local_sp, param_sp_local}"

lemma generate_global:
  assumes "global_ready cfg w" "access_type_of (wi_space w) (is_store w) = Some ty"
  shows "generate_mem_accesses cfg w = map_option (\<lambda>w. w\<lparr>wm_created := True\<rparr>)
    (if wm_isatomic w then memory_coalescing_arch_13_atomic cfg (is_store w) ty w else memory_coalescing_arch_13 cfg (is_store w) ty w)"
proof -
  have "wi_space w \<noteq> shared_sp \<and> wi_space w \<noteq> tex_sp \<and> wi_space w \<noteq> const_sp \<and> wi_space w \<noteq> param_sp_kernel"
    using assms(1) by (auto simp: global_ready_def)
  moreover have "wi_op w \<noteq> MEMORY_BARRIER_OP" using assms(1) by (auto simp: global_ready_def)
  ultimately show ?thesis using assms by (simp add: global_ready_def generate_mem_accesses_def map_conv_bind_option comp_def)
qed

text \<open>C6. For a load or store to global or local memory with aligned addresses below 4 GB, the accesses of the warp are generated
  without failure.  Each access of an active thread is covered by a transaction that lists the thread and the bytes; each
  transaction is aligned to its size of 32, 64 or 128 bytes, lists only threads and bytes that need it, and if it is larger than 32
  bytes both of its halves are in use.\<close>

theorem coalescing_covers_threads:
  assumes "global_ready cfg w" "\<not> wm_isatomic w" "access_type_of (wi_space w) (is_store w) = Some ty"
  shows "\<exists>xs. generate_mem_accesses cfg w = Some (w\<lparr>wm_accessq := wm_accessq w @ xs, wm_created := True\<rparr>)
    \<and> served (is_store w) ty (fst (coalesce_split w)) (thread_accesses w [0..<cc_warp_size cfg]) xs"
proof -
  have "generate_mem_accesses cfg w = map_option (\<lambda>w. w\<lparr>wm_created := True\<rparr>) (memory_coalescing_arch_13 cfg (is_store w) ty w)"
    by (rule generate_global [OF assms(1,3), simplified assms(2) if_False])
  moreover obtain xs where "memory_coalescing_arch_13 cfg (is_store w) ty w = Some (w\<lparr>wm_accessq := wm_accessq w @ xs\<rparr>)"
    "served (is_store w) ty (fst (coalesce_split w)) (thread_accesses w [0..<cc_warp_size cfg]) xs"
    using coalescing_ok [of cfg w "is_store w" ty] assms(1) unfolding global_ready_def by blast
  ultimately show ?thesis by auto
qed

definition example_core :: core_config where
  "example_core = \<lparr>cc_warp_size = 4, cc_coalesce_arch = 13, cc_shmem_limited_broadcast = False, cc_num_shmem_bank = 16,
     cc_mem_warp_parts = 2, cc_texl1_linesize = 64, cc_constl1_linesize = 64\<rparr>"

definition example_warp :: "mem_space_t \<Rightarrow> bool \<Rightarrow> new_addr_type list \<Rightarrow> warp_mem" where
  "example_warp sp atomic as =
     \<lparr>wi_empty = False, wi_warp_id = 0, wi_op = LOAD_OP, wi_memory_op = no_memory_op, wi_space = sp, wi_out = [], wi_in = [], wi_pred = 0,
      wi_ar1 = 0, wi_ar2 = 0, wm_active = 15, wm_created = False, wm_valid = True, wm_isatomic = atomic, wm_addrs = map (\<lambda>a. [a]) as,
      wm_data_size = 4, wm_accessq = [], wm_cycles = 0\<rparr>"

lemma bit_15: "bit (15 :: 32 word) t \<longleftrightarrow> t < 4"
proof -
  have "(15 :: 32 word) = mask 4" by (simp add: mask_eq_exp_minus_1)
  then show ?thesis by (simp only: bit_mask_iff) auto
qed

lemma example_ready: "global_ready example_core (example_warp global_sp atomic [256, 260, 512, 640])"
proof -
  have "(\<forall>t<32. bit (15 :: 32 word) t \<longrightarrow> P t) \<longleftrightarrow> P 0 \<and> P 1 \<and> P 2 \<and> P 3" for P
    unfolding bit_15 using four_bits [of P] by auto
  then show ?thesis
    by (simp add: global_ready_def warp_ok_def example_core_def example_warp_def size_ok_def coalesce_split_def memreqaddr_def vec_at_def addr_ok_def)
qed

theorem coalescing_covers_threads_witness:
  "\<exists>xs. generate_mem_accesses example_core (example_warp global_sp False [256, 260, 512, 640])
      = Some ((example_warp global_sp False [256, 260, 512, 640])\<lparr>wm_accessq := xs, wm_created := True\<rparr>)
    \<and> served False GLOBAL_ACC_R 4 (thread_accesses (example_warp global_sp False [256, 260, 512, 640]) [0..<4]) xs"
  using coalescing_covers_threads [OF example_ready, of False GLOBAL_ACC_R]
  by (simp add: example_core_def example_warp_def access_type_of_def is_store_def coalesce_split_def)

subsection \<open>Atomic accesses do not overlap\<close>

definition apart :: "nat \<Rightarrow> (nat \<times> new_addr_type) set \<Rightarrow> bool" where
  "apart d T \<longleftrightarrow> (\<forall>(t, a) \<in> T. \<forall>(t', a') \<in> T. (t, a) \<noteq> (t', a') \<longrightarrow> unat a + d \<le> unat a' \<or> unat a' + d \<le> unat a)"

abbreviation pairwise_disjoint :: "'a set list \<Rightarrow> bool" where
  "pairwise_disjoint \<equiv> sorted_wrt (\<lambda>A B. A \<inter> B = {})"

text \<open>A list of transactions for disjoint sets of accesses, none of which has two accesses that share a byte.\<close>

definition groups :: "nat \<Rightarrow> (nat \<times> new_addr_type) set list \<Rightarrow> transaction_info list \<Rightarrow> bool" where
  "groups d Ts infos \<longleftrightarrow> list_all2 (\<lambda>T info. info_of d T info \<and> T \<noteq> {} \<and> apart d T) Ts infos \<and> pairwise_disjoint Ts"

lemma test_bytes_eq: "i + n \<le> 128 \<Longrightarrow> test_bytes w i n = Some (\<exists>j. i \<le> j \<and> j < i + n \<and> bit w j)"
proof (induction n arbitrary: i)
  case (Suc n)
  have "(\<exists>j. i \<le> j \<and> j < i + Suc n \<and> bit w j) \<longleftrightarrow> bit w i \<or> (\<exists>j. Suc i \<le> j \<and> j < Suc i + n \<and> bit w j)"
  proof -
    have "i \<le> j \<and> j < i + Suc n \<longleftrightarrow> j = i \<or> (Suc i \<le> j \<and> j < Suc i + n)" for j by arith
    then show ?thesis by metis
  qed
  with Suc show ?case by (simp add: mask_test_def)
qed auto

lemma atomic_note_ok:
  assumes "info_of d T info" "apart d T" "\<forall>x \<in> T. unat (snd x) div 128 = N" "unat a div 128 = N" "t < 32" "unat a mod 128 + d \<le> 128"
    "\<not> (\<exists>j. unat a mod 128 \<le> j \<and> j < unat a mod 128 + d \<and> bit (ti_bytes info) j)" "0 < d"
  shows "\<exists>info'. atomic_note t a d info = Some info' \<and> info_of d (insert (t, a) T) info' \<and> apart d (insert (t, a) T)"
proof -
  have "unat a + d \<le> unat a' \<or> unat a' + d \<le> unat a" if "(t', a') \<in> T" for t' a'
  proof (rule ccontr)
    assume "\<not> ?thesis"
    moreover have "unat a' div 128 = N" using assms(3) that by auto
    then have e: "unat a = 128 * N + unat a mod 128" "unat a' = 128 * N + unat a' mod 128"
      using assms(4) mult_div_mod_eq [of 128 "unat a"] mult_div_mod_eq [of 128 "unat a'"] by simp_all
    ultimately have "unat a mod 128 < unat a' mod 128 + d" "unat a' mod 128 < unat a mod 128 + d" by linarith+
    then obtain j where j: "unat a mod 128 \<le> j" "j < unat a mod 128 + d" "unat a' mod 128 \<le> j" "j < unat a' mod 128 + d"
      using assms(8) that by (metis le_cases less_add_same_cancel1 order_refl)
    then have "bit (ti_bytes info) j" using assms(1) that unfolding info_of_def by blast
    with j assms(7) show False by blast
  qed
  then have "apart d (insert (t, a) T)" using assms(2) unfolding apart_def by fast
  moreover obtain info' where "note_access t a d info = Some info'" "info_of d (insert (t, a) T) info'"
    using note_access_ok [OF assms(1,5,6)] by blast
  ultimately show ?thesis using assms(6,7) by (simp add: atomic_note_def and_127 test_bytes_eq)
qed

lemma atomic_insert_ok:
  assumes "list_all2 (\<lambda>T info. info_of d T info \<and> T \<noteq> {} \<and> apart d T) Ts infos" "pairwise_disjoint Ts" "(t, a) \<notin> \<Union> (set Ts)"
    "\<forall>x \<in> \<Union> (set Ts). unat (snd x) div 128 = N" "unat a div 128 = N" "t < 32" "unat a mod 128 + d \<le> 128" "0 < d"
  shows "\<exists>infos' Ts'. atomic_insert t a d infos = Some infos' \<and> groups d Ts' infos' \<and> \<Union> (set Ts') = insert (t, a) (\<Union> (set Ts))"
  using assms(1-4)
proof (induction rule: list_all2_induct)
  case Nil
  have "info_of d {} transaction_new" "apart d {}" by (simp_all add: info_of_new apart_def)
  from atomic_note_ok [OF this _ assms(5-7) _ assms(8)] obtain info' where
    "atomic_note t a d transaction_new = Some info'" "info_of d {(t, a)} info'" "apart d {(t, a)}" by (auto simp: transaction_new_def)
  then have "atomic_insert t a d [] = Some [info']" "groups d [{(t, a)}] [info']" by (simp_all add: groups_def)
  then show ?case by fastforce
next
  case (Cons T Ts info infos)
  let ?clash = "\<exists>j. unat a mod 128 \<le> j \<and> j < unat a mod 128 + d \<and> bit (ti_bytes info) j"
  have tb: "test_bytes (ti_bytes info) (unat (a AND 127)) d = Some ?clash" using test_bytes_eq [OF assms(7)] by (simp add: and_127)
  show ?case
  proof (cases ?clash)
    case False
    from atomic_note_ok [of d T info N, OF _ _ _ assms(5-7) False assms(8)] Cons.hyps Cons.prems obtain info' where
      i: "atomic_note t a d info = Some info'" "info_of d (insert (t, a) T) info'" "apart d (insert (t, a) T)" by auto
    have "groups d (insert (t, a) T # Ts) (info' # infos)" using i Cons.hyps Cons.prems by (auto simp: groups_def)
    moreover have "atomic_insert t a d (info # infos) = Some (info' # infos)" using i(1) tb False by simp
    ultimately show ?thesis by (intro exI [of _ "info' # infos"] exI [of _ "insert (t, a) T # Ts"]) auto
  next
    case True
    from Cons obtain infos' Ts' where
      r: "atomic_insert t a d infos = Some infos'" "groups d Ts' infos'" "\<Union> (set Ts') = insert (t, a) (\<Union> (set Ts))" by auto
    have "T \<inter> B = {}" if "B \<in> set Ts'" for B
    proof -
      have "B \<subseteq> insert (t, a) (\<Union> (set Ts))" using r(3) that by blast
      then show ?thesis using Cons.prems(1,2) by auto
    qed
    then have "groups d (T # Ts') (info # infos')" using r(2) Cons.hyps by (simp add: groups_def)
    moreover have "atomic_insert t a d (info # infos) = Some (info # infos')" using r(1) tb True by simp
    ultimately show ?thesis using r(3) by (intro exI [of _ "info # infos'"] exI [of _ "T # Ts'"]) auto
  qed
qed

definition atomic_inv :: "32 word \<Rightarrow> nat \<Rightarrow> (nat \<times> new_addr_type) set \<Rightarrow> atomic_transactions \<Rightarrow> bool" where
  "atomic_inv s d S m \<longleftrightarrow> sorted_wrt (<) (map fst m) \<and> dom (map_of m) = (\<lambda>x. block_of s (snd x)) ` S
     \<and> (\<forall>b infos. map_of m b = Some infos \<longrightarrow> (\<exists>Ts. groups d Ts infos \<and> \<Union> (set Ts) = {x \<in> S. block_of s (snd x) = b}))"

lemma atomic_thread_ok:
  assumes "atomic_inv s d S m" "seg_ok s" "size_ok d" "d = wm_data_size w" "t < 32" "\<forall>a. (t, a) \<notin> S" "\<forall>x \<in> S. addr_ok d (snd x)"
    "bit (wm_active w) t \<Longrightarrow> memreqaddr w t 0 = Some a \<and> addr_ok d a"
  shows "\<exists>m'. atomic_thread w s t m = Some m' \<and> atomic_inv s d (if bit (wm_active w) t then insert (t, a) S else S) m'"
proof (cases "bit (wm_active w) t")
  case False
  then show ?thesis using assms(1,5) by (simp add: atomic_thread_def mask_test_def)
next
  case True
  let ?b = "block_of s a"
  let ?old = "case map_of m ?b of Some u \<Rightarrow> u | None \<Rightarrow> []"
  let ?T = "\<lambda>S b. {x \<in> S. block_of s (snd x) = b}"
  have a: "memreqaddr w t 0 = Some a" "addr_ok d a" using assms(8) True by auto
  have "\<exists>Ts. groups d Ts ?old \<and> \<Union> (set Ts) = ?T S ?b"
  proof (cases "map_of m ?b")
    case None
    then have "?b \<notin> (\<lambda>x. block_of s (snd x)) ` S" using assms(1) by (auto simp: atomic_inv_def domIff)
    then have e: "?T S ?b = {}" by force
    show ?thesis by (rule exI [of _ "[]"]) (simp only: None option.case e, simp add: groups_def)
  next
    case (Some infos)
    with assms(1) show ?thesis by (simp add: atomic_inv_def)
  qed
  then obtain Ts where Ts: "groups d Ts ?old" "\<Union> (set Ts) = ?T S ?b" by blast
  have seg: "unat (snd x) div 128 = unat a div 128" if "x \<in> ?T S ?b" for x
  proof -
    have "unat (snd x) < 2 ^ 32" "unat a < 2 ^ 32" using that assms(7) a(2) by (auto simp: addr_ok_def)
    then show ?thesis using chunk_of(1) [OF refl assms(2), of "snd x"] chunk_of(1) [OF refl assms(2), of a] that by simp
  qed
  have "0 < d" using assms(3) by (auto simp: size_ok_def)
  have ni: "(t, a) \<notin> \<Union> (set Ts)" "\<forall>x \<in> \<Union> (set Ts). unat (snd x) div 128 = unat a div 128" unfolding Ts(2) using assms(6) seg by auto
  note g = Ts(1) [unfolded groups_def]
  from atomic_insert_ok [OF conjunct1 [OF g] conjunct2 [OF g] ni refl assms(5) addr_in_mod [OF assms(3) a(2)] \<open>0 < d\<close>] obtain infos' Ts' where
    i: "atomic_insert t a d ?old = Some infos'" "groups d Ts' infos'" "\<Union> (set Ts') = insert (t, a) (?T S ?b)"
    unfolding Ts(2) by blast
  from at_key_Some [where f = "atomic_insert t a d", OF _ i(1)] assms(1) obtain m' where
    m': "at_key [] (atomic_insert t a d) ?b m = Some m'" "sorted_wrt (<) (map fst m')" "map_of m' = (map_of m)(?b \<mapsto> infos')"
    by (auto simp: atomic_inv_def)
  have "insert (t, a) (?T S ?b) = ?T (insert (t, a) S) ?b" by auto
  moreover have "?T (insert (t, a) S) b = ?T S b" if "b \<noteq> ?b" for b using that by auto
  ultimately have "atomic_inv s d (insert (t, a) S) m'"
    using assms(1) m'(2,3) i(2,3) unfolding atomic_inv_def by (simp, metis)
  moreover have "atomic_thread w s t m = at_key [] (atomic_insert t a d) ?b m"
    using True a(1) assms(4,5) block_last [OF assms(2,3) a(2)] by (simp add: atomic_thread_def mask_test_def block_of_def)
  ultimately show ?thesis using m'(1) True by simp
qed

text \<open>The accesses stand for disjoint sets of thread accesses without common bytes.\<close>

definition batches :: "bool \<Rightarrow> mem_access_type \<Rightarrow> nat \<Rightarrow> (nat \<times> new_addr_type) set \<Rightarrow> mem_access list \<Rightarrow> bool" where
  "batches wr ty d S xs \<longleftrightarrow> (\<exists>Ts. list_all2 (\<lambda>T x. T \<noteq> {} \<and> apart d T \<and> served wr ty d T [x]) Ts xs \<and> \<Union> (set Ts) = S \<and> pairwise_disjoint Ts)"

lemma batches_Un:
  assumes "batches wr ty d S xs" "batches wr ty d T ys" "S \<inter> T = {}"
  shows "batches wr ty d (S \<union> T) (xs @ ys)"
proof -
  from assms obtain As Bs where
    "list_all2 (\<lambda>T x. T \<noteq> {} \<and> apart d T \<and> served wr ty d T [x]) As xs" "\<Union> (set As) = S" "pairwise_disjoint As"
    "list_all2 (\<lambda>T x. T \<noteq> {} \<and> apart d T \<and> served wr ty d T [x]) Bs ys" "\<Union> (set Bs) = T" "pairwise_disjoint Bs"
    unfolding batches_def by blast
  then have "list_all2 (\<lambda>T x. T \<noteq> {} \<and> apart d T \<and> served wr ty d T [x]) (As @ Bs) (xs @ ys) \<and> \<Union> (set (As @ Bs)) = S \<union> T \<and> pairwise_disjoint (As @ Bs)"
    using assms(3) by (fastforce simp: sorted_wrt_append intro: list_all2_appendI)
  then show ?thesis unfolding batches_def by blast
qed

lemma send_group:
  assumes "groups d Ts infos" "\<forall>(t, a) \<in> \<Union> (set Ts). addr_ok d a \<and> block_of s a = b" "seg_ok s" "size_ok d"
  shows "\<exists>xs. loop_over (\<lambda>info. reduce_and_send wr ty info b s) infos accq = Some (accq @ xs) \<and> batches wr ty d (\<Union> (set Ts)) xs"
proof -
  have "list_all2 (\<lambda>T info. info_of d T info \<and> T \<noteq> {} \<and> apart d T) Ts infos" using assms(1) by (simp add: groups_def)
  then have "\<exists>xs. loop_over (\<lambda>info. reduce_and_send wr ty info b s) infos accq = Some (accq @ xs)
      \<and> list_all2 (\<lambda>T x. T \<noteq> {} \<and> apart d T \<and> served wr ty d T [x]) Ts xs" using assms(2)
  proof (induction arbitrary: accq rule: list_all2_induct)
    case (Cons T Ts info infos)
    have "\<forall>(t, a) \<in> T. addr_ok d a \<and> block_of s a = b" using Cons.prems by auto
    with serve_one [OF _ _ this assms(3,4), of info wr ty accq] Cons.hyps obtain x where
      x: "reduce_and_send wr ty info b s accq = Some (accq @ [x])" "served wr ty d T [x]" by blast
    from Cons.IH [of "accq @ [x]"] Cons.prems obtain xs where
      "loop_over (\<lambda>info. reduce_and_send wr ty info b s) infos (accq @ [x]) = Some (accq @ [x] @ xs)"
      "list_all2 (\<lambda>T x. T \<noteq> {} \<and> apart d T \<and> served wr ty d T [x]) Ts xs" by auto
    with x Cons.hyps show ?case by (intro exI [of _ "x # xs"]) simp
  qed simp
  with assms(1) show ?thesis unfolding batches_def groups_def by blast
qed

lemma send_groups_ok:
  assumes "\<forall>(b, infos) \<in> set m. \<exists>Ts. groups d Ts infos \<and> \<Union> (set Ts) = {x \<in> S. block_of s (snd x) = b}" "distinct (map fst m)"
    "\<forall>(t, a) \<in> S. addr_ok d a" "seg_ok s" "size_ok d"
  shows "\<exists>xs. loop_over (\<lambda>(b, infos). loop_over (\<lambda>info. reduce_and_send wr ty info b s) infos) m accq = Some (accq @ xs)
    \<and> batches wr ty d {x \<in> S. block_of s (snd x) \<in> set (map fst m)} xs"
  using assms(1,2)
proof (induction m arbitrary: accq)
  case Nil
  have "batches wr ty d {} []" unfolding batches_def by (rule exI [of _ "[]"]) simp
  then show ?case by simp
next
  case (Cons p m)
  obtain b infos where p: "p = (b, infos)" by fastforce
  let ?T = "{x \<in> S. block_of s (snd x) = b}" and ?R = "{x \<in> S. block_of s (snd x) \<in> set (map fst m)}"
  from Cons.prems(1) p obtain Ts where Ts: "groups d Ts infos" "\<Union> (set Ts) = ?T" by auto
  then have "\<forall>(t, a) \<in> \<Union> (set Ts). addr_ok d a \<and> block_of s a = b" using assms(3) by auto
  from send_group [OF Ts(1) this assms(4,5), of wr ty accq] Ts(2) obtain xs where
    xs: "loop_over (\<lambda>info. reduce_and_send wr ty info b s) infos accq = Some (accq @ xs)" "batches wr ty d ?T xs" by auto
  from Cons.IH [of "accq @ xs"] Cons.prems obtain ys where
    ys: "loop_over (\<lambda>(b, infos). loop_over (\<lambda>info. reduce_and_send wr ty info b s) infos) m (accq @ xs) = Some (accq @ xs @ ys)" "batches wr ty d ?R ys" by auto
  have "?T \<inter> ?R = {}" using Cons.prems(2) p by auto
  from batches_Un [OF xs(2) ys(2) this] have "batches wr ty d {x \<in> S. block_of s (snd x) \<in> set (map fst (p # m))} (xs @ ys)"
    by (rule back_subst [of "\<lambda>A. batches wr ty d A (xs @ ys)"]) (auto simp: p)
  then show ?case using xs(1) ys(1) p by (intro exI [of _ "xs @ ys"]) simp
qed

lemma atomic_threads_ok:
  assumes "seg_ok s" "size_ok (wm_data_size w)" "snd (coalesce_split w) = 1" "distinct ts"
    "\<forall>t \<in> set ts. t < 32 \<and> (bit (wm_active w) t \<longrightarrow> (\<exists>a. memreqaddr w t 0 = Some a \<and> addr_ok (wm_data_size w) a))"
  shows "\<exists>m. loop_over (atomic_thread w s) ts [] = Some m \<and> atomic_inv s (wm_data_size w) (thread_accesses w ts) m"
proof (rule loop_over_inv [where I = "\<lambda>ts m. atomic_inv s (wm_data_size w) (thread_accesses w ts) m"])
  let ?d = "wm_data_size w"
  fix ys t zs m assume split: "ts = ys @ t # zs" and inv: "atomic_inv s ?d (thread_accesses w ys) m"
  have t: "t < 32" "t \<notin> set ys" using assms(4,5) split by auto
  have "\<exists>a. bit (wm_active w) t \<longrightarrow> memreqaddr w t 0 = Some a \<and> addr_ok ?d a" using assms(5) split by auto
  then obtain a where a: "bit (wm_active w) t \<Longrightarrow> memreqaddr w t 0 = Some a \<and> addr_ok ?d a" by blast
  have e: "\<forall>x \<in> thread_accesses w ys. addr_ok ?d (snd x)" using assms(3,5) split by (fastforce simp: thread_accesses_def)
  have n: "\<forall>a. (t, a) \<notin> thread_accesses w ys" using t(2) by (simp add: thread_accesses_def)
  have "thread_accesses w (ys @ [t]) = (if bit (wm_active w) t then insert (t, a) (thread_accesses w ys) else thread_accesses w ys)"
    using a assms(3) by (auto simp: thread_accesses_def)
  with atomic_thread_ok [OF inv assms(1,2) refl t(1) n e a]
  show "\<exists>m'. atomic_thread w s t m = Some m' \<and> atomic_inv s ?d (thread_accesses w (ys @ [t])) m'" by simp
qed (simp add: atomic_inv_def thread_accesses_def)

definition atomic_ready :: "core_config \<Rightarrow> warp_mem \<Rightarrow> bool" where
  "atomic_ready cfg w \<longleftrightarrow> global_ready cfg w \<and> wm_isatomic w \<and> wi_space w = global_sp \<and> even (cc_warp_size cfg)"

lemma atomic_readyD:
  assumes "atomic_ready cfg w"
  shows "warp_ok cfg w" "coalesce_split w = (wm_data_size w, 1)" "cc_warp_size cfg \<le> 32" "wm_isatomic w" "global_ready cfg w" "wi_space w = global_sp"
    "2 * (cc_warp_size cfg div 2) = cc_warp_size cfg"
  using assms by (auto simp: atomic_ready_def global_ready_def coalesce_split_def warp_ok_def)

lemma atomic_subwarp_ok:
  assumes "atomic_ready cfg w" "\<forall>t \<in> set [k * n..<n * (k + 1)]. t < 32"
  shows "\<exists>xs. atomic_subwarp w wr ty n k accq = Some (accq @ xs) \<and> batches wr ty (wm_data_size w) (thread_accesses w [k * n..<n * (k + 1)]) xs"
proof -
  let ?d = "wm_data_size w" and ?s = "segment_size_of (wm_data_size w)" and ?ts = "[k * n..<n * (k + 1)]"
  note D = atomic_readyD [OF assms(1)]
  have d: "size_ok ?d" "seg_ok ?s" "snd (coalesce_split w) = 1" using coalesce_split_ok [OF D(1)] D(2) by simp_all
  have th: "\<forall>t \<in> set ?ts. t < 32 \<and> (bit (wm_active w) t \<longrightarrow> (\<exists>a. memreqaddr w t 0 = Some a \<and> addr_ok ?d a))"
    using assms(2) D(1,2) by (fastforce simp: warp_ok_def)
  from atomic_threads_ok [OF d(2,1,3) _ th] obtain m where
    m: "loop_over (atomic_thread w ?s) ?ts [] = Some m" "atomic_inv ?s ?d (thread_accesses w ?ts) m" by auto
  have dm: "distinct (map fst m)" using m(2) strict_sorted_iff by (auto simp: atomic_inv_def)
  then have g: "\<forall>(b, infos) \<in> set m. \<exists>Ts. groups ?d Ts infos \<and> \<Union> (set Ts) = {x \<in> thread_accesses w ?ts. block_of ?s (snd x) = b}"
    using m(2) by (auto simp: atomic_inv_def map_of_eq_Some_iff)
  have "\<forall>(t, a) \<in> thread_accesses w ?ts. addr_ok ?d a" using th d(3) by (fastforce simp: thread_accesses_def)
  from send_groups_ok [OF g dm this d(2,1), of wr ty accq] obtain xs where
    xs: "loop_over (\<lambda>(b, infos). loop_over (\<lambda>info. reduce_and_send wr ty info b ?s) infos) m accq = Some (accq @ xs)"
      "batches wr ty ?d {x \<in> thread_accesses w ?ts. block_of ?s (snd x) \<in> set (map fst m)} xs" by blast
  have "(\<lambda>x. block_of ?s (snd x)) ` thread_accesses w ?ts = set (map fst m)" using m(2) by (simp add: atomic_inv_def dom_map_of_conv_image_fst)
  then have "{x \<in> thread_accesses w ?ts. block_of ?s (snd x) \<in> set (map fst m)} = thread_accesses w ?ts" by blast
  with m(1) xs show ?thesis by (simp add: atomic_subwarp_def)
qed



end
