(* ===== verification/BankConflict_Laws.thy ===== *)
theory BankConflict_Laws
  imports Coalesce_Model
begin

text \<open>
  Accesses of a warp to shared, constant and texture memory (\<^verbatim>\<open>generate_mem_accesses\<close> of
  \<^verbatim>\<open>abstract_hardware_model.cc\<close>, modelled in \<open>Coalesce_Model\<close>): the conflict count of a shared memory access always passes its
  check and is the largest number of words in a bank; constant and texture accesses are one for each line.
\<close>

unbundle bit_operations_syntax

subsection \<open>Bank conflicts\<close>

definition bank_of :: "core_config \<Rightarrow> nat \<times> new_addr_type \<Rightarrow> 32 word" where
  "bank_of cfg x = (ucast (snd x) div 4) mod cc_num_shmem_bank cfg"

definition word_of_access :: "nat \<times> new_addr_type \<Rightarrow> new_addr_type" where
  "word_of_access x = ucast (line_size_based_tag_func (snd x) 4)"

text \<open>The largest number of different words that accesses touch in one bank.\<close>

definition conflict_degree :: "core_config \<Rightarrow> (nat \<times> new_addr_type) set \<Rightarrow> nat" where
  "conflict_degree cfg S = (if S = {} then 0 else Max ((\<lambda>b. card (word_of_access ` {x \<in> S. bank_of cfg x = b})) ` bank_of cfg ` S))"

definition words_inv :: "(nat \<times> new_addr_type) set \<Rightarrow> (new_addr_type \<times> nat) list \<Rightarrow> bool" where
  "words_inv S s \<longleftrightarrow> sorted_wrt (<) (map fst s) \<and> dom (map_of s) = word_of_access ` S
     \<and> (\<forall>a k. map_of s a = Some k \<longrightarrow> k = card {x \<in> S. word_of_access x = a})"

definition banks_inv :: "core_config \<Rightarrow> (nat \<times> new_addr_type) set \<Rightarrow> bank_accesses \<Rightarrow> bool" where
  "banks_inv cfg S m \<longleftrightarrow> sorted_wrt (<) (map fst m) \<and> dom (map_of m) = bank_of cfg ` S
     \<and> (\<forall>b s. map_of m b = Some s \<longrightarrow> words_inv {x \<in> S. bank_of cfg x = b} s)"

lemma words_insert:
  assumes "words_inv S s" "x \<notin> S" "finite S"
  shows "\<exists>s'. at_key 0 (\<lambda>n. Some (n + 1)) (word_of_access x) s = Some s' \<and> words_inv (insert x S) s'"
proof -
  let ?a = "word_of_access x"
  let ?old = "case map_of s ?a of Some u \<Rightarrow> u | None \<Rightarrow> 0"
  have "?old = card {y \<in> S. word_of_access y = ?a}"
  proof (cases "map_of s ?a")
    case None
    then have "?a \<notin> word_of_access ` S" using assms(1) by (auto simp: words_inv_def domIff)
    then have "{y \<in> S. word_of_access y = ?a} = {}" by (metis (mono_tags, lifting) Collect_empty_eq image_eqI)
    with None show ?thesis by (simp only: option.case card.empty)
  next
    case (Some k)
    with assms(1) show ?thesis by (simp add: words_inv_def)
  qed
  moreover have "{y \<in> insert x S. word_of_access y = ?a} = insert x {y \<in> S. word_of_access y = ?a}" by auto
  ultimately have c: "?old + 1 = card {y \<in> insert x S. word_of_access y = ?a}" using assms(2,3) by simp
  have "sorted_wrt (<) (map fst s)" using assms(1) by (simp add: words_inv_def)
  from at_key_Some [where f = "\<lambda>n. Some (n + 1)" and k = ?a and d = 0 and v = "?old + 1", OF this] obtain s' where
    s': "at_key 0 (\<lambda>n. Some (n + 1)) ?a s = Some s'" "sorted_wrt (<) (map fst s')" "map_of s' = (map_of s)(?a \<mapsto> ?old + 1)" by auto
  have "{y \<in> insert x S. word_of_access y = a} = {y \<in> S. word_of_access y = a}" if "a \<noteq> ?a" for a using that by auto
  then have "words_inv (insert x S) s'" using assms(1) s'(2,3) c by (auto simp: words_inv_def)
  with s'(1) show ?thesis by blast
qed

lemma banks_insert:
  assumes "banks_inv cfg S m" "x \<notin> S" "finite S"
  shows "\<exists>m'. at_key [] (at_key 0 (\<lambda>n. Some (n + 1)) (word_of_access x)) (bank_of cfg x) m = Some m' \<and> banks_inv cfg (insert x S) m'"
proof -
  let ?b = "bank_of cfg x"
  let ?f = "at_key 0 (\<lambda>n. Some (n + 1)) (word_of_access x)"
  let ?old = "case map_of m ?b of Some u \<Rightarrow> u | None \<Rightarrow> []"
  let ?T = "\<lambda>S b. {y \<in> S. bank_of cfg y = b}"
  have "words_inv (?T S ?b) ?old"
  proof (cases "map_of m ?b")
    case None
    then have "?b \<notin> bank_of cfg ` S" using assms(1) by (auto simp: banks_inv_def domIff)
    then have e: "?T S ?b = {}" by (metis (mono_tags, lifting) Collect_empty_eq image_eqI)
    show ?thesis by (simp only: None option.case e) (simp add: words_inv_def)
  next
    case (Some s)
    with assms(1) show ?thesis by (simp add: banks_inv_def)
  qed
  from words_insert [OF this, of x] assms(2,3) obtain s' where s': "?f ?old = Some s'" "words_inv (insert x (?T S ?b)) s'" by auto
  have "sorted_wrt (<) (map fst m)" using assms(1) by (simp add: banks_inv_def)
  from at_key_Some [where f = ?f, OF this s'(1)] obtain m' where
    m': "at_key [] ?f ?b m = Some m'" "sorted_wrt (<) (map fst m')" "map_of m' = (map_of m)(?b \<mapsto> s')" by auto
  have "insert x (?T S ?b) = ?T (insert x S) ?b" by auto
  moreover have "?T (insert x S) b = ?T S b" if "b \<noteq> ?b" for b using that by auto
  ultimately have "banks_inv cfg (insert x S) m'" using assms(1) m'(2,3) s'(2) by (auto simp: banks_inv_def)
  with m'(1) show ?thesis by blast
qed

definition shared_threads :: "warp_mem \<Rightarrow> nat list \<Rightarrow> (nat \<times> new_addr_type) set" where
  "shared_threads w ts = {(t, a). t \<in> set ts \<and> bit (wm_active w) t \<and> memreqaddr w t 0 = Some a}"

lemma finite_shared_threads [simp]: "finite (shared_threads w ts)"
proof -
  have "shared_threads w ts \<subseteq> (\<lambda>t. (t, the (memreqaddr w t 0))) ` set ts" by (auto simp: shared_threads_def)
  then show ?thesis using finite_subset by blast
qed

lemma bank_threads_ok:
  assumes "cc_num_shmem_bank cfg \<noteq> 0" "distinct ts" "\<forall>t \<in> set ts. t < 32 \<and> (bit (wm_active w) t \<longrightarrow> memreqaddr w t 0 \<noteq> None)"
  shows "\<exists>m. loop_over (bank_thread cfg w) ts [] = Some m \<and> banks_inv cfg (shared_threads w ts) m"
proof (rule loop_over_inv [where I = "\<lambda>ts m. banks_inv cfg (shared_threads w ts) m"])
  fix ys t zs m assume split: "ts = ys @ t # zs" and inv: "banks_inv cfg (shared_threads w ys) m"
  have t: "t < 32" "t \<notin> set ys" using assms(2,3) split by auto
  show "\<exists>m'. bank_thread cfg w t m = Some m' \<and> banks_inv cfg (shared_threads w (ys @ [t])) m'"
  proof (cases "bit (wm_active w) t")
    case False
    then have "shared_threads w (ys @ [t]) = shared_threads w ys" by (auto simp: shared_threads_def)
    with False inv t(1) show ?thesis by (simp add: bank_thread_def mask_test_def)
  next
    case True
    with assms(3) split obtain a where a: "memreqaddr w t 0 = Some a" by auto
    have n: "(t, a) \<notin> shared_threads w ys" using t(2) by (simp add: shared_threads_def)
    have "shared_threads w (ys @ [t]) = insert (t, a) (shared_threads w ys)" using True a by (auto simp: shared_threads_def)
    with banks_insert [OF inv n finite_shared_threads] True a t(1) assms(1) show ?thesis
      by (simp add: bank_thread_def mask_test_def shmem_bank_func_def bank_of_def word_of_access_def)
  qed
qed (simp add: banks_inv_def shared_threads_def)

lemma words_length: "words_inv S s \<Longrightarrow> length s = card (word_of_access ` S)"
proof -
  assume a: "words_inv S s"
  have "distinct (map fst s)" using a strict_sorted_iff by (auto simp: words_inv_def)
  then have "length s = card (set (map fst s))" using distinct_card by fastforce
  then show ?thesis using a by (simp add: words_inv_def dom_map_of_conv_image_fst)
qed

lemma words_sum:
  assumes "words_inv S s" "finite S"
  shows "sum_list (map snd s) = card S"
proof -
  have d: "distinct (map fst s)" using assms(1) strict_sorted_iff by (auto simp: words_inv_def)
  have k: "k = card {x \<in> S. word_of_access x = a}" if "(a, k) \<in> set s" for a k
    using assms(1) d that by (simp add: words_inv_def map_of_eq_Some_iff)
  have "sum_list (map snd s) = sum_list (map (\<lambda>a. card {x \<in> S. word_of_access x = a}) (map fst s))"
    using k by (auto intro!: arg_cong [of _ _ sum_list])
  also have "\<dots> = (\<Sum>a \<in> word_of_access ` S. card {x \<in> S. word_of_access x = a})"
    using d assms(1) by (simp only: sum_list_distinct_conv_sum_set [OF d] words_inv_def dom_map_of_conv_image_fst set_map)
  also have "\<dots> = card (\<Union>a \<in> word_of_access ` S. {x \<in> S. word_of_access x = a})"
    using assms(2) by (intro card_UN_disjoint [symmetric]) auto
  also have "(\<Union>a \<in> word_of_access ` S. {x \<in> S. word_of_access x = a}) = S" by auto
  finally show ?thesis .
qed

lemma loop_over_max:
  fixes g :: "'a \<Rightarrow> nat"
  assumes "\<And>x. x \<in> set xs \<Longrightarrow> f x = Some (g x)"
  shows "loop_over (\<lambda>x acc. do { n \<leftarrow> f x; Some (if n > acc then n else acc) }) xs acc = Some (fold (\<lambda>x. max (g x)) xs acc)"
  using assms by (induction xs arbitrary: acc) (auto simp: max_def)

lemma fold_max: "fold (\<lambda>x. max (g x)) xs acc = Max (insert acc (g ` set xs))" for acc :: nat
proof (induction xs arbitrary: acc)
  case (Cons x xs)
  have "Max (insert acc (insert (g x) (g ` set xs))) = max acc (max (g x) (Max (insert (g x) (g ` set xs))))"
    by (cases "g ` set xs = {}") (auto simp: max.assoc)
  with Cons show ?case by (cases "g ` set xs = {}") (auto simp: max.left_commute max.commute)
qed simp

text \<open>The count of a bank lies between one and the number of its threads.\<close>

lemma find_broadcast_in:
  assumes "find_broadcast m = Some (b, a)" "\<forall>(b, s) \<in> set m. distinct (map fst s)"
  shows "\<exists>s k. (b, s) \<in> set m \<and> map_of s a = Some k \<and> k > 1"
  using assms
proof (induction m rule: find_broadcast.induct)
  case (2 b' s m)
  show ?case
  proof (cases "filter (\<lambda>(a, n). n > 1) s")
    case Nil
    with 2 show ?thesis by fastforce
  next
    case (Cons p ps)
    obtain a' k where p: "p = (a', k)" by fastforce
    have "p \<in> set (filter (\<lambda>(a, n). n > 1) s)" unfolding Cons by simp
    then have "(a', k) \<in> set s" "k > 1" using p by auto
    moreover have "b = b'" "a = a'" using 2(2) Cons p by auto
    ultimately show ?thesis using 2(3) by (auto simp: map_of_eq_Some_iff)
  qed
qed simp

lemma broadcast_accesses_bounds:
  assumes "banks_inv cfg S m" "finite S" "(b, s) \<in> set m"
  shows "\<exists>n. broadcast_accesses (find_broadcast m) (b, s) = Some n \<and> 1 \<le> n \<and> n \<le> card {x \<in> S. bank_of cfg x = b}"
proof -
  let ?T = "{x \<in> S. bank_of cfg x = b}"
  have dm: "distinct (map fst m)" using assms(1) strict_sorted_iff by (auto simp: banks_inv_def)
  have mo: "map_of m b = Some s" using dm assms(3) by (simp add: map_of_eq_Some_iff)
  have wi: "words_inv ?T s" using assms(1) mo by (simp add: banks_inv_def)
  have b: "b \<in> bank_of cfg ` S" using assms(1) mo by (auto simp: banks_inv_def)
  have fT: "finite ?T" "?T \<noteq> {}" using assms(2) b by auto
  note sum = words_sum [OF wi fT(1)]
  have one: "1 \<le> card ?T" using fT by (simp add: Suc_le_eq card_gt_0_iff)
  have dw: "\<forall>(b, s) \<in> set m. distinct (map fst s)"
    using assms(1) dm strict_sorted_iff by (fastforce simp: banks_inv_def words_inv_def map_of_eq_Some_iff)
  have ks: "k \<le> card ?T" if "map_of s a = Some k" for a k
    using wi that fT(1) by (auto simp: words_inv_def intro!: card_mono)
  show ?thesis
  proof (cases "find_broadcast m")
    case None
    then show ?thesis using sum one by (simp add: broadcast_accesses_def)
  next
    case (Some p)
    obtain b' a where p: "p = (b', a)" by fastforce
    from find_broadcast_in [OF _ dw] Some p obtain s' k where k: "(b', s') \<in> set m" "map_of s' a = Some k" "k > 1" by blast
    show ?thesis
    proof (cases "b' = b")
      case True
      moreover have "map_of m b' = Some s'" using k(1) dm by (simp add: map_of_eq_Some_iff)
      ultimately have "s' = s" using mo by simp
      with Some p True k ks [of a k] sum show ?thesis by (auto simp: broadcast_accesses_def Let_def)
    next
      case False
      then show ?thesis using Some p sum one by (simp add: broadcast_accesses_def)
    qed
  qed
qed

lemma max_bank_accesses_ok:
  assumes "banks_inv cfg S m" "finite S"
  shows "\<exists>n. max_bank_accesses cfg m = Some n \<and> n \<le> card S \<and> (S \<noteq> {} \<longrightarrow> 1 \<le> n) \<and> (\<not> cc_shmem_limited_broadcast cfg \<longrightarrow> n = conflict_degree cfg S)"
proof -
  let ?T = "\<lambda>b. {x \<in> S. bank_of cfg x = b}"
  have dm: "distinct (map fst m)" using assms(1) strict_sorted_iff by (auto simp: banks_inv_def)
  have keys: "fst ` set m = bank_of cfg ` S" using assms(1) by (simp add: banks_inv_def dom_map_of_conv_image_fst)
  have bound: "?thesis" if g: "max_bank_accesses cfg m = Some (fold (\<lambda>x. max (g x)) m 0)"
      "\<And>b s. (b, s) \<in> set m \<Longrightarrow> 1 \<le> g (b, s) \<and> g (b, s) \<le> card (?T b)"
      "\<not> cc_shmem_limited_broadcast cfg \<Longrightarrow> g ` set m = (\<lambda>b. card (word_of_access ` ?T b)) ` bank_of cfg ` S" for g
  proof -
    have fold: "fold (\<lambda>x. max (g x)) m 0 = Max (insert 0 (g ` set m))" by (rule fold_max)
    have "x \<le> card S" if "x \<in> insert 0 (g ` set m)" for x
    proof -
      have "card (?T b) \<le> card S" for b using assms(2) by (intro card_mono) auto
      then show ?thesis using that g(2) order_trans by fastforce
    qed
    then have "Max (insert 0 (g ` set m)) \<le> card S" by (intro Max.boundedI) auto
    moreover have "1 \<le> Max (insert 0 (g ` set m))" if "S \<noteq> {}"
    proof -
      have "set m \<noteq> {}" using that keys by auto
      then obtain b s where bs: "(b, s) \<in> set m" by (metis ex_in_conv surj_pair)
      then have "1 \<le> g (b, s)" "g (b, s) \<in> insert 0 (g ` set m)" using g(2) by auto
      moreover have "g (b, s) \<le> Max (insert 0 (g ` set m))" using calculation(2) by (intro Max_ge) simp_all
      ultimately show ?thesis by linarith
    qed
    moreover have "Max (insert 0 (g ` set m)) = conflict_degree cfg S" if "\<not> cc_shmem_limited_broadcast cfg"
    proof (cases "S = {}")
      case False
      then have "g ` set m \<noteq> {}" using keys by auto
      then have "Max (insert 0 (g ` set m)) = Max (g ` set m)" by simp
      then show ?thesis using g(3) [OF that] False by (simp add: conflict_degree_def)
    qed (use keys in \<open>simp add: conflict_degree_def\<close>)
    ultimately show ?thesis using g(1) fold by auto
  qed
  show ?thesis
  proof (cases "cc_shmem_limited_broadcast cfg")
    case True
    let ?g = "\<lambda>x. the (broadcast_accesses (find_broadcast m) x)"
    have b: "broadcast_accesses (find_broadcast m) (b, s) = Some (?g (b, s)) \<and> 1 \<le> ?g (b, s) \<and> ?g (b, s) \<le> card (?T b)" if "(b, s) \<in> set m" for b s
      using broadcast_accesses_bounds [OF assms that] by auto
    have "max_bank_accesses cfg m = Some (fold (\<lambda>x. max (?g x)) m 0)"
      unfolding max_bank_accesses_def using True b loop_over_max [of m "broadcast_accesses (find_broadcast m)" ?g 0] by (simp add: split_paired_all)
    with b True show ?thesis by (intro bound) auto
  next
    case False
    have l: "length s = card (word_of_access ` ?T b)" "?T b \<noteq> {}" if "(b, s) \<in> set m" for b s
    proof -
      have "map_of m b = Some s" using that dm by (simp add: map_of_eq_Some_iff)
      then show "length s = card (word_of_access ` ?T b)" using assms(1) words_length by (simp add: banks_inv_def)
      show "?T b \<noteq> {}" using that keys by force
    qed
    have "loop_over (\<lambda>(_, s) acc. Some (max acc (length s))) xs acc = Some (fold (\<lambda>x. max (length (snd x))) xs acc)" for xs :: bank_accesses and acc
      by (induction xs arbitrary: acc) (auto simp: max.commute)
    then have "max_bank_accesses cfg m = Some (fold (\<lambda>x. max (length (snd x))) m 0)" using False by (simp add: max_bank_accesses_def)
    moreover have "1 \<le> length (snd (b, s)) \<and> length (snd (b, s)) \<le> card (?T b)" if "(b, s) \<in> set m" for b s
      using l [OF that] assms(2) by (simp add: card_image_le Suc_le_eq card_gt_0_iff)
    moreover have "(\<lambda>x. length (snd x)) ` set m = (\<lambda>b. card (word_of_access ` ?T b)) ` fst ` set m"
      unfolding image_image using l(1) by (intro image_cong) auto
    ultimately show ?thesis by (intro bound [of "\<lambda>x. length (snd x)"]) (simp_all add: keys)
  qed
qed

lemma loop_over_snoc: "loop_over f (xs @ [x]) s = Option.bind (loop_over f xs s) (f x)"
proof (induction xs arbitrary: s)
  case (Cons y ys)
  then show ?case by (cases "f y s") simp_all
next
  case Nil
  show ?case by (cases "f x s") simp_all
qed

definition shared_ok :: "core_config \<Rightarrow> warp_mem \<Rightarrow> bool" where
  "shared_ok cfg w \<longleftrightarrow> wi_space w = shared_sp \<and> \<not> wi_empty w \<and> \<not> wm_created w \<and> (wi_op w = LOAD_OP \<or> wi_op w = STORE_OP) \<and> wm_active w \<noteq> 0 \<and> wm_valid w
     \<and> cc_warp_size cfg \<le> 32 \<and> cc_mem_warp_parts cfg \<noteq> 0 \<and> cc_mem_warp_parts cfg dvd cc_warp_size cfg \<and> cc_num_shmem_bank cfg \<noteq> 0
     \<and> (\<forall>t < 32. bit (wm_active w) t \<longrightarrow> t < cc_warp_size cfg \<and> memreqaddr w t 0 \<noteq> None)"

definition subwarp_threads :: "core_config \<Rightarrow> warp_mem \<Rightarrow> nat \<Rightarrow> (nat \<times> new_addr_type) set" where
  "subwarp_threads cfg w k = shared_threads w [k * (cc_warp_size cfg div cc_mem_warp_parts cfg)..<(k + 1) * (cc_warp_size cfg div cc_mem_warp_parts cfg)]"

lemma shared_loop_ok:
  assumes "shared_ok cfg w" "p \<le> cc_mem_warp_parts cfg"
  shows "\<exists>c. loop_over (shared_subwarp cfg w) [0..<p] 0 = Some c
    \<and> c \<le> card (shared_threads w [0..<p * (cc_warp_size cfg div cc_mem_warp_parts cfg)])
    \<and> (shared_threads w [0..<p * (cc_warp_size cfg div cc_mem_warp_parts cfg)] \<noteq> {} \<longrightarrow> 1 \<le> c)
    \<and> (\<not> cc_shmem_limited_broadcast cfg \<longrightarrow> c = (\<Sum>k<p. conflict_degree cfg (subwarp_threads cfg w k)))"
  using assms(2)
proof (induction p)
  case 0
  then show ?case by (simp add: shared_threads_def)
next
  case (Suc p)
  let ?n = "cc_warp_size cfg div cc_mem_warp_parts cfg"
  let ?S = "shared_threads w [0..<p * ?n]" and ?T = "subwarp_threads cfg w p"
  from Suc obtain c where c: "loop_over (shared_subwarp cfg w) [0..<p] 0 = Some c" "c \<le> card ?S" "?S \<noteq> {} \<longrightarrow> 1 \<le> c"
    "\<not> cc_shmem_limited_broadcast cfg \<longrightarrow> c = (\<Sum>k<p. conflict_degree cfg (subwarp_threads cfg w k))" by auto
  have "(p + 1) * ?n \<le> cc_mem_warp_parts cfg * ?n" using Suc.prems by (intro mult_le_mono1) simp
  also have "\<dots> = cc_warp_size cfg" using assms(1) by (simp add: shared_ok_def)
  finally have "\<forall>t \<in> set [p * ?n..<(p + 1) * ?n]. t < 32 \<and> (bit (wm_active w) t \<longrightarrow> memreqaddr w t 0 \<noteq> None)"
    using assms(1) by (auto simp: shared_ok_def)
  then obtain m where m: "loop_over (bank_thread cfg w) [p * ?n..<(p + 1) * ?n] [] = Some m" "banks_inv cfg ?T m"
    using bank_threads_ok [of cfg "[p * ?n..<(p + 1) * ?n]" w] assms(1) by (auto simp: shared_ok_def subwarp_threads_def)
  from max_bank_accesses_ok [OF m(2)] obtain k where k: "max_bank_accesses cfg m = Some k" "k \<le> card ?T" "?T \<noteq> {} \<longrightarrow> 1 \<le> k"
    "\<not> cc_shmem_limited_broadcast cfg \<longrightarrow> k = conflict_degree cfg ?T" by (auto simp: subwarp_threads_def)
  have step: "shared_subwarp cfg w p c = Some (c + k)" using m(1) k(1) by (simp add: shared_subwarp_def)
  have "loop_over (shared_subwarp cfg w) [0..<Suc p] 0 = Some (c + k)" using c(1) step by (simp add: loop_over_snoc)
  moreover have un: "shared_threads w [0..<Suc p * ?n] = ?S \<union> ?T" "?S \<inter> ?T = {}" by (auto simp: shared_threads_def subwarp_threads_def)
  moreover have "card (?S \<union> ?T) = card ?S + card ?T" using un(2) by (intro card_Un_disjoint) (simp_all add: subwarp_threads_def)
  ultimately show ?case using c k by auto
qed

text \<open>C21. The generation of accesses to shared memory never fails its check: the number of cycles lies between one and the number of
  active threads, and without the broadcast restriction it is the sum over the subwarps of the largest number of different words that
  the subwarp touches in one bank.\<close>

theorem shared_memory_conflicts:
  assumes "shared_ok cfg w"
  shows "\<exists>c. generate_mem_accesses cfg w = Some (w\<lparr>wm_cycles := c, wm_created := True\<rparr>) \<and> 1 \<le> c \<and> c \<le> card {t. bit (wm_active w) t}
    \<and> (\<not> cc_shmem_limited_broadcast cfg \<longrightarrow> c = (\<Sum>k < cc_mem_warp_parts cfg. conflict_degree cfg (subwarp_threads cfg w k)))"
proof -
  let ?p = "cc_mem_warp_parts cfg" and ?S = "shared_threads w [0..<cc_warp_size cfg]"
  have np: "?p * (cc_warp_size cfg div ?p) = cc_warp_size cfg" using assms by (simp add: shared_ok_def)
  from shared_loop_ok [OF assms order_refl] obtain c where
    c: "loop_over (shared_subwarp cfg w) [0..<?p] 0 = Some c" "c \<le> card ?S" "?S \<noteq> {} \<longrightarrow> 1 \<le> c"
      "\<not> cc_shmem_limited_broadcast cfg \<longrightarrow> c = (\<Sum>k<?p. conflict_degree cfg (subwarp_threads cfg w k))" unfolding np by blast
  have b: "t < 32" if "bit (wm_active w) t" for t using that bit_imp_le_length by fastforce
  have fst: "fst ` ?S = {t. bit (wm_active w) t}" using assms b by (force simp: shared_threads_def shared_ok_def image_iff)
  have "inj_on fst ?S" by (auto simp: inj_on_def shared_threads_def)
  then have card: "card ?S = card {t. bit (wm_active w) t}" using fst card_image by metis
  have "\<exists>t. bit (wm_active w) t"
  proof (rule ccontr)
    assume "\<nexists>t. bit (wm_active w) t"
    then have "wm_active w = 0" by (intro bit_word_eqI) simp
    with assms show False by (simp add: shared_ok_def)
  qed
  then have "?S \<noteq> {}" using fst by auto
  moreover have "card ?S \<le> cc_warp_size cfg"
  proof -
    have "fst ` ?S \<subseteq> {..<cc_warp_size cfg}" by (auto simp: shared_threads_def)
    then show ?thesis using card fst card_mono [of "{..<cc_warp_size cfg}"] by fastforce
  qed
  ultimately have c2: "0 < c" "c \<le> cc_warp_size cfg" using c(2,3) by simp_all
  have "shared_accesses cfg w = Some (w\<lparr>wm_cycles := c\<rparr>)" using assms c(1) c2 by (simp add: shared_accesses_def shared_ok_def)
  moreover have "wi_op w \<noteq> MEMORY_BARRIER_OP" using assms by (auto simp: shared_ok_def)
  ultimately have "generate_mem_accesses cfg w = Some (w\<lparr>wm_cycles := c, wm_created := True\<rparr>)"
    using assms by (simp add: generate_mem_accesses_def shared_ok_def)
  then show ?thesis using c(2,4) c2(1) card by (intro exI [of _ c]) (simp add: Suc_le_eq)
qed

theorem shared_memory_conflicts_witness:
  "\<exists>c. generate_mem_accesses example_core (example_warp shared_sp False [0, 4, 0, 64]) =
      Some ((example_warp shared_sp False [0, 4, 0, 64])\<lparr>wm_cycles := c, wm_created := True\<rparr>) \<and> 1 \<le> c \<and> c \<le> card {t. bit (15 :: 32 word) t}"
proof -
  have "(\<forall>t<32. bit (15 :: 32 word) t \<longrightarrow> P t) \<longleftrightarrow> P 0 \<and> P 1 \<and> P 2 \<and> P 3" for P
    unfolding bit_15 using four_bits [of P] by auto
  then have "shared_ok example_core (example_warp shared_sp False [0, 4, 0, 64])"
    by (simp add: shared_ok_def example_core_def example_warp_def memreqaddr_def vec_at_def)
  from shared_memory_conflicts [OF this] show ?thesis by (auto simp: example_warp_def)
qed

subsection \<open>Lines\<close>

text \<open>The accesses to constant and texture memory: one for each line in use.\<close>

definition lines_inv :: "new_addr_type \<Rightarrow> (nat \<times> new_addr_type) set \<Rightarrow> (new_addr_type \<times> 32 word) list \<Rightarrow> bool" where
  "lines_inv n S m \<longleftrightarrow> sorted_wrt (<) (map fst m)
     \<and> dom (map_of m) = (\<lambda>x. ucast (line_size_based_tag_func (snd x) n)) ` S
     \<and> (\<forall>b v. map_of m b = Some v \<longrightarrow> (\<forall>t. bit v t \<longleftrightarrow> (\<exists>a. (t, a) \<in> S \<and> ucast (line_size_based_tag_func a n) = b)))"

lemma lines_insert:
  assumes "lines_inv n S m" "t < 32"
  shows "\<exists>m'. at_key 0 (mask_set t) (ucast (line_size_based_tag_func a n)) m = Some m' \<and> lines_inv n (insert (t, a) S) m'"
proof -
  let ?b = "ucast (line_size_based_tag_func a n) :: 64 word"
  let ?old = "case map_of m ?b of Some u \<Rightarrow> u | None \<Rightarrow> 0"
  have old: "bit ?old t' \<longleftrightarrow> (\<exists>a'. (t', a') \<in> S \<and> ucast (line_size_based_tag_func a' n) = ?b)" for t'
  proof (cases "map_of m ?b")
    case None
    then have "?b \<notin> (\<lambda>x. ucast (line_size_based_tag_func (snd x) n)) ` S" using assms(1) by (auto simp: lines_inv_def domIff)
    then have "\<not> (\<exists>a'. (t', a') \<in> S \<and> ucast (line_size_based_tag_func a' n) = ?b)" by force
    with None show ?thesis by simp
  next
    case (Some v)
    with assms(1) show ?thesis by (simp add: lines_inv_def)
  qed
  from bit_mask_set [of t ?old] assms(2) obtain v where v: "mask_set t ?old = Some v" "\<forall>j. bit v j \<longleftrightarrow> bit ?old j \<or> j = t" by auto
  have "sorted_wrt (<) (map fst m)" using assms(1) by (simp add: lines_inv_def)
  from at_key_Some [where f = "mask_set t", OF this v(1)] obtain m' where
    m': "at_key 0 (mask_set t) ?b m = Some m'" "sorted_wrt (<) (map fst m')" "map_of m' = (map_of m)(?b \<mapsto> v)" by auto
  have "lines_inv n (insert (t, a) S) m'"
    unfolding lines_inv_def m'(3)
  proof (intro conjI allI impI)
    show "sorted_wrt (<) (map fst m')" by (rule m'(2))
    show "dom ((map_of m)(?b \<mapsto> v)) = (\<lambda>x. ucast (line_size_based_tag_func (snd x) n)) ` insert (t, a) S" using assms(1) by (simp add: lines_inv_def)
    fix b u t' assume "((map_of m)(?b \<mapsto> v)) b = Some u"
    then show "bit u t' \<longleftrightarrow> (\<exists>a'. (t', a') \<in> insert (t, a) S \<and> ucast (line_size_based_tag_func a' n) = b)"
      using assms(1) v(2) old [of t'] by (cases "b = ?b") (auto simp: lines_inv_def)
  qed
  with m'(1) show ?thesis by blast
qed

definition line_ok :: "core_config \<Rightarrow> new_addr_type \<Rightarrow> warp_mem \<Rightarrow> bool" where
  "line_ok cfg n w \<longleftrightarrow> cc_warp_size cfg \<le> 32 \<and> n \<noteq> 0 \<and> wm_accessq w = []
     \<and> (\<forall>t < cc_warp_size cfg. bit (wm_active w) t \<longrightarrow> (\<exists>a. memreqaddr w t 0 = Some a
          \<and> unat (ucast (a - ucast (line_size_based_tag_func a n)) :: 32 word) + wm_data_size w \<le> 128))"

lemma line_threads_ok:
  assumes "line_ok cfg n w"
  shows "\<exists>m bm. loop_over (line_thread w n) [0..<cc_warp_size cfg] ([], 0) = Some (m, bm) \<and> lines_inv n (shared_threads w [0..<cc_warp_size cfg]) m"
proof -
  have "\<exists>s. loop_over (line_thread w n) [0..<cc_warp_size cfg] ([], 0) = Some s \<and> lines_inv n (shared_threads w [0..<cc_warp_size cfg]) (fst s)"
  proof (rule loop_over_inv [where I = "\<lambda>ts s. lines_inv n (shared_threads w ts) (fst s)"])
    fix ys t zs and s :: "(new_addr_type \<times> 32 word) list \<times> 128 word" assume split: "[0..<cc_warp_size cfg] = ys @ t # zs" and inv: "lines_inv n (shared_threads w ys) (fst s)"
    have "t \<in> set [0..<cc_warp_size cfg]" unfolding split by simp
    then have t: "t < cc_warp_size cfg" "t < 32" using assms by (auto simp: line_ok_def)
    show "\<exists>s'. line_thread w n t s = Some s' \<and> lines_inv n (shared_threads w (ys @ [t])) (fst s')"
    proof (cases "bit (wm_active w) t")
      case False
      then have "shared_threads w (ys @ [t]) = shared_threads w ys" by (auto simp: shared_threads_def)
      with False inv t(2) show ?thesis by (simp add: line_thread_def mask_test_def split_beta)
    next
      case True
      with assms t(1) obtain a where a: "memreqaddr w t 0 = Some a"
        "unat (ucast (a - ucast (line_size_based_tag_func a n)) :: 32 word) + wm_data_size w \<le> 128" unfolding line_ok_def by blast
      from bit_mask_set_range [of _ _ "snd s"] a(2) obtain bm where
        "mask_set_range (unat (ucast (a - ucast (line_size_based_tag_func a n)) :: 32 word)) (wm_data_size w) (snd s) = Some bm" by fastforce
      moreover have "shared_threads w (ys @ [t]) = insert (t, a) (shared_threads w ys)" using True a(1) by (auto simp: shared_threads_def)
      ultimately show ?thesis using lines_insert [OF inv t(2), of a] True a(1) t(2) by (auto simp: line_thread_def mask_test_def split_beta)
    qed
  qed (simp add: lines_inv_def shared_threads_def)
  then show ?thesis by auto
qed

definition lines_ready :: "core_config \<Rightarrow> new_addr_type \<Rightarrow> warp_mem \<Rightarrow> bool" where
  "lines_ready cfg n w \<longleftrightarrow> line_ok cfg n w \<and> \<not> wi_empty w \<and> \<not> wm_created w \<and> (wi_op w = LOAD_OP \<or> wi_op w = STORE_OP) \<and> wm_active w \<noteq> 0 \<and> wm_valid w
     \<and> (wi_space w = tex_sp \<and> n = cc_texl1_linesize cfg \<or> wi_space w \<in> {const_sp, param_sp_kernel} \<and> n = cc_constl1_linesize cfg)"

lemma ucast_line: "ucast (ucast (ucast (x :: 32 word) :: 64 word) :: 32 word) = (ucast x :: 64 word)"
proof -
  have "unat (ucast x :: 64 word) < 2 ^ 32" using unsigned_less [of x, where 'a = nat] by simp
  then show ?thesis using unat_ucast_small [of "ucast x"] by (simp add: word_unat_eq_iff)
qed

text \<open>A constant or texture instruction generates one access for each line that an active thread touches, in ascending order, and an
  access lists exactly the threads that touch its line.\<close>

theorem line_accesses_by_line:
  assumes "lines_ready cfg n w"
  shows "\<exists>xs. generate_mem_accesses cfg w = Some (w\<lparr>wm_accessq := xs, wm_created := True\<rparr>)
    \<and> sorted_wrt (<) (map ma_addr xs)
    \<and> set (map ma_addr xs) = (\<lambda>x. ucast (line_size_based_tag_func (snd x) n)) ` shared_threads w [0..<cc_warp_size cfg]
    \<and> (\<forall>x \<in> set xs. ma_req_size x = ucast n
        \<and> (\<forall>t. bit (ma_warp_mask x) t \<longleftrightarrow> (\<exists>a. (t, a) \<in> shared_threads w [0..<cc_warp_size cfg] \<and> ucast (line_size_based_tag_func a n) = ma_addr x)))"
proof -
  let ?S = "shared_threads w [0..<cc_warp_size cfg]"
  have ok: "line_ok cfg n w" "wi_op w \<noteq> MEMORY_BARRIER_OP" using assms by (auto simp: lines_ready_def)
  obtain ty where ty: "access_type_of (wi_space w) (is_store w) = Some ty" using assms by (auto simp: lines_ready_def access_type_of_def)
  from line_threads_ok [OF ok(1)] obtain m bm where
    m: "loop_over (line_thread w n) [0..<cc_warp_size cfg] ([], 0) = Some (m, bm)" "lines_inv n ?S m" by blast
  define xs where "xs = map (\<lambda>(a, t). new_access ty a (ucast n) (is_store w) t bm) m"
  have "line_accesses cfg (is_store w) ty n w = Some (w\<lparr>wm_accessq := xs\<rparr>)" using ok(1) m(1) by (simp add: line_accesses_def line_ok_def xs_def)
  moreover have "generate_mem_accesses cfg w = map_option (\<lambda>w. w\<lparr>wm_created := True\<rparr>) (line_accesses cfg (is_store w) ty n w)"
    using assms ty ok(2) by (auto simp: generate_mem_accesses_def lines_ready_def map_conv_bind_option comp_def)
  ultimately have g: "generate_mem_accesses cfg w = Some (w\<lparr>wm_accessq := xs, wm_created := True\<rparr>)" by simp
  have keys: "fst ` set m = (\<lambda>x. ucast (line_size_based_tag_func (snd x) n)) ` ?S" using m(2) by (simp add: lines_inv_def dom_map_of_conv_image_fst)
  have addr: "ma_addr (new_access ty a z wr t b) = a" if "a \<in> fst ` set m" for a z wr t b
    using that unfolding keys new_access_def by (auto simp: ucast_line)
  then have maps: "map ma_addr xs = map fst m" unfolding xs_def by (auto intro!: addr rev_image_eqI)
  have dm: "distinct (map fst m)" using m(2) strict_sorted_iff by (auto simp: lines_inv_def)
  have "sorted_wrt (<) (map ma_addr xs)" using m(2) unfolding maps by (simp add: lines_inv_def)
  moreover have "set (map ma_addr xs) = (\<lambda>x. ucast (line_size_based_tag_func (snd x) n)) ` ?S" by (simp only: maps set_map keys)
  moreover have "bit (ma_warp_mask x) t \<longleftrightarrow> (\<exists>a. (t, a) \<in> ?S \<and> ucast (line_size_based_tag_func a n) = ma_addr x)" if "x \<in> set xs" for x t
  proof -
    from that obtain b v where bv: "(b, v) \<in> set m" "x = new_access ty b (ucast n) (is_store w) v bm" by (auto simp: xs_def)
    then have "b \<in> fst ` set m" by force
    with bv dm have "map_of m b = Some v" "ma_addr x = b" by (simp_all add: map_of_eq_Some_iff addr)
    then show ?thesis using m(2) bv(2) by (simp add: lines_inv_def)
  qed
  moreover have "ma_req_size x = ucast n" if "x \<in> set xs" for x using that by (auto simp: xs_def)
  ultimately show ?thesis using g by blast
qed

theorem line_accesses_by_line_witness:
  "\<exists>xs. generate_mem_accesses example_core (example_warp const_sp False [0, 4, 64, 68]) =
      Some ((example_warp const_sp False [0, 4, 64, 68])\<lparr>wm_accessq := xs, wm_created := True\<rparr>) \<and> sorted_wrt (<) (map ma_addr xs)"
proof -
  have "(\<forall>t<4. bit (15 :: 32 word) t \<longrightarrow> P t) \<longleftrightarrow> P 0 \<and> P 1 \<and> P 2 \<and> P 3" for P
    unfolding bit_15 using four_bits [of P] by auto
  moreover have "line_size_based_tag_func 0 64 = 0" "line_size_based_tag_func 4 64 = 0" "line_size_based_tag_func 64 64 = 64" "line_size_based_tag_func 68 64 = 64"
    by (simp_all add: line_size_based_tag_func_def)
  ultimately have "lines_ready example_core 64 (example_warp const_sp False [0, 4, 64, 68])"
    by (simp add: lines_ready_def line_ok_def example_core_def example_warp_def memreqaddr_def vec_at_def)
  from line_accesses_by_line [OF this] show ?thesis by blast
qed

end
