(* ===== verification/Barrier_Model.thy ===== *)
theory Barrier_Model
  imports Coalesce_Model
begin

text \<open>
  Barriers between the warps of a block, \<^verbatim>\<open>barrier_set_t\<close> of \<^verbatim>\<open>gpgpu-sim/shader.*\<close>.  A set of warps is a bit set of 48 bits
  (\<^verbatim>\<open>warp_set_t\<close>); the map from blocks to warps is a list sorted by block, like the other \<^verbatim>\<open>std::map\<close>s.

  Main results: in every sequence of launches, arrivals, exits and ends of blocks no check of the class fails, a barrier opens with
  the arrival or exit of the last warp it waits for and not before, and no block has all its running warps waiting.
\<close>

unbundle bit_operations_syntax

subsection \<open>Operations\<close>

record barrier_set_t =
  br_max_cta_per_core :: nat
  br_max_warps_per_core :: nat
  br_cta_to_warps :: "(nat \<times> 48 word) list"
  br_warp_active :: "48 word"
  br_warp_at_barrier :: "48 word"

definition barrier_new :: "nat \<Rightarrow> nat \<Rightarrow> barrier_set_t option" where
  "barrier_new max_warps max_cta = do {
     assert_that (max_warps \<le> 48);
     Some \<lparr>br_max_cta_per_core = max_cta, br_max_warps_per_core = max_warps, br_cta_to_warps = [], br_warp_active = 0, br_warp_at_barrier = 0\<rparr>
   }"

definition allocate_barrier :: "nat \<Rightarrow> 48 word \<Rightarrow> barrier_set_t \<Rightarrow> barrier_set_t option" where
  "allocate_barrier cta_id warps b = do {
     assert_that (cta_id < br_max_cta_per_core b);
     assert_that (map_of (br_cta_to_warps b) cta_id = None);
     m \<leftarrow> at_key 0 (\<lambda>_. Some warps) cta_id (br_cta_to_warps b);
     assert_that (length m \<le> br_max_cta_per_core b);
     Some (b\<lparr>br_cta_to_warps := m, br_warp_active := br_warp_active b OR warps,
             br_warp_at_barrier := br_warp_at_barrier b AND NOT warps\<rparr>)
   }"

definition deallocate_barrier :: "nat \<Rightarrow> barrier_set_t \<Rightarrow> barrier_set_t option" where
  "deallocate_barrier cta_id b =
     (case map_of (br_cta_to_warps b) cta_id of
        None \<Rightarrow> Some b
      | Some warps \<Rightarrow> do {
          assert_that (warps AND br_warp_at_barrier b = 0);
          assert_that (warps AND br_warp_active b = 0);
          Some (b\<lparr>br_warp_active := br_warp_active b AND NOT warps, br_warp_at_barrier := br_warp_at_barrier b AND NOT warps,
                  br_cta_to_warps := filter (\<lambda>x. fst x \<noteq> cta_id) (br_cta_to_warps b)\<rparr>)
        })"

text \<open>The test for the release, which arrival and exit share.\<close>

definition barrier_release :: "48 word \<Rightarrow> barrier_set_t \<Rightarrow> barrier_set_t" where
  "barrier_release warps_in_cta b =
     (let at_barrier = warps_in_cta AND br_warp_at_barrier b; active = warps_in_cta AND br_warp_active b in
      if at_barrier = active then b\<lparr>br_warp_at_barrier := br_warp_at_barrier b AND NOT at_barrier\<rparr> else b)"

definition warp_reaches_barrier :: "nat \<Rightarrow> nat \<Rightarrow> barrier_set_t \<Rightarrow> barrier_set_t option" where
  "warp_reaches_barrier cta_id warp_id b = do {
     warps \<leftarrow> map_of (br_cta_to_warps b) cta_id;
     t \<leftarrow> mask_test warps warp_id;
     assert_that t;
     a \<leftarrow> mask_set warp_id (br_warp_at_barrier b);
     Some (barrier_release warps (b\<lparr>br_warp_at_barrier := a\<rparr>))
   }"

definition available_for_fetch :: "barrier_set_t \<Rightarrow> nat \<Rightarrow> bool option" where
  "available_for_fetch b warp_id = do {
     a \<leftarrow> mask_test (br_warp_active b) warp_id;
     (if a then mask_test (br_warp_at_barrier b) warp_id else Some False)
   }"

text \<open>The search for the block of a warp; without one the code reads past the end of the map.\<close>

fun cta_of_warp :: "nat \<Rightarrow> (nat \<times> 48 word) list \<Rightarrow> 48 word option" where
  "cta_of_warp warp_id [] = None"
| "cta_of_warp warp_id ((c, warps) # m) = do { t \<leftarrow> mask_test warps warp_id; (if t then Some warps else cta_of_warp warp_id m) }"

definition barrier_warp_exit :: "nat \<Rightarrow> barrier_set_t \<Rightarrow> barrier_set_t option" where
  "barrier_warp_exit warp_id b = do {
     assert_that (warp_id < 48);
     let b = b\<lparr>br_warp_active := unset_bit warp_id (br_warp_active b)\<rparr>;
     warps \<leftarrow> cta_of_warp warp_id (br_cta_to_warps b);
     Some (barrier_release warps b)
   }"

definition warp_waiting_at_barrier :: "barrier_set_t \<Rightarrow> nat \<Rightarrow> bool option" where
  "warp_waiting_at_barrier b warp_id = mask_test (br_warp_at_barrier b) warp_id"

subsection \<open>Sets of warps\<close>

definition wset :: "48 word \<Rightarrow> nat set" where "wset w = {i. bit w i}"

lemma wset_ops [simp]:
  "wset (a AND b) = wset a \<inter> wset b" "wset (a OR b) = wset a \<union> wset b" "wset (NOT b) = {..<48} - wset b" "wset 0 = {}"
  "wset (unset_bit i a) = wset a - {i}" "i < 48 \<Longrightarrow> wset (set_bit i a) = insert i (wset a)"
  using bit_imp_le_length [of a] by (auto simp: wset_def bit_simps)

lemma wset_eq_iff: "a = b \<longleftrightarrow> wset a = wset b"
  by (auto simp: wset_def set_eq_iff intro: bit_eqI)

lemma wset_less: "i \<in> wset a \<Longrightarrow> i < 48"
  using bit_imp_le_length [of a i] by (simp add: wset_def)

lemma mask_test_wset: "mask_test a i = (if i < 48 then Some (i \<in> wset a) else None)"
  by (simp add: mask_test_def wset_def)

abbreviation waiting :: "barrier_set_t \<Rightarrow> nat set" where "waiting b \<equiv> wset (br_warp_at_barrier b)"
abbreviation running :: "barrier_set_t \<Rightarrow> nat set" where "running b \<equiv> wset (br_warp_active b)"
abbreviation cta_warps :: "barrier_set_t \<Rightarrow> nat \<Rightarrow> 48 word option" where "cta_warps b \<equiv> map_of (br_cta_to_warps b)"

lemma barrier_release_simps [simp]:
  "br_cta_to_warps (barrier_release ws b) = br_cta_to_warps b" "br_warp_active (barrier_release ws b) = br_warp_active b"
  "br_max_cta_per_core (barrier_release ws b) = br_max_cta_per_core b"
  by (simp_all add: barrier_release_def Let_def)

lemma waiting_release:
  "waiting (barrier_release ws b) = (if wset ws \<inter> running b \<subseteq> waiting b \<and> wset ws \<inter> waiting b \<subseteq> running b then waiting b - wset ws else waiting b)"
proof -
  have "ws AND br_warp_at_barrier b = ws AND br_warp_active b \<longleftrightarrow> wset ws \<inter> running b \<subseteq> waiting b \<and> wset ws \<inter> waiting b \<subseteq> running b"
    by (auto simp: wset_eq_iff)
  then show ?thesis by (auto simp: barrier_release_def Let_def dest: wset_less)
qed

subsection \<open>Runs\<close>

datatype barrier_event = Launch nat "48 word" | Arrive nat nat | Exit nat | Finish nat

fun barrier_step :: "barrier_event \<Rightarrow> barrier_set_t \<Rightarrow> barrier_set_t option" where
  "barrier_step (Launch c ws) b = allocate_barrier c ws b"
| "barrier_step (Arrive c w) b = warp_reaches_barrier c w b"
| "barrier_step (Exit w) b = barrier_warp_exit w b"
| "barrier_step (Finish c) b = deallocate_barrier c b"

text \<open>What the shader core does: it launches a block on free warps, only warps that run and do not wait reach a barrier or exit,
  and a block ends when its warps have exited.\<close>

fun event_ok :: "barrier_set_t \<Rightarrow> barrier_event \<Rightarrow> bool" where
  "event_ok b (Launch c ws) =
     (c < br_max_cta_per_core b \<and> cta_warps b c = None \<and> (\<forall>(c', ws') \<in> set (br_cta_to_warps b). wset ws \<inter> wset ws' = {}))"
| "event_ok b (Arrive c w) = (\<exists>ws. cta_warps b c = Some ws \<and> w \<in> wset ws \<and> w \<in> running b - waiting b)"
| "event_ok b (Exit w) = (w \<in> running b - waiting b)"
| "event_ok b (Finish c) = (\<exists>ws. cta_warps b c = Some ws \<and> wset ws \<inter> running b = {})"

inductive barrier_reach :: "nat \<Rightarrow> nat \<Rightarrow> barrier_set_t \<Rightarrow> bool" for max_warps max_cta where
  start: "barrier_new max_warps max_cta = Some b \<Longrightarrow> barrier_reach max_warps max_cta b"
| event: "\<lbrakk>barrier_reach max_warps max_cta b; event_ok b e; barrier_step e b = Some b'\<rbrakk> \<Longrightarrow> barrier_reach max_warps max_cta b'"

text \<open>The invariant.  Its last part is that a block with waiting warps has a running warp that does not wait.\<close>

definition barrier_inv :: "barrier_set_t \<Rightarrow> bool" where
  "barrier_inv b \<longleftrightarrow> sorted_wrt (<) (map fst (br_cta_to_warps b)) \<and> (\<forall>(c, ws) \<in> set (br_cta_to_warps b). c < br_max_cta_per_core b)
     \<and> (\<forall>c ws c' ws'. cta_warps b c = Some ws \<and> cta_warps b c' = Some ws' \<and> c \<noteq> c' \<longrightarrow> wset ws \<inter> wset ws' = {})
     \<and> waiting b \<subseteq> running b \<and> (\<forall>w \<in> running b. \<exists>c ws. cta_warps b c = Some ws \<and> w \<in> wset ws)
     \<and> (\<forall>c ws. cta_warps b c = Some ws \<and> wset ws \<inter> waiting b \<noteq> {} \<longrightarrow> (\<exists>w \<in> wset ws \<inter> running b. w \<notin> waiting b))"


lemma barrier_invD:
  assumes "barrier_inv b"
  shows "sorted_wrt (<) (map fst (br_cta_to_warps b))" "distinct (map fst (br_cta_to_warps b))"
    "cta_warps b c = Some ws \<Longrightarrow> c < br_max_cta_per_core b"
    "\<lbrakk>cta_warps b c = Some ws; cta_warps b c' = Some ws'; c \<noteq> c'\<rbrakk> \<Longrightarrow> wset ws \<inter> wset ws' = {}"
    "waiting b \<subseteq> running b" "w \<in> running b \<Longrightarrow> \<exists>c ws. cta_warps b c = Some ws \<and> w \<in> wset ws"
    "\<lbrakk>cta_warps b c = Some ws; wset ws \<inter> waiting b \<noteq> {}\<rbrakk> \<Longrightarrow> \<exists>w \<in> wset ws \<inter> running b. w \<notin> waiting b"
  using assms strict_sorted_iff [of "map fst (br_cta_to_warps b)"] by (auto simp: barrier_inv_def dest: map_of_SomeD)

text \<open>Arrival and exit change only the warp sets: \<open>A\<close> waits and \<open>R\<close> runs before the test of the release.\<close>

lemma release_inv:
  assumes "barrier_inv b" "cta_warps b c = Some ws" "br_cta_to_warps b' = br_cta_to_warps b" "br_max_cta_per_core b' = br_max_cta_per_core b"
    "waiting b' \<subseteq> running b'" "running b' \<subseteq> running b" "waiting b' - wset ws = waiting b - wset ws" "running b' - wset ws = running b - wset ws"
  shows "barrier_inv (barrier_release ws b')"
proof -
  note D = barrier_invD [OF assms(1)]
  let ?b = "barrier_release ws b'"
  have w: "waiting ?b = (if wset ws \<inter> running b' \<subseteq> waiting b' then waiting b' - wset ws else waiting b')"
    using waiting_release [of ws b'] assms(5) by auto
  have "\<exists>w \<in> wset vs \<inter> running b'. w \<notin> waiting ?b" if v: "cta_warps b d = Some vs" "wset vs \<inter> waiting ?b \<noteq> {}" for d vs
  proof (cases "d = c")
    case True
    with v assms(2) have "vs = ws" by simp
    with v(2) w show ?thesis by (auto split: if_splits)
  next
    case False
    then have dis: "wset vs \<inter> wset ws = {}" using D(4) [OF v(1) assms(2)] by simp
    have same: "wset vs \<inter> waiting ?b = wset vs \<inter> waiting b" "wset vs \<inter> running b' = wset vs \<inter> running b"
      using w assms(7,8) dis by auto
    then have "wset vs \<inter> waiting b \<noteq> {}" using v(2) by simp
    from D(7) [OF v(1) this] obtain u where u: "u \<in> wset vs \<inter> running b" "u \<notin> waiting b" by blast
    then have "u \<in> wset vs \<inter> running b'" "u \<notin> waiting ?b" using same by blast+
    then show ?thesis by blast
  qed
  moreover have "waiting ?b \<subseteq> running b'" using w assms(5) by auto
  moreover have "\<forall>w \<in> running b'. \<exists>c ws. cta_warps b c = Some ws \<and> w \<in> wset ws" using D(6) assms(6) by blast
  moreover have "\<forall>(c, ws) \<in> set (br_cta_to_warps b). c < br_max_cta_per_core b" using assms(1) by (simp add: barrier_inv_def)
  ultimately show ?thesis using D(1) D(4) unfolding barrier_inv_def barrier_release_simps assms(3,4) by blast
qed

lemma cta_of_warp_eq:
  assumes "\<forall>(d, vs) \<in> set m. w \<in> wset vs \<longrightarrow> vs = ws" "(c, ws) \<in> set m" "w \<in> wset ws"
  shows "cta_of_warp w m = Some ws"
  using assms wset_less [OF assms(3)] by (induction m) (auto simp: mask_test_wset)

lemma arrive_ok:
  assumes "barrier_inv b" "event_ok b (Arrive c w)"
  shows "\<exists>b' ws. warp_reaches_barrier c w b = Some b' \<and> barrier_inv b' \<and> cta_warps b c = Some ws \<and> running b' = running b
    \<and> waiting b' = (if wset ws \<inter> running b \<subseteq> insert w (waiting b) then waiting b - wset ws else insert w (waiting b))"
proof -
  from assms(2) obtain ws where w: "cta_warps b c = Some ws" "w \<in> wset ws" "w \<in> running b" "w \<notin> waiting b" by auto
  let ?b = "b\<lparr>br_warp_at_barrier := set_bit w (br_warp_at_barrier b)\<rparr>"
  have lt: "w < 48" using wset_less [OF w(2)] .
  have "warp_reaches_barrier c w b = Some (barrier_release ws ?b)"
    using w lt by (simp add: warp_reaches_barrier_def mask_test_wset mask_set_def)
  moreover have "barrier_inv (barrier_release ws ?b)"
    by (rule release_inv [OF assms(1) w(1)]) (use w lt barrier_invD(5) [OF assms(1)] in auto)
  moreover have "waiting (barrier_release ws ?b) = (if wset ws \<inter> running b \<subseteq> insert w (waiting b) then waiting b - wset ws else insert w (waiting b))"
    using waiting_release [of ws ?b] lt w barrier_invD(5) [OF assms(1)] by auto
  ultimately show ?thesis using w(1) by auto
qed

lemma exit_ok:
  assumes "barrier_inv b" "event_ok b (Exit w)" "cta_warps b c = Some ws" "w \<in> wset ws"
  shows "\<exists>b'. barrier_warp_exit w b = Some b' \<and> barrier_inv b' \<and> running b' = running b - {w}
    \<and> waiting b' = (if wset ws \<inter> running b - {w} \<subseteq> waiting b then waiting b - wset ws else waiting b)"
proof -
  let ?b = "b\<lparr>br_warp_active := unset_bit w (br_warp_active b)\<rparr>"
  note D = barrier_invD [OF assms(1)]
  have w: "w \<in> running b" "w \<notin> waiting b" "w < 48" using assms(2) wset_less [OF assms(4)] by auto
  have "\<forall>(d, vs) \<in> set (br_cta_to_warps b). w \<in> wset vs \<longrightarrow> vs = ws"
  proof safe
    fix d vs assume "(d, vs) \<in> set (br_cta_to_warps b)" "w \<in> wset vs"
    then show "vs = ws" using D(2) D(4) [of d vs c ws] assms(3,4) by (cases "d = c") auto
  qed
  from cta_of_warp_eq [OF this map_of_SomeD [OF assms(3)] assms(4)]
  have "barrier_warp_exit w b = Some (barrier_release ws ?b)" using w by (simp add: barrier_warp_exit_def)
  moreover have "barrier_inv (barrier_release ws ?b)"
    by (rule release_inv [OF assms(1,3)]) (use w assms(4) D(5) in auto)
  moreover have "waiting (barrier_release ws ?b) = (if wset ws \<inter> running b - {w} \<subseteq> waiting b then waiting b - wset ws else waiting b)"
    using waiting_release [of ws ?b] w D(5) by auto
  ultimately show ?thesis by auto
qed

lemma launch_ok:
  assumes "barrier_inv b" "event_ok b (Launch c ws)"
  shows "\<exists>b'. allocate_barrier c ws b = Some b' \<and> barrier_inv b' \<and> cta_warps b' = (cta_warps b)(c \<mapsto> ws)
    \<and> running b' = running b \<union> wset ws \<and> waiting b' = waiting b"
proof -
  note D = barrier_invD [OF assms(1)]
  have e: "c < br_max_cta_per_core b" "cta_warps b c = None" "\<forall>(c', ws') \<in> set (br_cta_to_warps b). wset ws \<inter> wset ws' = {}" using assms(2) by auto
  from at_key_Some [where f = "\<lambda>_. Some ws" and k = c and d = 0 and v = ws, OF D(1)] obtain m where
    m: "at_key 0 (\<lambda>_. Some ws) c (br_cta_to_warps b) = Some m" "sorted_wrt (<) (map fst m)" "map_of m = (cta_warps b)(c \<mapsto> ws)"
      "set (map fst m) = insert c (set (map fst (br_cta_to_warps b)))" by auto
  have lt: "set (map fst m) \<subseteq> {..<br_max_cta_per_core b}" using e(1) m(4) assms(1) by (auto simp: barrier_inv_def)
  have "length m = card (set (map fst m))" using m(2) strict_sorted_iff by (metis distinct_card length_map)
  also have "\<dots> \<le> br_max_cta_per_core b" using card_mono [OF _ lt] by simp
  finally have len: "length m \<le> br_max_cta_per_core b" .
  have apart: "wset ws \<inter> running b = {}"
  proof -
    have "w \<notin> wset ws" if "w \<in> running b" for w using D(6) [OF that] e(3) by (auto dest!: map_of_SomeD)
    then show ?thesis by blast
  qed
  let ?b = "b\<lparr>br_cta_to_warps := m, br_warp_active := br_warp_active b OR ws, br_warp_at_barrier := br_warp_at_barrier b AND NOT ws\<rparr>"
  have a: "allocate_barrier c ws b = Some ?b" using e m(1) len by (simp add: allocate_barrier_def)
  have w: "waiting ?b = waiting b" using apart D(5) by (auto dest: wset_less)
  have "barrier_inv ?b"
    unfolding barrier_inv_def
  proof (intro conjI)
    show "\<forall>(c, ws) \<in> set (br_cta_to_warps ?b). c < br_max_cta_per_core ?b" using lt by auto
    show "\<forall>c' us d vs. cta_warps ?b c' = Some us \<and> cta_warps ?b d = Some vs \<and> c' \<noteq> d \<longrightarrow> wset us \<inter> wset vs = {}"
    proof (intro allI impI, elim conjE)
      fix c' us d vs assume "cta_warps ?b c' = Some us" "cta_warps ?b d = Some vs" "c' \<noteq> d"
      then show "wset us \<inter> wset vs = {}" using m(3) e(3) D(4) by (auto split: if_splits dest!: map_of_SomeD)
    qed
    show "waiting ?b \<subseteq> running ?b" using w D(5) by auto
    show "\<forall>w \<in> running ?b. \<exists>c ws. cta_warps ?b c = Some ws \<and> w \<in> wset ws" using m(3) D(6) e(2) by (auto; metis fun_upd_same fun_upd_other option.distinct(1))
    show "\<forall>c' vs. cta_warps ?b c' = Some vs \<and> wset vs \<inter> waiting ?b \<noteq> {} \<longrightarrow> (\<exists>w \<in> wset vs \<inter> running ?b. w \<notin> waiting ?b)"
      unfolding w using m(3) D(5,7) apart by (auto split: if_splits) blast
  qed (use m(2) in simp)
  with a w m(3) show ?thesis by auto
qed

lemma finish_ok:
  assumes "barrier_inv b" "event_ok b (Finish c)"
  shows "\<exists>b'. deallocate_barrier c b = Some b' \<and> barrier_inv b' \<and> cta_warps b' = (cta_warps b)(c := None) \<and> running b' = running b \<and> waiting b' = waiting b"
proof -
  note D = barrier_invD [OF assms(1)]
  from assms(2) obtain ws where ws: "cta_warps b c = Some ws" "wset ws \<inter> running b = {}" by auto
  have em: "wset ws \<inter> waiting b = {}" using ws(2) D(5) by blast
  let ?b = "b\<lparr>br_warp_active := br_warp_active b AND NOT ws, br_warp_at_barrier := br_warp_at_barrier b AND NOT ws,
    br_cta_to_warps := filter (\<lambda>x. fst x \<noteq> c) (br_cta_to_warps b)\<rparr>"
  have a: "deallocate_barrier c b = Some ?b" using ws em by (simp add: deallocate_barrier_def wset_eq_iff)
  have same: "running ?b = running b" "waiting ?b = waiting b" using ws(2) em by (auto dest: wset_less)
  have mo: "map_of (filter (\<lambda>x. fst x \<noteq> c) m) = (map_of m)(c := None)" for m :: "(nat \<times> 48 word) list"
    by (induction m) (auto simp: fun_eq_iff)
  have "barrier_inv ?b"
    unfolding barrier_inv_def same
  proof (intro conjI)
    show "sorted_wrt (<) (map fst (br_cta_to_warps ?b))" using D(1) by (simp add: sorted_wrt_map sorted_wrt_filter)
    show "\<forall>w \<in> running b. \<exists>c ws. cta_warps ?b c = Some ws \<and> w \<in> wset ws"
    proof
      fix w assume w: "w \<in> running b"
      then obtain d vs where "cta_warps b d = Some vs" "w \<in> wset vs" using D(6) by blast
      moreover have "d \<noteq> c" using calculation w ws by auto
      ultimately show "\<exists>c ws. cta_warps ?b c = Some ws \<and> w \<in> wset ws" using mo by (intro exI [of _ d] exI [of _ vs]) simp
    qed
    show "\<forall>c' vs. cta_warps ?b c' = Some vs \<and> wset vs \<inter> waiting b \<noteq> {} \<longrightarrow> (\<exists>w \<in> wset vs \<inter> running b. w \<notin> waiting b)"
      using D(7) by (simp add: mo) blast
    show "\<forall>c' us d vs. cta_warps ?b c' = Some us \<and> cta_warps ?b d = Some vs \<and> c' \<noteq> d \<longrightarrow> wset us \<inter> wset vs = {}"
      using D(4) by (simp add: mo) blast
  qed (use assms(1) D(5) in \<open>auto simp: barrier_inv_def\<close>)
  with a same mo show ?thesis by auto
qed

lemma event_inv:
  assumes "barrier_inv b" "event_ok b e"
  shows "\<exists>b'. barrier_step e b = Some b' \<and> barrier_inv b'"
proof (cases e)
  case (Launch c ws) with assms launch_ok show ?thesis by fastforce
next
  case (Arrive c w) with assms arrive_ok show ?thesis by fastforce
next
  case (Exit w)
  with assms(2) have "w \<in> running b" by simp
  then obtain c ws where "cta_warps b c = Some ws" "w \<in> wset ws" using barrier_invD(6) [OF assms(1)] by blast
  with Exit assms exit_ok show ?thesis by fastforce
next
  case (Finish c) with assms finish_ok show ?thesis by fastforce
qed

lemma barrier_reach_inv: "barrier_reach max_warps max_cta b \<Longrightarrow> barrier_inv b"
proof (induction rule: barrier_reach.induct)
  case (start b)
  then show ?case by (auto simp: barrier_new_def barrier_inv_def split: if_splits)
next
  case (event b e b')
  then show ?case using event_inv by fastforce
qed

text \<open>C8. In every state that launches, arrivals, exits and ends of blocks can reach, none of these events fails a check of the barrier
  set, only running warps wait, and a block that still has a running warp has one that does not wait: barriers never block a block
  for ever.\<close>

theorem barriers_never_block:
  assumes "barrier_reach max_warps max_cta b"
  shows "(\<forall>e. event_ok b e \<longrightarrow> (\<exists>b'. barrier_step e b = Some b' \<and> barrier_reach max_warps max_cta b'))
    \<and> waiting b \<subseteq> running b
    \<and> (\<forall>c ws. cta_warps b c = Some ws \<and> wset ws \<inter> running b \<noteq> {} \<longrightarrow> (\<exists>w \<in> wset ws \<inter> running b. w \<notin> waiting b))"
proof -
  note inv = barrier_reach_inv [OF assms]
  have "\<exists>w \<in> wset ws \<inter> running b. w \<notin> waiting b" if "cta_warps b c = Some ws" "wset ws \<inter> running b \<noteq> {}" for c ws
    using barrier_invD(7) [OF inv that(1)] that(2) by (cases "wset ws \<inter> waiting b = {}") blast+
  moreover have "\<exists>b'. barrier_step e b = Some b' \<and> barrier_reach max_warps max_cta b'" if "event_ok b e" for e
    using event_inv [OF inv that] barrier_reach.event [OF assms that] by blast
  ultimately show ?thesis using barrier_invD(5) [OF inv] by blast
qed

theorem barriers_never_block_witness:
  "\<exists>b. barrier_new 32 8 = Some b \<and> (\<exists>b'. barrier_step (Launch 3 0xF0) b = Some b')"
proof -
  obtain b where b: "barrier_new 32 8 = Some b" by (simp add: barrier_new_def)
  then have "event_ok b (Launch 3 0xF0)" by (auto simp: barrier_new_def)
  with barriers_never_block [OF barrier_reach.start [OF b]] b show ?thesis by blast
qed

subsection \<open>A round of arrivals\<close>

fun arrivals :: "nat \<Rightarrow> nat list \<Rightarrow> barrier_set_t \<Rightarrow> barrier_set_t option" where
  "arrivals c [] b = Some b"
| "arrivals c (w # ws) b = do { b \<leftarrow> warp_reaches_barrier c w b; arrivals c ws b }"

lemma arrivals_wait:
  "\<lbrakk>barrier_inv b; cta_warps b c = Some ws; distinct us; set us \<subset> wset ws \<inter> running b - waiting b\<rbrakk>
    \<Longrightarrow> \<exists>b'. arrivals c us b = Some b' \<and> barrier_inv b' \<and> waiting b' = waiting b \<union> set us \<and> running b' = running b \<and> cta_warps b' c = Some ws"
proof (induction us arbitrary: b)
  case (Cons u us)
  have "event_ok b (Arrive c u)" using Cons.prems by auto
  from arrive_ok [OF Cons.prems(1) this] Cons.prems(2) obtain b1 where
    b1: "warp_reaches_barrier c u b = Some b1" "barrier_inv b1" "running b1 = running b"
      "waiting b1 = (if wset ws \<inter> running b \<subseteq> insert u (waiting b) then waiting b - wset ws else insert u (waiting b))" by auto
  have cta: "cta_warps b1 c = Some ws"
    using b1(1) Cons.prems(2) by (auto simp: warp_reaches_barrier_def bind_eq_Some_conv split: if_splits)
  have "\<not> wset ws \<inter> running b \<subseteq> insert u (waiting b)" using Cons.prems(4) by auto
  then have w1: "waiting b1 = insert u (waiting b)" using b1(4) by simp
  have "set us \<subset> wset ws \<inter> running b1 - waiting b1" using Cons.prems(3,4) w1 b1(3) by auto
  from Cons.IH [OF b1(2) cta _ this] Cons.prems(3) obtain b' where
    "arrivals c us b1 = Some b'" "barrier_inv b'" "waiting b' = waiting b1 \<union> set us" "running b' = running b1" "cta_warps b' c = Some ws" by auto
  then show ?case using b1 w1 by simp
qed auto

lemma arrivals_append: "arrivals c (us @ vs) b = Option.bind (arrivals c us b) (arrivals c vs)"
proof (induction us arbitrary: b)
  case (Cons u us)
  then show ?case by (cases "warp_reaches_barrier c u b") simp_all
qed simp

text \<open>C28. When the running warps of a block that do not wait arrive at the barrier one after the other, in any order, each waits until the
  last has arrived, and with the last arrival all warps of the block are released together; warps of other blocks keep waiting.\<close>

theorem barrier_opens_with_last_arrival:
  assumes "barrier_reach max_warps max_cta b" "cta_warps b c = Some ws" "distinct (us @ [u])" "set (us @ [u]) = wset ws \<inter> running b - waiting b"
  shows "(\<exists>b1. arrivals c us b = Some b1 \<and> wset ws \<inter> waiting b1 = wset ws \<inter> running b - {u})
    \<and> (\<exists>b2. arrivals c (us @ [u]) b = Some b2 \<and> waiting b2 = waiting b - wset ws \<and> running b2 = running b)"
proof -
  note inv = barrier_reach_inv [OF assms(1)]
  have sub: "set us \<subset> wset ws \<inter> running b - waiting b" using assms(3,4) by auto
  from arrivals_wait [OF inv assms(2) _ sub] assms(3) obtain b1 where
    b1: "arrivals c us b = Some b1" "barrier_inv b1" "waiting b1 = waiting b \<union> set us" "running b1 = running b" "cta_warps b1 c = Some ws" by auto
  have w: "wset ws \<inter> waiting b1 = wset ws \<inter> running b - {u}"
    using b1(3) assms(3,4) barrier_invD(5) [OF inv] by auto
  have "event_ok b1 (Arrive c u)" using b1 assms(3,4) by auto
  from arrive_ok [OF b1(2) this] b1(5) obtain b2 where
    "warp_reaches_barrier c u b1 = Some b2" "running b2 = running b1"
    "waiting b2 = (if wset ws \<inter> running b1 \<subseteq> insert u (waiting b1) then waiting b1 - wset ws else insert u (waiting b1))" by auto
  moreover have "wset ws \<inter> running b1 \<subseteq> insert u (waiting b1)" using w b1(4) by auto
  moreover have "waiting b1 - wset ws = waiting b - wset ws" using b1(3) assms(4) by auto
  ultimately show ?thesis using b1(1,4) w by (simp add: arrivals_append)
qed

theorem barrier_opens_with_last_arrival_witness:
  "\<exists>b b2. barrier_reach 32 8 b \<and> arrivals 0 [1, 0] b = Some b2 \<and> waiting b2 = {}"
proof -
  obtain b0 where b0: "barrier_new 32 8 = Some b0" by (simp add: barrier_new_def)
  then have ok: "event_ok b0 (Launch 0 3)" by (auto simp: barrier_new_def)
  have inv0: "barrier_inv b0" using barrier_reach_inv [OF barrier_reach.start [OF b0]] .
  have b0w: "waiting b0 = {}" "running b0 = {}" using b0 by (auto simp: barrier_new_def)
  from launch_ok [OF inv0 ok] obtain b where
    b: "allocate_barrier 0 3 b0 = Some b" "cta_warps b 0 = Some 3" "running b = wset 3" "waiting b = {}" using b0w by auto
  have r: "barrier_reach 32 8 b" using barrier_reach.event [OF barrier_reach.start [OF b0] ok] b(1) by simp
  have "(3 :: 48 word) = mask 2" by (simp add: mask_eq_exp_minus_1)
  then have "bit (3 :: 48 word) i \<longleftrightarrow> i < 2" for i by (simp only: bit_mask_iff) auto
  then have "wset 3 = {i. i < 2}" by (simp only: wset_def)
  moreover have "{i :: nat. i < 2} = {0, 1}" by auto
  ultimately have "wset 3 = {0, 1}" by (simp only:)
  then have "set ([1] @ [0]) = wset 3 \<inter> running b - waiting b" using b(3,4) by auto
  from barrier_opens_with_last_arrival [OF r b(2) _ this] r b(4) show ?thesis by auto
qed

end
