(* ===== verification/Operand_Model.thy ===== *)
theory Operand_Model
  imports Coalesce_Model
begin

text \<open>
  The operand collector of a shader core, \<^verbatim>\<open>opndcoll_rfu_t\<close> of \<^verbatim>\<open>gpgpu-sim/shader.*\<close>: collector units hold
  instructions until their source registers have been read, an arbiter with a wavefront allocator grants the register banks, and
  dispatch units send complete instructions on.  Collector units and pipeline registers are named by their positions.

  Main results: the arbiter grants a maximal matching of banks and collectors that respects writes, and the request at the head of a
  bank's queue is granted within as many rounds as there are diagonals.
\<close>

unbundle bit_operations_syntax

subsection \<open>Operands and allocations\<close>

record op_t =
  op_valid :: bool
  op_cu :: "nat option"
  op_warp :: "nat option"
  op_operand :: nat
  op_register :: nat
  op_bank :: nat

definition register_bank :: "nat \<Rightarrow> nat \<Rightarrow> nat \<Rightarrow> nat \<Rightarrow> nat option" where
  "register_bank regnum wid num_banks bank_warp_shift = do {
     assert_that (num_banks \<noteq> 0);
     Some ((if bank_warp_shift \<noteq> 0 then regnum + wid else regnum) mod num_banks)
   }"

definition op_none :: op_t where
  "op_none = \<lparr>op_valid = False, op_cu = None, op_warp = None, op_operand = 0, op_register = 0, op_bank = 0\<rparr>"

definition op_read :: "nat \<Rightarrow> nat \<Rightarrow> nat \<Rightarrow> nat \<Rightarrow> nat \<Rightarrow> nat \<Rightarrow> op_t option" where
  "op_read cu cu_wid op reg num_banks shift = do {
     b \<leftarrow> register_bank reg cu_wid num_banks shift;
     Some \<lparr>op_valid = True, op_cu = Some cu, op_warp = None, op_operand = op, op_register = reg, op_bank = b\<rparr>
   }"

definition op_write :: "nat \<Rightarrow> nat \<Rightarrow> nat \<Rightarrow> nat \<Rightarrow> op_t option" where
  "op_write wid reg num_banks shift = do {
     b \<leftarrow> register_bank reg wid num_banks shift;
     Some \<lparr>op_valid = True, op_cu = None, op_warp = Some wid, op_operand = 0xFFFFFFFF, op_register = reg, op_bank = b\<rparr>
   }"

datatype allocation_t = NO_ALLOC | READ_ALLOC op_t | WRITE_ALLOC op_t

fun is_write :: "allocation_t \<Rightarrow> bool" where
  "is_write (WRITE_ALLOC _) = True"
| "is_write _ = False"

subsection \<open>Arbiter\<close>

record arbiter_t =
  ab_num_banks :: nat
  ab_num_collectors :: nat
  ab_allocated_bank :: "allocation_t list"
  ab_queue :: "op_t list list"
  ab_last_cu :: nat

definition arbiter_init :: "nat \<Rightarrow> nat \<Rightarrow> arbiter_t option" where
  "arbiter_init num_cu num_banks = do {
     assert_that (num_cu > 0);
     assert_that (num_banks > 0);
     Some \<lparr>ab_num_banks = num_banks, ab_num_collectors = num_cu, ab_allocated_bank = replicate num_banks NO_ALLOC,
           ab_queue = replicate num_banks [], ab_last_cu = 0\<rparr>
   }"

definition push_request :: "op_t \<Rightarrow> arbiter_t \<Rightarrow> arbiter_t option" where
  "push_request op a = do {
     q \<leftarrow> vec_at (ab_queue a) (op_bank op);
     Some (a\<lparr>ab_queue := (ab_queue a)[op_bank op := q @ [op]]\<rparr>)
   }"

definition add_read_requests :: "op_t list \<Rightarrow> arbiter_t \<Rightarrow> arbiter_t option" where
  "add_read_requests src a = loop_over (\<lambda>op a. if op_valid op then push_request op a else Some a) src a"

definition bank_idle :: "arbiter_t \<Rightarrow> nat \<Rightarrow> bool option" where
  "bank_idle a bank = do { x \<leftarrow> vec_at (ab_allocated_bank a) bank; Some (x = NO_ALLOC) }"

definition allocate_bank_for_write :: "nat \<Rightarrow> op_t \<Rightarrow> arbiter_t \<Rightarrow> arbiter_t option" where
  "allocate_bank_for_write bank op a = do {
     assert_that (bank < ab_num_banks a);
     x \<leftarrow> vec_at (ab_allocated_bank a) bank;
     assert_that (x = NO_ALLOC);
     Some (a\<lparr>ab_allocated_bank := (ab_allocated_bank a)[bank := WRITE_ALLOC op]\<rparr>)
   }"

definition allocate_for_read :: "nat \<Rightarrow> op_t \<Rightarrow> arbiter_t \<Rightarrow> arbiter_t option" where
  "allocate_for_read bank op a = do {
     assert_that (bank < ab_num_banks a);
     x \<leftarrow> vec_at (ab_allocated_bank a) bank;
     assert_that (x = NO_ALLOC);
     Some (a\<lparr>ab_allocated_bank := (ab_allocated_bank a)[bank := READ_ALLOC op]\<rparr>)
   }"

definition reset_alloction :: "arbiter_t \<Rightarrow> arbiter_t" where
  "reset_alloction a = a\<lparr>ab_allocated_bank := map (\<lambda>_. NO_ALLOC) (ab_allocated_bank a)\<rparr>"

text \<open>The row of the request matrix of a bank: a one for the collector unit of the first queued operand.\<close>

definition request_row :: "nat \<Rightarrow> op_t list \<Rightarrow> bool list option" where
  "request_row outputs q =
     (case q of
        [] \<Rightarrow> Some (replicate outputs False)
      | op # _ \<Rightarrow> do { oc \<leftarrow> op_cu op; assert_that (oc < outputs); Some ((replicate outputs False)[oc := True]) })"

fun request_matrix :: "nat \<Rightarrow> op_t list list \<Rightarrow> bool list list option" where
  "request_matrix outputs [] = Some []"
| "request_matrix outputs (q # qs) = do { r \<leftarrow> request_row outputs q; m \<leftarrow> request_matrix outputs qs; Some (r # m) }"

text \<open>One diagonal: \<open>n\<close> inputs from \<open>input\<close> on, each with the next output.  A match of \<open>- 1\<close> is none.\<close>

fun wave_diagonal :: "bool list list \<Rightarrow> nat \<Rightarrow> nat \<Rightarrow> nat \<Rightarrow> nat \<Rightarrow> nat \<Rightarrow> int list \<times> int list \<Rightarrow> (int list \<times> int list) option" where
  "wave_diagonal req outputs square 0 input out m = Some m"
| "wave_diagonal req outputs square (Suc n) input out (inm, outm) = do {
     assert_that (out < outputs);
     wave_diagonal req outputs square n (Suc input) (Suc out mod square)
       (if inm ! input = - 1 \<and> outm ! out = - 1 \<and> req ! input ! out then (inm[input := int out], outm[out := int input]) else (inm, outm))
   }"

fun wave_loop :: "bool list list \<Rightarrow> nat \<Rightarrow> nat \<Rightarrow> nat \<Rightarrow> nat \<Rightarrow> nat \<Rightarrow> nat \<Rightarrow> int list \<times> int list \<Rightarrow> (int list \<times> int list) option" where
  "wave_loop req inputs outputs square pri p 0 m = Some m"
| "wave_loop req inputs outputs square pri p (Suc n) m = do {
     m \<leftarrow> wave_diagonal req outputs square inputs 0 ((pri + p) mod square) m;
     wave_loop req inputs outputs square pri (Suc p) n m
   }"

text \<open>Taking the granted operands off their queues.\<close>

fun take_granted :: "int list \<Rightarrow> allocation_t list \<Rightarrow> op_t list list \<Rightarrow> (op_t list \<times> op_t list list) option" where
  "take_granted (x # inm) (al # als) (q # qs) = do {
     (result, qs') \<leftarrow> take_granted inm als qs;
     (if x \<noteq> - 1 \<and> \<not> is_write al then (case q of [] \<Rightarrow> None | op # q' \<Rightarrow> Some (op # result, q' # qs')) else Some (result, q # qs'))
   }"
| "take_granted inm als qs = Some ([], qs)"

definition write_match :: "allocation_t list \<Rightarrow> int list" where
  "write_match als = map (\<lambda>al. if is_write al then 0 else - 1) als"

definition arbiter_allocate_reads :: "arbiter_t \<Rightarrow> (op_t list \<times> arbiter_t) option" where
  "arbiter_allocate_reads a = do {
     let inputs = ab_num_banks a;
     let outputs = ab_num_collectors a;
     let square = max inputs outputs;
     assert_that (square > 0);
     req \<leftarrow> request_matrix outputs (ab_queue a);
     (inm, outm) \<leftarrow> wave_loop req inputs outputs square (ab_last_cu a) 0 square (write_match (ab_allocated_bank a), replicate outputs (- 1));
     (result, qs) \<leftarrow> take_granted inm (ab_allocated_bank a) (ab_queue a);
     Some (result, a\<lparr>ab_queue := qs, ab_last_cu := (ab_last_cu a + 1) mod square\<rparr>)
   }"

subsection \<open>Collector units\<close>

record rf_inst =
  rf_warp_id :: nat
  rf_src :: "int list"
  rf_regs_written :: "nat list"

record collector_unit_t =
  cu_free :: bool
  cu_cuid :: nat
  cu_warp_id :: nat
  cu_warp :: "rf_inst reg_inst option"
  cu_output_register :: "nat option"
  cu_src_op :: "op_t list"
  cu_not_ready :: "16 word"
  cu_num_banks :: nat
  cu_bank_warp_shift :: nat

text \<open>The constructor, and the initialisation with the position of the unit.\<close>

definition collector_new :: collector_unit_t where
  "collector_new =
     \<lparr>cu_free = True, cu_cuid = 0, cu_warp_id = 0xFFFFFFFF, cu_warp = None, cu_output_register = None, cu_src_op = replicate 16 op_none,
      cu_not_ready = 0, cu_num_banks = 0, cu_bank_warp_shift = 0\<rparr>"

definition collector_init :: "nat \<Rightarrow> nat \<Rightarrow> nat \<Rightarrow> collector_unit_t \<Rightarrow> collector_unit_t" where
  "collector_init n num_banks log2_warp_size cu = cu\<lparr>cu_cuid := n, cu_num_banks := num_banks, cu_bank_warp_shift := log2_warp_size\<rparr>"

definition cu_ready :: "rf_inst register_set list \<Rightarrow> collector_unit_t \<Rightarrow> bool option" where
  "cu_ready regs cu =
     (if \<not> cu_free cu \<and> cu_not_ready cu = 0
      then do { out \<leftarrow> cu_output_register cu; rs \<leftarrow> vec_at regs out; Some (has_free rs) } else Some False)"

text \<open>The source operands of an instruction: the registers with a number that is not negative.\<close>

fun load_operands :: "collector_unit_t \<Rightarrow> nat \<Rightarrow> int list \<Rightarrow> collector_unit_t option" where
  "load_operands cu op [] = Some cu"
| "load_operands cu op (r # rs) =
     (if r \<ge> 0
      then do {
        x \<leftarrow> op_read (cu_cuid cu) (cu_warp_id cu) op (nat r) (cu_num_banks cu) (cu_bank_warp_shift cu);
        m \<leftarrow> mask_set op (cu_not_ready cu);
        load_operands (cu\<lparr>cu_src_op := (cu_src_op cu)[op := x], cu_not_ready := m\<rparr>) (Suc op) rs
      }
      else load_operands (cu\<lparr>cu_src_op := (cu_src_op cu)[op := op_none]\<rparr>) (Suc op) rs)"

definition cu_allocate ::
  "nat \<Rightarrow> nat \<Rightarrow> rf_inst register_set list \<Rightarrow> collector_unit_t \<Rightarrow> (bool \<times> rf_inst register_set list \<times> collector_unit_t) option" where
  "cu_allocate inp out regs cu = do {
     assert_that (cu_free cu);
     assert_that (cu_not_ready cu = 0);
     let cu = cu\<lparr>cu_free := False, cu_output_register := Some out\<rparr>;
     rs \<leftarrow> vec_at regs inp;
     (case get_ready_loop rs 0 None of
        None \<Rightarrow> Some (False, regs, cu)
      | Some (i, w) \<Rightarrow> do {
          cu \<leftarrow> load_operands (cu\<lparr>cu_warp_id := rf_warp_id (ri_inst w)\<rparr>) 0 (take 8 (rf_src (ri_inst w)));
          (w, rs) \<leftarrow> move_out_to rs (cu_warp cu);
          Some (True, regs[inp := rs], cu\<lparr>cu_warp := Some w\<rparr>)
        })
   }"

definition collect_operand :: "nat \<Rightarrow> collector_unit_t \<Rightarrow> collector_unit_t option" where
  "collect_operand op cu = do { assert_that (op < 16); Some (cu\<lparr>cu_not_ready := unset_bit op (cu_not_ready cu)\<rparr>) }"

definition cu_dispatch :: "rf_inst register_set list \<Rightarrow> collector_unit_t \<Rightarrow> (rf_inst register_set list \<times> collector_unit_t) option" where
  "cu_dispatch regs cu = do {
     assert_that (cu_not_ready cu = 0);
     out \<leftarrow> cu_output_register cu;
     rs \<leftarrow> vec_at regs out;
     w \<leftarrow> cu_warp cu;
     rs \<leftarrow> move_in rs w;
     Some (regs[out := rs], cu\<lparr>cu_warp := None, cu_free := True, cu_output_register := None,
           cu_src_op := map (\<lambda>op. op\<lparr>op_valid := False\<rparr>) (cu_src_op cu)\<rparr>)
   }"

subsection \<open>The collector\<close>

record dispatch_unit_t =
  du_set :: nat
  du_last_cu :: nat

record input_port_t =
  ip_in :: "nat list"
  ip_out :: "nat list"
  ip_cu_sets :: "nat list"

record opndcoll_rfu_t =
  rfu_num_banks :: nat
  rfu_bank_warp_shift :: nat
  rfu_cu :: "collector_unit_t list"
  rfu_cus :: "(nat \<times> nat list) list"
  rfu_dispatch_units :: "dispatch_unit_t list"
  rfu_in_ports :: "input_port_t list"
  rfu_arbiter :: arbiter_t
  rfu_regs :: "rf_inst register_set list"

text \<open>
  Construction.  The pipeline registers belong to the shader core.  Adding units to a set that exists could move its array and leave the
  pointers to its units dangling, which is an error here.
\<close>

definition rfu_new :: "rf_inst register_set list \<Rightarrow> opndcoll_rfu_t" where
  "rfu_new regs = \<lparr>rfu_num_banks = 0, rfu_bank_warp_shift = 0, rfu_cu = [], rfu_cus = [], rfu_dispatch_units = [], rfu_in_ports = [],
     rfu_arbiter = \<lparr>ab_num_banks = 0, ab_num_collectors = 0, ab_allocated_bank = [], ab_queue = [], ab_last_cu = 0\<rparr>, rfu_regs = regs\<rparr>"

definition add_cu_set :: "nat \<Rightarrow> nat \<Rightarrow> nat \<Rightarrow> opndcoll_rfu_t \<Rightarrow> opndcoll_rfu_t option" where
  "add_cu_set set_id num_cu num_dispatch r = do {
     assert_that (set_id \<notin> fst ` set (rfu_cus r));
     let n = length (rfu_cu r);
     Some (r\<lparr>rfu_cus := rfu_cus r @ [(set_id, [n..<n + num_cu])], rfu_cu := rfu_cu r @ replicate num_cu collector_new,
             rfu_dispatch_units := rfu_dispatch_units r @ replicate num_dispatch \<lparr>du_set = set_id, du_last_cu = 0\<rparr>\<rparr>)
   }"

definition add_port :: "nat list \<Rightarrow> nat list \<Rightarrow> nat list \<Rightarrow> opndcoll_rfu_t \<Rightarrow> opndcoll_rfu_t option" where
  "add_port ins outs cu_sets r = do {
     assert_that (length ins = length outs);
     assert_that (cu_sets \<noteq> []);
     Some (r\<lparr>rfu_in_ports := rfu_in_ports r @ [\<lparr>ip_in = ins, ip_out = outs, ip_cu_sets = cu_sets\<rparr>]\<rparr>)
   }"

text \<open>\<open>flog\<close> is the logarithm to the base two that the code takes from the floating-point library, rounded down.\<close>

definition rfu_init :: "(nat \<Rightarrow> nat) \<Rightarrow> nat \<Rightarrow> nat \<Rightarrow> opndcoll_rfu_t \<Rightarrow> opndcoll_rfu_t option" where
  "rfu_init flog num_banks warp_size r = do {
     a \<leftarrow> arbiter_init (length (rfu_cu r)) num_banks;
     let shift = flog warp_size;
     assert_that (shift = 5 \<or> warp_size \<noteq> 32);
     Some (r\<lparr>rfu_arbiter := a, rfu_num_banks := num_banks, rfu_bank_warp_shift := shift,
             rfu_cu := map (\<lambda>(n, cu). collector_init n num_banks shift cu) (enumerate 0 (rfu_cu r))\<rparr>)
   }"

text \<open>\<open>n\<close> collector units of the set are still to be looked at, from the one after the last that was dispatched.\<close>

fun find_ready :: "opndcoll_rfu_t \<Rightarrow> nat list \<Rightarrow> nat \<Rightarrow> nat \<Rightarrow> nat \<Rightarrow> (nat \<times> nat) option option" where
  "find_ready r cus prev k 0 = Some None"
| "find_ready r cus prev k (Suc n) = do {
     let c = (prev + k + 1) mod length cus;
     uid \<leftarrow> vec_at cus c;
     cu \<leftarrow> vec_at (rfu_cu r) uid;
     b \<leftarrow> cu_ready (rfu_regs r) cu;
     (if b then Some (Some (c, uid)) else find_ready r cus prev (Suc k) n)
   }"

definition dispatch_unit :: "nat \<Rightarrow> opndcoll_rfu_t \<Rightarrow> opndcoll_rfu_t option" where
  "dispatch_unit p r = do {
     du \<leftarrow> vec_at (rfu_dispatch_units r) p;
     cus \<leftarrow> map_of (rfu_cus r) (du_set du);
     found \<leftarrow> find_ready r cus (du_last_cu du) 0 (length cus);
     (case found of
        None \<Rightarrow> Some r
      | Some (c, uid) \<Rightarrow> do {
          cu \<leftarrow> vec_at (rfu_cu r) uid;
          (regs, cu) \<leftarrow> cu_dispatch (rfu_regs r) cu;
          Some (r\<lparr>rfu_dispatch_units := (rfu_dispatch_units r)[p := du\<lparr>du_last_cu := c\<rparr>], rfu_regs := regs, rfu_cu := (rfu_cu r)[uid := cu]\<rparr>)
        })
   }"

definition dispatch_ready_cu :: "opndcoll_rfu_t \<Rightarrow> opndcoll_rfu_t option" where
  "dispatch_ready_cu r = loop_over dispatch_unit [0..<length (rfu_dispatch_units r)] r"

text \<open>The first free unit of the sets of the port takes the instruction.\<close>

fun find_free :: "opndcoll_rfu_t \<Rightarrow> nat list \<Rightarrow> nat option option" where
  "find_free r [] = Some None"
| "find_free r (uid # uids) = do { cu \<leftarrow> vec_at (rfu_cu r) uid; (if cu_free cu then Some (Some uid) else find_free r uids) }"

fun allocate_in_sets :: "nat \<Rightarrow> nat \<Rightarrow> nat list \<Rightarrow> opndcoll_rfu_t \<Rightarrow> opndcoll_rfu_t option" where
  "allocate_in_sets inp out [] r = Some r"
| "allocate_in_sets inp out (s # sets) r = do {
     cus \<leftarrow> map_of (rfu_cus r) s;
     free \<leftarrow> find_free r cus;
     (case free of
        None \<Rightarrow> allocate_in_sets inp out sets r
      | Some uid \<Rightarrow> do {
          cu \<leftarrow> vec_at (rfu_cu r) uid;
          (allocated, regs, cu) \<leftarrow> cu_allocate inp out (rfu_regs r) cu;
          a \<leftarrow> add_read_requests (cu_src_op cu) (rfu_arbiter r);
          let r = r\<lparr>rfu_cu := (rfu_cu r)[uid := cu], rfu_regs := regs, rfu_arbiter := a\<rparr>;
          (if allocated then Some r else allocate_in_sets inp out sets r)
        })
   }"

fun allocate_inputs :: "nat list \<Rightarrow> nat list \<Rightarrow> nat list \<Rightarrow> opndcoll_rfu_t \<Rightarrow> opndcoll_rfu_t option" where
  "allocate_inputs (i # ins) (out # outs) sets r = do {
     rs \<leftarrow> vec_at (rfu_regs r) i;
     (if has_ready rs then allocate_in_sets i out sets r else allocate_inputs ins outs sets r)
   }"
| "allocate_inputs ins outs sets r = Some r"

definition allocate_cu :: "nat \<Rightarrow> opndcoll_rfu_t \<Rightarrow> opndcoll_rfu_t option" where
  "allocate_cu port_num r = do {
     inp \<leftarrow> vec_at (rfu_in_ports r) port_num;
     allocate_inputs (ip_in inp) (ip_out inp) (ip_cu_sets inp) r
   }"

text \<open>The warp of an operand: that of its instruction, or that of its collector unit.\<close>

definition op_wid :: "opndcoll_rfu_t \<Rightarrow> op_t \<Rightarrow> nat option" where
  "op_wid r op = (case op_warp op of Some w \<Rightarrow> Some w | None \<Rightarrow> do { c \<leftarrow> op_cu op; cu \<leftarrow> vec_at (rfu_cu r) c; Some (cu_warp_id cu) })"

definition grant_read :: "op_t \<Rightarrow> opndcoll_rfu_t \<times> (nat \<times> op_t) list \<Rightarrow> (opndcoll_rfu_t \<times> (nat \<times> op_t) list) option" where
  "grant_read rr = (\<lambda>(r, read_ops). do {
     assert_that (op_valid rr);
     wid \<leftarrow> op_wid r rr;
     bank \<leftarrow> register_bank (op_register rr) wid (rfu_num_banks r) (rfu_bank_warp_shift r);
     a \<leftarrow> allocate_for_read bank rr (rfu_arbiter r);
     read_ops \<leftarrow> at_key rr (\<lambda>_. Some rr) bank read_ops;
     Some (r\<lparr>rfu_arbiter := a\<rparr>, read_ops)
   })"

definition finish_read :: "nat \<times> op_t \<Rightarrow> opndcoll_rfu_t \<Rightarrow> opndcoll_rfu_t option" where
  "finish_read = (\<lambda>(_, op) r. do {
     c \<leftarrow> op_cu op;
     cu \<leftarrow> vec_at (rfu_cu r) c;
     cu \<leftarrow> collect_operand (op_operand op) cu;
     Some (r\<lparr>rfu_cu := (rfu_cu r)[c := cu]\<rparr>)
   })"

definition rfu_allocate_reads :: "opndcoll_rfu_t \<Rightarrow> opndcoll_rfu_t option" where
  "rfu_allocate_reads r = do {
     (allocated, a) \<leftarrow> arbiter_allocate_reads (rfu_arbiter r);
     (r, read_ops) \<leftarrow> loop_over grant_read allocated (r\<lparr>rfu_arbiter := a\<rparr>, []);
     loop_over finish_read read_ops r
   }"

fun write_registers :: "nat \<Rightarrow> nat list \<Rightarrow> opndcoll_rfu_t \<Rightarrow> (bool \<times> opndcoll_rfu_t) option" where
  "write_registers wid [] r = Some (True, r)"
| "write_registers wid (reg # regs) r = do {
     bank \<leftarrow> register_bank reg wid (rfu_num_banks r) (rfu_bank_warp_shift r);
     idle \<leftarrow> bank_idle (rfu_arbiter r) bank;
     (if idle
      then do {
        op \<leftarrow> op_write wid reg (rfu_num_banks r) (rfu_bank_warp_shift r);
        a \<leftarrow> allocate_bank_for_write bank op (rfu_arbiter r);
        write_registers wid regs (r\<lparr>rfu_arbiter := a\<rparr>)
      }
      else Some (False, r))
   }"

definition rfu_writeback :: "rf_inst \<Rightarrow> opndcoll_rfu_t \<Rightarrow> (bool \<times> opndcoll_rfu_t) option" where
  "rfu_writeback inst r = write_registers (rf_warp_id inst) (rf_regs_written inst) r"

definition rfu_step :: "opndcoll_rfu_t \<Rightarrow> opndcoll_rfu_t option" where
  "rfu_step r = do {
     r \<leftarrow> dispatch_ready_cu r;
     r \<leftarrow> rfu_allocate_reads r;
     r \<leftarrow> loop_over allocate_cu [0..<length (rfu_in_ports r)] r;
     Some (r\<lparr>rfu_arbiter := reset_alloction (rfu_arbiter r)\<rparr>)
   }"

subsection \<open>The wavefront\<close>

definition match_inv :: "bool list list \<Rightarrow> (nat \<Rightarrow> bool) \<Rightarrow> nat \<Rightarrow> nat \<Rightarrow> int list \<times> int list \<Rightarrow> bool" where
  "match_inv req wr inputs outputs m \<longleftrightarrow> length (fst m) = inputs \<and> length (snd m) = outputs
     \<and> (\<forall>i<inputs. wr i \<longrightarrow> fst m ! i = 0)
     \<and> (\<forall>i<inputs. \<not> wr i \<longrightarrow> fst m ! i = - 1 \<or> (\<exists>j<outputs. fst m ! i = int j \<and> snd m ! j = int i \<and> req ! i ! j))
     \<and> (\<forall>j<outputs. snd m ! j = - 1 \<or> (\<exists>i<inputs. \<not> wr i \<and> snd m ! j = int i \<and> fst m ! i = int j))"

definition grows :: "int list \<times> int list \<Rightarrow> int list \<times> int list \<Rightarrow> bool" where
  "grows m m' \<longleftrightarrow> (\<forall>i. fst m ! i \<noteq> - 1 \<longrightarrow> fst m' ! i = fst m ! i) \<and> (\<forall>j. snd m ! j \<noteq> - 1 \<longrightarrow> snd m' ! j = snd m ! j)"

lemma grows_refl [simp]: "grows m m" and grows_trans: "grows m m' \<Longrightarrow> grows m' m'' \<Longrightarrow> grows m m''"
  by (simp_all add: grows_def)

lemma match_step:
  assumes "match_inv req wr inputs outputs (im, om)" "i < inputs" "j < outputs" "im ! i = - 1" "om ! j = - 1" "req ! i ! j"
  shows "match_inv req wr inputs outputs (im[i := int j], om[j := int i])" "grows (im, om) (im[i := int j], om[j := int i])"
proof -
  have wi: "\<not> wr i" and len: "length im = inputs" "length om = outputs" using assms(1,2,4) by (auto simp: match_inv_def)
  have "im[i := int j] ! k = - 1 \<or> (\<exists>l<outputs. im[i := int j] ! k = int l \<and> om[j := int i] ! l = int k \<and> req ! k ! l)" if "k < inputs" "\<not> wr k" for k
  proof (cases "k = i")
    case False
    from assms(1) that have "im ! k = - 1 \<or> (\<exists>l<outputs. im ! k = int l \<and> om ! l = int k \<and> req ! k ! l)" by (auto simp: match_inv_def)
    then show ?thesis
    proof
      assume "\<exists>l<outputs. im ! k = int l \<and> om ! l = int k \<and> req ! k ! l"
      then obtain l where l: "l < outputs" "im ! k = int l" "om ! l = int k" "req ! k ! l" by blast
      then have "l \<noteq> j" using assms(5) by auto
      then show ?thesis using l False by auto
    qed (use False in auto)
  qed (use assms len in auto)
  moreover have "om[j := int i] ! k = - 1 \<or> (\<exists>l<inputs. \<not> wr l \<and> om[j := int i] ! k = int l \<and> im[i := int j] ! l = int k)" if "k < outputs" for k
  proof (cases "k = j")
    case False
    from assms(1) that have "om ! k = - 1 \<or> (\<exists>l<inputs. \<not> wr l \<and> om ! k = int l \<and> im ! l = int k)" by (auto simp: match_inv_def)
    then show ?thesis
    proof
      assume "\<exists>l<inputs. \<not> wr l \<and> om ! k = int l \<and> im ! l = int k"
      then obtain l where l: "l < inputs" "\<not> wr l" "om ! k = int l" "im ! l = int k" by blast
      then have "l \<noteq> i" using assms(4) by auto
      then show ?thesis using l False by auto
    qed (use False in auto)
  qed (use assms wi len in auto)
  moreover have "im[i := int j] ! k = 0" if "k < inputs" "wr k" for k
  proof -
    have "k \<noteq> i" "im ! k = 0" using assms(1) that wi by (auto simp: match_inv_def)
    then show ?thesis by simp
  qed
  ultimately show "match_inv req wr inputs outputs (im[i := int j], om[j := int i])" using len unfolding match_inv_def fst_conv snd_conv by simp
  show "grows (im, om) (im[i := int j], om[j := int i])" using assms(2-5) len by (auto simp: grows_def nth_list_update)
qed

lemma next_output: "(Suc k mod s + n) mod s = (k + Suc n) mod s"
  by (simp add: mod_simps)

lemma wave_diagonal_ok:
  "\<lbrakk>match_inv req wr inputs outputs m; i + n = inputs; out < outputs; 0 < outputs\<rbrakk>
    \<Longrightarrow> \<exists>m'. wave_diagonal req outputs outputs n i out m = Some m' \<and> match_inv req wr inputs outputs m' \<and> grows m m'
      \<and> (\<forall>k<n. req ! (i + k) ! ((out + k) mod outputs) \<longrightarrow> fst m' ! (i + k) \<noteq> - 1 \<or> snd m' ! ((out + k) mod outputs) \<noteq> - 1)"
proof (induction n arbitrary: i out m)
  case (Suc n)
  obtain im om where m: "m = (im, om)" by fastforce
  let ?g = "im ! i = - 1 \<and> om ! out = - 1 \<and> req ! i ! out"
  let ?m1 = "if ?g then (im[i := int out], om[out := int i]) else (im, om)"
  have len: "length im = inputs" "length om = outputs" using Suc.prems(1) m by (auto simp: match_inv_def)
  have i: "i < inputs" using Suc.prems(2) by simp
  have m1: "match_inv req wr inputs outputs ?m1" "grows m ?m1"
    using match_step [OF _ i Suc.prems(3), of req wr im om] Suc.prems(1) m by auto
  have done1: "req ! i ! out \<longrightarrow> fst ?m1 ! i \<noteq> - 1 \<or> snd ?m1 ! out \<noteq> - 1" using len i by auto
  from Suc.IH [OF m1(1), of "Suc i" "Suc out mod outputs"] Suc.prems obtain m' where
    m': "wave_diagonal req outputs outputs n (Suc i) (Suc out mod outputs) ?m1 = Some m'" "match_inv req wr inputs outputs m'" "grows ?m1 m'"
      "\<forall>k<n. req ! (Suc i + k) ! ((Suc out mod outputs + k) mod outputs) \<longrightarrow> fst m' ! (Suc i + k) \<noteq> - 1 \<or> snd m' ! ((Suc out mod outputs + k) mod outputs) \<noteq> - 1"
    by auto
  have "req ! (i + k) ! ((out + k) mod outputs) \<longrightarrow> fst m' ! (i + k) \<noteq> - 1 \<or> snd m' ! ((out + k) mod outputs) \<noteq> - 1" if "k < Suc n" for k
  proof (cases k)
    case 0
    then show ?thesis using done1 m'(3) Suc.prems(3) unfolding grows_def by (metis add_0_right mod_less)
  next
    case (Suc l)
    then show ?thesis using m'(4) that by (auto simp: next_output)
  qed
  moreover have "wave_diagonal req outputs outputs (Suc n) i out m = Some m'" using m m'(1) Suc.prems(3) by simp
  ultimately show ?case using m'(2) grows_trans [OF m1(2) m'(3)] by blast
qed simp

lemma wave_loop_ok:
  "\<lbrakk>match_inv req wr inputs outputs m; 0 < outputs\<rbrakk>
    \<Longrightarrow> \<exists>m'. wave_loop req inputs outputs outputs pri p n m = Some m' \<and> match_inv req wr inputs outputs m' \<and> grows m m'
      \<and> (\<forall>q i. p \<le> q \<and> q < p + n \<and> i < inputs \<and> req ! i ! ((pri + q + i) mod outputs) \<longrightarrow> fst m' ! i \<noteq> - 1 \<or> snd m' ! ((pri + q + i) mod outputs) \<noteq> - 1)"
proof (induction n arbitrary: p m)
  case (Suc n)
  from wave_diagonal_ok [OF Suc.prems(1), of 0 inputs "(pri + p) mod outputs"] Suc.prems(2) obtain m1 where
    m1: "wave_diagonal req outputs outputs inputs 0 ((pri + p) mod outputs) m = Some m1" "match_inv req wr inputs outputs m1" "grows m m1"
      "\<forall>k<inputs. req ! k ! ((pri + p + k) mod outputs) \<longrightarrow> fst m1 ! k \<noteq> - 1 \<or> snd m1 ! ((pri + p + k) mod outputs) \<noteq> - 1"
    by (auto simp: mod_simps)
  from Suc.IH [OF m1(2) Suc.prems(2), of "Suc p"] obtain m' where
    m': "wave_loop req inputs outputs outputs pri (Suc p) n m1 = Some m'" "match_inv req wr inputs outputs m'" "grows m1 m'"
      "\<forall>q i. Suc p \<le> q \<and> q < Suc p + n \<and> i < inputs \<and> req ! i ! ((pri + q + i) mod outputs) \<longrightarrow> fst m' ! i \<noteq> - 1 \<or> snd m' ! ((pri + q + i) mod outputs) \<noteq> - 1"
    by auto
  have "fst m' ! i \<noteq> - 1 \<or> snd m' ! ((pri + q + i) mod outputs) \<noteq> - 1"
    if "p \<le> q" "q < p + Suc n" "i < inputs" "req ! i ! ((pri + q + i) mod outputs)" for q i
  proof (cases "q = p")
    case True
    then have "fst m1 ! i \<noteq> - 1 \<or> snd m1 ! ((pri + q + i) mod outputs) \<noteq> - 1" using m1(4) that(3,4) by simp
    then show ?thesis using m'(3) unfolding grows_def by metis
  next
    case False
    then show ?thesis using m'(4) that by simp
  qed
  moreover have "wave_loop req inputs outputs outputs pri p (Suc n) m = Some m'" using m1(1) m'(1) by simp
  ultimately show ?case using m'(2) grows_trans [OF m1(3) m'(3)] by blast
qed auto

text \<open>On the first diagonal every request is granted, since its outputs are all different.\<close>

lemma first_diagonal:
  "\<lbrakk>length im = inputs; length om = outputs; i + n = inputs; out < outputs; n \<le> outputs; 0 < outputs;
    \<forall>k<n. om ! ((out + k) mod outputs) = - 1\<rbrakk>
    \<Longrightarrow> \<exists>m'. wave_diagonal req outputs outputs n i out (im, om) = Some m'
      \<and> (\<forall>k<n. im ! (i + k) = - 1 \<and> req ! (i + k) ! ((out + k) mod outputs) \<longrightarrow> fst m' ! (i + k) = int ((out + k) mod outputs))
      \<and> (\<forall>l<i. fst m' ! l = im ! l)"
proof (induction n arbitrary: i out im om)
  case (Suc n)
  let ?g = "im ! i = - 1 \<and> om ! out = - 1 \<and> req ! i ! out"
  let ?im = "if ?g then im[i := int out] else im" and ?om = "if ?g then om[out := int i] else om"
  have ne: "(out + Suc k) mod outputs \<noteq> out" if "k < n" for k
    using that Suc.prems(4,5) by (auto simp: mod_if)
  have free: "\<forall>k<n. ?om ! ((Suc out mod outputs + k) mod outputs) = - 1"
  proof (intro allI impI)
    fix k assume k: "k < n"
    have "om ! ((out + Suc k) mod outputs) = - 1" using Suc.prems(7) k by blast
    then show "?om ! ((Suc out mod outputs + k) mod outputs) = - 1" unfolding next_output using ne [OF k] by simp
  qed
  have "out < outputs" "om ! out = - 1" using Suc.prems(4) Suc.prems(7) by auto
  have pre: "length ?im = inputs" "length ?om = outputs" "Suc i + n = inputs" "Suc out mod outputs < outputs" "n \<le> outputs"
    using Suc.prems(1-6) by simp_all
  from Suc.IH [OF pre Suc.prems(6) free] obtain m' where
    m': "wave_diagonal req outputs outputs n (Suc i) (Suc out mod outputs) (?im, ?om) = Some m'"
      "\<forall>k<n. ?im ! (Suc i + k) = - 1 \<and> req ! (Suc i + k) ! ((Suc out mod outputs + k) mod outputs)
         \<longrightarrow> fst m' ! (Suc i + k) = int ((Suc out mod outputs + k) mod outputs)"
      "\<forall>l<Suc i. fst m' ! l = ?im ! l" by blast
  have "fst m' ! (i + k) = int ((out + k) mod outputs)" if "k < Suc n" "im ! (i + k) = - 1" "req ! (i + k) ! ((out + k) mod outputs)" for k
  proof (cases k)
    case 0
    then show ?thesis using m'(3) that(2,3) Suc.prems(1,3) \<open>out < outputs\<close> \<open>om ! out = - 1\<close> by simp
  next
    case (Suc l)
    then have "?im ! (Suc i + l) = - 1" using that(2) by (auto simp: nth_list_update)
    then show ?thesis using m'(2) that Suc by (auto simp: next_output)
  qed
  moreover have "wave_diagonal req outputs outputs (Suc n) i out (im, om) = Some m'" using m'(1) \<open>out < outputs\<close> by (cases ?g) (simp, force)
  moreover have "\<forall>l<i. fst m' ! l = im ! l" using m'(3) by (auto simp: nth_list_update)
  ultimately show ?case by blast
qed simp

lemma wave_loop_first:
  assumes start: "match_inv req wr n c (im, replicate c (- 1))" and sz: "n \<le> c" "0 < c"
    and run: "wave_loop req n c c pri 0 c (im, replicate c (- 1)) = Some m" and b: "b < n" "im ! b = - 1" "req ! b ! ((pri + b) mod c)"
  shows "fst m ! b \<noteq> - 1"
proof -
  have w: "length im = n" "length (replicate c (- 1 :: int)) = c" "0 + n = n" "pri mod c < c" "\<forall>k<n. replicate c (- 1 :: int) ! ((pri mod c + k) mod c) = - 1"
    using start sz(2) by (simp_all add: match_inv_def)
  obtain m1 where m1: "wave_diagonal req c c n 0 (pri mod c) (im, replicate c (- 1)) = Some m1"
    "\<forall>k<n. im ! k = - 1 \<and> req ! k ! ((pri mod c + k) mod c) \<longrightarrow> fst m1 ! k = int ((pri mod c + k) mod c)"
    using first_diagonal [OF w(1-4) sz w(5), of req] unfolding add_0 by blast
  then have g: "fst m1 ! b \<noteq> - 1" using b by (auto simp: mod_simps)
  have inv: "match_inv req wr n c m1" using wave_diagonal_ok [OF start, of 0 n "pri mod c"] m1(1) sz(2) by auto
  obtain c' where "c = Suc c'" using sz(2) gr0_implies_Suc by blast
  then have "wave_loop req n c c pri 1 c' m1 = Some m" using run m1(1) by simp
  with wave_loop_ok [OF inv sz(2), of pri 1 c'] have "grows m1 m" by auto
  then show ?thesis using g by (auto simp: grows_def)
qed

lemma diagonal_exists:
  fixes c :: nat
  assumes "j < c"
  shows "\<exists>k<c. (pri + k + b) mod c = j"
proof -
  let ?x = "(pri + b) mod c"
  let ?k = "(j + c - ?x) mod c"
  have lt: "?x < c" "?k < c" using assms by simp_all
  have "(pri + ?k + b) mod c = (pri + b + ?k) mod c" by (rule arg_cong [where f = "\<lambda>x. x mod c"]) (simp only: add.assoc add.commute add.left_commute)
  also have "\<dots> = (pri + b + (j + c - ?x)) mod c" by (rule mod_add_right_eq)
  also have "\<dots> = (?x + (j + c - ?x)) mod c" by (rule mod_add_left_eq [symmetric])
  also have "?x + (j + c - ?x) = j + c" using lt(1) by simp
  finally have "(pri + ?k + b) mod c = j" using assms by simp
  with lt(2) show ?thesis by blast
qed

lemma request_matrix_ok:
  assumes "\<forall>q \<in> set qs. q \<noteq> [] \<longrightarrow> (\<exists>c<outputs. op_cu (hd q) = Some c)"
  shows "\<exists>req. request_matrix outputs qs = Some req \<and> length req = length qs
    \<and> (\<forall>i<length qs. \<forall>j<outputs. req ! i ! j \<longleftrightarrow> qs ! i \<noteq> [] \<and> op_cu (hd (qs ! i)) = Some j)"
  using assms
proof (induction qs)
  case (Cons q qs)
  then obtain m where m: "request_matrix outputs qs = Some m" "length m = length qs"
    "\<forall>i<length qs. \<forall>j<outputs. m ! i ! j \<longleftrightarrow> qs ! i \<noteq> [] \<and> op_cu (hd (qs ! i)) = Some j" by auto
  have "\<exists>r. request_row outputs q = Some r \<and> (\<forall>j<outputs. r ! j \<longleftrightarrow> q \<noteq> [] \<and> op_cu (hd q) = Some j)"
    using Cons.prems by (cases q) (auto simp: request_row_def nth_list_update)
  then obtain r where r: "request_row outputs q = Some r" "\<forall>j<outputs. r ! j \<longleftrightarrow> q \<noteq> [] \<and> op_cu (hd q) = Some j" by blast
  have "\<forall>i<length (q # qs). \<forall>j<outputs. (r # m) ! i ! j \<longleftrightarrow> (q # qs) ! i \<noteq> [] \<and> op_cu (hd ((q # qs) ! i)) = Some j"
    using r(2) m(3) by (auto simp: less_Suc_eq_0_disj)
  then show ?case using r(1) m(1,2) by simp
qed simp

definition granted_banks :: "int list \<Rightarrow> allocation_t list \<Rightarrow> nat list" where
  "granted_banks im als = filter (\<lambda>i. im ! i \<noteq> - 1 \<and> \<not> is_write (als ! i)) [0..<length im]"

lemma take_granted_ok:
  "\<lbrakk>length im = length qs; length als = length qs; \<forall>i \<in> set (granted_banks im als). qs ! i \<noteq> []\<rbrakk>
    \<Longrightarrow> take_granted im als qs = Some (map (\<lambda>i. hd (qs ! i)) (granted_banks im als),
          map (\<lambda>i. if i \<in> set (granted_banks im als) then tl (qs ! i) else qs ! i) [0..<length qs])"
proof (induction im als qs rule: take_granted.induct)
  case (1 x im al als q qs)
  have s: "granted_banks (x # im) (al # als) = (if x \<noteq> - 1 \<and> \<not> is_write al then [0] else []) @ map Suc (granted_banks im als)"
    unfolding granted_banks_def length_Cons upt_conv_Cons [OF zero_less_Suc] map_Suc_upt [symmetric] by (simp add: filter_map comp_def)
  have ih: "take_granted im als qs = Some (map (\<lambda>i. hd (qs ! i)) (granted_banks im als),
      map (\<lambda>i. if i \<in> set (granted_banks im als) then tl (qs ! i) else qs ! i) [0..<length qs])"
  proof (rule 1)
    show "\<forall>i \<in> set (granted_banks im als). qs ! i \<noteq> []"
    proof
      fix i assume "i \<in> set (granted_banks im als)"
      then have "Suc i \<in> set (granted_banks (x # im) (al # als))" unfolding s by simp
      then show "qs ! i \<noteq> []" using 1(4) by force
    qed
  qed (use 1(2,3) in auto)
  have "q \<noteq> []" if "x \<noteq> - 1 \<and> \<not> is_write al" using 1(4) s that by auto
  then show ?case unfolding s length_Cons upt_conv_Cons [OF zero_less_Suc] map_Suc_upt [symmetric]
    using ih by (cases q) (auto simp: comp_def image_iff)
qed (auto simp: granted_banks_def)

subsection \<open>The arbiter\<close>

text \<open>A queued request is valid and knows its bank and its collector unit.\<close>

definition request_ok :: "nat \<Rightarrow> nat \<Rightarrow> op_t \<Rightarrow> bool" where
  "request_ok collectors b op \<longleftrightarrow> op_valid op \<and> op_bank op = b \<and> (\<exists>c<collectors. op_cu op = Some c)"

definition arbiter_ok :: "arbiter_t \<Rightarrow> bool" where
  "arbiter_ok a \<longleftrightarrow> 0 < ab_num_banks a \<and> ab_num_banks a \<le> ab_num_collectors a \<and> length (ab_queue a) = ab_num_banks a
     \<and> length (ab_allocated_bank a) = ab_num_banks a \<and> (\<forall>b < ab_num_banks a. \<forall>op \<in> set (ab_queue a ! b). request_ok (ab_num_collectors a) b op)"

abbreviation writes_to :: "arbiter_t \<Rightarrow> nat \<Rightarrow> bool" where "writes_to a b \<equiv> is_write (ab_allocated_bank a ! b)"

lemma match_start: "length als = inputs \<Longrightarrow> match_inv req (\<lambda>i. is_write (als ! i)) inputs outputs (write_match als, replicate outputs (- 1))"
  by (simp add: match_inv_def write_match_def)

text \<open>What one allocation does: the banks \<open>bs\<close> are granted.\<close>

lemma allocate_reads_ok:
  assumes "arbiter_ok a"
  shows "\<exists>bs a'. arbiter_allocate_reads a = Some (map (\<lambda>b. hd (ab_queue a ! b)) bs, a') \<and> distinct bs
    \<and> (\<forall>b \<in> set bs. b < ab_num_banks a \<and> \<not> writes_to a b \<and> ab_queue a ! b \<noteq> [])
    \<and> (\<forall>b \<in> set bs. \<forall>b' \<in> set bs. op_cu (hd (ab_queue a ! b)) = op_cu (hd (ab_queue a ! b')) \<longrightarrow> b = b')
    \<and> (\<forall>b < ab_num_banks a. \<not> writes_to a b \<and> ab_queue a ! b \<noteq> [] \<and> b \<notin> set bs
         \<longrightarrow> (\<exists>b' \<in> set bs. op_cu (hd (ab_queue a ! b')) = op_cu (hd (ab_queue a ! b))))
    \<and> (\<forall>b < ab_num_banks a. \<not> writes_to a b \<and> ab_queue a ! b \<noteq> [] \<and> op_cu (hd (ab_queue a ! b)) = Some ((ab_last_cu a + b) mod ab_num_collectors a)
         \<longrightarrow> b \<in> set bs)
    \<and> a' = a\<lparr>ab_queue := map (\<lambda>b. if b \<in> set bs then tl (ab_queue a ! b) else ab_queue a ! b) [0..<ab_num_banks a],
             ab_last_cu := (ab_last_cu a + 1) mod ab_num_collectors a\<rparr>"
proof -
  let ?n = "ab_num_banks a" and ?c = "ab_num_collectors a" and ?q = "ab_queue a" and ?al = "ab_allocated_bank a" and ?pri = "ab_last_cu a"
  have sz: "0 < ?c" "max ?n ?c = ?c" "length ?q = ?n" "length ?al = ?n" "?n \<le> ?c" using assms by (auto simp: arbiter_ok_def)
  have heads: "\<exists>c<?c. op_cu (hd (?q ! b)) = Some c" if "b < ?n" "?q ! b \<noteq> []" for b
  proof -
    have "request_ok ?c b (hd (?q ! b))" using assms that by (simp add: arbiter_ok_def)
    then show ?thesis by (simp add: request_ok_def)
  qed
  then have "\<forall>q \<in> set ?q. q \<noteq> [] \<longrightarrow> (\<exists>c<?c. op_cu (hd q) = Some c)" using sz(3) by (metis in_set_conv_nth)
  from request_matrix_ok [OF this] obtain req where
    req: "request_matrix ?c ?q = Some req" "\<And>i j. \<lbrakk>i < ?n; j < ?c\<rbrakk> \<Longrightarrow> req ! i ! j \<longleftrightarrow> ?q ! i \<noteq> [] \<and> op_cu (hd (?q ! i)) = Some j"
    unfolding sz(3) by blast
  let ?m0 = "(write_match ?al, replicate ?c (- 1))"
  note start = match_start [OF sz(4), of req ?c]
  from wave_loop_ok [OF start sz(1), of ?pri 0 ?c] obtain m where
    m: "wave_loop req ?n ?c ?c ?pri 0 ?c ?m0 = Some m" "match_inv req (\<lambda>i. writes_to a i) ?n ?c m"
      "\<And>q i. \<lbrakk>q < ?c; i < ?n; req ! i ! ((?pri + q + i) mod ?c)\<rbrakk> \<Longrightarrow> fst m ! i \<noteq> - 1 \<or> snd m ! ((?pri + q + i) mod ?c) \<noteq> - 1" by auto
  let ?bs = "granted_banks (fst m) ?al"
  have len: "length (fst m) = ?n" "length (snd m) = ?c" using m(2) by (auto simp: match_inv_def)
  have bs: "b \<in> set ?bs \<longleftrightarrow> b < ?n \<and> fst m ! b \<noteq> - 1 \<and> \<not> writes_to a b" for b by (auto simp: granted_banks_def len)
  have grant: "\<exists>j<?c. fst m ! b = int j \<and> snd m ! j = int b \<and> ?q ! b \<noteq> [] \<and> op_cu (hd (?q ! b)) = Some j" if "b \<in> set ?bs" for b
  proof -
    have b: "b < ?n" "fst m ! b \<noteq> - 1" "\<not> writes_to a b" using that bs by auto
    then obtain j where "j < ?c" "fst m ! b = int j" "snd m ! j = int b" "req ! b ! j" using m(2) by (auto simp: match_inv_def)
    then show ?thesis using req(2) b(1) by blast
  qed
  have maximal: "\<exists>b' \<in> set ?bs. op_cu (hd (?q ! b')) = op_cu (hd (?q ! b))" if "b < ?n" "\<not> writes_to a b" "?q ! b \<noteq> []" "b \<notin> set ?bs" for b
  proof -
    from heads [OF that(1,3)] obtain j where j: "j < ?c" "op_cu (hd (?q ! b)) = Some j" by blast
    obtain k where k: "k < ?c" "(?pri + k + b) mod ?c = j" using diagonal_exists [OF j(1)] by blast
    have "fst m ! b = - 1" using that bs by auto
    then have "snd m ! j \<noteq> - 1" using m(3) [OF k(1) that(1)] k(2) j that(1,3) req(2) by auto
    then obtain i where i: "i < ?n" "\<not> writes_to a i" "snd m ! j = int i" "fst m ! i = int j" using m(2) j(1) by (auto simp: match_inv_def)
    then have "i \<in> set ?bs" using bs by auto
    with grant [OF this] i(4) j(2) show ?thesis by (intro bexI [of _ i]) auto
  qed
  have first: "b \<in> set ?bs" if "b < ?n" "\<not> writes_to a b" "?q ! b \<noteq> []" "op_cu (hd (?q ! b)) = Some ((?pri + b) mod ?c)" for b
  proof -
    have "req ! b ! ((?pri + b) mod ?c)" "write_match ?al ! b = - 1" using req(2) [of b "(?pri + b) mod ?c"] that sz(1,4) by (simp_all add: write_match_def)
    then show ?thesis using wave_loop_first [OF start sz(5,1) m(1) that(1)] bs that(1,2) by simp
  qed
  have uniq: "b = b'" if "b \<in> set ?bs" "b' \<in> set ?bs" "op_cu (hd (?q ! b)) = op_cu (hd (?q ! b'))" for b b'
    using grant [OF that(1)] grant [OF that(2)] that(3) by auto
  have "distinct ?bs" by (simp add: granted_banks_def)
  moreover have "take_granted (fst m) ?al ?q = Some (map (\<lambda>b. hd (?q ! b)) ?bs, map (\<lambda>b. if b \<in> set ?bs then tl (?q ! b) else ?q ! b) [0..<?n])"
    using take_granted_ok [of "fst m" ?q ?al] grant len sz(3,4) by auto
  then have "arbiter_allocate_reads a = Some (map (\<lambda>b. hd (?q ! b)) ?bs,
      a\<lparr>ab_queue := map (\<lambda>b. if b \<in> set ?bs then tl (?q ! b) else ?q ! b) [0..<?n], ab_last_cu := (?pri + 1) mod ?c\<rparr>)"
    using req(1) m(1) sz(1,2) by (simp add: arbiter_allocate_reads_def split_beta)
  ultimately show ?thesis using bs grant maximal first uniq by (intro exI [of _ ?bs] exI conjI) (rule refl | assumption | blast)+
qed


subsection \<open>Cycles of the arbiter\<close>

text \<open>One cycle as the pipeline drives it: results are written back, reads are granted, new instructions send their requests.\<close>

type_synonym arbiter_work = "(nat \<times> op_t) list \<times> op_t list"

definition arbiter_cycle :: "arbiter_work \<Rightarrow> arbiter_t \<Rightarrow> (op_t list \<times> arbiter_t) option" where
  "arbiter_cycle wk a = do {
     a \<leftarrow> loop_over (\<lambda>(b, op). allocate_bank_for_write b op) (fst wk) a;
     (granted, a) \<leftarrow> arbiter_allocate_reads a;
     a \<leftarrow> add_read_requests (snd wk) a;
     Some (granted, reset_alloction a)
   }"

fun arbiter_cycles :: "arbiter_work list \<Rightarrow> arbiter_t \<Rightarrow> (op_t list list \<times> arbiter_t) option" where
  "arbiter_cycles [] a = Some ([], a)"
| "arbiter_cycles (wk # wks) a = do {
     (granted, a) \<leftarrow> arbiter_cycle wk a;
     (gs, a) \<leftarrow> arbiter_cycles wks a;
     Some (granted # gs, a)
   }"

definition work_ok :: "nat \<Rightarrow> nat \<Rightarrow> arbiter_work \<Rightarrow> bool" where
  "work_ok n c wk \<longleftrightarrow> distinct (map fst (fst wk)) \<and> (\<forall>w \<in> set (fst wk). fst w < n) \<and> (\<forall>op \<in> set (snd wk). op_valid op \<longrightarrow> op_bank op < n \<and> request_ok c (op_bank op) op)"

definition idle :: "arbiter_t \<Rightarrow> bool" where
  "idle a \<longleftrightarrow> ab_allocated_bank a = replicate (ab_num_banks a) NO_ALLOC"

lemma writes_ok:
  "\<lbrakk>arbiter_ok a; distinct (map fst ws); \<forall>w \<in> set ws. fst w < ab_num_banks a \<and> ab_allocated_bank a ! fst w = NO_ALLOC\<rbrakk>
    \<Longrightarrow> \<exists>als. loop_over (\<lambda>(b, op). allocate_bank_for_write b op) ws a = Some (a\<lparr>ab_allocated_bank := als\<rparr>) \<and> length als = ab_num_banks a
      \<and> (\<forall>b. b \<notin> fst ` set ws \<longrightarrow> als ! b = ab_allocated_bank a ! b)"
proof (induction ws arbitrary: a)
  case Nil
  then show ?case by (intro exI [of _ "ab_allocated_bank a"]) (simp add: arbiter_ok_def)
next
  case (Cons w ws)
  obtain b op where w: "w = (b, op)" by fastforce
  let ?a = "a\<lparr>ab_allocated_bank := (ab_allocated_bank a)[b := WRITE_ALLOC op]\<rparr>"
  have b: "b < ab_num_banks a" "ab_allocated_bank a ! b = NO_ALLOC" "length (ab_allocated_bank a) = ab_num_banks a"
    using Cons.prems w by (auto simp: arbiter_ok_def)
  have "arbiter_ok ?a" using Cons.prems(1) by (simp add: arbiter_ok_def)
  moreover have "\<forall>w \<in> set ws. fst w < ab_num_banks ?a \<and> ab_allocated_bank ?a ! fst w = NO_ALLOC"
  proof
    fix v assume "v \<in> set ws"
    then have "fst v \<noteq> b" "fst v < ab_num_banks a" "ab_allocated_bank a ! fst v = NO_ALLOC" using Cons.prems(2,3) w by auto
    then show "fst v < ab_num_banks ?a \<and> ab_allocated_bank ?a ! fst v = NO_ALLOC" by simp
  qed
  ultimately obtain als where als: "loop_over (\<lambda>(b, op). allocate_bank_for_write b op) ws ?a = Some (?a\<lparr>ab_allocated_bank := als\<rparr>)"
    "length als = ab_num_banks a" "\<forall>b'. b' \<notin> fst ` set ws \<longrightarrow> als ! b' = (ab_allocated_bank a)[b := WRITE_ALLOC op] ! b'"
    using Cons.IH [of ?a] Cons.prems(2) by auto
  have "allocate_bank_for_write b op a = Some ?a" using b by (simp add: allocate_bank_for_write_def vec_at_def)
  then show ?case using als w by (intro exI [of _ als]) auto
qed

lemma push_ok:
  assumes "arbiter_ok a" "op_bank op < ab_num_banks a" "request_ok (ab_num_collectors a) (op_bank op) op"
  shows "\<exists>qs. push_request op a = Some (a\<lparr>ab_queue := qs\<rparr>) \<and> arbiter_ok (a\<lparr>ab_queue := qs\<rparr>)
    \<and> (\<forall>b < ab_num_banks a. qs ! b = ab_queue a ! b @ filter (\<lambda>op. op_bank op = b) [op])"
proof -
  let ?qs = "(ab_queue a)[op_bank op := ab_queue a ! op_bank op @ [op]]"
  have len: "length (ab_queue a) = ab_num_banks a" using assms(1) by (simp add: arbiter_ok_def)
  have "arbiter_ok (a\<lparr>ab_queue := ?qs\<rparr>)"
    using assms len by (auto simp: arbiter_ok_def nth_list_update)
  moreover have "push_request op a = Some (a\<lparr>ab_queue := ?qs\<rparr>)" using assms(2) len by (simp add: push_request_def vec_at_def)
  ultimately show ?thesis using len by (intro exI [of _ ?qs]) (auto simp: nth_list_update)
qed

lemma add_read_requests_ok:
  "\<lbrakk>arbiter_ok a; \<forall>op \<in> set ops. op_valid op \<longrightarrow> op_bank op < ab_num_banks a \<and> request_ok (ab_num_collectors a) (op_bank op) op\<rbrakk>
    \<Longrightarrow> \<exists>qs. add_read_requests ops a = Some (a\<lparr>ab_queue := qs\<rparr>) \<and> arbiter_ok (a\<lparr>ab_queue := qs\<rparr>)
      \<and> (\<forall>b < ab_num_banks a. qs ! b = ab_queue a ! b @ filter (\<lambda>op. op_valid op \<and> op_bank op = b) ops)"
proof (induction ops arbitrary: a)
  case Nil
  then show ?case by (intro exI [of _ "ab_queue a"]) (simp add: add_read_requests_def)
next
  case (Cons op ops)
  show ?case
  proof (cases "op_valid op")
    case False
    then show ?thesis using Cons.IH [OF Cons.prems(1)] Cons.prems(2) by (simp add: add_read_requests_def)
  next
    case True
    with Cons.prems obtain qs where qs: "push_request op a = Some (a\<lparr>ab_queue := qs\<rparr>)" "arbiter_ok (a\<lparr>ab_queue := qs\<rparr>)"
      "\<forall>b < ab_num_banks a. qs ! b = ab_queue a ! b @ filter (\<lambda>op. op_bank op = b) [op]" using push_ok [of a op] by auto
    from Cons.IH [OF qs(2)] Cons.prems(2) obtain qs' where
      qs': "add_read_requests ops (a\<lparr>ab_queue := qs\<rparr>) = Some (a\<lparr>ab_queue := qs'\<rparr>)" "arbiter_ok (a\<lparr>ab_queue := qs'\<rparr>)"
        "\<forall>b < ab_num_banks a. qs' ! b = qs ! b @ filter (\<lambda>op. op_valid op \<and> op_bank op = b) ops" by auto
    then show ?thesis using qs True by (intro exI [of _ qs']) (auto simp: add_read_requests_def)
  qed
qed


lemma arbiter_ok_tl:
  assumes "arbiter_ok a"
  shows "arbiter_ok (a\<lparr>ab_queue := map (\<lambda>b. if P b then tl (ab_queue a ! b) else ab_queue a ! b) [0..<ab_num_banks a], ab_last_cu := l\<rparr>)"
proof -
  have "x \<in> set q" if "x \<in> set (tl q)" for x and q :: "op_t list" using that by (cases q) auto
  then show ?thesis using assms by (auto simp: arbiter_ok_def)
qed

lemma cycle_ok:
  assumes ok: "arbiter_ok a" "idle a" and wk: "work_ok (ab_num_banks a) (ab_num_collectors a) wk"
  shows "\<exists>g a'. arbiter_cycle wk a = Some (g, a') \<and> arbiter_ok a' \<and> idle a' \<and> ab_num_banks a' = ab_num_banks a \<and> ab_num_collectors a' = ab_num_collectors a
    \<and> ab_last_cu a' = (ab_last_cu a + 1) mod ab_num_collectors a
    \<and> (\<forall>b op q. b < ab_num_banks a \<and> b \<notin> fst ` set (fst wk) \<and> ab_queue a ! b = op # q
         \<longrightarrow> op \<in> set g \<or> op_cu op \<noteq> Some ((ab_last_cu a + b) mod ab_num_collectors a) \<and> (\<exists>q'. ab_queue a' ! b = op # q'))"
proof -
  let ?n = "ab_num_banks a" and ?c = "ab_num_collectors a"
  have "\<forall>w \<in> set (fst wk). fst w < ?n \<and> ab_allocated_bank a ! fst w = NO_ALLOC" "distinct (map fst (fst wk))"
    using ok(2) wk by (auto simp: idle_def work_ok_def)
  from writes_ok [OF ok(1) this(2,1)] obtain als where
    als: "loop_over (\<lambda>(b, op). allocate_bank_for_write b op) (fst wk) a = Some (a\<lparr>ab_allocated_bank := als\<rparr>)" "length als = ?n"
      "\<forall>b. b \<notin> fst ` set (fst wk) \<longrightarrow> als ! b = ab_allocated_bank a ! b" by blast
  let ?a = "a\<lparr>ab_allocated_bank := als\<rparr>"
  have "arbiter_ok ?a" using ok(1) als(2) by (simp add: arbiter_ok_def)
  from allocate_reads_ok [OF this] obtain bs a1 where
    g: "arbiter_allocate_reads ?a = Some (map (\<lambda>b. hd (ab_queue a ! b)) bs, a1)"
      "\<forall>b < ?n. \<not> is_write (als ! b) \<and> ab_queue a ! b \<noteq> [] \<and> op_cu (hd (ab_queue a ! b)) = Some ((ab_last_cu a + b) mod ?c) \<longrightarrow> b \<in> set bs"
    and a1: "a1 = ?a\<lparr>ab_queue := map (\<lambda>b. if b \<in> set bs then tl (ab_queue ?a ! b) else ab_queue ?a ! b) [0..<ab_num_banks ?a],
                     ab_last_cu := (ab_last_cu a + 1) mod ?c\<rparr>" by auto
  have "arbiter_ok a1" unfolding a1 by (rule arbiter_ok_tl [OF \<open>arbiter_ok ?a\<close>])
  moreover have par: "ab_num_banks a1 = ?n" "ab_num_collectors a1 = ?c" "ab_last_cu a1 = (ab_last_cu a + 1) mod ?c" "ab_allocated_bank a1 = als" by (simp_all add: a1)
  ultimately obtain qs where qs: "add_read_requests (snd wk) a1 = Some (a1\<lparr>ab_queue := qs\<rparr>)" "arbiter_ok (a1\<lparr>ab_queue := qs\<rparr>)"
    "\<forall>b < ?n. qs ! b = ab_queue a1 ! b @ filter (\<lambda>op. op_valid op \<and> op_bank op = b) (snd wk)"
    using add_read_requests_ok [of a1 "snd wk"] wk by (auto simp: work_ok_def)
  let ?a' = "reset_alloction (a1\<lparr>ab_queue := qs\<rparr>)"
  have "arbiter_ok ?a'" "idle ?a'" using qs(2) par(1,4) als(2) by (simp_all add: arbiter_ok_def reset_alloction_def idle_def map_replicate_const)
  moreover have "op \<in> set (map (\<lambda>b. hd (ab_queue a ! b)) bs) \<or> op_cu op \<noteq> Some ((ab_last_cu a + b) mod ?c) \<and> (\<exists>q'. ab_queue ?a' ! b = op # q')"
    if b: "b < ?n" "b \<notin> fst ` set (fst wk)" "ab_queue a ! b = op # q" for b op q
  proof (cases "b \<in> set bs")
    case True
    then show ?thesis using b(3) by force
  next
    case False
    have "\<not> is_write (als ! b)" using als(3) b(1,2) ok(2) by (simp add: idle_def)
    then have "op_cu op \<noteq> Some ((ab_last_cu a + b) mod ?c)" using g(2) b(1,3) False by auto
    then show ?thesis using qs(3) b(1,3) False by (simp add: a1 reset_alloction_def)
  qed
  moreover have "arbiter_cycle wk a = Some (map (\<lambda>b. hd (ab_queue a ! b)) bs, ?a')" using als(1) g(1) qs(1) by (simp add: arbiter_cycle_def)
  ultimately show ?thesis using par(1-3) by (intro exI conjI) (assumption | simp add: reset_alloction_def | blast)+
qed

lemma cycles_ok:
  "\<lbrakk>arbiter_ok a; idle a; \<forall>wk \<in> set wks. work_ok (ab_num_banks a) (ab_num_collectors a) wk\<rbrakk> \<Longrightarrow> \<exists>gs a'. arbiter_cycles wks a = Some (gs, a')"
proof (induction wks arbitrary: a)
  case (Cons wk wks)
  then obtain g a1 where a1: "arbiter_cycle wk a = Some (g, a1)" "arbiter_ok a1" "idle a1" "ab_num_banks a1 = ab_num_banks a" "ab_num_collectors a1 = ab_num_collectors a"
    using cycle_ok [of a wk] by auto
  with Cons.IH [OF a1(2,3)] Cons.prems(3) obtain gs a' where "arbiter_cycles wks a1 = Some (gs, a')" by auto
  then show ?case using a1(1) by simp
qed simp

lemma granted_by_diagonal:
  "\<lbrakk>arbiter_ok a; idle a; \<forall>wk \<in> set wks. work_ok (ab_num_banks a) (ab_num_collectors a) wk \<and> b \<notin> fst ` set (fst wk); b < ab_num_banks a;
    ab_queue a ! b = op # q; op_cu op = Some ((ab_last_cu a + k + b) mod ab_num_collectors a); k < length wks; arbiter_cycles wks a = Some (gs, a')\<rbrakk>
    \<Longrightarrow> \<exists>g \<in> set gs. op \<in> set g"
proof (induction wks arbitrary: a k gs q)
  case (Cons wk wks)
  let ?c = "ab_num_collectors a"
  have "work_ok (ab_num_banks a) ?c wk" "b \<notin> fst ` set (fst wk)" using Cons.prems(3) by simp_all
  from cycle_ok [OF Cons.prems(1,2) this(1)] obtain g a1 where
    a1: "arbiter_cycle wk a = Some (g, a1)" "arbiter_ok a1" "idle a1" "ab_num_banks a1 = ab_num_banks a" "ab_num_collectors a1 = ?c" "ab_last_cu a1 = (ab_last_cu a + 1) mod ?c"
      "op \<in> set g \<or> op_cu op \<noteq> Some ((ab_last_cu a + b) mod ?c) \<and> (\<exists>q'. ab_queue a1 ! b = op # q')"
    using Cons.prems(4,5) \<open>b \<notin> fst ` set (fst wk)\<close> by blast
  then obtain gs' where gs: "gs = g # gs'" "arbiter_cycles wks a1 = Some (gs', a')" using Cons.prems(8) by (auto simp: bind_eq_Some_conv)
  show ?case
  proof (cases "op \<in> set g")
    case False
    with a1(7) obtain q' where q': "ab_queue a1 ! b = op # q'" "op_cu op \<noteq> Some ((ab_last_cu a + b) mod ?c)" by blast
    then obtain l where l: "k = Suc l" using Cons.prems(6) by (cases k) simp_all
    have "(ab_last_cu a1 + l + b) mod ?c = (ab_last_cu a + k + b) mod ?c" using mod_add_left_eq [of "ab_last_cu a + 1" ?c "l + b"] by (simp add: a1(6) l add.assoc)
    then have "op_cu op = Some ((ab_last_cu a1 + l + b) mod ab_num_collectors a1)" using Cons.prems(6) a1(5) by simp
    then have "\<exists>g \<in> set gs'. op \<in> set g"
      using Cons.IH [OF a1(2,3) _ _ q'(1) _ _ gs(2), of l] Cons.prems(3,4,7) l a1(4,5) by simp
    then show ?thesis using gs(1) by auto
  qed (use gs in auto)
qed simp

definition example_op :: "nat \<Rightarrow> nat \<Rightarrow> op_t" where
  "example_op c b = \<lparr>op_valid = True, op_cu = Some c, op_warp = None, op_operand = 0, op_register = b, op_bank = b\<rparr>"

definition example_arbiter :: arbiter_t where
  "example_arbiter = \<lparr>ab_num_banks = 2, ab_num_collectors = 3, ab_allocated_bank = [NO_ALLOC, NO_ALLOC],
     ab_queue = [[example_op 2 0], [example_op 2 1, example_op 0 1]], ab_last_cu = 0\<rparr>"

lemma example_arbiter_ok: "arbiter_ok example_arbiter" "idle example_arbiter"
  by (auto simp: example_arbiter_def example_op_def arbiter_ok_def idle_def request_ok_def less_Suc_eq numeral_2_eq_2 numeral_3_eq_3)

text \<open>
  C15. One allocation of the arbiter is a maximal matching of register banks and collector units (\<^verbatim>\<open>gpgpu-sim/shader.cc\<close>,
  \<^verbatim>\<open>arbiter_t::allocate_reads\<close>).  With at least as many collector units as banks no assertion fails, the granted operands are the
  heads of the queues of different banks, no granted bank is being written, no two grants go to the same collector unit, and a request
  that is not granted although its bank is not written lost to a grant for the same unit.  The granted operands leave their queues, the
  other queues keep theirs, and the priority diagonal moves on by one.
\<close>

theorem arbiter_grants_matching:
  assumes "arbiter_ok a"
  shows "\<exists>bs. arbiter_allocate_reads a = Some (map (\<lambda>b. hd (ab_queue a ! b)) bs,
      a\<lparr>ab_queue := map (\<lambda>b. if b \<in> set bs then tl (ab_queue a ! b) else ab_queue a ! b) [0..<ab_num_banks a],
        ab_last_cu := (ab_last_cu a + 1) mod ab_num_collectors a\<rparr>) \<and> distinct bs
    \<and> (\<forall>b \<in> set bs. b < ab_num_banks a \<and> \<not> is_write (ab_allocated_bank a ! b) \<and> ab_queue a ! b \<noteq> [])
    \<and> (\<forall>b \<in> set bs. \<forall>b' \<in> set bs. op_cu (hd (ab_queue a ! b)) = op_cu (hd (ab_queue a ! b')) \<longrightarrow> b = b')
    \<and> (\<forall>b < ab_num_banks a. \<not> is_write (ab_allocated_bank a ! b) \<and> ab_queue a ! b \<noteq> [] \<and> b \<notin> set bs
         \<longrightarrow> (\<exists>b' \<in> set bs. op_cu (hd (ab_queue a ! b')) = op_cu (hd (ab_queue a ! b))))"
  using allocate_reads_ok [OF assms] by blast

theorem arbiter_grants_matching_witness:
  "\<exists>bs a'. arbiter_allocate_reads example_arbiter = Some (map (\<lambda>b. hd (ab_queue example_arbiter ! b)) bs, a') \<and> distinct bs \<and> bs \<noteq> []"
proof -
  obtain bs a' where bs: "arbiter_allocate_reads example_arbiter = Some (map (\<lambda>b. hd (ab_queue example_arbiter ! b)) bs, a')" "distinct bs"
    "\<forall>b < ab_num_banks example_arbiter. \<not> is_write (ab_allocated_bank example_arbiter ! b) \<and> ab_queue example_arbiter ! b \<noteq> [] \<and> b \<notin> set bs
         \<longrightarrow> (\<exists>b' \<in> set bs. op_cu (hd (ab_queue example_arbiter ! b')) = op_cu (hd (ab_queue example_arbiter ! b)))"
    using arbiter_grants_matching [OF example_arbiter_ok(1)] by blast
  from bs(3) [rule_format, of 0] have "bs \<noteq> []" by (auto simp: example_arbiter_def)
  with bs show ?thesis by blast
qed




text \<open>The assertion in the wavefront allocator is stricter than the guard after it: it fails whenever there are more banks than units.\<close>

lemma wave_diagonal_out_of_range:
  "\<lbrakk>k < n; outputs \<le> (out + k) mod square; out < square\<rbrakk> \<Longrightarrow> wave_diagonal req outputs square n i out m = None"
proof (induction n arbitrary: k i out m)
  case (Suc n)
  obtain im om where m: "m = (im, om)" by fastforce
  show ?case
  proof (cases k)
    case 0
    then show ?thesis using Suc.prems m by simp
  next
    case (Suc l)
    then have "l < n" "outputs \<le> (Suc out mod square + l) mod square" "Suc out mod square < square"
      using Suc.prems by (simp_all add: next_output)
    then show ?thesis using Suc.IH m by simp
  qed
qed simp

theorem arbiter_asserts_too_much:
  assumes "0 < ab_num_collectors a" "ab_num_collectors a < ab_num_banks a"
  shows "arbiter_allocate_reads a = None"
proof -
  let ?n = "ab_num_banks a"
  obtain k where "k < ?n" "(ab_last_cu a + k + 0) mod ?n = ?n - 1" using diagonal_exists [of "?n - 1" ?n "ab_last_cu a" 0] assms by auto
  then have k: "k < ?n" "ab_num_collectors a \<le> (ab_last_cu a mod ?n + k) mod ?n" using assms(2) by (simp_all add: mod_simps)
  then have d: "wave_diagonal req (ab_num_collectors a) ?n ?n 0 (ab_last_cu a mod ?n) m = None" for req m
    using wave_diagonal_out_of_range assms(2) by simp
  obtain n' where n': "?n = Suc n'" using assms(2) by (cases ?n) simp_all
  have "wave_loop req ?n (ab_num_collectors a) ?n (ab_last_cu a) 0 ?n m = None" for req m
    using d [of req m] by (subst (3) n') simp
  then show ?thesis using assms by (simp add: arbiter_allocate_reads_def max_absorb1 bind_eq_None_conv del: wave_loop.simps)
qed

end
