(* ===== verification/Operand_Laws.thy ===== *)
theory Operand_Laws
  imports Operand_Model
begin

text \<open>
  The operand collector as a whole: the invariant that ties the requests in the queues of the arbiter to the operands that the
  collector units still wait for.

  Main result: no assertion of a cycle of the collector or of a write-back fails, the invariant is kept, and no instruction is lost or
  duplicated on its way through the collector.
\<close>

unbundle bit_operations_syntax

subsection \<open>Invariant\<close>

definition op_key :: "op_t \<Rightarrow> nat option \<times> nat" where
  "op_key op = (op_cu op, op_operand op)"

definition pending :: "opndcoll_rfu_t \<Rightarrow> op_t multiset" where
  "pending r = mset (concat (ab_queue (rfu_arbiter r)))"

text \<open>The operands that the units wait for.\<close>

definition awaited :: "collector_unit_t list \<Rightarrow> (nat option \<times> nat) set" where
  "awaited cus = {(Some c, k) | c k. c < length cus \<and> bit (cu_not_ready (cus ! c)) k}"

definition routed :: "opndcoll_rfu_t \<Rightarrow> op_t \<Rightarrow> bool" where
  "routed r op \<longleftrightarrow> op_warp op = None \<and> (\<exists>c < length (rfu_cu r). op_cu op = Some c
     \<and> register_bank (op_register op) (cu_warp_id (rfu_cu r ! c)) (rfu_num_banks r) (rfu_bank_warp_shift r) = Some (op_bank op))"

definition requests_ok :: "opndcoll_rfu_t \<Rightarrow> bool" where
  "requests_ok r \<longleftrightarrow> image_mset op_key (pending r) = mset_set (awaited (rfu_cu r)) \<and> (\<forall>op \<in># pending r. routed r op)"

definition unit_ok :: "opndcoll_rfu_t \<Rightarrow> nat \<Rightarrow> collector_unit_t \<Rightarrow> bool" where
  "unit_ok r c cu \<longleftrightarrow> cu_cuid cu = c \<and> cu_num_banks cu = rfu_num_banks r \<and> cu_bank_warp_shift cu = rfu_bank_warp_shift r
     \<and> length (cu_src_op cu) = 16
     \<and> (if cu_free cu then cu_not_ready cu = 0 \<and> cu_warp cu = None \<and> (\<forall>op \<in> set (cu_src_op cu). \<not> op_valid op)
        else cu_warp cu \<noteq> None \<and> (\<exists>out < length (rfu_regs r). cu_output_register cu = Some out))"

definition wiring_ok :: "opndcoll_rfu_t \<Rightarrow> bool" where
  "wiring_ok r \<longleftrightarrow> (\<forall>du \<in> set (rfu_dispatch_units r). du_set du \<in> fst ` set (rfu_cus r))
     \<and> (\<forall>(s, cus) \<in> set (rfu_cus r). \<forall>u \<in> set cus. u < length (rfu_cu r))
     \<and> (\<forall>p \<in> set (rfu_in_ports r). length (ip_in p) = length (ip_out p) \<and> (\<forall>i \<in> set (ip_in p) \<union> set (ip_out p). i < length (rfu_regs r))
          \<and> (\<forall>s \<in> set (ip_cu_sets p). s \<in> fst ` set (rfu_cus r)))"

definition rfu_ok :: "opndcoll_rfu_t \<Rightarrow> bool" where
  "rfu_ok r \<longleftrightarrow> arbiter_ok (rfu_arbiter r) \<and> ab_num_banks (rfu_arbiter r) = rfu_num_banks r \<and> ab_num_collectors (rfu_arbiter r) = length (rfu_cu r)
     \<and> (\<forall>c < length (rfu_cu r). unit_ok r c (rfu_cu r ! c)) \<and> requests_ok r \<and> wiring_ok r"

definition reads_clear :: "arbiter_t \<Rightarrow> bool" where
  "reads_clear a \<longleftrightarrow> (\<forall>b < ab_num_banks a. ab_allocated_bank a ! b = NO_ALLOC \<or> is_write (ab_allocated_bank a ! b))"

text \<open>The instructions in the pipeline registers around the collector and in its units.\<close>

definition held :: "collector_unit_t \<Rightarrow> rf_inst reg_inst list" where
  "held cu = (case cu_warp cu of None \<Rightarrow> [] | Some w \<Rightarrow> [w])"

definition insts :: "opndcoll_rfu_t \<Rightarrow> rf_inst reg_inst multiset" where
  "insts r = mset (concat (map somes (rfu_regs r))) + mset (concat (map held (rfu_cu r)))"

lemma flat_update:
  assumes "i < length xs"
  shows "mset (concat (map f (xs[i := y]))) + mset (f (xs ! i)) = mset (concat (map f xs)) + mset (f y)"
proof -
  have "map f xs = map f (take i xs) @ f (xs ! i) # map f (drop (Suc i) xs)"
    by (subst id_take_nth_drop [OF assms]) simp
  then show ?thesis by (simp add: upd_conv_take_nth_drop [OF assms])
qed

lemma move_unit: "\<lbrakk>c' + h = c + h'; r' + h' = r + h\<rbrakk> \<Longrightarrow> r' + c' = r + (c :: 'a multiset)"
proof (rule multiset_eqI)
  fix x
  assume "c' + h = c + h'" "r' + h' = r + h"
  from arg_cong [OF this(1), of "\<lambda>m. count m x"] arg_cong [OF this(2), of "\<lambda>m. count m x"]
  show "count (r' + c') x = count (r + c) x" by simp
qed

lemma awaited_finite [simp]: "finite (awaited cus)"
proof (rule finite_subset)
  show "awaited cus \<subseteq> Some ` {..<length cus} \<times> {..<16}" by (auto simp: awaited_def dest: bit_imp_le_length)
qed simp

lemma submset_of_set:
  assumes "finite S" "A \<subseteq># mset_set S"
  shows "A = mset_set (set_mset A)"
proof (rule multiset_eqI)
  fix x
  have "count A x \<le> count (mset_set S) x" using assms(2) by (rule mset_subset_eq_count)
  also have "\<dots> \<le> 1" using assms(1) by (simp add: count_mset_set')
  finally have "count A x = (if x \<in># A then 1 else 0)" by (auto simp flip: count_greater_zero_iff)
  then show "count A x = count (mset_set (set_mset A)) x" by (simp add: count_mset_set')
qed

text \<open>An update of one unit that waits for no operand, before and after.\<close>

lemma awaited_update:
  "\<lbrakk>u < length cus; cu_not_ready (cus ! u) = 0\<rbrakk> \<Longrightarrow> awaited (cus[u := cu]) = awaited cus \<union> {(Some u, k) | k. bit (cu_not_ready cu) k}"
proof (rule set_eqI)
  fix x :: "nat option \<times> nat"
  assume "u < length cus" "cu_not_ready (cus ! u) = 0"
  then show "x \<in> awaited (cus[u := cu]) \<longleftrightarrow> x \<in> awaited cus \<union> {(Some u, k) | k. bit (cu_not_ready cu) k}"
    by (cases x; cases "fst x = Some u") (auto simp: awaited_def nth_list_update)
qed

lemma routed_key: "\<lbrakk>requests_ok r; op \<in># pending r\<rbrakk> \<Longrightarrow> op_key op \<in> awaited (rfu_cu r)"
proof -
  assume "requests_ok r" "op \<in># pending r"
  then have "op_key op \<in># mset_set (awaited (rfu_cu r))" unfolding requests_ok_def by (metis image_eqI set_image_mset)
  then show ?thesis by simp
qed

lemma routed_update:
  assumes "requests_ok r" "cu_not_ready (rfu_cu r ! u) = 0" "op \<in># pending r" "rfu_num_banks r' = rfu_num_banks r"
    "rfu_bank_warp_shift r' = rfu_bank_warp_shift r" "rfu_cu r' = (rfu_cu r)[u := cu]"
  shows "routed r' op"
proof -
  have rt: "routed r op" using assms(1,3) by (simp add: requests_ok_def)
  then obtain c where c: "op_cu op = Some c" "c < length (rfu_cu r)" by (auto simp: routed_def)
  have "c \<noteq> u" using routed_key [OF assms(1,3)] assms(2) c(1) by (auto simp: awaited_def op_key_def)
  then show ?thesis using rt c assms(4-6) by (auto simp: routed_def)
qed

lemma rfu_ok_idle_unit:
  assumes "rfu_ok r" "u < length (rfu_cu r)" "cu_not_ready (rfu_cu r ! u) = 0" "cu_not_ready cu = 0" "length regs = length (rfu_regs r)"
    "unit_ok r u cu" "du_set ` set dus \<subseteq> du_set ` set (rfu_dispatch_units r)"
  shows "rfu_ok (r\<lparr>rfu_dispatch_units := dus, rfu_regs := regs, rfu_cu := (rfu_cu r)[u := cu]\<rparr>)" (is "rfu_ok ?r")
proof -
  have rq: "requests_ok r" using assms(1) by (simp add: rfu_ok_def)
  have "awaited (rfu_cu ?r) = awaited (rfu_cu r)" using awaited_update [OF assms(2,3)] assms(4) by simp
  moreover have "pending ?r = pending r" by (simp add: pending_def)
  moreover have "routed ?r op" if "op \<in># pending r" for op using routed_update [OF rq assms(3) that, of ?r] by simp
  ultimately have "requests_ok ?r" using rq by (simp add: requests_ok_def)
  moreover have "unit_ok ?r c (rfu_cu ?r ! c)" if "c < length (rfu_cu r)" for c
    using assms(1,5,6) that by (cases "c = u") (auto simp: rfu_ok_def unit_ok_def)
  moreover have "wiring_ok ?r" using assms(1,5,7) by (auto simp: rfu_ok_def wiring_ok_def)
  ultimately show ?thesis using assms(1) by (simp add: rfu_ok_def)
qed

subsection \<open>Dispatch\<close>

lemma cu_ready_ok: "\<lbrakk>rfu_ok r; u < length (rfu_cu r)\<rbrakk> \<Longrightarrow> cu_ready (rfu_regs r) (rfu_cu r ! u) \<noteq> None"
  by (auto simp: rfu_ok_def unit_ok_def cu_ready_def vec_at_def split: if_splits)

lemma find_ready_ok:
  assumes "rfu_ok r" "\<forall>u \<in> set cus. u < length (rfu_cu r)"
  shows "n \<le> length cus \<Longrightarrow> \<exists>f. find_ready r cus prev k n = Some f \<and> (\<forall>c u. f = Some (c, u) \<longrightarrow> u < length (rfu_cu r) \<and> cu_ready (rfu_regs r) (rfu_cu r ! u) = Some True)"
proof (induction n arbitrary: k)
  case (Suc n)
  let ?c = "(prev + k + 1) mod length cus"
  have c: "?c < length cus" using Suc.prems by (intro mod_less_divisor) linarith
  then have u: "cus ! ?c < length (rfu_cu r)" using assms(2) by simp
  obtain b where b: "cu_ready (rfu_regs r) (rfu_cu r ! (cus ! ?c)) = Some b" using cu_ready_ok [OF assms(1) u] by blast
  show ?case
  proof (cases b)
    case True
    then show ?thesis using c u b by (simp add: vec_at_def Let_def)
  next
    case False
    then show ?thesis using c u b Suc.IH [of "Suc k"] Suc.prems by (simp add: vec_at_def)
  qed
qed simp

lemma cu_dispatch_ok:
  assumes "rfu_ok r" "u < length (rfu_cu r)" "cu_ready (rfu_regs r) (rfu_cu r ! u) = Some True"
  shows "\<exists>regs cu. cu_dispatch (rfu_regs r) (rfu_cu r ! u) = Some (regs, cu) \<and> length regs = length (rfu_regs r) \<and> unit_ok r u cu \<and> cu_not_ready cu = 0
    \<and> cu_not_ready (rfu_cu r ! u) = 0
    \<and> mset (concat (map somes regs)) + mset (held cu) = mset (concat (map somes (rfu_regs r))) + mset (held (rfu_cu r ! u))"
proof -
  let ?cu = "rfu_cu r ! u"
  have ok: "unit_ok r u ?cu" using assms(1,2) by (simp add: rfu_ok_def)
  from assms(3) have st: "\<not> cu_free ?cu" "cu_not_ready ?cu = 0" by (auto simp: cu_ready_def split: if_splits)
  from ok st(1) obtain out w where ow: "out < length (rfu_regs r)" "cu_output_register ?cu = Some out" "cu_warp ?cu = Some w" by (auto simp: unit_ok_def)
  have "has_free (rfu_regs r ! out)" using assms(3) st ow by (simp add: cu_ready_def vec_at_def)
  with register_set_moves [of "rfu_regs r ! out" w] obtain rs where
    rs: "move_in (rfu_regs r ! out) w = Some rs" "mset (somes rs) = add_mset w (mset (somes (rfu_regs r ! out)))" by (auto split: option.splits)
  let ?cu' = "?cu\<lparr>cu_warp := None, cu_free := True, cu_output_register := None, cu_src_op := map (\<lambda>op. op\<lparr>op_valid := False\<rparr>) (cu_src_op ?cu)\<rparr>"
  have "cu_dispatch (rfu_regs r) ?cu = Some ((rfu_regs r)[out := rs], ?cu')" using st ow rs(1) by (simp add: cu_dispatch_def vec_at_def)
  moreover have "unit_ok r u ?cu'" using ok st(2) by (auto simp: unit_ok_def)
  moreover have "mset (concat (map somes ((rfu_regs r)[out := rs]))) + mset (held ?cu') = mset (concat (map somes (rfu_regs r))) + mset (held ?cu)"
    using flat_update [OF ow(1), of somes rs] rs(2) ow(3) by (simp add: held_def)
  ultimately show ?thesis using st(2) by (intro exI conjI) (assumption | simp)+
qed

definition same_frame :: "opndcoll_rfu_t \<Rightarrow> opndcoll_rfu_t \<Rightarrow> bool" where
  "same_frame r r' \<longleftrightarrow> rfu_in_ports r' = rfu_in_ports r \<and> length (rfu_dispatch_units r') = length (rfu_dispatch_units r)
     \<and> ab_allocated_bank (rfu_arbiter r') = ab_allocated_bank (rfu_arbiter r) \<and> ab_num_banks (rfu_arbiter r') = ab_num_banks (rfu_arbiter r)
     \<and> insts r' = insts r"

lemma same_frame_refl [simp]: "same_frame r r" and same_frame_trans: "same_frame r r1 \<Longrightarrow> same_frame r1 r2 \<Longrightarrow> same_frame r r2"
  by (simp_all add: same_frame_def)

lemma dispatch_unit_ok:
  assumes "rfu_ok r" "p < length (rfu_dispatch_units r)"
  shows "\<exists>r'. dispatch_unit p r = Some r' \<and> rfu_ok r' \<and> same_frame r r'"
proof -
  let ?du = "rfu_dispatch_units r ! p"
  have "du_set ?du \<in> fst ` set (rfu_cus r)" using assms by (simp add: rfu_ok_def wiring_ok_def)
  then obtain cus where cus: "map_of (rfu_cus r) (du_set ?du) = Some cus" by (metis map_of_eq_None_iff option.exhaust)
  then have us: "\<forall>u \<in> set cus. u < length (rfu_cu r)" using assms(1) map_of_SomeD [OF cus] by (fastforce simp: rfu_ok_def wiring_ok_def)
  from find_ready_ok [OF assms(1) us order_refl, of "du_last_cu ?du" 0] obtain f where
    f: "find_ready r cus (du_last_cu ?du) 0 (length cus) = Some f"
      "\<And>c u. f = Some (c, u) \<Longrightarrow> u < length (rfu_cu r) \<and> cu_ready (rfu_regs r) (rfu_cu r ! u) = Some True" by blast
  show ?thesis
  proof (cases f)
    case None
    then show ?thesis using assms cus f(1) by (simp add: dispatch_unit_def vec_at_def)
  next
    case (Some cu)
    obtain c u where cu: "cu = (c, u)" by fastforce
    have u: "u < length (rfu_cu r)" "cu_ready (rfu_regs r) (rfu_cu r ! u) = Some True" using f(2) Some cu by simp_all
    from cu_dispatch_ok [OF assms(1) u] obtain regs cu' where
      d: "cu_dispatch (rfu_regs r) (rfu_cu r ! u) = Some (regs, cu')" "length regs = length (rfu_regs r)" "unit_ok r u cu'" "cu_not_ready cu' = 0"
        "cu_not_ready (rfu_cu r ! u) = 0"
        "mset (concat (map somes regs)) + mset (held cu') = mset (concat (map somes (rfu_regs r))) + mset (held (rfu_cu r ! u))" by blast
    let ?r = "r\<lparr>rfu_dispatch_units := (rfu_dispatch_units r)[p := ?du\<lparr>du_last_cu := c\<rparr>], rfu_regs := regs, rfu_cu := (rfu_cu r)[u := cu']\<rparr>"
    have "du_set ` set ((rfu_dispatch_units r)[p := ?du\<lparr>du_last_cu := c\<rparr>]) \<subseteq> du_set ` set (rfu_dispatch_units r)"
    proof -
      have "map du_set ((rfu_dispatch_units r)[p := ?du\<lparr>du_last_cu := c\<rparr>]) = map du_set (rfu_dispatch_units r)"
        using assms(2) by (simp add: map_update list_update_same_conv)
      then show ?thesis by (metis list.set_map order_refl)
    qed
    then have "rfu_ok ?r" using rfu_ok_idle_unit [OF assms(1) u(1) d(5,4,2,3)] by blast
    moreover have "insts ?r = insts r"
      using move_unit [OF flat_update [OF u(1), of held cu'] d(6)] by (simp add: insts_def)
    then have "same_frame r ?r" by (simp add: same_frame_def)
    moreover have "dispatch_unit p r = Some ?r" using assms(2) cus f(1) Some cu u(1) d(1) by (simp add: dispatch_unit_def vec_at_def)
    ultimately show ?thesis by blast
  qed
qed


lemma dispatch_ready_cu_ok:
  assumes "rfu_ok r"
  shows "\<exists>r'. dispatch_ready_cu r = Some r' \<and> rfu_ok r' \<and> same_frame r r'"
  unfolding dispatch_ready_cu_def
proof (rule loop_over_inv [where I = "\<lambda>_ r'. rfu_ok r' \<and> same_frame r r'"])
  fix ys p zs s assume "[0..<length (rfu_dispatch_units r)] = ys @ p # zs" and s: "rfu_ok s \<and> same_frame r s"
  then have "p \<in> set [0..<length (rfu_dispatch_units r)]" by (metis in_set_conv_decomp)
  then have "p < length (rfu_dispatch_units s)" using s by (simp add: same_frame_def)
  with s show "\<exists>s'. dispatch_unit p s = Some s' \<and> rfu_ok s' \<and> same_frame r s'" using dispatch_unit_ok [of s p] same_frame_trans by blast
qed (use assms in simp)

subsection \<open>Reads\<close>

lemma concat_sum: "mset (concat (map f [0..<n])) = (\<Sum>b<n. mset (f b))"
  by (induction n) simp_all

lemma pending_split:
  assumes "distinct bs" "\<forall>b \<in> set bs. b < length qs \<and> qs ! b \<noteq> []"
  shows "mset (concat qs) = mset (concat (map (\<lambda>b. if b \<in> set bs then tl (qs ! b) else qs ! b) [0..<length qs])) + mset (map (\<lambda>b. hd (qs ! b)) bs)"
proof -
  let ?n = "length qs" and ?t = "\<lambda>b. if b \<in> set bs then tl (qs ! b) else qs ! b" and ?h = "\<lambda>b. if b \<in> set bs then {#hd (qs ! b)#} else {#}"
  have "mset (concat qs) = mset (concat (map ((!) qs) [0..<?n]))" by (simp add: map_nth)
  also have "\<dots> = (\<Sum>b<?n. mset (qs ! b))" by (rule concat_sum)
  also have "\<dots> = (\<Sum>b<?n. mset (?t b) + ?h b)"
  proof (rule sum.cong [OF refl])
    fix b assume "b \<in> {..<?n}"
    show "mset (qs ! b) = mset (?t b) + ?h b" using assms(2) by (cases "qs ! b") auto
  qed
  also have "\<dots> = (\<Sum>b<?n. mset (?t b)) + (\<Sum>b<?n. ?h b)" by (rule sum.distrib)
  also have "(\<Sum>b<?n. ?h b) = (\<Sum>b \<in> set bs. {#hd (qs ! b)#})"
    using assms(2) by (subst sum.inter_restrict [symmetric]) (auto intro: sum.cong)
  also have "\<dots> = mset (map (\<lambda>b. hd (qs ! b)) bs)" using assms(1) by (induction bs) auto
  finally show ?thesis by (simp only: concat_sum)
qed

text \<open>The units after some operands have arrived.\<close>

definition arrived :: "(nat option \<times> nat) set \<Rightarrow> collector_unit_t list \<Rightarrow> collector_unit_t list \<Rightarrow> bool" where
  "arrived K cus cus' \<longleftrightarrow> length cus' = length cus
     \<and> (\<forall>c < length cus. \<exists>m. cus' ! c = (cus ! c)\<lparr>cu_not_ready := m\<rparr> \<and> (\<forall>k. bit m k \<longleftrightarrow> bit (cu_not_ready (cus ! c)) k \<and> (Some c, k) \<notin> K))"

lemma arrived_awaited: "arrived K cus cus' \<Longrightarrow> awaited cus' = awaited cus - K"
  by (fastforce simp: arrived_def awaited_def)

lemma arrived_none: "arrived {} cus cus"
proof -
  have "cus ! c = (cus ! c)\<lparr>cu_not_ready := cu_not_ready (cus ! c)\<rparr>" for c by simp
  then show ?thesis unfolding arrived_def by blast
qed

lemma arrived_step:
  assumes "arrived K cus cus'" "c < length cus"
  shows "arrived (insert (Some c, k) K) cus (cus'[c := (cus' ! c)\<lparr>cu_not_ready := unset_bit k (cu_not_ready (cus' ! c))\<rparr>])"
proof -
  let ?cus = "cus'[c := (cus' ! c)\<lparr>cu_not_ready := unset_bit k (cu_not_ready (cus' ! c))\<rparr>]"
  have len: "length cus' = length cus" using assms(1) by (simp add: arrived_def)
  have "\<exists>m. ?cus ! d = (cus ! d)\<lparr>cu_not_ready := m\<rparr> \<and> (\<forall>j. bit m j \<longleftrightarrow> bit (cu_not_ready (cus ! d)) j \<and> (Some d, j) \<notin> insert (Some c, k) K)" if d: "d < length cus" for d
  proof -
    obtain m where m: "cus' ! d = (cus ! d)\<lparr>cu_not_ready := m\<rparr>" "\<forall>j. bit m j \<longleftrightarrow> bit (cu_not_ready (cus ! d)) j \<and> (Some d, j) \<notin> K"
      using assms(1) d unfolding arrived_def by blast
    show ?thesis
    proof (cases "d = c")
      case True
      then show ?thesis using m len assms(2) by (intro exI [of _ "unset_bit k m"]) (auto simp: bit_unset_bit_iff)
    next
      case False
      then show ?thesis using m by (intro exI [of _ m]) auto
    qed
  qed
  then show ?thesis using len unfolding arrived_def by simp
qed

lemma finish_reads_ok:
  assumes "\<forall>p \<in> set ps. \<exists>c < length (rfu_cu r). op_cu (snd p) = Some c \<and> op_operand (snd p) < 16"
  shows "\<exists>cus. loop_over finish_read ps r = Some (r\<lparr>rfu_cu := cus\<rparr>) \<and> arrived (op_key ` snd ` set ps) (rfu_cu r) cus"
proof -
  let ?I = "\<lambda>ys s. \<exists>cus. s = r\<lparr>rfu_cu := cus\<rparr> \<and> arrived (op_key ` snd ` set ys) (rfu_cu r) cus"
  have "\<exists>s. loop_over finish_read ps r = Some s \<and> ?I ps s"
  proof (rule loop_over_inv [where I = ?I])
    fix ys p zs s assume ps: "ps = ys @ p # zs" and "?I ys s"
    then obtain cus where cus: "s = r\<lparr>rfu_cu := cus\<rparr>" "arrived (op_key ` snd ` set ys) (rfu_cu r) cus" by blast
    obtain c where c: "c < length (rfu_cu r)" "op_cu (snd p) = Some c" "op_operand (snd p) < 16" using assms ps by auto
    have len: "length cus = length (rfu_cu r)" using cus(2) by (simp add: arrived_def)
    have key: "op_key ` snd ` set (ys @ [p]) = insert (Some c, op_operand (snd p)) (op_key ` snd ` set ys)" using c(2) by (auto simp: op_key_def)
    have "finish_read p s = Some (r\<lparr>rfu_cu := cus[c := (cus ! c)\<lparr>cu_not_ready := unset_bit (op_operand (snd p)) (cu_not_ready (cus ! c))\<rparr>]\<rparr>)"
      using c len cus(1) by (cases p) (simp add: finish_read_def collect_operand_def vec_at_def)
    then show "\<exists>s'. finish_read p s = Some s' \<and> ?I (ys @ [p]) s'" unfolding key using arrived_step [OF cus(2) c(1)] by blast
  qed (auto simp: arrived_none intro!: exI [of _ "rfu_cu r"])
  then show ?thesis by blast
qed

lemma grant_reads_ok:
  assumes len: "length (ab_allocated_bank (rfu_arbiter r)) = ab_num_banks (rfu_arbiter r)" and dist: "distinct (map op_bank ops)"
    and ops: "\<forall>op \<in> set ops. op_valid op \<and> op_bank op < ab_num_banks (rfu_arbiter r) \<and> ab_allocated_bank (rfu_arbiter r) ! op_bank op = NO_ALLOC \<and> routed r op"
  shows "\<exists>als m. loop_over grant_read ops (r, []) = Some (r\<lparr>rfu_arbiter := (rfu_arbiter r)\<lparr>ab_allocated_bank := als\<rparr>\<rparr>, m)
    \<and> length als = ab_num_banks (rfu_arbiter r) \<and> snd ` set m = set ops"
proof -
  let ?a = "rfu_arbiter r"
  let ?I = "\<lambda>ys s. \<exists>als m. s = (r\<lparr>rfu_arbiter := ?a\<lparr>ab_allocated_bank := als\<rparr>\<rparr>, m) \<and> length als = ab_num_banks ?a
    \<and> (\<forall>b. b \<notin> op_bank ` set ys \<longrightarrow> als ! b = ab_allocated_bank ?a ! b)
    \<and> sorted_wrt (<) (map fst m) \<and> (\<forall>b op. map_of m b = Some op \<longleftrightarrow> op \<in> set ys \<and> op_bank op = b)"
  have "\<exists>s. loop_over grant_read ops (r, []) = Some s \<and> ?I ops s"
  proof (rule loop_over_inv [where I = ?I])
    fix ys op zs s assume split: "ops = ys @ op # zs" and "?I ys s"
    then obtain als m where s: "s = (r\<lparr>rfu_arbiter := ?a\<lparr>ab_allocated_bank := als\<rparr>\<rparr>, m)" "length als = ab_num_banks ?a"
      "\<forall>b. b \<notin> op_bank ` set ys \<longrightarrow> als ! b = ab_allocated_bank ?a ! b" "sorted_wrt (<) (map fst m)"
      "\<forall>b op. map_of m b = Some op \<longleftrightarrow> op \<in> set ys \<and> op_bank op = b" by blast
    let ?b = "op_bank op" and ?als = "als[op_bank op := READ_ALLOC op]"
    have op: "op_valid op" "?b < ab_num_banks ?a" "ab_allocated_bank ?a ! ?b = NO_ALLOC" "routed r op" "?b \<notin> op_bank ` set ys" using ops dist split by auto
    obtain m' where m': "at_key op (\<lambda>_. Some op) ?b m = Some m'" "sorted_wrt (<) (map fst m')" "map_of m' = (map_of m)(?b \<mapsto> op)"
      using at_key_Some [OF s(4), where f = "\<lambda>_. Some op" and k = ?b and v = op and d = op] by blast
    obtain wid where wid: "op_wid (fst s) op = Some wid" "register_bank (op_register op) wid (rfu_num_banks r) (rfu_bank_warp_shift r) = Some ?b"
      using op(4) s(1) by (auto simp: routed_def op_wid_def vec_at_def)
    have "grant_read op s = Some (r\<lparr>rfu_arbiter := ?a\<lparr>ab_allocated_bank := ?als\<rparr>\<rparr>, m')"
      using s(1-3) op m'(1) wid by (simp add: grant_read_def allocate_for_read_def vec_at_def)
    moreover have "\<forall>x \<in> set ys. op_bank x \<noteq> ?b" using op(5) by (metis imageI)
    then have "\<forall>b x. map_of m' b = Some x \<longleftrightarrow> x \<in> set (ys @ [op]) \<and> op_bank x = b" using m'(3) s(5) by auto
    moreover have "\<forall>b. b \<notin> op_bank ` set (ys @ [op]) \<longrightarrow> ?als ! b = ab_allocated_bank ?a ! b" using s(3) by auto
    ultimately show "\<exists>s'. grant_read op s = Some s' \<and> ?I (ys @ [op]) s'" using s(2) m'(2) by auto
  qed (use len in \<open>auto intro!: exI [of _ "ab_allocated_bank ?a"]\<close>)
  then obtain als m where s: "loop_over grant_read ops (r, []) = Some (r\<lparr>rfu_arbiter := ?a\<lparr>ab_allocated_bank := als\<rparr>\<rparr>, m)" "length als = ab_num_banks ?a"
    "sorted_wrt (<) (map fst m)" "\<forall>b op. map_of m b = Some op \<longleftrightarrow> op \<in> set ops \<and> op_bank op = b" by blast
  have "distinct (map fst m)" using s(3) by (simp add: strict_sorted_iff)
  then have "(b, op) \<in> set m \<longleftrightarrow> op \<in> set ops \<and> op_bank op = b" for b op using s(4) by (metis map_of_eq_Some_iff)
  then have "snd ` set m = set ops" by force
  with s(1,2) show ?thesis by blast
qed


definition carried :: "opndcoll_rfu_t \<Rightarrow> opndcoll_rfu_t \<Rightarrow> bool" where
  "carried r r' \<longleftrightarrow> rfu_in_ports r' = rfu_in_ports r \<and> insts r' = insts r"

lemma carried_refl [simp]: "carried r r" and carried_trans: "carried r r1 \<Longrightarrow> carried r1 r2 \<Longrightarrow> carried r r2"
  by (simp_all add: carried_def)

text \<open>Operands that leave the queues and arrive at their units keep the invariant.\<close>

lemma arrived_ok:
  assumes ok: "rfu_ok r" and split: "pending r = mset (concat (ab_queue a)) + mset ops" and arr: "arrived (op_key ` set ops) (rfu_cu r) cus"
    and a: "arbiter_ok a" "ab_num_banks a = rfu_num_banks r" "ab_num_collectors a = length (rfu_cu r)"
  shows "rfu_ok (r\<lparr>rfu_arbiter := a, rfu_cu := cus\<rparr>)" and "carried r (r\<lparr>rfu_arbiter := a, rfu_cu := cus\<rparr>)"
proof -
  let ?r = "r\<lparr>rfu_arbiter := a, rfu_cu := cus\<rparr>"
  have rq: "image_mset op_key (pending r) = mset_set (awaited (rfu_cu r))" "\<And>op. op \<in># pending r \<Longrightarrow> routed r op" using ok by (simp_all add: rfu_ok_def requests_ok_def)
  have len: "length cus = length (rfu_cu r)" using arr by (simp add: arrived_def)
  have sub: "image_mset op_key (mset ops) \<subseteq># mset_set (awaited (rfu_cu r))" using rq(1) split by (metis image_mset_union mset_subset_eq_add_right)
  have keys: "image_mset op_key (mset ops) = mset_set (op_key ` set ops)" using submset_of_set [OF awaited_finite sub] by simp
  have "op_key ` set ops \<subseteq> awaited (rfu_cu r)" using set_mset_mono [OF sub] by simp
  then have "mset_set (awaited cus) = mset_set (awaited (rfu_cu r)) - mset_set (op_key ` set ops)"
    unfolding arrived_awaited [OF arr] by (rule mset_set_Diff [OF awaited_finite])
  also have "\<dots> = image_mset op_key (mset (concat (ab_queue a)))" unfolding rq(1) [symmetric] keys [symmetric] split by simp
  finally have "image_mset op_key (pending ?r) = mset_set (awaited (rfu_cu ?r))" by (simp add: pending_def)
  moreover have same: "\<exists>m. cus ! c = (rfu_cu r ! c)\<lparr>cu_not_ready := m\<rparr> \<and> (\<forall>k. bit m k \<longrightarrow> bit (cu_not_ready (rfu_cu r ! c)) k)" if "c < length (rfu_cu r)" for c
    using arr that unfolding arrived_def by blast
  have "routed ?r op" if "op \<in># pending ?r" for op
  proof -
    have "op \<in># mset (concat (ab_queue a))" using that by (simp add: pending_def)
    then have "op \<in># pending r" unfolding split by simp
    then have "routed r op" by (rule rq(2))
    then obtain c where c: "c < length (rfu_cu r)" "op_cu op = Some c" "op_warp op = None"
      "register_bank (op_register op) (cu_warp_id (rfu_cu r ! c)) (rfu_num_banks r) (rfu_bank_warp_shift r) = Some (op_bank op)" by (auto simp: routed_def)
    then show ?thesis using same [OF c(1)] len by (auto simp: routed_def)
  qed
  ultimately have "requests_ok ?r" by (simp add: requests_ok_def)
  moreover have "unit_ok ?r c (rfu_cu ?r ! c)" if c: "c < length (rfu_cu r)" for c
  proof -
    obtain m where m: "cus ! c = (rfu_cu r ! c)\<lparr>cu_not_ready := m\<rparr>" "\<forall>k. bit m k \<longrightarrow> bit (cu_not_ready (rfu_cu r ! c)) k" using same [OF c] by blast
    then have "m = 0" if "cu_not_ready (rfu_cu r ! c) = 0" using that by (auto intro: bit_word_eqI)
    moreover have "unit_ok r c (rfu_cu r ! c)" using ok c by (simp add: rfu_ok_def)
    ultimately show ?thesis using m(1) by (auto simp: unit_ok_def)
  qed
  moreover have "wiring_ok ?r" using ok len by (auto simp: rfu_ok_def wiring_ok_def)
  ultimately show "rfu_ok ?r" using ok a len by (simp add: rfu_ok_def)
  have "map held cus = map held (rfu_cu r)"
  proof (rule nth_equalityI)
    fix c assume "c < length (map held cus)"
    then show "map held cus ! c = map held (rfu_cu r) ! c" using same [of c] len by (auto simp: held_def)
  qed (simp add: len)
  then show "carried r ?r" by (simp add: carried_def insts_def)
qed

lemma rfu_allocate_reads_ok:
  assumes ok: "rfu_ok r" and clear: "reads_clear (rfu_arbiter r)"
  shows "\<exists>r'. rfu_allocate_reads r = Some r' \<and> rfu_ok r' \<and> carried r r'"
proof -
  let ?a = "rfu_arbiter r"
  let ?n = "ab_num_banks ?a"
  have arb: "arbiter_ok ?a" and lenq: "length (ab_queue ?a) = ?n" and rq: "requests_ok r" using ok by (auto simp: rfu_ok_def arbiter_ok_def)
  from allocate_reads_ok [OF arb] obtain bs a1 where
    g: "arbiter_allocate_reads ?a = Some (map (\<lambda>b. hd (ab_queue ?a ! b)) bs, a1)" "distinct bs"
      "\<forall>b \<in> set bs. b < ?n \<and> \<not> writes_to ?a b \<and> ab_queue ?a ! b \<noteq> []"
    and a1: "a1 = ?a\<lparr>ab_queue := map (\<lambda>b. if b \<in> set bs then tl (ab_queue ?a ! b) else ab_queue ?a ! b) [0..<?n],
                     ab_last_cu := (ab_last_cu ?a + 1) mod ab_num_collectors ?a\<rparr>" by blast
  let ?ops = "map (\<lambda>b. hd (ab_queue ?a ! b)) bs" and ?r1 = "r\<lparr>rfu_arbiter := a1\<rparr>"
  have ok1: "arbiter_ok a1" unfolding a1 by (rule arbiter_ok_tl [OF arb])
  have hd: "op_bank (hd (ab_queue ?a ! b)) = b" "op_valid (hd (ab_queue ?a ! b))" if "b \<in> set bs" for b
  proof -
    have "hd (ab_queue ?a ! b) \<in> set (ab_queue ?a ! b)" "b < ?n" using g(3) that by auto
    then have "request_ok (ab_num_collectors ?a) b (hd (ab_queue ?a ! b))" using arb unfolding arbiter_ok_def by blast
    then show "op_bank (hd (ab_queue ?a ! b)) = b" "op_valid (hd (ab_queue ?a ! b))" by (simp_all add: request_ok_def)
  qed
  have split: "pending r = mset (concat (ab_queue a1)) + mset ?ops"
    using pending_split [OF g(2), of "ab_queue ?a"] g(3) lenq by (simp add: pending_def a1)
  then have inp: "op \<in># pending r" if "op \<in> set ?ops" for op using that by auto
  have "map op_bank ?ops = bs" using hd by (simp add: map_idI)
  then have dist: "distinct (map op_bank ?ops)" using g(2) by simp
  have "\<forall>op \<in> set ?ops. op_valid op \<and> op_bank op < ab_num_banks (rfu_arbiter ?r1)
      \<and> ab_allocated_bank (rfu_arbiter ?r1) ! op_bank op = NO_ALLOC \<and> routed ?r1 op"
  proof
    fix op assume op: "op \<in> set ?ops"
    then obtain b where b: "b \<in> set bs" "op = hd (ab_queue ?a ! b)" by auto
    have "routed r op" using rq inp [OF op] by (simp add: requests_ok_def)
    then have "routed ?r1 op" by (simp add: routed_def)
    moreover have "b < ?n" "ab_allocated_bank ?a ! b = NO_ALLOC" using clear g(3) b(1) by (auto simp: reads_clear_def)
    ultimately show "op_valid op \<and> op_bank op < ab_num_banks (rfu_arbiter ?r1)
      \<and> ab_allocated_bank (rfu_arbiter ?r1) ! op_bank op = NO_ALLOC \<and> routed ?r1 op" using hd [OF b(1)] b(2) by (simp add: a1)
  qed
  from grant_reads_ok [OF _ dist this] ok1 obtain als m where
    m: "loop_over grant_read ?ops (?r1, []) = Some (?r1\<lparr>rfu_arbiter := a1\<lparr>ab_allocated_bank := als\<rparr>\<rparr>, m)" "length als = ab_num_banks a1" "snd ` set m = set ?ops"
    by (auto simp: arbiter_ok_def)
  let ?r2 = "r\<lparr>rfu_arbiter := a1\<lparr>ab_allocated_bank := als\<rparr>\<rparr>"
  have "\<exists>c < length (rfu_cu ?r2). op_cu (snd p) = Some c \<and> op_operand (snd p) < 16" if "p \<in> set m" for p
  proof -
    have "snd p \<in># pending r" using that m(3) inp by (metis image_eqI)
    then have "op_key (snd p) \<in> awaited (rfu_cu r)" by (rule routed_key [OF rq])
    then show ?thesis by (auto simp: awaited_def op_key_def dest: bit_imp_le_length)
  qed
  then obtain cus where cus: "loop_over finish_read m ?r2 = Some (?r2\<lparr>rfu_cu := cus\<rparr>)" "arrived (op_key ` set ?ops) (rfu_cu r) cus"
    using finish_reads_ok [of m ?r2] m(3) by auto
  let ?a2 = "a1\<lparr>ab_allocated_bank := als\<rparr>"
  have a2: "arbiter_ok ?a2" "ab_num_banks ?a2 = rfu_num_banks r" "ab_num_collectors ?a2 = length (rfu_cu r)"
    using ok1 m(2) ok by (simp_all add: arbiter_ok_def a1 rfu_ok_def)
  have "pending r = mset (concat (ab_queue ?a2)) + mset ?ops" using split by simp
  from arrived_ok [OF ok this cus(2) a2] have "rfu_ok (?r2\<lparr>rfu_cu := cus\<rparr>)" "carried r (?r2\<lparr>rfu_cu := cus\<rparr>)" by simp_all
  moreover have "rfu_allocate_reads r = Some (?r2\<lparr>rfu_cu := cus\<rparr>)" using g(1) m(1) cus(1) by (simp add: rfu_allocate_reads_def)
  ultimately show ?thesis by blast
qed


subsection \<open>New instructions\<close>

text \<open>The operands in a unit: the valid ones are those it waits for, each with its bank.\<close>

definition loaded :: "collector_unit_t \<Rightarrow> bool" where
  "loaded cu \<longleftrightarrow> length (cu_src_op cu) = 16 \<and> (\<forall>k<16. (bit (cu_not_ready cu) k \<longleftrightarrow> op_valid (cu_src_op cu ! k))
     \<and> (op_valid (cu_src_op cu ! k) \<longrightarrow> op_read (cu_cuid cu) (cu_warp_id cu) k (op_register (cu_src_op cu ! k)) (cu_num_banks cu) (cu_bank_warp_shift cu) = Some (cu_src_op cu ! k)))"

lemma load_operands_ok:
  "\<lbrakk>loaded cu; \<forall>k. op \<le> k \<and> k < 16 \<longrightarrow> \<not> op_valid (cu_src_op cu ! k); op + length rs \<le> 16; cu_num_banks cu \<noteq> 0\<rbrakk>
    \<Longrightarrow> \<exists>S M. load_operands cu op rs = Some (cu\<lparr>cu_src_op := S, cu_not_ready := M\<rparr>) \<and> loaded (cu\<lparr>cu_src_op := S, cu_not_ready := M\<rparr>)"
proof (induction rs arbitrary: cu op)
  case Nil
  then show ?case by (intro exI [of _ "cu_src_op cu"] exI [of _ "cu_not_ready cu"]) simp
next
  case (Cons x rs)
  let ?S = "cu_src_op cu"
  have op: "op < 16" "length ?S = 16" using Cons.prems by (auto simp: loaded_def)
  show ?case
  proof (cases "x \<ge> 0")
    case False
    let ?cu = "cu\<lparr>cu_src_op := ?S[op := op_none]\<rparr>"
    have "loaded ?cu" using Cons.prems(1,2) op by (auto simp: loaded_def nth_list_update op_none_def)
    moreover have "\<forall>k. Suc op \<le> k \<and> k < 16 \<longrightarrow> \<not> op_valid (cu_src_op ?cu ! k)" using Cons.prems(2) by (auto simp: nth_list_update)
    ultimately show ?thesis using Cons.IH [of ?cu "Suc op"] Cons.prems(3,4) False by simp
  next
    case True
    from bit_mask_set [of op "cu_not_ready cu"] op(1) obtain m where m: "mask_set op (cu_not_ready cu) = Some m" "\<forall>j. bit m j \<longleftrightarrow> bit (cu_not_ready cu) j \<or> j = op" by auto
    obtain y where y: "op_read (cu_cuid cu) (cu_warp_id cu) op (nat x) (cu_num_banks cu) (cu_bank_warp_shift cu) = Some y" "op_valid y" "op_register y = nat x"
      using Cons.prems(4) by (auto simp: op_read_def register_bank_def)
    let ?cu = "cu\<lparr>cu_src_op := ?S[op := y], cu_not_ready := m\<rparr>"
    have "loaded ?cu" using Cons.prems(1) op m(2) y by (auto simp: loaded_def nth_list_update)
    moreover have "\<forall>k. Suc op \<le> k \<and> k < 16 \<longrightarrow> \<not> op_valid (cu_src_op ?cu ! k)" using Cons.prems(2) by (auto simp: nth_list_update)
    ultimately show ?thesis using Cons.IH [of ?cu "Suc op"] Cons.prems(3,4) True m(1) y(1) by simp
  qed
qed

lemma move_out_oldest:
  assumes "has_ready rs"
  obtains i w where "get_ready_loop rs 0 None = Some (i, w)" "move_out_to rs None = Some (w, rs[i := None])"
    "mset (somes rs) = add_mset w (mset (somes (rs[i := None])))"
proof -
  from register_set_moves [of rs undefined] assms obtain w rs' where
    m: "move_out_to rs None = Some (w, rs')" "mset (somes rs) = add_mset w (mset (somes rs'))" by (auto split: option.splits)
  then obtain i where "get_ready_loop rs 0 None = Some (i, w)" "rs' = rs[i := None]" by (auto simp: move_out_to_def bind_eq_Some_conv)
  with m that show ?thesis by blast
qed

lemma cu_allocate_ok:
  assumes ok: "rfu_ok r" and u: "u < length (rfu_cu r)" "cu_free (rfu_cu r ! u)" and i: "i < length (rfu_regs r)" "has_ready (rfu_regs r ! i)"
    and out: "out < length (rfu_regs r)"
  shows "\<exists>regs cu. cu_allocate i out (rfu_regs r) (rfu_cu r ! u) = Some (True, regs, cu) \<and> length regs = length (rfu_regs r) \<and> unit_ok r u cu \<and> loaded cu
    \<and> mset (concat (map somes regs)) + mset (held cu) = mset (concat (map somes (rfu_regs r))) + mset (held (rfu_cu r ! u))"
proof -
  let ?cu = "rfu_cu r ! u"
  have un: "unit_ok r u ?cu" "rfu_num_banks r \<noteq> 0" using ok u(1) by (auto simp: rfu_ok_def arbiter_ok_def)
  then have st: "cu_not_ready ?cu = 0" "cu_warp ?cu = None" "\<forall>op \<in> set (cu_src_op ?cu). \<not> op_valid op" "length (cu_src_op ?cu) = 16"
    using u(2) by (auto simp: unit_ok_def)
  obtain k w where w: "get_ready_loop (rfu_regs r ! i) 0 None = Some (k, w)" "move_out_to (rfu_regs r ! i) None = Some (w, (rfu_regs r ! i)[k := None])"
    "mset (somes (rfu_regs r ! i)) = add_mset w (mset (somes ((rfu_regs r ! i)[k := None])))" using move_out_oldest [OF i(2)] .
  let ?cu1 = "?cu\<lparr>cu_free := False, cu_output_register := Some out, cu_warp_id := rf_warp_id (ri_inst w)\<rparr>"
  have "loaded ?cu1" "\<forall>k. 0 \<le> k \<and> k < 16 \<longrightarrow> \<not> op_valid (cu_src_op ?cu1 ! k)" "0 + length (take 8 (rf_src (ri_inst w))) \<le> 16" "cu_num_banks ?cu1 \<noteq> 0"
    using st un by (simp_all add: loaded_def unit_ok_def min_def)
  from load_operands_ok [OF this] obtain S M where SM: "load_operands ?cu1 0 (take 8 (rf_src (ri_inst w))) = Some (?cu1\<lparr>cu_src_op := S, cu_not_ready := M\<rparr>)"
    "loaded (?cu1\<lparr>cu_src_op := S, cu_not_ready := M\<rparr>)" by blast
  let ?cu2 = "?cu1\<lparr>cu_src_op := S, cu_not_ready := M, cu_warp := Some w\<rparr>" and ?regs = "(rfu_regs r)[i := (rfu_regs r ! i)[k := None]]"
  have "cu_allocate i out (rfu_regs r) ?cu = Some (True, ?regs, ?cu2)" using u(2) st(1,2) i(1) w(1,2) SM(1) by (simp add: cu_allocate_def vec_at_def)
  moreover have "loaded ?cu2" using SM(2) by (simp add: loaded_def)
  moreover have "unit_ok r u ?cu2" using un(1) SM(2) out by (simp add: unit_ok_def loaded_def)
  moreover have "mset (concat (map somes ?regs)) + mset (held ?cu2) = mset (concat (map somes (rfu_regs r))) + mset (held ?cu)"
    using flat_update [OF i(1), of somes "(rfu_regs r ! i)[k := None]"] w(3) st(2) by (simp add: held_def)
  ultimately show ?thesis by (intro exI conjI) (assumption | simp)+
qed


lemma mod_bound: "\<lbrakk>x mod n = b; 0 < n\<rbrakk> \<Longrightarrow> b < (n :: nat)"
  by auto

lemma op_readD:
  assumes "op_read cu w k reg n sh = Some op"
  shows "op_cu op = Some cu" "op_warp op = None" "op_operand op = k" "register_bank reg w n sh = Some (op_bank op)"
  using assms by (auto simp: op_read_def bind_eq_Some_conv)

lemma loaded_op:
  assumes "loaded cu" "op \<in> set (cu_src_op cu)" "op_valid op" "cu_num_banks cu \<noteq> 0"
  shows "op_warp op = None" "op_cu op = Some (cu_cuid cu)" "op_bank op < cu_num_banks cu"
    "register_bank (op_register op) (cu_warp_id cu) (cu_num_banks cu) (cu_bank_warp_shift cu) = Some (op_bank op)"
proof -
  obtain k where "k < 16" "cu_src_op cu ! k = op" using assms(1,2) by (auto simp: loaded_def in_set_conv_nth)
  then have "op_read (cu_cuid cu) (cu_warp_id cu) k (op_register op) (cu_num_banks cu) (cu_bank_warp_shift cu) = Some op" using assms(1,3) by (auto simp: loaded_def)
  from op_readD [OF this] show "op_warp op = None" "op_cu op = Some (cu_cuid cu)" "op_bank op < cu_num_banks cu"
    "register_bank (op_register op) (cu_warp_id cu) (cu_num_banks cu) (cu_bank_warp_shift cu) = Some (op_bank op)"
    using assms(4) by (auto simp: register_bank_def split: if_splits intro: mod_bound)
qed

lemma loaded_keys:
  assumes "loaded cu"
  shows "image_mset op_key (mset (filter op_valid (cu_src_op cu))) = mset_set {(Some (cu_cuid cu), k) | k. bit (cu_not_ready cu) k}"
proof -
  let ?S = "cu_src_op cu" and ?ks = "filter (\<lambda>k. op_valid (cu_src_op cu ! k)) [0..<16]"
  have len: "length ?S = 16" using assms by (simp add: loaded_def)
  have "filter op_valid ?S = filter op_valid (map ((!) ?S) [0..<length ?S])" by (simp only: map_nth)
  also have "\<dots> = map ((!) ?S) ?ks" unfolding len by (simp only: filter_map comp_def)
  finally have "map op_key (filter op_valid ?S) = map (\<lambda>k. op_key (?S ! k)) ?ks" by (simp only: map_map comp_def)
  also have "\<dots> = map (\<lambda>k. (Some (cu_cuid cu), k)) ?ks"
  proof (rule map_cong [OF refl])
    fix k assume "k \<in> set ?ks"
    then have "op_read (cu_cuid cu) (cu_warp_id cu) k (op_register (?S ! k)) (cu_num_banks cu) (cu_bank_warp_shift cu) = Some (?S ! k)" using assms by (auto simp: loaded_def)
    then show "op_key (?S ! k) = (Some (cu_cuid cu), k)" by (simp add: op_key_def op_readD)
  qed
  finally have "image_mset op_key (mset (filter op_valid ?S)) = mset (map (\<lambda>k. (Some (cu_cuid cu), k)) ?ks)" by (metis mset_map)
  also have "\<dots> = mset_set (set (map (\<lambda>k. (Some (cu_cuid cu), k)) ?ks))"
    by (rule mset_set_set [symmetric]) (simp add: distinct_map inj_on_def del: upt_conv_Cons upt_rec_numeral)
  also have "set (map (\<lambda>k. (Some (cu_cuid cu), k)) ?ks) = {(Some (cu_cuid cu), k) | k. bit (cu_not_ready cu) k}"
  proof -
    have "k < 16 \<and> op_valid (?S ! k) \<longleftrightarrow> bit (cu_not_ready cu) k" for k
      using assms bit_imp_le_length [of "cu_not_ready cu" k] by (auto simp: loaded_def)
    then show ?thesis by (auto simp del: upt_conv_Cons upt_rec_numeral)
  qed
  finally show ?thesis .
qed

lemma add_read_requests_mset:
  "add_read_requests ops a = Some a' \<Longrightarrow> mset (concat (ab_queue a')) = mset (concat (ab_queue a)) + mset (filter op_valid ops)"
proof (induction ops arbitrary: a)
  case (Cons op ops)
  show ?case
  proof (cases "op_valid op")
    case True
    then obtain a1 where a1: "push_request op a = Some a1" "add_read_requests ops a1 = Some a'" using Cons.prems by (auto simp: add_read_requests_def bind_eq_Some_conv)
    then have "mset (concat (ab_queue a1)) = add_mset op (mset (concat (ab_queue a)))"
      using flat_update [of "op_bank op" "ab_queue a" id "ab_queue a ! op_bank op @ [op]"]
      by (auto simp: push_request_def vec_at_def bind_eq_Some_conv split: if_splits)
    then show ?thesis using Cons.IH [OF a1(2)] True by simp
  qed (use Cons in \<open>simp add: add_read_requests_def\<close>)
qed (simp add: add_read_requests_def)

lemma load_unit_ok:
  assumes ok: "rfu_ok r" and u: "u < length (rfu_cu r)" "cu_not_ready (rfu_cu r ! u) = 0"
    and cu: "unit_ok r u cu" "loaded cu" and regs: "length regs = length (rfu_regs r)"
  shows "\<exists>a. add_read_requests (cu_src_op cu) (rfu_arbiter r) = Some a \<and> rfu_ok (r\<lparr>rfu_cu := (rfu_cu r)[u := cu], rfu_regs := regs, rfu_arbiter := a\<rparr>)
    \<and> ab_allocated_bank a = ab_allocated_bank (rfu_arbiter r)"
proof -
  have arb: "arbiter_ok (rfu_arbiter r)" "ab_num_banks (rfu_arbiter r) = rfu_num_banks r" "ab_num_collectors (rfu_arbiter r) = length (rfu_cu r)" "rfu_num_banks r \<noteq> 0"
    and rq: "requests_ok r" using ok by (auto simp: rfu_ok_def arbiter_ok_def)
  have par: "cu_cuid cu = u" "cu_num_banks cu = rfu_num_banks r" "cu_bank_warp_shift cu = rfu_bank_warp_shift r" using cu(1) by (simp_all add: unit_ok_def)
  note op = loaded_op [OF cu(2) _ _ arb(4) [folded par(2)], unfolded par]
  have "\<forall>op \<in> set (cu_src_op cu). op_valid op \<longrightarrow> op_bank op < ab_num_banks (rfu_arbiter r) \<and> request_ok (ab_num_collectors (rfu_arbiter r)) (op_bank op) op"
    using op u(1) arb(2,3) by (auto simp: request_ok_def)
  from add_read_requests_ok [OF arb(1) this] obtain qs where
    qs: "add_read_requests (cu_src_op cu) (rfu_arbiter r) = Some (rfu_arbiter r\<lparr>ab_queue := qs\<rparr>)" "arbiter_ok (rfu_arbiter r\<lparr>ab_queue := qs\<rparr>)" by blast
  let ?r = "r\<lparr>rfu_cu := (rfu_cu r)[u := cu], rfu_regs := regs, rfu_arbiter := rfu_arbiter r\<lparr>ab_queue := qs\<rparr>\<rparr>"
  let ?new = "{(Some u, k) | k. bit (cu_not_ready cu) k}"
  have pend: "pending ?r = pending r + mset (filter op_valid (cu_src_op cu))" using add_read_requests_mset [OF qs(1)] by (simp add: pending_def)
  have "finite ?new" using awaited_finite [of "(rfu_cu r)[u := cu]"] awaited_update [OF u, of cu] by simp
  moreover have "awaited (rfu_cu r) \<inter> ?new = {}" using u(2) by (auto simp: awaited_def)
  ultimately have "mset_set (awaited (rfu_cu ?r)) = mset_set (awaited (rfu_cu r)) + mset_set ?new" using awaited_update [OF u, of cu] by (simp add: mset_set_Union)
  then have "image_mset op_key (pending ?r) = mset_set (awaited (rfu_cu ?r))"
    unfolding pend image_mset_union loaded_keys [OF cu(2)] par(1) using rq by (simp add: requests_ok_def)
  moreover have "routed ?r x" if "x \<in># pending ?r" for x
  proof (cases "x \<in># pending r")
    case True
    then show ?thesis using routed_update [OF rq u(2), of x ?r] by simp
  next
    case False
    then have "x \<in> set (cu_src_op cu)" "op_valid x" using that pend by auto
    then show ?thesis using op u(1) by (simp add: routed_def)
  qed
  ultimately have "requests_ok ?r" by (simp add: requests_ok_def)
  moreover have "unit_ok ?r c (rfu_cu ?r ! c)" if "c < length (rfu_cu r)" for c
    using ok cu(1) regs that by (cases "c = u") (auto simp: rfu_ok_def unit_ok_def)
  moreover have "wiring_ok ?r" using ok regs by (auto simp: rfu_ok_def wiring_ok_def)
  ultimately have "rfu_ok ?r" using qs(2) arb(2,3) by (simp add: rfu_ok_def)
  then show ?thesis using qs(1) by simp
qed


lemma find_free_ok:
  "\<forall>u \<in> set us. u < length (rfu_cu r) \<Longrightarrow> \<exists>f. find_free r us = Some f \<and> (\<forall>u. f = Some u \<longrightarrow> u < length (rfu_cu r) \<and> cu_free (rfu_cu r ! u))"
  by (induction us) (auto simp: vec_at_def)

lemma allocate_in_sets_ok:
  assumes ok: "rfu_ok r" and i: "i < length (rfu_regs r)" "has_ready (rfu_regs r ! i)" and out: "out < length (rfu_regs r)"
  shows "\<forall>s \<in> set sets. s \<in> fst ` set (rfu_cus r) \<Longrightarrow> \<exists>r'. allocate_in_sets i out sets r = Some r' \<and> rfu_ok r' \<and> carried r r'"
proof (induction sets)
  case (Cons s sets)
  then obtain cus where cus: "map_of (rfu_cus r) s = Some cus" by (metis list.set_intros(1) map_of_eq_None_iff option.exhaust)
  then have "\<forall>u \<in> set cus. u < length (rfu_cu r)" using ok map_of_SomeD [OF cus] by (fastforce simp: rfu_ok_def wiring_ok_def)
  from find_free_ok [OF this] obtain f where f: "find_free r cus = Some f" "\<And>u. f = Some u \<Longrightarrow> u < length (rfu_cu r) \<and> cu_free (rfu_cu r ! u)" by blast
  show ?case
  proof (cases f)
    case None
    then show ?thesis using Cons cus f(1) by simp
  next
    case (Some u)
    then have u: "u < length (rfu_cu r)" "cu_free (rfu_cu r ! u)" using f(2) by simp_all
    then have nr: "cu_not_ready (rfu_cu r ! u) = 0" using ok by (simp add: rfu_ok_def unit_ok_def)
    from cu_allocate_ok [OF ok u i out] obtain regs cu where
      cu: "cu_allocate i out (rfu_regs r) (rfu_cu r ! u) = Some (True, regs, cu)" "length regs = length (rfu_regs r)" "unit_ok r u cu" "loaded cu"
        "mset (concat (map somes regs)) + mset (held cu) = mset (concat (map somes (rfu_regs r))) + mset (held (rfu_cu r ! u))" by blast
    from load_unit_ok [OF ok u(1) nr cu(3,4,2)] obtain a where
      a: "add_read_requests (cu_src_op cu) (rfu_arbiter r) = Some a" "rfu_ok (r\<lparr>rfu_cu := (rfu_cu r)[u := cu], rfu_regs := regs, rfu_arbiter := a\<rparr>)" by blast
    moreover have "carried r (r\<lparr>rfu_cu := (rfu_cu r)[u := cu], rfu_regs := regs, rfu_arbiter := a\<rparr>)"
      using move_unit [OF flat_update [OF u(1), of held cu] cu(5)] by (simp add: carried_def insts_def)
    moreover have "allocate_in_sets i out (s # sets) r = Some (r\<lparr>rfu_cu := (rfu_cu r)[u := cu], rfu_regs := regs, rfu_arbiter := a\<rparr>)"
      using cus f(1) Some u(1) cu(1) a(1) by (simp add: vec_at_def)
    ultimately show ?thesis by blast
  qed
qed (use ok in simp)

lemma allocate_inputs_ok:
  assumes "rfu_ok r" "\<forall>s \<in> set sets. s \<in> fst ` set (rfu_cus r)"
  shows "\<lbrakk>length ins = length outs; \<forall>i \<in> set ins \<union> set outs. i < length (rfu_regs r)\<rbrakk> \<Longrightarrow> \<exists>r'. allocate_inputs ins outs sets r = Some r' \<and> rfu_ok r' \<and> carried r r'"
proof (induction ins outs rule: list_induct2')
  case (4 i ins out outs)
  then show ?case using allocate_in_sets_ok [OF assms(1) _ _ _ assms(2), of i out] by (simp add: vec_at_def)
qed (use assms(1) in simp_all)

lemma allocate_cu_ok: "\<lbrakk>rfu_ok r; p < length (rfu_in_ports r)\<rbrakk> \<Longrightarrow> \<exists>r'. allocate_cu p r = Some r' \<and> rfu_ok r' \<and> carried r r'"
proof -
  assume ok: "rfu_ok r" and p: "p < length (rfu_in_ports r)"
  let ?p = "rfu_in_ports r ! p"
  have "?p \<in> set (rfu_in_ports r)" using p by simp
  then have "\<forall>s \<in> set (ip_cu_sets ?p). s \<in> fst ` set (rfu_cus r)" "length (ip_in ?p) = length (ip_out ?p)" "\<forall>i \<in> set (ip_in ?p) \<union> set (ip_out ?p). i < length (rfu_regs r)"
    using ok unfolding rfu_ok_def wiring_ok_def by blast+
  from allocate_inputs_ok [OF ok this] show ?thesis using p by (simp add: allocate_cu_def vec_at_def)
qed

lemma allocate_cus_ok:
  assumes "rfu_ok r"
  shows "\<exists>r'. loop_over allocate_cu [0..<length (rfu_in_ports r)] r = Some r' \<and> rfu_ok r' \<and> carried r r'"
proof (rule loop_over_inv [where I = "\<lambda>_ r'. rfu_ok r' \<and> carried r r'"])
  fix ys p zs s assume "[0..<length (rfu_in_ports r)] = ys @ p # zs" and s: "rfu_ok s \<and> carried r s"
  then have "p \<in> set [0..<length (rfu_in_ports r)]" by (metis in_set_conv_decomp)
  then have "p < length (rfu_in_ports s)" using s by (simp add: carried_def)
  with s show "\<exists>s'. allocate_cu p s = Some s' \<and> rfu_ok s' \<and> carried r s'" using allocate_cu_ok [of s p] carried_trans by blast
qed (use assms in simp)

subsection \<open>The collector\<close>

lemma rfu_ok_allocated:
  assumes "rfu_ok r" "length als = ab_num_banks (rfu_arbiter r)"
  shows "rfu_ok (r\<lparr>rfu_arbiter := (rfu_arbiter r)\<lparr>ab_allocated_bank := als\<rparr>\<rparr>)" (is "rfu_ok ?r")
proof -
  have "\<And>c cu. unit_ok ?r c cu = unit_ok r c cu" "wiring_ok ?r = wiring_ok r" "\<And>op. routed ?r op = routed r op" "pending ?r = pending r"
    by (simp_all add: unit_ok_def wiring_ok_def routed_def pending_def)
  moreover have "arbiter_ok (rfu_arbiter ?r)" using assms by (auto simp: rfu_ok_def arbiter_ok_def)
  ultimately show ?thesis using assms(1) by (simp add: rfu_ok_def requests_ok_def)
qed

lemma rfu_step_ok:
  assumes "rfu_ok r" "reads_clear (rfu_arbiter r)"
  shows "\<exists>r'. rfu_step r = Some r' \<and> rfu_ok r' \<and> idle (rfu_arbiter r') \<and> carried r r'"
proof -
  from dispatch_ready_cu_ok [OF assms(1)] obtain r1 where r1: "dispatch_ready_cu r = Some r1" "rfu_ok r1" "same_frame r r1" by blast
  then have "reads_clear (rfu_arbiter r1)" "carried r r1" using assms(2) by (simp_all add: same_frame_def reads_clear_def carried_def)
  with rfu_allocate_reads_ok [OF r1(2)] obtain r2 where r2: "rfu_allocate_reads r1 = Some r2" "rfu_ok r2" "carried r1 r2" by blast
  from allocate_cus_ok [OF r2(2)] obtain r3 where r3: "loop_over allocate_cu [0..<length (rfu_in_ports r2)] r2 = Some r3" "rfu_ok r3" "carried r2 r3" by blast
  let ?r = "r3\<lparr>rfu_arbiter := reset_alloction (rfu_arbiter r3)\<rparr>"
  have len: "length (ab_allocated_bank (rfu_arbiter r3)) = ab_num_banks (rfu_arbiter r3)" using r3(2) by (simp add: rfu_ok_def arbiter_ok_def)
  then have "rfu_ok ?r" unfolding reset_alloction_def by (intro rfu_ok_allocated [OF r3(2)]) simp
  moreover have "idle (rfu_arbiter ?r)" using len by (simp add: idle_def reset_alloction_def map_replicate_const)
  moreover have "carried r ?r"
    using carried_trans [OF carried_trans [OF \<open>carried r r1\<close> r2(3)] r3(3)] by (simp add: carried_def insts_def)
  ultimately show ?thesis using r1(1) r2(1) r3(1) by (simp add: rfu_step_def)
qed

lemma write_registers_ok:
  "\<lbrakk>rfu_ok r; reads_clear (rfu_arbiter r)\<rbrakk> \<Longrightarrow> \<exists>b r'. write_registers wid regs r = Some (b, r') \<and> rfu_ok r' \<and> reads_clear (rfu_arbiter r') \<and> carried r r'"
proof (induction regs arbitrary: r)
  case (Cons reg regs)
  let ?a = "rfu_arbiter r"
  have len: "length (ab_allocated_bank ?a) = rfu_num_banks r" "ab_num_banks ?a = rfu_num_banks r" "0 < rfu_num_banks r"
    using Cons.prems(1) by (auto simp: rfu_ok_def arbiter_ok_def)
  obtain b where b: "register_bank reg wid (rfu_num_banks r) (rfu_bank_warp_shift r) = Some b" "b < rfu_num_banks r"
    using len(3) by (simp add: register_bank_def)
  show ?case
  proof (cases "ab_allocated_bank ?a ! b = NO_ALLOC")
    case False
    then have "write_registers wid (reg # regs) r = Some (False, r)" using b len by (simp add: bank_idle_def vec_at_def)
    then show ?thesis using Cons.prems by fastforce
  next
    case True
    obtain op where op: "op_write wid reg (rfu_num_banks r) (rfu_bank_warp_shift r) = Some op" using b(1) by (simp add: op_write_def)
    let ?r = "r\<lparr>rfu_arbiter := ?a\<lparr>ab_allocated_bank := (ab_allocated_bank ?a)[b := WRITE_ALLOC op]\<rparr>\<rparr>"
    have "rfu_ok ?r" using rfu_ok_allocated [OF Cons.prems(1)] len by simp
    moreover have "reads_clear (rfu_arbiter ?r)" using Cons.prems(2) len b(2) by (auto simp: reads_clear_def nth_list_update)
    moreover have "carried r ?r" by (simp add: carried_def insts_def)
    moreover have "write_registers wid (reg # regs) r = write_registers wid regs ?r"
      using True b op len by (simp add: bank_idle_def vec_at_def allocate_bank_for_write_def)
    ultimately show ?thesis using Cons.IH [of ?r] carried_trans by metis
  qed
qed auto

subsection \<open>Reachable states\<close>

text \<open>The shader core builds the collector from sets of units and ports, and then initialises it.\<close>

definition rfu_build ::
  "(nat \<Rightarrow> nat) \<Rightarrow> nat \<Rightarrow> nat \<Rightarrow> rf_inst register_set list \<Rightarrow> (nat \<times> nat \<times> nat) list \<Rightarrow> (nat list \<times> nat list \<times> nat list) list \<Rightarrow> opndcoll_rfu_t option" where
  "rfu_build flog num_banks warp_size regs sets ports = do {
     r \<leftarrow> loop_over (\<lambda>(s, n, d). add_cu_set s n d) sets (rfu_new regs);
     r \<leftarrow> loop_over (\<lambda>(ins, outs, ss). add_port ins outs ss) ports r;
     rfu_init flog num_banks warp_size r
   }"

definition ports_ok :: "nat \<Rightarrow> nat set \<Rightarrow> (nat list \<times> nat list \<times> nat list) list \<Rightarrow> bool" where
  "ports_ok n S ports \<longleftrightarrow> (\<forall>(ins, outs, ss) \<in> set ports. (\<forall>i \<in> set ins \<union> set outs. i < n) \<and> set ss \<subseteq> S)"

inductive rfu_reach :: "opndcoll_rfu_t \<Rightarrow> bool" where
  build: "\<lbrakk>rfu_build flog num_banks warp_size regs sets ports = Some r; ports_ok (length regs) (fst ` set sets) ports;
           num_banks \<le> sum_list (map (fst \<circ> snd) sets)\<rbrakk> \<Longrightarrow> rfu_reach r"
| cycle: "\<lbrakk>rfu_reach r; rfu_step r = Some r'\<rbrakk> \<Longrightarrow> rfu_reach r'"
| write_back: "\<lbrakk>rfu_reach r; rfu_writeback inst r = Some (b, r')\<rbrakk> \<Longrightarrow> rfu_reach r'"
| pipeline: "\<lbrakk>rfu_reach r; length regs = length (rfu_regs r)\<rbrakk> \<Longrightarrow> rfu_reach (r\<lparr>rfu_regs := regs\<rparr>)"

definition under_construction :: "rf_inst register_set list \<Rightarrow> nat set \<Rightarrow> nat \<Rightarrow> opndcoll_rfu_t \<Rightarrow> bool" where
  "under_construction regs S n r \<longleftrightarrow> wiring_ok r \<and> rfu_regs r = regs \<and> rfu_cu r = replicate n collector_new \<and> fst ` set (rfu_cus r) = S"

lemma add_cu_set_ok:
  assumes "under_construction regs S n r" "add_cu_set s k d r = Some r'"
  shows "under_construction regs (insert s S) (n + k) r'"
proof -
  have r': "r' = r\<lparr>rfu_cus := rfu_cus r @ [(s, [n..<n + k])], rfu_cu := replicate (n + k) collector_new,
             rfu_dispatch_units := rfu_dispatch_units r @ replicate d \<lparr>du_set = s, du_last_cu = 0\<rparr>\<rparr>"
    using assms by (auto simp: add_cu_set_def under_construction_def replicate_add split: if_splits)
  have w: "wiring_ok r" "length (rfu_cu r) = n" using assms(1) by (simp_all add: under_construction_def)
  have "\<forall>(t, cus) \<in> set (rfu_cus r). \<forall>u \<in> set cus. u < n + k" using w unfolding wiring_ok_def by fastforce
  moreover have "\<forall>du \<in> set (rfu_dispatch_units r). du_set du \<in> fst ` set (rfu_cus r)"
    "\<forall>p \<in> set (rfu_in_ports r). \<forall>s \<in> set (ip_cu_sets p). s \<in> fst ` set (rfu_cus r)" using w(1) unfolding wiring_ok_def by blast+
  moreover have "\<forall>p \<in> set (rfu_in_ports r). length (ip_in p) = length (ip_out p) \<and> (\<forall>i \<in> set (ip_in p) \<union> set (ip_out p). i < length (rfu_regs r))"
    using w(1) unfolding wiring_ok_def by blast
  ultimately have "wiring_ok r'" unfolding wiring_ok_def r' by (simp add: set_replicate_conv_if)
  then show ?thesis using assms(1) by (auto simp: under_construction_def r')
qed

lemma add_sets_ok:
  "\<lbrakk>under_construction regs S n r; loop_over (\<lambda>(s, n, d). add_cu_set s n d) sets r = Some r'\<rbrakk>
    \<Longrightarrow> under_construction regs (S \<union> fst ` set sets) (n + sum_list (map (fst \<circ> snd) sets)) r'"
proof (induction sets arbitrary: S n r)
  case (Cons x sets)
  obtain s k d where x: "x = (s, k, d)" by (cases x) auto
  from Cons.prems(2) x obtain r1 where r1: "add_cu_set s k d r = Some r1" "loop_over (\<lambda>(s, n, d). add_cu_set s n d) sets r1 = Some r'"
    by (auto simp: bind_eq_Some_conv)
  from Cons.IH [OF add_cu_set_ok [OF Cons.prems(1) r1(1)] r1(2)] show ?case using x by (simp add: add.assoc)
qed simp

lemma add_ports_ok:
  "\<lbrakk>under_construction regs S n r; ports_ok (length regs) S ports; loop_over (\<lambda>(ins, outs, ss). add_port ins outs ss) ports r = Some r'\<rbrakk>
    \<Longrightarrow> under_construction regs S n r'"
proof (induction ports arbitrary: r)
  case (Cons x ports)
  obtain ins outs ss where x: "x = (ins, outs, ss)" by (cases x) auto
  from Cons.prems(3) x obtain r1 where r1: "add_port ins outs ss r = Some r1" "loop_over (\<lambda>(ins, outs, ss). add_port ins outs ss) ports r1 = Some r'"
    by (auto simp: bind_eq_Some_conv)
  then have "r1 = r\<lparr>rfu_in_ports := rfu_in_ports r @ [\<lparr>ip_in = ins, ip_out = outs, ip_cu_sets = ss\<rparr>]\<rparr>" "length ins = length outs"
    by (auto simp: add_port_def split: if_splits)
  moreover have "(\<forall>i \<in> set ins \<union> set outs. i < length regs) \<and> set ss \<subseteq> S" "ports_ok (length regs) S ports" using Cons.prems(2) x by (auto simp: ports_ok_def)
  ultimately have "under_construction regs S n r1" using Cons.prems(1) by (fastforce simp: under_construction_def wiring_ok_def)
  then show ?case using Cons.IH r1(2) \<open>ports_ok (length regs) S ports\<close> by blast
qed simp

lemma rfu_init_ok:
  assumes "under_construction regs S n r" "rfu_init flog num_banks warp_size r = Some r'" "num_banks \<le> n"
  shows "rfu_ok r'" "idle (rfu_arbiter r')"
proof -
  let ?u = "\<lambda>c. collector_init c num_banks (flog warp_size) collector_new"
  have "map (\<lambda>(n, cu). collector_init n num_banks (flog warp_size) cu) (enumerate 0 (replicate n collector_new)) = map ?u [0..<n]"
    by (rule nth_equalityI) (simp_all add: nth_enumerate_eq)
  then have r': "r' = r\<lparr>rfu_arbiter := \<lparr>ab_num_banks = num_banks, ab_num_collectors = n, ab_allocated_bank = replicate num_banks NO_ALLOC,
      ab_queue = replicate num_banks [], ab_last_cu = 0\<rparr>, rfu_num_banks := num_banks, rfu_bank_warp_shift := flog warp_size, rfu_cu := map ?u [0..<n]\<rparr>"
    and pos: "0 < num_banks"
    using assms(1,2) by (auto simp: rfu_init_def arbiter_init_def under_construction_def Let_def split: if_splits)
  have nr: "cu_not_ready (?u c) = 0" for c by (simp add: collector_init_def collector_new_def)
  have "unit_ok r' c (?u c)" for c by (simp add: unit_ok_def r' collector_init_def collector_new_def op_none_def)
  moreover have "awaited (rfu_cu r') = {}" using nr by (auto simp: awaited_def r')
  moreover have "pending r' = {#}" by (simp add: pending_def r')
  moreover have "wiring_ok r'" using assms(1) by (auto simp: under_construction_def wiring_ok_def r')
  ultimately show "rfu_ok r'" using assms(3) pos by (auto simp: rfu_ok_def requests_ok_def arbiter_ok_def r')
  show "idle (rfu_arbiter r')" by (simp add: idle_def r')
qed

lemma idle_reads_clear: "idle a \<Longrightarrow> reads_clear a"
  by (simp add: idle_def reads_clear_def)

lemma rfu_ok_regs: "\<lbrakk>rfu_ok r; length regs = length (rfu_regs r)\<rbrakk> \<Longrightarrow> rfu_ok (r\<lparr>rfu_regs := regs\<rparr>)"
  by (simp add: rfu_ok_def unit_ok_def wiring_ok_def requests_ok_def routed_def pending_def)

lemma rfu_reach_ok: "rfu_reach r \<Longrightarrow> rfu_ok r \<and> reads_clear (rfu_arbiter r)"
proof (induction rule: rfu_reach.induct)
  case (build flog num_banks warp_size regs sets ports r)
  have "under_construction regs {} 0 (rfu_new regs)" by (simp add: under_construction_def rfu_new_def wiring_ok_def)
  moreover from build(1) obtain r1 r2 where
    r: "loop_over (\<lambda>(s, n, d). add_cu_set s n d) sets (rfu_new regs) = Some r1" "loop_over (\<lambda>(ins, outs, ss). add_port ins outs ss) ports r1 = Some r2"
      "rfu_init flog num_banks warp_size r2 = Some r" by (auto simp: rfu_build_def bind_eq_Some_conv)
  ultimately have "under_construction regs (fst ` set sets) (sum_list (map (fst \<circ> snd) sets)) r2"
    using add_sets_ok [OF _ r(1)] add_ports_ok [OF _ build(2) r(2)] by force
  then show ?case using rfu_init_ok [OF _ r(3) build(3)] idle_reads_clear by blast
next
  case (cycle r r')
  then show ?case using rfu_step_ok [of r] idle_reads_clear by fastforce
next
  case (write_back r inst b r')
  then show ?case using write_registers_ok [of r "rf_warp_id inst" "rf_regs_written inst"] by (fastforce simp: rfu_writeback_def)
next
  case (pipeline r regs)
  then show ?case using rfu_ok_regs by simp
qed

definition example_rfu :: opndcoll_rfu_t where
  "example_rfu = the (rfu_build (\<lambda>_. 5) 2 32
     [[Some \<lparr>ri_uid = 7, ri_inst = \<lparr>rf_warp_id = 1, rf_src = [3, - 1, 4, - 1, - 1, - 1, - 1, - 1], rf_regs_written = [5]\<rparr>\<rparr>], [None]]
     [(0, 1, 1), (1, 2, 1)] [([0], [1], [0, 1])])"

lemma example_rfu_reach: "rfu_reach example_rfu"
proof (rule rfu_reach.build [of "\<lambda>_. 5" 2 32
    "[[Some \<lparr>ri_uid = 7, ri_inst = \<lparr>rf_warp_id = 1, rf_src = [3, - 1, 4, - 1, - 1, - 1, - 1, - 1], rf_regs_written = [5]\<rparr>\<rparr>], [None]]"
    "[(0, 1, 1), (1, 2, 1)]" "[([0], [1], [0, 1])]"], unfold example_rfu_def)
qed (simp_all add: rfu_build_def rfu_new_def add_cu_set_def add_port_def rfu_init_def arbiter_init_def ports_ok_def)

text \<open>
  C5. The operand collector runs without failing an assertion and loses nothing (\<^verbatim>\<open>gpgpu-sim/shader.cc\<close>, \<^verbatim>\<open>opndcoll_rfu_t\<close>).
  In every state that is reached from a construction with at least as many units as register banks by cycles, write-backs and
  arbitrary moves of the surrounding pipeline, a cycle of the collector (dispatch, grants, arrival of operands, new instructions,
  reset) and a write-back both succeed, the queues of the arbiter hold exactly one request, with the right bank, for every operand a
  collector unit waits for, and the instructions in the pipeline registers and units together stay the same.  After a cycle all
  banks are free again.
\<close>

theorem operand_collector_safe:
  assumes "rfu_reach r"
  shows "(\<exists>r'. rfu_step r = Some r' \<and> idle (rfu_arbiter r') \<and> insts r' = insts r)
    \<and> (\<exists>b r'. rfu_writeback inst r = Some (b, r') \<and> insts r' = insts r) \<and> requests_ok r"
proof -
  have ok: "rfu_ok r" "reads_clear (rfu_arbiter r)" using rfu_reach_ok [OF assms] by simp_all
  then have "requests_ok r" by (simp add: rfu_ok_def)
  then show ?thesis
    using rfu_step_ok [OF ok] write_registers_ok [OF ok, of "rf_warp_id inst" "rf_regs_written inst"] unfolding carried_def rfu_writeback_def by blast
qed

theorem operand_collector_safe_witness: "\<exists>r'. rfu_step example_rfu = Some r' \<and> size (insts r') = 1"
proof -
  have "size (insts example_rfu) = 1"
    by (simp add: insts_def held_def example_rfu_def numeral_2_eq_2 rfu_build_def rfu_new_def add_cu_set_def add_port_def rfu_init_def arbiter_init_def collector_init_def collector_new_def)
  then show ?thesis using operand_collector_safe [OF example_rfu_reach] by metis
qed

end
