(* ===== verification/Spec2Isabelle.thy ===== *)
theory Spec2Isabelle
  imports MessageBuffer_Model Address_Model Histogram_Model Tables_Model GpuCore_Model GpuMemory_Model PtxCfg_Model GpuCache_Model Bloom_Model PtxExec_Laws NetDest_Model MemCtrl_Model BankConflict_Laws Barrier_Model Operand_Laws
begin

text \<open>
  This development verifies the core of GPGPU-Sim with the Ruby memory system.  The program simulates a GPU cycle by cycle:
  \<^verbatim>\<open>src/cuda-sim\<close> loads PTX kernels and executes their instructions functionally, \<^verbatim>\<open>src/gpgpu-sim\<close> with
  \<^verbatim>\<open>src/abstract_hardware_model.*\<close> models the time that the shader cores and their caches take, and
  \<^verbatim>\<open>src/gems-2.1.1/ruby_clean\<close> (with the containers of \<^verbatim>\<open>src/gems-2.1.1/common\<close>) is an event-driven simulator
  of coherent cache hierarchies, whose controllers exchange messages through timed buffers.

  \<^bold>\<open>Conventions.\<close>  A C++ function that may stop the simulator (\<^verbatim>\<open>assert\<close>, \<^verbatim>\<open>ERROR_MSG\<close>,
  \<^verbatim>\<open>abort\<close>, or an access out of range, which C++ leaves undefined) returns an \<open>option\<close> whose \<open>None\<close> is that
  end.  Operations take the state of their component and return the new one.  Integers of C++ are \<open>int\<close> or \<open>nat\<close> where
  their width plays no role and words where it does (addresses, block masks, program counters of the memory system, the unsigned
  counters whose wrap-around a theorem is about); each theory says which.  Code outside the sources and values that the program
  takes from the outside are arguments: \<open>wk\<close> (the wakeup bodies of consumers), \<open>rnd\<close> (results of \<^verbatim>\<open>random()\<close>),
  \<open>flog\<close> (the floating-point logarithm of histograms), \<open>machine_types\<close> (the enumeration that SLICC generates), \<open>entry0\<close>
  (a generated cache entry), \<open>ord\<close> (the iteration order of a hash map) and \<open>port_full\<close> (the answer of a memory port).

  \<^bold>\<open>Ruby: containers and events.\<close>
  \<^item> Vector_Model: \<^verbatim>\<open>common/Vector.h\<close>, in the build that checks indices (the default of
    \<^verbatim>\<open>common/Makefile.common\<close> switches the checks off; runs that pass them are the same).  Refinement to lists.
  \<^item> PrioHeap_Model: \<^verbatim>\<open>common/PrioHeap.h\<close>.  The array heap refines a multiset with a minimum, and sorts.
  \<^item> EventQueue_Model: \<^verbatim>\<open>eventqueue/RubyEventQueue*\<close>, \<^verbatim>\<open>common/Consumer.h\<close>.  Every scheduled event is delivered
    once at its time; a queue whose consumers stop scheduling drains.
  \<^item> Histogram_Model: \<^verbatim>\<open>common/Histogram.*\<close>.  Bins, counts and bounds stay consistent under additions and merging.
  \<^item> MessageBuffer_Model: \<^verbatim>\<open>buffers/MessageBuffer.*\<close>, \<^verbatim>\<open>buffers/MessageBufferNode.h\<close>,
    \<^verbatim>\<open>slicc_interface/Message.h\<close>.  Order of delivery, wakeup of the consumer, capacity, delay accounting.

  \<^bold>\<open>Ruby: configuration and addresses.\<close>
  \<^item> Config_Model: \<^verbatim>\<open>config/RubyConfig.*\<close>, \<^verbatim>\<open>common/util.C\<close>.  Initialisation and the derived parameters.
  \<^item> Address_Model: \<^verbatim>\<open>common/Address.h\<close>, \<^verbatim>\<open>slicc_interface/RubySlicc_ComponentMapping.h\<close>.  Bit operations on
    addresses, the home node of a line is unique, cache bank mappings stay in range.

  \<^bold>\<open>Ruby: caches and tables.\<close>
  \<^item> Replacement_Model: \<^verbatim>\<open>system/AbstractReplacementPolicy.h\<close>, \<^verbatim>\<open>LRUPolicy.h\<close>, \<^verbatim>\<open>PseudoLRUPolicy.h\<close>.
    The victim is never the line touched last.
  \<^item> DataBlock_Model: \<^verbatim>\<open>common/DataBlock.*\<close>, \<^verbatim>\<open>common/SubBlock.*\<close>.  Merging in and out.
  \<^item> Line_Store: the interface of structures that map lines to entries, a locale whose laws the next two theories discharge.
  \<^item> Cache_Model: \<^verbatim>\<open>system/CacheMemory.h\<close>.  The set-associative cache refines a finite map; replacement makes room;
    permissions.
  \<^item> Tables_Model: \<^verbatim>\<open>common/Map.h\<close>, \<^verbatim>\<open>system/TBETable.h\<close>, \<^verbatim>\<open>PerfectCacheMemory.h\<close>, \<^verbatim>\<open>TimerTable.*\<close>,
    \<^verbatim>\<open>DirectoryMemory.*\<close>.

  \<^bold>\<open>GPGPU-Sim.\<close>
  \<^item> Dominator_Model: the iterations of \<^verbatim>\<open>cuda-sim/ptx_ir.cc\<close> for dominators and postdominators, proved equal to
    the definition by walks; the locale \<open>block_analysis\<close> holds the theory of both directions.
  \<^item> PtxCfg_Model: \<^verbatim>\<open>ptx_assemble\<close> (\<^verbatim>\<open>cuda-sim/cuda-sim.cc\<close>), basic blocks, their connection, break targets and
    reconvergence pairs (\<^verbatim>\<open>cuda-sim/ptx_ir.cc\<close>).
  \<^item> SIMT_Model: the reconvergence stack of a warp (\<^verbatim>\<open>abstract_hardware_model.*\<close>).  Divergent groups are executed one
    by one and all threads resume at the reconvergence point.
  \<^item> GpuCore_Model: kernel launch state and pipeline registers (\<^verbatim>\<open>abstract_hardware_model.h\<close>), scoreboard
    (\<^verbatim>\<open>gpgpu-sim/scoreboard.*\<close>), delay queue (\<^verbatim>\<open>gpgpu-sim/delayqueue.h\<close>).
  \<^item> GpuMemory_Model: simulated memory (\<^verbatim>\<open>cuda-sim/memory.*\<close>), device allocation and copies, generic addresses.
  \<^item> GpuCache_Model: tag array, miss status registers, read-only and data caches (\<^verbatim>\<open>gpgpu-sim/gpu-cache.*\<close>).

  \<^bold>\<open>Ruby: signatures.\<close>
  \<^item> H3_Table: the hash matrix of \<^verbatim>\<open>filters/H3BloomFilter.C\<close>.
  \<^item> Bloom_Model: the read and write set signatures, \<^verbatim>\<open>filters/*BloomFilter.*\<close>, their common contract as a locale and
    its instances.  A filter never forgets an address, merging is union, defects.

  \<^bold>\<open>Ruby: sets of nodes.\<close>
  \<^item> NodeSet_Model: the three implementations of \<^verbatim>\<open>Set\<close> (\<^verbatim>\<open>common/OptBigSet.*\<close>, \<^verbatim>\<open>Set.*\<close>,
    \<^verbatim>\<open>BigSet.*\<close>), their common contract as the locale \<open>node_set\<close> and its three instances.  Every program gives the same
    observations in all of them.
  \<^item> NetDest_Model: network destinations \<^verbatim>\<open>common/NetDest.*\<close>, refined to sets of machines.

  \<^bold>\<open>Ruby: memory controller.\<close>
  \<^item> MemCtrl_Model: \<^verbatim>\<open>system/MemoryControl.*\<close>.  What the cycles of a run issue respects the timing of the DRAM (bank, bus,
    four activates per window) unless a fixed delay switches it off, and a cycle loses no request in either mode.

  \<^bold>\<open>GPGPU-Sim: functional execution of PTX.\<close>
  \<^item> PtxReg_Model: registers, types, symbols, operands and threads (\<^verbatim>\<open>cuda-sim/ptx_sim.*\<close>, \<^verbatim>\<open>ptx_ir.h\<close>), reading and
    writing of operands (\<^verbatim>\<open>cuda-sim/instructions.cc\<close>).  A register is a 128-bit word, floats are bit patterns.
  \<^item> PtxAlu_Model: the arithmetic, logic, comparison, move and conversion handlers of \<^verbatim>\<open>instructions.cc\<close>.  IEEE arithmetic of
    the host and the vendor's \<^verbatim>\<open>cuda-math.h\<close> are the parameter \<open>fpu\<close>, of which no law is assumed.
  \<^item> PtxArith_Laws: condition codes after a subtraction, exact products, conversions between integers, predicates, defects.
  \<^item> PtxExec_Model: loads, stores, atomics, branches, calls, votes and the frame around a handler; an abort or a failed
    assertion is \<open>None\<close>.
  \<^item> PtxExec_Laws: store and load, atomics of several threads, call and return, votes of a warp, guarded branches.

  \<^bold>\<open>GPGPU-Sim: shader core.\<close>
  \<^item> Coalesce_Model: the memory accesses of a warp (\<^verbatim>\<open>abstract_hardware_model.*\<close>).  The coalesced accesses cover exactly what
    the threads ask for, with no access larger than needed; atomics on the same bytes are kept apart.
  \<^item> BankConflict_Laws: the cycles of a shared memory access are its conflict degree; constant and texture accesses by line.
  \<^item> Barrier_Model: \<^verbatim>\<open>barrier_set_t\<close> of \<^verbatim>\<open>gpgpu-sim/shader.*\<close>.  Barriers open with the last arrival and never block.
  \<^item> Operand_Model: \<^verbatim>\<open>opndcoll_rfu_t\<close>, the operand collector.  The wavefront allocator grants maximal matchings and is fair.
  \<^item> Operand_Laws: the states that the collector reaches; its cycles fail no assertion and lose no instruction.

  \<^bold>\<open>Loops.\<close>  Loops over an index are structural recursion or \<^verbatim>\<open>function\<close> with a measure.  Loops whose end is not evident are
  \<^verbatim>\<open>partial_function (option)\<close>, and their end is a theorem: the event loops (\<open>triggerEvents_delivers\<close>,
  \<open>triggerAllEvents_drains\<close>) and the iterations to a fixed point of the dominator analyses.  The two
  loops of the simulated memory that go from block to block count their rounds, one per byte of the access, which is enough.

  \<^bold>\<open>Not modelled.\<close>  The coherence protocols (\<^verbatim>\<open>protocols/*.sm\<close>) and what SLICC generates from them, the SLICC compiler,
  the interconnects (\<^verbatim>\<open>ruby_clean/network\<close>, \<^verbatim>\<open>intersim\<close>) with their power models, the sequencer
  of Ruby, the PTX parser, the
  fetch, schedulers and load-store unit of the shader core, the memory partitions and the DRAM, the statistics, visualisation and tracing code, the testers, the Simics glue and
  devices, scripts and microbenchmarks.  Output, destructors and statistics of the modelled classes are left out as well.
\<close>

end
